(* ===== verification/Prelude.thy ===== *)
theory Prelude imports Main "HOL-Library.Word" "HOL-Library.Signed_Division" begin

section \<open>Shared vocabulary: outcomes of C code, machine integers, character classes\<close>

text \<open>
  What every component of the model shares.  A C function is a function from the state to an
  outcome: it returns (\<open>Ok\<close>), the program calls \<open>fatal_handler\<close> and exits (\<open>Exit\<close>), its
  behaviour is undefined (\<open>Undef\<close>, with the kind of the fault), or the fuel of a recursion of the
  model is used up (\<open>Diverge\<close>; each use comes with a lemma that it does not happen).  \<open>bnd\<close>
  sequences two pieces of code, \<open>wp m Q\<close> says that \<open>m\<close> returns and that its result satisfies \<open>Q\<close>.
  Further: \<open>int\<close>, \<open>unsigned\<close> and \<open>size_t\<close> as words with the overflow of signed arithmetic as a
  fault, and the character classes of \<open>ctype.h\<close> in the C locale.
\<close>

subsection \<open>Outcomes\<close>

datatype fault = NullDeref | UseAfterFree | DoubleFree | OutOfBounds | UninitRead
  | TypeConfusion | SignedOverflow | DivByZero

datatype 'a res = Ok 'a | Undef fault | Exit | Diverge

primrec bnd :: "'a res \<Rightarrow> ('a \<Rightarrow> 'b res) \<Rightarrow> 'b res" where
  "bnd (Ok x) f = f x"
| "bnd (Undef k) f = Undef k"
| "bnd Exit f = Exit"
| "bnd Diverge f = Diverge"

primrec wp :: "'a res \<Rightarrow> ('a \<Rightarrow> bool) \<Rightarrow> bool" where
  "wp (Ok x) Q = Q x"
| "wp (Undef k) Q = False"
| "wp Exit Q = False"
| "wp Diverge Q = False"

named_theorems wp_rules "rules that compute the weakest precondition of an operation"
named_theorems frame_rules "fields of the state an operation leaves alone"

lemma bnd_assoc [simp]: "bnd (bnd m f) g = bnd m (\<lambda>x. bnd (f x) g)"
  by (cases m) simp_all

lemma bnd_cong [fundef_cong]:
  "m = m' \<Longrightarrow> (\<And>x. m' = Ok x \<Longrightarrow> f x = g x) \<Longrightarrow> bnd m f = bnd m' g"
  by (cases m') simp_all

lemma bnd_eq_Ok: "bnd m f = Ok y \<longleftrightarrow> (\<exists>x. m = Ok x \<and> f x = Ok y)"
  by (cases m) simp_all

lemma wp_iff: "wp m Q \<longleftrightarrow> (\<exists>x. m = Ok x \<and> Q x)"
  by (cases m) simp_all

lemma wp_bnd [simp]: "wp (bnd m f) Q = wp m (\<lambda>x. wp (f x) Q)"
  by (cases m) simp_all

lemma wp_mono: "wp m P \<Longrightarrow> (\<And>x. P x \<Longrightarrow> Q x) \<Longrightarrow> wp m Q"
  by (cases m) simp_all

lemma wp_conj: "wp m P \<Longrightarrow> wp m Q \<Longrightarrow> wp m (\<lambda>x. P x \<and> Q x)"
  by (cases m) simp_all

lemma wp_Ok_eq: "wp m Q \<Longrightarrow> m = Ok x \<Longrightarrow> Q x"
  by simp

lemma wp_if [simp]: "wp (if b then m else n) Q = (if b then wp m Q else wp n Q)"
  by simp

subsection \<open>Machine integers\<close>

type_synonym c_int = "32 word"
type_synonym c_uint = "32 word"
type_synonym size_t = "64 word"

definition in_int :: "int \<Rightarrow> bool" where
  "in_int i \<longleftrightarrow> -2147483648 \<le> i \<and> i \<le> 2147483647"

text \<open>The result of a signed operation whose mathematical value is \<open>i\<close>: overflow is undefined.\<close>

definition chk :: "int \<Rightarrow> c_int res" where
  "chk i = (if in_int i then Ok (word_of_int i) else Undef SignedOverflow)"

definition c_add :: "c_int \<Rightarrow> c_int \<Rightarrow> c_int res" where
  "c_add a b = chk (sint a + sint b)"

definition c_sub :: "c_int \<Rightarrow> c_int \<Rightarrow> c_int res" where
  "c_sub a b = chk (sint a - sint b)"

definition c_mul :: "c_int \<Rightarrow> c_int \<Rightarrow> c_int res" where
  "c_mul a b = chk (sint a * sint b)"

definition c_div :: "c_int \<Rightarrow> c_int \<Rightarrow> c_int res" where
  "c_div a b = (if b = 0 then Undef DivByZero else chk (sint a sdiv sint b))"

definition c_mod :: "c_int \<Rightarrow> c_int \<Rightarrow> c_int res" where
  "c_mod a b = (if b = 0 then Undef DivByZero
     else bnd (chk (sint a sdiv sint b)) (\<lambda>_. chk (sint a smod sint b)))"

lemma sint_in_int [simp]: "in_int (sint (w :: c_int))"
proof -
  have "- (2 ^ 31) \<le> sint w" and "sint w < 2 ^ 31"
    using sint_greater_eq [of w] sint_less [of w] by simp_all
  then show ?thesis by (simp add: in_int_def)
qed

lemma sint_word_of_int: "in_int i \<Longrightarrow> sint (word_of_int i :: c_int) = i"
  by (simp add: in_int_def sint_sbintrunc' signed_take_bit_int_eq_self)

lemma chk_Ok [simp]: "in_int i \<Longrightarrow> chk i = Ok (word_of_int i)"
  by (simp add: chk_def)

lemma chk_overflow [simp]: "\<not> in_int i \<Longrightarrow> chk i = Undef SignedOverflow"
  by (simp add: chk_def)

lemma chk_sint: "chk i = Ok w \<Longrightarrow> sint w = i"
  by (auto simp: chk_def sint_word_of_int split: if_splits)

text \<open>Conversion of an \<open>int\<close> to \<open>size_t\<close> extends the sign.\<close>

definition size_of_int :: "c_int \<Rightarrow> size_t" where
  "size_of_int w = word_of_int (sint w)"

subsection \<open>Characters\<close>

text \<open>
  \<open>fgetc\<close> yields an \<open>int\<close>, 0 to 255 or \<open>EOF\<close>; storing it into a \<open>char\<close> keeps the low byte.
  The classes are those of the C locale, where bytes from 128 on belong to none of them.
\<close>

abbreviation EOF :: int where "EOF \<equiv> -1"

definition to_char :: "int \<Rightarrow> char" where
  "to_char i = char_of (i mod 256)"

definition isspace :: "int \<Rightarrow> bool" where
  "isspace i \<longleftrightarrow> i = 32 \<or> (9 \<le> i \<and> i \<le> 13)"

definition isdigit :: "int \<Rightarrow> bool" where
  "isdigit i \<longleftrightarrow> 48 \<le> i \<and> i \<le> 57"

definition isalpha :: "int \<Rightarrow> bool" where
  "isalpha i \<longleftrightarrow> (65 \<le> i \<and> i \<le> 90) \<or> (97 \<le> i \<and> i \<le> 122)"

definition isalnum :: "int \<Rightarrow> bool" where
  "isalnum i \<longleftrightarrow> isalpha i \<or> isdigit i"

definition isprint :: "int \<Rightarrow> bool" where
  "isprint i \<longleftrightarrow> 32 \<le> i \<and> i \<le> 126"

abbreviation NUL :: char where "NUL \<equiv> CHR 0x00"

text \<open>The string that a character array holds: up to its first NUL.\<close>

definition cstr :: "string \<Rightarrow> string" where
  "cstr xs = takeWhile (\<lambda>x. x \<noteq> NUL) xs"

lemma isspace_EOF [simp]: "\<not> isspace (-1)"
  by (simp add: isspace_def)

lemma isalnum_NUL [simp]: "\<not> isalnum 0"
  by (simp add: isalnum_def isalpha_def isdigit_def)

lemma isdigit_NUL [simp]: "\<not> isdigit 0"
  by (simp add: isdigit_def)

lemma isalpha_NUL [simp]: "\<not> isalpha 0"
  by (simp add: isalpha_def)

lemma to_char_of_char [simp]: "to_char (of_char x) = x"
proof -
  have "of_char x mod (256 :: int) = of_char x"
    using of_char_mod_256 [of x, where 'a = int] by simp
  then show ?thesis by (simp add: to_char_def)
qed

lemma cstr_no_NUL [simp]: "NUL \<notin> set xs \<Longrightarrow> cstr xs = xs"
  by (auto simp: cstr_def takeWhile_eq_all_conv)

lemma NUL_notin_cstr [simp]: "NUL \<notin> set (cstr xs)"
  by (auto simp: cstr_def dest: set_takeWhileD)

end
