(* ===== verification/Libvoids.thy ===== *)
theory Libvoids imports Prelude begin

section \<open>The container library as a parameter\<close>

text \<open>
  The program keeps its variables, labels, globals and instruction names in a \<open>QuadHashtable\<close> and
  the tokens of a line in a \<open>RingBuffer\<close>, both of the library libvoids, a git submodule whose code
  is not part of the repository.  Every definition that uses them takes the library as an argument
  \<open>V\<close>, a record of its operations; what the callers rely on is stated as the locales \<open>hashtable\<close>
  and \<open>ringbuffer\<close>, over an abstraction of a table to a finite map and of a buffer to a list.

  Pointers are natural numbers, 0 is \<open>NULL\<close>.  A table holds pairs of a key pointer and a data
  pointer (\<open>KeyValuePair\<close>) under the string the key pointer led to when it was inserted: tables are
  built with \<open>symbol_name_cmp\<close>, which compares the strings.  A pointer to a pair is an opaque handle
  that an insertion may invalidate (the table can grow), so each use of a handle asks \<open>qh_valid\<close>.
\<close>

type_synonym addr = nat

abbreviation NULL :: addr where "NULL \<equiv> 0"

datatype vdsErrCode = VDS_SUCCESS | VDS_KEY_EXISTS | VDS_BUFFER_EMPTY | VDS_BUFFER_FULL | VDS_OTHER

record ('h, 'p, 'r) voids =
  qh_init :: "nat \<Rightarrow> 'h"
  qh_find :: "'h \<Rightarrow> string \<Rightarrow> 'p option \<times> vdsErrCode"
  qh_insert :: "'h \<Rightarrow> string \<Rightarrow> addr \<Rightarrow> addr \<Rightarrow> 'h \<times> 'p option \<times> vdsErrCode"
  qh_valid :: "'h \<Rightarrow> 'p \<Rightarrow> bool"
  qh_pair :: "'h \<Rightarrow> 'p \<Rightarrow> addr \<times> addr"
  qh_set_data :: "'h \<Rightarrow> 'p \<Rightarrow> addr \<Rightarrow> 'h"
  qh_items :: "'h \<Rightarrow> (addr \<times> addr) list"
  rb_init :: "nat \<Rightarrow> 'r"
  rb_read :: "'r \<Rightarrow> 'r \<times> addr \<times> vdsErrCode"
  rb_write :: "'r \<Rightarrow> addr \<Rightarrow> 'r \<times> vdsErrCode"
  rb_resize :: "'r \<Rightarrow> nat \<Rightarrow> 'r \<times> vdsErrCode"
  rb_size :: "'r \<Rightarrow> nat"
  rb_items :: "'r \<Rightarrow> addr list"

subsection \<open>What the callers rely on\<close>

locale hashtable =
  fixes V :: "('h, 'p, 'r) voids"
    and hinv :: "'h \<Rightarrow> bool"
    and hmap :: "'h \<Rightarrow> string \<Rightarrow> (addr \<times> addr) option"
  assumes init: "0 < n \<Longrightarrow> hinv (qh_init V n) \<and> hmap (qh_init V n) = Map.empty"
    and find_None: "hinv h \<Longrightarrow> hmap h k = None \<Longrightarrow> qh_find V h k = (None, VDS_SUCCESS)"
    and find_Some: "hinv h \<Longrightarrow> hmap h k = Some kd \<Longrightarrow>
      \<exists>p. qh_find V h k = (Some p, VDS_SUCCESS) \<and> qh_valid V h p \<and> qh_pair V h p = kd"
    and set_data: "hinv h \<Longrightarrow> qh_find V h k = (Some p, e) \<Longrightarrow>
      hinv (qh_set_data V h p d) \<and>
      hmap (qh_set_data V h p d) = (hmap h)(k \<mapsto> (fst (qh_pair V h p), d))"
    and set_data_find: "hinv h \<Longrightarrow> qh_find V h k = (Some p, e) \<Longrightarrow>
      qh_find V (qh_set_data V h p d) k' = qh_find V h k'"
    and insert_new: "hinv h \<Longrightarrow> hmap h k = None \<Longrightarrow>
      \<exists>h' p. qh_insert V h k ka d = (h', Some p, VDS_SUCCESS) \<and> hinv h' \<and>
        hmap h' = (hmap h)(k \<mapsto> (ka, d))"
    and insert_old: "hinv h \<Longrightarrow> hmap h k = Some kd \<Longrightarrow>
      \<exists>p. qh_insert V h k ka d = (h, Some p, VDS_KEY_EXISTS) \<and> qh_valid V h p \<and>
        qh_pair V h p = kd"
    and items: "hinv h \<Longrightarrow> finite (dom (hmap h)) \<and> (\<exists>ks. distinct ks \<and> set ks = dom (hmap h) \<and>
      qh_items V h = map (\<lambda>k. the (hmap h k)) ks)"

locale ringbuffer =
  fixes V :: "('h, 'p, 'r) voids"
    and rinv :: "'r \<Rightarrow> bool"
    and rlist :: "'r \<Rightarrow> addr list"
  assumes rb_init: "0 < n \<Longrightarrow> rinv (rb_init V n) \<and> rlist (rb_init V n) = [] \<and> rb_size V (rb_init V n) = n"
    and read_Nil: "rinv r \<Longrightarrow> rlist r = [] \<Longrightarrow> rb_read V r = (r, NULL, VDS_BUFFER_EMPTY)"
    and read_Cons: "rinv r \<Longrightarrow> rlist r = a # as \<Longrightarrow>
      \<exists>r'. rb_read V r = (r', a, VDS_SUCCESS) \<and> rinv r' \<and> rlist r' = as \<and> rb_size V r' = rb_size V r"
    and write_room: "rinv r \<Longrightarrow> length (rlist r) < rb_size V r \<Longrightarrow>
      \<exists>r'. rb_write V r a = (r', VDS_SUCCESS) \<and> rinv r' \<and> rlist r' = rlist r @ [a] \<and>
        rb_size V r' = rb_size V r"
    and write_full: "rinv r \<Longrightarrow> rb_size V r \<le> length (rlist r) \<Longrightarrow>
      rb_write V r a = (r, VDS_BUFFER_FULL)"
    and resize: "rinv r \<Longrightarrow> rb_size V r < n \<Longrightarrow>
      \<exists>r'. rb_resize V r n = (r', VDS_SUCCESS) \<and> rinv r' \<and> rlist r' = rlist r \<and> rb_size V r' = n"
    and size_bound: "rinv r \<Longrightarrow> length (rlist r) \<le> rb_size V r"
    and rb_items: "rinv r \<Longrightarrow> rb_items V r = rlist r"

locale voids_lib = hashtable V hinv hmap + ringbuffer V rinv rlist
  for V :: "('h, 'p, 'r) voids"
    and hinv :: "'h \<Rightarrow> bool" and hmap :: "'h \<Rightarrow> string \<Rightarrow> (addr \<times> addr) option"
    and rinv :: "'r \<Rightarrow> bool" and rlist :: "'r \<Rightarrow> addr list"

subsection \<open>A reference implementation\<close>

text \<open>
  An association list and a bounded list.  They satisfy both contracts, so the contracts can be
  met, and the witnesses of the development run the model on them.
\<close>

type_synonym lhash = "(string \<times> addr \<times> addr) list"
type_synonym lring = "nat \<times> addr list"

fun l_set_data :: "lhash \<Rightarrow> string \<Rightarrow> addr \<Rightarrow> lhash" where
  "l_set_data [] k d = []"
| "l_set_data ((k', ka, d') # h) k d =
     (if k' = k then (k', ka, d) # h else (k', ka, d') # l_set_data h k d)"

fun l_read :: "lring \<Rightarrow> lring \<times> addr \<times> vdsErrCode" where
  "l_read (n, []) = ((n, []), NULL, VDS_BUFFER_EMPTY)"
| "l_read (n, a # as) = ((n, as), a, VDS_SUCCESS)"

definition list_voids :: "(lhash, string, lring) voids" where
  "list_voids = \<lparr>
     qh_init = (\<lambda>_. []),
     qh_find = (\<lambda>h k. (case map_of h k of None \<Rightarrow> None | Some _ \<Rightarrow> Some k, VDS_SUCCESS)),
     qh_insert = (\<lambda>h k ka d. case map_of h k of
        None \<Rightarrow> (h @ [(k, ka, d)], Some k, VDS_SUCCESS)
      | Some _ \<Rightarrow> (h, Some k, VDS_KEY_EXISTS)),
     qh_valid = (\<lambda>h k. map_of h k \<noteq> None),
     qh_pair = (\<lambda>h k. the (map_of h k)),
     qh_set_data = l_set_data,
     qh_items = map snd,
     rb_init = (\<lambda>n. (n, [])),
     rb_read = l_read,
     rb_write = (\<lambda>(n, as) a. if length as < n then ((n, as @ [a]), VDS_SUCCESS)
                                else ((n, as), VDS_BUFFER_FULL)),
     rb_resize = (\<lambda>(n, as) m. ((m, as), VDS_SUCCESS)),
     rb_size = fst,
     rb_items = snd \<rparr>"

abbreviation l_hinv :: "lhash \<Rightarrow> bool" where "l_hinv h \<equiv> distinct (map fst h)"
abbreviation l_rinv :: "lring \<Rightarrow> bool" where "l_rinv r \<equiv> length (snd r) \<le> fst r"

lemma map_of_set_data:
  "map_of (l_set_data h k d) =
    (case map_of h k of None \<Rightarrow> map_of h | Some kd \<Rightarrow> (map_of h)(k \<mapsto> (fst kd, d)))"
  by (induction h k d rule: l_set_data.induct) (auto simp: fun_eq_iff split: option.splits)

lemma keys_set_data: "map fst (l_set_data h k d) = map fst h"
  by (induction h k d rule: l_set_data.induct) auto

lemma map_of_snoc:
  "map_of h k = None \<Longrightarrow> map_of (h @ [(k, x)]) = (map_of h)(k \<mapsto> x)"
  by (rule ext) (auto simp: map_add_def split: option.split)

lemma items_of_keys:
  assumes "distinct (map fst h)"
  shows "map snd h = map (\<lambda>k. the (map_of h k)) (map fst h)"
  using assms by (auto simp: map_of_is_SomeI)

interpretation lv: voids_lib list_voids l_hinv map_of l_rinv snd
proof (unfold_locales, goal_cases)
  case (8 h)
  have "qh_items list_voids h = map (\<lambda>k. the (map_of h k)) (map fst h)"
    by (subst items_of_keys [OF 8, symmetric]) (simp add: list_voids_def)
  moreover have "set (map fst h) = dom (map_of h)"
    by (simp add: dom_map_of_conv_image_fst)
  ultimately show ?case
    using 8 finite_dom_map_of [of h] by blast
next
  case (6 h k ka d)
  then have "k \<notin> set (map fst h)" by (simp add: map_of_eq_None_iff)
  with 6 show ?case
    by (simp add: list_voids_def map_of_snoc del: map_of_append)
next
  case (4 h k p e d)
  then show ?case
    by (auto simp: list_voids_def keys_set_data map_of_set_data split: option.splits)
next
  case (5 h k p e d k')
  then show ?case
    by (auto simp: list_voids_def map_of_set_data split: option.splits)
qed (auto simp: list_voids_def split: option.splits)

end
