(* ===== verification/Program.thy ===== *)
theory Program imports Prelude Libvoids begin

section \<open>Program state and memory (program.c, program.h, scanner.h, exec.h, global.h, error.c)\<close>

text \<open>
  The data of the interpreter.  The heap maps the address of each live block to its contents, one
  constructor per C type the code allocates; addresses are never reused, so an access through a
  pointer to a freed block is a fault and not an access to another block.  A \<open>program_s\<close> holds the
  fields of the C structure; its \<open>FILE *\<close> is the contents of the file and the position in it.  The
  state of one interpreter thread extends it with what the thread shares with the others: the heap,
  the table of instruction names, the table of globals, and the messages written so far.
\<close>

subsection \<open>Tokens, labels, globals\<close>

datatype token_type_e = LABEL_TOK | INSTRUCTION_TOK | INT_VAL_TOK | INT_VAR_TOK | INT_ARR_TOK
  | STRING_TOK

text \<open>The union of a pointer and an \<open>int\<close>, with the value it has before anything is stored.\<close>

datatype varval_u = Ptr addr | Value c_int | Uninit

record token_s =
  tok_data :: varval_u
  tok_len :: nat
  tok_type :: token_type_e
  tok_line :: c_uint
  tok_column :: c_uint
  tok_prev_col :: c_uint
  tok_offset :: nat

record int_arr_tok_s =
  at_idx :: varval_u
  at_idx_type :: "token_type_e option"  \<comment> \<open>\<open>None\<close> until it is stored\<close>
  at_name :: addr

record label_data_s =
  lbl_placeholder :: c_int
  lbl_line :: c_uint
  lbl_column :: c_uint
  lbl_prev_col :: c_uint
  lbl_offset :: nat

record global_var_s =
  gv_count :: addr
  gv_len :: size_t

text \<open>The cells of an \<open>int\<close> array are \<open>None\<close> until they are stored.\<close>

datatype block = StrB string | IntsB "c_int option list" | ArrTokB int_arr_tok_s | TokB token_s
  | LabelB label_data_s | GVarB global_var_s

subsection \<open>Instruction names\<close>

datatype instruction_id_e = LOAD_SYM | STORE_SYM | SET_SYM | ADD_SYM | SUB_SYM | MUL_SYM | DIV_SYM
  | MOD_SYM | BRGT_SYM | BRGE_SYM | BRLT_SYM | BRLE_SYM | BREQ_SYM | BRA_SYM | DOWN_SYM | UP_SYM
  | SLEEP_SYM | PRINT_SYM | RETURN_SYM

definition instructions :: "instruction_id_e list" where
  "instructions = [LOAD_SYM, STORE_SYM, SET_SYM, ADD_SYM, SUB_SYM, MUL_SYM, DIV_SYM, MOD_SYM,
     BRGT_SYM, BRGE_SYM, BRLT_SYM, BRLE_SYM, BREQ_SYM, BRA_SYM, DOWN_SYM, UP_SYM, SLEEP_SYM,
     PRINT_SYM, RETURN_SYM]"

text \<open>The value of a constant of the enumeration.\<close>

fun ins_code :: "instruction_id_e \<Rightarrow> nat" where
  "ins_code LOAD_SYM = 0" | "ins_code STORE_SYM = 1" | "ins_code SET_SYM = 2"
| "ins_code ADD_SYM = 3" | "ins_code SUB_SYM = 4" | "ins_code MUL_SYM = 5"
| "ins_code DIV_SYM = 6" | "ins_code MOD_SYM = 7" | "ins_code BRGT_SYM = 8"
| "ins_code BRGE_SYM = 9" | "ins_code BRLT_SYM = 10" | "ins_code BRLE_SYM = 11"
| "ins_code BREQ_SYM = 12" | "ins_code BRA_SYM = 13" | "ins_code DOWN_SYM = 14"
| "ins_code UP_SYM = 15" | "ins_code SLEEP_SYM = 16" | "ins_code PRINT_SYM = 17"
| "ins_code RETURN_SYM = 18"

subsection \<open>Messages\<close>

text \<open>The texts of \<open>err_msg\<close> and \<open>warn_msg\<close>, one constructor each.\<close>

datatype msg = MSymbolTooBig | MBadVarName | MSymbolTooLong | MClosingBrackets | MNegativeIndexChar
  | MBadDigit | MTooManyDigits | MNotVarOrValue | MNotSimbly | MMagicTrailing | MInvalidLabel
  | MLabelChars | MUnknownInstruction | MLabelNeedsInstruction | MArgCount instruction_id_e
  | MFirstArgVariable instruction_id_e | MMoreArguments instruction_id_e
  | MLabelArgument instruction_id_e | MPrintNeedsString | MStringEOF | MStringTooBig
  | MNonPrintable | MPrintEOF | MStringSpace | MArgvBounds | MLabelExists | MArrayByName
  | MNegativeIndex | MArgcConstant | MArgvConstant | MLabelRedefined | MBranchToVariable
  | MUndefinedLabel | MNegativeSleep

datatype event = Err c_uint c_uint msg | Warn c_uint c_uint msg
  | Says c_int | SaysStr string | SaysInt c_int | SaysNl

subsection \<open>The program structure and the thread's state\<close>

datatype program_state_e = MAGIC_LINE | INSTRUCTION_LINE | LAST_LINE | SLEEPING | BLOCKED | FINISHED

record ('h, 'r) program_s =
  fbuf :: string          \<comment> \<open>\<open>fd\<close>: the contents of the file\<close>
  fpos :: nat             \<comment> \<open>\<open>fd\<close>: the position in it\<close>
  input :: "nat \<Rightarrow> char"  \<comment> \<open>\<open>char input[MAX_INPUT_STR_LEN + 1]\<close>\<close>
  line :: c_uint
  column :: c_uint
  prev_col :: c_uint
  vartable :: 'h
  sleep_sec :: int
  sleep_nsec :: int
  argv :: "c_int list"
  c_in :: int             \<comment> \<open>\<open>c\<close>, the character read last\<close>
  pstate :: program_state_e
  translated_line :: 'r
  error_flag :: bool
  sem :: addr
  blocked_idx :: size_t

record ('h, 'r) st = "('h, 'r) program_s" +
  heap :: "addr \<Rightarrow> block option"
  fresh :: addr           \<comment> \<open>every address from here on is unused\<close>
  mem_max :: nat          \<comment> \<open>the largest request, in bytes, that an allocation of an \<open>int\<close> array meets\<close>
  itable :: 'h            \<comment> \<open>\<open>instruction_table\<close> of scanner.c\<close>
  gtab :: 'h              \<comment> \<open>\<open>global_table\<close> of global.c\<close>
  out :: "event list"

definition MAX_INPUT_STR_LEN :: nat where "MAX_INPUT_STR_LEN = 1023"
definition MAX_INT_STR_LEN :: nat where "MAX_INT_STR_LEN = 9"
definition MAX_ALLOWED_SYMBOL_LEN :: nat where "MAX_ALLOWED_SYMBOL_LEN = 127"
definition DEFAULT_VARTABLE_LEN :: nat where "DEFAULT_VARTABLE_LEN = 8"
definition DEFAULT_TRANSLATED_LINE_LEN :: nat where "DEFAULT_TRANSLATED_LINE_LEN = 8"
definition GLOBAL_TABLE_INIT_SIZE :: nat where "GLOBAL_TABLE_INIT_SIZE = 24"

lemmas limit_defs = MAX_INPUT_STR_LEN_def MAX_INT_STR_LEN_def MAX_ALLOWED_SYMBOL_LEN_def
  DEFAULT_VARTABLE_LEN_def DEFAULT_TRANSLATED_LINE_LEN_def GLOBAL_TABLE_INIT_SIZE_def

subsection \<open>Memory\<close>

definition alloc :: "block \<Rightarrow> ('h, 'r) st \<Rightarrow> addr \<times> ('h, 'r) st" where
  "alloc b s = (fresh s, s\<lparr>heap := (heap s)(fresh s \<mapsto> b), fresh := Suc (fresh s)\<rparr>)"

text \<open>\<open>free\<close>: freeing \<open>NULL\<close> does nothing, freeing a dead block is a fault.\<close>

definition dealloc :: "addr \<Rightarrow> ('h, 'r) st \<Rightarrow> ('h, 'r) st res" where
  "dealloc a s = (if a = NULL then Ok s
     else case heap s a of None \<Rightarrow> Undef DoubleFree
     | Some _ \<Rightarrow> Ok (s\<lparr>heap := (heap s)(a := None)\<rparr>))"

definition deref :: "addr \<Rightarrow> ('h, 'r) st \<Rightarrow> block res" where
  "deref a s = (if a = NULL then Undef NullDeref
     else case heap s a of None \<Rightarrow> Undef UseAfterFree | Some b \<Rightarrow> Ok b)"

text \<open>Storing through a pointer needs a live block, too.\<close>

definition store :: "addr \<Rightarrow> block \<Rightarrow> ('h, 'r) st \<Rightarrow> ('h, 'r) st res" where
  "store a b s = bnd (deref a s) (\<lambda>_. Ok (s\<lparr>heap := (heap s)(a \<mapsto> b)\<rparr>))"

fun as_ptr :: "varval_u \<Rightarrow> addr res" where
  "as_ptr (Ptr a) = Ok a"
| "as_ptr (Value v) = Undef TypeConfusion"
| "as_ptr Uninit = Undef UninitRead"

fun as_value :: "varval_u \<Rightarrow> c_int res" where
  "as_value (Value v) = Ok v"
| "as_value (Ptr a) = Undef TypeConfusion"
| "as_value Uninit = Undef UninitRead"

fun as_str :: "block \<Rightarrow> string res" where
  "as_str (StrB x) = Ok x"
| "as_str _ = Undef TypeConfusion"

fun as_ints :: "block \<Rightarrow> c_int option list res" where
  "as_ints (IntsB xs) = Ok xs"
| "as_ints _ = Undef TypeConfusion"

fun as_arrtok :: "block \<Rightarrow> int_arr_tok_s res" where
  "as_arrtok (ArrTokB t) = Ok t"
| "as_arrtok _ = Undef TypeConfusion"

fun as_tok :: "block \<Rightarrow> token_s res" where
  "as_tok (TokB t) = Ok t"
| "as_tok _ = Undef TypeConfusion"

fun as_label :: "block \<Rightarrow> label_data_s res" where
  "as_label (LabelB l) = Ok l"
| "as_label _ = Undef TypeConfusion"

fun as_gvar :: "block \<Rightarrow> global_var_s res" where
  "as_gvar (GVarB g) = Ok g"
| "as_gvar _ = Undef TypeConfusion"

definition read_str :: "addr \<Rightarrow> ('h, 'r) st \<Rightarrow> string res" where
  "read_str a s = bnd (deref a s) as_str"

definition read_ints :: "addr \<Rightarrow> ('h, 'r) st \<Rightarrow> c_int option list res" where
  "read_ints a s = bnd (deref a s) as_ints"

definition read_arrtok :: "addr \<Rightarrow> ('h, 'r) st \<Rightarrow> int_arr_tok_s res" where
  "read_arrtok a s = bnd (deref a s) as_arrtok"

definition read_tok :: "addr \<Rightarrow> ('h, 'r) st \<Rightarrow> token_s res" where
  "read_tok a s = bnd (deref a s) as_tok"

definition read_label :: "addr \<Rightarrow> ('h, 'r) st \<Rightarrow> label_data_s res" where
  "read_label a s = bnd (deref a s) as_label"

definition read_gvar :: "addr \<Rightarrow> ('h, 'r) st \<Rightarrow> global_var_s res" where
  "read_gvar a s = bnd (deref a s) as_gvar"

text \<open>Reading and writing one cell of an \<open>int\<close> array.\<close>

definition cell :: "int \<Rightarrow> c_int option list \<Rightarrow> c_int res" where
  "cell i xs = (if 0 \<le> i \<and> i < int (length xs)
     then (case xs ! nat i of None \<Rightarrow> Undef UninitRead | Some v \<Rightarrow> Ok v)
     else Undef OutOfBounds)"

definition set_cell :: "int \<Rightarrow> c_int \<Rightarrow> c_int option list \<Rightarrow> c_int option list res" where
  "set_cell i v xs = (if 0 \<le> i \<and> i < int (length xs) then Ok (xs[nat i := Some v])
     else Undef OutOfBounds)"

text \<open>
  \<open>ENO(malloc(sizeof(int) * n))\<close>: a request that the system does not meet sets \<open>errno\<close> and ends the
  interpreter.  Requests for the small fixed-size blocks are taken to succeed.
\<close>

definition malloc_ints :: "nat \<Rightarrow> ('h, 'r) st \<Rightarrow> (addr \<times> ('h, 'r) st) res" where
  "malloc_ints n s = (if 4 * n \<le> mem_max s then Ok (alloc (IntsB (replicate n None)) s) else Exit)"

text \<open>\<open>realloc\<close> moves the block: the old pointer is dead afterwards, new cells hold nothing yet.\<close>

definition realloc_ints :: "addr \<Rightarrow> nat \<Rightarrow> ('h, 'r) st \<Rightarrow> (addr \<times> ('h, 'r) st) res" where
  "realloc_ints a n s = bnd (read_ints a s) (\<lambda>xs.
     if 4 * n \<le> mem_max s
     then bnd (dealloc a s) (\<lambda>s. Ok (alloc (IntsB (take n xs @ replicate (n - length xs) None)) s))
     else Exit)"

text \<open>\<open>for (int i = lo; i < hi; i++) arr[i] = v;\<close>\<close>

function fill :: "int \<Rightarrow> int \<Rightarrow> c_int \<Rightarrow> c_int option list \<Rightarrow> c_int option list res" where
  "fill i hi v xs = (if i < hi then bnd (set_cell i v xs) (\<lambda>xs. fill (i + 1) hi v xs) else Ok xs)"
  by pat_completeness auto
termination
  by (relation "measure (\<lambda>(i, hi, v, xs). nat (hi - i))") auto

declare fill.simps [simp del]

subsection \<open>Facts about memory\<close>

text \<open>Nothing is allocated at \<open>NULL\<close> or from \<open>fresh\<close> on.\<close>

definition heap_ok :: "('h, 'r) st \<Rightarrow> bool" where
  "heap_ok s \<longleftrightarrow> heap s NULL = None \<and> 0 < fresh s \<and> (\<forall>a. fresh s \<le> a \<longrightarrow> heap s a = None)"

named_theorems mem_simps "how the memory operations act on live and on dead blocks"

lemma heap_ok_live: "heap_ok s \<Longrightarrow> heap s a = Some b \<Longrightarrow> a \<noteq> NULL \<and> a < fresh s"
  by (metis heap_ok_def linorder_not_less option.distinct(1))

lemma heap_ok_alloc [simp]:
  "heap_ok s \<Longrightarrow> heap_ok (s\<lparr>heap := (heap s)(fresh s \<mapsto> b), fresh := Suc (fresh s)\<rparr>)"
  by (simp add: heap_ok_def)

lemma heap_ok_kill [simp]: "heap_ok s \<Longrightarrow> heap_ok (s\<lparr>heap := (heap s)(a := None)\<rparr>)"
  by (simp add: heap_ok_def)

lemma deref_live [mem_simps]: "a \<noteq> NULL \<Longrightarrow> heap s a = Some b \<Longrightarrow> deref a s = Ok b"
  by (simp add: deref_def)

lemma deref_dead [mem_simps]: "a \<noteq> NULL \<Longrightarrow> heap s a = None \<Longrightarrow> deref a s = Undef UseAfterFree"
  by (simp add: deref_def)

lemma deref_NULL [mem_simps]: "deref NULL s = Undef NullDeref"
  by (simp add: deref_def)

lemma store_live [mem_simps]: "a \<noteq> NULL \<Longrightarrow> heap s a = Some b' \<Longrightarrow>
    store a b s = Ok (s\<lparr>heap := (heap s)(a \<mapsto> b)\<rparr>)"
  by (simp add: store_def deref_def)

lemma dealloc_live [mem_simps]: "a \<noteq> NULL \<Longrightarrow> heap s a = Some b \<Longrightarrow>
    dealloc a s = Ok (s\<lparr>heap := (heap s)(a := None)\<rparr>)"
  by (simp add: dealloc_def)

lemma dealloc_dead [mem_simps]: "a \<noteq> NULL \<Longrightarrow> heap s a = None \<Longrightarrow> dealloc a s = Undef DoubleFree"
  by (simp add: dealloc_def)

lemmas read_defs = read_str_def read_ints_def read_arrtok_def read_tok_def read_label_def
  read_gvar_def

lemma read_str_live [mem_simps]:
  "a \<noteq> NULL \<Longrightarrow> heap s a = Some (StrB x) \<Longrightarrow> read_str a s = Ok x"
  by (simp add: read_defs mem_simps)

lemma read_ints_live [mem_simps]:
  "a \<noteq> NULL \<Longrightarrow> heap s a = Some (IntsB xs) \<Longrightarrow> read_ints a s = Ok xs"
  by (simp add: read_defs mem_simps)

lemma read_arrtok_live [mem_simps]:
  "a \<noteq> NULL \<Longrightarrow> heap s a = Some (ArrTokB t) \<Longrightarrow> read_arrtok a s = Ok t"
  by (simp add: read_defs mem_simps)

lemma read_tok_live [mem_simps]:
  "a \<noteq> NULL \<Longrightarrow> heap s a = Some (TokB t) \<Longrightarrow> read_tok a s = Ok t"
  by (simp add: read_defs mem_simps)

lemma read_label_live [mem_simps]:
  "a \<noteq> NULL \<Longrightarrow> heap s a = Some (LabelB l) \<Longrightarrow> read_label a s = Ok l"
  by (simp add: read_defs mem_simps)

lemma read_gvar_live [mem_simps]:
  "a \<noteq> NULL \<Longrightarrow> heap s a = Some (GVarB g) \<Longrightarrow> read_gvar a s = Ok g"
  by (simp add: read_defs mem_simps)

lemma read_tok_NULL [mem_simps]: "read_tok NULL s = Undef NullDeref"
  by (simp add: read_defs mem_simps)

lemma read_gvar_NULL [mem_simps]: "read_gvar NULL s = Undef NullDeref"
  by (simp add: read_defs mem_simps)

lemma read_gvar_dead [mem_simps]:
  "a \<noteq> NULL \<Longrightarrow> heap s a = None \<Longrightarrow> read_gvar a s = Undef UseAfterFree"
  by (simp add: read_defs mem_simps)

lemma read_ints_dead [mem_simps]:
  "a \<noteq> NULL \<Longrightarrow> heap s a = None \<Longrightarrow> read_ints a s = Undef UseAfterFree"
  by (simp add: read_defs mem_simps)

lemma cell_Some: "i < length xs \<Longrightarrow> cell (int i) (map Some xs) = Ok (xs ! i)"
  by (simp add: cell_def)

lemma cell_0 [simp]: "cell 0 (Some v # xs) = Ok v"
  by (simp add: cell_def)

lemma cell_Suc: "0 \<le> i \<Longrightarrow> cell (i + 1) (x # xs) = cell i xs"
  by (simp add: cell_def nat_add_distrib)

text \<open>The fill loop stores \<open>v\<close> in the cells from \<open>lo\<close> up to \<open>hi\<close>.\<close>

lemma fill_eq:
  "lo \<le> hi \<Longrightarrow> hi \<le> length xs \<Longrightarrow>
    fill (int lo) (int hi) v xs = Ok (take lo xs @ replicate (hi - lo) (Some v) @ drop hi xs)"
proof (induction "hi - lo" arbitrary: lo xs)
  case 0
  then show ?case by (subst fill.simps) simp
next
  case (Suc n)
  then have lt: "lo < length xs" and le: "Suc lo \<le> hi" by simp_all
  have "fill (int lo) (int hi) v xs = fill (int (Suc lo)) (int hi) v (xs[lo := Some v])"
    using lt le by (subst fill.simps) (simp add: set_cell_def add.commute)
  also have "\<dots> = Ok (take (Suc lo) (xs[lo := Some v]) @ replicate (hi - Suc lo) (Some v)
      @ drop hi (xs[lo := Some v]))"
    using Suc.hyps(1) [of "Suc lo" "xs[lo := Some v]"] Suc.hyps(2) Suc.prems le by simp
  also have "take (Suc lo) (xs[lo := Some v]) = take lo xs @ [Some v]"
    using lt by (simp add: take_Suc_conv_app_nth)
  also have "drop hi (xs[lo := Some v]) = drop hi xs"
    using le by simp
  also have "hi - lo = Suc (hi - Suc lo)"
    using le by simp
  ultimately show ?case by simp
qed

subsection \<open>program.c\<close>

definition program_stop :: "bool \<Rightarrow> ('h, 'r) st \<Rightarrow> ('h, 'r) st" where
  "program_stop err s = (if err then s\<lparr>pstate := FINISHED, error_flag := True\<rparr>
     else s\<lparr>pstate := FINISHED\<rparr>)"

text \<open>
  \<open>program_init\<close> with the file's contents for \<open>fname\<close>, the number \<open>pid\<close> of
  \<open>generate_program_id\<close>, and \<open>junk\<close>, \<open>jc\<close> (\<open>c\<close> and the two fields of \<open>sleep_left\<close>) and \<open>jp\<close> (\<open>sem\<close> and \<open>blocked_idx\<close>) for what
  \<open>malloc\<close> found in the fields that are not set.
\<close>

definition program_init ::
  "('h, 'p, 'r) voids \<Rightarrow> string \<Rightarrow> c_int \<Rightarrow> c_int list \<Rightarrow> (nat \<Rightarrow> char) \<Rightarrow> int \<times> int \<times> int \<Rightarrow>
    addr \<times> size_t \<Rightarrow> ('h, 'r) program_s"
  where
  "program_init V text pid args junk jc jp = \<lparr>
     fbuf = text, fpos = 0, input = junk, line = 1, column = 1, prev_col = 0,
     vartable = qh_init V DEFAULT_VARTABLE_LEN, sleep_sec = fst (snd jc), sleep_nsec = snd (snd jc),
     argv = pid # word_of_nat (length args) # args, c_in = fst jc, pstate = MAGIC_LINE,
     translated_line = rb_init V DEFAULT_TRANSLATED_LINE_LEN, error_flag = False,
     sem = fst jp, blocked_idx = snd jp \<rparr>"

text \<open>
  A thread with the program \<open>p\<close> and nothing else in memory, as it is before \<open>exec_init\<close> fills the
  two shared tables.
\<close>

definition boot :: "('h, 'p, 'r) voids \<Rightarrow> nat \<Rightarrow> ('h, 'r) program_s \<Rightarrow> ('h, 'r) st" where
  "boot V mm p = program_s.extend p \<lparr>heap = Map.empty, fresh = 1, mem_max = mm, itable = qh_init V 1,
     gtab = qh_init V 1, out = []\<rparr>"

subsection \<open>error.c\<close>

text \<open>
  A message names the place of the character before the current one; after a newline that is the
  last column of the line before.
\<close>

definition msg_pos :: "('h, 'r) st \<Rightarrow> c_uint \<times> c_uint" where
  "msg_pos s = (if column s = 1 then (line s - 1, prev_col s) else (line s, column s - 1))"

definition err_msg :: "msg \<Rightarrow> ('h, 'r) st \<Rightarrow> ('h, 'r) st" where
  "err_msg m s = (case msg_pos s of (lin, col) \<Rightarrow> s\<lparr>out := out s @ [Err lin col m]\<rparr>)"

definition warn_msg :: "msg \<Rightarrow> ('h, 'r) st \<Rightarrow> ('h, 'r) st" where
  "warn_msg m s = (case msg_pos s of (lin, col) \<Rightarrow> s\<lparr>out := out s @ [Warn lin col m]\<rparr>)"

text \<open>The pair of calls that ends a program with an error message.\<close>

definition die :: "msg \<Rightarrow> ('h, 'r) st \<Rightarrow> ('h, 'r) st" where
  "die m s = err_msg m (program_stop True s)"

end
