(* ===== verification/ScanWord.thy ===== *)
theory ScanWord imports Program begin

section \<open>Characters, words, labels and the magic line (scanner.c)\<close>

text \<open>
  The lower half of the scanner: the cursor over the program text with its line and column
  (\<open>NEXT_CHAR\<close>), the two flushing loops, \<open>get_next_word\<close>, \<open>is_valid_label\<close> and \<open>parse_magic\<close>.
  A store into \<open>prog->input\<close> outside the array is a fault (\<open>put_input\<close>).
\<close>

subsection \<open>The cursor\<close>

definition next_line :: "('h, 'r) st \<Rightarrow> ('h, 'r) st" where
  "next_line s = s\<lparr>prev_col := column s, line := line s + 1, column := 1\<rparr>"

text \<open>\<open>fgetc\<close>: the next character as an \<open>int\<close>, \<open>EOF\<close> at the end of the file.\<close>

definition fgetc :: "('h, 'r) st \<Rightarrow> int \<times> ('h, 'r) st" where
  "fgetc s = (if fpos s < length (fbuf s)
     then (of_char (fbuf s ! fpos s), s\<lparr>fpos := Suc (fpos s)\<rparr>) else (EOF, s))"

definition next_char :: "('h, 'r) st \<Rightarrow> ('h, 'r) st" where
  "next_char s = (case fgetc s of (x, s1) \<Rightarrow>
     let s2 = s1\<lparr>c_in := x\<rparr>
     in if x = 10 then next_line s2 else s2\<lparr>column := column s2 + 1\<rparr>)"

text \<open>What is left of the file; it shrinks with every character that is not \<open>EOF\<close>.\<close>

definition left :: "('h, 'r) st \<Rightarrow> nat" where
  "left s = length (fbuf s) - fpos s"

lemma next_char_left: "c_in (next_char s) \<noteq> EOF \<Longrightarrow> left (next_char s) < left s"
  by (auto simp: next_char_def fgetc_def left_def next_line_def Let_def split: if_splits)

function flush_up_to_char :: "('h, 'r) st \<Rightarrow> bool \<times> ('h, 'r) st" where
  "flush_up_to_char s = (let s1 = next_char s in
     if c_in s1 = EOF then (False, s1)
     else if isspace (c_in s1) then flush_up_to_char s1
     else (True, s1))"
  by pat_completeness auto
termination
  by (relation "measure left") (auto simp: next_char_left)

declare flush_up_to_char.simps [simp del]

text \<open>0: the end of the file, 1: only blanks up to the newline, 2 (\<open>LINE_NOT_EMPTY\<close>) otherwise.\<close>

abbreviation LINE_NOT_EMPTY :: nat where "LINE_NOT_EMPTY \<equiv> 2"

function flush_up_to_newline :: "('h, 'r) st \<Rightarrow> nat \<times> ('h, 'r) st" where
  "flush_up_to_newline s =
     (if c_in s \<noteq> 10 then
        let s1 = next_char s in
        if c_in s1 = EOF then (0, s1)
        else if \<not> isspace (c_in s1) then (LINE_NOT_EMPTY, s1)
        else flush_up_to_newline s1
      else (1, s))"
  by pat_completeness auto
termination
  by (relation "measure left") (auto simp: next_char_left)

declare flush_up_to_newline.simps [simp del]

subsection \<open>The input buffer\<close>

text \<open>\<open>prog->input[i] = x\<close> and reading \<open>prog->input[i]\<close>.\<close>

definition put_input :: "nat \<Rightarrow> int \<Rightarrow> ('h, 'r) st \<Rightarrow> ('h, 'r) st res" where
  "put_input i x s = (if i \<le> MAX_INPUT_STR_LEN then Ok (s\<lparr>input := (input s)(i := to_char x)\<rparr>)
     else Undef OutOfBounds)"

definition input_at :: "nat \<Rightarrow> ('h, 'r) st \<Rightarrow> char res" where
  "input_at i s = (if i \<le> MAX_INPUT_STR_LEN then Ok (input s i) else Undef OutOfBounds)"

text \<open>\<open>strcmp\<close> of the buffer from \<open>i\<close> on with a string literal: 0 is equality.\<close>

fun input_eq :: "(nat \<Rightarrow> char) \<Rightarrow> nat \<Rightarrow> string \<Rightarrow> bool" where
  "input_eq f i [] = (f i = NUL)"
| "input_eq f i (x # xs) = (f i = x \<and> input_eq f (Suc i) xs)"

text \<open>
  Printing the buffer with \<open>%s\<close> reads from its start to the first terminator; when there is none the read
  leaves the array.  The other messages that print the buffer come after a terminator was stored.
\<close>

definition read_input :: "('h, 'r) st \<Rightarrow> unit res" where
  "read_input s = (if NUL \<in> set (map (input s) [0..<Suc MAX_INPUT_STR_LEN]) then Ok () else Undef OutOfBounds)"

text \<open>The bytes of the buffer from \<open>i\<close> up to, and without, \<open>j\<close>.\<close>

definition input_bytes :: "nat \<Rightarrow> nat \<Rightarrow> ('h, 'r) st \<Rightarrow> string" where
  "input_bytes i j s = map (input s) [i..<j]"

subsection \<open>Words\<close>

lemma put_input_left: "put_input i x s = Ok s1 \<Longrightarrow> left s1 = left s"
  by (auto simp: put_input_def left_def split: if_splits)

function word_loop :: "nat \<Rightarrow> nat \<Rightarrow> ('h, 'r) st \<Rightarrow> (nat \<times> ('h, 'r) st) res" where
  "word_loop max_len i s = (let s1 = next_char s in
     if i = max_len then bnd (read_input s1) (\<lambda>_. Ok (0, die MSymbolTooBig s1))
     else if c_in s1 = EOF then
       bnd (put_input i 0 (s1\<lparr>pstate := LAST_LINE\<rparr>)) (\<lambda>s2. Ok (i, s2))
     else if isspace (c_in s1) then bnd (put_input i 0 s1) (\<lambda>s2. Ok (i, s2))
     else bnd (put_input i (c_in s1) s1) (\<lambda>s2. word_loop max_len (Suc i) s2))"
  by pat_completeness auto
termination
  by (relation "measure (\<lambda>(m, i, s). left s)") (auto simp: next_char_left put_input_left)

declare word_loop.simps [simp del]

definition get_next_word :: "nat \<Rightarrow> bool \<Rightarrow> ('h, 'r) st \<Rightarrow> (nat \<times> ('h, 'r) st) res" where
  "get_next_word max_len this_line s =
     (if this_line \<and> c_in s = 10 then Ok (0, s)
      else let (found, s1) = (if isspace (c_in s) then flush_up_to_char s else (True, s)) in
        if \<not> found then Ok (0, s1)
        else if this_line \<and> line s \<noteq> line s1 then Ok (0, s1)
        else bnd (put_input 0 (c_in s1) s1) (\<lambda>s2. word_loop max_len 1 s2))"

subsection \<open>Labels\<close>

text \<open>A word that starts like a label but is none stops the program.\<close>

definition is_valid_label :: "nat \<Rightarrow> ('h, 'r) st \<Rightarrow> bool \<times> ('h, 'r) st" where
  "is_valid_label n s =
     (if n \<noteq> 0 \<and> input s 0 = CHR ''L'' \<and> \<not> input_eq (input s) 0 ''LOAD'' then
        if n = 1 then (False, die MInvalidLabel s)
        else if list_all (\<lambda>x. isalnum (of_char x)) (input_bytes 1 n s) then (True, s)
        else (False, die MLabelChars s)
      else (False, s))"

subsection \<open>The magic line\<close>

definition magic_bytes :: string where "magic_bytes = ''#PROGRAM''"

text \<open>The loop that reads as many characters as \<open>magic_bytes\<close> has with its terminator.\<close>

fun magic_loop :: "nat \<Rightarrow> nat \<Rightarrow> ('h, 'r) st \<Rightarrow> (bool \<times> ('h, 'r) st) res" where
  "magic_loop i 0 s = Ok (True, s)"
| "magic_loop i (Suc n) s = (let s1 = next_char s in
     if c_in s1 = EOF then Ok (False, program_stop False s1)
     else bnd (put_input i (c_in s1) s1) (\<lambda>s2. magic_loop (Suc i) n s2))"

definition parse_magic :: "('h, 'r) st \<Rightarrow> ('h, 'r) st res" where
  "parse_magic s = bnd (magic_loop 0 (length magic_bytes + 1) s) (\<lambda>(full, s).
     if \<not> full then Ok s
     else bnd (put_input (length magic_bytes) 0 s) (\<lambda>s.
       let s1 = (if input_eq (input s) 0 magic_bytes then s else die MNotSimbly s) in
       if c_in s1 \<noteq> 10 then
         case flush_up_to_char s1 of (ret, s2) \<Rightarrow>
           if line s1 = line s2 then Ok (die MMagicTrailing s2)
           else if \<not> ret then Ok (s2\<lparr>pstate := FINISHED\<rparr>)
           else Ok (s2\<lparr>pstate := INSTRUCTION_LINE\<rparr>)
       else Ok (s1\<lparr>pstate := INSTRUCTION_LINE\<rparr>)))"

end
