(* ===== verification/ScanText.thy ===== *)
theory ScanText imports ScanWord begin

section \<open>What the scanner reads: the text behind the cursor\<close>

text \<open>
  \<open>rest s\<close> is the part of the file that is still to be read and \<open>adv n\<close> reads \<open>n\<close> characters.  The
  lemmas say how the loops of the scanner move over a text that is given by its parts: blanks, a
  word, the character behind it.
\<close>

subsection \<open>The cursor\<close>

definition rest :: "('h, 'r) st \<Rightarrow> string" where
  "rest s = drop (fpos s) (fbuf s)"

abbreviation blank :: "char \<Rightarrow> bool" where "blank x \<equiv> isspace (of_char x)"

definition adv :: "nat \<Rightarrow> ('h, 'r) st \<Rightarrow> ('h, 'r) st" where
  "adv n = next_char ^^ n"

named_theorems text_simps "the fields of the state after characters were read"

lemma of_char_newline: "(of_char x :: int) = 10 \<longleftrightarrow> x = CHR 0x0A"
  using of_char_eq_iff [of x "CHR 0x0A", where 'a = int] by simp

lemma of_char_not_EOF [simp]: "(of_char x :: int) \<noteq> -1"
proof -
  have "0 \<le> (of_char x :: int)"
    by (simp add: of_char_def horner_sum_nonnegative)
  then show ?thesis by linarith
qed

lemma rest_nth: "rest s = x # r \<Longrightarrow> fpos s < length (fbuf s) \<and> fbuf s ! fpos s = x \<and>
    drop (Suc (fpos s)) (fbuf s) = r"
  unfolding rest_def by (metis Cons_nth_drop_Suc drop_eq_Nil2 linorder_not_le list.discI list.inject)

lemma next_char_Cons:
  assumes "rest s = x # r"
  shows "next_char s = (if x = CHR 0x0A then next_line (s\<lparr>fpos := Suc (fpos s), c_in := 10\<rparr>)
    else s\<lparr>fpos := Suc (fpos s), c_in := of_char x, column := column s + 1\<rparr>)"
proof -
  show ?thesis
    using rest_nth [OF assms] by (simp add: next_char_def fgetc_def Let_def of_char_newline)
qed

lemma next_char_Nil: "rest s = [] \<Longrightarrow> next_char s = s\<lparr>c_in := EOF, column := column s + 1\<rparr>"
  by (simp add: next_char_def fgetc_def Let_def rest_def)

lemma next_char_fields [text_simps]:
  "heap (next_char s) = heap s" "fresh (next_char s) = fresh s" "mem_max (next_char s) = mem_max s"
  "itable (next_char s) = itable s" "gtab (next_char s) = gtab s" "out (next_char s) = out s"
  "fbuf (next_char s) = fbuf s" "input (next_char s) = input s" "vartable (next_char s) = vartable s"
  "argv (next_char s) = argv s" "pstate (next_char s) = pstate s"
  "translated_line (next_char s) = translated_line s" "error_flag (next_char s) = error_flag s"
  "sem (next_char s) = sem s" "blocked_idx (next_char s) = blocked_idx s"
  "sleep_sec (next_char s) = sleep_sec s" "sleep_nsec (next_char s) = sleep_nsec s"
  by (simp_all add: next_char_def fgetc_def next_line_def Let_def)

lemma next_char_input: "next_char (s\<lparr>input := f\<rparr>) = (next_char s)\<lparr>input := f\<rparr>"
  by (simp add: next_char_def fgetc_def next_line_def Let_def)

lemma next_char_rest: "rest s = x # r \<Longrightarrow> rest (next_char s) = r"
  using rest_nth [of s x r] by (simp add: next_char_Cons next_line_def rest_def)

lemma next_char_c: "rest s = x # r \<Longrightarrow> c_in (next_char s) = of_char x"
  by (simp add: next_char_Cons next_line_def)

lemma next_char_line: "rest s = x # r \<Longrightarrow> line (next_char s) = line s + (if x = CHR 0x0A then 1 else 0)"
  by (simp add: next_char_Cons next_line_def)

lemma adv_0 [simp]: "adv 0 s = s"
  by (simp add: adv_def)

lemma adv_Suc: "adv (Suc n) s = adv n (next_char s)"
  by (simp add: adv_def funpow_swap1)

lemma adv_add: "adv (m + n) s = adv n (adv m s)"
  by (simp add: adv_def funpow_add add.commute [of m n])

lemma adv_fields [text_simps]:
  "heap (adv n s) = heap s" "fresh (adv n s) = fresh s" "mem_max (adv n s) = mem_max s"
  "itable (adv n s) = itable s" "gtab (adv n s) = gtab s" "out (adv n s) = out s"
  "fbuf (adv n s) = fbuf s" "input (adv n s) = input s" "vartable (adv n s) = vartable s"
  "argv (adv n s) = argv s" "pstate (adv n s) = pstate s"
  "translated_line (adv n s) = translated_line s" "error_flag (adv n s) = error_flag s"
  "sem (adv n s) = sem s" "blocked_idx (adv n s) = blocked_idx s"
  "sleep_sec (adv n s) = sleep_sec s" "sleep_nsec (adv n s) = sleep_nsec s"
  by (induction n arbitrary: s) (simp_all add: adv_Suc text_simps)

lemma adv_input: "adv n (s\<lparr>input := f\<rparr>) = (adv n s)\<lparr>input := f\<rparr>"
  by (induction n arbitrary: s) (simp_all add: adv_Suc next_char_input)

lemma rest_cong [text_simps]: "rest (s\<lparr>input := f\<rparr>) = rest s" "rest (s\<lparr>pstate := p\<rparr>) = rest s"
  "rest (s\<lparr>heap := h\<rparr>) = rest s" "rest (s\<lparr>fresh := fr\<rparr>) = rest s" "rest (s\<lparr>translated_line := rb\<rparr>) = rest s"
  "rest (s\<lparr>vartable := vt\<rparr>) = rest s"
  by (simp_all add: rest_def)

lemma adv_rest: "rest s = t @ r \<Longrightarrow> rest (adv (length t) s) = r"
  by (induction t arbitrary: s) (simp_all add: adv_Suc next_char_rest)

lemma adv_c: "rest s = t @ x # r \<Longrightarrow> c_in (adv (Suc (length t)) s) = of_char x"
  by (induction t arbitrary: s) (simp_all add: adv_Suc next_char_rest next_char_c)

lemma adv_line: "rest s = t @ r \<Longrightarrow> CHR 0x0A \<notin> set t \<Longrightarrow> line (adv (length t) s) = line s"
  by (induction t arbitrary: s) (auto simp: adv_Suc next_char_rest next_char_line)

subsection \<open>Blanks\<close>

lemma flush_char:
  assumes "rest s = bs @ x # r" and "list_all blank bs" and "\<not> blank x"
  shows "flush_up_to_char s = (True, adv (Suc (length bs)) s)"
  using assms(1,2)
proof (induction bs arbitrary: s)
  case Nil
  then show ?case
    using assms(3) next_char_c [of s x r] by (subst flush_up_to_char.simps) (simp add: Let_def adv_Suc)
next
  case (Cons b bs)
  have "c_in (next_char s) = of_char b" "rest (next_char s) = bs @ x # r"
    using next_char_c [of s b] next_char_rest [of s b] Cons.prems by simp_all
  then show ?case
    using Cons.IH [of "next_char s"] Cons.prems
    by (subst flush_up_to_char.simps) (auto simp: Let_def adv_Suc)
qed

lemma flush_char_EOF:
  assumes "rest s = bs" and "list_all blank bs"
  shows "flush_up_to_char s = (False, adv (Suc (length bs)) s)"
  using assms
proof (induction bs arbitrary: s)
  case Nil
  then show ?case
    by (subst flush_up_to_char.simps) (simp add: next_char_Nil Let_def adv_Suc)
next
  case (Cons b bs)
  have "c_in (next_char s) = of_char b" "rest (next_char s) = bs"
    using next_char_c [of s b] next_char_rest [of s b] Cons.prems by simp_all
  then show ?case
    using Cons.IH [of "next_char s"] Cons.prems
    by (subst flush_up_to_char.simps) (auto simp: Let_def adv_Suc)
qed

lemma flush_newline_here: "c_in s = 10 \<Longrightarrow> flush_up_to_newline s = (1, s)"
  by (subst flush_up_to_newline.simps) simp

lemma flush_newline:
  assumes "rest s = bs @ CHR 0x0A # r" and "list_all blank bs" and "CHR 0x0A \<notin> set bs" and "c_in s \<noteq> 10"
  shows "flush_up_to_newline s = (1, adv (Suc (length bs)) s)"
  using assms
proof (induction bs arbitrary: s)
  case Nil
  have "c_in (next_char s) = 10"
    using next_char_c [of s "CHR 0x0A" r] Nil by simp
  then show ?case
    using Nil flush_newline_here [of "next_char s"]
    by (subst flush_up_to_newline.simps) (simp add: Let_def adv_Suc isspace_def)
next
  case (Cons b bs)
  have "(of_char b :: int) \<noteq> 10"
    using Cons.prems(3) by (auto simp: of_char_newline)
  then have "c_in (next_char s) = of_char b" "rest (next_char s) = bs @ CHR 0x0A # r" "c_in (next_char s) \<noteq> 10"
    using next_char_c [of s b] next_char_rest [of s b] Cons.prems by simp_all
  then show ?case
    using Cons.IH [of "next_char s"] Cons.prems
    by (subst flush_up_to_newline.simps) (auto simp: Let_def adv_Suc)
qed

subsection \<open>Words\<close>

text \<open>The buffer with the string \<open>w\<close> and its terminator from position \<open>i\<close> on.\<close>

definition put_word :: "nat \<Rightarrow> string \<Rightarrow> (nat \<Rightarrow> char) \<Rightarrow> nat \<Rightarrow> char" where
  "put_word i w f = (\<lambda>j. if j < i then f j else if j < i + length w then w ! (j - i)
     else if j = i + length w then NUL else f j)"

lemma put_word_Nil: "put_word i [] f = f(i := NUL)"
  by (rule ext) (simp add: put_word_def)

lemma put_word_Cons: "put_word i (x # w) f = put_word (Suc i) w (f(i := x))"
  by (rule ext) (auto simp: put_word_def nth_Cons' less_Suc_eq)

lemma to_char_0 [simp]: "to_char 0 = NUL"
  using to_char_of_char [of NUL] by simp

lemma word_step:
  assumes "rest s = x # r" and "\<not> blank x" and "i \<noteq> m" and "i \<le> MAX_INPUT_STR_LEN"
  shows "word_loop m i s = word_loop m (Suc i) ((next_char s)\<lparr>input := (input s)(i := x)\<rparr>)"
  using assms next_char_c [OF assms(1)]
  by (subst word_loop.simps) (simp add: Let_def put_input_def text_simps)

lemma word_loop_blank:
  assumes "rest s = w @ x # r" and "list_all (\<lambda>x. \<not> blank x) w" and "blank x"
    and "i + length w < m" and "m \<le> Suc MAX_INPUT_STR_LEN"
  shows "word_loop m i s = Ok (i + length w,
    (adv (Suc (length w)) s)\<lparr>input := put_word i w (input s)\<rparr>)"
  using assms
proof (induction w arbitrary: s i)
  case Nil
  then show ?case
    using next_char_c [of s x r]
    by (subst word_loop.simps) (simp add: Let_def put_input_def put_word_Nil adv_Suc text_simps)
next
  case (Cons y w)
  let ?s = "(next_char s)\<lparr>input := (input s)(i := y)\<rparr>"
  have r: "rest ?s = w @ x # r"
    using next_char_rest [of s y] Cons.prems(1) by (simp add: text_simps)
  have "word_loop m i s = word_loop m (Suc i) ?s"
    using Cons.prems by (intro word_step [of s y "w @ x # r"]) simp_all
  also have "\<dots> = Ok (Suc i + length w, (adv (Suc (length w)) ?s)\<lparr>input := put_word (Suc i) w (input ?s)\<rparr>)"
    using Cons.prems by (intro Cons.IH [OF r]) simp_all
  finally show ?case
    by (simp add: adv_input put_word_Cons adv_Suc [of "Suc _"])
qed

lemma word_loop_EOF:
  assumes "rest s = w" and "list_all (\<lambda>x. \<not> blank x) w"
    and "i + length w < m" and "m \<le> Suc MAX_INPUT_STR_LEN"
  shows "word_loop m i s = Ok (i + length w,
    (adv (Suc (length w)) s)\<lparr>input := put_word i w (input s), pstate := LAST_LINE\<rparr>)"
  using assms
proof (induction w arbitrary: s i)
  case Nil
  then show ?case
    by (subst word_loop.simps)
      (simp add: Let_def put_input_def put_word_Nil adv_Suc next_char_Nil)
next
  case (Cons y w)
  let ?s = "(next_char s)\<lparr>input := (input s)(i := y)\<rparr>"
  have r: "rest ?s = w"
    using next_char_rest [of s y] Cons.prems(1) by (simp add: text_simps)
  have "word_loop m i s = word_loop m (Suc i) ?s"
    using Cons.prems by (intro word_step [of s y "w"]) simp_all
  also have "\<dots> = Ok (Suc i + length w,
      (adv (Suc (length w)) ?s)\<lparr>input := put_word (Suc i) w (input ?s), pstate := LAST_LINE\<rparr>)"
    using Cons.prems by (intro Cons.IH [OF r]) simp_all
  finally show ?case
    by (simp add: adv_input put_word_Cons adv_Suc [of "Suc _"])
qed

text \<open>
  A word that does not fit: the first \<open>m\<close> characters are in the buffer, with no terminator behind them,
  when the message prints it.
\<close>

lemma word_loop_big:
  assumes "rest s = w @ r" and "list_all (\<lambda>x. \<not> blank x) w" and "i + length w = m" and "m \<le> Suc MAX_INPUT_STR_LEN"
  shows "\<exists>s'. word_loop m i s = bnd (read_input s') (\<lambda>_. Ok (0, die MSymbolTooBig s')) \<and>
    input s' = (\<lambda>j. if j < i \<or> m \<le> j then input s j else w ! (j - i))"
  using assms
proof (induction w arbitrary: s i)
  case Nil
  then have "word_loop m i s = bnd (read_input (next_char s)) (\<lambda>_. Ok (0, die MSymbolTooBig (next_char s)))"
    by (subst word_loop.simps) (simp add: Let_def)
  moreover have "input (next_char s) = (\<lambda>j. if j < i \<or> m \<le> j then input s j else [] ! (j - i))"
    by (rule ext) (use Nil(3) in \<open>auto simp: text_simps\<close>)
  ultimately show ?case by blast
next
  case (Cons y w)
  let ?s = "(next_char s)\<lparr>input := (input s)(i := y)\<rparr>"
  have r: "rest ?s = w @ r"
    using next_char_rest [of s y] Cons.prems(1) by (simp add: text_simps)
  have "word_loop m i s = word_loop m (Suc i) ?s"
    using Cons.prems by (intro word_step [of s y "w @ r"]) simp_all
  moreover obtain s' where s': "word_loop m (Suc i) ?s = bnd (read_input s') (\<lambda>_. Ok (0, die MSymbolTooBig s'))"
      "input s' = (\<lambda>j. if j < Suc i \<or> m \<le> j then input ?s j else w ! (j - Suc i))"
    using Cons.IH [OF r, of "Suc i"] Cons.prems by auto
  moreover have "input s' = (\<lambda>j. if j < i \<or> m \<le> j then input s j else (y # w) ! (j - i))"
    unfolding s'(2) using Cons.prems(3) by (auto simp: nth_Cons' less_Suc_eq)
  ultimately show ?case by auto
qed

text \<open>Where the first character of the next word is: in \<open>c\<close>, or behind blanks.\<close>

definition at_word :: "bool \<Rightarrow> ('h, 'r) st \<Rightarrow> string \<Rightarrow> bool" where
  "at_word this_line s bs \<longleftrightarrow> isspace (c_in s) \<and> list_all blank bs \<and>
     (this_line \<longrightarrow> c_in s \<noteq> 10 \<and> CHR 0x0A \<notin> set bs)"

lemma word_line:
  assumes "rest s = bs @ x # r" and "CHR 0x0A \<notin> set bs" and "\<not> blank x"
  shows "line (adv (Suc (length bs)) s) = line s"
proof -
  have "x \<noteq> CHR 0x0A" using assms(3) by (auto simp: isspace_def)
  then show ?thesis
    using adv_line [of s "bs @ [x]" r] assms by simp
qed

lemma next_word_start:
  assumes aw: "at_word here s bs" and r: "rest s = bs @ x # r" and x: "\<not> blank x"
  shows "get_next_word m here s = word_loop m 1
    ((adv (Suc (length bs)) s)\<lparr>input := (input s)(0 := x)\<rparr>)"
proof -
  have "flush_up_to_char s = (True, adv (Suc (length bs)) s)"
    using flush_char [OF r _ x] aw by (simp add: at_word_def)
  moreover have "here \<Longrightarrow> line s = line (adv (Suc (length bs)) s)"
    using word_line [OF r _ x] aw by (simp add: at_word_def)
  moreover have "c_in (adv (Suc (length bs)) s) = of_char x"
    using adv_c [OF r] .
  ultimately show ?thesis
    using aw by (auto simp: get_next_word_def at_word_def put_input_def text_simps)
qed

lemma next_word:
  assumes aw: "at_word here s bs" and r: "rest s = bs @ w @ x # r"
    and w: "w \<noteq> []" "list_all (\<lambda>x. \<not> blank x) w" "length w < m" and x: "blank x"
    and m: "m \<le> Suc MAX_INPUT_STR_LEN"
  shows "get_next_word m here s = Ok (length w,
    (adv (length bs + length w + 1) s)\<lparr>input := put_word 0 w (input s)\<rparr>)"
proof -
  obtain y v where v: "w = y # v" using w(1) by (cases w) auto
  let ?s = "(adv (Suc (length bs)) s)\<lparr>input := (input s)(0 := y)\<rparr>"
  have "rest ?s = v @ x # r"
    using adv_rest [of s "bs @ [y]" "v @ x # r"] r v by (simp add: text_simps)
  then have "word_loop m 1 ?s = Ok (1 + length v,
      (adv (Suc (length v)) ?s)\<lparr>input := put_word 1 v (input ?s)\<rparr>)"
    using w x m v by (intro word_loop_blank) simp_all
  moreover have "get_next_word m here s = word_loop m 1 ?s"
    using next_word_start [OF aw, of y "v @ x # r" m] r v w(2) by simp
  ultimately show ?thesis
    using v adv_add [of "Suc (length bs)" "Suc (length v)" s]
    by (simp add: put_word_Cons adv_input)
qed

lemma next_word_EOF:
  assumes aw: "at_word here s bs" and r: "rest s = bs @ w"
    and w: "w \<noteq> []" "list_all (\<lambda>x. \<not> blank x) w" "length w < m" and m: "m \<le> Suc MAX_INPUT_STR_LEN"
  shows "get_next_word m here s = Ok (length w,
    (adv (length bs + length w + 1) s)\<lparr>input := put_word 0 w (input s), pstate := LAST_LINE\<rparr>)"
proof -
  obtain y v where v: "w = y # v" using w(1) by (cases w) auto
  let ?s = "(adv (Suc (length bs)) s)\<lparr>input := (input s)(0 := y)\<rparr>"
  have "rest ?s = v"
    using adv_rest [of s "bs @ [y]" "v"] r v by (simp add: text_simps)
  then have "word_loop m 1 ?s = Ok (1 + length v,
      (adv (Suc (length v)) ?s)\<lparr>input := put_word 1 v (input ?s), pstate := LAST_LINE\<rparr>)"
    using w m v by (intro word_loop_EOF) simp_all
  moreover have "get_next_word m here s = word_loop m 1 ?s"
    using next_word_start [OF aw, of y "v" m] r v w(2) by simp
  ultimately show ?thesis
    using v adv_add [of "Suc (length bs)" "Suc (length v)" s]
    by (simp add: put_word_Cons adv_input)
qed

lemma next_word_big:
  assumes aw: "at_word here s bs" and r: "rest s = bs @ w @ r"
    and w: "list_all (\<lambda>x. \<not> blank x) w" "length w = m" and m: "0 < m" "m \<le> Suc MAX_INPUT_STR_LEN"
  shows "\<exists>s'. get_next_word m here s = bnd (read_input s') (\<lambda>_. Ok (0, die MSymbolTooBig s')) \<and>
    input s' = (\<lambda>j. if m \<le> j then input s j else w ! j)"
proof -
  obtain y v where v: "w = y # v" using w m(1) by (cases w) auto
  let ?s = "(adv (Suc (length bs)) s)\<lparr>input := (input s)(0 := y)\<rparr>"
  have "rest ?s = v @ r"
    using adv_rest [of s "bs @ [y]" "v @ r"] r v by (simp add: text_simps)
  then obtain s' where s': "word_loop m 1 ?s = bnd (read_input s') (\<lambda>_. Ok (0, die MSymbolTooBig s'))"
      "input s' = (\<lambda>j. if j < 1 \<or> m \<le> j then input ?s j else v ! (j - 1))"
    using word_loop_big [of ?s v r 1 m] w m v by auto
  have "get_next_word m here s = word_loop m 1 ?s"
    using next_word_start [OF aw, of y "v @ r" m] r v w(1) by simp
  moreover have "input s' = (\<lambda>j. if m \<le> j then input s j else w ! j)"
    unfolding s'(2) using m(1) v by (auto simp: nth_Cons' less_Suc_eq_0_disj)
  ultimately show ?thesis using s'(1) by auto
qed

text \<open>No word behind the blanks: the end of the file, or of the line.\<close>

lemma next_word_none:
  assumes "isspace (c_in s)" and "rest s = bs" and "list_all blank bs" and "here \<longrightarrow> c_in s \<noteq> 10"
  shows "get_next_word m here s = Ok (0, adv (Suc (length bs)) s)"
  using assms flush_char_EOF [of s bs] by (auto simp: get_next_word_def)

lemma next_word_newline: "c_in s = 10 \<Longrightarrow> get_next_word m True s = Ok (0, s)"
  by (simp add: get_next_word_def)

subsection \<open>The text from the current character on\<close>

text \<open>
  Between two steps of the scanner the character read last is in \<open>c\<close>: \<open>pend s t\<close> says that \<open>t\<close> is
  this character and what follows it in the file.  \<open>scan_frame\<close> lists what the scanner never changes.
\<close>

definition pend :: "('h, 'r) st \<Rightarrow> string \<Rightarrow> bool" where
  "pend s t \<longleftrightarrow> t \<noteq> [] \<and> c_in s = of_char (hd t) \<and> rest s = List.tl t"

definition scan_frame :: "('h, 'r) st \<Rightarrow> ('h, 'r) st \<Rightarrow> bool" where
  "scan_frame s s' \<longleftrightarrow> argv s' = argv s \<and> mem_max s' = mem_max s \<and> vartable s' = vartable s \<and>
     gtab s' = gtab s \<and> itable s' = itable s \<and> out s' = out s \<and> error_flag s' = error_flag s \<and>
     fbuf s' = fbuf s \<and> sem s' = sem s \<and> blocked_idx s' = blocked_idx s \<and>
     sleep_sec s' = sleep_sec s \<and> sleep_nsec s' = sleep_nsec s"

lemma scan_frame_trans: "scan_frame s s1 \<Longrightarrow> scan_frame s1 s2 \<Longrightarrow> scan_frame s s2"
  by (simp add: scan_frame_def)

lemma scan_frame_adv: "scan_frame s (adv n s)" "scan_frame s ((adv n s)\<lparr>input := f\<rparr>)"
  "scan_frame s ((adv n s)\<lparr>input := f, pstate := p\<rparr>)"
  by (simp_all add: scan_frame_def text_simps)

lemma pend_cong: "c_in s' = c_in s \<Longrightarrow> fpos s' = fpos s \<Longrightarrow> fbuf s' = fbuf s \<Longrightarrow> pend s' t = pend s t"
  by (simp add: pend_def rest_def)

lemma pend_adv: "pend s (t @ x # r) \<Longrightarrow> t \<noteq> [] \<Longrightarrow> pend ((adv (length t) s)\<lparr>input := f\<rparr>) (x # r)"
  using adv_c [of s "List.tl t" x r] adv_rest [of s "List.tl t @ [x]" r]
  by (cases t) (simp_all add: pend_def text_simps)

lemma pend_adv': "pend s (t @ x # r) \<Longrightarrow> t \<noteq> [] \<Longrightarrow> pend (adv (length t) s) (x # r)"
  using pend_adv [of s t x r "input s"] by (simp add: pend_def text_simps)

lemma pend_blank: "pend s (bs @ t) \<Longrightarrow> bs \<noteq> [] \<Longrightarrow> list_all blank bs \<Longrightarrow>
    (here \<longrightarrow> CHR 0x0A \<notin> set bs) \<Longrightarrow> at_word here s (List.tl bs) \<and> rest s = List.tl bs @ t"
  by (cases bs) (auto simp: pend_def at_word_def of_char_newline)

lemma pend_word:
  assumes p: "pend s (bs @ w @ x # r)" and bs: "bs \<noteq> []" "list_all blank bs" "here \<longrightarrow> CHR 0x0A \<notin> set bs"
    and w: "w \<noteq> []" "list_all (\<lambda>x. \<not> blank x) w" "length w < m" and x: "blank x"
    and m: "m \<le> Suc MAX_INPUT_STR_LEN"
  shows "get_next_word m here s = Ok (length w,
      (adv (length bs + length w) s)\<lparr>input := put_word 0 w (input s)\<rparr>)"
    "pend ((adv (length bs + length w) s)\<lparr>input := put_word 0 w (input s)\<rparr>) (x # r)"
proof -
  have a: "at_word here s (List.tl bs)" "rest s = List.tl bs @ w @ x # r"
    using pend_blank [OF p bs] by simp_all
  obtain b bs' where "bs = b # bs'" using bs(1) by (cases bs) auto
  then show "get_next_word m here s = Ok (length w,
      (adv (length bs + length w) s)\<lparr>input := put_word 0 w (input s)\<rparr>)"
    using next_word [OF a w x m] by simp
  show "pend ((adv (length bs + length w) s)\<lparr>input := put_word 0 w (input s)\<rparr>) (x # r)"
    using pend_adv [of s "bs @ w" x r] p bs(1) by simp
qed

lemma pend_word_EOF:
  assumes p: "pend s (bs @ w)" and bs: "bs \<noteq> []" "list_all blank bs" "here \<longrightarrow> CHR 0x0A \<notin> set bs"
    and w: "w \<noteq> []" "list_all (\<lambda>x. \<not> blank x) w" "length w < m" and m: "m \<le> Suc MAX_INPUT_STR_LEN"
  shows "get_next_word m here s = Ok (length w,
      (adv (length bs + length w) s)\<lparr>input := put_word 0 w (input s), pstate := LAST_LINE\<rparr>)"
proof -
  have a: "at_word here s (List.tl bs)" "rest s = List.tl bs @ w"
    using pend_blank [OF p bs] by simp_all
  obtain b bs' where "bs = b # bs'" using bs(1) by (cases bs) auto
  then show ?thesis
    using next_word_EOF [OF a w m] by simp
qed

text \<open>The blanks up to the end of the line.\<close>

lemma pend_newline:
  assumes p: "pend s (bs @ CHR 0x0A # r)" and bs: "list_all blank bs" "CHR 0x0A \<notin> set bs"
  shows "flush_up_to_newline s = (1, adv (length bs) s)" "pend (adv (length bs) s) (CHR 0x0A # r)"
proof -
  show "flush_up_to_newline s = (1, adv (length bs) s)"
  proof (cases bs)
    case Nil
    with p show ?thesis by (simp add: pend_def flush_newline_here)
  next
    case (Cons b bs')
    with p bs show ?thesis
      using flush_newline [of s bs' r] by (auto simp: pend_def of_char_newline)
  qed
  show "pend (adv (length bs) s) (CHR 0x0A # r)"
    using pend_adv' [OF p] p by (cases bs) simp_all
qed

subsection \<open>Where the scanner stands, up to blanks\<close>

text \<open>\<open>stands s T\<close>: what is pending is \<open>T\<close>, but perhaps with other blanks in front.\<close>

definition stands :: "('h, 'r) st \<Rightarrow> string \<Rightarrow> bool" where
  "stands s T \<longleftrightarrow> (\<exists>t. pend s t \<and> dropWhile blank t = dropWhile blank T)"

lemma drop_blanks [simp]: "list_all blank bs \<Longrightarrow> dropWhile blank (bs @ t) = dropWhile blank t"
  by (simp add: dropWhile_append2 list_all_iff)

lemma stands_pend: "pend s t \<Longrightarrow> stands s t"
  by (auto simp: stands_def)

lemma stands_blanks: "list_all blank bs \<Longrightarrow> stands s (bs @ t) \<longleftrightarrow> stands s t"
  by (simp add: stands_def)

lemma stands_newline [simp]: "stands s (CHR 0x0A # t) \<longleftrightarrow> stands s t"
  using stands_blanks [of "[CHR 0x0A]" s t] by (simp add: isspace_def)

lemma stands_cong: "c_in s' = c_in s \<Longrightarrow> fpos s' = fpos s \<Longrightarrow> fbuf s' = fbuf s \<Longrightarrow> stands s' t = stands s t"
  by (simp add: stands_def pend_cong [of s' s])

text \<open>A word whose first character, or a blank before it, was read.\<close>

lemma pend_word_here:
  assumes p: "pend s (w @ x # r)" and w: "w \<noteq> []" "list_all (\<lambda>x. \<not> blank x) w" "length w < m" and x: "blank x"
    and m: "m \<le> Suc MAX_INPUT_STR_LEN"
  shows "get_next_word m here s = Ok (length w, (adv (length w) s)\<lparr>input := put_word 0 w (input s)\<rparr>)"
    "pend ((adv (length w) s)\<lparr>input := put_word 0 w (input s)\<rparr>) (x # r)"
proof -
  obtain y v where v: "w = y # v" using w(1) by (cases w) auto
  let ?s = "s\<lparr>input := (input s)(0 := y)\<rparr>"
  have s: "c_in s = of_char y" "rest s = v @ x # r" using p v by (simp_all add: pend_def)
  have "y \<noteq> CHR 0x0A" using v w(2) by (auto simp: isspace_def)
  then have "get_next_word m here s = word_loop m 1 ?s"
    using s(1) w(2) v by (simp add: get_next_word_def put_input_def of_char_newline)
  also have "\<dots> = Ok (1 + length v, (adv (Suc (length v)) ?s)\<lparr>input := put_word 1 v (input ?s)\<rparr>)"
    using s(2) w x m v by (intro word_loop_blank) (simp_all add: text_simps)
  finally show "get_next_word m here s = Ok (length w, (adv (length w) s)\<lparr>input := put_word 0 w (input s)\<rparr>)"
    using v by (simp add: put_word_Cons adv_input)
  show "pend ((adv (length w) s)\<lparr>input := put_word 0 w (input s)\<rparr>) (x # r)"
    by (rule pend_adv [OF p w(1)])
qed

lemma pend_word_any:
  assumes p: "pend s (bs @ w @ x # r)" and bs: "list_all blank bs" "here \<longrightarrow> CHR 0x0A \<notin> set bs"
    and w: "w \<noteq> []" "list_all (\<lambda>x. \<not> blank x) w" "length w < m" and x: "blank x"
    and m: "m \<le> Suc MAX_INPUT_STR_LEN"
  shows "get_next_word m here s = Ok (length w, (adv (length bs + length w) s)\<lparr>input := put_word 0 w (input s)\<rparr>)"
    "pend ((adv (length bs + length w) s)\<lparr>input := put_word 0 w (input s)\<rparr>) (x # r)"
  using pend_word [OF p _ bs w x m] pend_word_here(1) [of s w x r m here] pend_word_here(2) [of s w x r m] p w x m
  by (cases "bs = []"; simp)+

lemma stands_word:
  assumes s: "stands s (bs @ w @ x # r)" and bs: "list_all blank bs"
    and w: "w \<noteq> []" "list_all (\<lambda>x. \<not> blank x) w" "length w < m" and x: "blank x" and m: "m \<le> Suc MAX_INPUT_STR_LEN"
  obtains n where "get_next_word m False s = Ok (length w, (adv n s)\<lparr>input := put_word 0 w (input s)\<rparr>)"
    "pend ((adv n s)\<lparr>input := put_word 0 w (input s)\<rparr>) (x # r)"
proof -
  obtain t where t: "pend s t" "dropWhile blank t = w @ x # r"
    using s bs w(1,2) by (cases w) (auto simp: stands_def)
  define b where "b = takeWhile blank t"
  have p: "pend s (b @ w @ x # r)" using t takeWhile_dropWhile_id [of blank t] by (simp add: b_def)
  have b: "list_all blank b" by (auto simp: b_def list_all_iff dest: set_takeWhileD)
  show thesis
    using pend_word_any [OF p b _ w x m, of False] that by auto
qed

end
