(* ===== verification/ScanValue.thy ===== *)
theory ScanValue imports ScanWord begin

section \<open>Tokens and the parser of variables and values (scanner.c)\<close>

text \<open>
  \<open>add_new_token\<close> allocates a token and appends it to the line's ring buffer; \<open>parse_varval_token\<close>
  reads an integer, a variable, or an array element whose index is again one of the three, from
  the word in \<open>prog->input\<close>; \<open>free_token\<close> releases a token with what it owns.  The out parameters
  \<open>type\<close> and \<open>tok_data\<close> of the recursive call point to the fields \<open>idx_type\<close> and \<open>idx\<close> of the
  enclosing array token, here the address \<open>dst\<close> of that token; they are \<open>NULL\<close> (\<open>None\<close>) for the
  outer call, and so is \<open>depth\<close>.
\<close>

subsection \<open>New tokens\<close>

text \<open>The argument \<open>ptr\<close>: absent, a place in \<open>prog->input\<close>, or an array token.\<close>

datatype tok_src = NoPtr | FromInput nat | ArrPtr addr

definition new_tok_data :: "tok_src \<Rightarrow> c_int \<Rightarrow> nat \<Rightarrow> token_type_e \<Rightarrow> nat \<Rightarrow>
    ('h, 'r) st \<Rightarrow> (varval_u \<times> nat \<times> ('h, 'r) st) res" where
  "new_tok_data src val data_len tok code s = (case src of
     NoPtr \<Rightarrow> Ok (Value (if tok = INSTRUCTION_TOK then word_of_nat code else val), 0, s)
   | FromInput p \<Rightarrow>
       (if p + data_len \<le> Suc MAX_INPUT_STR_LEN then
          case alloc (StrB (cstr (input_bytes p (p + data_len) s))) s of (d, s) \<Rightarrow>
            Ok (Ptr d, data_len, s)
        else Undef OutOfBounds)
   | ArrPtr a \<Rightarrow> Ok (Ptr a, 0, s))"

definition write_token :: "('h, 'p, 'r) voids \<Rightarrow> addr \<Rightarrow> ('h, 'r) st \<Rightarrow> ('h, 'r) st res" where
  "write_token V t s = (case rb_write V (translated_line s) t of (r, e) \<Rightarrow>
     if e = VDS_SUCCESS then Ok (s\<lparr>translated_line := r\<rparr>)
     else if e = VDS_BUFFER_FULL then
       (case rb_resize V r (rb_size V r + DEFAULT_TRANSLATED_LINE_LEN) of (r, e) \<Rightarrow>
          if e \<noteq> VDS_SUCCESS then Exit
          else case rb_write V r t of (r, e) \<Rightarrow>
            if e \<noteq> VDS_SUCCESS then Exit else Ok (s\<lparr>translated_line := r\<rparr>))
     else Exit)"

definition add_new_token :: "('h, 'p, 'r) voids \<Rightarrow> tok_src \<Rightarrow> c_int \<Rightarrow> nat \<Rightarrow> token_type_e \<Rightarrow> nat \<Rightarrow>
    ('h, 'r) st \<Rightarrow> ('h, 'r) st res" where
  "add_new_token V src val data_len tok code s =
     (let new_tok = \<lparr>tok_data = Uninit, tok_len = 0, tok_type = tok, tok_line = line s,
          tok_column = column s, tok_prev_col = prev_col s, tok_offset = 0\<rparr> in
      case alloc (TokB new_tok) s of (t, s) \<Rightarrow>
      bnd (new_tok_data src val data_len tok code s) (\<lambda>(d, n, s).
      let new_tok = new_tok\<lparr>tok_data := d, tok_len := n,
            tok_offset := (if tok = LABEL_TOK then fpos s else 0)\<rparr> in
      bnd (store t (TokB new_tok) s) (write_token V t)))"

subsection \<open>Variables and values\<close>

text \<open>The loop over the characters of a name; it ends at \<open>stop\<close>, at \<open>[\<close>, or at an error.\<close>

function scan_name :: "nat \<Rightarrow> char \<Rightarrow> nat \<Rightarrow> ('h, 'r) st \<Rightarrow> (nat \<times> ('h, 'r) st) res" where
  "scan_name symbol_limit stop i s =
     (if i \<le> MAX_INPUT_STR_LEN then
        if input s i \<noteq> stop \<and> input s i \<noteq> CHR ''['' then
          if \<not> isalnum (of_char (input s i)) then Ok (i, die MBadVarName s)
          else if symbol_limit \<le> i then Ok (i, die MSymbolTooLong s)
          else scan_name symbol_limit stop (Suc i) s
        else Ok (i, s)
      else Undef OutOfBounds)"
  by pat_completeness auto
termination
  by (relation "measure (\<lambda>(l, c, i, s). Suc MAX_INPUT_STR_LEN - i)") auto

declare scan_name.simps [simp del]

text \<open>The loop over the digits of a number.\<close>

function scan_digits :: "nat \<Rightarrow> char \<Rightarrow> nat \<Rightarrow> ('h, 'r) st \<Rightarrow> (nat \<times> ('h, 'r) st) res" where
  "scan_digits num_limit stop i s =
     (if i \<le> MAX_INPUT_STR_LEN then
        if input s i \<noteq> stop then
          if \<not> isdigit (of_char (input s i)) then Ok (i, die MBadDigit s)
          else if num_limit \<le> i then Ok (i, die MTooManyDigits s)
          else scan_digits num_limit stop (Suc i) s
        else Ok (i, s)
      else Undef OutOfBounds)"
  by pat_completeness auto
termination
  by (relation "measure (\<lambda>(l, c, i, s). Suc MAX_INPUT_STR_LEN - i)") auto

declare scan_digits.simps [simp del]

text \<open>\<open>atoi\<close> of the buffer from \<open>i\<close> on; a value that is not an \<open>int\<close> is undefined behaviour.\<close>

function atoi_digits :: "nat \<Rightarrow> int \<Rightarrow> ('h, 'r) st \<Rightarrow> int res" where
  "atoi_digits i acc s =
     (if i \<le> MAX_INPUT_STR_LEN then
        if isdigit (of_char (input s i))
        then atoi_digits (Suc i) (acc * 10 + (of_char (input s i) - 48)) s
        else Ok acc
      else Undef OutOfBounds)"
  by pat_completeness auto
termination
  by (relation "measure (\<lambda>(i, acc, s). Suc MAX_INPUT_STR_LEN - i)") auto

declare atoi_digits.simps [simp del]

definition atoi :: "nat \<Rightarrow> ('h, 'r) st \<Rightarrow> c_int res" where
  "atoi i s = bnd (input_at i s) (\<lambda>x.
     if x = CHR ''-'' then bnd (atoi_digits (Suc i) 0 s) (\<lambda>n. chk (- n))
     else bnd (atoi_digits i 0 s) chk)"

text \<open>The closing brackets from \<open>j\<close> to the end of the word.\<close>

function count_closing :: "nat \<Rightarrow> c_uint \<Rightarrow> ('h, 'r) st \<Rightarrow> c_uint res" where
  "count_closing j n s =
     (if j \<le> MAX_INPUT_STR_LEN then
        if input s j = NUL then Ok n
        else count_closing (Suc j) (if input s j = CHR '']'' then n + 1 else n) s
      else Undef OutOfBounds)"
  by pat_completeness auto
termination
  by (relation "measure (\<lambda>(j, n, s). Suc MAX_INPUT_STR_LEN - j)") auto

declare count_closing.simps [simp del]

text \<open>\<open>if (type) *type = t;\<close> and \<open>if (tok_data) *tok_data = ptr;\<close>\<close>

definition put_type :: "addr option \<Rightarrow> token_type_e \<Rightarrow> ('h, 'r) st \<Rightarrow> ('h, 'r) st res" where
  "put_type dst t s = (case dst of None \<Rightarrow> Ok s
     | Some a \<Rightarrow> bnd (read_arrtok a s) (\<lambda>at. store a (ArrTokB (at\<lparr>at_idx_type := Some t\<rparr>)) s))"

definition put_tok_data :: "addr option \<Rightarrow> varval_u \<Rightarrow> ('h, 'r) st \<Rightarrow> ('h, 'r) st res" where
  "put_tok_data dst ptr s = (case dst of None \<Rightarrow> Ok s
     | Some a \<Rightarrow> bnd (read_arrtok a s) (\<lambda>at. store a (ArrTokB (at\<lparr>at_idx := ptr\<rparr>)) s))"

text \<open>The array token for the name between \<open>start_idx\<close> and the bracket at \<open>i\<close>.\<close>

definition new_arr_tok :: "nat \<Rightarrow> nat \<Rightarrow> ('h, 'r) st \<Rightarrow> (addr \<times> ('h, 'r) st) res" where
  "new_arr_tok start_idx i s =
     (let at = \<lparr>at_idx = Uninit, at_idx_type = None, at_name = NULL\<rparr> in
      case alloc (ArrTokB at) s of (arr, s) \<Rightarrow>
      case alloc (StrB (cstr (input_bytes (Suc start_idx) i s))) s of (name, s) \<Rightarrow>
      bnd (store arr (ArrTokB (at\<lparr>at_name := name\<rparr>)) s) (\<lambda>s. Ok (arr, s)))"

lemma scan_name_bounds:
  "scan_name l stop i s = Ok (j, t) \<Longrightarrow> i \<le> j \<and> j \<le> MAX_INPUT_STR_LEN"
proof (induction l stop i s rule: scan_name.induct)
  case (1 l stop i s)
  then show ?case
    by (subst (asm) (2) scan_name.simps) (fastforce split: if_splits)
qed

text \<open>
  The result: whether it succeeded, \<open>depth\<close> afterwards, the state.  For the outer call the local
  \<open>ptr\<close> is a pointer into \<open>prog->input\<close> that is never stored, written \<open>Uninit\<close> here.
\<close>

function parse_varval_token :: "('h, 'p, 'r) voids \<Rightarrow> nat \<Rightarrow> addr option \<Rightarrow> bool \<Rightarrow> c_uint option \<Rightarrow>
    ('h, 'r) st \<Rightarrow> (bool \<times> c_uint option \<times> ('h, 'r) st) res" where
  "parse_varval_token V start_idx dst is_array_idx depth s =
    (let stop = (if is_array_idx then CHR '']'' else NUL);
         finish = (\<lambda>success ptr depth s. bnd (put_tok_data dst ptr s) (\<lambda>s. Ok (success, depth, s)))
     in
     bnd (input_at start_idx s) (\<lambda>x.
     if x = CHR ''$'' then
       bnd (input_at (start_idx + 1) s) (\<lambda>y.
       if isalpha (of_char y) then
         bnd (scan_name (start_idx + 2 + MAX_ALLOWED_SYMBOL_LEN) stop (start_idx + 2) s) (\<lambda>(i, s).
         if input s i = stop then
           bnd (put_type dst INT_VAR_TOK s) (\<lambda>s.
           let offset = i - start_idx in
           if \<not> is_array_idx then
             bnd (add_new_token V (FromInput (start_idx + 1)) 0 offset INT_VAR_TOK 0 s)
               (finish True Uninit depth)
           else
             case alloc (StrB (cstr (input_bytes (start_idx + 1) (start_idx + offset) s))) s of
               (name, s) \<Rightarrow> finish True (Ptr name) depth s)
         else if input s i = CHR ''['' then
           bnd (new_arr_tok start_idx i s) (\<lambda>(arr, s).
           bnd (put_type dst INT_ARR_TOK s) (\<lambda>s.
           bnd (if \<not> is_array_idx then add_new_token V (ArrPtr arr) 0 0 INT_ARR_TOK 0 s else Ok s)
             (\<lambda>s.
           case depth of
             None \<Rightarrow>
               bnd (parse_varval_token V (i + 1) (Some arr) True (Some 1) s) (\<lambda>(ok, recur_depth, s).
               if \<not> ok then Ok (False, None, s)
               else bnd (count_closing (i + 1) 0 s) (\<lambda>closing_bracket_count.
                 if Some closing_bracket_count \<noteq> recur_depth
                 then finish False Uninit None (die MClosingBrackets s)
                 else finish True Uninit None s))
           | Some d \<Rightarrow>
               bnd (parse_varval_token V (i + 1) (Some arr) True (Some (d + 1)) s)
                 (\<lambda>(ok, d, s). finish ok (Ptr arr) d s))))
         else if is_array_idx then finish False Uninit depth (die MClosingBrackets s)
         else finish False Uninit depth s)
       else finish False Uninit depth (die MBadVarName s))
     else if x = CHR ''-'' \<or> isdigit (of_char x) then
       if is_array_idx \<and> x = CHR ''-'' then finish False Uninit depth (die MNegativeIndexChar s)
       else
         bnd (scan_digits (MAX_INT_STR_LEN + start_idx) stop (start_idx + 1) s) (\<lambda>(i, s).
         if input s i = stop then
           bnd (atoi start_idx s) (\<lambda>v.
           bnd (put_type dst INT_VAL_TOK s) (\<lambda>s.
           bnd (if \<not> is_array_idx then add_new_token V NoPtr v 0 INT_VAL_TOK 0 s else Ok s)
             (finish True (Value v) depth)))
         else if is_array_idx then finish False Uninit depth (warn_msg MClosingBrackets s)
         else finish False Uninit depth s)
     else finish False Uninit depth (die MNotVarOrValue s)))"
  by pat_completeness auto
termination
  by (relation "measure (\<lambda>(V, i, d, b, e, s). Suc MAX_INPUT_STR_LEN - i)")
    (auto dest!: scan_name_bounds)

declare parse_varval_token.simps [simp del]

subsection \<open>Releasing tokens\<close>

text \<open>
  The loop along the chain of indices of an array token.  Each round frees the token it looks at,
  so as many rounds as there were allocations are enough.
\<close>

fun free_chain :: "nat \<Rightarrow> addr \<Rightarrow> ('h, 'r) st \<Rightarrow> ('h, 'r) st res" where
  "free_chain 0 cur s = Diverge"
| "free_chain (Suc n) cur s = bnd (read_arrtok cur s) (\<lambda>at.
     case at_idx_type at of
       None \<Rightarrow> Undef UninitRead
     | Some ty \<Rightarrow>
         if ty = INT_ARR_TOK then
           bnd (as_ptr (at_idx at)) (\<lambda>nxt.
           bnd (dealloc (at_name at) s) (\<lambda>s.
           bnd (dealloc cur s) (free_chain n nxt)))
         else
           bnd (if ty \<noteq> INT_VAL_TOK then bnd (as_ptr (at_idx at)) (\<lambda>p. dealloc p s) else Ok s) (\<lambda>s.
           bnd (dealloc (at_name at) s) (dealloc cur)))"

definition free_int_arr_tok :: "addr \<Rightarrow> ('h, 'r) st \<Rightarrow> ('h, 'r) st res" where
  "free_int_arr_tok a s = (if a = NULL then Ok s else free_chain (Suc (fresh s)) a s)"

definition free_token :: "addr \<Rightarrow> ('h, 'r) st \<Rightarrow> ('h, 'r) st res" where
  "free_token p s = (if p = NULL then Ok s else
     bnd (read_tok p s) (\<lambda>tok.
     bnd (if tok_type tok = LABEL_TOK \<or> tok_type tok = INT_VAR_TOK \<or> tok_type tok = STRING_TOK
          then bnd (as_ptr (tok_data tok)) (\<lambda>d. dealloc d s)
          else if tok_type tok = INT_ARR_TOK
          then bnd (as_ptr (tok_data tok)) (\<lambda>d. free_int_arr_tok d s)
          else Ok s) (dealloc p)))"

text \<open>\<open>program_free\<close> (program.c): the pairs of the table, then the tokens that were not read.\<close>

fun free_keyvals :: "(addr \<times> addr) list \<Rightarrow> ('h, 'r) st \<Rightarrow> ('h, 'r) st res" where
  "free_keyvals [] s = Ok s"
| "free_keyvals ((k, d) # items) s =
     bnd (dealloc k s) (\<lambda>s. bnd (dealloc d s) (free_keyvals items))"

fun free_tokens :: "addr list \<Rightarrow> ('h, 'r) st \<Rightarrow> ('h, 'r) st res" where
  "free_tokens [] s = Ok s"
| "free_tokens (t # ts) s = bnd (free_token t s) (free_tokens ts)"

definition program_free :: "('h, 'p, 'r) voids \<Rightarrow> ('h, 'r) st \<Rightarrow> ('h, 'r) st res" where
  "program_free V s = bnd (free_keyvals (qh_items V (vartable s)) s) (\<lambda>s.
     free_tokens (rb_items V (translated_line s)) s)"

end
