(* ===== verification/Scanner.thy ===== *)
theory Scanner imports ScanValue begin

section \<open>Instruction lines (scanner.c)\<close>

text \<open>
  The scanner's handlers, one per kind of instruction, and \<open>tokenize_next_line\<close>, which reads one
  line of the program into the ring buffer.  Each handler keeps the checks of the code in their
  order; an early return is an \<open>Ok\<close> before the end.
\<close>

subsection \<open>The instruction table\<close>

fun name_str :: "instruction_id_e \<Rightarrow> string" where
  "name_str LOAD_SYM = ''LOAD''" | "name_str STORE_SYM = ''STORE''" | "name_str SET_SYM = ''SET''"
| "name_str ADD_SYM = ''ADD''" | "name_str SUB_SYM = ''SUB''" | "name_str MUL_SYM = ''MUL''"
| "name_str DIV_SYM = ''DIV''" | "name_str MOD_SYM = ''MOD''" | "name_str BRGT_SYM = ''BRGT''"
| "name_str BRGE_SYM = ''BRGE''" | "name_str BRLT_SYM = ''BRLT''" | "name_str BRLE_SYM = ''BRLE''"
| "name_str BREQ_SYM = ''BREQ''" | "name_str BRA_SYM = ''BRA''" | "name_str DOWN_SYM = ''DOWN''"
| "name_str UP_SYM = ''UP''" | "name_str SLEEP_SYM = ''SLEEP''" | "name_str PRINT_SYM = ''PRINT''"
| "name_str RETURN_SYM = ''RETURN''"

text \<open>
  The table is keyed by the names; its data pointers lead to the \<open>code\<close> fields of the static
  \<open>instruction_array\<close>, here the index in that array.
\<close>

fun insert_names :: "('h, 'p, 'r) voids \<Rightarrow> instruction_id_e list \<Rightarrow> 'h \<Rightarrow> 'h res" where
  "insert_names V [] h = Ok h"
| "insert_names V (x # xs) h =
     (case qh_insert V h (name_str x) (ins_code x) (ins_code x) of (h, p, e) \<Rightarrow>
        if e \<noteq> VDS_SUCCESS then Exit else insert_names V xs h)"

definition lexer_init :: "('h, 'p, 'r) voids \<Rightarrow> ('h, 'r) st \<Rightarrow> ('h, 'r) st res" where
  "lexer_init V s =
     bnd (insert_names V instructions (qh_init V (length instructions * 2 + 1))) (\<lambda>h.
     Ok (s\<lparr>itable := h\<rparr>))"

subsection \<open>Arguments\<close>

definition minus_or_digit :: "char \<Rightarrow> bool" where
  "minus_or_digit x \<longleftrightarrow> x = CHR ''-'' \<or> isdigit (of_char x)"

text \<open>
  \<open>get_next_word\<close> on the same line and \<open>parse_varval_token\<close> on the word, the step that every
  handler repeats: \<open>first\<close> asks for a variable.  The flag of the result is False after a return.
\<close>

definition scan_arg :: "('h, 'p, 'r) voids \<Rightarrow> instruction_id_e \<Rightarrow> bool \<Rightarrow> ('h, 'r) st \<Rightarrow>
    (bool \<times> ('h, 'r) st) res" where
  "scan_arg V ins first s =
     bnd (get_next_word MAX_ALLOWED_SYMBOL_LEN True s) (\<lambda>(n, s).
     if n = 0 then Ok (False, die (MArgCount ins) s)
     else if first \<and> minus_or_digit (input s 0) then Ok (False, die (MFirstArgVariable ins) s)
     else bnd (parse_varval_token V 0 None False None s) (\<lambda>(ok, d, s). Ok (ok, s)))"

text \<open>The check that ends most handlers: nothing but blanks up to the end of the line.\<close>

definition end_of_line :: "instruction_id_e \<Rightarrow> ('h, 'r) st \<Rightarrow> ('h, 'r) st" where
  "end_of_line ins s = (case flush_up_to_newline s of (r, s) \<Rightarrow>
     if r = LINE_NOT_EMPTY then die (MMoreArguments ins) s else s)"

subsection \<open>Handlers\<close>

definition scan_loadstore :: "('h, 'p, 'r) voids \<Rightarrow> instruction_id_e \<Rightarrow> ('h, 'r) st \<Rightarrow> ('h, 'r) st res"
  where
  "scan_loadstore V ins s =
     bnd (scan_arg V ins True s) (\<lambda>(ok, s). if \<not> ok then Ok s else
     bnd (scan_arg V ins False s) (\<lambda>(ok, s). if \<not> ok then Ok s else
     Ok (end_of_line ins s)))"

definition scan_set :: "('h, 'p, 'r) voids \<Rightarrow> instruction_id_e \<Rightarrow> ('h, 'r) st \<Rightarrow> ('h, 'r) st res" where
  "scan_set V ins s =
     bnd (scan_arg V ins True s) (\<lambda>(ok, s). if \<not> ok then Ok s else
     bnd (scan_arg V ins False s) (\<lambda>(ok, s). if \<not> ok then Ok s else
     Ok (end_of_line ins s)))"

definition scan_primitive_op :: "('h, 'p, 'r) voids \<Rightarrow> instruction_id_e \<Rightarrow> ('h, 'r) st \<Rightarrow>
    ('h, 'r) st res" where
  "scan_primitive_op V ins s =
     bnd (scan_arg V ins True s) (\<lambda>(ok, s). if \<not> ok then Ok s else
     bnd (scan_arg V ins False s) (\<lambda>(ok, s). if \<not> ok then Ok s else
     bnd (scan_arg V ins False s) (\<lambda>(ok, s). if \<not> ok then Ok s else
     Ok (end_of_line ins s))))"

definition scan_branch_label :: "('h, 'p, 'r) voids \<Rightarrow> instruction_id_e \<Rightarrow> ('h, 'r) st \<Rightarrow>
    ('h, 'r) st res" where
  "scan_branch_label V ins s =
     bnd (get_next_word MAX_ALLOWED_SYMBOL_LEN True s) (\<lambda>(i, s).
     case is_valid_label i s of (valid, s) \<Rightarrow>
     if valid then
       bnd (add_new_token V (FromInput 0) 0 (i + 1) LABEL_TOK 0 s) (\<lambda>s.
       let s = end_of_line ins s in
       if c_in s = EOF \<or> pstate s = LAST_LINE then Ok (s\<lparr>pstate := INSTRUCTION_LINE\<rparr>) else Ok s)
     else Ok (die (MLabelArgument ins) s))"

definition scan_branch :: "('h, 'p, 'r) voids \<Rightarrow> instruction_id_e \<Rightarrow> ('h, 'r) st \<Rightarrow> ('h, 'r) st res"
  where
  "scan_branch V ins s =
     (if ins \<noteq> BRA_SYM then
        bnd (scan_arg V ins False s) (\<lambda>(ok, s). if \<not> ok then Ok s else
        bnd (scan_arg V ins False s) (\<lambda>(ok, s). if \<not> ok then Ok s else
        scan_branch_label V ins s))
      else scan_branch_label V ins s)"

definition scan_semaphore :: "('h, 'p, 'r) voids \<Rightarrow> instruction_id_e \<Rightarrow> ('h, 'r) st \<Rightarrow> ('h, 'r) st res"
  where
  "scan_semaphore V ins s =
     bnd (scan_arg V ins True s) (\<lambda>(ok, s). if \<not> ok then Ok s else Ok (end_of_line ins s))"

definition scan_sleep :: "('h, 'p, 'r) voids \<Rightarrow> instruction_id_e \<Rightarrow> ('h, 'r) st \<Rightarrow> ('h, 'r) st res"
  where
  "scan_sleep V ins s =
     bnd (scan_arg V ins False s) (\<lambda>(ok, s). if \<not> ok then Ok s else Ok (end_of_line ins s))"

text \<open>
  The loop of \<open>print_handler\<close> that reads the string; the result is its length, \<open>None\<close> after an
  error.
\<close>

function print_string :: "nat \<Rightarrow> ('h, 'r) st \<Rightarrow> (nat option \<times> ('h, 'r) st) res" where
  "print_string i s = (let s1 = next_char s in
     if c_in s1 = EOF then
       bnd (put_input i 0 (program_stop True s1)) (\<lambda>s. Ok (None, err_msg MStringEOF s))
     else if MAX_INPUT_STR_LEN \<le> i then
       bnd (put_input i 0 (program_stop True s1)) (\<lambda>s. Ok (None, err_msg MStringTooBig s))
     else if \<not> isprint (c_in s1) then
       bnd (put_input i 0 (program_stop True s1)) (\<lambda>s. Ok (None, err_msg MNonPrintable s))
     else if c_in s1 = 34 then
       bnd (put_input i 0 s1) (\<lambda>s.
       let s = next_char s in
       if c_in s = EOF then Ok (None, die MPrintEOF s)
       else if \<not> isspace (c_in s) then Ok (None, die MStringSpace s)
       else Ok (Some i, s))
     else bnd (put_input i (c_in s1) s1) (\<lambda>s2. print_string (Suc i) s2))"
  by pat_completeness auto
termination
  by (relation "measure (\<lambda>(i, s). left s)") (auto simp: next_char_left put_input_left)

declare print_string.simps [simp del]

text \<open>
  The loop over the arguments.  Every round reads at least one character, except the one that
  finds the end of the file, so what is left of the file bounds the rounds.
\<close>

fun print_args :: "('h, 'p, 'r) voids \<Rightarrow> nat \<Rightarrow> ('h, 'r) st \<Rightarrow> ('h, 'r) st res" where
  "print_args V 0 s = Diverge"
| "print_args V (Suc n) s =
     bnd (get_next_word MAX_ALLOWED_SYMBOL_LEN True s) (\<lambda>(i, s).
     if i = 0 then Ok s
     else bnd (parse_varval_token V 0 None False None s) (\<lambda>(ok, d, s).
       if \<not> ok then Ok s else print_args V n s))"

definition scan_print :: "('h, 'p, 'r) voids \<Rightarrow> instruction_id_e \<Rightarrow> ('h, 'r) st \<Rightarrow> ('h, 'r) st res"
  where
  "scan_print V ins s =
     (case flush_up_to_char s of (found, s) \<Rightarrow>
      if \<not> found \<or> c_in s \<noteq> 34 then Ok (die MPrintNeedsString s)
      else let this_line = line s in
        bnd (print_string 0 s) (\<lambda>(n, s).
        case n of None \<Rightarrow> Ok s
        | Some i \<Rightarrow>
            bnd (add_new_token V (FromInput 0) 0 (i + 1) STRING_TOK 0 s) (\<lambda>s.
            case flush_up_to_char s of (found, s) \<Rightarrow>
            if \<not> found \<or> this_line \<noteq> line s
            then (if c_in s = EOF then Ok (s\<lparr>pstate := LAST_LINE\<rparr>) else Ok s)
            else print_args V (left s + 3) s)))"

definition scan_return :: "instruction_id_e \<Rightarrow> ('h, 'r) st \<Rightarrow> ('h, 'r) st res" where
  "scan_return ins s = Ok s"

text \<open>The handlers of \<open>instruction_array\<close>.\<close>

fun scan_handler :: "('h, 'p, 'r) voids \<Rightarrow> instruction_id_e \<Rightarrow> ('h, 'r) st \<Rightarrow> ('h, 'r) st res" where
  "scan_handler V LOAD_SYM = scan_loadstore V LOAD_SYM"
| "scan_handler V STORE_SYM = scan_loadstore V STORE_SYM"
| "scan_handler V SET_SYM = scan_set V SET_SYM"
| "scan_handler V ADD_SYM = scan_primitive_op V ADD_SYM"
| "scan_handler V SUB_SYM = scan_primitive_op V SUB_SYM"
| "scan_handler V MUL_SYM = scan_primitive_op V MUL_SYM"
| "scan_handler V DIV_SYM = scan_primitive_op V DIV_SYM"
| "scan_handler V MOD_SYM = scan_primitive_op V MOD_SYM"
| "scan_handler V BRGT_SYM = scan_branch V BRGT_SYM"
| "scan_handler V BRGE_SYM = scan_branch V BRGE_SYM"
| "scan_handler V BRLT_SYM = scan_branch V BRLT_SYM"
| "scan_handler V BRLE_SYM = scan_branch V BRLE_SYM"
| "scan_handler V BREQ_SYM = scan_branch V BREQ_SYM"
| "scan_handler V BRA_SYM = scan_branch V BRA_SYM"
| "scan_handler V DOWN_SYM = scan_semaphore V DOWN_SYM"
| "scan_handler V UP_SYM = scan_semaphore V UP_SYM"
| "scan_handler V SLEEP_SYM = scan_sleep V SLEEP_SYM"
| "scan_handler V PRINT_SYM = scan_print V PRINT_SYM"
| "scan_handler V RETURN_SYM = scan_return RETURN_SYM"

subsection \<open>A line\<close>

definition call_instruction_handler :: "('h, 'p, 'r) voids \<Rightarrow> nat \<Rightarrow> ('h, 'r) st \<Rightarrow> ('h, 'r) st res"
  where
  "call_instruction_handler V n s =
     (if n = 0 then Ok s
      else case qh_find V (itable s) (input_bytes 0 n s) of
        (Some key, e) \<Rightarrow>
          (if \<not> qh_valid V (itable s) key then Undef UseAfterFree
           else let code = snd (qh_pair V (itable s) key) in
             if code < length instructions then
               bnd (add_new_token V NoPtr 0 0 INSTRUCTION_TOK code s)
                 (scan_handler V (instructions ! code))
             else Undef OutOfBounds)
      | (None, e) \<Rightarrow> Ok (die MUnknownInstruction s))"

definition tokenize_next_line :: "('h, 'p, 'r) voids \<Rightarrow> ('h, 'r) st \<Rightarrow> ('h, 'r) st res" where
  "tokenize_next_line V s =
     bnd (get_next_word MAX_ALLOWED_SYMBOL_LEN False s) (\<lambda>(i, s).
     case is_valid_label i s of (valid, s) \<Rightarrow>
     bnd (if valid then
            bnd (add_new_token V (FromInput 0) 0 (i + 1) LABEL_TOK 0 s) (\<lambda>s.
            bnd (get_next_word MAX_ALLOWED_SYMBOL_LEN True s) (\<lambda>(i, s).
            Ok (i, if i = 0 then die MLabelNeedsInstruction s else s)))
          else Ok (i, s)) (\<lambda>(i, s).
     if pstate s \<noteq> FINISHED then call_instruction_handler V i s else Ok s))"

end
