(* ===== verification/Globals.thy ===== *)
theory Globals imports ScanValue begin

section \<open>Global variables and semaphores (global.c)\<close>

text \<open>
  Globals are arrays of \<open>int\<close> shared by all programs, each a \<open>global_var_s\<close> in \<open>global_table\<close>
  under its name.  Every operation here is one step of the model, although the code looks the name up under the
  lock of the table and reads \<open>pair->pData\<close> and the variable only after it has released that lock: what another thread may do to the
  table in between is not modelled.  Only \<open>program_state_blocked\<close> lets other threads in, while it waits on the
  condition variable.  The build does not define \<open>INIT_SEMAPHORES_WITH_ONE\<close>.
\<close>

definition SEM_INIT :: c_int where "SEM_INIT = 0"

text \<open>The structure comes first, then \<open>calloc(total, sizeof(int))\<close>.\<close>

definition global_var_init :: "size_t \<Rightarrow> ('h, 'r) st \<Rightarrow> (addr \<times> ('h, 'r) st) res" where
  "global_var_init tot s =
     (if tot = 0 then Ok (NULL, s)
      else if mem_max s < 4 * unat tot then Exit
      else case alloc (GVarB \<lparr>gv_count = NULL, gv_len = tot\<rparr>) s of (var, s) \<Rightarrow>
        case alloc (IntsB (replicate (unat tot) (Some SEM_INIT))) s of (cnt, s) \<Rightarrow>
        bnd (store var (GVarB \<lparr>gv_count = cnt, gv_len = tot\<rparr>) s) (\<lambda>s. Ok (var, s)))"

text \<open>\<open>var->count[idx]\<close>, read and written.\<close>

definition count_at :: "addr \<Rightarrow> size_t \<Rightarrow> ('h, 'r) st \<Rightarrow> c_int res" where
  "count_at var idx s = bnd (read_gvar var s) (\<lambda>g. bnd (read_ints (gv_count g) s) (cell (uint idx)))"

definition set_count :: "addr \<Rightarrow> size_t \<Rightarrow> c_int \<Rightarrow> ('h, 'r) st \<Rightarrow> ('h, 'r) st res" where
  "set_count var idx v s = bnd (read_gvar var s) (\<lambda>g.
     bnd (read_ints (gv_count g) s) (\<lambda>xs.
     bnd (set_cell (uint idx) v xs) (\<lambda>xs. store (gv_count g) (IntsB xs) s)))"

definition set_gv_len :: "addr \<Rightarrow> size_t \<Rightarrow> ('h, 'r) st \<Rightarrow> ('h, 'r) st res" where
  "set_gv_len var n s = bnd (read_gvar var s) (\<lambda>g. store var (GVarB (g\<lparr>gv_len := n\<rparr>)) s)"

text \<open>
  \<open>var->count = realloc(var, sizeof(int) * (idx + 1))\<close> and the loop that fills the cells from
  \<open>var->len\<close> up to \<open>hi\<close>.  The argument of \<open>realloc\<close> is the structure itself, so the structure is
  gone when its field \<open>count\<close> is assigned.
\<close>

definition grow_count :: "addr \<Rightarrow> size_t \<Rightarrow> int \<Rightarrow> ('h, 'r) st \<Rightarrow> ('h, 'r) st res" where
  "grow_count var idx hi s =
     (let bytes = unat (4 * (idx + 1)) in
      if mem_max s < bytes then Exit
      else bnd (dealloc var s) (\<lambda>s.
        case alloc (IntsB (replicate (bytes div 4) None)) s of (q, s) \<Rightarrow>
        bnd (read_gvar var s) (\<lambda>g.
        bnd (store var (GVarB (g\<lparr>gv_count := q\<rparr>)) s) (\<lambda>s.
        bnd (read_ints q s) (\<lambda>xs.
        bnd (fill (uint (gv_len g)) hi SEM_INIT xs) (\<lambda>xs. store q (IntsB xs) s))))))"

text \<open>The lookup that starts each operation; the lock and the unlock enclose it.\<close>

definition find_global :: "('h, 'p, 'r) voids \<Rightarrow> addr \<Rightarrow> ('h, 'r) st \<Rightarrow> addr option res" where
  "find_global V key s = bnd (read_str key s) (\<lambda>k.
     case qh_find V (gtab s) k of
       (None, e) \<Rightarrow> Ok None
     | (Some p, e) \<Rightarrow> if qh_valid V (gtab s) p then Ok (Some (snd (qh_pair V (gtab s) p)))
                       else Undef UseAfterFree)"

definition insert_global :: "('h, 'p, 'r) voids \<Rightarrow> addr \<Rightarrow> addr \<Rightarrow> ('h, 'r) st \<Rightarrow> ('h, 'r) st res" where
  "insert_global V key var s = bnd (read_str key s) (\<lambda>k.
     case qh_insert V (gtab s) k key var of (h, p, e) \<Rightarrow>
       if e \<noteq> VDS_SUCCESS then Exit else Ok (s\<lparr>gtab := h\<rparr>))"

definition global_var_up :: "('h, 'p, 'r) voids \<Rightarrow> addr \<Rightarrow> size_t \<Rightarrow> ('h, 'r) st \<Rightarrow> ('h, 'r) st res" where
  "global_var_up V key idx s = bnd (find_global V key s) (\<lambda>pair.
     case pair of
       Some var \<Rightarrow>
         bnd (dealloc key s) (\<lambda>s.
         bnd (read_gvar var s) (\<lambda>g.
         if idx < gv_len g then
           bnd (count_at var idx s) (\<lambda>v. bnd (c_add v 1) (\<lambda>v. set_count var idx v s))
         else
           bnd (grow_count var idx (uint idx) s) (\<lambda>s.
           bnd (set_count var idx 1 s) (set_gv_len var (idx + 1)))))
     | None \<Rightarrow>
         bnd (global_var_init (idx + 1) s) (\<lambda>(var, s).
         bnd (set_count var idx 1 s) (insert_global V key var)))"

definition global_var_down :: "('h, 'p, 'r) voids \<Rightarrow> addr \<Rightarrow> size_t \<Rightarrow> ('h, 'r) st \<Rightarrow> ('h, 'r) st res"
  where
  "global_var_down V key idx s = bnd (find_global V key s) (\<lambda>pair.
     bnd (case pair of
       Some var \<Rightarrow>
         bnd (dealloc key s) (\<lambda>s.
         bnd (read_gvar var s) (\<lambda>g.
         bnd (if gv_len g \<le> idx
              then bnd (grow_count var idx (uint idx) s) (set_gv_len var (idx + 1))
              else Ok s) (\<lambda>s. Ok (var, s))))
     | None \<Rightarrow>
         bnd (global_var_init (idx + 1) s) (\<lambda>(var, s).
         bnd (insert_global V key var s) (\<lambda>s. Ok (var, s)))) (\<lambda>(var, s).
     Ok (s\<lparr>blocked_idx := idx, pstate := BLOCKED, sem := var\<rparr>)))"

text \<open>
  One round of a blocked program.  \<open>others\<close> is what the other threads do to the state while
  \<open>pthread_cond_timedwait\<close> has released the mutex.
\<close>

definition take_unit :: "('h, 'r) st \<Rightarrow> c_int \<Rightarrow> ('h, 'r) st res" where
  "take_unit s v = bnd (c_sub v 1) (\<lambda>v. bnd (set_count (sem s) (blocked_idx s) v s) (\<lambda>s.
     Ok (if pstate s = BLOCKED then s\<lparr>pstate := INSTRUCTION_LINE\<rparr> else s)))"

definition program_state_blocked :: "(('h, 'r) st \<Rightarrow> ('h, 'r) st) \<Rightarrow> ('h, 'r) st \<Rightarrow> ('h, 'r) st res"
  where
  "program_state_blocked others s = bnd (count_at (sem s) (blocked_idx s) s) (\<lambda>v.
     if sint v \<le> 0 then
       let s = others s in
       bnd (count_at (sem s) (blocked_idx s) s) (\<lambda>v. if 0 < sint v then take_unit s v else Ok s)
     else take_unit s v)"

definition global_var_load :: "('h, 'p, 'r) voids \<Rightarrow> addr \<Rightarrow> size_t \<Rightarrow> ('h, 'r) st \<Rightarrow>
    (c_int \<times> ('h, 'r) st) res" where
  "global_var_load V key idx s = bnd (find_global V key s) (\<lambda>pair.
     case pair of
       Some var \<Rightarrow>
         bnd (dealloc key s) (\<lambda>s.
         bnd (read_gvar var s) (\<lambda>g.
         if idx < gv_len g then bnd (count_at var idx s) (\<lambda>v. Ok (v, s))
         else bnd (grow_count var idx (uint (idx + 1)) s) (\<lambda>s.
           bnd (set_gv_len var (idx + 1) s) (\<lambda>s. Ok (0, s)))))
     | None \<Rightarrow>
         bnd (global_var_init (idx + 1) s) (\<lambda>(var, s).
         bnd (insert_global V key var s) (\<lambda>s. Ok (0, s))))"

definition global_var_store :: "('h, 'p, 'r) voids \<Rightarrow> addr \<Rightarrow> size_t \<Rightarrow> c_int \<Rightarrow> ('h, 'r) st \<Rightarrow>
    ('h, 'r) st res" where
  "global_var_store V key idx to_store s = bnd (find_global V key s) (\<lambda>pair.
     case pair of
       Some var \<Rightarrow>
         bnd (dealloc key s) (\<lambda>s.
         bnd (read_gvar var s) (\<lambda>g.
         if idx < gv_len g then set_count var idx to_store s
         else bnd (grow_count var idx (uint (idx + 1)) s) (\<lambda>s.
           bnd (set_count var idx to_store s) (set_gv_len var (idx + 1)))))
     | None \<Rightarrow>
         bnd (global_var_init (idx + 1) s) (\<lambda>(var, s).
         bnd (set_count var idx to_store s) (insert_global V key var)))"

definition global_table_init :: "('h, 'p, 'r) voids \<Rightarrow> ('h, 'r) st \<Rightarrow> ('h, 'r) st" where
  "global_table_init V s = s\<lparr>gtab := qh_init V GLOBAL_TABLE_INIT_SIZE\<rparr>"

end
