(* ===== verification/Variables.thy ===== *)
theory Variables imports ScanValue begin

section \<open>The variables of a program (exec.c)\<close>

text \<open>
  Local variables are \<open>int\<close> arrays in \<open>prog->vartable\<close>: cell 0 holds the number of elements, the
  elements follow; a scalar is an array of one element.  Labels live in the same table, with -1 in
  the place of the length.  Reading evaluates the token of a variable or value and consumes its
  storage; reading or writing an undefined variable defines it, and an index past the end grows the
  array.  The recursion over indices carries fuel: \<open>Suc (fresh s)\<close> at every call from outside.
\<close>

definition argv_at :: "int \<Rightarrow> ('h, 'r) st \<Rightarrow> c_int res" where
  "argv_at i s = (if 0 \<le> i \<and> i < int (length (argv s)) then Ok (argv s ! nat i)
     else Undef OutOfBounds)"

text \<open>\<open>QuadHash_find\<close> under \<open>VDS\<close>, and the accesses through the pair it returned.\<close>

definition find_var :: "('h, 'p, 'r) voids \<Rightarrow> string \<Rightarrow> ('h, 'r) st \<Rightarrow> 'p option res" where
  "find_var V k s = (case qh_find V (vartable s) k of (p, e) \<Rightarrow>
     if e \<noteq> VDS_SUCCESS then Exit else Ok p)"

definition pair_data :: "('h, 'p, 'r) voids \<Rightarrow> 'p \<Rightarrow> ('h, 'r) st \<Rightarrow> addr res" where
  "pair_data V p s = (if qh_valid V (vartable s) p then Ok (snd (qh_pair V (vartable s) p))
     else Undef UseAfterFree)"

definition set_pair_data :: "('h, 'p, 'r) voids \<Rightarrow> 'p \<Rightarrow> addr \<Rightarrow> ('h, 'r) st \<Rightarrow> ('h, 'r) st res" where
  "set_pair_data V p d s = (if qh_valid V (vartable s) p
     then Ok (s\<lparr>vartable := qh_set_data V (vartable s) p d\<rparr>) else Undef UseAfterFree)"

definition insert_var :: "('h, 'p, 'r) voids \<Rightarrow> addr \<Rightarrow> addr \<Rightarrow> ('h, 'r) st \<Rightarrow> ('h, 'r) st res" where
  "insert_var V key d s = bnd (read_str key s) (\<lambda>k.
     case qh_insert V (vartable s) k key d of (h, p, e) \<Rightarrow>
       if e \<noteq> VDS_SUCCESS then Exit else Ok (s\<lparr>vartable := h\<rparr>))"

text \<open>\<open>*(int* )pData\<close>: the length of an array, or the \<open>placeholder\<close> of a label.\<close>

definition read_head :: "addr \<Rightarrow> ('h, 'r) st \<Rightarrow> c_int res" where
  "read_head d s = bnd (deref d s) (\<lambda>b. case b of
     IntsB xs \<Rightarrow> cell 0 xs | LabelB l \<Rightarrow> Ok (lbl_placeholder l) | _ \<Rightarrow> Undef TypeConfusion)"

text \<open>
  The growth of an array through the pair \<open>p\<close> to \<open>tmp\<close> elements: \<open>realloc\<close>, zeros from cell
  \<open>arr[0]\<close> on, the new length, and the new pointer in the table.
\<close>

definition grow_array :: "('h, 'p, 'r) voids \<Rightarrow> 'p \<Rightarrow> addr \<Rightarrow> c_int \<Rightarrow> ('h, 'r) st \<Rightarrow>
    (addr \<times> ('h, 'r) st) res" where
  "grow_array V p arr tmp s =
     bnd (c_add tmp 1) (\<lambda>hi.
     bnd (realloc_ints arr (nat (sint hi)) s) (\<lambda>(arr, s).
     bnd (read_ints arr s) (\<lambda>xs.
     bnd (cell 0 xs) (\<lambda>lo.
     bnd (fill (sint lo) (sint hi) 0 xs) (\<lambda>xs.
     bnd (set_cell 0 tmp xs) (\<lambda>xs.
     bnd (store arr (IntsB xs) s) (\<lambda>s.
     bnd (set_pair_data V p arr s) (\<lambda>s. Ok (arr, s)))))))))"

text \<open>A new array of \<open>tmp\<close> zeros.\<close>

definition new_array :: "c_int \<Rightarrow> ('h, 'r) st \<Rightarrow> (addr \<times> ('h, 'r) st) res" where
  "new_array tmp s =
     bnd (c_add tmp 1) (\<lambda>hi.
     bnd (malloc_ints (nat (sint hi)) s) (\<lambda>(arr, s).
     bnd (read_ints arr s) (\<lambda>xs.
     bnd (set_cell 0 tmp xs) (\<lambda>xs.
     bnd (fill 1 (sint hi) 0 xs) (\<lambda>xs.
     bnd (store arr (IntsB xs) s) (\<lambda>s. Ok (arr, s)))))))"

text \<open>A new scalar.\<close>

definition new_scalar :: "c_int \<Rightarrow> ('h, 'r) st \<Rightarrow> (addr \<times> ('h, 'r) st) res" where
  "new_scalar v s = bnd (malloc_ints 2 s) (\<lambda>(arr, s).
     bnd (store arr (IntsB [Some 1, Some v]) s) (\<lambda>s. Ok (arr, s)))"

subsection \<open>Reading\<close>

text \<open>
  \<open>__varval_get_value\<close>: \<open>Some v\<close> is the return value 1 with \<open>*value = v\<close>, \<open>None\<close> the return
  value 0.
\<close>

fun varval_get :: "nat \<Rightarrow> ('h, 'p, 'r) voids \<Rightarrow> token_type_e \<Rightarrow> varval_u \<Rightarrow> ('h, 'r) st \<Rightarrow>
    (c_int option \<times> ('h, 'r) st) res" where
  "varval_get 0 V ty d s = Diverge"
| "varval_get (Suc n) V ty d s = (case ty of
     INT_VAL_TOK \<Rightarrow> bnd (as_value d) (\<lambda>v. Ok (Some v, s))
   | INT_VAR_TOK \<Rightarrow>
       bnd (as_ptr d) (\<lambda>search_key.
       bnd (read_str search_key s) (\<lambda>k.
       if k = ''argc'' then
         bnd (dealloc search_key s) (\<lambda>s. bnd (argv_at 1 s) (\<lambda>v. Ok (Some v, s)))
       else
         bnd (find_var V k s) (\<lambda>table_data. case table_data of
           Some p \<Rightarrow>
             bnd (pair_data V p s) (\<lambda>arr.
             bnd (read_head arr s) (\<lambda>h.
             if h = -1 then Ok (None, die MLabelExists s)
             else bnd (read_ints arr s) (\<lambda>xs.
               if 1 < sint h then Ok (None, die MArrayByName s)
               else bnd (cell 1 xs) (\<lambda>v.
                 bnd (dealloc search_key s) (\<lambda>s. Ok (Some v, s))))))
         | None \<Rightarrow>
             bnd (new_scalar 0 s) (\<lambda>(arr, s).
             bnd (insert_var V search_key arr s) (\<lambda>s. Ok (Some 0, s))))))
   | INT_ARR_TOK \<Rightarrow>
       bnd (as_ptr d) (\<lambda>a.
       bnd (read_arrtok a s) (\<lambda>at.
       bnd (read_str (at_name at) s) (\<lambda>k.
       let index = (\<lambda>s. bnd (read_arrtok a s) (\<lambda>at. case at_idx_type at of
             None \<Rightarrow> Undef UninitRead
           | Some ity \<Rightarrow> varval_get n V ity (at_idx at) s)) in
       if k = ''argv'' then
         bnd (index s) (\<lambda>(r, s). case r of None \<Rightarrow> Ok (None, s) | Some tmp_idx \<Rightarrow>
           bnd (argv_at 1 s) (\<lambda>argc.
           if sint argc \<le> sint tmp_idx then Ok (None, die MArgvBounds s)
           else bnd (dealloc (at_name at) s) (\<lambda>s.
             bnd (dealloc a s) (\<lambda>s.
             bnd (argv_at (sint tmp_idx + 2) s) (\<lambda>v. Ok (Some v, s))))))
       else
         bnd (find_var V k s) (\<lambda>table_data. case table_data of
           Some p \<Rightarrow>
             bnd (pair_data V p s) (\<lambda>arr.
             bnd (read_head arr s) (\<lambda>h.
             if h = -1 then Ok (None, die MLabelExists s)
             else bnd (index s) (\<lambda>(r, s). case r of None \<Rightarrow> Ok (None, s) | Some tmp \<Rightarrow>
               if sint tmp < 0 then Ok (None, die MNegativeIndex s)
               else
                 bnd (c_add tmp 1) (\<lambda>tmp.
                 bnd (read_ints arr s) (\<lambda>xs.
                 bnd (cell 0 xs) (\<lambda>size.
                 bnd (c_add size 1) (\<lambda>size1.
                 bnd (if sint size1 \<le> sint tmp
                      then bnd (grow_array V p arr tmp s) (\<lambda>(arr, s). Ok (0, s))
                      else bnd (cell (sint tmp) xs) (\<lambda>v. Ok (v, s))) (\<lambda>(final_val, s).
                 bnd (dealloc (at_name at) s) (\<lambda>s.
                 bnd (dealloc a s) (\<lambda>s. Ok (Some final_val, s))))))))))) 
         | None \<Rightarrow>
             bnd (index s) (\<lambda>(r, s). case r of None \<Rightarrow> Ok (None, s) | Some tmp \<Rightarrow>
               if sint tmp < 0 then Ok (None, die MNegativeIndex s)
               else
                 bnd (c_add tmp 1) (\<lambda>tmp.
                 bnd (new_array tmp s) (\<lambda>(arr, s).
                 bnd (dealloc a s) (\<lambda>s.
                 bnd (insert_var V (at_name at) arr s) (\<lambda>s. Ok (Some 0, s))))))))))
   | _ \<Rightarrow> Ok (None, s))"

declare varval_get.simps [simp del]

text \<open>The index of an array token, evaluated.\<close>

definition index_value :: "('h, 'p, 'r) voids \<Rightarrow> addr \<Rightarrow> ('h, 'r) st \<Rightarrow>
    (c_int option \<times> ('h, 'r) st) res" where
  "index_value V a s = bnd (read_arrtok a s) (\<lambda>at. case at_idx_type at of
       None \<Rightarrow> Undef UninitRead
     | Some ity \<Rightarrow> varval_get (Suc (fresh s)) V ity (at_idx at) s)"

subsection \<open>Writing\<close>

text \<open>\<open>__varval_set_value\<close>; the result is its return value.\<close>

definition varval_set :: "('h, 'p, 'r) voids \<Rightarrow> token_type_e \<Rightarrow> varval_u \<Rightarrow> c_int \<Rightarrow> ('h, 'r) st \<Rightarrow>
    (bool \<times> ('h, 'r) st) res" where
  "varval_set V ty d to_set s = (case ty of
     INT_VAR_TOK \<Rightarrow>
       bnd (as_ptr d) (\<lambda>search_key.
       bnd (read_str search_key s) (\<lambda>k.
       if k = ''argc'' then Ok (False, die MArgcConstant s)
       else
         bnd (find_var V k s) (\<lambda>table_data. case table_data of
           Some p \<Rightarrow>
             bnd (pair_data V p s) (\<lambda>arr.
             bnd (read_head arr s) (\<lambda>h.
             if h = -1 then Ok (False, die MLabelExists s)
             else bnd (read_ints arr s) (\<lambda>xs.
               if 1 < sint h then Ok (False, die MArrayByName s)
               else
                 bnd (set_cell 1 to_set xs) (\<lambda>xs.
                 bnd (store arr (IntsB xs) s) (\<lambda>s.
                 bnd (dealloc search_key s) (\<lambda>s. Ok (True, s)))))))
         | None \<Rightarrow>
             bnd (new_scalar to_set s) (\<lambda>(arr, s).
             bnd (insert_var V search_key arr s) (\<lambda>s. Ok (True, s))))))
   | INT_ARR_TOK \<Rightarrow>
       bnd (as_ptr d) (\<lambda>a.
       bnd (read_arrtok a s) (\<lambda>at.
       bnd (read_str (at_name at) s) (\<lambda>k.
       if k = ''argv'' then Ok (False, die MArgvConstant s)
       else
         bnd (find_var V k s) (\<lambda>table_data. case table_data of
           Some p \<Rightarrow>
             bnd (pair_data V p s) (\<lambda>arr.
             bnd (read_head arr s) (\<lambda>h.
             if h = -1 then Ok (False, die MLabelExists s)
             else bnd (index_value V a s) (\<lambda>(r, s). case r of None \<Rightarrow> Ok (False, s) | Some tmp \<Rightarrow>
               if sint tmp < 0 then Ok (False, die MNegativeIndex s)
               else
                 bnd (c_add tmp 1) (\<lambda>tmp.
                 bnd (read_ints arr s) (\<lambda>xs.
                 bnd (cell 0 xs) (\<lambda>size.
                 bnd (c_add size 1) (\<lambda>size1.
                 bnd (if sint size1 \<le> sint tmp then grow_array V p arr tmp s else Ok (arr, s))
                   (\<lambda>(arr, s).
                 bnd (read_ints arr s) (\<lambda>xs.
                 bnd (set_cell (sint tmp) to_set xs) (\<lambda>xs.
                 bnd (store arr (IntsB xs) s) (\<lambda>s.
                 bnd (dealloc (at_name at) s) (\<lambda>s.
                 bnd (dealloc a s) (\<lambda>s. Ok (True, s))))))))))))))
         | None \<Rightarrow>
             bnd (index_value V a s) (\<lambda>(r, s). case r of None \<Rightarrow> Ok (False, s) | Some tmp \<Rightarrow>
               if sint tmp < 0 then Ok (False, die MNegativeIndex s)
               else
                 bnd (c_add tmp 1) (\<lambda>tmp.
                 bnd (new_array tmp s) (\<lambda>(arr, s).
                 bnd (read_ints arr s) (\<lambda>xs.
                 bnd (set_cell (sint tmp) to_set xs) (\<lambda>xs.
                 bnd (store arr (IntsB xs) s) (\<lambda>s.
                 bnd (dealloc a s) (\<lambda>s.
                 bnd (insert_var V (at_name at) arr s) (\<lambda>s. Ok (True, s)))))))))))))
   | _ \<Rightarrow> Ok (False, s))"

subsection \<open>Tokens\<close>

text \<open>\<open>SET_PARSER_IDX\<close> and \<open>RESET_PARSER_IDX\<close>: the position of the token for the messages.\<close>

definition set_parser_idx :: "token_s \<Rightarrow> ('h, 'r) st \<Rightarrow> ('h, 'r) st" where
  "set_parser_idx tok s = s\<lparr>line := tok_line tok, column := tok_column tok,
     prev_col := tok_prev_col tok\<rparr>"

definition reset_parser_idx :: "('h, 'r) st \<Rightarrow> ('h, 'r) st \<Rightarrow> ('h, 'r) st" where
  "reset_parser_idx s0 s = s\<lparr>line := line s0, column := column s0, prev_col := prev_col s0\<rparr>"

definition varval_set_value :: "('h, 'p, 'r) voids \<Rightarrow> addr \<Rightarrow> c_int \<Rightarrow> ('h, 'r) st \<Rightarrow>
    (bool \<times> ('h, 'r) st) res" where
  "varval_set_value V tok to_set s = bnd (read_tok tok s) (\<lambda>t.
     bnd (varval_set V (tok_type t) (tok_data t) to_set (set_parser_idx t s)) (\<lambda>(ret, s').
     let s' = reset_parser_idx s s' in
     bnd (if ret then dealloc tok s' else free_token tok s') (\<lambda>s'. Ok (ret, s'))))"

definition varval_get_value :: "('h, 'p, 'r) voids \<Rightarrow> addr \<Rightarrow> ('h, 'r) st \<Rightarrow>
    (c_int option \<times> ('h, 'r) st) res" where
  "varval_get_value V tok s = bnd (read_tok tok s) (\<lambda>t.
     bnd (varval_get (Suc (fresh s)) V (tok_type t) (tok_data t) (set_parser_idx t s)) (\<lambda>(ret, s').
     let s' = reset_parser_idx s s' in
     bnd (if ret \<noteq> None then dealloc tok s' else free_token tok s') (\<lambda>s'. Ok (ret, s'))))"

end
