(* ===== verification/VarSpec.thy ===== *)
theory VarSpec imports Variables begin

section \<open>What variables are: environments, and the refinement by the hash table\<close>

text \<open>
  The abstract view of a program's variables is an environment: a finite map from names to arrays
  of \<open>int\<close> or labels.  \<open>aget\<close> and \<open>aset\<close> say what reading and writing a variable does to it.  The
  refinement theorems state that \<open>varval_get\<close> and \<open>varval_set\<close>, which work on the tables, the
  pointers and the tokens in memory, compute exactly that, for every index expression, and release
  or hand over every block of the token.  \<open>aget\<close> and \<open>aset\<close> are undefined where the code stops the
  program or misbehaves; those cases are stated on their own.
\<close>

subsection \<open>Environments and expressions\<close>

datatype expr = EVal c_int | EVar string | EArr string expr

datatype var = VArr "c_int list" | VLabel label_data_s

type_synonym env = "string \<Rightarrow> var option"

text \<open>
  Growth of an array to \<open>n\<close> elements as the code does it: the zeros start at the cell \<open>arr[0]\<close>, which
  holds the last element.
\<close>

definition grow :: "c_int list \<Rightarrow> nat \<Rightarrow> c_int list" where
  "grow xs n = butlast xs @ replicate (n - (length xs - 1)) 0"

text \<open>
  Reading: \<open>av\<close> is \<open>argv\<close>, \<open>mm\<close> the allocation limit.  The flag of the result says whether a
  variable was defined, which invalidates the pairs of the table found before.
\<close>

fun aget :: "c_int list \<Rightarrow> nat \<Rightarrow> env \<Rightarrow> expr \<Rightarrow> (c_int \<times> env \<times> bool) option" where
  "aget av mm A (EVal v) = Some (v, A, False)"
| "aget av mm A (EVar x) =
     (if x = ''argc'' then if 1 < length av then Some (av ! 1, A, False) else None
      else case A x of
        None \<Rightarrow> if 8 \<le> mm then Some (0, A(x \<mapsto> VArr [0]), True) else None
      | Some (VLabel l) \<Rightarrow> None
      | Some (VArr xs) \<Rightarrow> if length xs = 1 then Some (xs ! 0, A, False) else None)"
| "aget av mm A (EArr x e) =
     (case aget av mm A e of None \<Rightarrow> None
      | Some (t, A', ins) \<Rightarrow>
          if x = ''argv'' then
            if 1 < length av \<and> sint t < sint (av ! 1) \<and> 0 \<le> sint t + 2 \<and> sint t + 2 < int (length av)
            then Some (av ! nat (sint t + 2), A', ins) else None
          else if sint t < 0 \<or> 2147483647 \<le> sint t + 1 \<or> A' x \<noteq> A x then None
          else (case A x of
            None \<Rightarrow> if 4 * (nat (sint t) + 2) \<le> mm
              then Some (0, A'(x \<mapsto> VArr (replicate (nat (sint t) + 1) 0)), True) else None
          | Some (VLabel l) \<Rightarrow> None
          | Some (VArr xs) \<Rightarrow>
              if nat (sint t) < length xs then Some (xs ! nat (sint t), A', ins)
              else if ins \<or> mm < 4 * (nat (sint t) + 2) then None
              else Some (0, A'(x \<mapsto> VArr (grow xs (nat (sint t) + 1))), ins)))"

definition aset :: "c_int list \<Rightarrow> nat \<Rightarrow> env \<Rightarrow> expr \<Rightarrow> c_int \<Rightarrow> env option" where
  "aset av mm A e v = (case e of
     EVal w \<Rightarrow> None
   | EVar x \<Rightarrow>
       if x = ''argc'' then None
       else (case A x of
         None \<Rightarrow> if 8 \<le> mm then Some (A(x \<mapsto> VArr [v])) else None
       | Some (VLabel l) \<Rightarrow> None
       | Some (VArr xs) \<Rightarrow> if length xs = 1 then Some (A(x \<mapsto> VArr [v])) else None)
   | EArr x i \<Rightarrow>
       if x = ''argv'' then None
       else (case aget av mm A i of None \<Rightarrow> None
         | Some (t, A', ins) \<Rightarrow>
             if sint t < 0 \<or> 2147483647 \<le> sint t + 1 \<or> A' x \<noteq> A x then None
             else (case A x of
               None \<Rightarrow> if 4 * (nat (sint t) + 2) \<le> mm
                 then Some (A'(x \<mapsto> VArr ((replicate (nat (sint t) + 1) 0)[nat (sint t) := v]))) else None
             | Some (VLabel l) \<Rightarrow> None
             | Some (VArr xs) \<Rightarrow>
                 if nat (sint t) < length xs then Some (A'(x \<mapsto> VArr (xs[nat (sint t) := v])))
                 else if ins \<or> mm < 4 * (nat (sint t) + 2) then None
                 else Some (A'(x \<mapsto> VArr ((grow xs (nat (sint t) + 1))[nat (sint t) := v]))))))"

fun edepth :: "expr \<Rightarrow> nat" where
  "edepth (EVal v) = 0"
| "edepth (EVar x) = 0"
| "edepth (EArr x e) = Suc (edepth e)"

subsection \<open>Expressions and environments in memory\<close>

text \<open>
  \<open>rep h ty d e F\<close>: in the heap \<open>h\<close> the pair of a type and a union value stands for the expression
  \<open>e\<close> and owns the blocks \<open>F\<close>.
\<close>

fun rep :: "(addr \<Rightarrow> block option) \<Rightarrow> token_type_e \<Rightarrow> varval_u \<Rightarrow> expr \<Rightarrow> addr list \<Rightarrow> bool" where
  "rep h ty d (EVal v) F \<longleftrightarrow> ty = INT_VAL_TOK \<and> d = Value v \<and> F = []"
| "rep h ty d (EVar x) F \<longleftrightarrow> ty = INT_VAR_TOK \<and>
     (\<exists>a. d = Ptr a \<and> a \<noteq> NULL \<and> h a = Some (StrB x) \<and> F = [a])"
| "rep h ty d (EArr x e) F \<longleftrightarrow> ty = INT_ARR_TOK \<and>
     (\<exists>a n ty' d' F'. d = Ptr a \<and> a \<noteq> NULL \<and> n \<noteq> NULL \<and> F = a # n # F' \<and>
        h a = Some (ArrTokB \<lparr>at_idx = d', at_idx_type = Some ty', at_name = n\<rparr>) \<and>
        h n = Some (StrB x) \<and> rep h ty' d' e F')"

fun enc :: "var \<Rightarrow> block" where
  "enc (VArr xs) = IntsB (Some (word_of_nat (length xs)) # map Some xs)"
| "enc (VLabel l) = LabelB l"

fun var_ok :: "var \<Rightarrow> bool" where
  "var_ok (VArr xs) \<longleftrightarrow> 1 \<le> length xs \<and> length xs < 2147483647"
| "var_ok (VLabel l) \<longleftrightarrow> lbl_placeholder l = -1"

text \<open>The blocks that a table owns, and the invariant of a table whose pairs stand for \<open>A\<close>.\<close>

type_synonym pairs = "string \<Rightarrow> (addr \<times> addr) option"

definition owned :: "pairs \<Rightarrow> addr set" where
  "owned m = {a. \<exists>k ka da. m k = Some (ka, da) \<and> (a = ka \<or> a = da)}"

fun pair_ok :: "(addr \<Rightarrow> block option) \<Rightarrow> string \<Rightarrow> (addr \<times> addr) option \<Rightarrow> var option \<Rightarrow> bool" where
  "pair_ok h k None None \<longleftrightarrow> True"
| "pair_ok h k (Some (ka, da)) (Some v) \<longleftrightarrow> ka \<noteq> NULL \<and> da \<noteq> NULL \<and> var_ok v \<and>
     h ka = Some (StrB k) \<and> h da = Some (enc v)"
| "pair_ok h k _ _ \<longleftrightarrow> False"

definition data_inj :: "pairs \<Rightarrow> bool" where
  "data_inj m \<longleftrightarrow> (\<forall>k k' ka ka' da. m k = Some (ka, da) \<longrightarrow> m k' = Some (ka', da) \<longrightarrow> k = k')"

definition vinv :: "(addr \<Rightarrow> block option) \<Rightarrow> pairs \<Rightarrow> env \<Rightarrow> bool" where
  "vinv h m A \<longleftrightarrow> (\<forall>k. pair_ok h k (m k) (A k)) \<and> data_inj m"

text \<open>What evaluation may do to a variable: keep it with its pointer, or lengthen the array.\<close>

definition key_mono :: "var option \<Rightarrow> (addr \<times> addr) option \<Rightarrow> var option \<Rightarrow> (addr \<times> addr) option \<Rightarrow> bool" where
  "key_mono vo p vo' p' \<longleftrightarrow> vo = None \<or> (vo' = vo \<and> p' = p) \<or>
     (\<exists>xs ys. vo = Some (VArr xs) \<and> vo' = Some (VArr ys) \<and> length xs < length ys)"

definition var_mono :: "env \<Rightarrow> pairs \<Rightarrow> env \<Rightarrow> pairs \<Rightarrow> bool" where
  "var_mono A m A' m' \<longleftrightarrow> (\<forall>k. key_mono (A k) (m k) (A' k) (m' k))"

lemma enc_not_StrB [simp]: "enc v \<noteq> StrB x" "enc v \<noteq> ArrTokB t" "enc v \<noteq> TokB u"
  by (cases v; simp)+

lemma pair_ok_SomeE:
  assumes "pair_ok h k (Some (ka, da)) vo"
  obtains v where "vo = Some v" "ka \<noteq> NULL" "da \<noteq> NULL" "var_ok v" "h ka = Some (StrB k)"
    "h da = Some (enc v)"
  using assms by (cases vo) auto

lemma pair_ok_None [simp]: "pair_ok h k None vo \<longleftrightarrow> vo = None" "pair_ok h k p None \<longleftrightarrow> p = None"
  by (cases vo; simp) (cases p; auto)

lemma vinv_None: "vinv h m A \<Longrightarrow> m k = None \<longleftrightarrow> A k = None"
  unfolding vinv_def by (metis pair_ok_None)

lemma vinv_Some:
  assumes "vinv h m A" and "m k = Some (ka, da)"
  obtains v where "A k = Some v" "ka \<noteq> NULL" "da \<noteq> NULL" "var_ok v" "h ka = Some (StrB k)"
    "h da = Some (enc v)"
proof -
  have "pair_ok h k (Some (ka, da)) (A k)"
    using assms unfolding vinv_def by metis
  then show thesis by (rule pair_ok_SomeE) (rule that)
qed

lemma ownedI: "m k = Some (ka, da) \<Longrightarrow> ka \<in> owned m" "m k = Some (ka, da) \<Longrightarrow> da \<in> owned m"
  unfolding owned_def by blast+

lemma ownedE:
  assumes "a \<in> owned m"
  obtains k ka da where "m k = Some (ka, da)" "a = ka \<or> a = da"
  using assms unfolding owned_def by blast

lemma pair_ok_cong:
  "pair_ok h k (m k) vo \<Longrightarrow> (\<And>ka da. m k = Some (ka, da) \<Longrightarrow> h' ka = h ka \<and> h' da = h da) \<Longrightarrow>
    pair_ok h' k (m k) vo"
  by (cases "m k"; cases vo) auto

lemma vinv_cong:
  assumes "vinv h m A" and "\<And>a. a \<in> owned m \<Longrightarrow> h' a = h a"
  shows "vinv h' m A"
  unfolding vinv_def
proof (intro conjI allI)
  show "data_inj m" using assms(1) by (simp add: vinv_def)
  fix k
  show "pair_ok h' k (m k) (A k)"
  proof (rule pair_ok_cong)
    show "pair_ok h k (m k) (A k)" using assms(1) by (simp add: vinv_def)
    show "h' ka = h ka \<and> h' da = h da" if "m k = Some (ka, da)" for ka da
      using ownedI [of m k ka da] that assms(2) by simp
  qed
qed

lemma data_injD: "data_inj m \<Longrightarrow> m k = Some (ka, da) \<Longrightarrow> m k' = Some (ka', da) \<Longrightarrow> k = k'"
  unfolding data_inj_def by blast

text \<open>A key pointer is no data pointer: their blocks differ.\<close>

lemma key_not_data:
  assumes "vinv h m A" "m k = Some (ka, da)" "m k' = Some (ka', da')"
  shows "ka \<noteq> da'"
  by (rule vinv_Some [OF assms(1,2)], rule vinv_Some [OF assms(1,3)]) auto

lemma key_inj:
  assumes "vinv h m A" "m k = Some (ka, da)" "m k' = Some (ka, da')"
  shows "k = k'"
  by (rule vinv_Some [OF assms(1,2)], rule vinv_Some [OF assms(1,3)]) auto

lemma data_inj_upd:
  assumes "data_inj m" and "\<And>k ka. k \<noteq> x \<Longrightarrow> m k \<noteq> Some (ka, da)"
  shows "data_inj (m(x \<mapsto> (kx, da)))"
  unfolding data_inj_def
proof (intro allI impI)
  fix k k' ka ka' d
  assume "(m(x \<mapsto> (kx, da))) k = Some (ka, d)" and "(m(x \<mapsto> (kx, da))) k' = Some (ka', d)"
  then show "k = k'"
    using assms(2) [of k] assms(2) [of k'] data_injD [OF assms(1), of k ka d k' ka']
    by (cases "k = x"; cases "k' = x") auto
qed

lemma vinv_insert:
  assumes inv: "vinv h m A" and ok: "var_ok v"
    and ka: "ka \<noteq> NULL" "h ka = Some (StrB x)" and da: "da \<noteq> NULL" "da \<notin> owned m" "h da = Some (enc v)"
  shows "vinv h (m(x \<mapsto> (ka, da))) (A(x \<mapsto> v))"
proof -
  have "data_inj (m(x \<mapsto> (ka, da)))"
  proof (rule data_inj_upd)
    show "data_inj m" using inv by (simp add: vinv_def)
    show "m k \<noteq> Some (ka2, da)" if "k \<noteq> x" for k ka2
      using da(2) ownedI(2) [of m k ka2 da] by blast
  qed
  with assms show ?thesis
    by (simp add: vinv_def)
qed

lemma vinv_update:
  assumes inv: "vinv h m A" and x: "m x = Some (ka, da)" and ok: "var_ok v"
    and da': "da' \<noteq> NULL" "da' \<notin> owned m - {da}" "h' da' = Some (enc v)"
    and same: "\<And>a. a \<in> owned m - {da} \<Longrightarrow> h' a = h a"
  shows "vinv h' (m(x \<mapsto> (ka, da'))) (A(x \<mapsto> v))"
proof -
  have other: "ka2 \<in> owned m - {da}" "da2 \<in> owned m - {da}"
    if "m k = Some (ka2, da2)" "k \<noteq> x" for k ka2 da2
  proof -
    have "da2 \<noteq> da"
      using data_injD [of m k ka2 da x ka] inv that x by (auto simp: vinv_def)
    then show "ka2 \<in> owned m - {da}" "da2 \<in> owned m - {da}"
      using ownedI [of m k ka2 da2] key_not_data [OF inv that(1) x] that(1) by simp_all
  qed
  have ka: "ka \<in> owned m - {da}"
    using ownedI [of m x ka da] key_not_data [OF inv x x] x by simp
  have "data_inj (m(x \<mapsto> (ka, da')))"
  proof (rule data_inj_upd)
    show "data_inj m" using inv by (simp add: vinv_def)
    show "m k \<noteq> Some (ka2, da')" if "k \<noteq> x" for k ka2
      using other(2) [OF _ that, of ka2 da'] da'(2) by blast
  qed
  moreover have "pair_ok h' k ((m(x \<mapsto> (ka, da'))) k) ((A(x \<mapsto> v)) k)" for k
  proof (cases "k = x")
    case True
    obtain v0 where "ka \<noteq> NULL" "h ka = Some (StrB x)"
      by (rule vinv_Some [OF inv x])
    with True show ?thesis
      using same [OF ka] ok da' by simp
  next
    case False
    have "pair_ok h' k (m k) (A k)"
    proof (rule pair_ok_cong)
      show "pair_ok h k (m k) (A k)" using inv by (simp add: vinv_def)
      show "h' ka2 = h ka2 \<and> h' da2 = h da2" if "m k = Some (ka2, da2)" for ka2 da2
        using other [OF that False] same by simp
    qed
    with False show ?thesis by simp
  qed
  ultimately show ?thesis by (simp add: vinv_def)
qed

lemma owned_upd_new: "owned (m(x \<mapsto> (ka, da))) \<subseteq> owned m \<union> {ka, da}"
  by (auto simp: owned_def split: if_splits)

lemma rep_cong:
  "rep h ty d e F \<Longrightarrow> (\<And>a. a \<in> set F \<Longrightarrow> h' a = h a) \<Longrightarrow> rep h' ty d e F"
proof (induction e arbitrary: ty d F)
  case (EArr x e)
  then obtain a n ty' d' F' where "d = Ptr a" "a \<noteq> NULL" "n \<noteq> NULL" "F = a # n # F'" "ty = INT_ARR_TOK"
    "h a = Some (ArrTokB \<lparr>at_idx = d', at_idx_type = Some ty', at_name = n\<rparr>)" "h n = Some (StrB x)"
    "rep h ty' d' e F'"
    by auto
  moreover from this EArr have "rep h' ty' d' e F'" "h' a = h a" "h' n = h n"
    by simp_all
  ultimately show ?case by simp
qed auto

lemma var_mono_refl [simp]: "var_mono A m A m"
  by (simp add: var_mono_def key_mono_def)

lemma key_mono_trans: "key_mono a p b q \<Longrightarrow> key_mono b q c r \<Longrightarrow> key_mono a p c r"
  unfolding key_mono_def by auto

lemma var_mono_trans: "var_mono A m A1 m1 \<Longrightarrow> var_mono A1 m1 A2 m2 \<Longrightarrow> var_mono A m A2 m2"
  unfolding var_mono_def by (blast intro: key_mono_trans)

lemma var_mono_same: "var_mono A m A' m' \<Longrightarrow> A k \<noteq> None \<Longrightarrow> A' k = A k \<Longrightarrow> m' k = m k"
  unfolding var_mono_def key_mono_def by (metis less_irrefl option.inject var.inject(1))

lemma var_mono_upd:
  "key_mono (A x) (m x) (Some v) p \<Longrightarrow> var_mono A m (A(x \<mapsto> v)) (m(x := p))"
  by (simp add: var_mono_def key_mono_def)

end
