(* ===== verification/VarRefine.thy ===== *)
theory VarRefine imports VarSpec begin

section \<open>The refinement of environments by the hash table, the heap and the tokens\<close>

text \<open>
  The invariant \<open>good\<close> ties a thread's state to an environment, \<open>evolves\<close> says what a piece of code
  did to both: which blocks it consumed, that the others are as before, that none is lost, and
  that nothing but the heap and the table of variables changed.  The lemmas of the locale
  \<open>voids_lib\<close> compose the primitive steps (free, insert, grow, write) to the refinement of
  \<open>varval_get\<close> by \<open>aget\<close> and of \<open>varval_set\<close> by \<open>aset\<close>.
\<close>

definition good :: "('h \<Rightarrow> bool) \<Rightarrow> ('h \<Rightarrow> pairs) \<Rightarrow> env \<Rightarrow> ('h, 'r) st \<Rightarrow> bool" where
  "good hinv hmap A s \<longleftrightarrow> heap_ok s \<and> hinv (vartable s) \<and> vinv (heap s) (hmap (vartable s)) A"

definition evolves :: "('h \<Rightarrow> bool) \<Rightarrow> ('h \<Rightarrow> pairs) \<Rightarrow> addr set \<Rightarrow> ('h, 'r) st \<Rightarrow> env \<Rightarrow> ('h, 'r) st \<Rightarrow> bool" where
  "evolves hinv hmap F s A' s' \<longleftrightarrow> good hinv hmap A' s' \<and>
     s' = s\<lparr>heap := heap s', fresh := fresh s', vartable := vartable s'\<rparr> \<and> fresh s \<le> fresh s' \<and>
     owned (hmap (vartable s')) \<subseteq> owned (hmap (vartable s)) \<union> F \<union> {fresh s..} \<and>
     (\<forall>a. a \<notin> owned (hmap (vartable s')) \<longrightarrow>
        heap s' a = (if a \<in> F \<union> owned (hmap (vartable s)) then None else heap s a))"

lemma goodD: "good hinv hmap A s \<Longrightarrow> heap_ok s" "good hinv hmap A s \<Longrightarrow> hinv (vartable s)"
    "good hinv hmap A s \<Longrightarrow> vinv (heap s) (hmap (vartable s)) A"
  by (simp_all add: good_def)

lemma evolves_good: "evolves hinv hmap F s A' s' \<Longrightarrow> good hinv hmap A' s'"
  by (simp add: evolves_def)

lemma evolves_fields:
  assumes "evolves hinv hmap F s A' s'"
  shows "argv s' = argv s" "mem_max s' = mem_max s" "fresh s \<le> fresh s'"
    "translated_line s' = translated_line s" "pstate s' = pstate s" "gtab s' = gtab s" "out s' = out s"
    "error_flag s' = error_flag s" "c_in s' = c_in s" "fpos s' = fpos s" "fbuf s' = fbuf s"
    "line s' = line s" "column s' = column s" "prev_col s' = prev_col s" "itable s' = itable s"
proof -
  obtain h f v where eq: "s' = s\<lparr>heap := h, fresh := f, vartable := v\<rparr>" and "fresh s \<le> fresh s'"
    using assms unfolding evolves_def by blast
  then show "argv s' = argv s" "mem_max s' = mem_max s" "fresh s \<le> fresh s'"
    "translated_line s' = translated_line s" "pstate s' = pstate s" "gtab s' = gtab s" "out s' = out s"
    "error_flag s' = error_flag s" "c_in s' = c_in s" "fpos s' = fpos s" "fbuf s' = fbuf s"
    "line s' = line s" "column s' = column s" "prev_col s' = prev_col s" "itable s' = itable s"
    by simp_all
qed

lemma evolves_rest: "evolves hinv hmap F s A' s' \<Longrightarrow>
    s' = s\<lparr>heap := heap s', fresh := fresh s', vartable := vartable s'\<rparr>"
  by (simp add: evolves_def)

text \<open>Blocks that neither the code nor the table owned stay.\<close>

lemma evolves_keep:
  assumes ev: "evolves hinv hmap F s A' s'" and a: "a < fresh s" "a \<notin> F" "a \<notin> owned (hmap (vartable s))"
  shows "heap s' a = heap s a" "a \<notin> owned (hmap (vartable s'))"
proof -
  show n: "a \<notin> owned (hmap (vartable s'))"
    using ev a by (auto simp: evolves_def)
  show "heap s' a = heap s a"
    using ev a n by (simp add: evolves_def)
qed

lemma owned_live:
  assumes "good hinv hmap A s" and "a \<in> owned (hmap (vartable s))"
  shows "a \<noteq> NULL" "a < fresh s" "heap s a \<noteq> None"
proof -
  obtain k ka da where m: "hmap (vartable s) k = Some (ka, da)" and a: "a = ka \<or> a = da"
    using assms(2) by (rule ownedE)
  obtain v where "ka \<noteq> NULL" "da \<noteq> NULL" "heap s ka = Some (StrB k)" "heap s da = Some (enc v)"
    by (rule vinv_Some [OF goodD(3) [OF assms(1)] m])
  then show "a \<noteq> NULL" "a < fresh s" "heap s a \<noteq> None"
    using a heap_ok_live [OF goodD(1) [OF assms(1)]] by auto
qed

lemma fresh_not_owned: "good hinv hmap A s \<Longrightarrow> fresh s \<notin> owned (hmap (vartable s))"
  using owned_live(2) by blast

lemma good_NULL: "good hinv hmap A s \<Longrightarrow> fresh s \<noteq> NULL \<and> heap s (fresh s) = None"
  by (simp add: good_def heap_ok_def)

lemma evolves_refl: "good hinv hmap A s \<Longrightarrow> evolves hinv hmap {} s A s"
  by (simp add: evolves_def owned_live)

lemma evolves_trans:
  assumes g: "heap_ok s" and 1: "evolves hinv hmap F1 s A1 s1" and 2: "evolves hinv hmap F2 s1 A2 s2"
  shows "evolves hinv hmap (F1 \<union> F2) s A2 s2"
  unfolding evolves_def
proof (intro conjI allI impI)
  show "good hinv hmap A2 s2" by (rule evolves_good [OF 2])
  show "s2 = s\<lparr>heap := heap s2, fresh := fresh s2, vartable := vartable s2\<rparr>"
    by (subst evolves_rest [OF 2], subst evolves_rest [OF 1]) simp
  show "fresh s \<le> fresh s2"
    using evolves_fields(3) [OF 1] evolves_fields(3) [OF 2] by simp
  have o1: "owned (hmap (vartable s1)) \<subseteq> owned (hmap (vartable s)) \<union> F1 \<union> {fresh s..}"
    using 1 by (simp add: evolves_def)
  have o2: "owned (hmap (vartable s2)) \<subseteq> owned (hmap (vartable s1)) \<union> F2 \<union> {fresh s1..}"
    using 2 by (simp add: evolves_def)
  show "owned (hmap (vartable s2)) \<subseteq> owned (hmap (vartable s)) \<union> (F1 \<union> F2) \<union> {fresh s..}"
    using o1 o2 evolves_fields(3) [OF 1] by fastforce
  fix a
  assume a: "a \<notin> owned (hmap (vartable s2))"
  have h2: "heap s2 a = (if a \<in> F2 \<union> owned (hmap (vartable s1)) then None else heap s1 a)"
    using 2 a by (simp add: evolves_def)
  have h1: "heap s1 a = (if a \<in> F1 \<union> owned (hmap (vartable s)) then None else heap s a)"
    if "a \<notin> owned (hmap (vartable s1))"
    using 1 that by (simp add: evolves_def)
  have none: "heap s a = None" if "fresh s \<le> a"
    using g that by (simp add: heap_ok_def)
  show "heap s2 a = (if a \<in> F1 \<union> F2 \<union> owned (hmap (vartable s)) then None else heap s a)"
  proof (cases "a \<in> owned (hmap (vartable s1))")
    case True
    then have "a \<in> owned (hmap (vartable s)) \<union> F1 \<or> fresh s \<le> a"
      using o1 by auto
    with True h2 none show ?thesis by auto
  next
    case False
    with h1 h2 show ?thesis by auto
  qed
qed

subsection \<open>Primitive steps\<close>

lemma evolves_free:
  assumes g: "good hinv hmap A s" and a: "a \<notin> owned (hmap (vartable s))"
  shows "evolves hinv hmap {a} s A (s\<lparr>heap := (heap s)(a := None)\<rparr>)"
proof -
  have "vinv ((heap s)(a := None)) (hmap (vartable s)) A"
    by (rule vinv_cong [OF goodD(3) [OF g]]) (use a in auto)
  then have "good hinv hmap A (s\<lparr>heap := (heap s)(a := None)\<rparr>)"
    using g by (simp add: good_def)
  then show ?thesis
    by (auto simp: evolves_def)
qed

lemma owned_ran: "owned m = fst ` ran m \<union> snd ` ran m"
  by (force simp: owned_def ran_def)

lemma evolves_insert:
  assumes g: "good hinv hmap A s" and A: "A x = None" and ok: "var_ok v"
    and ka: "heap s ka = Some (StrB x)"
    and h': "hinv h'" "hmap h' = (hmap (vartable s))(x \<mapsto> (ka, fresh s))"
  shows "evolves hinv hmap {ka} s (A(x \<mapsto> v))
    (s\<lparr>heap := (heap s)(fresh s \<mapsto> enc v), fresh := Suc (fresh s), vartable := h'\<rparr>)"
proof -
  let ?m = "hmap (vartable s)" and ?h = "(heap s)(fresh s \<mapsto> enc v)"
  have live: "ka \<noteq> NULL" "ka < fresh s"
    using heap_ok_live [OF goodD(1) [OF g] ka] by auto
  have "vinv ?h ?m A"
    by (rule vinv_cong [OF goodD(3) [OF g]]) (use fresh_not_owned [OF g] in auto)
  then have "vinv ?h (?m(x \<mapsto> (ka, fresh s))) (A(x \<mapsto> v))"
    by (rule vinv_insert) (use ok ka live good_NULL [OF g] fresh_not_owned [OF g] in auto)
  moreover have "owned (?m(x \<mapsto> (ka, fresh s))) = owned ?m \<union> {ka, fresh s}"
  proof -
    have "?m x = None" using A vinv_None [OF goodD(3) [OF g]] by simp
    then show ?thesis by (auto simp: owned_ran)
  qed
  ultimately show ?thesis
    using h' goodD(1) [OF g] by (auto simp: evolves_def good_def heap_ok_def)
qed

lemma owned_replace:
  assumes "vinv h m A" "m x = Some (ka, da)"
  shows "owned (m(x \<mapsto> (ka, da'))) = owned m - {da} \<union> {da'}"
proof -
  have 1: "k = x" if "m k = Some (ka2, da)" for k ka2
    using assms that by (auto simp: vinv_def dest: data_injD)
  have 2: "ka2 \<noteq> da" if "m k = Some (ka2, da2)" for k ka2 da2
    by (rule key_not_data [OF assms(1) that assms(2)])
  let ?m = "m(x \<mapsto> (ka, da'))"
  have new: "?m x = Some (ka, da')" by simp
  show ?thesis
  proof (intro set_eqI iffI)
    fix a
    assume "a \<in> owned ?m"
    then obtain k ka2 da2 where k: "?m k = Some (ka2, da2)" "a = ka2 \<or> a = da2"
      by (rule ownedE)
    show "a \<in> owned m - {da} \<union> {da'}"
    proof (cases "k = x")
      case True
      then show ?thesis using k 2 [OF assms(2)] ownedI(1) [of m x ka da] assms(2) by auto
    next
      case False
      then show ?thesis using k 1 [of k ka2] 2 [of k ka2 da2] ownedI [of m k ka2 da2] by auto
    qed
  next
    fix a
    assume "a \<in> owned m - {da} \<union> {da'}"
    then consider "a = da'" | "a \<in> owned m" "a \<noteq> da" by blast
    then show "a \<in> owned ?m"
    proof cases
      case 1
      then show ?thesis using ownedI(2) [of ?m, OF new] by simp
    next
      case 2
      obtain k ka2 da2 where k: "m k = Some (ka2, da2)" "a = ka2 \<or> a = da2"
        using 2(1) by (rule ownedE)
      show ?thesis
      proof (cases "k = x")
        case True
        then show ?thesis using k 2(2) assms(2) ownedI(1) [of ?m, OF new] by auto
      next
        case False
        then show ?thesis using k ownedI [of ?m k ka2 da2] by auto
      qed
    qed
  qed
qed

lemma evolves_grow:
  assumes g: "good hinv hmap A s" and x: "hmap (vartable s) x = Some (ka, da)" and ok: "var_ok v"
    and h': "hinv h'" "hmap h' = (hmap (vartable s))(x \<mapsto> (ka, fresh s))"
  shows "evolves hinv hmap {} s (A(x \<mapsto> v))
    (s\<lparr>heap := (heap s)(da := None, fresh s \<mapsto> enc v), fresh := Suc (fresh s), vartable := h'\<rparr>)"
proof -
  let ?m = "hmap (vartable s)" and ?h = "(heap s)(da := None, fresh s \<mapsto> enc v)"
  have "vinv ?h (?m(x \<mapsto> (ka, fresh s))) (A(x \<mapsto> v))"
    by (rule vinv_update [OF goodD(3) [OF g] x ok])
      (use good_NULL [OF g] fresh_not_owned [OF g] in auto)
  moreover have "da \<in> owned ?m" using x by (rule ownedI)
  ultimately show ?thesis
    using h' goodD(1) [OF g] owned_replace [OF goodD(3) [OF g] x]
    by (auto simp: evolves_def good_def heap_ok_def)
qed

lemma evolves_write:
  assumes g: "good hinv hmap A s" and x: "hmap (vartable s) x = Some (ka, da)" and ok: "var_ok v"
  shows "evolves hinv hmap {} s (A(x \<mapsto> v)) (s\<lparr>heap := (heap s)(da \<mapsto> enc v)\<rparr>)"
proof -
  let ?m = "hmap (vartable s)" and ?h = "(heap s)(da \<mapsto> enc v)"
  have "da \<in> owned ?m" using x by (rule ownedI)
  note da = owned_live [OF g this]
  have "vinv ?h (?m(x \<mapsto> (ka, da))) (A(x \<mapsto> v))"
    by (rule vinv_update [OF goodD(3) [OF g] x ok]) (use da in auto)
  moreover have "?m(x \<mapsto> (ka, da)) = ?m"
    using x by auto
  ultimately show ?thesis
    using g da \<open>da \<in> owned ?m\<close> by (auto simp: evolves_def good_def heap_ok_def dest: owned_live(3) [OF g])
qed

end
