(* ===== verification/VarGet.thy ===== *)
theory VarGet imports VarRefine begin

section \<open>Reading a variable or value computes \<open>aget\<close>\<close>

text \<open>
  First what the helpers that build and lengthen arrays leave in memory, then the accesses to the
  table under the laws of the library, then the refinement, by induction on the expression.
\<close>

subsection \<open>Array blocks\<close>

lemma sint_of_nat: "n < 2147483648 \<Longrightarrow> sint (word_of_nat n :: c_int) = int n"
  using sint_word_of_int [of "int n"] by (simp add: in_int_def)

lemma c_add_one: "n < 2147483647 \<Longrightarrow> c_add (word_of_nat n) 1 = Ok (word_of_nat (Suc n))"
  by (simp add: c_add_def sint_of_nat in_int_def add.commute)

lemma of_nat_ne_minus_one: "n < 2147483648 \<Longrightarrow> (word_of_nat n :: c_int) \<noteq> -1"
  using sint_of_nat [of n] by auto

lemma c_add_index:
  "0 \<le> sint t \<Longrightarrow> sint t + 1 < 2147483647 \<Longrightarrow> c_add t 1 = Ok (word_of_nat (Suc (nat (sint t))))"
proof -
  assume t: "0 \<le> sint t" "sint t + 1 < 2147483647"
  then have "word_of_nat (Suc (nat (sint t))) = (word_of_int (sint t + 1) :: c_int)"
    by (metis Suc_nat_eq_nat_zadd1 add.commute of_int_of_nat_eq int_nat_eq add_increasing2 zero_le_one)
  with t show ?thesis by (simp add: c_add_def in_int_def)
qed

lemma new_scalar_eq:
  "8 \<le> mem_max s \<Longrightarrow> fresh s \<noteq> NULL \<Longrightarrow> new_scalar v s =
    Ok (fresh s, s\<lparr>heap := (heap s)(fresh s \<mapsto> enc (VArr [v])), fresh := Suc (fresh s)\<rparr>)"
  by (simp add: new_scalar_def malloc_ints_def alloc_def store_def deref_def)

lemma new_array_eq:
  assumes "fresh s \<noteq> NULL" "1 \<le> n" "n < 2147483647" "4 * (n + 1) \<le> mem_max s"
  shows "new_array (word_of_nat n) s =
    Ok (fresh s, s\<lparr>heap := (heap s)(fresh s \<mapsto> enc (VArr (replicate n 0))), fresh := Suc (fresh s)\<rparr>)"
proof -
  let ?w = "word_of_nat n :: c_int"
  have "fill 1 (int (Suc n)) 0 (Some ?w # replicate n None) = Ok (Some ?w # replicate n (Some 0))"
    using fill_eq [of 1 "Suc n" "Some ?w # replicate n None" 0] by simp
  moreover have "sint (word_of_nat (Suc n) :: c_int) = int (Suc n)"
    using assms(3) by (intro sint_of_nat) simp
  ultimately show ?thesis
    using assms
    by (simp add: new_array_def c_add_one malloc_ints_def alloc_def store_def deref_def read_ints_def
        set_cell_def nat_add_distrib)
qed

lemma length_grow: "xs \<noteq> [] \<Longrightarrow> length xs < n \<Longrightarrow> length (grow xs n) = n"
  by (cases xs) (simp_all add: grow_def)

lemma grow_array_eq:
  assumes arr: "heap s arr = Some (enc (VArr xs))" and ok: "heap_ok s" and xs: "xs \<noteq> []"
    and n: "length xs < n" "n < 2147483647" "4 * (n + 1) \<le> mem_max s"
    and p: "qh_valid V (vartable s) p"
  shows "grow_array V p arr (word_of_nat n) s = Ok (fresh s,
    s\<lparr>heap := (heap s)(arr := None, fresh s \<mapsto> enc (VArr (grow xs n))), fresh := Suc (fresh s),
      vartable := qh_set_data V (vartable s) p (fresh s)\<rparr>)"
proof -
  let ?L = "length xs" and ?w = "word_of_nat n :: c_int" and ?l = "word_of_nat (length xs) :: c_int"
  let ?ys = "Some ?l # map Some xs @ replicate (n - ?L) None"
  have live: "arr \<noteq> NULL" "arr \<noteq> fresh s" "fresh s \<noteq> NULL"
    using heap_ok_live [OF ok arr] ok by (auto simp: heap_ok_def)
  have sl: "sint ?l = int ?L" and sh: "sint (word_of_nat (Suc n) :: c_int) = int (Suc n)"
    using n by (auto intro!: sint_of_nat simp del: of_nat_Suc)
  have tk: "take ?L ?ys = Some ?l # map Some (butlast xs)"
    using xs by (cases ?L) (simp_all add: butlast_conv_take take_map)
  have fl: "fill (int ?L) (int (Suc n)) 0 ?ys
      = Ok (Some ?l # map Some (butlast xs) @ replicate (Suc n - ?L) (Some 0))"
    using fill_eq [of ?L "Suc n" ?ys 0] n(1) by (simp only: tk) simp
  have gr: "enc (VArr (grow xs n)) = IntsB (Some ?w # map Some (butlast xs) @ replicate (Suc n - ?L) (Some 0))"
    using xs n(1) length_grow [OF xs n(1)] by (cases ?L) (simp_all add: grow_def)
  have take_old: "take (Suc n) (Some ?l # map Some xs) @ replicate (Suc n - length (Some ?l # map Some xs)) None = ?ys"
    using n(1) by simp
  have re: "realloc_ints arr (Suc n) s = Ok (fresh s, s\<lparr>heap := (heap s)(arr := None, fresh s \<mapsto> IntsB ?ys), fresh := Suc (fresh s)\<rparr>)"
    using live n(3) arr take_old
    by (simp add: realloc_ints_def mem_simps alloc_def)
  have "grow_array V p arr (word_of_nat n) s =
      bnd (realloc_ints arr (Suc n) s) (\<lambda>(arr, s).
       bnd (read_ints arr s) (\<lambda>xs.
       bnd (cell 0 xs) (\<lambda>lo.
       bnd (fill (sint lo) (int (Suc n)) 0 xs) (\<lambda>xs.
       bnd (set_cell 0 ?w xs) (\<lambda>xs.
       bnd (store arr (IntsB xs) s) (\<lambda>s.
       bnd (set_pair_data V p arr s) (\<lambda>s. Ok (arr, s))))))))"
    using c_add_one [OF n(2)] by (simp only: grow_array_def bnd.simps sh nat_int)
  also have "\<dots> = Ok (fresh s,
    s\<lparr>heap := (heap s)(arr := None, fresh s \<mapsto> enc (VArr (grow xs n))), fresh := Suc (fresh s),
      vartable := qh_set_data V (vartable s) p (fresh s)\<rparr>)"
    using live p fl
    by (simp add: re gr mem_simps sl set_cell_def set_pair_data_def del: of_nat_Suc enc.simps)
  finally show ?thesis .
qed

subsection \<open>The table under the library's laws\<close>

context voids_lib
begin

lemma find_var_None:
  "hinv (vartable s) \<Longrightarrow> hmap (vartable s) k = None \<Longrightarrow> find_var V k s = Ok None"
  by (simp add: find_var_def find_None)

lemma find_var_Some:
  assumes "hinv (vartable s)" and "hmap (vartable s) k = Some (ka, da)"
  obtains p where "find_var V k s = Ok (Some p)" "pair_data V p s = Ok da"
    "qh_find V (vartable s) k = (Some p, VDS_SUCCESS)" "qh_valid V (vartable s) p"
    "qh_pair V (vartable s) p = (ka, da)"
  using find_Some [OF assms] by (auto simp: find_var_def pair_data_def)

lemma insert_var_new:
  assumes "hinv (vartable s)" and "hmap (vartable s) x = None" and "read_str ka s = Ok x"
  obtains h' where "insert_var V ka da s = Ok (s\<lparr>vartable := h'\<rparr>)" "hinv h'"
    "hmap h' = (hmap (vartable s))(x \<mapsto> (ka, da))"
  using insert_new [OF assms(1,2), of ka da] assms(3) by (auto simp: insert_var_def)

text \<open>The last steps for an array token: its name and the token itself are freed.\<close>

lemma free_arr_tok:
  assumes ok: "heap_ok s" and ev: "evolves hinv hmap F s A s2"
    and a: "heap s a = Some ba" "a \<notin> F" "a \<notin> owned (hmap (vartable s))"
    and b: "heap s b = Some bb" "b \<notin> F" "b \<notin> owned (hmap (vartable s))" and ab: "a \<noteq> b"
  obtains sm s3 where "dealloc a s2 = Ok sm" "dealloc b sm = Ok s3"
    "evolves hinv hmap (F \<union> {a, b}) s A s3" "vartable s3 = vartable s2"
proof -
  note g = evolves_good [OF ev] and la = heap_ok_live [OF ok a(1)] and lb = heap_ok_live [OF ok b(1)]
  have a2: "heap s2 a = Some ba" "a \<notin> owned (hmap (vartable s2))"
    and b2: "heap s2 b = Some bb" "b \<notin> owned (hmap (vartable s2))"
    using evolves_keep [OF ev] la lb a b by auto
  let ?s' = "s2\<lparr>heap := (heap s2)(a := None)\<rparr>"
  let ?s3 = "?s'\<lparr>heap := (heap ?s')(b := None)\<rparr>"
  have 1: "evolves hinv hmap {a} s2 A ?s'" by (rule evolves_free [OF g a2(2)])
  have 2: "evolves hinv hmap {b} ?s' A ?s3"
    by (rule evolves_free [OF evolves_good [OF 1]]) (use b2(2) in simp)
  have "evolves hinv hmap (F \<union> ({a} \<union> {b})) s A ?s3"
    by (rule evolves_trans [OF ok ev evolves_trans [OF goodD(1) [OF g] 1 2]])
  then show thesis
    using a2(1) b2(1) ab la lb by (intro that [of ?s' ?s3]) (simp_all add: mem_simps insert_commute)
qed

subsection \<open>The refinement\<close>

lemma varval_get_refines:
  assumes g: "good hinv hmap A s"
  shows "rep (heap s) ty d e F \<Longrightarrow> distinct F \<Longrightarrow> set F \<inter> owned (hmap (vartable s)) = {} \<Longrightarrow>
    edepth e < n \<Longrightarrow> aget (argv s) (mem_max s) A e = Some (v, A', ins) \<Longrightarrow>
    \<exists>s'. varval_get n V ty d s = Ok (Some v, s') \<and> evolves hinv hmap (set F) s A' s' \<and>
      var_mono A (hmap (vartable s)) A' (hmap (vartable s')) \<and>
      (\<not> ins \<longrightarrow> (\<forall>k. qh_find V (vartable s') k = qh_find V (vartable s) k))"
proof (induction e arbitrary: ty d F n v A' ins)
  case (EVal w)
  then show ?case
    using evolves_refl [OF g] by (cases n) (auto simp: varval_get.simps)
next
  case (EVar x)
  then obtain a n' where n: "n = Suc n'" and a: "ty = INT_VAR_TOK" "d = Ptr a" "a \<noteq> NULL"
      "heap s a = Some (StrB x)" "F = [a]"
    by (cases n) auto
  have na: "a \<notin> owned (hmap (vartable s))"
    using EVar.prems(3) a(5) by simp
  note free = evolves_free [OF g na]
  note hv = goodD(2) [OF g] and vi = goodD(3) [OF g]
  show ?case
  proof (cases "x = ''argc''")
    case True
    with EVar.prems(5) have "1 < length (argv s)" "v = argv s ! 1" "A' = A"
      by (auto split: if_splits)
    with True free a show ?thesis
      by (simp add: varval_get.simps n mem_simps argv_at_def)
  next
    case False
    show ?thesis
    proof (cases "A x")
      case None
      with EVar.prems(5) False have v: "8 \<le> mem_max s" "v = 0" "A' = A(x \<mapsto> VArr [0])" "ins"
        by (auto split: if_splits)
      have mx: "hmap (vartable s) x = None" using vinv_None [OF vi] None by simp
      let ?s1 = "s\<lparr>heap := (heap s)(fresh s \<mapsto> enc (VArr [0])), fresh := Suc (fresh s)\<rparr>"
      have live: "a < fresh s" using heap_ok_live [OF goodD(1) [OF g] a(4)] by simp
      obtain h' where h': "insert_var V a (fresh s) ?s1 = Ok (?s1\<lparr>vartable := h'\<rparr>)" "hinv h'"
          "hmap h' = (hmap (vartable s))(x \<mapsto> (a, fresh s))"
        by (rule insert_var_new [of ?s1 x a "fresh s"]) (use hv mx a live in \<open>simp_all add: mem_simps\<close>)
      have ev: "evolves hinv hmap {a} s (A(x \<mapsto> VArr [0])) (?s1\<lparr>vartable := h'\<rparr>)"
        using evolves_insert [OF g None _ a(4) h'(2,3), of "VArr [0]"] by simp
      have "varval_get n V ty d s = Ok (Some v, ?s1\<lparr>vartable := h'\<rparr>)"
        using h'(1) v False a good_NULL [OF g]
        by (simp add: varval_get.simps n mem_simps find_var_None [OF hv mx] new_scalar_eq del: enc.simps)
      moreover have "var_mono A (hmap (vartable s)) A' (hmap (vartable (?s1\<lparr>vartable := h'\<rparr>)))"
        unfolding v(3) using None by (simp add: h'(3) var_mono_upd key_mono_def)
      moreover have "evolves hinv hmap (set F) s A' (?s1\<lparr>vartable := h'\<rparr>)"
        unfolding v(3) a(5) using ev by simp
      ultimately show ?thesis
        using v(4) by blast
    next
      case (Some u)
      with EVar.prems(5) False obtain xs where u: "u = VArr xs" "length xs = 1" "v = xs ! 0" "A' = A"
        by (cases u) (auto split: if_splits)
      obtain ka da where m: "hmap (vartable s) x = Some (ka, da)"
        using vinv_None [OF vi, of x] Some by (cases "hmap (vartable s) x") auto
      obtain p where p: "find_var V x s = Ok (Some p)" "pair_data V p s = Ok da"
        by (rule find_var_Some [OF hv m])
      have da: "da \<noteq> NULL" "heap s da = Some (enc (VArr xs))"
        using vinv_Some [OF vi m] Some u by auto
      obtain y where y: "xs = [y]" using u(2) by (cases xs) auto
      have "cell 1 [Some 1, Some y] = Ok y" by (simp add: cell_def)
      with False p da u a free y show ?thesis
        by (simp add: varval_get.simps n mem_simps read_head_def)
    qed
  qed
next
  case (EArr x e)
  then obtain a nm ty' d' F' n' where n: "n = Suc n'" and a: "ty = INT_ARR_TOK" "d = Ptr a" "a \<noteq> NULL"
      "nm \<noteq> NULL" "F = a # nm # F'"
      "heap s a = Some (ArrTokB \<lparr>at_idx = d', at_idx_type = Some ty', at_name = nm\<rparr>)"
      "heap s nm = Some (StrB x)" and rep': "rep (heap s) ty' d' e F'"
    by (cases n) auto
  note ok = goodD(1) [OF g] and hv = goodD(2) [OF g] and vi = goodD(3) [OF g]
  have dis: "distinct F'" "a \<notin> set F'" "nm \<notin> set F'" "a \<noteq> nm"
      "set F' \<inter> owned (hmap (vartable s)) = {}" "a \<notin> owned (hmap (vartable s))"
      "nm \<notin> owned (hmap (vartable s))"
    using EArr.prems(2,3) a(5) by auto
  have live: "a < fresh s" "nm < fresh s"
    using heap_ok_live [OF ok a(6)] heap_ok_live [OF ok a(7)] by auto
  obtain t A1 ins1 where e: "aget (argv s) (mem_max s) A e = Some (t, A1, ins1)"
    using EArr.prems(5) by (auto split: option.splits)
  obtain s1 where s1: "varval_get n' V ty' d' s = Ok (Some t, s1)"
      "evolves hinv hmap (set F') s A1 s1" "var_mono A (hmap (vartable s)) A1 (hmap (vartable s1))"
      "\<not> ins1 \<Longrightarrow> qh_find V (vartable s1) k = qh_find V (vartable s) k" for k
    using EArr.IH [OF rep' dis(1,5) _ e, of n'] EArr.prems(4) n by auto
  note g1 = evolves_good [OF s1(2)] and f1 = evolves_fields [OF s1(2)]
  have keep: "heap s1 a = heap s a" "a \<notin> owned (hmap (vartable s1))"
      "heap s1 nm = heap s nm" "nm \<notin> owned (hmap (vartable s1))"
    using evolves_keep [OF s1(2)] live dis by blast+
  have index: "bnd (read_arrtok a s) (\<lambda>at. case at_idx_type at of None \<Rightarrow> Undef UninitRead
      | Some ity \<Rightarrow> varval_get n' V ity (at_idx at) s) = Ok (Some t, s1)"
    using a(3,6) s1(1) by (simp add: mem_simps)
  have tail: "\<exists>sm s'. dealloc nm s2 = Ok sm \<and> dealloc a sm = Ok s' \<and>
      evolves hinv hmap (set F) s A2 s' \<and> vartable s' = vartable s2"
    if "evolves hinv hmap {} s1 A2 s2" for A2 s2
  proof -
    have ev: "evolves hinv hmap (set F' \<union> {}) s A2 s2" by (rule evolves_trans [OF ok s1(2) that])
    obtain sm s3 where "dealloc nm s2 = Ok sm" "dealloc a sm = Ok s3"
        "evolves hinv hmap (set F' \<union> {} \<union> {nm, a}) s A2 s3" "vartable s3 = vartable s2"
      by (rule free_arr_tok [OF ok ev a(7) _ dis(7) a(6) _ dis(6)]) (use dis in auto)
    moreover have "set F' \<union> {} \<union> {nm, a} = set F" using a(5) by auto
    ultimately show ?thesis by metis
  qed
  show ?case
  proof (cases "x = ''argv''")
    case True
    with EArr.prems(5) e have v: "1 < length (argv s)" "sint t < sint (argv s ! 1)" "0 \<le> sint t + 2"
        "sint t + 2 < int (length (argv s))" "v = argv s ! nat (sint t + 2)" "A' = A1" "ins = ins1"
      by (auto split: if_splits)
    obtain sm s' where s': "dealloc nm s1 = Ok sm" "dealloc a sm = Ok s'"
        "evolves hinv hmap (set F) s A1 s'" "vartable s' = vartable s1"
      using tail [OF evolves_refl [OF g1]] by blast
    have "varval_get n V ty d s = Ok (Some v, s')"
      using True a v index f1(1) s' evolves_fields(1) [OF s'(3)]
      by (simp add: varval_get.simps n mem_simps argv_at_def)
    then show ?thesis
      using s' s1 v by auto
  next
    case False
    let ?n = "Suc (nat (sint t))"
    from EArr.prems(5) e False have t: "0 \<le> sint t" "sint t + 1 < 2147483647" "A1 x = A x"
      by (auto split: if_splits)
    note add = c_add_index [OF t(1,2)]
    have tn: "sint (word_of_nat ?n :: c_int) = int ?n" "?n < 2147483647"
      using t by (auto intro!: sint_of_nat simp del: of_nat_Suc)
    show ?thesis
    proof (cases "A x")
      case None
      with EArr.prems(5) e False t have v: "4 * (?n + 1) \<le> mem_max s" "v = 0" "ins"
          "A' = A1(x \<mapsto> VArr (replicate ?n 0))"
        by (auto split: if_splits)
      have mx: "hmap (vartable s) x = None" using vinv_None [OF vi] None by simp
      have mx1: "hmap (vartable s1) x = None" using vinv_None [OF goodD(3) [OF g1]] None t(3) by simp
      let ?b = "enc (VArr (replicate ?n 0))"
      let ?s2 = "s1\<lparr>heap := (heap s1)(fresh s1 \<mapsto> ?b), fresh := Suc (fresh s1)\<rparr>"
      have na: "new_array (word_of_nat ?n) s1 = Ok (fresh s1, ?s2)"
        by (rule new_array_eq) (use good_NULL [OF g1] tn(2) v(1) f1(2) in simp_all)
      let ?sk = "s1\<lparr>heap := (heap s1)(a := None)\<rparr>"
      have ev1: "evolves hinv hmap {a} s1 A1 ?sk" by (rule evolves_free [OF g1 keep(2)])
      have ne: "a \<noteq> fresh s1" "nm \<noteq> fresh s1" using live f1(3) by auto
      let ?s3 = "?s2\<lparr>heap := (heap ?s2)(a := None)\<rparr>"
      have da: "dealloc a ?s2 = Ok ?s3" using ne a keep by (simp add: mem_simps)
      obtain h' where h': "insert_var V nm (fresh s1) ?s3 = Ok (?s3\<lparr>vartable := h'\<rparr>)" "hinv h'"
          "hmap h' = (hmap (vartable s1))(x \<mapsto> (nm, fresh s1))"
        by (rule insert_var_new [of ?s3 x nm "fresh s1"])
          (use goodD(2) [OF g1] mx1 a keep ne dis in \<open>simp_all add: mem_simps\<close>)
      let ?s4 = "?sk\<lparr>heap := (heap ?sk)(fresh ?sk \<mapsto> ?b), fresh := Suc (fresh ?sk), vartable := h'\<rparr>"
      have eq: "?s3\<lparr>vartable := h'\<rparr> = ?s4" using ne by (simp add: fun_upd_twist)
      have ev2: "evolves hinv hmap {nm} ?sk A' (?s3\<lparr>vartable := h'\<rparr>)"
        unfolding eq v(4)
      proof (rule evolves_insert [OF evolves_good [OF ev1]])
        show "A1 x = None" using None t(3) by simp
        show "var_ok (VArr (replicate ?n 0))" using tn(2) by simp
        show "heap ?sk nm = Some (StrB x)" using keep a dis by simp
      qed (use h' in simp_all)
      have "evolves hinv hmap (set F' \<union> ({a} \<union> {nm})) s A' (?s3\<lparr>vartable := h'\<rparr>)"
        by (rule evolves_trans [OF ok s1(2) evolves_trans [OF goodD(1) [OF g1] ev1 ev2]])
      moreover have "set F' \<union> ({a} \<union> {nm}) = set F" using a(5) by auto
      moreover have "varval_get n V ty d s = Ok (Some v, ?s3\<lparr>vartable := h'\<rparr>)"
        using False a index t v add na da h'(1)
        by (simp add: varval_get.simps n mem_simps find_var_None [OF hv mx] del: enc.simps replicate.simps of_nat_Suc)
      moreover have "var_mono A (hmap (vartable s)) A' (hmap (vartable (?s3\<lparr>vartable := h'\<rparr>)))"
        unfolding v(4) using var_mono_upd [of A1 x "hmap (vartable s1)"] None t(3) s1(3)
        by (auto simp: h'(3) key_mono_def intro: var_mono_trans)
      ultimately show ?thesis
        using v(3) by auto
    next
      case (Some u)
      with EArr.prems(5) e False t obtain xs where u: "u = VArr xs"
        by (cases u) (auto split: if_splits)
      obtain ka da where m: "hmap (vartable s) x = Some (ka, da)"
        using vinv_None [OF vi, of x] Some by (cases "hmap (vartable s) x") auto
      have m1: "hmap (vartable s1) x = Some (ka, da)"
        using var_mono_same [OF s1(3), of x] Some t(3) m by simp
      obtain p where p: "find_var V x s = Ok (Some p)" "pair_data V p s = Ok da"
          "qh_find V (vartable s) x = (Some p, VDS_SUCCESS)"
        by (rule find_var_Some [OF hv m])
      have da: "da \<noteq> NULL" "heap s da = Some (enc (VArr xs))" "heap s1 da = Some (enc (VArr xs))"
          "1 \<le> length xs" "length xs < 2147483647"
        using vinv_Some [OF vi m] vinv_Some [OF goodD(3) [OF g1] m1] Some u t(3) by auto
      have size: "sint (word_of_nat (Suc (length xs)) :: c_int) = int (Suc (length xs))"
        using da(5) by (intro sint_of_nat) simp
      have head: "read_head da s = Ok (word_of_nat (length xs))"
          "(word_of_nat (length xs) :: c_int) \<noteq> -1"
        using da of_nat_ne_minus_one [of "length xs"] by (simp_all add: read_head_def mem_simps)
      have reduce: "varval_get n V ty d s =
          bnd (if length xs < ?n
               then bnd (grow_array V p da (word_of_nat ?n) s1) (\<lambda>(arr, s). Ok (0, s))
               else Ok (xs ! nat (sint t), s1)) (\<lambda>(final_val, s).
          bnd (dealloc nm s) (\<lambda>s. bnd (dealloc a s) (\<lambda>s. Ok (Some final_val, s))))"
        using False a index t add p head da c_add_one [OF da(5)] size tn
        by (simp add: varval_get.simps n mem_simps cell_def nat_add_distrib linorder_not_less
            del: of_nat_Suc)
      show ?thesis
      proof (cases "length xs < ?n")
        case False
        with EArr.prems(5) e \<open>x \<noteq> ''argv''\<close> t Some u
        have v: "v = xs ! nat (sint t)" "A' = A1" "ins = ins1"
          by (auto split: if_splits)
        obtain sm s' where "dealloc nm s1 = Ok sm" "dealloc a sm = Ok s'"
            "evolves hinv hmap (set F) s A1 s'" "vartable s' = vartable s1"
          using tail [OF evolves_refl [OF g1]] by blast
        then show ?thesis
          using reduce False v s1 by auto
      next
        case True
        with EArr.prems(5) e \<open>x \<noteq> ''argv''\<close> t Some u
        have v: "\<not> ins1" "4 * (?n + 1) \<le> mem_max s" "v = 0" "A' = A1(x \<mapsto> VArr (grow xs ?n))" "ins = ins1"
          by (auto split: if_splits)
        have find1: "qh_find V (vartable s1) x = (Some p, VDS_SUCCESS)"
          using s1(4) [OF v(1)] p(3) by simp
        have pv: "qh_valid V (vartable s1) p" "qh_pair V (vartable s1) p = (ka, da)"
          using find_Some [OF goodD(2) [OF g1] m1] find1 by auto
        have nil: "xs \<noteq> []" using da(4) by auto
        let ?h' = "qh_set_data V (vartable s1) p (fresh s1)"
        let ?s2 = "s1\<lparr>heap := (heap s1)(da := None, fresh s1 \<mapsto> enc (VArr (grow xs ?n))),
            fresh := Suc (fresh s1), vartable := ?h'\<rparr>"
        have gr: "grow_array V p da (word_of_nat ?n) s1 = Ok (fresh s1, ?s2)"
          by (rule grow_array_eq [OF da(3) goodD(1) [OF g1] nil True tn(2) _ pv(1)])
            (use v(2) f1(2) in simp)
        have sd: "hinv ?h'" "hmap ?h' = (hmap (vartable s1))(x \<mapsto> (ka, fresh s1))"
          using set_data [OF goodD(2) [OF g1] find1, of "fresh s1"] pv(2) by auto
        have lg: "length (grow xs ?n) = ?n" by (rule length_grow [OF nil True])
        have ev: "evolves hinv hmap {} s1 A' ?s2"
          unfolding v(4) by (rule evolves_grow [OF g1 m1 _ sd]) (use lg tn(2) in simp)
        have "var_mono A1 (hmap (vartable s1)) A' (hmap (vartable ?s2))"
          unfolding v(4) using Some t(3) u True lg sd(2)
          by (auto simp: key_mono_def intro!: var_mono_upd)
        then have mono: "var_mono A (hmap (vartable s)) A' (hmap (vartable ?s2))"
          by (rule var_mono_trans [OF s1(3)])
        obtain sm s' where s': "dealloc nm ?s2 = Ok sm" "dealloc a sm = Ok s'"
            "evolves hinv hmap (set F) s A' s'" "vartable s' = vartable ?s2"
          using tail [OF ev] by blast
        have "varval_get n V ty d s = Ok (Some v, s')"
          using reduce True gr s'(1,2) v(3) by simp
        moreover have "qh_find V (vartable s') k = qh_find V (vartable s) k" for k
          using s'(4) set_data_find [OF goodD(2) [OF g1] find1] s1(4) [OF v(1)] by simp
        ultimately show ?thesis
          using s'(3,4) mono by auto
      qed
    qed
  qed
qed

end

end
