(* ===== verification/VarSet.thy ===== *)
theory VarSet imports VarGet begin

section \<open>Writing a variable computes \<open>aset\<close>; the same for whole tokens\<close>

text \<open>
  The refinement of \<open>varval_set\<close>, and of \<open>varval_get_value\<close> and \<open>varval_set_value\<close>, which take the
  token from the ring buffer, set the position for messages, and free the token at the end.
\<close>

subsection \<open>The fuel is enough\<close>

lemma rep_depth: "rep h ty d e F \<Longrightarrow> edepth e \<le> length F"
  by (induction e arbitrary: ty d F) (fastforce simp: le_SucI)+

lemma rep_live: "rep h ty d e F \<Longrightarrow> a \<in> set F \<Longrightarrow> h a \<noteq> None"
  by (induction e arbitrary: ty d F) auto

lemma rep_fuel:
  assumes "heap_ok s" "rep (heap s) ty d e F" "distinct F"
  shows "edepth e < Suc (fresh s)"
proof -
  have "set F \<subseteq> {..<fresh s}"
    using rep_live [OF assms(2)] heap_ok_live [OF assms(1)] by (metis lessThan_iff not_None_eq subsetI)
  then have "length F \<le> fresh s"
    using card_mono [of "{..<fresh s}" "set F"] distinct_card [OF assms(3)] by simp
  with rep_depth [OF assms(2)] show ?thesis by simp
qed

lemma set_cell_enc:
  "i < length xs \<Longrightarrow> set_cell (int (Suc i)) v (Some w # map Some xs) = Ok (Some w # map Some (xs[i := v]))"
  by (simp add: set_cell_def map_update nat_add_distrib)

context voids_lib
begin

lemma varval_set_refines:
  assumes g: "good hinv hmap A s" and rp: "rep (heap s) ty d e F" and di: "distinct F"
    and no: "set F \<inter> owned (hmap (vartable s)) = {}"
    and as: "aset (argv s) (mem_max s) A e v = Some A'"
  shows "\<exists>s'. varval_set V ty d v s = Ok (True, s') \<and> evolves hinv hmap (set F) s A' s'"
proof (cases e)
  case (EVal w)
  then show ?thesis using as by (simp add: aset_def)
next
  case (EVar x)
  then obtain a where a: "ty = INT_VAR_TOK" "d = Ptr a" "a \<noteq> NULL" "heap s a = Some (StrB x)" "F = [a]"
    using rp by auto
  have na: "a \<notin> owned (hmap (vartable s))" using no a(5) by simp
  note hv = goodD(2) [OF g] and vi = goodD(3) [OF g]
  have argc: "x \<noteq> ''argc''" using as EVar by (auto simp: aset_def)
  show ?thesis
  proof (cases "A x")
    case None
    with as EVar argc have v: "8 \<le> mem_max s" "A' = A(x \<mapsto> VArr [v])"
      by (auto simp: aset_def split: if_splits)
    have mx: "hmap (vartable s) x = None" using vinv_None [OF vi] None by simp
    let ?s1 = "s\<lparr>heap := (heap s)(fresh s \<mapsto> enc (VArr [v])), fresh := Suc (fresh s)\<rparr>"
    have live: "a < fresh s" using heap_ok_live [OF goodD(1) [OF g] a(4)] by simp
    obtain h' where h': "insert_var V a (fresh s) ?s1 = Ok (?s1\<lparr>vartable := h'\<rparr>)" "hinv h'"
        "hmap h' = (hmap (vartable s))(x \<mapsto> (a, fresh s))"
      by (rule insert_var_new [of ?s1 x a "fresh s"]) (use hv mx a live in \<open>simp_all add: mem_simps\<close>)
    have "evolves hinv hmap {a} s (A(x \<mapsto> VArr [v])) (?s1\<lparr>vartable := h'\<rparr>)"
      using evolves_insert [OF g None _ a(4) h'(2,3), of "VArr [v]"] by simp
    moreover have "varval_set V ty d v s = Ok (True, ?s1\<lparr>vartable := h'\<rparr>)"
      using h'(1) v argc a good_NULL [OF g]
      by (simp add: varval_set_def mem_simps find_var_None [OF hv mx] new_scalar_eq del: enc.simps)
    ultimately show ?thesis
      unfolding v(2) a(5) by auto
  next
    case (Some u)
    with as EVar argc obtain xs where u: "u = VArr xs" "length xs = 1" "A' = A(x \<mapsto> VArr [v])"
      by (cases u) (auto simp: aset_def split: if_splits)
    obtain y where y: "xs = [y]" using u(2) by (cases xs) auto
    obtain ka da where m: "hmap (vartable s) x = Some (ka, da)"
      using vinv_None [OF vi, of x] Some by (cases "hmap (vartable s) x") auto
    obtain p where p: "find_var V x s = Ok (Some p)" "pair_data V p s = Ok da"
      by (rule find_var_Some [OF hv m])
    have da: "da \<noteq> NULL" "heap s da = Some (enc (VArr [y]))"
      using vinv_Some [OF vi m] Some u y by auto
    have ne: "a \<noteq> da" using da a by auto
    let ?s1 = "s\<lparr>heap := (heap s)(da \<mapsto> enc (VArr [v]))\<rparr>"
    have ev1: "evolves hinv hmap {} s A' ?s1"
      unfolding u(3) by (rule evolves_write [OF g m]) simp
    have ev2: "evolves hinv hmap {a} ?s1 A' (?s1\<lparr>heap := (heap ?s1)(a := None)\<rparr>)"
      by (rule evolves_free [OF evolves_good [OF ev1]]) (use na in simp)
    have "varval_set V ty d v s = Ok (True, ?s1\<lparr>heap := (heap ?s1)(a := None)\<rparr>)"
      using argc p da a ne by (simp add: varval_set_def mem_simps read_head_def set_cell_def)
    then show ?thesis
      using evolves_trans [OF goodD(1) [OF g] ev1 ev2] a(5) by auto
  qed
next
  case (EArr x i)
  then obtain a nm ty' d' F' where a: "ty = INT_ARR_TOK" "d = Ptr a" "a \<noteq> NULL"
      "nm \<noteq> NULL" "F = a # nm # F'"
      "heap s a = Some (ArrTokB \<lparr>at_idx = d', at_idx_type = Some ty', at_name = nm\<rparr>)"
      "heap s nm = Some (StrB x)" and rep': "rep (heap s) ty' d' i F'"
    using rp by auto
  note ok = goodD(1) [OF g] and hv = goodD(2) [OF g] and vi = goodD(3) [OF g]
  have dis: "distinct F'" "a \<notin> set F'" "nm \<notin> set F'" "nm \<noteq> a"
      "set F' \<inter> owned (hmap (vartable s)) = {}" "a \<notin> owned (hmap (vartable s))"
      "nm \<notin> owned (hmap (vartable s))"
    using di no a(5) by auto
  have setF: "set F' \<union> {nm, a} = set F" using a(5) by auto
  have argv: "x \<noteq> ''argv''" using as EArr by (auto simp: aset_def)
  obtain t A1 ins where e: "aget (argv s) (mem_max s) A i = Some (t, A1, ins)"
    using as EArr argv by (auto simp: aset_def split: option.splits)
  obtain s1 where s1: "varval_get (Suc (fresh s)) V ty' d' s = Ok (Some t, s1)"
      "evolves hinv hmap (set F') s A1 s1" "var_mono A (hmap (vartable s)) A1 (hmap (vartable s1))"
      "\<not> ins \<Longrightarrow> qh_find V (vartable s1) k = qh_find V (vartable s) k" for k
    using varval_get_refines [OF g rep' dis(1,5) rep_fuel [OF ok rep' dis(1)] e] by auto
  note g1 = evolves_good [OF s1(2)] and f1 = evolves_fields [OF s1(2)]
  have index: "index_value V a s = Ok (Some t, s1)"
    using a(3,6) s1(1) by (simp add: index_value_def mem_simps)
  let ?i = "nat (sint t)"
  let ?n = "Suc ?i"
  from as EArr argv e have t: "0 \<le> sint t" "sint t + 1 < 2147483647" "A1 x = A x"
    by (auto simp: aset_def split: if_splits)
  note add = c_add_index [OF t(1,2)]
  have tn: "sint (word_of_nat ?n :: c_int) = int ?n" "?n < 2147483647"
    using t by (auto intro!: sint_of_nat simp del: of_nat_Suc)
  show ?thesis
  proof (cases "A x")
    case None
    with as EArr argv e t have v: "4 * (?n + 1) \<le> mem_max s"
        "A' = A1(x \<mapsto> VArr ((replicate ?n 0)[?i := v]))"
      by (auto simp: aset_def split: if_splits)
    have mx: "hmap (vartable s) x = None" using vinv_None [OF vi] None by simp
    have mx1: "hmap (vartable s1) x = None" using vinv_None [OF goodD(3) [OF g1]] None t(3) by simp
    let ?s2 = "s1\<lparr>heap := (heap s1)(fresh s1 \<mapsto> enc (VArr (replicate ?n 0))), fresh := Suc (fresh s1)\<rparr>"
    let ?b = "enc (VArr ((replicate ?n 0)[?i := v]))"
    let ?s2' = "s1\<lparr>heap := (heap s1)(fresh s1 \<mapsto> ?b), fresh := Suc (fresh s1)\<rparr>"
    have na: "new_array (word_of_nat ?n) s1 = Ok (fresh s1, ?s2)"
      by (rule new_array_eq) (use good_NULL [OF g1] tn(2) v(1) f1(2) in simp_all)
    have wr: "bnd (read_ints (fresh s1) ?s2) (\<lambda>xs. bnd (set_cell (int ?n) v xs) (\<lambda>xs.
        store (fresh s1) (IntsB xs) ?s2)) = Ok ?s2'"
      using set_cell_enc [of ?i "replicate ?n 0" v "word_of_nat ?n"] good_NULL [OF g1]
      by (simp add: mem_simps del: of_nat_Suc replicate.simps)
    let ?sk = "s1\<lparr>heap := (heap s1)(a := None)\<rparr>"
    have keep: "heap s1 a = heap s a" "a \<notin> owned (hmap (vartable s1))" "heap s1 nm = heap s nm"
        "a < fresh s1" "nm < fresh s1"
      using evolves_keep [OF s1(2)] heap_ok_live [OF ok a(6)] heap_ok_live [OF ok a(7)] dis f1(3) by auto
    have ev1: "evolves hinv hmap {a} s1 A1 ?sk" by (rule evolves_free [OF g1 keep(2)])
    let ?s3 = "?s2'\<lparr>heap := (heap ?s2')(a := None)\<rparr>"
    have da: "dealloc a ?s2' = Ok ?s3" using keep a by (simp add: mem_simps)
    obtain h' where h': "insert_var V nm (fresh s1) ?s3 = Ok (?s3\<lparr>vartable := h'\<rparr>)" "hinv h'"
        "hmap h' = (hmap (vartable s1))(x \<mapsto> (nm, fresh s1))"
      by (rule insert_var_new [of ?s3 x nm "fresh s1"])
        (use goodD(2) [OF g1] mx1 a keep dis in \<open>simp_all add: mem_simps\<close>)
    let ?s4 = "?sk\<lparr>heap := (heap ?sk)(fresh ?sk \<mapsto> ?b), fresh := Suc (fresh ?sk), vartable := h'\<rparr>"
    have eq: "?s3\<lparr>vartable := h'\<rparr> = ?s4" using keep(4) by (simp add: fun_upd_twist)
    have ev2: "evolves hinv hmap {nm} ?sk A' (?s3\<lparr>vartable := h'\<rparr>)"
      unfolding eq v(2)
    proof (rule evolves_insert [OF evolves_good [OF ev1]])
      show "A1 x = None" using None t(3) by simp
      show "var_ok (VArr ((replicate ?n 0)[?i := v]))"
        using tn(2) by (simp del: replicate.simps)
      show "heap ?sk nm = Some (StrB x)" using keep a dis by simp
    qed (use h' in simp_all)
    have "evolves hinv hmap (set F' \<union> ({a} \<union> {nm})) s A' (?s3\<lparr>vartable := h'\<rparr>)"
      by (rule evolves_trans [OF ok s1(2) evolves_trans [OF goodD(1) [OF g1] ev1 ev2]])
    moreover have "set F' \<union> ({a} \<union> {nm}) = set F" using a(5) by auto
    moreover have "varval_set V ty d v s = Ok (True, ?s3\<lparr>vartable := h'\<rparr>)"
    proof -
      have "varval_set V ty d v s = bnd (bnd (read_ints (fresh s1) ?s2) (\<lambda>xs.
          bnd (set_cell (int ?n) v xs) (\<lambda>xs. store (fresh s1) (IntsB xs) ?s2))) (\<lambda>s.
          bnd (dealloc a s) (\<lambda>s. bnd (insert_var V nm (fresh s1) s) (\<lambda>s. Ok (True, s))))"
        using argv a index t add na tn
        by (simp add: varval_set_def mem_simps find_var_None [OF hv mx]
            del: enc.simps replicate.simps of_nat_Suc)
      then show ?thesis by (simp only: wr da h'(1) bnd.simps)
    qed
    ultimately show ?thesis by auto
  next
    case (Some u)
    with as EArr argv e t obtain xs where u: "u = VArr xs"
      by (cases u) (auto simp: aset_def split: if_splits)
    obtain ka da where m: "hmap (vartable s) x = Some (ka, da)"
      using vinv_None [OF vi, of x] Some by (cases "hmap (vartable s) x") auto
    have m1: "hmap (vartable s1) x = Some (ka, da)"
      using var_mono_same [OF s1(3), of x] Some t(3) m by simp
    obtain p where p: "find_var V x s = Ok (Some p)" "pair_data V p s = Ok da"
        "qh_find V (vartable s) x = (Some p, VDS_SUCCESS)"
      by (rule find_var_Some [OF hv m])
    have da: "da \<noteq> NULL" "heap s da = Some (enc (VArr xs))" "heap s1 da = Some (enc (VArr xs))"
        "1 \<le> length xs" "length xs < 2147483647"
      using vinv_Some [OF vi m] vinv_Some [OF goodD(3) [OF g1] m1] Some u t(3) by auto
    have nil: "xs \<noteq> []" using da(4) by auto
    have size: "sint (word_of_nat (Suc (length xs)) :: c_int) = int (Suc (length xs))"
      using da(5) by (intro sint_of_nat) simp
    have head: "read_head da s = Ok (word_of_nat (length xs))"
        "(word_of_nat (length xs) :: c_int) \<noteq> -1"
      using da of_nat_ne_minus_one [of "length xs"] by (simp_all add: read_head_def mem_simps)
    have reduce: "varval_set V ty d v s =
        bnd (if length xs < ?n then grow_array V p da (word_of_nat ?n) s1 else Ok (da, s1)) (\<lambda>(arr, s).
        bnd (read_ints arr s) (\<lambda>xs. bnd (set_cell (int ?n) v xs) (\<lambda>xs.
        bnd (store arr (IntsB xs) s) (\<lambda>s.
        bnd (dealloc nm s) (\<lambda>s. bnd (dealloc a s) (\<lambda>s. Ok (True, s)))))))"
      using argv a index t add p head da c_add_one [OF da(5)] size tn
      by (simp add: varval_set_def mem_simps linorder_not_less del: of_nat_Suc)
    have finish: ?thesis
      if s2: "evolves hinv hmap {} s1 A2 s2" "hmap (vartable s2) x = Some (ka, arr)"
        and ys: "heap s2 arr = Some (enc (VArr ys))" "?i < length ys" "length ys < 2147483647"
        and A2: "A' = A2(x \<mapsto> VArr (ys[?i := v]))"
        and red: "varval_set V ty d v s = bnd (Ok (arr, s2)) (\<lambda>(arr, s).
          bnd (read_ints arr s) (\<lambda>xs. bnd (set_cell (int ?n) v xs) (\<lambda>xs.
          bnd (store arr (IntsB xs) s) (\<lambda>s.
          bnd (dealloc nm s) (\<lambda>s. bnd (dealloc a s) (\<lambda>s. Ok (True, s)))))))"
      for A2 s2 arr ys
    proof -
      let ?s3 = "s2\<lparr>heap := (heap s2)(arr \<mapsto> enc (VArr (ys[?i := v])))\<rparr>"
      note g2 = evolves_good [OF s2(1)]
      have ev3: "evolves hinv hmap {} s2 A' ?s3"
        unfolding A2 by (rule evolves_write [OF g2 s2(2)]) (use ys in auto)
      have "evolves hinv hmap (set F' \<union> ({} \<union> {})) s A' ?s3"
        by (rule evolves_trans [OF ok s1(2) evolves_trans [OF goodD(1) [OF g1] s2(1) ev3]])
      then obtain sm s' where s': "dealloc nm ?s3 = Ok sm" "dealloc a sm = Ok s'"
          "evolves hinv hmap (set F' \<union> ({} \<union> {}) \<union> {nm, a}) s A' s'"
        by (rule free_arr_tok [OF ok _ a(7) _ dis(7) a(6) _ dis(6)]) (use dis in auto)
      have "arr \<noteq> NULL" using heap_ok_live [OF goodD(1) [OF g2] ys(1)] by simp
      then have "varval_set V ty d v s = Ok (True, s')"
        using red s'(1,2) ys set_cell_enc [OF ys(2), of v "word_of_nat (length ys)"]
        by (simp add: mem_simps del: of_nat_Suc)
      then show ?thesis using s'(3) setF by auto
    qed
    show ?thesis
    proof (cases "length xs < ?n")
      case False
      with as EArr argv e t Some u have "A' = A1(x \<mapsto> VArr (xs[?i := v]))"
        by (auto simp: aset_def split: if_splits)
      then show ?thesis
        by (intro finish [OF evolves_refl [OF g1] m1 da(3)]) (use reduce False da in simp_all)
    next
      case True
      with as EArr argv e t Some u have v: "\<not> ins" "4 * (?n + 1) \<le> mem_max s"
          "A' = A1(x \<mapsto> VArr ((grow xs ?n)[?i := v]))"
        by (auto simp: aset_def split: if_splits)
      have find1: "qh_find V (vartable s1) x = (Some p, VDS_SUCCESS)"
        using s1(4) [OF v(1)] p(3) by simp
      have pv: "qh_valid V (vartable s1) p" "qh_pair V (vartable s1) p = (ka, da)"
        using find_Some [OF goodD(2) [OF g1] m1] find1 by auto
      let ?h' = "qh_set_data V (vartable s1) p (fresh s1)"
      let ?s2 = "s1\<lparr>heap := (heap s1)(da := None, fresh s1 \<mapsto> enc (VArr (grow xs ?n))),
          fresh := Suc (fresh s1), vartable := ?h'\<rparr>"
      have gr: "grow_array V p da (word_of_nat ?n) s1 = Ok (fresh s1, ?s2)"
        by (rule grow_array_eq [OF da(3) goodD(1) [OF g1] nil True tn(2) _ pv(1)])
          (use v(2) f1(2) in simp)
      have sd: "hinv ?h'" "hmap ?h' = (hmap (vartable s1))(x \<mapsto> (ka, fresh s1))"
        using set_data [OF goodD(2) [OF g1] find1, of "fresh s1"] pv(2) by auto
      have lg: "length (grow xs ?n) = ?n" by (rule length_grow [OF nil True])
      have ev: "evolves hinv hmap {} s1 (A1(x \<mapsto> VArr (grow xs ?n))) ?s2"
        by (rule evolves_grow [OF g1 m1 _ sd]) (use lg tn(2) in simp)
      show ?thesis
      proof (rule finish [OF ev])
        show "varval_set V ty d v s = bnd (Ok (fresh s1, ?s2)) (\<lambda>(arr, s).
          bnd (read_ints arr s) (\<lambda>xs. bnd (set_cell (int ?n) v xs) (\<lambda>xs.
          bnd (store arr (IntsB xs) s) (\<lambda>s.
          bnd (dealloc nm s) (\<lambda>s. bnd (dealloc a s) (\<lambda>s. Ok (True, s)))))))"
          unfolding reduce gr using True by simp
      qed (use sd(2) lg tn(2) v(3) in simp_all)
    qed
  qed
qed

end

subsection \<open>Whole tokens\<close>

text \<open>
  A token of the ring buffer that stands for \<open>e\<close> and owns \<open>F\<close>, apart from the table.
\<close>

definition tok_rep :: "('h \<Rightarrow> pairs) \<Rightarrow> ('h, 'r) st \<Rightarrow> addr \<Rightarrow> expr \<Rightarrow> addr list \<Rightarrow> bool" where
  "tok_rep hmap s tk e F \<longleftrightarrow> (\<exists>t. heap s tk = Some (TokB t) \<and> rep (heap s) (tok_type t) (tok_data t) e F) \<and>
     distinct (tk # F) \<and> set (tk # F) \<inter> owned (hmap (vartable s)) = {}"

lemma parser_idx [simp]:
  "heap (set_parser_idx t s) = heap s" "heap (reset_parser_idx s0 s) = heap s"
  "fresh (set_parser_idx t s) = fresh s" "fresh (reset_parser_idx s0 s) = fresh s"
  "vartable (set_parser_idx t s) = vartable s" "vartable (reset_parser_idx s0 s) = vartable s"
  "argv (set_parser_idx t s) = argv s" "mem_max (set_parser_idx t s) = mem_max s"
  by (simp_all add: set_parser_idx_def reset_parser_idx_def)

lemma good_cong:
  "heap s' = heap s \<Longrightarrow> fresh s' = fresh s \<Longrightarrow> vartable s' = vartable s \<Longrightarrow>
    good hinv hmap A s' = good hinv hmap A s"
  by (simp add: good_def heap_ok_def)

text \<open>Setting and restoring the position around an evaluation leaves no trace.\<close>

lemma evolves_parser_idx:
  assumes "evolves hinv hmap F (set_parser_idx t s) A s'"
  shows "evolves hinv hmap F s A (reset_parser_idx s s')"
proof -
  obtain h f v where eq: "s' = (set_parser_idx t s)\<lparr>heap := h, fresh := f, vartable := v\<rparr>"
    using evolves_rest [OF assms] by blast
  have "good hinv hmap A (reset_parser_idx s s')"
    using evolves_good [OF assms] good_cong [of "reset_parser_idx s s'" s'] by simp
  moreover have "reset_parser_idx s s' = s\<lparr>heap := h, fresh := f, vartable := v\<rparr>"
    by (simp add: eq reset_parser_idx_def set_parser_idx_def)
  ultimately show ?thesis
    using assms by (simp add: evolves_def eq)
qed

context voids_lib
begin

lemma free_tok:
  assumes ok: "heap_ok s" and ev: "evolves hinv hmap (set F) s A s1" and tr: "tok_rep hmap s tk e F"
  obtains s2 where "dealloc tk s1 = Ok s2" "evolves hinv hmap (insert tk (set F)) s A s2"
proof -
  obtain t where t: "heap s tk = Some (TokB t)" "tk \<notin> set F" "tk \<notin> owned (hmap (vartable s))"
    using tr by (auto simp: tok_rep_def)
  have live: "tk < fresh s" "tk \<noteq> NULL" using heap_ok_live [OF ok t(1)] by auto
  have keep: "heap s1 tk = heap s tk" "tk \<notin> owned (hmap (vartable s1))"
    using evolves_keep [OF ev live(1) t(2,3)] .
  have "evolves hinv hmap (set F \<union> {tk}) s A (s1\<lparr>heap := (heap s1)(tk := None)\<rparr>)"
    by (rule evolves_trans [OF ok ev evolves_free [OF evolves_good [OF ev] keep(2)]])
  then show thesis
    using keep t live by (intro that) (auto simp: mem_simps)
qed

lemma get_value_refines:
  assumes g: "good hinv hmap A s" and tr: "tok_rep hmap s tk e F"
    and ag: "aget (argv s) (mem_max s) A e = Some (v, A', ins)"
  shows "\<exists>s'. varval_get_value V tk s = Ok (Some v, s') \<and> evolves hinv hmap (insert tk (set F)) s A' s'"
proof -
  obtain t where t: "heap s tk = Some (TokB t)" "rep (heap s) (tok_type t) (tok_data t) e F" "distinct F"
      "set F \<inter> owned (hmap (vartable s)) = {}"
    using tr by (auto simp: tok_rep_def)
  let ?s = "set_parser_idx t s"
  have ok: "heap_ok s" by (rule goodD(1) [OF g])
  have "good hinv hmap A ?s" using g good_cong [of ?s s] by simp
  then obtain s1 where s1: "varval_get (Suc (fresh s)) V (tok_type t) (tok_data t) ?s = Ok (Some v, s1)"
      "evolves hinv hmap (set F) ?s A' s1"
    using varval_get_refines [of A ?s "tok_type t" "tok_data t" e F "Suc (fresh s)" v A' ins]
      t rep_fuel [OF ok t(2,3)] ag by auto
  obtain s2 where "dealloc tk (reset_parser_idx s s1) = Ok s2"
      "evolves hinv hmap (insert tk (set F)) s A' s2"
    by (rule free_tok [OF ok evolves_parser_idx [OF s1(2)] tr])
  then show ?thesis
    using t(1) heap_ok_live [OF ok t(1)] s1(1) by (simp add: varval_get_value_def mem_simps)
qed

lemma set_value_refines:
  assumes g: "good hinv hmap A s" and tr: "tok_rep hmap s tk e F"
    and as: "aset (argv s) (mem_max s) A e v = Some A'"
  shows "\<exists>s'. varval_set_value V tk v s = Ok (True, s') \<and> evolves hinv hmap (insert tk (set F)) s A' s'"
proof -
  obtain t where t: "heap s tk = Some (TokB t)" "rep (heap s) (tok_type t) (tok_data t) e F" "distinct F"
      "set F \<inter> owned (hmap (vartable s)) = {}"
    using tr by (auto simp: tok_rep_def)
  let ?s = "set_parser_idx t s"
  have ok: "heap_ok s" by (rule goodD(1) [OF g])
  have "good hinv hmap A ?s" using g good_cong [of ?s s] by simp
  then obtain s1 where s1: "varval_set V (tok_type t) (tok_data t) v ?s = Ok (True, s1)"
      "evolves hinv hmap (set F) ?s A' s1"
    using varval_set_refines [of A ?s "tok_type t" "tok_data t" e F v A'] t as by auto
  obtain s2 where "dealloc tk (reset_parser_idx s s1) = Ok s2"
      "evolves hinv hmap (insert tk (set F)) s A' s2"
    by (rule free_tok [OF ok evolves_parser_idx [OF s1(2)] tr])
  then show ?thesis
    using t(1) heap_ok_live [OF ok t(1)] s1(1) by (simp add: varval_set_value_def mem_simps)
qed

end

end
