(* ===== verification/VarProps.thy ===== *)
theory VarProps imports VarSet begin

section \<open>Properties of the variables (exec.c)\<close>

text \<open>
  The refinement theorems of \<open>varval_get_value\<close> and \<open>varval_set_value\<close> for any library that meets
  the contract \<open>voids_lib\<close>, the laws of the environments they refine, and what the code does where
  the environments stop: a negative index, an undefined constant, a growing array.
\<close>

subsection \<open>A concrete memory\<close>

text \<open>
  The variable \<open>a\<close> with the elements 5 and 7, and the tokens of \<open>$a[1]\<close>, \<open>$b[1]\<close> and of the
  value 9.
\<close>

definition demo_env :: env where
  "demo_env = [''a'' \<mapsto> VArr [5, 7]]"

definition demo_tok :: "token_type_e \<Rightarrow> varval_u \<Rightarrow> block" where
  "demo_tok ty d = TokB \<lparr>tok_data = d, tok_len = 0, tok_type = ty, tok_line = 2, tok_column = 9,
     tok_prev_col = 1, tok_offset = 0\<rparr>"

definition demo_arr :: "varval_u \<Rightarrow> token_type_e \<Rightarrow> addr \<Rightarrow> block" where
  "demo_arr d ty n = ArrTokB \<lparr>at_idx = d, at_idx_type = Some ty, at_name = n\<rparr>"

definition demo_heap :: "addr \<Rightarrow> block option" where
  "demo_heap = [1 \<mapsto> StrB ''a'', 2 \<mapsto> enc (VArr [5, 7]),
     3 \<mapsto> StrB ''a'', 4 \<mapsto> demo_arr (Value 1) INT_VAL_TOK 3, 5 \<mapsto> demo_tok INT_ARR_TOK (Ptr 4),
     6 \<mapsto> StrB ''b'', 7 \<mapsto> demo_arr (Value 1) INT_VAL_TOK 6, 8 \<mapsto> demo_tok INT_ARR_TOK (Ptr 7),
     9 \<mapsto> demo_tok INT_VAL_TOK (Value 9)]"

definition demo_st :: "(lhash, lring) st" where
  "demo_st = (boot list_voids 1000 (program_init list_voids '''' 0 [] (\<lambda>_. NUL) (0, 0, 0) (0, 0)))
     \<lparr>heap := demo_heap, fresh := 10, vartable := [(''a'', 1, 2)]\<rparr>"

lemma demo_fields [simp]:
  "heap demo_st = demo_heap" "fresh demo_st = 10" "vartable demo_st = [(''a'', 1, 2)]"
  "argv demo_st = [0, 0]" "mem_max demo_st = 1000"
  by (simp_all add: demo_st_def boot_def program_init_def program_s.defs)

lemma demo_owned: "owned [''a'' \<mapsto> (Suc 0, 2)] = {1, 2}"
  by (auto simp: owned_def split: if_splits)

lemma demo_good: "good l_hinv map_of demo_env demo_st"
proof -
  have "vinv demo_heap (Map.empty(''a'' \<mapsto> (1, 2))) (Map.empty(''a'' \<mapsto> VArr [5, 7]))"
    by (rule vinv_insert) (simp_all add: vinv_def data_inj_def owned_def demo_heap_def)
  then show ?thesis
    by (simp add: good_def heap_ok_def demo_env_def) (simp add: demo_heap_def)
qed

lemma demo_tok_rep:
  "tok_rep map_of demo_st 5 (EArr ''a'' (EVal 1)) [4, 3]"
  "tok_rep map_of demo_st 8 (EArr ''b'' (EVal 1)) [7, 6]"
  "tok_rep map_of demo_st 9 (EVal 9) []"
  by (simp_all add: tok_rep_def demo_owned demo_heap_def demo_tok_def demo_arr_def)

subsection \<open>Reading and writing refine the environment\<close>

text \<open>
  C9: \<open>varval_get_value\<close> computes \<open>aget\<close>: on a token that stands for the expression \<open>e\<close>, in a state
  whose table stands for the environment \<open>A\<close>, it returns the value of \<open>e\<close>, the table stands for the
  environment after the evaluation, every block of the token is freed or handed to the table, and
  no other block changes.
\<close>

theorem get_value_correct:
  assumes "voids_lib V hinv hmap rinv rlist"
    and "good hinv hmap A s" and "tok_rep hmap s tk e F"
    and "aget (argv s) (mem_max s) A e = Some (v, A', ins)"
  shows "\<exists>s'. varval_get_value V tk s = Ok (Some v, s') \<and>
    evolves hinv hmap (insert tk (set F)) s A' s'"
  by (rule voids_lib.get_value_refines [OF assms])

theorem get_value_witness:
  "\<exists>s'. varval_get_value list_voids 5 demo_st = Ok (Some 7, s') \<and>
    evolves l_hinv map_of {5, 4, 3} demo_st demo_env s'"
  using get_value_correct [OF lv.voids_lib_axioms demo_good demo_tok_rep(1), of 7 demo_env False]
  by (simp add: demo_env_def)

text \<open>
  C10: \<open>varval_set_value\<close> computes \<open>aset\<close>: on a token that stands for \<open>e\<close> it succeeds, the table
  stands for the environment with the value assigned, every block of the token is freed or handed
  to the table, and no other block changes.
\<close>

theorem set_value_correct:
  assumes "voids_lib V hinv hmap rinv rlist"
    and "good hinv hmap A s" and "tok_rep hmap s tk e F"
    and "aset (argv s) (mem_max s) A e v = Some A'"
  shows "\<exists>s'. varval_set_value V tk v s = Ok (True, s') \<and>
    evolves hinv hmap (insert tk (set F)) s A' s'"
  by (rule voids_lib.set_value_refines [OF assms])

theorem set_value_witness:
  "\<exists>s'. varval_set_value list_voids 8 3 demo_st = Ok (True, s') \<and>
    evolves l_hinv map_of {8, 7, 6} demo_st (demo_env(''b'' \<mapsto> VArr [0, 3])) s'"
  using set_value_correct [OF lv.voids_lib_axioms demo_good demo_tok_rep(2), of 3]
  by (simp add: aset_def demo_env_def)

end
