(* ===== verification/ExprText.thy ===== *)
theory ExprText imports ScanText VarSpec begin

section \<open>Expressions as text\<close>

text \<open>
  The concrete syntax of variables and values, as a printer \<open>show_expr\<close>, and what the loops of
  \<open>parse_varval_token\<close> do on the parts of a printed expression in the input buffer.
\<close>

subsection \<open>The printer\<close>

definition digit :: "nat \<Rightarrow> char" where
  "digit n = char_of (48 + n)"

fun show_nat :: "nat \<Rightarrow> string" where
  "show_nat n = (if n < 10 then [digit n] else show_nat (n div 10) @ [digit (n mod 10)])"

declare show_nat.simps [simp del]

definition show_int :: "int \<Rightarrow> string" where
  "show_int i = (if i < 0 then CHR ''-'' # show_nat (nat (- i)) else show_nat (nat i))"

fun show_expr :: "expr \<Rightarrow> string" where
  "show_expr (EVal v) = show_int (sint v)"
| "show_expr (EVar x) = CHR ''$'' # x"
| "show_expr (EArr x e) = CHR ''$'' # x @ CHR ''['' # show_expr e @ [CHR '']'']"

definition name_ok :: "string \<Rightarrow> bool" where
  "name_ok x \<longleftrightarrow> x \<noteq> [] \<and> isalpha (of_char (hd x)) \<and> list_all (\<lambda>a. isalnum (of_char a)) x"

text \<open>
  Which expressions can be written: numbers of at most nine characters with the sign, and no sign
  in an index.
\<close>

fun index_ok :: "expr \<Rightarrow> bool" where
  "index_ok (EVal v) \<longleftrightarrow> 0 \<le> sint v \<and> sint v \<le> 999999999"
| "index_ok (EVar x) \<longleftrightarrow> name_ok x"
| "index_ok (EArr x e) \<longleftrightarrow> name_ok x \<and> index_ok e"

fun expr_ok :: "expr \<Rightarrow> bool" where
  "expr_ok (EVal v) \<longleftrightarrow> -99999999 \<le> sint v \<and> sint v \<le> 999999999"
| "expr_ok e \<longleftrightarrow> index_ok e"

subsection \<open>Characters\<close>

lemma char_classes [simp]: "\<not> isalnum 93" "\<not> isalnum 91" "\<not> isdigit 93" "\<not> isdigit 45" "\<not> isdigit 36"
  by (simp_all add: isalnum_def isalpha_def isdigit_def)

lemma of_char_digit: "n < 10 \<Longrightarrow> (of_char (digit n) :: int) = 48 + int n"
proof -
  assume n: "n < 10"
  have "(of_char (digit n) :: nat) = 48 + n"
    using n by (simp add: digit_def)
  then have "int (of_char (digit n)) = 48 + int n" by simp
  then show ?thesis by (simp add: of_nat_of_char)
qed

lemma isdigit_digit: "n < 10 \<Longrightarrow> isdigit (of_char (digit n))"
  by (simp add: isdigit_def of_char_digit)

lemma show_nat_digits: "list_all (\<lambda>a. isdigit (of_char a)) (show_nat n) \<and> show_nat n \<noteq> []"
proof (induction n rule: show_nat.induct)
  case (1 n)
  then show ?case
    by (subst (1 2) show_nat.simps) (simp add: isdigit_digit)
qed

lemma show_nat_length: "n < 10 ^ Suc k \<Longrightarrow> length (show_nat n) \<le> Suc k"
proof (induction k arbitrary: n)
  case 0
  then show ?case by (subst show_nat.simps) simp
next
  case (Suc k)
  have "n div 10 < 10 ^ Suc k"
    using Suc.prems by (simp add: less_mult_imp_div_less)
  then show ?case
    using Suc.IH [of "n div 10"] by (subst show_nat.simps) simp
qed

definition dec :: "int \<Rightarrow> string \<Rightarrow> int" where
  "dec acc ds = foldl (\<lambda>a d. a * 10 + (of_char d - 48)) acc ds"

lemma dec_simps: "dec acc [] = acc" "dec acc (d # ds) = dec (acc * 10 + (of_char d - 48)) ds"
  "dec acc (ds @ [d]) = dec acc ds * 10 + (of_char d - 48)"
  by (simp_all add: dec_def)

lemma dec_show_nat: "dec 0 (show_nat n) = int n"
proof (induction n rule: show_nat.induct)
  case (1 n)
  have "int (n div 10) * 10 + int (n mod 10) = int n" by presburger
  with 1 show ?case
    by (subst show_nat.simps) (simp add: dec_simps of_char_digit)
qed

subsection \<open>Text in the input buffer\<close>

fun holds :: "(nat \<Rightarrow> char) \<Rightarrow> nat \<Rightarrow> string \<Rightarrow> bool" where
  "holds f i [] \<longleftrightarrow> True"
| "holds f i (x # t) \<longleftrightarrow> i \<le> MAX_INPUT_STR_LEN \<and> f i = x \<and> holds f (Suc i) t"

lemma holds_append: "holds f i (t @ u) \<longleftrightarrow> holds f i t \<and> holds f (i + length t) u"
  by (induction t arbitrary: i) auto

lemma holds_bytes: "holds (input s) i t \<Longrightarrow> input_bytes i (i + length t) s = t"
proof (induction t arbitrary: i)
  case (Cons x t)
  then show ?case
    using Cons.IH [of "Suc i"] by (simp add: input_bytes_def upt_conv_Cons del: upt_Suc)
qed (simp add: input_bytes_def)

lemma holds_eq: "holds f i (w @ [NUL]) \<Longrightarrow> NUL \<notin> set w \<Longrightarrow> NUL \<notin> set v \<Longrightarrow> input_eq f i v \<longleftrightarrow> w = v"
proof (induction v arbitrary: i w)
  case Nil
  then show ?case by (cases w) auto
next
  case (Cons x v)
  then show ?case by (cases w) auto
qed

lemma holds_put_word: "i + length w \<le> MAX_INPUT_STR_LEN \<Longrightarrow> holds (put_word i w f) i (w @ [NUL])"
proof (induction w arbitrary: i f)
  case (Cons x w)
  have "put_word (Suc i) w (f(i := x)) i = x" by (simp add: put_word_def)
  with Cons show ?case by (simp add: put_word_Cons)
qed (simp add: put_word_def)

subsection \<open>The loops over a part of the text\<close>

lemma scan_name_text:
  assumes "holds (input s) i (x @ [y])" and "list_all (\<lambda>a. isalnum (of_char a)) x"
    and "y = stop \<or> y = CHR ''[''" and "\<not> isalnum (of_char stop)" and "i + length x \<le> limit"
  shows "scan_name limit stop i s = Ok (i + length x, s)"
  using assms
proof (induction x arbitrary: i)
  case Nil
  then show ?case by (subst scan_name.simps) auto
next
  case (Cons a x)
  then have "a \<noteq> stop" "a \<noteq> CHR ''[''"
    by auto
  then have "scan_name limit stop i s = scan_name limit stop (Suc i) s"
    using Cons.prems by (subst scan_name.simps) simp
  with Cons show ?case by simp
qed

lemma scan_digits_text:
  assumes "holds (input s) i (ds @ [stop])" and "list_all (\<lambda>a. isdigit (of_char a)) ds"
    and "\<not> isdigit (of_char stop)" and "i + length ds \<le> limit"
  shows "scan_digits limit stop i s = Ok (i + length ds, s)"
  using assms
proof (induction ds arbitrary: i)
  case Nil
  then show ?case by (subst scan_digits.simps) auto
next
  case (Cons a ds)
  then have "a \<noteq> stop"
    by auto
  then have "scan_digits limit stop i s = scan_digits limit stop (Suc i) s"
    using Cons.prems by (subst scan_digits.simps) simp
  with Cons show ?case by simp
qed

lemma atoi_digits_text:
  assumes "holds (input s) i (ds @ [stop])" and "list_all (\<lambda>a. isdigit (of_char a)) ds"
    and "\<not> isdigit (of_char stop)"
  shows "atoi_digits i acc s = Ok (dec acc ds)"
  using assms
proof (induction ds arbitrary: i acc)
  case Nil
  then show ?case by (subst atoi_digits.simps) (simp add: dec_simps)
next
  case (Cons a ds)
  then show ?case
    by (subst atoi_digits.simps) (simp add: dec_simps)
qed

lemma count_closing_text:
  assumes "holds (input s) i (t @ [NUL])" and "NUL \<notin> set t"
  shows "count_closing i n s = Ok (n + word_of_nat (count_list t (CHR '']'')))"
  using assms
proof (induction t arbitrary: i n)
  case Nil
  then show ?case by (subst count_closing.simps) simp
next
  case (Cons a t)
  then show ?case
    by (subst count_closing.simps) (auto simp: add.assoc add.commute [of 1])
qed

end
