(* ===== verification/ParseValue.thy ===== *)
theory ParseValue imports ExprText begin

section \<open>The parser reads what the printer writes\<close>

subsection \<open>Numbers\<close>

lemma show_int_shape:
  assumes "-99999999 \<le> i" and "i \<le> 999999999"
  obtains a ds where "show_int i = a # ds" "list_all (\<lambda>a. isdigit (of_char a)) ds" "length ds \<le> 8"
    "if i < 0 then a = CHR ''-'' \<and> dec 0 ds = - i else isdigit (of_char a) \<and> dec 0 (a # ds) = i"
proof (cases "i < 0")
  case True
  then show thesis
    using assms that [of "CHR ''-''" "show_nat (nat (- i))"] show_nat_digits [of "nat (- i)"]
      show_nat_length [of "nat (- i)" 7] dec_show_nat [of "nat (- i)"]
    by (simp add: show_int_def)
next
  case False
  obtain a ds where ds: "show_nat (nat i) = a # ds"
    using show_nat_digits [of "nat i"] by (cases "show_nat (nat i)") auto
  then show thesis
    using assms False that [of a ds] show_nat_digits [of "nat i"]
      show_nat_length [of "nat i" 8] dec_show_nat [of "nat i"]
    by (simp add: show_int_def)
qed

lemma atoi_text:
  assumes "holds (input s) i (show_int (sint v) @ [stop])" and "\<not> isdigit (of_char stop)"
    and "-99999999 \<le> sint v" "sint v \<le> 999999999"
  shows "atoi i s = Ok v"
proof -
  obtain a ds where a: "show_int (sint v) = a # ds" "list_all (\<lambda>a. isdigit (of_char a)) ds"
    "if sint v < 0 then a = CHR ''-'' \<and> dec 0 ds = - sint v else isdigit (of_char a) \<and> dec 0 (a # ds) = sint v"
    by (rule show_int_shape [OF assms(3,4)])
  have chk: "chk (sint v) = Ok v" by simp
  show ?thesis
  proof (cases "sint v < 0")
    case True
    then have "atoi_digits (Suc i) 0 s = Ok (- sint v)"
      using atoi_digits_text [of s "Suc i" ds stop 0] assms(1,2) a by simp
    with True show ?thesis
      using assms(1) a chk by (simp add: atoi_def input_at_def)
  next
    case False
    then have "atoi_digits i 0 s = Ok (sint v)"
      using atoi_digits_text [of s i "a # ds" stop 0] assms(1,2) a by simp
    moreover have "a \<noteq> CHR ''-''" using a(3) False by auto
    ultimately show ?thesis
      using assms(1) a chk by (simp add: atoi_def input_at_def)
  qed
qed

lemma scan_number:
  assumes "holds (input s) i (show_int (sint v) @ [stop])" and "\<not> isdigit (of_char stop)"
    and "-99999999 \<le> sint v" "sint v \<le> 999999999"
  shows "scan_digits (MAX_INT_STR_LEN + i) stop (i + 1) s = Ok (i + length (show_int (sint v)), s)"
proof -
  obtain a ds where a: "show_int (sint v) = a # ds" "list_all (\<lambda>a. isdigit (of_char a)) ds" "length ds \<le> 8"
    by (rule show_int_shape [OF assms(3,4)])
  have "scan_digits (MAX_INT_STR_LEN + i) stop (Suc i) s = Ok (Suc i + length ds, s)"
    using assms(1,2) a by (intro scan_digits_text) (simp_all add: limit_defs)
  with a show ?thesis by simp
qed

subsection \<open>Names\<close>

lemma name_no_NUL: "name_ok x \<Longrightarrow> NUL \<notin> set x"
  using isalnum_NUL by (auto simp: name_ok_def list_all_iff)

lemma scan_name_expr:
  assumes "holds (input s) i (CHR ''$'' # x @ [y])" and "name_ok x" and "length x \<le> 128"
    and "y = stop \<or> y = CHR ''[''" and "\<not> isalnum (of_char stop)"
  shows "scan_name (i + 2 + MAX_ALLOWED_SYMBOL_LEN) stop (i + 2) s = Ok (i + 1 + length x, s)"
proof -
  obtain a z where x: "x = a # z" using assms(2) by (cases x) (auto simp: name_ok_def)
  have "scan_name (i + 2 + MAX_ALLOWED_SYMBOL_LEN) stop (Suc (Suc i)) s = Ok (Suc (Suc i) + length z, s)"
    using assms x by (intro scan_name_text [where y = y]) (simp_all add: limit_defs name_ok_def)
  with x show ?thesis by simp
qed

lemma cstr_snoc: "NUL \<notin> set x \<Longrightarrow> cstr (x @ [NUL]) = x"
  by (induction x) (auto simp: cstr_def)

lemma name_bytes:
  assumes "holds (input s) i (x @ t)" and "name_ok x"
  shows "cstr (input_bytes i (i + length x) s) = x"
  using holds_bytes [of s i x] assms name_no_NUL [OF assms(2)] by (simp add: holds_append)

lemma name_alpha:
  assumes "holds (input s) i (x @ t)" and "name_ok x"
  shows "i \<le> MAX_INPUT_STR_LEN \<and> isalpha (of_char (input s i))"
  using assms by (cases x) (auto simp: name_ok_def)

subsection \<open>An index\<close>

lemma put_type_live [mem_simps]: "a \<noteq> NULL \<Longrightarrow> heap s a = Some (ArrTokB at) \<Longrightarrow>
    put_type (Some a) ty s = Ok (s\<lparr>heap := (heap s)(a \<mapsto> ArrTokB (at\<lparr>at_idx_type := Some ty\<rparr>))\<rparr>)"
  by (simp add: put_type_def mem_simps)

lemma put_tok_data_live [mem_simps]: "a \<noteq> NULL \<Longrightarrow> heap s a = Some (ArrTokB at) \<Longrightarrow>
    put_tok_data (Some a) d s = Ok (s\<lparr>heap := (heap s)(a \<mapsto> ArrTokB (at\<lparr>at_idx := d\<rparr>))\<rparr>)"
  by (simp add: put_tok_data_def mem_simps)

text \<open>
  What parsing an index into the fields of the array token at \<open>a\<close> does: it stores a representation
  of \<open>e\<close> whose blocks \<open>F\<close> are new, and changes nothing else.
\<close>

definition fills :: "addr \<Rightarrow> expr \<Rightarrow> addr list \<Rightarrow> ('h, 'r) st \<Rightarrow> ('h, 'r) st \<Rightarrow> bool" where
  "fills a e F s s' \<longleftrightarrow> (\<exists>at ty d. heap s a = Some (ArrTokB at) \<and>
     heap s' a = Some (ArrTokB \<lparr>at_idx = d, at_idx_type = Some ty, at_name = at_name at\<rparr>) \<and>
     rep (heap s') ty d e F) \<and> distinct F \<and> set F \<subseteq> {fresh s..<fresh s'} \<and> fresh s \<le> fresh s' \<and>
     heap_ok s' \<and> (\<forall>b. b \<notin> insert a (set F) \<longrightarrow> heap s' b = heap s b) \<and>
     s' = s\<lparr>heap := heap s', fresh := fresh s'\<rparr>"

lemma fills_input: "fills a e F s s' \<Longrightarrow> input s' = input s"
proof -
  assume "fills a e F s s'"
  then obtain h f where "s' = s\<lparr>heap := h, fresh := f\<rparr>" unfolding fills_def by blast
  then show "input s' = input s" by simp
qed

lemma parse_index_val:
  assumes "holds (input s) i (show_expr (EVal v) @ [CHR '']''])" and "index_ok (EVal v)"
    and "heap_ok s" and "heap s a = Some (ArrTokB at)"
  shows "\<exists>s'. parse_varval_token V i (Some a) True (Some n) s = Ok (True, Some n, s') \<and> fills a (EVal v) [] s s'"
proof -
  have v: "-99999999 \<le> sint v" "sint v \<le> 999999999" "0 \<le> sint v" using assms(2) by auto
  obtain c ds where c: "show_int (sint v) = c # ds" "isdigit (of_char c)"
    by (rule show_int_shape [OF v(1,2)]) (use v(3) in auto)
  have a: "a \<noteq> NULL" "a < fresh s" using heap_ok_live [OF assms(3,4)] by auto
  have h: "holds (input s) i (show_int (sint v) @ [CHR '']''])" using assms(1) by simp
  have i: "i \<le> MAX_INPUT_STR_LEN" "input s i = c" "c \<noteq> CHR ''$''" "c \<noteq> CHR ''-''" using h c by auto
  have stop: "input s (i + length (show_int (sint v))) = CHR '']''"
    using h by (simp add: holds_append)
  let ?s = "s\<lparr>heap := (heap s)(a \<mapsto> ArrTokB (at\<lparr>at_idx_type := Some INT_VAL_TOK, at_idx := Value v\<rparr>))\<rparr>"
  have "parse_varval_token V i (Some a) True (Some n) s = Ok (True, Some n, ?s)"
    using i c(2) scan_number [OF h _ v(1,2)] atoi_text [OF h _ v(1,2)] stop a(1) assms(4)
    by (subst parse_varval_token.simps) (simp add: Let_def input_at_def mem_simps)
  moreover have "fills a (EVal v) [] s ?s"
    using assms(3,4) a by (cases at) (simp add: fills_def heap_ok_def)
  ultimately show ?thesis by blast
qed

lemma parse_index_var:
  assumes "holds (input s) i (show_expr (EVar x) @ [CHR '']''])" and "index_ok (EVar x)" and "length x \<le> 128"
    and "heap_ok s" and "heap s a = Some (ArrTokB at)"
  shows "\<exists>s'. parse_varval_token V i (Some a) True (Some n) s = Ok (True, Some n, s') \<and>
    fills a (EVar x) [fresh s] s s'"
proof -
  have a: "a \<noteq> NULL" "a < fresh s" using heap_ok_live [OF assms(4,5)] by auto
  have x: "name_ok x" using assms(2) by simp
  have h: "holds (input s) i (CHR ''$'' # x @ [CHR '']''])" using assms(1) by simp
  then have i: "i \<le> MAX_INPUT_STR_LEN" "input s i = CHR ''$''" "holds (input s) (Suc i) (x @ [CHR '']''])"
    by auto
  have stop: "input s (i + 1 + length x) = CHR '']''"
    using i(3) by (simp add: holds_append)
  have bytes: "cstr (input_bytes (Suc i) (Suc (i + length x)) s) = x"
    using name_bytes [OF i(3) x] by simp
  let ?at = "at\<lparr>at_idx_type := Some INT_VAR_TOK\<rparr>"
  let ?s = "s\<lparr>heap := (heap s)(a \<mapsto> ArrTokB ?at, fresh s \<mapsto> StrB x,
      a \<mapsto> ArrTokB (?at\<lparr>at_idx := Ptr (fresh s)\<rparr>)), fresh := Suc (fresh s)\<rparr>"
  have "parse_varval_token V i (Some a) True (Some n) s = Ok (True, Some n, ?s)"
    using i name_alpha [OF i(3) x] scan_name_expr [OF h x assms(3)] stop a assms(5) bytes
    by (subst parse_varval_token.simps) (simp add: Let_def input_at_def mem_simps alloc_def input_bytes_def)
  moreover have "fills a (EVar x) [fresh s] s ?s"
    using assms(4,5) a by (cases at) (simp add: fills_def heap_ok_def)
  ultimately show ?thesis by blast
qed

definition arr_tok_st :: "string \<Rightarrow> ('h, 'r) st \<Rightarrow> ('h, 'r) st" where
  "arr_tok_st x s = s\<lparr>heap := (heap s)(fresh s \<mapsto> ArrTokB \<lparr>at_idx = Uninit, at_idx_type = None, at_name = Suc (fresh s)\<rparr>,
     Suc (fresh s) \<mapsto> StrB x), fresh := Suc (Suc (fresh s))\<rparr>"

lemma new_arr_tok_eq:
  assumes "holds (input s) i (CHR ''$'' # x @ t)" and "name_ok x" and "heap_ok s"
  shows "new_arr_tok i (i + 1 + length x) s = Ok (fresh s, arr_tok_st x s)"
proof -
  have "cstr (input_bytes (Suc i) (Suc (i + length x)) s) = x"
    using name_bytes [of s "Suc i" x t] assms(1,2) by simp
  moreover have "fresh s \<noteq> NULL" using assms(3) by (simp add: heap_ok_def)
  ultimately show ?thesis
    by (simp add: new_arr_tok_def alloc_def Let_def input_bytes_def mem_simps arr_tok_st_def fun_upd_twist)
qed

lemma fills_arr:
  assumes ok: "heap_ok s" and at: "heap s a = Some (ArrTokB at)"
    and s1: "s1 = (arr_tok_st x s)\<lparr>heap := (heap (arr_tok_st x s))(a \<mapsto> ArrTokB (at\<lparr>at_idx_type := Some INT_ARR_TOK\<rparr>))\<rparr>"
    and f: "fills (fresh s) e F s1 s2"
  shows "heap s2 a = Some (ArrTokB (at\<lparr>at_idx_type := Some INT_ARR_TOK\<rparr>))"
    "fills a (EArr x e) (fresh s # Suc (fresh s) # F) s
      (s2\<lparr>heap := (heap s2)(a \<mapsto> ArrTokB (at\<lparr>at_idx_type := Some INT_ARR_TOK, at_idx := Ptr (fresh s)\<rparr>))\<rparr>)"
proof -
  have a: "a \<noteq> NULL" "a < fresh s" using heap_ok_live [OF ok at] by auto
  have f1: "fresh s1 = Suc (Suc (fresh s))" "heap s1 a = Some (ArrTokB (at\<lparr>at_idx_type := Some INT_ARR_TOK\<rparr>))"
    "heap s1 (Suc (fresh s)) = Some (StrB x)"
    "heap s1 (fresh s) = Some (ArrTokB \<lparr>at_idx = Uninit, at_idx_type = None, at_name = Suc (fresh s)\<rparr>)"
    using a by (simp_all add: s1 arr_tok_st_def)
  obtain ty d where s2: "heap s2 (fresh s) = Some (ArrTokB \<lparr>at_idx = d, at_idx_type = Some ty, at_name = Suc (fresh s)\<rparr>)"
      "rep (heap s2) ty d e F" "distinct F" "set F \<subseteq> {Suc (Suc (fresh s))..<fresh s2}" "Suc (Suc (fresh s)) \<le> fresh s2"
      "heap_ok s2" "\<And>b. b \<notin> insert (fresh s) (set F) \<Longrightarrow> heap s2 b = heap s1 b"
      "s2 = s1\<lparr>heap := heap s2, fresh := fresh s2\<rparr>"
    using f by (fastforce simp: fills_def f1)
  have nF: "Suc (fresh s) \<notin> set F" "a \<notin> set F"
    using s2(4) a by fastforce+
  then have keep: "heap s2 (Suc (fresh s)) = Some (StrB x)" "heap s2 a = heap s1 a"
    using s2(7) [of "Suc (fresh s)"] s2(7) [of a] a f1 by auto
  show "heap s2 a = Some (ArrTokB (at\<lparr>at_idx_type := Some INT_ARR_TOK\<rparr>))"
    using keep f1 by simp
  let ?h = "(heap s2)(a \<mapsto> ArrTokB (at\<lparr>at_idx_type := Some INT_ARR_TOK, at_idx := Ptr (fresh s)\<rparr>))"
  have "rep ?h ty d e F"
    using s2(2,4) a by (intro rep_cong [OF s2(2)]) auto
  moreover have "?h b = heap s b" if "b \<notin> insert a (set (fresh s # Suc (fresh s) # F))" for b
    using s2(7) [of b] that by (simp add: s1 arr_tok_st_def)
  moreover have "s2\<lparr>heap := ?h\<rparr> = s\<lparr>heap := ?h, fresh := fresh s2\<rparr>"
    by (subst s2(8)) (simp add: s1 arr_tok_st_def)
  moreover have "heap_ok (s2\<lparr>heap := ?h\<rparr>)"
    using s2(5,6) a by (simp add: heap_ok_def)
  moreover have "fresh s \<noteq> NULL" using ok by (simp add: heap_ok_def)
  ultimately show "fills a (EArr x e) (fresh s # Suc (fresh s) # F) s (s2\<lparr>heap := ?h\<rparr>)"
    using s2(1,3,4,5) keep a at by (cases at) (auto simp: fills_def)
qed

lemma show_expr_length: "length x < length (show_expr (EArr x e))" "length (show_expr e) < length (show_expr (EArr x e))"
  by simp_all

lemma parse_index:
  assumes "holds (input s) i (show_expr e @ [CHR '']''])" and "index_ok e" and "length (show_expr e) \<le> 128"
    and "heap_ok s" and "heap s a = Some (ArrTokB at)"
  shows "\<exists>s' F. parse_varval_token V i (Some a) True (Some n) s = Ok (True, Some (n + word_of_nat (edepth e)), s') \<and>
    fills a e F s s'"
  using assms
proof (induction e arbitrary: i s a at n)
  case (EVal v)
  then show ?case using parse_index_val [of s i v a at V n] by auto
next
  case (EVar x)
  then show ?case using parse_index_var [of s i x a at V n] by auto
next
  case (EArr x e)
  note h = EArr.prems(1) and ok = EArr.prems(4) and at = EArr.prems(5)
  have a: "a \<noteq> NULL" "a < fresh s" using heap_ok_live [OF ok at] by auto
  have x: "name_ok x" "index_ok e" "length x \<le> 128" using EArr.prems(2,3) by auto
  have hx: "holds (input s) i (CHR ''$'' # x @ [CHR ''[''])"
    and he: "holds (input s) (i + 1 + length x + 1) (show_expr e @ [CHR '']''])"
    using h holds_append [of "input s" i "CHR ''$'' # x @ [CHR ''['']" "(show_expr e @ [CHR '']'']) @ [CHR '']'']"]
    by (simp_all add: holds_append del: holds.simps) (simp add: holds_append)
  have i: "i \<le> MAX_INPUT_STR_LEN" "input s i = CHR ''$''" "holds (input s) (Suc i) (x @ [CHR ''[''])"
    "input s (i + 1 + length x) = CHR ''[''"
    using hx by (auto simp: holds_append)
  let ?s1 = "(arr_tok_st x s)\<lparr>heap := (heap (arr_tok_st x s))(a \<mapsto> ArrTokB (at\<lparr>at_idx_type := Some INT_ARR_TOK\<rparr>))\<rparr>"
  have f1: "fresh s \<noteq> NULL" "input ?s1 = input s" "heap_ok ?s1"
    "heap ?s1 (fresh s) = Some (ArrTokB \<lparr>at_idx = Uninit, at_idx_type = None, at_name = Suc (fresh s)\<rparr>)"
    "heap (arr_tok_st x s) a = Some (ArrTokB at)"
    using a ok at by (auto simp: arr_tok_st_def heap_ok_def)
  obtain s2 F where s2: "parse_varval_token V (i + 1 + length x + 1) (Some (fresh s)) True (Some (n + 1)) ?s1 =
      Ok (True, Some (n + 1 + word_of_nat (edepth e)), s2)" "fills (fresh s) e F ?s1 s2"
    using EArr.IH [OF _ x(2) _ f1(3,4), of "i + 1 + length x + 1" "n + 1"] he EArr.prems(3) f1(2) by auto
  let ?s3 = "s2\<lparr>heap := (heap s2)(a \<mapsto> ArrTokB (at\<lparr>at_idx_type := Some INT_ARR_TOK, at_idx := Ptr (fresh s)\<rparr>))\<rparr>"
  have f: "heap s2 a = Some (ArrTokB (at\<lparr>at_idx_type := Some INT_ARR_TOK\<rparr>))"
    "fills a (EArr x e) (fresh s # Suc (fresh s) # F) s ?s3"
    by (rule fills_arr [OF ok at refl s2(2)])+
  have "parse_varval_token V i (Some a) True (Some n) s = Ok (True, Some (n + 1 + word_of_nat (edepth e)), ?s3)"
    using i name_alpha [OF i(3) x(1)] scan_name_expr [OF hx x(1,3), of "CHR '']''"] new_arr_tok_eq [OF hx x(1) ok]
      s2(1) f(1) f1(5) a(1)
    by (subst parse_varval_token.simps) (simp add: Let_def input_at_def mem_simps)
  then show ?case using f(2) by (auto simp: add.assoc add.commute)
qed

subsection \<open>A whole word\<close>

text \<open>The scanner appended the token \<open>tk\<close>, which stands for \<open>e\<close> and owns the new blocks \<open>F\<close>.\<close>

definition adds_tok :: "('r \<Rightarrow> bool) \<Rightarrow> ('r \<Rightarrow> addr list) \<Rightarrow> expr \<Rightarrow> addr \<Rightarrow> addr list \<Rightarrow>
    ('h, 'r) st \<Rightarrow> ('h, 'r) st \<Rightarrow> bool" where
  "adds_tok rinv rlist e tk F s s' \<longleftrightarrow>
     (\<exists>t. heap s' tk = Some (TokB t) \<and> rep (heap s') (tok_type t) (tok_data t) e F) \<and>
     distinct (tk # F) \<and> set (tk # F) \<subseteq> {fresh s..<fresh s'} \<and> heap_ok s' \<and>
     (\<forall>b. b \<notin> set (tk # F) \<longrightarrow> heap s' b = heap s b) \<and>
     s' = s\<lparr>heap := heap s', fresh := fresh s', translated_line := translated_line s'\<rparr> \<and>
     rinv (translated_line s') \<and> rlist (translated_line s') = rlist (translated_line s) @ [tk]"

lemma closing_digits: "list_all (\<lambda>a. isdigit (of_char a)) ds \<Longrightarrow> CHR '']'' \<notin> set ds \<and> NUL \<notin> set ds"
  by (induction ds) (auto)

lemma closing_name: "name_ok x \<Longrightarrow> CHR '']'' \<notin> set x \<and> NUL \<notin> set x"
proof -
  have "list_all (\<lambda>a. isalnum (of_char a)) x \<Longrightarrow> CHR '']'' \<notin> set x \<and> NUL \<notin> set x"
    by (induction x) auto
  then show "name_ok x \<Longrightarrow> CHR '']'' \<notin> set x \<and> NUL \<notin> set x"
    by (simp add: name_ok_def)
qed

lemma closing_int: "CHR '']'' \<notin> set (show_int i) \<and> NUL \<notin> set (show_int i)"
  using closing_digits [of "show_nat (nat i)"] closing_digits [of "show_nat (nat (- i))"]
    show_nat_digits [of "nat i"] show_nat_digits [of "nat (- i)"]
  by (simp add: show_int_def)

lemma closing_count: "index_ok e \<Longrightarrow> count_list (show_expr e) (CHR '']'') = edepth e \<and> NUL \<notin> set (show_expr e)"
proof (induction e)
  case (EVal v)
  then show ?case using closing_int [of "sint v"] by (simp add: count_list_0_iff)
next
  case (EVar x)
  then show ?case using closing_name [of x] by (simp add: count_list_0_iff)
next
  case (EArr x e)
  then show ?case using closing_name [of x] by (simp add: count_list_0_iff [of x])
qed

context voids_lib
begin

lemma write_token_ok:
  assumes "rinv (translated_line s)"
  obtains r where "write_token V t s = Ok (s\<lparr>translated_line := r\<rparr>)" "rinv r"
    "rlist r = rlist (translated_line s) @ [t]"
proof (cases "length (rlist (translated_line s)) < rb_size V (translated_line s)")
  case True
  then show thesis
    using write_room [OF assms True, of t] that by (auto simp: write_token_def)
next
  case False
  let ?r = "translated_line s"
  have w: "rb_write V ?r t = (?r, VDS_BUFFER_FULL)"
    using write_full [OF assms] False by simp
  obtain r1 where r1: "rb_resize V ?r (rb_size V ?r + DEFAULT_TRANSLATED_LINE_LEN) = (r1, VDS_SUCCESS)" "rinv r1"
      "rlist r1 = rlist ?r" "rb_size V r1 = rb_size V ?r + DEFAULT_TRANSLATED_LINE_LEN"
    using resize [OF assms, of "rb_size V ?r + DEFAULT_TRANSLATED_LINE_LEN"] by (auto simp: limit_defs)
  have "length (rlist r1) < rb_size V r1"
    using size_bound [OF assms] r1 by (simp add: limit_defs)
  then obtain r2 where "rb_write V r1 t = (r2, VDS_SUCCESS)" "rinv r2" "rlist r2 = rlist ?r @ [t]"
    using write_room [OF r1(2), of t] r1(3) by auto
  then show thesis
    using that w r1(1) by (simp add: write_token_def)
qed

lemma add_token_ok:
  fixes s :: "('h, 'r) st"
  assumes ok: "heap_ok s" and r: "rinv (translated_line s)"
    and d: "\<And>s1 :: ('h, 'r) st. fresh s1 = Suc (fresh s) \<Longrightarrow> input s1 = input s \<Longrightarrow>
      new_tok_data src v n ty code s1 = Ok (d, m, s1\<lparr>heap := heap s1 ++ h, fresh := f\<rparr>)"
    and h: "dom h \<subseteq> {Suc (fresh s)..<f}" "Suc (fresh s) \<le> f"
  obtains r' t where "add_new_token V src v n ty code s = Ok (s\<lparr>heap := ((heap s)(fresh s \<mapsto> TokB t)) ++ h, fresh := f,
      translated_line := r'\<rparr>)" "rinv r'" "rlist r' = rlist (translated_line s) @ [fresh s]"
    "tok_type t = ty" "tok_data t = d"
    "heap_ok (s\<lparr>heap := ((heap s)(fresh s \<mapsto> TokB t)) ++ h, fresh := f, translated_line := r'\<rparr>)"
    "tok_offset t = (if ty = LABEL_TOK then fpos s else 0)"
proof -
  have f: "fresh s \<noteq> NULL" "fresh s \<notin> dom h" using ok h by (auto simp: heap_ok_def)
  let ?new = "\<lparr>tok_data = Uninit, tok_len = 0, tok_type = ty, tok_line = line s, tok_column = column s,
      tok_prev_col = prev_col s, tok_offset = 0\<rparr>"
  let ?t = "?new\<lparr>tok_data := d, tok_len := m, tok_offset := (if ty = LABEL_TOK then fpos s else 0)\<rparr>"
  let ?s1 = "s\<lparr>heap := (heap s)(fresh s \<mapsto> TokB ?new), fresh := Suc (fresh s)\<rparr>"
  let ?s2 = "s\<lparr>heap := ((heap s)(fresh s \<mapsto> TokB ?t)) ++ h, fresh := f\<rparr>"
  have h0: "h (fresh s) = None" using f(2) by blast
  have "((heap s)(fresh s \<mapsto> TokB ?new) ++ h)(fresh s \<mapsto> TokB ?t) = ((heap s)(fresh s \<mapsto> TokB ?t)) ++ h"
    using h0 by (auto simp: fun_eq_iff map_add_def split: option.splits)
  then have st: "store (fresh s) (TokB ?t) (?s1\<lparr>heap := heap ?s1 ++ h, fresh := f\<rparr>) = Ok ?s2"
    using f(1) h0 by (subst store_live [where b' = "TokB ?new"]) (simp_all add: map_add_def)
  obtain r' where r': "write_token V (fresh s) ?s2 = Ok (?s2\<lparr>translated_line := r'\<rparr>)" "rinv r'"
      "rlist r' = rlist (translated_line s) @ [fresh s]"
    by (rule write_token_ok [of ?s2 "fresh s"]) (use r in auto)
  have ok': "heap_ok (s\<lparr>heap := ((heap s)(fresh s \<mapsto> TokB ?t)) ++ h, fresh := f, translated_line := r'\<rparr>)"
  proof -
    have "h NULL = None" and "\<And>b. f \<le> b \<Longrightarrow> h b = None"
      using h(1) by (auto simp: domIff subset_iff)
    then show ?thesis
      using ok h(2) by (auto simp: heap_ok_def map_add_def)
  qed
  have d1: "new_tok_data src v n ty code ?s1 = Ok (d, m, ?s1\<lparr>heap := heap ?s1 ++ h, fresh := f\<rparr>)"
    by (rule d) simp_all
  have "add_new_token V src v n ty code s = Ok (s\<lparr>heap := ((heap s)(fresh s \<mapsto> TokB ?t)) ++ h, fresh := f,
      translated_line := r'\<rparr>)"
    using d1 st r'(1) by (cases "ty = LABEL_TOK") (simp_all add: add_new_token_def alloc_def Let_def)
  then show thesis
    by (rule that [OF _ r'(2,3) _ _ ok']) simp_all
qed

lemma parse_value:
  assumes h: "holds (input s) 0 (show_expr e @ [NUL])" and e: "expr_ok e" "length (show_expr e) \<le> 128"
    and ok: "heap_ok s" and r: "rinv (translated_line s)"
  shows "\<exists>s' tk F. parse_varval_token V 0 None False None s = Ok (True, None, s') \<and>
    adds_tok rinv rlist e tk F s s'"
proof (cases e)
  case (EVal v)
  then have v: "-99999999 \<le> sint v" "sint v \<le> 999999999" using e(1) by auto
  obtain c ds where c: "show_int (sint v) = c # ds" "isdigit (of_char c) \<or> c = CHR ''-''"
    by (rule show_int_shape [OF v]) (auto split: if_splits)
  have h: "holds (input s) 0 (show_int (sint v) @ [NUL])" using h EVal by simp
  have i: "input s 0 = c" "c \<noteq> CHR ''$''" using h c by auto
  have stop: "input s (length (show_int (sint v))) = NUL"
    using h by (simp add: holds_append)
  have d: "new_tok_data NoPtr v 0 INT_VAL_TOK 0 s1 = Ok (Value v, 0, s1\<lparr>heap := heap s1 ++ Map.empty, fresh := Suc (fresh s)\<rparr>)"
    if "fresh s1 = Suc (fresh s)" for s1 :: "('h, 'r) st"
    using that [symmetric] by (simp add: new_tok_data_def)
  obtain r' t where t: "add_new_token V NoPtr v 0 INT_VAL_TOK 0 s = Ok (s\<lparr>heap := ((heap s)(fresh s \<mapsto> TokB t)) ++ Map.empty,
      fresh := Suc (fresh s), translated_line := r'\<rparr>)" "rinv r'" "rlist r' = rlist (translated_line s) @ [fresh s]"
      "tok_type t = INT_VAL_TOK" "tok_data t = Value v"
      "heap_ok (s\<lparr>heap := ((heap s)(fresh s \<mapsto> TokB t)) ++ Map.empty, fresh := Suc (fresh s), translated_line := r'\<rparr>)"
    by (rule add_token_ok [OF ok r d]) simp_all
  let ?s = "s\<lparr>heap := (heap s)(fresh s \<mapsto> TokB t), fresh := Suc (fresh s), translated_line := r'\<rparr>"
  have "parse_varval_token V 0 None False None s = Ok (True, None, ?s)"
    using i c(2) scan_number [OF h _ v] atoi_text [OF h _ v] stop t(1)
    by (subst parse_varval_token.simps)
      (auto simp: Let_def input_at_def put_type_def put_tok_data_def)
  moreover have "adds_tok rinv rlist e (fresh s) [] s ?s"
    using t EVal by (simp add: adds_tok_def)
  ultimately show ?thesis by blast
next
  case (EVar x)
  then have x: "name_ok x" "length x \<le> 128" using e by auto
  have h: "holds (input s) 0 (CHR ''$'' # x @ [NUL])" using h EVar by simp
  then have i: "input s 0 = CHR ''$''" "holds (input s) (Suc 0) (x @ [NUL])" by auto
  have stop: "input s (Suc (length x)) = NUL" "Suc (length x) \<le> MAX_INPUT_STR_LEN"
    using i(2) by (simp_all add: holds_append)
  have bytes: "cstr (input_bytes (Suc 0) (Suc (length x)) s) = x"
    using name_bytes [OF i(2) x(1)] by simp
  have "input_bytes (Suc 0) (Suc (Suc (length x))) s = x @ [NUL]"
    using holds_bytes [OF i(2)] by simp
  then have bytes: "cstr (input_bytes (Suc 0) (Suc (Suc (length x))) s) = x"
    using name_no_NUL [OF x(1)] by (simp add: cstr_snoc)
  have d: "new_tok_data (FromInput 1) 0 (Suc (length x)) INT_VAR_TOK 0 s1 = Ok (Ptr (Suc (fresh s)), Suc (length x),
      s1\<lparr>heap := heap s1 ++ [Suc (fresh s) \<mapsto> StrB x], fresh := Suc (Suc (fresh s))\<rparr>)"
    if "fresh s1 = Suc (fresh s)" "input s1 = input s" for s1 :: "('h, 'r) st"
    using that bytes stop by (simp add: new_tok_data_def alloc_def input_bytes_def)
  obtain r' t where t: "add_new_token V (FromInput 1) 0 (Suc (length x)) INT_VAR_TOK 0 s =
      Ok (s\<lparr>heap := ((heap s)(fresh s \<mapsto> TokB t)) ++ [Suc (fresh s) \<mapsto> StrB x],
      fresh := Suc (Suc (fresh s)), translated_line := r'\<rparr>)" "rinv r'" "rlist r' = rlist (translated_line s) @ [fresh s]"
      "tok_type t = INT_VAR_TOK" "tok_data t = Ptr (Suc (fresh s))"
      "heap_ok (s\<lparr>heap := ((heap s)(fresh s \<mapsto> TokB t)) ++ [Suc (fresh s) \<mapsto> StrB x], fresh := Suc (Suc (fresh s)), translated_line := r'\<rparr>)"
    by (rule add_token_ok [OF ok r d]) simp_all
  let ?s = "s\<lparr>heap := ((heap s)(fresh s \<mapsto> TokB t)) ++ [Suc (fresh s) \<mapsto> StrB x], fresh := Suc (Suc (fresh s)), translated_line := r'\<rparr>"
  have "parse_varval_token V 0 None False None s = Ok (True, None, ?s)"
    using i(1) name_alpha [OF i(2) x(1)] scan_name_expr [OF h x] stop t(1)
    by (subst parse_varval_token.simps)
      (simp add: Let_def input_at_def put_type_def put_tok_data_def)
  moreover have "adds_tok rinv rlist e (fresh s) [Suc (fresh s)] s ?s"
    using t EVar by (simp add: adds_tok_def)
  ultimately show ?thesis by blast
next
  case (EArr x e')
  have x: "name_ok x" "index_ok e'" "length x \<le> 128" "length (show_expr e') \<le> 128" using e EArr by auto
  have h: "holds (input s) 0 ((CHR ''$'' # x @ [CHR ''['']) @ show_expr e' @ [CHR '']''] @ [NUL])"
    using h EArr by simp
  then have hx: "holds (input s) 0 (CHR ''$'' # x @ [CHR ''[''])"
    and he: "holds (input s) (Suc (Suc (length x))) (show_expr e' @ [CHR '']''])"
    and hc: "holds (input s) (Suc (Suc (length x))) ((show_expr e' @ [CHR '']'']) @ [NUL])"
    unfolding holds_append by simp_all
  have i: "input s 0 = CHR ''$''" "holds (input s) (Suc 0) (x @ [CHR ''[''])"
    "input s (Suc (length x)) = CHR ''[''"
    using hx by (auto simp: holds_append)
  let ?s1 = "arr_tok_st x s"
  have s1: "heap_ok ?s1" "rinv (translated_line ?s1)" "fresh ?s1 = Suc (Suc (fresh s))" "translated_line ?s1 = translated_line s"
    "heap ?s1 (fresh s) = Some (ArrTokB \<lparr>at_idx = Uninit, at_idx_type = None, at_name = Suc (fresh s)\<rparr>)"
    "heap ?s1 (Suc (fresh s)) = Some (StrB x)" "input ?s1 = input s"
    using ok r by (auto simp: arr_tok_st_def heap_ok_def)
  have d: "new_tok_data (ArrPtr (fresh s)) 0 0 INT_ARR_TOK 0 s' = Ok (Ptr (fresh s), 0,
      s'\<lparr>heap := heap s' ++ Map.empty, fresh := Suc (fresh ?s1)\<rparr>)"
    if "fresh s' = Suc (fresh ?s1)" for s' :: "('h, 'r) st"
    using that [symmetric] by (simp add: new_tok_data_def)
  obtain r' t where t: "add_new_token V (ArrPtr (fresh s)) 0 0 INT_ARR_TOK 0 ?s1 =
      Ok (?s1\<lparr>heap := ((heap ?s1)(fresh ?s1 \<mapsto> TokB t)) ++ Map.empty, fresh := Suc (fresh ?s1), translated_line := r'\<rparr>)"
      "rinv r'" "rlist r' = rlist (translated_line ?s1) @ [fresh ?s1]" "tok_type t = INT_ARR_TOK" "tok_data t = Ptr (fresh s)"
      "heap_ok (?s1\<lparr>heap := ((heap ?s1)(fresh ?s1 \<mapsto> TokB t)) ++ Map.empty, fresh := Suc (fresh ?s1), translated_line := r'\<rparr>)"
    by (rule add_token_ok [OF s1(1,2) d]) simp_all
  let ?s2 = "?s1\<lparr>heap := (heap ?s1)(fresh ?s1 \<mapsto> TokB t), fresh := Suc (fresh ?s1), translated_line := r'\<rparr>"
  have arr: "heap ?s2 (fresh s) = Some (ArrTokB \<lparr>at_idx = Uninit, at_idx_type = None, at_name = Suc (fresh s)\<rparr>)"
    using s1(3,5) by simp
  obtain s3 F where s3: "parse_varval_token V (Suc (Suc (length x))) (Some (fresh s)) True (Some 1) ?s2 =
      Ok (True, Some (1 + word_of_nat (edepth e')), s3)" "fills (fresh s) e' F ?s2 s3"
    using parse_index [OF _ x(2,4) _ arr, of "Suc (Suc (length x))" V 1] he t(6) s1(7) by auto
  have inp: "input s3 = input s" using fills_input [OF s3(2)] s1(7) by simp
  obtain ty d where f: "heap s3 (fresh s) = Some (ArrTokB \<lparr>at_idx = d, at_idx_type = Some ty, at_name = Suc (fresh s)\<rparr>)"
      "rep (heap s3) ty d e' F" "distinct F" "set F \<subseteq> {Suc (fresh ?s1)..<fresh s3}" "Suc (fresh ?s1) \<le> fresh s3" "heap_ok s3"
      "\<And>b. b \<notin> insert (fresh s) (set F) \<Longrightarrow> heap s3 b = heap ?s2 b" "s3 = ?s2\<lparr>heap := heap s3, fresh := fresh s3\<rparr>"
    using s3(2) arr unfolding fills_def by fastforce
  have cc: "count_closing (Suc (Suc (length x))) 0 s3 = Ok (1 + word_of_nat (edepth e'))"
    using count_closing_text [of s3 _ "show_expr e' @ [CHR '']'']" 0] hc inp closing_count [OF x(2)]
    by (simp add: add.commute)
  have "parse_varval_token V 0 None False None s = Ok (True, None, s3)"
    using i name_alpha [OF i(2) x(1)] scan_name_expr [OF hx x(1,3)] new_arr_tok_eq [OF hx x(1) ok] t(1) s3(1) cc
    by (subst parse_varval_token.simps) (simp add: Let_def input_at_def put_type_def put_tok_data_def)
  moreover have "adds_tok rinv rlist e (fresh ?s1) (fresh s # Suc (fresh s) # F) s s3"
  proof -
    have new: "fresh ?s1 \<notin> set F" "Suc (fresh s) \<notin> set F" "fresh s \<notin> set F"
      using f(4) s1(3) by fastforce+
    have keep: "heap s3 (fresh ?s1) = Some (TokB t)" "heap s3 (Suc (fresh s)) = Some (StrB x)"
      using f(7) [of "fresh ?s1"] f(7) [of "Suc (fresh s)"] new s1(3,6) by simp_all
    have "fresh s \<noteq> NULL" using ok by (simp add: heap_ok_def)
    then have rep: "rep (heap s3) (tok_type t) (tok_data t) e (fresh s # Suc (fresh s) # F)"
      using t(4,5) f(1,2) keep(2) EArr by simp
    have other: "heap s3 b = heap s b" if "b \<notin> set (fresh ?s1 # fresh s # Suc (fresh s) # F)" for b
      using f(7) [of b] that by (simp add: arr_tok_st_def)
    have tl: "translated_line s3 = r'"
      by (subst f(8)) simp
    have "s3 = s\<lparr>heap := heap s3, fresh := fresh s3, translated_line := r'\<rparr>"
      by (subst f(8)) (cases s, simp add: arr_tok_st_def)
    then have frame: "s3 = s\<lparr>heap := heap s3, fresh := fresh s3, translated_line := translated_line s3\<rparr>"
      using tl by simp
    have range: "set (fresh ?s1 # fresh s # Suc (fresh s) # F) \<subseteq> {fresh s..<fresh s3}"
      using f(4,5) s1(3) by fastforce
    show ?thesis
      unfolding adds_tok_def using keep(1) rep other frame tl range new f(3,6) t(2,3) s1(3,4) by auto
  qed
  ultimately show ?thesis by blast
qed

end

end
