(* ===== verification/Lines.thy ===== *)
theory Lines imports ParseValue Scanner begin

section \<open>Instruction lines as text, as tokens\<close>

text \<open>
  An item is what a token of the ring buffer stands for.  \<open>scans L s s'\<close> says that the scanner
  appended tokens for the items of \<open>L\<close>, in new blocks, and changed nothing else but its cursor.
\<close>

subsection \<open>Items\<close>

datatype item = IExpr expr | IIns instruction_id_e | ILab string | IStr string

fun item_rep :: "(addr \<Rightarrow> block option) \<Rightarrow> token_s \<Rightarrow> item \<Rightarrow> addr list \<Rightarrow> bool" where
  "item_rep h t (IExpr e) F \<longleftrightarrow> rep h (tok_type t) (tok_data t) e F"
| "item_rep h t (IIns i) F \<longleftrightarrow> tok_type t = INSTRUCTION_TOK \<and>
     tok_data t = Value (word_of_nat (ins_code i)) \<and> F = []"
| "item_rep h t (ILab x) F \<longleftrightarrow> tok_type t = LABEL_TOK \<and>
     (\<exists>a. tok_data t = Ptr a \<and> a \<noteq> NULL \<and> h a = Some (StrB x) \<and> F = [a])"
| "item_rep h t (IStr x) F \<longleftrightarrow> tok_type t = STRING_TOK \<and>
     (\<exists>a. tok_data t = Ptr a \<and> a \<noteq> NULL \<and> h a = Some (StrB x) \<and> F = [a])"

type_synonym toks = "(addr \<times> item \<times> addr list) list"

definition blocks :: "toks \<Rightarrow> addr list" where
  "blocks L = concat (map (\<lambda>(tk, it, F). tk # F) L)"

definition toks_rep :: "(addr \<Rightarrow> block option) \<Rightarrow> toks \<Rightarrow> bool" where
  "toks_rep h L \<longleftrightarrow> distinct (blocks L) \<and>
     (\<forall>(tk, it, F) \<in> set L. \<exists>t. h tk = Some (TokB t) \<and> item_rep h t it F)"

definition scans :: "('r \<Rightarrow> bool) \<Rightarrow> ('r \<Rightarrow> addr list) \<Rightarrow> toks \<Rightarrow> ('h, 'r) st \<Rightarrow> ('h, 'r) st \<Rightarrow> bool" where
  "scans rinv rlist L s s' \<longleftrightarrow> toks_rep (heap s') L \<and> set (blocks L) \<subseteq> {fresh s..<fresh s'} \<and>
     heap_ok s' \<and> fresh s \<le> fresh s' \<and> (\<forall>b. b \<notin> set (blocks L) \<longrightarrow> heap s' b = heap s b) \<and>
     rinv (translated_line s') \<and> rlist (translated_line s') = rlist (translated_line s) @ map fst L \<and>
     scan_frame s s'"

lemma blocks_simps [simp]: "blocks [] = []" "blocks ((tk, it, F) # L) = tk # F @ blocks L"
  "blocks (L @ M) = blocks L @ blocks M"
  by (simp_all add: blocks_def)

lemma item_rep_cong: "item_rep h t it F \<Longrightarrow> (\<And>a. a \<in> set F \<Longrightarrow> h' a = h a) \<Longrightarrow> item_rep h' t it F"
  by (cases it) (auto intro: rep_cong)

lemma toks_rep_cong:
  assumes "toks_rep h L" and "\<And>a. a \<in> set (blocks L) \<Longrightarrow> h' a = h a"
  shows "toks_rep h' L"
proof -
  have "\<exists>t. h' tk = Some (TokB t) \<and> item_rep h' t it F" if l: "(tk, it, F) \<in> set L" for tk it F
  proof -
    have sub: "tk \<in> set (blocks L)" "set F \<subseteq> set (blocks L)"
      using l by (auto simp: blocks_def)
    obtain t where "h tk = Some (TokB t)" "item_rep h t it F"
      using assms(1) l by (fastforce simp: toks_rep_def)
    then show ?thesis
      using sub assms(2) item_rep_cong [of h t it F h'] by auto
  qed
  then show ?thesis
    using assms(1) by (auto simp: toks_rep_def)
qed

lemma scans_Nil: "heap_ok s' \<Longrightarrow> rinv (translated_line s') \<Longrightarrow> heap s' = heap s \<Longrightarrow> fresh s' = fresh s \<Longrightarrow>
    translated_line s' = translated_line s \<Longrightarrow> scan_frame s s' \<Longrightarrow> scans rinv rlist [] s s'"
  by (simp add: scans_def toks_rep_def)

lemma scansD:
  assumes "scans rinv rlist L s s'"
  shows "toks_rep (heap s') L" "set (blocks L) \<subseteq> {fresh s..<fresh s'}" "heap_ok s'" "fresh s \<le> fresh s'"
    "\<And>b. b \<notin> set (blocks L) \<Longrightarrow> heap s' b = heap s b" "rinv (translated_line s')"
    "rlist (translated_line s') = rlist (translated_line s) @ map fst L" "scan_frame s s'"
  using assms by (simp_all add: scans_def)

lemma toks_rep_append:
  "toks_rep h L \<Longrightarrow> toks_rep h M \<Longrightarrow> set (blocks L) \<inter> set (blocks M) = {} \<Longrightarrow> toks_rep h (L @ M)"
  by (auto simp: toks_rep_def)

lemma scans_trans:
  assumes 1: "scans rinv rlist L s s1" and 2: "scans rinv rlist M s1 s2"
  shows "scans rinv rlist (L @ M) s s2"
proof -
  note D1 = scansD [OF 1] and D2 = scansD [OF 2]
  have dis: "a \<notin> set (blocks M)" if "a \<in> set (blocks L)" for a
    using that D1(2) D2(2) by fastforce
  have "toks_rep (heap s2) L"
    by (rule toks_rep_cong [OF D1(1)]) (rule D2(5), rule dis)
  then have "toks_rep (heap s2) (L @ M)"
    using dis by (intro toks_rep_append [OF _ D2(1)]) blast+
  moreover have "set (blocks (L @ M)) \<subseteq> {fresh s..<fresh s2}"
    using D1(2,4) D2(2,4) by fastforce
  moreover have "heap s2 b = heap s b" if "b \<notin> set (blocks (L @ M))" for b
    using D1(5) [of b] D2(5) [of b] that by simp
  ultimately show ?thesis
    using D1(4,7) D2(3,4,6,7) scan_frame_trans [OF D1(8) D2(8)] by (simp add: scans_def)
qed

lemma scans_adds:
  assumes "adds_tok rinv rlist e tk F s s'"
  shows "scans rinv rlist [(tk, IExpr e, F)] s s'" and "c_in s' = c_in s" "fpos s' = fpos s" "fbuf s' = fbuf s"
    "pstate s' = pstate s"
proof -
  obtain h f r where "s' = s\<lparr>heap := h, fresh := f, translated_line := r\<rparr>"
    using assms unfolding adds_tok_def by blast
  then show "c_in s' = c_in s" "fpos s' = fpos s" "fbuf s' = fbuf s" "pstate s' = pstate s"
    and "scans rinv rlist [(tk, IExpr e, F)] s s'"
    using assms by (auto simp: adds_tok_def scans_def toks_rep_def scan_frame_def)
qed

subsection \<open>The text of a line\<close>

definition gap :: "string \<Rightarrow> bool" where
  "gap bs \<longleftrightarrow> bs \<noteq> [] \<and> list_all blank bs \<and> CHR 0x0A \<notin> set bs"

text \<open>
  The arguments of an instruction, each behind a gap, then blanks and the newline.
\<close>

type_synonym args = "(string \<times> expr) list"

fun args_str :: "args \<Rightarrow> string \<Rightarrow> string" where
  "args_str [] bs = bs @ [CHR 0x0A]"
| "args_str ((g, e) # as) bs = g @ show_expr e @ args_str as bs"

definition blanks :: "string \<Rightarrow> bool" where
  "blanks bs \<longleftrightarrow> list_all blank bs \<and> CHR 0x0A \<notin> set bs"

lemma gap_blanks: "gap g \<Longrightarrow> blanks g"
  by (simp add: gap_def blanks_def)

definition args_ok :: "args \<Rightarrow> string \<Rightarrow> bool" where
  "args_ok as bs \<longleftrightarrow> blanks bs \<and> (\<forall>(g, e) \<in> set as. gap g \<and> expr_ok e \<and>
     length (show_expr e) < MAX_ALLOWED_SYMBOL_LEN)"

lemma args_str_blank: "args_ok as bs \<Longrightarrow> \<exists>x t. args_str as bs = x # t \<and> blank x"
proof (cases as)
  case Nil
  assume "args_ok as bs"
  with Nil show ?thesis by (cases bs) (auto simp: args_ok_def blanks_def isspace_def)
next
  case (Cons a as')
  assume "args_ok as bs"
  with Cons show ?thesis by (cases "fst a") (auto simp: args_ok_def gap_def)
qed

lemma nonblank_digits: "list_all (\<lambda>a. isdigit (of_char a)) ds \<Longrightarrow> list_all (\<lambda>x. \<not> blank x) ds"
  by (auto simp: list_all_iff isdigit_def isspace_def)

lemma nonblank_name: "list_all (\<lambda>a. isalnum (of_char a)) x \<Longrightarrow> list_all (\<lambda>x. \<not> blank x) x"
  by (force simp: list_all_iff isalnum_def isalpha_def isdigit_def isspace_def)

lemma show_nonblank: "index_ok e \<or> expr_ok e \<Longrightarrow> list_all (\<lambda>x. \<not> blank x) (show_expr e) \<and> show_expr e \<noteq> []"
proof (induction e)
  case (EVal v)
  then show ?case
    using show_nat_digits [of "nat (sint v)"] show_nat_digits [of "nat (- sint v)"]
      nonblank_digits [of "show_nat (nat (sint v))"] nonblank_digits [of "show_nat (nat (- sint v))"]
    by (simp add: show_int_def isspace_def)
next
  case (EVar x)
  then show ?case using nonblank_name [of x] by (simp add: name_ok_def isspace_def)
next
  case (EArr x e)
  then show ?case using nonblank_name [of x] by (simp add: name_ok_def isspace_def)
qed

subsection \<open>Scanning\<close>

fun is_var :: "expr \<Rightarrow> bool" where
  "is_var (EVal v) \<longleftrightarrow> False"
| "is_var e \<longleftrightarrow> True"

context voids_lib
begin

lemma scan_arg_text:
  assumes p: "pend s (g @ show_expr e @ x # r)" and g: "blanks g" and e: "expr_ok e" "length (show_expr e) < MAX_ALLOWED_SYMBOL_LEN"
    and x: "blank x" and ok: "heap_ok s" and rb: "rinv (translated_line s)" and first: "first \<longrightarrow> is_var e"
  obtains s' tk F where "scan_arg V ins first s = Ok (True, s')" "scans rinv rlist [(tk, IExpr e, F)] s s'"
    "pend s' (x # r)" "pstate s' = pstate s"
proof -
  let ?w = "show_expr e"
  let ?s1 = "(adv (length g + length ?w) s)\<lparr>input := put_word 0 ?w (input s)\<rparr>"
  have w: "list_all (\<lambda>x. \<not> blank x) ?w" "?w \<noteq> []"
    using show_nonblank [of e] e(1) by simp_all
  have nw: "get_next_word MAX_ALLOWED_SYMBOL_LEN True s = Ok (length ?w, ?s1)" "pend ?s1 (x # r)"
    using pend_word_any [OF p _ _ w(2,1) e(2) x, of True] g by (simp_all add: blanks_def limit_defs)
  have h: "holds (input ?s1) 0 (?w @ [NUL])"
    using holds_put_word [of 0 ?w] e(2) by (simp add: limit_defs)
  have ok1: "heap_ok ?s1" "rinv (translated_line ?s1)"
    using ok rb by (simp_all add: heap_ok_def text_simps)
  obtain s2 tk F where s2: "parse_varval_token V 0 None False None ?s1 = Ok (True, None, s2)"
      "adds_tok rinv rlist e tk F ?s1 s2"
    using parse_value [OF h e(1) _ ok1, of] e(2) by (auto simp: limit_defs)
  have hd: "input ?s1 0 = hd ?w"
    using w(2) by (cases ?w) (simp_all add: put_word_def)
  have nodigit: "first \<Longrightarrow> \<not> minus_or_digit (input ?s1 0)"
    using first hd by (cases e) (simp_all add: minus_or_digit_def)
  note sc = scans_adds [OF s2(2)]
  have frame1: "scans rinv rlist [] s ?s1"
    using ok1 by (intro scans_Nil) (simp_all add: text_simps scan_frame_adv)
  show thesis
  proof (rule that [of s2 tk F])
    show "scan_arg V ins first s = Ok (True, s2)"
      using nw(1) w(2) nodigit s2(1) by (auto simp: scan_arg_def)
    show "scans rinv rlist [(tk, IExpr e, F)] s s2"
      using scans_trans [OF frame1 sc(1)] by simp
    show "pend s2 (x # r)"
      using nw(2) sc(2,3,4) pend_cong [of s2 ?s1] by simp
    show "pstate s2 = pstate s"
      using sc(5) by (simp add: text_simps)
  qed
qed

lemma end_of_line_text:
  assumes p: "pend s (bs @ CHR 0x0A # r)" and bs: "blanks bs" and ok: "heap_ok s" and rb: "rinv (translated_line s)"
  shows "scans rinv rlist [] s (end_of_line ins s)" "pend (end_of_line ins s) (CHR 0x0A # r)"
    "pstate (end_of_line ins s) = pstate s"
proof -
  note nl = pend_newline [OF p] bs [unfolded blanks_def]
  have eq: "end_of_line ins s = adv (length bs) s"
    using nl by (simp add: end_of_line_def)
  have "heap_ok (adv (length bs) s)"
    using ok by (simp add: heap_ok_def text_simps)
  then show "scans rinv rlist [] s (end_of_line ins s)"
    unfolding eq using rb by (intro scans_Nil) (simp_all add: text_simps scan_frame_adv)
  show "pend (end_of_line ins s) (CHR 0x0A # r)"
    unfolding eq using nl by simp
  show "pstate (end_of_line ins s) = pstate s"
    unfolding eq by (simp add: text_simps)
qed

lemma scan_arg_step:
  assumes p: "pend s (args_str ((g, e) # as) bs @ r)" and a: "args_ok ((g, e) # as) bs"
    and ok: "heap_ok s" and rb: "rinv (translated_line s)" and first: "first \<longrightarrow> is_var e"
  obtains s' tk F where "scan_arg V ins first s = Ok (True, s')" "scans rinv rlist [(tk, IExpr e, F)] s s'"
    "pend s' (args_str as bs @ r)" "pstate s' = pstate s" "args_ok as bs" "heap_ok s'" "rinv (translated_line s')"
proof -
  have as: "args_ok as bs" using a by (simp add: args_ok_def)
  then obtain x t where x: "args_str as bs = x # t" "blank x"
    using args_str_blank by blast
  have "pend s (g @ show_expr e @ x # (t @ r))" "blanks g" "expr_ok e" "length (show_expr e) < MAX_ALLOWED_SYMBOL_LEN"
    using p a x gap_blanks by (auto simp: args_ok_def)
  from scan_arg_text [OF this x(2) ok rb first, where ins = ins]
  obtain s' tk F where s': "scan_arg V ins first s = Ok (True, s')" "scans rinv rlist [(tk, IExpr e, F)] s s'"
    "pend s' (x # t @ r)" "pstate s' = pstate s"
    by blast
  show thesis
    by (rule that [OF s'(1,2) _ s'(4) as]) (use s'(3) x(1) scansD [OF s'(2)] in simp_all)
qed

lemma scan_end:
  assumes "pend s (args_str [] bs @ r)" and "args_ok [] bs" and "heap_ok s" and "rinv (translated_line s)"
  shows "scans rinv rlist [] s (end_of_line ins s)" "pend (end_of_line ins s) (CHR 0x0A # r)"
    "pstate (end_of_line ins s) = pstate s"
  using end_of_line_text [of s bs r ins] assms by (simp_all add: args_ok_def)

lemma scan_set_text:
  assumes p: "pend s (args_str [(g1, e1), (g2, e2)] bs @ r)" and a: "args_ok [(g1, e1), (g2, e2)] bs"
    and v: "is_var e1" and ok: "heap_ok s" and rb: "rinv (translated_line s)"
  shows "\<exists>s' t1 F1 t2 F2. scan_set V ins s = Ok s' \<and>
    scans rinv rlist [(t1, IExpr e1, F1), (t2, IExpr e2, F2)] s s' \<and> pend s' (CHR 0x0A # r) \<and> pstate s' = pstate s"
proof -
  obtain s1 t1 F1 where s1: "scan_arg V ins True s = Ok (True, s1)" "scans rinv rlist [(t1, IExpr e1, F1)] s s1"
    "pend s1 (args_str [(g2, e2)] bs @ r)" "pstate s1 = pstate s" "args_ok [(g2, e2)] bs" "heap_ok s1"
    "rinv (translated_line s1)"
    by (rule scan_arg_step [OF p a ok rb, of True]) (use v in auto)
  obtain s2 t2 F2 where s2: "scan_arg V ins False s1 = Ok (True, s2)" "scans rinv rlist [(t2, IExpr e2, F2)] s1 s2"
    "pend s2 (args_str [] bs @ r)" "pstate s2 = pstate s1" "args_ok [] bs" "heap_ok s2" "rinv (translated_line s2)"
    by (rule scan_arg_step [OF s1(3,5,6,7), of False]) auto
  note e = scan_end [OF s2(3,5,6,7)]
  have "scans rinv rlist ([(t1, IExpr e1, F1)] @ [(t2, IExpr e2, F2)] @ []) s (end_of_line ins s2)"
    by (intro scans_trans [OF s1(2)] scans_trans [OF s2(2)] e(1))
  then show ?thesis
    using s1(1,4) s2(1,4) e(2,3) by (auto simp: scan_set_def)
qed

lemma scan_primitive_op_text:
  assumes p: "pend s (args_str [(g1, e1), (g2, e2), (g3, e3)] bs @ r)"
    and a: "args_ok [(g1, e1), (g2, e2), (g3, e3)] bs"
    and v: "is_var e1" and ok: "heap_ok s" and rb: "rinv (translated_line s)"
  shows "\<exists>s' t1 F1 t2 F2 t3 F3. scan_primitive_op V ins s = Ok s' \<and>
    scans rinv rlist [(t1, IExpr e1, F1), (t2, IExpr e2, F2), (t3, IExpr e3, F3)] s s' \<and>
    pend s' (CHR 0x0A # r) \<and> pstate s' = pstate s"
proof -
  obtain s1 t1 F1 where s1: "scan_arg V ins True s = Ok (True, s1)" "scans rinv rlist [(t1, IExpr e1, F1)] s s1"
    "pend s1 (args_str [(g2, e2), (g3, e3)] bs @ r)" "pstate s1 = pstate s" "args_ok [(g2, e2), (g3, e3)] bs"
    "heap_ok s1" "rinv (translated_line s1)"
    by (rule scan_arg_step [OF p a ok rb, of True]) (use v in auto)
  obtain s2 t2 F2 where s2: "scan_arg V ins False s1 = Ok (True, s2)" "scans rinv rlist [(t2, IExpr e2, F2)] s1 s2"
    "pend s2 (args_str [(g3, e3)] bs @ r)" "pstate s2 = pstate s1" "args_ok [(g3, e3)] bs" "heap_ok s2"
    "rinv (translated_line s2)"
    by (rule scan_arg_step [OF s1(3,5,6,7), of False]) auto
  obtain s3 t3 F3 where s3: "scan_arg V ins False s2 = Ok (True, s3)" "scans rinv rlist [(t3, IExpr e3, F3)] s2 s3"
    "pend s3 (args_str [] bs @ r)" "pstate s3 = pstate s2" "args_ok [] bs" "heap_ok s3" "rinv (translated_line s3)"
    by (rule scan_arg_step [OF s2(3,5,6,7), of False]) auto
  note e = scan_end [OF s3(3,5,6,7)]
  have "scans rinv rlist ([(t1, IExpr e1, F1)] @ [(t2, IExpr e2, F2)] @ [(t3, IExpr e3, F3)] @ []) s (end_of_line ins s3)"
    by (intro scans_trans [OF s1(2)] scans_trans [OF s2(2)] scans_trans [OF s3(2)] e(1))
  moreover have "scan_primitive_op V ins s = Ok (end_of_line ins s3)"
    using s1(1) s2(1) s3(1) by (simp add: scan_primitive_op_def)
  moreover have "pstate (end_of_line ins s3) = pstate s"
    using s1(4) s2(4) s3(4) e(3) by simp
  ultimately show ?thesis
    using e(2) [of ins] by (simp only: append.simps) blast
qed

end

subsection \<open>The name of the instruction\<close>

text \<open>What \<open>lexer_init\<close> builds: the names of the instructions with their codes, and no other key.\<close>

definition itab_ok :: "('h \<Rightarrow> bool) \<Rightarrow> ('h \<Rightarrow> pairs) \<Rightarrow> 'h \<Rightarrow> bool" where
  "itab_ok hinv hmap h \<longleftrightarrow> hinv h \<and> hmap h = map_of (map (\<lambda>i. (name_str i, ins_code i, ins_code i)) instructions)"

lemma name_str_inj [simp]: "name_str i = name_str j \<longleftrightarrow> i = j"
  by (cases i; cases j) simp_all

lemma itab_name: "map_of (map (\<lambda>i. (name_str i, ins_code i, ins_code i)) instructions) (name_str i) =
    Some (ins_code i, ins_code i)"
  by (cases i) (simp_all add: instructions_def)

lemma ins_code_lt: "ins_code i < length instructions" "instructions ! ins_code i = i"
  by (cases i; simp add: instructions_def)+

lemma name_facts: "list_all (\<lambda>x. \<not> blank x) (name_str i)" "name_str i \<noteq> []"
  "length (name_str i) < MAX_ALLOWED_SYMBOL_LEN" "NUL \<notin> set (name_str i)"
  by (cases i; simp add: isspace_def limit_defs)+

lemma name_no_label:
  assumes "holds (input s) 0 (name_str i @ [NUL])"
  shows "is_valid_label n s = (False, s)"
  using assms by (cases i) (simp_all add: is_valid_label_def)

context voids_lib
begin

lemma add_ins_token:
  fixes s :: "('h, 'r) st"
  assumes ok: "heap_ok s" and rb: "rinv (translated_line s)"
  obtains s' where "add_new_token V NoPtr 0 0 INSTRUCTION_TOK (ins_code i) s = Ok s'"
    "scans rinv rlist [(fresh s, IIns i, [])] s s'" "c_in s' = c_in s" "fpos s' = fpos s" "fbuf s' = fbuf s"
    "pstate s' = pstate s"
proof -
  have d: "new_tok_data NoPtr 0 0 INSTRUCTION_TOK (ins_code i) s1 = Ok (Value (word_of_nat (ins_code i)), 0,
      s1\<lparr>heap := heap s1 ++ Map.empty, fresh := Suc (fresh s)\<rparr>)"
    if "fresh s1 = Suc (fresh s)" for s1 :: "('h, 'r) st"
    using that [symmetric] by (simp add: new_tok_data_def)
  obtain r' t where t: "add_new_token V NoPtr 0 0 INSTRUCTION_TOK (ins_code i) s =
      Ok (s\<lparr>heap := ((heap s)(fresh s \<mapsto> TokB t)) ++ Map.empty, fresh := Suc (fresh s), translated_line := r'\<rparr>)" "rinv r'"
      "rlist r' = rlist (translated_line s) @ [fresh s]" "tok_type t = INSTRUCTION_TOK"
      "tok_data t = Value (word_of_nat (ins_code i))"
      "heap_ok (s\<lparr>heap := ((heap s)(fresh s \<mapsto> TokB t)) ++ Map.empty, fresh := Suc (fresh s), translated_line := r'\<rparr>)"
    by (rule add_token_ok [OF ok rb d]) simp_all
  show thesis
    by (rule that [OF t(1)]) (use t in \<open>simp_all add: scans_def toks_rep_def scan_frame_def\<close>)
qed

lemma call_ins:
  assumes h: "holds (input s) 0 (name_str i @ [NUL])" and it: "itab_ok hinv hmap (itable s)"
    and ok: "heap_ok s" and rb: "rinv (translated_line s)"
  obtains s' where "call_instruction_handler V (length (name_str i)) s = scan_handler V i s'"
    "scans rinv rlist [(fresh s, IIns i, [])] s s'" "c_in s' = c_in s" "fpos s' = fpos s" "fbuf s' = fbuf s"
    "pstate s' = pstate s"
proof -
  obtain s' where s': "add_new_token V NoPtr 0 0 INSTRUCTION_TOK (ins_code i) s = Ok s'"
    "scans rinv rlist [(fresh s, IIns i, [])] s s'" "c_in s' = c_in s" "fpos s' = fpos s" "fbuf s' = fbuf s"
    "pstate s' = pstate s"
    by (rule add_ins_token [OF ok rb])
  have "hmap (itable s) (name_str i) = Some (ins_code i, ins_code i)" "hinv (itable s)"
    using it itab_name by (simp_all add: itab_ok_def)
  then obtain k where k: "qh_find V (itable s) (name_str i) = (Some k, VDS_SUCCESS)" "qh_valid V (itable s) k"
    "qh_pair V (itable s) k = (ins_code i, ins_code i)"
    using find_Some by blast
  have "input_bytes 0 (length (name_str i)) s = name_str i"
    using holds_bytes [of s 0 "name_str i"] h by (simp add: holds_append)
  then have "call_instruction_handler V (length (name_str i)) s = scan_handler V i s'"
    using k s'(1) name_facts(2) ins_code_lt [of i] by (simp add: call_instruction_handler_def)
  then show thesis by (rule that [OF _ s'(2-6)])
qed

lemma tokenize_ins:
  assumes p: "stands s (pre @ name_str i @ x # t)" and pre: "list_all blank pre" and x: "blank x"
    and it: "itab_ok hinv hmap (itable s)" and st: "pstate s \<noteq> FINISHED"
    and ok: "heap_ok s" and rb: "rinv (translated_line s)"
  obtains s1 ti where "tokenize_next_line V s = scan_handler V i s1" "scans rinv rlist [(ti, IIns i, [])] s s1"
    "pend s1 (x # t)" "pstate s1 = pstate s" "heap_ok s1" "rinv (translated_line s1)"
proof -
  let ?w = "name_str i"
  obtain n where nw: "get_next_word MAX_ALLOWED_SYMBOL_LEN False s = Ok (length ?w, (adv n s)\<lparr>input := put_word 0 ?w (input s)\<rparr>)"
      "pend ((adv n s)\<lparr>input := put_word 0 ?w (input s)\<rparr>) (x # t)"
    by (rule stands_word [OF p pre name_facts(2,1,3) x]) (simp_all add: limit_defs)
  let ?s1 = "(adv n s)\<lparr>input := put_word 0 ?w (input s)\<rparr>"
  have h: "holds (input ?s1) 0 (?w @ [NUL])"
    using holds_put_word [of 0 ?w] name_facts(3) [of i] by (simp add: limit_defs)
  have ok1: "heap_ok ?s1" "rinv (translated_line ?s1)"
    using ok rb by (simp_all add: heap_ok_def text_simps)
  obtain s2 where s2: "call_instruction_handler V (length ?w) ?s1 = scan_handler V i s2"
    "scans rinv rlist [(fresh ?s1, IIns i, [])] ?s1 s2" "c_in s2 = c_in ?s1" "fpos s2 = fpos ?s1" "fbuf s2 = fbuf ?s1"
    "pstate s2 = pstate ?s1"
    by (rule call_ins [OF h _ ok1]) (use it in \<open>simp_all add: text_simps\<close>)
  have "tokenize_next_line V s = scan_handler V i s2"
    using nw(1) name_no_label [OF h] st s2(1) by (simp add: tokenize_next_line_def text_simps)
  moreover have "scans rinv rlist [] s ?s1"
    using ok1 by (intro scans_Nil) (simp_all add: text_simps scan_frame_adv)
  note scans_trans [OF this s2(2)]
  moreover have "pend s2 (x # t)"
    using nw(2) s2(3,4,5) pend_cong [of s2 ?s1] by simp
  ultimately show thesis
    using that s2(6) scansD [OF s2(2)] by (simp add: text_simps)
qed

end

end
