(* ===== verification/Exec.thy ===== *)
theory Exec imports Scanner Variables Globals begin

section \<open>The execution of an instruction line (exec.c)\<close>

text \<open>
  \<open>interpret_next_line\<close> reads a line with the scanner and hands its tokens to one of the handlers
  below, which read them back from the ring buffer.  \<open>find_label\<close> is the loop of the branch handler
  that reads ahead for a label that is not known yet.
\<close>

subsection \<open>Tokens from the ring buffer\<close>

definition ring_read :: "('h, 'p, 'r) voids \<Rightarrow> ('h, 'r) st \<Rightarrow> addr \<times> vdsErrCode \<times> ('h, 'r) st" where
  "ring_read V s = (case rb_read V (translated_line s) of (r, t, e) \<Rightarrow>
     (t, e, s\<lparr>translated_line := r\<rparr>))"

text \<open>\<open>VDS(RingBuffer_read(...))\<close>\<close>

definition next_token :: "('h, 'p, 'r) voids \<Rightarrow> ('h, 'r) st \<Rightarrow> (addr \<times> ('h, 'r) st) res" where
  "next_token V s = (case ring_read V s of (t, e, s) \<Rightarrow>
     if e \<noteq> VDS_SUCCESS then Exit else Ok (t, s))"

subsection \<open>Labels\<close>

text \<open>The new label's address, \<open>NULL\<close> if the name is taken.\<close>

definition insert_label_to_vartable :: "('h, 'p, 'r) voids \<Rightarrow> addr \<Rightarrow> ('h, 'r) st \<Rightarrow>
    (addr \<times> ('h, 'r) st) res" where
  "insert_label_to_vartable V lbl_tok s = bnd (read_tok lbl_tok s) (\<lambda>t.
     case alloc (LabelB \<lparr>lbl_placeholder = -1, lbl_line = tok_line t, lbl_column = tok_column t,
                         lbl_prev_col = tok_prev_col t, lbl_offset = tok_offset t\<rparr>) s of
       (new_label, s) \<Rightarrow>
     bnd (as_ptr (tok_data t)) (\<lambda>key.
     bnd (read_str key s) (\<lambda>k.
     case qh_insert V (vartable s) k key new_label of (h, tmp, e) \<Rightarrow>
       let s = s\<lparr>vartable := h\<rparr> in
       if e = VDS_KEY_EXISTS then
         (case tmp of None \<Rightarrow> Undef NullDeref
          | Some p \<Rightarrow>
              bnd (pair_data V p s) (\<lambda>old.
              bnd (read_label old s) (\<lambda>l.
              if lbl_offset l \<noteq> tok_offset t then
                (let s1 = program_stop True s;
                     s2 = reset_parser_idx s1 (err_msg MLabelRedefined (set_parser_idx t s1)) in
                 bnd (dealloc new_label s2) (\<lambda>s. Ok (NULL, s)))
              else Ok (new_label, s))))
       else Ok (new_label, s))))"

text \<open>The jump: the position of the label and \<open>fseek\<close> to the character behind it.\<close>

definition jump_to :: "addr \<Rightarrow> ('h, 'r) st \<Rightarrow> ('h, 'r) st res" where
  "jump_to lbl s = bnd (read_label lbl s) (\<lambda>l.
     Ok (s\<lparr>line := lbl_line l, column := lbl_column l, prev_col := lbl_prev_col l, c_in := 32,
           fpos := lbl_offset l\<rparr>))"

text \<open>\<open>while (verr != VDS_BUFFER_EMPTY)\<close>: the tokens behind the first one are dropped.\<close>

fun drain :: "('h, 'p, 'r) voids \<Rightarrow> nat \<Rightarrow> ('h, 'r) st \<Rightarrow> ('h, 'r) st res" where
  "drain V 0 s = Diverge"
| "drain V (Suc n) s = (case ring_read V s of (t, e, s) \<Rightarrow>
     bnd (free_token t s) (\<lambda>s. if e = VDS_BUFFER_EMPTY then Ok s else drain V n s))"

definition ring_fuel :: "('h, 'p, 'r) voids \<Rightarrow> ('h, 'r) st \<Rightarrow> nat" where
  "ring_fuel V s = Suc (length (rb_items V (translated_line s)))"

fun find_label :: "('h, 'p, 'r) voids \<Rightarrow> nat \<Rightarrow> addr \<Rightarrow> ('h, 'r) st \<Rightarrow> ('h, 'r) st res" where
  "find_label V 0 label s = Diverge"
| "find_label V (Suc n) label s =
     bnd (tokenize_next_line V s) (\<lambda>s.
     case ring_read V s of (new_lbl, e, s) \<Rightarrow>
     bnd (if e \<noteq> VDS_BUFFER_EMPTY then drain V (ring_fuel V s) s else Ok s) (\<lambda>s.
     bnd (read_tok new_lbl s) (\<lambda>nt.
     bnd (if tok_type nt = LABEL_TOK
          then bnd (as_ptr (tok_data nt)) (\<lambda>a. bnd (read_str a s) (\<lambda>x.
               bnd (read_tok label s) (\<lambda>lt. bnd (as_ptr (tok_data lt)) (\<lambda>b.
               bnd (read_str b s) (\<lambda>y. Ok (x = y))))))
          else Ok False) (\<lambda>found.
     if found then
       bnd (insert_label_to_vartable V new_lbl s) (\<lambda>(lbl, s).
       if lbl = NULL then free_token new_lbl s
       else bnd (jump_to lbl s) (dealloc new_lbl))
     else
       bnd (free_token new_lbl s) (\<lambda>s.
       if pstate s = FINISHED then
         bnd (read_tok label s) (\<lambda>lt.
         let s1 = program_stop True s in
         Ok (reset_parser_idx s1 (err_msg MUndefinedLabel (set_parser_idx lt s1))))
       else find_label V n label s)))))"

subsection \<open>Handlers\<close>

text \<open>
  The name and the index of a global: \<open>None\<close> if the index cannot be evaluated, and the token is
  freed.
\<close>

definition global_key :: "('h, 'p, 'r) voids \<Rightarrow> addr \<Rightarrow> ('h, 'r) st \<Rightarrow>
    ((addr \<times> size_t) option \<times> ('h, 'r) st) res" where
  "global_key V global_tok s = bnd (read_tok global_tok s) (\<lambda>t.
     if tok_type t = INT_ARR_TOK then
       bnd (as_ptr (tok_data t)) (\<lambda>a.
       bnd (index_value V a s) (\<lambda>(r, s).
       case r of
         None \<Rightarrow> bnd (free_token global_tok s) (\<lambda>s. Ok (None, s))
       | Some tmp \<Rightarrow> bnd (read_arrtok a s) (\<lambda>at. Ok (Some (at_name at, size_of_int tmp), s))))
     else bnd (as_ptr (tok_data t)) (\<lambda>key. Ok (Some (key, 0), s)))"

definition load_handler :: "('h, 'p, 'r) voids \<Rightarrow> ('h, 'r) st \<Rightarrow> ('h, 'r) st res" where
  "load_handler V s =
     bnd (next_token V s) (\<lambda>(varval_tok, s).
     bnd (next_token V s) (\<lambda>(global_tok, s).
     bnd (global_key V global_tok s) (\<lambda>(kx, s).
     case kx of None \<Rightarrow> Ok s
     | Some (key, idx) \<Rightarrow>
         bnd (global_var_load V key idx s) (\<lambda>(tmp, s).
         bnd (varval_set_value V varval_tok tmp s) (\<lambda>(ok, s).
         if \<not> ok then Ok s else dealloc global_tok s)))))"

definition store_handler :: "('h, 'p, 'r) voids \<Rightarrow> ('h, 'r) st \<Rightarrow> ('h, 'r) st res" where
  "store_handler V s =
     bnd (next_token V s) (\<lambda>(global_tok, s).
     bnd (next_token V s) (\<lambda>(varval_tok, s).
     bnd (global_key V global_tok s) (\<lambda>(kx, s).
     case kx of None \<Rightarrow> Ok s
     | Some (key, idx) \<Rightarrow>
         bnd (varval_get_value V varval_tok s) (\<lambda>(tmp, s).
         case tmp of None \<Rightarrow> Ok s
         | Some v \<Rightarrow> bnd (global_var_store V key idx v s) (dealloc global_tok)))))"

definition set_handler :: "('h, 'p, 'r) voids \<Rightarrow> ('h, 'r) st \<Rightarrow> ('h, 'r) st res" where
  "set_handler V s =
     bnd (next_token V s) (\<lambda>(var_tok, s).
     bnd (next_token V s) (\<lambda>(val_tok, s).
     bnd (varval_get_value V val_tok s) (\<lambda>(r, s).
     case r of None \<Rightarrow> Ok s
     | Some val \<Rightarrow> bnd (varval_set_value V var_tok val s) (\<lambda>(ok, s). Ok s))))"

definition primitive_op :: "instruction_id_e \<Rightarrow> c_int \<Rightarrow> c_int \<Rightarrow> c_int option res" where
  "primitive_op ins val1 val2 = (case ins of
       ADD_SYM \<Rightarrow> bnd (c_add val1 val2) (\<lambda>v. Ok (Some v))
     | SUB_SYM \<Rightarrow> bnd (c_sub val1 val2) (\<lambda>v. Ok (Some v))
     | MUL_SYM \<Rightarrow> bnd (c_mul val1 val2) (\<lambda>v. Ok (Some v))
     | DIV_SYM \<Rightarrow> bnd (c_div val1 val2) (\<lambda>v. Ok (Some v))
     | MOD_SYM \<Rightarrow> bnd (c_mod val1 val2) (\<lambda>v. Ok (Some v))
     | _ \<Rightarrow> Ok None)"

definition primitive_op_handler :: "('h, 'p, 'r) voids \<Rightarrow> instruction_id_e \<Rightarrow> ('h, 'r) st \<Rightarrow>
    ('h, 'r) st res" where
  "primitive_op_handler V ins s =
     bnd (next_token V s) (\<lambda>(res_tok, s).
     bnd (next_token V s) (\<lambda>(varval1, s).
     bnd (next_token V s) (\<lambda>(varval2, s).
     bnd (varval_get_value V varval1 s) (\<lambda>(r1, s). case r1 of None \<Rightarrow> Ok s | Some val1 \<Rightarrow>
     bnd (varval_get_value V varval2 s) (\<lambda>(r2, s). case r2 of None \<Rightarrow> Ok s | Some val2 \<Rightarrow>
     bnd (primitive_op ins val1 val2) (\<lambda>resval. case resval of None \<Rightarrow> Ok s | Some v \<Rightarrow>
     bnd (varval_set_value V res_tok v s) (\<lambda>(ok, s). Ok s)))))))"

definition branch_jumps :: "instruction_id_e \<Rightarrow> c_int \<Rightarrow> c_int \<Rightarrow> bool option" where
  "branch_jumps ins val1 val2 = (case ins of
       BRGT_SYM \<Rightarrow> Some (sint val2 < sint val1)
     | BRGE_SYM \<Rightarrow> Some (sint val2 \<le> sint val1)
     | BRLT_SYM \<Rightarrow> Some (sint val1 < sint val2)
     | BRLE_SYM \<Rightarrow> Some (sint val1 \<le> sint val2)
     | BREQ_SYM \<Rightarrow> Some (val1 = val2)
     | BRA_SYM \<Rightarrow> Some True
     | _ \<Rightarrow> None)"

text \<open>The jump to the label in the token \<open>label\<close>.  \<open>find_label\<close> looks at one line a round.\<close>

definition take_branch :: "('h, 'p, 'r) voids \<Rightarrow> addr \<Rightarrow> ('h, 'r) st \<Rightarrow> ('h, 'r) st res" where
  "take_branch V label s = bnd (read_tok label s) (\<lambda>t.
     bnd (as_ptr (tok_data t)) (\<lambda>key.
     bnd (read_str key s) (\<lambda>k.
     bnd (find_var V k s) (\<lambda>tmp_pair. case tmp_pair of
       Some p \<Rightarrow>
         bnd (pair_data V p s) (\<lambda>d.
         bnd (read_head d s) (\<lambda>h.
         if h = -1 then jump_to d s
         else let s1 = program_stop True s in
           Ok (reset_parser_idx s1 (err_msg MBranchToVariable (set_parser_idx t s1)))))
     | None \<Rightarrow> find_label V (left s + 2) label s))))"

definition branch_handler :: "('h, 'p, 'r) voids \<Rightarrow> instruction_id_e \<Rightarrow> ('h, 'r) st \<Rightarrow>
    ('h, 'r) st res" where
  "branch_handler V ins s =
     bnd (if ins \<noteq> BRA_SYM then
            bnd (next_token V s) (\<lambda>(varval1, s).
            bnd (next_token V s) (\<lambda>(varval2, s).
            bnd (varval_get_value V varval1 s) (\<lambda>(r1, s). case r1 of None \<Rightarrow> Ok (None, s) | Some val1 \<Rightarrow>
            bnd (varval_get_value V varval2 s) (\<lambda>(r2, s). case r2 of None \<Rightarrow> Ok (None, s) | Some val2 \<Rightarrow>
            Ok (Some (val1, val2), s)))))
          else Ok (Some (0, 0), s)) (\<lambda>(vals, s). case vals of None \<Rightarrow> Ok s | Some (val1, val2) \<Rightarrow>
     bnd (next_token V s) (\<lambda>(label, s).
     case branch_jumps ins val1 val2 of None \<Rightarrow> Ok s | Some jump \<Rightarrow>
     bnd (if jump then take_branch V label s else Ok s) (\<lambda>s.
     bnd (read_tok label s) (\<lambda>t.
     bnd (as_ptr (tok_data t)) (\<lambda>d.
     bnd (dealloc d s) (dealloc label))))))"

definition semaphore_handler :: "('h, 'p, 'r) voids \<Rightarrow> instruction_id_e \<Rightarrow> ('h, 'r) st \<Rightarrow>
    ('h, 'r) st res" where
  "semaphore_handler V ins s =
     bnd (next_token V s) (\<lambda>(global_tok, s).
     bnd (global_key V global_tok s) (\<lambda>(kx, s). case kx of None \<Rightarrow> Ok s | Some (key, idx) \<Rightarrow>
     bnd (case ins of DOWN_SYM \<Rightarrow> global_var_down V key idx s
          | UP_SYM \<Rightarrow> global_var_up V key idx s
          | _ \<Rightarrow> Ok s) (dealloc global_tok)))"

definition sleep_handler :: "('h, 'p, 'r) voids \<Rightarrow> ('h, 'r) st \<Rightarrow> ('h, 'r) st res" where
  "sleep_handler V s = (case ring_read V s of (tok, e, s0) \<Rightarrow>
     bnd (read_tok tok s0) (\<lambda>t.
     bnd (varval_get (Suc (fresh s0)) V (tok_type t) (tok_data t) (set_parser_idx t s0)) (\<lambda>(r, s).
     case r of
       None \<Rightarrow> free_token tok s
     | Some sleep_duration \<Rightarrow>
         let s1 = (if 0 < sint sleep_duration
               then s\<lparr>pstate := SLEEPING, sleep_sec := sint sleep_duration, sleep_nsec := 0\<rparr>
               else warn_msg MNegativeSleep s) in
         dealloc tok (reset_parser_idx s0 s1))))"

fun print_values :: "('h, 'p, 'r) voids \<Rightarrow> nat \<Rightarrow> ('h, 'r) st \<Rightarrow> ('h, 'r) st res" where
  "print_values V 0 s = Diverge"
| "print_values V (Suc n) s = (case ring_read V s of (tok, e, s) \<Rightarrow>
     if e = VDS_BUFFER_EMPTY then Ok s
     else bnd (varval_get_value V tok s) (\<lambda>(r, s). case r of None \<Rightarrow> Ok s
       | Some tmp \<Rightarrow> print_values V n (s\<lparr>out := out s @ [SaysInt tmp]\<rparr>)))"

definition print_handler :: "('h, 'p, 'r) voids \<Rightarrow> ('h, 'r) st \<Rightarrow> ('h, 'r) st res" where
  "print_handler V s = bnd (argv_at 0 s) (\<lambda>i.
     case ring_read V (s\<lparr>out := out s @ [Says i]\<rparr>) of (tok, e, s) \<Rightarrow>
     bnd (read_tok tok s) (\<lambda>t.
     bnd (as_ptr (tok_data t)) (\<lambda>d.
     bnd (read_str d s) (\<lambda>x.
     bnd (free_token tok (s\<lparr>out := out s @ [SaysStr x]\<rparr>)) (\<lambda>s.
     bnd (print_values V (ring_fuel V s) s) (\<lambda>s. Ok (s\<lparr>out := out s @ [SaysNl]\<rparr>)))))))"

definition return_handler :: "('h, 'r) st \<Rightarrow> ('h, 'r) st res" where
  "return_handler s = Ok (s\<lparr>pstate := FINISHED\<rparr>)"

fun exec_handler :: "('h, 'p, 'r) voids \<Rightarrow> instruction_id_e \<Rightarrow> ('h, 'r) st \<Rightarrow> ('h, 'r) st res" where
  "exec_handler V LOAD_SYM = load_handler V"
| "exec_handler V STORE_SYM = store_handler V"
| "exec_handler V SET_SYM = set_handler V"
| "exec_handler V ADD_SYM = primitive_op_handler V ADD_SYM"
| "exec_handler V SUB_SYM = primitive_op_handler V SUB_SYM"
| "exec_handler V MUL_SYM = primitive_op_handler V MUL_SYM"
| "exec_handler V DIV_SYM = primitive_op_handler V DIV_SYM"
| "exec_handler V MOD_SYM = primitive_op_handler V MOD_SYM"
| "exec_handler V BRGT_SYM = branch_handler V BRGT_SYM"
| "exec_handler V BRGE_SYM = branch_handler V BRGE_SYM"
| "exec_handler V BRLT_SYM = branch_handler V BRLT_SYM"
| "exec_handler V BRLE_SYM = branch_handler V BRLE_SYM"
| "exec_handler V BREQ_SYM = branch_handler V BREQ_SYM"
| "exec_handler V BRA_SYM = branch_handler V BRA_SYM"
| "exec_handler V DOWN_SYM = semaphore_handler V DOWN_SYM"
| "exec_handler V UP_SYM = semaphore_handler V UP_SYM"
| "exec_handler V SLEEP_SYM = sleep_handler V"
| "exec_handler V PRINT_SYM = print_handler V"
| "exec_handler V RETURN_SYM = return_handler"

subsection \<open>A line\<close>

definition exec_instruction_line :: "('h, 'p, 'r) voids \<Rightarrow> ('h, 'r) st \<Rightarrow> ('h, 'r) st res" where
  "exec_instruction_line V s = (case ring_read V s of (tok, e, s) \<Rightarrow>
     if tok = NULL then Ok (s\<lparr>pstate := FINISHED\<rparr>)
     else bnd (read_tok tok s) (\<lambda>t.
       bnd (if tok_type t = LABEL_TOK then
              bnd (insert_label_to_vartable V tok s) (\<lambda>(lbl, s).
              if lbl = NULL then Ok (None, s)
              else bnd (dealloc tok s) (\<lambda>s.
                case ring_read V s of (tok, e, s) \<Rightarrow> Ok (Some tok, s)))
            else Ok (Some tok, s)) (\<lambda>(instruction_tok, s).
       case instruction_tok of None \<Rightarrow> Ok s
       | Some tok \<Rightarrow>
           bnd (read_tok tok s) (\<lambda>t.
           bnd (as_value (tok_data t)) (\<lambda>code.
           bnd (free_token tok s) (\<lambda>s.
           if unat code < length instructions then exec_handler V (instructions ! unat code) s
           else Exit))))))"

definition interpret_next_line :: "('h, 'p, 'r) voids \<Rightarrow> ('h, 'r) st \<Rightarrow> ('h, 'r) st res" where
  "interpret_next_line V s =
     bnd (case pstate s of
            MAGIC_LINE \<Rightarrow>
              bnd (parse_magic s) (\<lambda>s.
              if pstate s = FINISHED then Ok s else tokenize_next_line V s)
          | INSTRUCTION_LINE \<Rightarrow> tokenize_next_line V s
          | _ \<Rightarrow> Ok s) (\<lambda>s.
     if pstate s = INSTRUCTION_LINE \<or> pstate s = LAST_LINE then
       bnd (exec_instruction_line V s) (\<lambda>s.
       Ok (if pstate s = LAST_LINE then s\<lparr>pstate := FINISHED\<rparr> else s))
     else Ok s)"

definition exec_init :: "('h, 'p, 'r) voids \<Rightarrow> ('h, 'r) st \<Rightarrow> ('h, 'r) st res" where
  "exec_init V s = bnd (lexer_init V s) (\<lambda>s. Ok (global_table_init V s))"

end
