(* ===== verification/ExecRefine.thy ===== *)
theory ExecRefine imports VarSet Lines Exec begin

section \<open>Execution refines the environments\<close>

text \<open>
  The handlers of exec.c on tokens that stand for expressions: \<open>set_handler\<close> and
  \<open>primitive_op_handler\<close> perform the assignment of the environment semantics and release every
  block of the line.  With the scanner's lemmas this gives the effect of a line of text.
\<close>

subsection \<open>Tokens while the state evolves\<close>

lemma item_live: "item_rep h t it F \<Longrightarrow> a \<in> set F \<Longrightarrow> h a \<noteq> None"
  using rep_live by (cases it) auto

lemma toks_live:
  assumes "toks_rep h L" and "a \<in> set (blocks L)"
  shows "h a \<noteq> None"
proof -
  obtain tk it F where l: "(tk, it, F) \<in> set L" "a = tk \<or> a \<in> set F"
    using assms(2) by (auto simp: blocks_def)
  then obtain t where "h tk = Some (TokB t)" "item_rep h t it F"
    using assms(1) by (fastforce simp: toks_rep_def)
  then show ?thesis using l(2) item_live by auto
qed

lemma toks_evolve:
  assumes ok: "heap_ok s" and ev: "evolves hinv hmap G s A s'"
    and tr: "toks_rep (heap s) L" and G: "set (blocks L) \<inter> G = {}"
    and own: "set (blocks L) \<inter> owned (hmap (vartable s)) = {}"
  shows "toks_rep (heap s') L" "set (blocks L) \<inter> owned (hmap (vartable s')) = {}"
proof -
  have keep: "heap s' a = heap s a \<and> a \<notin> owned (hmap (vartable s'))" if "a \<in> set (blocks L)" for a
  proof -
    have "a < fresh s" using toks_live [OF tr that] heap_ok_live [OF ok] by blast
    then show ?thesis
      using evolves_keep [OF ev, of a] G own that by blast
  qed
  then show "toks_rep (heap s') L" "set (blocks L) \<inter> owned (hmap (vartable s')) = {}"
    using toks_rep_cong [OF tr] by blast+
qed

lemma toks_rep_Cons:
  "toks_rep h ((tk, it, F) # L) \<longleftrightarrow> (\<exists>t. h tk = Some (TokB t) \<and> item_rep h t it F) \<and>
     distinct (tk # F) \<and> set (tk # F) \<inter> set (blocks L) = {} \<and> toks_rep h L"
  by (auto simp: toks_rep_def)

lemma toks_tok:
  assumes "toks_rep (heap s) ((tk, IExpr e, F) # L)"
    and "set (blocks ((tk, IExpr e, F) # L)) \<inter> owned (hmap (vartable s)) = {}"
  shows "tok_rep hmap s tk e F"
  using assms by (auto simp: toks_rep_Cons tok_rep_def)

lemma good_line [simp]: "good hinv hmap A (s\<lparr>translated_line := r\<rparr>) = good hinv hmap A s"
  by (rule good_cong) simp_all

lemma scans_good:
  assumes g: "good hinv hmap A s" and sc: "scans rinv rlist L s s'"
  shows "good hinv hmap A s'" "set (blocks L) \<inter> owned (hmap (vartable s')) = {}"
proof -
  note D = scansD [OF sc]
  have vt: "vartable s' = vartable s" using D(8) by (simp add: scan_frame_def)
  have old: "a < fresh s" if "a \<in> owned (hmap (vartable s))" for a
    by (rule owned_live(2) [OF g that])
  then have new: "a \<notin> set (blocks L)" if "a \<in> owned (hmap (vartable s))" for a
    using D(2) that by fastforce
  then show "set (blocks L) \<inter> owned (hmap (vartable s')) = {}"
    unfolding vt by blast
  have "vinv (heap s') (hmap (vartable s)) A"
    by (rule vinv_cong [OF goodD(3) [OF g]]) (rule D(5), rule new)
  then show "good hinv hmap A s'"
    unfolding good_def vt using D(3) goodD(2) [OF g] by blast
qed

subsection \<open>Handlers\<close>

text \<open>
  What an arithmetic instruction computes, over the integers; \<open>None\<close> where C leaves it undefined.
\<close>

definition op_value :: "instruction_id_e \<Rightarrow> c_int \<Rightarrow> c_int \<Rightarrow> c_int option" where
  "op_value ins v w =
     (let a = sint v; b = sint w;
          r = (case ins of ADD_SYM \<Rightarrow> Some (a + b) | SUB_SYM \<Rightarrow> Some (a - b) | MUL_SYM \<Rightarrow> Some (a * b)
               | DIV_SYM \<Rightarrow> if b = 0 then None else Some (a sdiv b)
               | MOD_SYM \<Rightarrow> if b = 0 \<or> \<not> in_int (a sdiv b) then None else Some (a smod b)
               | _ \<Rightarrow> None) in
      case r of None \<Rightarrow> None | Some x \<Rightarrow> if in_int x then Some (word_of_int x) else None)"

lemma op_value_Some: "op_value ins v w = Some x \<Longrightarrow> primitive_op ins v w = Ok (Some x)"
  by (cases ins) (auto simp: op_value_def primitive_op_def c_add_def c_sub_def c_mul_def c_div_def c_mod_def chk_def Let_def
    split: if_splits option.splits)

context voids_lib
begin

lemma next_token_Cons:
  assumes "rinv (translated_line s)" and "rlist (translated_line s) = a # as"
  obtains r where "next_token V s = Ok (a, s\<lparr>translated_line := r\<rparr>)"
    "ring_read V s = (a, VDS_SUCCESS, s\<lparr>translated_line := r\<rparr>)" "rinv r" "rlist r = as"
  using read_Cons [OF assms] by (auto simp: next_token_def ring_read_def)

text \<open>Evaluating, and assigning to, the first token of a list of tokens.\<close>

lemma get_step:
  assumes g: "good hinv hmap A s" and tr: "toks_rep (heap s) ((tk, IExpr e, F) # L)"
    and own: "set (blocks ((tk, IExpr e, F) # L)) \<inter> owned (hmap (vartable s)) = {}"
    and ag: "aget (argv s) (mem_max s) A e = Some (v, A', ins)"
  obtains s' where "varval_get_value V tk s = Ok (Some v, s')"
    "evolves hinv hmap (insert tk (set F)) s A' s'" "toks_rep (heap s') L"
    "set (blocks L) \<inter> owned (hmap (vartable s')) = {}"
proof -
  obtain s' where s': "varval_get_value V tk s = Ok (Some v, s')" "evolves hinv hmap (insert tk (set F)) s A' s'"
    using get_value_refines [OF g toks_tok [of s tk e F L hmap, OF tr own] ag] by blast
  have "toks_rep (heap s) L" "set (blocks L) \<inter> insert tk (set F) = {}" "set (blocks L) \<inter> owned (hmap (vartable s)) = {}"
    using tr own by (auto simp: toks_rep_Cons)
  from toks_evolve [OF goodD(1) [OF g] s'(2) this] s' that show thesis by blast
qed

lemma set_step:
  assumes g: "good hinv hmap A s" and tr: "toks_rep (heap s) ((tk, IExpr e, F) # L)"
    and own: "set (blocks ((tk, IExpr e, F) # L)) \<inter> owned (hmap (vartable s)) = {}"
    and as: "aset (argv s) (mem_max s) A e v = Some A'"
  obtains s' where "varval_set_value V tk v s = Ok (True, s')"
    "evolves hinv hmap (insert tk (set F)) s A' s'"
  using set_value_refines [OF g toks_tok [of s tk e F L hmap, OF tr own] as] by blast

lemma set_handler_refines:
  assumes g: "good hinv hmap A s" and rb: "rinv (translated_line s)" "rlist (translated_line s) = t1 # t2 # ts"
    and tr: "toks_rep (heap s) [(t1, IExpr e1, F1), (t2, IExpr e2, F2)]"
    and own: "set (blocks [(t1, IExpr e1, F1), (t2, IExpr e2, F2)]) \<inter> owned (hmap (vartable s)) = {}"
    and ag: "aget (argv s) (mem_max s) A e2 = Some (v, A1, ins)"
    and as: "aset (argv s) (mem_max s) A1 e1 v = Some A2"
  shows "\<exists>s' r. set_handler V s = Ok s' \<and> rinv r \<and> rlist r = ts \<and>
    evolves hinv hmap (set (t2 # F2) \<union> set (t1 # F1)) (s\<lparr>translated_line := r\<rparr>) A2 s'"
proof -
  obtain r1 where r1: "next_token V s = Ok (t1, s\<lparr>translated_line := r1\<rparr>)" "rinv r1" "rlist r1 = t2 # ts"
    by (rule next_token_Cons [OF rb]) auto
  obtain r where r: "next_token V (s\<lparr>translated_line := r1\<rparr>) = Ok (t2, s\<lparr>translated_line := r\<rparr>)" "rinv r" "rlist r = ts"
    by (rule next_token_Cons [of "s\<lparr>translated_line := r1\<rparr>"]) (use r1 in auto)
  let ?s = "s\<lparr>translated_line := r\<rparr>"
  have tr': "toks_rep (heap ?s) [(t2, IExpr e2, F2), (t1, IExpr e1, F1)]"
    and own': "set (blocks [(t2, IExpr e2, F2), (t1, IExpr e1, F1)]) \<inter> owned (hmap (vartable ?s)) = {}"
    and g': "good hinv hmap A ?s" and ag': "aget (argv ?s) (mem_max ?s) A e2 = Some (v, A1, ins)"
    using tr own g ag by (auto simp: toks_rep_Cons)
  obtain s1 where s1: "varval_get_value V t2 ?s = Ok (Some v, s1)" "evolves hinv hmap (insert t2 (set F2)) ?s A1 s1"
      "toks_rep (heap s1) [(t1, IExpr e1, F1)]" "set (blocks [(t1, IExpr e1, F1)]) \<inter> owned (hmap (vartable s1)) = {}"
    by (rule get_step [OF g' tr' own' ag'])
  note f1 = evolves_fields [OF s1(2)]
  have as': "aset (argv s1) (mem_max s1) A1 e1 v = Some A2" using as f1 by simp
  obtain s2 where s2: "varval_set_value V t1 v s1 = Ok (True, s2)" "evolves hinv hmap (insert t1 (set F1)) s1 A2 s2"
    by (rule set_step [OF evolves_good [OF s1(2)] s1(3,4) as'])
  have "evolves hinv hmap (set (t2 # F2) \<union> set (t1 # F1)) ?s A2 s2"
    using evolves_trans [OF goodD(1) [OF g'] s1(2) s2(2)] by simp
  moreover have "set_handler V s = Ok s2"
    using r1(1) r(1) s1(1) s2(1) by (simp add: set_handler_def)
  ultimately show ?thesis using r(2,3) by blast
qed

lemma primitive_op_handler_refines:
  assumes g: "good hinv hmap A s" and rb: "rinv (translated_line s)" "rlist (translated_line s) = t1 # t2 # t3 # ts"
    and tr: "toks_rep (heap s) [(t1, IExpr e1, F1), (t2, IExpr e2, F2), (t3, IExpr e3, F3)]"
    and own: "set (blocks [(t1, IExpr e1, F1), (t2, IExpr e2, F2), (t3, IExpr e3, F3)]) \<inter> owned (hmap (vartable s)) = {}"
    and ag: "aget (argv s) (mem_max s) A e2 = Some (v, A1, ins1)" "aget (argv s) (mem_max s) A1 e3 = Some (w, A2, ins2)"
    and op: "op_value ins v w = Some x"
    and as: "aset (argv s) (mem_max s) A2 e1 x = Some A3"
  shows "\<exists>s' r. primitive_op_handler V ins s = Ok s' \<and> rinv r \<and> rlist r = ts \<and>
    evolves hinv hmap (set (t2 # F2) \<union> (set (t3 # F3) \<union> set (t1 # F1))) (s\<lparr>translated_line := r\<rparr>) A3 s'"
proof -
  obtain r1 where r1: "next_token V s = Ok (t1, s\<lparr>translated_line := r1\<rparr>)" "rinv r1" "rlist r1 = t2 # t3 # ts"
    by (rule next_token_Cons [OF rb]) auto
  obtain r2 where r2: "next_token V (s\<lparr>translated_line := r1\<rparr>) = Ok (t2, s\<lparr>translated_line := r2\<rparr>)" "rinv r2"
      "rlist r2 = t3 # ts"
    by (rule next_token_Cons [of "s\<lparr>translated_line := r1\<rparr>"]) (use r1 in auto)
  obtain r where r: "next_token V (s\<lparr>translated_line := r2\<rparr>) = Ok (t3, s\<lparr>translated_line := r\<rparr>)" "rinv r" "rlist r = ts"
    by (rule next_token_Cons [of "s\<lparr>translated_line := r2\<rparr>"]) (use r2 in auto)
  let ?s = "s\<lparr>translated_line := r\<rparr>"
  have tr': "toks_rep (heap ?s) [(t2, IExpr e2, F2), (t3, IExpr e3, F3), (t1, IExpr e1, F1)]"
    and own': "set (blocks [(t2, IExpr e2, F2), (t3, IExpr e3, F3), (t1, IExpr e1, F1)]) \<inter> owned (hmap (vartable ?s)) = {}"
    and g': "good hinv hmap A ?s" and ag': "aget (argv ?s) (mem_max ?s) A e2 = Some (v, A1, ins1)"
    using tr own g ag by (auto simp: toks_rep_Cons)
  obtain s1 where s1: "varval_get_value V t2 ?s = Ok (Some v, s1)" "evolves hinv hmap (insert t2 (set F2)) ?s A1 s1"
      "toks_rep (heap s1) [(t3, IExpr e3, F3), (t1, IExpr e1, F1)]"
      "set (blocks [(t3, IExpr e3, F3), (t1, IExpr e1, F1)]) \<inter> owned (hmap (vartable s1)) = {}"
    by (rule get_step [OF g' tr' own' ag'])
  have ag1: "aget (argv s1) (mem_max s1) A1 e3 = Some (w, A2, ins2)" using ag(2) evolves_fields [OF s1(2)] by simp
  obtain s2 where s2: "varval_get_value V t3 s1 = Ok (Some w, s2)" "evolves hinv hmap (insert t3 (set F3)) s1 A2 s2"
      "toks_rep (heap s2) [(t1, IExpr e1, F1)]" "set (blocks [(t1, IExpr e1, F1)]) \<inter> owned (hmap (vartable s2)) = {}"
    by (rule get_step [OF evolves_good [OF s1(2)] s1(3,4) ag1])
  have as': "aset (argv s2) (mem_max s2) A2 e1 x = Some A3"
    using as evolves_fields [OF s1(2)] evolves_fields [OF s2(2)] by simp
  obtain s3 where s3: "varval_set_value V t1 x s2 = Ok (True, s3)" "evolves hinv hmap (insert t1 (set F1)) s2 A3 s3"
    by (rule set_step [OF evolves_good [OF s2(2)] s2(3,4) as'])
  have "evolves hinv hmap (set (t2 # F2) \<union> (set (t3 # F3) \<union> set (t1 # F1))) ?s A3 s3"
    using evolves_trans [OF goodD(1) [OF g'] s1(2) evolves_trans [OF goodD(1) [OF evolves_good [OF s1(2)]] s2(2) s3(2)]]
    by simp
  moreover have "primitive_op_handler V ins s = Ok s3"
    using r1(1) r2(1) r(1) s1(1) s2(1) s3(1) op_value_Some [OF op] by (simp add: primitive_op_handler_def)
  ultimately show ?thesis using r(2,3) by blast
qed

text \<open>The instruction token of a line is read and freed, then the handler runs.\<close>

lemma exec_line_ins:
  assumes g: "good hinv hmap A s" and rb: "rinv (translated_line s)" "rlist (translated_line s) = ti # as"
    and tr: "toks_rep (heap s) ((ti, IIns i, []) # L)"
    and own: "set (blocks ((ti, IIns i, []) # L)) \<inter> owned (hmap (vartable s)) = {}"
  obtains s1 r where "exec_instruction_line V s = exec_handler V i s1" "rinv r" "rlist r = as"
    "evolves hinv hmap {ti} (s\<lparr>translated_line := r\<rparr>) A s1" "toks_rep (heap s1) L"
    "set (blocks L) \<inter> owned (hmap (vartable s1)) = {}" "translated_line s1 = r"
proof -
  obtain r where r: "ring_read V s = (ti, VDS_SUCCESS, s\<lparr>translated_line := r\<rparr>)" "rinv r" "rlist r = as"
    by (rule next_token_Cons [OF rb])
  let ?s = "s\<lparr>translated_line := r\<rparr>"
  obtain t where t: "heap s ti = Some (TokB t)" "tok_type t = INSTRUCTION_TOK"
      "tok_data t = Value (word_of_nat (ins_code i))"
    using tr by (auto simp: toks_rep_Cons)
  have live: "ti \<noteq> NULL" using heap_ok_live [OF goodD(1) [OF g] t(1)] by simp
  have g': "good hinv hmap A ?s" using g by simp
  let ?s1 = "?s\<lparr>heap := (heap ?s)(ti := None)\<rparr>"
  have ev: "evolves hinv hmap {ti} ?s A ?s1"
    by (rule evolves_free [OF g']) (use own in auto)
  have "ins_code i < 19" using ins_code_lt(1) [of i] by (simp add: instructions_def)
  then have "unat (word_of_nat (ins_code i) :: c_int) = ins_code i"
    by (simp add: unat_of_nat)
  then have "exec_instruction_line V s = exec_handler V i ?s1"
    using r(1) t live ins_code_lt [of i]
    by (simp add: exec_instruction_line_def free_token_def mem_simps)
  moreover have "toks_rep (heap ?s1) L" "set (blocks L) \<inter> owned (hmap (vartable ?s1)) = {}"
    using toks_evolve [OF goodD(1) [OF g'] ev, of L] tr own by (auto simp: toks_rep_Cons)
  ultimately show thesis
    using that [of ?s1 r] r(2,3) ev by simp
qed

end

end
