(* ===== verification/Runtime.thy ===== *)
theory Runtime imports Exec begin

section \<open>What a runtime does to one program (runtime.c)\<close>

text \<open>
  One pass of \<open>runtime_thread\<close> over a program: the time slice from the random generator, then, by
  the state of the program, lines until the slice is used up, a part of a sleep, or an attempt on a
  semaphore.  The random number and the readings of the thread's clock before and after each line
  are arguments.  The loop over lines carries fuel; \<open>slice_correct\<close> in \<open>RtProps\<close> shows that one
  unit per nanosecond of the slice is enough when the clock advances.
\<close>

record timespec =
  tv_sec :: int
  tv_nsec :: int

definition TIME_SLICE_MAX_NSEC :: int where "TIME_SLICE_MAX_NSEC = 10000000"

text \<open>\<open>long\<close> is 64 bits wide; negating its least value overflows.\<close>

definition calc_time_slice :: "64 word \<Rightarrow> int res" where
  "calc_time_slice r =
     (if sint r < 0
      then (if sint r = - (2 ^ 63) then Undef SignedOverflow else Ok ((0 - sint r) mod TIME_SLICE_MAX_NSEC))
      else Ok (sint r mod TIME_SLICE_MAX_NSEC))"

text \<open>
  The time charged for a line, \<open>None\<close> when the loop is left.  When the second has changed between
  the readings the difference of the nanoseconds is taken the other way round.
\<close>

definition line_cost :: "timespec \<times> timespec \<Rightarrow> int option" where
  "line_cost c = (case c of (start_time, end_time) \<Rightarrow>
     let diff = (if tv_sec start_time \<noteq> tv_sec end_time
                 then if 1 < tv_sec end_time - tv_sec start_time then None
                      else Some (tv_nsec start_time - tv_nsec end_time)
                 else Some (tv_nsec end_time - tv_nsec start_time)) in
     case diff of None \<Rightarrow> None | Some d \<Rightarrow> if d < 0 then None else Some d)"

fun slice_loop :: "('h, 'p, 'r) voids \<Rightarrow> (nat \<Rightarrow> timespec \<times> timespec) \<Rightarrow> nat \<Rightarrow> nat \<Rightarrow> int \<Rightarrow>
    ('h, 'r) st \<Rightarrow> ('h, 'r) st res" where
  "slice_loop V clk 0 i time_slice s = Diverge"
| "slice_loop V clk (Suc n) i time_slice s = bnd (interpret_next_line V s) (\<lambda>s.
     case line_cost (clk i) of
       None \<Rightarrow> Ok s
     | Some diff \<Rightarrow>
         if 0 < time_slice - diff \<and> pstate s = INSTRUCTION_LINE
         then slice_loop V clk n (Suc i) (time_slice - diff) s else Ok s)"

text \<open>A part of a sleep.\<close>

definition visit_sleeping :: "int \<Rightarrow> ('h, 'r) st \<Rightarrow> ('h, 'r) st" where
  "visit_sleeping time_slice s =
     (let diff = sleep_nsec s - time_slice in
      if diff < 0 then
        if sleep_sec s = 0 then s\<lparr>pstate := INSTRUCTION_LINE\<rparr>
        else s\<lparr>sleep_sec := sleep_sec s - 1, sleep_nsec := diff + 1000000000\<rparr>
      else s\<lparr>sleep_nsec := diff\<rparr>)"

text \<open>
  The \<open>switch\<close> over the state.  The wait of a blocked program is one step here: \<open>pthread_cond_timedwait\<close>
  is given a length where it expects a point in time, which has passed, and returns at once.
\<close>

definition visit :: "('h, 'p, 'r) voids \<Rightarrow> (nat \<Rightarrow> timespec \<times> timespec) \<Rightarrow> nat \<Rightarrow> int \<Rightarrow>
    ('h, 'r) st \<Rightarrow> ('h, 'r) st res" where
  "visit V clk fuel time_slice s =
     (if pstate s = MAGIC_LINE \<or> pstate s = INSTRUCTION_LINE
        then slice_loop V clk fuel 0 time_slice s
      else if pstate s = SLEEPING then Ok (visit_sleeping time_slice s)
      else if pstate s = BLOCKED then program_state_blocked (\<lambda>s. s) s
      else Ok s)"

text \<open>
  The lines alone: \<open>run_slice V n\<close> interprets one line and up to \<open>n\<close> more, as long as the program is in
  the state \<open>INSTRUCTION_LINE\<close>.
\<close>

fun run_slice :: "('h, 'p, 'r) voids \<Rightarrow> nat \<Rightarrow> ('h, 'r) st \<Rightarrow> ('h, 'r) st res" where
  "run_slice V 0 s = interpret_next_line V s"
| "run_slice V (Suc n) s = bnd (interpret_next_line V s) (\<lambda>s.
     if pstate s = INSTRUCTION_LINE then run_slice V n s else Ok s)"

end
