(* ===== verification/Straight.thy ===== *)
theory Straight imports ExecRefine Runtime begin

section \<open>Straight-line programs: from the text to the environment\<close>

text \<open>
  The abstract machine of the instructions \<open>SET\<close>, \<open>ADD\<close>, \<open>SUB\<close>, \<open>MUL\<close>, \<open>DIV\<close> and \<open>MOD\<close>: an
  instruction maps an environment to an environment.  \<open>interpret_next_line\<close> on the text of an
  instruction performs its step, whatever the blanks of the text, and leaves no block behind.
\<close>

subsection \<open>Instructions\<close>

datatype instr = ISet expr expr | IOp instruction_id_e expr expr expr

fun instr_ins :: "instr \<Rightarrow> instruction_id_e" where
  "instr_ins (ISet e1 e2) = SET_SYM"
| "instr_ins (IOp ins e1 e2 e3) = ins"

fun instr_args :: "instr \<Rightarrow> expr list" where
  "instr_args (ISet e1 e2) = [e1, e2]"
| "instr_args (IOp ins e1 e2 e3) = [e1, e2, e3]"

definition instr_ok :: "instr \<Rightarrow> bool" where
  "instr_ok i \<longleftrightarrow> (case i of ISet e1 e2 \<Rightarrow> True
       | IOp ins e1 e2 e3 \<Rightarrow> ins \<in> {ADD_SYM, SUB_SYM, MUL_SYM, DIV_SYM, MOD_SYM}) \<and>
     (\<forall>e \<in> set (instr_args i). expr_ok e \<and> length (show_expr e) < MAX_ALLOWED_SYMBOL_LEN) \<and>
     is_var (hd (instr_args i))"

text \<open>The step; \<open>None\<close> where the code stops the program or its behaviour is undefined.\<close>

fun istep :: "c_int list \<Rightarrow> nat \<Rightarrow> env \<Rightarrow> instr \<Rightarrow> env option" where
  "istep av mm A (ISet e1 e2) = (case aget av mm A e2 of None \<Rightarrow> None
     | Some (v, A1, _) \<Rightarrow> aset av mm A1 e1 v)"
| "istep av mm A (IOp ins e1 e2 e3) = (case aget av mm A e2 of None \<Rightarrow> None
     | Some (v, A1, _) \<Rightarrow> (case aget av mm A1 e3 of None \<Rightarrow> None
       | Some (w, A2, _) \<Rightarrow> (case op_value ins v w of None \<Rightarrow> None
         | Some x \<Rightarrow> aset av mm A2 e1 x)))"

subsection \<open>Lines of text\<close>

text \<open>
  A line: the blanks before the instruction (empty lines too), the instruction, the gaps before
  its arguments, the blanks at its end.
\<close>

type_synonym src_line = "string \<times> instr \<times> string list \<times> string"

fun line_text :: "src_line \<Rightarrow> string" where
  "line_text (pre, i, gs, bs) = pre @ name_str (instr_ins i) @ args_str (zip gs (instr_args i)) bs"

fun line_ok :: "src_line \<Rightarrow> bool" where
  "line_ok (pre, i, gs, bs) \<longleftrightarrow> list_all blank pre \<and> instr_ok i \<and> length gs = length (instr_args i) \<and>
     list_all gap gs \<and> blanks bs"

fun line_instr :: "src_line \<Rightarrow> instr" where
  "line_instr (pre, i, gs, bs) = i"

lemma line_args_ok: "line_ok (pre, i, gs, bs) \<Longrightarrow> args_ok (zip gs (instr_args i)) bs"
  by (fastforce simp: args_ok_def instr_ok_def list_all_iff dest: set_zip_leftD set_zip_rightD)

subsection \<open>The state between two lines\<close>

text \<open>
  The state of a program that stands before the text \<open>t\<close> with the variables \<open>A\<close>, nothing of a line
  left in the ring buffer.
\<close>

definition ready :: "('h \<Rightarrow> bool) \<Rightarrow> ('h \<Rightarrow> pairs) \<Rightarrow> ('r \<Rightarrow> bool) \<Rightarrow> ('r \<Rightarrow> addr list) \<Rightarrow>
    env \<Rightarrow> string \<Rightarrow> ('h, 'r) st \<Rightarrow> bool" where
  "ready hinv hmap rinv rlist A t s \<longleftrightarrow> good hinv hmap A s \<and> itab_ok hinv hmap (itable s) \<and>
     rinv (translated_line s) \<and> rlist (translated_line s) = [] \<and> pstate s = INSTRUCTION_LINE \<and> pend s t"

text \<open>What a line may change: variables, the cursor, and the blocks of variables.\<close>

definition tidy :: "('h \<Rightarrow> pairs) \<Rightarrow> ('h, 'r) st \<Rightarrow> ('h, 'r) st \<Rightarrow> bool" where
  "tidy hmap s s' \<longleftrightarrow> argv s' = argv s \<and> mem_max s' = mem_max s \<and> gtab s' = gtab s \<and> itable s' = itable s \<and>
     out s' = out s \<and> error_flag s' = error_flag s \<and> fbuf s' = fbuf s \<and> fresh s \<le> fresh s' \<and>
     (\<forall>a. a \<in> owned (hmap (vartable s')) \<longrightarrow> a \<in> owned (hmap (vartable s)) \<or> heap s a = None) \<and>
     (\<forall>a. a \<notin> owned (hmap (vartable s')) \<longrightarrow>
        heap s' a = (if a \<in> owned (hmap (vartable s)) then None else heap s a))"

lemma line_done:
  assumes g: "good hinv hmap A s" and it: "itab_ok hinv hmap (itable s)" and rl: "rlist (translated_line s) = []"
    and st: "pstate s2 = INSTRUCTION_LINE"
    and sc: "scans rinv rlist L s s2" and p: "pend s2 t"
    and ev1: "evolves hinv hmap {ti} (s2\<lparr>translated_line := r1\<rparr>) A s3"
    and ev2: "evolves hinv hmap G (s3\<lparr>translated_line := r\<rparr>) A' s4"
    and r: "rinv r" "rlist r = []" and L: "set (blocks L) = insert ti G"
  shows "ready hinv hmap rinv rlist A' t s4" "tidy hmap s s4"
proof -
  note D = scansD [OF sc] and E1 = evolves_fields [OF ev1] and E2 = evolves_fields [OF ev2]
  note fr = D(8) [unfolded scan_frame_def]
  have p4: "pend s4 t" using p E1 E2 pend_cong [of s4 s2 t] by simp
  show "ready hinv hmap rinv rlist A' t s4"
    using evolves_good [OF ev2] it fr E1 E2 r st p4 by (simp add: ready_def)
  have blk: "heap s b = None" if "b \<in> set (blocks L)" for b
  proof -
    have "fresh s \<le> b" using D(2) that by fastforce
    then show ?thesis using goodD(1) [OF g] by (simp add: heap_ok_def)
  qed
  have new: "heap s b = None" if "b \<in> owned (hmap (vartable s3))" "b \<notin> owned (hmap (vartable s))" "b \<noteq> ti" for b
  proof -
    have "fresh s2 \<le> b"
      using that ev1 fr unfolding evolves_def by auto
    then show ?thesis using goodD(1) [OF g] D(4) by (simp add: heap_ok_def)
  qed
  have h4: "heap s4 a = (if a \<in> owned (hmap (vartable s)) then None else heap s a)"
    if a: "a \<notin> owned (hmap (vartable s4))" for a
  proof (cases "a \<in> set (blocks L)")
    case True
    then have "heap s a = None" by (rule blk)
    moreover have "heap s4 a = None"
      using True L ev1 ev2 a unfolding evolves_def by (cases "a \<in> owned (hmap (vartable s3))") auto
    ultimately show ?thesis by simp
  next
    case False
    then have "heap s2 a = heap s a" by (rule D(5))
    then show ?thesis
      using False L ev1 ev2 a fr new [of a] unfolding evolves_def
      by (cases "a \<in> owned (hmap (vartable s3))") auto
  qed
  have own4: "a \<in> owned (hmap (vartable s)) \<or> heap s a = None" if a: "a \<in> owned (hmap (vartable s4))" for a
  proof -
    consider "a \<in> owned (hmap (vartable s3))" "a \<noteq> ti" | "a \<in> set (blocks L)" | "fresh s3 \<le> a"
      using ev2 a L unfolding evolves_def by auto
    then show ?thesis
    proof cases
      case 1
      then show ?thesis using new [of a] by (cases "a \<in> owned (hmap (vartable s))") auto
    next
      case 2
      then show ?thesis by (simp add: blk)
    next
      case 3
      then show ?thesis using goodD(1) [OF g] D(4) E1(3) by (simp add: heap_ok_def)
    qed
  qed
  show "tidy hmap s s4"
    using fr E1 E2 D(4) h4 own4 by (simp add: tidy_def)
qed

lemma tidyD:
  assumes "tidy hmap s s'"
  shows "a \<in> owned (hmap (vartable s')) \<Longrightarrow> a \<in> owned (hmap (vartable s)) \<or> heap s a = None"
    and "a \<notin> owned (hmap (vartable s')) \<Longrightarrow>
      heap s' a = (if a \<in> owned (hmap (vartable s)) then None else heap s a)"
  using assms by (simp_all add: tidy_def)

lemma tidy_trans:
  assumes 1: "tidy hmap s s1" and 2: "tidy hmap s1 s2"
  shows "tidy hmap s s2"
proof -
  have "heap s2 a = (if a \<in> owned (hmap (vartable s)) then None else heap s a)"
    if "a \<notin> owned (hmap (vartable s2))" for a
    using tidyD(2) [OF 2 that] tidyD [OF 1, of a] by (cases "a \<in> owned (hmap (vartable s1))") auto
  moreover have "a \<in> owned (hmap (vartable s)) \<or> heap s a = None" if "a \<in> owned (hmap (vartable s2))" for a
    using tidyD(1) [OF 2 that] tidyD [OF 1, of a]
    by (cases "a \<in> owned (hmap (vartable s))"; cases "a \<in> owned (hmap (vartable s1))") auto
  ultimately show ?thesis
    using 1 2 by (simp add: tidy_def)
qed

text \<open>
  The start of a line, whatever its instruction: its words are scanned to tokens for its arguments, the token of the
  instruction is freed, and the handler of the instruction takes over.
\<close>

definition items :: "toks \<Rightarrow> item list" where
  "items L = map (fst \<circ> snd) L"

lemma items_Cons: "items L = it # its \<Longrightarrow> \<exists>tk F M. L = (tk, it, F) # M \<and> items M = its"
  by (cases L) (auto simp: items_def)

lemma items_Nil: "items L = [] \<longleftrightarrow> L = []"
  by (simp add: items_def)

context voids_lib
begin

lemma line_start:
  assumes rd: "ready hinv hmap rinv rlist A (pre @ name_str i @ args_str as bs @ r) s"
    and pre: "pre \<noteq> []" "list_all blank pre" and a: "args_ok as bs"
    and scan: "\<And>s1. pend s1 (args_str as bs @ r) \<Longrightarrow> heap_ok s1 \<Longrightarrow> rinv (translated_line s1) \<Longrightarrow>
      \<exists>s2 L. scan_handler V i s1 = Ok s2 \<and> items L = map (IExpr \<circ> snd) as \<and> scans rinv rlist L s1 s2 \<and>
        pend s2 (CHR 0x0A # r) \<and> pstate s2 = pstate s1"
  obtains s2 ti L s3 r1 where "items L = map (IExpr \<circ> snd) as" "scans rinv rlist ((ti, IIns i, []) # L) s s2"
    "pend s2 (CHR 0x0A # r)" "pstate s2 = INSTRUCTION_LINE" "rinv r1" "rlist r1 = map fst L"
    "evolves hinv hmap {ti} (s2\<lparr>translated_line := r1\<rparr>) A s3" "toks_rep (heap s3) L"
    "set (blocks L) \<inter> owned (hmap (vartable s3)) = {}" "translated_line s3 = r1" "argv s3 = argv s" "mem_max s3 = mem_max s"
    "interpret_next_line V s = bnd (exec_handler V i s3) (\<lambda>s. Ok (if pstate s = LAST_LINE then s\<lparr>pstate := FINISHED\<rparr> else s))"
proof -
  note R = rd [unfolded ready_def]
  have g: "good hinv hmap A s" using R by simp
  obtain c t where c: "args_str as bs = c # t" "blank c"
    using args_str_blank [OF a] by blast
  have p: "pend s (pre @ name_str i @ (c # t) @ r)"
    using R unfolding c(1) by blast
  obtain s1 ti where s1: "tokenize_next_line V s = scan_handler V i s1"
      "scans rinv rlist [(ti, IIns i, [])] s s1" "pend s1 (c # t @ r)" "pstate s1 = pstate s"
      "heap_ok s1" "rinv (translated_line s1)"
    by (rule tokenize_ins [of s pre i c "t @ r", OF stands_pend]) (use R p pre c(2) goodD(1) [OF g] in auto)
  have "pend s1 (args_str as bs @ r)" using s1(3) unfolding c(1) by simp
  then obtain s2 L where s2: "scan_handler V i s1 = Ok s2" "items L = map (IExpr \<circ> snd) as" "scans rinv rlist L s1 s2"
      "pend s2 (CHR 0x0A # r)" "pstate s2 = pstate s1"
    using scan s1(5,6) by blast
  have sc: "scans rinv rlist ((ti, IIns i, []) # L) s s2"
    using scans_trans [OF s1(2) s2(3)] by simp
  note D = scansD [OF sc]
  have fr: "argv s2 = argv s" "mem_max s2 = mem_max s" using D(8) by (simp_all add: scan_frame_def)
  note g2 = scans_good [OF g sc]
  have rl: "rlist (translated_line s2) = ti # map fst L" using D(7) R by simp
  obtain s3 r1 where s3: "exec_instruction_line V s2 = exec_handler V i s3" "rinv r1" "rlist r1 = map fst L"
    "evolves hinv hmap {ti} (s2\<lparr>translated_line := r1\<rparr>) A s3" "toks_rep (heap s3) L"
    "set (blocks L) \<inter> owned (hmap (vartable s3)) = {}" "translated_line s3 = r1"
    by (rule exec_line_ins [OF g2(1) D(6) rl D(1) g2(2)])
  have st: "pstate s2 = INSTRUCTION_LINE" "pstate s = INSTRUCTION_LINE" using R s1(4) s2(5) by simp_all
  show thesis
  proof (rule that [OF s2(2) sc s2(4) st(1) s3(2-7)])
    show "argv s3 = argv s" "mem_max s3 = mem_max s" using evolves_fields [OF s3(4)] fr by simp_all
    show "interpret_next_line V s = bnd (exec_handler V i s3) (\<lambda>s. Ok (if pstate s = LAST_LINE then s\<lparr>pstate := FINISHED\<rparr> else s))"
      using st s1(1) s2(1) s3(1) by (simp add: interpret_next_line_def)
  qed
qed

lemma interpret_set:
  assumes rd: "ready hinv hmap rinv rlist A (pre @ name_str SET_SYM @ args_str [(g1, e1), (g2, e2)] bs @ r) s"
    and pre: "pre \<noteq> []" "list_all blank pre" and a: "args_ok [(g1, e1), (g2, e2)] bs" and v: "is_var e1"
    and ag: "aget (argv s) (mem_max s) A e2 = Some (x, A1, ins)" and as: "aset (argv s) (mem_max s) A1 e1 x = Some A2"
  shows "\<exists>s'. interpret_next_line V s = Ok s' \<and> ready hinv hmap rinv rlist A2 (CHR 0x0A # r) s' \<and> tidy hmap s s'"
proof -
  note R = rd [unfolded ready_def]
  have g: "good hinv hmap A s" using R by simp
  obtain s2 ti L s3 r1 where l: "items L = map (IExpr \<circ> snd) [(g1, e1), (g2, e2)]" "scans rinv rlist ((ti, IIns SET_SYM, []) # L) s s2"
    "pend s2 (CHR 0x0A # r)" "pstate s2 = INSTRUCTION_LINE" "rinv r1" "rlist r1 = map fst L"
    "evolves hinv hmap {ti} (s2\<lparr>translated_line := r1\<rparr>) A s3" "toks_rep (heap s3) L"
    "set (blocks L) \<inter> owned (hmap (vartable s3)) = {}" "translated_line s3 = r1" "argv s3 = argv s" "mem_max s3 = mem_max s"
    "interpret_next_line V s = bnd (exec_handler V SET_SYM s3) (\<lambda>s. Ok (if pstate s = LAST_LINE then s\<lparr>pstate := FINISHED\<rparr> else s))"
  proof (rule line_start [OF rd pre a])
    show "\<exists>s2 L. scan_handler V SET_SYM s1 = Ok s2 \<and> items L = map (IExpr \<circ> snd) [(g1, e1), (g2, e2)] \<and> scans rinv rlist L s1 s2 \<and>
        pend s2 (CHR 0x0A # r) \<and> pstate s2 = pstate s1"
      if h: "pend s1 (args_str [(g1, e1), (g2, e2)] bs @ r)" "heap_ok s1" "rinv (translated_line s1)" for s1
    proof -
      obtain s2 t1 F1 t2 F2 where "scan_set V SET_SYM s1 = Ok s2"
          "scans rinv rlist [(t1, IExpr e1, F1), (t2, IExpr e2, F2)] s1 s2" "pend s2 (CHR 0x0A # r)" "pstate s2 = pstate s1"
        using scan_set_text [of s1 g1 e1 g2 e2 bs r SET_SYM, OF h(1) a v h(2,3)] by blast
      then show ?thesis
        by (intro exI [of _ s2] exI [of _ "[(t1, IExpr e1, F1), (t2, IExpr e2, F2)]"]) (simp add: items_def)
    qed
  qed blast
  obtain t1 F1 t2 F2 where L: "L = [(t1, IExpr e1, F1), (t2, IExpr e2, F2)]"
    using l(1) by (auto dest!: items_Cons simp: items_Nil)
  obtain s4 r2 where s4: "set_handler V s3 = Ok s4" "rinv r2" "rlist r2 = []"
    "evolves hinv hmap (set (t2 # F2) \<union> set (t1 # F1)) (s3\<lparr>translated_line := r2\<rparr>) A2 s4"
    using set_handler_refines [OF evolves_good [OF l(7)] _ _ l(8,9) [unfolded L], of "[]" x A1 ins A2] l(5,6,10-12) ag as L by auto
  have "ready hinv hmap rinv rlist A2 (CHR 0x0A # r) s4" "tidy hmap s s4"
    using line_done [OF g _ _ l(4,2,3,7) s4(4,2,3)] R L by auto
  then show ?thesis using l(13) s4(1) by (auto simp: ready_def)
qed

lemma op_handlers:
  assumes "i \<in> {ADD_SYM, SUB_SYM, MUL_SYM, DIV_SYM, MOD_SYM}"
  shows "scan_handler V i = scan_primitive_op V i" "exec_handler V i = primitive_op_handler V i"
  using assms by auto

lemma interpret_op:
  assumes i: "i \<in> {ADD_SYM, SUB_SYM, MUL_SYM, DIV_SYM, MOD_SYM}"
    and rd: "ready hinv hmap rinv rlist A (pre @ name_str i @ args_str [(g1, e1), (g2, e2), (g3, e3)] bs @ r) s"
    and pre: "pre \<noteq> []" "list_all blank pre" and a: "args_ok [(g1, e1), (g2, e2), (g3, e3)] bs" and v: "is_var e1"
    and ag: "aget (argv s) (mem_max s) A e2 = Some (x, A1, ins1)" "aget (argv s) (mem_max s) A1 e3 = Some (y, A2, ins2)"
    and op: "op_value i x y = Some z" and as: "aset (argv s) (mem_max s) A2 e1 z = Some A3"
  shows "\<exists>s'. interpret_next_line V s = Ok s' \<and> ready hinv hmap rinv rlist A3 (CHR 0x0A # r) s' \<and> tidy hmap s s'"
proof -
  note R = rd [unfolded ready_def]
  have g: "good hinv hmap A s" using R by simp
  let ?as = "[(g1, e1), (g2, e2), (g3, e3)]"
  obtain s2 ti L s3 r1 where l: "items L = map (IExpr \<circ> snd) ?as" "scans rinv rlist ((ti, IIns i, []) # L) s s2"
    "pend s2 (CHR 0x0A # r)" "pstate s2 = INSTRUCTION_LINE" "rinv r1" "rlist r1 = map fst L"
    "evolves hinv hmap {ti} (s2\<lparr>translated_line := r1\<rparr>) A s3" "toks_rep (heap s3) L"
    "set (blocks L) \<inter> owned (hmap (vartable s3)) = {}" "translated_line s3 = r1" "argv s3 = argv s" "mem_max s3 = mem_max s"
    "interpret_next_line V s = bnd (exec_handler V i s3) (\<lambda>s. Ok (if pstate s = LAST_LINE then s\<lparr>pstate := FINISHED\<rparr> else s))"
  proof (rule line_start [OF rd pre a])
    show "\<exists>s2 L. scan_handler V i s1 = Ok s2 \<and> items L = map (IExpr \<circ> snd) ?as \<and> scans rinv rlist L s1 s2 \<and>
        pend s2 (CHR 0x0A # r) \<and> pstate s2 = pstate s1"
      if h: "pend s1 (args_str ?as bs @ r)" "heap_ok s1" "rinv (translated_line s1)" for s1
    proof -
      obtain s2 t1 F1 t2 F2 t3 F3 where "scan_primitive_op V i s1 = Ok s2"
          "scans rinv rlist [(t1, IExpr e1, F1), (t2, IExpr e2, F2), (t3, IExpr e3, F3)] s1 s2" "pend s2 (CHR 0x0A # r)"
          "pstate s2 = pstate s1"
        using scan_primitive_op_text [of s1 g1 e1 g2 e2 g3 e3 bs r i, OF h(1) a v h(2,3)] by blast
      then show ?thesis
        by (intro exI [of _ s2] exI [of _ "[(t1, IExpr e1, F1), (t2, IExpr e2, F2), (t3, IExpr e3, F3)]"])
          (simp add: items_def op_handlers(1) [OF i])
    qed
  qed blast
  obtain t1 F1 t2 F2 t3 F3 where L: "L = [(t1, IExpr e1, F1), (t2, IExpr e2, F2), (t3, IExpr e3, F3)]"
    using l(1) by (auto dest!: items_Cons simp: items_Nil)
  have h: "rinv (translated_line s3)" "rlist (translated_line s3) = t1 # t2 # t3 # []"
    "aget (argv s3) (mem_max s3) A e2 = Some (x, A1, ins1)" "aget (argv s3) (mem_max s3) A1 e3 = Some (y, A2, ins2)"
    "aset (argv s3) (mem_max s3) A2 e1 z = Some A3"
    using l(5,6,10-12) ag as L by simp_all
  obtain s4 r2 where s4: "primitive_op_handler V i s3 = Ok s4" "rinv r2" "rlist r2 = []"
    "evolves hinv hmap (set (t2 # F2) \<union> (set (t3 # F3) \<union> set (t1 # F1))) (s3\<lparr>translated_line := r2\<rparr>) A3 s4"
    using primitive_op_handler_refines [OF evolves_good [OF l(7)] h(1,2) l(8,9) [unfolded L] h(3,4) op h(5)] by blast
  have "ready hinv hmap rinv rlist A3 (CHR 0x0A # r) s4" "tidy hmap s s4"
    using line_done [OF g _ _ l(4,2,3,7) s4(4,2,3)] R L by auto
  then show ?thesis using l(13) s4(1) op_handlers(2) [OF i] by (auto simp: ready_def)
qed

end

end
