(* ===== verification/Programs.thy ===== *)
theory Programs imports Straight begin

section \<open>Whole straight-line programs\<close>

text \<open>
  A file that consists of the magic line and of lines of the instructions of \<open>instr\<close> runs to its end:
  the variables are what the steps of the instructions make of the empty environment, no error is
  reported, and \<open>program_free\<close> releases every block.
\<close>

fun isteps :: "c_int list \<Rightarrow> nat \<Rightarrow> env \<Rightarrow> instr list \<Rightarrow> env option" where
  "isteps av mm A [] = Some A"
| "isteps av mm A (i # is) = (case istep av mm A i of None \<Rightarrow> None | Some A1 \<Rightarrow> isteps av mm A1 is)"

definition lines_text :: "src_line list \<Rightarrow> string" where
  "lines_text ls = concat (map line_text ls)"

context voids_lib
begin

lemma interpret_line:
  assumes rd: "ready hinv hmap rinv rlist A (CHR 0x0A # line_text l @ r) s" and l: "line_ok l"
    and st: "istep (argv s) (mem_max s) A (line_instr l) = Some A'"
  shows "\<exists>s'. interpret_next_line V s = Ok s' \<and> ready hinv hmap rinv rlist A' (CHR 0x0A # r) s' \<and> tidy hmap s s'"
proof -
  obtain pre i gs bs where lq: "l = (pre, i, gs, bs)" by (cases l) auto
  have l: "line_ok (pre, i, gs, bs)" using l lq by simp
  have pre: "CHR 0x0A # pre \<noteq> []" "list_all blank (CHR 0x0A # pre)" using l by (simp_all add: isspace_def)
  note a = line_args_ok [OF l]
  show ?thesis
  proof (cases i)
    case (ISet e1 e2)
    obtain g1 g2 where g: "gs = [g1, g2]"
      using l ISet by (auto simp: length_Suc_conv numeral_2_eq_2)
    obtain x A1 ins where v: "aget (argv s) (mem_max s) A e2 = Some (x, A1, ins)"
        "aset (argv s) (mem_max s) A1 e1 x = Some A'"
      using st lq ISet by (auto split: option.splits)
    have v1: "is_var e1" using l ISet by (simp add: instr_ok_def)
    show ?thesis
      by (rule interpret_set [of A "CHR 0x0A # pre" g1 e1 g2 e2 bs r, OF _ pre _ v1 v])
        (use rd lq a g ISet in simp_all)
  next
    case (IOp ins e1 e2 e3)
    obtain g1 g2 g3 where g: "gs = [g1, g2, g3]"
      using l IOp by (auto simp: length_Suc_conv numeral_3_eq_3)
    obtain x A1 ins1 y A2 ins2 z where v: "aget (argv s) (mem_max s) A e2 = Some (x, A1, ins1)"
        "aget (argv s) (mem_max s) A1 e3 = Some (y, A2, ins2)" "op_value ins x y = Some z"
        "aset (argv s) (mem_max s) A2 e1 z = Some A'"
      using st lq IOp by (auto split: option.splits)
    have "ins \<noteq> SET_SYM" using v(3) by (auto simp: op_value_def)
    then have i: "ins \<in> {ADD_SYM, SUB_SYM, MUL_SYM, DIV_SYM, MOD_SYM}" and v1: "is_var e1"
      using l IOp by (auto simp: instr_ok_def)
    show ?thesis
      by (rule interpret_op [of ins A "CHR 0x0A # pre" g1 e1 g2 e2 g3 e3 bs r, OF i _ pre _ v1 v])
        (use rd lq a g IOp in simp_all)
  qed
qed

lemma run_lines:
  assumes "ready hinv hmap rinv rlist A (CHR 0x0A # lines_text ls @ r) s" and "list_all line_ok ls"
    and "isteps (argv s) (mem_max s) A (map line_instr ls) = Some A'"
  shows "\<exists>s'. run_slice V (length ls + n) s = run_slice V n s' \<and> ready hinv hmap rinv rlist A' (CHR 0x0A # r) s' \<and>
    (ls = [] \<and> s' = s \<or> tidy hmap s s')"
  using assms
proof (induction ls arbitrary: A s)
  case Nil
  then show ?case by (auto simp: lines_text_def)
next
  case (Cons l ls)
  obtain A1 where A1: "istep (argv s) (mem_max s) A (line_instr l) = Some A1"
      "isteps (argv s) (mem_max s) A1 (map line_instr ls) = Some A'"
    using Cons.prems(3) by (auto split: option.splits)
  have "ready hinv hmap rinv rlist A (CHR 0x0A # line_text l @ lines_text ls @ r) s"
    using Cons.prems(1) by (simp add: lines_text_def)
  then obtain s1 where s1: "interpret_next_line V s = Ok s1"
      "ready hinv hmap rinv rlist A1 (CHR 0x0A # lines_text ls @ r) s1" "tidy hmap s s1"
    using interpret_line [of A l "lines_text ls @ r" s A1] Cons.prems(2) A1(1) by auto
  have "isteps (argv s1) (mem_max s1) A1 (map line_instr ls) = Some A'"
    using A1(2) s1(3) by (simp add: tidy_def)
  then obtain s2 where s2: "run_slice V (length ls + n) s1 = run_slice V n s2"
      "ready hinv hmap rinv rlist A' (CHR 0x0A # r) s2" "ls = [] \<and> s2 = s1 \<or> tidy hmap s1 s2"
    using Cons.IH [OF s1(2)] Cons.prems(2) by auto
  have "pstate s1 = INSTRUCTION_LINE" using s1(2) by (simp add: ready_def)
  then have "run_slice V (length (l # ls) + n) s = run_slice V n s2"
    using s1(1) s2(1) by simp
  moreover have "tidy hmap s s2"
    using s2(3) s1(3) tidy_trans by blast
  ultimately show ?case using s2(2) by blast
qed

text \<open>The end of the file: nothing but blanks is left.\<close>

lemma interpret_end:
  assumes rd: "ready hinv hmap rinv rlist A (CHR 0x0A # bs) s" and bs: "list_all blank bs"
  shows "interpret_next_line V s = Ok ((adv (Suc (length bs)) s)\<lparr>pstate := FINISHED\<rparr>)"
proof -
  note R = rd [unfolded ready_def pend_def]
  have "isspace (c_in s)" using R by (simp add: isspace_def)
  then have nw: "get_next_word MAX_ALLOWED_SYMBOL_LEN False s = Ok (0, adv (Suc (length bs)) s)"
    using next_word_none [of s bs False] R bs by simp
  have "rb_read V (translated_line s) = (translated_line s, NULL, VDS_BUFFER_EMPTY)"
    using read_Nil R by simp
  moreover have "translated_line ((adv (Suc (length bs)) s)\<lparr>translated_line := r\<rparr>) = r" for r by simp
  moreover have "(adv (Suc (length bs)) s)\<lparr>translated_line := translated_line s\<rparr> = adv (Suc (length bs)) s"
    using adv_fields(12) [of "Suc (length bs)" s] by (metis (no_types) program_s.surjective program_s.update_convs(13))
  ultimately show ?thesis
    using nw R by (simp add: interpret_next_line_def tokenize_next_line_def is_valid_label_def
        call_instruction_handler_def exec_instruction_line_def ring_read_def text_simps)
qed

end

subsection \<open>The magic line\<close>

lemma put_word_end: "(put_word i w f)(i + length w := f (i + length w)) = (\<lambda>j. if i \<le> j \<and> j < i + length w then w ! (j - i) else f j)"
  by (rule ext) (simp add: put_word_def)

text \<open>The loop puts the characters it reads into the buffer.\<close>

lemma magic_loop_text:
  assumes "rest s = w @ r" and "i + length w \<le> Suc MAX_INPUT_STR_LEN"
  shows "\<exists>f. magic_loop i (length w) s = Ok (True, (adv (length w) s)\<lparr>input := f\<rparr>) \<and> holds f i w \<and>
    (\<forall>j < i. f j = input s j)"
  using assms
proof (induction w arbitrary: i s)
  case Nil
  then show ?case by (auto intro!: exI [of _ "input s"])
next
  case (Cons x w)
  let ?s = "(next_char s)\<lparr>input := (input s)(i := x)\<rparr>"
  have "rest ?s = w @ r"
    using next_char_rest [of s x] Cons.prems(1) by (simp add: text_simps)
  then obtain f where f: "magic_loop (Suc i) (length w) ?s = Ok (True, (adv (length w) ?s)\<lparr>input := f\<rparr>)"
      "holds f (Suc i) w" "\<forall>j < Suc i. f j = input ?s j"
    using Cons.IH [of ?s "Suc i"] Cons.prems(2) by auto
  have "magic_loop i (Suc (length w)) s = magic_loop (Suc i) (length w) ?s"
    using next_char_c [of s x] Cons.prems by (simp add: Let_def put_input_def text_simps)
  then show ?case
    using f Cons.prems(2) by (auto simp: adv_input adv_Suc intro!: exI [of _ f])
qed

lemma input_eq_holds: "input_eq f i w \<longleftrightarrow> (\<forall>k < length w. f (i + k) = w ! k) \<and> f (i + length w) = NUL"
proof (induction w arbitrary: i)
  case (Cons x w)
  then show ?case by (auto simp: less_Suc_eq_0_disj nth_Cons' split: if_splits)
qed simp

lemma holds_nth: "i + length w \<le> Suc MAX_INPUT_STR_LEN \<Longrightarrow> holds f i w \<longleftrightarrow> (\<forall>k < length w. f (i + k) = w ! k)"
proof (induction w arbitrary: i)
  case (Cons x w)
  then show ?case by (auto simp: less_Suc_eq_0_disj)
qed simp

lemma die_c [simp]: "c_in (die m s) = c_in s"
  by (simp add: die_def err_msg_def program_stop_def split: prod.splits)

lemma parse_magic_eq:
  assumes r: "rest s = w @ x # r" and w: "length w = length magic_bytes"
  obtains f where "parse_magic s = Ok (let s1 = (if w = magic_bytes then (adv 9 s)\<lparr>input := f\<rparr> else die MNotSimbly ((adv 9 s)\<lparr>input := f\<rparr>)) in
       if x \<noteq> CHR 0x0A then
         case flush_up_to_char s1 of (ret, s2) \<Rightarrow>
           if line s1 = line s2 then die MMagicTrailing s2
           else if \<not> ret then s2\<lparr>pstate := FINISHED\<rparr> else s2\<lparr>pstate := INSTRUCTION_LINE\<rparr>
       else s1\<lparr>pstate := INSTRUCTION_LINE\<rparr>)"
proof -
  have len: "length (w @ [x]) = 9" using w by (simp add: magic_bytes_def)
  obtain f where f: "magic_loop 0 (length (w @ [x])) s = Ok (True, (adv (length (w @ [x])) s)\<lparr>input := f\<rparr>)" "holds f 0 (w @ [x])"
    using magic_loop_text [of s "w @ [x]" r 0] r w by (auto simp: limit_defs magic_bytes_def)
  let ?f = "f(8 := NUL)"
  have c: "c_in (adv 9 s) = of_char x"
    using adv_c [OF r] len by simp
  have "\<forall>k < 8. f k = w ! k"
    using f(2) holds_nth [of 0 "w @ [x]" f] w by (auto simp: limit_defs magic_bytes_def nth_append)
  then have eq: "input_eq ?f 0 magic_bytes \<longleftrightarrow> w = magic_bytes"
    using w by (simp add: input_eq_holds list_eq_iff_nth_eq) (auto simp: magic_bytes_def)
  have ml: "magic_loop 0 9 s = Ok (True, (adv 9 s)\<lparr>input := f\<rparr>)" using f(1) unfolding len .
  let ?s = "(adv 9 s)\<lparr>input := ?f\<rparr>"
  let ?s1 = "if w = magic_bytes then ?s else die MNotSimbly ?s"
  have n: "length magic_bytes + 1 = 9" "length magic_bytes = 8" by (simp_all add: magic_bytes_def)
  have c1: "c_in ?s1 \<noteq> 10 \<longleftrightarrow> x \<noteq> CHR 0x0A"
    using c by (simp add: of_char_newline)
  have "parse_magic s = (if c_in ?s1 \<noteq> 10 then case flush_up_to_char ?s1 of (ret, s2) \<Rightarrow>
      if line ?s1 = line s2 then Ok (die MMagicTrailing s2)
      else if \<not> ret then Ok (s2\<lparr>pstate := FINISHED\<rparr>) else Ok (s2\<lparr>pstate := INSTRUCTION_LINE\<rparr>)
      else Ok (?s1\<lparr>pstate := INSTRUCTION_LINE\<rparr>))"
    unfolding parse_magic_def n using ml eq by (simp add: put_input_def limit_defs Let_def)
  also have "\<dots> = Ok (let s1 = ?s1 in if x \<noteq> CHR 0x0A then case flush_up_to_char s1 of (ret, s2) \<Rightarrow>
      if line s1 = line s2 then die MMagicTrailing s2
      else if \<not> ret then s2\<lparr>pstate := FINISHED\<rparr> else s2\<lparr>pstate := INSTRUCTION_LINE\<rparr>
      else s1\<lparr>pstate := INSTRUCTION_LINE\<rparr>)"
    unfolding c1 Let_def by (cases "flush_up_to_char ?s1") (simp only: prod.case split: if_split, simp)
  finally show thesis by (rule that)
qed

lemma parse_magic_ok:
  assumes r: "rest s = magic_bytes @ CHR 0x0A # t"
  shows "\<exists>f. parse_magic s = Ok ((adv 9 s)\<lparr>input := f, pstate := INSTRUCTION_LINE\<rparr>)"
  by (rule parse_magic_eq [OF r]) auto

subsection \<open>The start of a program\<close>

context voids_lib
begin

lemma insert_names_ok:
  assumes "hinv h" and "hmap h = map_of (map (\<lambda>i. (name_str i, ins_code i, ins_code i)) done)"
    and "distinct (done @ todo)"
  shows "\<exists>h'. insert_names V todo h = Ok h' \<and> hinv h' \<and>
    hmap h' = map_of (map (\<lambda>i. (name_str i, ins_code i, ins_code i)) (done @ todo))"
  using assms
proof (induction todo arbitrary: h "done")
  case (Cons i todo)
  have "hmap h (name_str i) = None"
    using Cons.prems by (auto simp: map_of_eq_None_iff)
  then obtain h' p where h': "qh_insert V h (name_str i) (ins_code i) (ins_code i) = (h', Some p, VDS_SUCCESS)"
      "hinv h'" "hmap h' = (hmap h)(name_str i \<mapsto> (ins_code i, ins_code i))"
    using insert_new [OF Cons.prems(1)] by blast
  have "hmap h' = map_of (map (\<lambda>i. (name_str i, ins_code i, ins_code i)) (done @ [i]))"
    using h'(3) Cons.prems(2) \<open>hmap h (name_str i) = None\<close> by (simp add: map_of_snoc del: map_of_append)
  then show ?case
    using Cons.IH [OF h'(2), of "done @ [i]"] Cons.prems(3) h'(1) by simp
qed auto

lemma lexer_init_ok: "\<exists>h. lexer_init V s = Ok (s\<lparr>itable := h\<rparr>) \<and> itab_ok hinv hmap h"
proof -
  have "distinct ([] @ instructions)" by (simp add: instructions_def)
  then obtain h where "insert_names V instructions (qh_init V (length instructions * 2 + 1)) = Ok h" "hinv h"
      "hmap h = map_of (map (\<lambda>i. (name_str i, ins_code i, ins_code i)) instructions)"
    using insert_names_ok [of "qh_init V (length instructions * 2 + 1)" "[]" instructions]
      init [of "length instructions * 2 + 1"] by auto
  then show ?thesis by (intro exI [of _ h]) (simp add: lexer_init_def itab_ok_def)
qed

lemma magic_start:
  assumes r: "rest s = magic_bytes @ CHR 0x0A # t" and st: "pstate s = MAGIC_LINE"
    and g: "good hinv hmap A s" and it: "itab_ok hinv hmap (itable s)"
    and rb: "rinv (translated_line s)" "rlist (translated_line s) = []"
  obtains s1 where "interpret_next_line V s = interpret_next_line V s1" "ready hinv hmap rinv rlist A (CHR 0x0A # t) s1" "tidy hmap s s1"
proof -
  obtain f where f: "parse_magic s = Ok ((adv 9 s)\<lparr>input := f, pstate := INSTRUCTION_LINE\<rparr>)"
    using parse_magic_ok [OF r] by blast
  let ?s = "(adv 9 s)\<lparr>input := f, pstate := INSTRUCTION_LINE\<rparr>"
  have "interpret_next_line V s = interpret_next_line V ?s"
    using f st by (simp add: interpret_next_line_def)
  moreover have len: "length (magic_bytes @ [CHR 0x0A]) = 9" "Suc (length magic_bytes) = 9"
    by (simp_all add: magic_bytes_def)
  have "pend ?s (CHR 0x0A # t)"
    using adv_c [OF r] adv_rest [of s "magic_bytes @ [CHR 0x0A]" t] r len
    by (simp add: pend_def text_simps del: length_append)
  moreover have "good hinv hmap A ?s"
    using g good_cong [of ?s s] by (simp add: text_simps)
  ultimately show thesis
    using it rb by (intro that [of ?s]) (auto simp: ready_def tidy_def text_simps owned_live [OF g])
qed

subsection \<open>The end of a program\<close>

definition pair_addrs :: "(addr \<times> addr) list \<Rightarrow> addr list" where
  "pair_addrs P = concat (map (\<lambda>(ka, da). [ka, da]) P)"

lemma pair_addrs_simps [simp]: "pair_addrs [] = []" "pair_addrs ((ka, da) # P) = ka # da # pair_addrs P"
  by (simp_all add: pair_addrs_def)

lemma pair_addrs_set: "a \<in> set (pair_addrs P) \<longleftrightarrow> (\<exists>ka da. (ka, da) \<in> set P \<and> (a = ka \<or> a = da))"
  by (force simp: pair_addrs_def)

lemma free_keyvals_ok:
  assumes "distinct (pair_addrs P)"
    and "\<forall>a \<in> set (pair_addrs P). a \<noteq> NULL \<and> heap s a \<noteq> None"
  shows "free_keyvals P s = Ok (s\<lparr>heap := \<lambda>a. if a \<in> set (pair_addrs P) then None else heap s a\<rparr>)"
  using assms
proof (induction P arbitrary: s)
  case (Cons x P)
  obtain ka da where x: "x = (ka, da)" by (cases x)
  obtain b b' where live: "ka \<noteq> NULL" "da \<noteq> NULL" "ka \<noteq> da" "heap s ka = Some b" "heap s da = Some b'"
    using Cons.prems x by auto
  let ?s = "s\<lparr>heap := (heap s)(ka := None, da := None)\<rparr>"
  have "free_keyvals (x # P) s = free_keyvals P ?s"
    using live x by (simp add: mem_simps)
  also have "\<dots> = Ok (?s\<lparr>heap := \<lambda>a. if a \<in> set (pair_addrs P) then None else heap ?s a\<rparr>)"
    using Cons.prems x by (intro Cons.IH) auto
  finally show ?case
    using x by (auto intro!: arg_cong [where f = "\<lambda>h. s\<lparr>heap := h\<rparr>"])
qed simp

lemma pairs_distinct:
  assumes inv: "vinv h m A" and ks: "distinct ks" "set ks \<subseteq> dom m"
  shows "distinct (pair_addrs (map (\<lambda>k. the (m k)) ks))"
  using ks
proof (induction ks)
  case (Cons k ks)
  obtain ka da where k: "m k = Some (ka, da)" using Cons.prems(2) by auto
  have new: "ka \<noteq> ka'" "da \<noteq> da'" "ka \<noteq> da'" "da \<noteq> ka'" if "k' \<in> set ks" "m k' = Some (ka', da')" for k' ka' da'
    using that Cons.prems(1) key_inj [OF inv k, of k'] key_not_data [OF inv k that(2)] key_not_data [OF inv that(2) k]
      data_injD [of m k ka da k'] k inv by (auto simp: vinv_def)
  have mem: "\<exists>k' ka' da'. k' \<in> set ks \<and> m k' = Some (ka', da') \<and> (a = ka' \<or> a = da')"
    if a: "a \<in> set (pair_addrs (map (\<lambda>k. the (m k)) ks))" for a
  proof -
    obtain ka' da' where "(ka', da') \<in> set (map (\<lambda>k. the (m k)) ks)" and o: "a = ka' \<or> a = da'"
      using a by (auto simp only: pair_addrs_set)
    then obtain k' where k': "k' \<in> set ks" "the (m k') = (ka', da')" by auto
    then have "m k' = Some (ka', da')" using Cons.prems(2) by (cases "m k'") auto
    with k' o show ?thesis by blast
  qed
  have "ka \<notin> set (pair_addrs (map (\<lambda>k. the (m k)) ks))"
    "da \<notin> set (pair_addrs (map (\<lambda>k. the (m k)) ks))"
    using mem new by blast+
  then show ?case
    using Cons k key_not_data [OF inv k k] by simp
qed simp

lemma program_free_ok:
  assumes g: "good hinv hmap A s" and rb: "rinv (translated_line s)" "rlist (translated_line s) = []"
  shows "program_free V s = Ok (s\<lparr>heap := \<lambda>a. if a \<in> owned (hmap (vartable s)) then None else heap s a\<rparr>)"
proof -
  let ?m = "hmap (vartable s)"
  obtain ks where ks: "distinct ks" "set ks = dom ?m" "qh_items V (vartable s) = map (\<lambda>k. the (?m k)) ks"
    using items [OF goodD(2) [OF g]] by blast
  have own: "set (pair_addrs (map (\<lambda>k. the (?m k)) ks)) = owned ?m"
  proof (rule set_eqI)
    show "a \<in> set (pair_addrs (map (\<lambda>k. the (?m k)) ks)) \<longleftrightarrow> a \<in> owned ?m" for a
      unfolding pair_addrs_set owned_def using ks(2) by (auto simp: dom_def image_iff) force+
  qed
  have "distinct (pair_addrs (map (\<lambda>k. the (?m k)) ks))"
    by (rule pairs_distinct [OF goodD(3) [OF g]]) (use ks in simp_all)
  from free_keyvals_ok [OF this, of s] show ?thesis
    unfolding own program_free_def ks(3) using owned_live [OF g] rb_items [OF rb(1)] rb(2) by simp
qed

lemma run_cong: "interpret_next_line V s = interpret_next_line V s1 \<Longrightarrow> run_slice V n s = run_slice V n s1"
  by (cases n) simp_all

lemma boot_ready:
  assumes "text = magic_bytes @ CHR 0x0A # t"
  obtains s0 s1 where "exec_init V (boot V mm (program_init V text pid args junk jc jp)) = Ok s0" "pstate s0 = MAGIC_LINE"
    "interpret_next_line V s0 = interpret_next_line V s1"
    "ready hinv hmap rinv rlist Map.empty (CHR 0x0A # t) s1" "argv s1 = pid # word_of_nat (length args) # args" "mem_max s1 = mm"
    "heap s1 = Map.empty" "out s1 = []" "\<not> error_flag s1" "owned (hmap (vartable s1)) = {}" "fbuf s1 = text"
proof -
  let ?b = "boot V mm (program_init V text pid args junk jc jp)"
  obtain h where h: "lexer_init V ?b = Ok (?b\<lparr>itable := h\<rparr>)" "itab_ok hinv hmap h"
    using lexer_init_ok by blast
  let ?s = "?b\<lparr>itable := h, gtab := qh_init V GLOBAL_TABLE_INIT_SIZE\<rparr>"
  have e: "exec_init V ?b = Ok ?s"
    using h(1) by (simp add: exec_init_def global_table_init_def)
  have v: "hinv (vartable ?s)" "hmap (vartable ?s) = Map.empty"
    using init [of DEFAULT_VARTABLE_LEN] by (simp_all add: boot_def program_init_def program_s.defs limit_defs)
  have rb: "rinv (translated_line ?s)" "rlist (translated_line ?s) = []"
    using rb_init [of DEFAULT_TRANSLATED_LINE_LEN] by (simp_all add: boot_def program_init_def program_s.defs limit_defs)
  have own: "owned (hmap (vartable ?s)) = {}" using v(2) by (simp add: owned_def)
  have g: "good hinv hmap Map.empty ?s"
    using v by (simp add: good_def vinv_def data_inj_def) (simp add: heap_ok_def boot_def program_s.defs)
  have f: "rest ?s = magic_bytes @ CHR 0x0A # t" "pstate ?s = MAGIC_LINE" "argv ?s = pid # word_of_nat (length args) # args"
    "mem_max ?s = mm" "heap ?s = Map.empty" "out ?s = []" "\<not> error_flag ?s" "itable ?s = h" "fbuf ?s = text"
    using assms by (simp_all add: boot_def program_init_def program_s.defs rest_def)
  obtain s1 where s1: "interpret_next_line V ?s = interpret_next_line V s1" "ready hinv hmap rinv rlist Map.empty (CHR 0x0A # t) s1" "tidy hmap ?s s1"
    by (rule magic_start [OF f(1,2) g _ rb]) (use h(2) f(8) in auto)
  have own1: "owned (hmap (vartable s1)) = {}"
  proof -
    have "hmap (vartable s1) k = None" for k
      using vinv_None [of "heap s1" "hmap (vartable s1)" Map.empty k] s1(2) by (simp add: ready_def good_def)
    then show ?thesis by (simp add: owned_def)
  qed
  have "heap s1 = Map.empty"
    using tidyD(2) [OF s1(3)] own own1 f(5) by (simp add: fun_eq_iff)
  then show thesis
    using that [OF e f(2) s1(1,2)] f own1 s1(3) by (simp add: tidy_def)
qed

lemma straight_program:
  assumes ls: "list_all line_ok ls" and bs: "list_all blank bs"
    and st: "isteps (pid # word_of_nat (length args) # args) mm Map.empty (map line_instr ls) = Some A"
  shows "\<exists>s s'. bnd (exec_init V (boot V mm (program_init V (magic_bytes @ CHR 0x0A # lines_text ls @ bs) pid args junk jc jp)))
      (run_slice V (length ls)) = Ok s \<and> pstate s = FINISHED \<and> \<not> error_flag s \<and> out s = [] \<and>
    good hinv hmap A s \<and> program_free V s = Ok s' \<and> heap s' = Map.empty"
proof -
  obtain s0 s1 where s0: "exec_init V (boot V mm (program_init V (magic_bytes @ CHR 0x0A # lines_text ls @ bs) pid args junk jc jp)) = Ok s0"
      "pstate s0 = MAGIC_LINE" "interpret_next_line V s0 = interpret_next_line V s1"
    and s1: "ready hinv hmap rinv rlist Map.empty (CHR 0x0A # lines_text ls @ bs) s1" "argv s1 = pid # word_of_nat (length args) # args"
    "mem_max s1 = mm" "heap s1 = Map.empty" "out s1 = []" "\<not> error_flag s1" "owned (hmap (vartable s1)) = {}"
    "fbuf s1 = magic_bytes @ CHR 0x0A # lines_text ls @ bs"
    by (rule boot_ready [OF refl])
  have s01: "run_slice V (length ls) s0 = run_slice V (length ls) s1" by (rule run_cong [OF s0(3)])
  obtain s2 where s2: "run_slice V (length ls) s1 = run_slice V 0 s2" "ready hinv hmap rinv rlist A (CHR 0x0A # bs) s2"
    "ls = [] \<and> s2 = s1 \<or> tidy hmap s1 s2"
    using run_lines [OF s1(1) ls, of A 0] st s1(2,3) by auto
  let ?s = "(adv (Suc (length bs)) s2)\<lparr>pstate := FINISHED\<rparr>"
  have fin: "interpret_next_line V s2 = Ok ?s"
    by (rule interpret_end [OF s2(2) bs])
  have g: "good hinv hmap A ?s"
    using s2(2) good_cong [of ?s s2] by (simp add: ready_def text_simps)
  have rb: "rinv (translated_line ?s)" "rlist (translated_line ?s) = []"
    using s2(2) by (simp_all add: ready_def text_simps)
  have "heap s2 a = None" if "a \<notin> owned (hmap (vartable s2))" for a
    using s2(3) s1(4,7) tidyD(2) [of hmap s1 s2 a] that by auto
  then have "heap ?s a = None" if "a \<notin> owned (hmap (vartable ?s))" for a
    using that by (simp add: text_simps)
  then have "(\<lambda>a. if a \<in> owned (hmap (vartable ?s)) then None else heap ?s a) = Map.empty"
    by (simp add: fun_eq_iff)
  then show ?thesis
    using s0(1) s01 s1(5,6) s2(1,3) fin g program_free_ok [OF g rb] by (auto simp: tidy_def text_simps)
qed

end

end
