(* ===== verification/LineProps.thy ===== *)
theory LineProps imports VarProps Programs begin

section \<open>Properties of instruction lines\<close>

text \<open>
  The effect of one line of text through scanner and interpreter.  The demonstration state stands
  before a line, with the variable \<open>a\<close> of \<open>VarProps\<close>.
\<close>

definition demo_line :: "string \<Rightarrow> (lhash, lring) st" where
  "demo_line t = demo_st\<lparr>itable := map (\<lambda>i. (name_str i, ins_code i, ins_code i)) instructions,
     fbuf := t, fpos := 0, c_in := 10, pstate := INSTRUCTION_LINE\<rparr>"

lemma demo_ready: "ready l_hinv map_of l_rinv snd demo_env (CHR 0x0A # t) (demo_line t)"
proof -
  have "good l_hinv map_of demo_env (demo_line t)"
    using demo_good good_cong [of "demo_line t" demo_st] by (simp add: demo_line_def)
  moreover have "itab_ok l_hinv map_of (itable (demo_line t))"
    by (simp add: itab_ok_def demo_line_def comp_def distinct_map inj_on_def) (simp add: instructions_def)
  ultimately show ?thesis
    by (simp add: ready_def pend_def rest_def demo_line_def) (simp add: demo_st_def boot_def program_init_def program_s.defs
        list_voids_def limit_defs)
qed

text \<open>The line \<open>ADD $b $a[1] 3\<close>.\<close>

definition demo_src :: src_line where
  "demo_src = ([], IOp ADD_SYM (EVar ''b'') (EArr ''a'' (EVal 1)) (EVal 3), ['' '', '' '', '' ''], [])"

lemma demo_src_ok: "line_ok demo_src"
  by code_simp

lemma demo_src_step:
  "istep (argv (demo_line t)) (mem_max (demo_line t)) demo_env (line_instr demo_src) =
    Some (demo_env(''b'' \<mapsto> VArr [10]))"
  by (simp add: demo_line_def demo_src_def demo_env_def op_value_def in_int_def aset_def)

text \<open>
  C8: \<open>interpret_next_line\<close> on a line of text.  A line that holds the instruction \<open>SET\<close> or one of
  the five arithmetic ones, with any blanks before and between its words, performs the step of the
  instruction on the variables, stops at the newline, reports nothing, and every block that it
  allocated and that is not a variable is free again.
\<close>

theorem line_correct:
  assumes "voids_lib V hinv hmap rinv rlist"
    and "ready hinv hmap rinv rlist A (CHR 0x0A # line_text l @ r) s" and "line_ok l"
    and "istep (argv s) (mem_max s) A (line_instr l) = Some A'"
  shows "\<exists>s'. interpret_next_line V s = Ok s' \<and> ready hinv hmap rinv rlist A' (CHR 0x0A # r) s' \<and>
    tidy hmap s s'"
  by (rule voids_lib.interpret_line [OF assms])

theorem line_witness:
  "\<exists>s'. interpret_next_line list_voids (demo_line (line_text demo_src @ [])) = Ok s' \<and>
    ready l_hinv map_of l_rinv snd (demo_env(''b'' \<mapsto> VArr [10])) (CHR 0x0A # []) s' \<and>
    tidy map_of (demo_line (line_text demo_src @ [])) s'"
  by (rule line_correct [OF lv.voids_lib_axioms demo_ready demo_src_ok demo_src_step])

end
