(* ===== verification/ScanSafe.thy ===== *)
theory ScanSafe imports Lines ParseValue begin

section \<open>Words and values of arbitrary files\<close>

text \<open>
  Whatever the bytes of the file are, \<open>tokenize_next_line\<close> returns: no access to the input buffer is
  out of bounds, no pointer is bad, \<open>atoi\<close> does not overflow, and every loop ends.  The exception is the
  message about a word that is too long, which prints a buffer without a terminator of its own
  (\<open>terminated\<close>, \<open>over\<close>).  \<open>quiet\<close> is the
  frame of the code that only moves the cursor and reports, \<open>grows\<close> that of the code that also
  allocates tokens.
\<close>

subsection \<open>Frames\<close>

definition sframe :: "('h, 'r) st \<Rightarrow> ('h, 'r) st \<Rightarrow> bool" where
  "sframe s s' \<longleftrightarrow> argv s' = argv s \<and> mem_max s' = mem_max s \<and> vartable s' = vartable s \<and>
     gtab s' = gtab s \<and> itable s' = itable s \<and> fbuf s' = fbuf s \<and> sem s' = sem s \<and>
     blocked_idx s' = blocked_idx s \<and> sleep_sec s' = sleep_sec s \<and> sleep_nsec s' = sleep_nsec s \<and>
     left s' \<le> left s"

definition quiet :: "('h, 'r) st \<Rightarrow> ('h, 'r) st \<Rightarrow> bool" where
  "quiet s s' \<longleftrightarrow> sframe s s' \<and> heap s' = heap s \<and> fresh s' = fresh s \<and> translated_line s' = translated_line s"

named_theorems quiet_rules "code that only moves the cursor and reports"

lemma sframe_trans: "sframe s s1 \<Longrightarrow> sframe s1 s2 \<Longrightarrow> sframe s s2"
  by (simp add: sframe_def)

lemma quiet_refl [quiet_rules]: "quiet s s"
  by (simp add: quiet_def sframe_def)

lemma quiet_trans: "quiet s s1 \<Longrightarrow> quiet s1 s2 \<Longrightarrow> quiet s s2"
  by (auto simp: quiet_def intro: sframe_trans)

lemma next_char_left_le: "left (next_char s) \<le> left s"
  by (auto simp: next_char_def fgetc_def left_def next_line_def Let_def)

lemma quiet_next [quiet_rules]: "quiet s (next_char s)"
  by (simp add: quiet_def sframe_def text_simps next_char_left_le)

lemma quiet_die [quiet_rules]: "quiet s (die m s)" "quiet s (err_msg m s)" "quiet s (warn_msg m s)"
  by (simp_all add: quiet_def sframe_def die_def err_msg_def warn_msg_def program_stop_def left_def split: prod.splits)

lemma quiet_upd [quiet_rules]: "quiet s (s\<lparr>pstate := p\<rparr>)" "quiet s (s\<lparr>input := f\<rparr>)" "quiet s (s\<lparr>pstate := p, input := f\<rparr>)"
  "quiet s (program_stop b s)"
  by (simp_all add: quiet_def sframe_def left_def program_stop_def)

lemma die_fields [simp]: "input (die m s) = input s" "c_in (die m s) = c_in s" "pstate (die m s) = FINISHED"
  by (simp_all add: die_def err_msg_def program_stop_def split: prod.splits)

lemma put_input_ok [simp]: "i \<le> MAX_INPUT_STR_LEN \<Longrightarrow> put_input i x s = Ok (s\<lparr>input := (input s)(i := to_char x)\<rparr>)"
  by (simp add: put_input_def)

subsection \<open>Blanks and words\<close>

lemma quiet_flush_char: "quiet s (snd (flush_up_to_char s))"
proof (induction s rule: flush_up_to_char.induct)
  case (1 s)
  then show ?case
    using quiet_next [of s] quiet_trans [OF quiet_next [of s]]
    by (subst flush_up_to_char.simps) (auto simp: Let_def)
qed

lemma quiet_flush_newline: "quiet s (snd (flush_up_to_newline s))"
proof (induction s rule: flush_up_to_newline.induct)
  case (1 s)
  then show ?case
    using quiet_next [of s] quiet_trans [OF quiet_next [of s]] quiet_refl [of s]
    by (subst flush_up_to_newline.simps) (auto simp: Let_def)
qed

text \<open>A word in the buffer: its length is within the limit and it is terminated.\<close>

definition word_at :: "nat \<Rightarrow> nat \<Rightarrow> ('h, 'r) st \<Rightarrow> bool" where
  "word_at m n s \<longleftrightarrow> n < m \<and> (0 < n \<longrightarrow> input s n = NUL)"

text \<open>The buffer has a terminator at \<open>m\<close> or behind it.\<close>

definition terminated :: "nat \<Rightarrow> ('h, 'r) st \<Rightarrow> bool" where
  "terminated m s \<longleftrightarrow> NUL \<in> set (map (input s) [m..<Suc MAX_INPUT_STR_LEN])"

lemma terminated_iff: "terminated m s \<longleftrightarrow> (\<exists>k. m \<le> k \<and> k \<le> MAX_INPUT_STR_LEN \<and> input s k = NUL)"
  by (auto simp: terminated_def image_iff Bex_def less_Suc_eq_le simp del: upt_Suc; metis)

lemma read_input_terminated: "read_input s = (if terminated 0 s then Ok () else Undef OutOfBounds)"
  by (simp only: read_input_def terminated_def)

lemma read_input_cases: "read_input s = Ok () \<or> \<not> terminated m s \<and> read_input s = Undef OutOfBounds"
  using terminated_iff [of m s] terminated_iff [of 0 s] by (auto simp: read_input_terminated)

text \<open>\<open>over C m Q\<close>: \<open>m\<close> returns and its result satisfies \<open>Q\<close>, but when \<open>C\<close> holds it may instead read past the buffer.\<close>

primrec over :: "bool \<Rightarrow> 'a res \<Rightarrow> ('a \<Rightarrow> bool) \<Rightarrow> bool" where
  "over C (Ok x) Q = Q x"
| "over C (Undef k) Q = (C \<and> k = OutOfBounds)"
| "over C Exit Q = False"
| "over C Diverge Q = False"

lemma over_bnd [simp]: "over C (bnd m f) Q = over C m (\<lambda>x. over C (f x) Q)"
  by (cases m) simp_all

lemma over_mono: "over C m P \<Longrightarrow> (\<And>x. P x \<Longrightarrow> Q x) \<Longrightarrow> over C m Q"
  by (cases m) simp_all

lemma over_weaken: "over C m Q \<Longrightarrow> (C \<Longrightarrow> D) \<Longrightarrow> over D m Q"
  by (cases m) simp_all

lemma over_wp: "wp m Q \<Longrightarrow> over C m Q"
  by (cases m) simp_all

lemma over_False [simp]: "over False m Q = wp m Q"
  by (cases m) simp_all

lemma over_if [simp]: "over C (if b then m else n) Q = (if b then over C m Q else over C n Q)"
  by simp

lemma over_Ok_eq: "over C m Q \<Longrightarrow> m = Ok x \<Longrightarrow> Q x"
  by simp

definition word_post :: "nat \<Rightarrow> ('h, 'r) st \<Rightarrow> nat \<times> ('h, 'r) st \<Rightarrow> bool" where
  "word_post m s x \<longleftrightarrow> (case x of (n, s') \<Rightarrow> quiet s s' \<and> word_at m n s' \<and> (0 < n \<longrightarrow> left s' < left s \<or> c_in s' = EOF) \<and>
     (\<forall>k. m \<le> k \<longrightarrow> input s' k = input s k))"

lemma word_post_trans: "quiet s s1 \<Longrightarrow> (\<And>k. m \<le> k \<Longrightarrow> input s1 k = input s k) \<Longrightarrow> word_post m s1 x \<Longrightarrow> word_post m s x"
  using quiet_trans [of s s1] by (fastforce simp: word_post_def quiet_def sframe_def split: prod.splits)

lemma terminated_cong: "(\<And>k. m \<le> k \<Longrightarrow> input s' k = input s k) \<Longrightarrow> terminated m s' = terminated m s"
  by (auto simp: terminated_iff)

lemma word_loop_safe:
  assumes "0 < i" and "i \<le> m" and "m \<le> MAX_INPUT_STR_LEN"
  shows "over (\<not> terminated m s) (word_loop m i s) (word_post m s)"
  using assms
proof (induction m i s rule: word_loop.induct)
  case (1 m i s)
  let ?s1 = "next_char s"
  let ?s2 = "?s1\<lparr>input := (input ?s1)(i := to_char (c_in ?s1))\<rparr>"
  have q: "quiet s (s'\<lparr>input := f\<rparr>)" "quiet s (die MSymbolTooBig ?s1)" "quiet s (s'\<lparr>pstate := p, input := f\<rparr>)"
    if "quiet s s'" for s' f p
    using that quiet_trans quiet_rules by metis+
  have lt: "c_in ?s1 \<noteq> EOF \<Longrightarrow> left ?s1 < left s" by (rule next_char_left)
  consider (big) "i = m" | (stop) "i \<noteq> m" "c_in ?s1 = EOF \<or> isspace (c_in ?s1)" | (char) "i \<noteq> m" "c_in ?s1 \<noteq> EOF" "\<not> isspace (c_in ?s1)" by blast
  then show ?case
  proof cases
    case big
    have "word_post m s (0, die MSymbolTooBig ?s1)"
      using big 1(2) q(2) [OF quiet_next] by (simp add: word_post_def word_at_def text_simps)
    then show ?thesis
      using big read_input_cases [of ?s1 m] terminated_cong [of m ?s1 s]
      by (subst word_loop.simps) (auto simp: Let_def text_simps)
  next
    case stop
    then show ?thesis
      using 1(2-4) q [OF quiet_next] lt
      by (subst word_loop.simps) (auto simp: Let_def word_post_def word_at_def left_def [of "_\<lparr>input := _\<rparr>"] left_def [of ?s1] text_simps)
  next
    case char
    have "over (\<not> terminated m ?s2) (word_loop m (Suc i) ?s2) (word_post m ?s2)"
      using 1(1) [OF refl, of ?s2] 1(2-4) char by auto
    moreover have k: "input ?s2 k = input s k" if "m \<le> k" for k
      using that 1(3) char(1) by (simp add: text_simps)
    ultimately have "over (\<not> terminated m s) (word_loop m (Suc i) ?s2) (word_post m s)"
      using word_post_trans [OF q(1) [OF quiet_next] k] terminated_cong [of m ?s2 s] by (auto intro: over_mono)
    then show ?thesis
      using char 1(2-4) by (subst word_loop.simps) (simp add: Let_def)
  qed
qed

lemma flush_char_input [simp]: "input (snd (flush_up_to_char s)) = input s"
proof (induction s rule: flush_up_to_char.induct)
  case (1 s)
  then show ?case by (subst flush_up_to_char.simps) (auto simp: Let_def text_simps)
qed

lemma flush_newline_input [simp]: "input (snd (flush_up_to_newline s)) = input s"
proof (induction s rule: flush_up_to_newline.induct)
  case (1 s)
  then show ?case by (subst flush_up_to_newline.simps) (auto simp: Let_def text_simps)
qed

lemma get_next_word_over:
  assumes "0 < m" and "m \<le> MAX_INPUT_STR_LEN"
  shows "over (\<not> terminated m s) (get_next_word m here s) (word_post m s)"
proof -
  have main: "over (\<not> terminated m s) (word_loop m 1 (s1\<lparr>input := (input s1)(0 := x)\<rparr>)) (word_post m s)"
    if q: "quiet s s1" "input s1 = input s" for s1 x
  proof -
    let ?s = "s1\<lparr>input := (input s1)(0 := x)\<rparr>"
    have k: "input ?s k = input s k" if "m \<le> k" for k using that q(2) assms by simp
    show ?thesis
      using word_loop_safe [of 1 m ?s] word_post_trans [OF quiet_trans [OF q(1) quiet_upd(2)] k] terminated_cong [of m ?s s] k assms
      by (auto intro: over_mono)
  qed
  have none: "word_post m s (0, s1)" if "quiet s s1" "input s1 = input s" for s1
    using that assms by (simp add: word_post_def word_at_def)
  define r where "r = (if isspace (c_in s) then flush_up_to_char s else (True, s))"
  have r: "quiet s (snd r)" "input (snd r) = input s" using quiet_flush_char quiet_refl by (auto simp: r_def)
  show ?thesis
    using main [OF r] none [OF r] none [OF quiet_refl refl] assms(1)
    unfolding get_next_word_def r_def [symmetric] by (cases r) (simp add: Let_def)
qed

lemma get_next_word_Ok:
  assumes "0 < m" and "m \<le> MAX_INPUT_STR_LEN" and "get_next_word m here s = Ok (n, s')"
  shows "quiet s s'" "word_at m n s'" "0 < n \<longrightarrow> left s' < left s \<or> c_in s' = EOF"
  using get_next_word_over [OF assms(1,2), of s here] assms(3) by (simp_all add: word_post_def)

lemma warn_fields [simp]: "input (warn_msg m s) = input s" "c_in (warn_msg m s) = c_in s" "left (warn_msg m s) = left s"
  "pstate (warn_msg m s) = pstate s"
  by (simp_all add: warn_msg_def left_def split: prod.splits)

subsection \<open>Names and numbers\<close>

lemma die_left [simp]: "left (die m s) = left s" "fpos (die m s) = fpos s"
  by (simp_all add: die_def err_msg_def program_stop_def left_def split: prod.splits)

lemma scan_name_safe:
  assumes "input s n = NUL" and "i \<le> n" and "n \<le> MAX_INPUT_STR_LEN"
  shows "\<exists>j m. scan_name l stop i s = Ok (j, s) \<and> i \<le> j \<and> j \<le> n \<or>
    scan_name l stop i s = Ok (j, die m s) \<and> i \<le> j \<and> j \<le> n \<and> input s j \<noteq> stop \<and> input s j \<noteq> CHR ''[''"
  using assms
proof (induction l stop i s rule: scan_name.induct)
  case (1 l stop i s)
  show ?case
  proof (cases "input s i \<noteq> stop \<and> input s i \<noteq> CHR ''['' \<and> isalnum (of_char (input s i)) \<and> \<not> l \<le> i")
    case True
    then have "i < n" using 1(2,3) by (cases "i = n") auto
    then have "\<exists>j m. scan_name l stop (Suc i) s = Ok (j, s) \<and> Suc i \<le> j \<and> j \<le> n \<or>
        scan_name l stop (Suc i) s = Ok (j, die m s) \<and> Suc i \<le> j \<and> j \<le> n \<and> input s j \<noteq> stop \<and> input s j \<noteq> CHR ''[''"
      using 1 True by auto
    moreover have "scan_name l stop i s = scan_name l stop (Suc i) s"
      using True 1(3,4) by (subst scan_name.simps) simp
    ultimately show ?thesis by (metis Suc_leD)
  next
    case False
    then show ?thesis
      using 1(3,4) by (subst (1 2) scan_name.simps) auto
  qed
qed

lemma scan_digits_safe:
  assumes "input s n = NUL" and "i \<le> n" and "n \<le> MAX_INPUT_STR_LEN" and "i \<le> l"
  shows "\<exists>j m. scan_digits l stop i s = Ok (j, s) \<and> i \<le> j \<and> j \<le> n \<and> j \<le> l \<and> (\<forall>k. i \<le> k \<and> k < j \<longrightarrow> isdigit (of_char (input s k))) \<or>
    scan_digits l stop i s = Ok (j, die m s) \<and> i \<le> j \<and> j \<le> n \<and> input s j \<noteq> stop"
  using assms
proof (induction l stop i s rule: scan_digits.induct)
  case (1 l stop i s)
  show ?case
  proof (cases "input s i \<noteq> stop \<and> isdigit (of_char (input s i)) \<and> \<not> l \<le> i")
    case True
    then have "i < n" using 1(2,3) by (cases "i = n") auto
    then obtain j m where j: "scan_digits l stop (Suc i) s = Ok (j, s) \<and> Suc i \<le> j \<and> j \<le> n \<and> j \<le> l \<and>
          (\<forall>k. Suc i \<le> k \<and> k < j \<longrightarrow> isdigit (of_char (input s k))) \<or>
        scan_digits l stop (Suc i) s = Ok (j, die m s) \<and> Suc i \<le> j \<and> j \<le> n \<and> input s j \<noteq> stop"
      using 1 True by (auto simp: not_le Suc_le_eq)
    have eq: "scan_digits l stop i s = scan_digits l stop (Suc i) s"
      using True 1(3,4) by (subst scan_digits.simps) simp
    have "isdigit (of_char (input s k))" if "\<forall>k. Suc i \<le> k \<and> k < j \<longrightarrow> isdigit (of_char (input s k))" "i \<le> k" "k < j" for k
      using that True by (cases "k = i") auto
    with j eq show ?thesis by (metis Suc_leD)
  next
    case False
    then show ?thesis
      using 1(3-5) by (subst (1 2) scan_digits.simps) auto
  qed
qed

lemma holds_input: "i \<le> j \<Longrightarrow> j \<le> MAX_INPUT_STR_LEN \<Longrightarrow> holds f i (map f [i..<j] @ [f j])"
proof (induction "j - i" arbitrary: i)
  case (Suc k)
  then show ?case by (simp add: upt_conv_Cons)
qed simp

lemma dec_bound: "list_all (\<lambda>a. isdigit (of_char a)) ds \<Longrightarrow> 0 \<le> dec 0 ds \<and> dec 0 ds < 10 ^ length ds"
proof (induction ds rule: rev_induct)
  case (snoc d ds)
  then show ?case by (simp add: dec_simps isdigit_def)
qed (simp add: dec_simps)

lemma atoi_safe:
  assumes x: "input s i = CHR ''-'' \<or> isdigit (of_char (input s i))" and ij: "i < j" "j \<le> MAX_INPUT_STR_LEN" "j \<le> i + 9"
    and d: "\<And>k. i < k \<Longrightarrow> k < j \<Longrightarrow> isdigit (of_char (input s k))" and stop: "\<not> isdigit (of_char (input s j))"
  shows "\<exists>v. atoi i s = Ok v"
proof -
  have run: "\<exists>v. atoi_digits k 0 s = Ok v \<and> 0 \<le> v \<and> v < 1000000000"
    if k: "k \<le> j" "i \<le> k" "\<And>l. k \<le> l \<Longrightarrow> l < j \<Longrightarrow> isdigit (of_char (input s l))" for k
  proof -
    let ?ds = "map (input s) [k..<j]"
    have ds: "list_all (\<lambda>a. isdigit (of_char a)) ?ds" using k(3) by (simp add: list_all_iff)
    have "atoi_digits k 0 s = Ok (dec 0 ?ds)"
      using atoi_digits_text [OF holds_input [of k j "input s"] ds stop] k(1) ij(2) by simp
    moreover have "(10 :: int) ^ length ?ds \<le> 10 ^ 9"
      using k(2) ij(3) by (intro power_increasing) auto
    ultimately show ?thesis using dec_bound [OF ds] by auto
  qed
  show ?thesis
  proof (cases "input s i = CHR ''-''")
    case True
    then obtain v where "atoi_digits (Suc i) 0 s = Ok v" "0 \<le> v" "v < 1000000000"
      using run [of "Suc i"] ij d by auto
    then show ?thesis
      using True ij by (simp add: atoi_def input_at_def chk_def in_int_def)
  next
    case False
    have "isdigit (of_char (input s l))" if "i \<le> l" "l < j" for l
      using that d x False by (cases "l = i") auto
    then obtain v where "atoi_digits i 0 s = Ok v" "0 \<le> v" "v < 1000000000"
      using run [of i] ij by auto
    then show ?thesis
      using False ij by (simp add: atoi_def input_at_def chk_def in_int_def)
  qed
qed

lemma count_closing_safe:
  assumes "input s n = NUL" and "j \<le> n" and "n \<le> MAX_INPUT_STR_LEN"
  shows "\<exists>c. count_closing j k s = Ok c"
  using assms
proof (induction j k s rule: count_closing.induct)
  case (1 j k s)
  show ?case
  proof (cases "input s j = NUL")
    case True
    then show ?thesis using 1(3,4) by (subst count_closing.simps) simp
  next
    case False
    then have "j < n" using 1(2,3) by (cases "j = n") auto
    then show ?thesis
      using 1 False by (subst count_closing.simps) simp
  qed
qed

lemma wp_ex: "\<exists>x. m = Ok x \<and> P x \<Longrightarrow> (\<And>x. P x \<Longrightarrow> wp (f x) Q) \<Longrightarrow> wp (bnd m f) Q"
  by auto

subsection \<open>Tokens\<close>

text \<open>
  Code that allocates: live blocks stay as they are, except that the array token at \<open>dst\<close> gets its
  fields.
\<close>

definition grows :: "('r \<Rightarrow> bool) \<Rightarrow> addr option \<Rightarrow> ('h, 'r) st \<Rightarrow> ('h, 'r) st \<Rightarrow> bool" where
  "grows rinv dst s s' \<longleftrightarrow> heap_ok s' \<and> rinv (translated_line s') \<and> fresh s \<le> fresh s' \<and> sframe s s' \<and>
     input s' = input s \<and> c_in s' = c_in s \<and> left s' = left s \<and>
     (\<forall>a b. heap s a = Some b \<longrightarrow> dst \<noteq> Some a \<longrightarrow> heap s' a = Some b) \<and>
     (\<forall>a. dst = Some a \<longrightarrow> (\<exists>at. heap s' a = Some (ArrTokB at)))"

definition dst_ok :: "addr option \<Rightarrow> ('h, 'r) st \<Rightarrow> bool" where
  "dst_ok dst s \<longleftrightarrow> (\<forall>a. dst = Some a \<longrightarrow> (\<exists>at. heap s a = Some (ArrTokB at)))"

lemma growsD:
  assumes "grows rinv dst s s'"
  shows "heap_ok s'" "rinv (translated_line s')" "fresh s \<le> fresh s'" "sframe s s'" "input s' = input s"
    "c_in s' = c_in s" "left s' = left s" "\<And>a b. heap s a = Some b \<Longrightarrow> dst \<noteq> Some a \<Longrightarrow> heap s' a = Some b" "dst_ok dst s'"
  using assms by (simp_all add: grows_def dst_ok_def)

lemma grows_refl: "heap_ok s \<Longrightarrow> rinv (translated_line s) \<Longrightarrow> dst_ok dst s \<Longrightarrow> grows rinv dst s s"
  by (simp add: grows_def dst_ok_def sframe_def)

lemma grows_trans: "grows rinv dst s s1 \<Longrightarrow> grows rinv dst s1 s2 \<Longrightarrow> grows rinv dst s s2"
  unfolding grows_def by (auto intro: sframe_trans)

lemma grows_None: "grows rinv None s s' \<Longrightarrow> dst_ok dst s \<Longrightarrow> grows rinv dst s s'"
  unfolding grows_def dst_ok_def by auto

text \<open>Filling an array token that is new.\<close>

lemma grows_inner:
  assumes "grows rinv dst s s1" and "grows rinv (Some a) s1 s2" and "heap s a = None" and "dst_ok dst s"
  shows "grows rinv dst s s2"
proof -
  note D1 = growsD [OF assms(1)] and D2 = growsD [OF assms(2)]
  have "\<exists>at. heap s2 b = Some (ArrTokB at)" if db: "dst = Some b" for b
  proof -
    obtain at where "heap s1 b = Some (ArrTokB at)" using D1(9) db by (auto simp: dst_ok_def)
    moreover have "b \<noteq> a" using assms(3,4) db by (auto simp: dst_ok_def)
    ultimately show ?thesis using D2(8) [of b] by auto
  qed
  moreover have "heap s2 b = Some x" if "heap s b = Some x" "dst \<noteq> Some b" for b x
    using D1(8) [OF that] D2(8) [of b] that(1) assms(3) by (cases "a = b") auto
  ultimately show ?thesis
    using D1 D2 sframe_trans [OF D1(4) D2(4)] by (simp add: grows_def)
qed

lemma grows_quiet: "heap_ok s \<Longrightarrow> rinv (translated_line s) \<Longrightarrow> dst_ok dst s \<Longrightarrow> quiet s s' \<Longrightarrow> input s' = input s \<Longrightarrow>
    c_in s' = c_in s \<Longrightarrow> left s' = left s \<Longrightarrow> grows rinv dst s s'"
  by (simp add: grows_def quiet_def dst_ok_def heap_ok_def)

lemma grows_die: "heap_ok s \<Longrightarrow> rinv (translated_line s) \<Longrightarrow> dst_ok dst s \<Longrightarrow> grows rinv dst s (die m s)"
  by (rule grows_quiet) (simp_all add: quiet_rules)

lemma grows_warn: "heap_ok s \<Longrightarrow> rinv (translated_line s) \<Longrightarrow> dst_ok dst s \<Longrightarrow> grows rinv dst s (warn_msg m s)"
  by (rule grows_quiet) (simp_all add: quiet_rules)

lemma dst_live: "heap_ok s \<Longrightarrow> dst_ok (Some a) s \<Longrightarrow> \<exists>at. heap s a = Some (ArrTokB at) \<and> a \<noteq> NULL \<and> a < fresh s"
  using heap_ok_live by (fastforce simp: dst_ok_def)

lemma grows_put:
  assumes ok: "heap_ok s" and rb: "rinv (translated_line s)" and d: "dst_ok dst s"
  shows "\<exists>s'. put_type dst t s = Ok s' \<and> grows rinv dst s s'" "\<exists>s'. put_tok_data dst p s = Ok s' \<and> grows rinv dst s s'"
proof -
  have g: "grows rinv (Some a) s (s\<lparr>heap := (heap s)(a \<mapsto> ArrTokB at)\<rparr>)" if "a < fresh s" "a \<noteq> NULL" for a at
    using that ok rb by (simp add: grows_def sframe_def heap_ok_def left_def)
  show "\<exists>s'. put_type dst t s = Ok s' \<and> grows rinv dst s s'" "\<exists>s'. put_tok_data dst p s = Ok s' \<and> grows rinv dst s s'"
  proof (atomize (full), cases dst)
    case None
    then show "(\<exists>s'. put_type dst t s = Ok s' \<and> grows rinv dst s s') \<and> (\<exists>s'. put_tok_data dst p s = Ok s' \<and> grows rinv dst s s')"
      using grows_refl [of s rinv dst] ok rb d by (simp add: put_type_def put_tok_data_def)
  next
    case (Some a)
    then obtain at where "heap s a = Some (ArrTokB at)" "a \<noteq> NULL" "a < fresh s" using dst_live [OF ok] d by blast
    then show "(\<exists>s'. put_type dst t s = Ok s' \<and> grows rinv dst s s') \<and> (\<exists>s'. put_tok_data dst p s = Ok s' \<and> grows rinv dst s s')"
      using g Some by (simp add: mem_simps)
  qed
qed

lemma grows_alloc:
  assumes "heap_ok s" and "rinv (translated_line s)"
  shows "grows rinv None s (s\<lparr>heap := (heap s)(fresh s \<mapsto> b), fresh := Suc (fresh s)\<rparr>)"
proof -
  have "heap s (fresh s) = None" using assms(1) by (simp add: heap_ok_def)
  then show ?thesis
    using assms by (auto simp: grows_def sframe_def heap_ok_def left_def)
qed

lemma new_arr_tok_safe:
  assumes ok: "heap_ok s" and rb: "rinv (translated_line s)"
  shows "\<exists>s'. new_arr_tok i j s = Ok (fresh s, s') \<and> grows rinv None s s' \<and> dst_ok (Some (fresh s)) s'"
proof -
  let ?at = "\<lparr>at_idx = Uninit, at_idx_type = None, at_name = NULL\<rparr>"
  let ?s1 = "s\<lparr>heap := (heap s)(fresh s \<mapsto> ArrTokB ?at), fresh := Suc (fresh s)\<rparr>"
  let ?x = "StrB (cstr (input_bytes (Suc i) j s))"
  let ?s2 = "?s1\<lparr>heap := (heap ?s1)(fresh ?s1 \<mapsto> ?x), fresh := Suc (fresh ?s1)\<rparr>"
  let ?s3 = "?s2\<lparr>heap := (heap ?s2)(fresh s \<mapsto> ArrTokB (?at\<lparr>at_name := Suc (fresh s)\<rparr>))\<rparr>"
  have f: "fresh s \<noteq> NULL" "heap s (fresh s) = None" using ok by (simp_all add: heap_ok_def)
  have g1: "grows rinv None s ?s1" by (rule grows_alloc [of s rinv, OF ok rb])
  have g2: "grows rinv None ?s1 ?s2" by (rule grows_alloc [of ?s1 rinv, OF growsD(1) [OF g1] growsD(2) [OF g1]])
  have "grows rinv (Some (fresh s)) ?s2 ?s3"
    using growsD(1,2) [OF g2] f by (simp add: grows_def sframe_def heap_ok_def left_def)
  then have "grows rinv None s ?s3"
    by (rule grows_inner [OF grows_trans [OF g1 g2] _ f(2)]) (simp add: dst_ok_def)
  moreover have "new_arr_tok i j s = Ok (fresh s, ?s3)"
    using f by (simp add: new_arr_tok_def alloc_def Let_def input_bytes_def mem_simps)
  ultimately show ?thesis by (auto simp: dst_ok_def)
qed

context voids_lib
begin

lemma add_token_safe:
  fixes s :: "('h, 'r) st"
  assumes ok: "heap_ok s" and rb: "rinv (translated_line s)"
    and src: "\<And>p. src = FromInput p \<Longrightarrow> p + n \<le> Suc MAX_INPUT_STR_LEN"
  shows "\<exists>s'. add_new_token V src v n ty code s = Ok s' \<and> grows rinv None s s'"
proof -
  have res: "\<exists>s'. add_new_token V src v n ty code s = Ok s' \<and> grows rinv None s s'"
    if d: "\<And>s1 :: ('h, 'r) st. fresh s1 = Suc (fresh s) \<Longrightarrow> input s1 = input s \<Longrightarrow>
        new_tok_data src v n ty code s1 = Ok (d, m, s1\<lparr>heap := heap s1 ++ h, fresh := f\<rparr>)"
      and h: "dom h \<subseteq> {Suc (fresh s)..<f}" "Suc (fresh s) \<le> f" for d m h f
  proof -
    obtain r' t where t: "add_new_token V src v n ty code s = Ok (s\<lparr>heap := ((heap s)(fresh s \<mapsto> TokB t)) ++ h, fresh := f,
        translated_line := r'\<rparr>)" "rinv r'"
      "heap_ok (s\<lparr>heap := ((heap s)(fresh s \<mapsto> TokB t)) ++ h, fresh := f, translated_line := r'\<rparr>)"
      by (rule add_token_ok [OF ok rb d h])
    have "h a = None \<and> a \<noteq> fresh s" if "heap s a = Some b" for a b
      using heap_ok_live [OF ok that] h(1) by (cases "h a") fastforce+
    then show ?thesis
      using t h(2) by (auto simp: grows_def sframe_def left_def map_add_def)
  qed
  show ?thesis
  proof (cases src)
    case NoPtr
    show ?thesis
      by (rule res [where h = Map.empty and f = "Suc (fresh s)" and m = 0
            and d = "Value (if ty = INSTRUCTION_TOK then word_of_nat code else v)"])
        (use NoPtr in \<open>auto simp: new_tok_data_def intro!: arg_cong [where f = Ok]\<close>)
  next
    case (FromInput p)
    show ?thesis
      by (rule res [where h = "[Suc (fresh s) \<mapsto> StrB (cstr (input_bytes p (p + n) s))]" and f = "Suc (Suc (fresh s))"
            and m = n and d = "Ptr (Suc (fresh s))"])
        (use FromInput src in \<open>auto simp: new_tok_data_def alloc_def input_bytes_def\<close>)
  next
    case (ArrPtr a)
    show ?thesis
      by (rule res [where h = Map.empty and f = "Suc (fresh s)" and m = 0 and d = "Ptr a"])
        (use ArrPtr in \<open>auto simp: new_tok_data_def\<close>)
  qed
qed

text \<open>The value that the parser stores at its end.\<close>

abbreviation parse_post :: "addr option \<Rightarrow> ('h, 'r) st \<Rightarrow> bool \<times> c_uint option \<times> ('h, 'r) st \<Rightarrow> bool" where
  "parse_post dst s r \<equiv> grows rinv dst s (snd (snd r))"

lemma finish_safe:
  assumes g: "grows rinv dst s s1"
  shows "wp (bnd (put_tok_data dst p s1) (\<lambda>s. Ok (ok, d, s))) (parse_post dst s)"
proof -
  obtain s2 where "put_tok_data dst p s1 = Ok s2" "grows rinv dst s1 s2"
    using grows_put(2) [of s1 rinv dst p] growsD [OF g] by blast
  then show ?thesis using grows_trans [OF g] by simp
qed

lemma safe_reports:
  assumes ok: "heap_ok s" and rb: "rinv (translated_line s)" and d: "dst_ok dst s"
  shows "grows rinv dst s s" "grows rinv dst s (die m s)" "grows rinv dst s (warn_msg m s)"
    "grows rinv dst s (die m' (die m s))" "grows rinv dst s (warn_msg m' (die m s))"
proof -
  show "grows rinv dst s s" using grows_refl [of s rinv dst] ok rb d by simp
  show d1: "grows rinv dst s (die m s)" using grows_die [of s rinv dst] ok rb d by simp
  show "grows rinv dst s (warn_msg m s)" using grows_warn [of s rinv dst] ok rb d by simp
  note D = growsD [OF d1]
  show "grows rinv dst s (die m' (die m s))"
    using grows_trans [OF d1 grows_die [of "die m s" rinv dst m']] D by blast
  show "grows rinv dst s (warn_msg m' (die m s))"
    using grows_trans [OF d1 grows_warn [of "die m s" rinv dst m']] D by blast
qed

text \<open>The end of a number, and the end of a name without index.\<close>

lemma number_end_safe:
  assumes ok: "heap_ok s" and rb: "rinv (translated_line s)" and d: "dst_ok dst s" and at: "\<exists>v. atoi i s = Ok v"
  shows "wp (bnd (atoi i s) (\<lambda>v. bnd (put_type dst INT_VAL_TOK s) (\<lambda>s.
    bnd (if \<not> b then add_new_token V NoPtr v 0 INT_VAL_TOK 0 s else Ok s)
      (\<lambda>s. bnd (put_tok_data dst (Value v) s) (\<lambda>s. Ok (True, depth, s)))))) (parse_post dst s)"
proof -
  obtain v where v: "atoi i s = Ok v" using at by blast
  obtain s1 where s1: "put_type dst INT_VAL_TOK s = Ok s1" "grows rinv dst s s1"
    using grows_put(1) [of s rinv dst] ok rb d by blast
  note D = growsD [OF s1(2)]
  obtain s2 where s2: "add_new_token V NoPtr v 0 INT_VAL_TOK 0 s1 = Ok s2" "grows rinv None s1 s2"
    using add_token_safe [OF D(1,2), of NoPtr 0 v INT_VAL_TOK 0] by auto
  have "grows rinv dst s s2" using grows_trans [OF s1(2) grows_None [OF s2(2) D(9)]] .
  then show ?thesis using v s1 s2 finish_safe by simp
qed

lemma name_end_safe:
  assumes ok: "heap_ok s" and rb: "rinv (translated_line s)" and d: "dst_ok dst s" and j: "i + 2 \<le> j" "j \<le> MAX_INPUT_STR_LEN"
  shows "wp (bnd (put_type dst INT_VAR_TOK s) (\<lambda>s. let offset = j - i in
    if \<not> b then bnd (add_new_token V (FromInput (i + 1)) 0 offset INT_VAR_TOK 0 s)
      (\<lambda>s. bnd (put_tok_data dst Uninit s) (\<lambda>s. Ok (True, depth, s)))
    else case alloc (StrB (cstr (input_bytes (i + 1) (i + offset) s))) s of (name, s) \<Rightarrow>
      bnd (put_tok_data dst (Ptr name) s) (\<lambda>s. Ok (True, depth, s)))) (parse_post dst s)"
proof -
  obtain s1 where s1: "put_type dst INT_VAR_TOK s = Ok s1" "grows rinv dst s s1"
    using grows_put(1) [of s rinv dst] ok rb d by blast
  note D = growsD [OF s1(2)]
  obtain s2 where s2: "add_new_token V (FromInput (i + 1)) 0 (j - i) INT_VAR_TOK 0 s1 = Ok s2" "grows rinv None s1 s2"
    using add_token_safe [OF D(1,2), of "FromInput (i + 1)" "j - i" 0 INT_VAR_TOK 0] j by auto
  have g2: "grows rinv dst s s2" using grows_trans [OF s1(2) grows_None [OF s2(2) D(9)]] .
  have g3: "grows rinv dst s (s1\<lparr>heap := (heap s1)(fresh s1 \<mapsto> x), fresh := Suc (fresh s1)\<rparr>)" for x
    using grows_trans [OF s1(2) grows_None [OF grows_alloc [of s1 rinv, OF D(1,2)] D(9)]] .
  show ?thesis
    using s1 s2 finish_safe [OF g2] finish_safe [OF g3] by (simp add: Let_def alloc_def)
qed

text \<open>The array token before its index is parsed, and what follows the index.\<close>

lemma array_start_safe:
  assumes ok: "heap_ok s" and rb: "rinv (translated_line s)" and d: "dst_ok dst s"
  obtains s1 s2 s3 where "new_arr_tok i j s = Ok (fresh s, s1)" "put_type dst INT_ARR_TOK s1 = Ok s2"
    "(if \<not> b then add_new_token V (ArrPtr (fresh s)) 0 0 INT_ARR_TOK 0 s2 else Ok s2) = Ok s3"
    "grows rinv dst s s3" "dst_ok (Some (fresh s)) s3"
proof -
  have new: "dst \<noteq> Some (fresh s)"
    using ok d by (auto simp: heap_ok_def dst_ok_def)
  obtain s1 where s1: "new_arr_tok i j s = Ok (fresh s, s1)" "grows rinv None s s1" "dst_ok (Some (fresh s)) s1"
    using new_arr_tok_safe [of s rinv i j] ok rb by blast
  have g1: "grows rinv dst s s1" by (rule grows_None [OF s1(2) d])
  note D1 = growsD [OF g1]
  obtain s2 where s2: "put_type dst INT_ARR_TOK s1 = Ok s2" "grows rinv dst s1 s2"
    using grows_put(1) [of s1 rinv dst] D1 by blast
  note D2 = growsD [OF s2(2)]
  obtain s3 where s3: "(if \<not> b then add_new_token V (ArrPtr (fresh s)) 0 0 INT_ARR_TOK 0 s2 else Ok s2) = Ok s3"
      "grows rinv None s2 s3"
    using add_token_safe [OF D2(1,2), of "ArrPtr (fresh s)" 0 0 INT_ARR_TOK 0] grows_refl [of s2 rinv None] D2(1,2)
    by (cases b) (auto simp: dst_ok_def)
  have g3: "grows rinv dst s s3"
    using grows_trans [OF grows_trans [OF g1 s2(2)] grows_None [OF s3(2) D2(9)]] .
  have arr: "dst_ok (Some (fresh s)) s3"
    using s1(3) D2(8) [of "fresh s"] growsD(8) [OF s3(2), of "fresh s"] new by (auto simp: dst_ok_def)
  show thesis by (rule that [OF s1(1) s2(1) s3(1) g3 arr])
qed

lemma array_end_safe:
  assumes g: "grows rinv dst s s4" and cc: "\<exists>c. count_closing k 0 s4 = Ok c"
  shows "wp (if \<not> ok then Ok (False, None, s4)
    else bnd (count_closing k 0 s4) (\<lambda>closing_bracket_count.
      if Some closing_bracket_count \<noteq> recur_depth
      then bnd (put_tok_data dst Uninit (die MClosingBrackets s4)) (\<lambda>s. Ok (False, None, s))
      else bnd (put_tok_data dst Uninit s4) (\<lambda>s. Ok (True, None, s)))) (parse_post dst s)"
proof -
  obtain c where "count_closing k 0 s4 = Ok c" using cc by blast
  moreover have "grows rinv dst s (die MClosingBrackets s4)"
    using grows_trans [OF g grows_die [of s4 rinv dst]] growsD [OF g] by blast
  ultimately show ?thesis using finish_safe [OF g] finish_safe g by simp
qed

text \<open>
  The three kinds of value.  The recursive call for an index is a hypothesis of the last lemma, which
  \<open>parse_safe\<close> discharges by induction on the bytes that are left in the buffer.
\<close>

abbreviation word_stop :: "bool \<Rightarrow> char" where
  "word_stop b \<equiv> (if b then CHR '']'' else NUL)"

lemma parse_number_safe:
  assumes num: "input s i = CHR ''-'' \<or> isdigit (of_char (input s i))" "input s i \<noteq> CHR ''$''"
    and nul: "input s n = NUL" and i: "i \<le> n" and n: "n \<le> MAX_INPUT_STR_LEN"
    and mem: "heap_ok s" "rinv (translated_line s)" "dst_ok dst s"
  shows "wp (parse_varval_token V i dst b depth s) (parse_post dst s)"
proof -
  define stop where "stop = word_stop b"
  note rep = safe_reports [OF mem, THEN finish_safe]
  have inp: "input_at i s = Ok (input s i)" using i n by (simp add: input_at_def)
  have "i < n" using num nul i by (cases "i = n") auto
  then obtain j m where "scan_digits (MAX_INT_STR_LEN + i) stop (i + 1) s = Ok (j, s) \<and> i + 1 \<le> j \<and> j \<le> n \<and> j \<le> MAX_INT_STR_LEN + i \<and>
        (\<forall>k. i + 1 \<le> k \<and> k < j \<longrightarrow> isdigit (of_char (input s k))) \<or>
      scan_digits (MAX_INT_STR_LEN + i) stop (i + 1) s = Ok (j, die m s) \<and> i + 1 \<le> j \<and> j \<le> n \<and> input s j \<noteq> stop"
    using scan_digits_safe [of s n "i + 1" "MAX_INT_STR_LEN + i" stop] nul n by (auto simp: limit_defs)
  then show ?thesis
  proof (elim disjE)
    assume j: "scan_digits (MAX_INT_STR_LEN + i) stop (i + 1) s = Ok (j, s) \<and> i + 1 \<le> j \<and> j \<le> n \<and> j \<le> MAX_INT_STR_LEN + i \<and>
        (\<forall>k. i + 1 \<le> k \<and> k < j \<longrightarrow> isdigit (of_char (input s k)))"
    show ?thesis
    proof (cases "input s j = stop")
      case True
      have "\<exists>v. atoi i s = Ok v"
        using atoi_safe [OF num(1), of j] j n True by (auto simp: limit_defs stop_def)
      note e = number_end_safe [OF mem this, where b = b and depth = depth]
      show ?thesis
        using num inp rep(2) e j True by (subst parse_varval_token.simps) (simp only: Let_def stop_def [symmetric], simp)
    next
      case False
      then show ?thesis
        using num inp rep(1,2,3) j by (subst parse_varval_token.simps) (simp add: Let_def stop_def [symmetric])
    qed
  next
    assume "scan_digits (MAX_INT_STR_LEN + i) stop (i + 1) s = Ok (j, die m s) \<and> i + 1 \<le> j \<and> j \<le> n \<and> input s j \<noteq> stop"
    then show ?thesis
      using num inp rep(2,5) by (subst parse_varval_token.simps) (simp add: Let_def stop_def [symmetric])
  qed
qed

lemma parse_plain_safe:
  assumes var: "input s i = CHR ''$''" "isalpha (of_char (input s (i + 1)))"
    and scan: "scan_name (i + 2 + MAX_ALLOWED_SYMBOL_LEN) (word_stop b) (i + 2) s = Ok (j, s) \<and> i + 2 \<le> j \<or>
      scan_name (i + 2 + MAX_ALLOWED_SYMBOL_LEN) (word_stop b) (i + 2) s = Ok (j, die m s) \<and> input s j \<noteq> word_stop b"
    and j: "j \<le> MAX_INPUT_STR_LEN" "i + 2 \<le> MAX_INPUT_STR_LEN" and nb: "input s j \<noteq> CHR ''[''"
    and mem: "heap_ok s" "rinv (translated_line s)" "dst_ok dst s"
  shows "wp (parse_varval_token V i dst b depth s) (parse_post dst s)"
proof -
  define stop where "stop = word_stop b"
  note rep = safe_reports [OF mem, THEN finish_safe]
  have inp: "input_at i s = Ok (input s i)" "input_at (i + 1) s = Ok (input s (i + 1))"
    using j by (simp_all add: input_at_def)
  from scan show ?thesis
  proof (elim disjE conjE)
    assume sc: "scan_name (i + 2 + MAX_ALLOWED_SYMBOL_LEN) (word_stop b) (i + 2) s = Ok (j, s)" and ij: "i + 2 \<le> j"
    note e = name_end_safe [OF mem ij j(1), where b = b and depth = depth]
    show ?thesis
      using var inp sc nb e rep(1,2) by (cases "input s j = stop"; subst parse_varval_token.simps)
        (simp only: Let_def stop_def [symmetric], simp)+
  next
    assume "scan_name (i + 2 + MAX_ALLOWED_SYMBOL_LEN) (word_stop b) (i + 2) s = Ok (j, die m s)" "input s j \<noteq> word_stop b"
    then show ?thesis
      using var inp nb rep(2,4) by (subst parse_varval_token.simps) (simp add: Let_def stop_def [symmetric])
  qed
qed

lemma parse_array_safe:
  assumes var: "input s i = CHR ''$''" "isalpha (of_char (input s (i + 1)))"
    and scan: "scan_name (i + 2 + MAX_ALLOWED_SYMBOL_LEN) (word_stop b) (i + 2) s = Ok (j, s)"
    and nul: "input s n = NUL" and j: "i + 2 \<le> j" "j < n" and n: "n \<le> MAX_INPUT_STR_LEN" and br: "input s j = CHR ''[''"
    and mem: "heap_ok s" "rinv (translated_line s)" "dst_ok dst s"
    and IH: "\<And>a dp s3. heap_ok s3 \<Longrightarrow> rinv (translated_line s3) \<Longrightarrow> dst_ok (Some a) s3 \<Longrightarrow> input s3 = input s \<Longrightarrow>
      wp (parse_varval_token V (j + 1) (Some a) True dp s3) (parse_post (Some a) s3)"
  shows "wp (parse_varval_token V i dst b depth s) (parse_post dst s)"
proof -
  define stop where "stop = word_stop b"
  have sc: "scan_name (i + 2 + MAX_ALLOWED_SYMBOL_LEN) stop (i + 2) s = Ok (j, s)" and ns: "stop \<noteq> CHR ''[''"
    using scan by (simp_all add: stop_def)
  have inp: "input_at i s = Ok (input s i)" "input_at (i + 1) s = Ok (input s (i + 1))"
    using j n by (simp_all add: input_at_def)
  obtain s1 s2 s3 where s3: "new_arr_tok i j s = Ok (fresh s, s1)" "put_type dst INT_ARR_TOK s1 = Ok s2"
      "(if \<not> b then add_new_token V (ArrPtr (fresh s)) 0 0 INT_ARR_TOK 0 s2 else Ok s2) = Ok s3"
      "grows rinv dst s s3" "dst_ok (Some (fresh s)) s3"
    by (rule array_start_safe [OF mem])
  note D3 = growsD [OF s3(4)]
  have "heap s (fresh s) = None" using mem(1) by (simp add: heap_ok_def)
  then have rec: "\<exists>ok rd s4. parse_varval_token V (j + 1) (Some (fresh s)) True dp s3 = Ok (ok, rd, s4) \<and> grows rinv dst s s4" for dp
    using IH [OF D3(1,2) s3(5), of dp] D3(5) grows_inner [OF s3(4) _ _ mem(3)] by (fastforce simp: wp_iff)
  have cc: "\<exists>c. count_closing (j + 1) 0 s4 = Ok c" if "grows rinv dst s s4" for s4
    using count_closing_safe [of s4 n "j + 1" 0] growsD(5) [OF that] nul j n by simp
  show ?thesis
  proof (cases depth)
    case None
    obtain ok rd s4 where r: "parse_varval_token V (j + 1) (Some (fresh s)) True (Some 1) s3 = Ok (ok, rd, s4)" "grows rinv dst s s4"
      using rec by blast
    show ?thesis
      using var inp sc br ns s3(1,2,3) None r(1) array_end_safe [OF r(2) cc [OF r(2)], where ok = ok and recur_depth = rd]
      by (subst parse_varval_token.simps) (simp add: Let_def stop_def [symmetric])
  next
    case (Some dp)
    obtain ok rd s4 where r: "parse_varval_token V (j + 1) (Some (fresh s)) True (Some (dp + 1)) s3 = Ok (ok, rd, s4)" "grows rinv dst s s4"
      using rec by blast
    show ?thesis
      using var inp sc br ns s3(1,2,3) Some r(1) finish_safe [OF r(2)]
      by (subst parse_varval_token.simps) (simp add: Let_def stop_def [symmetric])
  qed
qed

lemma parse_safe:
  assumes "input s n = NUL" and "i \<le> n" and "n \<le> MAX_INPUT_STR_LEN" and "heap_ok s" and "rinv (translated_line s)"
    and "dst_ok dst s"
  shows "wp (parse_varval_token V i dst b depth s) (parse_post dst s)"
  using assms
proof (induction "n - i" arbitrary: i dst b depth s rule: less_induct)
  case less
  note nul = less.prems(1) and i = less.prems(2) and n = less.prems(3) and mem = less.prems(4,5,6)
  note rep = safe_reports [OF mem, THEN finish_safe]
  have inp: "input_at i s = Ok (input s i)" using i n by (simp add: input_at_def)
  consider (num) "input s i = CHR ''-'' \<or> isdigit (of_char (input s i))" "input s i \<noteq> CHR ''$''"
    | (bad) "input s i \<noteq> CHR ''$''" "input s i \<noteq> CHR ''-''" "\<not> isdigit (of_char (input s i))"
    | (noname) "input s i = CHR ''$''" "\<not> isalpha (of_char (input s (i + 1)))"
    | (var) "input s i = CHR ''$''" "isalpha (of_char (input s (i + 1)))" by blast
  then show ?case
  proof cases
    case num
    show ?thesis by (rule parse_number_safe [OF num nul i n mem])
  next
    case bad
    then show ?thesis using rep(2) inp by (subst parse_varval_token.simps) (simp add: Let_def)
  next
    case noname
    then have "i < n" using nul i by (cases "i = n") auto
    then have "input_at (i + 1) s = Ok (input s (i + 1))" using n by (simp add: input_at_def)
    then show ?thesis using noname inp rep(2) by (subst parse_varval_token.simps) (simp add: Let_def)
  next
    case var
    then have "i < n" using nul i by (cases "i = n") auto
    then have i2: "i + 2 \<le> n" using nul var by (cases "i + 1 = n") auto
    obtain j m where j: "scan_name (i + 2 + MAX_ALLOWED_SYMBOL_LEN) (word_stop b) (i + 2) s = Ok (j, s) \<and> i + 2 \<le> j \<and> j \<le> n \<or>
        scan_name (i + 2 + MAX_ALLOWED_SYMBOL_LEN) (word_stop b) (i + 2) s = Ok (j, die m s) \<and> i + 2 \<le> j \<and> j \<le> n \<and>
          input s j \<noteq> word_stop b \<and> input s j \<noteq> CHR ''[''"
      using scan_name_safe [OF nul i2 n, of "i + 2 + MAX_ALLOWED_SYMBOL_LEN" "word_stop b"] by blast
    show ?thesis
    proof (cases "input s j = CHR ''[''")
      case True
      have jn: "j < n" using True nul j by (cases "j = n") auto
      show ?thesis
        by (rule parse_array_safe [OF var _ nul _ jn n True mem], use j True in blast, use j in blast)
          (use less.hyps [of "j + 1"] jn i2 j nul n in auto)
    next
      case False
      show ?thesis
        by (rule parse_plain_safe [OF var _ _ _ False mem, where m = m]) (use j i2 n in auto)
    qed
  qed
qed

end

end
