(* ===== verification/LineSafe.thy ===== *)
theory LineSafe imports ScanSafe begin

section \<open>Lines of arbitrary files\<close>

text \<open>
  The second half of the safety of the scanner: one lemma per handler of \<open>Scanner\<close>, in the form of
  a weakest precondition (\<open>wp\<close>) that composes along \<open>bnd\<close>, up to \<open>tokenize_next_line\<close>.
\<close>

subsection \<open>The frame\<close>

text \<open>
  What scanning may do: read on, allocate, and report.  Words are stored below \<open>MAX_ALLOWED_SYMBOL_LEN\<close>
  and strings end with a terminator, so a terminator at that position or behind it is never lost.
\<close>

definition room :: "('h, 'r) st \<Rightarrow> bool" where
  "room s \<longleftrightarrow> terminated MAX_ALLOWED_SYMBOL_LEN s"

definition scanned :: "('r \<Rightarrow> bool) \<Rightarrow> ('h, 'r) st \<Rightarrow> ('h, 'r) st \<Rightarrow> bool" where
  "scanned rinv s s' \<longleftrightarrow> heap_ok s' \<and> rinv (translated_line s') \<and> fresh s \<le> fresh s' \<and> sframe s s' \<and>
     (\<forall>a b. heap s a = Some b \<longrightarrow> heap s' a = Some b) \<and> (room s \<longrightarrow> room s')"

text \<open>The judgement of this theory: the code returns, or it read past a buffer that had no terminator in its upper part.\<close>

abbreviation safe :: "('h, 'r) st \<Rightarrow> 'b res \<Rightarrow> ('b \<Rightarrow> bool) \<Rightarrow> bool" where
  "safe s0 m Q \<equiv> over (\<not> room s0) m Q"

lemma scannedD: "scanned rinv s s' \<Longrightarrow> heap_ok s'" "scanned rinv s s' \<Longrightarrow> rinv (translated_line s')"
  "scanned rinv s s' \<Longrightarrow> room s \<Longrightarrow> room s'"
  by (simp_all add: scanned_def)

lemma scanned_refl: "heap_ok s \<Longrightarrow> rinv (translated_line s) \<Longrightarrow> scanned rinv s s"
  by (simp add: scanned_def sframe_def)

lemma scanned_trans: "scanned rinv s s1 \<Longrightarrow> scanned rinv s1 s2 \<Longrightarrow> scanned rinv s s2"
  by (auto simp: scanned_def intro: sframe_trans)

lemma room_cong: "(\<And>k. MAX_ALLOWED_SYMBOL_LEN \<le> k \<Longrightarrow> input s' k = input s k) \<Longrightarrow> room s' = room s"
  unfolding room_def by (rule terminated_cong)

lemma scanned_room: "scanned rinv s s1 \<Longrightarrow> quiet s1 s2 \<Longrightarrow> (room s1 \<Longrightarrow> room s2) \<Longrightarrow> scanned rinv s s2"
  by (auto simp: scanned_def quiet_def heap_ok_def intro: sframe_trans)

lemma scanned_quiet: "scanned rinv s s1 \<Longrightarrow> quiet s1 s2 \<Longrightarrow> input s2 = input s1 \<Longrightarrow> scanned rinv s s2"
  using room_cong [of s2 s1] by (auto elim: scanned_room)

text \<open>A terminator is stored, and what is behind it is as it was.\<close>

lemma scanned_put:
  assumes "scanned rinv s s1" and "quiet s1 s2" and "i \<le> MAX_INPUT_STR_LEN" and "input s2 i = NUL" and "\<And>k. i < k \<Longrightarrow> input s2 k = input s1 k"
  shows "scanned rinv s s2"
proof (rule scanned_room [OF assms(1,2)])
  assume "room s1"
  then obtain k where k: "MAX_ALLOWED_SYMBOL_LEN \<le> k" "k \<le> MAX_INPUT_STR_LEN" "input s1 k = NUL" by (auto simp: room_def terminated_iff)
  have "MAX_ALLOWED_SYMBOL_LEN \<le> max i k \<and> max i k \<le> MAX_INPUT_STR_LEN \<and> input s2 (max i k) = NUL"
    using k assms(3-5) by (cases "i < k") (auto simp: max_def)
  then show "room s2" unfolding room_def terminated_iff by blast
qed

lemma scanned_grows: "scanned rinv s s1 \<Longrightarrow> grows rinv None s1 s2 \<Longrightarrow> scanned rinv s s2"
  using room_cong [of s2 s1] by (auto simp: scanned_def grows_def intro: sframe_trans)

lemma scanned_reports:
  assumes "scanned rinv s0 s"
  shows "scanned rinv s0 (die m s)" "scanned rinv s0 (err_msg m s)" "scanned rinv s0 (warn_msg m s)"
    "scanned rinv s0 (s\<lparr>pstate := p\<rparr>)" "scanned rinv s0 (program_stop b s)"
proof -
  have e: "input (err_msg m s) = input s" by (simp add: err_msg_def split: prod.splits)
  show "scanned rinv s0 (die m s)" by (rule scanned_quiet [OF assms quiet_die(1)]) simp
  show "scanned rinv s0 (err_msg m s)" by (rule scanned_quiet [OF assms quiet_die(2) e])
  show "scanned rinv s0 (warn_msg m s)" by (rule scanned_quiet [OF assms quiet_die(3)]) simp
  show "scanned rinv s0 (s\<lparr>pstate := p\<rparr>)" by (rule scanned_quiet [OF assms quiet_upd(1)]) simp
  show "scanned rinv s0 (program_stop b s)" by (rule scanned_quiet [OF assms quiet_upd(4)]) (simp add: program_stop_def)
qed

lemma flush_char_wp:
  assumes "scanned rinv s0 s"
  shows "flush_up_to_char s = (f, s') \<Longrightarrow> scanned rinv s0 s'"
  using scanned_quiet [OF assms quiet_flush_char flush_char_input] by (metis snd_conv)

lemma end_of_line_wp [wp_rules]: "scanned rinv s0 s \<Longrightarrow> scanned rinv s0 (end_of_line ins s)"
  using scanned_quiet [OF _ quiet_flush_newline flush_newline_input, of rinv s0 s]
  by (auto simp: end_of_line_def scanned_reports split: prod.splits)

lemma word_wp [wp_rules]:
  assumes s: "scanned rinv s0 s"
    and Q: "\<And>n s'. scanned rinv s0 s' \<Longrightarrow> word_at MAX_ALLOWED_SYMBOL_LEN n s' \<Longrightarrow> Q (n, s')"
  shows "safe s0 (get_next_word MAX_ALLOWED_SYMBOL_LEN here s) Q"
proof -
  have "over (\<not> room s) (get_next_word MAX_ALLOWED_SYMBOL_LEN here s) (word_post MAX_ALLOWED_SYMBOL_LEN s)"
    using get_next_word_over [of MAX_ALLOWED_SYMBOL_LEN s here] by (simp add: room_def limit_defs)
  moreover have "Q x" if "word_post MAX_ALLOWED_SYMBOL_LEN s x" for x
    using that Q scanned_room [OF s] room_cong [of "snd x" s] by (auto simp: word_post_def split: prod.splits)
  ultimately show ?thesis
    using scannedD(3) [OF s] by (blast intro: over_mono over_weaken)
qed

context voids_lib
begin

lemma parse_wp [wp_rules]:
  assumes s: "scanned rinv s0 s" and w: "word_at MAX_ALLOWED_SYMBOL_LEN n s" "0 < n"
    and Q: "\<And>ok d s'. scanned rinv s0 s' \<Longrightarrow> c_in s' = c_in s \<Longrightarrow> left s' = left s \<Longrightarrow> Q (ok, d, s')"
  shows "safe s0 (parse_varval_token V 0 None False None s) Q"
proof (rule over_mono [OF over_wp [OF parse_safe [of s n 0 None]]])
  show "Q x" if "parse_post None s x" for x
    using that Q scanned_grows [OF s] growsD [of rinv None s "snd (snd x)"] by (cases x) auto
qed (use w scannedD [OF s] in \<open>auto simp: word_at_def limit_defs dst_ok_def\<close>)

lemma token_wp [wp_rules]:
  assumes s: "scanned rinv s0 s" and p: "\<And>p. src = FromInput p \<Longrightarrow> p + n \<le> Suc MAX_INPUT_STR_LEN"
    and Q: "\<And>s'. scanned rinv s0 s' \<Longrightarrow> Q s'"
  shows "safe s0 (add_new_token V src v n ty code s) Q"
proof -
  obtain s' where "add_new_token V src v n ty code s = Ok s'" "grows rinv None s s'"
    using add_token_safe [OF scannedD(1,2) [OF s], of src n v ty code] p by blast
  then show ?thesis using Q scanned_grows [OF s] by simp
qed

lemma scan_arg_wp [wp_rules]:
  assumes s: "scanned rinv s0 s" and Q: "\<And>ok s'. scanned rinv s0 s' \<Longrightarrow> Q (ok, s')"
  shows "safe s0 (scan_arg V ins first s) Q"
  unfolding scan_arg_def over_bnd
proof (rule word_wp [OF s])
  fix n s'
  assume s': "scanned rinv s0 s'" "word_at MAX_ALLOWED_SYMBOL_LEN n s'"
  note r = Q [OF scanned_reports(1) [OF s'(1)]]
  have "safe s0 (parse_varval_token V 0 None False None s') (\<lambda>(ok, d, s). Q (ok, s))" if "0 < n"
    by (rule parse_wp [OF s' that]) (simp add: Q)
  then show "safe s0 (case (n, s') of (n, s) \<Rightarrow> if n = 0 then Ok (False, die (MArgCount ins) s)
      else if first \<and> minus_or_digit (input s 0) then Ok (False, die (MFirstArgVariable ins) s)
      else bnd (parse_varval_token V 0 None False None s) (\<lambda>(ok, d, s). Ok (ok, s))) Q"
    using r by (auto simp: case_prod_unfold)
qed

lemma label_wp: "scanned rinv s0 s \<Longrightarrow> is_valid_label n s = (v, s') \<Longrightarrow> scanned rinv s0 s'"
  by (auto simp: is_valid_label_def scanned_reports split: if_splits)

lemma label_valid: "is_valid_label n s = (True, s') \<Longrightarrow> 0 < n \<and> s' = s"
  by (auto simp: is_valid_label_def split: if_splits)

text \<open>The handlers with arguments only; \<open>Q\<close> holds afterwards.\<close>

lemma scan_args_wp:
  assumes s: "scanned rinv s0 s"
  shows "safe s0 (scan_loadstore V ins s) (scanned rinv s0)" "safe s0 (scan_set V ins s) (scanned rinv s0)"
    "safe s0 (scan_primitive_op V ins s) (scanned rinv s0)" "safe s0 (scan_semaphore V ins s) (scanned rinv s0)"
    "safe s0 (scan_sleep V ins s) (scanned rinv s0)" "safe s0 (scan_return ins s) (scanned rinv s0)"
  using s by (auto simp: scan_loadstore_def scan_set_def scan_primitive_op_def scan_semaphore_def scan_sleep_def
      scan_return_def intro!: scan_arg_wp end_of_line_wp)

lemma branch_label_wp:
  assumes s: "scanned rinv s0 s"
  shows "safe s0 (scan_branch_label V ins s) (scanned rinv s0)"
  unfolding scan_branch_label_def over_bnd
proof (rule word_wp [OF s])
  fix n s1
  assume s1: "scanned rinv s0 s1" "word_at MAX_ALLOWED_SYMBOL_LEN n s1"
  obtain v s2 where v: "is_valid_label n s1 = (v, s2)" by (cases "is_valid_label n s1")
  have s2: "scanned rinv s0 s2" by (rule label_wp [OF s1(1) v])
  have "safe s0 (add_new_token V (FromInput 0) 0 (n + 1) LABEL_TOK 0 s2) (\<lambda>s.
      scanned rinv s0 (end_of_line ins s) \<and> scanned rinv s0 (end_of_line ins s\<lparr>pstate := INSTRUCTION_LINE\<rparr>))"
    by (rule token_wp [OF s2]) (use s1(2) in \<open>auto simp: word_at_def limit_defs end_of_line_wp scanned_reports\<close>)
  then have "safe s0 (bnd (add_new_token V (FromInput 0) 0 (n + 1) LABEL_TOK 0 s2) (\<lambda>s. let s = end_of_line ins s in
      if c_in s = EOF \<or> pstate s = LAST_LINE then Ok (s\<lparr>pstate := INSTRUCTION_LINE\<rparr>) else Ok s)) (scanned rinv s0)"
    unfolding over_bnd by (rule over_mono) (simp add: Let_def)
  then show "safe s0 (case (n, s1) of (i, s) \<Rightarrow> case is_valid_label i s of (valid, s) \<Rightarrow>
     if valid then
       bnd (add_new_token V (FromInput 0) 0 (i + 1) LABEL_TOK 0 s) (\<lambda>s.
       let s = end_of_line ins s in
       if c_in s = EOF \<or> pstate s = LAST_LINE then Ok (s\<lparr>pstate := INSTRUCTION_LINE\<rparr>) else Ok s)
     else Ok (die (MLabelArgument ins) s)) (scanned rinv s0)"
    using v scanned_reports(1) [OF s2] by simp
qed

lemma scan_branch_wp: "scanned rinv s0 s \<Longrightarrow> safe s0 (scan_branch V ins s) (scanned rinv s0)"
  by (auto simp: scan_branch_def intro!: scan_arg_wp branch_label_wp)

lemma print_string_wp:
  assumes "scanned rinv s0 s1" and "quiet s1 s" and "\<And>k. i \<le> k \<Longrightarrow> input s k = input s1 k" and "i \<le> MAX_INPUT_STR_LEN"
  shows "wp (print_string i s) (\<lambda>(r, s'). scanned rinv s0 s' \<and> (\<forall>k. r = Some k \<longrightarrow> k \<le> MAX_INPUT_STR_LEN))"
  using assms(2-4)
proof (induction i s rule: print_string.induct)
  case (1 i s)
  let ?t = "next_char s"
  let ?u = "?t\<lparr>input := (input ?t)(i := NUL)\<rparr>"
  have q: "quiet s1 ?t" using quiet_trans [OF 1(2) quiet_next] .
  have q2: "quiet s1 (?t\<lparr>input := f\<rparr>)" for f using quiet_trans [OF q quiet_upd(2)] .
  have k: "input ?t k = input s1 k" if "i \<le> k" for k using 1(3) [OF that] by (simp add: text_simps)
  have u: "scanned rinv s0 ?u"
    by (rule scanned_put [OF assms(1) q2 1(4)]) (simp_all add: k)
  have u2: "scanned rinv s0 ((program_stop True ?t)\<lparr>input := (input (program_stop True ?t))(i := NUL)\<rparr>)"
    by (rule scanned_put [OF assms(1) quiet_trans [OF quiet_trans [OF q quiet_upd(4)] quiet_upd(2)] 1(4)])
      (simp_all add: k program_stop_def)
  have n: "scanned rinv s0 (next_char ?u)"
    by (rule scanned_quiet [OF u quiet_next]) (simp add: text_simps)
  show ?case
  proof (cases "c_in ?t = EOF \<or> MAX_INPUT_STR_LEN \<le> i \<or> \<not> isprint (c_in ?t) \<or> c_in ?t = 34")
    case True
    then show ?thesis
      using 1(4) scanned_reports [OF u2] scanned_reports [OF n] n by (subst print_string.simps) (auto simp: Let_def)
  next
    case False
    then show ?thesis
      using 1(1) [OF refl, of "?t\<lparr>input := (input ?t)(i := to_char (c_in ?t))\<rparr>"] 1(4) q2 k
      by (subst print_string.simps) (simp add: Let_def)
  qed
qed

text \<open>
  A word that starts at the end of the file is the byte 255, which no value starts with.
\<close>

lemma eof_word:
  fixes s :: "('h, 'r) st"
  assumes "c_in s = EOF"
  shows "over True (get_next_word MAX_ALLOWED_SYMBOL_LEN True s) (\<lambda>(n, s'). 0 < n \<longrightarrow> input s' 0 = CHR 0xFF)"
proof -
  have ff: "to_char (-1) = CHR 0xFF" by (simp add: to_char_def char_of_def bit_numeral_rec)
  have "over True (word_loop m i s1) (\<lambda>(n, s'). 0 < n \<longrightarrow> input s' 0 = CHR 0xFF)"
    if "0 < i" "i \<le> m" "m \<le> MAX_INPUT_STR_LEN" "input s1 0 = CHR 0xFF" for m i and s1 :: "('h, 'r) st"
    using that
  proof (induction m i s1 rule: word_loop.induct)
    case (1 m i s)
    then show ?case
      using read_input_cases [of "next_char s" 0] by (subst word_loop.simps) (auto simp: Let_def text_simps)
  qed
  from this [of 1 MAX_ALLOWED_SYMBOL_LEN] show ?thesis
    using assms ff by (auto simp: get_next_word_def limit_defs)
qed

lemma parse_eof_word:
  assumes "input s 0 = CHR 0xFF"
  shows "parse_varval_token V 0 None False None s = Ok (False, None, die MNotVarOrValue s)"
  using assms by (subst parse_varval_token.simps) (simp add: input_at_def isdigit_def put_tok_data_def)

lemma print_args_wp:
  assumes "scanned rinv s0 s" and "c_in s = EOF \<and> 1 \<le> n \<or> left s + 2 \<le> n"
  shows "safe s0 (print_args V n s) (scanned rinv s0)"
  using assms
proof (induction n arbitrary: s)
  case 0
  then show ?case by simp
next
  case (Suc n)
  let ?g = "get_next_word MAX_ALLOWED_SYMBOL_LEN True s"
  have w: "safe s0 ?g (\<lambda>(k, s1). scanned rinv s0 s1)"
    by (rule word_wp [OF Suc.prems(1)]) simp
  have body: "safe s0 (if k = 0 then Ok s1 else bnd (parse_varval_token V 0 None False None s1)
      (\<lambda>(ok, d, s). if \<not> ok then Ok s else print_args V n s)) (scanned rinv s0)" if g: "?g = Ok (k, s1)" for k s1
  proof -
    have s1: "scanned rinv s0 s1" using over_Ok_eq [OF w g] by simp
    have r: "word_at MAX_ALLOWED_SYMBOL_LEN k s1" "0 < k \<longrightarrow> left s1 < left s \<or> c_in s1 = EOF"
      using get_next_word_Ok [OF _ _ g] by (simp_all add: limit_defs)
    consider (none) "k = 0" | (eof) "0 < k" "c_in s = EOF" | (word) "0 < k" "c_in s \<noteq> EOF" by auto
    then show ?thesis
    proof cases
      case none
      then show ?thesis using s1 by simp
    next
      case eof
      then have "input s1 0 = CHR 0xFF" using over_Ok_eq [OF eof_word g] by simp
      then show ?thesis
        using eof parse_eof_word [of s1] scanned_reports(1) [OF s1] by simp
    next
      case word
      have "safe s0 (parse_varval_token V 0 None False None s1)
          (\<lambda>x. safe s0 (case x of (ok, d, s) \<Rightarrow> if \<not> ok then Ok s else print_args V n s) (scanned rinv s0))"
      proof (rule parse_wp [OF s1 r(1) word(1)])
        show "safe s0 (case (ok, d, s2) of (ok, d, s) \<Rightarrow> if \<not> ok then Ok s else print_args V n s) (scanned rinv s0)"
          if "scanned rinv s0 s2" "c_in s2 = c_in s1" "left s2 = left s1" for ok d s2
          using that Suc.IH [OF that(1)] r(2) word Suc.prems(2) by auto
      qed
      then show ?thesis using word by simp
    qed
  qed
  show ?case
  proof (cases ?g)
    case (Ok x)
    then show ?thesis using body by (cases x) simp
  qed (use w in simp_all)
qed

lemma scan_print_wp:
  assumes s: "scanned rinv s0 s"
  shows "safe s0 (scan_print V ins s) (scanned rinv s0)"
proof -
  obtain f s1 where f: "flush_up_to_char s = (f, s1)" by (cases "flush_up_to_char s")
  have s1: "scanned rinv s0 s1" by (rule flush_char_wp [OF s f])
  obtain r s2 where r: "print_string 0 s1 = Ok (r, s2)" "scanned rinv s0 s2" "\<forall>k. r = Some k \<longrightarrow> k \<le> MAX_INPUT_STR_LEN"
    using print_string_wp [OF s1 quiet_refl, of 0] by (auto simp: wp_iff)
  have rest: "safe s0 (case flush_up_to_char s3 of (found, s) \<Rightarrow>
      if \<not> found \<or> l \<noteq> line s then (if c_in s = EOF then Ok (s\<lparr>pstate := LAST_LINE\<rparr>) else Ok s)
      else print_args V (left s + 3) s) (scanned rinv s0)" if s3: "scanned rinv s0 s3" for s3 l
  proof -
    obtain g s4 where g: "flush_up_to_char s3 = (g, s4)" by (cases "flush_up_to_char s3")
    have "scanned rinv s0 s4" by (rule flush_char_wp [OF s3 g])
    then show ?thesis using g print_args_wp [of s0 s4 "left s4 + 3"] scanned_reports(4) by auto
  qed
  have tok: "safe s0 (add_new_token V (FromInput 0) 0 (k + 1) STRING_TOK 0 s2) (\<lambda>s3. safe s0 (case flush_up_to_char s3 of (found, s) \<Rightarrow>
      if \<not> found \<or> l \<noteq> line s then (if c_in s = EOF then Ok (s\<lparr>pstate := LAST_LINE\<rparr>) else Ok s)
      else print_args V (left s + 3) s) (scanned rinv s0))" if "r = Some k" for k l
    by (rule token_wp [OF r(2)]) (use r(3) that rest in auto)
  show ?thesis
    using f r(1,2) s1 tok scanned_reports(1) [OF s1] by (cases r) (simp_all add: scan_print_def Let_def)
qed

lemma scan_handler_wp: "scanned rinv s0 s \<Longrightarrow> safe s0 (scan_handler V i s) (scanned rinv s0)"
  by (cases i) (simp_all add: scan_args_wp scan_branch_wp scan_print_wp)

lemma call_handler_wp:
  assumes s: "scanned rinv s0 s" and it: "itab_ok hinv hmap (itable s)"
  shows "safe s0 (call_instruction_handler V n s) (scanned rinv s0)"
proof (cases "n = 0")
  case True
  then show ?thesis using s by (simp add: call_instruction_handler_def)
next
  case False
  let ?k = "input_bytes 0 n s"
  show ?thesis
  proof (cases "hmap (itable s) ?k")
    case None
    then show ?thesis
      using find_None [of "itable s" ?k] it False scanned_reports(1) [OF s]
      by (simp add: call_instruction_handler_def itab_ok_def)
  next
    case (Some kd)
    then obtain i where i: "kd = (ins_code i, ins_code i)"
      using it by (auto simp: itab_ok_def dest!: map_of_SomeD)
    obtain p where p: "qh_find V (itable s) ?k = (Some p, VDS_SUCCESS)" "qh_valid V (itable s) p" "qh_pair V (itable s) p = kd"
      using find_Some [of "itable s" ?k kd] it Some by (auto simp: itab_ok_def)
    have "safe s0 (add_new_token V NoPtr 0 0 INSTRUCTION_TOK (ins_code i) s) (\<lambda>s. safe s0 (scan_handler V i s) (scanned rinv s0))"
      by (rule token_wp [OF s]) (auto intro: scan_handler_wp)
    then show ?thesis
      using p i False ins_code_lt [of i] by (simp add: call_instruction_handler_def)
  qed
qed

lemma label_token_wp:
  assumes s: "scanned rinv s0 s" and w: "n < MAX_ALLOWED_SYMBOL_LEN"
    and Q: "\<And>i s'. scanned rinv s0 s' \<Longrightarrow> Q (i, s')"
  shows "safe s0 (bnd (add_new_token V (FromInput 0) 0 (n + 1) LABEL_TOK 0 s) (\<lambda>s.
            bnd (get_next_word MAX_ALLOWED_SYMBOL_LEN True s) (\<lambda>(i, s).
            Ok (i, if i = 0 then die MLabelNeedsInstruction s else s)))) Q"
  unfolding over_bnd
proof (rule token_wp [OF s])
  show "p + (n + 1) \<le> Suc MAX_INPUT_STR_LEN" if "FromInput 0 = FromInput p" for p
    using that w by (simp add: limit_defs)
  show "safe s0 (get_next_word MAX_ALLOWED_SYMBOL_LEN True s') (\<lambda>x. safe s0 (case x of (i, s) \<Rightarrow>
      Ok (i, if i = 0 then die MLabelNeedsInstruction s else s)) Q)" if "scanned rinv s0 s'" for s'
    by (rule word_wp [OF that]) (simp add: Q scanned_reports)
qed

lemma tokenize_wp:
  assumes s: "scanned rinv s0 s" and it: "itab_ok hinv hmap (itable s0)"
  shows "safe s0 (tokenize_next_line V s) (scanned rinv s0)"
proof -
  have run: "safe s0 (if pstate s' \<noteq> FINISHED then call_instruction_handler V n s' else Ok s') (scanned rinv s0)"
    if s': "scanned rinv s0 s'" for n s'
  proof -
    have "itab_ok hinv hmap (itable s')" using s' it by (simp add: scanned_def sframe_def)
    then show ?thesis using call_handler_wp [OF s'] s' by simp
  qed
  show ?thesis
    unfolding tokenize_next_line_def over_bnd
  proof (rule word_wp [OF s])
    fix n s1
    assume s1: "scanned rinv s0 s1" "word_at MAX_ALLOWED_SYMBOL_LEN n s1"
    obtain v s2 where v: "is_valid_label n s1 = (v, s2)" by (cases "is_valid_label n s1")
    have s2: "scanned rinv s0 s2" by (rule label_wp [OF s1(1) v])
    have w2: "n < MAX_ALLOWED_SYMBOL_LEN" using s1(2) by (simp add: word_at_def)
    show "safe s0 (case (n, s1) of (i, s) \<Rightarrow> case is_valid_label i s of (valid, s) \<Rightarrow>
     bnd (if valid then
            bnd (add_new_token V (FromInput 0) 0 (i + 1) LABEL_TOK 0 s) (\<lambda>s.
            bnd (get_next_word MAX_ALLOWED_SYMBOL_LEN True s) (\<lambda>(i, s).
            Ok (i, if i = 0 then die MLabelNeedsInstruction s else s)))
          else Ok (i, s)) (\<lambda>(i, s).
     if pstate s \<noteq> FINISHED then call_instruction_handler V i s else Ok s)) (scanned rinv s0)"
    proof (cases v)
      case True
      show ?thesis
        using True by (simp only: prod.case v if_True) (subst over_bnd, rule label_token_wp [OF s2 w2], simp only: prod.case run)
    next
      case False
      then show ?thesis using v s2 run [OF s2] by simp
    qed
  qed
qed

end

end
