(* ===== verification/ScanProps.thy ===== *)
theory ScanProps imports LineProps LineSafe begin

section \<open>Properties of the scanner (scanner.c)\<close>

text \<open>
  What the scanner reads out of a text, what it reports, and that it is safe on every file.  The
  states of the witnesses are \<open>demo_line t\<close>, which stand after a newline and before the text \<open>t\<close>.
\<close>

lemma demo_line_pend: "pend (demo_line t) (CHR 0x0A # t)"
  using demo_ready by (simp add: ready_def)

lemma demo_line_ok: "heap_ok (demo_line t)" "l_rinv (translated_line (demo_line t))" "itab_ok l_hinv map_of (itable (demo_line t))"
  "pstate (demo_line t) = INSTRUCTION_LINE" "c_in (demo_line t) = 10"
  using demo_ready [of t] by (simp_all add: ready_def good_def demo_line_def)

lemma demo_line_terminated: "m \<le> MAX_INPUT_STR_LEN \<Longrightarrow> terminated m (demo_line t)"
  by (auto simp: terminated_iff demo_line_def demo_st_def boot_def program_init_def program_s.defs)

lemma demo_line_room: "room (demo_line t)"
  unfolding room_def by (rule demo_line_terminated) (simp add: limit_defs)

subsection \<open>Safety\<close>

text \<open>
  C11: the scanner is safe on every file.  Whatever bytes are left in the file, \<open>tokenize_next_line\<close>
  returns: every loop ends, no index leaves the input buffer, no pointer is bad and no \<open>atoi\<close>
  overflows.  It reads on in the file, allocates blocks and reports; it writes to no block that was there
  before, and leaves the variables, the globals and the keyword table alone.  There is one exception: the message
  about a word that is too long prints the buffer before a terminator is stored behind the word.  When the buffer, which
  \<open>program_init\<close> does not clear, has no terminator at \<open>MAX_ALLOWED_SYMBOL_LEN\<close> or behind it (\<open>room\<close>), this read can
  leave the array; a line never takes such a terminator away.
\<close>

theorem tokenize_safe:
  assumes "voids_lib V hinv hmap rinv rlist"
    and "heap_ok s" and "rinv (translated_line s)" and "itab_ok hinv hmap (itable s)"
  shows "case tokenize_next_line V s of Ok s' \<Rightarrow> scanned rinv s s' | Undef k \<Rightarrow> k = OutOfBounds \<and> \<not> room s
    | Exit \<Rightarrow> False | Diverge \<Rightarrow> False"
proof -
  have "safe s (tokenize_next_line V s) (scanned rinv s)"
    by (rule voids_lib.tokenize_wp [OF assms(1) scanned_refl [of s rinv] assms(4)]) (rule assms)+
  then show ?thesis by (cases "tokenize_next_line V s") simp_all
qed

text \<open>The line \<open>PRINT "\<close> and then an array whose brackets do not match.\<close>

theorem tokenize_safe_witness:
  "\<exists>s'. tokenize_next_line list_voids (demo_line ''PRINT \"x\" $a[$b[7] $'') = Ok s' \<and>
    scanned l_rinv (demo_line ''PRINT \"x\" $a[$b[7] $'') s' \<and> room s'"
proof -
  let ?s = "demo_line ''PRINT \"x\" $a[$b[7] $''"
  have r: "room ?s" by (rule demo_line_room)
  obtain s' where "tokenize_next_line list_voids ?s = Ok s'" "scanned l_rinv ?s s'"
    using tokenize_safe [OF lv.voids_lib_axioms demo_line_ok(1,2,3), of "''PRINT \"x\" $a[$b[7] $''"] r by (auto split: res.splits)
  then show ?thesis using r scannedD(3) by blast
qed

text \<open>
  C27: the length of a word.  On any file \<open>get_next_word\<close> returns a length below its limit; when it is not 0 the
  word that is left in the buffer is terminated, and either the cursor has moved on or the file was at its end, where the
  byte of \<open>EOF\<close> is taken for a word of one character.  It returns on every file, but for the message about a word that is too long,
  which reads past the array when the buffer has no terminator at the limit or behind it.
\<close>

theorem get_next_word_bounds:
  assumes "m \<le> MAX_INPUT_STR_LEN" and "0 < m"
  shows "case get_next_word m here s of
      Ok (n, s') \<Rightarrow> n < m \<and> (0 < n \<longrightarrow> input s' n = NUL) \<and> (0 < n \<longrightarrow> left s' < left s \<or> c_in s' = EOF)
    | Undef k \<Rightarrow> k = OutOfBounds \<and> NUL \<notin> set (map (input s) [m..<Suc MAX_INPUT_STR_LEN])
    | Exit \<Rightarrow> False | Diverge \<Rightarrow> False"
proof -
  have "over (\<not> terminated m s) (get_next_word m here s) (word_post m s)" using get_next_word_over assms by blast
  then show ?thesis
    unfolding terminated_def [symmetric] by (cases "get_next_word m here s") (auto simp: word_post_def word_at_def)
qed

theorem get_next_word_bounds_witness:
  "case get_next_word 4 True (demo_line ''12345'') of
      Ok (n, s') \<Rightarrow> n < 4 \<and> (n = 0 \<or> input s' n = NUL) \<and> (n = 0 \<or> left s' < left (demo_line ''12345'') \<or> c_in s' = EOF)
    | Undef k \<Rightarrow> False | Exit \<Rightarrow> False | Diverge \<Rightarrow> False"
proof -
  have "terminated 4 (demo_line ''12345'')"
    by (rule demo_line_terminated) (simp add: limit_defs)
  then show ?thesis
    using get_next_word_bounds [of 4 "demo_line ''12345''" True] unfolding terminated_def [symmetric]
    by (auto simp: limit_defs split: res.splits prod.splits)
qed

subsection \<open>Words\<close>

text \<open>
  \<open>get_next_word\<close> reads a word.  Standing on a blank, it skips the blanks (not a newline when the
  word has to be on this line), puts the word and its terminator in the buffer, returns its length,
  and stops on the blank after it.
\<close>

theorem get_next_word_correct:
  assumes "pend s (bs @ w @ x # r)" and "bs \<noteq> []" and "list_all blank bs" and "here \<longrightarrow> CHR 0x0A \<notin> set bs"
    and "w \<noteq> []" and "list_all (\<lambda>x. \<not> blank x) w" and "length w < m" and "m \<le> Suc MAX_INPUT_STR_LEN" and "blank x"
  shows "\<exists>s'. get_next_word m here s = Ok (length w, s') \<and> input_bytes 0 (length w) s' = w \<and>
    input s' (length w) = NUL \<and> pend s' (x # r) \<and> scan_frame s s'"
proof -
  let ?s = "(adv (length bs + length w) s)\<lparr>input := put_word 0 w (input s)\<rparr>"
  have "holds (input ?s) 0 (w @ [NUL])"
    using holds_put_word [of 0 w "input s"] assms(7,8) by simp
  then have "input_bytes 0 (length w) ?s = w" "input ?s (length w) = NUL"
    using holds_bytes [of ?s 0 w] unfolding holds_append by simp_all
  then show ?thesis
    using pend_word [OF assms(1-4,5-7,9,8)] scan_frame_adv(2) by blast
qed

theorem get_next_word_witness:
  "\<exists>s'. get_next_word 127 False (demo_line ''  SET $x'') = Ok (length ''SET'', s') \<and>
    input_bytes 0 (length ''SET'') s' = ''SET'' \<and> input s' (length ''SET'') = NUL \<and>
    pend s' (CHR 0x20 # ''$x'') \<and> scan_frame (demo_line ''  SET $x'') s'"
  by (rule get_next_word_correct [where bs = "[CHR 0x0A, CHR 0x20, CHR 0x20]"])
    (use demo_line_pend [of "''  SET $x''"] in \<open>simp_all add: limit_defs isspace_def\<close>)

text \<open>
  A word as long as the limit is an error: the program is finished with its error flag set, and
  no word is returned; unless the message is printed from a buffer in which neither the word nor what was behind
  it has a terminator, which is a read past the array.
\<close>

theorem get_next_word_too_long:
  assumes "pend s (bs @ w @ r)" and "bs \<noteq> []" and "list_all blank bs" and "here \<longrightarrow> CHR 0x0A \<notin> set bs"
    and "list_all (\<lambda>x. \<not> blank x) w" and "0 < length w" and "length w \<le> Suc MAX_INPUT_STR_LEN"
  shows "if NUL \<in> set w \<or> terminated (length w) s
    then \<exists>s'. get_next_word (length w) here s = Ok (0, s') \<and> pstate s' = FINISHED \<and> error_flag s'
    else get_next_word (length w) here s = Undef OutOfBounds"
proof -
  obtain s' where s': "get_next_word (length w) here s = bnd (read_input s') (\<lambda>_. Ok (0, die MSymbolTooBig s'))"
      "input s' = (\<lambda>j. if length w \<le> j then input s j else w ! j)"
    using next_word_big [of here s "List.tl bs" w r "length w"] pend_blank [OF assms(1-4)] assms(5-7) by blast
  have "terminated 0 s' \<longleftrightarrow> NUL \<in> set w \<or> terminated (length w) s"
    using assms(7) unfolding terminated_iff s'(2) in_set_conv_nth by (auto split: if_splits) (metis le_Suc_eq less_le_trans not_less_eq_eq not_le)+
  then show ?thesis
    using s'(1) by (auto simp: read_input_terminated die_def err_msg_def program_stop_def split: prod.splits)
qed

theorem get_next_word_too_long_witness:
  "\<exists>s'. get_next_word (length ''SUBT'') False (demo_line ''SUBTRACT $x 1'') = Ok (0, s') \<and>
    pstate s' = FINISHED \<and> error_flag s'"
proof -
  let ?s = "demo_line ''SUBTRACT $x 1''" and ?w = "''SUBT''"
  have t: "terminated (length ?w) ?s"
    by (rule demo_line_terminated) (simp add: limit_defs)
  have "if NUL \<in> set ?w \<or> terminated (length ?w) ?s
    then \<exists>s'. get_next_word (length ?w) False ?s = Ok (0, s') \<and> pstate s' = FINISHED \<and> error_flag s'
    else get_next_word (length ?w) False ?s = Undef OutOfBounds"
    by (rule get_next_word_too_long [where bs = "[CHR 0x0A]" and r = "''RACT $x 1''"])
      (use demo_line_pend [of "''SUBTRACT $x 1''"] in \<open>simp_all add: limit_defs isspace_def\<close>)
  then show ?thesis using t by (simp only: simp_thms if_True)
qed

subsection \<open>Labels\<close>

text \<open>
  Labels.  A word of the buffer that starts with \<open>L\<close> and is not \<open>LOAD\<close> is a label when it has at
  least one more character and only letters and digits, and an error, which finishes the program, otherwise.  Any
  other word is no label and changes nothing.
\<close>

theorem is_valid_label_correct:
  assumes "holds (input s) 0 (w @ [NUL])" and "NUL \<notin> set w"
  shows "is_valid_label (length w) s =
    (if w = [] \<or> hd w \<noteq> CHR ''L'' \<or> w = ''LOAD'' then (False, s)
     else if length w = 1 then (False, die MInvalidLabel s)
     else if list_all (\<lambda>x. isalnum (of_char x)) (tl w) then (True, s)
     else (False, die MLabelChars s))"
proof (cases w)
  case (Cons x v)
  have "input_bytes 0 (length w) s = w"
    using holds_bytes [of s 0 w] assms(1) by (simp add: holds_append)
  then have "input s 0 = x" "input_bytes 1 (length w) s = v"
    using Cons by (simp_all add: input_bytes_def upt_conv_Cons del: upt_Suc)
  moreover have "input_eq (input s) 0 ''LOAD'' \<longleftrightarrow> w = ''LOAD''"
    by (rule holds_eq [OF assms]) simp
  ultimately show ?thesis
    using Cons by (auto simp: is_valid_label_def)
qed (simp add: is_valid_label_def)

theorem is_valid_label_witness:
  "is_valid_label (length ''L1_'') (demo_st\<lparr>input := put_word 0 ''L1_'' (\<lambda>_. NUL)\<rparr>) =
    (if ''L1_'' = [] \<or> hd ''L1_'' \<noteq> CHR ''L'' \<or> ''L1_'' = ''LOAD'' then (False, demo_st\<lparr>input := put_word 0 ''L1_'' (\<lambda>_. NUL)\<rparr>)
     else if length ''L1_'' = 1 then (False, die MInvalidLabel (demo_st\<lparr>input := put_word 0 ''L1_'' (\<lambda>_. NUL)\<rparr>))
     else if list_all (\<lambda>x. isalnum (of_char x)) (tl ''L1_'') then (True, demo_st\<lparr>input := put_word 0 ''L1_'' (\<lambda>_. NUL)\<rparr>)
     else (False, die MLabelChars (demo_st\<lparr>input := put_word 0 ''L1_'' (\<lambda>_. NUL)\<rparr>)))"
  by (rule is_valid_label_correct) (use holds_put_word [of 0 "''L1_''" "\<lambda>_. NUL"] in \<open>simp_all add: limit_defs\<close>)

subsection \<open>Values\<close>

text \<open>
  C20: \<open>parse_varval_token\<close> inverts the printer of variables and values.  With the text of an expression in the
  buffer it accepts, and adds to the line one token whose memory stands for that expression; the
  token and its parts are new blocks, and nothing else changes.  The expressions are those of \<open>expr_ok\<close>: a value from -99999999 to 999999999 (nine characters), a variable, or an array with
  such an expression as its index that is not a negative value, all names well-formed; and the text is at most 128 characters long.
\<close>

theorem parse_value_correct:
  assumes "voids_lib V hinv hmap rinv rlist"
    and "holds (input s) 0 (show_expr e @ [NUL])" and "expr_ok e" and "length (show_expr e) \<le> 128"
    and "heap_ok s" and "rinv (translated_line s)"
  shows "\<exists>s' tk F. parse_varval_token V 0 None False None s = Ok (True, None, s') \<and>
    adds_tok rinv rlist e tk F s s'"
  by (rule voids_lib.parse_value [OF assms])

text \<open>The value \<open>$ab[$c[12]]\<close>.\<close>

definition demo_value :: "(lhash, lring) st" where
  "demo_value = demo_st\<lparr>input := put_word 0 ''$ab[$c[12]]'' (\<lambda>_. NUL)\<rparr>"

theorem parse_value_witness:
  "\<exists>s' tk F. parse_varval_token list_voids 0 None False None demo_value = Ok (True, None, s') \<and>
    adds_tok l_rinv snd (EArr ''ab'' (EArr ''c'' (EVal 12))) tk F demo_value s'"
proof (rule parse_value_correct [OF lv.voids_lib_axioms])
  have t: "show_expr (EArr ''ab'' (EArr ''c'' (EVal 12))) = ''$ab[$c[12]]''" by code_simp
  show "holds (input demo_value) 0 (show_expr (EArr ''ab'' (EArr ''c'' (EVal 12))) @ [NUL])"
    unfolding t using holds_put_word [of 0 "''$ab[$c[12]]''" "\<lambda>_. NUL"] by (simp add: demo_value_def limit_defs)
  show "length (show_expr (EArr ''ab'' (EArr ''c'' (EVal 12)))) \<le> 128" unfolding t by simp
  show "expr_ok (EArr ''ab'' (EArr ''c'' (EVal 12)))" by code_simp
  show "heap_ok demo_value" "l_rinv (translated_line demo_value)"
    using demo_line_ok(1,2) [of "[]"] by (simp_all add: demo_value_def demo_line_def heap_ok_def)
qed

subsection \<open>The magic line\<close>

text \<open>
  The magic line.  On \<open>#PROGRAM\<close> and a newline \<open>parse_magic\<close> goes on to the instructions, standing
  on the newline, with nothing reported.
\<close>

theorem parse_magic_accepts:
  assumes "rest s = magic_bytes @ CHR 0x0A # t"
  shows "\<exists>s'. parse_magic s = Ok s' \<and> pstate s' = INSTRUCTION_LINE \<and> pend s' (CHR 0x0A # t) \<and>
    scan_frame s s'"
proof -
  have len: "length (magic_bytes @ [CHR 0x0A]) = 9" "Suc (length magic_bytes) = 9" by (simp_all add: magic_bytes_def)
  have "pend (adv 9 s) (CHR 0x0A # t)"
    using adv_c [OF assms] adv_rest [of s "magic_bytes @ [CHR 0x0A]" t] assms len by (simp add: pend_def)
  moreover obtain f where "parse_magic s = Ok ((adv 9 s)\<lparr>input := f, pstate := INSTRUCTION_LINE\<rparr>)"
    using parse_magic_ok [OF assms] by blast
  moreover have "pend ((adv 9 s)\<lparr>input := f, pstate := INSTRUCTION_LINE\<rparr>) (CHR 0x0A # t) = pend (adv 9 s) (CHR 0x0A # t)"
    by (rule pend_cong) simp_all
  ultimately show ?thesis using scan_frame_adv(3) by auto
qed

definition demo_file :: "string \<Rightarrow> (lhash, lring) st" where
  "demo_file t = boot list_voids 1000 (program_init list_voids t 0 [] (\<lambda>_. NUL) (0, 0, 0) (0, 0))"

lemma demo_file_rest: "rest (demo_file t) = t"
  by (simp add: demo_file_def boot_def program_init_def program_s.defs rest_def)

theorem parse_magic_accepts_witness:
  "\<exists>s'. parse_magic (demo_file (magic_bytes @ CHR 0x0A # ''RETURN'')) = Ok s' \<and> pstate s' = INSTRUCTION_LINE \<and>
    pend s' (CHR 0x0A # ''RETURN'') \<and> scan_frame (demo_file (magic_bytes @ CHR 0x0A # ''RETURN'')) s'"
  by (rule parse_magic_accepts) (rule demo_file_rest)

text \<open>
  C38: a file that is no program.  When its first line has exactly eight characters and is not \<open>#PROGRAM\<close>,
  \<open>parse_magic\<close> reports the error and sets the error flag, but the state that it leaves is
  \<open>INSTRUCTION_LINE\<close> and not \<open>FINISHED\<close>: the assignment at its end overwrites what \<open>program_stop\<close>
  set.  The same call of \<open>interpret_next_line\<close> goes on to the second line and executes it, as it would
  in a program whose magic line was right.
\<close>

theorem parse_magic_rejects:
  assumes "rest s = w @ CHR 0x0A # t" and "length w = length magic_bytes" and "w \<noteq> magic_bytes"
    and "pstate s = MAGIC_LINE"
  shows "\<exists>s'. parse_magic s = Ok s' \<and> error_flag s' \<and> pstate s' = INSTRUCTION_LINE \<and> pend s' (CHR 0x0A # t) \<and>
    interpret_next_line V s = interpret_next_line V s'"
proof -
  obtain f where f: "parse_magic s = Ok ((die MNotSimbly ((adv 9 s)\<lparr>input := f\<rparr>))\<lparr>pstate := INSTRUCTION_LINE\<rparr>)"
    by (rule parse_magic_eq [OF assms(1,2)]) (use assms(3) in \<open>simp add: Let_def\<close>)
  let ?s' = "(die MNotSimbly ((adv 9 s)\<lparr>input := f\<rparr>))\<lparr>pstate := INSTRUCTION_LINE\<rparr>"
  have len: "length (w @ [CHR 0x0A]) = 9" using assms(2) by (simp add: magic_bytes_def)
  have "pend (adv 9 s) (CHR 0x0A # t)"
    using adv_c [OF assms(1)] adv_rest [of s "w @ [CHR 0x0A]" t] assms(1) len by (simp add: pend_def)
  then have "pend ?s' (CHR 0x0A # t)"
    using pend_cong [of ?s' "adv 9 s" "CHR 0x0A # t"] by (simp add: die_def err_msg_def program_stop_def split: prod.splits)
  moreover have "error_flag ?s'" by (simp add: die_def err_msg_def program_stop_def split: prod.splits)
  moreover have "interpret_next_line V s = interpret_next_line V ?s'"
    using f assms(4) by (simp add: interpret_next_line_def)
  ultimately show ?thesis using f by auto
qed

theorem parse_magic_rejects_witness:
  "\<exists>s'. parse_magic (demo_file (''#PROGRAN'' @ CHR 0x0A # ''RETURN'')) = Ok s' \<and> error_flag s' \<and>
    pstate s' = INSTRUCTION_LINE \<and> pend s' (CHR 0x0A # ''RETURN'') \<and>
    interpret_next_line list_voids (demo_file (''#PROGRAN'' @ CHR 0x0A # ''RETURN'')) = interpret_next_line list_voids s'"
  by (rule parse_magic_rejects [OF demo_file_rest])
    (simp_all add: magic_bytes_def demo_file_def boot_def program_init_def program_s.defs)

end
