(* ===== verification/GlobSpec.thy ===== *)
theory GlobSpec imports Globals begin

section \<open>What globals are: environments of arrays, and the refinement by the global table\<close>

text \<open>
  The abstract view of \<open>global_table\<close> is a finite map from names to arrays of \<open>int\<close>.  \<open>gload\<close>,
  \<open>gstore\<close> and \<open>gup\<close> say what the operations of \<open>global.c\<close> do to it; they are undefined where the
  code faults (an index past the end of an array that exists).  The refinement lemmas state that
  the operations on the table, the structures and the keys in memory compute exactly that, and free
  the key or hand it to the table.
\<close>

subsection \<open>Environments of globals\<close>

type_synonym genv = "string \<Rightarrow> c_int list option"

fun gload :: "genv \<Rightarrow> string \<Rightarrow> nat \<Rightarrow> (c_int \<times> genv) option" where
  "gload G k i = (case G k of
     None \<Rightarrow> Some (0, G(k \<mapsto> replicate (i + 1) 0))
   | Some xs \<Rightarrow> if i < length xs then Some (xs ! i, G) else None)"

fun gstore :: "genv \<Rightarrow> string \<Rightarrow> nat \<Rightarrow> c_int \<Rightarrow> genv option" where
  "gstore G k i v = (case G k of
     None \<Rightarrow> Some (G(k \<mapsto> (replicate (i + 1) 0)[i := v]))
   | Some xs \<Rightarrow> if i < length xs then Some (G(k \<mapsto> xs[i := v])) else None)"

fun gup :: "genv \<Rightarrow> string \<Rightarrow> nat \<Rightarrow> genv option" where
  "gup G k i = (case G k of
     None \<Rightarrow> Some (G(k \<mapsto> (replicate (i + 1) 0)[i := 1]))
   | Some xs \<Rightarrow> if i < length xs \<and> in_int (sint (xs ! i) + 1) then Some (G(k \<mapsto> xs[i := xs ! i + 1])) else None)"

text \<open>\<open>DOWN\<close> makes sure that the semaphore exists.\<close>

fun gdown :: "genv \<Rightarrow> string \<Rightarrow> nat \<Rightarrow> genv option" where
  "gdown G k i = map_option snd (gload G k i)"

subsection \<open>The table in memory\<close>

type_synonym gpairs = "string \<Rightarrow> (addr \<times> addr) option"

definition gvar_rep :: "(addr \<Rightarrow> block option) \<Rightarrow> addr \<Rightarrow> addr \<Rightarrow> c_int list \<Rightarrow> bool" where
  "gvar_rep h va ca xs \<longleftrightarrow> va \<noteq> NULL \<and> ca \<noteq> NULL \<and> length xs < 2 ^ 64 \<and>
     h va = Some (GVarB \<lparr>gv_count = ca, gv_len = word_of_nat (length xs)\<rparr>) \<and> h ca = Some (IntsB (map Some xs))"

definition gcount :: "(addr \<Rightarrow> block option) \<Rightarrow> addr \<Rightarrow> addr option" where
  "gcount h va = (case h va of Some (GVarB g) \<Rightarrow> Some (gv_count g) | _ \<Rightarrow> None)"

definition gowned :: "(addr \<Rightarrow> block option) \<Rightarrow> gpairs \<Rightarrow> addr set" where
  "gowned h m = {a. \<exists>k ka va. m k = Some (ka, va) \<and> (a = ka \<or> a = va \<or> gcount h va = Some a)}"

definition ginj :: "(addr \<Rightarrow> block option) \<Rightarrow> gpairs \<Rightarrow> bool" where
  "ginj h m \<longleftrightarrow> (\<forall>k k' ka ka' va va'. m k = Some (ka, va) \<longrightarrow> m k' = Some (ka', va') \<longrightarrow>
     gcount h va = gcount h va' \<longrightarrow> k = k')"

definition ginv :: "(addr \<Rightarrow> block option) \<Rightarrow> gpairs \<Rightarrow> genv \<Rightarrow> bool" where
  "ginv h m G \<longleftrightarrow> dom G = dom m \<and> ginj h m \<and>
     (\<forall>k ka va xs. m k = Some (ka, va) \<longrightarrow> G k = Some xs \<longrightarrow>
        ka \<noteq> NULL \<and> h ka = Some (StrB k) \<and> (\<exists>ca. gvar_rep h va ca xs))"

lemma ginjD: "ginj h m \<Longrightarrow> m k = Some (ka, va) \<Longrightarrow> m k' = Some (ka', va') \<Longrightarrow> gcount h va = gcount h va' \<Longrightarrow> k = k'"
  unfolding ginj_def by blast

lemma ginj_cong:
  assumes "ginj h m" and "\<And>k ka va. m k = Some (ka, va) \<Longrightarrow> gcount h' va = gcount h va"
  shows "ginj h' m"
  unfolding ginj_def
proof (intro allI impI)
  fix k k' ka ka' va va'
  assume "m k = Some (ka, va)" and "m k' = Some (ka', va')" and "gcount h' va = gcount h' va'"
  then show "k = k'" using ginjD [OF assms(1)] assms(2) by simp
qed

lemma ginv_None: "ginv h m G \<Longrightarrow> m k = None \<longleftrightarrow> G k = None"
  by (auto simp: ginv_def)

lemma ginv_pair:
  assumes "ginv h m G" and "m k = Some (ka, va)"
  obtains xs ca where "G k = Some xs" "ka \<noteq> NULL" "h ka = Some (StrB k)" "gvar_rep h va ca xs"
proof -
  obtain xs where xs: "G k = Some xs" using assms ginv_None [of h m G k] by (cases "G k") simp_all
  then show thesis using that assms unfolding ginv_def by blast
qed

lemma ginv_Some:
  assumes "ginv h m G" and "G k = Some xs"
  obtains ka va ca where "m k = Some (ka, va)" "ka \<noteq> NULL" "h ka = Some (StrB k)" "gvar_rep h va ca xs"
proof -
  have "m k \<noteq> None" using ginv_None [OF assms(1), of k] assms(2) by simp
  then obtain ka va where k: "m k = Some (ka, va)" by (cases "m k") auto
  then show thesis using that assms unfolding ginv_def by blast
qed

lemma gcount_rep: "gvar_rep h va ca xs \<Longrightarrow> gcount h va = Some ca"
  by (simp add: gvar_rep_def gcount_def)

lemma gownedI: "m k = Some (ka, va) \<Longrightarrow> ka \<in> gowned h m" "m k = Some (ka, va) \<Longrightarrow> va \<in> gowned h m"
  "m k = Some (ka, va) \<Longrightarrow> gcount h va = Some ca \<Longrightarrow> ca \<in> gowned h m"
  unfolding gowned_def by blast+

lemma gowned_live:
  assumes inv: "ginv h m G" and a: "a \<in> gowned h m"
  shows "a \<noteq> NULL" "h a \<noteq> None"
proof -
  obtain k ka va where k: "m k = Some (ka, va)" "a = ka \<or> a = va \<or> gcount h va = Some a"
    using a by (auto simp: gowned_def)
  obtain xs ca where "ka \<noteq> NULL" "h ka = Some (StrB k)" "gvar_rep h va ca xs"
    by (rule ginv_pair [OF inv k(1)])
  then show "a \<noteq> NULL" "h a \<noteq> None"
    using k(2) by (auto simp: gvar_rep_def gcount_def)
qed

text \<open>A change of blocks that the table does not own.\<close>

lemma gcount_cong: "(\<And>a. a \<in> gowned h m \<Longrightarrow> h' a = h a) \<Longrightarrow> m k = Some (ka, va) \<Longrightarrow> gcount h' va = gcount h va"
  using gownedI(2) [of m k ka va h] by (simp add: gcount_def)

lemma gowned_mono:
  assumes "\<And>k ka va. m k = Some (ka, va) \<Longrightarrow> gcount h' va = gcount h va"
  shows "gowned h' m \<subseteq> gowned h m"
proof
  fix a
  assume "a \<in> gowned h' m"
  then obtain k ka va where "m k = Some (ka, va)" "a = ka \<or> a = va \<or> gcount h' va = Some a"
    unfolding gowned_def by blast
  then show "a \<in> gowned h m" using gownedI [of m k ka va h] assms [of k ka va] by auto
qed

lemma gowned_eq: "(\<And>k ka va. m k = Some (ka, va) \<Longrightarrow> gcount h' va = gcount h va) \<Longrightarrow> gowned h' m = gowned h m"
  by (intro equalityI gowned_mono) simp_all

lemma gowned_cong: "(\<And>a. a \<in> gowned h m \<Longrightarrow> h' a = h a) \<Longrightarrow> gowned h' m = gowned h m"
  using gcount_cong [of h m h'] by (intro gowned_eq) simp

lemma ginv_cong:
  assumes inv: "ginv h m G" and same: "\<And>a. a \<in> gowned h m \<Longrightarrow> h' a = h a"
  shows "ginv h' m G"
proof -
  have 1: "gcount h' va = gcount h va" if "m k = Some (ka, va)" for k ka va
    using gcount_cong [of h m h' k ka va] same that by simp
  have 2: "h' ka = Some (StrB k) \<and> (\<exists>ca. gvar_rep h' va ca xs)"
    if k: "m k = Some (ka, va)" "G k = Some xs" for k ka va xs
  proof -
    obtain ca where r: "gvar_rep h va ca xs" "h ka = Some (StrB k)"
      by (rule ginv_pair [OF inv k(1)]) (use k(2) that in auto)
    then have "h' va = h va" "h' ca = h ca" "h' ka = h ka"
      using same gownedI [of m k ka va h] k(1) gcount_rep [OF r(1)] by simp_all
    then show ?thesis using r by (auto simp: gvar_rep_def)
  qed
  have "ginj h' m" by (rule ginj_cong [OF _ 1]) (use inv in \<open>simp_all add: ginv_def\<close>)
  then show ?thesis
    using inv 2 unfolding ginv_def by blast
qed

text \<open>A write to the cells of a global.\<close>

lemma ginv_write:
  assumes inv: "ginv h m G" and k: "m k = Some (ka, va)" "G k = Some xs" and ca: "gvar_rep h va ca xs"
    and ys: "length ys = length xs"
  shows "ginv (h(ca \<mapsto> IntsB (map Some ys))) m (G(k \<mapsto> ys))" "gowned (h(ca \<mapsto> IntsB (map Some ys))) m = gowned h m"
proof -
  let ?h = "h(ca \<mapsto> IntsB (map Some ys))"
  have gc: "gcount ?h va' = gcount h va'" if k': "m k' = Some (ka', va')" for k' ka' va'
  proof -
    have "va' \<noteq> ca"
    proof -
      obtain zs c where "gvar_rep h va' c zs" by (rule ginv_pair [OF inv k'])
      then show ?thesis using ca by (auto simp: gvar_rep_def)
    qed
    then show ?thesis by (simp add: gcount_def)
  qed
  then show "gowned ?h m = gowned h m" by (rule gowned_eq)
  have "ka' \<noteq> NULL \<and> ?h ka' = Some (StrB k') \<and> (\<exists>c. gvar_rep ?h va' c zs)"
    if k': "m k' = Some (ka', va')" "(G(k \<mapsto> ys)) k' = Some zs" for k' ka' va' zs
  proof (cases "k' = k")
    case True
    then have "zs = ys" "ka' = ka" "va' = va" using k' k by auto
    moreover have "ka \<noteq> NULL" "h ka = Some (StrB k)" using inv k by (auto simp: ginv_def)
    ultimately show ?thesis
      using ca ys True by (auto simp: gvar_rep_def intro!: exI [of _ ca])
  next
    case False
    then have zs: "G k' = Some zs" using k'(2) by simp
    obtain c where c: "gvar_rep h va' c zs" "ka' \<noteq> NULL" "h ka' = Some (StrB k')"
      by (rule ginv_pair [OF inv k'(1)]) (use zs that in auto)
    have "c \<noteq> ca"
    proof
      assume "c = ca"
      then have "gcount h va' = gcount h va" using gcount_rep [OF c(1)] gcount_rep [OF ca] by simp
      then show False using ginjD [of h m k' ka' va' k ka va] inv k'(1) k(1) False by (simp add: ginv_def)
    qed
    then show ?thesis using c ca by (auto simp: gvar_rep_def intro!: exI [of _ c])
  qed
  moreover have "dom (G(k \<mapsto> ys)) = dom m" using inv k by (auto simp: ginv_def)
  moreover have "ginj ?h m" by (rule ginj_cong [OF _ gc]) (use inv in \<open>simp_all add: ginv_def\<close>)
  ultimately show "ginv ?h m (G(k \<mapsto> ys))" unfolding ginv_def by blast
qed

text \<open>A new global.\<close>

lemma ginv_new:
  assumes inv: "ginv h m G" and k: "G k = None" and ka: "ka \<noteq> NULL" "h ka = Some (StrB k)"
    and r: "gvar_rep h va ca xs" and new: "ca \<notin> gowned h m"
  shows "ginv h (m(k \<mapsto> (ka, va))) (G(k \<mapsto> xs))" "gowned h (m(k \<mapsto> (ka, va))) = gowned h m \<union> {ka, va, ca}"
proof -
  have mk: "m k = None" using ginv_None [OF inv] k by simp
  then show "gowned h (m(k \<mapsto> (ka, va))) = gowned h m \<union> {ka, va, ca}"
    using gcount_rep [OF r] by (auto simp: gowned_def split: if_splits) (metis option.distinct(1))+
  have "ginj h (m(k \<mapsto> (ka, va)))"
    unfolding ginj_def
  proof (intro allI impI)
    fix k1 k2 a1 a2 v1 v2
    assume a: "(m(k \<mapsto> (ka, va))) k1 = Some (a1, v1)" "(m(k \<mapsto> (ka, va))) k2 = Some (a2, v2)"
      and c: "gcount h v1 = gcount h v2"
    have n: "gcount h v' \<noteq> Some ca" if "m k' = Some (a', v')" for k' a' v'
      using gownedI(3) [of m k' a' v' h ca] that new by blast
    show "k1 = k2"
      using a c n gcount_rep [OF r] ginjD [of h m k1 a1 v1 k2 a2 v2] inv
      by (auto simp: ginv_def split: if_splits)
  qed
  then show "ginv h (m(k \<mapsto> (ka, va))) (G(k \<mapsto> xs))"
    using inv ka r unfolding ginv_def by (auto split: if_splits)
qed

subsection \<open>States\<close>

definition ggood :: "('h \<Rightarrow> bool) \<Rightarrow> ('h \<Rightarrow> gpairs) \<Rightarrow> genv \<Rightarrow> ('h, 'r) st \<Rightarrow> bool" where
  "ggood hinv hmap G s \<longleftrightarrow> heap_ok s \<and> hinv (gtab s) \<and> ginv (heap s) (hmap (gtab s)) G"

abbreviation gblocks :: "('h \<Rightarrow> gpairs) \<Rightarrow> ('h, 'r) st \<Rightarrow> addr set" where
  "gblocks hmap s \<equiv> gowned (heap s) (hmap (gtab s))"

text \<open>
  What an operation on a global does: the table stands for \<open>G'\<close>, the key is freed or in the
  table, every other block that the table does not own is as before, no block is lost, and only
  the memory and the table change.
\<close>

definition gsteps :: "('h \<Rightarrow> bool) \<Rightarrow> ('h \<Rightarrow> gpairs) \<Rightarrow> addr \<Rightarrow> ('h, 'r) st \<Rightarrow> genv \<Rightarrow> ('h, 'r) st \<Rightarrow> bool" where
  "gsteps hinv hmap key s G' s' \<longleftrightarrow> ggood hinv hmap G' s' \<and>
     s' = s\<lparr>heap := heap s', fresh := fresh s', gtab := gtab s'\<rparr> \<and> fresh s \<le> fresh s' \<and>
     gblocks hmap s \<subseteq> gblocks hmap s' \<and> gblocks hmap s' \<subseteq> gblocks hmap s \<union> {key} \<union> {fresh s..} \<and>
     (\<forall>a. a \<notin> gblocks hmap s' \<longrightarrow> heap s' a = (if a = key then None else heap s a))"

lemma gsteps_good: "gsteps hinv hmap key s G' s' \<Longrightarrow> ggood hinv hmap G' s'"
  by (simp add: gsteps_def)

lemma gsteps_fields:
  assumes "gsteps hinv hmap key s G' s'"
  shows "mem_max s' = mem_max s" "vartable s' = vartable s" "translated_line s' = translated_line s"
    "pstate s' = pstate s" "argv s' = argv s" "out s' = out s" "itable s' = itable s"
proof -
  obtain h f g where "s' = s\<lparr>heap := h, fresh := f, gtab := g\<rparr>"
    using assms unfolding gsteps_def by blast
  then show "mem_max s' = mem_max s" "vartable s' = vartable s" "translated_line s' = translated_line s"
    "pstate s' = pstate s" "argv s' = argv s" "out s' = out s" "itable s' = itable s"
    by simp_all
qed

lemma gsteps_free:
  assumes g: "ggood hinv hmap G s" and key: "key \<notin> gblocks hmap s"
  shows "gsteps hinv hmap key s G (s\<lparr>heap := (heap s)(key := None)\<rparr>)"
proof -
  have "gowned ((heap s)(key := None)) (hmap (gtab s)) = gblocks hmap s"
    by (rule gowned_cong) (use key in auto)
  moreover have "ginv ((heap s)(key := None)) (hmap (gtab s)) G"
    by (rule ginv_cong [of "heap s"]) (use g key in \<open>auto simp: ggood_def\<close>)
  ultimately show ?thesis
    using g key by (auto simp: gsteps_def ggood_def)
qed

lemma gsteps_write:
  assumes g: "ggood hinv hmap G s" and key: "key \<notin> gblocks hmap s"
    and k: "hmap (gtab s) k = Some (ka, va)" "G k = Some xs" "gvar_rep (heap s) va ca xs"
    and ys: "length ys = length xs"
  shows "gsteps hinv hmap key s (G(k \<mapsto> ys)) (s\<lparr>heap := (heap s)(key := None, ca \<mapsto> IntsB (map Some ys))\<rparr>)"
proof -
  let ?s = "s\<lparr>heap := (heap s)(key := None)\<rparr>"
  have f: "ggood hinv hmap G ?s" by (rule gsteps_good [OF gsteps_free [OF g key]])
  have f2: "gblocks hmap ?s = gblocks hmap s"
    using gowned_cong [of "heap s" "hmap (gtab s)" "heap ?s"] key by fastforce
  have own: "va \<in> gblocks hmap s" "ca \<in> gblocks hmap s"
    using gownedI [of "hmap (gtab s)" k ka va "heap s"] k(1) gcount_rep [OF k(3)] by simp_all
  then have r: "gvar_rep (heap ?s) va ca xs" using k(3) key by (auto simp: gvar_rep_def)
  have w: "ginv ((heap ?s)(ca \<mapsto> IntsB (map Some ys))) (hmap (gtab s)) (G(k \<mapsto> ys))"
      "gowned ((heap ?s)(ca \<mapsto> IntsB (map Some ys))) (hmap (gtab s)) = gblocks hmap ?s"
    using ginv_write [of "heap ?s" "hmap (gtab s)" G k ka va xs ca ys] f k(1,2) r ys by (simp_all add: ggood_def)
  have "ca \<noteq> NULL" "ca < fresh s"
    using k(3) g heap_ok_live [of s ca] by (auto simp: gvar_rep_def ggood_def)
  then show ?thesis
    using g own w f2 by (auto simp: gsteps_def ggood_def heap_ok_def)
qed

text \<open>The state after \<open>global_var_init\<close>, with the cells \<open>xs\<close>.\<close>

definition gnew :: "c_int list \<Rightarrow> ('h, 'r) st \<Rightarrow> ('h, 'r) st" where
  "gnew xs s = s\<lparr>heap := (heap s)(fresh s \<mapsto> GVarB \<lparr>gv_count = Suc (fresh s), gv_len = word_of_nat (length xs)\<rparr>,
     Suc (fresh s) \<mapsto> IntsB (map Some xs)), fresh := Suc (Suc (fresh s))\<rparr>"

lemma gsteps_new:
  assumes g: "ggood hinv hmap G s" and k: "G k = None" and key: "heap s key = Some (StrB k)"
    and len: "length xs < 2 ^ 64" and h': "hinv h'" "hmap h' = (hmap (gtab s))(k \<mapsto> (key, fresh s))"
  shows "gsteps hinv hmap key s (G(k \<mapsto> xs)) ((gnew xs s)\<lparr>gtab := h'\<rparr>)"
proof -
  let ?h = "(heap s)(fresh s \<mapsto> GVarB \<lparr>gv_count = Suc (fresh s), gv_len = word_of_nat (length xs)\<rparr>,
      Suc (fresh s) \<mapsto> IntsB (map Some xs))"
  have ok: "heap_ok s" and inv: "ginv (heap s) (hmap (gtab s)) G" using g by (simp_all add: ggood_def)
  have own: "a < fresh s" if "a \<in> gblocks hmap s" for a
    using gowned_live [OF inv that] heap_ok_live [OF ok] by auto
  have live: "key \<noteq> NULL" "key < fresh s" using heap_ok_live [OF ok key] by auto
  have f: "fresh s \<noteq> NULL" using ok by (simp add: heap_ok_def)
  have same: "?h a = heap s a" if "a \<in> gblocks hmap s" for a
    using own [OF that] by auto
  have o: "gowned ?h (hmap (gtab s)) = gblocks hmap s" by (rule gowned_cong [OF same])
  have i: "ginv ?h (hmap (gtab s)) G" by (rule ginv_cong [OF inv same])
  have r: "gvar_rep ?h (fresh s) (Suc (fresh s)) xs"
    using f len by (simp add: gvar_rep_def)
  have kh: "?h key = Some (StrB k)" using key live by simp
  have new: "Suc (fresh s) \<notin> gowned ?h (hmap (gtab s))" using own [of "Suc (fresh s)"] o by auto
  have "ginv ?h (hmap h') (G(k \<mapsto> xs))" "gowned ?h (hmap h') = gblocks hmap s \<union> {key, fresh s, Suc (fresh s)}"
    using ginv_new [OF i k live(1) kh r new] o h'(2) by simp_all
  then show ?thesis
    using ok h'(1) by (auto simp: gnew_def gsteps_def ggood_def heap_ok_def)
qed

subsection \<open>The operations\<close>

lemma unat_Suc:
  assumes "unat (idx :: size_t) + 1 < 2 ^ 64"
  shows "unat (idx + 1) = Suc (unat idx)"
proof -
  have "unat (idx + 1) = unat idx + unat (1 :: size_t)"
    by (rule iffD1 [OF unat_add_lem]) (use assms in simp)
  then show ?thesis by simp
qed

lemma idx_lt: "length xs < 2 ^ 64 \<Longrightarrow> (idx :: size_t) < word_of_nat (length xs) \<longleftrightarrow> unat idx < length xs"
  by (simp add: word_less_nat_alt unat_of_nat)

lemma cell_idx [simp]: "unat idx < length xs \<Longrightarrow> cell (uint idx) (map Some xs) = Ok (xs ! unat idx)"
  using cell_Some [of "unat idx" xs] by simp

lemma set_cell_Some: "i < length xs \<Longrightarrow> set_cell (int i) v (map Some xs) = Ok (map Some (xs[i := v]))"
  by (simp add: set_cell_def map_update)

lemma set_cell_idx [simp]: "unat idx < length xs \<Longrightarrow> set_cell (uint idx) v (map Some xs) = Ok (map Some (xs[unat idx := v]))"
  using set_cell_Some [of "unat idx" xs v] by simp

lemma gv_heap [mem_simps]: "gvar_rep (heap s) va ca xs \<Longrightarrow> read_gvar va s = Ok \<lparr>gv_count = ca, gv_len = word_of_nat (length xs)\<rparr>"
  "gvar_rep (heap s) va ca xs \<Longrightarrow> read_ints ca s = Ok (map Some xs)"
  by (simp_all add: gvar_rep_def mem_simps)

lemma count_at_rep: "gvar_rep (heap s) va ca xs \<Longrightarrow> unat idx < length xs \<Longrightarrow> count_at va idx s = Ok (xs ! unat idx)"
  by (simp add: count_at_def mem_simps)

lemma set_count_rep: "gvar_rep (heap s) va ca xs \<Longrightarrow> unat idx < length xs \<Longrightarrow>
    set_count va idx v s = Ok (s\<lparr>heap := (heap s)(ca \<mapsto> IntsB (map Some (xs[unat idx := v])))\<rparr>)"
  by (simp add: set_count_def mem_simps) (simp add: gvar_rep_def mem_simps)

lemma global_var_init_ok:
  assumes "heap_ok s" and "unat idx + 1 < 2 ^ 64" and "4 * (unat idx + 1) \<le> mem_max s"
  shows "global_var_init (idx + 1) s = Ok (fresh s, gnew (replicate (Suc (unat idx)) 0) s)"
proof -
  note n = unat_Suc [OF assms(2)]
  have nz: "idx + 1 \<noteq> 0" using n by (metis unat_0 nat.distinct(1))
  have len: "word_of_nat (Suc (unat idx)) = idx + 1" by simp
  have f: "fresh s \<noteq> NULL" using assms(1) by (simp add: heap_ok_def)
  have tw: "m(fresh s \<mapsto> a, Suc (fresh s) \<mapsto> b, fresh s \<mapsto> c) = m(fresh s \<mapsto> c, Suc (fresh s) \<mapsto> b)" for m :: "addr \<Rightarrow> block option" and a b c
    by auto
  show ?thesis
    unfolding gnew_def length_replicate len using nz n assms(3) f
    by (simp add: global_var_init_def alloc_def SEM_INIT_def store_live tw)
qed

lemma set_count_gnew:
  assumes "heap_ok s" and "unat idx < length xs" and "length xs < 2 ^ 64"
  shows "set_count (fresh s) idx v (gnew xs s) = Ok (gnew (xs[unat idx := v]) s)"
proof -
  have "gvar_rep (heap (gnew xs s)) (fresh s) (Suc (fresh s)) xs"
    using assms by (simp add: gvar_rep_def gnew_def heap_ok_def)
  from set_count_rep [OF this assms(2)] show ?thesis by (simp add: gnew_def)
qed

context voids_lib
begin

lemma find_global_Some:
  assumes g: "ggood hinv hmap G s" and k: "G k = Some xs" and key: "heap s key = Some (StrB k)"
  obtains ka va ca where "find_global V key s = Ok (Some va)" "hmap (gtab s) k = Some (ka, va)" "gvar_rep (heap s) va ca xs"
    "va \<in> gblocks hmap s" "ca \<in> gblocks hmap s"
proof -
  have inv: "hinv (gtab s)" "ginv (heap s) (hmap (gtab s)) G" and n: "key \<noteq> NULL"
    using g heap_ok_live [of s key] key by (auto simp: ggood_def)
  obtain ka va ca where m: "hmap (gtab s) k = Some (ka, va)" "gvar_rep (heap s) va ca xs"
    by (rule ginv_Some [OF inv(2) k])
  have "find_global V key s = Ok (Some va)"
    using find_Some [OF inv(1) m(1)] key n by (auto simp: find_global_def mem_simps)
  then show thesis
    using that m gownedI [of "hmap (gtab s)" k ka va "heap s"] gcount_rep [OF m(2)] by blast
qed

lemma find_global_None:
  assumes "ggood hinv hmap G s" and "G k = None" and "heap s key = Some (StrB k)"
  shows "find_global V key s = Ok None"
  using assms find_None [of "gtab s" k] ginv_None [of "heap s" "hmap (gtab s)" G k] heap_ok_live [of s key]
  by (auto simp: ggood_def find_global_def mem_simps)

lemma insert_global_new:
  assumes "hinv (gtab s)" and "hmap (gtab s) k = None" and "key \<noteq> NULL" and "heap s key = Some (StrB k)"
  obtains h' where "insert_global V key va s = Ok (s\<lparr>gtab := h'\<rparr>)" "hinv h'" "hmap h' = (hmap (gtab s))(k \<mapsto> (key, va))"
  using insert_new [OF assms(1,2), of key va] assms(3,4) that by (auto simp: insert_global_def mem_simps)

text \<open>The first half of every operation: the key is freed, the structure read.\<close>

lemma key_dealloc:
  assumes "heap_ok s" and "heap s key = Some (StrB k)"
  shows "dealloc key s = Ok (s\<lparr>heap := (heap s)(key := None)\<rparr>)"
  using assms heap_ok_live [of s key] by (auto simp: mem_simps)

lemma gvar_rep_free: "gvar_rep h va ca xs \<Longrightarrow> key \<noteq> va \<Longrightarrow> key \<noteq> ca \<Longrightarrow> gvar_rep (h(key := None)) va ca xs"
  by (simp add: gvar_rep_def)

text \<open>A name that is not there: \<open>global_var_init\<close>, a store in the new cells, \<open>QuadHash_insert\<close>.\<close>

lemma new_global:
  assumes g: "ggood hinv hmap G s" and k: "G k = None" and key: "heap s key = Some (StrB k)" and len: "length xs < 2 ^ 64"
  obtains s' where "insert_global V key (fresh s) (gnew xs s) = Ok s'" "gsteps hinv hmap key s (G(k \<mapsto> xs)) s'"
    "hmap (gtab s') k = Some (key, fresh s)"
proof -
  have ok: "hinv (gtab s)" "hmap (gtab s) k = None" "key \<noteq> NULL" "key < fresh s"
    using g heap_ok_live [of s key] key ginv_None [of "heap s" "hmap (gtab s)" G k] k by (auto simp: ggood_def)
  obtain h' where h': "insert_global V key (fresh s) (gnew xs s) = Ok ((gnew xs s)\<lparr>gtab := h'\<rparr>)" "hinv h'"
      "hmap h' = (hmap (gtab s))(k \<mapsto> (key, fresh s))"
    using insert_global_new [of "gnew xs s" k key "fresh s"] ok key by (auto simp: gnew_def)
  then show thesis
    using that [OF h'(1) gsteps_new [OF g k key len h'(2,3)]] h'(3) by simp
qed

text \<open>A name that is there: the key is freed and the structure is found.\<close>

lemma old_global:
  assumes g: "ggood hinv hmap G s" and k: "G k = Some xs" and key: "heap s key = Some (StrB k)" "key \<notin> gblocks hmap s"
    and i: "unat idx < length xs"
  obtains ka va s1 where "find_global V key s = Ok (Some va)" "hmap (gtab s1) k = Some (ka, va)" "dealloc key s = Ok s1" "\<exists>c. read_gvar va s1 = Ok c \<and> idx < gv_len c"
    "count_at va idx s1 = Ok (xs ! unat idx)" "gsteps hinv hmap key s G s1"
    "\<And>v. \<exists>s'. set_count va idx v s1 = Ok s' \<and> gsteps hinv hmap key s (G(k \<mapsto> xs[unat idx := v])) s'"
proof -
  obtain ka va ca where f: "find_global V key s = Ok (Some va)" "hmap (gtab s) k = Some (ka, va)" "gvar_rep (heap s) va ca xs"
      "va \<in> gblocks hmap s" "ca \<in> gblocks hmap s"
    by (rule find_global_Some [OF g k key(1)])
  let ?s = "s\<lparr>heap := (heap s)(key := None)\<rparr>"
  have r: "gvar_rep (heap ?s) va ca xs" using gvar_rep_free [OF f(3), of key] f(4,5) key(2) by fastforce
  have "set_count va idx v ?s = Ok (s\<lparr>heap := (heap s)(key := None, ca \<mapsto> IntsB (map Some (xs[unat idx := v])))\<rparr>)" for v
    using set_count_rep [OF r i] by simp
  moreover have "gsteps hinv hmap key s (G(k \<mapsto> xs[unat idx := v]))
      (s\<lparr>heap := (heap s)(key := None, ca \<mapsto> IntsB (map Some (xs[unat idx := v])))\<rparr>)" for v
    by (rule gsteps_write [OF g key(2) f(2) k f(3)]) simp
  moreover have "dealloc key s = Ok ?s" using key_dealloc [OF _ key(1)] g by (simp add: ggood_def)
  moreover have "\<exists>c. read_gvar va ?s = Ok c \<and> idx < gv_len c"
    using gv_heap(1) [OF r] idx_lt [of xs idx] r i by (simp add: gvar_rep_def)
  ultimately show thesis
    using that [OF f(1), of ?s ka] f(2) count_at_rep [OF r i] gsteps_free [OF g key(2)] by simp
qed

lemma load_refines:
  assumes g: "ggood hinv hmap G s" and key: "heap s key = Some (StrB k)" "key \<notin> gblocks hmap s"
    and idx: "unat idx + 1 < 2 ^ 64" "4 * (unat idx + 1) \<le> mem_max s" and gl: "gload G k (unat idx) = Some (v, G')"
  shows "\<exists>s'. global_var_load V key idx s = Ok (v, s') \<and> gsteps hinv hmap key s G' s'"
proof (cases "G k")
  case None
  have ok: "heap_ok s" using g by (simp add: ggood_def)
  obtain s' where "insert_global V key (fresh s) (gnew (replicate (Suc (unat idx)) 0) s) = Ok s'"
      "gsteps hinv hmap key s (G(k \<mapsto> replicate (Suc (unat idx)) 0)) s'"
    by (rule new_global [OF g None key(1)]) (use idx(1) in \<open>auto simp del: replicate.simps\<close>)
  then show ?thesis
    using find_global_None [OF g None key(1)] global_var_init_ok [OF ok idx] gl None
    by (auto simp: global_var_load_def simp del: replicate.simps)
next
  case (Some xs)
  then have v: "unat idx < length xs" "v = xs ! unat idx" "G' = G" using gl by (auto split: if_splits)
  obtain va s1 where "find_global V key s = Ok (Some va)" "dealloc key s = Ok s1" "\<exists>c. read_gvar va s1 = Ok c \<and> idx < gv_len c"
    "count_at va idx s1 = Ok (xs ! unat idx)" "gsteps hinv hmap key s G s1"
    using old_global [OF g Some key v(1)] by metis
  then show ?thesis using v by (auto simp: global_var_load_def)
qed

lemma store_refines:
  assumes g: "ggood hinv hmap G s" and key: "heap s key = Some (StrB k)" "key \<notin> gblocks hmap s"
    and idx: "unat idx + 1 < 2 ^ 64" "4 * (unat idx + 1) \<le> mem_max s" and gl: "gstore G k (unat idx) v = Some G'"
  shows "\<exists>s'. global_var_store V key idx v s = Ok s' \<and> gsteps hinv hmap key s G' s'"
proof (cases "G k")
  case None
  let ?xs = "(replicate (Suc (unat idx)) 0)[unat idx := v]"
  have ok: "heap_ok s" using g by (simp add: ggood_def)
  obtain s' where "insert_global V key (fresh s) (gnew ?xs s) = Ok s'" "gsteps hinv hmap key s (G(k \<mapsto> ?xs)) s'"
    by (rule new_global [OF g None key(1)]) (use idx(1) in \<open>auto simp del: replicate.simps\<close>)
  then show ?thesis
    using find_global_None [OF g None key(1)] global_var_init_ok [OF ok idx] gl None
      set_count_gnew [OF ok, of idx "replicate (Suc (unat idx)) 0" v] idx(1)
    by (auto simp: global_var_store_def simp del: replicate.simps)
next
  case (Some xs)
  then have v: "unat idx < length xs" "G' = G(k \<mapsto> xs[unat idx := v])" using gl by (auto split: if_splits)
  obtain va s1 where "find_global V key s = Ok (Some va)" "dealloc key s = Ok s1" "\<exists>c. read_gvar va s1 = Ok c \<and> idx < gv_len c"
    "\<exists>s'. set_count va idx v s1 = Ok s' \<and> gsteps hinv hmap key s (G(k \<mapsto> xs[unat idx := v])) s'"
    using old_global [OF g Some key v(1)] by metis
  then show ?thesis using v by (auto simp: global_var_store_def)
qed

lemma up_refines:
  assumes g: "ggood hinv hmap G s" and key: "heap s key = Some (StrB k)" "key \<notin> gblocks hmap s"
    and idx: "unat idx + 1 < 2 ^ 64" "4 * (unat idx + 1) \<le> mem_max s" and gl: "gup G k (unat idx) = Some G'"
  shows "\<exists>s'. global_var_up V key idx s = Ok s' \<and> gsteps hinv hmap key s G' s'"
proof (cases "G k")
  case None
  let ?xs = "(replicate (Suc (unat idx)) 0)[unat idx := 1]"
  have ok: "heap_ok s" using g by (simp add: ggood_def)
  obtain s' where "insert_global V key (fresh s) (gnew ?xs s) = Ok s'" "gsteps hinv hmap key s (G(k \<mapsto> ?xs)) s'"
    by (rule new_global [OF g None key(1)]) (use idx(1) in \<open>auto simp del: replicate.simps\<close>)
  then show ?thesis
    using find_global_None [OF g None key(1)] global_var_init_ok [OF ok idx] gl None
      set_count_gnew [OF ok, of idx "replicate (Suc (unat idx)) 0" 1] idx(1)
    by (auto simp: global_var_up_def simp del: replicate.simps)
next
  case (Some xs)
  then have v: "unat idx < length xs" "in_int (sint (xs ! unat idx) + 1)" "G' = G(k \<mapsto> xs[unat idx := xs ! unat idx + 1])"
    using gl by (auto split: if_splits)
  have add: "c_add (xs ! unat idx) 1 = Ok (xs ! unat idx + 1)"
    using v(2) by (simp add: c_add_def)
  obtain va s1 where "find_global V key s = Ok (Some va)" "dealloc key s = Ok s1" "\<exists>c. read_gvar va s1 = Ok c \<and> idx < gv_len c"
    "count_at va idx s1 = Ok (xs ! unat idx)"
    "\<exists>s'. set_count va idx (xs ! unat idx + 1) s1 = Ok s' \<and> gsteps hinv hmap key s (G(k \<mapsto> xs[unat idx := xs ! unat idx + 1])) s'"
    using old_global [OF g Some key v(1)] by metis
  then show ?thesis using v add by (auto simp: global_var_up_def)
qed

lemma down_refines:
  assumes g: "ggood hinv hmap G s" and key: "heap s key = Some (StrB k)" "key \<notin> gblocks hmap s"
    and idx: "unat idx + 1 < 2 ^ 64" "4 * (unat idx + 1) \<le> mem_max s" and gl: "gdown G k (unat idx) = Some G'"
  shows "\<exists>s' ka va. global_var_down V key idx s = Ok (s'\<lparr>blocked_idx := idx, pstate := BLOCKED, sem := va\<rparr>) \<and>
    gsteps hinv hmap key s G' s' \<and> hmap (gtab s') k = Some (ka, va)"
proof (cases "G k")
  case None
  have ok: "heap_ok s" using g by (simp add: ggood_def)
  obtain s' where "insert_global V key (fresh s) (gnew (replicate (Suc (unat idx)) 0) s) = Ok s'"
      "gsteps hinv hmap key s (G(k \<mapsto> replicate (Suc (unat idx)) 0)) s'" "hmap (gtab s') k = Some (key, fresh s)"
    by (rule new_global [OF g None key(1)]) (use idx(1) in \<open>auto simp del: replicate.simps\<close>)
  then show ?thesis
    using find_global_None [OF g None key(1)] global_var_init_ok [OF ok idx] gl None
    by (auto simp: global_var_down_def simp del: replicate.simps)
next
  case (Some xs)
  then have v: "unat idx < length xs" "G' = G" using gl by (auto split: if_splits)
  obtain ka va s1 where "find_global V key s = Ok (Some va)" "hmap (gtab s1) k = Some (ka, va)" "dealloc key s = Ok s1"
      "\<exists>c. read_gvar va s1 = Ok c \<and> idx < gv_len c" "gsteps hinv hmap key s G s1"
    using old_global [OF g Some key v(1)] by metis
  then show ?thesis using v by (fastforce simp: global_var_down_def)
qed

text \<open>An index past the end of a global that exists: \<open>realloc\<close> of the structure.\<close>

lemma grow_count_fault:
  assumes "va \<noteq> NULL" and "va < fresh s" and "heap s va = Some b" and "unat (4 * (idx + 1)) \<le> mem_max s"
  shows "grow_count va idx hi s = Undef UseAfterFree"
  using assms by (simp add: grow_count_def alloc_def Let_def mem_simps)

lemma past_end_fault:
  assumes g: "ggood hinv hmap G s" and key: "heap s key = Some (StrB k)" "key \<notin> gblocks hmap s"
    and k: "G k = Some xs" "length xs \<le> unat idx" and mm: "unat (4 * (idx + 1)) \<le> mem_max s"
  shows "global_var_load V key idx s = Undef UseAfterFree" "global_var_store V key idx v s = Undef UseAfterFree"
    "global_var_up V key idx s = Undef UseAfterFree" "global_var_down V key idx s = Undef UseAfterFree"
proof -
  obtain ka va ca where f: "find_global V key s = Ok (Some va)" "hmap (gtab s) k = Some (ka, va)" "gvar_rep (heap s) va ca xs"
      "va \<in> gblocks hmap s" "ca \<in> gblocks hmap s"
    by (rule find_global_Some [OF g k(1) key(1)])
  let ?s = "s\<lparr>heap := (heap s)(key := None)\<rparr>"
  have r: "gvar_rep (heap ?s) va ca xs" using gvar_rep_free [OF f(3), of key] f(4,5) key(2) by fastforce
  have d: "dealloc key s = Ok ?s" using key_dealloc [OF _ key(1)] g by (simp add: ggood_def)
  have c: "read_gvar va ?s = Ok \<lparr>gv_count = ca, gv_len = word_of_nat (length xs)\<rparr>" "\<not> idx < word_of_nat (length xs)"
    using gv_heap(1) [OF r] idx_lt [of xs idx] r k(2) by (simp_all add: gvar_rep_def)
  obtain b where va: "heap s va = Some b" "va \<noteq> key" "va \<noteq> NULL" "heap_ok s"
    using f(3,4) g key(2) by (auto simp: gvar_rep_def ggood_def)
  have gr: "grow_count va idx hi ?s = Undef UseAfterFree" for hi
    using grow_count_fault [of va ?s b] va heap_ok_live [of s va] mm by simp
  show "global_var_load V key idx s = Undef UseAfterFree" "global_var_store V key idx v s = Undef UseAfterFree"
    "global_var_up V key idx s = Undef UseAfterFree" "global_var_down V key idx s = Undef UseAfterFree"
    using f(1) d c gr by (simp_all add: global_var_load_def global_var_store_def global_var_up_def global_var_down_def)
qed

text \<open>One unit of a semaphore is taken.\<close>

lemma take_unit_refines:
  assumes g: "ggood hinv hmap G s" and k: "hmap (gtab s) k = Some (ka, sem s)" "G k = Some xs"
    and i: "unat (blocked_idx s) < length xs" and pos: "0 < sint (xs ! unat (blocked_idx s))"
  shows "count_at (sem s) (blocked_idx s) s = Ok (xs ! unat (blocked_idx s))"
    "\<exists>s1. take_unit s (xs ! unat (blocked_idx s)) = Ok (if pstate s = BLOCKED then s1\<lparr>pstate := INSTRUCTION_LINE\<rparr> else s1) \<and>
      gsteps hinv hmap NULL s (G(k \<mapsto> xs[unat (blocked_idx s) := xs ! unat (blocked_idx s) - 1])) s1"
proof -
  let ?i = "unat (blocked_idx s)"
  have inv: "heap_ok s" "ginv (heap s) (hmap (gtab s)) G" using g by (simp_all add: ggood_def)
  obtain ca where r: "gvar_rep (heap s) (sem s) ca xs"
    by (rule ginv_pair [OF inv(2) k(1)]) (use k(2) in auto)
  show "count_at (sem s) (blocked_idx s) s = Ok (xs ! ?i)" by (rule count_at_rep [OF r i])
  have null: "NULL \<notin> gblocks hmap s" "(heap s)(NULL := None) = heap s"
    using gowned_live(1) [OF inv(2)] inv(1) by (auto simp: heap_ok_def fun_eq_iff)
  have "c_sub (xs ! ?i) 1 = Ok (xs ! ?i - 1)"
    using pos sint_in_int [of "xs ! ?i"] by (simp add: c_sub_def in_int_def)
  moreover have "gsteps hinv hmap NULL s (G(k \<mapsto> xs[?i := xs ! ?i - 1])) (s\<lparr>heap := (heap s)(ca \<mapsto> IntsB (map Some (xs[?i := xs ! ?i - 1])))\<rparr>)"
    using gsteps_write [OF g null(1) k r, of "xs[?i := xs ! ?i - 1]"] null(2) by simp
  ultimately show "\<exists>s1. take_unit s (xs ! ?i) = Ok (if pstate s = BLOCKED then s1\<lparr>pstate := INSTRUCTION_LINE\<rparr> else s1) \<and>
      gsteps hinv hmap NULL s (G(k \<mapsto> xs[?i := xs ! ?i - 1])) s1"
    using set_count_rep [OF r i] by (auto simp: take_unit_def)
qed

end

end
