(* ===== verification/GlobProps.thy ===== *)
theory GlobProps imports GlobSpec VarProps begin

section \<open>Properties of global variables and semaphores (global.c)\<close>

text \<open>
  The refinement of the global table for any library that meets the contract \<open>voids_lib\<close>, the
  rounds of a blocked program, and the two faults of the code: an index past the end of a global
  that exists, and a negative index.
\<close>

subsection \<open>A concrete table\<close>

text \<open>The global \<open>S\<close> with the cells 1 and 0, two keys \<open>S\<close> and a key \<open>T\<close>.\<close>

definition gdemo_env :: genv where
  "gdemo_env = [''S'' \<mapsto> [1, 0]]"

definition gdemo_heap :: "addr \<Rightarrow> block option" where
  "gdemo_heap = [1 \<mapsto> StrB ''S'', 2 \<mapsto> GVarB \<lparr>gv_count = 3, gv_len = 2\<rparr>, 3 \<mapsto> IntsB [Some 1, Some 0],
     4 \<mapsto> StrB ''S'', 5 \<mapsto> StrB ''T'', 6 \<mapsto> StrB ''S'']"

definition gdemo :: "(lhash, lring) st" where
  "gdemo = demo_st\<lparr>heap := gdemo_heap, fresh := 7, gtab := [(''S'', 1, 2)], sem := 2, blocked_idx := 0, pstate := BLOCKED\<rparr>"

lemma gdemo_fields [simp]: "heap gdemo = gdemo_heap" "fresh gdemo = 7" "gtab gdemo = [(''S'', 1, 2)]" "mem_max gdemo = 1000"
  "sem gdemo = 2" "blocked_idx gdemo = 0" "pstate gdemo = BLOCKED"
  by (simp_all add: gdemo_def)

lemma gdemo_owned: "gowned gdemo_heap [''S'' \<mapsto> (Suc 0, 2)] = {1, 2, 3}"
  by (auto simp: gowned_def gcount_def gdemo_heap_def split: if_splits)

lemma gdemo_good: "ggood l_hinv map_of gdemo_env gdemo"
proof -
  have "gvar_rep gdemo_heap 2 3 [1, 0]" by (simp add: gvar_rep_def gdemo_heap_def)
  then have "ginv gdemo_heap [''S'' \<mapsto> (1, 2)] gdemo_env"
    by (auto simp: ginv_def ginj_def gdemo_env_def split: if_splits) (simp add: gdemo_heap_def)+
  then show ?thesis
    by (simp add: ggood_def heap_ok_def) (simp add: gdemo_heap_def)
qed

lemma gdemo_key: "heap gdemo 4 = Some (StrB ''S'')" "heap gdemo 5 = Some (StrB ''T'')" "heap gdemo 6 = Some (StrB ''S'')"
  "4 \<notin> gblocks map_of gdemo" "5 \<notin> gblocks map_of gdemo" "6 \<notin> gblocks map_of gdemo"
  by (simp_all add: gdemo_owned) (simp_all add: gdemo_heap_def)

subsection \<open>The operations refine the environment of globals\<close>

text \<open>
  C18: \<open>global_var_load\<close> computes \<open>gload\<close>.  An element of a global that exists is returned and nothing
  changes; a name that does not exist yet is defined with zeros up to the index and 0 is returned.  The
  key is freed or becomes the key of the table, and no other block is touched.
\<close>

theorem load_correct:
  assumes "voids_lib V hinv hmap rinv rlist"
    and "ggood hinv hmap G s" and "heap s key = Some (StrB k)" and "key \<notin> gblocks hmap s"
    and "unat idx + 1 < 2 ^ 64" and "4 * (unat idx + 1) \<le> mem_max s"
    and "gload G k (unat idx) = Some (v, G')"
  shows "\<exists>s'. global_var_load V key idx s = Ok (v, s') \<and> gsteps hinv hmap key s G' s'"
  by (rule voids_lib.load_refines [OF assms])

theorem load_witness:
  "\<exists>s'. global_var_load list_voids 5 0 gdemo = Ok (0, s') \<and>
    gsteps l_hinv map_of 5 gdemo (gdemo_env(''T'' \<mapsto> [0])) s'"
  by (rule load_correct [OF lv.voids_lib_axioms gdemo_good gdemo_key(2,5)])
    (simp_all add: gdemo_env_def)

text \<open>
  C19: \<open>global_var_store\<close> computes \<open>gstore\<close>: it writes the element of a global that exists, and
  defines a name that does not exist yet with zeros and the value at the index.
\<close>

theorem store_correct:
  assumes "voids_lib V hinv hmap rinv rlist"
    and "ggood hinv hmap G s" and "heap s key = Some (StrB k)" and "key \<notin> gblocks hmap s"
    and "unat idx + 1 < 2 ^ 64" and "4 * (unat idx + 1) \<le> mem_max s"
    and "gstore G k (unat idx) v = Some G'"
  shows "\<exists>s'. global_var_store V key idx v s = Ok s' \<and> gsteps hinv hmap key s G' s'"
  by (rule voids_lib.store_refines [OF assms])

theorem store_witness:
  "\<exists>s'. global_var_store list_voids 4 1 9 gdemo = Ok s' \<and>
    gsteps l_hinv map_of 4 gdemo (gdemo_env(''S'' \<mapsto> [1, 9])) s'"
  by (rule store_correct [OF lv.voids_lib_axioms gdemo_good gdemo_key(1,4)])
    (simp_all add: gdemo_env_def)

text \<open>
  C21: \<open>global_var_up\<close> computes \<open>gup\<close>: it adds one to a semaphore that exists and whose value is not the
  largest \<open>int\<close>, and defines one that does not with the value 1.
\<close>

theorem up_correct:
  assumes "voids_lib V hinv hmap rinv rlist"
    and "ggood hinv hmap G s" and "heap s key = Some (StrB k)" and "key \<notin> gblocks hmap s"
    and "unat idx + 1 < 2 ^ 64" and "4 * (unat idx + 1) \<le> mem_max s"
    and "gup G k (unat idx) = Some G'"
  shows "\<exists>s'. global_var_up V key idx s = Ok s' \<and> gsteps hinv hmap key s G' s'"
  by (rule voids_lib.up_refines [OF assms])

theorem up_witness:
  "\<exists>s'. global_var_up list_voids 4 0 gdemo = Ok s' \<and>
    gsteps l_hinv map_of 4 gdemo (gdemo_env(''S'' \<mapsto> [2, 0])) s'"
  by (rule up_correct [OF lv.voids_lib_axioms gdemo_good gdemo_key(1,4)])
    (simp_all add: gdemo_env_def in_int_def)

text \<open>
  C22: \<open>global_var_down\<close> takes nothing yet: it makes sure that the semaphore exists, and leaves the
  program \<open>BLOCKED\<close> on its structure and index.
\<close>

theorem down_correct:
  assumes "voids_lib V hinv hmap rinv rlist"
    and "ggood hinv hmap G s" and "heap s key = Some (StrB k)" and "key \<notin> gblocks hmap s"
    and "unat idx + 1 < 2 ^ 64" and "4 * (unat idx + 1) \<le> mem_max s"
    and "gdown G k (unat idx) = Some G'"
  shows "\<exists>s' ka va. global_var_down V key idx s = Ok (s'\<lparr>blocked_idx := idx, pstate := BLOCKED, sem := va\<rparr>) \<and>
    gsteps hinv hmap key s G' s' \<and> hmap (gtab s') k = Some (ka, va)"
  by (rule voids_lib.down_refines [OF assms])

theorem down_witness:
  "\<exists>s' ka va. global_var_down list_voids 5 0 gdemo = Ok (s'\<lparr>blocked_idx := 0, pstate := BLOCKED, sem := va\<rparr>) \<and>
    gsteps l_hinv map_of 5 gdemo (gdemo_env(''T'' \<mapsto> [0])) s' \<and> map_of (gtab s') ''T'' = Some (ka, va)"
  by (rule down_correct [OF lv.voids_lib_axioms gdemo_good gdemo_key(2,5)])
    (simp_all add: gdemo_env_def)

text \<open>
  What is stored is loaded.  A \<open>STORE\<close> to an element and a \<open>LOAD\<close> of the same element, each with its
  own copy of the name, give the stored value back.
\<close>

theorem store_load:
  assumes lib: "voids_lib V hinv hmap rinv rlist" and g: "ggood hinv hmap G s"
    and key: "heap s key = Some (StrB k)" "key \<notin> gblocks hmap s"
    and key2: "heap s key2 = Some (StrB k)" "key2 \<notin> gblocks hmap s" "key2 \<noteq> key"
    and idx: "unat idx + 1 < 2 ^ 64" "4 * (unat idx + 1) \<le> mem_max s" and st: "gstore G k (unat idx) v = Some G'"
  shows "\<exists>s'. bnd (global_var_store V key idx v s) (global_var_load V key2 idx) = Ok (v, s')"
proof -
  obtain s1 where s1: "global_var_store V key idx v s = Ok s1" "gsteps hinv hmap key s G' s1"
    using voids_lib.store_refines [OF lib g key idx st] by blast
  have "key2 < fresh s" using heap_ok_live [of s key2] key2(1) g by (auto simp: ggood_def)
  then have n2: "key2 \<notin> gblocks hmap s1" using s1(2) key2 by (auto simp: gsteps_def)
  have k2: "heap s1 key2 = Some (StrB k)"
    using s1(2) key2 n2 unfolding gsteps_def by metis
  have "gload G' k (unat idx) = Some (v, G')"
    using st by (auto simp del: replicate.simps split: option.splits if_splits)
  then obtain s2 where "global_var_load V key2 idx s1 = Ok (v, s2)"
    using voids_lib.load_refines [OF lib gsteps_good [OF s1(2)] k2 n2 idx(1)] idx(2) gsteps_fields(1) [OF s1(2)] by metis
  then show ?thesis using s1(1) by simp
qed

theorem store_load_witness:
  "\<exists>s'. bnd (global_var_store list_voids 4 1 9 gdemo) (global_var_load list_voids 6 1) = Ok (9, s')"
  by (rule store_load [OF lv.voids_lib_axioms gdemo_good gdemo_key(1,4,3,6)])
    (simp_all add: gdemo_env_def)

subsection \<open>Blocked programs\<close>

text \<open>
  C23: one round of a blocked program.  It looks at the element, and if it is not positive once more
  after the wait, during which the other threads have run (\<open>others\<close>); only when the value it finds
  is positive does it take one unit and go on, otherwise it stays \<open>BLOCKED\<close> and changes nothing.  So no
  round makes a semaphore negative.
\<close>

theorem blocked_correct:
  assumes lib: "voids_lib V hinv hmap rinv rlist"
    and now: "ggood hinv hmap G s" "hmap (gtab s) k = Some (ka, sem s)" "G k = Some xs" "unat (blocked_idx s) < length xs"
    and s1: "s1 = (if 0 < sint (xs ! unat (blocked_idx s)) then s else others s)"
    and later: "ggood hinv hmap G1 s1" "hmap (gtab s1) k = Some (kb, sem s1)" "G1 k = Some ys" "unat (blocked_idx s1) < length ys"
  shows "if 0 < sint (ys ! unat (blocked_idx s1))
    then \<exists>s2. program_state_blocked others s = Ok (if pstate s1 = BLOCKED then s2\<lparr>pstate := INSTRUCTION_LINE\<rparr> else s2) \<and>
      gsteps hinv hmap NULL s1 (G1(k \<mapsto> ys[unat (blocked_idx s1) := ys ! unat (blocked_idx s1) - 1])) s2
    else program_state_blocked others s = Ok s1"
proof -
  have at: "count_at (sem t) (blocked_idx t) t = Ok (zs ! unat (blocked_idx t))"
    if "ggood hinv hmap H t" "hmap (gtab t) k = Some (kc, sem t)" "H k = Some zs" "unat (blocked_idx t) < length zs" for t H zs kc
    by (rule ginv_pair [of "heap t" "hmap (gtab t)" H k kc "sem t"]) (use that in \<open>auto simp: ggood_def intro: count_at_rep\<close>)
  note take = voids_lib.take_unit_refines(2) [OF lib later]
  show ?thesis
  proof (cases "0 < sint (xs ! unat (blocked_idx s))")
    case True
    have "xs ! unat (blocked_idx s) = ys ! unat (blocked_idx s1)"
      using at [OF now] at [OF later] s1 True by simp
    then show ?thesis
      using take at [OF now] s1 True by (auto simp: program_state_blocked_def)
  next
    case False
    then show ?thesis
      using take at [OF now] at [OF later] s1 by (auto simp: program_state_blocked_def Let_def)
  qed
qed

theorem blocked_witness:
  "\<exists>s2. program_state_blocked (\<lambda>s. s) gdemo = Ok (s2\<lparr>pstate := INSTRUCTION_LINE\<rparr>) \<and>
    gsteps l_hinv map_of NULL gdemo (gdemo_env(''S'' \<mapsto> [0, 0])) s2"
  using blocked_correct [OF lv.voids_lib_axioms gdemo_good, of "''S''" 1 "[1, 0]" gdemo "\<lambda>s. s" gdemo_env 1 "[1, 0]"] gdemo_good
  by (simp add: gdemo_env_def)

subsection \<open>Where the code is wrong\<close>

text \<open>
  C31: an index past the end of a global that exists.  All four operations pass the structure, and not
  its cells, to \<open>realloc\<close>, and then use the structure: a use after free.
\<close>

theorem past_end_faults:
  assumes "voids_lib V hinv hmap rinv rlist"
    and "ggood hinv hmap G s" and "heap s key = Some (StrB k)" and "key \<notin> gblocks hmap s"
    and "G k = Some xs" and "length xs \<le> unat idx" and "unat (4 * (idx + 1)) \<le> mem_max s"
  shows "global_var_load V key idx s = Undef UseAfterFree \<and> global_var_store V key idx v s = Undef UseAfterFree \<and>
    global_var_up V key idx s = Undef UseAfterFree \<and> global_var_down V key idx s = Undef UseAfterFree"
  using voids_lib.past_end_fault [OF assms] by blast

theorem past_end_witness:
  "global_var_load list_voids 4 2 gdemo = Undef UseAfterFree \<and> global_var_store list_voids 4 2 7 gdemo = Undef UseAfterFree \<and>
    global_var_up list_voids 4 2 gdemo = Undef UseAfterFree \<and> global_var_down list_voids 4 2 gdemo = Undef UseAfterFree"
  by (rule past_end_faults [OF lv.voids_lib_axioms gdemo_good gdemo_key(1,4), where xs = "[1, 0]"])
    (simp_all add: gdemo_env_def)

text \<open>
  C32: the index -1.  The conversion to \<open>size_t\<close> makes \<open>idx + 1\<close> zero, for which \<open>global_var_init\<close> returns
  \<open>NULL\<close>: storing to, and raising, a new global is a null pointer access, and loading one puts \<open>NULL\<close>
  into the table, so that the next access to the name is one.
\<close>

theorem index_minus_one:
  assumes lib: "voids_lib V hinv hmap rinv rlist" and g: "ggood hinv hmap G s" and k: "G k = None"
    and key: "heap s key = Some (StrB k)" and key2: "heap s key2 = Some (StrB k)" "key2 \<noteq> key"
  shows "global_var_store V key (size_of_int (-1)) v s = Undef NullDeref \<and>
    global_var_up V key (size_of_int (-1)) s = Undef NullDeref \<and>
    (\<exists>s1. global_var_load V key (size_of_int (-1)) s = Ok (0, s1) \<and> global_var_load V key2 idx s1 = Undef NullDeref)"
proof -
  have m: "size_of_int (-1) + 1 = 0" by (simp add: size_of_int_def)
  have init: "global_var_init 0 s = Ok (NULL, s)" by (simp add: global_var_init_def)
  have f: "find_global V key s = Ok None" by (rule voids_lib.find_global_None [OF lib g k key])
  have ok: "hinv (gtab s)" "hmap (gtab s) k = None" "key \<noteq> NULL" "key2 \<noteq> NULL"
    using g k heap_ok_live [of s key] heap_ok_live [of s key2] key key2(1) ginv_None [of "heap s" "hmap (gtab s)" G k]
    by (auto simp: ggood_def)
  obtain h' where h': "insert_global V key NULL s = Ok (s\<lparr>gtab := h'\<rparr>)" "hinv h'" "hmap h' = (hmap (gtab s))(k \<mapsto> (key, NULL))"
    by (rule voids_lib.insert_global_new [OF lib ok(1,2,3) key])
  have "\<exists>p. qh_find V h' k = (Some p, VDS_SUCCESS) \<and> qh_valid V h' p \<and> qh_pair V h' p = (key, NULL)"
    using hashtable.find_Some [of V hinv hmap h' k "(key, NULL)"] lib h'(2,3) by (simp add: voids_lib_def)
  then have "global_var_load V key2 idx (s\<lparr>gtab := h'\<rparr>) = Undef NullDeref"
    using key2(1) ok(4) by (auto simp: global_var_load_def find_global_def mem_simps)
  then show ?thesis
    using f m init h'(1) by (simp add: global_var_store_def global_var_up_def global_var_load_def set_count_def mem_simps)
qed

definition gdemo_none :: "(lhash, lring) st" where
  "gdemo_none = gdemo\<lparr>gtab := []\<rparr>"

lemma gdemo_none_good: "ggood l_hinv map_of Map.empty gdemo_none"
proof -
  have "heap_ok gdemo" using gdemo_good by (simp only: ggood_def)
  then show ?thesis by (simp add: gdemo_none_def ggood_def heap_ok_def ginv_def ginj_def)
qed

theorem index_minus_one_witness:
  "global_var_store list_voids 4 (size_of_int (-1)) 7 gdemo_none = Undef NullDeref \<and>
    global_var_up list_voids 4 (size_of_int (-1)) gdemo_none = Undef NullDeref \<and>
    (\<exists>s1. global_var_load list_voids 4 (size_of_int (-1)) gdemo_none = Ok (0, s1) \<and>
      global_var_load list_voids 6 0 s1 = Undef NullDeref)"
  by (rule index_minus_one [OF lv.voids_lib_axioms gdemo_none_good, where k = "''S''"])
    (use gdemo_key(1,3) in \<open>simp_all add: gdemo_none_def\<close>)

end
