(* ===== verification/Cdll.thy ===== *)
theory Cdll imports Libvoids begin

section \<open>The circular list of libvoids as a parameter\<close>

text \<open>
  A runtime keeps its programs in a \<open>CDLList\<close> of libvoids, a circular doubly linked list.  As with
  \<open>Libvoids\<close>, its operations are a record \<open>L\<close> that the definitions take as an argument, and what the
  runtime relies on is the locale \<open>cdlist\<close>, over an abstraction of a list to its nodes and their data in
  order from the head.  The code reads the fields \<open>nxt\<close>, \<open>prv\<close> and \<open>pData\<close> of a node itself: \<open>None\<close>
  says that the node has been deleted.
\<close>

record 'l cdll =
  cd_nil :: 'l
  cd_append :: "'l \<Rightarrow> addr \<Rightarrow> 'l \<times> vdsErrCode"
  cd_delete :: "'l \<Rightarrow> addr \<Rightarrow> 'l"
  cd_head :: "'l \<Rightarrow> addr"
  cd_nxt :: "'l \<Rightarrow> addr \<Rightarrow> addr option"
  cd_prv :: "'l \<Rightarrow> addr \<Rightarrow> addr option"
  cd_data :: "'l \<Rightarrow> addr \<Rightarrow> addr option"
  cd_items :: "'l \<Rightarrow> addr list"  \<comment> \<open>what \<open>CDLList_destroy\<close> hands to its callback, in order\<close>

type_synonym nodes = "(addr \<times> addr) list"

locale cdlist =
  fixes L :: "'l cdll"
    and linv :: "'l \<Rightarrow> bool"
    and lst :: "'l \<Rightarrow> nodes"
  assumes nil: "linv (cd_nil L) \<and> lst (cd_nil L) = []"
    and nodes: "linv l \<Longrightarrow> distinct (map fst (lst l)) \<and> NULL \<notin> fst ` set (lst l)"
    and append: "linv l \<Longrightarrow> \<exists>l' n. cd_append L l a = (l', VDS_SUCCESS) \<and> linv l' \<and> lst l' = lst l @ [(n, a)]"
    and delete: "linv l \<Longrightarrow> n \<in> fst ` set (lst l) \<Longrightarrow>
      linv (cd_delete L l n) \<and> lst (cd_delete L l n) = filter (\<lambda>x. fst x \<noteq> n) (lst l)"
    and head: "linv l \<Longrightarrow> cd_head L l = (case lst l of [] \<Rightarrow> NULL | x # xs \<Rightarrow> fst x)"
    and nxt: "linv l \<Longrightarrow> i < length (lst l) \<Longrightarrow>
      cd_nxt L l (fst (lst l ! i)) = Some (fst (lst l ! (Suc i mod length (lst l))))"
    and prv: "linv l \<Longrightarrow> i < length (lst l) \<Longrightarrow>
      cd_prv L l (fst (lst l ! (Suc i mod length (lst l)))) = Some (fst (lst l ! i))"
    and data: "linv l \<Longrightarrow> (n, a) \<in> set (lst l) \<Longrightarrow> cd_data L l n = Some a"
    and items: "linv l \<Longrightarrow> cd_items L l = map snd (lst l)"
    and dead: "linv l \<Longrightarrow> n \<notin> fst ` set (lst l) \<Longrightarrow> cd_nxt L l n = None \<and> cd_data L l n = None"
begin

lemma head_NULL: "linv l \<Longrightarrow> cd_head L l = NULL \<longleftrightarrow> lst l = []"
  using head [of l] nodes [of l] by (cases "lst l") force+

lemma data_unique: "linv l \<Longrightarrow> (n, a) \<in> set (lst l) \<Longrightarrow> (n, b) \<in> set (lst l) \<Longrightarrow> a = b"
  using data [of l n a] data [of l n b] by simp

text \<open>The node behind a node of the list is a node of the list, and the first one is the one before it.\<close>

lemma nxt_node:
  assumes "linv l" and "n \<in> fst ` set (lst l)"
  obtains m where "cd_nxt L l n = Some m" "m \<in> fst ` set (lst l)" "cd_prv L l m = Some n"
proof -
  obtain i where i: "i < length (lst l)" "n = fst (lst l ! i)"
    using assms(2) by (auto simp: in_set_conv_nth)
  then have "Suc i mod length (lst l) < length (lst l)" by (intro mod_less_divisor) auto
  then show thesis
    using that [OF nxt [OF assms(1) i(1), folded i(2)]] prv [OF assms(1) i(1)] i(2) by simp
qed

end

subsection \<open>A reference implementation\<close>

text \<open>The next unused node and the list.\<close>

type_synonym llist = "addr \<times> nodes"

definition l_pos :: "nodes \<Rightarrow> addr \<Rightarrow> nat" where
  "l_pos xs n = length (takeWhile (\<lambda>x. fst x \<noteq> n) xs)"

definition l_at :: "nodes \<Rightarrow> addr \<Rightarrow> nat \<Rightarrow> addr option" where
  "l_at xs n d = (if l_pos xs n < length xs then Some (fst (xs ! ((l_pos xs n + d) mod length xs))) else None)"

definition list_cdll :: "llist cdll" where
  "list_cdll = \<lparr>
     cd_nil = (1, []),
     cd_append = (\<lambda>(k, xs) a. ((Suc k, xs @ [(k, a)]), VDS_SUCCESS)),
     cd_delete = (\<lambda>(k, xs) n. (k, filter (\<lambda>x. fst x \<noteq> n) xs)),
     cd_head = (\<lambda>(k, xs). case xs of [] \<Rightarrow> NULL | x # _ \<Rightarrow> fst x),
     cd_nxt = (\<lambda>(k, xs) n. l_at xs n 1),
     cd_prv = (\<lambda>(k, xs) n. l_at xs n (length xs - 1)),
     cd_data = (\<lambda>(k, xs) n. map_of xs n),
     cd_items = (\<lambda>(k, xs). map snd xs) \<rparr>"

definition l_linv :: "llist \<Rightarrow> bool" where
  "l_linv l \<longleftrightarrow> distinct (map fst (snd l)) \<and> (\<forall>x \<in> set (snd l). 0 < fst x \<and> fst x < fst l) \<and> 0 < fst l"

lemma l_pos_nth: "distinct (map fst xs) \<Longrightarrow> i < length xs \<Longrightarrow> l_pos xs (fst (xs ! i)) = i"
  unfolding l_pos_def
proof (induction xs arbitrary: i)
  case (Cons x xs)
  then show ?case using nth_mem [of "i - 1" xs] by (cases i) (fastforce)+
qed simp

lemma l_pos_none: "n \<notin> fst ` set xs \<Longrightarrow> l_pos xs n = length xs"
  unfolding l_pos_def by (induction xs) auto

lemma mod_back: "i < k \<Longrightarrow> (Suc i mod k + k - Suc 0) mod k = (i :: nat)"
  by (cases "Suc i = k") auto

lemma l_bound: "l_linv l \<Longrightarrow> (n, a) \<in> set (snd l) \<Longrightarrow> 0 < n \<and> n < fst l"
  by (fastforce simp: l_linv_def)

interpretation ll: cdlist list_cdll l_linv snd
proof (unfold_locales, goal_cases)
  case (2 l)
  then show ?case by (auto simp: l_linv_def)
next
  case (3 l a)
  then have "fst l \<notin> fst ` set (snd l)" using l_bound [of l "fst l"] by auto
  then have "l_linv (Suc (fst l), snd l @ [(fst l, a)])"
    using 3 by (auto simp: l_linv_def less_Suc_eq)
  moreover have "cd_append list_cdll l a = ((Suc (fst l), snd l @ [(fst l, a)]), VDS_SUCCESS)"
    by (simp add: list_cdll_def case_prod_unfold)
  ultimately show ?case by (intro exI [of _ "(Suc (fst l), snd l @ [(fst l, a)])"] exI [of _ "fst l"]) simp
next
  case (4 l n)
  then have "l_linv (fst l, filter (\<lambda>x. fst x \<noteq> n) (snd l))"
    by (simp add: l_linv_def distinct_map_filter)
  then show ?case by (simp add: list_cdll_def case_prod_unfold)
next
  case (7 l i)
  then have "Suc i mod length (snd l) < length (snd l)" by (intro mod_less_divisor) auto
  with 7 show ?case
    by (auto simp: list_cdll_def l_linv_def l_at_def l_pos_nth mod_back split: prod.splits)
qed (auto simp: list_cdll_def l_linv_def l_at_def l_pos_nth l_pos_none map_of_eq_None_iff split: prod.splits list.splits)

end
