(* ===== verification/World.thy ===== *)
theory World imports Runtime Cdll begin

section \<open>The runtimes (runtime.c)\<close>

text \<open>
  The interpreter process: the programs, what they share, and the runtimes, each a thread with a
  list of programs.  \<open>rt_tick\<close> is one step of a runtime's thread: the code between two places where it
  takes or gives back its lock, or where it uses no shared field.  A visit to a program is one step;
  the lines of other runtimes come before or after it.  Programs have addresses of their own; the
  entry of a program that has been freed is \<open>None\<close>.
\<close>

record ('h, 'r) shared =
  sh_heap :: "addr \<Rightarrow> block option"
  sh_fresh :: addr
  sh_max :: nat
  sh_itable :: 'h
  sh_gtab :: 'h
  sh_out :: "event list"

definition load_prog :: "('h, 'r) program_s \<Rightarrow> ('h, 'r) shared \<Rightarrow> ('h, 'r) st" where
  "load_prog p m = program_s.extend p \<lparr>heap = sh_heap m, fresh = sh_fresh m, mem_max = sh_max m,
     itable = sh_itable m, gtab = sh_gtab m, out = sh_out m\<rparr>"

definition prog_of :: "('h, 'r) st \<Rightarrow> ('h, 'r) program_s" where
  "prog_of s = program_s.truncate s"

definition shared_of :: "('h, 'r) st \<Rightarrow> ('h, 'r) shared" where
  "shared_of s = \<lparr>sh_heap = heap s, sh_fresh = fresh s, sh_max = mem_max s, sh_itable = itable s,
     sh_gtab = gtab s, sh_out = out s\<rparr>"

text \<open>
  Where the thread is in \<open>runtime_thread\<close>.  A thread in \<open>pthread_cond_wait\<close> is \<open>RtAsleep\<close>: its own steps do nothing, and it
  goes back to the test of the loop around the wait when another thread signals the condition.
\<close>

datatype rt_pc =
    RtTop            \<comment> \<open>before \<open>while (rt->running)\<close>\<close>
  | RtWait           \<comment> \<open>before \<open>while (rt->running && !rt->program_list)\<close>\<close>
  | RtAsleep         \<comment> \<open>in \<open>pthread_cond_wait(&rt->list_not_empty, &rt->lock)\<close>\<close>
  | RtLoop           \<comment> \<open>before \<open>while (rt->curr)\<close>\<close>
  | RtDecide addr    \<comment> \<open>after the visit to the program\<close>
  | RtCheck          \<comment> \<open>after the removal of a program\<close>
  | RtDone

record 'l runtime_s =
  program_list :: 'l
  curr :: addr
  running :: bool
  program_cnt :: int
  rt_pc :: rt_pc

text \<open>\<open>pthread_cond_signal(&rt->list_not_empty)\<close>; the runtime's thread is the only one that waits on it.\<close>

definition woken :: "rt_pc \<Rightarrow> rt_pc" where
  "woken pc = (if pc = RtAsleep then RtWait else pc)"

definition cond_signal :: "'l runtime_s \<Rightarrow> 'l runtime_s" where
  "cond_signal rt = rt\<lparr>rt_pc := woken (rt_pc rt)\<rparr>"

text \<open>What the shell and the runtimes print with \<open>shell_msg\<close>.\<close>

datatype shell_ev = Killed c_int | Finished c_int | NoSuchId int | NoProgram nat | RunningNow nat c_int int
  | EmptyInput | KillNeedsId | KillHelp | IdTooLong | RunHelp | IntTooLong | NoFile string | Help | Unrecognized

record ('h, 'r, 'l) world =
  progs :: "addr \<Rightarrow> ('h, 'r) program_s option"
  next_prog :: addr
  id_cnt :: c_int
  shm :: "('h, 'r) shared"
  rts :: "'l runtime_s list"
  console :: "shell_ev list"

definition runtime_init :: "'l cdll \<Rightarrow> 'l runtime_s" where
  "runtime_init L = \<lparr>program_list = cd_nil L, curr = NULL, running = True, program_cnt = 0, rt_pc = RtTop\<rparr>"

definition set_rt :: "nat \<Rightarrow> 'l runtime_s \<Rightarrow> ('h, 'r, 'l) world \<Rightarrow> ('h, 'r, 'l) world" where
  "set_rt i rt w = w\<lparr>rts := (rts w)[i := rt]\<rparr>"

text \<open>A visit: the code from \<open>prog = rt->curr->pData\<close> to the end of the \<open>switch\<close>.\<close>

definition rt_visit :: "('h, 'p, 'r) voids \<Rightarrow> 'l cdll \<Rightarrow> 64 word \<Rightarrow> (nat \<Rightarrow> timespec \<times> timespec) \<Rightarrow> nat \<Rightarrow>
    nat \<Rightarrow> ('h, 'r, 'l) world \<Rightarrow> ('h, 'r, 'l) world res" where
  "rt_visit V L rnd clk fuel i w =
     (let rt = rts w ! i in
      case cd_data L (program_list rt) (curr rt) of None \<Rightarrow> Undef UseAfterFree
      | Some a \<Rightarrow> (case progs w a of None \<Rightarrow> Undef UseAfterFree
        | Some p \<Rightarrow>
            bnd (calc_time_slice rnd) (\<lambda>ts.
            bnd (visit V clk fuel ts (load_prog p (shm w))) (\<lambda>s.
            Ok (set_rt i (rt\<lparr>rt_pc := RtDecide a\<rparr>)
              (w\<lparr>progs := (progs w)(a \<mapsto> prog_of s), shm := shared_of s\<rparr>))))))"

text \<open>
  The end of a pass: a program that is finished or has failed is announced, taken from the list and
  freed, and the thread goes on with the next node.
\<close>

definition rt_decide :: "('h, 'p, 'r) voids \<Rightarrow> 'l cdll \<Rightarrow> nat \<Rightarrow> addr \<Rightarrow> ('h, 'r, 'l) world \<Rightarrow> ('h, 'r, 'l) world res" where
  "rt_decide V L i a w =
     (let rt = rts w ! i in
      case progs w a of None \<Rightarrow> Undef UseAfterFree
      | Some p \<Rightarrow>
          (case cd_nxt L (program_list rt) (curr rt) of None \<Rightarrow> Undef UseAfterFree
           | Some c \<Rightarrow>
               if pstate p = FINISHED \<or> error_flag p then
                 bnd (argv_at 0 (load_prog p (shm w))) (\<lambda>pid.
                 case cd_prv L (program_list rt) c of None \<Rightarrow> Undef UseAfterFree
                 | Some d \<Rightarrow>
                     bnd (program_free V (load_prog p (shm w))) (\<lambda>s.
                     Ok (set_rt i (rt\<lparr>curr := c, program_cnt := program_cnt rt - 1,
                         program_list := cd_delete L (program_list rt) d, rt_pc := RtCheck\<rparr>)
                       (w\<lparr>progs := (progs w)(a := None), shm := shared_of s,
                          console := console w @ [if error_flag p then Killed pid else Finished pid]\<rparr>))))
               else Ok (set_rt i (rt\<lparr>curr := c, rt_pc := RtLoop\<rparr>) w)))"

definition rt_tick :: "('h, 'p, 'r) voids \<Rightarrow> 'l cdll \<Rightarrow> 64 word \<Rightarrow> (nat \<Rightarrow> timespec \<times> timespec) \<Rightarrow> nat \<Rightarrow>
    nat \<Rightarrow> ('h, 'r, 'l) world \<Rightarrow> ('h, 'r, 'l) world res" where
  "rt_tick V L rnd clk fuel i w =
     (let rt = rts w ! i in
      case rt_pc rt of
        RtTop \<Rightarrow> Ok (set_rt i (rt\<lparr>rt_pc := if running rt then RtWait else RtDone\<rparr>) w)
      | RtWait \<Rightarrow>
          if running rt \<and> cd_head L (program_list rt) = NULL then Ok (set_rt i (rt\<lparr>rt_pc := RtAsleep\<rparr>) w)
          else Ok (set_rt i (rt\<lparr>curr := cd_head L (program_list rt), rt_pc := RtLoop\<rparr>) w)
      | RtAsleep \<Rightarrow> Ok w
      | RtLoop \<Rightarrow>
          if curr rt = NULL \<or> \<not> running rt then Ok (set_rt i (rt\<lparr>rt_pc := RtTop\<rparr>) w)
          else rt_visit V L rnd clk fuel i w
      | RtDecide a \<Rightarrow> rt_decide V L i a w
      | RtCheck \<Rightarrow>
          Ok (set_rt i (rt\<lparr>curr := if cd_head L (program_list rt) = NULL then NULL else curr rt,
            rt_pc := RtLoop\<rparr>) w)
      | RtDone \<Rightarrow> Ok w)"

text \<open>
  The thread that adds a program holds the runtime's lock.  When the new program is the only one in the list, the
  runtime's thread may be asleep and is signalled.
\<close>

definition runtime_attach_program :: "'l cdll \<Rightarrow> nat \<Rightarrow> addr \<Rightarrow> ('h, 'r, 'l) world \<Rightarrow> ('h, 'r, 'l) world res" where
  "runtime_attach_program L i prog w =
     (if prog = NULL then Ok w
      else let rt = rts w ! i in
        case cd_append L (program_list rt) prog of (l, err) \<Rightarrow>
          if err \<noteq> VDS_SUCCESS then Exit
          else let rt = rt\<lparr>program_cnt := program_cnt rt + 1, program_list := l\<rparr> in
            (case cd_nxt L l (cd_head L l) of None \<Rightarrow> Undef UseAfterFree
             | Some m \<Rightarrow> Ok (set_rt i (if m = cd_head L l then cond_signal rt else rt) w)))"

text \<open>
  \<open>runtime_stop\<close> clears \<open>running\<close>, signals the thread when its list is empty, joins it, and destroys the list with its programs: it has a
  part before the join and one after it, when the thread is \<open>RtDone\<close>.  It frees the runtime itself: an empty runtime whose thread
  has ended is left in its place, and the caller does not use it again.
\<close>

definition runtime_stop_begin :: "'l cdll \<Rightarrow> nat \<Rightarrow> ('h, 'r, 'l) world \<Rightarrow> ('h, 'r, 'l) world" where
  "runtime_stop_begin L i w =
     (let rt = (rts w ! i)\<lparr>running := False\<rparr> in
      set_rt i (if cd_head L (program_list rt) = NULL then cond_signal rt else rt) w)"

fun free_programs :: "('h, 'p, 'r) voids \<Rightarrow> addr list \<Rightarrow> ('h, 'r, 'l) world \<Rightarrow> ('h, 'r, 'l) world res" where
  "free_programs V [] w = Ok w"
| "free_programs V (a # as) w = (case progs w a of None \<Rightarrow> Undef UseAfterFree
     | Some p \<Rightarrow> bnd (program_free V (load_prog p (shm w))) (\<lambda>s.
         free_programs V as (w\<lparr>progs := (progs w)(a := None), shm := shared_of s\<rparr>)))"

definition runtime_stop_end :: "('h, 'p, 'r) voids \<Rightarrow> 'l cdll \<Rightarrow> nat \<Rightarrow> ('h, 'r, 'l) world \<Rightarrow> ('h, 'r, 'l) world res" where
  "runtime_stop_end V L i w = bnd (free_programs V (cd_items L (program_list (rts w ! i))) w) (\<lambda>w.
     Ok (set_rt i ((runtime_init L)\<lparr>running := False, rt_pc := RtDone\<rparr>) w))"

end
