(* ===== verification/WorldInv.thy ===== *)
theory WorldInv imports World begin

section \<open>The invariant of the runtimes\<close>

text \<open>
  \<open>rt_inv\<close> ties a runtime to the nodes of its list, \<open>winv\<close> all runtimes to the programs: every program
  that is not freed is in exactly one list, every list counts its programs, and \<open>curr\<close> is \<open>NULL\<close> or a
  node of the list wherever the code follows it.  A thread that is asleep has nothing to do: its runtime is
  running and its list is empty, so a wake-up is never lost.
\<close>

definition rt_inv :: "('l \<Rightarrow> bool) \<Rightarrow> ('l \<Rightarrow> nodes) \<Rightarrow> 'l runtime_s \<Rightarrow> bool" where
  "rt_inv linv lst rt \<longleftrightarrow> linv (program_list rt) \<and> program_cnt rt = int (length (lst (program_list rt))) \<and>
     (case rt_pc rt of
        RtLoop \<Rightarrow> curr rt = NULL \<or> curr rt \<in> fst ` set (lst (program_list rt))
      | RtAsleep \<Rightarrow> running rt \<and> lst (program_list rt) = [] \<and> curr rt = NULL
      | RtDecide a \<Rightarrow> (curr rt, a) \<in> set (lst (program_list rt))
      | RtCheck \<Rightarrow> lst (program_list rt) = [] \<or> curr rt \<in> fst ` set (lst (program_list rt))
      | _ \<Rightarrow> curr rt = NULL \<or> curr rt \<in> fst ` set (lst (program_list rt)))"

definition rt_progs :: "('l \<Rightarrow> nodes) \<Rightarrow> 'l runtime_s \<Rightarrow> addr list" where
  "rt_progs lst rt = map snd (lst (program_list rt))"

definition winv :: "('l \<Rightarrow> bool) \<Rightarrow> ('l \<Rightarrow> nodes) \<Rightarrow> ('h, 'r, 'l) world \<Rightarrow> bool" where
  "winv linv lst w \<longleftrightarrow> (\<forall>rt \<in> set (rts w). rt_inv linv lst rt) \<and>
     distinct (concat (map (rt_progs lst) (rts w))) \<and>
     set (concat (map (rt_progs lst) (rts w))) = dom (progs w) \<and>
     (\<forall>a \<in> dom (progs w). a \<noteq> NULL \<and> a < next_prog w)"

lemma set_rt_simps [simp]:
  "rts (set_rt i rt w) = (rts w)[i := rt]" "progs (set_rt i rt w) = progs w" "next_prog (set_rt i rt w) = next_prog w"
  "shm (set_rt i rt w) = shm w" "console (set_rt i rt w) = console w" "id_cnt (set_rt i rt w) = id_cnt w"
  by (simp_all add: set_rt_def)

lemma woken_simps [simp]: "woken RtTop = RtTop" "woken RtWait = RtWait" "woken RtAsleep = RtWait" "woken RtLoop = RtLoop"
  "woken (RtDecide a) = RtDecide a" "woken RtCheck = RtCheck" "woken RtDone = RtDone" "woken pc \<noteq> RtAsleep" "woken (woken pc) = woken pc"
  by (auto simp: woken_def)

lemma cond_signal_simps [simp]:
  "program_list (cond_signal rt) = program_list rt" "curr (cond_signal rt) = curr rt" "running (cond_signal rt) = running rt"
  "program_cnt (cond_signal rt) = program_cnt rt" "rt_pc (cond_signal rt) = woken (rt_pc rt)"
  by (simp_all add: cond_signal_def)

lemma rt_inv_signal: "rt_inv linv lst rt \<Longrightarrow> rt_inv linv lst (cond_signal rt)"
  by (cases "rt_pc rt") (simp_all add: rt_inv_def)

text \<open>What \<open>runtime_stop_begin\<close> does to a runtime.\<close>

lemma stop_begin_rts: "rts (runtime_stop_begin L i w) = (rts w)[i := (rts w ! i)\<lparr>running := False,
    rt_pc := (if cd_head L (program_list (rts w ! i)) = NULL then woken (rt_pc (rts w ! i)) else rt_pc (rts w ! i))\<rparr>]"
  by (simp add: runtime_stop_begin_def Let_def set_rt_def cond_signal_def)

lemma stop_begin_fields [simp]:
  "progs (runtime_stop_begin L i w) = progs w" "next_prog (runtime_stop_begin L i w) = next_prog w"
  "shm (runtime_stop_begin L i w) = shm w" "console (runtime_stop_begin L i w) = console w" "id_cnt (runtime_stop_begin L i w) = id_cnt w"
  by (simp_all add: runtime_stop_begin_def Let_def set_rt_def)

text \<open>A step of one runtime that keeps its programs.\<close>

lemma winv_step:
  assumes inv: "winv linv lst w" and i: "i < length (rts w)" and rt: "rt_inv linv lst rt"
    and same: "rt_progs lst rt = rt_progs lst (rts w ! i)"
    and w': "rts w' = (rts w)[i := rt]" "dom (progs w') = dom (progs w)" "next_prog w' = next_prog w"
  shows "winv linv lst w'"
proof -
  have "map (rt_progs lst) (rts w') = map (rt_progs lst) (rts w)"
    using w'(1) same i by (simp add: map_update list_update_same_conv)
  then show ?thesis
    using inv rt w'(2,3) set_update_subset_insert [of "rts w" i rt] unfolding winv_def w'(1) by auto
qed

text \<open>A step that takes one program out of the list of a runtime.\<close>

lemma winv_remove:
  assumes inv: "winv linv lst w" and i: "i < length (rts w)" and rt: "rt_inv linv lst rt"
    and out: "lst (program_list (rts w ! i)) = xs @ (n, a) # ys" "lst (program_list rt) = xs @ ys"
    and w': "rts w' = (rts w)[i := rt]" "progs w' = (progs w)(a := None)" "next_prog w' = next_prog w"
  shows "winv linv lst w'"
proof -
  define pre post where "pre = concat (map (rt_progs lst) (take i (rts w)))" and "post = concat (map (rt_progs lst) (drop (Suc i) (rts w)))"
  have old: "concat (map (rt_progs lst) (rts w)) = pre @ rt_progs lst (rts w ! i) @ post"
    by (subst id_take_nth_drop [OF i]) (simp add: pre_def post_def)
  have new: "concat (map (rt_progs lst) (rts w')) = pre @ rt_progs lst rt @ post"
    using i by (simp add: w'(1) upd_conv_take_nth_drop pre_def post_def)
  have rp: "rt_progs lst (rts w ! i) = map snd xs @ a # map snd ys" "rt_progs lst rt = map snd xs @ map snd ys"
    using out by (simp_all add: rt_progs_def)
  have d: "distinct (pre @ (map snd xs @ a # map snd ys) @ post)" "set (pre @ (map snd xs @ a # map snd ys) @ post) = dom (progs w)"
    using inv unfolding winv_def old rp by simp_all
  have "distinct (pre @ (map snd xs @ map snd ys) @ post)" using d(1) by auto
  moreover have "set (pre @ (map snd xs @ map snd ys) @ post) = dom (progs w')"
  proof -
    have "a \<notin> set (pre @ (map snd xs @ map snd ys) @ post)" using d(1) by auto
    then have "set (pre @ (map snd xs @ map snd ys) @ post) = set (pre @ (map snd xs @ a # map snd ys) @ post) - {a}"
      by (simp only: set_append list.set) blast
    then show ?thesis unfolding d(2) w'(2) by simp
  qed
  moreover have "\<forall>rt \<in> set (rts w'). rt_inv linv lst rt"
    using inv rt set_update_subset_insert [of "rts w" i rt] unfolding winv_def w'(1) by auto
  ultimately show ?thesis
    using inv unfolding winv_def new rp w'(2,3) by auto
qed

subsection \<open>Every step keeps the invariant\<close>

context cdlist
begin

lemma nxt_self:
  assumes l: "linv l" and n: "n \<in> fst ` set (lst l)" and m: "cd_nxt L l n = Some n"
  shows "length (lst l) = 1"
proof -
  obtain i where i: "i < length (lst l)" "n = fst (lst l ! i)" using n by (auto simp: in_set_conv_nth)
  let ?j = "Suc i mod length (lst l)"
  have j: "?j < length (lst l)" using i(1) by (intro mod_less_divisor) auto
  have "map fst (lst l) ! ?j = map fst (lst l) ! i"
    using nxt [OF l i(1)] m i j by simp
  then have "?j = i" using nodes [OF l] i(1) j by (simp add: nth_eq_iff_index_eq del: nth_map)
  then show ?thesis using i(1) by (cases "Suc i = length (lst l)") auto
qed

text \<open>The test of \<open>runtime_attach_program\<close> for a list with one node.\<close>

lemma nxt_head:
  assumes l: "linv l" and n: "lst l = ms @ [(n, a)]"
  obtains m where "cd_nxt L l (cd_head L l) = Some m" "m = cd_head L l \<longleftrightarrow> ms = []"
proof -
  have ne: "0 < length (lst l)" using n by simp
  then have h: "cd_head L l = fst (lst l ! 0)" using head [OF l] by (cases "lst l") auto
  then have hd: "cd_head L l \<in> fst ` set (lst l)" using ne by simp
  obtain m where m: "cd_nxt L l (cd_head L l) = Some m" by (rule nxt_node [OF l hd])
  have "m = cd_head L l \<longleftrightarrow> ms = []"
  proof
    assume "m = cd_head L l"
    then show "ms = []" using nxt_self [OF l hd] m n by simp
  next
    assume "ms = []"
    then show "m = cd_head L l" using nxt [OF l ne] m h n by simp
  qed
  then show thesis using that m by blast
qed

lemma attach_ok:
  assumes l: "linv (program_list (rts w ! i))" and a: "prog \<noteq> NULL"
  obtains l' n where "cd_append L (program_list (rts w ! i)) prog = (l', VDS_SUCCESS)" "linv l'"
    "lst l' = lst (program_list (rts w ! i)) @ [(n, prog)]"
    "runtime_attach_program L i prog w = Ok (set_rt i ((rts w ! i)\<lparr>program_cnt := program_cnt (rts w ! i) + 1, program_list := l',
      rt_pc := (if lst (program_list (rts w ! i)) = [] then woken (rt_pc (rts w ! i)) else rt_pc (rts w ! i))\<rparr>) w)"
proof -
  obtain l' n where l': "cd_append L (program_list (rts w ! i)) prog = (l', VDS_SUCCESS)" "linv l'"
      "lst l' = lst (program_list (rts w ! i)) @ [(n, prog)]"
    using append [OF l] by blast
  obtain m where m: "cd_nxt L l' (cd_head L l') = Some m" "m = cd_head L l' \<longleftrightarrow> lst (program_list (rts w ! i)) = []"
    by (rule nxt_head [OF l'(2,3)])
  have "runtime_attach_program L i prog w = Ok (set_rt i ((rts w ! i)\<lparr>program_cnt := program_cnt (rts w ! i) + 1, program_list := l',
      rt_pc := (if lst (program_list (rts w ! i)) = [] then woken (rt_pc (rts w ! i)) else rt_pc (rts w ! i))\<rparr>) w)"
    using a l'(1) m by (simp add: runtime_attach_program_def Let_def cond_signal_def)
  then show thesis using that l' by blast
qed

lemma rt_invD:
  assumes "winv linv lst w" and "i < length (rts w)"
  shows "rt_inv linv lst (rts w ! i)" "linv (program_list (rts w ! i))"
  using assms by (simp_all add: winv_def rt_inv_def)

lemma node_prog:
  assumes "winv linv lst w" and "i < length (rts w)" and "(n, a) \<in> set (lst (program_list (rts w ! i)))"
  obtains p where "progs w a = Some p"
proof -
  have "a \<in> set (rt_progs lst (rts w ! i))" using assms(3) by (force simp: rt_progs_def)
  then have "a \<in> set (concat (map (rt_progs lst) (rts w)))" using assms(2) by auto
  then have "a \<in> dom (progs w)" using assms(1) unfolding winv_def by blast
  then show thesis using that by blast
qed

text \<open>What the runtime reads on a visit, and after it.\<close>

lemma visit_reads:
  assumes inv: "winv linv lst w" and i: "i < length (rts w)" and pc: "rt_pc (rts w ! i) = RtLoop"
    and c: "curr (rts w ! i) \<noteq> NULL"
  obtains a p where "cd_data L (program_list (rts w ! i)) (curr (rts w ! i)) = Some a" "progs w a = Some p"
    "(curr (rts w ! i), a) \<in> set (lst (program_list (rts w ! i)))"
proof -
  note rt = rt_invD [OF inv i]
  obtain a where a: "(curr (rts w ! i), a) \<in> set (lst (program_list (rts w ! i)))"
    using rt(1) pc c by (auto simp: rt_inv_def)
  obtain p where "progs w a = Some p" by (rule node_prog [OF inv i a])
  then show thesis using that data [OF rt(2) a] a by blast
qed

lemma decide_reads:
  assumes inv: "winv linv lst w" and i: "i < length (rts w)" and pc: "rt_pc (rts w ! i) = RtDecide a"
  obtains p c where "progs w a = Some p" "cd_nxt L (program_list (rts w ! i)) (curr (rts w ! i)) = Some c"
    "cd_prv L (program_list (rts w ! i)) c = Some (curr (rts w ! i))" "c \<in> fst ` set (lst (program_list (rts w ! i)))"
proof -
  note rt = rt_invD [OF inv i]
  have a: "(curr (rts w ! i), a) \<in> set (lst (program_list (rts w ! i)))"
    using rt(1) pc by (simp add: rt_inv_def)
  then have "curr (rts w ! i) \<in> fst ` set (lst (program_list (rts w ! i)))" by force
  then obtain c where "cd_nxt L (program_list (rts w ! i)) (curr (rts w ! i)) = Some c"
    "c \<in> fst ` set (lst (program_list (rts w ! i)))" "cd_prv L (program_list (rts w ! i)) c = Some (curr (rts w ! i))"
    by (rule nxt_node [OF rt(2)])
  moreover obtain p where "progs w a = Some p" by (rule node_prog [OF inv i a])
  ultimately show thesis using that by blast
qed

lemma remove_inv:
  assumes inv: "winv linv lst w" and i: "i < length (rts w)" and pc: "rt_pc (rts w ! i) = RtDecide a"
    and c: "cd_nxt L (program_list (rts w ! i)) (curr (rts w ! i)) = Some c"
    and rt': "rt' = (rts w ! i)\<lparr>curr := c, program_cnt := program_cnt (rts w ! i) - 1,
      program_list := cd_delete L (program_list (rts w ! i)) (curr (rts w ! i)), rt_pc := RtCheck\<rparr>"
  obtains xs ys where "lst (program_list (rts w ! i)) = xs @ (curr (rts w ! i), a) # ys" "lst (program_list rt') = xs @ ys"
    "rt_inv linv lst rt'"
proof -
  let ?rt = "rts w ! i" and ?l = "program_list (rts w ! i)"
  note rt = rt_invD [OF inv i]
  have a: "(curr ?rt, a) \<in> set (lst ?l)" using rt(1) pc by (simp add: rt_inv_def)
  then obtain xs ys where l: "lst ?l = xs @ (curr ?rt, a) # ys" by (auto simp: in_set_conv_decomp)
  have n: "curr ?rt \<in> fst ` set (lst ?l)" using a by force
  have d: "distinct (map fst (lst ?l))" using nodes [OF rt(2)] by simp
  have "filter (\<lambda>x. fst x \<noteq> curr ?rt) xs = xs" "filter (\<lambda>x. fst x \<noteq> curr ?rt) ys = ys"
    using d unfolding l by (force simp: filter_id_conv)+
  then have del: "linv (program_list rt')" "lst (program_list rt') = xs @ ys"
    using delete [OF rt(2) n] l by (simp_all add: rt')
  have "xs @ ys = [] \<or> c \<in> fst ` set (xs @ ys)"
  proof (cases "c = curr ?rt")
    case True
    then show ?thesis using nxt_self [OF rt(2) n] c l by simp
  next
    case False
    obtain m where "cd_nxt L ?l (curr ?rt) = Some m" "m \<in> fst ` set (lst ?l)" by (rule nxt_node [OF rt(2) n])
    then show ?thesis using c False l by auto
  qed
  then have "rt_inv linv lst rt'"
    using rt(1) del l by (auto simp: rt_inv_def rt')
  then show thesis using that [OF l del(2)] by blast
qed

lemma decide_inv:
  assumes inv: "winv linv lst w" and i: "i < length (rts w)" and pc: "rt_pc (rts w ! i) = RtDecide a"
    and ok: "rt_decide V L i a w = Ok w'"
  shows "winv linv lst w'"
proof -
  let ?rt = "rts w ! i"
  obtain p c where r: "progs w a = Some p" "cd_nxt L (program_list ?rt) (curr ?rt) = Some c"
    "cd_prv L (program_list ?rt) c = Some (curr ?rt)" "c \<in> fst ` set (lst (program_list ?rt))"
    by (rule decide_reads [OF inv i pc])
  show ?thesis
  proof (cases "pstate p = FINISHED \<or> error_flag p")
    case True
    define rt' where "rt' = ?rt\<lparr>curr := c, program_cnt := program_cnt ?rt - 1,
      program_list := cd_delete L (program_list ?rt) (curr ?rt), rt_pc := RtCheck\<rparr>"
    obtain xs ys where x: "lst (program_list ?rt) = xs @ (curr ?rt, a) # ys" "lst (program_list rt') = xs @ ys" "rt_inv linv lst rt'"
      by (rule remove_inv [OF inv i pc r(2) rt'_def])
    have "rts w' = (rts w)[i := rt']" "progs w' = (progs w)(a := None)" "next_prog w' = next_prog w"
      using ok True r(1,2,3) by (auto simp: rt_decide_def bnd_eq_Ok rt'_def Let_def)
    then show ?thesis by (rule winv_remove [OF inv i x(3,1,2)])
  next
    case False
    let ?rt' = "?rt\<lparr>curr := c, rt_pc := RtLoop\<rparr>"
    have "w' = set_rt i ?rt' w" using ok False r by (simp add: rt_decide_def)
    moreover have "rt_inv linv lst ?rt'" using rt_invD(1) [OF inv i] r(4) by (simp add: rt_inv_def)
    ultimately show ?thesis
      using winv_step [OF inv i, of ?rt' "set_rt i ?rt' w"] by (simp add: rt_progs_def)
  qed
qed

lemma tick_inv:
  assumes inv: "winv linv lst w" and i: "i < length (rts w)" and ok: "rt_tick V L rnd clk fuel i w = Ok w'"
  shows "winv linv lst w'"
proof -
  let ?rt = "rts w ! i" and ?l = "program_list (rts w ! i)"
  note rt = rt_invD [OF inv i]
  have step: "winv linv lst (set_rt i rt' w)" if "rt_inv linv lst rt'" "program_list rt' = ?l" for rt'
    using winv_step [OF inv i that(1), of "set_rt i rt' w"] that(2) by (simp add: rt_progs_def)
  have hd: "cd_head L ?l = NULL \<or> cd_head L ?l \<in> fst ` set (lst ?l)"
    using head [OF rt(2)] by (cases "lst ?l") auto
  show ?thesis
  proof (cases "rt_pc ?rt")
    case RtTop
    have "rt_inv linv lst (?rt\<lparr>rt_pc := if running ?rt then RtWait else RtDone\<rparr>)" using rt(1) RtTop by (simp add: rt_inv_def)
    from step [OF this] show ?thesis using ok RtTop by (simp add: rt_tick_def Let_def)
  next
    case RtWait
    have "rt_inv linv lst (?rt\<lparr>curr := cd_head L ?l, rt_pc := RtLoop\<rparr>)" using rt(1) hd by (simp add: rt_inv_def)
    note run = step [OF this]
    show ?thesis
    proof (cases "running ?rt \<and> cd_head L ?l = NULL")
      case True
      have "rt_inv linv lst (?rt\<lparr>rt_pc := RtAsleep\<rparr>)" using rt(1) RtWait True head_NULL [OF rt(2)] by (auto simp: rt_inv_def)
      from step [OF this] show ?thesis using ok RtWait True by (simp add: rt_tick_def Let_def)
    next
      case False
      then show ?thesis using run ok RtWait by (auto simp: rt_tick_def Let_def split: if_splits)
    qed
  next
    case RtAsleep
    then show ?thesis using ok inv by (simp add: rt_tick_def Let_def)
  next
    case RtCheck
    have "rt_inv linv lst (?rt\<lparr>curr := if cd_head L ?l = NULL then NULL else curr ?rt, rt_pc := RtLoop\<rparr>)"
      using rt RtCheck head_NULL [OF rt(2)] by (auto simp: rt_inv_def)
    from step [OF this] show ?thesis using ok RtCheck by (simp add: rt_tick_def Let_def)
  next
    case RtLoop
    show ?thesis
    proof (cases "curr ?rt = NULL \<or> \<not> running ?rt")
      case True
      have "rt_inv linv lst (?rt\<lparr>rt_pc := RtTop\<rparr>)" using rt(1) RtLoop by (simp add: rt_inv_def)
      from step [OF this] show ?thesis using ok RtLoop True by (simp add: rt_tick_def Let_def)
    next
      case False
      then have c: "curr ?rt \<noteq> NULL" by simp
      obtain a p where a: "cd_data L ?l (curr ?rt) = Some a" "progs w a = Some p" "(curr ?rt, a) \<in> set (lst ?l)"
        by (rule visit_reads [OF inv i RtLoop c])
      have w': "rts w' = (rts w)[i := ?rt\<lparr>rt_pc := RtDecide a\<rparr>]" "dom (progs w') = dom (progs w)" "next_prog w' = next_prog w"
        using ok RtLoop False a(1,2) by (auto simp: rt_tick_def rt_visit_def bnd_eq_Ok Let_def split: if_splits)
      have "rt_inv linv lst (?rt\<lparr>rt_pc := RtDecide a\<rparr>)" using rt(1) a(3) by (simp add: rt_inv_def)
      then show ?thesis by (rule winv_step [OF inv i _ _ w']) (simp add: rt_progs_def)
    qed
  next
    case (RtDecide a)
    then show ?thesis using decide_inv [OF inv i RtDecide] ok by (simp add: rt_tick_def Let_def)
  next
    case RtDone
    then show ?thesis using ok inv by (simp add: rt_tick_def Let_def)
  qed
qed

text \<open>\<open>runtime_stop\<close> wakes a thread that is asleep, because its list is empty.\<close>

lemma stop_begin_inv:
  assumes inv: "winv linv lst w" and i: "i < length (rts w)"
  shows "winv linv lst (runtime_stop_begin L i w)" "rt_pc (rts (runtime_stop_begin L i w) ! i) \<noteq> RtAsleep"
    "\<not> running (rts (runtime_stop_begin L i w) ! i)" "length (rts (runtime_stop_begin L i w)) = length (rts w)"
proof -
  let ?rt = "(rts w ! i)\<lparr>running := False,
    rt_pc := (if cd_head L (program_list (rts w ! i)) = NULL then woken (rt_pc (rts w ! i)) else rt_pc (rts w ! i))\<rparr>"
  have r: "rt_inv linv lst ?rt \<and> rt_pc ?rt \<noteq> RtAsleep"
    using rt_invD [OF inv i] head_NULL [of "program_list (rts w ! i)"] by (cases "rt_pc (rts w ! i)") (auto simp: rt_inv_def)
  then have "rt_inv linv lst ?rt" by blast
  then show "winv linv lst (runtime_stop_begin L i w)"
    by (rule winv_step [OF inv i]) (simp_all add: stop_begin_rts rt_progs_def)
  show "rt_pc (rts (runtime_stop_begin L i w) ! i) \<noteq> RtAsleep" using r i by (simp add: stop_begin_rts)
qed (simp_all add: stop_begin_rts i)

text \<open>A fault of a step is a fault of the code that runs a program, never of the runtime's own pointers.\<close>

lemma tick_fault:
  assumes inv: "winv linv lst w" and i: "i < length (rts w)" and bad: "rt_tick V L rnd clk fuel i w = Undef k"
    and rnd: "sint rnd \<noteq> - (2 ^ 63)"
  shows "\<exists>a p. a \<in> snd ` set (lst (program_list (rts w ! i))) \<and> progs w a = Some p \<and>
    (rt_pc (rts w ! i) = RtLoop \<and> (\<exists>ts. calc_time_slice rnd = Ok ts \<and> visit V clk fuel ts (load_prog p (shm w)) = Undef k) \<or>
     rt_pc (rts w ! i) = RtDecide a \<and> (argv_at 0 (load_prog p (shm w)) = Undef k \<or> program_free V (load_prog p (shm w)) = Undef k))"
proof -
  let ?rt = "rts w ! i"
  have bu: "bnd m f = Undef k \<longleftrightarrow> m = Undef k \<or> (\<exists>x. m = Ok x \<and> f x = Undef k)" for m :: "'x res" and f :: "'x \<Rightarrow> 'y res"
    by (cases m) auto
  obtain ts where ts: "calc_time_slice rnd = Ok ts" using rnd by (cases "sint rnd < 0") (simp_all add: calc_time_slice_def)
  show ?thesis
  proof (cases "rt_pc ?rt")
    case RtLoop
    then have c: "curr ?rt \<noteq> NULL" using bad by (auto simp: rt_tick_def Let_def split: if_splits)
    obtain a p where a: "cd_data L (program_list ?rt) (curr ?rt) = Some a" "progs w a = Some p" "(curr ?rt, a) \<in> set (lst (program_list ?rt))"
      by (rule visit_reads [OF inv i RtLoop c])
    then have "visit V clk fuel ts (load_prog p (shm w)) = Undef k"
      using bad RtLoop ts by (auto simp: rt_tick_def rt_visit_def bu Let_def split: if_splits)
    moreover have "a \<in> snd ` set (lst (program_list ?rt))" using a(3) by force
    ultimately show ?thesis using RtLoop ts a(2) by blast
  next
    case (RtDecide a)
    obtain p c where p: "progs w a = Some p" "cd_nxt L (program_list ?rt) (curr ?rt) = Some c"
      "cd_prv L (program_list ?rt) c = Some (curr ?rt)"
      by (rule decide_reads [OF inv i RtDecide])
    have "a \<in> snd ` set (lst (program_list ?rt))" using rt_invD(1) [OF inv i] RtDecide by (force simp: rt_inv_def)
    moreover have "argv_at 0 (load_prog p (shm w)) = Undef k \<or> program_free V (load_prog p (shm w)) = Undef k"
      using p bad RtDecide by (auto simp: rt_tick_def rt_decide_def bu Let_def split: if_splits)
    ultimately show ?thesis using RtDecide p(1) by blast
  qed (use bad in \<open>auto simp: rt_tick_def Let_def split: if_splits\<close>)
qed

end

end
