(* ===== verification/Shell.thy ===== *)
theory Shell imports World begin

section \<open>The shell (main.c)\<close>

text \<open>
  \<open>read_line\<close> over the characters that are left in the standard input, \<open>strtok_r\<close> with the delimiter
  blank, and one round of the loop of \<open>main\<close>, one definition per command.  The files that can be read
  are the argument \<open>fs\<close>, from names to contents.  A message of \<open>shell_msg\<close> is an event on the \<open>console\<close>.
\<close>

subsection \<open>Reading a line\<close>

definition MAX_ALLOC_SIZE :: nat where "MAX_ALLOC_SIZE = 128"

definition isblank :: "int \<Rightarrow> bool" where
  "isblank i \<longleftrightarrow> i = 32 \<or> i = 9"

text \<open>White space before the line: the character it stops at, and a message per newline.\<close>

fun skip_space :: "string \<Rightarrow> shell_ev list \<Rightarrow> int \<times> shell_ev list \<times> string" where
  "skip_space [] ms = (EOF, ms, [])"
| "skip_space (x # inp) ms =
     (if isspace (of_char x)
      then skip_space inp (if x = CHR 0x0A then ms @ [EmptyInput] else ms)
      else (of_char x, ms, inp))"

text \<open>The inner loop, which reads on over blanks.\<close>

fun skip_blanks :: "string \<Rightarrow> int \<times> string" where
  "skip_blanks [] = (EOF, [])"
| "skip_blanks (x # inp) =
     (if x = CHR 0x0A \<or> \<not> isblank (of_char x) then (of_char x, inp) else skip_blanks inp)"

text \<open>The buffer: what is in it, and the size it was allocated with.\<close>

type_synonym buff = "string \<times> nat"

definition grow_buff :: "buff \<Rightarrow> buff" where
  "grow_buff b = (if snd b \<le> length (fst b) then (fst b, snd b + MAX_ALLOC_SIZE) else b)"

definition put_buff :: "int \<Rightarrow> buff \<Rightarrow> buff res" where
  "put_buff c b = (if length (fst b) < snd b then Ok (fst b @ [to_char c], snd b) else Undef OutOfBounds)"

lemma skip_blanks_length: "skip_blanks inp = (c, r) \<Longrightarrow> length r \<le> length inp"
  by (induction inp) (auto split: if_splits)

function read_loop :: "int \<Rightarrow> buff \<Rightarrow> string \<Rightarrow> (buff \<times> int \<times> string) res" where
  "read_loop c b inp = (case (if isblank c then skip_blanks inp else (c, inp)) of (c', inp') \<Rightarrow>
     bnd (if isblank c then bnd (put_buff 32 (grow_buff b)) (\<lambda>b. Ok (grow_buff b)) else Ok (grow_buff b)) (\<lambda>b.
     if isblank c \<and> (c' = EOF \<or> c' = 10) then Ok (b, c', inp')
     else bnd (put_buff c' b) (\<lambda>b. case inp' of
         [] \<Rightarrow> Ok (b, EOF, [])
       | x # r \<Rightarrow> if x = CHR 0x0A then Ok (b, 10, r) else read_loop (of_char x) b r)))"
  by pat_completeness auto
termination
  by (relation "measure (\<lambda>(c, b, inp). length inp)")
    (auto split: if_splits dest: sym [THEN skip_blanks_length])

declare read_loop.simps [simp del]

text \<open>The line, without what follows its first NUL, the messages, and the rest of the input.\<close>

definition read_line :: "string \<Rightarrow> (string option \<times> shell_ev list \<times> string) res" where
  "read_line inp = (case skip_space inp [] of (c, ms, inp) \<Rightarrow>
     if c = EOF then Ok (None, ms, inp)
     else bnd (read_loop c ([], MAX_ALLOC_SIZE) inp) (\<lambda>(b, c, inp).
       if c = EOF then Ok (None, ms, inp)
       else let size = (if snd b \<le> length (fst b) then snd b + 1 else snd b) in
         if length (fst b) < size then Ok (Some (cstr (fst b)), ms, inp) else Undef OutOfBounds))"

subsection \<open>Words\<close>

text \<open>\<open>strtok_r\<close> with the delimiter blank: the word, and what the saved pointer leads to.\<close>

definition strtok_r :: "string \<Rightarrow> string option \<times> string" where
  "strtok_r t = (let u = dropWhile (\<lambda>x. x = CHR 0x20) t in
     if u = [] then (None, []) else (Some (takeWhile (\<lambda>x. x \<noteq> CHR 0x20) u), drop 1 (dropWhile (\<lambda>x. x \<noteq> CHR 0x20) u)))"

lemma strtok_r_length: "strtok_r t = (Some x, r) \<Longrightarrow> length r < length t"
proof -
  assume a: "strtok_r t = (Some x, r)"
  let ?u = "dropWhile (\<lambda>x. x = CHR 0x20) t"
  have u: "?u \<noteq> []" "r = drop 1 (dropWhile (\<lambda>x. x \<noteq> CHR 0x20) ?u)"
    using a by (auto simp: strtok_r_def Let_def split: if_splits)
  have "length r \<le> length ?u - 1"
    using length_dropWhile_le [of "\<lambda>x. x \<noteq> CHR 0x20" ?u] unfolding u(2) length_drop by (rule diff_le_mono)
  moreover have "0 < length ?u" "length ?u \<le> length t"
    using u(1) length_dropWhile_le by (auto simp del: dropWhile_eq_Nil_conv)
  ultimately show ?thesis by linarith
qed

text \<open>A word of digits, and \<open>strtol(word, NULL, 10)\<close> on one.\<close>

definition all_digits :: "string \<Rightarrow> bool" where
  "all_digits x \<longleftrightarrow> list_all (\<lambda>a. isdigit (of_char a)) x"

definition strtol10 :: "string \<Rightarrow> int" where
  "strtol10 x = foldl (\<lambda>v a. v * 10 + (of_char a - 48)) 0 x"

subsection \<open>kill\<close>

text \<open>The loop over the list of one runtime, from \<open>curr\<close> until it is back at the start.\<close>

fun find_prog :: "'l cdll \<Rightarrow> ('h, 'r, 'l) world \<Rightarrow> 'l \<Rightarrow> c_int \<Rightarrow> addr \<Rightarrow> nat \<Rightarrow> addr \<Rightarrow> addr option res" where
  "find_prog L w l i start 0 n = Diverge"
| "find_prog L w l i start (Suc k) n =
     (case cd_data L l n of None \<Rightarrow> Undef UseAfterFree
      | Some a \<Rightarrow> (case progs w a of None \<Rightarrow> Undef UseAfterFree
        | Some p \<Rightarrow> bnd (argv_at 0 (load_prog p (shm w))) (\<lambda>pid.
            if pid = i then Ok (Some a)
            else case cd_nxt L l n of None \<Rightarrow> Undef UseAfterFree
              | Some m \<Rightarrow> if m = cd_head L l then Ok None else find_prog L w l i start k m)))"

text \<open>
  The program \<open>a\<close> is stopped with an error; if it waits on a semaphore, the element it waits on is set to 1.
\<close>

definition stop_prog :: "addr \<Rightarrow> ('h, 'r, 'l) world \<Rightarrow> ('h, 'r, 'l) world res" where
  "stop_prog a w = (case progs w a of None \<Rightarrow> Undef UseAfterFree
     | Some p \<Rightarrow>
         let s = load_prog p (shm w) in
         bnd (if pstate s = BLOCKED then set_count (sem s) (blocked_idx s) 1 s else Ok s) (\<lambda>s.
         let s = program_stop True s in
         Ok (w\<lparr>progs := (progs w)(a \<mapsto> prog_of s), shm := shared_of s\<rparr>)))"

text \<open>The runtimes in turn; after a hit the search goes on for the number -1.\<close>

fun mark_loop :: "'l cdll \<Rightarrow> 'l runtime_s list \<Rightarrow> c_int \<Rightarrow> ('h, 'r, 'l) world \<Rightarrow> (c_int \<times> ('h, 'r, 'l) world) res" where
  "mark_loop L [] i w = Ok (i, w)"
| "mark_loop L (rt # rs) i w =
     (let l = program_list rt in
      bnd (if cd_head L l = NULL then Ok None else find_prog L w l i (cd_head L l) (length (cd_items L l)) (cd_head L l)) (\<lambda>hit.
      case hit of None \<Rightarrow> mark_loop L rs i w
      | Some a \<Rightarrow> bnd (stop_prog a w) (mark_loop L rs (-1))))"

definition mark_program_as_finished :: "'l cdll \<Rightarrow> c_int \<Rightarrow> ('h, 'r, 'l) world \<Rightarrow> ('h, 'r, 'l) world res" where
  "mark_program_as_finished L i w = bnd (mark_loop L (rts w) i w) (\<lambda>(i, w).
     Ok (if i \<noteq> -1 then w\<lparr>console := console w @ [NoSuchId (sint i)]\<rparr> else w))"

definition say :: "shell_ev \<Rightarrow> ('h, 'r, 'l) world \<Rightarrow> ('h, 'r, 'l) world" where
  "say e w = w\<lparr>console := console w @ [e]\<rparr>"

definition kill_command :: "'l cdll \<Rightarrow> string \<Rightarrow> ('h, 'r, 'l) world \<Rightarrow> ('h, 'r, 'l) world res" where
  "kill_command L saved w = (case strtok_r saved of
     (None, _) \<Rightarrow> Ok (say KillNeedsId w)
   | (Some x, _) \<Rightarrow>
       if \<not> all_digits x then Ok (say KillHelp w)
       else if MAX_INT_STR_LEN \<le> length x then Ok (say IdTooLong w)
       else mark_program_as_finished L (word_of_int (strtol10 x)) w)"

subsection \<open>run\<close>

text \<open>
  The arguments: \<open>args\<close> are in \<open>_argv\<close>, which has room for \<open>len\<close>.  \<open>None\<close> is \<open>_argc = -1\<close>.
\<close>

function parse_args :: "string \<Rightarrow> c_int list \<Rightarrow> nat \<Rightarrow> (c_int list option \<times> shell_ev list) res" where
  "parse_args saved args len = (case strtok_r saved of
     (None, _) \<Rightarrow> Ok (Some args, [])
   | (Some x, saved') \<Rightarrow>
       if \<not> all_digits x then Ok (None, [RunHelp])
       else if MAX_INT_STR_LEN \<le> length x then Ok (None, [IntTooLong])
       else if len \<le> length args then Undef OutOfBounds
       else let args' = args @ [word_of_int (strtol10 x)] in
         parse_args saved' args' (if len \<le> length args' then len + len else len))"
  by pat_completeness auto
termination
  by (relation "measure (\<lambda>(saved, args, len). length saved)") (auto dest: sym strtok_r_length)

declare parse_args.simps [simp del]

text \<open>The first of the runtimes with the fewest programs.\<close>

fun min_loop :: "'l runtime_s list \<Rightarrow> nat \<Rightarrow> int \<Rightarrow> nat \<Rightarrow> nat" where
  "min_loop [] i min_prog_cnt rt_min_idx = rt_min_idx"
| "min_loop (rt # rs) i min_prog_cnt rt_min_idx =
     (if program_cnt rt < min_prog_cnt then min_loop rs (Suc i) (program_cnt rt) i
      else min_loop rs (Suc i) min_prog_cnt rt_min_idx)"

definition min_runtime :: "'l runtime_s list \<Rightarrow> nat" where
  "min_runtime rs = min_loop (drop 1 rs) 1 (program_cnt (hd rs)) 0"

text \<open>\<open>program_init\<close> with \<open>generate_program_id\<close>; \<open>junk\<close>, \<open>jc\<close>, \<open>jp\<close> are what \<open>malloc\<close> left.\<close>

definition new_program :: "('h, 'p, 'r) voids \<Rightarrow> string \<Rightarrow> c_int list \<Rightarrow> (nat \<Rightarrow> char) \<Rightarrow> int \<times> int \<times> int \<Rightarrow> addr \<times> size_t \<Rightarrow>
    ('h, 'r, 'l) world \<Rightarrow> (addr \<times> ('h, 'r, 'l) world) res" where
  "new_program V text args junk jc jp w = bnd (c_add (id_cnt w) 1) (\<lambda>i.
     Ok (next_prog w, w\<lparr>progs := (progs w)(next_prog w \<mapsto> program_init V text (id_cnt w) args junk jc jp),
       next_prog := Suc (next_prog w), id_cnt := i\<rparr>))"

definition run_command :: "('h, 'p, 'r) voids \<Rightarrow> 'l cdll \<Rightarrow> (string \<Rightarrow> string option) \<Rightarrow> (nat \<Rightarrow> char) \<Rightarrow> int \<times> int \<times> int \<Rightarrow> addr \<times> size_t \<Rightarrow>
    string \<Rightarrow> ('h, 'r, 'l) world \<Rightarrow> ('h, 'r, 'l) world res" where
  "run_command V L fs junk jc jp saved w = (case strtok_r saved of
     (None, _) \<Rightarrow> Ok (say RunHelp w)
   | (Some fname, saved) \<Rightarrow>
       (case fs fname of None \<Rightarrow> Ok (say (NoFile fname) w)
        | Some text \<Rightarrow>
            bnd (parse_args saved [] 12) (\<lambda>(args, ms).
            let w = w\<lparr>console := console w @ ms\<rparr> in
            case args of None \<Rightarrow> Ok w
            | Some args \<Rightarrow>
                let i = min_runtime (rts w) in
                bnd (new_program V text args junk jc jp w) (\<lambda>(a, w). runtime_attach_program L i a w))))"

subsection \<open>list\<close>

definition list_one :: "'l cdll \<Rightarrow> nat \<Rightarrow> ('h, 'r, 'l) world \<Rightarrow> shell_ev res" where
  "list_one L i w =
     (let rt = rts w ! i in
      if curr rt = NULL then Ok (NoProgram i)
      else case cd_data L (program_list rt) (curr rt) of None \<Rightarrow> Undef UseAfterFree
        | Some a \<Rightarrow> (case progs w a of None \<Rightarrow> Undef UseAfterFree
          | Some p \<Rightarrow> bnd (argv_at 0 (load_prog p (shm w))) (\<lambda>tmp_id.
              Ok (if tmp_id = -1 then NoProgram i else RunningNow i tmp_id (program_cnt rt)))))"

fun list_loop :: "'l cdll \<Rightarrow> nat list \<Rightarrow> ('h, 'r, 'l) world \<Rightarrow> ('h, 'r, 'l) world res" where
  "list_loop L [] w = Ok w"
| "list_loop L (i # is) w = bnd (list_one L i w) (\<lambda>e. list_loop L is (say e w))"

subsection \<open>The loop of main\<close>

text \<open>
  One round: the input line is read and its first word decides.  Without a line the first call of
  \<open>strtok_r\<close> reads a saved pointer that was never set or whose line is freed.  The flag says whether to leave the loop.
\<close>

definition command :: "('h, 'p, 'r) voids \<Rightarrow> 'l cdll \<Rightarrow> (string \<Rightarrow> string option) \<Rightarrow> (nat \<Rightarrow> char) \<Rightarrow> int \<times> int \<times> int \<Rightarrow> addr \<times> size_t \<Rightarrow>
    string option \<Rightarrow> ('h, 'r, 'l) world \<Rightarrow> (bool \<times> ('h, 'r, 'l) world) res" where
  "command V L fs junk jc jp buf w = (case buf of None \<Rightarrow> Undef UninitRead
     | Some t \<Rightarrow> (case strtok_r t of (None, _) \<Rightarrow> Undef NullDeref
       | (Some word, saved) \<Rightarrow>
           if word = ''q'' \<or> word = ''exit'' \<or> word = ''quit'' then Ok (True, w)
           else bnd (if word = ''k'' \<or> word = ''kill'' then kill_command L saved w
                else if word = ''r'' \<or> word = ''run'' then run_command V L fs junk jc jp saved w
                else if word = ''l'' \<or> word = ''list'' then list_loop L [0..<length (rts w)] w
                else if word = ''h'' \<or> word = ''help'' then Ok (say Help w)
                else Ok (say Unrecognized w)) (\<lambda>w. Ok (False, w))))"

definition shell_round :: "('h, 'p, 'r) voids \<Rightarrow> 'l cdll \<Rightarrow> (string \<Rightarrow> string option) \<Rightarrow> (nat \<Rightarrow> char) \<Rightarrow> int \<times> int \<times> int \<Rightarrow> addr \<times> size_t \<Rightarrow>
    string \<Rightarrow> ('h, 'r, 'l) world \<Rightarrow> (bool \<times> string \<times> ('h, 'r, 'l) world) res" where
  "shell_round V L fs junk jc jp inp w = bnd (read_line inp) (\<lambda>(buff, ms, inp).
     bnd (command V L fs junk jc jp buff (w\<lparr>console := console w @ ms\<rparr>)) (\<lambda>(quit, w). Ok (quit, inp, w)))"

text \<open>The start: \<open>exec_init\<close> fills the tables, then \<open>n\<close> runtimes are started.\<close>

definition start_world :: "'l cdll \<Rightarrow> nat \<Rightarrow> ('h, 'r) shared \<Rightarrow> ('h, 'r, 'l) world" where
  "start_world L n m = \<lparr>progs = Map.empty, next_prog = 1, id_cnt = 1, shm = m,
     rts = replicate n (runtime_init L), console = []\<rparr>"

end
