(* ===== verification/ShellInv.thy ===== *)
theory ShellInv imports WorldInv Shell begin

section \<open>The runtimes and the shell together\<close>

text \<open>
  The process as a step relation: a thread of a runtime moves, the shell executes a command, a
  runtime is told to stop, or the wait of a thread ends on its own, as POSIX allows.  A command is executed when no runtime is between the removal of its last
  program and the check behind it (\<open>quiet_world\<close>); what happens otherwise is \<open>attach_race\<close> in \<open>RtProps\<close>.
\<close>

definition quiet_world :: "'l cdll \<Rightarrow> ('h, 'r, 'l) world \<Rightarrow> bool" where
  "quiet_world L w \<longleftrightarrow> (\<forall>rt \<in> set (rts w). rt_pc rt = RtCheck \<longrightarrow> cd_head L (program_list rt) \<noteq> NULL)"

inductive wstep :: "('h, 'p, 'r) voids \<Rightarrow> 'l cdll \<Rightarrow> ('h, 'r, 'l) world \<Rightarrow> ('h, 'r, 'l) world \<Rightarrow> bool"
  for V L where
  thread: "i < length (rts w) \<Longrightarrow> rt_tick V L rnd clk fuel i w = Ok w' \<Longrightarrow> wstep V L w w'"
| shell: "quiet_world L w \<Longrightarrow> command V L fs junk jc jp (Some t) w = Ok (q, w') \<Longrightarrow> wstep V L w w'"
| stop: "i < length (rts w) \<Longrightarrow> wstep V L w (runtime_stop_begin L i w)"
| spurious: "i < length (rts w) \<Longrightarrow> wstep V L w (set_rt i (cond_signal (rts w ! i)) w)"

inductive reachable :: "('h, 'p, 'r) voids \<Rightarrow> 'l cdll \<Rightarrow> nat \<Rightarrow> ('h, 'r) shared \<Rightarrow> ('h, 'r, 'l) world \<Rightarrow> bool"
  for V L n m where
  start: "reachable V L n m (start_world L n m)"
| step: "reachable V L n m w \<Longrightarrow> wstep V L w w' \<Longrightarrow> reachable V L n m w'"

subsection \<open>What commands do to the lists\<close>

text \<open>Commands other than \<open>run\<close> leave the lists and the set of programs alone.\<close>

definition same_lists :: "('h, 'r, 'l) world \<Rightarrow> ('h, 'r, 'l) world \<Rightarrow> bool" where
  "same_lists w w' \<longleftrightarrow> rts w' = rts w \<and> dom (progs w') = dom (progs w) \<and> next_prog w' = next_prog w"

lemma same_lists_refl: "same_lists w w" "same_lists w (w\<lparr>console := e\<rparr>)" "same_lists w (say x w)"
  by (simp_all add: same_lists_def say_def)

lemma same_lists_trans: "same_lists w w1 \<Longrightarrow> same_lists w1 w2 \<Longrightarrow> same_lists w w2"
  by (simp add: same_lists_def)

lemma winv_same: "winv linv lst w \<Longrightarrow> same_lists w w' \<Longrightarrow> winv linv lst w'"
  by (simp add: winv_def same_lists_def)

lemma stop_prog_frame: "stop_prog a w = Ok w' \<Longrightarrow> same_lists w w'"
proof (cases "progs w a")
  case (Some p)
  assume ok: "stop_prog a w = Ok w'"
  obtain q m where "w' = w\<lparr>progs := (progs w)(a \<mapsto> q), shm := m\<rparr>"
    using ok Some by (auto simp: stop_prog_def Let_def bnd_eq_Ok)
  then show ?thesis using Some by (auto simp: same_lists_def)
qed (simp add: stop_prog_def)

lemma mark_loop_frame: "mark_loop L rs i w = Ok (j, w') \<Longrightarrow> same_lists w w'"
proof (induction L rs i w rule: mark_loop.induct)
  case (1 L i w)
  then show ?case by (simp add: same_lists_refl)
next
  case (2 L rt rs i w)
  let ?l = "program_list rt"
  obtain hit where hit: "(if cd_head L ?l = NULL then Ok None
      else find_prog L w ?l i (cd_head L ?l) (length (cd_items L ?l)) (cd_head L ?l)) = Ok hit"
    using 2(3) by (auto simp: Let_def bnd_eq_Ok)
  show ?case
  proof (cases hit)
    case None
    then show ?thesis using 2(1) [OF refl hit None] 2(3) hit by (simp add: Let_def)
  next
    case (Some a)
    then obtain w1 where w1: "stop_prog a w = Ok w1" "mark_loop L rs (-1) w1 = Ok (j, w')"
      using 2(3) hit by (auto simp: Let_def bnd_eq_Ok)
    show ?thesis
      using same_lists_trans [OF stop_prog_frame [OF w1(1)] 2(2) [OF refl hit Some w1]] .
  qed
qed

lemma mark_frame: "mark_program_as_finished L i w = Ok w' \<Longrightarrow> same_lists w w'"
proof -
  assume "mark_program_as_finished L i w = Ok w'"
  then obtain j w1 where "mark_loop L (rts w) i w = Ok (j, w1)" "w' = w1 \<or> w' = w1\<lparr>console := console w1 @ [NoSuchId (sint j)]\<rparr>"
    by (auto simp: mark_program_as_finished_def bnd_eq_Ok split: if_splits)
  then show ?thesis using mark_loop_frame same_lists_trans same_lists_refl by metis
qed

lemma kill_frame: "kill_command L saved w = Ok w' \<Longrightarrow> same_lists w w'"
  by (cases "strtok_r saved") (auto simp: kill_command_def same_lists_refl mark_frame split: option.splits if_splits)

lemma list_frame: "list_loop L is w = Ok w' \<Longrightarrow> same_lists w w'"
proof (induction L "is" w rule: list_loop.induct)
  case (2 L i "is" w)
  then obtain e where "list_one L i w = Ok e" "list_loop L is (say e w) = Ok w'" by (auto simp: bnd_eq_Ok)
  then show ?case using 2(1) same_lists_trans [OF same_lists_refl(3)] by blast
qed (simp add: same_lists_refl)

lemma min_loop_bound: "k < i \<Longrightarrow> min_loop rs i c k < i + length rs"
proof (induction rs arbitrary: i c k)
  case (Cons rt rs)
  from Cons.IH [of i "Suc i" "program_cnt rt"] Cons.IH [of k "Suc i" c] Cons.prems show ?case by simp
qed simp

lemma min_runtime_bound: "rs \<noteq> [] \<Longrightarrow> min_runtime rs < length rs"
  using min_loop_bound [of 0 1 "drop 1 rs"] by (cases rs) (auto simp: min_runtime_def)

context cdlist
begin

text \<open>A new program goes into one list.\<close>

lemma winv_attach:
  assumes inv: "winv linv lst w" and i: "i < length (rts w)" and rt: "rt_inv linv lst rt"
    and new: "lst (program_list rt) = lst (program_list (rts w ! i)) @ [(n, next_prog w)]" and nz: "next_prog w \<noteq> NULL"
    and w': "rts w' = (rts w)[i := rt]" "progs w' = (progs w)(next_prog w \<mapsto> p)" "next_prog w' = Suc (next_prog w)"
  shows "winv linv lst w'"
proof -
  define pre post where "pre = concat (map (rt_progs lst) (take i (rts w)))" and "post = concat (map (rt_progs lst) (drop (Suc i) (rts w)))"
  have old: "concat (map (rt_progs lst) (rts w)) = pre @ rt_progs lst (rts w ! i) @ post"
    by (subst id_take_nth_drop [OF i]) (simp add: pre_def post_def)
  have now: "concat (map (rt_progs lst) (rts w')) = pre @ (rt_progs lst (rts w ! i) @ [next_prog w]) @ post"
    using i new by (simp add: w'(1) upd_conv_take_nth_drop pre_def post_def rt_progs_def)
  have d: "distinct (pre @ rt_progs lst (rts w ! i) @ post)" "set (pre @ rt_progs lst (rts w ! i) @ post) = dom (progs w)"
    using inv unfolding winv_def old by simp_all
  have fresh: "next_prog w \<notin> set (pre @ rt_progs lst (rts w ! i) @ post)"
    using inv unfolding winv_def d(2) by blast
  have "distinct (pre @ (rt_progs lst (rts w ! i) @ [next_prog w]) @ post)" using d(1) fresh by auto
  moreover have "set (pre @ (rt_progs lst (rts w ! i) @ [next_prog w]) @ post) = dom (progs w')"
    using d(2) unfolding w'(2) by auto
  moreover have "\<forall>rt \<in> set (rts w'). rt_inv linv lst rt"
    using inv rt set_update_subset_insert [of "rts w" i rt] unfolding winv_def w'(1) by auto
  moreover have "\<forall>a \<in> dom (progs w'). a \<noteq> NULL \<and> a < next_prog w'"
    using inv nz unfolding winv_def w'(2,3) by (auto intro: less_SucI)
  ultimately show ?thesis unfolding winv_def now by blast
qed

lemma attach_inv:
  assumes inv: "winv linv lst w" and i: "i < length (rts w)" and q: "quiet_world L w"
    and new: "new_program V text args junk jc jp w = Ok (a, w1)" and at: "runtime_attach_program L i a w1 = Ok w'" and nz: "0 < next_prog w"
  shows "winv linv lst w'"
proof -
  let ?rt = "rts w ! i"
  have l: "linv (program_list ?rt)" "rt_inv linv lst ?rt" using rt_invD [OF inv i] by simp_all
  have w1: "a = next_prog w" "rts w1 = rts w" "next_prog w1 = Suc (next_prog w)"
      "progs w1 = (progs w)(next_prog w \<mapsto> program_init V text (id_cnt w) args junk jc jp)"
    using new by (auto simp: new_program_def bnd_eq_Ok)
  have l1: "linv (program_list (rts w1 ! i))" "next_prog w \<noteq> NULL" using l(1) w1(2) nz by simp_all
  obtain l' n where app: "linv l'" "lst l' = lst (program_list ?rt) @ [(n, next_prog w)]"
      "runtime_attach_program L i (next_prog w) w1 = Ok (set_rt i (?rt\<lparr>program_cnt := program_cnt ?rt + 1, program_list := l',
        rt_pc := (if lst (program_list ?rt) = [] then woken (rt_pc ?rt) else rt_pc ?rt)\<rparr>) w1)"
    by (rule attach_ok [OF l1]) (simp add: w1(2))
  let ?rt' = "?rt\<lparr>program_cnt := program_cnt ?rt + 1, program_list := l',
      rt_pc := (if lst (program_list ?rt) = [] then woken (rt_pc ?rt) else rt_pc ?rt)\<rparr>"
  have "lst (program_list ?rt) \<noteq> []" if "rt_pc ?rt = RtCheck"
    using q i that head_NULL [OF l(1)] by (auto simp: quiet_world_def)
  then have "rt_inv linv lst ?rt'"
    using l(2) app(1,2) by (auto simp: rt_inv_def split: rt_pc.splits)
  moreover have "rts w' = (rts w)[i := ?rt']" "progs w' = progs w1" "next_prog w' = next_prog w1"
    using at w1 app(3) by auto
  ultimately show ?thesis
    using winv_attach [OF inv i, of ?rt' n w'] app(2) nz w1 by simp
qed

lemma run_inv:
  assumes inv: "winv linv lst w" and q: "quiet_world L w" and n: "rts w \<noteq> []" "0 < next_prog w"
    and ok: "run_command V L fs junk jc jp saved w = Ok w'"
  shows "winv linv lst w' \<and> length (rts w') = length (rts w) \<and> 0 < next_prog w'"
proof -
  have id: ?thesis if "same_lists w w'"
    using winv_same [OF inv that] n that by (simp add: same_lists_def)
  obtain r saved' where st: "strtok_r saved = (r, saved')" by (cases "strtok_r saved")
  show ?thesis
  proof (cases "r = None \<or> fs (the r) = None")
    case True
    then have "same_lists w w'" using ok st by (auto simp: run_command_def same_lists_refl split: option.splits)
    then show ?thesis by (rule id)
  next
    case False
    then obtain f contents where f: "r = Some f" "fs f = Some contents" by auto
    obtain args ms where a: "parse_args saved' [] 12 = Ok (args, ms)"
      using ok st f by (auto simp: run_command_def bnd_eq_Ok)
    let ?w = "w\<lparr>console := console w @ ms\<rparr>"
    show ?thesis
    proof (cases args)
      case None
      then have "w' = ?w" using ok st f a by (simp add: run_command_def)
      then show ?thesis using id same_lists_refl by blast
    next
      case (Some as)
      obtain p w1 where w1: "new_program V contents as junk jc jp ?w = Ok (p, w1)"
          "runtime_attach_program L (min_runtime (rts w)) p w1 = Ok w'"
        using ok st f a Some by (auto simp: run_command_def bnd_eq_Ok Let_def)
      have i: "winv linv lst ?w" "quiet_world L ?w" "min_runtime (rts w) < length (rts ?w)" "0 < next_prog ?w"
        using winv_same [OF inv same_lists_refl(2)] q min_runtime_bound [OF n(1)] n(2) by (simp_all add: quiet_world_def)
      have "next_prog w' = Suc (next_prog w)" "length (rts w') = length (rts w)"
        using w1 n by (auto simp: new_program_def runtime_attach_program_def bnd_eq_Ok Let_def split: prod.splits if_splits option.splits)
      then show ?thesis using attach_inv [OF i(1,3,2) w1 i(4)] by simp
    qed
  qed
qed

lemma command_inv:
  assumes inv: "winv linv lst w" and q: "quiet_world L w" and n: "rts w \<noteq> []" "0 < next_prog w"
    and ok: "command V L fs junk jc jp (Some t) w = Ok (quit, w')"
  shows "winv linv lst w' \<and> length (rts w') = length (rts w) \<and> 0 < next_prog w'"
proof -
  obtain word saved where st: "strtok_r t = (Some word, saved)"
    using ok by (cases "strtok_r t") (auto simp: command_def split: option.splits)
  have "w' = w \<or> kill_command L saved w = Ok w' \<or> run_command V L fs junk jc jp saved w = Ok w' \<or>
      list_loop L [0..<length (rts w)] w = Ok w' \<or> w' = say Help w \<or> w' = say Unrecognized w"
    using ok unfolding command_def option.case st prod.case by (simp only: bnd_eq_Ok split: if_split_asm) auto
  then have "same_lists w w' \<or> run_command V L fs junk jc jp saved w = Ok w'"
    using kill_frame [of L saved w w'] list_frame [of L "[0..<length (rts w)]" w w'] same_lists_refl by metis
  then show ?thesis
  proof
    assume same: "same_lists w w'"
    show ?thesis using winv_same [OF inv same] same n by (simp add: same_lists_def)
  qed (rule run_inv [OF inv q n])
qed

lemma wstep_inv:
  assumes "wstep V L w w'" and "winv linv lst w" and "rts w \<noteq> []" and "0 < next_prog w"
  shows "winv linv lst w' \<and> length (rts w') = length (rts w) \<and> 0 < next_prog w'"
  using assms
proof (cases rule: wstep.cases)
  case (thread i rnd clk fuel)
  have "length (rts w') = length (rts w) \<and> next_prog w' = next_prog w"
    using thread(2) by (auto simp: rt_tick_def rt_visit_def rt_decide_def Let_def bnd_eq_Ok
      split: rt_pc.splits option.splits if_splits)
  then show ?thesis using tick_inv [OF assms(2) thread] assms(4) by simp
next
  case (shell fs junk jc jp t q)
  show ?thesis by (rule command_inv [OF assms(2) shell(1) assms(3,4) shell(2)])
next
  case (stop i)
  then show ?thesis using stop_begin_inv [OF assms(2) stop(2)] assms(4) by simp
next
  case (spurious i)
  show ?thesis
    using winv_step [OF assms(2) spurious(2) rt_inv_signal [OF rt_invD(1) [OF assms(2) spurious(2)]], of w'] spurious(1) assms(4)
    by (simp add: rt_progs_def)
qed

lemma start_inv: "winv linv lst (start_world L n m)"
proof -
  have "rt_inv linv lst (runtime_init L)" using nil by (simp add: rt_inv_def runtime_init_def)
  moreover have "rt_progs lst (runtime_init L) = []" using nil by (simp add: rt_progs_def runtime_init_def)
  ultimately show ?thesis by (auto simp: winv_def start_world_def)
qed

lemma reachable_inv:
  assumes "reachable V L n m w" and "0 < n"
  shows "winv linv lst w \<and> length (rts w) = n \<and> 0 < next_prog w"
  using assms(1)
proof induction
  case start
  show ?case using start_inv by (simp add: start_world_def)
next
  case (step w w')
  then show ?case using wstep_inv [OF step(2)] assms(2) by auto
qed

end

end
