(* ===== verification/RtProps.thy ===== *)
theory RtProps imports ShellInv LineProps begin

section \<open>Properties of the runtimes (runtime.c)\<close>

text \<open>
  The time slice, sleeping, the invariant of the lists in every reachable state, the round robin order,
  and the race between the removal of the last program and the addition of a new one.
\<close>

subsection \<open>The time slice\<close>

lemma slice_is_run:
  assumes "\<And>i. case line_cost (clk i) of None \<Rightarrow> True | Some d \<Rightarrow> 0 < d" and "nat ts < n"
  shows "\<exists>k. k \<le> nat ts \<and> slice_loop V clk n i ts s = run_slice V k s"
  using assms(2)
proof (induction n arbitrary: i ts s)
  case (Suc n)
  show ?case
  proof (cases "line_cost (clk i)")
    case None
    have "slice_loop V clk (Suc n) i ts s = run_slice V 0 s"
      by (simp add: None) (cases "interpret_next_line V s"; simp)
    then show ?thesis by blast
  next
    case (Some d)
    then have d: "0 < d" using assms(1) [of i] by simp
    show ?thesis
    proof (cases "0 < ts - d")
      case False
      have "slice_loop V clk (Suc n) i ts s = run_slice V 0 s"
        using False by (simp add: Some) (cases "interpret_next_line V s"; simp)
      then show ?thesis by blast
    next
      case True
      have lt: "nat (ts - d) < nat ts" "nat (ts - d) < n" using True d Suc.prems by auto
      show ?thesis
      proof (cases "interpret_next_line V s")
        case (Ok s1)
        obtain k where k: "k \<le> nat (ts - d)" "slice_loop V clk n (Suc i) (ts - d) s1 = run_slice V k s1"
          using Suc.IH [OF lt(2)] by blast
        have "slice_loop V clk (Suc n) i ts s = run_slice V (Suc k) s"
          using Ok True k(2) by (simp add: Some)
        then show ?thesis using k(1) lt(1) by (intro exI [of _ "Suc k"] conjI) linarith+
      qed (auto intro: exI [of _ 0])
    qed
  qed
qed simp

text \<open>
  C24: the loop over lines ends.  When every line costs at least a nanosecond of the clock, a fuel of more
  than the slice's nanoseconds is enough, whatever the program does, and the loop is a run of at
  least one line and of at most as many more as the slice has nanoseconds.
\<close>

theorem slice_correct:
  assumes "\<And>i. case line_cost (clk i) of None \<Rightarrow> True | Some d \<Rightarrow> 0 < d" and "nat ts < n"
  shows "\<exists>k. k \<le> nat ts \<and> slice_loop V clk n i ts s = run_slice V k s"
  by (rule slice_is_run [OF assms])

theorem slice_witness:
  "\<exists>k. k \<le> nat 2 \<and> slice_loop list_voids (\<lambda>_. (\<lparr>tv_sec = 0, tv_nsec = 3\<rparr>, \<lparr>tv_sec = 0, tv_nsec = 4\<rparr>)) 3 0 2 (demo_line ''RETURN'') =
    run_slice list_voids k (demo_line ''RETURN'')"
  by (rule slice_correct) (simp_all add: line_cost_def)

text \<open>
  The length of a slice.  Every random number but the least \<open>long\<close>, whose negation overflows, gives a
  slice from 0 up to, and without, ten million nanoseconds.
\<close>

lemma time_slice_bounds:
  "if sint r = - (2 ^ 63) then calc_time_slice r = Undef SignedOverflow
   else \<exists>ts. calc_time_slice r = Ok ts \<and> 0 \<le> ts \<and> ts < 10000000"
  by (simp add: calc_time_slice_def TIME_SLICE_MAX_NSEC_def)

definition sleep_left :: "('h, 'r) st \<Rightarrow> int" where
  "sleep_left s = sleep_sec s * 1000000000 + sleep_nsec s"

text \<open>
  C29: a visit to a sleeping program takes exactly the slice off the time it has left, borrowing from the
  seconds, and keeps the nanoseconds below a second; the program wakes up at the first visit whose slice
  is longer than what is left.
\<close>

theorem sleep_correct:
  assumes "pstate s = SLEEPING" and "0 \<le> sleep_sec s" and "0 \<le> sleep_nsec s" and "sleep_nsec s < 1000000000"
    and "0 \<le> ts" and "ts < TIME_SLICE_MAX_NSEC"
  shows "if sleep_left s < ts then visit V clk fuel ts s = Ok (s\<lparr>pstate := INSTRUCTION_LINE\<rparr>)
    else \<exists>s'. visit V clk fuel ts s = Ok s' \<and> pstate s' = SLEEPING \<and> sleep_left s' = sleep_left s - ts \<and>
      0 \<le> sleep_sec s' \<and> 0 \<le> sleep_nsec s' \<and> sleep_nsec s' < 1000000000"
  using assms by (auto simp: visit_def visit_sleeping_def sleep_left_def TIME_SLICE_MAX_NSEC_def Let_def)

definition demo_sleeper :: "(lhash, lring) st" where
  "demo_sleeper = demo_st\<lparr>pstate := SLEEPING, sleep_sec := 2, sleep_nsec := 5\<rparr>"

theorem sleep_witness:
  "\<exists>s'. visit list_voids (\<lambda>_. undefined) 0 7 demo_sleeper = Ok s' \<and> pstate s' = SLEEPING \<and> sleep_left s' = 1999999998 \<and>
    0 \<le> sleep_sec s' \<and> 0 \<le> sleep_nsec s' \<and> sleep_nsec s' < 1000000000"
  using sleep_correct [of demo_sleeper 7 list_voids "\<lambda>_. undefined" 0]
  by (simp add: demo_sleeper_def sleep_left_def TIME_SLICE_MAX_NSEC_def)

subsection \<open>The lists of programs\<close>

text \<open>
  C12: the invariant of the runtimes holds in every reachable state (the shell's commands come when no runtime stands
  in the window of \<open>attach_race\<close>): each program that is not freed is in the
  list of exactly one runtime, each runtime's counter is the length of its list, and \<open>curr\<close> is \<open>NULL\<close> or a
  node of the list wherever the thread follows it.
\<close>

theorem reachable_winv:
  assumes "cdlist L linv lst" and "reachable V L n m w" and "0 < n"
  shows "winv linv lst w"
  using cdlist.reachable_inv [OF assms] by blast

text \<open>Two runtimes, one command: the file \<open>a\<close> is run.\<close>

definition demo_shared :: "(lhash, lring) shared" where
  "demo_shared = shared_of (demo_line [])"

definition demo_start :: "(lhash, lring, llist) world" where
  "demo_start = start_world list_cdll 2 demo_shared"

definition demo_rt :: "llist runtime_s" where
  "demo_rt = \<lparr>program_list = (2, [(1, 1)]), curr = NULL, running = True, program_cnt = 1, rt_pc = RtTop\<rparr>"

definition demo_world :: "(lhash, lring, llist) world" where
  "demo_world = demo_start\<lparr>progs := [1 \<mapsto> program_init list_voids ''#PROGRAM'' 1 [7] (\<lambda>_. NUL) (0, 0, 0) (0, 0)], next_prog := 2,
     id_cnt := 2, rts := [demo_rt, runtime_init list_cdll]\<rparr>"

lemma demo_command: "command list_voids list_cdll [''a'' \<mapsto> ''#PROGRAM''] (\<lambda>_. NUL) (0, 0, 0) (0, 0) (Some ''run a 7'') demo_start = Ok (False, demo_world)"
proof -
  have a: "parse_args ''7'' [] 12 = Ok (Some [7], [])"
    by (simp add: parse_args.simps strtok_r_def all_digits_def isdigit_def limit_defs strtol10_def)
  show ?thesis
    by (simp add: command_def strtok_r_def run_command_def a demo_start_def start_world_def min_runtime_def numeral_2_eq_2
      runtime_init_def new_program_def c_add_def in_int_def runtime_attach_program_def list_cdll_def l_at_def l_pos_def cond_signal_def demo_world_def demo_rt_def set_rt_def)
qed

lemma demo_reachable: "reachable list_voids list_cdll 2 demo_shared demo_world"
proof (rule reachable.step [OF reachable.start wstep.shell])
  show "command list_voids list_cdll [''a'' \<mapsto> ''#PROGRAM''] (\<lambda>_. NUL) (0, 0, 0) (0, 0) (Some ''run a 7'')
      (start_world list_cdll 2 demo_shared) = Ok (False, demo_world)"
    using demo_command by (simp add: demo_start_def)
  show "quiet_world list_cdll (start_world list_cdll 2 demo_shared)"
    by (simp add: quiet_world_def start_world_def runtime_init_def)
qed

theorem reachable_witness: "winv l_linv snd demo_world"
  by (rule reachable_winv [OF ll.cdlist_axioms demo_reachable]) simp

subsection \<open>Round robin\<close>

text \<open>One pass over a program: the visit and the decision after it.  \<open>passes\<close> also lists the programs visited.\<close>

definition pass :: "('h, 'p, 'r) voids \<Rightarrow> 'l cdll \<Rightarrow> 64 word \<Rightarrow> (nat \<Rightarrow> timespec \<times> timespec) \<Rightarrow> nat \<Rightarrow> nat \<Rightarrow>
    ('h, 'r, 'l) world \<Rightarrow> ('h, 'r, 'l) world res" where
  "pass V L rnd clk fuel i w = bnd (rt_tick V L rnd clk fuel i w) (rt_tick V L rnd clk fuel i)"

fun passes :: "('h, 'p, 'r) voids \<Rightarrow> 'l cdll \<Rightarrow> (64 word \<times> (nat \<Rightarrow> timespec \<times> timespec) \<times> nat) list \<Rightarrow> nat \<Rightarrow>
    ('h, 'r, 'l) world \<Rightarrow> (addr option list \<times> ('h, 'r, 'l) world) res" where
  "passes V L [] i w = Ok ([], w)"
| "passes V L ((rnd, clk, fuel) # env) i w = bnd (pass V L rnd clk fuel i w) (\<lambda>w1.
     bnd (passes V L env i w1) (\<lambda>(as, w2). Ok (cd_data L (program_list (rts w ! i)) (curr (rts w ! i)) # as, w2)))"

lemma tick_cnt: "i < length (rts w) \<Longrightarrow> rt_tick V L rnd clk fuel i w = Ok w' \<Longrightarrow>
    length (rts w') = length (rts w) \<and> program_cnt (rts w' ! i) \<le> program_cnt (rts w ! i)"
  by (auto simp: rt_tick_def rt_visit_def rt_decide_def Let_def bnd_eq_Ok
    split: rt_pc.splits option.splits if_splits)

lemma pass_cnt: "i < length (rts w) \<Longrightarrow> pass V L rnd clk fuel i w = Ok w' \<Longrightarrow>
    length (rts w') = length (rts w) \<and> program_cnt (rts w' ! i) \<le> program_cnt (rts w ! i)"
proof -
  assume i: "i < length (rts w)" and "pass V L rnd clk fuel i w = Ok w'"
  then obtain w1 where w1: "rt_tick V L rnd clk fuel i w = Ok w1" "rt_tick V L rnd clk fuel i w1 = Ok w'"
    by (auto simp: pass_def bnd_eq_Ok)
  note a = tick_cnt [OF i w1(1)]
  show ?thesis using tick_cnt [OF _ w1(2)] a i by simp
qed

lemma passes_cnt: "i < length (rts w) \<Longrightarrow> passes V L env i w = Ok (as, w') \<Longrightarrow> program_cnt (rts w' ! i) \<le> program_cnt (rts w ! i)"
proof (induction V L env i w arbitrary: "as" rule: passes.induct)
  case (2 V L rnd clk fuel env i w)
  then obtain w1 as1 where "pass V L rnd clk fuel i w = Ok w1" "passes V L env i w1 = Ok (as1, w')"
    by (auto simp: bnd_eq_Ok)
  then show ?case using 2(1) pass_cnt [OF 2(2)] 2(2) by fastforce
qed simp

context cdlist
begin

lemma pass_next:
  assumes inv: "winv linv lst w" and i: "i < length (rts w)" and rt: "rt_pc (rts w ! i) = RtLoop" "running (rts w ! i)"
    and j: "j < length (lst (program_list (rts w ! i)))" "curr (rts w ! i) = fst (lst (program_list (rts w ! i)) ! j)"
    and ok: "pass V L rnd clk fuel i w = Ok w'" and cnt: "program_cnt (rts w' ! i) = program_cnt (rts w ! i)"
  shows "winv linv lst w'" "length (rts w') = length (rts w)" "cd_data L (program_list (rts w ! i)) (curr (rts w ! i)) = Some (snd (lst (program_list (rts w ! i)) ! j))"
    "rts w' ! i = (rts w ! i)\<lparr>curr := fst (lst (program_list (rts w ! i)) ! (Suc j mod length (lst (program_list (rts w ! i)))))\<rparr>"
proof -
  let ?rt = "rts w ! i" and ?l = "program_list (rts w ! i)"
  note l = rt_invD [OF inv i]
  have node: "(curr ?rt, snd (lst ?l ! j)) \<in> set (lst ?l)" using j by simp
  have c: "curr ?rt \<noteq> NULL" using nodes [OF l(2)] node by force
  obtain w1 where w1: "rt_tick V L rnd clk fuel i w = Ok w1" "rt_tick V L rnd clk fuel i w1 = Ok w'"
    using ok by (auto simp: pass_def bnd_eq_Ok)
  show dt: "cd_data L ?l (curr ?rt) = Some (snd (lst ?l ! j))" by (rule data [OF l(2) node])
  have inv1: "winv linv lst w1" by (rule tick_inv [OF inv i w1(1)])
  have r1: "rts w1 = (rts w)[i := ?rt\<lparr>rt_pc := RtDecide (snd (lst ?l ! j))\<rparr>]"
    using w1(1) rt c dt by (auto simp: rt_tick_def rt_visit_def Let_def bnd_eq_Ok split: option.splits)
  then have i1: "i < length (rts w1)" "rts w1 ! i = ?rt\<lparr>rt_pc := RtDecide (snd (lst ?l ! j))\<rparr>" using i by simp_all
  show "winv linv lst w'" by (rule tick_inv [OF inv1 i1(1) w1(2)])
  show "length (rts w') = length (rts w)" using tick_cnt [OF i1(1) w1(2)] r1 by simp
  have nx: "cd_nxt L ?l (curr ?rt) = Some (fst (lst ?l ! (Suc j mod length (lst ?l))))"
    using nxt [OF l(2) j(1)] j(2) by simp
  have "rts w' ! i = (rts w1 ! i)\<lparr>curr := fst (lst ?l ! (Suc j mod length (lst ?l))), rt_pc := RtLoop\<rparr>"
    using w1(2) i1 i nx cnt
    by (auto simp: rt_tick_def rt_decide_def Let_def bnd_eq_Ok split: option.splits if_splits)
  then show "rts w' ! i = ?rt\<lparr>curr := fst (lst ?l ! (Suc j mod length (lst ?l)))\<rparr>"
    using i1(2) rt(1) by (cases ?rt) simp
qed

lemma passes_next:
  assumes "winv linv lst w" and "i < length (rts w)" and "rt_pc (rts w ! i) = RtLoop" and "running (rts w ! i)"
    and "j < length (lst (program_list (rts w ! i)))" and "curr (rts w ! i) = fst (lst (program_list (rts w ! i)) ! j)"
    and "passes V L env i w = Ok (as, w')" and "program_cnt (rts w' ! i) = program_cnt (rts w ! i)"
  shows "as = map (\<lambda>m. Some (snd (lst (program_list (rts w ! i)) ! ((j + m) mod length (lst (program_list (rts w ! i))))))) [0..<length env] \<and>
    rts w' ! i = (rts w ! i)\<lparr>curr := fst (lst (program_list (rts w ! i)) ! ((j + length env) mod length (lst (program_list (rts w ! i)))))\<rparr>"
  using assms
proof (induction env arbitrary: w j "as")
  case Nil
  then show ?case by simp
next
  case (Cons e env)
  obtain rnd clk fuel where e: "e = (rnd, clk, fuel)" by (cases e)
  obtain w1 as1 where w1: "pass V L rnd clk fuel i w = Ok w1" "passes V L env i w1 = Ok (as1, w')"
      "as = cd_data L (program_list (rts w ! i)) (curr (rts w ! i)) # as1"
    using Cons.prems(7) by (auto simp: e bnd_eq_Ok)
  have "length (rts w1) = length (rts w)" using pass_cnt [OF Cons.prems(2) w1(1)] by simp
  then have i1: "i < length (rts w1)" using Cons.prems(2) by simp
  have cnt: "program_cnt (rts w1 ! i) = program_cnt (rts w ! i)"
    using pass_cnt [OF Cons.prems(2) w1(1)] passes_cnt [OF i1 w1(2)] Cons.prems(8) by simp
  note n = pass_next [OF Cons.prems(1-6) w1(1) cnt]
  let ?l = "lst (program_list (rts w ! i))"
  have "Suc j mod length ?l < length ?l" using Cons.prems(5) by (intro mod_less_divisor) auto
  then have IH: "as1 = map (\<lambda>m. Some (snd (?l ! ((Suc j mod length ?l + m) mod length ?l)))) [0..<length env]"
    "rts w' ! i = (rts w1 ! i)\<lparr>curr := fst (?l ! ((Suc j mod length ?l + length env) mod length ?l))\<rparr>"
    using Cons.IH [OF n(1) i1, of "Suc j mod length ?l" as1] Cons.prems(3,4,8) w1(2) cnt by (simp_all add: n(4))
  have "as = map (\<lambda>m. Some (snd (?l ! ((j + m) mod length ?l)))) [0..<length (e # env)]"
    using w1(3) n(3) IH(1) Cons.prems(5) by (simp add: upt_conv_Cons map_Suc_upt [symmetric] mod_simps del: upt_Suc)
  then show ?case using IH(2) n(4) by (simp add: mod_simps)
qed

end

text \<open>
  C17: round robin.  From a node of its list on, a runtime visits the programs one after the other in the order
  of the list, each once before any is visited again, whatever the slices are, as long as none of them is
  removed.
\<close>

theorem round_robin:
  assumes "cdlist L linv lst"
    and "winv linv lst w" and "i < length (rts w)" and "rt_pc (rts w ! i) = RtLoop" and "running (rts w ! i)"
    and "lst (program_list (rts w ! i)) = ns" and "j < length ns" and "curr (rts w ! i) = fst (ns ! j)"
    and "passes V L env i w = Ok (as, w')" and "program_cnt (rts w' ! i) = program_cnt (rts w ! i)"
  shows "as = map (\<lambda>m. Some (snd (ns ! ((j + m) mod length ns)))) [0..<length env] \<and>
    curr (rts w' ! i) = fst (ns ! ((j + length env) mod length ns))"
  using cdlist.passes_next [OF assms(1-5), of j V env "as" w'] assms(6-10) by simp

text \<open>Two sleeping programs on one runtime, and three passes.\<close>

definition rr_prog :: "(lhash, lring) program_s" where
  "rr_prog = prog_of (demo_sleeper\<lparr>sleep_nsec := 0\<rparr>)"

definition rr_rt :: "addr \<Rightarrow> llist runtime_s" where
  "rr_rt c = \<lparr>program_list = (3, [(1, 1), (2, 2)]), curr = c, running = True, program_cnt = 2, rt_pc = RtLoop\<rparr>"

definition rr_world :: "addr \<Rightarrow> (lhash, lring, llist) world" where
  "rr_world c = \<lparr>progs = [1 \<mapsto> rr_prog, 2 \<mapsto> rr_prog], next_prog = 3, id_cnt = 3, shm = demo_shared, rts = [rr_rt c], console = []\<rparr>"

lemma load_prog_simps [simp]: "prog_of (load_prog p m) = p" "shared_of (load_prog p m) = m" "pstate (load_prog p m) = pstate p"
  "argv (load_prog p m) = argv p"
  by (simp_all add: prog_of_def load_prog_def shared_of_def program_s.defs)

definition rr_nodes :: nodes where
  "rr_nodes = [(1, 1), (2, 2)]"

definition rr_env :: "(64 word \<times> (nat \<Rightarrow> timespec \<times> timespec) \<times> nat) list" where
  "rr_env = replicate 3 (0, \<lambda>_. undefined, 0)"

lemma rr_inv: "winv l_linv snd (rr_world c)" if "c \<in> {1, 2}"
  using that by (auto simp: winv_def rr_world_def rr_rt_def rt_inv_def rt_progs_def l_linv_def split: if_splits)

lemma rr_visit: "visit V clk fuel 0 (load_prog rr_prog m) = Ok (load_prog rr_prog m)"
  by (simp add: visit_def visit_sleeping_def rr_prog_def demo_sleeper_def load_prog_def prog_of_def program_s.defs)

lemma rr_progs: "[1 \<mapsto> p, 2 \<mapsto> p](a \<mapsto> p) = [1 \<mapsto> p, 2 \<mapsto> p]" if "a \<in> {1, 2}" for p :: 'b and a :: addr
  using that by auto

lemma rr_twist: "[2 \<mapsto> p, Suc 0 \<mapsto> p] = [Suc 0 \<mapsto> p, 2 \<mapsto> p]"
  by auto

lemma rr_state: "pstate rr_prog = SLEEPING" "error_flag rr_prog = False"
  by (simp_all add: rr_prog_def demo_sleeper_def prog_of_def program_s.defs demo_st_def boot_def program_init_def)

lemma rr_pass: "pass list_voids list_cdll 0 clk fuel 0 (rr_world 1) = Ok (rr_world 2)"
  "pass list_voids list_cdll 0 clk fuel 0 (rr_world 2) = Ok (rr_world 1)"
  by (simp_all add: pass_def rt_tick_def rt_visit_def rt_decide_def rr_world_def rr_rt_def list_cdll_def calc_time_slice_def
    rr_visit rr_state set_rt_def l_at_def l_pos_def rr_progs rr_twist TIME_SLICE_MAX_NSEC_def)

lemma rr_data: "cd_data list_cdll (program_list (rts (rr_world 1) ! 0)) (curr (rts (rr_world 1) ! 0)) = Some 1"
  "cd_data list_cdll (program_list (rts (rr_world 2) ! 0)) (curr (rts (rr_world 2) ! 0)) = Some 2"
  by (simp_all add: rr_world_def rr_rt_def list_cdll_def)

theorem round_robin_witness:
  "[Some 1, Some 2, Some 1] = map (\<lambda>m. Some (snd (rr_nodes ! ((0 + m) mod length rr_nodes)))) [0..<length rr_env] \<and>
    curr (rts (rr_world 2) ! 0) = fst (rr_nodes ! ((0 + length rr_env) mod length rr_nodes))"
proof (rule round_robin [OF ll.cdlist_axioms rr_inv])
  show "passes list_voids list_cdll rr_env 0 (rr_world 1) = Ok ([Some 1, Some 2, Some 1], rr_world 2)"
    by (simp add: rr_env_def numeral_3_eq_3 rr_pass rr_data del: One_nat_def)
qed (simp_all add: rr_world_def rr_rt_def rr_nodes_def)

text \<open>
  C13: the pointers of a runtime are safe.  In a state that is reached without the race of \<open>attach_race\<close> (no command is
  executed while a runtime is between the removal of its last program and the test behind it), and unless the random number is
  the least \<open>long\<close>, whose negation overflows, a step of a runtime has undefined behaviour only where the code that runs a program of
  its list, or reads its id and frees it, has it: \<open>curr\<close>, its neighbours and the program in the node are always there.
\<close>

theorem runtime_pointers_safe:
  assumes "cdlist L linv lst" and "reachable V L n m w" and "0 < n" and "i < length (rts w)"
    and "rt_tick V L rnd clk fuel i w = Undef k" and "sint rnd \<noteq> - (2 ^ 63)"
  shows "\<exists>a p. a \<in> snd ` set (lst (program_list (rts w ! i))) \<and> progs w a = Some p \<and>
    (rt_pc (rts w ! i) = RtLoop \<and> (\<exists>ts. calc_time_slice rnd = Ok ts \<and> visit V clk fuel ts (load_prog p (shm w)) = Undef k) \<or>
     rt_pc (rts w ! i) = RtDecide a \<and> (argv_at 0 (load_prog p (shm w)) = Undef k \<or> program_free V (load_prog p (shm w)) = Undef k))"
  using cdlist.tick_fault [OF assms(1) _ assms(4,5,6)] cdlist.reachable_inv [OF assms(1-3)] by blast

subsection \<open>Removal\<close>

text \<open>
  A program that is finished or has failed is announced, taken out of the list of its runtime, which counts one
  less, and freed; the other nodes stay in their order, and the thread goes on with the node behind.
\<close>

theorem finished_removed:
  assumes "cdlist L linv lst" and "winv linv lst w" and "i < length (rts w)" and "rt_pc (rts w ! i) = RtDecide a"
    and "progs w a = Some p" and "pstate p = FINISHED \<or> error_flag p" and "argv p = pid # as"
    and "program_free V (load_prog p (shm w)) = Ok s"
  shows "\<exists>w' rt' xs n ys. rt_tick V L rnd clk fuel i w = Ok w' \<and> winv linv lst w' \<and> rts w' = (rts w)[i := rt'] \<and>
    lst (program_list (rts w ! i)) = xs @ (n, a) # ys \<and> lst (program_list rt') = xs @ ys \<and>
    program_cnt rt' = program_cnt (rts w ! i) - 1 \<and> progs w' = (progs w)(a := None) \<and> shm w' = shared_of s \<and>
    console w' = console w @ [if error_flag p then Killed pid else Finished pid]"
proof -
  obtain c where r: "cd_nxt L (program_list (rts w ! i)) (curr (rts w ! i)) = Some c"
    "cd_prv L (program_list (rts w ! i)) c = Some (curr (rts w ! i))"
    using cdlist.decide_reads [OF assms(1-4)] by metis
  let ?rt' = "(rts w ! i)\<lparr>curr := c, program_cnt := program_cnt (rts w ! i) - 1,
      program_list := cd_delete L (program_list (rts w ! i)) (curr (rts w ! i)), rt_pc := RtCheck\<rparr>"
  obtain xs ys where x: "lst (program_list (rts w ! i)) = xs @ (curr (rts w ! i), a) # ys" "lst (program_list ?rt') = xs @ ys"
    using cdlist.remove_inv [OF assms(1-4) r(1) refl] by metis
  obtain w' where w': "rt_tick V L rnd clk fuel i w = Ok w'" "rts w' = (rts w)[i := ?rt']" "progs w' = (progs w)(a := None)"
      "shm w' = shared_of s" "console w' = console w @ [if error_flag p then Killed pid else Finished pid]"
    using assms(4-8) r by (simp add: rt_tick_def rt_decide_def Let_def argv_at_def)
  then show ?thesis
    using cdlist.tick_inv [OF assms(1-3) w'(1)] x by (intro exI conjI) (assumption | simp)+
qed

definition fin_prog :: "(lhash, lring) program_s" where
  "fin_prog = (program_init list_voids ''#PROGRAM'' 4 [] (\<lambda>_. NUL) (0, 0, 0) (0, 0))\<lparr>pstate := FINISHED\<rparr>"

definition fin_world :: "(lhash, lring, llist) world" where
  "fin_world = (rr_world 1)\<lparr>progs := [1 \<mapsto> fin_prog, 2 \<mapsto> rr_prog], rts := [(rr_rt 1)\<lparr>rt_pc := RtDecide 1\<rparr>]\<rparr>"

theorem finished_witness:
  "\<exists>w' rt' xs n ys. rt_tick list_voids list_cdll 0 (\<lambda>_. undefined) 0 0 fin_world = Ok w' \<and> winv l_linv snd w' \<and>
    rts w' = (rts fin_world)[0 := rt'] \<and> snd (program_list (rts fin_world ! 0)) = xs @ (n, 1) # ys \<and>
    snd (program_list rt') = xs @ ys \<and> program_cnt rt' = program_cnt (rts fin_world ! 0) - 1 \<and>
    progs w' = (progs fin_world)(1 := None) \<and> shm w' = shared_of (load_prog fin_prog (shm fin_world)) \<and>
    console w' = console fin_world @ [if error_flag fin_prog then Killed 4 else Finished 4]"
proof (rule finished_removed [OF ll.cdlist_axioms])
  show "winv l_linv snd fin_world"
    by (auto simp: winv_def fin_world_def rr_world_def rr_rt_def rt_inv_def rt_progs_def l_linv_def split: if_splits)
  show "program_free list_voids (load_prog fin_prog (shm fin_world)) = Ok (load_prog fin_prog (shm fin_world))"
    by (simp add: program_free_def fin_prog_def load_prog_def program_init_def program_s.defs list_voids_def)
qed (simp_all add: fin_world_def rr_rt_def fin_prog_def program_init_def)

subsection \<open>A race\<close>

text \<open>
  C33: the race between the removal of the last program and a new one.  When a runtime has removed its last
  program, \<open>curr\<close> leads to the deleted node until the test behind the unlock.  If the shell attaches a program
  in between, the list is not empty at the test, \<open>curr\<close> stays, and the thread reads the deleted node: a use
  after free (as long as the new node is at another address).
\<close>

theorem attach_race:
  assumes lib: "cdlist L linv lst" and rt: "linv (program_list (rts w ! i))" "lst (program_list (rts w ! i)) = []"
      "rt_pc (rts w ! i) = RtCheck" "running (rts w ! i)" "curr (rts w ! i) \<noteq> NULL" and i: "i < length (rts w)" and prog: "prog \<noteq> NULL"
    and app: "cd_append L (program_list (rts w ! i)) prog = (l', VDS_SUCCESS)" "curr (rts w ! i) \<notin> fst ` set (lst l')"
  shows "bnd (runtime_attach_program L i prog w) (\<lambda>w. bnd (rt_tick V L rnd clk fuel i w) (rt_tick V L rnd clk fuel i)) =
    Undef UseAfterFree"
proof -
  obtain n where l': "linv l'" "lst l' = [(n, prog)]"
    using cdlist.append [OF lib rt(1), of prog] app(1) rt(2) by auto
  have h: "cd_head L l' \<noteq> NULL" using cdlist.head_NULL [OF lib l'(1)] l'(2) by simp
  have d: "cd_data L l' (curr (rts w ! i)) = None" using cdlist.dead [OF lib l'(1) app(2)] by simp
  obtain m where m: "cd_nxt L l' (cd_head L l') = Some m" by (rule cdlist.nxt_head [OF lib l'(1), of "[]" n prog]) (use l'(2) in simp_all)
  show ?thesis
    using rt(3,4,5) i prog app(1) h d m
    by (simp add: runtime_attach_program_def rt_tick_def rt_visit_def Let_def set_rt_def)
qed

definition race_world :: "(lhash, lring, llist) world" where
  "race_world = demo_start\<lparr>rts := [\<lparr>program_list = (2, []), curr = 1, running = True, program_cnt = 0, rt_pc = RtCheck\<rparr>]\<rparr>"

theorem attach_race_witness:
  "bnd (runtime_attach_program list_cdll 0 2 race_world) (\<lambda>w. bnd (rt_tick list_voids list_cdll 0 (\<lambda>_. undefined) 0 0 w)
    (rt_tick list_voids list_cdll 0 (\<lambda>_. undefined) 0 0)) = Undef UseAfterFree"
  by (rule attach_race [OF ll.cdlist_axioms, where l' = "(3, [(2, 2)])"])
    (simp_all add: race_world_def l_linv_def list_cdll_def)

end
