(* ===== verification/ShellProps.thy ===== *)
theory ShellProps imports RtProps ExprText begin

section \<open>Properties of the shell (main.c)\<close>

text \<open>
  Reading a line, splitting it, the arguments of \<open>run\<close>, the choice of a runtime, and \<open>kill\<close>.
\<close>

subsection \<open>The line buffer\<close>

definition buff_ok :: "buff \<Rightarrow> bool" where
  "buff_ok b \<longleftrightarrow> length (fst b) \<le> snd b"

lemma grow_room: "buff_ok b \<Longrightarrow> length (fst (grow_buff b)) < snd (grow_buff b)" "buff_ok b \<Longrightarrow> fst (grow_buff b) = fst b"
  by (auto simp: buff_ok_def grow_buff_def MAX_ALLOC_SIZE_def)

lemma grow_grow: "buff_ok b \<Longrightarrow> grow_buff (grow_buff b) = grow_buff b"
  by (auto simp: buff_ok_def grow_buff_def MAX_ALLOC_SIZE_def)

lemma put_ok: "length (fst b) < snd b \<Longrightarrow> put_buff c b = Ok (fst b @ [to_char c], snd b) \<and> buff_ok (fst b @ [to_char c], snd b)"
  by (simp add: put_buff_def buff_ok_def)

lemma grow_ok: "buff_ok b \<Longrightarrow> buff_ok (grow_buff b)"
  using grow_room(1) [of b] by (simp add: buff_ok_def)

lemma skip_blanks_end: "skip_blanks inp = (c, r) \<Longrightarrow> c = EOF \<and> r = [] \<or> (\<exists>bs x. inp = bs @ x # r \<and> c = of_char x)"
proof (induction inp)
  case (Cons x inp)
  then show ?case
  proof (cases "x = CHR 0x0A \<or> \<not> isblank (of_char x)")
    case True
    then show ?thesis using Cons.prems by (auto intro: exI [of _ "[]"])
  next
    case False
    then have "skip_blanks inp = (c, r)" using Cons.prems by simp
    then show ?thesis using Cons.IH by (metis append_Cons)
  qed
qed simp

definition blank_text :: "int \<Rightarrow> string" where
  "blank_text c = (if isblank c then [CHR 0x20] else [])"

lemma to_char_32: "to_char 32 = CHR 0x20"
  using to_char_of_char [of "CHR 0x20"] by simp

text \<open>One turn of the loop, with a buffer that has room.\<close>

lemma read_loop_step:
  assumes b: "buff_ok b" and ci: "(if isblank c then skip_blanks inp else (c, inp)) = (c', inp')"
  obtains b1 where "length (fst b1) < snd b1" "fst b1 = fst b @ blank_text c"
    "read_loop c b inp = (if isblank c \<and> (c' = EOF \<or> c' = 10) then Ok (b1, c', inp')
       else case inp' of [] \<Rightarrow> Ok ((fst b1 @ [to_char c'], snd b1), EOF, [])
         | x # r \<Rightarrow> if x = CHR 0x0A then Ok ((fst b1 @ [to_char c'], snd b1), 10, r)
             else read_loop (of_char x) (fst b1 @ [to_char c'], snd b1) r)"
proof (cases "isblank c")
  case True
  let ?g = "grow_buff b"
  have p: "put_buff 32 ?g = Ok (fst b @ [CHR 0x20], snd ?g)" "buff_ok (fst b @ [CHR 0x20], snd ?g)"
    using put_ok [OF grow_room(1) [OF b], of 32] grow_room(2) [OF b] by (simp_all add: to_char_32)
  define b1 where "b1 = grow_buff (fst b @ [CHR 0x20], snd ?g)"
  have r: "length (fst b1) < snd b1" "fst b1 = fst b @ [CHR 0x20]" using grow_room [OF p(2)] by (simp_all add: b1_def)
  have eq: "read_loop c b inp = (if isblank c \<and> (c' = EOF \<or> c' = 10) then Ok (b1, c', inp')
       else case inp' of [] \<Rightarrow> Ok ((fst b1 @ [to_char c'], snd b1), EOF, [])
         | x # r \<Rightarrow> if x = CHR 0x0A then Ok ((fst b1 @ [to_char c'], snd b1), 10, r)
             else read_loop (of_char x) (fst b1 @ [to_char c'], snd b1) r)"
    using True ci p(1) put_ok [OF r(1), of c'] by (simp add: read_loop.simps [of c b inp] flip: b1_def)
  show thesis by (rule that [OF r(1) _ eq]) (simp add: r(2) blank_text_def True)
next
  case False
  then have cc: "c' = c" "inp' = inp" using ci by simp_all
  define b1 where "b1 = grow_buff b"
  have r: "length (fst b1) < snd b1" "fst b1 = fst b" using grow_room [OF b] by (simp_all add: b1_def)
  have eq: "read_loop c b inp = (if isblank c \<and> (c' = EOF \<or> c' = 10) then Ok (b1, c', inp')
       else case inp' of [] \<Rightarrow> Ok ((fst b1 @ [to_char c'], snd b1), EOF, [])
         | x # r \<Rightarrow> if x = CHR 0x0A then Ok ((fst b1 @ [to_char c'], snd b1), 10, r)
             else read_loop (of_char x) (fst b1 @ [to_char c'], snd b1) r)"
    unfolding cc using False put_ok [OF r(1), of c] by (simp add: read_loop.simps [of c b inp] flip: b1_def)
  show thesis by (rule that [OF r(1) _ eq]) (simp add: r(2) blank_text_def False)
qed

text \<open>
  The loop never writes outside the buffer, and ends at a newline of the input or at its end.
\<close>

lemma read_loop_ok:
  assumes "buff_ok b"
  shows "\<exists>b' c' r. read_loop c b inp = Ok (b', c', r) \<and> buff_ok b' \<and>
    (c' = EOF \<and> r = [] \<or> c' = 10 \<and> (\<exists>pre. inp = pre @ CHR 0x0A # r))"
  using assms
proof (induction "length inp" arbitrary: inp c b rule: less_induct)
  case less
  obtain c' inp' where ci: "(if isblank c then skip_blanks inp else (c, inp)) = (c', inp')" by fastforce
  have suf: "(\<exists>pre. inp = pre @ inp') \<and> (isblank c \<longrightarrow> c' = 10 \<longrightarrow> (\<exists>pre. inp = pre @ CHR 0x0A # inp')) \<and>
      (isblank c \<longrightarrow> c' = EOF \<longrightarrow> inp' = [])"
  proof (cases "isblank c")
    case True
    then have "skip_blanks inp = (c', inp')" using ci by simp
    from skip_blanks_end [OF this] show ?thesis
    proof (elim disjE exE conjE)
      fix bs x
      assume "inp = bs @ x # inp'" and "c' = of_char x"
      then have a: "inp = bs @ x # inp'" and c': "c' = of_char x" by simp_all
      show ?thesis
      proof (intro conjI impI)
        show "\<exists>pre. inp = pre @ inp'" by (rule exI [of _ "bs @ [x]"]) (simp add: a)
        show "\<exists>pre. inp = pre @ CHR 0x0A # inp'" if "c' = 10"
        proof -
          have "x = CHR 0x0A" using that c' of_char_newline [of x] by simp
          then show ?thesis using a by blast
        qed
        show "inp' = []" if "c' = EOF" using that of_char_not_EOF [of x] c' by simp
      qed
    qed simp
  qed (use ci in simp)
  obtain b1 where b1: "length (fst b1) < snd b1" "fst b1 = fst b @ blank_text c"
    "read_loop c b inp = (if isblank c \<and> (c' = EOF \<or> c' = 10) then Ok (b1, c', inp')
       else case inp' of [] \<Rightarrow> Ok ((fst b1 @ [to_char c'], snd b1), EOF, [])
         | x # r \<Rightarrow> if x = CHR 0x0A then Ok ((fst b1 @ [to_char c'], snd b1), 10, r)
             else read_loop (of_char x) (fst b1 @ [to_char c'], snd b1) r)"
    by (rule read_loop_step [OF less.prems ci])
  have ok: "buff_ok (fst b1 @ [to_char c'], snd b1)" "buff_ok b1" using b1(1) by (simp_all add: buff_ok_def)
  show ?case
  proof (cases "isblank c \<and> (c' = EOF \<or> c' = 10)")
    case True
    then show ?thesis using b1(3) ok(2) suf by auto
  next
    case False
    show ?thesis
    proof (cases inp')
      case Nil
      then show ?thesis using b1(3) ok(1) False by auto
    next
      case (Cons x r)
      obtain pre where pre: "inp = pre @ x # r" using suf Cons by auto
      have "length r < length inp" by (simp add: pre)
      from less.hyps [OF this ok(1), of "of_char x"] obtain b' d s where
        IH: "read_loop (of_char x) (fst b1 @ [to_char c'], snd b1) r = Ok (b', d, s)" "buff_ok b'"
          "d = EOF \<and> s = [] \<or> d = 10 \<and> (\<exists>pre. r = pre @ CHR 0x0A # s)" by blast
      show ?thesis
      proof (cases "x = CHR 0x0A")
        case True
        then show ?thesis using b1(3) ok(1) False Cons pre by auto
      next
        case x: False
        have "d = 10 \<Longrightarrow> \<exists>pre. inp = pre @ CHR 0x0A # s"
          using IH(3) pre by (metis append.assoc append_Cons one_neq_neg_numeral numeral_neq_neg_one)
        then show ?thesis using b1(3) False Cons x IH by auto
      qed
    qed
  qed
qed

lemma skip_space_end: "skip_space inp ms = (c, ms', r) \<Longrightarrow> c = EOF \<and> r = [] \<or> (\<exists>pre. inp = pre @ r) \<and> c \<noteq> EOF"
proof (induction inp ms rule: skip_space.induct)
  case (2 x inp ms)
  show ?case
  proof (cases "isspace (of_char x)")
    case True
    then have "c = EOF \<and> r = [] \<or> (\<exists>pre. inp = pre @ r) \<and> c \<noteq> EOF" using 2 by simp
    then show ?thesis by (metis append_Cons)
  next
    case False
    then show ?thesis using 2(2) by (auto intro: exI [of _ "[x]"])
  qed
qed simp

lemma read_line_ends:
  "\<exists>l ms r. read_line inp = Ok (l, ms, r) \<and> (\<forall>t. l = Some t \<longrightarrow> (\<exists>pre. inp = pre @ CHR 0x0A # r))"
proof -
  obtain c ms inp1 where s: "skip_space inp [] = (c, ms, inp1)" by (cases "skip_space inp []") auto
  show ?thesis
  proof (cases "c = EOF")
    case True
    then show ?thesis using s by (auto simp: read_line_def)
  next
    case False
    obtain pre where pre: "inp = pre @ inp1" using skip_space_end [OF s] False by blast
    have "buff_ok ([], MAX_ALLOC_SIZE)" by (simp add: buff_ok_def)
    from read_loop_ok [OF this] obtain b d r where l: "read_loop c ([], MAX_ALLOC_SIZE) inp1 = Ok (b, d, r)" "buff_ok b"
      "d = EOF \<and> r = [] \<or> d = 10 \<and> (\<exists>pre. inp1 = pre @ CHR 0x0A # r)" by blast
    have "d \<noteq> EOF \<Longrightarrow> \<exists>pre. inp = pre @ CHR 0x0A # r" using l(3) pre by (metis append.assoc)
    moreover have "length (fst b) < (if snd b \<le> length (fst b) then snd b + 1 else snd b)"
      using l(2) by (auto simp: buff_ok_def)
    ultimately show ?thesis using s False l(1) by (auto simp: read_line_def Let_def)
  qed
qed

text \<open>
  C25: \<open>read_line\<close> is safe for every input: no character is written outside the buffer, however long the
  line is, and it returns; and it returns a line only when a newline ends it.
\<close>

theorem read_line_safe:
  "\<exists>l ms r. read_line inp = Ok (l, ms, r) \<and> (\<forall>t. l = Some t \<longrightarrow> (\<exists>pre. inp = pre @ CHR 0x0A # r))"
  by (rule read_line_ends)

theorem read_line_witness:
  "\<exists>l ms r. read_line ''a'' = Ok (l, ms, r) \<and> (\<forall>t. l = Some t \<longrightarrow> (\<exists>pre. ''a'' = pre @ CHR 0x0A # r))"
  by (rule read_line_safe)

text \<open>
  C34: the end of the input.  When the input has no newline left, a round of the shell hands \<open>NULL\<close> to
  \<open>strtok_r\<close>, which then reads a saved pointer that was never set or that leads into a freed line.
\<close>

theorem end_of_input:
  assumes "CHR 0x0A \<notin> set inp"
  shows "shell_round V L fs junk jc jp inp w = Undef UninitRead"
proof -
  obtain l ms r where l: "read_line inp = Ok (l, ms, r)" "\<forall>t. l = Some t \<longrightarrow> (\<exists>pre. inp = pre @ CHR 0x0A # r)"
    using read_line_ends by blast
  then have "l = None" using assms by (cases l) auto
  with l show ?thesis by (simp add: shell_round_def command_def)
qed

theorem end_of_input_witness: "shell_round list_voids list_cdll Map.empty (\<lambda>_. NUL) (0, 0, 0) (0, 0) ''list'' demo_start = Undef UninitRead"
  by (rule end_of_input) simp

subsection \<open>A line of words\<close>

text \<open>What the loop makes of a line: every stretch of blanks is one blank.\<close>

fun squeeze :: "bool \<Rightarrow> string \<Rightarrow> string" where
  "squeeze b [] = []"
| "squeeze b (x # xs) =
     (if isblank (of_char x) then (if b then squeeze True xs else CHR 0x20 # squeeze True xs) else x # squeeze False xs)"

lemma skip_blanks_line: "CHR 0x0A \<notin> set l \<Longrightarrow>
    (list_all (\<lambda>x. isblank (of_char x)) l \<longrightarrow> skip_blanks (l @ CHR 0x0A # r) = (10, r) \<and> squeeze True l = []) \<and>
    (\<not> list_all (\<lambda>x. isblank (of_char x)) l \<longrightarrow> (\<exists>y l'. skip_blanks (l @ CHR 0x0A # r) = (of_char y, l' @ CHR 0x0A # r) \<and>
      length l' < length l \<and> set l' \<subseteq> set l \<and> squeeze True l = y # squeeze False l' \<and> y \<in> set l))"
proof (induction l)
  case Nil
  then show ?case using of_char_newline [of "CHR 0x0A"] by simp
next
  case (Cons x l)
  show ?case
  proof (cases "isblank (of_char x)")
    case True
    then show ?thesis using Cons by (auto 0 3)
  next
    case False
    then have "skip_blanks ((x # l) @ CHR 0x0A # r) = (of_char x, l @ CHR 0x0A # r)" "squeeze True (x # l) = x # squeeze False l"
      by simp_all
    then show ?thesis using False by (intro conjI impI exI [of _ x] exI [of _ l]) auto
  qed
qed

lemma read_loop_line:
  assumes "buff_ok b" and "CHR 0x0A \<notin> set l"
  shows "\<exists>b'. read_loop (of_char x) b (l @ CHR 0x0A # r) = Ok (b', 10, r) \<and> buff_ok b' \<and> fst b' = fst b @ squeeze False (x # l)"
  using assms
proof (induction "length l" arbitrary: l b x rule: less_induct)
  case less
  let ?inp = "l @ CHR 0x0A # r"
  have tail: "\<exists>b'. (case l' @ CHR 0x0A # r of [] \<Rightarrow> Ok ((fst b1 @ [y], snd b1), EOF, [])
         | x # r \<Rightarrow> if x = CHR 0x0A then Ok ((fst b1 @ [y], snd b1), 10, r)
             else read_loop (of_char x) (fst b1 @ [y], snd b1) r) = Ok (b', 10, r) \<and> buff_ok b' \<and>
        fst b' = fst b1 @ y # squeeze False l'"
    if l': "length l' \<le> length l" "set l' \<subseteq> set l" and b1: "length (fst b1) < snd b1" for l' b1 y
  proof (cases l')
    case Nil
    then show ?thesis using b1 by (simp add: buff_ok_def)
  next
    case (Cons z l'')
    have ok: "buff_ok (fst b1 @ [y], snd b1)" using b1 by (simp add: buff_ok_def)
    have "length l'' < length l" "CHR 0x0A \<notin> set l''" "z \<noteq> CHR 0x0A" using l' Cons less.prems(2) by auto
    then show ?thesis using less.hyps [OF _ ok, of l'' z] Cons by simp
  qed
  show ?case
  proof (cases "isblank (of_char x)")
    case blank: True
    show ?thesis
    proof (cases "list_all (\<lambda>x. isblank (of_char x)) l")
      case True
      then have s: "skip_blanks ?inp = (10, r)" "squeeze True l = []" using skip_blanks_line less.prems(2) by blast+
      have ci: "(if isblank (of_char x) then skip_blanks ?inp else (of_char x, ?inp)) = (10, r)" using s blank by simp
      obtain b1 where "length (fst b1) < snd b1" "fst b1 = fst b @ blank_text (of_char x)"
        "read_loop (of_char x) b ?inp = Ok (b1, 10, r)"
        by (rule read_loop_step [OF less.prems(1) ci, unfolded to_char_of_char], rule that, assumption, assumption) (simp add: blank)
      then show ?thesis using s(2) blank by (simp add: buff_ok_def blank_text_def)
    next
      case False
      then obtain y l' where s: "skip_blanks ?inp = (of_char y, l' @ CHR 0x0A # r)" "length l' < length l" "set l' \<subseteq> set l"
        "squeeze True l = y # squeeze False l'" "y \<in> set l" using skip_blanks_line [OF less.prems(2)] by blast
      have ci: "(if isblank (of_char x) then skip_blanks ?inp else (of_char x, ?inp)) = (of_char y, l' @ CHR 0x0A # r)"
        using s blank by simp
      have y: "y \<noteq> CHR 0x0A" using s(5) less.prems(2) by blast
      obtain b1 where b1: "length (fst b1) < snd b1" "fst b1 = fst b @ blank_text (of_char x)"
        "read_loop (of_char x) b ?inp = (case l' @ CHR 0x0A # r of [] \<Rightarrow> Ok ((fst b1 @ [y], snd b1), EOF, [])
         | x # r \<Rightarrow> if x = CHR 0x0A then Ok ((fst b1 @ [y], snd b1), 10, r)
             else read_loop (of_char x) (fst b1 @ [y], snd b1) r)"
        by (rule read_loop_step [OF less.prems(1) ci, unfolded to_char_of_char], rule that, assumption, assumption) (simp add: y of_char_newline)
      have "length l' \<le> length l" using s(2) by simp
      from tail [OF this s(3) b1(1), of y] show ?thesis using b1(2,3) s(4) blank by (simp add: blank_text_def)
    qed
  next
    case False
    then have ci: "(if isblank (of_char x) then skip_blanks ?inp else (of_char x, ?inp)) = (of_char x, l @ CHR 0x0A # r)" by simp
    obtain b1 where b1: "length (fst b1) < snd b1" "fst b1 = fst b @ blank_text (of_char x)"
        "read_loop (of_char x) b ?inp = (case l @ CHR 0x0A # r of [] \<Rightarrow> Ok ((fst b1 @ [x], snd b1), EOF, [])
         | y # r \<Rightarrow> if y = CHR 0x0A then Ok ((fst b1 @ [x], snd b1), 10, r)
             else read_loop (of_char y) (fst b1 @ [x], snd b1) r)"
      by (rule read_loop_step [OF less.prems(1) ci, unfolded to_char_of_char], rule that, assumption, assumption) (simp add: False)
    from tail [OF order_refl subset_refl b1(1), of x] show ?thesis using b1(2,3) False by (simp add: blank_text_def)
  qed
qed

lemma skip_space_lead:
  "list_all (\<lambda>a. isspace (of_char a)) pre \<Longrightarrow> \<not> isspace (of_char x) \<Longrightarrow>
   skip_space (pre @ x # inp) ms = (of_char x, ms @ replicate (count_list pre (CHR 0x0A)) EmptyInput, inp)"
  by (induction pre arbitrary: ms) (auto simp: replicate_app_Cons_same)

lemma read_line_squeeze:
  assumes "list_all (\<lambda>a. isspace (of_char a)) pre" and "\<not> isspace (of_char x)" and "CHR 0x0A \<notin> set l"
  shows "read_line (pre @ x # l @ CHR 0x0A # r) =
    Ok (Some (cstr (squeeze False (x # l))), replicate (count_list pre (CHR 0x0A)) EmptyInput, r)"
proof -
  have "buff_ok ([], MAX_ALLOC_SIZE)" by (simp add: buff_ok_def)
  from read_loop_line [OF this assms(3)] obtain b' where b':
    "read_loop (of_char x) ([], MAX_ALLOC_SIZE) (l @ CHR 0x0A # r) = Ok (b', 10, r)" "buff_ok b'" "fst b' = squeeze False (x # l)"
    by fastforce
  have "length (fst b') < (if snd b' \<le> length (fst b') then snd b' + 1 else snd b')"
    using b'(2) by (auto simp: buff_ok_def)
  then show ?thesis using b'(1,3) by (simp add: read_line_def skip_space_lead [OF assms(1,2)])
qed

text \<open>The words of a line, one call of \<open>strtok_r\<close> after the other.\<close>

function all_tokens :: "string \<Rightarrow> string list" where
  "all_tokens t = (case strtok_r t of (None, _) \<Rightarrow> [] | (Some x, r) \<Rightarrow> x # all_tokens r)"
  by pat_completeness auto
termination
  by (relation "measure length") (auto dest: sym strtok_r_length)

declare all_tokens.simps [simp del]

text \<open>Words, each with the blanks behind it; only behind the last one there may be none.\<close>

definition word_ok :: "string \<Rightarrow> bool" where
  "word_ok x \<longleftrightarrow> x \<noteq> [] \<and> list_all (\<lambda>a. a \<noteq> NUL \<and> \<not> isspace (of_char a)) x"

fun spaced_ok :: "(string \<times> string) list \<Rightarrow> bool" where
  "spaced_ok [] \<longleftrightarrow> True"
| "spaced_ok ((x, g) # ws) \<longleftrightarrow> word_ok x \<and> list_all (\<lambda>a. isblank (of_char a)) g \<and> (ws \<noteq> [] \<longrightarrow> g \<noteq> []) \<and> spaced_ok ws"

definition spaced :: "(string \<times> string) list \<Rightarrow> string" where
  "spaced ws = concat (map (\<lambda>(x, g). x @ g) ws)"

definition one_blank :: "(string \<times> string) list \<Rightarrow> string" where
  "one_blank ws = concat (map (\<lambda>(x, g). x @ (if g = [] then [] else [CHR 0x20])) ws)"

lemma squeeze_word: "list_all (\<lambda>a. \<not> isblank (of_char a)) x \<Longrightarrow> squeeze False (x @ t) = x @ squeeze False t"
  by (induction x) auto

lemma squeeze_gap: "list_all (\<lambda>a. isblank (of_char a)) g \<Longrightarrow> squeeze True (g @ t) = squeeze True t"
  by (induction g) auto

lemma squeeze_start: "(t = [] \<or> \<not> isblank (of_char (hd t))) \<Longrightarrow> squeeze True t = squeeze False t"
  by (cases t) auto

lemma isblank_isspace: "isblank i \<Longrightarrow> isspace i"
  by (auto simp: isblank_def isspace_def)

lemma word_nonblank: "word_ok x \<Longrightarrow> list_all (\<lambda>a. \<not> isblank (of_char a)) x"
  by (auto simp: word_ok_def list_all_iff dest: isblank_isspace)

lemma spaced_hd: "spaced_ok ws \<Longrightarrow> ws \<noteq> [] \<Longrightarrow> \<exists>x t. spaced ws = x # t \<and> \<not> isspace (of_char x)"
proof (cases ws)
  case (Cons p ws')
  assume "spaced_ok ws"
  moreover obtain x g where "p = (x, g)" by fastforce
  ultimately show ?thesis using Cons by (cases x) (auto simp: spaced_def word_ok_def)
qed simp

lemma squeeze_spaced: "spaced_ok ws \<Longrightarrow> squeeze False (spaced ws) = one_blank ws"
proof (induction ws rule: spaced_ok.induct)
  case (2 x g ws)
  have t: "squeeze True (spaced ws) = squeeze False (spaced ws)"
    using spaced_hd [of ws] 2(2) by (intro squeeze_start) (cases "ws = []"; force simp: spaced_def dest: isblank_isspace)
  have "squeeze False (spaced ((x, g) # ws)) = x @ squeeze False (g @ spaced ws)"
    using squeeze_word [OF word_nonblank] 2(2) by (simp add: spaced_def)
  also have "squeeze False (g @ spaced ws) = (if g = [] then [] else [CHR 0x20]) @ squeeze False (spaced ws)"
    using 2(2) t squeeze_gap [of "drop 1 g" "spaced ws"] by (cases g) auto
  finally show ?case using 2 by (simp add: one_blank_def)
qed (simp add: spaced_def one_blank_def)

lemma space_chars: "isspace (of_char (CHR 0x20))" "isspace (of_char (CHR 0x0A))" "\<not> isblank (of_char (CHR 0x0A))"
  by (simp_all add: isspace_def isblank_def)

lemma word_no_blank: "word_ok x \<Longrightarrow> CHR 0x20 \<notin> set x \<and> NUL \<notin> set x \<and> CHR 0x0A \<notin> set x"
  unfolding word_ok_def list_all_iff using space_chars by blast

lemma strtok_word: "word_ok x \<Longrightarrow> strtok_r (x @ CHR 0x20 # t) = (Some x, t)" "word_ok x \<Longrightarrow> strtok_r x = (Some x, [])"
proof -
  assume w: "word_ok x"
  then obtain a y where x: "x = a # y" "a \<noteq> CHR 0x20" "CHR 0x20 \<notin> set y"
    using word_no_blank [OF w] by (cases x) (auto simp: word_ok_def)
  have y: "dropWhile (\<lambda>x. x \<noteq> CHR 0x20) y = []" "takeWhile (\<lambda>x. x \<noteq> CHR 0x20) y = y" "\<forall>z \<in> set y. z \<noteq> CHR 0x20"
    using x(3) by (auto simp: dropWhile_eq_Nil_conv takeWhile_eq_all_conv)
  have "takeWhile (\<lambda>x. x \<noteq> CHR 0x20) (y @ CHR 0x20 # t) = y" "dropWhile (\<lambda>x. x \<noteq> CHR 0x20) (y @ CHR 0x20 # t) = CHR 0x20 # t"
    using y(3) by (simp_all add: takeWhile_append2 dropWhile_append2)
  then show "strtok_r (x @ CHR 0x20 # t) = (Some x, t)" using x(1,2) by (simp add: strtok_r_def)
  have "drop 1 (dropWhile (\<lambda>x. x \<noteq> CHR 0x20) (a # y)) = []" using x(2) unfolding y(1) by (simp add: y(1) del: drop_eq_Nil)
  then show "strtok_r x = (Some x, [])" using x(1,2) y(2) by (simp add: strtok_r_def)
qed

lemma all_tokens_spaced: "spaced_ok ws \<Longrightarrow> all_tokens (one_blank ws) = map fst ws"
proof (induction ws rule: spaced_ok.induct)
  case (2 x g ws)
  then have x: "word_ok x" by simp
  show ?case
  proof (cases "g = []")
    case True
    then have "ws = []" using 2(2) by simp
    then show ?thesis using strtok_word(2) [OF x] True
      by (simp add: one_blank_def all_tokens.simps [of x] all_tokens.simps [of "[]"] strtok_r_def [of "[]"])
  next
    case False
    then have "one_blank ((x, g) # ws) = x @ CHR 0x20 # one_blank ws" by (simp add: one_blank_def)
    then show ?thesis using 2 strtok_word(1) [OF x] by (simp add: all_tokens.simps [of "x @ CHR 0x20 # one_blank ws"])
  qed
qed (simp add: one_blank_def all_tokens.simps [of "[]"] strtok_r_def)

lemma one_blank_cstr: "spaced_ok ws \<Longrightarrow> cstr (one_blank ws) = one_blank ws"
proof -
  assume "spaced_ok ws"
  then have "NUL \<notin> set (one_blank ws)"
    by (induction ws rule: spaced_ok.induct) (auto simp: one_blank_def dest: word_no_blank)
  then show ?thesis by (auto simp: cstr_def takeWhile_eq_all_conv)
qed

lemma spaced_no_newline: "spaced_ok ws \<Longrightarrow> CHR 0x0A \<notin> set (spaced ws)"
proof (induction ws rule: spaced_ok.induct)
  case (2 x g ws)
  have "CHR 0x0A \<notin> set x" using 2(2) word_no_blank by simp
  moreover have "CHR 0x0A \<notin> set g" using 2(2) space_chars(3) by (auto simp: list_all_iff)
  ultimately show ?case using 2 by (simp add: spaced_def)
qed (simp add: spaced_def)

lemma line_words_read:
  assumes "list_all (\<lambda>a. isspace (of_char a)) pre" and "spaced_ok ws" and "ws \<noteq> []"
  shows "\<exists>t. read_line (pre @ spaced ws @ CHR 0x0A # r) = Ok (Some t, replicate (count_list pre (CHR 0x0A)) EmptyInput, r) \<and>
    t = one_blank ws \<and> all_tokens t = map fst ws"
proof -
  obtain x t where xt: "spaced ws = x # t" "\<not> isspace (of_char x)" using spaced_hd assms(2,3) by blast
  have "CHR 0x0A \<notin> set t" using spaced_no_newline [OF assms(2)] xt(1) by simp
  from read_line_squeeze [OF assms(1) xt(2) this]
  show ?thesis using squeeze_spaced [OF assms(2)] one_blank_cstr [OF assms(2)] all_tokens_spaced [OF assms(2)] by (simp add: xt(1))
qed

text \<open>
  C26: reading and splitting a line gives the words that were typed: for words of no white space and no NUL,
  with any blanks between and behind them, and any white space before the first one, the line is the words with one
  blank after each, \<open>strtok_r\<close> finds exactly the words, every empty line before them is reported once, and the
  rest of the input is kept.
\<close>

theorem line_words:
  assumes "list_all (\<lambda>a. isspace (of_char a)) pre" and "spaced_ok ws" and "ws \<noteq> []"
  shows "\<exists>t. read_line (pre @ spaced ws @ CHR 0x0A # r) = Ok (Some t, replicate (count_list pre (CHR 0x0A)) EmptyInput, r) \<and>
    t = one_blank ws \<and> all_tokens t = map fst ws"
  by (rule line_words_read [OF assms])

theorem line_words_witness:
  "\<exists>t. read_line ([CHR 0x0A] @ spaced [(''kill'', [CHR 0x20, CHR 0x09]), (''7'', [])] @ CHR 0x0A # ''x'') = Ok (Some t, replicate 1 EmptyInput, ''x'') \<and>
    t = one_blank [(''kill'', [CHR 0x20, CHR 0x09]), (''7'', [])] \<and> all_tokens t = [''kill'', ''7'']"
  using line_words [of "[CHR 0x0A]" "[(''kill'', [CHR 0x20, CHR 0x09]), (''7'', [])]" "''x''"]
  by (simp add: isspace_def word_ok_def isblank_def)

end
