(* ===== verification/RunProps.thy ===== *)
theory RunProps imports ShellProps begin

section \<open>Properties of the commands run and kill (main.c)\<close>

text \<open>
  The choice of a runtime, the arguments of \<open>run\<close>, the whole way from the characters of a \<open>run\<close> line to the
  new program in the list of a runtime, and what \<open>kill\<close> does to the programs.
\<close>

subsection \<open>The runtime with the fewest programs\<close>

text \<open>The first of the runtimes that have the fewest programs.\<close>

definition first_least :: "'l runtime_s list \<Rightarrow> nat \<Rightarrow> bool" where
  "first_least rs m \<longleftrightarrow> m < length rs \<and> (\<forall>j < length rs. program_cnt (rs ! m) \<le> program_cnt (rs ! j)) \<and>
     (\<forall>j < m. program_cnt (rs ! m) < program_cnt (rs ! j))"

lemma min_loop_least:
  "first_least xs k \<Longrightarrow> first_least (xs @ rs) (min_loop rs (length xs) (program_cnt (xs ! k)) k)"
proof (induction rs arbitrary: xs k)
  case (Cons rt rs)
  note step = Cons.IH [of "xs @ [rt]"]
  show ?case
  proof (cases "program_cnt rt < program_cnt (xs ! k)")
    case True
    then have "first_least (xs @ [rt]) (length xs)"
      using Cons.prems by (fastforce simp: first_least_def nth_append less_Suc_eq)
    from step [OF this] show ?thesis using True by simp
  next
    case False
    then have "first_least (xs @ [rt]) k"
      using Cons.prems by (fastforce simp: first_least_def nth_append less_Suc_eq)
    moreover have "k < length xs" using Cons.prems by (simp add: first_least_def)
    ultimately show ?thesis using step [of k] False by (simp add: nth_append)
  qed
qed simp

lemma min_runtime_first: "rs \<noteq> [] \<Longrightarrow> first_least rs (min_runtime rs)"
  using min_loop_least [of "[hd rs]" 0 "drop 1 rs"] by (cases rs) (simp_all add: min_runtime_def first_least_def)

subsection \<open>The arguments\<close>

definition num_word :: "string \<Rightarrow> bool" where
  "num_word x \<longleftrightarrow> all_digits x \<and> length x < MAX_INT_STR_LEN"

lemma parse_args_tokens:
  "length args < n \<Longrightarrow> parse_args t args n = Ok (case find (\<lambda>x. \<not> num_word x) (all_tokens t) of
     None \<Rightarrow> (Some (args @ map (\<lambda>x. word_of_int (strtol10 x)) (all_tokens t)), [])
   | Some x \<Rightarrow> (None, [if all_digits x then IntTooLong else RunHelp]))"
proof (induction "length t" arbitrary: t args n rule: less_induct)
  case less
  show ?case
  proof (cases "strtok_r t")
    case (Pair o1 u)
    show ?thesis
    proof (cases o1)
      case None
      then show ?thesis using Pair by (simp add: parse_args.simps [of t] all_tokens.simps [of t])
    next
      case (Some x)
      let ?args = "args @ [word_of_int (strtol10 x)]"
      let ?n = "if n \<le> length ?args then n + n else n"
      have lt: "length u < length t" using strtok_r_length Pair Some by simp
      have room: "length ?args < ?n" using less.prems by auto
      show ?thesis
        using Pair Some less.prems less.hyps [OF lt room]
        by (simp add: parse_args.simps [of t] all_tokens.simps [of t] num_word_def Let_def split: option.splits)
    qed
  qed
qed

text \<open>
  C28: the arguments of \<open>run\<close>, for every rest of a line: the buffer for them is never overrun; when every word is a
  number of at most eight digits the arguments are their values, otherwise the first word that is not decides the
  message and no program is started.
\<close>

theorem parse_args_correct:
  "parse_args t [] 12 = Ok (case find (\<lambda>x. \<not> num_word x) (all_tokens t) of
     None \<Rightarrow> (Some (map (\<lambda>x. word_of_int (strtol10 x)) (all_tokens t)), [])
   | Some x \<Rightarrow> (None, [if all_digits x then IntTooLong else RunHelp]))"
  using parse_args_tokens [of "[]" 12 t] unfolding append_Nil by simp

lemma num_word_show: "n < 10 ^ 8 \<Longrightarrow> num_word (show_nat n) \<and> strtol10 (show_nat n) = int n \<and> word_ok (show_nat n)"
  using show_nat_digits [of n] show_nat_length [of n 7] dec_show_nat [of n] nonblank_digits [of "show_nat n"]
  by (auto simp: num_word_def all_digits_def limit_defs strtol10_def dec_def word_ok_def list_all_iff)

subsection \<open>A run line\<close>

lemma all_tokens_show:
  "spaced_ok args \<Longrightarrow> map fst args = map show_nat ns \<Longrightarrow> list_all (\<lambda>n. n < 10 ^ 8) ns \<Longrightarrow>
   parse_args (one_blank args) [] 12 = Ok (Some (map word_of_nat ns), [])"
proof -
  assume a: "spaced_ok args" "map fst args = map show_nat ns" "list_all (\<lambda>n. n < 10 ^ 8) ns"
  have t: "all_tokens (one_blank args) = map show_nat ns" using all_tokens_spaced [OF a(1)] a(2) by simp
  have "find (\<lambda>x. \<not> num_word x) (map show_nat ns) = None"
    using a(3) num_word_show by (auto simp: find_None_iff list_all_iff)
  moreover have "map (\<lambda>x. word_of_int (strtol10 x)) (map show_nat ns) = (map word_of_nat ns :: c_int list)"
    using a(3) num_word_show by (auto simp: list_all_iff)
  ultimately show ?thesis using parse_args_tokens [of "[]" 12 "one_blank args"] by (simp add: t del: map_map)
qed

context cdlist
begin

lemma attach_result:
  assumes "linv (program_list (rts w ! i))" and "prog \<noteq> NULL"
  shows "\<exists>l' n. runtime_attach_program L i prog w =
      Ok (w\<lparr>rts := (rts w)[i := (rts w ! i)\<lparr>program_cnt := program_cnt (rts w ! i) + 1, program_list := l',
        rt_pc := (if lst (program_list (rts w ! i)) = [] then woken (rt_pc (rts w ! i)) else rt_pc (rts w ! i))\<rparr>]\<rparr>) \<and>
    linv l' \<and> lst l' = lst (program_list (rts w ! i)) @ [(n, prog)]"
  by (rule attach_ok [OF assms]) (auto simp: set_rt_def)

text \<open>A runtime that is asleep has an empty list, so it is always woken.\<close>

lemma attach_wakes:
  assumes "winv linv lst w" and "i < length (rts w)"
  shows "(if lst (program_list (rts w ! i)) = [] then woken (rt_pc (rts w ! i)) else rt_pc (rts w ! i)) = woken (rt_pc (rts w ! i))"
  using rt_invD(1) [OF assms] by (cases "rt_pc (rts w ! i)") (simp_all add: rt_inv_def)

end

lemma run_starts:
  assumes lib: "cdlist L linv lst" and inv: "winv linv lst w" and n: "rts w \<noteq> []" "0 < next_prog w" "sint (id_cnt w) < 2 ^ 31 - 1"
    and line: "list_all blank pre" "spaced_ok ((c, g) # (fname, g') # args)" "c = ''run'' \<or> c = ''r''"
    and readable: "fs fname = Some text" and pa: "parse_args (one_blank args) [] 12 = Ok (Some vs, [])"
  shows "\<exists>i l' n. shell_round V L fs junk jc jp (pre @ spaced ((c, g) # (fname, g') # args) @ CHR 0x0A # r) w =
      Ok (False, r, w\<lparr>progs := (progs w)(next_prog w \<mapsto> program_init V text (id_cnt w) vs junk jc jp),
        next_prog := Suc (next_prog w), id_cnt := id_cnt w + 1,
        rts := (rts w)[i := (rts w ! i)\<lparr>program_cnt := program_cnt (rts w ! i) + 1, program_list := l',
          rt_pc := woken (rt_pc (rts w ! i))\<rparr>],
        console := console w @ replicate (count_list pre (CHR 0x0A)) EmptyInput\<rparr>) \<and>
    first_least (rts w) i \<and> lst l' = lst (program_list (rts w ! i)) @ [(n, next_prog w)]"
proof -
  let ?ws = "(c, g) # (fname, g') # args" and ?i = "min_runtime (rts w)"
  obtain t where t: "read_line (pre @ spaced ?ws @ CHR 0x0A # r) = Ok (Some t, replicate (count_list pre (CHR 0x0A)) EmptyInput, r)"
    "t = one_blank ?ws" using line_words_read [OF line(1,2), of r] by blast
  have w: "word_ok c" "word_ok fname" "spaced_ok args" "g \<noteq> []" using line(2) by simp_all
  have st: "strtok_r t = (Some c, one_blank ((fname, g') # args))"
    using strtok_word(1) [OF w(1)] w(4) by (simp add: t(2) one_blank_def)
  have st2: "strtok_r (one_blank ((fname, g') # args)) = (Some fname, one_blank args)"
    using strtok_word [OF w(2)] line(2) by (cases "g' = []") (auto simp: one_blank_def)
  have least: "first_least (rts w) ?i" by (rule min_runtime_first [OF n(1)])
  then have i: "?i < length (rts w)" by (simp add: first_least_def)
  have li: "linv (program_list (rts w ! ?i))" using cdlist.rt_invD(2) [OF lib inv i] .
  have c1: "c_add (id_cnt w) 1 = Ok (id_cnt w + 1)"
    using n(3) sint_ge [of "id_cnt w"] by (simp add: c_add_def chk_def in_int_def)
  let ?w1 = "w\<lparr>console := console w @ replicate (count_list pre (CHR 0x0A)) EmptyInput,
    progs := (progs w)(next_prog w \<mapsto> program_init V text (id_cnt w) vs junk jc jp),
    next_prog := Suc (next_prog w), id_cnt := id_cnt w + 1\<rparr>"
  have e: "rts ?w1 = rts w" by simp
  obtain l' k where at: "runtime_attach_program L ?i (next_prog w) ?w1 =
      Ok (?w1\<lparr>rts := (rts w)[?i := (rts w ! ?i)\<lparr>program_cnt := program_cnt (rts w ! ?i) + 1, program_list := l',
        rt_pc := woken (rt_pc (rts w ! ?i))\<rparr>]\<rparr>)"
    "lst l' = lst (program_list (rts w ! ?i)) @ [(k, next_prog w)]"
    using cdlist.attach_result [OF lib, of ?w1 ?i "next_prog w", unfolded e cdlist.attach_wakes [OF lib inv i]] li n(2) by auto
  have "run_command V L fs junk jc jp (one_blank ((fname, g') # args)) (w\<lparr>console := console w @ replicate (count_list pre (CHR 0x0A)) EmptyInput\<rparr>) =
      runtime_attach_program L ?i (next_prog w) ?w1"
    using st2 readable pa c1 by (simp add: run_command_def new_program_def Let_def)
  then have "shell_round V L fs junk jc jp (pre @ spaced ?ws @ CHR 0x0A # r) w =
      Ok (False, r, ?w1\<lparr>rts := (rts w)[?i := (rts w ! ?i)\<lparr>program_cnt := program_cnt (rts w ! ?i) + 1, program_list := l',
        rt_pc := woken (rt_pc (rts w ! ?i))\<rparr>]\<rparr>)"
    using t(1) st line(3) at(1) by (auto simp: shell_round_def command_def)
  then show ?thesis using at(2) least by (intro exI [of _ ?i] exI [of _ l'] exI [of _ k]) simp
qed

text \<open>
  C14: a line \<open>run file n1 ... nk\<close>, with any blanks between the words, starts the program: the round of
  the shell reads the file, gives the program the next id and the arguments as they were typed, and appends it
  to the list of the first runtime with the fewest programs, whose thread is woken if it is asleep; nothing else changes.
\<close>

theorem run_starts_program:
  assumes lib: "cdlist L linv lst" and inv: "winv linv lst w" and n: "rts w \<noteq> []" "0 < next_prog w" "sint (id_cnt w) < 2 ^ 31 - 1"
    and line: "list_all blank pre" "spaced_ok ((c, g) # (fname, g') # args)" "c = ''run'' \<or> c = ''r''"
    and readable: "fs fname = Some text" and args: "map fst args = map show_nat ns" "list_all (\<lambda>n. n < 10 ^ 8) ns"
  shows "\<exists>i l' n. shell_round V L fs junk jc jp (pre @ spaced ((c, g) # (fname, g') # args) @ CHR 0x0A # r) w =
      Ok (False, r, w\<lparr>progs := (progs w)(next_prog w \<mapsto> program_init V text (id_cnt w) (map word_of_nat ns) junk jc jp),
        next_prog := Suc (next_prog w), id_cnt := id_cnt w + 1,
        rts := (rts w)[i := (rts w ! i)\<lparr>program_cnt := program_cnt (rts w ! i) + 1, program_list := l',
          rt_pc := woken (rt_pc (rts w ! i))\<rparr>],
        console := console w @ replicate (count_list pre (CHR 0x0A)) EmptyInput\<rparr>) \<and>
    first_least (rts w) i \<and> lst l' = lst (program_list (rts w ! i)) @ [(n, next_prog w)]"
proof -
  have s: "spaced_ok args" using line(2) by simp
  show ?thesis by (rule run_starts [where fs = fs, OF lib inv n line readable all_tokens_show [OF s args]])
qed

theorem run_starts_witness:
  "\<exists>i l' n. shell_round list_voids list_cdll [''a'' \<mapsto> ''#PROGRAM''] (\<lambda>_. NUL) (0, 0, 0) (0, 0)
      ([] @ spaced [(''run'', [CHR 0x20]), (''a'', [CHR 0x20]), (''7'', [])] @ CHR 0x0A # ''list'') demo_start =
      Ok (False, ''list'', demo_start\<lparr>progs := (progs demo_start)(next_prog demo_start \<mapsto>
          program_init list_voids ''#PROGRAM'' (id_cnt demo_start) (map word_of_nat [7]) (\<lambda>_. NUL) (0, 0, 0) (0, 0)),
        next_prog := Suc (next_prog demo_start), id_cnt := id_cnt demo_start + 1,
        rts := (rts demo_start)[i := (rts demo_start ! i)\<lparr>program_cnt := program_cnt (rts demo_start ! i) + 1, program_list := l',
          rt_pc := woken (rt_pc (rts demo_start ! i))\<rparr>],
        console := console demo_start @ replicate (count_list [] (CHR 0x0A)) EmptyInput\<rparr>) \<and>
    first_least (rts demo_start) i \<and>
    snd l' = snd (program_list (rts demo_start ! i)) @ [(n, next_prog demo_start)]"
proof (rule run_starts_program [OF ll.cdlist_axioms])
  show "winv l_linv snd demo_start"
    using cdlist.reachable_inv [OF ll.cdlist_axioms reachable.start [of list_voids list_cdll 2 demo_shared]] by (simp add: demo_start_def)
  show "map fst [(''7'', [])] = map show_nat [7]" by (simp add: show_nat.simps digit_def char_of_def bit_Suc_0_iff)
qed (simp_all add: demo_start_def start_world_def word_ok_def isspace_def isblank_def)

subsection \<open>list\<close>

text \<open>In a quiet world the runtimes point at programs or at nothing, and \<open>list\<close> only prints.\<close>

lemma list_one_prints:
  assumes cd: "cdlist L linv lst" and inv: "winv linv lst w" and q: "quiet_world L w" and i: "i < length (rts w)"
    and av: "\<forall>a p. progs w a = Some p \<longrightarrow> argv p \<noteq> []"
  shows "\<exists>e. list_one L i w = Ok e"
proof (cases "curr (rts w ! i) = NULL")
  case False
  let ?rt = "rts w ! i"
  note rt = cdlist.rt_invD [OF cd inv i]
  have "lst (program_list ?rt) \<noteq> []" if "rt_pc ?rt = RtCheck"
    using q i that cdlist.head_NULL [OF cd rt(2)] by (auto simp: quiet_world_def)
  then have "curr ?rt \<in> fst ` set (lst (program_list ?rt))"
    using rt(1) False by (cases "rt_pc ?rt") (force simp: rt_inv_def)+
  then obtain a where a: "(curr ?rt, a) \<in> set (lst (program_list ?rt))" by auto
  obtain p where p: "progs w a = Some p" by (rule cdlist.node_prog [OF cd inv i a])
  have "argv_at 0 (load_prog p (shm w)) = Ok (hd (argv p))"
    using av p by (simp add: argv_at_def load_prog_def program_s.defs hd_conv_nth)
  then show ?thesis using cdlist.data [OF cd rt(2) a] p False by (simp add: list_one_def Let_def)
qed (simp add: list_one_def)

lemma list_prints:
  assumes cd: "cdlist L linv lst" and inv: "winv linv lst w" and q: "quiet_world L w" and av: "\<forall>a p. progs w a = Some p \<longrightarrow> argv p \<noteq> []"
  shows "list_all (\<lambda>i. i < length (rts w)) is \<Longrightarrow> \<exists>es. length es = length is \<and> list_loop L is w = Ok (w\<lparr>console := console w @ es\<rparr>)"
proof -
  have one: "list_one L i (w\<lparr>console := c\<rparr>) = list_one L i w" for i c by (simp add: list_one_def Let_def split: option.splits)
  have "list_all (\<lambda>i. i < length (rts w)) is \<Longrightarrow> \<exists>es. length es = length is \<and> list_loop L is (w\<lparr>console := c\<rparr>) = Ok (w\<lparr>console := c @ es\<rparr>)" for c
  proof (induction "is" arbitrary: c)
    case (Cons i "is")
    obtain e where e: "list_one L i w = Ok e" using list_one_prints [OF cd inv q _ av] Cons.prems by auto
    obtain es where "length es = length is" "list_loop L is (w\<lparr>console := c @ [e]\<rparr>) = Ok (w\<lparr>console := (c @ [e]) @ es\<rparr>)"
      using Cons.IH [of "c @ [e]"] Cons.prems by auto
    then show ?case using e one by (intro exI [of _ "e # es"]) (simp add: say_def)
  qed simp
  from this [of "console w"] show "list_all (\<lambda>i. i < length (rts w)) is \<Longrightarrow> \<exists>es. length es = length is \<and> list_loop L is w = Ok (w\<lparr>console := console w @ es\<rparr>)"
    by simp
qed

subsection \<open>kill\<close>

lemma find_SomeD: "find P xs = Some a \<Longrightarrow> a \<in> set xs \<and> P a"
  by (auto simp: find_Some_iff)

lemma find_unique: "a \<in> set xs \<Longrightarrow> P a \<Longrightarrow> (\<And>b. b \<in> set xs \<Longrightarrow> P b \<Longrightarrow> b = a) \<Longrightarrow> find P xs = Some a"
proof (cases "find P xs")
  case None
  moreover assume "a \<in> set xs" "P a"
  ultimately show ?thesis unfolding find_None_iff by blast
next
  case (Some b)
  assume "\<And>b. b \<in> set xs \<Longrightarrow> P b \<Longrightarrow> b = a"
  from this [of b] show ?thesis using find_SomeD [OF Some] Some by simp
qed

definition prog_id :: "('h, 'r, 'l) world \<Rightarrow> addr \<Rightarrow> c_int" where
  "prog_id w a = hd (argv (the (progs w a)))"

context cdlist
begin

lemma find_prog_finds:
  assumes l: "linv l" and ps: "\<forall>a \<in> snd ` set (lst l). \<exists>p. progs w a = Some p \<and> argv p \<noteq> []"
  shows "k < length (lst l) \<Longrightarrow> find_prog L w l i start (length (lst l) - k) (fst (lst l ! k)) =
    Ok (find (\<lambda>a. prog_id w a = i) (map snd (drop k (lst l))))"
proof (induction "length (lst l) - k" arbitrary: k)
  case (Suc d)
  let ?x = "lst l ! k"
  have x: "(fst ?x, snd ?x) \<in> set (lst l)" using Suc.prems by simp
  have d: "cd_data L l (fst ?x) = Some (snd ?x)" by (rule data [OF l x])
  obtain p where p: "progs w (snd ?x) = Some p" "argv p \<noteq> []" using ps x by force
  have a: "argv_at 0 (load_prog p (shm w)) = Ok (hd (argv p))"
    using p(2) by (simp add: argv_at_def load_prog_def program_s.defs hd_conv_nth)
  have n: "cd_nxt L l (fst ?x) = Some (fst (lst l ! (Suc k mod length (lst l))))" by (rule nxt [OF l Suc.prems])
  have h: "cd_head L l = fst (lst l ! 0)" using head [OF l] Suc.prems by (cases "lst l") auto
  have sd: "length (lst l) - k = Suc d" and dr: "drop k (lst l) = ?x # drop (Suc k) (lst l)"
    using Suc.hyps(2) Suc.prems by (simp_all add: Cons_nth_drop_Suc)
  show ?case
  proof (cases "prog_id w (snd ?x) = i")
    case True
    then show ?thesis using d p(1) a by (simp add: sd dr prog_id_def)
  next
    case False
    show ?thesis
    proof (cases "Suc k = length (lst l)")
      case True
      then show ?thesis using d p(1) a n h False by (simp add: sd dr prog_id_def)
    next
      case less: False
      then have k: "Suc k < length (lst l)" using Suc.prems by simp
      have "map fst (lst l) ! Suc k \<noteq> map fst (lst l) ! 0"
        using nodes [OF l] k by (subst nth_eq_iff_index_eq) auto
      moreover have "0 < length (lst l)" using k by linarith
      ultimately have "fst (lst l ! Suc k) \<noteq> cd_head L l" using h k by (simp add: nth_map)
      moreover have "d = length (lst l) - Suc k" using sd by simp
      ultimately show ?thesis using Suc.hyps(1) [OF _ k] d p(1) a n k False by (simp add: sd dr prog_id_def)
    qed
  qed
qed simp

lemma search_list:
  assumes l: "linv l" and ps: "\<forall>a \<in> snd ` set (lst l). \<exists>p. progs w a = Some p \<and> argv p \<noteq> []"
  shows "(if cd_head L l = NULL then Ok None else find_prog L w l i (cd_head L l) (length (cd_items L l)) (cd_head L l)) =
    Ok (find (\<lambda>a. prog_id w a = i) (map snd (lst l)))"
proof (cases "lst l = []")
  case False
  then have "cd_head L l = fst (lst l ! 0)" "cd_head L l \<noteq> NULL" "0 < length (lst l)"
    using head [OF l] head_NULL [OF l] by (cases "lst l"; simp)+
  then show ?thesis using find_prog_finds [OF l ps, of 0 i "cd_head L l"] items [OF l] by simp
qed (use head_NULL [OF l] in simp)

definition rts_ok :: "'l runtime_s list \<Rightarrow> ('h, 'r, 'l) world \<Rightarrow> bool" where
  "rts_ok rs w \<longleftrightarrow> (\<forall>rt \<in> set rs. linv (program_list rt) \<and>
     (\<forall>a \<in> snd ` set (lst (program_list rt)). \<exists>p. progs w a = Some p \<and> argv p \<noteq> []))"

lemma mark_loop_none:
  "rts_ok rs w \<Longrightarrow> \<forall>rt \<in> set rs. \<forall>a \<in> set (rt_progs lst rt). prog_id w a \<noteq> i \<Longrightarrow> mark_loop L rs i w = Ok (i, w)"
proof (induction rs)
  case (Cons rt rs)
  have "find (\<lambda>a. prog_id w a = i) (map snd (lst (program_list rt))) = None"
    using Cons.prems(2) by (auto simp: find_None_iff rt_progs_def)
  then show ?case using Cons search_list [of "program_list rt" w i] by (simp add: rts_ok_def Let_def)
qed simp

lemma mark_loop_hit:
  assumes "rts_ok (xs @ rt # ys) w" and "\<forall>rt \<in> set xs. \<forall>a \<in> set (rt_progs lst rt). prog_id w a \<noteq> i"
    and "find (\<lambda>a. prog_id w a = i) (rt_progs lst rt) = Some a"
    and "\<And>w1. stop_prog a w = Ok w1 \<Longrightarrow> mark_loop L ys (-1) w1 = Ok (-1, w1)"
  shows "mark_loop L (xs @ rt # ys) i w = bnd (stop_prog a w) (\<lambda>w1. Ok (-1, w1))"
  using assms(1,2)
proof (induction xs)
  case Nil
  then have "mark_loop L ([] @ rt # ys) i w = bnd (stop_prog a w) (mark_loop L ys (-1))"
    using search_list [of "program_list rt" w i] assms(3) by (simp add: rts_ok_def rt_progs_def Let_def)
  then show ?case using assms(4) by (cases "stop_prog a w") simp_all
next
  case (Cons r xs)
  have "find (\<lambda>a. prog_id w a = i) (map snd (lst (program_list r))) = None"
    using Cons.prems(2) by (auto simp: find_None_iff rt_progs_def)
  then show ?case using Cons search_list [of "program_list r" w i] by (simp add: rts_ok_def Let_def)
qed

lemma rts_okI:
  assumes "winv linv lst w" and "\<And>a p. progs w a = Some p \<Longrightarrow> argv p \<noteq> []" and "set rs \<subseteq> set (rts w)"
    and "dom (progs w') = dom (progs w)" and "\<And>a p. progs w' a = Some p \<Longrightarrow> argv p = argv (the (progs w a))"
  shows "rts_ok rs w'"
  unfolding rts_ok_def
proof (intro ballI conjI)
  fix rt assume rt: "rt \<in> set rs"
  then show "linv (program_list rt)" using assms(1,3) by (auto simp: winv_def rt_inv_def)
  fix a assume "a \<in> snd ` set (lst (program_list rt))"
  then have "a \<in> set (rt_progs lst rt)" by (auto simp: rt_progs_def)
  moreover have "rt \<in> set (rts w)" using rt assms(3) by blast
  ultimately have "a \<in> set (concat (map (rt_progs lst) (rts w)))" by auto
  then have "a \<in> dom (progs w)" using assms(1) unfolding winv_def by blast
  then obtain p p' where "progs w a = Some p" "progs w' a = Some p'" using assms(4) by blast
  then show "\<exists>p. progs w' a = Some p \<and> argv p \<noteq> []" using assms(2,5) by fastforce
qed

end

lemma set_count_heap: "set_count var idx v s = Ok s' \<Longrightarrow> \<exists>h. s' = s\<lparr>heap := h\<rparr>"
  by (auto simp: set_count_def store_def bnd_eq_Ok)

lemma stop_prog_eq:
  assumes "progs w a = Some p"
  shows "stop_prog a w = bnd (if pstate p = BLOCKED then set_count (sem p) (blocked_idx p) 1 (load_prog p (shm w)) else Ok (load_prog p (shm w)))
    (\<lambda>s. Ok (w\<lparr>progs := (progs w)(a \<mapsto> p\<lparr>pstate := FINISHED, error_flag := True\<rparr>), shm := shared_of s\<rparr>))"
proof -
  have 1: "prog_of (program_stop True ((load_prog p m)\<lparr>heap := h\<rparr>)) = p\<lparr>pstate := FINISHED, error_flag := True\<rparr>" for m h
    by (simp add: program_stop_def prog_of_def load_prog_def program_s.defs)
  have 2: "shared_of (program_stop True s) = shared_of s" for s :: "('a, 'b) st"
    by (simp add: program_stop_def shared_of_def)
  have 3: "sem (load_prog p m) = sem p" "blocked_idx (load_prog p m) = blocked_idx p" "load_prog p m = (load_prog p m)\<lparr>heap := sh_heap m\<rparr>" for m
    by (simp_all add: load_prog_def program_s.defs)
  show ?thesis
  proof (cases "pstate p = BLOCKED")
    case True
    show ?thesis
    proof (cases "set_count (sem p) (blocked_idx p) 1 (load_prog p (shm w))")
      case (Ok s)
      then obtain h where "s = (load_prog p (shm w))\<lparr>heap := h\<rparr>" using set_count_heap by blast
      then show ?thesis using Ok True assms by (simp add: stop_prog_def Let_def 1 2 3(1,2))
    qed (use True assms in \<open>simp_all add: stop_prog_def Let_def 3(1,2)\<close>)
  next
    case False
    then show ?thesis using assms 1 [where m = "shm w" and h = "sh_heap (shm w)"] 3(3) [of "shm w"] by (simp add: stop_prog_def Let_def 2)
  qed
qed

text \<open>
  A program is found by its id, in whatever list it is, and stopped; the search of the lists behind it is for the number -1, which
  no program has.
\<close>

lemma mark_finds:
  assumes lib: "cdlist L linv lst" and inv: "winv linv lst w"
    and ids: "\<And>a p. progs w a = Some p \<Longrightarrow> argv p \<noteq> [] \<and> hd (argv p) \<noteq> -1"
    and uniq: "\<And>a b p q. progs w a = Some p \<Longrightarrow> progs w b = Some q \<Longrightarrow> hd (argv p) = hd (argv q) \<Longrightarrow> a = b"
    and i: "i \<noteq> -1"
  shows "case find (\<lambda>a. hd (argv (the (progs w a))) = i) (concat (map (rt_progs lst) (rts w))) of
      None \<Rightarrow> mark_program_as_finished L i w = Ok (say (NoSuchId (sint i)) w)
    | Some a \<Rightarrow> \<exists>p. progs w a = Some p \<and> hd (argv p) = i \<and> mark_program_as_finished L i w =
        bnd (if pstate p = BLOCKED then set_count (sem p) (blocked_idx p) 1 (load_prog p (shm w)) else Ok (load_prog p (shm w)))
          (\<lambda>s. Ok (w\<lparr>progs := (progs w)(a \<mapsto> p\<lparr>pstate := FINISHED, error_flag := True\<rparr>), shm := shared_of s\<rparr>))"
proof -
  let ?all = "concat (map (rt_progs lst) (rts w))"
  have all: "set ?all = dom (progs w)" "distinct ?all" using inv unfolding winv_def by blast+
  have ok: "cdlist.rts_ok linv lst (rts w) w" 
    by (rule cdlist.rts_okI [OF lib inv]) (simp_all add: ids)
  show ?thesis
  proof (cases "find (\<lambda>a. hd (argv (the (progs w a))) = i) ?all")
    case None
    then have "\<forall>rt \<in> set (rts w). \<forall>a \<in> set (rt_progs lst rt). prog_id w a \<noteq> i"
      unfolding find_None_iff prog_id_def by auto
    from cdlist.mark_loop_none [OF lib ok this] show ?thesis using None i by (simp add: mark_program_as_finished_def say_def)
  next
    case (Some a)
    from find_SomeD [OF this] have a: "a \<in> set ?all" "prog_id w a = i" unfolding prog_id_def by blast+
    obtain p where p: "progs w a = Some p" using a(1) all(1) by blast
    have only: "b \<in> set ?all \<Longrightarrow> prog_id w b = i \<Longrightarrow> b = a" for b
    proof -
      assume b: "b \<in> set ?all" "prog_id w b = i"
      then obtain q where q: "progs w b = Some q" using all(1) by blast
      show "b = a" by (rule uniq [OF q p]) (use b(2) a(2) p q in \<open>simp add: prog_id_def\<close>)
    qed
    obtain rt where "rt \<in> set (rts w)" "a \<in> set (rt_progs lst rt)" using a(1) by auto
    then obtain xs ys where xy: "rts w = xs @ rt # ys" by (meson split_list)
    have art: "a \<in> set (rt_progs lst rt)" by fact
    have "find (\<lambda>a. prog_id w a = i) (rt_progs lst rt) = Some a"
    proof (rule find_unique [where P = "\<lambda>a. prog_id w a = i", OF art a(2)])
      fix b assume "b \<in> set (rt_progs lst rt)" "prog_id w b = i"
      then show "b = a" by (intro only) (auto simp: xy)
    qed
    moreover have "\<forall>rt \<in> set xs. \<forall>a \<in> set (rt_progs lst rt). prog_id w a \<noteq> i"
    proof (intro ballI notI)
      fix r b assume r: "r \<in> set xs" "b \<in> set (rt_progs lst r)" "prog_id w b = i"
      then have "b = a" by (intro only) (auto simp: xy)
      then show False using r(1,2) art all(2) by (auto simp: xy)
    qed
    moreover have "mark_loop L ys (-1) w1 = Ok (-1, w1)" if w1: "stop_prog a w = Ok w1" for w1
    proof -
      obtain m where m: "progs w1 = (progs w)(a \<mapsto> p\<lparr>pstate := FINISHED, error_flag := True\<rparr>)"
        using w1 stop_prog_eq [of w a p] p by (auto simp: bnd_eq_Ok)
      have "cdlist.rts_ok linv lst ys w1"
        by (rule cdlist.rts_okI [OF lib inv]) (use ids p xy in \<open>auto simp: m split: if_splits\<close>)
      moreover have "\<forall>rt \<in> set ys. \<forall>a \<in> set (rt_progs lst rt). prog_id w1 a \<noteq> -1"
      proof (intro ballI)
        fix r b assume "r \<in> set ys" "b \<in> set (rt_progs lst r)"
        then have "b \<in> dom (progs w)" using xy all(1) by auto
        then show "prog_id w1 b \<noteq> -1" using ids p by (auto simp: prog_id_def m)
      qed
      ultimately show ?thesis by (rule cdlist.mark_loop_none [OF lib])
    qed
    ultimately have "mark_loop L (rts w) i w = bnd (stop_prog a w) (\<lambda>w1. Ok (-1, w1))"
      using cdlist.mark_loop_hit [OF lib, of xs rt ys w i a] ok unfolding xy by blast
    then have "mark_program_as_finished L i w = stop_prog a w"
      by (cases "stop_prog a w") (simp_all add: mark_program_as_finished_def)
    then show ?thesis using Some p stop_prog_eq [OF p] a(2) by (simp add: prog_id_def)
  qed
qed

text \<open>
  C16: \<open>kill\<close> stops the program with the number and no other.  When ids are unique and none is -1, the program whose
  first argument is the number becomes a finished program with an error, and nothing else changes but, when it waits on a
  semaphore, the element it waits on, which is set to 1 whatever it was; when no program has the number, a message is the only effect.
\<close>

theorem kill_correct:
  assumes lib: "cdlist L linv lst" and inv: "winv linv lst w"
    and ids: "\<And>a p. progs w a = Some p \<Longrightarrow> argv p \<noteq> [] \<and> hd (argv p) \<noteq> -1"
    and uniq: "\<And>a b p q. progs w a = Some p \<Longrightarrow> progs w b = Some q \<Longrightarrow> hd (argv p) = hd (argv q) \<Longrightarrow> a = b"
    and i: "i \<noteq> -1"
  shows "case find (\<lambda>a. hd (argv (the (progs w a))) = i) (concat (map (rt_progs lst) (rts w))) of
      None \<Rightarrow> mark_program_as_finished L i w = Ok (say (NoSuchId (sint i)) w)
    | Some a \<Rightarrow> \<exists>p. progs w a = Some p \<and> hd (argv p) = i \<and> mark_program_as_finished L i w =
        bnd (if pstate p = BLOCKED then set_count (sem p) (blocked_idx p) 1 (load_prog p (shm w)) else Ok (load_prog p (shm w)))
          (\<lambda>s. Ok (w\<lparr>progs := (progs w)(a \<mapsto> p\<lparr>pstate := FINISHED, error_flag := True\<rparr>), shm := shared_of s\<rparr>))"
  by (rule mark_finds [OF assms])

theorem kill_witness:
  "case find (\<lambda>a. hd (argv (the (progs demo_world a))) = 1) (concat (map (rt_progs snd) (rts demo_world))) of
      None \<Rightarrow> mark_program_as_finished list_cdll 1 demo_world = Ok (say (NoSuchId (sint (1 :: c_int))) demo_world)
    | Some a \<Rightarrow> \<exists>p. progs demo_world a = Some p \<and> hd (argv p) = 1 \<and> mark_program_as_finished list_cdll 1 demo_world =
        bnd (if pstate p = BLOCKED then set_count (sem p) (blocked_idx p) 1 (load_prog p (shm demo_world)) else Ok (load_prog p (shm demo_world)))
          (\<lambda>s. Ok (demo_world\<lparr>progs := (progs demo_world)(a \<mapsto> p\<lparr>pstate := FINISHED, error_flag := True\<rparr>), shm := shared_of s\<rparr>))"
proof (rule kill_correct [OF ll.cdlist_axioms])
  show "winv l_linv snd demo_world"
    using cdlist.reachable_inv [OF ll.cdlist_axioms demo_reachable] by simp
qed (auto simp: demo_world_def program_init_def split: if_splits)

end
