(* ===== verification/StopProps.thy ===== *)
theory StopProps imports RtProps begin

section \<open>Stopping a runtime (runtime.c)\<close>

text \<open>
  \<open>runtime_stop\<close> clears \<open>running\<close> and joins the thread.  The thread ends within a few of its steps, and it
  executes no further line.
\<close>

fun ticks :: "('h, 'p, 'r) voids \<Rightarrow> 'l cdll \<Rightarrow> (64 word \<times> (nat \<Rightarrow> timespec \<times> timespec) \<times> nat) list \<Rightarrow> nat \<Rightarrow>
    ('h, 'r, 'l) world \<Rightarrow> ('h, 'r, 'l) world res" where
  "ticks V L [] i w = Ok w"
| "ticks V L ((rnd, clk, fuel) # env) i w = bnd (rt_tick V L rnd clk fuel i w) (ticks V L env i)"

text \<open>How many steps are left, when the thread is not about to decide about a program; one that is asleep makes none.\<close>

fun steps_left :: "rt_pc \<Rightarrow> nat" where
  "steps_left RtDone = 0"
| "steps_left RtTop = 1"
| "steps_left RtLoop = 2"
| "steps_left RtWait = 3"
| "steps_left RtCheck = 3"
| "steps_left (RtDecide a) = 4"
| "steps_left RtAsleep = 5"

lemma stopped_tick:
  assumes "i < length (rts w)" and "\<not> running (rts w ! i)" and "steps_left (rt_pc (rts w ! i)) \<le> 3"
  shows "\<exists>w'. rt_tick V L rnd clk fuel i w = Ok w' \<and> i < length (rts w') \<and> \<not> running (rts w' ! i) \<and>
    steps_left (rt_pc (rts w' ! i)) \<le> steps_left (rt_pc (rts w ! i)) - 1 \<and> progs w' = progs w \<and> shm w' = shm w \<and> console w' = console w \<and>
    program_list (rts w' ! i) = program_list (rts w ! i)"
  using assms by (cases "rt_pc (rts w ! i)") (simp_all add: rt_tick_def Let_def)

lemma stopped_ticks:
  assumes "i < length (rts w)" and "\<not> running (rts w ! i)" and "steps_left (rt_pc (rts w ! i)) \<le> 3"
    and "steps_left (rt_pc (rts w ! i)) \<le> length env"
  shows "\<exists>w'. ticks V L env i w = Ok w' \<and> rt_pc (rts w' ! i) = RtDone \<and> progs w' = progs w \<and> shm w' = shm w \<and>
    console w' = console w \<and> program_list (rts w' ! i) = program_list (rts w ! i)"
  using assms
proof (induction env arbitrary: w)
  case Nil
  then show ?case by (cases "rt_pc (rts w ! i)") auto
next
  case (Cons e env)
  obtain rnd clk fuel where e: "e = (rnd, clk, fuel)" by (cases e)
  obtain w1 where w1: "rt_tick V L rnd clk fuel i w = Ok w1" "i < length (rts w1)" "\<not> running (rts w1 ! i)"
    "steps_left (rt_pc (rts w1 ! i)) \<le> steps_left (rt_pc (rts w ! i)) - 1" "progs w1 = progs w" "shm w1 = shm w"
    "console w1 = console w" "program_list (rts w1 ! i) = program_list (rts w ! i)"
    using stopped_tick [OF Cons.prems(1-3), of V L rnd clk fuel] by blast
  have "steps_left (rt_pc (rts w1 ! i)) \<le> 3" "steps_left (rt_pc (rts w1 ! i)) \<le> length env"
    using w1(4) Cons.prems(3,4) by simp_all
  from Cons.IH [OF w1(2,3) this] show ?case using w1 by (auto simp: e)
qed

text \<open>The step in progress when \<open>running\<close> is cleared: afterwards no program is visited.\<close>

lemma first_tick:
  assumes cd: "cdlist L linv lst" and inv: "winv linv lst w" and i: "i < length (rts w)"
    and ok: "rt_tick V L rnd clk fuel i (runtime_stop_begin L i w) = Ok w0"
  shows "i < length (rts w0) \<and> \<not> running (rts w0 ! i) \<and> steps_left (rt_pc (rts w0 ! i)) \<le> 3"
proof -
  let ?w = "runtime_stop_begin L i w"
  have b: "i < length (rts ?w)" "\<not> running (rts ?w ! i)" "rt_pc (rts ?w ! i) \<noteq> RtAsleep"
    using cdlist.stop_begin_inv [OF cd inv i] i by simp_all
  then show ?thesis
  proof (cases "rt_pc (rts ?w ! i)")
    case (RtDecide a)
    then show ?thesis using b ok by (auto simp: rt_tick_def rt_decide_def Let_def bnd_eq_Ok split: option.splits if_splits)
  qed (use b ok in \<open>auto simp: rt_tick_def Let_def split: if_splits\<close>)
qed

text \<open>
  C30: the join of \<open>runtime_stop\<close> returns.  From a state that satisfies the invariant of C12, \<open>runtime_stop\<close> clears \<open>running\<close> and signals
  the thread, which may be asleep on the condition of an empty list.  The thread then makes one step that may
  finish what it was doing with a program, and after that, whatever the clock and the random numbers are, it is at its end after
  three more steps at most, none of which fails, runs a line, frees a program or prints anything.
\<close>

theorem runtime_stop_joins:
  assumes "cdlist L linv lst" and "winv linv lst w" and "i < length (rts w)"
    and "rt_tick V L rnd clk fuel i (runtime_stop_begin L i w) = Ok w0" and "3 \<le> length env"
  shows "\<exists>w1. ticks V L env i w0 = Ok w1 \<and> rt_pc (rts w1 ! i) = RtDone \<and> progs w1 = progs w0 \<and> shm w1 = shm w0 \<and>
    console w1 = console w0 \<and> program_list (rts w1 ! i) = program_list (rts w0 ! i)"
proof -
  have w0: "i < length (rts w0)" "\<not> running (rts w0 ! i)" "steps_left (rt_pc (rts w0 ! i)) \<le> 3"
    using first_tick [OF assms(1-4)] by simp_all
  then have "steps_left (rt_pc (rts w0 ! i)) \<le> length env" using assms(5) by simp
  from stopped_ticks [OF w0 this] show ?thesis .
qed

text \<open>Two runtimes, one with a program; the other is asleep and is told to stop.\<close>

definition sleep_world :: "(lhash, lring, llist) world" where
  "sleep_world = demo_world\<lparr>rts := [demo_rt, (runtime_init list_cdll)\<lparr>rt_pc := RtAsleep\<rparr>]\<rparr>"

theorem runtime_stop_witness:
  "\<exists>w0 w1. rt_tick list_voids list_cdll 0 (\<lambda>_. undefined) 0 1 (runtime_stop_begin list_cdll 1 sleep_world) = Ok w0 \<and>
    ticks list_voids list_cdll (replicate 3 (0, \<lambda>_. undefined, 0)) 1 w0 = Ok w1 \<and>
    rt_pc (rts w1 ! 1) = RtDone \<and> progs w1 = progs demo_world \<and> shm w1 = shm demo_world \<and> console w1 = console demo_world \<and>
    program_list (rts w1 ! 1) = (1, [])"
proof -
  let ?w0 = "demo_world\<lparr>rts := [demo_rt, (runtime_init list_cdll)\<lparr>running := False, rt_pc := RtLoop\<rparr>]\<rparr>"
  have t: "rt_tick list_voids list_cdll 0 (\<lambda>_. undefined) 0 1 (runtime_stop_begin list_cdll 1 sleep_world) = Ok ?w0"
    by (simp add: rt_tick_def sleep_world_def runtime_stop_begin_def cond_signal_def runtime_init_def set_rt_def list_cdll_def)
  have inv: "winv l_linv snd sleep_world"
    using cdlist.reachable_inv [OF ll.cdlist_axioms demo_reachable]
    by (simp add: winv_def sleep_world_def demo_world_def rt_inv_def rt_progs_def runtime_init_def list_cdll_def l_linv_def)
  have i: "1 < length (rts sleep_world)" by (simp add: sleep_world_def)
  show ?thesis
    using runtime_stop_joins [OF ll.cdlist_axioms inv i t, of "replicate 3 (0, \<lambda>_. undefined, 0)"] t
    by (simp add: runtime_init_def list_cdll_def)
qed

end
