(* ===== verification/ExecProps.thy ===== *)
theory ExecProps imports LineProps GlobProps begin

section \<open>Properties of the variables and of branches (exec.c)\<close>

text \<open>
  What is set is read back; what the code does with an array that grows and with a negative index; and
  where a branch goes.
\<close>

subsection \<open>A concrete memory\<close>

text \<open>The array \<open>a\<close> with the elements 5 and 7, the variable \<open>i\<close> with -1, the label \<open>L1\<close>, and some tokens.\<close>

definition ext_label :: label_data_s where
  "ext_label = \<lparr>lbl_placeholder = -1, lbl_line = 4, lbl_column = 3, lbl_prev_col = 9, lbl_offset = 17\<rparr>"

definition ext_env :: env where
  "ext_env = [''a'' \<mapsto> VArr [5, 7], ''i'' \<mapsto> VArr [-1], ''L1'' \<mapsto> VLabel ext_label]"

definition ext_heap :: "addr \<Rightarrow> block option" where
  "ext_heap = [1 \<mapsto> StrB ''a'', 2 \<mapsto> enc (VArr [5, 7]), 3 \<mapsto> StrB ''i'', 4 \<mapsto> enc (VArr [-1]), 5 \<mapsto> StrB ''L1'', 6 \<mapsto> enc (VLabel ext_label),
     7 \<mapsto> StrB ''b'', 8 \<mapsto> demo_arr (Value 1) INT_VAL_TOK 7, 9 \<mapsto> demo_tok INT_ARR_TOK (Ptr 8),
     10 \<mapsto> StrB ''b'', 11 \<mapsto> demo_arr (Value 1) INT_VAL_TOK 10, 12 \<mapsto> demo_tok INT_ARR_TOK (Ptr 11),
     13 \<mapsto> StrB ''a'', 14 \<mapsto> demo_arr (Value 3) INT_VAL_TOK 13, 15 \<mapsto> demo_tok INT_ARR_TOK (Ptr 14),
     16 \<mapsto> StrB ''i'', 17 \<mapsto> StrB ''a'', 18 \<mapsto> demo_arr (Ptr 16) INT_VAR_TOK 17, 19 \<mapsto> demo_tok INT_ARR_TOK (Ptr 18),
     20 \<mapsto> demo_tok INT_VAL_TOK (Value 9), 21 \<mapsto> demo_tok INT_VAL_TOK (Value 4),
     22 \<mapsto> StrB ''L1'', 23 \<mapsto> demo_tok LABEL_TOK (Ptr 22), 24 \<mapsto> StrB ''L2'', 25 \<mapsto> demo_tok LABEL_TOK (Ptr 24)]"

definition ext_st :: "addr list \<Rightarrow> (lhash, lring) st" where
  "ext_st ts = demo_st\<lparr>heap := ext_heap, fresh := 26, vartable := [(''L1'', 5, 6), (''i'', 3, 4), (''a'', 1, 2)],
     translated_line := (8, ts), c_in := 10\<rparr>"

lemma ext_fields [simp]:
  "heap (ext_st ts) = ext_heap" "fresh (ext_st ts) = 26" "vartable (ext_st ts) = [(''L1'', 5, 6), (''i'', 3, 4), (''a'', 1, 2)]"
  "argv (ext_st ts) = [0, 0]" "mem_max (ext_st ts) = 1000" "translated_line (ext_st ts) = (8, ts)" "c_in (ext_st ts) = 10"
  "fpos (ext_st ts) = 0" "fbuf (ext_st ts) = []"
  by (simp_all add: ext_st_def demo_st_def boot_def program_init_def program_s.defs)

lemma ext_owned: "owned [''a'' \<mapsto> (Suc 0, 2)] = {1, 2}" "owned [''a'' \<mapsto> (Suc 0, 2), ''i'' \<mapsto> (3, 4)] = {1, 2, 3, 4}"
  "owned [''a'' \<mapsto> (Suc 0, 2), ''i'' \<mapsto> (3, 4), ''L1'' \<mapsto> (5, 6)] = {1, 2, 3, 4, 5, 6}"
  unfolding owned_ran by (simp_all, auto)

lemma ext_cells: "ext_heap 1 = Some (StrB ''a'')" "ext_heap 2 = Some (enc (VArr [5, 7]))" "ext_heap 3 = Some (StrB ''i'')"
  "ext_heap 4 = Some (enc (VArr [-1]))" "ext_heap 5 = Some (StrB ''L1'')" "ext_heap 6 = Some (enc (VLabel ext_label))"
  unfolding ext_heap_def by simp_all

lemma ext_good: "good l_hinv map_of ext_env (ext_st ts)"
proof -
  note [simp del] = enc.simps One_nat_def
  have "vinv ext_heap (Map.empty(''a'' \<mapsto> (1, 2))) (Map.empty(''a'' \<mapsto> VArr [5, 7]))"
    by (rule vinv_insert) (simp_all add: vinv_def data_inj_def owned_def ext_cells)
  then have "vinv ext_heap ([''a'' \<mapsto> (1, 2)](''i'' \<mapsto> (3, 4))) ([''a'' \<mapsto> VArr [5, 7]](''i'' \<mapsto> VArr [-1]))"
    by (rule vinv_insert) (simp_all add: ext_owned [folded One_nat_def] ext_cells)
  then have "vinv ext_heap ([''a'' \<mapsto> (1, 2), ''i'' \<mapsto> (3, 4)](''L1'' \<mapsto> (5, 6))) ([''a'' \<mapsto> VArr [5, 7], ''i'' \<mapsto> VArr [-1]](''L1'' \<mapsto> VLabel ext_label))"
    by (rule vinv_insert) (simp_all add: ext_owned [folded One_nat_def] ext_cells ext_label_def)
  moreover have "heap_ok (ext_st ts)"
    by (simp add: heap_ok_def) (simp add: ext_heap_def)
  ultimately show ?thesis by (simp add: good_def ext_env_def)
qed

lemma ext_tok:
  "tok_rep map_of (ext_st ts) 15 (EArr ''a'' (EVal 3)) [14, 13]"
  "tok_rep map_of (ext_st ts) 19 (EArr ''a'' (EVar ''i'')) [18, 17, 16]"
  by (simp_all add: tok_rep_def ext_owned) (simp_all add: ext_heap_def demo_tok_def demo_arr_def)

subsection \<open>Set and get\<close>

text \<open>The expressions whose index has no variable.\<close>

fun plain :: "expr \<Rightarrow> bool" where
  "plain (EVar x) \<longleftrightarrow> True"
| "plain (EArr x (EVal t)) \<longleftrightarrow> True"
| "plain e \<longleftrightarrow> False"

lemma aset_array:
  assumes "aset av mm A (EArr x (EVal t)) v = Some A'" and "\<And>xs. A x = Some (VArr xs) \<Longrightarrow> xs \<noteq> []"
  obtains ys where "A' = A(x \<mapsto> VArr ys)" "nat (sint t) < length ys" "ys ! nat (sint t) = v" "x \<noteq> ''argv''"
    "0 \<le> sint t" "sint t + 1 < 2147483647"
proof (cases "A x")
  case None
  then show thesis
    using assms(1) that [of "(replicate (nat (sint t) + 1) 0)[nat (sint t) := v]"]
    by (simp add: aset_def split: if_splits del: replicate.simps)
next
  case (Some w)
  show thesis
  proof (cases w)
    case (VArr xs)
    have ne: "xs \<noteq> []" using assms(2) Some VArr by simp
    show thesis
    proof (cases "nat (sint t) < length xs")
      case True
      then show thesis using assms(1) Some VArr that [of "xs[nat (sint t) := v]"] by (simp add: aset_def split: if_splits)
    next
      case False
      then have "length (grow xs (nat (sint t) + 1)) = nat (sint t) + 1" using length_grow [OF ne] by simp
      then show thesis
        using assms(1) Some VArr False that [of "(grow xs (nat (sint t) + 1))[nat (sint t) := v]"] by (simp add: aset_def split: if_splits)
    qed
  qed (use assms(1) Some in \<open>simp add: aset_def split: if_splits\<close>)
qed

lemma aget_aset:
  assumes "plain e" and "aset av mm A e v = Some A'" and "\<And>k xs. A k = Some (VArr xs) \<Longrightarrow> xs \<noteq> []"
  shows "aget av mm A' e = Some (v, A', False)"
proof (cases e)
  case (EVar x)
  then show ?thesis using assms(2) by (auto simp: aset_def split: option.splits var.splits if_splits)
next
  case (EArr x i)
  then obtain t where i: "i = EVal t" using assms(1) by (cases i) auto
  obtain ys where "A' = A(x \<mapsto> VArr ys)" "nat (sint t) < length ys" "ys ! nat (sint t) = v" "x \<noteq> ''argv''"
    "0 \<le> sint t" "sint t + 1 < 2147483647"
    by (rule aset_array [OF assms(2) [unfolded EArr i] assms(3)])
  then show ?thesis by (simp add: EArr i)
qed (use assms(1) in simp)

lemma good_nonempty: "good hinv hmap A s \<Longrightarrow> A k = Some (VArr xs) \<Longrightarrow> xs \<noteq> []"
proof -
  assume g: "good hinv hmap A s" and k: "A k = Some (VArr xs)"
  obtain ka da where "hmap (vartable s) k = Some (ka, da)"
    using vinv_None [OF goodD(3) [OF g], of k] k by (cases "hmap (vartable s) k") auto
  then obtain w where "A k = Some w" "var_ok w" using vinv_Some [OF goodD(3) [OF g]] by metis
  then show ?thesis using k by auto
qed

text \<open>
  What is set is read back.  Setting a variable or an element with a constant index, and reading it with
  another token of the same text, gives the value that was set, and nothing else changes in the environment.
\<close>

theorem set_get:
  assumes lib: "voids_lib V hinv hmap rinv rlist" and g: "good hinv hmap A s" and e: "plain e"
    and toks: "toks_rep (heap s) [(t1, IExpr e, F1), (t2, IExpr e, F2)]"
      "set (blocks [(t1, IExpr e, F1), (t2, IExpr e, F2)]) \<inter> owned (hmap (vartable s)) = {}"
    and set: "aset (argv s) (mem_max s) A e v = Some A'"
  shows "\<exists>s'. bnd (varval_set_value V t1 v s) (\<lambda>(ok, s). varval_get_value V t2 s) = Ok (Some v, s') \<and>
    evolves hinv hmap (insert t1 (set F1) \<union> insert t2 (set F2)) s A' s'"
proof -
  obtain s1 where s1: "varval_set_value V t1 v s = Ok (True, s1)" "evolves hinv hmap (insert t1 (set F1)) s A' s1"
    by (rule voids_lib.set_step [OF lib g toks set])
  have "toks_rep (heap s) [(t2, IExpr e, F2)]" "set (blocks [(t2, IExpr e, F2)]) \<inter> insert t1 (set F1) = {}"
    "set (blocks [(t2, IExpr e, F2)]) \<inter> owned (hmap (vartable s)) = {}"
    using toks by (auto simp: toks_rep_Cons)
  note t2 = toks_evolve [OF goodD(1) [OF g] s1(2) this]
  have "aget (argv s1) (mem_max s1) A' e = Some (v, A', False)"
    using aget_aset [OF e set good_nonempty [OF g]] evolves_fields(1,2) [OF s1(2)] by simp
  from voids_lib.get_value_refines [OF lib evolves_good [OF s1(2)] toks_tok [of s1 t2 e F2 "[]" hmap, OF t2] this]
  obtain s2 where s2: "varval_get_value V t2 s1 = Ok (Some v, s2)" "evolves hinv hmap (insert t2 (set F2)) s1 A' s2" by blast
  then show ?thesis using s1 evolves_trans [OF goodD(1) [OF g] s1(2) s2(2)] by simp
qed

lemma ext_toks:
  "toks_rep ext_heap [(9, IExpr (EArr ''b'' (EVal 1)), [8, 7]), (12, IExpr (EArr ''b'' (EVal 1)), [11, 10])]"
  "toks_rep ext_heap [(20, IExpr (EVal 9), []), (21, IExpr (EVal 4), []), (23, ILab ''L1'', [22])]"
  by (simp_all add: toks_rep_def) (simp_all add: ext_heap_def demo_tok_def demo_arr_def)

theorem set_get_witness:
  "\<exists>s'. bnd (varval_set_value list_voids 9 6 (ext_st [])) (\<lambda>(ok, s). varval_get_value list_voids 12 s) = Ok (Some 6, s') \<and>
    evolves l_hinv map_of (insert 9 (set [8, 7]) \<union> insert 12 (set [11, 10])) (ext_st []) (ext_env(''b'' \<mapsto> VArr [0, 6])) s'"
  by (rule set_get [OF lv.voids_lib_axioms ext_good, where e = "EArr ''b'' (EVal 1)"])
    (simp_all add: ext_toks ext_owned aset_def, simp add: ext_env_def)

text \<open>
  C35: an array that grows loses its last element.  Setting an element behind the end of an array makes it as long as needed
  and sets the element, but the zeros start one cell too early, at the last element of the old array.
\<close>

theorem growing_loses_last:
  assumes lib: "voids_lib V hinv hmap rinv rlist" and g: "good hinv hmap A s"
    and tok: "tok_rep hmap s tk (EArr x (EVal t)) F" and x: "x \<noteq> ''argv''" "A x = Some (VArr xs)"
    and t: "0 \<le> sint t" "length xs \<le> nat (sint t)" "sint t + 1 < 2147483647" "4 * (nat (sint t) + 2) \<le> mem_max s"
  shows "\<exists>s'. varval_set_value V tk v s = Ok (True, s') \<and> evolves hinv hmap (insert tk (set F)) s
    (A(x \<mapsto> VArr (butlast xs @ replicate (nat (sint t) + 1 - length xs) 0 @ [v]))) s'"
proof -
  let ?n = "nat (sint t)"
  have ne: "xs \<noteq> []" by (rule good_nonempty [OF g x(2)])
  then have l: "?n + 1 - (length xs - 1) = Suc (?n + 1 - length xs)" using t(2) by (cases xs) auto
  have "(grow xs (?n + 1))[?n := v] = butlast xs @ replicate (?n + 1 - length xs) 0 @ [v]"
  proof -
    define ys where "ys = butlast xs @ replicate (?n + 1 - length xs) (0 :: c_int)"
    have "grow xs (?n + 1) = ys @ [0]"
      unfolding grow_def l ys_def by (simp add: replicate_append_same)
    moreover have "length ys = ?n" using ne t(2) by (cases xs) (auto simp: ys_def)
    ultimately show ?thesis using list_update_length [of ys 0 "[]" v] by (simp add: ys_def)
  qed
  then have "aset (argv s) (mem_max s) A (EArr x (EVal t)) v =
      Some (A(x \<mapsto> VArr (butlast xs @ replicate (?n + 1 - length xs) 0 @ [v])))"
    using x t by (simp add: aset_def)
  from voids_lib.set_value_refines [OF lib g tok this] show ?thesis .
qed

theorem growing_witness:
  "\<exists>s'. varval_set_value list_voids 15 6 (ext_st []) = Ok (True, s') \<and> evolves l_hinv map_of (insert 15 (set [14, 13])) (ext_st [])
    (ext_env(''a'' \<mapsto> VArr (butlast [5, 7] @ replicate (nat (sint (3 :: c_int)) + 1 - length [5, 7 :: c_int]) 0 @ [6]))) s'"
  by (rule growing_loses_last [OF lv.voids_lib_axioms ext_good ext_tok(1)]) (simp_all add: ext_env_def)

lemma die_heap: "heap (die m s) = heap s" "fresh (die m s) = fresh s"
  by (simp_all add: die_def err_msg_def program_stop_def split: prod.splits)

lemma free_twice:
  assumes "heap s tk = Some (TokB t)" "tok_type t = INT_ARR_TOK" "tok_data t = Ptr a" "tk \<noteq> NULL" "a \<noteq> NULL"
    and "heap s a = Some (ArrTokB \<lparr>at_idx = Ptr b, at_idx_type = Some INT_VAR_TOK, at_name = n\<rparr>)" "b \<noteq> NULL" "heap s b = None"
  shows "free_token tk s = Undef DoubleFree"
  using assms by (simp add: free_token_def free_int_arr_tok_def read_tok_def read_arrtok_def deref_def dealloc_def)

text \<open>The index of such an expression: its name is freed by its evaluation.\<close>

context voids_lib
begin

lemma scalar_read:
  assumes g: "good hinv hmap A s" and b: "b \<noteq> NULL" "heap s b = Some (StrB i)" and i: "i \<noteq> ''argc''" "A i = Some (VArr [k])"
  shows "varval_get (Suc m) V INT_VAR_TOK (Ptr b) s = Ok (Some k, s\<lparr>heap := (heap s)(b := None)\<rparr>)"
proof -
  obtain ka da where m: "hmap (vartable s) i = Some (ka, da)"
    using vinv_None [OF goodD(3) [OF g], of i] i(2) by (cases "hmap (vartable s) i") auto
  obtain w where w: "A i = Some w" "da \<noteq> NULL" "heap s da = Some (enc w)" by (rule vinv_Some [OF goodD(3) [OF g] m])
  obtain p where "find_var V i s = Ok (Some p)" "pair_data V p s = Ok da"
    by (rule find_var_Some [OF goodD(2) [OF g] m])
  then show ?thesis using b i w by (simp add: varval_get.simps mem_simps read_head_def cell_def dealloc_def deref_def)
qed

lemma array_head:
  assumes g: "good hinv hmap A s" and x: "\<forall>l. A x \<noteq> Some (VLabel l)"
  obtains "find_var V x s = Ok None" | p da h where "find_var V x s = Ok (Some p)" "pair_data V p s = Ok da" "read_head da s = Ok h" "h \<noteq> -1"
proof (cases "hmap (vartable s) x")
  case None
  then show thesis using find_var_None [OF goodD(2) [OF g]] that(1) by blast
next
  case (Some kd)
  then obtain ka da where m: "hmap (vartable s) x = Some (ka, da)" by (cases kd) auto
  obtain w where w: "A x = Some w" "da \<noteq> NULL" "heap s da = Some (enc w)" "var_ok w" by (rule vinv_Some [OF goodD(3) [OF g] m])
  then obtain ys where ys: "w = VArr ys" "length ys < 2147483647" using x by (cases w) auto
  have "read_head da s = Ok (word_of_nat (length ys))"
    using w ys(1) by (simp add: read_head_def cell_def deref_def)
  moreover have "(word_of_nat (length ys) :: c_int) \<noteq> -1" using of_nat_ne_minus_one ys(2) by simp
  moreover obtain p where "find_var V x s = Ok (Some p)" "pair_data V p s = Ok da" by (rule find_var_Some [OF goodD(2) [OF g] m])
  ultimately show thesis using that(2) by blast
qed

lemma negative_index:
  assumes g: "good hinv hmap A s" and tok: "tok_rep hmap s tk (EArr x (EVar i)) F"
    and i: "i \<noteq> ''argc''" "A i = Some (VArr [k])" "sint k < 0" and x: "x \<noteq> ''argv''" "\<forall>l. A x \<noteq> Some (VLabel l)"
  shows "varval_get_value V tk s = Undef DoubleFree \<and> varval_set_value V tk v s = Undef DoubleFree"
proof -
  obtain t where t: "heap s tk = Some (TokB t)" "rep (heap s) (tok_type t) (tok_data t) (EArr x (EVar i)) F" "distinct (tk # F)"
    using tok by (auto simp: tok_rep_def)
  obtain a n b where r: "tok_type t = INT_ARR_TOK" "tok_data t = Ptr a" "a \<noteq> NULL" "n \<noteq> NULL" "b \<noteq> NULL" "F = [a, n, b]"
    "heap s a = Some (ArrTokB \<lparr>at_idx = Ptr b, at_idx_type = Some INT_VAR_TOK, at_name = n\<rparr>)" "heap s n = Some (StrB x)"
    "heap s b = Some (StrB i)" using t(2) by auto
  have tk: "tk \<noteq> NULL" "0 < fresh s" using heap_ok_live [OF goodD(1) [OF g] t(1)] by auto
  let ?s = "set_parser_idx t s" and ?s1 = "\<lambda>s. s\<lparr>heap := (heap s)(b := None)\<rparr>"
  have g': "good hinv hmap A ?s" by (rule good_cong [THEN iffD2, OF _ _ _ g]) simp_all
  have index: "varval_get (Suc m) V INT_VAR_TOK (Ptr b) ?s = Ok (Some k, ?s1 ?s)" for m
    by (rule scalar_read [OF g' _ _ i(1,2)]) (simp_all add: r)
  have idx: "index_value V a ?s = Ok (Some k, ?s1 ?s)"
    using index r by (simp add: index_value_def mem_simps)
  obtain f where f: "fresh s = Suc f" using tk(2) by (cases "fresh s") auto
  have free: "free_token tk (reset_parser_idx s (die e (?s1 ?s))) = Undef DoubleFree" for e
    by (rule free_twice [where t = t and a = a and b = b and n = n])
      (use t r tk in \<open>auto simp: die_heap\<close>)
  have str: "read_str n ?s = Ok x" "read_arrtok a ?s = Ok \<lparr>at_idx = Ptr b, at_idx_type = Some INT_VAR_TOK, at_name = n\<rparr>"
    using r by (simp_all add: mem_simps)
  have rt: "read_tok tk s = Ok t" using t(1) tk by (simp add: mem_simps)
  consider "find_var V x ?s = Ok None" | p da h where "find_var V x ?s = Ok (Some p)" "pair_data V p ?s = Ok da" "read_head da ?s = Ok h" "h \<noteq> -1"
    by (rule array_head [OF g' x(2)])
  then show ?thesis
  proof cases
    case 1
    then show ?thesis using i(3) x(1) free
      by (simp add: varval_get_value_def varval_set_value_def varval_set_def rt r(1,2) str idx f index varval_get.simps(2) [where n = "Suc f"] Let_def)
  next
    case 2
    then show ?thesis using i(3) x(1) free
      by (simp add: varval_get_value_def varval_set_value_def varval_set_def rt r(1,2) str idx f index varval_get.simps(2) [where n = "Suc f"] Let_def)
  qed
qed

end

text \<open>
  C36: a negative index.  Reading or setting \<open>x[i]\<close> with a variable \<open>i\<close> that is negative frees the name of \<open>i\<close>
  twice: its evaluation frees it, and after the message the whole token is freed again.
\<close>

theorem negative_index_double_free:
  assumes lib: "voids_lib V hinv hmap rinv rlist" and "good hinv hmap A s" and "tok_rep hmap s tk (EArr x (EVar i)) F"
    and "i \<noteq> ''argc''" and "A i = Some (VArr [k])" and "sint k < 0" and "x \<noteq> ''argv''" and "\<forall>l. A x \<noteq> Some (VLabel l)"
  shows "varval_get_value V tk s = Undef DoubleFree \<and> varval_set_value V tk v s = Undef DoubleFree"
  by (rule voids_lib.negative_index [OF assms])

theorem negative_index_witness:
  "varval_get_value list_voids 19 (ext_st []) = Undef DoubleFree \<and> varval_set_value list_voids 19 6 (ext_st []) = Undef DoubleFree"
  by (rule negative_index_double_free [OF lv.voids_lib_axioms ext_good ext_tok(2), where k = "-1"])
    (simp_all add: ext_env_def signed_minus_1)

subsection \<open>Branches\<close>

lemma evolves_ring: "evolves hinv hmap F s A s' \<Longrightarrow> evolves hinv hmap F (s\<lparr>translated_line := r\<rparr>) A (s'\<lparr>translated_line := r\<rparr>)"
proof -
  assume ev: "evolves hinv hmap F s A s'"
  have "s'\<lparr>translated_line := r\<rparr> = s\<lparr>translated_line := r, heap := heap s', fresh := fresh s', vartable := vartable s'\<rparr>"
    by (subst evolves_rest [OF ev]) simp
  moreover have "good hinv hmap A (s'\<lparr>translated_line := r\<rparr>)" using ev by (simp add: evolves_def)
  ultimately show ?thesis using ev by (simp add: evolves_def)
qed

definition at_label :: "label_data_s \<Rightarrow> ('h, 'r) st \<Rightarrow> ('h, 'r) st" where
  "at_label lab s = s\<lparr>line := lbl_line lab, column := lbl_column lab, prev_col := lbl_prev_col lab, c_in := 32,
     fpos := lbl_offset lab\<rparr>"

context voids_lib
begin

lemma jump_known:
  assumes g: "good hinv hmap A s" and t: "heap s tk = Some (TokB t)" "tok_data t = Ptr a" "a \<noteq> NULL" "heap s a = Some (StrB l)"
    and l: "A l = Some (VLabel lab)"
  shows "take_branch V tk s = Ok (at_label lab s)"
proof -
  have tk: "tk \<noteq> NULL" using heap_ok_live [OF goodD(1) [OF g] t(1)] by simp
  obtain ka da where m: "hmap (vartable s) l = Some (ka, da)"
    using vinv_None [OF goodD(3) [OF g], of l] l by (cases "hmap (vartable s) l") auto
  obtain w where "A l = Some w" "da \<noteq> NULL" "heap s da = Some (enc w)" "var_ok w" by (rule vinv_Some [OF goodD(3) [OF g] m])
  then have d: "da \<noteq> NULL" "heap s da = Some (LabelB lab)" "lbl_placeholder lab = -1" using l by auto
  obtain p where p: "find_var V l s = Ok (Some p)" "pair_data V p s = Ok da" by (rule find_var_Some [OF goodD(2) [OF g] m])
  show ?thesis using t tk d p
    by (simp add: take_branch_def mem_simps read_head_def jump_to_def read_label_def deref_def at_label_def)
qed

text \<open>The end of the handler: the two blocks of the label token are freed.\<close>

lemma label_freed:
  assumes g: "good hinv hmap A s" and own: "{tk, a} \<inter> owned (hmap (vartable s)) = {}"
    and t: "heap s tk = Some (TokB t)" "tok_data t = Ptr a" "a \<noteq> NULL" "heap s a = Some (StrB l)"
    and s1: "s1 = (if j then at_label lab s else s)"
  shows "\<exists>s2. bnd (read_tok tk s1) (\<lambda>t. bnd (as_ptr (tok_data t)) (\<lambda>d. bnd (dealloc d s1) (dealloc tk))) =
      Ok (if j then at_label lab s2 else s2) \<and> evolves hinv hmap {tk, a} s A s2"
proof -
  have tk: "tk \<noteq> NULL" "tk \<noteq> a" using heap_ok_live [OF goodD(1) [OF g] t(1)] t by auto
  let ?s1 = "s\<lparr>heap := (heap s)(a := None)\<rparr>"
  have e1: "evolves hinv hmap {a} s A ?s1" by (rule evolves_free [OF g]) (use own in simp)
  have e2: "evolves hinv hmap {tk} ?s1 A (?s1\<lparr>heap := (heap ?s1)(tk := None)\<rparr>)"
    by (rule evolves_free [OF evolves_good [OF e1]]) (use own in simp)
  have "evolves hinv hmap {tk, a} s A (s\<lparr>heap := (heap s)(a := None, tk := None)\<rparr>)"
    using evolves_trans [OF goodD(1) [OF g] e1 e2] by (simp add: insert_commute)
  then show ?thesis
    using s1 t tk by (intro exI [of _ "s\<lparr>heap := (heap s)(a := None, tk := None)\<rparr>"]) (auto simp: at_label_def mem_simps)
qed

lemma branch_refines:
  assumes g: "good hinv hmap A s" and rb: "rinv (translated_line s)" "rlist (translated_line s) = t1 # t2 # t3 # ts"
    and tr: "toks_rep (heap s) [(t1, IExpr e1, F1), (t2, IExpr e2, F2), (t3, ILab l, F3)]"
    and own: "set (blocks [(t1, IExpr e1, F1), (t2, IExpr e2, F2), (t3, ILab l, F3)]) \<inter> owned (hmap (vartable s)) = {}"
    and ag: "aget (argv s) (mem_max s) A e1 = Some (v, A1, ins1)" "aget (argv s) (mem_max s) A1 e2 = Some (w, A2, ins2)"
    and br: "i \<noteq> BRA_SYM" "branch_jumps i v w = Some j" "j \<Longrightarrow> A2 l = Some (VLabel lab)"
  shows "\<exists>s' r. branch_handler V i s = Ok (if j then at_label lab s' else s') \<and> rinv r \<and> rlist r = ts \<and>
    evolves hinv hmap (insert t1 (set F1) \<union> (insert t2 (set F2) \<union> insert t3 (set F3))) (s\<lparr>translated_line := r\<rparr>) A2 s'"
proof -
  obtain r1 where r1: "next_token V s = Ok (t1, s\<lparr>translated_line := r1\<rparr>)" "rinv r1" "rlist r1 = t2 # t3 # ts"
    by (rule next_token_Cons [OF rb]) auto
  obtain r2 where r2: "next_token V (s\<lparr>translated_line := r1\<rparr>) = Ok (t2, s\<lparr>translated_line := r2\<rparr>)" "rinv r2"
      "rlist r2 = t3 # ts"
    by (rule next_token_Cons [of "s\<lparr>translated_line := r1\<rparr>"]) (use r1 in auto)
  let ?s = "s\<lparr>translated_line := r2\<rparr>"
  have g': "good hinv hmap A ?s" and ag': "aget (argv ?s) (mem_max ?s) A e1 = Some (v, A1, ins1)" using g ag by simp_all
  obtain s1 where s1: "varval_get_value V t1 ?s = Ok (Some v, s1)" "evolves hinv hmap (insert t1 (set F1)) ?s A1 s1"
      "toks_rep (heap s1) [(t2, IExpr e2, F2), (t3, ILab l, F3)]"
      "set (blocks [(t2, IExpr e2, F2), (t3, ILab l, F3)]) \<inter> owned (hmap (vartable s1)) = {}"
    by (rule get_step [OF g' _ _ ag']) (use tr own in auto)
  have ag1: "aget (argv s1) (mem_max s1) A1 e2 = Some (w, A2, ins2)" using ag(2) evolves_fields [OF s1(2)] by simp
  obtain s2 where s2: "varval_get_value V t2 s1 = Ok (Some w, s2)" "evolves hinv hmap (insert t2 (set F2)) s1 A2 s2"
      "toks_rep (heap s2) [(t3, ILab l, F3)]" "set (blocks [(t3, ILab l, F3)]) \<inter> owned (hmap (vartable s2)) = {}"
    by (rule get_step [OF evolves_good [OF s1(2)] s1(3,4) ag1])
  have rb2: "rinv (translated_line s2)" "rlist (translated_line s2) = t3 # ts"
    using evolves_fields [OF s1(2)] evolves_fields [OF s2(2)] r2 by simp_all
  obtain r where r: "next_token V s2 = Ok (t3, s2\<lparr>translated_line := r\<rparr>)" "rinv r" "rlist r = ts"
    by (rule next_token_Cons [OF rb2]) auto
  let ?s2 = "s2\<lparr>translated_line := r\<rparr>"
  obtain t a where t: "heap ?s2 t3 = Some (TokB t)" "tok_data t = Ptr a" "a \<noteq> NULL" "heap ?s2 a = Some (StrB l)" "F3 = [a]"
    using s2(3) by (auto simp: toks_rep_Cons)
  have g2: "good hinv hmap A2 ?s2" using evolves_good [OF s2(2)] by simp
  have jump: "(if j then take_branch V t3 ?s2 else Ok ?s2) = Ok (if j then at_label lab ?s2 else ?s2)"
    using jump_known [OF g2 t(1-4) br(3)] by simp
  have "{t3, a} \<inter> owned (hmap (vartable ?s2)) = {}" using s2(4) t(5) by simp
  from label_freed [OF g2 this t(1-4) refl, of j lab] obtain s3 where
    s3: "bnd (read_tok t3 (if j then at_label lab ?s2 else ?s2)) (\<lambda>t. bnd (as_ptr (tok_data t)) (\<lambda>d.
      bnd (dealloc d (if j then at_label lab ?s2 else ?s2)) (dealloc t3))) = Ok (if j then at_label lab s3 else s3)"
    "evolves hinv hmap {t3, a} ?s2 A2 s3" by blast
  have "branch_handler V i s = Ok (if j then at_label lab s3 else s3)"
    using r1(1) r2(1) s1(1) s2(1) r(1) br(1,2) jump s3(1) by (simp add: branch_handler_def)
  moreover have "evolves hinv hmap (insert t1 (set F1) \<union> (insert t2 (set F2) \<union> insert t3 (set F3))) (s\<lparr>translated_line := r\<rparr>) A2 s3"
  proof -
    have e1: "evolves hinv hmap (insert t1 (set F1)) (s\<lparr>translated_line := r\<rparr>) A1 (s1\<lparr>translated_line := r\<rparr>)"
      using evolves_ring [OF s1(2), of r] by simp
    have "evolves hinv hmap (insert t2 (set F2) \<union> {t3, a}) (s1\<lparr>translated_line := r\<rparr>) A2 s3"
      by (rule evolves_trans [OF _ evolves_ring [OF s2(2)] s3(2)]) (use goodD(1) [OF evolves_good [OF e1]] in simp)
    from evolves_trans [OF _ e1 this] show ?thesis using goodD(1) [OF g] t(5) by (simp add: heap_ok_def)
  qed
  ultimately show ?thesis using r(2,3) by blast
qed

lemma branch_missing:
  assumes h: "hinv (vartable s)" "hmap (vartable s) l = None" and rb: "rinv (translated_line s)" "rlist (translated_line s) = [tk]"
    and t: "tk \<noteq> NULL" "heap s tk = Some (TokB t)" "tok_data t = Ptr a" "a \<noteq> NULL" "heap s a = Some (StrB l)"
    and e: "isspace (c_in s)" "list_all blank (rest s)"
  shows "branch_handler V BRA_SYM s = Undef NullDeref"
proof -
  obtain r where r: "next_token V s = Ok (tk, s\<lparr>translated_line := r\<rparr>)" "rinv r" "rlist r = []"
    by (rule next_token_Cons [OF rb]) auto
  let ?s = "s\<lparr>translated_line := r\<rparr>"
  have nw: "get_next_word MAX_ALLOWED_SYMBOL_LEN False ?s = Ok (0, adv (Suc (length (rest s))) ?s)"
    using next_word_none [of ?s "rest s" False MAX_ALLOWED_SYMBOL_LEN] e by (simp add: rest_def)
  have tok: "tokenize_next_line V ?s = Ok (adv (Suc (length (rest s))) ?s)"
    using nw by (simp add: tokenize_next_line_def is_valid_label_def call_instruction_handler_def)
  have rr: "ring_read V (adv (Suc (length (rest s))) ?s) = (NULL, VDS_BUFFER_EMPTY, (adv (Suc (length (rest s))) ?s)\<lparr>translated_line := r\<rparr>)"
    using read_Nil [OF r(2,3)] by (simp add: ring_read_def text_simps)
  have "find_label V (left ?s + 2) tk ?s = Undef NullDeref"
    using tok rr by (simp add: numeral_2_eq_2 read_tok_def deref_def)
  moreover have "find_var V l ?s = Ok None" by (rule find_var_None) (use h in simp_all)
  ultimately have "take_branch V tk ?s = Undef NullDeref"
    using t by (simp add: take_branch_def mem_simps)
  then show ?thesis using r(1) by (simp add: branch_handler_def branch_jumps_def)
qed

end

text \<open>
  C15: a conditional branch.  With tokens for two expressions and a label that is defined, the handler evaluates the
  two expressions in order, compares them as the instruction says, and if the comparison holds puts the program at the place
  behind the label's definition; otherwise it stays.  Every block of the line is freed, and no other block changes.
\<close>

theorem branch_correct:
  assumes lib: "voids_lib V hinv hmap rinv rlist" and "good hinv hmap A s"
    and "rinv (translated_line s)" and "rlist (translated_line s) = t1 # t2 # t3 # ts"
    and "toks_rep (heap s) [(t1, IExpr e1, F1), (t2, IExpr e2, F2), (t3, ILab l, F3)]"
    and "set (blocks [(t1, IExpr e1, F1), (t2, IExpr e2, F2), (t3, ILab l, F3)]) \<inter> owned (hmap (vartable s)) = {}"
    and "aget (argv s) (mem_max s) A e1 = Some (v, A1, ins1)" and "aget (argv s) (mem_max s) A1 e2 = Some (w, A2, ins2)"
    and cmp: "(i, j) \<in> {(BRGT_SYM, sint w < sint v), (BRGE_SYM, sint w \<le> sint v), (BRLT_SYM, sint v < sint w),
      (BRLE_SYM, sint v \<le> sint w), (BREQ_SYM, v = w)}" and "j \<Longrightarrow> A2 l = Some (VLabel lab)"
  shows "\<exists>s' r. branch_handler V i s = Ok (if j then at_label lab s' else s') \<and> rinv r \<and> rlist r = ts \<and>
    evolves hinv hmap (insert t1 (set F1) \<union> (insert t2 (set F2) \<union> insert t3 (set F3))) (s\<lparr>translated_line := r\<rparr>) A2 s'"
  by (rule voids_lib.branch_refines [OF assms(1-8) _ _ assms(10)]) (use cmp in \<open>auto simp: branch_jumps_def\<close>)

theorem branch_witness:
  "\<exists>s' r. branch_handler list_voids BRGT_SYM (ext_st [20, 21, 23]) = Ok (if True then at_label ext_label s' else s') \<and> l_rinv r \<and> snd r = [] \<and>
    evolves l_hinv map_of (insert 20 (set []) \<union> (insert 21 (set []) \<union> insert 23 (set [22]))) ((ext_st [20, 21, 23])\<lparr>translated_line := r\<rparr>) ext_env s'"
  by (rule branch_correct [OF lv.voids_lib_axioms ext_good, where v = 9 and w = 4 and ?A1.0 = ext_env and ?A2.0 = ext_env and ?ins1.0 = False and ?ins2.0 = False and ?e1.0 = "EVal 9" and ?e2.0 = "EVal 4" and l = "''L1''"])
    (simp_all add: ext_toks ext_owned, simp add: ext_env_def)

text \<open>
  C37: a branch to a label that is nowhere.  When only blanks are left in the file, looking for a label that is not defined
  finds no line and no token, and the code reads the type of the token \<open>NULL\<close>; its message for this case is never reached.
\<close>

theorem missing_label:
  assumes lib: "voids_lib V hinv hmap rinv rlist"
    and "hinv (vartable s)" and "hmap (vartable s) l = None" and "rinv (translated_line s)" and "rlist (translated_line s) = [tk]"
    and "tk \<noteq> NULL" and "heap s tk = Some (TokB t)" and "tok_data t = Ptr a" and "a \<noteq> NULL" and "heap s a = Some (StrB l)"
    and "isspace (c_in s)" and "list_all blank (rest s)"
  shows "branch_handler V BRA_SYM s = Undef NullDeref"
  by (rule voids_lib.branch_missing [OF assms])

theorem missing_label_witness: "branch_handler list_voids BRA_SYM (ext_st [25]) = Undef NullDeref"
proof (rule missing_label [OF lv.voids_lib_axioms, where l = "''L2''" and tk = 25 and a = 24 and t = "(case ext_heap 25 of Some (TokB t) \<Rightarrow> t)"])
  have c: "ext_heap 25 = Some (demo_tok LABEL_TOK (Ptr 24))" "ext_heap 24 = Some (StrB ''L2'')"
    by (simp_all add: ext_heap_def)
  show "heap (ext_st [25]) 25 = Some (TokB (case ext_heap 25 of Some (TokB t) \<Rightarrow> t))" "heap (ext_st [25]) 24 = Some (StrB ''L2'')"
      "tok_data (case ext_heap 25 of Some (TokB t) \<Rightarrow> t) = Ptr 24"
    by (simp_all add: c) (simp_all add: demo_tok_def)
qed (simp_all add: isspace_def rest_def)

end
