(* ===== verification/Source.thy ===== *)
theory Source imports Straight begin

section \<open>Programs as text: statements, labels, and what the scanner makes of a line\<close>

text \<open>
  A statement is an instruction of the interpreter with its arguments; the instructions on globals are not among them.
  A line of the source has blanks, perhaps a label, the name of the instruction and its arguments.  The lemmas say
  what the scanner does with the text of any such line: which tokens it makes, and where it stands afterwards.
\<close>

subsection \<open>Statements\<close>

datatype stmt = Do instr | Bra string | Br instruction_id_e expr expr string | Print string "expr list"
  | Sleep expr | Return

fun stmt_ins :: "stmt \<Rightarrow> instruction_id_e" where
  "stmt_ins (Do i) = instr_ins i"
| "stmt_ins (Bra l) = BRA_SYM"
| "stmt_ins (Br c e1 e2 l) = c"
| "stmt_ins (Print x es) = PRINT_SYM"
| "stmt_ins (Sleep e) = SLEEP_SYM"
| "stmt_ins Return = RETURN_SYM"

fun stmt_items :: "stmt \<Rightarrow> item list" where
  "stmt_items (Do i) = map IExpr (instr_args i)"
| "stmt_items (Bra l) = [ILab l]"
| "stmt_items (Br c e1 e2 l) = [IExpr e1, IExpr e2, ILab l]"
| "stmt_items (Print x es) = IStr x # map IExpr es"
| "stmt_items (Sleep e) = [IExpr e]"
| "stmt_items Return = []"

fun show_item :: "item \<Rightarrow> string" where
  "show_item (IExpr e) = show_expr e"
| "show_item (IIns i) = name_str i"
| "show_item (ILab l) = l"
| "show_item (IStr x) = CHR 0x22 # x @ [CHR 0x22]"

definition label_ok :: "string \<Rightarrow> bool" where
  "label_ok l \<longleftrightarrow> 1 < length l \<and> length l < MAX_ALLOWED_SYMBOL_LEN \<and> hd l = CHR ''L'' \<and> l \<noteq> ''LOAD'' \<and>
     list_all (\<lambda>x. isalnum (of_char x)) l"

definition string_ok :: "string \<Rightarrow> bool" where
  "string_ok x \<longleftrightarrow> length x < MAX_INPUT_STR_LEN \<and> list_all (\<lambda>x. isprint (of_char x) \<and> x \<noteq> CHR 0x22) x"

fun item_ok :: "item \<Rightarrow> bool" where
  "item_ok (IExpr e) \<longleftrightarrow> expr_ok e \<and> length (show_expr e) < MAX_ALLOWED_SYMBOL_LEN"
| "item_ok (IIns i) \<longleftrightarrow> False"
| "item_ok (ILab l) \<longleftrightarrow> label_ok l"
| "item_ok (IStr x) \<longleftrightarrow> string_ok x"

fun stmt_ok :: "stmt \<Rightarrow> bool" where
  "stmt_ok (Do i) \<longleftrightarrow> instr_ok i"
| "stmt_ok (Br c e1 e2 l) \<longleftrightarrow> c \<in> {BRGT_SYM, BRGE_SYM, BRLT_SYM, BRLE_SYM, BREQ_SYM} \<and> list_all item_ok (stmt_items (Br c e1 e2 l))"
| "stmt_ok st \<longleftrightarrow> list_all item_ok (stmt_items st)"

subsection \<open>Lines\<close>

text \<open>The arguments, each behind a gap, then blanks and the newline.\<close>

fun its_str :: "(string \<times> item) list \<Rightarrow> string \<Rightarrow> string" where
  "its_str [] bs = bs @ [CHR 0x0A]"
| "its_str ((g, it) # its) bs = g @ show_item it @ its_str its bs"

definition its_ok :: "(string \<times> item) list \<Rightarrow> string \<Rightarrow> bool" where
  "its_ok its bs \<longleftrightarrow> blanks bs \<and> (\<forall>(g, it) \<in> set its. gap g \<and> item_ok it)"

lemma its_str_exprs: "its_str (zip gs (map IExpr es)) bs = args_str (zip gs es) bs"
proof (induction gs arbitrary: es)
  case (Cons g gs)
  then show ?case by (cases es) simp_all
qed simp

lemma its_ok_exprs: "its_ok (zip gs (map IExpr es)) bs \<longleftrightarrow> args_ok (zip gs es) bs"
  by (simp add: its_ok_def args_ok_def zip_map2 split_def)

lemma its_ok_Cons: "its_ok ((g, it) # its) bs \<longleftrightarrow> gap g \<and> item_ok it \<and> its_ok its bs"
  by (auto simp: its_ok_def)

lemma its_str_blank:
  assumes "its_ok its bs"
  obtains x t where "its_str its bs = x # t" "blank x"
proof (cases its)
  case Nil
  then show thesis using assms that by (cases bs) (auto simp: its_ok_def blanks_def isspace_def)
next
  case (Cons a its')
  then show thesis using assms that by (cases "fst a") (auto simp: its_ok_def gap_def)
qed

text \<open>A line of a program: blanks, perhaps a label and a gap, a statement with the gaps before its arguments, blanks.\<close>

type_synonym sline = "string \<times> (string \<times> string) option \<times> stmt \<times> string list \<times> string"

fun line_stmt :: "sline \<Rightarrow> stmt" where
  "line_stmt (pre, lab, st, gs, bs) = st"

fun line_label :: "sline \<Rightarrow> string option" where
  "line_label (pre, lab, st, gs, bs) = map_option fst lab"

definition its_text :: "stmt \<Rightarrow> string list \<Rightarrow> string \<Rightarrow> string" where
  "its_text st gs bs = name_str (stmt_ins st) @ its_str (zip gs (stmt_items st)) bs"

fun label_text :: "(string \<times> string) option \<Rightarrow> string" where
  "label_text None = []"
| "label_text (Some (l, g)) = l @ g"

fun sline_text :: "sline \<Rightarrow> string" where
  "sline_text (pre, lab, st, gs, bs) = pre @ label_text lab @ its_text st gs bs"

fun sline_ok :: "sline \<Rightarrow> bool" where
  "sline_ok (pre, lab, st, gs, bs) \<longleftrightarrow> list_all blank pre \<and> (case lab of None \<Rightarrow> True | Some (l, g) \<Rightarrow> label_ok l \<and> gap g) \<and>
     stmt_ok st \<and> length gs = length (stmt_items st) \<and> its_ok (zip gs (stmt_items st)) bs"

text \<open>
  The tokens \<open>M\<close> are those of the label: its token holds the place in the file behind the label and the
  blank that follows it, where the text \<open>T\<close> begins but for blanks.
\<close>

fun label_toks :: "(string \<times> string) option \<Rightarrow> toks \<Rightarrow> ('h, 'r) st \<Rightarrow> string \<Rightarrow> bool" where
  "label_toks None M s T \<longleftrightarrow> M = []"
| "label_toks (Some (l, g)) M s T \<longleftrightarrow> (\<exists>tl a u. M = [(tl, ILab l, [a])] \<and> heap s tl = Some (TokB u) \<and>
     drop (tok_offset u) (fbuf s) = List.tl g @ T)"

subsection \<open>Tokens for labels and strings\<close>

lemma printable_word: "string_ok x \<Longrightarrow> NUL \<notin> set x"
proof
  assume x: "string_ok x" "NUL \<in> set x"
  then have "isprint (of_char NUL)" unfolding string_ok_def list_all_iff by blast
  then show False by (simp add: isprint_def)
qed

lemma label_word:
  assumes "label_ok l"
  shows "NUL \<notin> set l" "list_all (\<lambda>x. \<not> blank x) l" "l \<noteq> []" "length l < MAX_ALLOWED_SYMBOL_LEN"
proof -
  have a: "list_all (\<lambda>x. isalnum (of_char x)) l" using assms by (simp add: label_ok_def)
  show "list_all (\<lambda>x. \<not> blank x) l" by (rule nonblank_name [OF a])
  show "NUL \<notin> set l" using a by (force simp: list_all_iff)
  show "l \<noteq> []" "length l < MAX_ALLOWED_SYMBOL_LEN" using assms by (auto simp: label_ok_def)
qed

lemma word_limit: "MAX_ALLOWED_SYMBOL_LEN \<le> Suc MAX_INPUT_STR_LEN"
  by (simp add: limit_defs)

lemma label_word_valid:
  assumes l: "label_ok l" and h: "holds (input s) 0 (l @ [NUL])"
  shows "is_valid_label (length l) s = (True, s)"
proof -
  obtain v where v: "l = CHR ''L'' # v" "v \<noteq> []" using l by (cases l) (auto simp: label_ok_def)
  have b: "input_bytes 1 (length l) s = v" "input s 0 = CHR ''L''"
    using holds_bytes [of s 1 v] h v by (simp_all add: holds_append)
  have "input_eq (input s) 0 ''LOAD'' \<longleftrightarrow> l = ''LOAD''"
    by (rule holds_eq [OF h]) (use label_word [OF l] in auto)
  then show ?thesis
    using l v b by (auto simp: is_valid_label_def label_ok_def)
qed

context voids_lib
begin

lemma add_text_token:
  fixes s :: "('h, 'r) st"
  assumes h: "holds (input s) 0 (x @ [NUL])" and x: "NUL \<notin> set x" "length x \<le> MAX_INPUT_STR_LEN"
    and ok: "heap_ok s" and rb: "rinv (translated_line s)" and ty: "ty = LABEL_TOK \<and> it = ILab x \<or> ty = STRING_TOK \<and> it = IStr x"
  obtains s' t where "add_new_token V (FromInput 0) 0 (length x + 1) ty 0 s = Ok s'"
    "scans rinv rlist [(fresh s, it, [Suc (fresh s)])] s s'" "c_in s' = c_in s" "fpos s' = fpos s" "fbuf s' = fbuf s"
    "pstate s' = pstate s" "line s' = line s" "heap s' (fresh s) = Some (TokB t)" "ty = LABEL_TOK \<Longrightarrow> tok_offset t = fpos s"
proof -
  have "input_bytes 0 (length x + 1) s = x @ [NUL]"
    using holds_bytes [OF h] by simp
  then have bytes: "cstr (input_bytes 0 (length x + 1) s) = x"
    using x(1) by (simp add: cstr_snoc)
  have d: "new_tok_data (FromInput 0) 0 (length x + 1) ty 0 s1 = Ok (Ptr (Suc (fresh s)), length x + 1,
      s1\<lparr>heap := heap s1 ++ [Suc (fresh s) \<mapsto> StrB x], fresh := Suc (Suc (fresh s))\<rparr>)"
    if "fresh s1 = Suc (fresh s)" "input s1 = input s" for s1 :: "('h, 'r) st"
    using that bytes x(2) by (simp add: new_tok_data_def alloc_def input_bytes_def)
  obtain r' t where t: "add_new_token V (FromInput 0) 0 (length x + 1) ty 0 s =
      Ok (s\<lparr>heap := ((heap s)(fresh s \<mapsto> TokB t)) ++ [Suc (fresh s) \<mapsto> StrB x],
      fresh := Suc (Suc (fresh s)), translated_line := r'\<rparr>)" "rinv r'" "rlist r' = rlist (translated_line s) @ [fresh s]"
      "tok_type t = ty" "tok_data t = Ptr (Suc (fresh s))"
      "heap_ok (s\<lparr>heap := ((heap s)(fresh s \<mapsto> TokB t)) ++ [Suc (fresh s) \<mapsto> StrB x], fresh := Suc (Suc (fresh s)), translated_line := r'\<rparr>)"
      "tok_offset t = (if ty = LABEL_TOK then fpos s else 0)"
    by (rule add_token_ok [OF ok rb d]) simp_all
  show thesis
    by (rule that [OF t(1)]) (use t ty in \<open>auto simp: scans_def toks_rep_def scan_frame_def\<close>)
qed

text \<open>The label in front of an instruction.\<close>

lemma tokenize_label:
  assumes p: "stands s (pre @ l @ g @ name_str i @ x # t)" and pre: "list_all blank pre" and l: "label_ok l" and gap: "gap g"
    and x: "blank x" and it: "itab_ok hinv hmap (itable s)" and st: "pstate s \<noteq> FINISHED"
    and ok: "heap_ok s" and rb: "rinv (translated_line s)"
  obtains s1 tl a ti u where "tokenize_next_line V s = scan_handler V i s1"
    "scans rinv rlist [(tl, ILab l, [a]), (ti, IIns i, [])] s s1"
    "pend s1 (x # t)" "pstate s1 = pstate s" "heap_ok s1" "rinv (translated_line s1)"
    "heap s1 tl = Some (TokB u)" "drop (tok_offset u) (fbuf s) = List.tl g @ name_str i @ x # t"
proof -
  note w = label_word [OF l]
  obtain c g' where g: "g = c # g'" "blank c" using gap by (cases g) (auto simp: gap_def)
  obtain n where nw: "get_next_word MAX_ALLOWED_SYMBOL_LEN False s = Ok (length l, (adv n s)\<lparr>input := put_word 0 l (input s)\<rparr>)"
      "pend ((adv n s)\<lparr>input := put_word 0 l (input s)\<rparr>) (c # g' @ name_str i @ x # t)"
    by (rule stands_word [of s pre l c "g' @ name_str i @ x # t", OF _ pre w(3,2,4) g(2) word_limit]) (use p g(1) in simp_all)
  let ?s1 = "(adv n s)\<lparr>input := put_word 0 l (input s)\<rparr>"
  have h1: "holds (input ?s1) 0 (l @ [NUL])"
    using holds_put_word [of 0 l] w(4) by (simp add: limit_defs)
  have ok1: "heap_ok ?s1" "rinv (translated_line ?s1)" and len: "length l \<le> MAX_INPUT_STR_LEN"
    using ok rb w(4) by (simp_all add: heap_ok_def text_simps limit_defs)
  obtain s2 u where s2: "add_new_token V (FromInput 0) 0 (length l + 1) LABEL_TOK 0 ?s1 = Ok s2"
    "scans rinv rlist [(fresh ?s1, ILab l, [Suc (fresh ?s1)])] ?s1 s2" "c_in s2 = c_in ?s1" "fpos s2 = fpos ?s1" "fbuf s2 = fbuf ?s1"
    "pstate s2 = pstate ?s1" "heap s2 (fresh ?s1) = Some (TokB u)" "tok_offset u = fpos ?s1"
    by (rule add_text_token [OF h1 w(1) len ok1, where ty = LABEL_TOK and it = "ILab l"]) simp_all
  have p2: "pend s2 (g @ name_str i @ x # t)"
    using nw(2) s2(3-5) pend_cong [of s2 ?s1] g(1) by simp
  have g': "g \<noteq> []" "list_all blank g" "CHR 0x0A \<notin> set g" using gap by (simp_all add: gap_def)
  let ?s3 = "(adv (length g + length (name_str i)) s2)\<lparr>input := put_word 0 (name_str i) (input s2)\<rparr>"
  have nw3: "get_next_word MAX_ALLOWED_SYMBOL_LEN True s2 = Ok (length (name_str i), ?s3)" "pend ?s3 (x # t)"
    using pend_word [OF p2 g'(1,2) _ name_facts(2,1,3) x, of True] g'(3) by (simp_all add: limit_defs)
  have h3: "holds (input ?s3) 0 (name_str i @ [NUL])"
    using holds_put_word [of 0 "name_str i"] name_facts(3) [of i] by (simp add: limit_defs)
  have ok3: "heap_ok ?s3" "rinv (translated_line ?s3)" "itab_ok hinv hmap (itable ?s3)" "pstate ?s3 = pstate s"
    using scansD(3,6,8) [OF s2(2)] it s2(6) by (simp_all add: heap_ok_def text_simps scan_frame_def)
  obtain s4 where s4: "call_instruction_handler V (length (name_str i)) ?s3 = scan_handler V i s4"
    "scans rinv rlist [(fresh ?s3, IIns i, [])] ?s3 s4" "c_in s4 = c_in ?s3" "fpos s4 = fpos ?s3" "fbuf s4 = fbuf ?s3"
    "pstate s4 = pstate ?s3"
    by (rule call_ins [OF h3 ok3(3,1,2)])
  have sc: "scans rinv rlist ([] @ [(fresh ?s1, ILab l, [Suc (fresh ?s1)])] @ [] @ [(fresh ?s3, IIns i, [])]) s s4"
    by (intro scans_trans [OF _ scans_trans [OF s2(2) scans_trans [OF _ s4(2)]]] scans_Nil)
      (use ok1 ok3 in \<open>simp_all add: text_simps scan_frame_adv\<close>)
  show thesis
  proof (rule that [of s4 "fresh ?s1" "Suc (fresh ?s1)" "fresh ?s3" u])
    show "tokenize_next_line V s = scan_handler V i s4"
      using nw(1) label_word_valid [OF l h1] s2(1) nw3(1) s4(1) ok3(4) st name_facts(2) [of i] by (simp add: tokenize_next_line_def)
    show "heap s4 (fresh ?s1) = Some (TokB u)"
      using scansD(5) [OF s4(2), of "fresh ?s1"] scansD(2) [OF s2(2)] s2(7) by (auto simp: text_simps)
    show "drop (tok_offset u) (fbuf s) = List.tl g @ name_str i @ x # t"
      using s2(8) nw(2) g(1) by (simp add: pend_def rest_def text_simps)
    show "pend s4 (x # t)" using nw3(2) s4(3-5) pend_cong [of s4 ?s3] by simp
  qed (use sc s4(6) ok3(4) scansD [OF s4(2)] in simp_all)
qed

end

end
