(* ===== verification/StmtScan.thy ===== *)
theory StmtScan imports Source begin

section \<open>What the scanner makes of the arguments of a statement\<close>

text \<open>
  One lemma for each kind of statement, joined in \<open>scan_stmt\<close>: the tokens are those of the arguments, and the scanner stands before
  the next line, up to blanks.  \<open>PRINT\<close> reads over the newline: without arguments at the end of the file it leaves the state
  \<open>LAST_LINE\<close>, and with arguments and blanks behind the last one the end of the file is lost (\<open>print_lost_end\<close>), which
  \<open>tail_ok\<close> excludes.
\<close>

subsection \<open>Lines are counted\<close>

lemma adv_lines: "rest s = t @ r \<Longrightarrow> line (adv (length t) s) = line s + word_of_nat (count_list t (CHR 0x0A))"
proof (induction t arbitrary: s)
  case (Cons x t)
  then have "line (adv (length t) (next_char s)) = line (next_char s) + word_of_nat (count_list t (CHR 0x0A))"
    using next_char_rest [of s x] by simp
  then show ?case using next_char_line [of s x] Cons.prems by (simp add: adv_Suc)
qed simp

lemma count_newlines:
  assumes "CHR 0x0A \<in> set t" and "length t < 2 ^ 32"
  shows "(word_of_nat (count_list t (CHR 0x0A)) :: c_uint) \<noteq> 0"
proof -
  have "0 < count_list t (CHR 0x0A)" "count_list t (CHR 0x0A) < 2 ^ 32"
    using assms count_le_length [of t "CHR 0x0A"] count_list_0_iff [of t "CHR 0x0A"] by linarith+
  then show ?thesis by (simp add: word_of_nat_eq_0_iff dvd_eq_mod_eq_0)
qed

lemma line_differs: "rest s = t @ r \<Longrightarrow> CHR 0x0A \<in> set t \<Longrightarrow> length t < 2 ^ 32 \<Longrightarrow> line (adv (length t) s) \<noteq> line s"
  using adv_lines [of s t r] count_newlines [of t] by simp

lemma left_rest: "left s = length (rest s)"
  by (simp add: left_def rest_def)

lemma pend_length: "pend s t \<Longrightarrow> length t \<le> Suc (length (fbuf s))"
  by (cases t) (auto simp: pend_def rest_def)

subsection \<open>Over the newline\<close>

text \<open>The next character that is no blank, behind a newline.\<close>

lemma next_nonblank:
  assumes "\<not> list_all blank r"
  obtains b y t where "r = b @ y # t" "list_all blank b" "\<not> blank y"
proof -
  have "r = takeWhile blank r @ dropWhile blank r" by simp
  moreover have "dropWhile blank r \<noteq> []" using assms by (auto simp: list_all_iff dropWhile_eq_Nil_conv)
  moreover have "\<not> blank (hd (dropWhile blank r))" using calculation(2) by (rule hd_dropWhile)
  ultimately show thesis
    using that [of "takeWhile blank r" "hd (dropWhile blank r)" "tl (dropWhile blank r)"]
    by (auto simp: list_all_iff dest: set_takeWhileD)
qed

lemma flush_over:
  assumes p: "pend s (b @ y # t)" and b: "b \<noteq> []" "list_all blank b" and y: "\<not> blank y"
  shows "flush_up_to_char s = (True, adv (length b) s)" "pend (adv (length b) s) (y # t)"
proof -
  obtain c b' where c: "b = c # b'" using b(1) by (cases b) auto
  then have "rest s = b' @ y # t" using p by (simp add: pend_def)
  then show "flush_up_to_char s = (True, adv (length b) s)"
    using flush_char [of s b' y t] b(2) y c by simp
  show "pend (adv (length b) s) (y # t)" by (rule pend_adv' [OF p b(1)])
qed

lemma flush_end:
  assumes p: "pend s b" and b: "list_all blank b"
  shows "flush_up_to_char s = (False, adv (length b) s)" "c_in (adv (length b) s) = EOF"
proof -
  obtain c b' where c: "b = c # b'" using p by (cases b) (auto simp: pend_def)
  then have r: "rest s = b'" using p by (simp add: pend_def)
  then show "flush_up_to_char s = (False, adv (length b) s)"
    using flush_char_EOF [of s b'] b c by simp
  have "rest (adv (length b') s) = []" using adv_rest [of s b' "[]"] r by simp
  then show "c_in (adv (length b) s) = EOF"
    using c adv_add [of "length b'" 1 s] by (simp add: next_char_Nil adv_Suc)
qed

subsection \<open>The string of PRINT\<close>

lemma print_string_text:
  assumes "rest s = x @ CHR 0x22 # c # r" and "list_all (\<lambda>x. isprint (of_char x) \<and> x \<noteq> CHR 0x22) x"
    and "i + length x < MAX_INPUT_STR_LEN" and "blank c"
  shows "print_string i s = Ok (Some (i + length x), (adv (length x + 2) s)\<lparr>input := put_word i x (input s)\<rparr>)"
  using assms
proof (induction x arbitrary: i s)
  case Nil
  have c: "c_in (next_char s) = 34" using next_char_c [of s "CHR 0x22"] Nil.prems(1) by simp
  have "rest (next_char s) = c # r" using next_char_rest [of s "CHR 0x22"] Nil.prems(1) by simp
  then have "c_in (next_char (next_char s)) = of_char c" using next_char_c by blast
  moreover have "(of_char c :: int) \<noteq> EOF" by simp
  ultimately show ?case
    using c Nil.prems(3,4)
    by (subst print_string.simps) (simp add: Let_def isprint_def put_input_def next_char_input put_word_Nil adv_Suc text_simps numeral_2_eq_2)
next
  case (Cons y x)
  let ?s = "(next_char s)\<lparr>input := (input s)(i := y)\<rparr>"
  have c: "c_in (next_char s) = of_char y" using next_char_c [of s y] Cons.prems(1) by simp
  have y: "isprint (of_char y)" "(of_char y :: int) \<noteq> 34"
  proof -
    show "isprint (of_char y)" using Cons.prems(2) by simp
    show "(of_char y :: int) \<noteq> 34"
    proof
      assume "(of_char y :: int) = 34"
      then have "y = char_of (34 :: int)" by (metis char_of_char)
      then show False using Cons.prems(2) by (simp add: char_of_def)
    qed
  qed
  have "rest ?s = x @ CHR 0x22 # c # r"
    using next_char_rest [of s y] Cons.prems(1) by (simp add: text_simps)
  then have "print_string (Suc i) ?s = Ok (Some (Suc i + length x), (adv (length x + 2) ?s)\<lparr>input := put_word (Suc i) x (input ?s)\<rparr>)"
    using Cons.prems by (intro Cons.IH) simp_all
  moreover have "print_string i s = print_string (Suc i) ?s"
    using c y Cons.prems(3) by (subst print_string.simps) (simp add: Let_def put_input_def text_simps)
  ultimately show ?case by (simp add: put_word_Cons adv_input adv_Suc [of "Suc _"])
qed

subsection \<open>Labels as arguments\<close>

lemma blank_end: "blanks bs \<Longrightarrow> \<exists>x t. bs @ CHR 0x0A # r = x # t \<and> blank x"
  by (cases bs) (auto simp: blanks_def isspace_def)

context voids_lib
begin

lemma scan_label_text:
  assumes p: "pend s (its_str [(g, ILab l)] bs @ r)" and a: "its_ok [(g, ILab l)] bs"
    and ok: "heap_ok s" and rb: "rinv (translated_line s)" and ps: "pstate s \<noteq> LAST_LINE"
  shows "\<exists>s' t F. scan_branch_label V ins s = Ok s' \<and> scans rinv rlist [(t, ILab l, F)] s s' \<and>
    pend s' (CHR 0x0A # r) \<and> pstate s' = pstate s"
proof -
  have a: "gap g" "label_ok l" "blanks bs" using a by (auto simp: its_ok_def)
  note w = label_word [OF a(2)]
  obtain x t where x: "bs @ CHR 0x0A # r = x # t" "blank x" using blank_end [OF a(3)] by blast
  have g: "g \<noteq> []" "list_all blank g" "CHR 0x0A \<notin> set g" using a(1) by (simp_all add: gap_def)
  have p': "pend s (g @ l @ x # t)" using p x(1) by simp
  let ?s1 = "(adv (length g + length l) s)\<lparr>input := put_word 0 l (input s)\<rparr>"
  have nw: "get_next_word MAX_ALLOWED_SYMBOL_LEN True s = Ok (length l, ?s1)" "pend ?s1 (x # t)"
    using pend_word [OF p' g(1,2) _ w(3,2,4) x(2) word_limit, of True] g(3) by simp_all
  have h1: "holds (input ?s1) 0 (l @ [NUL])"
    using holds_put_word [of 0 l] w(4) by (simp add: limit_defs)
  have ok1: "heap_ok ?s1" "rinv (translated_line ?s1)" and len: "length l \<le> MAX_INPUT_STR_LEN"
    using ok rb w(4) by (simp_all add: heap_ok_def text_simps limit_defs)
  obtain s2 u where s2: "add_new_token V (FromInput 0) 0 (length l + 1) LABEL_TOK 0 ?s1 = Ok s2"
    "scans rinv rlist [(fresh ?s1, ILab l, [Suc (fresh ?s1)])] ?s1 s2" "c_in s2 = c_in ?s1" "fpos s2 = fpos ?s1" "fbuf s2 = fbuf ?s1"
    "pstate s2 = pstate ?s1"
    by (rule add_text_token [OF h1 w(1) len ok1, where ty = LABEL_TOK and it = "ILab l"]) simp_all
  have "pend s2 (bs @ CHR 0x0A # r)"
    using nw(2) s2(3-5) pend_cong [of s2 ?s1] x(1) by simp
  note e = end_of_line_text [OF this a(3) scansD(3,6) [OF s2(2)], of ins]
  have "scans rinv rlist ([] @ [(fresh ?s1, ILab l, [Suc (fresh ?s1)])] @ []) s (end_of_line ins s2)"
    by (intro scans_trans [OF _ scans_trans [OF s2(2) e(1)]] scans_Nil) (use ok1 in \<open>simp_all add: text_simps scan_frame_adv\<close>)
  moreover have "scan_branch_label V ins s = Ok (end_of_line ins s2)"
    using nw(1) label_word_valid [OF a(2) h1] s2(1,6) e(2,3) ps by (auto simp: scan_branch_label_def Let_def pend_def text_simps)
  moreover have "pstate (end_of_line ins s2) = pstate s" using e(3) s2(6) by (simp add: text_simps)
  ultimately show ?thesis using e(2) by auto
qed

text \<open>An expression, whatever comes behind it.\<close>

lemma scan_arg_its:
  assumes p: "pend s (its_str ((g, IExpr e) # its) bs @ r)" and a: "its_ok ((g, IExpr e) # its) bs"
    and ok: "heap_ok s" and rb: "rinv (translated_line s)"
  obtains s' tk F where "scan_arg V ins False s = Ok (True, s')" "scans rinv rlist [(tk, IExpr e, F)] s s'"
    "pend s' (its_str its bs @ r)" "pstate s' = pstate s" "its_ok its bs" "heap_ok s'" "rinv (translated_line s')"
proof -
  have a: "gap g" "expr_ok e" "length (show_expr e) < MAX_ALLOWED_SYMBOL_LEN" and its: "its_ok its bs"
    using a by (auto simp: its_ok_Cons)
  obtain x t where x: "its_str its bs = x # t" "blank x" by (rule its_str_blank [OF its])
  have "pend s (g @ show_expr e @ x # (t @ r))" using p x(1) by simp
  from scan_arg_text [OF this gap_blanks [OF a(1)] a(2,3) x(2) ok rb, of False ins]
  obtain s' tk F where s': "scan_arg V ins False s = Ok (True, s')" "scans rinv rlist [(tk, IExpr e, F)] s s'"
    "pend s' (x # t @ r)" "pstate s' = pstate s"
    by blast
  show thesis
    by (rule that [OF s'(1,2) _ s'(4) its]) (use s'(3) x(1) scansD [OF s'(2)] in simp_all)
qed

lemma scan_branch_text:
  assumes c: "c \<noteq> BRA_SYM" and p: "pend s (its_str [(g1, IExpr e1), (g2, IExpr e2), (g3, ILab l)] bs @ r)"
    and a: "its_ok [(g1, IExpr e1), (g2, IExpr e2), (g3, ILab l)] bs"
    and ok: "heap_ok s" and rb: "rinv (translated_line s)" and ps: "pstate s \<noteq> LAST_LINE"
  shows "\<exists>s' t1 F1 t2 F2 t3 F3. scan_branch V c s = Ok s' \<and>
    scans rinv rlist [(t1, IExpr e1, F1), (t2, IExpr e2, F2), (t3, ILab l, F3)] s s' \<and>
    pend s' (CHR 0x0A # r) \<and> pstate s' = pstate s"
proof -
  obtain s1 t1 F1 where s1: "scan_arg V c False s = Ok (True, s1)" "scans rinv rlist [(t1, IExpr e1, F1)] s s1"
    "pend s1 (its_str [(g2, IExpr e2), (g3, ILab l)] bs @ r)" "pstate s1 = pstate s" "its_ok [(g2, IExpr e2), (g3, ILab l)] bs"
    "heap_ok s1" "rinv (translated_line s1)"
    by (rule scan_arg_its [OF p a ok rb])
  obtain s2 t2 F2 where s2: "scan_arg V c False s1 = Ok (True, s2)" "scans rinv rlist [(t2, IExpr e2, F2)] s1 s2"
    "pend s2 (its_str [(g3, ILab l)] bs @ r)" "pstate s2 = pstate s1" "its_ok [(g3, ILab l)] bs"
    "heap_ok s2" "rinv (translated_line s2)"
    by (rule scan_arg_its [OF s1(3,5,6,7)])
  have ps2: "pstate s2 \<noteq> LAST_LINE" using ps s1(4) s2(4) by simp
  obtain s3 t3 F3 where s3: "scan_branch_label V c s2 = Ok s3" "scans rinv rlist [(t3, ILab l, F3)] s2 s3"
    "pend s3 (CHR 0x0A # r)" "pstate s3 = pstate s2"
    using scan_label_text [OF s2(3,5,6,7) ps2] by blast
  have "scans rinv rlist ([(t1, IExpr e1, F1)] @ [(t2, IExpr e2, F2)] @ [(t3, ILab l, F3)]) s s3"
    by (rule scans_trans [OF s1(2) scans_trans [OF s2(2) s3(2)]])
  moreover have "scan_branch V c s = Ok s3"
    using c s1(1) s2(1) s3(1) by (simp add: scan_branch_def)
  moreover have "pstate s3 = pstate s" using s1(4) s2(4) s3(4) by simp
  ultimately show ?thesis using s3(3) by (simp only: append.simps) blast
qed

lemma scan_sleep_text:
  assumes p: "pend s (its_str [(g, IExpr e)] bs @ r)" and a: "its_ok [(g, IExpr e)] bs"
    and ok: "heap_ok s" and rb: "rinv (translated_line s)"
  shows "\<exists>s' t F. scan_sleep V ins s = Ok s' \<and> scans rinv rlist [(t, IExpr e, F)] s s' \<and>
    pend s' (CHR 0x0A # r) \<and> pstate s' = pstate s"
proof -
  obtain s1 t F where s1: "scan_arg V ins False s = Ok (True, s1)" "scans rinv rlist [(t, IExpr e, F)] s s1"
    "pend s1 (its_str [] bs @ r)" "pstate s1 = pstate s" "its_ok [] bs" "heap_ok s1" "rinv (translated_line s1)"
    by (rule scan_arg_its [OF p a ok rb])
  have b: "blanks bs" "pend s1 (bs @ CHR 0x0A # r)" using s1(3,5) by (simp_all add: its_ok_def)
  note e = end_of_line_text [OF b(2,1) s1(6,7), of ins]
  have "scans rinv rlist ([(t, IExpr e, F)] @ []) s (end_of_line ins s1)"
    by (rule scans_trans [OF s1(2) e(1)])
  then show ?thesis using s1(1,4) e(2,3) by (auto simp: scan_sleep_def)
qed

text \<open>The arguments of \<open>PRINT\<close>: the loop reads one word a round.\<close>

lemma print_args_scan: "scan_arg V ins False s = Ok (True, s') \<Longrightarrow> print_args V (Suc n) s = print_args V n s'"
  by (auto simp: scan_arg_def bnd_eq_Ok split: prod.splits if_splits)

text \<open>Behind the last one the loop looks for a word on this line, and finds the next line.\<close>

lemma print_args_end:
  assumes p: "pend s (bs @ CHR 0x0A # r)" and bs: "blanks bs" and tail: "bs = [] \<or> \<not> list_all blank r"
    and len: "length bs + length r < 2 ^ 32 - 2" and ok: "heap_ok s" and rb: "rinv (translated_line s)"
  shows "\<exists>s'. print_args V (Suc n) s = Ok s' \<and> scans rinv rlist [] s s' \<and> stands s' r \<and> pstate s' = pstate s"
proof (cases bs)
  case Nil
  then have "get_next_word MAX_ALLOWED_SYMBOL_LEN True s = Ok (0, s)"
    using p by (intro next_word_newline) (simp add: pend_def)
  then show ?thesis
    using p Nil ok rb stands_pend [OF p] by (intro exI [of _ s]) (simp add: scans_Nil scan_frame_def)
next
  case (Cons c bs')
  then obtain b y t where r: "r = b @ y # t" "list_all blank b" "\<not> blank y" using tail next_nonblank by blast
  let ?b = "bs @ CHR 0x0A # b"
  have b: "?b \<noteq> []" "list_all blank ?b" using bs r(2) by (simp_all add: blanks_def isspace_def)
  have p': "pend s (?b @ y # t)" using p r(1) by simp
  note f = flush_over [OF p' b r(3)]
  let ?t = "bs' @ CHR 0x0A # b @ [y]"
  have "rest s = ?t @ t" using p' Cons by (simp add: pend_def)
  from line_differs [OF this] have "line (adv (length ?b) s) \<noteq> line s"
    using len r(1) Cons by simp
  moreover have "isspace (c_in s)" "c_in s \<noteq> 10"
    using p bs Cons by (auto simp: pend_def blanks_def of_char_newline)
  ultimately have "print_args V (Suc n) s = Ok (adv (length ?b) s)"
    using f(1) by (simp add: get_next_word_def)
  moreover have "stands (adv (length ?b) s) r"
    using stands_pend [OF f(2)] r by (simp add: stands_blanks)
  ultimately show ?thesis
    using ok rb by (auto simp: scans_Nil scan_frame_adv text_simps heap_ok_def)
qed

lemma print_args_text:
  assumes "pend s (g @ show_expr e @ its_str (zip gs (map IExpr es)) bs @ r)" and "blanks g" and "item_ok (IExpr e)"
    and "its_ok (zip gs (map IExpr es)) bs" and "length gs = length es" and tail: "bs = [] \<or> \<not> list_all blank r"
    and len: "length bs + length r < 2 ^ 32 - 2" and "heap_ok s" and "rinv (translated_line s)" and "length es + 2 \<le> n"
  shows "\<exists>s' L. print_args V n s = Ok s' \<and> items L = map IExpr (e # es) \<and> scans rinv rlist L s s' \<and> stands s' r \<and> pstate s' = pstate s"
  using assms(1-5,8-)
proof (induction es arbitrary: s g e gs n)
  case Nil
  have b: "blanks bs" "item_ok (IExpr e)" using Nil.prems(3,4) by (simp_all add: its_ok_def)
  obtain x t where x: "bs @ CHR 0x0A # r = x # t" "blank x" using blank_end [OF b(1)] by blast
  have p: "pend s (g @ show_expr e @ x # t)" using Nil.prems(1) x(1) by simp
  obtain s1 tk F where s1: "scan_arg V PRINT_SYM False s = Ok (True, s1)" "scans rinv rlist [(tk, IExpr e, F)] s s1"
    "pend s1 (x # t)" "pstate s1 = pstate s"
    by (rule scan_arg_text [OF p Nil.prems(2) _ _ x(2) Nil.prems(6,7), of False PRINT_SYM]) (use b in auto)
  have n: "n = Suc (Suc (n - 2))" using Nil.prems(8) by simp
  obtain s2 where s2: "print_args V (Suc (n - 2)) s1 = Ok s2" "scans rinv rlist [] s1 s2" "stands s2 r" "pstate s2 = pstate s1"
    using print_args_end [OF _ b(1) tail len, of s1 "n - 2"] s1(3) x(1) scansD(3,6) [OF s1(2)] by auto
  have "print_args V n s = Ok s2" using print_args_scan [OF s1(1), of "Suc (n - 2)"] n s2(1) by simp
  then show ?case
    using scans_trans [OF s1(2) s2(2)] s1(4) s2(3,4)
    by (intro exI [of _ s2] exI [of _ "[(tk, IExpr e, F)]"]) (simp add: items_def)
next
  case (Cons e' es)
  obtain g' gs' where gs: "gs = g' # gs'" "length gs' = length es" using Cons.prems(5) by (cases gs) auto
  have a: "gap g'" "item_ok (IExpr e')" "its_ok (zip gs' (map IExpr es)) bs"
    using Cons.prems(4) gs(1) by (simp_all add: its_ok_Cons)
  let ?u = "show_expr e' @ its_str (zip gs' (map IExpr es)) bs @ r"
  obtain x t where x: "g' @ ?u = x # t" "blank x" using a(1) by (cases g') (auto simp: gap_def)
  have p: "pend s (g @ show_expr e @ x # t)" using Cons.prems(1) gs(1) x(1) by simp
  obtain s1 tk F where s1: "scan_arg V PRINT_SYM False s = Ok (True, s1)" "scans rinv rlist [(tk, IExpr e, F)] s s1"
    "pend s1 (x # t)" "pstate s1 = pstate s"
    by (rule scan_arg_text [OF p Cons.prems(2) _ _ x(2) Cons.prems(6,7), of False PRINT_SYM]) (use Cons.prems(3) in auto)
  have n: "n = Suc (n - 1)" "length es + 2 \<le> n - 1" using Cons.prems(8) by simp_all
  have p1: "pend s1 (g' @ ?u)" using s1(3) x(1) by simp
  obtain s2 L where s2: "print_args V (n - 1) s1 = Ok s2" "items L = map IExpr (e' # es)" "scans rinv rlist L s1 s2"
      "stands s2 r" "pstate s2 = pstate s1"
    using Cons.IH [OF p1 gap_blanks [OF a(1)] a(2,3) gs(2) scansD(3,6) [OF s1(2)] n(2)] by blast
  have "print_args V n s = Ok s2" using print_args_scan [OF s1(1), of "n - 1"] n s2(1) by simp
  then show ?case
    using scans_trans [OF s1(2) s2(3)] s1(4) s2(2,4,5)
    by (intro exI [of _ s2] exI [of _ "(tk, IExpr e, F) # L"]) (simp add: items_def)
qed

text \<open>The string of a \<open>PRINT\<close>, from the blank behind the name to the token.\<close>

lemma scan_string:
  assumes p: "pend s (g @ CHR 0x22 # x @ CHR 0x22 # c # t)" and g: "gap g" and x: "string_ok x" and c: "blank c"
    and ok: "heap_ok s" and rb: "rinv (translated_line s)"
  obtains s3 tk a where "scan_print V ins s = (case flush_up_to_char s3 of (found, s4) \<Rightarrow>
        if \<not> found \<or> line s3 - (if c = CHR 0x0A then 1 else 0) \<noteq> line s4
        then (if c_in s4 = EOF then Ok (s4\<lparr>pstate := LAST_LINE\<rparr>) else Ok s4) else print_args V (left s4 + 3) s4)"
    "scans rinv rlist [(tk, IStr x, [a])] s s3" "pend s3 (c # t)" "pstate s3 = pstate s"
proof -
  have g: "g \<noteq> []" "list_all blank g" using g by (simp_all add: gap_def)
  let ?s1 = "adv (length g) s"
  note f = flush_over [OF p g]
  have p1: "flush_up_to_char s = (True, ?s1)" "pend ?s1 (CHR 0x22 # x @ CHR 0x22 # c # t)"
    using f by (simp_all add: isspace_def)
  then have r1: "c_in ?s1 = 34" "rest ?s1 = x @ CHR 0x22 # c # t" by (simp_all add: pend_def)
  have xs: "list_all (\<lambda>x. isprint (of_char x) \<and> x \<noteq> CHR 0x22) x" "length x < MAX_INPUT_STR_LEN" "NUL \<notin> set x"
    using x printable_word [OF x] by (simp_all add: string_ok_def)
  let ?s2 = "(adv (length x + 2) ?s1)\<lparr>input := put_word 0 x (input ?s1)\<rparr>"
  have str: "print_string 0 ?s1 = Ok (Some (length x), ?s2)"
    using print_string_text [OF r1(2) xs(1) _ c, of 0] xs(2) by simp
  have r2: "rest ?s1 = (x @ [CHR 0x22]) @ c # t" using r1(2) by simp
  have p2: "pend ?s2 (c # t)"
    using adv_c [OF r2] adv_rest [of ?s1 "x @ [CHR 0x22, c]" t] r2 by (simp add: pend_def text_simps)
  have "CHR 0x0A \<notin> set x"
  proof
    assume "CHR 0x0A \<in> set x"
    then have "isprint (of_char (CHR 0x0A))" using xs(1) unfolding list_all_iff by blast
    then show False by (simp add: isprint_def)
  qed
  then have "line ?s2 = line ?s1 + (if c = CHR 0x0A then 1 else 0)"
    using adv_lines [of ?s1 "x @ [CHR 0x22, c]" t] r2 by simp
  then have l2: "line ?s1 = line ?s2 - (if c = CHR 0x0A then 1 else 0)" by simp
  have h2: "holds (input ?s2) 0 (x @ [NUL])"
    using holds_put_word [of 0 x "input ?s1"] xs(2) by simp
  have ok2: "heap_ok ?s2" "rinv (translated_line ?s2)" and len: "length x \<le> MAX_INPUT_STR_LEN"
    using ok rb xs(2) by (simp_all add: heap_ok_def text_simps)
  obtain s3 u where s3: "add_new_token V (FromInput 0) 0 (length x + 1) STRING_TOK 0 ?s2 = Ok s3"
    "scans rinv rlist [(fresh ?s2, IStr x, [Suc (fresh ?s2)])] ?s2 s3" "c_in s3 = c_in ?s2" "fpos s3 = fpos ?s2" "fbuf s3 = fbuf ?s2"
    "pstate s3 = pstate ?s2" "line s3 = line ?s2"
    by (rule add_text_token [OF h2 xs(3) len ok2, where ty = STRING_TOK and it = "IStr x"]) simp_all
  show thesis
  proof (rule that [of s3 "fresh ?s2" "Suc (fresh ?s2)"])
    show "scan_print V ins s = (case flush_up_to_char s3 of (found, s4) \<Rightarrow>
        if \<not> found \<or> line s3 - (if c = CHR 0x0A then 1 else 0) \<noteq> line s4
        then (if c_in s4 = EOF then Ok (s4\<lparr>pstate := LAST_LINE\<rparr>) else Ok s4) else print_args V (left s4 + 3) s4)"
      using p1(1) r1(1) str s3(1,7) l2 by (simp add: scan_print_def Let_def)
    show "scans rinv rlist [(fresh ?s2, IStr x, [Suc (fresh ?s2)])] s s3"
      using scans_trans [OF _ s3(2), of "[]" s] ok2 by (simp add: scans_Nil text_simps scan_frame_adv scan_frame_def)
    show "pend s3 (c # t)" using p2 s3(3-5) pend_cong [of s3 ?s2] by simp
    show "pstate s3 = pstate s" using s3(6) by (simp add: text_simps)
  qed
qed

lemma its_str_length: "its_ok its bs \<Longrightarrow> length its \<le> length (its_str its bs)"
proof (induction its bs rule: its_str.induct)
  case (2 g it its bs)
  then have "1 \<le> length g" "length its \<le> length (its_str its bs)" by (simp_all add: its_ok_Cons gap_def Suc_le_eq)
  then show ?case by simp
qed simp

text \<open>\<open>PRINT\<close> without arguments: the next character that is no blank is on another line, or there is none.\<close>

lemma scan_print_none:
  assumes p: "pend s (its_str [(g, IStr x)] bs @ r)" and a: "its_ok [(g, IStr x)] bs"
    and len: "length bs + length r < 2 ^ 32 - 2" and ok: "heap_ok s" and rb: "rinv (translated_line s)"
  shows "\<exists>s' t F. scan_print V ins s = Ok s' \<and> scans rinv rlist [(t, IStr x, F)] s s' \<and>
    (if list_all blank r then pstate s' = LAST_LINE else stands s' r \<and> pstate s' = pstate s)"
proof -
  have a: "gap g" "string_ok x" "blanks bs" using a by (auto simp: its_ok_def)
  obtain c t where c: "bs @ CHR 0x0A # r = c # t" "blank c" using blank_end [OF a(3)] by blast
  have p': "pend s (g @ CHR 0x22 # x @ CHR 0x22 # c # t)" using p c(1) by simp
  obtain s3 tk ad where s3: "scan_print V ins s = (case flush_up_to_char s3 of (found, s4) \<Rightarrow>
        if \<not> found \<or> line s3 - (if c = CHR 0x0A then 1 else 0) \<noteq> line s4
        then (if c_in s4 = EOF then Ok (s4\<lparr>pstate := LAST_LINE\<rparr>) else Ok s4) else print_args V (left s4 + 3) s4)"
    "scans rinv rlist [(tk, IStr x, [ad])] s s3" "pend s3 (c # t)" "pstate s3 = pstate s"
    by (rule scan_string [OF p' a(1,2) c(2) ok rb])
  note D = scansD [OF s3(2)]
  have sc: "scans rinv rlist [(tk, IStr x, [ad])] s (adv n s3)" "scans rinv rlist [(tk, IStr x, [ad])] s ((adv n s3)\<lparr>pstate := q\<rparr>)" for n q
    using scans_trans [OF s3(2), of "[]" "adv n s3"] scans_trans [OF s3(2), of "[]" "(adv n s3)\<lparr>pstate := q\<rparr>"] D
    by (auto simp: scans_Nil scan_frame_def text_simps heap_ok_def)
  show ?thesis
  proof (cases "list_all blank r")
    case True
    have "list_all blank (c # t)" using True a(3) c(1) [symmetric] by (simp add: blanks_def isspace_def)
    from flush_end [OF s3(3) this] show ?thesis
      using s3(1) sc(2) True
      by (intro exI [of _ "(adv (length (c # t)) s3)\<lparr>pstate := LAST_LINE\<rparr>"] exI [of _ tk] exI [of _ "[ad]"]) simp
  next
    case False
    then obtain b y u where r: "r = b @ y # u" "list_all blank b" "\<not> blank y" by (rule next_nonblank)
    let ?b = "bs @ CHR 0x0A # b"
    have b: "?b \<noteq> []" "list_all blank ?b" using a(3) r(2) by (simp_all add: blanks_def isspace_def)
    have pb: "pend s3 (?b @ y # u)" using s3(3) c(1) r(1) by simp
    note f = flush_over [OF pb b r(3)]
    obtain b' where b': "?b = c # b'" using c(1) r(1) by (cases bs) auto
    have rest3: "rest s3 = (b' @ [y]) @ u" using pb b' by (simp add: pend_def)
    define m where "m = count_list (b' @ [y]) (CHR 0x0A)"
    have "length (?b @ [y]) < 2 ^ 32" using len r(1) by simp
    then have "(word_of_nat (count_list (?b @ [y]) (CHR 0x0A)) :: c_uint) \<noteq> 0"
      by (intro count_newlines) auto
    moreover have "count_list (?b @ [y]) (CHR 0x0A) = (if c = CHR 0x0A then 1 else 0) + m"
      unfolding b' m_def by simp
    ultimately have cnt: "(word_of_nat ((if c = CHR 0x0A then 1 else 0) + m) :: c_uint) \<noteq> 0" by metis
    have "length (b' @ [y]) = length ?b" using b' by simp
    then have "line (adv (length ?b) s3) = line s3 + word_of_nat m"
      using adv_lines [OF rest3] unfolding m_def by simp
    then have "line s3 - (if c = CHR 0x0A then 1 else 0) \<noteq> line (adv (length ?b) s3)"
      using cnt by (auto simp: diff_eq_eq ac_simps split: if_splits)
    moreover have "c_in (adv (length ?b) s3) \<noteq> EOF" using f(2) by (simp add: pend_def)
    ultimately have "scan_print V ins s = Ok (adv (length ?b) s3)" using s3(1) f(1) by simp
    moreover have "stands (adv (length ?b) s3) r" using stands_pend [OF f(2)] r by (simp add: stands_blanks)
    ultimately show ?thesis using sc(1) False s3(4) by (auto simp: text_simps)
  qed
qed

text \<open>\<open>PRINT\<close> with arguments: they begin on the line of the string.\<close>

lemma scan_print_some:
  assumes p: "pend s (its_str ((g, IStr x) # zip gs (map IExpr (e # es))) bs @ r)"
    and a: "its_ok ((g, IStr x) # zip gs (map IExpr (e # es))) bs" and gs: "length gs = length (e # es)"
    and tail: "bs = [] \<or> \<not> list_all blank r" and len: "length bs + length r < 2 ^ 32 - 2"
    and ok: "heap_ok s" and rb: "rinv (translated_line s)"
  shows "\<exists>s' L. scan_print V ins s = Ok s' \<and> items L = IStr x # map IExpr (e # es) \<and> scans rinv rlist L s s' \<and>
    stands s' r \<and> pstate s' = pstate s"
proof -
  obtain h hs where h: "gs = h # hs" "length hs = length es" using gs by (cases gs) auto
  have a: "gap g" "string_ok x" "gap h" "item_ok (IExpr e)" "its_ok (zip hs (map IExpr es)) bs"
    using a h(1) by (simp_all add: its_ok_Cons)
  let ?u = "its_str (zip hs (map IExpr es)) bs @ r"
  obtain c h' where c: "h = c # h'" "blank c" using a(3) by (cases h) (auto simp: gap_def)
  have nl: "c \<noteq> CHR 0x0A" "CHR 0x0A \<notin> set h'" "h \<noteq> []" "list_all blank h" using a(3) c(1) by (auto simp: gap_def)
  have p': "pend s (g @ CHR 0x22 # x @ CHR 0x22 # c # (h' @ show_expr e @ ?u))" using p h(1) c(1) by simp
  obtain s3 tk ad where s3: "scan_print V ins s = (case flush_up_to_char s3 of (found, s4) \<Rightarrow>
        if \<not> found \<or> line s3 - (if c = CHR 0x0A then 1 else 0) \<noteq> line s4
        then (if c_in s4 = EOF then Ok (s4\<lparr>pstate := LAST_LINE\<rparr>) else Ok s4) else print_args V (left s4 + 3) s4)"
    "scans rinv rlist [(tk, IStr x, [ad])] s s3" "pend s3 (c # (h' @ show_expr e @ ?u))" "pstate s3 = pstate s"
    by (rule scan_string [OF p' a(1,2) c(2) ok rb])
  note D = scansD [OF s3(2)]
  obtain y v where y: "show_expr e = y # v" "\<not> blank y" using show_nonblank [of e] a(4) by (cases "show_expr e") auto
  have p3: "pend s3 (h @ y # (v @ ?u))" using s3(3) y(1) c(1) by simp
  let ?s4 = "adv (length h) s3"
  note f = flush_over [OF p3 nl(3,4) y(2)]
  have "rest s3 = (h' @ [y]) @ (v @ ?u)" using p3 c(1) by (simp add: pend_def)
  moreover have "CHR 0x0A \<notin> set (h' @ [y])" using nl(2) y(2) by (auto simp: isspace_def)
  ultimately have "line (adv (length (h' @ [y])) s3) = line s3" by (rule adv_line)
  then have l4: "line ?s4 = line s3" using c(1) by simp
  have p4: "pend ?s4 ([] @ show_expr e @ ?u)" using f(2) y(1) by simp
  have ok4: "heap_ok ?s4" "rinv (translated_line ?s4)" using D by (simp_all add: heap_ok_def text_simps)
  have "left ?s4 = length (v @ ?u)" using f(2) by (simp add: pend_def left_rest)
  then have fuel: "length es + 2 \<le> left ?s4 + 3"
    using its_str_length [OF a(5)] h(2) by simp
  obtain s' L where s': "print_args V (left ?s4 + 3) ?s4 = Ok s'" "items L = map IExpr (e # es)" "scans rinv rlist L ?s4 s'"
    "stands s' r" "pstate s' = pstate ?s4"
    using print_args_text [OF p4 _ a(4,5) h(2) tail len ok4 fuel] by (auto simp: blanks_def)
  have "scan_print V ins s = Ok s'" using s3(1) f(1) l4 nl(1) s'(1) by simp
  moreover have "scans rinv rlist ([(tk, IStr x, [ad])] @ [] @ L) s s'"
    by (intro scans_trans [OF s3(2) scans_trans [OF _ s'(3)]] scans_Nil) (use ok4 in \<open>simp_all add: text_simps scan_frame_adv\<close>)
  ultimately show ?thesis
    using s'(2,4,5) s3(4) by (intro exI [of _ s'] exI [of _ "(tk, IStr x, [ad]) # L"]) (simp add: items_def text_simps)
qed

end

subsection \<open>Any statement\<close>

text \<open>Where the end of the file is lost, and where it ends the program at once.\<close>

definition tail_ok :: "stmt \<Rightarrow> string \<Rightarrow> string \<Rightarrow> bool" where
  "tail_ok st bs r \<longleftrightarrow> (case st of Print x (e # es) \<Rightarrow> bs = [] \<or> \<not> list_all blank r | _ \<Rightarrow> True)"

definition last_print :: "stmt \<Rightarrow> string \<Rightarrow> bool" where
  "last_print st r \<longleftrightarrow> (case st of Print x [] \<Rightarrow> list_all blank r | _ \<Rightarrow> False)"

context voids_lib
begin

lemma scan_done:
  assumes "scan_handler V i s = Ok s'" and "scans rinv rlist L s s'" and "pend s' (CHR 0x0A # r)" and "pstate s' = pstate s"
    and "pstate s = INSTRUCTION_LINE" and "\<not> last_print st r"
  shows "\<exists>s' M. scan_handler V i s = Ok s' \<and> items M = items L \<and> scans rinv rlist M s s' \<and>
    (if last_print st r then pstate s' = LAST_LINE else stands s' r \<and> pstate s' = INSTRUCTION_LINE)"
  using assms stands_pend [OF assms(3)] by (intro exI [of _ s'] exI [of _ L]) simp

lemma scan_do:
  assumes p: "pend s (its_str (zip gs (map IExpr (instr_args i))) bs @ r)" and a: "its_ok (zip gs (map IExpr (instr_args i))) bs"
    and gs: "length gs = length (instr_args i)" and i: "instr_ok i" and ok: "heap_ok s" and rb: "rinv (translated_line s)"
  shows "\<exists>s' L. scan_handler V (instr_ins i) s = Ok s' \<and> items L = map IExpr (instr_args i) \<and> scans rinv rlist L s s' \<and>
    pend s' (CHR 0x0A # r) \<and> pstate s' = pstate s"
proof -
  have p: "pend s (args_str (zip gs (instr_args i)) bs @ r)" and a: "args_ok (zip gs (instr_args i)) bs"
    using p a by (simp_all add: its_str_exprs its_ok_exprs)
  have v: "is_var (hd (instr_args i))" using i by (simp add: instr_ok_def)
  show ?thesis
  proof (cases i)
    case (ISet e1 e2)
    obtain g1 g2 where g: "gs = [g1, g2]" using gs ISet by (auto simp: length_Suc_conv numeral_2_eq_2)
    have "\<exists>s' t1 F1 t2 F2. scan_set V SET_SYM s = Ok s' \<and> scans rinv rlist [(t1, IExpr e1, F1), (t2, IExpr e2, F2)] s s' \<and>
        pend s' (CHR 0x0A # r) \<and> pstate s' = pstate s"
      by (rule scan_set_text) (use p a v g ISet ok rb in auto)
    then obtain s' t1 F1 t2 F2 where "scan_set V SET_SYM s = Ok s'" "scans rinv rlist [(t1, IExpr e1, F1), (t2, IExpr e2, F2)] s s'"
        "pend s' (CHR 0x0A # r)" "pstate s' = pstate s" by blast
    then show ?thesis
      by (intro exI [of _ s'] exI [of _ "[(t1, IExpr e1, F1), (t2, IExpr e2, F2)]"]) (simp add: items_def ISet)
  next
    case (IOp ins e1 e2 e3)
    obtain g1 g2 g3 where g: "gs = [g1, g2, g3]" using gs IOp by (auto simp: length_Suc_conv numeral_3_eq_3)
    have ins: "ins \<in> {ADD_SYM, SUB_SYM, MUL_SYM, DIV_SYM, MOD_SYM}" using i IOp by (simp add: instr_ok_def)
    have "\<exists>s' t1 F1 t2 F2 t3 F3. scan_primitive_op V ins s = Ok s' \<and>
        scans rinv rlist [(t1, IExpr e1, F1), (t2, IExpr e2, F2), (t3, IExpr e3, F3)] s s' \<and>
        pend s' (CHR 0x0A # r) \<and> pstate s' = pstate s"
      by (rule scan_primitive_op_text) (use p a v g IOp ok rb in auto)
    then obtain s' t1 F1 t2 F2 t3 F3 where "scan_primitive_op V ins s = Ok s'"
        "scans rinv rlist [(t1, IExpr e1, F1), (t2, IExpr e2, F2), (t3, IExpr e3, F3)] s s'"
        "pend s' (CHR 0x0A # r)" "pstate s' = pstate s" by blast
    then show ?thesis
      by (intro exI [of _ s'] exI [of _ "[(t1, IExpr e1, F1), (t2, IExpr e2, F2), (t3, IExpr e3, F3)]"])
        (simp add: items_def IOp op_handlers(1) [OF ins])
  qed
qed

lemma branch_scanner: "c \<in> {BRGT_SYM, BRGE_SYM, BRLT_SYM, BRLE_SYM, BREQ_SYM} \<Longrightarrow> scan_handler V c = scan_branch V c \<and> c \<noteq> BRA_SYM"
  by auto

lemma scan_stmt:
  assumes p: "pend s (its_str (zip gs (stmt_items st)) bs @ r)" and a: "its_ok (zip gs (stmt_items st)) bs"
    and gs: "length gs = length (stmt_items st)" and st: "stmt_ok st" and tail: "tail_ok st bs r"
    and len: "length bs + length r < 2 ^ 32 - 2" and ok: "heap_ok s" and rb: "rinv (translated_line s)"
    and ps: "pstate s = INSTRUCTION_LINE"
  shows "\<exists>s' L. scan_handler V (stmt_ins st) s = Ok s' \<and> items L = stmt_items st \<and> scans rinv rlist L s s' \<and>
    (if last_print st r then pstate s' = LAST_LINE else stands s' r \<and> pstate s' = INSTRUCTION_LINE)"
proof (cases st)
  case (Do i)
  obtain s' L where s': "scan_handler V (instr_ins i) s = Ok s'" "items L = map IExpr (instr_args i)" "scans rinv rlist L s s'"
      "pend s' (CHR 0x0A # r)" "pstate s' = pstate s"
    using scan_do [OF _ _ _ _ ok rb, of gs i bs r] p a gs st Do by auto
  show ?thesis
    using scan_done [OF s'(1,3-5) ps, of st] s'(2) Do by (simp add: last_print_def)
next
  case (Bra l)
  obtain g where g: "gs = [g]" using gs Bra by (auto simp: length_Suc_conv)
  have "pend s (its_str [(g, ILab l)] bs @ r)" "its_ok [(g, ILab l)] bs" "pstate s \<noteq> LAST_LINE" using p a g Bra ps by auto
  from scan_label_text [OF this(1,2) ok rb this(3), of BRA_SYM] obtain s' t F where
    s': "scan_branch_label V BRA_SYM s = Ok s'" "scans rinv rlist [(t, ILab l, F)] s s'" "pend s' (CHR 0x0A # r)" "pstate s' = pstate s"
    by blast
  show ?thesis
    using scan_done [OF _ s'(2-4) ps, of BRA_SYM st] s'(1) Bra by (simp add: last_print_def scan_branch_def items_def)
next
  case (Br c e1 e2 l)
  obtain g1 g2 g3 where g: "gs = [g1, g2, g3]" using gs Br by (auto simp: length_Suc_conv numeral_3_eq_3)
  have c: "scan_handler V c = scan_branch V c" "c \<noteq> BRA_SYM" using st Br branch_scanner [of c] by auto
  have "pend s (its_str [(g1, IExpr e1), (g2, IExpr e2), (g3, ILab l)] bs @ r)" "its_ok [(g1, IExpr e1), (g2, IExpr e2), (g3, ILab l)] bs"
    "pstate s \<noteq> LAST_LINE" using p a g Br ps by auto
  from scan_branch_text [OF c(2) this(1,2) ok rb this(3)] obtain s' t1 F1 t2 F2 t3 F3 where
    s': "scan_branch V c s = Ok s'" "scans rinv rlist [(t1, IExpr e1, F1), (t2, IExpr e2, F2), (t3, ILab l, F3)] s s'"
    "pend s' (CHR 0x0A # r)" "pstate s' = pstate s" by blast
  show ?thesis
    using scan_done [OF _ s'(2-4) ps, of c st] s'(1) c Br by (simp add: last_print_def items_def)
next
  case (Print x es)
  obtain g hs where g: "gs = g # hs" "length hs = length es" using gs Print by (cases gs) auto
  show ?thesis
  proof (cases es)
    case Nil
    have "pend s (its_str [(g, IStr x)] bs @ r)" "its_ok [(g, IStr x)] bs" using p a g Print Nil by auto
    from scan_print_none [OF this len ok rb, of PRINT_SYM] obtain s' t F where
      "scan_print V PRINT_SYM s = Ok s'" "scans rinv rlist [(t, IStr x, F)] s s'"
      "if list_all blank r then pstate s' = LAST_LINE else stands s' r \<and> pstate s' = pstate s" by blast
    then show ?thesis using Print Nil ps
      by (intro exI [of _ s'] exI [of _ "[(t, IStr x, F)]"]) (auto simp: items_def last_print_def)
  next
    case (Cons e es')
    have "pend s (its_str ((g, IStr x) # zip hs (map IExpr (e # es'))) bs @ r)" "its_ok ((g, IStr x) # zip hs (map IExpr (e # es'))) bs"
      "length hs = length (e # es')" "bs = [] \<or> \<not> list_all blank r"
      using p a g Print Cons tail by (auto simp: tail_ok_def)
    from scan_print_some [OF this len ok rb, of PRINT_SYM] show ?thesis
      using Print Cons ps by (simp add: last_print_def)
  qed
next
  case (Sleep e)
  obtain g where g: "gs = [g]" using gs Sleep by (auto simp: length_Suc_conv)
  have "pend s (its_str [(g, IExpr e)] bs @ r)" "its_ok [(g, IExpr e)] bs" using p a g Sleep by auto
  from scan_sleep_text [OF this ok rb, of SLEEP_SYM] obtain s' t F where
    s': "scan_sleep V SLEEP_SYM s = Ok s'" "scans rinv rlist [(t, IExpr e, F)] s s'" "pend s' (CHR 0x0A # r)" "pstate s' = pstate s"
    by blast
  show ?thesis
    using scan_done [OF _ s'(2-4) ps, of SLEEP_SYM st] s'(1) Sleep by (simp add: last_print_def items_def)
next
  case Return
  have "pend s (bs @ CHR 0x0A # r)" "list_all blank bs" using p a Return by (simp_all add: its_ok_def blanks_def)
  then have "stands s r" using stands_pend [of s "bs @ CHR 0x0A # r"] by (simp add: stands_blanks)
  then show ?thesis
    using ok rb ps Return by (intro exI [of _ s] exI [of _ "[]"]) (simp add: scan_return_def items_def scans_Nil scan_frame_def last_print_def)
qed

text \<open>A whole line, with or without a label.\<close>

lemma tokenize_sline:
  assumes s: "stands s (sline_text (pre, lab, st, gs, bs) @ r)" and l: "sline_ok (pre, lab, st, gs, bs)" and tail: "tail_ok st bs r"
    and len: "length bs + length r < 2 ^ 32 - 2" and it: "itab_ok hinv hmap (itable s)" and ok: "heap_ok s"
    and rb: "rinv (translated_line s)" and ps: "pstate s = INSTRUCTION_LINE"
  shows "\<exists>s' M L. tokenize_next_line V s = Ok s' \<and> scans rinv rlist (M @ L) s s' \<and>
    items L = IIns (stmt_ins st) # stmt_items st \<and> label_toks lab M s' (its_text st gs bs @ r) \<and>
    (if last_print st r then pstate s' = LAST_LINE else stands s' r \<and> pstate s' = INSTRUCTION_LINE)"
proof -
  let ?its = "zip gs (stmt_items st)"
  have l: "list_all blank pre" "length gs = length (stmt_items st)" "its_ok ?its bs" "stmt_ok st" using l by simp_all
  obtain x t where x: "its_str ?its bs = x # t" "blank x" by (rule its_str_blank [OF l(3)])
  obtain s1 ti M where s1: "tokenize_next_line V s = scan_handler V (stmt_ins st) s1"
    "scans rinv rlist (M @ [(ti, IIns (stmt_ins st), [])]) s s1"
    "pend s1 (its_str ?its bs @ r)" "pstate s1 = pstate s" "heap_ok s1" "rinv (translated_line s1)"
    "label_toks lab M s1 (its_text st gs bs @ r)"
  proof (cases lab)
    case None
    have "stands s (pre @ name_str (stmt_ins st) @ x # (t @ r))" using s None x(1) by (simp add: its_text_def)
    note st = this
    obtain s1 ti where
      "tokenize_next_line V s = scan_handler V (stmt_ins st) s1" "scans rinv rlist [(ti, IIns (stmt_ins st), [])] s s1"
      "pend s1 (x # t @ r)" "pstate s1 = pstate s" "heap_ok s1" "rinv (translated_line s1)"
      by (rule tokenize_ins [OF st l(1) x(2) it _ ok rb]) (simp_all add: ps)
    then show thesis using that [of s1 "[]" ti] None x(1) by simp
  next
    case (Some lg)
    then obtain lb g where lb: "lab = Some (lb, g)" by (cases lg) auto
    have lok: "label_ok lb" "gap g" using assms(2) lb by simp_all
    have "stands s (pre @ lb @ g @ name_str (stmt_ins st) @ x # (t @ r))" using s lb x(1) by (simp add: its_text_def)
    note st = this
    obtain s1 tl a ti u where
      s1: "tokenize_next_line V s = scan_handler V (stmt_ins st) s1" "scans rinv rlist [(tl, ILab lb, [a]), (ti, IIns (stmt_ins st), [])] s s1"
      "pend s1 (x # t @ r)" "pstate s1 = pstate s" "heap_ok s1" "rinv (translated_line s1)" "heap s1 tl = Some (TokB u)"
      "drop (tok_offset u) (fbuf s) = List.tl g @ name_str (stmt_ins st) @ x # t @ r"
      by (rule tokenize_label [OF st l(1) lok x(2) it _ ok rb]) (simp_all add: ps)
    have "fbuf s1 = fbuf s" using scansD(8) [OF s1(2)] by (simp add: scan_frame_def)
    then show thesis using that [of s1 "[(tl, ILab lb, [a])]" ti] s1 lb x(1) by (auto simp: its_text_def)
  qed
  note D1 = scansD [OF s1(2)]
  obtain s2 N where s2: "scan_handler V (stmt_ins st) s1 = Ok s2" "items N = stmt_items st" "scans rinv rlist N s1 s2"
    "if last_print st r then pstate s2 = LAST_LINE else stands s2 r \<and> pstate s2 = INSTRUCTION_LINE"
    using scan_stmt [OF s1(3) l(3,2,4) tail len s1(5,6)] s1(4) ps by auto
  have "label_toks lab M s2 (its_text st gs bs @ r)"
  proof -
    have "fbuf s2 = fbuf s1" using scansD(8) [OF s2(3)] by (simp add: scan_frame_def)
    moreover have "heap s2 a = heap s1 a" if a: "heap s1 a = Some b" for a b
    proof -
      have "a < fresh s1" using heap_ok_live [OF s1(5) a] by blast
      then have "a \<notin> set (blocks N)" using scansD(2) [OF s2(3)] by fastforce
      then show ?thesis by (rule scansD(5) [OF s2(3)])
    qed
    ultimately show ?thesis using s1(7) by (cases lab) auto
  qed
  moreover have "scans rinv rlist ((M @ [(ti, IIns (stmt_ins st), [])]) @ N) s s2" by (rule scans_trans [OF s1(2) s2(3)])
  ultimately show ?thesis
    using s1(1) s2(1,2,4) by (intro exI [of _ s2] exI [of _ M] exI [of _ "(ti, IIns (stmt_ins st), []) # N"]) (simp add: items_def)
qed

end

end
