(* ===== verification/LineMem.thy ===== *)
theory LineMem imports StmtScan ExecProps begin

section \<open>The memory while a line is executed\<close>

text \<open>
  \<open>mem_is A L B s\<close> accounts for all memory of a program: the blocks are those of the table of variables, which stands for the
  environment \<open>A\<close>, those of the tokens \<open>L\<close>, and \<open>B\<close>: what belongs to others or is lost, with its contents.  Every operation of a
  line consumes tokens and leaves the rest as it is.
\<close>

subsection \<open>The invariant\<close>

definition mem_is :: "('h \<Rightarrow> bool) \<Rightarrow> ('h \<Rightarrow> pairs) \<Rightarrow> env \<Rightarrow> toks \<Rightarrow> (addr \<Rightarrow> block option) \<Rightarrow> ('h, 'r) st \<Rightarrow> bool" where
  "mem_is hinv hmap A L B s \<longleftrightarrow> good hinv hmap A s \<and> toks_rep (heap s) L \<and> B \<subseteq>\<^sub>m heap s \<and>
     dom (heap s) = owned (hmap (vartable s)) \<union> set (blocks L) \<union> dom B \<and>
     set (blocks L) \<inter> owned (hmap (vartable s)) = {} \<and> dom B \<inter> (owned (hmap (vartable s)) \<union> set (blocks L)) = {}"

lemma mem_good: "mem_is hinv hmap A L B s \<Longrightarrow> good hinv hmap A s"
  by (simp add: mem_is_def)

lemma mem_cong: "heap s' = heap s \<Longrightarrow> fresh s' = fresh s \<Longrightarrow> vartable s' = vartable s \<Longrightarrow>
    mem_is hinv hmap A L B s' = mem_is hinv hmap A L B s"
  by (simp add: mem_is_def good_cong [of s' s])

lemma mem_line [simp]: "mem_is hinv hmap A L B (s\<lparr>translated_line := r\<rparr>) = mem_is hinv hmap A L B s"
  by (rule mem_cong) simp_all

lemma mem_swap: "mem_is hinv hmap A (K @ L) B s \<longleftrightarrow> mem_is hinv hmap A (L @ K) B s"
proof -
  have "toks_rep h (K @ L) \<longleftrightarrow> toks_rep h (L @ K)" for h
    by (simp add: toks_rep_def Un_commute Int_commute) blast
  then show ?thesis by (simp add: mem_is_def Un_commute)
qed

text \<open>New tokens.\<close>

lemma mem_scan:
  assumes m: "mem_is hinv hmap A L B s" and sc: "scans rinv rlist M s s'"
  shows "mem_is hinv hmap A (L @ M) B s'"
proof -
  note D = scansD [OF sc] and g = mem_good [OF m]
  note ms = m [unfolded mem_is_def]
  have vt: "vartable s' = vartable s" using D(8) by (simp add: scan_frame_def)
  have new: "b \<notin> set (blocks M)" if "b \<in> dom (heap s)" for b
  proof -
    have "b < fresh s" using that heap_ok_live [OF goodD(1) [OF g]] by blast
    then show ?thesis using D(2) by fastforce
  qed
  have keep: "heap s' b = heap s b" if "b \<in> dom (heap s)" for b
    using D(5) [OF new [OF that]] .
  have tL: "toks_rep (heap s') L"
    by (rule toks_rep_cong [of "heap s"]) (use ms keep in auto)
  have tM: "toks_rep (heap s') (L @ M)"
    by (rule toks_rep_append [OF tL D(1)]) (use ms new in blast)
  have "dom (heap s') = dom (heap s) \<union> set (blocks M)"
  proof (intro set_eqI iffI)
    fix b assume b: "b \<in> dom (heap s')"
    then show "b \<in> dom (heap s) \<union> set (blocks M)"
      using D(5) [of b] by (cases "b \<in> set (blocks M)") (simp_all add: domIff)
  next
    fix b assume "b \<in> dom (heap s) \<union> set (blocks M)"
    then show "b \<in> dom (heap s')" using keep [of b] toks_live [OF D(1), of b] by (cases "b \<in> dom (heap s)") (auto simp: domIff)
  qed
  moreover have "B \<subseteq>\<^sub>m heap s'" using ms keep by (auto simp: map_le_def)
  ultimately show ?thesis
    unfolding mem_is_def vt using scans_good [OF g sc] tM ms new unfolding vt by auto
qed

text \<open>Tokens are consumed.\<close>

lemma mem_evolve:
  assumes m: "mem_is hinv hmap A (K @ L) B s" and ev: "evolves hinv hmap (set (blocks K)) s A' s'"
  shows "mem_is hinv hmap A' L B s'"
proof -
  note g = mem_good [OF m] and ms = m [unfolded mem_is_def]
  have dis: "set (blocks L) \<inter> set (blocks K) = {}" using ms by (auto simp: toks_rep_def)
  have tL: "toks_rep (heap s) L" using ms by (auto simp: toks_rep_def)
  have own: "set (blocks L) \<inter> owned (hmap (vartable s)) = {}" using ms by auto
  note t = toks_evolve [OF goodD(1) [OF g] ev tL dis own]
  have B: "b \<notin> owned (hmap (vartable s'))" "heap s' b = heap s b" if b: "b \<in> dom B" for b
  proof -
    have "b < fresh s" using b ms heap_ok_live [OF goodD(1) [OF g]] by blast
    moreover have "b \<notin> set (blocks K)" "b \<notin> owned (hmap (vartable s))" using b ms by auto
    ultimately show "b \<notin> owned (hmap (vartable s'))" "heap s' b = heap s b" using evolves_keep [OF ev, of b] by blast+
  qed
  have "dom (heap s') = owned (hmap (vartable s')) \<union> set (blocks L) \<union> dom B"
  proof (intro set_eqI iffI)
    fix b assume b: "b \<in> dom (heap s')"
    show "b \<in> owned (hmap (vartable s')) \<union> set (blocks L) \<union> dom B"
    proof (cases "b \<in> owned (hmap (vartable s'))")
      case False
      then have "b \<notin> set (blocks K) \<union> owned (hmap (vartable s))" "heap s b = heap s' b"
        using b ev by (auto simp: evolves_def split: if_splits)
      then have "b \<in> dom (heap s)" "b \<notin> set (blocks K) \<union> owned (hmap (vartable s))" using b by (simp_all add: domIff)
      then show ?thesis using ms by auto
    qed simp
  next
    fix b assume "b \<in> owned (hmap (vartable s')) \<union> set (blocks L) \<union> dom B"
    then consider "b \<in> owned (hmap (vartable s'))" | "b \<in> set (blocks L)" | "b \<in> dom B" by blast
    then show "b \<in> dom (heap s')"
    proof cases
      case 1
      then show ?thesis using owned_live(3) [OF evolves_good [OF ev]] by blast
    next
      case 2
      then show ?thesis using toks_live [OF t(1)] by blast
    next
      case 3
      then have "b \<in> dom (heap s)" using ms by blast
      then show ?thesis using B(2) [OF 3] by (simp add: domIff)
    qed
  qed
  moreover have "B \<subseteq>\<^sub>m heap s'" using ms B(2) by (auto simp: map_le_def)
  ultimately show ?thesis
    unfolding mem_is_def using evolves_good [OF ev] t B(1) ms by auto
qed

text \<open>The text of a token and a new block are lost: nothing points to them any more.\<close>

lemma mem_lose:
  assumes m: "mem_is hinv hmap A ((tk, it, [a]) # L) B s" and tk: "tk < fresh s" and y: "heap s a = Some y"
  shows "mem_is hinv hmap A L (B(a \<mapsto> y, fresh s \<mapsto> x)) (s\<lparr>heap := (heap s)(fresh s \<mapsto> x, tk := None), fresh := Suc (fresh s)\<rparr>)"
proof -
  note g = mem_good [OF m] and ms = m [unfolded mem_is_def]
  let ?h = "(heap s)(fresh s \<mapsto> x, tk := None)"
  have f: "fresh s \<notin> dom (heap s)" "fresh s \<noteq> NULL" using goodD(1) [OF g] by (simp_all add: heap_ok_def domIff)
  have own: "b \<noteq> fresh s" "b \<noteq> tk" if "b \<in> owned (hmap (vartable s))" for b
    using that f ms by auto
  have "vinv ?h (hmap (vartable s)) A"
    by (rule vinv_cong [OF goodD(3) [OF g]]) (use own in auto)
  then have "good hinv hmap A (s\<lparr>heap := ?h, fresh := Suc (fresh s)\<rparr>)"
    using g f by (simp add: good_def heap_ok_def)
  moreover have tL: "tk \<notin> set (blocks L)" "a \<notin> set (blocks L)" "a \<noteq> tk" "toks_rep (heap s) L"
    using ms by (auto simp: toks_rep_Cons)
  moreover have "fresh s \<notin> set (blocks L)" using f ms by auto
  ultimately have "toks_rep ?h L" by (intro toks_rep_cong [OF tL(4)]) auto
  moreover have "dom ?h = owned (hmap (vartable s)) \<union> set (blocks L) \<union> insert a (insert (fresh s) (dom B))"
  proof -
    have "dom ?h = insert (fresh s) (dom (heap s)) - {tk}" using tk by auto
    also have "\<dots> = owned (hmap (vartable s)) \<union> set (blocks L) \<union> insert a (insert (fresh s) (dom B))"
      using ms tL tk by auto
    finally show ?thesis .
  qed
  moreover have "B(a \<mapsto> y, fresh s \<mapsto> x) \<subseteq>\<^sub>m ?h"
  proof -
    have "b \<in> dom B \<Longrightarrow> b \<noteq> fresh s \<and> b \<noteq> tk" for b using ms f by auto
    then show ?thesis using ms tL(3) y tk by (auto simp: map_le_def)
  qed
  ultimately show ?thesis
    using \<open>good hinv hmap A (s\<lparr>heap := ?h, fresh := Suc (fresh s)\<rparr>)\<close> ms tL \<open>fresh s \<notin> set (blocks L)\<close> own
    by (auto simp: mem_is_def)
qed

text \<open>\<open>R\<close> is what belongs to others, and \<open>n\<close> blocks more are lost.\<close>

definition lost :: "nat \<Rightarrow> (addr \<Rightarrow> block option) \<Rightarrow> (addr \<Rightarrow> block option) \<Rightarrow> bool" where
  "lost n R B \<longleftrightarrow> R \<subseteq>\<^sub>m B \<and> finite (dom B - dom R) \<and> card (dom B - dom R) = n"

lemma lost_two:
  assumes "lost n R B" and "a \<notin> dom B" "b \<notin> dom B" "a \<noteq> b"
  shows "lost (n + 2) R (B(a \<mapsto> x, b \<mapsto> y))"
proof -
  have l: "R \<subseteq>\<^sub>m B" "finite (dom B - dom R)" "card (dom B - dom R) = n" using assms(1) by (simp_all add: lost_def)
  have "dom (B(a \<mapsto> x, b \<mapsto> y)) - dom R = insert a (insert b (dom B - dom R))"
    using assms(2,3) map_le_implies_dom_le [OF l(1)] by auto
  moreover have "R \<subseteq>\<^sub>m B(a \<mapsto> x, b \<mapsto> y)" using l(1) assms(2,3) by (auto simp: map_le_def dom_def)
  ultimately show ?thesis using l(2,3) assms(2-4) by (simp add: lost_def)
qed

subsection \<open>What does not change\<close>

definition calm :: "('h, 'r) st \<Rightarrow> ('h, 'r) st \<Rightarrow> bool" where
  "calm s s' \<longleftrightarrow> argv s' = argv s \<and> mem_max s' = mem_max s \<and> gtab s' = gtab s \<and> itable s' = itable s \<and> out s' = out s \<and>
     error_flag s' = error_flag s \<and> fbuf s' = fbuf s \<and> pstate s' = pstate s \<and> c_in s' = c_in s \<and> fpos s' = fpos s"

lemma calm_refl [simp]: "calm s s"
  by (simp add: calm_def)

lemma calm_trans: "calm s s1 \<Longrightarrow> calm s1 s2 \<Longrightarrow> calm s s2"
  by (simp add: calm_def)

lemma calm_evolves: "evolves hinv hmap F s A s' \<Longrightarrow> calm s s'"
  by (simp add: calm_def evolves_fields)

lemma calmD:
  assumes "calm s s'"
  shows "argv s' = argv s" "mem_max s' = mem_max s" "gtab s' = gtab s" "itable s' = itable s" "out s' = out s"
    "error_flag s' = error_flag s" "fbuf s' = fbuf s" "pstate s' = pstate s" "c_in s' = c_in s" "fpos s' = fpos s"
  using assms by (simp_all add: calm_def)

text \<open>The fields that only \<open>PRINT\<close> and the exceptions touch.\<close>

definition same :: "('h, 'r) st \<Rightarrow> ('h, 'r) st \<Rightarrow> bool" where
  "same s s' \<longleftrightarrow> argv s' = argv s \<and> mem_max s' = mem_max s \<and> gtab s' = gtab s \<and> itable s' = itable s \<and>
     out s' = out s \<and> error_flag s' = error_flag s \<and> fbuf s' = fbuf s"

lemma same_simps: "calm s s' \<Longrightarrow> same s s'" "scan_frame s s' \<Longrightarrow> same s s'" "same s s1 \<Longrightarrow> same s1 s2 \<Longrightarrow> same s s2"
  by (auto simp: same_def calmD scan_frame_def)

subsection \<open>Tokens are freed\<close>

lemma free_chain_ok:
  assumes "rep (heap s) INT_ARR_TOK (Ptr a) (EArr x e) F" and "distinct F" and "edepth e < n"
  shows "free_chain n a s = Ok (s\<lparr>heap := \<lambda>b. if b \<in> set F then None else heap s b\<rparr>)"
  using assms
proof (induction e arbitrary: a x F n s)
  case (EVal v)
  then obtain m k where n: "n = Suc m" and F: "F = [a, k]" "a \<noteq> NULL" "k \<noteq> NULL" "heap s k = Some (StrB x)"
    "heap s a = Some (ArrTokB \<lparr>at_idx = Value v, at_idx_type = Some INT_VAL_TOK, at_name = k\<rparr>)" by (cases n) auto
  then show ?case using EVal.prems(2) by (auto simp: mem_simps intro!: arg_cong [where f = "\<lambda>h. s\<lparr>heap := h\<rparr>"])
next
  case (EVar y)
  then obtain m k b where n: "n = Suc m" and F: "F = [a, k, b]" "a \<noteq> NULL" "k \<noteq> NULL" "b \<noteq> NULL" "heap s k = Some (StrB x)"
    "heap s b = Some (StrB y)" "heap s a = Some (ArrTokB \<lparr>at_idx = Ptr b, at_idx_type = Some INT_VAR_TOK, at_name = k\<rparr>)" by (cases n) auto
  then show ?case using EVar.prems(2) by (auto simp: mem_simps intro!: arg_cong [where f = "\<lambda>h. s\<lparr>heap := h\<rparr>"])
next
  case (EArr y e)
  then obtain m k b F' where n: "n = Suc m" "edepth e < m" and F: "F = a # k # F'" "a \<noteq> NULL" "k \<noteq> NULL" "heap s k = Some (StrB x)"
    "heap s a = Some (ArrTokB \<lparr>at_idx = Ptr b, at_idx_type = Some INT_ARR_TOK, at_name = k\<rparr>)"
    "rep (heap s) INT_ARR_TOK (Ptr b) (EArr y e) F'" by (cases n) (auto simp del: rep.simps, auto)
  let ?s = "s\<lparr>heap := (heap s)(k := None, a := None)\<rparr>"
  have "rep (heap ?s) INT_ARR_TOK (Ptr b) (EArr y e) F'"
    by (rule rep_cong [OF F(6)]) (use EArr.prems(2) F(1) in auto)
  from EArr.IH [OF this _ n(2)] have "free_chain m b ?s = Ok (?s\<lparr>heap := \<lambda>b. if b \<in> set F' then None else heap ?s b\<rparr>)"
    using EArr.prems(2) F(1) by simp
  moreover have "free_chain n a s = free_chain m b ?s"
    using n(1) F(2-5) EArr.prems(2) F(1) by (simp add: mem_simps)
  ultimately show ?case using F(1) by (auto intro!: arg_cong [where f = "\<lambda>h. s\<lparr>heap := h\<rparr>"])
qed

lemma evolves_frees:
  assumes g: "good hinv hmap A s" and F: "F \<inter> owned (hmap (vartable s)) = {}"
  shows "evolves hinv hmap F s A (s\<lparr>heap := \<lambda>b. if b \<in> F then None else heap s b\<rparr>)"
proof -
  have "vinv (\<lambda>b. if b \<in> F then None else heap s b) (hmap (vartable s)) A"
    by (rule vinv_cong [OF goodD(3) [OF g]]) (use F in auto)
  then have "good hinv hmap A (s\<lparr>heap := \<lambda>b. if b \<in> F then None else heap s b\<rparr>)"
    using g by (simp add: good_def heap_ok_def)
  then show ?thesis by (auto simp: evolves_def)
qed

lemma free_token_ok:
  assumes tr: "toks_rep (heap s) [(tk, it, F)]" and ok: "heap_ok s"
  shows "free_token tk s = Ok (s\<lparr>heap := \<lambda>b. if b \<in> set (tk # F) then None else heap s b\<rparr>)"
proof -
  obtain t where t: "heap s tk = Some (TokB t)" "item_rep (heap s) t it F" "distinct (tk # F)"
    using tr by (auto simp: toks_rep_Cons)
  have tk: "tk \<noteq> NULL" "0 < fresh s" using heap_ok_live [OF ok t(1)] by auto
  have one: "free_token tk s = Ok (s\<lparr>heap := \<lambda>b. if b \<in> set (tk # F) then None else heap s b\<rparr>)"
    if "tok_type t = LABEL_TOK \<or> tok_type t = INT_VAR_TOK \<or> tok_type t = STRING_TOK" "tok_data t = Ptr a" "a \<noteq> NULL"
      "heap s a = Some (StrB x)" "F = [a]" for a x
    using that t(1,3) tk(1) by (auto simp: free_token_def mem_simps intro!: arg_cong [where f = "\<lambda>h. s\<lparr>heap := h\<rparr>"])
  have none: "free_token tk s = Ok (s\<lparr>heap := \<lambda>b. if b \<in> set (tk # F) then None else heap s b\<rparr>)"
    if "tok_type t = INSTRUCTION_TOK \<or> tok_type t = INT_VAL_TOK" "F = []"
    using that t(1) tk(1) by (auto simp: free_token_def mem_simps intro!: arg_cong [where f = "\<lambda>h. s\<lparr>heap := h\<rparr>"])
  show ?thesis
  proof (cases it)
    case (IExpr e)
    show ?thesis
    proof (cases e)
      case (EArr x e')
      then obtain a where a: "tok_type t = INT_ARR_TOK" "tok_data t = Ptr a" "a \<noteq> NULL" using t(2) IExpr by auto
      have r: "rep (heap s) INT_ARR_TOK (Ptr a) (EArr x e') F" using t(2) IExpr EArr a by simp
      have "edepth e' < Suc (fresh s)" using rep_fuel [OF ok r] t(3) by simp
      then have "free_chain (Suc (fresh s)) a s = Ok (s\<lparr>heap := \<lambda>b. if b \<in> set F then None else heap s b\<rparr>)"
        using free_chain_ok [OF r, of "Suc (fresh s)"] t(3) by (simp del: free_chain.simps)
      then have "free_int_arr_tok a s = Ok (s\<lparr>heap := \<lambda>b. if b \<in> set F then None else heap s b\<rparr>)"
        using a(3) by (simp only: free_int_arr_tok_def if_False)
      then show ?thesis
        using a(1,2) t(1,3) tk by (auto simp: free_token_def mem_simps intro!: arg_cong [where f = "\<lambda>h. s\<lparr>heap := h\<rparr>"])
    qed (use t(2) IExpr one none in auto)
  qed (use t(2) one none in auto)
qed

lemma mem_free:
  assumes m: "mem_is hinv hmap A ((tk, it, F) # L) B s"
  obtains s' where "free_token tk s = Ok s'" "mem_is hinv hmap A L B s'" "calm s s'" "translated_line s' = translated_line s"
proof -
  note g = mem_good [OF m] and ms = m [unfolded mem_is_def]
  have tr: "toks_rep (heap s) [(tk, it, F)]" using ms by (auto simp: toks_rep_def)
  let ?s = "s\<lparr>heap := \<lambda>b. if b \<in> set (tk # F) then None else heap s b\<rparr>"
  have "set (tk # F) \<inter> owned (hmap (vartable s)) = {}" using ms by auto
  from evolves_frees [OF g this] have "evolves hinv hmap (set (blocks [(tk, it, F)])) s A ?s" by simp
  from mem_evolve [where K = "[(tk, it, F)]" and L = L and B = B, OF _ this] m have "mem_is hinv hmap A L B ?s" by simp
  then show thesis using that [of ?s] free_token_ok [OF tr goodD(1) [OF g]] by (simp add: calm_def)
qed

lemma mem_free_heap:
  assumes m: "mem_is hinv hmap A ((tk, it, F) # L) B s" and f: "free_token tk s = Ok s'" and b: "b \<notin> set (tk # F)"
  shows "heap s' b = heap s b"
proof -
  have "toks_rep (heap s) [(tk, it, F)]" using m by (auto simp: mem_is_def toks_rep_def)
  from free_token_ok [OF this goodD(1) [OF mem_good [OF m]]] f b show ?thesis by auto
qed

lemma mem_fresh: "mem_is hinv hmap A ((tk, it, F) # L) B s \<Longrightarrow> tk < fresh s \<and> tk \<noteq> NULL"
  by (auto simp: mem_is_def toks_rep_Cons good_def dest: heap_ok_live)

subsection \<open>The definition of a label\<close>

definition label_of :: "token_s \<Rightarrow> label_data_s" where
  "label_of u = \<lparr>lbl_placeholder = -1, lbl_line = tok_line u, lbl_column = tok_column u, lbl_prev_col = tok_prev_col u,
     lbl_offset = tok_offset u\<rparr>"

context voids_lib
begin

lemma drain_ok:
  assumes "mem_is hinv hmap A (L @ K) B s" and "rinv (translated_line s)" and "rlist (translated_line s) = map fst L" and "length L < n"
  shows "\<exists>s'. drain V n s = Ok s' \<and> mem_is hinv hmap A K B s' \<and> calm s s' \<and> rinv (translated_line s') \<and> rlist (translated_line s') = [] \<and>
    (\<forall>b. b \<notin> set (blocks L) \<longrightarrow> heap s' b = heap s b)"
  using assms
proof (induction L arbitrary: s n)
  case Nil
  then obtain m where n: "n = Suc m" by (cases n) auto
  have "ring_read V s = (NULL, VDS_BUFFER_EMPTY, s\<lparr>translated_line := translated_line s\<rparr>)"
    using read_Nil [OF Nil.prems(2)] Nil.prems(3) by (simp add: ring_read_def)
  then have "drain V n s = Ok s" using n by (simp add: free_token_def)
  then show ?case using Nil.prems by simp
next
  case (Cons x L)
  obtain tk it F where x: "x = (tk, it, F)" by (cases x) auto
  obtain m where n: "n = Suc m" "length L < m" using Cons.prems(4) by (cases n) auto
  obtain r where r: "ring_read V s = (tk, VDS_SUCCESS, s\<lparr>translated_line := r\<rparr>)" "rinv r" "rlist r = map fst L"
    by (rule next_token_Cons [OF Cons.prems(2), of tk "map fst L"]) (use Cons.prems(3) x in auto)
  have "mem_is hinv hmap A ((tk, it, F) # L @ K) B (s\<lparr>translated_line := r\<rparr>)" using Cons.prems(1) x by simp
  from mem_free [OF this] obtain s1 where s1: "free_token tk (s\<lparr>translated_line := r\<rparr>) = Ok s1" "mem_is hinv hmap A (L @ K) B s1"
      "calm (s\<lparr>translated_line := r\<rparr>) s1" "translated_line s1 = r" by auto
  have h1: "heap s1 b = heap s b" if "b \<notin> set (tk # F)" for b
    using mem_free_heap [of hinv hmap A tk it F "L @ K" B "s\<lparr>translated_line := r\<rparr>" s1 b] Cons.prems(1) x s1(1) that by simp
  obtain s2 where s2: "drain V m s1 = Ok s2" "mem_is hinv hmap A K B s2" "calm s1 s2" "rinv (translated_line s2)" "rlist (translated_line s2) = []"
      "\<forall>b. b \<notin> set (blocks L) \<longrightarrow> heap s2 b = heap s1 b"
    using Cons.IH [OF s1(2) _ _ n(2)] r(2,3) s1(4) by auto
  have "calm s s2" using s1(3) s2(3) by (simp add: calm_def)
  moreover have "heap s2 b = heap s b" if "b \<notin> set (blocks (x # L))" for b using s2(6) h1 [of b] x that by simp
  ultimately show ?case using n(1) r(1) s1(1) s2 by auto
qed

lemma drain_fuel: "rinv (translated_line s) \<Longrightarrow> rlist (translated_line s) = map fst L \<Longrightarrow> length L < ring_fuel V s"
  using rb_items [of "translated_line s"] by (simp add: ring_fuel_def)

lemma insert_label_new:
  assumes m: "mem_is hinv hmap A ((tk, ILab l, [a]) # L) B s" and u: "heap s tk = Some (TokB u)" and A: "A l = None"
  obtains nl s1 where "insert_label_to_vartable V tk s = Ok (nl, s1)" "nl \<noteq> NULL" "heap s1 nl = Some (LabelB (label_of u))"
    "heap s1 tk \<noteq> None" "tk \<noteq> NULL" "mem_is hinv hmap (A(l \<mapsto> VLabel (label_of u))) L B (s1\<lparr>heap := (heap s1)(tk := None)\<rparr>)"
    "calm s s1" "translated_line s1 = translated_line s"
proof -
  note g = mem_good [OF m] and ms = m [unfolded mem_is_def] and tk = mem_fresh [OF m]
  have a: "tok_data u = Ptr a" "a \<noteq> NULL" "heap s a = Some (StrB l)" "a \<noteq> tk" using ms u by (auto simp: toks_rep_Cons)
  have fa: "a < fresh s" using heap_ok_live [OF goodD(1) [OF g] a(3)] by simp
  have "hmap (vartable s) l = None" using vinv_None [OF goodD(3) [OF g], of l] A by simp
  from insert_new [OF goodD(2) [OF g] this, of a "fresh s"] obtain h p where
    h: "qh_insert V (vartable s) l a (fresh s) = (h, Some p, VDS_SUCCESS)" "hinv h" "hmap h = (hmap (vartable s))(l \<mapsto> (a, fresh s))" by blast
  let ?s1 = "s\<lparr>heap := (heap s)(fresh s \<mapsto> enc (VLabel (label_of u))), fresh := Suc (fresh s), vartable := h\<rparr>"
  have ev1: "evolves hinv hmap {a} s (A(l \<mapsto> VLabel (label_of u))) ?s1"
    by (rule evolves_insert [OF g A _ a(3) h(2,3)]) (simp add: label_of_def)
  have "tk \<notin> owned (hmap (vartable s))" using ms by auto
  then have "tk \<notin> owned (hmap (vartable ?s1))" using evolves_keep(2) [OF ev1, of tk] tk a(4) by auto
  then have "evolves hinv hmap {tk} ?s1 (A(l \<mapsto> VLabel (label_of u))) (?s1\<lparr>heap := (heap ?s1)(tk := None)\<rparr>)"
    by (rule evolves_free [OF evolves_good [OF ev1]])
  from evolves_trans [OF goodD(1) [OF g] ev1 this]
  have "evolves hinv hmap (set (blocks [(tk, ILab l, [a])])) s (A(l \<mapsto> VLabel (label_of u))) (?s1\<lparr>heap := (heap ?s1)(tk := None)\<rparr>)"
    by (simp add: insert_commute)
  from mem_evolve [where K = "[(tk, ILab l, [a])]" and L = L and B = B, OF _ this] m
  have "mem_is hinv hmap (A(l \<mapsto> VLabel (label_of u))) L B (?s1\<lparr>heap := (heap ?s1)(tk := None)\<rparr>)" by simp
  moreover have "insert_label_to_vartable V tk s = Ok (fresh s, ?s1)"
    using u a tk fa h(1) by (simp add: insert_label_to_vartable_def mem_simps alloc_def label_of_def)
  ultimately show thesis
    using that [of "fresh s" ?s1] good_NULL [OF g] tk u by (simp add: calm_def)
qed

lemma insert_label_old:
  assumes m: "mem_is hinv hmap A ((tk, ILab l, [a]) # L) B s" and u: "heap s tk = Some (TokB u)"
    and A: "A l = Some (VLabel lab)" "lbl_offset lab = tok_offset u"
  obtains nl s1 where "insert_label_to_vartable V tk s = Ok (nl, s1)" "nl \<noteq> NULL" "heap s1 tk \<noteq> None" "tk \<noteq> NULL"
    "mem_is hinv hmap A L (B(a \<mapsto> StrB l, fresh s \<mapsto> LabelB (label_of u))) (s1\<lparr>heap := (heap s1)(tk := None)\<rparr>)" "calm s s1"
    "translated_line s1 = translated_line s"
proof -
  note g = mem_good [OF m] and ms = m [unfolded mem_is_def] and tk = mem_fresh [OF m]
  have a: "tok_data u = Ptr a" "a \<noteq> NULL" "heap s a = Some (StrB l)" using ms u by (auto simp: toks_rep_Cons)
  have fa: "a < fresh s" using heap_ok_live [OF goodD(1) [OF g] a(3)] by simp
  obtain ka da where hm: "hmap (vartable s) l = Some (ka, da)"
    using vinv_None [OF goodD(3) [OF g], of l] A by (cases "hmap (vartable s) l") auto
  obtain w where w: "A l = Some w" "da \<noteq> NULL" "heap s da = Some (enc w)" by (rule vinv_Some [OF goodD(3) [OF g] hm])
  have da: "da < fresh s" "heap s da = Some (LabelB lab)" using heap_ok_live [OF goodD(1) [OF g] w(3)] w A by auto
  from insert_old [OF goodD(2) [OF g] hm, of a "fresh s"] obtain p where
    p: "qh_insert V (vartable s) l a (fresh s) = (vartable s, Some p, VDS_KEY_EXISTS)" "qh_valid V (vartable s) p"
      "qh_pair V (vartable s) p = (ka, da)" by blast
  let ?s1 = "s\<lparr>heap := (heap s)(fresh s \<mapsto> LabelB (label_of u)), fresh := Suc (fresh s)\<rparr>"
  have vt: "s\<lparr>heap := h, fresh := n, vartable := vartable s\<rparr> = s\<lparr>heap := h, fresh := n\<rparr>" for h n by (cases s) simp
  have "insert_label_to_vartable V tk s = Ok (fresh s, ?s1)"
    using u a tk fa p w(2) da A(2) by (simp add: insert_label_to_vartable_def mem_simps alloc_def label_of_def pair_data_def vt Let_def)
  moreover have "mem_is hinv hmap A L (B(a \<mapsto> StrB l, fresh s \<mapsto> LabelB (label_of u))) (?s1\<lparr>heap := (heap ?s1)(tk := None)\<rparr>)"
  proof -
    have "?s1\<lparr>heap := (heap ?s1)(tk := None)\<rparr> = s\<lparr>heap := (heap s)(fresh s \<mapsto> LabelB (label_of u), tk := None), fresh := Suc (fresh s)\<rparr>"
      by (cases s) simp
    then show ?thesis by (rule ssubst) (rule mem_lose [OF m conjunct1 [OF tk] a(3)])
  qed
  ultimately show thesis
    using that [of "fresh s" ?s1] good_NULL [OF g] tk u by (simp add: calm_def)
qed

end

end
