(* ===== verification/Machine.thy ===== *)
theory Machine imports Source ExecRefine begin

section \<open>The abstract machine of whole programs\<close>

text \<open>
  The machine runs a list of source lines with a counter.  Its environment holds arrays and labels; a label holds the number of its line.
  A label is known when its line was passed or jumped to; a jump to a label that is not known looks at the lines ahead only.  The machine has
  no step where the code stops the program with an error or its behaviour is undefined.
\<close>

subsection \<open>Statements\<close>

datatype act = Next env "event list" | Jump string env | Doze c_int env | Halt env

fun agets :: "c_int list \<Rightarrow> nat \<Rightarrow> env \<Rightarrow> expr list \<Rightarrow> (c_int list \<times> env) option" where
  "agets av mm A [] = Some ([], A)"
| "agets av mm A (e # es) = (case aget av mm A e of None \<Rightarrow> None
     | Some (v, A1, _) \<Rightarrow> (case agets av mm A1 es of None \<Rightarrow> None | Some (vs, A2) \<Rightarrow> Some (v # vs, A2)))"

fun br_cond :: "instruction_id_e \<Rightarrow> int \<Rightarrow> int \<Rightarrow> bool" where
  "br_cond BRGT_SYM a b \<longleftrightarrow> b < a"
| "br_cond BRGE_SYM a b \<longleftrightarrow> b \<le> a"
| "br_cond BRLT_SYM a b \<longleftrightarrow> a < b"
| "br_cond BRLE_SYM a b \<longleftrightarrow> a \<le> b"
| "br_cond i a b \<longleftrightarrow> a = b"

fun sexec :: "c_int list \<Rightarrow> nat \<Rightarrow> env \<Rightarrow> stmt \<Rightarrow> act option" where
  "sexec av mm A (Do i) = (case istep av mm A i of None \<Rightarrow> None | Some A1 \<Rightarrow> Some (Next A1 []))"
| "sexec av mm A (Bra l) = Some (Jump l A)"
| "sexec av mm A (Br i e1 e2 l) = (case aget av mm A e1 of None \<Rightarrow> None
     | Some (v, A1, _) \<Rightarrow> (case aget av mm A1 e2 of None \<Rightarrow> None
       | Some (w, A2, _) \<Rightarrow> Some (if br_cond i (sint v) (sint w) then Jump l A2 else Next A2 [])))"
| "sexec av mm A (Print x es) = (case agets av mm A es of None \<Rightarrow> None
     | Some (vs, A1) \<Rightarrow> Some (Next A1 (Says (av ! 0) # SaysStr x # map SaysInt vs @ [SaysNl])))"
| "sexec av mm A (Sleep e) = (case aget av mm A e of None \<Rightarrow> None
     | Some (v, A1, _) \<Rightarrow> if 0 < sint v then Some (Doze v A1) else None)"
| "sexec av mm A Return = Some (Halt A)"

subsection \<open>The machine\<close>

text \<open>
  \<open>m_past\<close>: the label of the line at the counter is behind, as it is after a jump.  \<open>m_lost\<close> counts the blocks that nothing
  points to any more: two for each time a line with a label that is known is passed.
\<close>

datatype mode = Running | Asleep c_int | Ended

record mach =
  m_pc :: nat
  m_past :: bool
  m_env :: env
  m_out :: "event list"
  m_lost :: nat
  m_mode :: mode

definition at_line :: "nat \<Rightarrow> label_data_s" where
  "at_line k = \<lparr>lbl_placeholder = -1, lbl_line = 0, lbl_column = 0, lbl_prev_col = 0, lbl_offset = k\<rparr>"

text \<open>The label of the line at the counter is defined.\<close>

definition mlabel :: "sline list \<Rightarrow> mach \<Rightarrow> mach option" where
  "mlabel P m = (if m_past m then Some m else case line_label (P ! m_pc m) of None \<Rightarrow> Some m
     | Some l \<Rightarrow> (case m_env m l of
         None \<Rightarrow> Some (m\<lparr>m_env := (m_env m)(l \<mapsto> VLabel (at_line (m_pc m)))\<rparr>)
       | Some (VArr xs) \<Rightarrow> None
       | Some (VLabel d) \<Rightarrow> if lbl_offset d = m_pc m then Some (m\<lparr>m_lost := m_lost m + 2\<rparr>) else None))"

fun first_label :: "string \<Rightarrow> nat \<Rightarrow> sline list \<Rightarrow> nat option" where
  "first_label l k [] = None"
| "first_label l k (x # P) = (if line_label x = Some l then Some k else first_label l (Suc k) P)"

text \<open>A \<open>PRINT\<close> without arguments on the last line ends the program at once, and cannot be jumped to.\<close>

definition ends_here :: "sline list \<Rightarrow> nat \<Rightarrow> bool" where
  "ends_here P k \<longleftrightarrow> Suc k = length P \<and> (case line_stmt (P ! k) of Print x [] \<Rightarrow> True | _ \<Rightarrow> False)"

definition mjump :: "sline list \<Rightarrow> mach \<Rightarrow> string \<Rightarrow> env \<Rightarrow> mach option" where
  "mjump P m l A = (case A l of
     Some (VLabel d) \<Rightarrow> Some (m\<lparr>m_env := A, m_pc := lbl_offset d, m_past := True\<rparr>)
   | Some (VArr xs) \<Rightarrow> None
   | None \<Rightarrow> (case first_label l (Suc (m_pc m)) (drop (Suc (m_pc m)) P) of None \<Rightarrow> None
       | Some k \<Rightarrow> if ends_here P k then None
           else Some (m\<lparr>m_env := A(l \<mapsto> VLabel (at_line k)), m_pc := k, m_past := True\<rparr>)))"

definition mstep :: "c_int list \<Rightarrow> nat \<Rightarrow> sline list \<Rightarrow> mach \<Rightarrow> mach option" where
  "mstep av mm P m =
     (if m_mode m \<noteq> Running then None
      else if length P \<le> m_pc m then Some (m\<lparr>m_mode := Ended\<rparr>)
      else case mlabel P m of None \<Rightarrow> None
        | Some m \<Rightarrow> (case sexec av mm (m_env m) (line_stmt (P ! m_pc m)) of
              None \<Rightarrow> None
            | Some (Jump l A) \<Rightarrow> mjump P m l A
            | Some (Halt A) \<Rightarrow> Some (m\<lparr>m_env := A, m_mode := Ended\<rparr>)
            | Some (Doze v A) \<Rightarrow> Some (m\<lparr>m_env := A, m_mode := Asleep v, m_pc := Suc (m_pc m), m_past := False\<rparr>)
            | Some (Next A ev) \<Rightarrow> Some (m\<lparr>m_env := A, m_out := m_out m @ ev, m_pc := Suc (m_pc m), m_past := False,
                m_mode := (if ends_here P (m_pc m) then Ended else Running)\<rparr>)))"

text \<open>The machine for at most \<open>n\<close> steps: it stops when it is no longer running.\<close>

fun mrun :: "c_int list \<Rightarrow> nat \<Rightarrow> sline list \<Rightarrow> nat \<Rightarrow> mach \<Rightarrow> mach option" where
  "mrun av mm P 0 m = Some m"
| "mrun av mm P (Suc n) m = (if m_mode m = Running then (case mstep av mm P m of None \<Rightarrow> None | Some m \<Rightarrow> mrun av mm P n m) else Some m)"

definition minit :: mach where
  "minit = \<lparr>m_pc = 0, m_past = False, m_env = Map.empty, m_out = [], m_lost = 0, m_mode = Running\<rparr>"

subsection \<open>Environments that differ in the data of their labels\<close>

fun vrel :: "(label_data_s \<Rightarrow> label_data_s \<Rightarrow> bool) \<Rightarrow> var option \<Rightarrow> var option \<Rightarrow> bool" where
  "vrel Q None None \<longleftrightarrow> True"
| "vrel Q (Some (VArr xs)) (Some (VArr ys)) \<longleftrightarrow> xs = ys"
| "vrel Q (Some (VLabel l)) (Some (VLabel d)) \<longleftrightarrow> Q l d"
| "vrel Q a b \<longleftrightarrow> False"

definition erel :: "(string \<Rightarrow> label_data_s \<Rightarrow> label_data_s \<Rightarrow> bool) \<Rightarrow> env \<Rightarrow> env \<Rightarrow> bool" where
  "erel Q A M \<longleftrightarrow> (\<forall>x. vrel (Q x) (A x) (M x))"

lemma vrel_simps [simp]: "vrel Q a None \<longleftrightarrow> a = None" "vrel Q None b \<longleftrightarrow> b = None"
  "vrel Q a (Some (VArr xs)) \<longleftrightarrow> a = Some (VArr xs)" "vrel Q (Some (VArr xs)) b \<longleftrightarrow> b = Some (VArr xs)"
  "vrel Q a (Some (VLabel d)) \<longleftrightarrow> (\<exists>l. a = Some (VLabel l) \<and> Q l d)"
proof -
  show "vrel Q a None \<longleftrightarrow> a = None" "vrel Q a (Some (VArr xs)) \<longleftrightarrow> a = Some (VArr xs)"
    "vrel Q a (Some (VLabel d)) \<longleftrightarrow> (\<exists>l. a = Some (VLabel l) \<and> Q l d)"
    by (cases a; cases "the a"; auto)+
  show "vrel Q None b \<longleftrightarrow> b = None" "vrel Q (Some (VArr xs)) b \<longleftrightarrow> b = Some (VArr xs)"
    by (cases b; cases "the b"; auto)+
qed

lemma erelD: "erel Q A M \<Longrightarrow> vrel (Q x) (A x) (M x)"
  by (simp add: erel_def)

lemma erel_None: "erel Q A M \<Longrightarrow> M x = None \<longleftrightarrow> A x = None"
  using erelD [of Q A M x] by (cases "M x"; cases "the (M x)") auto

lemma erel_arr: "erel Q A M \<Longrightarrow> M x = Some (VArr xs) \<longleftrightarrow> A x = Some (VArr xs)"
  using erelD [of Q A M x] by (cases "M x"; cases "the (M x)") auto

lemma erel_upd: "erel Q A M \<Longrightarrow> erel Q (A(x \<mapsto> VArr xs)) (M(x \<mapsto> VArr xs))"
  by (simp add: erel_def)

text \<open>Reading changes no label.\<close>

lemma aget_keeps: "aget av mm A e = Some (v, A', ins) \<Longrightarrow> A x = Some (VLabel l) \<Longrightarrow> A' x = Some (VLabel l)"
proof (induction e arbitrary: v A' ins)
  case (EArr y e)
  obtain w A1 ins1 where a: "aget av mm A e = Some (w, A1, ins1)" using EArr.prems(1) by (auto split: option.splits)
  have "A1 x = Some (VLabel l)" by (rule EArr.IH [OF a EArr.prems(2)])
  then show ?case using EArr.prems a by (auto split: if_splits option.splits var.splits)
qed (auto split: if_splits option.splits var.splits)

lemma changed_rel:
  assumes r: "erel Q A M" "erel Q A' M'" and k: "\<And>l. A x = Some (VLabel l) \<Longrightarrow> A' x = Some (VLabel l)" "\<And>l. M x = Some (VLabel l) \<Longrightarrow> M' x = Some (VLabel l)"
  shows "A' x = A x \<longleftrightarrow> M' x = M x"
proof (cases "M x")
  case None
  then show ?thesis using erel_None [OF r(1), of x] erel_None [OF r(2), of x] by auto
next
  case (Some w)
  then show ?thesis
  proof (cases w)
    case (VArr xs)
    then show ?thesis using Some erel_arr [OF r(1), of x xs] erel_arr [OF r(2), of x xs] by auto
  next
    case (VLabel d)
    then obtain l where "A x = Some (VLabel l)" using Some erelD [OF r(1), of x] by auto
    then show ?thesis using k Some VLabel by auto
  qed
qed

lemma aget_rel:
  assumes "erel Q A M" and "aget av mm M e = Some (v, M', ins)"
  shows "\<exists>A'. aget av mm A e = Some (v, A', ins) \<and> erel Q A' M'"
  using assms
proof (induction e arbitrary: v M' ins)
  case (EVal w)
  then show ?case by auto
next
  case (EVar x)
  then show ?case
    using erelD [of Q A M x] by (cases "M x"; cases "the (M x)") (auto split: if_splits intro: erel_upd)
next
  case (EArr x e)
  obtain w M1 ins1 where m: "aget av mm M e = Some (w, M1, ins1)" using EArr.prems(2) by (auto split: option.splits)
  from EArr.IH [OF EArr.prems(1) m] obtain A1 where a: "aget av mm A e = Some (w, A1, ins1)" "erel Q A1 M1" by blast
  have ch: "A1 x = A x \<longleftrightarrow> M1 x = M x"
    by (rule changed_rel [OF EArr.prems(1) a(2)]) (use aget_keeps [OF a(1)] aget_keeps [OF m] in auto)
  show ?case
    using EArr.prems m a ch erelD [OF EArr.prems(1), of x]
    by (cases "M x"; cases "the (M x)") (auto split: if_splits intro: erel_upd)
qed

lemma aset_rel:
  assumes r: "erel Q A M" and s: "aset av mm M e v = Some M'"
  shows "\<exists>A'. aset av mm A e v = Some A' \<and> erel Q A' M'"
proof (cases e)
  case (EVar x)
  then show ?thesis using s r erelD [OF r, of x]
    by (cases "M x"; cases "the (M x)") (auto simp: aset_def split: if_splits intro: erel_upd)
next
  case (EArr x i)
  obtain w M1 ins1 where m: "aget av mm M i = Some (w, M1, ins1)" using s EArr by (auto simp: aset_def split: if_splits option.splits)
  obtain A1 where a: "aget av mm A i = Some (w, A1, ins1)" "erel Q A1 M1" using aget_rel [OF r m] by blast
  have ch: "A1 x = A x \<longleftrightarrow> M1 x = M x"
    by (rule changed_rel [OF r a(2)]) (use aget_keeps [OF a(1)] aget_keeps [OF m] in auto)
  show ?thesis
    using s EArr m a ch erelD [OF r, of x]
    by (cases "M x"; cases "the (M x)") (auto simp: aset_def split: if_splits intro: erel_upd)
qed (use s in \<open>simp add: aset_def\<close>)

lemma agets_rel:
  assumes "erel Q A M" and "agets av mm M es = Some (vs, M')"
  shows "\<exists>A'. agets av mm A es = Some (vs, A') \<and> erel Q A' M'"
  using assms
proof (induction es arbitrary: A M vs)
  case (Cons e es)
  obtain v M1 ins ws where m: "aget av mm M e = Some (v, M1, ins)" "agets av mm M1 es = Some (ws, M')" "vs = v # ws"
    using Cons.prems(2) by (auto split: option.splits)
  obtain A1 where a: "aget av mm A e = Some (v, A1, ins)" "erel Q A1 M1" using aget_rel [OF Cons.prems(1) m(1)] by blast
  from Cons.IH [OF a(2) m(2)] a m(3) show ?case by auto
qed auto

lemma istep_rel:
  assumes "erel Q A M" and "istep av mm M i = Some M'"
  shows "\<exists>A'. istep av mm A i = Some A' \<and> erel Q A' M'"
proof (cases i)
  case (ISet e1 e2)
  then obtain v M1 ins where m: "aget av mm M e2 = Some (v, M1, ins)" "aset av mm M1 e1 v = Some M'"
    using assms(2) by (auto split: option.splits)
  obtain A1 where a: "aget av mm A e2 = Some (v, A1, ins)" "erel Q A1 M1" using aget_rel [OF assms(1) m(1)] by blast
  then show ?thesis using ISet aset_rel [OF a(2) m(2)] by simp
next
  case (IOp c e1 e2 e3)
  then obtain v M1 i1 w M2 i2 x where m: "aget av mm M e2 = Some (v, M1, i1)" "aget av mm M1 e3 = Some (w, M2, i2)"
      "op_value c v w = Some x" "aset av mm M2 e1 x = Some M'"
    using assms(2) by (auto split: option.splits)
  obtain A1 where a: "aget av mm A e2 = Some (v, A1, i1)" "erel Q A1 M1" using aget_rel [OF assms(1) m(1)] by blast
  obtain A2 where a2: "aget av mm A1 e3 = Some (w, A2, i2)" "erel Q A2 M2" using aget_rel [OF a(2) m(2)] by blast
  then show ?thesis using IOp a m(3) aset_rel [OF a2(2) m(4)] by simp
qed

text \<open>The action of a statement, up to the data of labels.\<close>

fun arel :: "(string \<Rightarrow> label_data_s \<Rightarrow> label_data_s \<Rightarrow> bool) \<Rightarrow> act \<Rightarrow> act \<Rightarrow> bool" where
  "arel Q (Next A ev) (Next M fv) \<longleftrightarrow> erel Q A M \<and> ev = fv"
| "arel Q (Jump k A) (Jump l M) \<longleftrightarrow> erel Q A M \<and> k = l"
| "arel Q (Doze v A) (Doze w M) \<longleftrightarrow> erel Q A M \<and> v = w"
| "arel Q (Halt A) (Halt M) \<longleftrightarrow> erel Q A M"
| "arel Q a b \<longleftrightarrow> False"

lemma sexec_rel:
  assumes r: "erel Q A M" and s: "sexec av mm M st = Some b"
  shows "\<exists>a. sexec av mm A st = Some a \<and> arel Q a b"
proof (cases st)
  case (Do i)
  then show ?thesis using s istep_rel [OF r, of av mm i] by (auto split: option.splits)
next
  case (Br i e1 e2 l)
  then obtain v M1 i1 w M2 i2 where m: "aget av mm M e1 = Some (v, M1, i1)" "aget av mm M1 e2 = Some (w, M2, i2)"
      "b = (if br_cond i (sint v) (sint w) then Jump l M2 else Next M2 [])"
    using s by (auto split: option.splits)
  obtain A1 where a: "aget av mm A e1 = Some (v, A1, i1)" "erel Q A1 M1" using aget_rel [OF r m(1)] by blast
  obtain A2 where "aget av mm A1 e2 = Some (w, A2, i2)" "erel Q A2 M2" using aget_rel [OF a(2) m(2)] by blast
  then show ?thesis using Br a m(3) by simp
next
  case (Print x es)
  then show ?thesis using s agets_rel [OF r, of av mm es] by (auto split: option.splits)
next
  case (Sleep e)
  then obtain v M1 i1 where m: "aget av mm M e = Some (v, M1, i1)" "0 < sint v" "b = Doze v M1"
    using s by (auto split: option.splits if_splits)
  then show ?thesis using Sleep aget_rel [OF r m(1)] by auto
qed (use r s in auto)

end
