(* ===== verification/StmtRun.thy ===== *)
theory StmtRun imports LineMem Machine begin

section \<open>The handlers perform the actions of the statements\<close>

text \<open>
  Every handler, on the tokens of a statement, does what \<open>sexec\<close> says of the statement, consumes all of its tokens and loses nothing.
  A jump is left to \<open>take_branch\<close>, which has the last token.
\<close>

definition ring_is :: "('r \<Rightarrow> bool) \<Rightarrow> ('r \<Rightarrow> addr list) \<Rightarrow> toks \<Rightarrow> ('h, 'r) st \<Rightarrow> bool" where
  "ring_is rinv rlist L s \<longleftrightarrow> rinv (translated_line s) \<and> rlist (translated_line s) = map fst L"

lemma ring_cong: "translated_line s' = translated_line s \<Longrightarrow> ring_is rinv rlist L s' = ring_is rinv rlist L s"
  by (simp add: ring_is_def)

lemma calm_ring [simp]: "calm (s\<lparr>translated_line := r\<rparr>) s' \<longleftrightarrow> calm s s'" "calm s (s'\<lparr>translated_line := r\<rparr>) \<longleftrightarrow> calm s s'"
  "calm s (s'\<lparr>heap := h\<rparr>) \<longleftrightarrow> calm s s'"
  by (simp_all add: calm_def)

text \<open>What a branch does with its label at the end.\<close>

definition drop_label :: "addr \<Rightarrow> ('h, 'r) st \<Rightarrow> ('h, 'r) st res" where
  "drop_label t = (\<lambda>s. bnd (read_tok t s) (\<lambda>u. bnd (as_ptr (tok_data u)) (\<lambda>d. bnd (dealloc d s) (dealloc t))))"

context voids_lib
begin

lemma ring_next:
  assumes "ring_is rinv rlist ((tk, it, F) # L) s"
  obtains r where "next_token V s = Ok (tk, s\<lparr>translated_line := r\<rparr>)" "ring_read V s = (tk, VDS_SUCCESS, s\<lparr>translated_line := r\<rparr>)"
    "ring_is rinv rlist L (s\<lparr>translated_line := r\<rparr>)"
proof -
  have rb: "rinv (translated_line s)" "rlist (translated_line s) = tk # map fst L" using assms by (simp_all add: ring_is_def)
  obtain r where r: "next_token V s = Ok (tk, s\<lparr>translated_line := r\<rparr>)" "ring_read V s = (tk, VDS_SUCCESS, s\<lparr>translated_line := r\<rparr>)"
    "rinv r" "rlist r = map fst L" by (rule next_token_Cons [OF rb])
  show thesis by (rule that [OF r(1,2)]) (simp add: ring_is_def r(3,4))
qed

lemma ring_empty: "ring_is rinv rlist [] s \<Longrightarrow> ring_read V s = (NULL, VDS_BUFFER_EMPTY, s)"
  using read_Nil [of "translated_line s"] by (simp add: ring_is_def ring_read_def)

text \<open>The first token is evaluated.\<close>

lemma mem_get:
  assumes m: "mem_is hinv hmap A ((tk, IExpr e, F) # L) B s" and ag: "aget (argv s) (mem_max s) A e = Some (v, A', ins)"
  obtains s' where "varval_get_value V tk s = Ok (Some v, s')" "mem_is hinv hmap A' L B s'" "calm s s'" "translated_line s' = translated_line s"
proof -
  note ms = m [unfolded mem_is_def]
  have "toks_rep (heap s) ((tk, IExpr e, F) # L)" "set (blocks ((tk, IExpr e, F) # L)) \<inter> owned (hmap (vartable s)) = {}" using ms by auto
  from get_step [OF mem_good [OF m] this ag] obtain s' where
    s': "varval_get_value V tk s = Ok (Some v, s')" "evolves hinv hmap (insert tk (set F)) s A' s'" by blast
  have "evolves hinv hmap (set (blocks [(tk, IExpr e, F)])) s A' s'" using s'(2) by simp
  from mem_evolve [where K = "[(tk, IExpr e, F)]" and L = L and B = B, OF _ this] m
  show thesis using that [OF s'(1)] calm_evolves [OF s'(2)] evolves_fields(4) [OF s'(2)] by simp
qed

subsection \<open>SET and arithmetic\<close>

lemma run_do:
  assumes m: "mem_is hinv hmap A L B s" and r: "ring_is rinv rlist L s" and i: "instr_ok i" "items L = map IExpr (instr_args i)"
    and st: "istep (argv s) (mem_max s) A i = Some A'"
  shows "\<exists>s'. exec_handler V (instr_ins i) s = Ok s' \<and> mem_is hinv hmap A' [] B s' \<and> ring_is rinv rlist [] s' \<and> calm s s'"
proof -
  note g = mem_good [OF m] and ms = m [unfolded mem_is_def] and rs = r [unfolded ring_is_def]
  have fin: "\<exists>s'. exec_handler V (instr_ins i) s = Ok s' \<and> mem_is hinv hmap A' [] B s' \<and> ring_is rinv rlist [] s' \<and> calm s s'"
    if "exec_handler V (instr_ins i) s = Ok s'" "rinv q" "rlist q = []" "evolves hinv hmap (set (blocks L)) (s\<lparr>translated_line := q\<rparr>) A' s'" for s' q
    using that mem_evolve [where K = L and L = "[]" and B = B, OF _ that(4)] m calm_evolves [OF that(4)] evolves_fields(4) [OF that(4)]
    by (auto simp: ring_is_def)
  show ?thesis
  proof (cases i)
    case (ISet e1 e2)
    then obtain t1 F1 t2 F2 where L: "L = [(t1, IExpr e1, F1), (t2, IExpr e2, F2)]"
      using i(2) by (auto dest!: items_Cons simp: items_Nil)
    obtain v A1 ins where v: "aget (argv s) (mem_max s) A e2 = Some (v, A1, ins)" "aset (argv s) (mem_max s) A1 e1 v = Some A'"
      using st ISet by (auto split: option.splits)
    have "toks_rep (heap s) [(t1, IExpr e1, F1), (t2, IExpr e2, F2)]"
      "set (blocks [(t1, IExpr e1, F1), (t2, IExpr e2, F2)]) \<inter> owned (hmap (vartable s)) = {}" using ms L by auto
    from set_handler_refines [OF g _ _ this v, of "[]"] rs L obtain s' q where
      "set_handler V s = Ok s'" "rinv q" "rlist q = []"
      "evolves hinv hmap (set (t2 # F2) \<union> set (t1 # F1)) (s\<lparr>translated_line := q\<rparr>) A' s'" by auto
    then show ?thesis using fin [of s' q] ISet L by (simp add: Un_commute insert_commute)
  next
    case (IOp c e1 e2 e3)
    then obtain t1 F1 t2 F2 t3 F3 where L: "L = [(t1, IExpr e1, F1), (t2, IExpr e2, F2), (t3, IExpr e3, F3)]"
      using i(2) by (auto dest!: items_Cons simp: items_Nil)
    obtain v A1 i1 w A2 i2 x where v: "aget (argv s) (mem_max s) A e2 = Some (v, A1, i1)" "aget (argv s) (mem_max s) A1 e3 = Some (w, A2, i2)"
        "op_value c v w = Some x" "aset (argv s) (mem_max s) A2 e1 x = Some A'"
      using st IOp by (auto split: option.splits)
    have c: "c \<in> {ADD_SYM, SUB_SYM, MUL_SYM, DIV_SYM, MOD_SYM}" using i(1) IOp by (simp add: instr_ok_def)
    have "toks_rep (heap s) [(t1, IExpr e1, F1), (t2, IExpr e2, F2), (t3, IExpr e3, F3)]"
      "set (blocks [(t1, IExpr e1, F1), (t2, IExpr e2, F2), (t3, IExpr e3, F3)]) \<inter> owned (hmap (vartable s)) = {}" using ms L by auto
    from primitive_op_handler_refines [OF g _ _ this v, of "[]"] rs L obtain s' q where
      "primitive_op_handler V c s = Ok s'" "rinv q" "rlist q = []"
      "evolves hinv hmap (set (t2 # F2) \<union> (set (t3 # F3) \<union> set (t1 # F1))) (s\<lparr>translated_line := q\<rparr>) A' s'" by auto
    moreover have "set (t2 # F2) \<union> (set (t3 # F3) \<union> set (t1 # F1)) = set (blocks L)" using L by auto
    ultimately show ?thesis using fin [of s' q] IOp op_handlers(2) [OF c] by simp
  qed
qed

subsection \<open>PRINT\<close>

lemma print_values_run:
  assumes "mem_is hinv hmap A L B s" and "ring_is rinv rlist L s" and "items L = map IExpr es"
    and "agets (argv s) (mem_max s) A es = Some (vs, A')" and "length L < n"
  shows "\<exists>s'. print_values V n s = Ok s' \<and> mem_is hinv hmap A' [] B s' \<and> ring_is rinv rlist [] s' \<and>
    calm (s\<lparr>out := out s @ map SaysInt vs\<rparr>) s'"
  using assms
proof (induction es arbitrary: A L s vs n)
  case Nil
  then obtain k where n: "n = Suc k" by (cases n) auto
  have L: "L = []" using Nil.prems(3) by (simp add: items_Nil)
  have "print_values V n s = Ok s" using ring_empty [of s] Nil.prems(2) n L by simp
  then show ?case using Nil.prems L by (simp add: calm_def)
next
  case (Cons e es)
  then obtain k where n: "n = Suc k" by (cases n) auto
  obtain t F M where L: "L = (t, IExpr e, F) # M" "items M = map IExpr es" using Cons.prems(3) by (auto dest!: items_Cons)
  obtain v A1 ins ws where v: "aget (argv s) (mem_max s) A e = Some (v, A1, ins)" "agets (argv s) (mem_max s) A1 es = Some (ws, A')" "vs = v # ws"
    using Cons.prems(4) by (auto split: option.splits)
  obtain r where r: "ring_read V s = (t, VDS_SUCCESS, s\<lparr>translated_line := r\<rparr>)" "ring_is rinv rlist M (s\<lparr>translated_line := r\<rparr>)"
    by (rule ring_next [of t "IExpr e" F M s]) (use Cons.prems(2) L in auto)
  have m: "mem_is hinv hmap A ((t, IExpr e, F) # M) B (s\<lparr>translated_line := r\<rparr>)" using Cons.prems(1) L(1) by simp
  obtain s1 where s1: "varval_get_value V t (s\<lparr>translated_line := r\<rparr>) = Ok (Some v, s1)" "mem_is hinv hmap A1 M B s1" "calm s s1"
    "translated_line s1 = r"
    by (rule mem_get [OF m]) (use v in auto)
  let ?s1 = "s1\<lparr>out := out s1 @ [SaysInt v]\<rparr>"
  have "mem_is hinv hmap A1 M B ?s1" using s1(2) mem_cong [of ?s1 s1] by simp
  moreover have "ring_is rinv rlist M ?s1" using r(2) s1(4) by (simp add: ring_is_def)
  moreover have "agets (argv ?s1) (mem_max ?s1) A1 es = Some (ws, A')" using v(2) s1(3) by (simp add: calm_def)
  moreover have "length M < k" using Cons.prems(5) L(1) n by simp
  ultimately obtain s2 where s2: "print_values V k ?s1 = Ok s2" "mem_is hinv hmap A' [] B s2" "ring_is rinv rlist [] s2"
      "calm (?s1\<lparr>out := out ?s1 @ map SaysInt ws\<rparr>) s2"
    using Cons.IH [OF _ _ L(2)] by blast
  have "print_values V n s = Ok s2" using n r(1) s1(1) s2(1) by simp
  moreover have "calm (s\<lparr>out := out s @ map SaysInt vs\<rparr>) s2" using s1(3) s2(4) v(3) by (simp add: calm_def)
  ultimately show ?case using s2(2,3) by blast
qed

lemma run_print:
  assumes m: "mem_is hinv hmap A L B s" and r: "ring_is rinv rlist L s" and L: "items L = IStr x # map IExpr es"
    and av: "argv s \<noteq> []" and ag: "agets (argv s) (mem_max s) A es = Some (vs, A')"
  shows "\<exists>s'. print_handler V s = Ok s' \<and> mem_is hinv hmap A' [] B s' \<and> ring_is rinv rlist [] s' \<and>
    calm (s\<lparr>out := out s @ Says (argv s ! 0) # SaysStr x # map SaysInt vs @ [SaysNl]\<rparr>) s'"
proof -
  obtain t F M where M: "L = (t, IStr x, F) # M" "items M = map IExpr es" using L by (auto dest!: items_Cons)
  let ?s0 = "s\<lparr>out := out s @ [Says (argv s ! 0)]\<rparr>"
  have "ring_is rinv rlist ((t, IStr x, F) # M) ?s0" using r M(1) by (simp add: ring_is_def)
  then obtain q where q: "ring_read V ?s0 = (t, VDS_SUCCESS, ?s0\<lparr>translated_line := q\<rparr>)" "ring_is rinv rlist M (?s0\<lparr>translated_line := q\<rparr>)"
    by (rule ring_next)
  obtain u a where u: "heap s t = Some (TokB u)" "tok_data u = Ptr a" "a \<noteq> NULL" "heap s a = Some (StrB x)"
    using m M(1) by (auto simp: mem_is_def toks_rep_Cons)
  have t: "t \<noteq> NULL" using mem_fresh [of hinv hmap A t "IStr x" F M B s] m M(1) by simp
  let ?s1 = "?s0\<lparr>translated_line := q, out := out ?s0 @ [SaysStr x]\<rparr>"
  have "mem_is hinv hmap A ((t, IStr x, F) # M) B ?s1" using m M(1) mem_cong [of ?s1 s] by simp
  from mem_free [OF this] obtain s2 where s2: "free_token t ?s1 = Ok s2" "mem_is hinv hmap A M B s2" "calm ?s1 s2"
    "translated_line s2 = translated_line ?s1" by blast
  have rg: "ring_is rinv rlist M s2" using q(2) s2(4) by (simp add: ring_is_def)
  have "agets (argv s2) (mem_max s2) A es = Some (vs, A')" using ag s2(3) by (simp add: calm_def)
  from print_values_run [OF s2(2) rg M(2) this, of "ring_fuel V s2"] drain_fuel [of s2 M] rg
  obtain s3 where s3: "print_values V (ring_fuel V s2) s2 = Ok s3" "mem_is hinv hmap A' [] B s3" "ring_is rinv rlist [] s3"
      "calm (s2\<lparr>out := out s2 @ map SaysInt vs\<rparr>) s3" by (auto simp: ring_is_def)
  let ?s4 = "s3\<lparr>out := out s3 @ [SaysNl]\<rparr>"
  have "argv_at 0 s = Ok (argv s ! 0)" using av by (simp add: argv_at_def)
  then have "print_handler V s = Ok ?s4"
    using q(1) u t s2(1) s3(1) by (simp add: print_handler_def mem_simps)
  moreover have "mem_is hinv hmap A' [] B ?s4" using s3(2) mem_cong [of ?s4 s3] by simp
  ultimately show ?thesis using s2(3) s3(3,4) by (auto simp: ring_is_def calm_def)
qed

subsection \<open>SLEEP\<close>

lemma run_sleep:
  assumes m: "mem_is hinv hmap A L B s" and r: "ring_is rinv rlist L s" and L: "items L = [IExpr e]"
    and ag: "aget (argv s) (mem_max s) A e = Some (v, A', ins)" and v: "0 < sint v"
  shows "\<exists>s'. sleep_handler V s = Ok s' \<and> mem_is hinv hmap A' [] B s' \<and> ring_is rinv rlist [] s' \<and>
    calm (s\<lparr>pstate := SLEEPING\<rparr>) s' \<and> sleep_sec s' = sint v \<and> sleep_nsec s' = 0"
proof -
  obtain t F where M: "L = [(t, IExpr e, F)]" using L by (auto dest!: items_Cons simp: items_Nil)
  obtain q where q: "ring_read V s = (t, VDS_SUCCESS, s\<lparr>translated_line := q\<rparr>)" "ring_is rinv rlist [] (s\<lparr>translated_line := q\<rparr>)"
    by (rule ring_next [of t "IExpr e" F "[]" s]) (use r M in auto)
  let ?s = "s\<lparr>translated_line := q\<rparr>"
  have m': "mem_is hinv hmap A [(t, IExpr e, F)] B ?s" using m M by simp
  note g = mem_good [OF m'] and ms = m' [unfolded mem_is_def]
  have tr: "tok_rep hmap ?s t e F" by (rule toks_tok [of ?s t e F "[]"]) (use ms in auto)
  obtain u where u: "heap ?s t = Some (TokB u)" "rep (heap ?s) (tok_type u) (tok_data u) e F" "distinct F" "set F \<inter> owned (hmap (vartable ?s)) = {}"
    using tr by (auto simp: tok_rep_def)
  have ok: "heap_ok ?s" by (rule goodD(1) [OF g])
  have t: "t \<noteq> NULL" using mem_fresh [OF m'] by simp
  have "good hinv hmap A (set_parser_idx u ?s)" using g good_cong [of "set_parser_idx u ?s" ?s] by simp
  then obtain s1 where s1: "varval_get (Suc (fresh ?s)) V (tok_type u) (tok_data u) (set_parser_idx u ?s) = Ok (Some v, s1)"
      "evolves hinv hmap (set F) (set_parser_idx u ?s) A' s1"
    using varval_get_refines [of A "set_parser_idx u ?s" "tok_type u" "tok_data u" e F "Suc (fresh ?s)" v A' ins]
      u rep_fuel [OF ok u(2,3)] ag by auto
  obtain s2 where s2: "dealloc t (reset_parser_idx ?s s1) = Ok s2" "evolves hinv hmap (insert t (set F)) ?s A' s2"
    by (rule free_tok [OF ok evolves_parser_idx [OF s1(2)] tr])
  let ?nap = "\<lambda>s :: ('h, 'r) st. s\<lparr>pstate := SLEEPING, sleep_sec := sint v, sleep_nsec := 0\<rparr>"
  have nap: "dealloc t (reset_parser_idx ?s (?nap s1)) = Ok (?nap s2)"
    using s2(1) by (auto simp: dealloc_def reset_parser_idx_def split: if_splits option.splits)
  have "sleep_handler V s = Ok (?nap s2)"
    using q(1) u(1) t s1(1) v nap by (simp add: sleep_handler_def mem_simps Let_def)
  moreover have "mem_is hinv hmap A' [] B s2"
    using mem_evolve [where K = "[(t, IExpr e, F)]" and L = "[]" and B = B, OF _ _, of hinv hmap A ?s A' s2] m' s2(2) by simp
  then have "mem_is hinv hmap A' [] B (?nap s2)" using mem_cong [of "?nap s2" s2] by simp
  moreover have "ring_is rinv rlist [] (?nap s2)" using q(2) evolves_fields(4) [OF s2(2)] by (simp add: ring_is_def)
  moreover have "calm (s\<lparr>pstate := SLEEPING\<rparr>) (?nap s2)" using calm_evolves [OF s2(2)] by (simp add: calm_def)
  ultimately show ?thesis by auto
qed

subsection \<open>Branches\<close>

lemma drop_label_ok:
  assumes m: "mem_is hinv hmap A ((t, ILab l, F) # L) B s"
  obtains s' where "drop_label t s = Ok s'" "mem_is hinv hmap A L B s'" "calm s s'" "translated_line s' = translated_line s"
proof -
  obtain s' where s': "free_token t s = Ok s'" "mem_is hinv hmap A L B s'" "calm s s'" "translated_line s' = translated_line s"
    by (rule mem_free [OF m])
  obtain u a where u: "heap s t = Some (TokB u)" "tok_type u = LABEL_TOK" "tok_data u = Ptr a" "a \<noteq> NULL"
    using m by (auto simp: mem_is_def toks_rep_Cons)
  have "free_token t s = drop_label t s"
    using mem_fresh [OF m] u by (simp add: free_token_def drop_label_def mem_simps)
  then have "drop_label t s = Ok s'" using s'(1) by simp
  then show thesis by (rule that) (rule s'(2-4))+
qed

lemma run_bra:
  assumes m: "mem_is hinv hmap A L B s" and r: "ring_is rinv rlist L s" and L: "items L = [ILab l]"
  obtains t F s' where "exec_handler V BRA_SYM s = bnd (take_branch V t s') (drop_label t)" "mem_is hinv hmap A [(t, ILab l, F)] B s'"
    "ring_is rinv rlist [] s'" "calm s s'"
proof -
  obtain t F where M: "L = [(t, ILab l, F)]" using L by (auto dest!: items_Cons simp: items_Nil)
  obtain q where q: "next_token V s = Ok (t, s\<lparr>translated_line := q\<rparr>)" "ring_is rinv rlist [] (s\<lparr>translated_line := q\<rparr>)"
    by (rule ring_next [of t "ILab l" F "[]" s]) (use r M in auto)
  have "exec_handler V BRA_SYM s = bnd (take_branch V t (s\<lparr>translated_line := q\<rparr>)) (drop_label t)"
    using q(1) by (simp add: branch_handler_def branch_jumps_def drop_label_def)
  then show thesis using that q(2) m M by simp
qed

lemma branch_jumps_cond: "c \<in> {BRGT_SYM, BRGE_SYM, BRLT_SYM, BRLE_SYM, BREQ_SYM} \<Longrightarrow>
    branch_jumps c v w = Some (br_cond c (sint v) (sint w)) \<and> exec_handler V c = branch_handler V c \<and> c \<noteq> BRA_SYM"
  by (auto simp: branch_jumps_def simp flip: word_eq_iff_signed)

lemma run_br:
  assumes m: "mem_is hinv hmap A L B s" and r: "ring_is rinv rlist L s" and L: "items L = [IExpr e1, IExpr e2, ILab l]"
    and c: "c \<in> {BRGT_SYM, BRGE_SYM, BRLT_SYM, BRLE_SYM, BREQ_SYM}"
    and ag: "aget (argv s) (mem_max s) A e1 = Some (v, A1, i1)" "aget (argv s) (mem_max s) A1 e2 = Some (w, A2, i2)"
  obtains t F s' where "exec_handler V c s = bnd (if br_cond c (sint v) (sint w) then take_branch V t s' else Ok s') (drop_label t)"
    "mem_is hinv hmap A2 [(t, ILab l, F)] B s'" "ring_is rinv rlist [] s'" "calm s s'"
proof -
  obtain t1 F1 t2 F2 t F where M: "L = [(t1, IExpr e1, F1), (t2, IExpr e2, F2), (t, ILab l, F)]"
    using L by (auto dest!: items_Cons simp: items_Nil)
  obtain q1 where q1: "next_token V s = Ok (t1, s\<lparr>translated_line := q1\<rparr>)"
      "ring_is rinv rlist [(t2, IExpr e2, F2), (t, ILab l, F)] (s\<lparr>translated_line := q1\<rparr>)"
    by (rule ring_next [of t1 "IExpr e1" F1 _ s]) (use r M in auto)
  obtain q2 where q2: "next_token V (s\<lparr>translated_line := q1\<rparr>) = Ok (t2, s\<lparr>translated_line := q2\<rparr>)"
      "ring_is rinv rlist [(t, ILab l, F)] (s\<lparr>translated_line := q2\<rparr>)"
    by (rule ring_next [OF q1(2)]) auto
  let ?s = "s\<lparr>translated_line := q2\<rparr>"
  have m0: "mem_is hinv hmap A ((t1, IExpr e1, F1) # [(t2, IExpr e2, F2), (t, ILab l, F)]) B ?s" using m M by simp
  obtain s1 where s1: "varval_get_value V t1 ?s = Ok (Some v, s1)" "mem_is hinv hmap A1 [(t2, IExpr e2, F2), (t, ILab l, F)] B s1"
    "calm ?s s1" "translated_line s1 = q2" by (rule mem_get [OF m0]) (use ag(1) in auto)
  obtain s2 where s2: "varval_get_value V t2 s1 = Ok (Some w, s2)" "mem_is hinv hmap A2 [(t, ILab l, F)] B s2"
    "calm s1 s2" "translated_line s2 = q2"
    by (rule mem_get [OF s1(2)]) (use ag(2) s1(3,4) in \<open>auto simp: calm_def\<close>)
  have "ring_is rinv rlist [(t, ILab l, F)] s2" using q2(2) s2(4) by (simp add: ring_is_def)
  then obtain q where q: "next_token V s2 = Ok (t, s2\<lparr>translated_line := q\<rparr>)" "ring_is rinv rlist [] (s2\<lparr>translated_line := q\<rparr>)"
    by (rule ring_next)
  have "exec_handler V c s = bnd (if br_cond c (sint v) (sint w) then take_branch V t (s2\<lparr>translated_line := q\<rparr>) else Ok (s2\<lparr>translated_line := q\<rparr>)) (drop_label t)"
    using q1(1) q2(1) s1(1) s2(1) q(1) branch_jumps_cond [OF c, of v w] by (simp add: branch_handler_def drop_label_def)
  then show thesis using that q(2) s2(2) s1(3) s2(3) by (auto simp: calm_def)
qed

end

end
