(* ===== verification/LineRun.thy ===== *)
theory LineRun imports StmtRun begin

section \<open>A line is executed, and a label is looked for\<close>

text \<open>
  What \<open>exec_instruction_line\<close> does with the tokens of a line: the label is put into the table of variables, the token of the
  instruction is consumed, and the handler gets the rest.  And the search of \<open>find_label\<close> through the lines ahead.
\<close>

subsection \<open>Places in the text\<close>

text \<open>The line without what precedes its statement, and the place the scanner has for its label.\<close>

fun unlabel :: "sline \<Rightarrow> sline" where
  "unlabel (pre, lab, st, gs, bs) = ([], None, st, gs, bs)"

fun place :: "sline \<Rightarrow> string \<Rightarrow> string \<Rightarrow> nat \<Rightarrow> bool" where
  "place (pre, None, st, gs, bs) T r k \<longleftrightarrow> False"
| "place (pre, Some (l, g), st, gs, bs) T r k \<longleftrightarrow> drop k T = List.tl g @ its_text st gs bs @ r"

lemma its_text_nonempty: "its_text st gs bs \<noteq> []"
  using name_facts(2) [of "stmt_ins st"] by (simp add: its_text_def)

lemma unlabel_ok: "sline_ok x \<Longrightarrow> sline_ok (unlabel x)" "line_stmt (unlabel x) = line_stmt x" "line_label (unlabel x) = None"
  by (cases x; simp)+

lemma its_not_blank: "\<not> list_all blank (its_text st gs bs)"
  using name_facts(1,2) [of "stmt_ins st"] by (cases "name_str (stmt_ins st)") (auto simp: its_text_def)

lemma its_str_tail: "length bs \<le> length (its_str its bs)"
  by (induction its bs rule: its_str.induct) auto

lemma sline_not_blank: "\<not> list_all blank (sline_text x @ r)"
  using its_not_blank by (cases x) auto

lemma place_unique: "place x T r j \<Longrightarrow> place x T r k \<Longrightarrow> j = k"
proof (induction x T r j rule: place.induct)
  case (2 pre l g st gs bs T r j)
  then have "length (drop j T) = length (drop k T)" "drop j T \<noteq> []" "drop k T \<noteq> []" using its_text_nonempty by auto
  then show ?case by simp
qed simp

lemma place_stands:
  assumes p: "place x (fbuf s) r (fpos s)" and c: "c_in s = 32" and x: "sline_ok x"
  shows "stands s (sline_text (unlabel x) @ r)"
proof -
  obtain pre l g st gs bs where q: "x = (pre, Some (l, g), st, gs, bs)" using p by (cases x rule: line_label.cases; case_tac lab) auto
  have d: "rest s = List.tl g @ its_text st gs bs @ r" using p q by (simp add: rest_def)
  have b: "list_all blank (CHR 0x20 # List.tl g)" using x q by (cases g) (auto simp: gap_def isspace_def)
  have "pend s ((CHR 0x20 # List.tl g) @ its_text st gs bs @ r)" using c d by (simp add: pend_def)
  then show ?thesis using stands_pend stands_blanks [OF b] q by fastforce
qed

text \<open>The text of the lines of a program; \<open>tk\<close> is what is behind the last one.\<close>

definition src :: "sline list \<Rightarrow> string \<Rightarrow> string" where
  "src P tk = concat (map sline_text P) @ tk"

lemma src_simps [simp]: "src [] tk = tk" "src (x # P) tk = sline_text x @ src P tk"
  by (simp_all add: src_def)

fun tails_ok :: "sline list \<Rightarrow> string \<Rightarrow> bool" where
  "tails_ok [] tk \<longleftrightarrow> list_all blank tk"
| "tails_ok ((pre, lab, st, gs, bs) # P) tk \<longleftrightarrow> tail_ok st bs (src P tk) \<and> tails_ok P tk"

text \<open>
  A program that the machine describes: its lines are well formed, it is not as long as the counter of lines, and behind the
  last line, if it is a \<open>PRINT\<close> with arguments, there is no blank before the newline.
\<close>

definition prog_ok :: "sline list \<Rightarrow> string \<Rightarrow> bool" where
  "prog_ok P tk \<longleftrightarrow> list_all sline_ok P \<and> tails_ok P tk \<and> length (src P tk) < 2 ^ 32 - 2"

lemma src_blank: "tails_ok P tk \<Longrightarrow> list_all blank (src P tk) \<longleftrightarrow> P = []"
  using sline_not_blank by (cases P) auto

lemma tails_drop: "tails_ok P tk \<Longrightarrow> tails_ok (drop k P) tk"
proof (induction P tk arbitrary: k rule: tails_ok.induct)
  case (2 pre lab st gs bs P tk)
  then show ?case by (cases k) auto
qed simp

lemma src_drop_length: "length (src (drop k P) tk) \<le> length (src P tk)"
proof (induction P arbitrary: k)
  case (Cons x P)
  show ?case using Cons.IH [of "k - 1"] by (cases k) (auto intro: trans_le_add2)
qed simp

lemma prog_drop: "prog_ok P tk \<Longrightarrow> prog_ok (drop k P) tk"
  using tails_drop [of P tk k] src_drop_length [of k P tk] set_drop_subset [of k P]
  by (auto simp: prog_ok_def list_all_iff)

lemma src_at: "k < length P \<Longrightarrow> src (drop k P) tk = sline_text (P ! k) @ src (drop (Suc k) P) tk"
  by (simp add: Cons_nth_drop_Suc [symmetric])

lemma drop_blanks_length: "\<not> list_all blank u \<Longrightarrow> length r < length (dropWhile blank (u @ r))"
  by (induction u) auto

lemma src_lines: "length P \<le> length (dropWhile blank (src P tk))"
proof (induction P)
  case (Cons x P)
  have "length (dropWhile blank (src P tk)) \<le> length (src P tk)" by (rule length_dropWhile_le)
  then show ?case using Cons.IH drop_blanks_length [of "sline_text x" "src P tk"] sline_not_blank [of x "[]"] by simp
qed simp

lemma stands_left: "stands s T \<Longrightarrow> length (dropWhile blank T) \<le> Suc (left s)"
proof -
  assume "stands s T"
  then obtain t where t: "pend s t" "dropWhile blank t = dropWhile blank T" by (auto simp: stands_def)
  have "length t \<le> Suc (left s)" using t(1) by (cases t) (auto simp: pend_def left_rest)
  then show ?thesis using t(2) length_dropWhile_le [of blank t] by simp
qed

lemma first_label_at:
  "first_label l k P = Some j \<Longrightarrow> k \<le> j \<and> j - k < length P \<and> line_label (P ! (j - k)) = Some l"
proof (induction P arbitrary: k)
  case (Cons x P)
  show ?case
  proof (cases "line_label x = Some l")
    case False
    then have "Suc k \<le> j \<and> j - Suc k < length P \<and> line_label (P ! (j - Suc k)) = Some l" using Cons by simp
    moreover from this have "Suc k \<le> j" by blast
    then have "j - k = Suc (j - Suc k)" by arith
    ultimately show ?thesis by simp
  qed (use Cons.prems in simp)
qed simp

subsection \<open>The instruction token\<close>

definition run_ins :: "('h, 'p, 'r) voids \<Rightarrow> addr \<Rightarrow> ('h, 'r) st \<Rightarrow> ('h, 'r) st res" where
  "run_ins V tok s = bnd (read_tok tok s) (\<lambda>t. bnd (as_value (tok_data t)) (\<lambda>code. bnd (free_token tok s) (\<lambda>s.
     if unat code < length instructions then exec_handler V (instructions ! unat code) s else Exit)))"

text \<open>The part of a round of the search behind the removal of the other tokens.\<close>

definition search_end :: "('h, 'p, 'r) voids \<Rightarrow> nat \<Rightarrow> addr \<Rightarrow> addr \<Rightarrow> ('h, 'r) st \<Rightarrow> ('h, 'r) st res" where
  "search_end V n label new_lbl s = bnd (read_tok new_lbl s) (\<lambda>nt.
     bnd (if tok_type nt = LABEL_TOK
          then bnd (as_ptr (tok_data nt)) (\<lambda>a. bnd (read_str a s) (\<lambda>x.
               bnd (read_tok label s) (\<lambda>lt. bnd (as_ptr (tok_data lt)) (\<lambda>b. bnd (read_str b s) (\<lambda>y. Ok (x = y))))))
          else Ok False) (\<lambda>found.
     if found then bnd (insert_label_to_vartable V new_lbl s) (\<lambda>(lbl, s).
       if lbl = NULL then free_token new_lbl s else bnd (jump_to lbl s) (dealloc new_lbl))
     else bnd (free_token new_lbl s) (\<lambda>s.
       if pstate s = FINISHED then
         bnd (read_tok label s) (\<lambda>lt. let s1 = program_stop True s in
         Ok (reset_parser_idx s1 (err_msg MUndefinedLabel (set_parser_idx lt s1))))
       else find_label V n label s)))"

lemma mem_label:
  assumes "mem_is hinv hmap A ((t, ILab l, F) # L) B s"
  obtains u a where "heap s t = Some (TokB u)" "tok_type u = LABEL_TOK" "tok_data u = Ptr a" "a \<noteq> NULL" "heap s a = Some (StrB l)"
    "F = [a]" "t \<noteq> NULL"
  using assms mem_fresh [OF assms] by (auto simp: mem_is_def toks_rep_Cons)

context voids_lib
begin

lemma run_ins_ok:
  assumes m: "mem_is hinv hmap A ((ti, IIns i, F) # L) B s"
  obtains s1 where "run_ins V ti s = exec_handler V i s1" "mem_is hinv hmap A L B s1" "calm s s1" "translated_line s1 = translated_line s"
proof -
  obtain t where t: "heap s ti = Some (TokB t)" "tok_data t = Value (word_of_nat (ins_code i))"
    using m by (auto simp: mem_is_def toks_rep_Cons)
  have live: "ti \<noteq> NULL" using mem_fresh [OF m] by simp
  obtain s1 where s1: "free_token ti s = Ok s1" "mem_is hinv hmap A L B s1" "calm s s1" "translated_line s1 = translated_line s"
    by (rule mem_free [OF m])
  have "ins_code i < 19" using ins_code_lt(1) [of i] by (simp add: instructions_def)
  then have "unat (word_of_nat (ins_code i) :: c_int) = ins_code i" by (simp add: unat_of_nat)
  then have "run_ins V ti s = exec_handler V i s1"
    using t live s1(1) ins_code_lt [of i] by (simp add: run_ins_def mem_simps)
  then show thesis using that s1 by blast
qed

lemma exec_plain:
  assumes m: "mem_is hinv hmap A ((ti, IIns i, F) # L) B s" and r: "ring_is rinv rlist ((ti, IIns i, F) # L) s"
  obtains s1 where "exec_instruction_line V s = exec_handler V i s1" "mem_is hinv hmap A L B s1" "ring_is rinv rlist L s1" "calm s s1"
proof -
  obtain q where q: "ring_read V s = (ti, VDS_SUCCESS, s\<lparr>translated_line := q\<rparr>)" "ring_is rinv rlist L (s\<lparr>translated_line := q\<rparr>)"
    using ring_next [OF r] by metis
  obtain s1 where s1: "run_ins V ti (s\<lparr>translated_line := q\<rparr>) = exec_handler V i s1" "mem_is hinv hmap A L B s1" "calm s s1"
      "translated_line s1 = q"
    by (rule run_ins_ok [of A ti i F L B "s\<lparr>translated_line := q\<rparr>"]) (use m in simp_all)
  obtain t where t: "heap s ti = Some (TokB t)" "tok_type t = INSTRUCTION_TOK" using m by (auto simp: mem_is_def toks_rep_Cons)
  have live: "ti \<noteq> NULL" using mem_fresh [OF m] by simp
  have "exec_instruction_line V s = run_ins V ti (s\<lparr>translated_line := q\<rparr>)"
    using q(1) t live by (simp add: exec_instruction_line_def run_ins_def mem_simps)
  then show thesis using that [of s1] s1 q(2) by (simp add: ring_is_def)
qed

subsection \<open>The label token\<close>

text \<open>A label that is new is put into the table; if it is known, its name and a block for its data are lost.\<close>

lemma label_inserted:
  assumes m: "mem_is hinv hmap A ((tk, ILab l, [a]) # L) B s" and u: "heap s tk = Some (TokB u)"
    and A: "A l = None \<or> (\<exists>lab. A l = Some (VLabel lab) \<and> lbl_offset lab = tok_offset u)"
  obtains nl s1 C where "insert_label_to_vartable V tk s = Ok (nl, s1)" "nl \<noteq> NULL" "heap s1 tk \<noteq> None" "tk \<noteq> NULL"
    "mem_is hinv hmap (if A l = None then A(l \<mapsto> VLabel (label_of u)) else A) L C (s1\<lparr>heap := (heap s1)(tk := None)\<rparr>)"
    "calm s s1" "translated_line s1 = translated_line s" "\<And>n R. lost n R B \<Longrightarrow> lost (n + (if A l = None then 0 else 2)) R C"
proof (cases "A l")
  case None
  obtain nl s1 where s1: "insert_label_to_vartable V tk s = Ok (nl, s1)" "nl \<noteq> NULL" "heap s1 nl = Some (LabelB (label_of u))"
    "heap s1 tk \<noteq> None" "tk \<noteq> NULL" "mem_is hinv hmap (A(l \<mapsto> VLabel (label_of u))) L B (s1\<lparr>heap := (heap s1)(tk := None)\<rparr>)"
    "calm s s1" "translated_line s1 = translated_line s" by (rule insert_label_new [OF m u None])
  show thesis by (rule that [OF s1(1,2,4,5) _ s1(7,8), of B]) (use s1(6) None in simp_all)
next
  case (Some v)
  then obtain lab where lab: "A l = Some (VLabel lab)" "lbl_offset lab = tok_offset u" using A by auto
  note ms = m [unfolded mem_is_def]
  have f: "fresh s \<notin> dom (heap s)" using goodD(1) [OF mem_good [OF m]] by (auto simp: heap_ok_def)
  have a: "a \<notin> dom B" "a \<in> dom (heap s)" using ms by auto
  have "fresh s \<notin> dom B" "fresh s \<noteq> a" using f ms a(2) by auto
  note new = a(1) this(1) this(2) [symmetric]
  obtain nl s1 where s1: "insert_label_to_vartable V tk s = Ok (nl, s1)" "nl \<noteq> NULL" "heap s1 tk \<noteq> None" "tk \<noteq> NULL"
    "mem_is hinv hmap A L (B(a \<mapsto> StrB l, fresh s \<mapsto> LabelB (label_of u))) (s1\<lparr>heap := (heap s1)(tk := None)\<rparr>)" "calm s s1"
    "translated_line s1 = translated_line s" by (rule insert_label_old [OF m u lab])
  show thesis
  proof (rule that [OF s1(1-4) _ s1(6,7)])
    show "mem_is hinv hmap (if A l = None then A(l \<mapsto> VLabel (label_of u)) else A) L (B(a \<mapsto> StrB l, fresh s \<mapsto> LabelB (label_of u)))
        (s1\<lparr>heap := (heap s1)(tk := None)\<rparr>)" using s1(5) lab by simp
    show "lost (n + (if A l = None then 0 else 2)) R (B(a \<mapsto> StrB l, fresh s \<mapsto> LabelB (label_of u)))" if "lost n R B" for n R
      using lost_two [OF that new] lab by simp
  qed
qed

lemma exec_labelled:
  assumes m: "mem_is hinv hmap A ((tk, ILab l, [a]) # (ti, IIns i, F) # L) B s"
    and r: "ring_is rinv rlist ((tk, ILab l, [a]) # (ti, IIns i, F) # L) s" and u: "heap s tk = Some (TokB u)"
    and A: "A l = None \<or> (\<exists>lab. A l = Some (VLabel lab) \<and> lbl_offset lab = tok_offset u)"
  obtains s1 C where "exec_instruction_line V s = exec_handler V i s1"
    "mem_is hinv hmap (if A l = None then A(l \<mapsto> VLabel (label_of u)) else A) L C s1" "ring_is rinv rlist L s1" "calm s s1"
    "\<And>n R. lost n R B \<Longrightarrow> lost (n + (if A l = None then 0 else 2)) R C"
proof -
  let ?A = "if A l = None then A(l \<mapsto> VLabel (label_of u)) else A"
  obtain q where q: "ring_read V s = (tk, VDS_SUCCESS, s\<lparr>translated_line := q\<rparr>)"
      "ring_is rinv rlist ((ti, IIns i, F) # L) (s\<lparr>translated_line := q\<rparr>)"
    using ring_next [OF r] by metis
  let ?s = "s\<lparr>translated_line := q\<rparr>"
  have m': "mem_is hinv hmap A ((tk, ILab l, [a]) # (ti, IIns i, F) # L) B ?s" using m by simp
  obtain nl s1 C where s1: "insert_label_to_vartable V tk ?s = Ok (nl, s1)" "nl \<noteq> NULL" "heap s1 tk \<noteq> None" "tk \<noteq> NULL"
      "mem_is hinv hmap ?A ((ti, IIns i, F) # L) C (s1\<lparr>heap := (heap s1)(tk := None)\<rparr>)"
      "calm s s1" "translated_line s1 = q" "\<And>n R. lost n R B \<Longrightarrow> lost (n + (if A l = None then 0 else 2)) R C"
    by (rule label_inserted [OF m' _ A]) (use u in simp_all)
  let ?s1 = "s1\<lparr>heap := (heap s1)(tk := None)\<rparr>"
  have "ring_is rinv rlist ((ti, IIns i, F) # L) ?s1" using q(2) s1(7) by (simp add: ring_is_def)
  then obtain p where p: "ring_read V ?s1 = (ti, VDS_SUCCESS, ?s1\<lparr>translated_line := p\<rparr>)" "ring_is rinv rlist L (?s1\<lparr>translated_line := p\<rparr>)"
    using ring_next by metis
  obtain s2 where s2: "run_ins V ti (?s1\<lparr>translated_line := p\<rparr>) = exec_handler V i s2" "mem_is hinv hmap ?A L C s2"
      "calm (?s1\<lparr>translated_line := p\<rparr>) s2" "translated_line s2 = p"
    by (rule run_ins_ok [of ?A ti i F L C "?s1\<lparr>translated_line := p\<rparr>"]) (use s1(5) in simp_all)
  obtain t where t: "heap s tk = Some (TokB t)" "tok_type t = LABEL_TOK" by (rule mem_label [OF m])
  have "exec_instruction_line V s = run_ins V ti (?s1\<lparr>translated_line := p\<rparr>)"
    using q(1) t s1(1-4) p(1) by (auto simp: exec_instruction_line_def run_ins_def mem_simps)
  moreover have "calm s s2" using s1(6) s2(3) by (simp add: calm_def)
  moreover have "ring_is rinv rlist L s2" using p(2) s2(4) by (simp add: ring_is_def)
  ultimately show thesis using that [of s2 C] s2(1,2) s1(8) by simp
qed

subsection \<open>The search\<close>

text \<open>A round: the line is scanned, and its first token is left.\<close>

lemma search_round:
  assumes m: "mem_is hinv hmap A [(t, ILab l, F)] B s" and r: "ring_is rinv rlist [] s"
    and st: "stands s (sline_text (pre, lab, st, gs, bs) @ r)" and x: "sline_ok (pre, lab, st, gs, bs)"
    and tail: "tail_ok st bs r" "\<not> last_print st r"
    and len: "length (sline_text (pre, lab, st, gs, bs) @ r) < 2 ^ 32 - 2" and it: "itab_ok hinv hmap (itable s)" and ps: "pstate s = INSTRUCTION_LINE"
  obtains s' tk itm G where "find_label V (Suc n) t s = search_end V n t tk s'"
    "mem_is hinv hmap A [(t, ILab l, F), (tk, itm, G)] B s'" "ring_is rinv rlist [] s'" "same s s'"
    "pstate s' = INSTRUCTION_LINE" "stands s' r" "lab = None \<Longrightarrow> \<exists>i. itm = IIns i"
    "\<And>k g. lab = Some (k, g) \<Longrightarrow> itm = ILab k \<and> (\<exists>u. heap s' tk = Some (TokB u) \<and> place (pre, lab, st, gs, bs) (fbuf s) r (tok_offset u))"
proof -
  have rs: "rinv (translated_line s)" "rlist (translated_line s) = []" using r by (simp_all add: ring_is_def)
  have "length bs + length r < 2 ^ 32 - 2" using len its_str_tail [of bs "zip gs (stmt_items st)"] by (simp add: its_text_def)
  then obtain s1 M L where s1: "tokenize_next_line V s = Ok s1" "scans rinv rlist (M @ L) s s1"
    "items L = IIns (stmt_ins st) # stmt_items st" "label_toks lab M s1 (its_text st gs bs @ r)" "stands s1 r" "pstate s1 = INSTRUCTION_LINE"
    using tokenize_sline [OF st x tail(1) _ it goodD(1) [OF mem_good [OF m]] rs(1) ps] tail(2) by auto
  have fr: "scan_frame s s1" using scansD(8) [OF s1(2)] .
  obtain tk itm G R where R: "M @ L = (tk, itm, G) # R" "lab = None \<Longrightarrow> \<exists>i. itm = IIns i"
    "\<And>k g. lab = Some (k, g) \<Longrightarrow> itm = ILab k \<and> (\<exists>u. heap s1 tk = Some (TokB u) \<and> place (pre, lab, st, gs, bs) (fbuf s) r (tok_offset u))"
  proof (cases lab)
    case None
    then show thesis using that s1(3,4) by (auto dest!: items_Cons)
  next
    case (Some lg)
    then obtain k g where k: "lab = Some (k, g)" by (cases lg) auto
    have "fbuf s1 = fbuf s" using fr by (simp add: scan_frame_def)
    then show thesis using that k s1(4) by auto
  qed
  have m1: "mem_is hinv hmap A ([(t, ILab l, F)] @ (tk, itm, G) # R) B s1" using mem_scan [OF m s1(2)] R(1) by simp
  have m2: "mem_is hinv hmap A (R @ [(t, ILab l, F), (tk, itm, G)]) B s1"
    using m1 mem_swap [of hinv hmap A R "[(t, ILab l, F), (tk, itm, G)]" B s1] by simp
  have "ring_is rinv rlist ((tk, itm, G) # R) s1" using scansD(6,7) [OF s1(2)] rs R(1) by (simp add: ring_is_def)
  then obtain q where q: "ring_read V s1 = (tk, VDS_SUCCESS, s1\<lparr>translated_line := q\<rparr>)" "ring_is rinv rlist R (s1\<lparr>translated_line := q\<rparr>)"
    using ring_next by metis
  let ?s1 = "s1\<lparr>translated_line := q\<rparr>"
  have rq: "rinv (translated_line ?s1)" "rlist (translated_line ?s1) = map fst R" using q(2) by (simp_all add: ring_is_def)
  obtain s2 where s2: "drain V (ring_fuel V ?s1) ?s1 = Ok s2" "mem_is hinv hmap A [(t, ILab l, F), (tk, itm, G)] B s2" "calm ?s1 s2"
      "rinv (translated_line s2)" "rlist (translated_line s2) = []" "\<forall>b. b \<notin> set (blocks R) \<longrightarrow> heap s2 b = heap s1 b"
    using drain_ok [of A R _ B ?s1, OF _ rq drain_fuel [OF rq]] m2 by auto
  have "tk \<notin> set (blocks R)" using m1 by (auto simp: mem_is_def toks_rep_def)
  then have h: "heap s2 tk = heap s1 tk" using s2(6) by blast
  have "find_label V (Suc n) t s = search_end V n t tk s2"
    using s1(1) q(1) s2(1) by (simp add: search_end_def)
  then show thesis
  proof (rule that [OF _ s2(2)])
    show "ring_is rinv rlist [] s2" using s2(4,5) by (simp add: ring_is_def)
    show "same s s2" using same_simps(2) [OF fr] s2(3) by (simp add: same_def calm_def)
    show "pstate s2 = INSTRUCTION_LINE" "stands s2 r"
      using s1(5,6) s2(3) stands_cong [of s2 s1] by (simp_all add: calm_def)
  qed (use R(2,3) h in simp_all)
qed

lemma search_skip:
  assumes m: "mem_is hinv hmap A [(t, ILab l, F), (tk, itm, G)] B s" and i: "(\<exists>i. itm = IIns i) \<or> (\<exists>k. itm = ILab k \<and> k \<noteq> l)"
    and ps: "pstate s = INSTRUCTION_LINE"
  obtains s' where "search_end V n t tk s = find_label V n t s'" "mem_is hinv hmap A [(t, ILab l, F)] B s'" "calm s s'"
    "translated_line s' = translated_line s"
proof -
  have m': "mem_is hinv hmap A [(tk, itm, G), (t, ILab l, F)] B s"
    using m mem_swap [of hinv hmap A "[(t, ILab l, F)]" "[(tk, itm, G)]" B s] by simp
  obtain s' where s': "free_token tk s = Ok s'" "mem_is hinv hmap A [(t, ILab l, F)] B s'" "calm s s'" "translated_line s' = translated_line s"
    by (rule mem_free [OF m'])
  obtain u a where u: "heap s t = Some (TokB u)" "tok_data u = Ptr a" "a \<noteq> NULL" "heap s a = Some (StrB l)" "t \<noteq> NULL"
    by (rule mem_label [OF m])
  have tk: "tk \<noteq> NULL" using mem_fresh [OF m'] by simp
  have "search_end V n t tk s = find_label V n t s'"
    using i
  proof (elim disjE exE conjE)
    fix i assume "itm = IIns i"
    then obtain w where "heap s tk = Some (TokB w)" "tok_type w = INSTRUCTION_TOK" using m' by (auto simp: mem_is_def toks_rep_Cons)
    then show ?thesis using tk s'(1,3) ps by (simp add: search_end_def mem_simps calm_def)
  next
    fix k assume k: "itm = ILab k" "k \<noteq> l"
    obtain w b where "heap s tk = Some (TokB w)" "tok_type w = LABEL_TOK" "tok_data w = Ptr b" "b \<noteq> NULL" "heap s b = Some (StrB k)"
      using mem_label [OF m' [unfolded k(1)]] by metis
    then show ?thesis using tk s'(1,3) ps u k(2) by (simp add: search_end_def mem_simps calm_def)
  qed
  then show thesis using that s' by blast
qed

lemma search_hit:
  assumes m: "mem_is hinv hmap A [(t, ILab l, F), (tk, ILab l, G)] B s" and w: "heap s tk = Some (TokB w)" and A: "A l = None"
  obtains s' where "search_end V n t tk s = Ok s'" "mem_is hinv hmap (A(l \<mapsto> VLabel (label_of w))) [(t, ILab l, F)] B s'"
    "same s s'" "pstate s' = pstate s" "translated_line s' = translated_line s" "c_in s' = 32" "fpos s' = tok_offset w"
proof -
  have m': "mem_is hinv hmap A [(tk, ILab l, G), (t, ILab l, F)] B s"
    using m mem_swap [of hinv hmap A "[(t, ILab l, F)]" "[(tk, ILab l, G)]" B s] by simp
  obtain u a where u: "heap s t = Some (TokB u)" "tok_data u = Ptr a" "a \<noteq> NULL" "heap s a = Some (StrB l)" "t \<noteq> NULL"
    by (rule mem_label [OF m])
  obtain b where b: "tok_type w = LABEL_TOK" "tok_data w = Ptr b" "b \<noteq> NULL" "heap s b = Some (StrB l)" "tk \<noteq> NULL" "G = [b]"
    by (rule mem_label [OF m']) (use w in auto)
  obtain nl s1 where s1: "insert_label_to_vartable V tk s = Ok (nl, s1)" "nl \<noteq> NULL" "heap s1 nl = Some (LabelB (label_of w))"
    "heap s1 tk \<noteq> None" "tk \<noteq> NULL" "mem_is hinv hmap (A(l \<mapsto> VLabel (label_of w))) [(t, ILab l, F)] B (s1\<lparr>heap := (heap s1)(tk := None)\<rparr>)"
    "calm s s1" "translated_line s1 = translated_line s" by (rule insert_label_new [OF m' [unfolded b(6)] w A])
  let ?s' = "s1\<lparr>line := tok_line w, column := tok_column w, prev_col := tok_prev_col w, c_in := 32, fpos := tok_offset w,
    heap := (heap s1)(tk := None)\<rparr>"
  have "search_end V n t tk s = Ok ?s'"
    using u b w s1(1-5) by (auto simp: search_end_def mem_simps jump_to_def read_label_def deref_def label_of_def)
  moreover have "mem_is hinv hmap (A(l \<mapsto> VLabel (label_of w))) [(t, ILab l, F)] B ?s'"
    using s1(6) mem_cong [of ?s' "s1\<lparr>heap := (heap s1)(tk := None)\<rparr>"] by simp
  ultimately show thesis using that [of ?s'] s1(7,8) by (simp add: same_def calm_def)
qed

text \<open>The whole search.\<close>

lemma search_found:
  assumes "mem_is hinv hmap A [(t, ILab l, F)] B s" and "ring_is rinv rlist [] s" and "stands s (src P tk)" and "prog_ok P tk"
    and "itab_ok hinv hmap (itable s)" and "pstate s = INSTRUCTION_LINE" and "A l = None" and "first_label l k P = Some j"
    and "\<not> last_print (line_stmt (P ! (j - k))) (src (drop (Suc (j - k)) P) tk)" and "length P < n"
  shows "\<exists>s' lab. find_label V n t s = Ok s' \<and> mem_is hinv hmap (A(l \<mapsto> VLabel lab)) [(t, ILab l, F)] B s' \<and>
    ring_is rinv rlist [] s' \<and> same s s' \<and> pstate s' = INSTRUCTION_LINE \<and> c_in s' = 32 \<and> fpos s' = lbl_offset lab \<and>
    place (P ! (j - k)) (fbuf s) (src (drop (Suc (j - k)) P) tk) (lbl_offset lab)"
  using assms
proof (induction P arbitrary: k s n)
  case (Cons x P)
  obtain pre lab st gs bs where x: "x = (pre, lab, st, gs, bs)" by (cases x)
  obtain m where n: "n = Suc m" "length P < m" using Cons.prems(10) by (cases n) auto
  have ok: "sline_ok (pre, lab, st, gs, bs)" "tail_ok st bs (src P tk)" "prog_ok P tk" "tails_ok P tk"
      "length (sline_text (pre, lab, st, gs, bs) @ src P tk) < 2 ^ 32 - 2"
    using Cons.prems(4) prog_drop [OF Cons.prems(4), of 1] x by (simp_all add: prog_ok_def)
  have nl: "\<not> last_print st (src P tk)"
  proof (cases "line_label x = Some l")
    case True
    then show ?thesis using Cons.prems(8,9) x by simp
  next
    case False
    then have "P \<noteq> []" using Cons.prems(8) by (cases P) auto
    then show ?thesis using src_blank [OF ok(4)] by (auto simp: last_print_def split: stmt.splits list.splits)
  qed
  have st: "stands s (sline_text (pre, lab, st, gs, bs) @ src P tk)" using Cons.prems(3) x by simp
  obtain s1 tl itm G where s1: "find_label V (Suc m) t s = search_end V m t tl s1"
      "mem_is hinv hmap A [(t, ILab l, F), (tl, itm, G)] B s1" "ring_is rinv rlist [] s1" "same s s1"
      "pstate s1 = INSTRUCTION_LINE" "stands s1 (src P tk)" "lab = None \<Longrightarrow> \<exists>i. itm = IIns i"
      "\<And>k g. lab = Some (k, g) \<Longrightarrow> itm = ILab k \<and> (\<exists>u. heap s1 tl = Some (TokB u) \<and> place (pre, lab, st, gs, bs) (fbuf s) (src P tk) (tok_offset u))"
    using search_round [OF Cons.prems(1,2) st ok(1,2) nl ok(5) Cons.prems(5,6), of m] by metis
  show ?case
  proof (cases "line_label x = Some l")
    case True
    then obtain g where g: "lab = Some (l, g)" using x by auto
    then obtain w where w: "itm = ILab l" "heap s1 tl = Some (TokB w)" "place x (fbuf s) (src P tk) (tok_offset w)"
      using s1(8) x by blast
    obtain s2 where s2: "search_end V m t tl s1 = Ok s2" "mem_is hinv hmap (A(l \<mapsto> VLabel (label_of w))) [(t, ILab l, F)] B s2"
        "same s1 s2" "pstate s2 = pstate s1" "translated_line s2 = translated_line s1" "c_in s2 = 32" "fpos s2 = tok_offset w"
      by (rule search_hit [OF s1(2) [unfolded w(1)] w(2) Cons.prems(7)])
    have "j = k" using Cons.prems(8) True by simp
    moreover have "find_label V n t s = Ok s2" "lbl_offset (label_of w) = tok_offset w" using n(1) s1(1) s2(1) by (simp_all add: label_of_def)
    moreover have "ring_is rinv rlist [] s2" using s1(3) s2(5) by (simp add: ring_is_def)
    ultimately show ?thesis
      using s1(5) s2(2,4,6,7) w(3) same_simps(3) [OF s1(4) s2(3)]
      by (intro exI [of _ s2] exI [of _ "label_of w"]) (simp del: fun_upd_apply)
  next
    case False
    have i: "(\<exists>i. itm = IIns i) \<or> (\<exists>k. itm = ILab k \<and> k \<noteq> l)"
      using s1(7,8) False x by (cases lab) auto
    obtain s2 where s2: "search_end V m t tl s1 = find_label V m t s2" "mem_is hinv hmap A [(t, ILab l, F)] B s2" "calm s1 s2"
        "translated_line s2 = translated_line s1" by (rule search_skip [OF s1(2) i s1(5)])
    have j: "first_label l (Suc k) P = Some j" using Cons.prems(8) False by simp
    have "Suc k \<le> j" using first_label_at [OF j] by blast
    then have jk: "j - k = Suc (j - Suc k)" by arith
    have sm: "same s s2" using s1(4) s2(3) same_simps(1,3) by blast
    have "\<exists>s' lab. find_label V m t s2 = Ok s' \<and> mem_is hinv hmap (A(l \<mapsto> VLabel lab)) [(t, ILab l, F)] B s' \<and>
      ring_is rinv rlist [] s' \<and> same s2 s' \<and> pstate s' = INSTRUCTION_LINE \<and> c_in s' = 32 \<and> fpos s' = lbl_offset lab \<and>
      place (P ! (j - Suc k)) (fbuf s2) (src (drop (Suc (j - Suc k)) P) tk) (lbl_offset lab)"
    proof (rule Cons.IH [OF s2(2) _ _ ok(3) _ _ Cons.prems(7) j _ n(2)])
      show "ring_is rinv rlist [] s2" using s1(3) s2(4) by (simp add: ring_is_def)
      show "stands s2 (src P tk)" using s1(6) s2(3) stands_cong [of s2 s1] by (simp add: calm_def)
      show "itab_ok hinv hmap (itable s2)" using Cons.prems(5) sm by (simp add: same_def)
      show "pstate s2 = INSTRUCTION_LINE" using s1(5) s2(3) by (simp add: calm_def)
      show "\<not> last_print (line_stmt (P ! (j - Suc k))) (src (drop (Suc (j - Suc k)) P) tk)" using Cons.prems(9) jk by simp
    qed
    then obtain s' lab where s': "find_label V m t s2 = Ok s'" "mem_is hinv hmap (A(l \<mapsto> VLabel lab)) [(t, ILab l, F)] B s'"
      "ring_is rinv rlist [] s'" "same s2 s'" "pstate s' = INSTRUCTION_LINE" "c_in s' = 32" "fpos s' = lbl_offset lab"
      "place (P ! (j - Suc k)) (fbuf s2) (src (drop (Suc (j - Suc k)) P) tk) (lbl_offset lab)" by blast
    moreover have "find_label V n t s = Ok s'" "fbuf s2 = fbuf s" using n(1) s1(1) s2(1) s'(1) sm by (simp_all add: same_def)
    ultimately show ?thesis
      using jk same_simps(3) [OF sm s'(4)] by (intro exI [of _ s'] exI [of _ lab]) (simp del: fun_upd_apply)
  qed
qed simp

subsection \<open>A jump\<close>

text \<open>A jump to a label that is known, and one to a label ahead.\<close>

lemma run_jump_known:
  assumes m: "mem_is hinv hmap A [(t, ILab l, F)] B s" and A: "A l = Some (VLabel lab)"
  obtains s' where "bnd (take_branch V t s) (drop_label t) = Ok s'" "mem_is hinv hmap A [] B s'" "translated_line s' = translated_line s"
    "same s s'" "pstate s' = pstate s" "c_in s' = 32" "fpos s' = lbl_offset lab"
proof -
  obtain u a where u: "heap s t = Some (TokB u)" "tok_type u = LABEL_TOK" "tok_data u = Ptr a" "a \<noteq> NULL" "heap s a = Some (StrB l)"
    by (rule mem_label [OF m])
  have j: "take_branch V t s = Ok (at_label lab s)" by (rule jump_known [OF mem_good [OF m] u(1,3-5) A])
  have "mem_is hinv hmap A [(t, ILab l, F)] B (at_label lab s)" using m mem_cong [of "at_label lab s" s] by (simp add: at_label_def)
  then obtain s' where "drop_label t (at_label lab s) = Ok s'" "mem_is hinv hmap A [] B s'" "calm (at_label lab s) s'"
    "translated_line s' = translated_line (at_label lab s)" by (rule drop_label_ok)
  then show thesis using that [of s'] j by (simp add: at_label_def same_def calm_def)
qed

lemma run_jump_ahead:
  assumes m: "mem_is hinv hmap A [(t, ILab l, F)] B s" and r: "ring_is rinv rlist [] s" and st: "stands s (src P tk)" and ok: "prog_ok P tk"
    and it: "itab_ok hinv hmap (itable s)" and ps: "pstate s = INSTRUCTION_LINE" and A: "A l = None" and j: "first_label l k P = Some j"
    and nl: "\<not> last_print (line_stmt (P ! (j - k))) (src (drop (Suc (j - k)) P) tk)"
  obtains s' lab where "bnd (take_branch V t s) (drop_label t) = Ok s'" "mem_is hinv hmap (A(l \<mapsto> VLabel lab)) [] B s'" "ring_is rinv rlist [] s'"
    "same s s'" "pstate s' = INSTRUCTION_LINE" "c_in s' = 32" "fpos s' = lbl_offset lab"
    "place (P ! (j - k)) (fbuf s) (src (drop (Suc (j - k)) P) tk) (lbl_offset lab)"
proof -
  obtain u a where u: "heap s t = Some (TokB u)" "tok_type u = LABEL_TOK" "tok_data u = Ptr a" "a \<noteq> NULL" "heap s a = Some (StrB l)" "t \<noteq> NULL"
    by (rule mem_label [OF m])
  note g = mem_good [OF m]
  have "find_var V l s = Ok None" by (rule find_var_None [OF goodD(2) [OF g]]) (use vinv_None [OF goodD(3) [OF g], of l] A in simp)
  then have tb: "take_branch V t s = find_label V (left s + 2) t s"
    using u by (simp add: take_branch_def mem_simps del: find_label.simps)
  have "length P < left s + 2" using src_lines [of P tk] stands_left [OF st] by simp
  from search_found [OF m r st ok it ps A j nl this] obtain s1 lab where s1: "find_label V (left s + 2) t s = Ok s1"
    "mem_is hinv hmap (A(l \<mapsto> VLabel lab)) [(t, ILab l, F)] B s1" "ring_is rinv rlist [] s1" "same s s1" "pstate s1 = INSTRUCTION_LINE"
    "c_in s1 = 32" "fpos s1 = lbl_offset lab" "place (P ! (j - k)) (fbuf s) (src (drop (Suc (j - k)) P) tk) (lbl_offset lab)" by blast
  obtain s2 where s2: "drop_label t s1 = Ok s2" "mem_is hinv hmap (A(l \<mapsto> VLabel lab)) [] B s2" "calm s1 s2" "translated_line s2 = translated_line s1"
    by (rule drop_label_ok [OF s1(2)])
  have "same s s2" using s1(4) same_simps(1) [OF s2(3)] same_simps(3) by blast
  then show thesis
    using that [of s2 lab] tb s1 s2 by (simp add: calm_def ring_is_def del: fun_upd_apply find_label.simps)
qed

end

end
