(* ===== verification/Simulate.thy ===== *)
theory Simulate imports LineRun begin

section \<open>The interpreter simulates the machine\<close>

text \<open>
  The simulation relation \<open>msim\<close> holds between a state of the machine and a state of a program whose file has the text of the
  machine's program.  One call of \<open>interpret_next_line\<close> is one step of the machine.
\<close>

subsection \<open>The relation\<close>

definition file_text :: "sline list \<Rightarrow> string \<Rightarrow> string" where
  "file_text P tk = magic_bytes @ CHR 0x0A # src P tk"

text \<open>A label of the program's table stands for a line: the place it holds is the one behind the label in that line.\<close>

definition at_place :: "sline list \<Rightarrow> string \<Rightarrow> string \<Rightarrow> label_data_s \<Rightarrow> label_data_s \<Rightarrow> bool" where
  "at_place P tk x lab d \<longleftrightarrow> lbl_offset d < length P \<and>
     place (P ! lbl_offset d) (file_text P tk) (src (drop (Suc (lbl_offset d)) P) tk) (lbl_offset lab)"

definition mline :: "sline list \<Rightarrow> mach \<Rightarrow> sline" where
  "mline P m = (if m_past m then unlabel (P ! m_pc m) else P ! m_pc m)"

definition mtext :: "sline list \<Rightarrow> string \<Rightarrow> mach \<Rightarrow> string" where
  "mtext P tk m = (if m_pc m < length P then sline_text (mline P m) @ src (drop (Suc (m_pc m)) P) tk else tk)"

fun in_mode :: "mode \<Rightarrow> ('h, 'r) st \<Rightarrow> string \<Rightarrow> bool" where
  "in_mode Running s T \<longleftrightarrow> pstate s = INSTRUCTION_LINE \<and> stands s T"
| "in_mode (Asleep v) s T \<longleftrightarrow> pstate s = SLEEPING \<and> 0 < sint v \<and> sleep_sec s = sint v \<and> sleep_nsec s = 0 \<and> stands s T"
| "in_mode Ended s T \<longleftrightarrow> pstate s = FINISHED"

text \<open>The memory: the table of variables stands for the environment of the machine, and \<open>m_lost\<close> blocks are lost.\<close>

type_synonym mem = "addr \<Rightarrow> block option"

definition memory :: "('h \<Rightarrow> bool) \<Rightarrow> ('h \<Rightarrow> pairs) \<Rightarrow> mem \<Rightarrow> sline list \<Rightarrow> string \<Rightarrow> env \<Rightarrow> nat \<Rightarrow> env \<Rightarrow> toks \<Rightarrow> mem \<Rightarrow> ('h, 'r) st \<Rightarrow> bool" where
  "memory hinv hmap R P tk M n A L B s \<longleftrightarrow> mem_is hinv hmap A L B s \<and> erel (at_place P tk) A M \<and> lost n R B"

text \<open>\<open>R\<close> is the memory of others, and \<open>pr\<close> what was written before.\<close>

definition msim :: "('h \<Rightarrow> bool) \<Rightarrow> ('h \<Rightarrow> pairs) \<Rightarrow> ('r \<Rightarrow> bool) \<Rightarrow> ('r \<Rightarrow> addr list) \<Rightarrow> mem \<Rightarrow> event list \<Rightarrow> sline list \<Rightarrow> string \<Rightarrow> mach \<Rightarrow> ('h, 'r) st \<Rightarrow> bool" where
  "msim hinv hmap rinv rlist R pr P tk m s \<longleftrightarrow> (\<exists>A B. memory hinv hmap R P tk (m_env m) (m_lost m) A [] B s) \<and> ring_is rinv rlist [] s \<and>
     itab_ok hinv hmap (itable s) \<and> argv s \<noteq> [] \<and> out s = pr @ m_out m \<and> \<not> error_flag s \<and> fbuf s = file_text P tk \<and>
     in_mode (m_mode m) s (mtext P tk m)"

text \<open>What no line changes.\<close>

definition kept :: "('h, 'r) st \<Rightarrow> ('h, 'r) st \<Rightarrow> bool" where
  "kept s s' \<longleftrightarrow> argv s' = argv s \<and> mem_max s' = mem_max s \<and> gtab s' = gtab s \<and> itable s' = itable s"

lemma kept_refl [simp]: "kept s s"
  by (simp add: kept_def)

lemma kept_trans: "kept s s1 \<Longrightarrow> kept s1 s2 \<Longrightarrow> kept s s2"
  by (simp add: kept_def)

text \<open>A line is begun: it was scanned, its label is defined, and the handler of its instruction is about to run on the tokens \<open>L\<close>.\<close>

definition begun :: "('h, 'p, 'r) voids \<Rightarrow> ('h \<Rightarrow> bool) \<Rightarrow> ('h \<Rightarrow> pairs) \<Rightarrow> ('r \<Rightarrow> bool) \<Rightarrow> ('r \<Rightarrow> addr list) \<Rightarrow> mem \<Rightarrow> event list \<Rightarrow> sline list \<Rightarrow> string \<Rightarrow> mach \<Rightarrow> mach \<Rightarrow>
    ('h, 'r) st \<Rightarrow> ('h, 'r) st \<Rightarrow> env \<Rightarrow> toks \<Rightarrow> mem \<Rightarrow> bool" where
  "begun V hinv hmap rinv rlist R pr P tk m m1 s s2 A L B \<longleftrightarrow> prog_ok P tk \<and> msim hinv hmap rinv rlist R pr P tk m s \<and> m_mode m = Running \<and> m_pc m < length P \<and>
     (\<exists>s1. tokenize_next_line V s = Ok s1 \<and> (pstate s1 = INSTRUCTION_LINE \<or> pstate s1 = LAST_LINE) \<and>
        exec_instruction_line V s1 = exec_handler V (stmt_ins (line_stmt (P ! m_pc m))) s2) \<and>
     memory hinv hmap R P tk (m_env m1) (m_lost m1) A L B s2 \<and> ring_is rinv rlist L s2 \<and> items L = stmt_items (line_stmt (P ! m_pc m)) \<and> same s s2 \<and>
     (if ends_here P (m_pc m) then pstate s2 = LAST_LINE else pstate s2 = INSTRUCTION_LINE \<and> stands s2 (src (drop (Suc (m_pc m)) P) tk)) \<and>
     (\<exists>e n. m1 = m\<lparr>m_env := e, m_lost := n\<rparr>)"

lemma begunD:
  assumes "begun V hinv hmap rinv rlist R pr P tk m m1 s s2 A L B"
  shows "prog_ok P tk" "msim hinv hmap rinv rlist R pr P tk m s" "m_mode m = Running" "m_pc m < length P"
    "mem_is hinv hmap A L B s2" "erel (at_place P tk) A (m_env m1)" "lost (m_lost m1) R B" "kept s s2" "ring_is rinv rlist L s2"
    "items L = stmt_items (line_stmt (P ! m_pc m))" "same s s2" "m_pc m1 = m_pc m" "m_out m1 = m_out m" "m_mode m1 = Running"
    "ends_here P (m_pc m) \<Longrightarrow> pstate s2 = LAST_LINE"
    "\<not> ends_here P (m_pc m) \<Longrightarrow> pstate s2 = INSTRUCTION_LINE \<and> stands s2 (src (drop (Suc (m_pc m)) P) tk)"
    "argv s2 = argv s" "mem_max s2 = mem_max s" "argv s2 \<noteq> []" "itable s2 = itable s" "fbuf s2 = file_text P tk" "pstate s = INSTRUCTION_LINE"
    "itab_ok hinv hmap (itable s2)"
  using assms by (auto simp: begun_def memory_def same_def msim_def kept_def)

lemma line_stmt_ok: "prog_ok P tk \<Longrightarrow> k < length P \<Longrightarrow> stmt_ok (line_stmt (P ! k))"
  by (cases "P ! k") (auto simp: prog_ok_def list_all_length)

lemma erel_label: "erel Q A M \<Longrightarrow> Q x l d \<Longrightarrow> erel Q (A(x \<mapsto> VLabel l)) (M(x \<mapsto> VLabel d))"
  by (auto simp: erel_def)

lemma ends_last:
  assumes "prog_ok P tk" and "k < length P"
  shows "ends_here P k \<longleftrightarrow> last_print (line_stmt (P ! k)) (src (drop (Suc k) P) tk)"
  using src_blank [of "drop (Suc k) P" tk] prog_drop [OF assms(1), of "Suc k"] assms(2)
  by (auto simp: ends_here_def last_print_def prog_ok_def split: stmt.splits list.splits)

lemma tails_at:
  assumes "tails_ok P tk" and "k < length P" and "P ! k = (pre, lab, st, gs, bs)"
  shows "tail_ok st bs (src (drop (Suc k) P) tk)"
  using tails_drop [OF assms(1), of k] assms(2,3) by (simp add: Cons_nth_drop_Suc [symmetric])

lemma mtext_fresh: "\<not> m_past m \<Longrightarrow> mtext P tk m = src (drop (m_pc m) P) tk"
  by (simp add: mtext_def mline_def src_at)

lemma ends_next: "ends_here P k \<Longrightarrow> sexec av mm A (line_stmt (P ! k)) = Some a \<Longrightarrow> \<exists>A' ev. a = Next A' ev"
  by (auto simp: ends_here_def split: stmt.splits list.splits)

context voids_lib
begin

subsection \<open>Statements\<close>

text \<open>The handler of a statement performs the action of \<open>sexec\<close>.\<close>

lemma run_next:
  assumes m: "mem_is hinv hmap A L B s" and r: "ring_is rinv rlist L s" and L: "items L = stmt_items st" "stmt_ok st" and av: "argv s \<noteq> []"
    and ex: "sexec (argv s) (mem_max s) A st = Some (Next A' ev)"
  shows "\<exists>s'. exec_handler V (stmt_ins st) s = Ok s' \<and> mem_is hinv hmap A' [] B s' \<and> ring_is rinv rlist [] s' \<and>
    calm (s\<lparr>out := out s @ ev\<rparr>) s'"
proof (cases st)
  case (Do i)
  then show ?thesis using run_do [OF m r, of i A'] L ex by (auto split: option.splits)
next
  case (Br c e1 e2 l)
  then obtain v A1 i1 w i2 where ag: "aget (argv s) (mem_max s) A e1 = Some (v, A1, i1)" "aget (argv s) (mem_max s) A1 e2 = Some (w, A', i2)"
      "\<not> br_cond c (sint v) (sint w)" "ev = []"
    using ex by (auto split: option.splits if_splits)
  have i: "items L = [IExpr e1, IExpr e2, ILab l]" "c \<in> {BRGT_SYM, BRGE_SYM, BRLT_SYM, BRLE_SYM, BREQ_SYM}" using L Br by simp_all
  obtain t F s1 where s1: "exec_handler V c s = bnd (if br_cond c (sint v) (sint w) then take_branch V t s1 else Ok s1) (drop_label t)"
    "mem_is hinv hmap A' [(t, ILab l, F)] B s1" "ring_is rinv rlist [] s1" "calm s s1"
    by (rule run_br [OF m r i ag(1,2)])
  obtain s2 where s2: "drop_label t s1 = Ok s2" "mem_is hinv hmap A' [] B s2" "calm s1 s2" "translated_line s2 = translated_line s1"
    by (rule drop_label_ok [OF s1(2)])
  then show ?thesis using Br s1 ag(3,4) by (simp add: ring_is_def calm_def)
next
  case (Print x es)
  then obtain vs where vs: "agets (argv s) (mem_max s) A es = Some (vs, A')" "ev = Says (argv s ! 0) # SaysStr x # map SaysInt vs @ [SaysNl]"
    using ex by (auto split: option.splits)
  then show ?thesis using run_print [OF m r _ av vs(1), of x] L(1) Print by auto
qed (use ex in \<open>auto split: option.splits if_splits\<close>)

lemma run_jump:
  assumes m: "mem_is hinv hmap A L B s" and r: "ring_is rinv rlist L s" and L: "items L = stmt_items st" "stmt_ok st"
    and ex: "sexec (argv s) (mem_max s) A st = Some (Jump l A')"
  obtains t F s' where "exec_handler V (stmt_ins st) s = bnd (take_branch V t s') (drop_label t)" "mem_is hinv hmap A' [(t, ILab l, F)] B s'"
    "ring_is rinv rlist [] s'" "calm s s'"
proof (cases st)
  case (Bra k)
  then have "items L = [ILab l]" "A' = A" using L ex by simp_all
  then show thesis using run_bra [OF m r] that Bra by (metis stmt_ins.simps(2))
next
  case (Br c e1 e2 k)
  then obtain v A1 i1 w i2 where ag: "aget (argv s) (mem_max s) A e1 = Some (v, A1, i1)" "aget (argv s) (mem_max s) A1 e2 = Some (w, A', i2)"
      "br_cond c (sint v) (sint w)" "k = l"
    using ex by (auto split: option.splits if_splits)
  have i: "items L = [IExpr e1, IExpr e2, ILab l]" "c \<in> {BRGT_SYM, BRGE_SYM, BRLT_SYM, BRLE_SYM, BREQ_SYM}" using L Br ag(4) by simp_all
  obtain t F s1 where s1: "exec_handler V c s = bnd (if br_cond c (sint v) (sint w) then take_branch V t s1 else Ok s1) (drop_label t)"
    "mem_is hinv hmap A' [(t, ILab l, F)] B s1" "ring_is rinv rlist [] s1" "calm s s1"
    by (rule run_br [OF m r i ag(1,2)])
  show thesis by (rule that [of t s1 F]) (use s1 ag(3) Br in simp_all)
qed (use ex in \<open>auto split: option.splits if_splits\<close>)

lemma run_doze:
  assumes m: "mem_is hinv hmap A L B s" and r: "ring_is rinv rlist L s" and L: "items L = stmt_items st"
    and ex: "sexec (argv s) (mem_max s) A st = Some (Doze v A')"
  shows "\<exists>s'. exec_handler V (stmt_ins st) s = Ok s' \<and> mem_is hinv hmap A' [] B s' \<and> ring_is rinv rlist [] s' \<and>
    calm (s\<lparr>pstate := SLEEPING\<rparr>) s' \<and> sleep_sec s' = sint v \<and> sleep_nsec s' = 0"
proof (cases st)
  case (Sleep e)
  then obtain ins where e: "aget (argv s) (mem_max s) A e = Some (v, A', ins)" "0 < sint v" using ex by (auto split: option.splits if_splits)
  then show ?thesis using run_sleep [OF m r _ e] L Sleep by simp
qed (use ex in \<open>auto split: option.splits if_splits\<close>)

lemma run_halt:
  assumes m: "mem_is hinv hmap A L B s" and r: "ring_is rinv rlist L s" and L: "items L = stmt_items st"
    and ex: "sexec (argv s) (mem_max s) A st = Some (Halt A')"
  shows "\<exists>s'. exec_handler V (stmt_ins st) s = Ok s' \<and> mem_is hinv hmap A' [] B s' \<and> ring_is rinv rlist [] s' \<and> calm (s\<lparr>pstate := FINISHED\<rparr>) s'"
proof (cases st)
  case Return
  then have "L = []" "A' = A" using L ex by (simp_all add: items_Nil)
  then show ?thesis using Return m r mem_cong [of "s\<lparr>pstate := FINISHED\<rparr>" s] by (simp add: return_handler_def ring_is_def)
qed (use ex in \<open>auto split: option.splits if_splits\<close>)

subsection \<open>The start of a line\<close>

text \<open>The line is scanned: \<open>M\<close> are the tokens of its label, unless that is behind.\<close>

lemma line_scanned:
  assumes ok: "prog_ok P tk" and sim: "msim hinv hmap rinv rlist R pr P tk m s" and run: "m_mode m = Running" and pc: "m_pc m < length P"
    and mem: "mem_is hinv hmap A [] B s"
  obtains s1 M ti F K where "tokenize_next_line V s = Ok s1" "scan_frame s s1"
    "mem_is hinv hmap A (M @ (ti, IIns (stmt_ins (line_stmt (P ! m_pc m))), F) # K) B s1"
    "ring_is rinv rlist (M @ (ti, IIns (stmt_ins (line_stmt (P ! m_pc m))), F) # K) s1" "items K = stmt_items (line_stmt (P ! m_pc m))"
    "m_past m \<or> line_label (P ! m_pc m) = None \<Longrightarrow> M = []"
    "\<And>l. \<not> m_past m \<Longrightarrow> line_label (P ! m_pc m) = Some l \<Longrightarrow> \<exists>tl a u. M = [(tl, ILab l, [a])] \<and> heap s1 tl = Some (TokB u) \<and>
       place (P ! m_pc m) (file_text P tk) (src (drop (Suc (m_pc m)) P) tk) (tok_offset u)"
    "if ends_here P (m_pc m) then pstate s1 = LAST_LINE else pstate s1 = INSTRUCTION_LINE \<and> stands s1 (src (drop (Suc (m_pc m)) P) tk)"
proof -
  let ?r = "src (drop (Suc (m_pc m)) P) tk"
  have S: "ring_is rinv rlist [] s" "itab_ok hinv hmap (itable s)" "fbuf s = file_text P tk" "pstate s = INSTRUCTION_LINE" "stands s (mtext P tk m)"
    using sim run by (simp_all add: msim_def)
  obtain pre lab st gs bs where x: "mline P m = (pre, lab, st, gs, bs)" by (cases "mline P m")
  obtain pre0 lab0 where x0: "P ! m_pc m = (pre0, lab0, st, gs, bs)" "lab = (if m_past m then None else lab0)"
    using x by (cases "P ! m_pc m") (auto simp: mline_def split: if_splits)
  have xok: "sline_ok (pre, lab, st, gs, bs)"
    using ok pc x unlabel_ok(1) [of "P ! m_pc m"] by (auto simp: mline_def prog_ok_def list_all_length split: if_splits)
  have stands: "stands s (sline_text (pre, lab, st, gs, bs) @ ?r)" using S(5) pc x by (simp add: mtext_def)
  have tail: "tail_ok st bs ?r" using tails_at [of P tk "m_pc m"] ok pc x0 by (simp add: prog_ok_def)
  have last: "ends_here P (m_pc m) \<longleftrightarrow> last_print st ?r" using ends_last [OF ok pc] x0 by simp
  have len: "length bs + length ?r < 2 ^ 32 - 2"
    using src_at [OF pc, of tk] src_drop_length [of "m_pc m" P tk] ok x0 its_str_tail [of bs "zip gs (stmt_items st)"]
    by (simp add: prog_ok_def its_text_def)
  have rs: "rinv (translated_line s)" "rlist (translated_line s) = []" using S(1) by (simp_all add: ring_is_def)
  obtain s1 M L where s1: "tokenize_next_line V s = Ok s1" "scans rinv rlist (M @ L) s s1" "items L = IIns (stmt_ins st) # stmt_items st"
    "label_toks lab M s1 (its_text st gs bs @ ?r)" "if last_print st ?r then pstate s1 = LAST_LINE else stands s1 ?r \<and> pstate s1 = INSTRUCTION_LINE"
    using tokenize_sline [OF stands xok tail len S(2) goodD(1) [OF mem_good [OF mem]] rs(1) S(4)] by blast
  have fr: "scan_frame s s1" using scansD(8) [OF s1(2)] .
  obtain ti F K where L: "L = (ti, IIns (stmt_ins st), F) # K" "items K = stmt_items st" using s1(3) by (auto dest!: items_Cons)
  show thesis
  proof (rule that [of s1 M ti F K])
    show "mem_is hinv hmap A (M @ (ti, IIns (stmt_ins (line_stmt (P ! m_pc m))), F) # K) B s1"
      using mem_scan [OF mem s1(2)] L(1) x0(1) by simp
    show "ring_is rinv rlist (M @ (ti, IIns (stmt_ins (line_stmt (P ! m_pc m))), F) # K) s1"
      using scansD(6,7) [OF s1(2)] rs L(1) x0(1) by (simp add: ring_is_def)
    show "M = []" if "m_past m \<or> line_label (P ! m_pc m) = None" using that s1(4) x0 by auto
    show "\<exists>tl a u. M = [(tl, ILab l, [a])] \<and> heap s1 tl = Some (TokB u) \<and> place (P ! m_pc m) (file_text P tk) ?r (tok_offset u)"
      if "\<not> m_past m" "line_label (P ! m_pc m) = Some l" for l
      using that s1(4) x0 fr S(3) by (auto simp: scan_frame_def)
    show "if ends_here P (m_pc m) then pstate s1 = LAST_LINE else pstate s1 = INSTRUCTION_LINE \<and> stands s1 ?r"
      using s1(5) last by simp
  qed (use s1(1) fr L(2) x0(1) in simp_all)
qed

text \<open>Its label is defined, and its instruction found.\<close>

lemma line_begun:
  assumes ok: "prog_ok P tk" and sim: "msim hinv hmap rinv rlist R pr P tk m s" and run: "m_mode m = Running" and pc: "m_pc m < length P"
    and ml: "mlabel P m = Some m1"
  shows "\<exists>s2 A L B. begun V hinv hmap rinv rlist R pr P tk m m1 s s2 A L B"
proof -
  let ?r = "src (drop (Suc (m_pc m)) P) tk" and ?st = "line_stmt (P ! m_pc m)"
  obtain A B where mem: "mem_is hinv hmap A [] B s" "erel (at_place P tk) A (m_env m)" "lost (m_lost m) R B"
    using sim by (auto simp: msim_def memory_def)
  obtain s1 M ti F K where s1: "tokenize_next_line V s = Ok s1" "scan_frame s s1" "mem_is hinv hmap A (M @ (ti, IIns (stmt_ins ?st), F) # K) B s1"
    "ring_is rinv rlist (M @ (ti, IIns (stmt_ins ?st), F) # K) s1" "items K = stmt_items ?st"
    "m_past m \<or> line_label (P ! m_pc m) = None \<Longrightarrow> M = []"
    "\<And>l. \<not> m_past m \<Longrightarrow> line_label (P ! m_pc m) = Some l \<Longrightarrow> \<exists>tl a u. M = [(tl, ILab l, [a])] \<and> heap s1 tl = Some (TokB u) \<and>
       place (P ! m_pc m) (file_text P tk) ?r (tok_offset u)"
    "if ends_here P (m_pc m) then pstate s1 = LAST_LINE else pstate s1 = INSTRUCTION_LINE \<and> stands s1 ?r"
    using line_scanned [OF ok sim run pc mem(1)] by blast
  have fin: ?thesis if s2: "exec_instruction_line V s1 = exec_handler V (stmt_ins ?st) s2" "mem_is hinv hmap A' K C s2" "ring_is rinv rlist K s2" "calm s1 s2"
      and A': "erel (at_place P tk) A' (m_env m1)" "lost (m_lost m1) R C" "m1 = m\<lparr>m_env := e, m_lost := n\<rparr>" for s2 A' C e n
  proof -
    have "if ends_here P (m_pc m) then pstate s2 = LAST_LINE else pstate s2 = INSTRUCTION_LINE \<and> stands s2 ?r"
      using s1(8) s2(4) stands_cong [of s2 s1] by (simp add: calm_def)
    moreover have "same s s2" using same_simps(2) [OF s1(2)] same_simps(1) [OF s2(4)] same_simps(3) by blast
    moreover have "pstate s1 = INSTRUCTION_LINE \<or> pstate s1 = LAST_LINE" using s1(8) by (auto split: if_splits)
    moreover have "\<exists>e n. m1 = m\<lparr>m_env := e, m_lost := n\<rparr>" using A'(3) by blast
    ultimately have "begun V hinv hmap rinv rlist R pr P tk m m1 s s2 A' K C"
      unfolding begun_def memory_def using s1(1,5) s2(1-3) A'(1,2) ok sim run pc by blast
    then show ?thesis by blast
  qed
  show ?thesis
  proof (cases "m_past m \<or> line_label (P ! m_pc m) = None")
    case True
    then have M: "M = []" "m1 = m\<lparr>m_env := m_env m, m_lost := m_lost m\<rparr>" using s1(6) ml by (auto simp: mlabel_def split: if_splits)
    obtain s2 where s2: "exec_instruction_line V s1 = exec_handler V (stmt_ins ?st) s2" "mem_is hinv hmap A K B s2" "ring_is rinv rlist K s2" "calm s1 s2"
      by (rule exec_plain [of A ti "stmt_ins ?st" F K B s1]) (use s1(3,4) M(1) in simp_all)
    show ?thesis by (rule fin [OF s2 _ _ M(2)]) (use mem(2,3) M(2) in simp_all)
  next
    case False
    then obtain l where l: "\<not> m_past m" "line_label (P ! m_pc m) = Some l" by auto
    obtain tl a u where u: "M = [(tl, ILab l, [a])]" "heap s1 tl = Some (TokB u)" "place (P ! m_pc m) (file_text P tk) ?r (tok_offset u)"
      using s1(7) [OF l] by blast
    let ?d = "at_line (m_pc m)"
    have old: "\<exists>lab. A l = Some (VLabel lab) \<and> lbl_offset lab = tok_offset u" if A: "A l \<noteq> None"
    proof -
      have "m_env m l \<noteq> None" using A erel_None [OF mem(2), of l] by simp
      then obtain d where d: "m_env m l = Some (VLabel d)" "lbl_offset d = m_pc m"
        using ml l by (auto simp: mlabel_def split: option.splits var.splits if_splits)
      then obtain lb where lb: "A l = Some (VLabel lb)" "at_place P tk l lb d" using erelD [OF mem(2), of l] by auto
      then show ?thesis using place_unique [OF _ u(3)] d(2) by (auto simp: at_place_def)
    qed
    obtain s2 C where s2: "exec_instruction_line V s1 = exec_handler V (stmt_ins ?st) s2"
      "mem_is hinv hmap (if A l = None then A(l \<mapsto> VLabel (label_of u)) else A) K C s2" "ring_is rinv rlist K s2" "calm s1 s2"
      "\<And>n R. lost n R B \<Longrightarrow> lost (n + (if A l = None then 0 else 2)) R C"
      by (rule exec_labelled [of A tl l a ti "stmt_ins ?st" F K B s1 u]) (use s1(3,4) u(1,2) old in \<open>simp_all, blast\<close>)
    show ?thesis
    proof (cases "A l")
      case None
      then have "m_env m l = None" using erel_None [OF mem(2), of l] by simp
      then have q: "m1 = m\<lparr>m_env := (m_env m)(l \<mapsto> VLabel ?d), m_lost := m_lost m\<rparr>" using ml l by (auto simp: mlabel_def)
      have "at_place P tk l (label_of u) ?d" using u(3) pc by (simp add: at_place_def label_of_def at_line_def)
      from erel_label [OF mem(2), of l, OF this] show ?thesis
        by (intro fin [OF s2(1) _ s2(3,4) _ _ q]) (use q s2(2) s2(5) [OF mem(3)] None in auto)
    next
      case (Some v)
      then obtain d where "m_env m l = Some (VLabel d)" using old erelD [OF mem(2), of l] by (cases "m_env m l"; cases "the (m_env m l)") auto
      then have q: "m1 = m\<lparr>m_env := m_env m, m_lost := m_lost m + 2\<rparr>" using ml l by (simp add: mlabel_def split: if_splits)
      show ?thesis
        by (rule fin [OF s2(1) _ s2(3,4) _ _ q]) (use q s2(2) s2(5) [OF mem(3)] mem(2) Some in auto)
    qed
  qed
qed

subsection \<open>One step\<close>

lemma interp_line:
  assumes "tokenize_next_line V s = Ok s1" and "pstate s = INSTRUCTION_LINE" and "pstate s1 = INSTRUCTION_LINE \<or> pstate s1 = LAST_LINE"
    and "exec_instruction_line V s1 = Ok s3"
  shows "interpret_next_line V s = Ok (if pstate s3 = LAST_LINE then s3\<lparr>pstate := FINISHED\<rparr> else s3)"
  using assms by (auto simp: interpret_next_line_def)

lemma end_of_text:
  assumes st: "stands s T" "list_all blank T" and r: "ring_is rinv rlist [] s" and ps: "pstate s = INSTRUCTION_LINE"
  obtains n where "interpret_next_line V s = Ok ((adv n s)\<lparr>pstate := FINISHED\<rparr>)"
proof -
  obtain t where t: "pend s t" "dropWhile blank t = dropWhile blank T" using st(1) by (auto simp: stands_def)
  moreover have "dropWhile blank T = []" using st(2) by (simp add: list_all_iff)
  ultimately have bt: "list_all blank t" by (simp add: list_all_iff)
  then have "isspace (c_in s)" "list_all blank (rest s)" using t(1) by (cases t; simp add: pend_def)+
  then have nw: "get_next_word MAX_ALLOWED_SYMBOL_LEN False s = Ok (0, adv (Suc (length (rest s))) s)"
    using next_word_none [of s "rest s" False] by simp
  let ?s = "adv (Suc (length (rest s))) s"
  have "ring_is rinv rlist [] ?s" using r by (simp add: ring_is_def text_simps)
  then have "ring_read V ?s = (NULL, VDS_BUFFER_EMPTY, ?s)" by (rule ring_empty)
  then have "interpret_next_line V s = Ok (?s\<lparr>pstate := FINISHED\<rparr>)"
    using nw ps by (simp add: interpret_next_line_def tokenize_next_line_def is_valid_label_def
        call_instruction_handler_def exec_instruction_line_def text_simps)
  then show thesis by (rule that)
qed

lemma msim_fields:
  assumes "memory hinv hmap R P tk (m_env m) (m_lost m) A [] B s'" and "ring_is rinv rlist [] s'" and "itable s' = itable s" "argv s' = argv s"
    "out s' = out s @ ev" "error_flag s' = error_flag s" "fbuf s' = fbuf s" and "msim hinv hmap rinv rlist R pr P tk m0 s" and "m_out m = m_out m0 @ ev"
    and "in_mode (m_mode m) s' (mtext P tk m)"
  shows "msim hinv hmap rinv rlist R pr P tk m s'"
  using assms by (auto simp: msim_def)

lemma line_finished:
  assumes b: "begun V hinv hmap rinv rlist R pr P tk m m1 s s2 A L B"
    and "exec_handler V (stmt_ins (line_stmt (P ! m_pc m))) s2 = Ok s3" and "mem_is hinv hmap A' [] B s3" and "erel (at_place P tk) A' (m_env m')"
    and "ring_is rinv rlist [] s3" and "same (s2\<lparr>out := out s2 @ ev\<rparr>) s3" and "m_lost m' = m_lost m1" and "m_out m' = m_out m @ ev"
    and "in_mode (m_mode m') (if pstate s3 = LAST_LINE then s3\<lparr>pstate := FINISHED\<rparr> else s3) (mtext P tk m')"
  shows "\<exists>s'. interpret_next_line V s = Ok s' \<and> msim hinv hmap rinv rlist R pr P tk m' s' \<and> kept s s'"
proof -
  note D = begunD [OF b]
  let ?s = "if pstate s3 = LAST_LINE then s3\<lparr>pstate := FINISHED\<rparr> else s3"
  obtain s1 where s1: "tokenize_next_line V s = Ok s1" "pstate s1 = INSTRUCTION_LINE \<or> pstate s1 = LAST_LINE"
    "exec_instruction_line V s1 = exec_handler V (stmt_ins (line_stmt (P ! m_pc m))) s2" using b by (auto simp: begun_def)
  have "interpret_next_line V s = Ok ?s"
    by (rule interp_line [OF s1(1) D(22) s1(2)]) (use s1(3) assms(2) in simp)
  moreover have "msim hinv hmap rinv rlist R pr P tk m' ?s"
  proof (rule msim_fields [where ev = ev, OF _ _ _ _ _ _ _ D(2) assms(8,9)])
    show "memory hinv hmap R P tk (m_env m') (m_lost m') A' [] B ?s"
      using assms(3,4,7) D(7) mem_cong [of "s3\<lparr>pstate := FINISHED\<rparr>" s3] by (simp add: memory_def)
    show "ring_is rinv rlist [] ?s" using assms(5) by (simp add: ring_is_def)
  qed (use assms(6) D(11) in \<open>auto simp: same_def\<close>)
  moreover have "kept s ?s" using assms(6) D(11) by (auto simp: same_def kept_def)
  ultimately show ?thesis by blast
qed

lemma step_next:
  assumes b: "begun V hinv hmap rinv rlist R pr P tk m m1 s s2 A L B"
    and a: "sexec (argv s2) (mem_max s2) A (line_stmt (P ! m_pc m)) = Some (Next A' ev)" and e: "erel (at_place P tk) A' M"
    and m': "m' = m1\<lparr>m_env := M, m_out := m_out m1 @ ev, m_pc := Suc (m_pc m1), m_past := False,
        m_mode := (if ends_here P (m_pc m1) then Ended else Running)\<rparr>"
  shows "\<exists>s'. interpret_next_line V s = Ok s' \<and> msim hinv hmap rinv rlist R pr P tk m' s' \<and> kept s s'"
proof -
  note D = begunD [OF b]
  let ?r = "src (drop (Suc (m_pc m)) P) tk"
  obtain s3 where s3: "exec_handler V (stmt_ins (line_stmt (P ! m_pc m))) s2 = Ok s3" "mem_is hinv hmap A' [] B s3" "ring_is rinv rlist [] s3"
    "calm (s2\<lparr>out := out s2 @ ev\<rparr>) s3"
    using run_next [OF D(5,9,10) line_stmt_ok [OF D(1,4)] D(19) a] by blast
  show ?thesis
  proof (rule line_finished [OF b s3(1,2) _ s3(3) same_simps(1) [OF s3(4)]])
    have "stands s3 ?r = stands s2 ?r" using stands_cong [of s3 s2] s3(4) by (simp add: calm_def)
    then show "in_mode (m_mode m') (if pstate s3 = LAST_LINE then s3\<lparr>pstate := FINISHED\<rparr> else s3) (mtext P tk m')"
      using D(15,16) s3(4) m' D(12) by (auto simp: calm_def mtext_fresh)
  qed (use m' D(13) e in simp_all)
qed

lemma step_doze:
  assumes b: "begun V hinv hmap rinv rlist R pr P tk m m1 s s2 A L B"
    and a: "sexec (argv s2) (mem_max s2) A (line_stmt (P ! m_pc m)) = Some (Doze v A')" and e: "erel (at_place P tk) A' M"
    and m': "m' = m1\<lparr>m_env := M, m_mode := Asleep v, m_pc := Suc (m_pc m1), m_past := False\<rparr>"
  shows "\<exists>s'. interpret_next_line V s = Ok s' \<and> msim hinv hmap rinv rlist R pr P tk m' s' \<and> kept s s'"
proof -
  note D = begunD [OF b]
  let ?r = "src (drop (Suc (m_pc m)) P) tk"
  have "\<not> ends_here P (m_pc m)" using ends_next [OF _ a] by auto
  then have p2: "pstate s2 = INSTRUCTION_LINE" "stands s2 ?r" using D(16) by blast+
  obtain s3 where s3: "exec_handler V (stmt_ins (line_stmt (P ! m_pc m))) s2 = Ok s3" "mem_is hinv hmap A' [] B s3" "ring_is rinv rlist [] s3"
    "calm (s2\<lparr>pstate := SLEEPING\<rparr>) s3" "sleep_sec s3 = sint v" "sleep_nsec s3 = 0"
    using run_doze [OF D(5,9,10) a] by blast
  have v: "0 < sint v" using a by (cases "line_stmt (P ! m_pc m)") (auto split: option.splits if_splits)
  show ?thesis
  proof (rule line_finished [where ev = "[]", OF b s3(1,2) _ s3(3)])
    have "stands s3 ?r = stands s2 ?r" using stands_cong [of s3 s2] s3(4) by (simp add: calm_def)
    then show "in_mode (m_mode m') (if pstate s3 = LAST_LINE then s3\<lparr>pstate := FINISHED\<rparr> else s3) (mtext P tk m')"
      using p2 s3(4-6) m' D(12) v by (simp add: calm_def mtext_fresh)
  qed (use m' D(13) e s3(4) in \<open>simp_all add: calm_def same_def\<close>)
qed

lemma step_halt:
  assumes b: "begun V hinv hmap rinv rlist R pr P tk m m1 s s2 A L B"
    and a: "sexec (argv s2) (mem_max s2) A (line_stmt (P ! m_pc m)) = Some (Halt A')" and e: "erel (at_place P tk) A' M"
    and m': "m' = m1\<lparr>m_env := M, m_mode := Ended\<rparr>"
  shows "\<exists>s'. interpret_next_line V s = Ok s' \<and> msim hinv hmap rinv rlist R pr P tk m' s' \<and> kept s s'"
proof -
  note D = begunD [OF b]
  obtain s3 where s3: "exec_handler V (stmt_ins (line_stmt (P ! m_pc m))) s2 = Ok s3" "mem_is hinv hmap A' [] B s3" "ring_is rinv rlist [] s3"
    "calm (s2\<lparr>pstate := FINISHED\<rparr>) s3"
    using run_halt [OF D(5,9,10) a] by blast
  show ?thesis
    by (rule line_finished [where ev = "[]", OF b s3(1,2) _ s3(3)]) (use m' D(13) e s3(4) in \<open>simp_all add: calm_def same_def\<close>)
qed

text \<open>A jump: the program stands behind the label.\<close>

lemma jumped:
  assumes b: "begun V hinv hmap rinv rlist R pr P tk m m1 s s2 A L B" and "c_in s4 = 32" and "fpos s4 = lbl_offset lab" and "pstate s4 = INSTRUCTION_LINE"
    and "same s2 s4" and p: "at_place P tk l lab d" and m': "m' = m1\<lparr>m_env := M, m_pc := lbl_offset d, m_past := True\<rparr>"
  shows "in_mode (m_mode m') (if pstate s4 = LAST_LINE then s4\<lparr>pstate := FINISHED\<rparr> else s4) (mtext P tk m')"
proof -
  note D = begunD [OF b]
  have k: "lbl_offset d < length P" "place (P ! lbl_offset d) (fbuf s4) (src (drop (Suc (lbl_offset d)) P) tk) (fpos s4)"
    using assms(3,5) p D(21) by (simp_all add: at_place_def same_def)
  have "sline_ok (P ! lbl_offset d)" using D(1) k(1) by (simp add: prog_ok_def list_all_length)
  from place_stands [OF k(2) assms(2) this] show ?thesis using assms(4) D(14) m' k(1) by (simp add: mtext_def mline_def)
qed

lemma step_jump:
  assumes b: "begun V hinv hmap rinv rlist R pr P tk m m1 s s2 A L B"
    and a: "sexec (argv s2) (mem_max s2) A (line_stmt (P ! m_pc m)) = Some (Jump l A')" and e: "erel (at_place P tk) A' M"
    and m': "mjump P m1 l M = Some m'"
  shows "\<exists>s'. interpret_next_line V s = Ok s' \<and> msim hinv hmap rinv rlist R pr P tk m' s' \<and> kept s s'"
proof -
  note D = begunD [OF b]
  let ?r = "src (drop (Suc (m_pc m)) P) tk"
  have "\<not> ends_here P (m_pc m)" using ends_next [OF _ a] by auto
  then have p2: "pstate s2 = INSTRUCTION_LINE" "stands s2 ?r" using D(16) by blast+
  obtain t F s3 where s3: "exec_handler V (stmt_ins (line_stmt (P ! m_pc m))) s2 = bnd (take_branch V t s3) (drop_label t)"
    "mem_is hinv hmap A' [(t, ILab l, F)] B s3" "ring_is rinv rlist [] s3" "calm s2 s3"
    by (rule run_jump [OF D(5,9,10) line_stmt_ok [OF D(1,4)] a])
  have fin: ?thesis if "bnd (take_branch V t s3) (drop_label t) = Ok s4" "mem_is hinv hmap A'' [] B s4" "erel (at_place P tk) A'' M'" "ring_is rinv rlist [] s4"
      "same s3 s4" "pstate s4 = INSTRUCTION_LINE" "c_in s4 = 32" "fpos s4 = lbl_offset lab" "at_place P tk l lab d"
      "m' = m1\<lparr>m_env := M', m_pc := lbl_offset d, m_past := True\<rparr>" for s4 A'' M' lab d
  proof -
    have sm: "same s2 s4" using same_simps(3) [OF same_simps(1) [OF s3(4)] that(5)] .
    show ?thesis
      by (rule line_finished [where ev = "[]", OF b _ that(2) _ that(4) _ _ _ jumped [OF b that(7,8,6) sm that(9,10)]])
        (use s3(1) that(1,3,10) sm D(13) in simp_all)
  qed
  show ?thesis
  proof (cases "M l")
    case None
    then obtain j where j: "first_label l (Suc (m_pc m)) (drop (Suc (m_pc m)) P) = Some j" "\<not> ends_here P j"
      "m' = m1\<lparr>m_env := M(l \<mapsto> VLabel (at_line j)), m_pc := j, m_past := True\<rparr>"
      using m' D(12) by (auto simp: mjump_def split: option.splits if_splits)
    have J: "Suc (m_pc m) \<le> j" "j < length P" using first_label_at [OF j(1)] by auto
    then have at: "drop (Suc (m_pc m)) P ! (j - Suc (m_pc m)) = P ! j" "drop (Suc (j - Suc (m_pc m))) (drop (Suc (m_pc m)) P) = drop (Suc j) P"
      using D(4) by simp_all
    have i3: "stands s3 ?r" "itab_ok hinv hmap (itable s3)" "pstate s3 = INSTRUCTION_LINE" "fbuf s3 = file_text P tk"
      using p2 s3(4) D(21,23) stands_cong [of s3 s2] by (simp_all add: calm_def)
    have "A' l = None" using None erel_None [OF e, of l] by simp
    moreover have "\<not> last_print (line_stmt (drop (Suc (m_pc m)) P ! (j - Suc (m_pc m))))
        (src (drop (Suc (j - Suc (m_pc m))) (drop (Suc (m_pc m)) P)) tk)"
      unfolding at using ends_last [OF D(1) J(2)] j(2) by simp
    ultimately obtain s4 lab where s4: "bnd (take_branch V t s3) (drop_label t) = Ok s4" "mem_is hinv hmap (A'(l \<mapsto> VLabel lab)) [] B s4"
      "ring_is rinv rlist [] s4" "same s3 s4" "pstate s4 = INSTRUCTION_LINE" "c_in s4 = 32" "fpos s4 = lbl_offset lab"
      "place (P ! j) (fbuf s3) (src (drop (Suc j) P) tk) (lbl_offset lab)"
      using run_jump_ahead [OF s3(2,3) i3(1) prog_drop [OF D(1)] i3(2,3) _ j(1)] unfolding at by blast
    have pl: "at_place P tk l lab (at_line j)" using s4(8) J(2) i3(4) by (simp add: at_place_def at_line_def)
    show ?thesis
      by (rule fin [OF s4(1,2) erel_label [OF e, of l, OF pl] s4(3-7) pl]) (simp add: j(3) at_line_def)
  next
    case (Some v)
    then obtain d where d: "M l = Some (VLabel d)" "m' = m1\<lparr>m_env := M, m_pc := lbl_offset d, m_past := True\<rparr>"
      using m' by (auto simp: mjump_def split: var.splits)
    then obtain lab where lab: "A' l = Some (VLabel lab)" "at_place P tk l lab d" using erelD [OF e, of l] by auto
    obtain s4 where s4: "bnd (take_branch V t s3) (drop_label t) = Ok s4" "mem_is hinv hmap A' [] B s4" "translated_line s4 = translated_line s3"
      "same s3 s4" "pstate s4 = pstate s3" "c_in s4 = 32" "fpos s4 = lbl_offset lab"
      by (rule run_jump_known [OF s3(2) lab(1)])
    have p4: "pstate s4 = INSTRUCTION_LINE" "ring_is rinv rlist [] s4" using s4(3,5) s3(3,4) p2(1) by (simp_all add: calm_def ring_is_def)
    show ?thesis by (rule fin [OF s4(1,2) e p4(2) s4(4) p4(1) s4(6,7) lab(2) d(2)])
  qed
qed

lemma step_end:
  assumes ok: "prog_ok P tk" and sim: "msim hinv hmap rinv rlist R pr P tk m s" and run: "m_mode m = Running" and pc: "length P \<le> m_pc m"
  shows "\<exists>s'. interpret_next_line V s = Ok s' \<and> msim hinv hmap rinv rlist R pr P tk (m\<lparr>m_mode := Ended\<rparr>) s' \<and> kept s s'"
proof -
  have ps: "pstate s = INSTRUCTION_LINE" "stands s tk" "ring_is rinv rlist [] s" using sim run pc by (simp_all add: msim_def mtext_def)
  have "list_all blank tk" using tails_drop [of P tk "length P"] ok by (simp add: prog_ok_def)
  then obtain n where n: "interpret_next_line V s = Ok ((adv n s)\<lparr>pstate := FINISHED\<rparr>)" by (rule end_of_text [OF ps(2) _ ps(3,1)])
  let ?s = "(adv n s)\<lparr>pstate := FINISHED\<rparr>"
  obtain A B where "memory hinv hmap R P tk (m_env m) (m_lost m) A [] B s" using sim by (auto simp: msim_def)
  then have "memory hinv hmap R P tk (m_env (m\<lparr>m_mode := Ended\<rparr>)) (m_lost (m\<lparr>m_mode := Ended\<rparr>)) A [] B ?s"
    using mem_cong [of ?s s] by (simp add: memory_def text_simps)
  moreover have "ring_is rinv rlist [] ?s" using ps(3) by (simp add: ring_is_def text_simps)
  ultimately have "msim hinv hmap rinv rlist R pr P tk (m\<lparr>m_mode := Ended\<rparr>) ?s"
    by (rule msim_fields [where ev = "[]", OF _ _ _ _ _ _ _ sim]) (simp_all add: text_simps)
  then show ?thesis using n by (simp add: text_simps kept_def)
qed

lemma mstep_sim:
  assumes ok: "prog_ok P tk" and sim: "msim hinv hmap rinv rlist R pr P tk m s" and st: "mstep (argv s) (mem_max s) P m = Some m'"
  shows "\<exists>s'. interpret_next_line V s = Ok s' \<and> msim hinv hmap rinv rlist R pr P tk m' s' \<and> kept s s'"
proof (cases "m_pc m < length P")
  case False
  then have "m_mode m = Running" "m' = m\<lparr>m_mode := Ended\<rparr>" using st by (auto simp: mstep_def split: if_splits)
  then show ?thesis using step_end [OF ok sim] False by simp
next
  case True
  obtain m1 b where run: "m_mode m = Running" and ml: "mlabel P m = Some m1"
    and b: "sexec (argv s) (mem_max s) (m_env m1) (line_stmt (P ! m_pc m1)) = Some b"
    using st True by (auto simp: mstep_def split: if_splits option.splits)
  obtain s2 A L B where bg: "begun V hinv hmap rinv rlist R pr P tk m m1 s s2 A L B" using line_begun [OF ok sim run True ml] by blast
  note D = begunD [OF bg]
  have "sexec (argv s2) (mem_max s2) (m_env m1) (line_stmt (P ! m_pc m)) = Some b" using b D(12,17,18) by simp
  from sexec_rel [OF D(6) this] obtain a where a: "sexec (argv s2) (mem_max s2) A (line_stmt (P ! m_pc m)) = Some a" "arel (at_place P tk) a b" by blast
  show ?thesis
  proof (cases b)
    case (Next M ev)
    then obtain A' where A': "a = Next A' ev" "erel (at_place P tk) A' M" using a(2) by (cases a) auto
    show ?thesis by (rule step_next [OF bg _ A'(2)]) (use A'(1) a(1) st run True ml b Next in \<open>auto simp: mstep_def\<close>)
  next
    case (Jump l M)
    then obtain A' where A': "a = Jump l A'" "erel (at_place P tk) A' M" using a(2) by (cases a) auto
    show ?thesis by (rule step_jump [OF bg _ A'(2)]) (use A'(1) a(1) st run True ml b Jump in \<open>auto simp: mstep_def\<close>)
  next
    case (Doze v M)
    then obtain A' where A': "a = Doze v A'" "erel (at_place P tk) A' M" using a(2) by (cases a) auto
    show ?thesis by (rule step_doze [OF bg _ A'(2)]) (use A'(1) a(1) st run True ml b Doze in \<open>auto simp: mstep_def\<close>)
  next
    case (Halt M)
    then obtain A' where A': "a = Halt A'" "erel (at_place P tk) A' M" using a(2) by (cases a) auto
    show ?thesis by (rule step_halt [OF bg _ A'(2)]) (use A'(1) a(1) st run True ml b Halt in \<open>auto simp: mstep_def\<close>)
  qed
qed

end

end
