(* ===== verification/MachineRun.thy ===== *)
theory MachineRun imports Simulate Programs begin

section \<open>Whole programs, in one slice and in many\<close>

definition booted :: "('h \<Rightarrow> bool) \<Rightarrow> ('h \<Rightarrow> pairs) \<Rightarrow> ('r \<Rightarrow> bool) \<Rightarrow> ('r \<Rightarrow> addr list) \<Rightarrow> mem \<Rightarrow> event list \<Rightarrow> sline list \<Rightarrow> string \<Rightarrow> ('h, 'r) st \<Rightarrow> bool" where
  "booted hinv hmap rinv rlist R pr P tk s \<longleftrightarrow> pstate s = MAGIC_LINE \<and> rest s = file_text P tk \<and> fbuf s = file_text P tk \<and>
     good hinv hmap Map.empty s \<and> itab_ok hinv hmap (itable s) \<and> ring_is rinv rlist [] s \<and> argv s \<noteq> [] \<and> out s = pr \<and>
     \<not> error_flag s \<and> heap s = R"

subsection \<open>One slice\<close>

context voids_lib
begin

lemma keptD: "kept s s' \<Longrightarrow> argv s' = argv s" "kept s s' \<Longrightarrow> mem_max s' = mem_max s"
  by (simp_all add: kept_def)

lemma mrun_sim:
  assumes "prog_ok P tk" and "msim hinv hmap rinv rlist R pr P tk m s" and "m_mode m = Running" and "mrun (argv s) (mem_max s) P (Suc n) m = Some m'"
  shows "\<exists>s'. run_slice V n s = Ok s' \<and> msim hinv hmap rinv rlist R pr P tk m' s' \<and> kept s s'"
  using assms
proof (induction n arbitrary: m s)
  case 0
  then have "mstep (argv s) (mem_max s) P m = Some m'" by (simp split: option.splits)
  from mstep_sim [OF 0(1,2) this] show ?case by auto
next
  case (Suc n)
  obtain m1 where m1: "mstep (argv s) (mem_max s) P m = Some m1" "mrun (argv s) (mem_max s) P (Suc n) m1 = Some m'"
    using Suc.prems(3,4) by (auto split: option.splits)
  obtain s1 where s1: "interpret_next_line V s = Ok s1" "msim hinv hmap rinv rlist R pr P tk m1 s1" "kept s s1"
    using mstep_sim [OF Suc.prems(1,2) m1(1)] by blast
  note k = keptD [OF s1(3)]
  show ?case
  proof (cases "m_mode m1 = Running")
    case True
    moreover from this have "pstate s1 = INSTRUCTION_LINE" using s1(2) by (simp add: msim_def)
    ultimately show ?thesis using Suc.IH [OF Suc.prems(1) s1(2)] m1(2) s1(1) k kept_trans [OF s1(3)] by (auto simp del: mrun.simps)
  next
    case False
    then have "pstate s1 \<noteq> INSTRUCTION_LINE" using s1(2) by (cases "m_mode m1") (auto simp: msim_def)
    then show ?thesis using False m1(2) s1 by simp
  qed
qed

text \<open>The start.\<close>

lemma msim_boot:
  obtains s0 s1 where "exec_init V (boot V mm (program_init V (file_text P tk) pid args junk jc jp)) = Ok s0" "pstate s0 = MAGIC_LINE"
    "interpret_next_line V s0 = interpret_next_line V s1" "msim hinv hmap rinv rlist Map.empty [] P tk minit s1" "argv s1 = pid # word_of_nat (length args) # args"
    "mem_max s1 = mm"
proof -
  obtain s0 s1 where s0: "exec_init V (boot V mm (program_init V (file_text P tk) pid args junk jc jp)) = Ok s0" "pstate s0 = MAGIC_LINE"
    "interpret_next_line V s0 = interpret_next_line V s1" "ready hinv hmap rinv rlist Map.empty (CHR 0x0A # src P tk) s1"
    "argv s1 = pid # word_of_nat (length args) # args" "mem_max s1 = mm"
    "heap s1 = Map.empty" "out s1 = []" "\<not> error_flag s1" "owned (hmap (vartable s1)) = {}" "fbuf s1 = file_text P tk"
    by (rule boot_ready [of "file_text P tk" "src P tk", OF file_text_def])
  note R = s0(4) [unfolded ready_def]
  have "mem_is hinv hmap Map.empty [] Map.empty s1" using R s0(7,10) by (simp add: mem_is_def toks_rep_def)
  then have "memory hinv hmap Map.empty P tk (m_env minit) (m_lost minit) Map.empty [] Map.empty s1" by (simp add: memory_def minit_def erel_def lost_def)
  moreover have "stands s1 (mtext P tk minit)"
    using stands_pend [of s1 "CHR 0x0A # src P tk"] R by (simp add: mtext_fresh minit_def)
  ultimately have "msim hinv hmap rinv rlist Map.empty [] P tk minit s1"
    unfolding msim_def using R s0(5,8,9,11) by (auto simp: ring_is_def minit_def)
  then show thesis using that s0 by blast
qed

text \<open>A program before its first line, with the memory \<open>R\<close> of others.\<close>

lemma booted_start:
  assumes b: "booted hinv hmap rinv rlist R pr P tk s"
  shows "\<exists>s1. interpret_next_line V s = interpret_next_line V s1 \<and> msim hinv hmap rinv rlist R pr P tk minit s1 \<and> kept s s1"
proof -
  note B = b [unfolded booted_def]
  have g: "good hinv hmap Map.empty s" and rb: "rinv (translated_line s)" "rlist (translated_line s) = []"
    using B by (simp_all add: ring_is_def)
  have none: "owned (hmap (vartable s)) = {}" if "good hinv hmap Map.empty s" for s :: "('h, 'r) st"
    using vinv_None [OF goodD(3) [OF that]] by (auto simp: owned_def)
  have t: "rest s = magic_bytes @ CHR 0x0A # src P tk" using B by (simp add: file_text_def)
  obtain s1 where s1: "interpret_next_line V s = interpret_next_line V s1" "ready hinv hmap rinv rlist Map.empty (CHR 0x0A # src P tk) s1" "tidy hmap s s1"
    by (rule magic_start [OF t _ g _ rb]) (use B in auto)
  note R1 = s1(2) [unfolded ready_def]
  have g1: "good hinv hmap Map.empty s1" using R1 by simp
  have "heap s1 a = heap s a" for a using tidyD(2) [OF s1(3), of a] none [OF g] none [OF g1] by simp
  then have h: "heap s1 = R" using B by (simp add: fun_eq_iff)
  have "memory hinv hmap R P tk (m_env minit) (m_lost minit) Map.empty [] R s1"
    using g1 none [OF g1] h by (simp add: memory_def mem_is_def toks_rep_def minit_def erel_def lost_def)
  moreover have "stands s1 (mtext P tk minit)"
    using stands_pend [of s1 "CHR 0x0A # src P tk"] R1 by (simp add: mtext_fresh minit_def)
  moreover have "argv s1 = argv s" "out s1 = out s" "error_flag s1 = error_flag s" "fbuf s1 = fbuf s" "kept s s1"
    using s1(3) by (simp_all add: tidy_def kept_def)
  ultimately show ?thesis
    using s1(1) R1 B unfolding msim_def by (intro exI [of _ s1]) (auto simp: ring_is_def minit_def)
qed

text \<open>The end: what is left of the memory are the lost blocks.\<close>

lemma msim_free:
  assumes "msim hinv hmap rinv rlist R pr P tk m s"
  shows "\<exists>A s'. good hinv hmap A s \<and> erel (at_place P tk) A (m_env m) \<and> program_free V s = Ok s' \<and> lost (m_lost m) R (heap s') \<and> s' = s\<lparr>heap := heap s'\<rparr>"
proof -
  obtain A B where m: "mem_is hinv hmap A [] B s" "erel (at_place P tk) A (m_env m)" "lost (m_lost m) R B"
    using assms by (auto simp: msim_def memory_def)
  have rb: "rinv (translated_line s)" "rlist (translated_line s) = []" using assms by (simp_all add: msim_def ring_is_def)
  let ?h = "\<lambda>a. if a \<in> owned (hmap (vartable s)) then None else heap s a"
  note ms = m(1) [unfolded mem_is_def]
  have "?h a = B a" for a
  proof (cases "a \<in> dom B")
    case True
    then show ?thesis using ms by (auto simp: map_le_def)
  next
    case False
    then have "a \<in> owned (hmap (vartable s)) \<or> a \<notin> dom (heap s)" using ms by auto
    then show ?thesis using False by (auto simp: domIff)
  qed
  then have "?h = B" by (rule ext)
  then show ?thesis
    using program_free_ok [OF mem_good [OF m(1)] rb] mem_good [OF m(1)] m(2,3) by (intro exI [of _ A] exI [of _ "s\<lparr>heap := ?h\<rparr>"]) simp
qed

lemma lost_all: "lost n Map.empty h \<Longrightarrow> finite (dom h) \<and> card (dom h) = n"
  by (simp add: lost_def)

lemma machine_program:
  assumes ok: "prog_ok P tk" and run: "mrun (pid # word_of_nat (length args) # args) mm P (Suc n) minit = Some m" and e: "m_mode m = Ended"
  shows "\<exists>s s' A. bnd (exec_init V (boot V mm (program_init V (file_text P tk) pid args junk jc jp))) (run_slice V n) = Ok s \<and>
    pstate s = FINISHED \<and> \<not> error_flag s \<and> out s = m_out m \<and> good hinv hmap A s \<and> erel (at_place P tk) A (m_env m) \<and>
    program_free V s = Ok s' \<and> finite (dom (heap s')) \<and> card (dom (heap s')) = m_lost m"
proof -
  obtain s0 s1 where s0: "exec_init V (boot V mm (program_init V (file_text P tk) pid args junk jc jp)) = Ok s0" "pstate s0 = MAGIC_LINE"
    "interpret_next_line V s0 = interpret_next_line V s1" "msim hinv hmap rinv rlist Map.empty [] P tk minit s1" "argv s1 = pid # word_of_nat (length args) # args"
    "mem_max s1 = mm" by (rule msim_boot)
  have "m_mode minit = Running" by (simp add: minit_def)
  then obtain s where s: "run_slice V n s1 = Ok s" "msim hinv hmap rinv rlist Map.empty [] P tk m s"
    using mrun_sim [OF ok s0(4), of n m] run s0(5,6) by auto
  have "bnd (exec_init V (boot V mm (program_init V (file_text P tk) pid args junk jc jp))) (run_slice V n) = Ok s"
    using s0(1) run_cong [OF s0(3), of n] s(1) by simp
  then show ?thesis using msim_free [OF s(2)] lost_all s(2) e by (fastforce simp: msim_def)
qed

end

subsection \<open>Many slices\<close>

text \<open>
  The machine goes on after a sleep.  \<open>mgo n\<close> is at most \<open>n\<close> steps, where waking up is a step, and \<open>mvisits n\<close> the number of
  visits of a runtime that are enough for them: one for every line, and for a sleep one for each of its nanoseconds and one more.
\<close>

definition mwake :: "mach \<Rightarrow> mach" where
  "mwake m = m\<lparr>m_mode := Running\<rparr>"

definition mnext :: "c_int list \<Rightarrow> nat \<Rightarrow> sline list \<Rightarrow> mach \<Rightarrow> mach option" where
  "mnext av mm P m = (case m_mode m of Running \<Rightarrow> mstep av mm P m | Asleep v \<Rightarrow> Some (mwake m) | Ended \<Rightarrow> Some m)"

fun mgo :: "c_int list \<Rightarrow> nat \<Rightarrow> sline list \<Rightarrow> nat \<Rightarrow> mach \<Rightarrow> mach option" where
  "mgo av mm P 0 m = Some m"
| "mgo av mm P (Suc n) m = (case mnext av mm P m of None \<Rightarrow> None | Some m \<Rightarrow> mgo av mm P n m)"

definition mcost :: "mach \<Rightarrow> nat" where
  "mcost m = (case m_mode m of Running \<Rightarrow> 1 | Asleep v \<Rightarrow> nat (sint v * 1000000000) + 1 | Ended \<Rightarrow> 0)"

fun mvisits :: "c_int list \<Rightarrow> nat \<Rightarrow> sline list \<Rightarrow> nat \<Rightarrow> mach \<Rightarrow> nat" where
  "mvisits av mm P 0 m = 0"
| "mvisits av mm P (Suc n) m = mcost m + (case mnext av mm P m of None \<Rightarrow> 0 | Some m \<Rightarrow> mvisits av mm P n m)"

text \<open>The visits: each with its readings of the clock, its fuel and its time slice.\<close>

fun visits :: "('h, 'p, 'r) voids \<Rightarrow> ((nat \<Rightarrow> timespec \<times> timespec) \<times> nat \<times> int) list \<Rightarrow> ('h, 'r) st \<Rightarrow> ('h, 'r) st res" where
  "visits V [] s = Ok s"
| "visits V ((clk, fuel, ts) # vs) s = bnd (visit V clk fuel ts s) (visits V vs)"

text \<open>The simulation, at any time of a sleep, and what is left of the machine's visits.\<close>

definition nap :: "int \<Rightarrow> int \<Rightarrow> ('h, 'r) st \<Rightarrow> ('h, 'r) st" where
  "nap x y s = s\<lparr>sleep_sec := x, sleep_nsec := y\<rparr>"

definition vsim :: "('h \<Rightarrow> bool) \<Rightarrow> ('h \<Rightarrow> pairs) \<Rightarrow> ('r \<Rightarrow> bool) \<Rightarrow> ('r \<Rightarrow> addr list) \<Rightarrow> mem \<Rightarrow> event list \<Rightarrow> sline list \<Rightarrow> string \<Rightarrow> mach \<Rightarrow> ('h, 'r) st \<Rightarrow> bool" where
  "vsim hinv hmap rinv rlist R pr P tk m s \<longleftrightarrow> (\<exists>x y. msim hinv hmap rinv rlist R pr P tk m (nap x y s)) \<and>
     (\<forall>v. m_mode m = Asleep v \<longrightarrow> 0 \<le> sleep_sec s \<and> 0 \<le> sleep_nsec s)"

definition due :: "mach \<Rightarrow> ('h, 'r, 'z) program_s_scheme \<Rightarrow> nat" where
  "due m s = (case m_mode m of Running \<Rightarrow> 1 | Asleep v \<Rightarrow> nat (sleep_sec s * 1000000000 + sleep_nsec s) + 1 | Ended \<Rightarrow> 0)"

definition todo :: "c_int list \<Rightarrow> nat \<Rightarrow> sline list \<Rightarrow> nat \<Rightarrow> mach \<Rightarrow> ('h, 'r, 'z) program_s_scheme \<Rightarrow> nat" where
  "todo av mm P n m s = (case n of 0 \<Rightarrow> 0 | Suc n \<Rightarrow> due m s + (case mnext av mm P m of None \<Rightarrow> 0 | Some m \<Rightarrow> mvisits av mm P n m))"

lemma mgo_add: "mgo av mm P (j + k) m = (case mgo av mm P j m of None \<Rightarrow> None | Some m \<Rightarrow> mgo av mm P k m)"
  by (induction j arbitrary: m) (simp_all split: option.splits)

lemma mgo_ended: "m_mode m = Ended \<Longrightarrow> mgo av mm P n m = Some m"
  by (induction n) (simp_all add: mnext_def)

lemma nap_simps: "translated_line (nap x y s) = translated_line s" "itable (nap x y s) = itable s" "argv (nap x y s) = argv s"
  "out (nap x y s) = out s" "error_flag (nap x y s) = error_flag s" "fbuf (nap x y s) = fbuf s" "pstate (nap x y s) = pstate s"
  by (simp_all add: nap_def)

lemma nap_msim: "\<forall>v. m_mode m \<noteq> Asleep v \<Longrightarrow> msim hinv hmap rinv rlist R pr P tk m (nap x y s) = msim hinv hmap rinv rlist R pr P tk m s"
proof -
  assume a: "\<forall>v. m_mode m \<noteq> Asleep v"
  have "memory hinv hmap R P tk M n A L B (nap x y s) = memory hinv hmap R P tk M n A L B s" for M n A L B
    using mem_cong [of "nap x y s" s hinv hmap A L B] by (simp add: memory_def nap_def)
  moreover have "stands (nap x y s) T = stands s T" for T using stands_cong [of "nap x y s" s T] by (simp add: nap_def)
  ultimately show ?thesis using a by (cases "m_mode m") (simp_all add: msim_def ring_is_def nap_def)
qed

lemma vsimD:
  assumes "vsim hinv hmap rinv rlist R pr P tk m s"
  shows "m_mode m = Running \<Longrightarrow> msim hinv hmap rinv rlist R pr P tk m s" "m_mode m = Ended \<Longrightarrow> msim hinv hmap rinv rlist R pr P tk m s"
    "out s = pr @ m_out m" "\<not> error_flag s" "m_mode m = Running \<longleftrightarrow> pstate s = INSTRUCTION_LINE" "m_mode m = Ended \<longleftrightarrow> pstate s = FINISHED"
    "(\<exists>v. m_mode m = Asleep v) \<longleftrightarrow> pstate s = SLEEPING"
proof -
  obtain x y where a: "msim hinv hmap rinv rlist R pr P tk m (nap x y s)" using assms by (auto simp: vsim_def)
  show "m_mode m = Running \<Longrightarrow> msim hinv hmap rinv rlist R pr P tk m s" "m_mode m = Ended \<Longrightarrow> msim hinv hmap rinv rlist R pr P tk m s"
    using a nap_msim [of m hinv hmap rinv rlist R pr P tk x y s] by simp_all
  show "out s = pr @ m_out m" "\<not> error_flag s" using a by (simp_all add: msim_def nap_def)
  show "m_mode m = Running \<longleftrightarrow> pstate s = INSTRUCTION_LINE" "m_mode m = Ended \<longleftrightarrow> pstate s = FINISHED" "(\<exists>v. m_mode m = Asleep v) \<longleftrightarrow> pstate s = SLEEPING"
    using a by (cases "m_mode m"; simp add: msim_def nap_def)+
qed

lemma msim_vsim: "msim hinv hmap rinv rlist R pr P tk m s \<Longrightarrow> vsim hinv hmap rinv rlist R pr P tk m s"
proof -
  assume a: "msim hinv hmap rinv rlist R pr P tk m s"
  have "nap (sleep_sec s) (sleep_nsec s) s = s" by (simp add: nap_def)
  then have "\<exists>x y. msim hinv hmap rinv rlist R pr P tk m (nap x y s)" using a by metis
  moreover have "0 \<le> sleep_sec s \<and> 0 \<le> sleep_nsec s" if "m_mode m = Asleep v" for v
    using a that by (simp add: msim_def)
  ultimately show ?thesis by (simp add: vsim_def)
qed

lemma todo_cost: "msim hinv hmap rinv rlist R pr P tk m s \<Longrightarrow> todo av mm P n m s = mvisits av mm P n m"
proof -
  assume "msim hinv hmap rinv rlist R pr P tk m s"
  then have "due m s = mcost m" by (cases "m_mode m") (simp_all add: msim_def due_def mcost_def)
  then show ?thesis by (cases n) (simp_all add: todo_def)
qed

lemma todo_zero: "mgo av mm P n m = Some mE \<Longrightarrow> m_mode mE = Ended \<Longrightarrow> todo av mm P n m s = 0 \<Longrightarrow> m_mode m = Ended"
  by (cases n; cases "m_mode m") (auto simp: todo_def due_def)

context voids_lib
begin

text \<open>The loop over lines makes at least one step of the machine.\<close>

lemma slice_sim:
  assumes "prog_ok P tk" and "msim hinv hmap rinv rlist R pr P tk m s" and "m_mode m = Running"
    and "mgo (argv s) (mem_max s) P N m = Some mE" and "m_mode mE = Ended" and "N \<le> fuel"
  shows "\<exists>s' m' k. slice_loop V clk fuel i ts s = Ok s' \<and> msim hinv hmap rinv rlist R pr P tk m' s' \<and> kept s s' \<and>
    k \<le> N \<and> mgo (argv s) (mem_max s) P k m = Some m' \<and>
    mvisits (argv s) (mem_max s) P (N - k) m' < mvisits (argv s) (mem_max s) P N m"
  using assms
proof (induction N arbitrary: m s fuel i ts)
  case (Suc N)
  obtain f where f: "fuel = Suc f" "N \<le> f" using Suc.prems(6) by (cases fuel) auto
  obtain m1 where m1: "mstep (argv s) (mem_max s) P m = Some m1" "mgo (argv s) (mem_max s) P N m1 = Some mE"
    using Suc.prems(3,4) by (auto simp: mnext_def split: option.splits)
  obtain s1 where s1: "interpret_next_line V s = Ok s1" "msim hinv hmap rinv rlist R pr P tk m1 s1" "kept s s1"
    using mstep_sim [OF Suc.prems(1,2) m1(1)] by blast
  note k = keptD [OF s1(3)]
  have v: "mvisits (argv s) (mem_max s) P (Suc N) m = Suc (mvisits (argv s) (mem_max s) P N m1)"
    using Suc.prems(3) m1(1) by (simp add: mcost_def mnext_def)
  have g: "mgo (argv s) (mem_max s) P (Suc k) m = mgo (argv s) (mem_max s) P k m1" for k
    using Suc.prems(3) m1(1) by (simp add: mnext_def)
  show ?case
  proof (cases "\<exists>d. line_cost (clk i) = Some d \<and> 0 < ts - d \<and> pstate s1 = INSTRUCTION_LINE")
    case True
    then obtain d where d: "line_cost (clk i) = Some d" "0 < ts - d" "pstate s1 = INSTRUCTION_LINE" by blast
    have "m_mode m1 = Running" using vsimD(5) [OF msim_vsim [OF s1(2)]] d(3) by simp
    then obtain s2 m2 k where s2: "slice_loop V clk f (Suc i) (ts - d) s1 = Ok s2" "msim hinv hmap rinv rlist R pr P tk m2 s2" "kept s1 s2" "k \<le> N" "mgo (argv s) (mem_max s) P k m1 = Some m2"
      "mvisits (argv s) (mem_max s) P (N - k) m2 < mvisits (argv s) (mem_max s) P N m1"
      using Suc.IH [OF Suc.prems(1) s1(2) _ _ Suc.prems(5) f(2), of "Suc i" "ts - d"] m1(2) k by auto
    have "kept s s2" by (rule kept_trans [OF s1(3) s2(3)])
    moreover have "slice_loop V clk fuel i ts s = Ok s2" using f(1) s1(1) d s2(1) by simp
    ultimately show ?thesis using s2 v g [of k] by (intro exI [of _ s2] exI [of _ m2] exI [of _ "Suc k"]) simp
  next
    case False
    then have "slice_loop V clk fuel i ts s = Ok s1" using f(1) s1(1) by (auto split: option.splits)
    then show ?thesis using s1 v g [of 0] by (intro exI [of _ s1] exI [of _ m1] exI [of _ 1]) simp
  qed
qed simp

text \<open>A visit.\<close>

lemma nap_wakes:
  assumes v: "vsim hinv hmap rinv rlist R pr P tk m s" and a: "m_mode m = Asleep w" and t: "sleep_nsec s < ts" "sleep_sec s = 0"
  shows "visit_sleeping ts s = s\<lparr>pstate := INSTRUCTION_LINE\<rparr>" "msim hinv hmap rinv rlist R pr P tk (mwake m) (s\<lparr>pstate := INSTRUCTION_LINE\<rparr>)"
proof -
  obtain x y where sim: "msim hinv hmap rinv rlist R pr P tk m (nap x y s)" using v by (auto simp: vsim_def)
  let ?s = "s\<lparr>pstate := INSTRUCTION_LINE\<rparr>"
  have "memory hinv hmap R P tk M k A L B ?s = memory hinv hmap R P tk M k A L B (nap x y s)" for M k A L B
    using mem_cong [of ?s "nap x y s" hinv hmap A L B] by (simp add: memory_def nap_def)
  moreover have "stands ?s T = stands (nap x y s) T" for T using stands_cong [of ?s "nap x y s" T] by (simp add: nap_def)
  moreover have "mtext P tk (mwake m) = mtext P tk m" by (simp add: mtext_def mline_def mwake_def)
  ultimately show "msim hinv hmap rinv rlist R pr P tk (mwake m) ?s"
    using sim a by (simp add: msim_def mwake_def nap_simps ring_is_def)
  show "visit_sleeping ts s = ?s" using t by (simp add: visit_sleeping_def)
qed

lemma nap_goes_on:
  assumes v: "vsim hinv hmap rinv rlist R pr P tk m s" and a: "m_mode m = Asleep w" and ts: "ts \<le> 1000000000"
    and t: "\<not> (sleep_nsec s < ts \<and> sleep_sec s = 0)"
  shows "vsim hinv hmap rinv rlist R pr P tk m (visit_sleeping ts s)" "kept s (visit_sleeping ts s)"
    "sleep_sec (visit_sleeping ts s) * 1000000000 + sleep_nsec (visit_sleeping ts s) = sleep_sec s * 1000000000 + sleep_nsec s - ts"
    "0 \<le> sleep_sec (visit_sleeping ts s)" "0 \<le> sleep_nsec (visit_sleeping ts s)"
proof -
  obtain x y where sim: "msim hinv hmap rinv rlist R pr P tk m (nap x y s)" using v by (auto simp: vsim_def)
  let ?s = "visit_sleeping ts s"
  have s0: "0 \<le> sleep_sec s" "0 \<le> sleep_nsec s" using v a by (auto simp: vsim_def)
  have q: "?s = nap (sleep_sec ?s) (sleep_nsec ?s) s" using t by (auto simp: visit_sleeping_def nap_def Let_def)
  show n: "0 \<le> sleep_sec ?s" "0 \<le> sleep_nsec ?s" using t s0 ts by (auto simp: visit_sleeping_def Let_def)
  show "sleep_sec ?s * 1000000000 + sleep_nsec ?s = sleep_sec s * 1000000000 + sleep_nsec s - ts"
    using t by (auto simp: visit_sleeping_def Let_def)
  have "nap x y ?s = nap x y s" by (subst q) (simp add: nap_def)
  then show "vsim hinv hmap rinv rlist R pr P tk m ?s" using sim n unfolding vsim_def by metis
  show "kept s ?s" by (subst q) (simp add: nap_def kept_def)
qed

lemma visit_nap:
  assumes v: "vsim hinv hmap rinv rlist R pr P tk m s" and a: "m_mode m = Asleep w" and ts: "0 \<le> ts" "ts \<le> 1000000000"
    and go: "mgo (argv s) (mem_max s) P N m = Some mE" "m_mode mE = Ended"
  shows "\<exists>s' m' k. visit V clk fuel ts s = Ok s' \<and> vsim hinv hmap rinv rlist R pr P tk m' s' \<and> kept s s' \<and>
    k \<le> N \<and> mgo (argv s) (mem_max s) P k m = Some m' \<and>
    todo (argv s) (mem_max s) P (N - k) m' s' + (if 0 < ts then 1 else 0) \<le> todo (argv s) (mem_max s) P N m s"
proof -
  obtain n where n: "N = Suc n" using go a by (cases N) auto
  have td: "todo (argv s) (mem_max s) P N m s' = nat (sleep_sec s' * 1000000000 + sleep_nsec s') + 1 + mvisits (argv s) (mem_max s) P n (mwake m)" for s' :: "('h, 'r) st"
    using n a by (simp add: todo_def due_def mnext_def)
  have vis: "visit V clk fuel ts s = Ok (visit_sleeping ts s)" using vsimD(7) [OF v] a by (simp add: visit_def)
  show ?thesis
  proof (cases "sleep_nsec s < ts \<and> sleep_sec s = 0")
    case True
    let ?s = "s\<lparr>pstate := INSTRUCTION_LINE\<rparr>"
    note w = nap_wakes [OF v a conjunct1 [OF True] conjunct2 [OF True]]
    have "mgo (argv s) (mem_max s) P 1 m = Some (mwake m)" using a by (simp add: mnext_def)
    then show ?thesis
      using n td [of s] vis w(1) kept_def [of s ?s] todo_cost [OF w(2)] msim_vsim [OF w(2)]
      by (intro exI [of _ ?s] exI [of _ "mwake m"] exI [of _ 1]) simp
  next
    case False
    note g = nap_goes_on [OF v a ts(2) False]
    have "todo (argv s) (mem_max s) P N m (visit_sleeping ts s) + (if 0 < ts then 1 else 0) \<le> todo (argv s) (mem_max s) P N m s"
    proof -
      let ?x = "sleep_sec s * 1000000000 + sleep_nsec s"
      have "0 \<le> ?x - ts" using g(3-5) by linarith
      then have "nat (?x - ts) + (if 0 < ts then 1 else 0) \<le> nat ?x" using ts(1) by (auto simp: Suc_le_eq)
      then show ?thesis unfolding td g(3) by linarith
    qed
    then show ?thesis using vis g(1,2) by (intro exI [of _ "visit_sleeping ts s"] exI [of _ m] exI [of _ 0]) simp
  qed
qed

lemma visit_sim:
  assumes ok: "prog_ok P tk" and v: "vsim hinv hmap rinv rlist R pr P tk m s" and ts: "0 \<le> ts" "ts \<le> 1000000000"
    and go: "mgo (argv s) (mem_max s) P N m = Some mE" "m_mode mE = Ended" "N \<le> fuel" and r: "m_mode m \<noteq> Ended"
  shows "\<exists>s' m' k. visit V clk fuel ts s = Ok s' \<and> vsim hinv hmap rinv rlist R pr P tk m' s' \<and> kept s s' \<and>
    k \<le> N \<and> mgo (argv s) (mem_max s) P k m = Some m' \<and>
    todo (argv s) (mem_max s) P (N - k) m' s' + (if 0 < ts then 1 else 0) \<le> todo (argv s) (mem_max s) P N m s"
proof (cases "m_mode m")
  case Running
  have sim: "msim hinv hmap rinv rlist R pr P tk m s" by (rule vsimD(1) [OF v Running])
  have "visit V clk fuel ts s = slice_loop V clk fuel 0 ts s" using vsimD(5) [OF v] Running by (simp add: visit_def)
  then obtain s' m' k where s': "visit V clk fuel ts s = Ok s'" "msim hinv hmap rinv rlist R pr P tk m' s'" "kept s s'" "k \<le> N"
      "mgo (argv s) (mem_max s) P k m = Some m'" "mvisits (argv s) (mem_max s) P (N - k) m' < mvisits (argv s) (mem_max s) P N m"
    using slice_sim [OF ok sim Running go, of clk 0 ts] by auto
  have "todo (argv s) (mem_max s) P (N - k) m' s' + (if 0 < ts then 1 else 0) \<le> todo (argv s) (mem_max s) P N m s"
    using s'(6) todo_cost [OF sim, of "argv s" "mem_max s" N] todo_cost [OF s'(2), of "argv s" "mem_max s" "N - k"] by simp
  then show ?thesis using s' msim_vsim [OF s'(2)] by blast
next
  case (Asleep w)
  show ?thesis by (rule visit_nap [OF v Asleep ts go(1,2)])
qed (use r in simp)

lemma visits_sim:
  assumes ok: "prog_ok P tk" and "vsim hinv hmap rinv rlist R pr P tk m s" and "mgo (argv s) (mem_max s) P N m = Some mE" and "m_mode mE = Ended"
    and "list_all (\<lambda>(clk, fuel, ts). N \<le> fuel \<and> 0 \<le> ts \<and> ts \<le> 1000000000) vs"
  shows "\<exists>s' m' k. visits V vs s = Ok s' \<and> vsim hinv hmap rinv rlist R pr P tk m' s' \<and> k \<le> N \<and> mgo (argv s) (mem_max s) P k m = Some m' \<and>
    (todo (argv s) (mem_max s) P N m s \<le> length (filter (\<lambda>(clk, fuel, ts). 0 < ts) vs) \<longrightarrow> m' = mE)"
  using assms(2-5)
proof (induction vs arbitrary: m s N)
  case Nil
  have "m = mE" if "todo (argv s) (mem_max s) P N m s = 0"
    using todo_zero [OF Nil(2,3) that] Nil(2) mgo_ended [of m] by simp
  then show ?case using Nil by (intro exI [of _ s] exI [of _ m] exI [of _ 0]) simp
next
  case (Cons a vs)
  obtain clk fuel ts where a: "a = (clk, fuel, ts)" by (cases a)
  have F: "N \<le> fuel" "0 \<le> ts" "ts \<le> 1000000000" using Cons.prems(4) a by simp_all
  show ?case
  proof (cases "m_mode m = Ended")
    case True
    have "visit V clk fuel ts s = Ok s" using vsimD(6) [OF Cons.prems(1)] True by (simp add: visit_def)
    then have e: "visits V (a # vs) s = visits V vs s" using a by simp
    have "m = mE" using True Cons.prems(2) mgo_ended [of m] by simp
    have z: "todo (argv s) (mem_max s) P 0 m s = 0" "mgo (argv s) (mem_max s) P 0 m = Some mE" using \<open>m = mE\<close> by (simp_all add: todo_def)
    have "list_all (\<lambda>(clk, fuel, ts). 0 \<le> fuel \<and> 0 \<le> ts \<and> ts \<le> 1000000000) vs" using Cons.prems(4) by (auto simp: list_all_iff)
    from Cons.IH [OF Cons.prems(1) z(2) Cons.prems(3) this] z(1) show ?thesis unfolding e using \<open>m = mE\<close> mgo_ended [OF True] by auto
  next
    case False
    obtain s1 m1 k where s1: "visit V clk fuel ts s = Ok s1" "vsim hinv hmap rinv rlist R pr P tk m1 s1" "kept s s1"
      "k \<le> N" "mgo (argv s) (mem_max s) P k m = Some m1" "todo (argv s) (mem_max s) P (N - k) m1 s1 + (if 0 < ts then 1 else 0) \<le> todo (argv s) (mem_max s) P N m s"
      using visit_sim [OF ok Cons.prems(1) F(2,3) Cons.prems(2,3) F(1) False] by blast
    have g: "mgo (argv s1) (mem_max s1) P (N - k) m1 = Some mE"
      using Cons.prems(2) mgo_add [of "argv s" "mem_max s" P k "N - k" m] keptD [OF s1(3)] s1(4,5) by simp
    have "list_all (\<lambda>(clk, fuel, ts). N - k \<le> fuel \<and> 0 \<le> ts \<and> ts \<le> 1000000000) vs" using Cons.prems(4) by (auto simp: list_all_iff)
    from Cons.IH [OF s1(2) g Cons.prems(3) this] obtain s2 m2 j where s2: "visits V vs s1 = Ok s2" "vsim hinv hmap rinv rlist R pr P tk m2 s2" "j \<le> N - k"
      "mgo (argv s) (mem_max s) P j m1 = Some m2" "todo (argv s) (mem_max s) P (N - k) m1 s1 \<le> length (filter (\<lambda>(clk, fuel, ts). 0 < ts) vs) \<longrightarrow> m2 = mE"
      using keptD [OF s1(3)] by auto
    have "mgo (argv s) (mem_max s) P (k + j) m = Some m2" using mgo_add [of "argv s" "mem_max s" P k j m] s1(5) s2(4) by simp
    then show ?thesis using a s1(1,4,6) s2 by (intro exI [of _ s2] exI [of _ m2] exI [of _ "k + j"]) (auto split: if_splits)
  qed
qed

lemma machine_visits:
  assumes ok: "prog_ok P tk" and go: "mgo (pid # word_of_nat (length args) # args) mm P N minit = Some m" "m_mode m = Ended"
    and vs: "list_all (\<lambda>(clk, fuel, ts). N \<le> fuel \<and> 0 \<le> ts \<and> ts \<le> 1000000000) vs"
    and enough: "mvisits (pid # word_of_nat (length args) # args) mm P N minit \<le> length (filter (\<lambda>(clk, fuel, ts). 0 < ts) vs)"
  shows "\<exists>s s' A. bnd (exec_init V (boot V mm (program_init V (file_text P tk) pid args junk jc jp))) (visits V vs) = Ok s \<and>
    pstate s = FINISHED \<and> \<not> error_flag s \<and> out s = m_out m \<and> good hinv hmap A s \<and> erel (at_place P tk) A (m_env m) \<and>
    program_free V s = Ok s' \<and> finite (dom (heap s')) \<and> card (dom (heap s')) = m_lost m"
proof -
  let ?av = "pid # word_of_nat (length args) # args"
  obtain s0 s1 where s0: "exec_init V (boot V mm (program_init V (file_text P tk) pid args junk jc jp)) = Ok s0" "pstate s0 = MAGIC_LINE"
    "interpret_next_line V s0 = interpret_next_line V s1" "msim hinv hmap rinv rlist Map.empty [] P tk minit s1" "argv s1 = ?av"
    "mem_max s1 = mm" by (rule msim_boot)
  have r: "m_mode minit = Running" by (simp add: minit_def)
  then have N: "N \<noteq> 0" using go by (cases N) auto
  then have "1 \<le> mvisits ?av mm P N minit" using r by (cases N) (simp_all add: mcost_def)
  then obtain clk fuel ts ws where v: "vs = (clk, fuel, ts) # ws" using enough by (cases vs) auto
  then obtain f where f: "fuel = Suc f" using vs N by (cases fuel) auto
  have "slice_loop V clk fuel 0 ts s0 = slice_loop V clk fuel 0 ts s1" using f s0(3) by simp
  then have "visit V clk fuel ts s0 = visit V clk fuel ts s1"
    using s0(2) vsimD(5) [OF msim_vsim [OF s0(4)]] r by (simp add: visit_def)
  then have e: "visits V vs s0 = visits V vs s1" using v by simp
  have go1: "mgo (argv s1) (mem_max s1) P N minit = Some m" using go(1) s0(5,6) by simp
  from visits_sim [OF ok msim_vsim [OF s0(4)] go1 go(2) vs] obtain s where s: "visits V vs s1 = Ok s" "vsim hinv hmap rinv rlist Map.empty [] P tk m s"
    using todo_cost [OF s0(4), of ?av mm N] enough s0(5,6) by auto
  show ?thesis
    using s0(1) e s(1) vsimD(2-4,6) [OF s(2)] msim_free [OF vsimD(2) [OF s(2) go(2)]] lost_all go(2) by fastforce
qed

end

end
