(* ===== verification/WorldSim.thy ===== *)
theory WorldSim imports MachineRun RtProps begin

section \<open>All programs of the process\<close>

text \<open>
  Every program in the process has a machine of its own.  The programs share the heap, the output and two tables, and the runtimes run
  them in any order, with any time slices.  \<open>wsim\<close> relates the process to the machines; a step of a runtime moves at most the machine of
  one program, and the memory of the others is not touched.
\<close>

subsection \<open>The machine does not depend on what it has written and lost\<close>

definition shift :: "event list \<Rightarrow> nat \<Rightarrow> mach \<Rightarrow> mach" where
  "shift es l m = m\<lparr>m_out := es @ m_out m, m_lost := l + m_lost m\<rparr>"

definition clear :: "mach \<Rightarrow> mach" where
  "clear m = m\<lparr>m_out := [], m_lost := 0\<rparr>"

lemma shift_simps [simp]: "m_pc (shift es l m) = m_pc m" "m_past (shift es l m) = m_past m" "m_env (shift es l m) = m_env m"
  "m_mode (shift es l m) = m_mode m" "m_out (shift es l m) = es @ m_out m" "m_lost (shift es l m) = l + m_lost m"
  by (simp_all add: shift_def)

lemma shift_clear: "shift (m_out m) (m_lost m) (clear m) = m"
  by (simp add: shift_def clear_def)

lemma shift_upd [simp]: "(shift es l m)\<lparr>m_env := e\<rparr> = shift es l (m\<lparr>m_env := e\<rparr>)" "(shift es l m)\<lparr>m_pc := k\<rparr> = shift es l (m\<lparr>m_pc := k\<rparr>)"
  "(shift es l m)\<lparr>m_past := b\<rparr> = shift es l (m\<lparr>m_past := b\<rparr>)" "(shift es l m)\<lparr>m_mode := md\<rparr> = shift es l (m\<lparr>m_mode := md\<rparr>)"
  "(shift es l m)\<lparr>m_out := es @ fs\<rparr> = shift es l (m\<lparr>m_out := fs\<rparr>)" "(shift es l m)\<lparr>m_lost := l + n\<rparr> = shift es l (m\<lparr>m_lost := n\<rparr>)"
  by (simp_all add: shift_def)

lemma mlabel_shift: "mlabel P (shift es l m) = map_option (shift es l) (mlabel P m)"
  using shift_upd(6) [where l = l and m = m and n = "m_lost m + 2" and es = es] by (simp add: mlabel_def split: option.splits var.splits)

lemma mjump_shift: "mjump P (shift es l m) x A = map_option (shift es l) (mjump P m x A)"
  by (simp add: mjump_def split: option.splits var.splits)

lemma mstep_shift: "mstep av mm P (shift es l m) = map_option (shift es l) (mstep av mm P m)"
proof (cases "mlabel P m")
  case (Some m1)
  show ?thesis
    by (cases "sexec av mm (m_env m1) (line_stmt (P ! m_pc m1))"; cases "the (sexec av mm (m_env m1) (line_stmt (P ! m_pc m1)))")
      (simp_all add: mstep_def mlabel_shift mjump_shift Some)
qed (simp add: mstep_def mlabel_shift)

lemma mnext_shift: "mnext av mm P (shift es l m) = map_option (shift es l) (mnext av mm P m)"
  by (cases "m_mode m") (simp_all add: mnext_def mstep_shift mwake_def)

lemma mgo_shift: "mgo av mm P n (shift es l m) = map_option (shift es l) (mgo av mm P n m)"
  by (induction n arbitrary: m) (auto simp: mnext_shift split: option.splits)

text \<open>What the machine does from a state in which nothing was written or lost.\<close>

lemma mgo_clear:
  assumes "mgo av mm P n (clear m) = Some m'"
  shows "mgo av mm P n m = Some (shift (m_out m) (m_lost m) m')"
  using assms mgo_shift [of av mm P n "m_out m" "m_lost m" "clear m"] by (simp add: shift_clear)

lemma mgo_clear_None: "mgo av mm P n m \<noteq> None \<Longrightarrow> mgo av mm P n (clear m) \<noteq> None"
  using mgo_shift [of av mm P n "m_out m" "m_lost m" "clear m"] by (auto simp: shift_clear)

lemma clear_shift: "clear (shift es l m) = clear m"
  by (simp add: clear_def shift_def)

text \<open>The machine of one slice is that of many.\<close>

lemma mrun_mgo:
  assumes "\<forall>n. mgo av mm P n m \<noteq> None"
  shows "\<exists>j m'. mrun av mm P n m = Some m' \<and> mgo av mm P j m = Some m' \<and> (n = 0 \<or> m_mode m \<noteq> Running \<or> 0 < j)"
  using assms
proof (induction n arbitrary: m)
  case 0
  show ?case by (intro exI [of _ 0] exI [of _ m]) simp
next
  case (Suc n)
  show ?case
  proof (cases "m_mode m = Running")
    case False
    then show ?thesis by (intro exI [of _ 0] exI [of _ m]) simp
  next
    case True
    have "mgo av mm P 1 m \<noteq> None" using Suc.prems by blast
    then obtain m1 where m1: "mstep av mm P m = Some m1" using True by (auto simp: mnext_def split: option.splits)
    then have g: "mgo av mm P (Suc k) m = mgo av mm P k m1" for k using True by (simp add: mnext_def)
    have "\<forall>n. mgo av mm P n m1 \<noteq> None" using Suc.prems g by metis
    from Suc.IH [OF this] obtain j m' where "mrun av mm P n m1 = Some m'" "mgo av mm P j m1 = Some m'" by blast
    then show ?thesis using True m1 g [of j] by (intro exI [of _ "Suc j"] exI [of _ m']) simp
  qed
qed

text \<open>How many visits are left.\<close>

lemma mvisits_add: "mgo av mm P j m = Some m' \<Longrightarrow> mvisits av mm P (j + r) m = mvisits av mm P j m + mvisits av mm P r m'"
  by (induction j arbitrary: m) (auto split: option.splits)

lemma mvisits_shift: "mvisits av mm P n (shift es l m) = mvisits av mm P n m"
proof (induction n arbitrary: m)
  case (Suc n)
  have "mcost (shift es l m) = mcost m" by (simp add: mcost_def shift_def)
  then show ?case using Suc by (cases "mnext av mm P m") (simp_all add: mnext_shift)
qed simp

text \<open>\<open>enough d\<close>: the machine ends, and \<open>d\<close> visits are enough for what is left of it.\<close>

definition enough :: "c_int list \<Rightarrow> nat \<Rightarrow> sline list \<Rightarrow> mach \<Rightarrow> ('h, 'r, 'z) program_s_scheme \<Rightarrow> nat \<Rightarrow> bool" where
  "enough av mm P m s d \<longleftrightarrow> (\<exists>N mE. mgo av mm P N m = Some mE \<and> m_mode mE = Ended \<and> todo av mm P N m s \<le> d)"

lemma enough_pos: "enough av mm P m s d \<Longrightarrow> m_mode m = Ended \<or> 0 < d"
  using todo_zero unfolding enough_def by (metis gr0I le_zero_eq)

lemma enough_steps:
  assumes e: "enough av mm P m s d" and r: "m_mode m = Running" and j: "mgo av mm P j m = Some m'" "0 < j" and s': "due m' s' = mcost m'"
  shows "enough av mm P m' s' (d - 1)"
proof -
  obtain N mE where N: "mgo av mm P N m = Some mE" "m_mode mE = Ended" "todo av mm P N m s \<le> d" using e by (auto simp: enough_def)
  have t': "todo av mm P n m' s' = mvisits av mm P n m'" for n using s' by (cases n) (simp_all add: todo_def)
  have t: "todo av mm P n m s = mvisits av mm P n m" for n using r by (cases n) (simp_all add: todo_def due_def mcost_def)
  have one: "1 \<le> mvisits av mm P n m" if "0 < n" for n using that r by (cases n) (simp_all add: mcost_def)
  show ?thesis
  proof (cases "j \<le> N")
    case True
    then obtain n where n: "N = j + n" using le_iff_add by blast
    have "mgo av mm P n m' = Some mE" using mgo_add [of av mm P j n m] N(1) j(1) n by simp
    moreover have "mvisits av mm P n m' < d" using mvisits_add [OF j(1), of n] one [OF j(2)] N(3) t n by simp
    ultimately show ?thesis using N(2) t' unfolding enough_def by (intro exI [of _ n] exI [of _ mE]) simp
  next
    case False
    then have "m' = mE" using mgo_add [of av mm P N "j - N" m] N(1) j(1) mgo_ended [OF N(2)] by simp
    then have "mgo av mm P 0 m' = Some mE" "todo av mm P 0 m' s' = 0" by (simp_all add: todo_def)
    then show ?thesis using N(2) unfolding enough_def by (intro exI [of _ 0] exI [of _ mE]) simp
  qed
qed

lemma enough_ended: "m_mode m = Ended \<Longrightarrow> enough av mm P m s d"
  unfolding enough_def by (intro exI [of _ 0] exI [of _ m]) (simp add: todo_def)

lemma enough_mono: "enough av mm P m s d \<Longrightarrow> d \<le> e \<Longrightarrow> enough av mm P m s e"
  unfolding enough_def by (meson le_trans)

lemma enough_cong: "sleep_sec s' = sleep_sec s \<Longrightarrow> sleep_nsec s' = sleep_nsec s \<Longrightarrow> enough av mm P m s' d = enough av mm P m s d"
proof -
  assume "sleep_sec s' = sleep_sec s" "sleep_nsec s' = sleep_nsec s"
  then have "due m s' = due m s" by (cases "m_mode m") (simp_all add: due_def)
  then have "todo av mm P N m s' = todo av mm P N m s" for N by (cases N) (simp_all add: todo_def)
  then show ?thesis by (simp add: enough_def)
qed

lemma enough_asleep:
  fixes s s' :: "('h, 'r, 'z) program_s_scheme"
  assumes e: "enough av mm P m s d" and a: "m_mode m = Asleep v"
  shows "due (mwake m) s1 = 1 \<Longrightarrow> enough av mm P (mwake m) s1 (d - 1)"
    "due m s' < due m s \<Longrightarrow> enough av mm P m s' (d - 1)" "due m s' \<le> due m s \<Longrightarrow> enough av mm P m s' d"
proof -
  obtain N mE where N: "mgo av mm P N m = Some mE" "m_mode mE = Ended" "todo av mm P N m s \<le> d" using e by (auto simp: enough_def)
  then obtain n where n: "N = Suc n" using a by (cases N) auto
  have g: "mgo av mm P n (mwake m) = Some mE" using N(1) a n by (simp add: mnext_def)
  have t: "todo av mm P N m s = due m s + mvisits av mm P n (mwake m)" for s :: "('h, 'r, 'z) program_s_scheme" using a n by (simp add: todo_def mnext_def)
  have "0 < due m s" using a by (simp add: due_def)
  then have le: "mvisits av mm P n (mwake m) \<le> d - 1" using t [of s] N(3) by simp
  show "due (mwake m) s1 = 1 \<Longrightarrow> enough av mm P (mwake m) s1 (d - 1)"
  proof -
    assume "due (mwake m) s1 = 1"
    then have "todo av mm P n (mwake m) s1 = mvisits av mm P n (mwake m)" by (cases n) (simp_all add: todo_def mcost_def mwake_def)
    then show ?thesis using g N(2) le unfolding enough_def by (intro exI [of _ n] exI [of _ mE]) simp
  qed
  show "due m s' < due m s \<Longrightarrow> enough av mm P m s' (d - 1)" "due m s' \<le> due m s \<Longrightarrow> enough av mm P m s' d"
    using N(1,2,3) t [of s] t [of s'] unfolding enough_def by (intro exI [of _ N] exI [of _ mE]; simp)+
qed

lemma enough_shift: "enough av mm P (shift es l m) s d = enough av mm P m s d"
proof -
  have "due (shift es l m) s = due m s" by (simp add: due_def shift_def)
  then have t: "todo av mm P N (shift es l m) s = todo av mm P N m s" for N
    by (cases N; cases "mnext av mm P m") (simp_all add: todo_def mnext_shift mvisits_shift)
  have mo: "m_mode (shift es l m') = m_mode m'" for m' by (simp add: shift_def)
  have "(\<exists>mE. mgo av mm P N (shift es l m) = Some mE \<and> m_mode mE = Ended) \<longleftrightarrow> (\<exists>mE. mgo av mm P N m = Some mE \<and> m_mode mE = Ended)" for N
    using mo by (cases "mgo av mm P N m") (simp_all add: mgo_shift)
  then show ?thesis unfolding enough_def t by blast
qed

lemma msim_due: "msim hinv hmap rinv rlist R pr P tk m s \<Longrightarrow> due m s = mcost m"
  by (cases "m_mode m") (simp_all add: msim_def due_def mcost_def)

subsection \<open>The simulation of one program among others\<close>

definition rest_of :: "('h \<Rightarrow> pairs) \<Rightarrow> ('h, 'r) st \<Rightarrow> mem" where
  "rest_of hmap s = heap s |` (- owned (hmap (vartable s)))"

definition psim :: "('h \<Rightarrow> bool) \<Rightarrow> ('h \<Rightarrow> pairs) \<Rightarrow> ('r \<Rightarrow> bool) \<Rightarrow> ('r \<Rightarrow> addr list) \<Rightarrow> mem \<Rightarrow> event list \<Rightarrow> sline list \<Rightarrow> string \<Rightarrow> mach \<Rightarrow> ('h, 'r) st \<Rightarrow> bool" where
  "psim hinv hmap rinv rlist R pr P tk m s \<longleftrightarrow> booted hinv hmap rinv rlist R pr P tk s \<and> m = minit \<or> vsim hinv hmap rinv rlist R pr P tk m s"

text \<open>The fields that the programs share are changed.\<close>

definition swap :: "mem \<Rightarrow> addr \<Rightarrow> 'h \<Rightarrow> event list \<Rightarrow> ('h, 'r) st \<Rightarrow> ('h, 'r) st" where
  "swap h f g es s = s\<lparr>heap := h, fresh := f, gtab := g, out := es\<rparr>"

lemma swap_simps [simp]: "heap (swap h f g es s) = h" "fresh (swap h f g es s) = f" "gtab (swap h f g es s) = g" "out (swap h f g es s) = es"
  "vartable (swap h f g es s) = vartable s" "translated_line (swap h f g es s) = translated_line s" "itable (swap h f g es s) = itable s"
  "argv (swap h f g es s) = argv s" "error_flag (swap h f g es s) = error_flag s" "fbuf (swap h f g es s) = fbuf s" "pstate (swap h f g es s) = pstate s"
  "sleep_sec (swap h f g es s) = sleep_sec s" "sleep_nsec (swap h f g es s) = sleep_nsec s" "nap x y (swap h f g es s) = swap h f g es (nap x y s)"
  "rest (swap h f g es s) = rest s" "stands (swap h f g es s) T = stands s T" "ring_is rinv rlist L (swap h f g es s) = ring_is rinv rlist L s"
  "mem_max (swap h f g es s) = mem_max s"
  by (simp_all add: swap_def nap_def rest_def ring_is_def stands_cong [of "s\<lparr>heap := h, fresh := f, gtab := g, out := es\<rparr>" s])

lemma good_swap:
  assumes g: "good hinv hmap A s" and h: "\<forall>a \<in> owned (hmap (vartable s)). h a = heap s a" "heap_ok (swap h f g' es s)"
  shows "good hinv hmap A (swap h f g' es s)" "mem_is hinv hmap A [] (rest_of hmap (swap h f g' es s)) (swap h f g' es s)"
proof -
  have "vinv h (hmap (vartable s)) A" by (rule vinv_cong [OF goodD(3) [OF g]]) (use h(1) in simp)
  then show g2: "good hinv hmap A (swap h f g' es s)" using g h(2) by (simp add: good_def)
  have "owned (hmap (vartable s)) \<subseteq> dom h" using owned_live(3) [OF g2] by auto
  then have "dom h = owned (hmap (vartable s)) \<union> dom (h |` (- owned (hmap (vartable s))))" by auto
  moreover have "h |` (- owned (hmap (vartable s))) \<subseteq>\<^sub>m h" by (auto simp: map_le_def)
  ultimately show "mem_is hinv hmap A [] (rest_of hmap (swap h f g' es s)) (swap h f g' es s)"
    using g2 by (auto simp: mem_is_def rest_of_def toks_rep_def)
qed

lemma clear_simps [simp]: "m_pc (clear m) = m_pc m" "m_past (clear m) = m_past m" "m_env (clear m) = m_env m" "m_mode (clear m) = m_mode m"
  "m_out (clear m) = []" "m_lost (clear m) = 0" "mtext P tk (clear m) = mtext P tk m"
  by (simp_all add: clear_def mtext_def mline_def)

lemma lost_self: "lost 0 R R"
  by (simp add: lost_def)

lemma owned_nap [simp]: "vartable (nap x y s) = vartable s" "rest_of hmap (nap x y s) = rest_of hmap s" "heap (nap x y s) = heap s"
  "heap_ok (nap x y s) = heap_ok s"
  by (simp_all add: nap_def rest_of_def heap_ok_def)

lemma msim_swap:
  assumes "msim hinv hmap rinv rlist R pr P tk m s" and h: "\<forall>a \<in> owned (hmap (vartable s)). h a = heap s a" "heap_ok (swap h f g' es s)"
  shows "msim hinv hmap rinv rlist (rest_of hmap (swap h f g' es s)) es P tk (clear m) (swap h f g' es s)"
proof -
  obtain A B where A: "mem_is hinv hmap A [] B s" "erel (at_place P tk) A (m_env m)" using assms(1) by (auto simp: msim_def memory_def)
  then have "memory hinv hmap (rest_of hmap (swap h f g' es s)) P tk (m_env (clear m)) (m_lost (clear m)) A [] (rest_of hmap (swap h f g' es s)) (swap h f g' es s)"
    using good_swap(2) [OF mem_good [OF A(1)] h] lost_self A(2) by (simp add: memory_def)
  moreover have "in_mode (m_mode m) (swap h f g' es s) T = in_mode (m_mode m) s T" for T by (cases "m_mode m") simp_all
  ultimately show ?thesis using assms(1) unfolding msim_def by auto
qed

lemma psim_swap:
  assumes p: "psim hinv hmap rinv rlist R pr P tk m s" and h: "\<forall>a \<in> owned (hmap (vartable s)). h a = heap s a" "heap_ok (swap h f g' es s)"
  shows "psim hinv hmap rinv rlist (rest_of hmap (swap h f g' es s)) es P tk (clear m) (swap h f g' es s)"
  using p [unfolded psim_def]
proof (elim disjE conjE)
  assume b: "booted hinv hmap rinv rlist R pr P tk s" "m = minit"
  have g: "good hinv hmap Map.empty s" using b(1) by (simp add: booted_def)
  have own: "owned (hmap (vartable s)) = {}" using vinv_None [OF goodD(3) [OF g]] by (auto simp: owned_def)
  have "booted hinv hmap rinv rlist (rest_of hmap (swap h f g' es s)) es P tk (swap h f g' es s)"
    using b(1) good_swap(1) [OF g h] own by (simp add: booted_def rest_of_def restrict_map_def)
  then show ?thesis using b(2) by (simp add: psim_def clear_def minit_def)
next
  assume v: "vsim hinv hmap rinv rlist R pr P tk m s"
  then obtain x y where s: "msim hinv hmap rinv rlist R pr P tk m (nap x y s)" by (auto simp: vsim_def)
  have "heap_ok (swap h f g' es (nap x y s))" using h(2) by (simp add: heap_ok_def)
  from msim_swap [OF s _ this] h(1)
  have "msim hinv hmap rinv rlist (rest_of hmap (swap h f g' es (nap x y s))) es P tk (clear m) (swap h f g' es (nap x y s))" by simp
  moreover have "rest_of hmap (swap h f g' es (nap x y s)) = rest_of hmap (swap h f g' es s)" by (simp add: rest_of_def)
  ultimately have "vsim hinv hmap rinv rlist (rest_of hmap (swap h f g' es s)) es P tk (clear m) (swap h f g' es s)"
    using v by (auto simp: vsim_def)
  then show ?thesis by (simp add: psim_def)
qed

lemma psimD:
  assumes "psim hinv hmap rinv rlist R pr P tk m s"
  shows "R \<subseteq>\<^sub>m heap s" "owned (hmap (vartable s)) \<inter> dom R = {}" "heap_ok s" "argv s \<noteq> []" "\<not> error_flag s" "itab_ok hinv hmap (itable s)"
    "out s = pr @ m_out m" "pstate s = FINISHED \<longleftrightarrow> m_mode m = Ended" "owned (hmap (vartable s)) \<subseteq> dom (heap s)"
proof -
  have a: "owned (hmap (vartable s)) \<subseteq> dom (heap s) \<and> R \<subseteq>\<^sub>m heap s \<and> owned (hmap (vartable s)) \<inter> dom R = {} \<and> heap_ok s \<and> argv s \<noteq> [] \<and> itab_ok hinv hmap (itable s)"
    using assms [unfolded psim_def]
  proof (elim disjE conjE)
    assume b: "booted hinv hmap rinv rlist R pr P tk s"
    have g: "good hinv hmap Map.empty s" using b by (simp add: booted_def)
    have "owned (hmap (vartable s)) = {}" using vinv_None [OF goodD(3) [OF g]] by (auto simp: owned_def)
    then show ?thesis using b goodD(1) [OF g] by (simp add: booted_def)
  next
    assume "vsim hinv hmap rinv rlist R pr P tk m s"
    then obtain x y where s: "msim hinv hmap rinv rlist R pr P tk m (nap x y s)" by (auto simp: vsim_def)
    obtain A B where m: "mem_is hinv hmap A [] B (nap x y s)" "lost (m_lost m) R B" using s by (auto simp: msim_def memory_def)
    have "R \<subseteq>\<^sub>m heap s" using m by (auto simp: mem_is_def lost_def intro: map_le_trans)
    moreover have "owned (hmap (vartable s)) \<inter> dom R = {}" using m map_le_implies_dom_le [of R B] by (auto simp: mem_is_def lost_def)
    moreover have "heap_ok s" using goodD(1) [OF mem_good [OF m(1)]] by simp
    moreover have "owned (hmap (vartable s)) \<subseteq> dom (heap s)" using m(1) by (auto simp: mem_is_def)
    ultimately show ?thesis using s by (simp add: msim_def nap_simps)
  qed
  then show "R \<subseteq>\<^sub>m heap s" "owned (hmap (vartable s)) \<inter> dom R = {}" "heap_ok s" "argv s \<noteq> []" "itab_ok hinv hmap (itable s)"
    "owned (hmap (vartable s)) \<subseteq> dom (heap s)" by simp_all
  show "\<not> error_flag s" "out s = pr @ m_out m" "pstate s = FINISHED \<longleftrightarrow> m_mode m = Ended"
    using assms [unfolded psim_def] vsimD(3,4,6) [of hinv hmap rinv rlist R pr P tk m s] by (auto simp: booted_def minit_def)
qed

text \<open>What every program has between two visits, also one that was killed: a memory in order and no tokens left.\<close>

definition idle :: "('h \<Rightarrow> bool) \<Rightarrow> ('h \<Rightarrow> pairs) \<Rightarrow> ('r \<Rightarrow> bool) \<Rightarrow> ('r \<Rightarrow> addr list) \<Rightarrow> ('h, 'r) st \<Rightarrow> bool" where
  "idle hinv hmap rinv rlist s \<longleftrightarrow> (\<exists>A. good hinv hmap A s) \<and> ring_is rinv rlist [] s \<and> argv s \<noteq> [] \<and> pstate s \<noteq> BLOCKED"

lemma psim_idle:
  assumes "psim hinv hmap rinv rlist R pr P tk m s"
  shows "idle hinv hmap rinv rlist s"
  using assms [unfolded psim_def]
proof (elim disjE conjE)
  assume "booted hinv hmap rinv rlist R pr P tk s"
  then show ?thesis by (auto simp: booted_def idle_def)
next
  assume v: "vsim hinv hmap rinv rlist R pr P tk m s"
  then obtain x y where s: "msim hinv hmap rinv rlist R pr P tk m (nap x y s)" by (auto simp: vsim_def)
  then obtain A B where "mem_is hinv hmap A [] B (nap x y s)" by (auto simp: msim_def memory_def)
  then have "good hinv hmap A (nap x y s)" by (rule mem_good)
  then have "good hinv hmap A s" by (simp add: good_def)
  moreover have "ring_is rinv rlist [] s" "argv s \<noteq> []" using s by (simp_all add: msim_def ring_is_def nap_simps)
  moreover have "pstate s \<noteq> BLOCKED" using vsimD(5-7) [OF v] by (cases "m_mode m") auto
  ultimately show ?thesis unfolding idle_def by blast
qed

lemma idle_owned: "idle hinv hmap rinv rlist s \<Longrightarrow> owned (hmap (vartable s)) \<subseteq> dom (heap s)"
proof -
  assume "idle hinv hmap rinv rlist s"
  then obtain A where "good hinv hmap A s" by (auto simp: idle_def)
  from owned_live(3) [OF this] show ?thesis by auto
qed

subsection \<open>A visit\<close>

text \<open>Every line costs something, and the fuel is more than the longest slice.\<close>

definition ticking :: "(nat \<Rightarrow> timespec \<times> timespec) \<Rightarrow> bool" where
  "ticking clk \<longleftrightarrow> (\<forall>i. case line_cost (clk i) of None \<Rightarrow> True | Some d \<Rightarrow> 0 < d)"

text \<open>The machine never stops but at its end.\<close>

definition sound :: "c_int list \<Rightarrow> nat \<Rightarrow> sline list \<Rightarrow> mach \<Rightarrow> bool" where
  "sound av mm P m \<longleftrightarrow> (\<forall>n. mgo av mm P n m \<noteq> None)"

context voids_lib
begin

lemma slice_moves:
  assumes ok: "prog_ok P tk" and sim: "msim hinv hmap rinv rlist R pr P tk m s" and r: "m_mode m = Running" and so: "sound (argv s) (mem_max s) P m"
    and t: "ticking clk" "nat ts < fuel" and e: "interpret_next_line V s0 = interpret_next_line V s"
  shows "\<exists>s' m' k. slice_loop V clk fuel 0 ts s0 = Ok s' \<and> msim hinv hmap rinv rlist R pr P tk m' s' \<and> kept s s' \<and> mgo (argv s) (mem_max s) P k m = Some m' \<and> 0 < k"
proof -
  obtain k where k: "slice_loop V clk fuel 0 ts s0 = run_slice V k s0"
    using slice_is_run [of clk ts fuel V 0 s0] t by (auto simp: ticking_def)
  obtain j m' where m': "mrun (argv s) (mem_max s) P (Suc k) m = Some m'" "mgo (argv s) (mem_max s) P j m = Some m'" "0 < j"
    using mrun_mgo [of "argv s" "mem_max s" P m "Suc k"] so r by (auto simp: sound_def simp del: mrun.simps)
  from mrun_sim [OF ok sim r m'(1)] show ?thesis using k run_cong [OF e] m'(2,3) by metis
qed

lemma visit_moves:
  assumes ok: "prog_ok P tk" and p: "psim hinv hmap rinv rlist R pr P tk m s" and so: "sound (argv s) (mem_max s) P m"
    and t: "ticking clk" "nat ts < fuel" "ts \<le> 1000000000" "0 \<le> ts"
  shows "\<exists>s' m' k. visit V clk fuel ts s = Ok s' \<and> psim hinv hmap rinv rlist R pr P tk m' s' \<and> kept s s' \<and> mgo (argv s) (mem_max s) P k m = Some m' \<and>
    (\<forall>d. enough (argv s) (mem_max s) P m s d \<longrightarrow> enough (argv s) (mem_max s) P m' s' (if 0 < ts then d - 1 else d))"
  using p [unfolded psim_def]
proof (elim disjE conjE)
  assume b: "booted hinv hmap rinv rlist R pr P tk s" "m = minit"
  obtain s1 where s1: "interpret_next_line V s = interpret_next_line V s1" "msim hinv hmap rinv rlist R pr P tk minit s1" "kept s s1"
    using booted_start [OF b(1)] by blast
  have "sound (argv s1) (mem_max s1) P minit" using so keptD [OF s1(3)] b(2) by simp
  moreover have r: "m_mode minit = Running" by (simp add: minit_def)
  ultimately obtain s' m' k where s': "slice_loop V clk fuel 0 ts s = Ok s'" "msim hinv hmap rinv rlist R pr P tk m' s'" "kept s1 s'"
      "mgo (argv s1) (mem_max s1) P k minit = Some m'" "0 < k"
    using slice_moves [OF ok s1(2) _ _ t(1,2) s1(1)] by blast
  have g: "mgo (argv s) (mem_max s) P k m = Some m'" using s'(4) b(2) keptD [OF s1(3)] by simp
  have "visit V clk fuel ts s = slice_loop V clk fuel 0 ts s" using b(1) by (simp add: visit_def booted_def)
  moreover have "enough (argv s) (mem_max s) P m' s' (if 0 < ts then d - 1 else d)" if "enough (argv s) (mem_max s) P m s d" for d
    by (rule enough_mono [OF enough_steps [OF that _ g s'(5) msim_due [OF s'(2)]]]) (use r b(2) in simp_all)
  ultimately show ?thesis
    using s'(1) g kept_trans [OF s1(3) s'(3)] msim_vsim [OF s'(2)] unfolding psim_def by (intro exI [of _ s'] exI [of _ m'] exI [of _ k]) simp
next
  assume v: "vsim hinv hmap rinv rlist R pr P tk m s"
  show ?thesis
  proof (cases "m_mode m")
    case Running
    obtain s' m' k where s': "slice_loop V clk fuel 0 ts s = Ok s'" "msim hinv hmap rinv rlist R pr P tk m' s'" "kept s s'"
        "mgo (argv s) (mem_max s) P k m = Some m'" "0 < k"
      using slice_moves [OF ok vsimD(1) [OF v Running] Running so t(1,2) refl] by blast
    have "visit V clk fuel ts s = slice_loop V clk fuel 0 ts s" using vsimD(5) [OF v] Running by (simp add: visit_def)
    moreover have "enough (argv s) (mem_max s) P m' s' (if 0 < ts then d - 1 else d)" if "enough (argv s) (mem_max s) P m s d" for d
      by (rule enough_mono [OF enough_steps [OF that Running s'(4,5) msim_due [OF s'(2)]]]) simp
    ultimately show ?thesis
      using s' msim_vsim [OF s'(2)] unfolding psim_def
      by (intro exI [of _ s'] exI [of _ m'] exI [of _ k]) simp
  next
    case (Asleep w)
    have vis: "visit V clk fuel ts s = Ok (visit_sleeping ts s)" using vsimD(7) [OF v] Asleep by (simp add: visit_def)
    show ?thesis
    proof (cases "sleep_nsec s < ts \<and> sleep_sec s = 0")
      case True
      let ?s = "s\<lparr>pstate := INSTRUCTION_LINE\<rparr>"
      note n = nap_wakes [OF v Asleep conjunct1 [OF True] conjunct2 [OF True]]
      have "mgo (argv s) (mem_max s) P 1 m = Some (mwake m)" using Asleep by (simp add: mnext_def)
      moreover have "enough (argv s) (mem_max s) P (mwake m) ?s (if 0 < ts then d - 1 else d)" if "enough (argv s) (mem_max s) P m s d" for d
        by (rule enough_mono [OF enough_asleep(1) [OF that Asleep]]) (simp_all add: due_def mwake_def)
      ultimately show ?thesis
        using vis n(1) msim_vsim [OF n(2)]
        by (intro exI [of _ ?s] exI [of _ "mwake m"] exI [of _ 1]) (simp add: psim_def kept_def)
    next
      case False
      note n = nap_goes_on [OF v Asleep t(3) False]
      have "enough (argv s) (mem_max s) P m (visit_sleeping ts s) (if 0 < ts then d - 1 else d)" if d: "enough (argv s) (mem_max s) P m s d" for d
      proof (cases "0 < ts")
        case True
        then show ?thesis using enough_asleep(2) [OF d Asleep, of "visit_sleeping ts s"] n(3-5) Asleep by (simp add: due_def)
      next
        case False
        then show ?thesis using enough_asleep(3) [OF d Asleep, of "visit_sleeping ts s"] n(3-5) t(4) Asleep by (simp add: due_def)
      qed
      then show ?thesis
        using vis n(1,2) by (intro exI [of _ "visit_sleeping ts s"] exI [of _ m] exI [of _ 0]) (simp add: psim_def)
    qed
  next
    case Ended
    then have "visit V clk fuel ts s = Ok s" using vsimD(6) [OF v] by (simp add: visit_def)
    moreover have "enough (argv s) (mem_max s) P m s d" for d by (rule enough_ended [OF Ended])
    ultimately show ?thesis using p by (intro exI [of _ s] exI [of _ m] exI [of _ 0]) simp
  qed
qed

text \<open>A program is freed; the memory of the others stays.\<close>

lemma idle_freed:
  assumes p: "idle hinv hmap rinv rlist s"
  obtains s' where "program_free V s = Ok s'" "rest_of hmap s \<subseteq>\<^sub>m heap s'" "s' = s\<lparr>heap := heap s'\<rparr>" "heap_ok s'"
proof -
  obtain A where g: "good hinv hmap A s" using p by (auto simp: idle_def)
  let ?s = "s\<lparr>heap := \<lambda>a. if a \<in> owned (hmap (vartable s)) then None else heap s a\<rparr>"
  have "program_free V s = Ok ?s" by (rule program_free_ok [OF g]) (use p in \<open>simp_all add: idle_def ring_is_def\<close>)
  moreover have "rest_of hmap s \<subseteq>\<^sub>m heap ?s" by (auto simp: rest_of_def map_le_def restrict_map_def)
  moreover have "heap_ok ?s" using goodD(1) [OF g] by (auto simp: heap_ok_def)
  ultimately show thesis using that by simp
qed

end

subsection \<open>The process\<close>

definition shm_ok :: "('h \<Rightarrow> bool) \<Rightarrow> ('h \<Rightarrow> pairs) \<Rightarrow> ('h, 'r) shared \<Rightarrow> bool" where
  "shm_ok hinv hmap m \<longleftrightarrow> sh_heap m NULL = None \<and> 0 < sh_fresh m \<and> (\<forall>a. sh_fresh m \<le> a \<longrightarrow> sh_heap m a = None) \<and> itab_ok hinv hmap (sh_itable m)"

text \<open>A job: the arguments of a program, its lines, and its machine.\<close>

type_synonym job = "c_int list \<times> sline list \<times> string \<times> mach"

text \<open>A program that was killed is finished, with an error, and waits to be removed.\<close>

definition dead :: "('h \<Rightarrow> bool) \<Rightarrow> ('h \<Rightarrow> pairs) \<Rightarrow> ('r \<Rightarrow> bool) \<Rightarrow> ('r \<Rightarrow> addr list) \<Rightarrow> ('h, 'r) st \<Rightarrow> bool" where
  "dead hinv hmap rinv rlist s \<longleftrightarrow> idle hinv hmap rinv rlist s \<and> pstate s = FINISHED \<and> error_flag s"

text \<open>A program stands for its job; \<open>k\<close> says that it may have been killed.\<close>

fun jsim :: "('h \<Rightarrow> bool) \<Rightarrow> ('h \<Rightarrow> pairs) \<Rightarrow> ('r \<Rightarrow> bool) \<Rightarrow> ('r \<Rightarrow> addr list) \<Rightarrow> bool \<Rightarrow> job \<Rightarrow> ('h, 'r) st \<Rightarrow> bool" where
  "jsim hinv hmap rinv rlist k (av, P, tk, m) s \<longleftrightarrow> argv s = av \<and> prog_ok P tk \<and> sound av (mem_max s) P m \<and>
     (psim hinv hmap rinv rlist (rest_of hmap s) (out s) P tk (clear m) s \<or> k \<and> dead hinv hmap rinv rlist s)"

lemma jsim_idle: "jsim hinv hmap rinv rlist k j s \<Longrightarrow> idle hinv hmap rinv rlist s"
  by (cases j) (auto simp: dead_def intro: psim_idle)


text \<open>\<open>K\<close> are the programs that may be killed.\<close>

definition wsim :: "('h \<Rightarrow> bool) \<Rightarrow> ('h \<Rightarrow> pairs) \<Rightarrow> ('r \<Rightarrow> bool) \<Rightarrow> ('r \<Rightarrow> addr list) \<Rightarrow> addr set \<Rightarrow> (addr \<Rightarrow> job option) \<Rightarrow> ('h, 'r, 'l) world \<Rightarrow> bool" where
  "wsim hinv hmap rinv rlist K J w \<longleftrightarrow> shm_ok hinv hmap (shm w) \<and> dom J = dom (progs w) \<and>
     (\<forall>a p j. progs w a = Some p \<longrightarrow> J a = Some j \<longrightarrow> jsim hinv hmap rinv rlist (a \<in> K) j (load_prog p (shm w))) \<and>
     (\<forall>a b p q. progs w a = Some p \<longrightarrow> progs w b = Some q \<longrightarrow> a \<noteq> b \<longrightarrow> owned (hmap (vartable p)) \<inter> owned (hmap (vartable q)) = {})"

text \<open>
  The jobs make steps.  \<open>cs\<close> are the pieces of output with the program that has written them; a program that is no longer there has ended or was killed.
\<close>

definition said :: "addr \<Rightarrow> (addr \<times> event list) list \<Rightarrow> event list" where
  "said a cs = concat (map snd (filter (\<lambda>c. fst c = a) cs))"

definition jobs_go :: "addr set \<Rightarrow> nat \<Rightarrow> (addr \<times> event list) list \<Rightarrow> (addr \<Rightarrow> job option) \<Rightarrow> (addr \<Rightarrow> job option) \<Rightarrow> bool" where
  "jobs_go K mm cs J J' \<longleftrightarrow> dom J' \<subseteq> dom J \<and> fst ` set cs \<subseteq> dom J \<and>
     (\<forall>a av P tk m. J a = Some (av, P, tk, m) \<longrightarrow> (\<exists>k m'. mgo av mm P k m = Some m' \<and> m_out m' = m_out m @ said a cs \<and>
        (J' a = Some (av, P, tk, m') \<or> J' a = None \<and> (m_mode m' = Ended \<or> a \<in> K))))"

lemma jobs_refl: "jobs_go K mm [] J J"
proof -
  have "\<exists>k m'. mgo av mm P k m = Some m' \<and> m_out m' = m_out m @ said a [] \<and> (J a = Some (av, P, tk, m') \<or> J a = None \<and> (m_mode m' = Ended \<or> a \<in> K))"
    if "J a = Some (av, P, tk, m)" for a av P tk m
    using that by (intro exI [of _ 0] exI [of _ m]) (simp add: said_def)
  then show ?thesis by (simp add: jobs_go_def)
qed

lemma said_none: "a \<notin> fst ` set cs \<Longrightarrow> said a cs = []"
proof -
  assume "a \<notin> fst ` set cs"
  then have "filter (\<lambda>c. fst c = a) cs = []" by (auto simp: filter_empty_conv)
  then show ?thesis by (simp add: said_def)
qed

lemma jobs_dom: "jobs_go K mm cs J J' \<Longrightarrow> dom J' \<subseteq> dom J" "jobs_go K mm cs J J' \<Longrightarrow> fst ` set cs \<subseteq> dom J"
  by (simp_all add: jobs_go_def)

lemma jobs_goD:
  assumes "jobs_go K mm cs J J'" and "J a = Some (av, P, tk, m)"
  obtains k m' where "mgo av mm P k m = Some m'" "m_out m' = m_out m @ said a cs" "J' a = Some (av, P, tk, m') \<or> J' a = None \<and> (m_mode m' = Ended \<or> a \<in> K)"
proof -
  have "\<exists>k m'. mgo av mm P k m = Some m' \<and> m_out m' = m_out m @ said a cs \<and> (J' a = Some (av, P, tk, m') \<or> J' a = None \<and> (m_mode m' = Ended \<or> a \<in> K))"
    using assms by (simp add: jobs_go_def)
  then show thesis using that by blast
qed

lemma jobs_trans:
  assumes a: "jobs_go K mm cs J J1" and b: "jobs_go K mm ds J1 J2"
  shows "jobs_go K mm (cs @ ds) J J2"
proof -
  have "\<exists>k m'. mgo av mm P k m = Some m' \<and> m_out m' = m_out m @ said x (cs @ ds) \<and> (J2 x = Some (av, P, tk, m') \<or> J2 x = None \<and> (m_mode m' = Ended \<or> x \<in> K))"
    if j: "J x = Some (av, P, tk, m)" for x av P tk m
  proof -
    obtain k m1 where m1: "mgo av mm P k m = Some m1" "m_out m1 = m_out m @ said x cs" "J1 x = Some (av, P, tk, m1) \<or> J1 x = None \<and> (m_mode m1 = Ended \<or> x \<in> K)"
      by (rule jobs_goD [OF a j])
    from m1(3) show ?thesis
    proof
      assume j1: "J1 x = Some (av, P, tk, m1)"
      obtain l m2 where m2: "mgo av mm P l m1 = Some m2" "m_out m2 = m_out m1 @ said x ds" "J2 x = Some (av, P, tk, m2) \<or> J2 x = None \<and> (m_mode m2 = Ended \<or> x \<in> K)"
        by (rule jobs_goD [OF b j1])
      have "mgo av mm P (k + l) m = Some m2" using mgo_add [of av mm P k l m] m1(1) m2(1) by simp
      moreover have "m_out m2 = m_out m @ said x (cs @ ds)" using m1(2) m2(2) by (simp add: said_def)
      ultimately show ?thesis using m2(3) by blast
    next
      assume e: "J1 x = None \<and> (m_mode m1 = Ended \<or> x \<in> K)"
      then have "x \<notin> dom J1" by (simp add: domIff)
      then have "x \<notin> fst ` set ds" "x \<notin> dom J2" using jobs_dom [OF b] by blast+
      then have "J2 x = None" unfolding domIff by blast
      then have "m_out m1 = m_out m @ said x (cs @ ds)" using m1(2) said_none [OF \<open>x \<notin> fst ` set ds\<close>] by (simp add: said_def)
      then show ?thesis using m1(1) e \<open>J2 x = None\<close> by blast
    qed
  qed
  moreover have "dom J2 \<subseteq> dom J" by (rule subset_trans [OF jobs_dom(1) [OF b] jobs_dom(1) [OF a]])
  moreover have "fst ` set (cs @ ds) \<subseteq> dom J"
    unfolding set_append image_Un by (rule Un_least [OF jobs_dom(2) [OF a] subset_trans [OF jobs_dom(2) [OF b] jobs_dom(1) [OF a]]])
  ultimately show ?thesis by (simp add: jobs_go_def)
qed

lemma load_fields [simp]: "heap (load_prog p m) = sh_heap m" "fresh (load_prog p m) = sh_fresh m" "vartable (load_prog p m) = vartable p"
  "out (load_prog p m) = sh_out m" "error_flag (load_prog p m) = error_flag p" "mem_max (load_prog p m) = sh_max m"
  "load_prog (prog_of s) (shared_of s) = s" "vartable (prog_of s) = vartable s"
  by (simp_all add: load_prog_def prog_of_def shared_of_def program_s.defs)

lemma load_swap: "sh_max m' = sh_max m \<Longrightarrow> sh_itable m' = sh_itable m \<Longrightarrow>
    load_prog p m' = swap (sh_heap m') (sh_fresh m') (sh_gtab m') (sh_out m') (load_prog p m)"
  by (simp add: load_prog_def swap_def program_s.defs)

lemma idle_load:
  assumes i: "idle hinv hmap rinv rlist (load_prog q m)"
    and h: "\<forall>a \<in> owned (hmap (vartable q)). sh_heap m' a = sh_heap m a" "heap_ok (load_prog q m')"
  shows "idle hinv hmap rinv rlist (load_prog q m')"
proof -
  obtain A where g: "good hinv hmap A (load_prog q m)" using i by (auto simp: idle_def)
  have "vinv (sh_heap m') (hmap (vartable q)) A" by (rule vinv_cong [of "sh_heap m"]) (use goodD(3) [OF g] h(1) in simp_all)
  then have "good hinv hmap A (load_prog q m')" using goodD(2) [OF g] h(2) by (simp add: good_def)
  moreover have "translated_line (load_prog q m') = translated_line (load_prog q m)" "argv (load_prog q m') = argv (load_prog q m)"
    "pstate (load_prog q m') = pstate (load_prog q m)" by (simp_all add: load_prog_def program_s.defs)
  ultimately show ?thesis using i by (auto simp: idle_def ring_is_def)
qed

lemma jsim_load:
  assumes j: "jsim hinv hmap rinv rlist k j (load_prog q m)" and m': "sh_max m' = sh_max m" "sh_itable m' = sh_itable m"
    and h: "\<forall>a \<in> owned (hmap (vartable q)). sh_heap m' a = sh_heap m a" "heap_ok (load_prog q m')"
  shows "jsim hinv hmap rinv rlist k j (load_prog q m')"
proof -
  obtain av P tk n where q: "j = (av, P, tk, n)" by (cases j) auto
  note e = load_swap [OF m', of q]
  have "psim hinv hmap rinv rlist (rest_of hmap (load_prog q m')) (sh_out m') P tk (clear (clear n)) (load_prog q m')"
    if "psim hinv hmap rinv rlist (rest_of hmap (load_prog q m)) (sh_out m) P tk (clear n) (load_prog q m)"
    unfolding e by (rule psim_swap [where s = "load_prog q m"]) (use that h e in auto)
  moreover have "dead hinv hmap rinv rlist (load_prog q m')" if "dead hinv hmap rinv rlist (load_prog q m)"
  proof -
    have "idle hinv hmap rinv rlist (load_prog q m')" by (rule idle_load [of hinv hmap rinv rlist q m m', OF _ h]) (use that in \<open>simp add: dead_def\<close>)
    then show ?thesis using that by (simp add: dead_def load_prog_def program_s.defs)
  qed
  ultimately show ?thesis using j q m'(1) by (auto simp: clear_def)
qed

lemma heap_ok_load: "heap_ok (load_prog q m) = heap_ok (load_prog p m)"
  by (simp add: heap_ok_def)

text \<open>The others, when one program has changed the shared state.\<close>

lemma wsim_others:
  assumes w: "wsim hinv hmap rinv rlist K J w" and p: "progs w a = Some p" and k: "rest_of hmap (load_prog p (shm w)) \<subseteq>\<^sub>m sh_heap m'"
    and m': "sh_max m' = sh_max (shm w)" "sh_itable m' = sh_itable (shm w)" "heap_ok (load_prog p m')"
    and q: "progs w b = Some q" "J b = Some j" "b \<noteq> a"
  shows "jsim hinv hmap rinv rlist (b \<in> K) j (load_prog q m')" "owned (hmap (vartable q)) \<subseteq> dom (rest_of hmap (load_prog p (shm w)))"
proof -
  have j: "jsim hinv hmap rinv rlist (b \<in> K) j (load_prog q (shm w))" using w q unfolding wsim_def by blast
  have "owned (hmap (vartable q)) \<subseteq> dom (sh_heap (shm w))" using idle_owned [OF jsim_idle [OF j]] by simp
  moreover have "owned (hmap (vartable q)) \<inter> owned (hmap (vartable p)) = {}" using w p q by (auto simp: wsim_def)
  ultimately show o: "owned (hmap (vartable q)) \<subseteq> dom (rest_of hmap (load_prog p (shm w)))" by (auto simp: rest_of_def)
  have "sh_heap m' b = sh_heap (shm w) b" if b: "b \<in> owned (hmap (vartable q))" for b
  proof -
    have d: "b \<in> dom (rest_of hmap (load_prog p (shm w)))" using o b by blast
    then have "rest_of hmap (load_prog p (shm w)) b = sh_heap m' b" using k by (simp add: map_le_def)
    moreover have "rest_of hmap (load_prog p (shm w)) b = sh_heap (shm w) b" using d by (auto simp: rest_of_def restrict_map_def split: if_splits)
    ultimately show ?thesis by simp
  qed
  then show "jsim hinv hmap rinv rlist (b \<in> K) j (load_prog q m')"
    using jsim_load [OF j m'(1,2)] m'(3) heap_ok_load [of q m' p] by simp
qed

text \<open>One program is moved.\<close>

lemma wsim_moved:
  assumes w: "wsim hinv hmap rinv rlist K J w" and p: "progs w a = Some p" and j: "J a = Some (av, P, tk, m)"
    and s': "psim hinv hmap rinv rlist (rest_of hmap (load_prog p (shm w))) (sh_out (shm w)) P tk m1 s'" "kept (load_prog p (shm w)) s'"
    and go: "mgo av (sh_max (shm w)) P k (clear m) = Some m1" and w': "progs w' = (progs w)(a \<mapsto> prog_of s')" "shm w' = shared_of s'"
  shows "wsim hinv hmap rinv rlist K (J(a \<mapsto> (av, P, tk, shift (m_out m) (m_lost m) m1))) w'"
    "jobs_go K (sh_max (shm w)) [(a, m_out m1)] J (J(a \<mapsto> (av, P, tk, shift (m_out m) (m_lost m) m1)))"
    "sh_out (shm w') = sh_out (shm w) @ m_out m1"
proof -
  let ?m = "shift (m_out m) (m_lost m) m1" and ?s = "load_prog p (shm w)"
  note D = psimD [OF s'(1)]
  have js: "argv p = av" "prog_ok P tk" "sound av (sh_max (shm w)) P m" using w p j unfolding wsim_def by fastforce+
  have sh: "sh_heap (shared_of s') = heap s'" "sh_max (shared_of s') = sh_max (shm w)" "sh_itable (shared_of s') = sh_itable (shm w)" "sh_out (shared_of s') = out s'"
    using s'(2) by (simp_all add: kept_def shared_of_def) (simp_all add: load_prog_def program_s.defs)
  have go': "mgo av (sh_max (shm w)) P k m = Some ?m" by (rule mgo_clear [OF go])
  have so: "sound av (sh_max (shm w)) P ?m"
    using js(3) mgo_add [of av "sh_max (shm w)" P k _ m] go' by (simp add: sound_def) (metis option.simps(5))
  have self: "s' = swap (heap s') (fresh s') (gtab s') (out s') s'" by (simp add: swap_def)
  have "psim hinv hmap rinv rlist (rest_of hmap s') (out s') P tk (clear m1) s'"
    using psim_swap [OF s'(1), of "heap s'" "fresh s'" "gtab s'" "out s'"] D(3) self by simp
  then have own: "jsim hinv hmap rinv rlist (a \<in> K) (av, P, tk, ?m) s'"
    using js so s'(2) sh(2) by (simp add: clear_shift kept_def)
  have le: "rest_of hmap ?s \<subseteq>\<^sub>m sh_heap (shared_of s')" using D(1) sh(1) by simp
  have hk: "heap_ok (load_prog p (shared_of s'))" using D(3) by (simp add: heap_ok_def shared_of_def)
  note oth = wsim_others [OF w p le sh(2,3) hk]
  have dis: "owned (hmap (vartable s')) \<inter> owned (hmap (vartable q)) = {}" if q: "progs w b = Some q" "b \<noteq> a" for b q
  proof -
    obtain j' where "J b = Some j'" using w q(1) unfolding wsim_def by blast
    from oth(2) [OF q(1) this q(2)] show ?thesis using D(2) by blast
  qed
  show "wsim hinv hmap rinv rlist K (J(a \<mapsto> (av, P, tk, ?m))) w'"
    unfolding wsim_def w'
  proof (intro conjI allI impI)
    show "shm_ok hinv hmap (shared_of s')" using D(3,6) by (simp add: shm_ok_def heap_ok_def shared_of_def)
    show "dom (J(a \<mapsto> (av, P, tk, ?m))) = dom ((progs w)(a \<mapsto> prog_of s'))" using w by (simp add: wsim_def)
    show "jsim hinv hmap rinv rlist (b \<in> K) j' (load_prog q (shared_of s'))"
      if "((progs w)(a \<mapsto> prog_of s')) b = Some q" "(J(a \<mapsto> (av, P, tk, ?m))) b = Some j'" for b q j'
      using that own oth(1) [of b q j'] by (cases "b = a") auto
    show "owned (hmap (vartable q)) \<inter> owned (hmap (vartable q')) = {}"
      if "((progs w)(a \<mapsto> prog_of s')) b = Some q" "((progs w)(a \<mapsto> prog_of s')) c = Some q'" "b \<noteq> c" for b c q q'
    proof (cases "b = a \<or> c = a")
      case True
      then show ?thesis using that dis [of b q] dis [of c q'] by (auto simp: disjoint_iff)
    next
      case False
      then show ?thesis using that w unfolding wsim_def by simp
    qed
  qed
  have "\<exists>k m'. mgo av' (sh_max (shm w)) P' k m2 = Some m' \<and> m_out m' = m_out m2 @ said b [(a, m_out m1)] \<and>
      ((J(a \<mapsto> (av, P, tk, ?m))) b = Some (av', P', tk', m') \<or> (J(a \<mapsto> (av, P, tk, ?m))) b = None \<and> (m_mode m' = Ended \<or> b \<in> K))"
    if "J b = Some (av', P', tk', m2)" for b av' P' tk' m2
  proof (cases "b = a")
    case True
    then show ?thesis using that j go' by (intro exI [of _ k] exI [of _ ?m]) (simp add: said_def)
  next
    case False
    then show ?thesis using that by (intro exI [of _ 0] exI [of _ m2]) (simp add: said_def)
  qed
  then show "jobs_go K (sh_max (shm w)) [(a, m_out m1)] J (J(a \<mapsto> (av, P, tk, ?m)))" using j by (auto simp: jobs_go_def)
  show "sh_out (shm w') = sh_out (shm w) @ m_out m1" using D(7) w'(2) sh(4) by simp
qed

text \<open>One program that has ended is removed.\<close>

lemma wsim_removed:
  assumes w: "wsim hinv hmap rinv rlist K J w" and p: "progs w a = Some p" and j: "J a = Some (av, P, tk, m)" and e: "m_mode m = Ended \<or> a \<in> K"
    and s': "rest_of hmap (load_prog p (shm w)) \<subseteq>\<^sub>m heap s'" "s' = (load_prog p (shm w))\<lparr>heap := heap s'\<rparr>" "heap_ok s'"
    and w': "progs w' = (progs w)(a := None)" "shm w' = shared_of s'"
  shows "wsim hinv hmap rinv rlist K (J(a := None)) w'" "jobs_go K (sh_max (shm w)) [] J (J(a := None))" "sh_out (shm w') = sh_out (shm w)"
    "sh_max (shm w') = sh_max (shm w)"
proof -
  have sh: "shared_of s' = (shm w)\<lparr>sh_heap := heap s'\<rparr>"
    by (subst s'(2)) (simp add: shared_of_def load_prog_def program_s.defs)
  have le: "rest_of hmap (load_prog p (shm w)) \<subseteq>\<^sub>m sh_heap (shared_of s')" using s'(1) sh by simp
  have "fresh s' = sh_fresh (shm w)" by (subst s'(2)) simp
  then have hk: "heap_ok (load_prog p (shared_of s'))" using s'(3) by (simp add: heap_ok_def sh)
  note oth = wsim_others [OF w p le _ _ hk]
  show "wsim hinv hmap rinv rlist K (J(a := None)) w'"
    unfolding wsim_def w'
  proof (intro conjI allI impI)
    show "shm_ok hinv hmap (shared_of s')" using w s'(3) \<open>fresh s' = sh_fresh (shm w)\<close> sh by (simp add: shm_ok_def heap_ok_def wsim_def)
    show "dom (J(a := None)) = dom ((progs w)(a := None))" using w by (simp add: wsim_def)
    show "jsim hinv hmap rinv rlist (b \<in> K) j' (load_prog q (shared_of s'))"
      if "((progs w)(a := None)) b = Some q" "(J(a := None)) b = Some j'" for b q j'
      using that oth(1) [of b q j'] sh by (cases "b = a") auto
    show "owned (hmap (vartable q)) \<inter> owned (hmap (vartable q')) = {}"
      if "((progs w)(a := None)) b = Some q" "((progs w)(a := None)) c = Some q'" "b \<noteq> c" for b c q q'
      using that w unfolding wsim_def by (simp split: if_splits)
  qed
  have "\<exists>k m'. mgo av' (sh_max (shm w)) P' k m2 = Some m' \<and> m_out m' = m_out m2 @ said b [] \<and>
      ((J(a := None)) b = Some (av', P', tk', m') \<or> (J(a := None)) b = None \<and> (m_mode m' = Ended \<or> b \<in> K))"
    if "J b = Some (av', P', tk', m2)" for b av' P' tk' m2
    using that j e by (intro exI [of _ 0] exI [of _ m2]) (auto simp: said_def)
  then show "jobs_go K (sh_max (shm w)) [] J (J(a := None))" by (auto simp: jobs_go_def)
  show "sh_out (shm w') = sh_out (shm w)" "sh_max (shm w') = sh_max (shm w)" using w'(2) sh by simp_all
qed

lemma wsim_cong: "progs w' = progs w \<Longrightarrow> shm w' = shm w \<Longrightarrow> wsim hinv hmap rinv rlist K J w' = wsim hinv hmap rinv rlist K J w"
  by (simp add: wsim_def)

text \<open>The visits that are left: \<open>D a\<close>, if it is given, are enough for the program \<open>a\<close>.\<close>

definition wdue :: "(addr \<Rightarrow> job option) \<Rightarrow> ('h, 'r, 'l) world \<Rightarrow> (addr \<Rightarrow> nat option) \<Rightarrow> bool" where
  "wdue J w D \<longleftrightarrow> (\<forall>a p av P tk m d. progs w a = Some p \<longrightarrow> J a = Some (av, P, tk, m) \<longrightarrow> D a = Some d \<longrightarrow>
     pstate p = FINISHED \<or> enough av (sh_max (shm w)) P m p d)"

lemma wdueD: "wdue J w D \<Longrightarrow> progs w a = Some p \<Longrightarrow> J a = Some (av, P, tk, m) \<Longrightarrow> D a = Some d \<Longrightarrow>
    pstate p = FINISHED \<or> enough av (sh_max (shm w)) P m p d"
  unfolding wdue_def by blast

lemma wdue_less:
  "wdue J w D \<Longrightarrow> progs w' \<subseteq>\<^sub>m progs w \<Longrightarrow> J' \<subseteq>\<^sub>m J \<Longrightarrow> sh_max (shm w') = sh_max (shm w) \<Longrightarrow> wdue J' w' D"
  unfolding wdue_def map_le_def by (metis domI)

lemma wdue_upd:
  assumes D: "wdue J w D" and p: "progs w a = Some p" and j: "J a = Some (av, P, tk, m)"
    and w': "progs w' = (progs w)(a \<mapsto> p')" "sh_max (shm w') = sh_max (shm w)"
    and E: "\<And>b. b \<noteq> a \<Longrightarrow> E b = D b"
      "\<And>e. E a = Some e \<Longrightarrow> pstate p' = FINISHED \<or> (\<exists>d. D a = Some d \<and> pstate p \<noteq> FINISHED \<and> (enough av (sh_max (shm w)) P m p d \<longrightarrow> enough av (sh_max (shm w)) P m' p' e))"
  shows "wdue (J(a \<mapsto> (av, P, tk, m'))) w' E"
proof -
  have "pstate q = FINISHED \<or> enough av' (sh_max (shm w)) P' n q e"
    if "((progs w)(a \<mapsto> p')) b = Some q" "(J(a \<mapsto> (av, P, tk, m'))) b = Some (av', P', tk', n)" "E b = Some e" for b q av' P' tk' n e
  proof (cases "b = a")
    case True
    then show ?thesis using that E(2) [of e] wdueD [OF D p j] by auto
  next
    case False
    then show ?thesis using that E(1) [of b] wdueD [OF D, of b q av' P' tk' n e] by simp
  qed
  then show ?thesis unfolding wdue_def w' by blast
qed

subsection \<open>A step of a runtime\<close>

text \<open>The random number, the clock and the fuel of a step.\<close>

definition tick_ok :: "64 word \<Rightarrow> (nat \<Rightarrow> timespec \<times> timespec) \<Rightarrow> nat \<Rightarrow> bool" where
  "tick_ok rnd clk fuel \<longleftrightarrow> sint rnd \<noteq> - (2 ^ 63) \<and> ticking clk \<and> nat TIME_SLICE_MAX_NSEC \<le> fuel"

definition wgoes :: "('h \<Rightarrow> bool) \<Rightarrow> ('h \<Rightarrow> pairs) \<Rightarrow> ('r \<Rightarrow> bool) \<Rightarrow> ('r \<Rightarrow> addr list) \<Rightarrow> addr set \<Rightarrow> (addr \<Rightarrow> job option) \<Rightarrow> ('h, 'r, 'l) world \<Rightarrow> ('h, 'r, 'l) world \<Rightarrow> bool" where
  "wgoes hinv hmap rinv rlist K J w w' \<longleftrightarrow> (\<exists>cs J'. wsim hinv hmap rinv rlist K J' w' \<and> jobs_go K (sh_max (shm w)) cs J J' \<and>
     sh_out (shm w') = sh_out (shm w) @ concat (map snd cs) \<and> sh_max (shm w') = sh_max (shm w) \<and> (\<forall>D. wdue J w D \<longrightarrow> wdue J' w' D))"

lemma wgoes_same: "wsim hinv hmap rinv rlist K J w \<Longrightarrow> progs w' = progs w \<Longrightarrow> shm w' = shm w \<Longrightarrow> wgoes hinv hmap rinv rlist K J w w'"
  unfolding wgoes_def using jobs_refl wsim_cong [of w' w] by (intro exI [of _ "[]"] exI [of _ J]) (simp add: wdue_def)

lemma time_slice:
  assumes "sint rnd \<noteq> - (2 ^ 63)"
  obtains ts where "calc_time_slice rnd = Ok ts" "0 \<le> ts" "ts < TIME_SLICE_MAX_NSEC" "0 < ts \<longleftrightarrow> 0 < sint rnd mod TIME_SLICE_MAX_NSEC"
proof -
  have "0 < TIME_SLICE_MAX_NSEC" by (simp add: TIME_SLICE_MAX_NSEC_def)
  then have b: "0 \<le> x mod TIME_SLICE_MAX_NSEC" "x mod TIME_SLICE_MAX_NSEC < TIME_SLICE_MAX_NSEC" for x by simp_all
  have "0 < (- x) mod TIME_SLICE_MAX_NSEC \<longleftrightarrow> 0 < x mod TIME_SLICE_MAX_NSEC" for x
  proof (cases "x mod TIME_SLICE_MAX_NSEC = 0")
    case False
    then have "0 < x mod TIME_SLICE_MAX_NSEC" using b(1) [of x] by linarith
    then show ?thesis using False b(2) [of x] by (simp add: zmod_zminus1_eq_if)
  qed (simp add: zmod_zminus1_eq_if)
  then show thesis
    using that [of "if sint rnd < 0 then (0 - sint rnd) mod TIME_SLICE_MAX_NSEC else sint rnd mod TIME_SLICE_MAX_NSEC"] assms b
    by (simp add: calc_time_slice_def split: if_splits)
qed

context voids_lib
begin

lemma rt_visit_moves:
  assumes w: "wsim hinv hmap rinv rlist K J w" and t: "tick_ok rnd clk fuel"
    and a: "cd_data L (program_list (rts w ! i)) (curr (rts w ! i)) = Some a" and p: "progs w a = Some p" and j: "J a = Some (av, P, tk, m)"
  shows "\<exists>p' sh m' es. rt_visit V L rnd clk fuel i w = Ok (set_rt i ((rts w ! i)\<lparr>rt_pc := RtDecide a\<rparr>) (w\<lparr>progs := (progs w)(a \<mapsto> p'), shm := sh\<rparr>)) \<and>
    wsim hinv hmap rinv rlist K (J(a \<mapsto> (av, P, tk, m'))) (w\<lparr>progs := (progs w)(a \<mapsto> p'), shm := sh\<rparr>) \<and>
    jobs_go K (sh_max (shm w)) es J (J(a \<mapsto> (av, P, tk, m'))) \<and> sh_out sh = sh_out (shm w) @ concat (map snd es) \<and> sh_max sh = sh_max (shm w) \<and>
    (pstate p = FINISHED \<longrightarrow> p' = p) \<and> (pstate p \<noteq> FINISHED \<longrightarrow>
      (\<forall>d. enough av (sh_max (shm w)) P m p d \<longrightarrow> enough av (sh_max (shm w)) P m' p' (if 0 < sint rnd mod TIME_SLICE_MAX_NSEC then d - 1 else d)))"
proof -
  let ?s = "load_prog p (shm w)"
  obtain ts where ts: "calc_time_slice rnd = Ok ts" "0 \<le> ts" "ts < TIME_SLICE_MAX_NSEC" "0 < ts \<longleftrightarrow> 0 < sint rnd mod TIME_SLICE_MAX_NSEC"
    using t time_slice [of rnd] by (auto simp: tick_ok_def)
  have jj: "jsim hinv hmap rinv rlist (a \<in> K) (av, P, tk, m) ?s" using w p j unfolding wsim_def by blast
  have run: "rt_visit V L rnd clk fuel i w = Ok (set_rt i ((rts w ! i)\<lparr>rt_pc := RtDecide a\<rparr>) (w\<lparr>progs := (progs w)(a \<mapsto> prog_of s'), shm := shared_of s'\<rparr>))"
    if "visit V clk fuel ts ?s = Ok s'" for s' using that a p ts(1) by (simp add: rt_visit_def Let_def)
  show ?thesis
  proof (cases "pstate p = FINISHED")
    case True
    then have "visit V clk fuel ts ?s = Ok ?s" by (simp add: visit_def)
    note r = run [OF this]
    have J: "J(a \<mapsto> (av, P, tk, m)) = J" "(progs w)(a \<mapsto> p) = progs w" using j p by (simp_all add: map_upd_triv)
    show ?thesis
      using r True w jobs_refl [of K "sh_max (shm w)" J] by (intro exI [of _ p] exI [of _ "shm w"] exI [of _ m] exI [of _ "[]"]) (simp add: J)
  next
    case False
    then have js: "argv p = av" "prog_ok P tk" "psim hinv hmap rinv rlist (rest_of hmap ?s) (sh_out (shm w)) P tk (clear m) ?s" "sound av (sh_max (shm w)) P m"
      using jj by (auto simp: dead_def)
    have "sound (argv ?s) (mem_max ?s) P (clear m)" using js(1,4) mgo_clear_None [of av "sh_max (shm w)" P _ m] by (simp add: sound_def)
    moreover have "nat ts < fuel" "ts \<le> 1000000000" using ts(2,3) t by (auto simp: tick_ok_def TIME_SLICE_MAX_NSEC_def)
    ultimately obtain s' m1 k where s': "visit V clk fuel ts ?s = Ok s'" "psim hinv hmap rinv rlist (rest_of hmap ?s) (sh_out (shm w)) P tk m1 s'" "kept ?s s'"
        "mgo av (sh_max (shm w)) P k (clear m) = Some m1"
        and en: "\<forall>d. enough av (sh_max (shm w)) P (clear m) ?s d \<longrightarrow> enough av (sh_max (shm w)) P m1 s' (if 0 < ts then d - 1 else d)"
      using visit_moves [OF js(2,3), of clk ts fuel] t js(1) ts(2) by (auto simp: tick_ok_def)
    let ?w = "w\<lparr>progs := (progs w)(a \<mapsto> prog_of s'), shm := shared_of s'\<rparr>" and ?m = "shift (m_out m) (m_lost m) m1"
    note mv = wsim_moved [OF w p j s'(2,3,4), of ?w]
    have mx: "sh_max (shared_of s') = sh_max (shm w)" using s'(3) by (simp add: kept_def shared_of_def)
    have "enough av (sh_max (shm w)) P ?m (prog_of s') (if 0 < sint rnd mod TIME_SLICE_MAX_NSEC then d - 1 else d)" if d: "enough av (sh_max (shm w)) P m p d" for d
    proof -
      have "sleep_sec ?s = sleep_sec p" "sleep_nsec ?s = sleep_nsec p" by (simp_all add: load_prog_def program_s.defs)
      then have "enough av (sh_max (shm w)) P (clear m) ?s d"
        using d enough_cong [of ?s p av "sh_max (shm w)" P "clear m" d] enough_shift [of av "sh_max (shm w)" P "m_out m" "m_lost m" "clear m" p d]
        by (simp add: shift_clear)
      then have "enough av (sh_max (shm w)) P m1 s' (if 0 < ts then d - 1 else d)" using en by blast
      moreover have "sleep_sec (prog_of s') = sleep_sec s'" "sleep_nsec (prog_of s') = sleep_nsec s'" by (simp_all add: prog_of_def program_s.defs)
      ultimately show ?thesis using enough_cong [of "prog_of s'" s' av "sh_max (shm w)" P m1] ts(4) by (simp add: enough_shift)
    qed
    then show ?thesis
      using run [OF s'(1)] mv False mx
      by (intro exI [of _ "prog_of s'"] exI [of _ "shared_of s'"] exI [of _ ?m] exI [of _ "[(a, m_out m1)]"]) simp
  qed
qed

lemma rt_visit_goes:
  assumes w: "wsim hinv hmap rinv rlist K J w" and t: "tick_ok rnd clk fuel"
    and a: "cd_data L (program_list (rts w ! i)) (curr (rts w ! i)) = Some a" and p: "progs w a = Some p"
  shows "\<exists>w'. rt_visit V L rnd clk fuel i w = Ok w' \<and> wgoes hinv hmap rinv rlist K J w w'"
proof -
  obtain j where "J a = Some j" using w p unfolding wsim_def by blast
  then obtain av P tk m where j: "J a = Some (av, P, tk, m)" by (cases j) auto
  from rt_visit_moves [OF w t a p j]
  obtain p' sh m' es where v: "rt_visit V L rnd clk fuel i w = Ok (set_rt i ((rts w ! i)\<lparr>rt_pc := RtDecide a\<rparr>) (w\<lparr>progs := (progs w)(a \<mapsto> p'), shm := sh\<rparr>))"
    "wsim hinv hmap rinv rlist K (J(a \<mapsto> (av, P, tk, m'))) (w\<lparr>progs := (progs w)(a \<mapsto> p'), shm := sh\<rparr>)"
    "jobs_go K (sh_max (shm w)) es J (J(a \<mapsto> (av, P, tk, m')))" "sh_out sh = sh_out (shm w) @ concat (map snd es)" "sh_max sh = sh_max (shm w)"
    "pstate p = FINISHED \<longrightarrow> p' = p"
    "pstate p \<noteq> FINISHED \<longrightarrow> (\<forall>d. enough av (sh_max (shm w)) P m p d \<longrightarrow> enough av (sh_max (shm w)) P m' p' (if 0 < sint rnd mod TIME_SLICE_MAX_NSEC then d - 1 else d))"
    by blast
  let ?w = "set_rt i ((rts w ! i)\<lparr>rt_pc := RtDecide a\<rparr>) (w\<lparr>progs := (progs w)(a \<mapsto> p'), shm := sh\<rparr>)"
  have due: "wdue (J(a \<mapsto> (av, P, tk, m'))) ?w D" if D: "wdue J w D" for D
  proof (rule wdue_upd [OF D p j])
    fix e assume e: "D a = Some e"
    have "enough av (sh_max (shm w)) P m' p' e" if "pstate p \<noteq> FINISHED" "enough av (sh_max (shm w)) P m p e"
      by (rule enough_mono [where d = "if 0 < sint rnd mod TIME_SLICE_MAX_NSEC then e - 1 else e"]) (use v(7) that in simp_all)
    then show "pstate p' = FINISHED \<or> (\<exists>d. D a = Some d \<and> pstate p \<noteq> FINISHED \<and> (enough av (sh_max (shm w)) P m p d \<longrightarrow> enough av (sh_max (shm w)) P m' p' e))"
      using e v(6) by auto
  qed (use v(5) in simp_all)
  have "wsim hinv hmap rinv rlist K (J(a \<mapsto> (av, P, tk, m'))) ?w" using v(2) by (simp add: wsim_def)
  then have "wgoes hinv hmap rinv rlist K J w ?w"
    unfolding wgoes_def using v(3-5) due by (intro exI [of _ es] exI [of _ "J(a \<mapsto> (av, P, tk, m'))"]) simp
  then show ?thesis using v(1) by blast
qed

lemma rt_decide_moves:
  assumes w: "wsim hinv hmap rinv rlist K J w" and p: "progs w a = Some p" and j: "J a = Some (av, P, tk, m)"
    and c: "cd_nxt L (program_list (rts w ! i)) (curr (rts w ! i)) = Some c" "cd_prv L (program_list (rts w ! i)) c = Some d"
  shows "if pstate p = FINISHED
    then \<exists>sh e. rt_decide V L i a w = Ok (set_rt i ((rts w ! i)\<lparr>curr := c, program_cnt := program_cnt (rts w ! i) - 1,
          program_list := cd_delete L (program_list (rts w ! i)) d, rt_pc := RtCheck\<rparr>) (w\<lparr>progs := (progs w)(a := None), shm := sh, console := console w @ [e]\<rparr>)) \<and>
        wsim hinv hmap rinv rlist K (J(a := None)) (w\<lparr>progs := (progs w)(a := None), shm := sh\<rparr>) \<and>
        jobs_go K (sh_max (shm w)) [] J (J(a := None)) \<and> sh_out sh = sh_out (shm w) \<and> sh_max sh = sh_max (shm w)
    else rt_decide V L i a w = Ok (set_rt i ((rts w ! i)\<lparr>curr := c, rt_pc := RtLoop\<rparr>) w)"
proof -
  let ?s = "load_prog p (shm w)"
  have jj: "jsim hinv hmap rinv rlist (a \<in> K) (av, P, tk, m) ?s" using w p j unfolding wsim_def by blast
  note idle = jsim_idle [OF jj]
  have av: "argv p \<noteq> []" using idle by (simp add: idle_def)
  have D: "error_flag p \<longrightarrow> pstate p = FINISHED" "pstate p = FINISHED \<longrightarrow> m_mode m = Ended \<or> a \<in> K"
    using jj psimD(5,8) [of hinv hmap rinv rlist _ _ P tk "clear m" ?s] by (auto simp: dead_def)
  show ?thesis
  proof (cases "pstate p = FINISHED")
    case False
    then show ?thesis using p c D by (simp add: rt_decide_def Let_def)
  next
    case True
    then have e: "m_mode m = Ended \<or> a \<in> K" using D by simp
    obtain s' where s': "program_free V ?s = Ok s'" "rest_of hmap ?s \<subseteq>\<^sub>m heap s'" "s' = ?s\<lparr>heap := heap s'\<rparr>" "heap_ok s'"
      by (rule idle_freed [OF idle])
    let ?w = "w\<lparr>progs := (progs w)(a := None), shm := shared_of s'\<rparr>"
    note r = wsim_removed [OF w p j e s'(2-4), of ?w]
    have "rt_decide V L i a w = Ok (set_rt i ((rts w ! i)\<lparr>curr := c, program_cnt := program_cnt (rts w ! i) - 1,
        program_list := cd_delete L (program_list (rts w ! i)) d, rt_pc := RtCheck\<rparr>) (w\<lparr>progs := (progs w)(a := None), shm := shared_of s',
          console := console w @ [if error_flag p then Killed (argv p ! 0) else Finished (argv p ! 0)]\<rparr>))"
      using p c av True s'(1) by (simp add: rt_decide_def Let_def argv_at_def)
    then show ?thesis using True r by auto
  qed
qed

lemma rt_decide_goes:
  assumes w: "wsim hinv hmap rinv rlist K J w" and p: "progs w a = Some p"
    and c: "cd_nxt L (program_list (rts w ! i)) (curr (rts w ! i)) = Some c" "cd_prv L (program_list (rts w ! i)) c = Some d"
  shows "\<exists>w'. rt_decide V L i a w = Ok w' \<and> wgoes hinv hmap rinv rlist K J w w'"
proof -
  obtain j where "J a = Some j" using w p unfolding wsim_def by blast
  then obtain av P tk m where j: "J a = Some (av, P, tk, m)" by (cases j) auto
  note mv = rt_decide_moves [OF w p j c]
  show ?thesis
  proof (cases "pstate p = FINISHED")
    case False
    let ?w = "set_rt i ((rts w ! i)\<lparr>curr := c, rt_pc := RtLoop\<rparr>) w"
    show ?thesis using mv False wgoes_same [OF w, of ?w] by simp
  next
    case True
    then obtain sh e where r: "rt_decide V L i a w = Ok (set_rt i ((rts w ! i)\<lparr>curr := c, program_cnt := program_cnt (rts w ! i) - 1,
          program_list := cd_delete L (program_list (rts w ! i)) d, rt_pc := RtCheck\<rparr>) (w\<lparr>progs := (progs w)(a := None), shm := sh, console := console w @ [e]\<rparr>))"
        "wsim hinv hmap rinv rlist K (J(a := None)) (w\<lparr>progs := (progs w)(a := None), shm := sh\<rparr>)"
        "jobs_go K (sh_max (shm w)) [] J (J(a := None))" "sh_out sh = sh_out (shm w)" "sh_max sh = sh_max (shm w)" using mv by auto
    let ?w = "set_rt i ((rts w ! i)\<lparr>curr := c, program_cnt := program_cnt (rts w ! i) - 1,
        program_list := cd_delete L (program_list (rts w ! i)) d, rt_pc := RtCheck\<rparr>) (w\<lparr>progs := (progs w)(a := None), shm := sh, console := console w @ [e]\<rparr>)"
    have due: "wdue (J(a := None)) ?w D" if "wdue J w D" for D
      by (rule wdue_less [OF that]) (use r(5) in \<open>simp_all add: map_le_def\<close>)
    have "wsim hinv hmap rinv rlist K (J(a := None)) ?w" using r(2) by (simp add: wsim_def)
    then have "wgoes hinv hmap rinv rlist K J w ?w"
      unfolding wgoes_def using r(3-5) due by (intro exI [of _ "[]"] exI [of _ "J(a := None)"]) simp
    then show ?thesis using r(1) by blast
  qed
qed

end

text \<open>A step of any runtime is defined and moves at most one job.\<close>

lemma tick_moves:
  assumes lib: "voids_lib V hinv hmap rinv rlist" and cd: "cdlist L linv lst" and inv: "winv linv lst w" and w: "wsim hinv hmap rinv rlist K J w"
    and i: "i < length (rts w)" and t: "tick_ok rnd clk fuel"
  shows "\<exists>w'. rt_tick V L rnd clk fuel i w = Ok w' \<and> winv linv lst w' \<and> length (rts w') = length (rts w) \<and> wgoes hinv hmap rinv rlist K J w w'"
proof -
  let ?rt = "rts w ! i"
  have *: "\<exists>w'. rt_tick V L rnd clk fuel i w = Ok w' \<and> wgoes hinv hmap rinv rlist K J w w'"
  proof (cases "rt_pc ?rt")
    case RtLoop
    show ?thesis
    proof (cases "curr ?rt = NULL \<or> \<not> running ?rt")
      case True
      then show ?thesis using RtLoop wgoes_same [OF w] by (simp add: rt_tick_def Let_def)
    next
      case False
      then have c: "curr ?rt \<noteq> NULL" by simp
      obtain a p where a: "cd_data L (program_list ?rt) (curr ?rt) = Some a" "progs w a = Some p"
        using cdlist.visit_reads [OF cd inv i RtLoop c] by metis
      show ?thesis using voids_lib.rt_visit_goes [OF lib w t a] RtLoop False by (simp add: rt_tick_def Let_def)
    qed
  next
    case (RtDecide a)
    obtain p c where a: "progs w a = Some p" "cd_nxt L (program_list ?rt) (curr ?rt) = Some c" "cd_prv L (program_list ?rt) c = Some (curr ?rt)"
      using cdlist.decide_reads [OF cd inv i RtDecide] by metis
    show ?thesis using voids_lib.rt_decide_goes [OF lib w a] RtDecide by (simp add: rt_tick_def Let_def)
  qed (use wgoes_same [OF w] in \<open>auto simp: rt_tick_def Let_def\<close>)
  then obtain w' where w': "rt_tick V L rnd clk fuel i w = Ok w'" "wgoes hinv hmap rinv rlist K J w w'" by blast
  then show ?thesis using cdlist.tick_inv [OF cd inv i w'(1)] tick_cnt [OF i w'(1)] by blast
qed

subsection \<open>New programs\<close>

lemma soundI: "mgo av mm P N m = Some mE \<Longrightarrow> m_mode mE = Ended \<Longrightarrow> sound av mm P m"
proof -
  assume e: "mgo av mm P N m = Some mE" "m_mode mE = Ended"
  have "mgo av mm P n m \<noteq> None" for n
  proof (cases "n \<le> N")
    case True
    then show ?thesis using e(1) mgo_add [of av mm P n "N - n" m] by (auto split: option.splits)
  next
    case False
    then show ?thesis using e mgo_add [of av mm P N "n - N" m] mgo_ended [OF e(2)] by simp
  qed
  then show ?thesis by (simp add: sound_def)
qed

context voids_lib
begin

lemma new_job:
  assumes m: "shm_ok hinv hmap m" and ok: "prog_ok P tk" and so: "sound (pid # word_of_nat (length args) # args) (sh_max m) P minit"
  shows "jsim hinv hmap rinv rlist k (pid # word_of_nat (length args) # args, P, tk, minit) (load_prog (program_init V (file_text P tk) pid args junk jc jp) m)"
    "owned (hmap (vartable (program_init V (file_text P tk) pid args junk jc jp))) = {}"
proof -
  let ?p = "program_init V (file_text P tk) pid args junk jc jp"
  let ?s = "load_prog ?p m"
  have f: "fbuf ?s = file_text P tk" "rest ?s = file_text P tk" "pstate ?s = MAGIC_LINE" "\<not> error_flag ?s" "itable ?s = sh_itable m"
    "translated_line ?s = rb_init V DEFAULT_TRANSLATED_LINE_LEN" "argv ?s = pid # word_of_nat (length args) # args"
    by (simp_all add: load_prog_def program_init_def rest_def program_s.defs)
  have v: "hinv (vartable ?p)" "hmap (vartable ?p) = Map.empty" using init [of DEFAULT_VARTABLE_LEN] by (simp_all add: program_init_def limit_defs)
  then show o: "owned (hmap (vartable ?p)) = {}" by (simp add: owned_def)
  have "good hinv hmap Map.empty ?s" using m v by (simp add: good_def vinv_def data_inj_def heap_ok_def shm_ok_def)
  moreover have "ring_is rinv rlist [] ?s" using rb_init [of DEFAULT_TRANSLATED_LINE_LEN] f(6) by (simp add: ring_is_def limit_defs)
  ultimately have "booted hinv hmap rinv rlist (rest_of hmap ?s) (out ?s) P tk ?s"
    using f m o by (simp add: booted_def rest_of_def shm_ok_def restrict_map_def)
  moreover have "clear minit = minit" by (simp add: clear_def minit_def)
  ultimately show "jsim hinv hmap rinv rlist k (pid # word_of_nat (length args) # args, P, tk, minit) ?s"
    using ok so f(7) by (simp add: psim_def)
qed

lemma wsim_new:
  assumes w: "wsim hinv hmap rinv rlist K J w" and a: "a \<notin> dom (progs w)" and ok: "prog_ok P tk"
    and so: "sound (pid # word_of_nat (length args) # args) (sh_max (shm w)) P minit"
    and w': "progs w' = (progs w)(a \<mapsto> program_init V (file_text P tk) pid args junk jc jp)" "shm w' = shm w"
  shows "wsim hinv hmap rinv rlist K (J(a \<mapsto> (pid # word_of_nat (length args) # args, P, tk, minit))) w'"
proof -
  have m: "shm_ok hinv hmap (shm w)" using w by (simp add: wsim_def)
  note n1 = new_job(1) [where k = "a \<in> K", OF m ok so, where junk = junk and jc = jc and jp = jp]
  note n2 = new_job(2) [OF m ok so, where junk = junk and jc = jc and jp = jp]
  show ?thesis
    unfolding wsim_def w'
  proof (intro conjI allI impI)
    show "shm_ok hinv hmap (shm w)" by (rule m)
    show "dom (J(a \<mapsto> (pid # word_of_nat (length args) # args, P, tk, minit))) = dom ((progs w)(a \<mapsto> program_init V (file_text P tk) pid args junk jc jp))"
      using w by (simp add: wsim_def)
    show "jsim hinv hmap rinv rlist (b \<in> K) j (load_prog q (shm w))"
      if "((progs w)(a \<mapsto> program_init V (file_text P tk) pid args junk jc jp)) b = Some q"
        "(J(a \<mapsto> (pid # word_of_nat (length args) # args, P, tk, minit))) b = Some j" for b q j
    proof (cases "b = a")
      case True
      with that n1 show ?thesis by simp
    next
      case False
      with that have "progs w b = Some q" "J b = Some j" by simp_all
      with w show ?thesis unfolding wsim_def by blast
    qed
    show "owned (hmap (vartable q)) \<inter> owned (hmap (vartable q')) = {}"
      if "((progs w)(a \<mapsto> program_init V (file_text P tk) pid args junk jc jp)) b = Some q"
        "((progs w)(a \<mapsto> program_init V (file_text P tk) pid args junk jc jp)) c = Some q'" "b \<noteq> c" for b c q q'
      using that n2 w unfolding wsim_def by (cases "b = a"; cases "c = a") auto
  qed
qed

end

text \<open>A program is killed between two visits.\<close>

lemma wsim_killed:
  assumes w: "wsim hinv hmap rinv rlist K J w" and a: "a \<in> K" "progs w a = Some p"
    and w': "progs w' = (progs w)(a \<mapsto> p\<lparr>pstate := FINISHED, error_flag := True\<rparr>)" "shm w' = shm w"
  shows "wsim hinv hmap rinv rlist K J w'"
proof -
  let ?p = "p\<lparr>pstate := FINISHED, error_flag := True\<rparr>"
  have dead: "jsim hinv hmap rinv rlist True j (load_prog ?p (shm w))" if j: "jsim hinv hmap rinv rlist True j (load_prog p (shm w))" for j
  proof -
    obtain av P tk m where e: "j = (av, P, tk, m)" by (cases j) auto
    have f: "load_prog ?p (shm w) = (load_prog p (shm w))\<lparr>pstate := FINISHED, error_flag := True\<rparr>"
      by (simp add: load_prog_def program_s.defs)
    have "idle hinv hmap rinv rlist (load_prog ?p (shm w))"
      using jsim_idle [OF j] by (auto simp: f idle_def good_def heap_ok_def ring_is_def)
    then show ?thesis using j by (simp add: e f dead_def)
  qed
  show ?thesis
    unfolding wsim_def w'
  proof (intro conjI allI impI)
    show "shm_ok hinv hmap (shm w)" "dom J = dom ((progs w)(a \<mapsto> ?p))" using w a(2) by (auto simp: wsim_def)
    show "jsim hinv hmap rinv rlist (b \<in> K) j (load_prog q (shm w))"
      if "((progs w)(a \<mapsto> ?p)) b = Some q" "J b = Some j" for b q j
    proof (cases "b = a")
      case True
      have "jsim hinv hmap rinv rlist (a \<in> K) j (load_prog p (shm w))" using w a(2) that(2) True unfolding wsim_def by blast
      then show ?thesis using dead that(1) True a(1) by simp
    next
      case False
      then have "progs w b = Some q" using that(1) by simp
      with w that(2) show ?thesis unfolding wsim_def by blast
    qed
    show "owned (hmap (vartable q)) \<inter> owned (hmap (vartable q')) = {}"
      if "((progs w)(a \<mapsto> ?p)) b = Some q" "((progs w)(a \<mapsto> ?p)) c = Some q'" "b \<noteq> c" for b c q q'
    proof -
      have "\<exists>r. progs w b = Some r \<and> vartable q = vartable r" "\<exists>r. progs w c = Some r \<and> vartable q' = vartable r"
        using that a(2) by (auto split: if_splits)
      then obtain r r' where r: "progs w b = Some r" "vartable q = vartable r" "progs w c = Some r'" "vartable q' = vartable r'" by blast
      then show ?thesis using w that(3) unfolding wsim_def by metis
    qed
  qed
qed

lemma wsim_start: "shm_ok hinv hmap m \<Longrightarrow> wsim hinv hmap rinv rlist K Map.empty (start_world L n m)"
  by (simp add: wsim_def start_world_def)

end
