(* ===== verification/Process.thy ===== *)
theory Process imports WorldSim RunProps ScanSafe begin

section \<open>The whole process\<close>

text \<open>
  What is typed at the prompt and what the threads of the runtimes do, in any order: programs are started, listed and killed while others
  run.  Every program behaves as its machine, whatever the others do.
\<close>

subsection \<open>What happens\<close>

text \<open>
  A thread makes a step, with a random number, readings of its clock, and fuel for the lines of one visit; or a line of words is
  typed, with blanks and empty lines in front of it.  The rest of \<open>Typed\<close> is what the fields of a new program hold before they are set.
\<close>

datatype action =
    Thread nat "64 word" "nat \<Rightarrow> timespec \<times> timespec" nat
  | Typed string "(string \<times> string) list" "nat \<Rightarrow> char" "int \<times> int \<times> int" "addr \<times> size_t"

fun act :: "('h, 'p, 'r) voids \<Rightarrow> 'l cdll \<Rightarrow> (string \<Rightarrow> string option) \<Rightarrow> action \<Rightarrow> ('h, 'r, 'l) world \<Rightarrow> ('h, 'r, 'l) world res" where
  "act V L fs (Thread i rnd clk fuel) w = rt_tick V L rnd clk fuel i w"
| "act V L fs (Typed pre ws junk jc jp) w = bnd (shell_round V L fs junk jc jp (pre @ spaced ws @ [CHR 0x0A]) w) (\<lambda>(q, inp, w). Ok w)"

fun acts :: "('h, 'p, 'r) voids \<Rightarrow> 'l cdll \<Rightarrow> (string \<Rightarrow> string option) \<Rightarrow> action list \<Rightarrow> ('h, 'r, 'l) world \<Rightarrow> ('h, 'r, 'l) world res" where
  "acts V L fs [] w = Ok w"
| "acts V L fs (a # as) w = bnd (act V L fs a w) (acts V L fs as)"

text \<open>The files that can be run, by their lines; the words of a \<open>run\<close> command that name a program and its arguments.\<close>

type_synonym files = "string \<Rightarrow> (sline list \<times> string) option"

definition texts :: "files \<Rightarrow> string \<Rightarrow> string option" where
  "texts F f = map_option (\<lambda>(P, tk). file_text P tk) (F f)"

fun run_words :: "files \<Rightarrow> string list \<Rightarrow> (c_int list \<times> sline list \<times> string) option" where
  "run_words F (c # f # xs) =
     (if (c = ''r'' \<or> c = ''run'') \<and> list_all num_word xs
      then map_option (\<lambda>(P, tk). (map (\<lambda>x. word_of_int (strtol10 x)) xs, P, tk)) (F f) else None)"
| "run_words F _ = None"

text \<open>The program that an action starts as the one at address \<open>k\<close>, which is also its id.\<close>

fun new_job :: "files \<Rightarrow> nat \<Rightarrow> action \<Rightarrow> (c_int list \<times> sline list \<times> string) option" where
  "new_job F k (Thread i rnd clk fuel) = None"
| "new_job F k (Typed pre ws junk jc jp) =
     map_option (\<lambda>(xs, P, tk). (word_of_nat k # word_of_nat (length xs) # xs, P, tk)) (run_words F (map fst ws))"

fun jobs_of :: "files \<Rightarrow> nat \<Rightarrow> action list \<Rightarrow> addr \<Rightarrow> (c_int list \<times> sline list \<times> string) option" where
  "jobs_of F k [] = Map.empty"
| "jobs_of F k (a # as) = (case new_job F k a of None \<Rightarrow> jobs_of F k as | Some j \<Rightarrow> (jobs_of F (Suc k) as)(k \<mapsto> j))"

text \<open>The ids that are killed.\<close>

fun kill_words :: "string list \<Rightarrow> nat list" where
  "kill_words (c # x # xs) = (if (c = ''k'' \<or> c = ''kill'') \<and> num_word x then [nat (strtol10 x)] else [])"
| "kill_words _ = []"

fun kills :: "action list \<Rightarrow> nat list" where
  "kills [] = []"
| "kills (Typed pre ws junk jc jp # as) = kill_words (map fst ws) @ kills as"
| "kills (_ # as) = kills as"

text \<open>
  What is asked of an action: of a thread's step what \<open>tick_ok\<close> says; of a line that it does not leave the shell, that no runtime
  is in the window of \<open>attach_race\<close>, and, if it starts a program, that the program's machine has a step on every line.
\<close>

fun typed_ok :: "files \<Rightarrow> nat \<Rightarrow> nat \<Rightarrow> action \<Rightarrow> bool" where
  "typed_ok F mm k (Thread i rnd clk fuel) \<longleftrightarrow> False"
| "typed_ok F mm k (Typed pre ws junk jc jp) \<longleftrightarrow> list_all blank pre \<and> spaced_ok ws \<and> ws \<noteq> [] \<and> fst (hd ws) \<notin> {''q'', ''exit'', ''quit''} \<and>
     (case new_job F k (Typed pre ws junk jc jp) of None \<Rightarrow> True | Some (av, P, tk) \<Rightarrow> prog_ok P tk \<and> sound av mm P minit)"

fun act_ok :: "'l cdll \<Rightarrow> files \<Rightarrow> action \<Rightarrow> ('h, 'r, 'l) world \<Rightarrow> bool" where
  "act_ok L F (Thread i rnd clk fuel) w \<longleftrightarrow> i < length (rts w) \<and> tick_ok rnd clk fuel"
| "act_ok L F (Typed pre ws junk jc jp) w \<longleftrightarrow> typed_ok F (sh_max (shm w)) (next_prog w) (Typed pre ws junk jc jp) \<and> quiet_world L w"

fun acts_ok :: "('h, 'p, 'r) voids \<Rightarrow> 'l cdll \<Rightarrow> files \<Rightarrow> action list \<Rightarrow> ('h, 'r, 'l) world \<Rightarrow> bool" where
  "acts_ok V L F [] w \<longleftrightarrow> True"
| "acts_ok V L F (a # as) w \<longleftrightarrow> act_ok L F a w \<and> (case act V L (texts F) a w of Ok w' \<Rightarrow> acts_ok V L F as w' | _ \<Rightarrow> True)"

subsection \<open>The commands\<close>

lemma strtok_spaced: "spaced_ok ((x, g) # ws) \<Longrightarrow> strtok_r (one_blank ((x, g) # ws)) = (Some x, one_blank ws)"
  using strtok_word [of x] by (cases "g = []") (auto simp: one_blank_def)

lemma strtok_nothing: "strtok_r (one_blank []) = (None, [])"
  by (simp add: one_blank_def strtok_r_def)

lemma shell_round_typed:
  assumes "list_all blank pre" and "spaced_ok ((c, g) # ws)" and "c \<notin> {''q'', ''exit'', ''quit''}"
  shows "bnd (shell_round V L fs junk jc jp (pre @ spaced ((c, g) # ws) @ [CHR 0x0A]) w) (\<lambda>(q, inp, w). Ok w) =
    (let saved = one_blank ws; w = w\<lparr>console := console w @ replicate (count_list pre (CHR 0x0A)) EmptyInput\<rparr> in
     if c = ''k'' \<or> c = ''kill'' then kill_command L saved w
     else if c = ''r'' \<or> c = ''run'' then run_command V L fs junk jc jp saved w
     else if c = ''l'' \<or> c = ''list'' then list_loop L [0..<length (rts w)] w
     else if c = ''h'' \<or> c = ''help'' then Ok (say Help w) else Ok (say Unrecognized w))"
proof -
  have b: "bnd X Ok = X" for X :: "('a, 'b, 'c) world res" by (cases X) simp_all
  obtain t where t: "read_line (pre @ spaced ((c, g) # ws) @ CHR 0x0A # []) = Ok (Some t, replicate (count_list pre (CHR 0x0A)) EmptyInput, [])"
    "t = one_blank ((c, g) # ws)" using line_words_read [of pre "(c, g) # ws" "[]"] assms by blast
  show ?thesis
    using t strtok_spaced [OF assms(2)] assms(3) by (simp add: shell_round_def command_def b Let_def)
qed

text \<open>No runtime has been stopped.  \<open>d\<close> visits are enough for a whole program.\<close>

definition all_run :: "('h, 'r, 'l) world \<Rightarrow> bool" where
  "all_run w \<longleftrightarrow> (\<forall>rt \<in> set (rts w). running rt \<and> rt_pc rt \<noteq> RtDone)"

definition lasts :: "c_int list \<Rightarrow> nat \<Rightarrow> sline list \<Rightarrow> nat \<Rightarrow> bool" where
  "lasts av mm P d \<longleftrightarrow> (\<exists>N m. mgo av mm P N minit = Some m \<and> m_mode m = Ended \<and> mvisits av mm P N minit \<le> d)"

lemma lasts_enough: "lasts av mm P d \<Longrightarrow> enough av mm P minit p d"
proof -
  have "todo av mm P N minit p = mvisits av mm P N minit" for N
    by (cases N) (simp_all add: todo_def due_def mcost_def minit_def)
  then show "lasts av mm P d \<Longrightarrow> enough av mm P minit p d" by (simp add: lasts_def enough_def)
qed

text \<open>
  The invariant of the process: the ids are the addresses, every program stands for its job, and \<open>D a\<close>, if it is given, bounds the
  visits that the program \<open>a\<close> needs.
\<close>

definition pinv :: "('l \<Rightarrow> bool) \<Rightarrow> ('l \<Rightarrow> nodes) \<Rightarrow> ('h \<Rightarrow> bool) \<Rightarrow> ('h \<Rightarrow> pairs) \<Rightarrow> ('r \<Rightarrow> bool) \<Rightarrow> ('r \<Rightarrow> addr list) \<Rightarrow> addr set \<Rightarrow>
    (addr \<Rightarrow> nat option) \<Rightarrow> (addr \<Rightarrow> job option) \<Rightarrow> ('h, 'r, 'l) world \<Rightarrow> bool" where
  "pinv linv lst hinv hmap rinv rlist K D J w \<longleftrightarrow> winv linv lst w \<and> wsim hinv hmap rinv rlist K J w \<and> wdue J w D \<and> all_run w \<and> rts w \<noteq> [] \<and> 0 < next_prog w \<and>
     id_cnt w = word_of_nat (next_prog w) \<and> (\<forall>a av P tk m. J a = Some (av, P, tk, m) \<longrightarrow> hd av = word_of_nat a)"

lemma pinvD:
  assumes "pinv linv lst hinv hmap rinv rlist K D J w"
  shows "winv linv lst w" "wsim hinv hmap rinv rlist K J w" "rts w \<noteq> []" "0 < next_prog w" "id_cnt w = word_of_nat (next_prog w)"
    "progs w a = Some p \<Longrightarrow> argv p \<noteq> [] \<and> hd (argv p) = word_of_nat a \<and> pstate p \<noteq> BLOCKED \<and> 0 < a \<and> a < next_prog w" "wdue J w D" "all_run w"
proof -
  show "winv linv lst w" "wsim hinv hmap rinv rlist K J w" "rts w \<noteq> []" "0 < next_prog w" "id_cnt w = word_of_nat (next_prog w)"
    "wdue J w D" "all_run w" using assms by (simp_all add: pinv_def)
  assume p: "progs w a = Some p"
  then have n: "0 < a \<and> a < next_prog w" using assms unfolding pinv_def winv_def by (auto simp: dom_def)
  obtain j where j: "J a = Some j" using assms p unfolding pinv_def wsim_def by blast
  then have js: "jsim hinv hmap rinv rlist (a \<in> K) j (load_prog p (shm w))" using assms p unfolding pinv_def wsim_def by blast
  obtain av P tk m where e: "j = (av, P, tk, m)" by (cases j) auto
  then have "hd av = word_of_nat a" using assms j by (simp add: pinv_def)
  moreover have "argv p = av" using js by (simp add: e)
  moreover have "argv p \<noteq> []" "pstate p \<noteq> BLOCKED" using jsim_idle [OF js] by (simp_all add: idle_def)
  ultimately show "argv p \<noteq> [] \<and> hd (argv p) = word_of_nat a \<and> pstate p \<noteq> BLOCKED \<and> 0 < a \<and> a < next_prog w" using n by simp
qed

lemma running_set:
  assumes "\<forall>rt \<in> set (rts w). running rt \<and> rt_pc rt \<noteq> RtDone" and "running rt'" and "rt_pc rt' \<noteq> RtDone"
  shows "\<forall>rt \<in> set ((rts w)[i := rt']). running rt \<and> rt_pc rt \<noteq> RtDone"
  using assms set_update_subset_insert [of "rts w" i rt'] by blast

lemma decide_rt:
  assumes "rt_decide V L i a w = Ok w'"
  shows "\<exists>c n l pc. rts w' = (rts w)[i := (rts w ! i)\<lparr>curr := c, program_cnt := n, program_list := l, rt_pc := pc\<rparr>] \<and> (pc = RtCheck \<or> pc = RtLoop)"
proof -
  obtain p c where pc: "progs w a = Some p" "cd_nxt L (program_list (rts w ! i)) (curr (rts w ! i)) = Some c"
    using assms by (auto simp: rt_decide_def Let_def split: option.splits)
  show ?thesis
  proof (cases "pstate p = FINISHED \<or> error_flag p")
    case True
    then obtain d where "rts w' = (rts w)[i := (rts w ! i)\<lparr>curr := c, program_cnt := program_cnt (rts w ! i) - 1,
        program_list := cd_delete L (program_list (rts w ! i)) d, rt_pc := RtCheck\<rparr>]"
      using assms pc by (auto simp: rt_decide_def Let_def bnd_eq_Ok split: option.splits)
    then show ?thesis by blast
  next
    case False
    then have "rts w' = (rts w)[i := (rts w ! i)\<lparr>curr := c, program_cnt := program_cnt (rts w ! i), program_list := program_list (rts w ! i), rt_pc := RtLoop\<rparr>]"
      using assms pc by (auto simp: rt_decide_def Let_def)
    then show ?thesis by blast
  qed
qed

lemma tick_run:
  assumes r: "all_run w" and i: "i < length (rts w)" and ok: "rt_tick V L rnd clk fuel i w = Ok w'"
  shows "all_run w'"
proof -
  have run: "running (rts w ! i)" "rt_pc (rts w ! i) \<noteq> RtDone" using r i by (simp_all add: all_run_def)
  have step: "all_run w'" if "rts w' = (rts w)[i := rt']" "running rt'" "rt_pc rt' \<noteq> RtDone" for rt'
    unfolding all_run_def that(1) by (rule running_set [OF r [unfolded all_run_def] that(2,3)])
  show ?thesis
  proof (cases "rt_pc (rts w ! i)")
    case RtTop
    show ?thesis by (rule step [of "(rts w ! i)\<lparr>rt_pc := RtWait\<rparr>"]) (use ok RtTop run in \<open>auto simp: rt_tick_def Let_def\<close>)
  next
    case RtWait
    then have "rts w' = (rts w)[i := (rts w ! i)\<lparr>rt_pc := RtAsleep\<rparr>] \<or>
        rts w' = (rts w)[i := (rts w ! i)\<lparr>curr := cd_head L (program_list (rts w ! i)), rt_pc := RtLoop\<rparr>]"
      using ok by (auto simp: rt_tick_def Let_def split: if_splits)
    then show ?thesis using step [of "(rts w ! i)\<lparr>rt_pc := RtAsleep\<rparr>"]
        step [of "(rts w ! i)\<lparr>curr := cd_head L (program_list (rts w ! i)), rt_pc := RtLoop\<rparr>"] run by auto
  next
    case RtAsleep
    then show ?thesis using ok r by (simp add: rt_tick_def Let_def)
  next
    case RtLoop
    have "\<exists>a. rts w' = (rts w)[i := (rts w ! i)\<lparr>rt_pc := RtTop\<rparr>] \<or> rts w' = (rts w)[i := (rts w ! i)\<lparr>rt_pc := RtDecide a\<rparr>]"
    proof (cases "curr (rts w ! i) = NULL \<or> \<not> running (rts w ! i)")
      case True
      then show ?thesis using ok RtLoop by (auto simp: rt_tick_def Let_def)
    next
      case False
      then have "rt_visit V L rnd clk fuel i w = Ok w'" using ok RtLoop by (simp add: rt_tick_def Let_def)
      then show ?thesis by (auto simp: rt_visit_def Let_def bnd_eq_Ok split: option.splits)
    qed
    then obtain a where "rts w' = (rts w)[i := (rts w ! i)\<lparr>rt_pc := RtTop\<rparr>] \<or> rts w' = (rts w)[i := (rts w ! i)\<lparr>rt_pc := RtDecide a\<rparr>]" by blast
    then show ?thesis using step [of "(rts w ! i)\<lparr>rt_pc := RtTop\<rparr>"] step [of "(rts w ! i)\<lparr>rt_pc := RtDecide a\<rparr>"] run by auto
  next
    case (RtDecide a)
    then obtain c n l pc where "rts w' = (rts w)[i := (rts w ! i)\<lparr>curr := c, program_cnt := n, program_list := l, rt_pc := pc\<rparr>]" "pc = RtCheck \<or> pc = RtLoop"
      using decide_rt [of V L i a w w'] ok by (auto simp: rt_tick_def Let_def)
    then show ?thesis using step [of "(rts w ! i)\<lparr>curr := c, program_cnt := n, program_list := l, rt_pc := pc\<rparr>"] run by auto
  next
    case RtCheck
    show ?thesis
      by (rule step [of "(rts w ! i)\<lparr>curr := if cd_head L (program_list (rts w ! i)) = NULL then NULL else curr (rts w ! i), rt_pc := RtLoop\<rparr>"])
        (use ok RtCheck run in \<open>auto simp: rt_tick_def Let_def\<close>)
  qed (use run in simp)
qed

lemma wdue_killed:
  assumes D: "wdue J w D" and w': "progs w' = (progs w)(a \<mapsto> p\<lparr>pstate := FINISHED, error_flag := True\<rparr>)" "shm w' = shm w"
  shows "wdue J w' D"
proof -
  have "pstate q = FINISHED \<or> enough av (sh_max (shm w)) P m q d"
    if "((progs w)(a \<mapsto> p\<lparr>pstate := FINISHED, error_flag := True\<rparr>)) b = Some q" "J b = Some (av, P, tk, m)" "D b = Some d" for b q av P tk m d
  proof (cases "b = a")
    case False
    then show ?thesis using that wdueD [OF D, of b q av P tk m d] by simp
  qed (use that in auto)
  then show ?thesis unfolding wdue_def w' by blast
qed

lemma wdue_new:
  assumes D: "wdue J w D" and e: "\<And>d. D a = Some d \<Longrightarrow> lasts av (sh_max (shm w)) P d"
    and w': "progs w' = (progs w)(a \<mapsto> p)" "shm w' = shm w"
  shows "wdue (J(a \<mapsto> (av, P, tk, minit))) w' D"
proof -
  have "pstate q = FINISHED \<or> enough av' (sh_max (shm w)) P' m q d"
    if "((progs w)(a \<mapsto> p)) b = Some q" "(J(a \<mapsto> (av, P, tk, minit))) b = Some (av', P', tk', m)" "D b = Some d" for b q av' P' tk' m d
  proof (cases "b = a")
    case True
    then show ?thesis using that lasts_enough [OF e, of d p] by auto
  next
    case False
    then show ?thesis using that wdueD [OF D, of b q av' P' tk' m d] by simp
  qed
  then show ?thesis unfolding wdue_def w' by blast
qed

lemma pinv_console: "pinv linv lst hinv hmap rinv rlist K D J (w\<lparr>console := c\<rparr>) = pinv linv lst hinv hmap rinv rlist K D J w"
  by (simp add: pinv_def winv_def wsim_def wdue_def all_run_def)

lemma word_of_nat_eq: "a < 2 ^ 31 \<Longrightarrow> b < 2 ^ 31 \<Longrightarrow> (word_of_nat a :: c_int) = word_of_nat b \<longleftrightarrow> a = b"
  by (simp add: word_of_nat_eq_iff take_bit_nat_eq_self)

lemma word_of_nat_minus: "a < 2 ^ 31 \<Longrightarrow> (word_of_nat a :: c_int) \<noteq> -1"
proof -
  assume a: "a < 2 ^ 31"
  have "(-1 :: c_int) = word_of_nat (2 ^ 32 - 1)" by simp
  moreover have "take_bit 32 a \<noteq> take_bit 32 (2 ^ 32 - 1 :: nat)" using a by (simp add: take_bit_nat_eq_self)
  ultimately show ?thesis by (simp only: word_of_nat_eq_iff) simp
qed

lemma num_word_value: "num_word x \<Longrightarrow> 0 \<le> strtol10 x \<and> strtol10 x < 2 ^ 31"
proof -
  assume n: "num_word x"
  then have "0 \<le> dec 0 x \<and> dec 0 x < 10 ^ length x" by (intro dec_bound) (simp add: num_word_def all_digits_def)
  moreover have "length x \<le> 8" using n by (simp add: num_word_def limit_defs)
  then have "(10 :: int) ^ length x \<le> 10 ^ 8" by (intro power_increasing) simp_all
  ultimately show ?thesis by (simp add: strtol10_def dec_def)
qed

text \<open>A command that starts nothing.\<close>

definition quiet_move :: "('h, 'r, 'l) world \<Rightarrow> ('h, 'r, 'l) world \<Rightarrow> bool" where
  "quiet_move w w' \<longleftrightarrow> rts w' = rts w \<and> next_prog w' = next_prog w \<and> shm w' = shm w"

lemma quiet_console: "quiet_move w (w\<lparr>console := c\<rparr>)" "quiet_move w (say e w)" "quiet_move w w"
  by (simp_all add: quiet_move_def say_def)

lemma kill_moves:
  assumes cd: "cdlist L linv lst" and inv: "pinv linv lst hinv hmap rinv rlist K D J w" and n: "next_prog w \<le> 2 ^ 31"
    and ws: "spaced_ok ws" "set (kill_words (''k'' # map fst ws)) \<subseteq> K"
  shows "\<exists>w'. kill_command L (one_blank ws) w = Ok w' \<and> pinv linv lst hinv hmap rinv rlist K D J w' \<and> quiet_move w w'"
proof -
  have say: "pinv linv lst hinv hmap rinv rlist K D J (say e w)" for e using inv by (simp add: say_def pinv_console)
  show ?thesis
  proof (cases ws)
    case Nil
    then show ?thesis using say quiet_console by (simp add: kill_command_def strtok_nothing)
  next
    case (Cons z zs)
    obtain x g where z: "z = (x, g)" by (cases z)
    have st: "strtok_r (one_blank ws) = (Some x, one_blank zs)" using strtok_spaced ws(1) Cons z by simp
    show ?thesis
    proof (cases "num_word x")
      case False
      then show ?thesis using say quiet_console by (auto simp: kill_command_def st num_word_def)
    next
      case True
      let ?i = "word_of_int (strtol10 x) :: c_int" and ?k = "nat (strtol10 x)"
      note v = num_word_value [OF True]
      have i: "?i = word_of_nat ?k" "?k < 2 ^ 31" using v by (simp_all add: nat_less_iff)
      have K: "?k \<in> K" using ws(2) Cons z True by simp
      have kc: "kill_command L (one_blank ws) w = mark_program_as_finished L ?i w"
        using True by (simp add: kill_command_def st num_word_def)
      note D = pinvD [OF inv]
      have ids: "argv p \<noteq> [] \<and> hd (argv p) \<noteq> -1" if "progs w a = Some p" for a p
        using D(6) [OF that] n word_of_nat_minus [of a] by simp
      have uniq: "a = b" if "progs w a = Some p" "progs w b = Some q" "hd (argv p) = hd (argv q)" for a b p q
        using D(6) [OF that(1)] D(6) [OF that(2)] that(3) n word_of_nat_eq [of a b] by simp
      have ne: "?i \<noteq> -1" using word_of_nat_minus [OF i(2)] i(1) by simp
      have k: "case find (\<lambda>a. hd (argv (the (progs w a))) = ?i) (concat (map (rt_progs lst) (rts w))) of
          None \<Rightarrow> mark_program_as_finished L ?i w = Ok (say (NoSuchId (sint ?i)) w)
        | Some a \<Rightarrow> \<exists>p. progs w a = Some p \<and> hd (argv p) = ?i \<and> mark_program_as_finished L ?i w =
            bnd (if pstate p = BLOCKED then set_count (sem p) (blocked_idx p) 1 (load_prog p (shm w)) else Ok (load_prog p (shm w)))
              (\<lambda>s. Ok (w\<lparr>progs := (progs w)(a \<mapsto> p\<lparr>pstate := FINISHED, error_flag := True\<rparr>), shm := shared_of s\<rparr>))"
        by (rule mark_finds [OF cd D(1) _ _ ne]) (fact ids, fact uniq)
      show ?thesis
      proof (cases "find (\<lambda>a. hd (argv (the (progs w a))) = ?i) (concat (map (rt_progs lst) (rts w)))")
        case None
        then show ?thesis using k kc say quiet_console by simp
      next
        case (Some a)
        obtain p where p: "progs w a = Some p" "hd (argv p) = ?i" "mark_program_as_finished L ?i w =
          bnd (if pstate p = BLOCKED then set_count (sem p) (blocked_idx p) 1 (load_prog p (shm w)) else Ok (load_prog p (shm w)))
            (\<lambda>s. Ok (w\<lparr>progs := (progs w)(a \<mapsto> p\<lparr>pstate := FINISHED, error_flag := True\<rparr>), shm := shared_of s\<rparr>))"
          using k [unfolded Some option.case] by (elim exE conjE)
        let ?w = "w\<lparr>progs := (progs w)(a \<mapsto> p\<lparr>pstate := FINISHED, error_flag := True\<rparr>)\<rparr>"
        have "hd (argv p) = word_of_nat a" "a < 2 ^ 31" using D(6) [OF p(1)] n by simp_all
        then have "a = ?k" using word_of_nat_eq [OF _ i(2), of a] p(2) i(1) by metis
        then have a: "a \<in> K" using K by simp
        have sh: "shared_of (load_prog p m) = m" for m by (simp add: shared_of_def load_prog_def program_s.defs)
        have w': "mark_program_as_finished L ?i w = Ok ?w" using p(3) D(6) [OF p(1)] by (simp add: sh)
        have "wsim hinv hmap rinv rlist K J ?w" by (rule wsim_killed [OF D(2) a p(1)]) simp_all
        moreover have "dom ((progs w)(a \<mapsto> p\<lparr>pstate := FINISHED, error_flag := True\<rparr>)) = dom (progs w)" using p(1) by auto
        then have "winv linv lst ?w" using D(1) by (simp add: winv_def)
        moreover have "wdue J ?w D" by (rule wdue_killed [OF D(7)]) simp_all
        ultimately have "pinv linv lst hinv hmap rinv rlist K D J ?w" using inv by (simp add: pinv_def all_run_def)
        then show ?thesis using kc w' by (simp add: quiet_move_def)
      qed
    qed
  qed
qed

lemma run_args:
  assumes "spaced_ok ws"
  shows "parse_args (one_blank ws) [] 12 = Ok (case find (\<lambda>x. \<not> num_word x) (map fst ws) of
     None \<Rightarrow> (Some (map (\<lambda>x. word_of_int (strtol10 x)) (map fst ws)), [])
   | Some x \<Rightarrow> (None, [if all_digits x then IntTooLong else RunHelp]))"
  using parse_args_tokens [of "[]" 12 "one_blank ws"] unfolding append_Nil all_tokens_spaced [OF assms] by simp

lemma run_args_ok:
  assumes "spaced_ok ws" and "list_all num_word (map fst ws)"
  shows "parse_args (one_blank ws) [] 12 = Ok (Some (map (\<lambda>x. word_of_int (strtol10 x)) (map fst ws)), [])"
proof -
  have "find (\<lambda>x. \<not> num_word x) (map fst ws) = None" using assms(2) by (auto simp: find_None_iff list_all_iff)
  then show ?thesis using run_args [OF assms(1)] by (simp del: map_map)
qed

lemma run_nothing:
  assumes ws: "spaced_ok ws" and no: "run_words F (''r'' # map fst ws) = None"
  shows "\<exists>c. run_command V L (texts F) junk jc jp (one_blank ws) w = Ok (w\<lparr>console := c\<rparr>)"
proof (cases ws)
  case Nil
  then show ?thesis by (simp add: run_command_def strtok_nothing say_def) blast
next
  case (Cons z zs)
  obtain f g where z: "z = (f, g)" by (cases z)
  have st: "strtok_r (one_blank ws) = (Some f, one_blank zs)" using strtok_spaced ws Cons z by simp
  show ?thesis
  proof (cases "F f")
    case None
    then show ?thesis by (simp add: run_command_def st texts_def say_def) blast
  next
    case (Some x)
    then have "\<not> list_all num_word (map fst zs)" using no Cons z by auto
    then have "find (\<lambda>x. \<not> num_word x) (map fst zs) \<noteq> None" by (auto simp: find_None_iff list_all_iff)
    then obtain y where "find (\<lambda>x. \<not> num_word x) (map fst zs) = Some y" by blast
    moreover have "spaced_ok zs" using ws Cons z by simp
    ultimately have "parse_args (one_blank zs) [] 12 = Ok (None, [if all_digits y then IntTooLong else RunHelp])"
      using run_args [of zs] by simp
    then show ?thesis using Some by (simp add: run_command_def st texts_def split: prod.splits) blast
  qed
qed

lemma list_moves:
  assumes cd: "cdlist L linv lst" and inv: "pinv linv lst hinv hmap rinv rlist K D J w" and q: "quiet_world L w"
  shows "\<exists>c. list_loop L [0..<length (rts w)] w = Ok (w\<lparr>console := c\<rparr>)"
  using list_prints [OF cd pinvD(1) [OF inv] q, of "[0..<length (rts w)]"] pinvD(6) [OF inv] by (auto simp: list_all_iff)

subsection \<open>One action\<close>

definition job_at :: "nat \<Rightarrow> (c_int list \<times> sline list \<times> string) option \<Rightarrow> (addr \<Rightarrow> job option) \<Rightarrow> addr \<Rightarrow> job option" where
  "job_at k j J = (case j of None \<Rightarrow> J | Some (av, P, tk) \<Rightarrow> J(k \<mapsto> (av, P, tk, minit)))"

definition pgoes :: "('l \<Rightarrow> bool) \<Rightarrow> ('l \<Rightarrow> nodes) \<Rightarrow> ('h \<Rightarrow> bool) \<Rightarrow> ('h \<Rightarrow> pairs) \<Rightarrow> ('r \<Rightarrow> bool) \<Rightarrow> ('r \<Rightarrow> addr list) \<Rightarrow> addr set \<Rightarrow>
    (addr \<Rightarrow> nat option) \<Rightarrow> (addr \<Rightarrow> job option) \<Rightarrow> ('h, 'r, 'l) world \<Rightarrow> ('h, 'r, 'l) world \<Rightarrow> bool" where
  "pgoes linv lst hinv hmap rinv rlist K D J w w' \<longleftrightarrow> (\<exists>cs J'. pinv linv lst hinv hmap rinv rlist K D J' w' \<and> jobs_go K (sh_max (shm w)) cs J J' \<and>
     sh_out (shm w') = sh_out (shm w) @ concat (map snd cs) \<and> sh_max (shm w') = sh_max (shm w) \<and> length (rts w') = length (rts w))"

lemma jobs_ids:
  assumes go: "jobs_go K mm cs J J'" and ids: "\<forall>a av P tk m. J a = Some (av, P, tk, m) \<longrightarrow> hd av = word_of_nat a" and j: "J' a = Some (av, P, tk, m)"
  shows "hd av = word_of_nat a"
proof -
  have "a \<in> dom J" by (rule subsetD [OF jobs_dom(1) [OF go] domI [of J', OF j]])
  then obtain av0 P0 tk0 m0 where j0: "J a = Some (av0, P0, tk0, m0)" by auto
  obtain k m' where "J' a = Some (av0, P0, tk0, m') \<or> J' a = None \<and> (m_mode m' = Ended \<or> a \<in> K)" by (rule jobs_goD [OF go j0])
  then have "av0 = av" using j by auto
  then show ?thesis using ids j0 by blast
qed

lemma pgoes_quiet: "pinv linv lst hinv hmap rinv rlist K D J w' \<Longrightarrow> quiet_move w w' \<Longrightarrow> pgoes linv lst hinv hmap rinv rlist K D J w w'"
  unfolding pgoes_def using jobs_refl [of K "sh_max (shm w)" J] by (intro exI [of _ "[]"] exI [of _ J]) (simp add: quiet_move_def)

lemma tick_same: "rt_tick V L rnd clk fuel i w = Ok w' \<Longrightarrow> length (rts w') = length (rts w) \<and> next_prog w' = next_prog w \<and> id_cnt w' = id_cnt w"
  by (auto simp: rt_tick_def rt_visit_def rt_decide_def Let_def bnd_eq_Ok split: rt_pc.splits option.splits if_splits)

lemma thread_moves:
  assumes lib: "voids_lib V hinv hmap rinv rlist" and cd: "cdlist L linv lst" and inv: "pinv linv lst hinv hmap rinv rlist K D J w"
    and ok: "i < length (rts w)" "tick_ok rnd clk fuel"
  shows "\<exists>w'. rt_tick V L rnd clk fuel i w = Ok w' \<and> pgoes linv lst hinv hmap rinv rlist K D J w w' \<and> next_prog w' = next_prog w"
proof -
  note D = pinvD [OF inv]
  obtain w' where w': "rt_tick V L rnd clk fuel i w = Ok w'" "winv linv lst w'" "wgoes hinv hmap rinv rlist K J w w'"
    using tick_moves [OF lib cd D(1,2) ok] by blast
  obtain cs J' where J': "wsim hinv hmap rinv rlist K J' w'" "jobs_go K (sh_max (shm w)) cs J J'"
    "sh_out (shm w') = sh_out (shm w) @ concat (map snd cs)" "sh_max (shm w') = sh_max (shm w)" "wdue J' w' D"
    using w'(3) D(7) unfolding wgoes_def by blast
  note same = tick_same [OF w'(1)]
  have "\<forall>a av P tk m. J a = Some (av, P, tk, m) \<longrightarrow> hd av = word_of_nat a" using inv unfolding pinv_def by blast
  then have "\<forall>a av P tk m. J' a = Some (av, P, tk, m) \<longrightarrow> hd av = word_of_nat a" using jobs_ids [OF J'(2)] by blast
  then have "pinv linv lst hinv hmap rinv rlist K D J' w'"
    unfolding pinv_def using w'(2) J'(1,5) D(3-5) same tick_run [OF D(8) ok(1) w'(1)] by auto
  then have "pgoes linv lst hinv hmap rinv rlist K D J w w'" unfolding pgoes_def using J'(2-4) same by blast
  then show ?thesis using w'(1) same by blast
qed

text \<open>Where the threads are, but for those that a command may wake.\<close>

abbreviation place :: "'l runtime_s \<Rightarrow> rt_pc" where "place rt \<equiv> woken (rt_pc rt)"

lemma run_moves:
  assumes lib: "voids_lib V hinv hmap rinv rlist" and cd: "cdlist L linv lst" and inv: "pinv linv lst hinv hmap rinv rlist K D J w"
    and n: "next_prog w < 2 ^ 31 - 1" and pre: "list_all blank pre" and ws: "spaced_ok ws" and q: "quiet_world L w"
    and run: "run_words F (map fst ws) = Some (xs, P, tk)"
    and d: "\<And>d. D (next_prog w) = Some d \<Longrightarrow> lasts (word_of_nat (next_prog w) # word_of_nat (length xs) # xs) (sh_max (shm w)) P d"
    and ok: "prog_ok P tk" "sound (word_of_nat (next_prog w) # word_of_nat (length xs) # xs) (sh_max (shm w)) P minit"
  shows "\<exists>w'. act V L (texts F) (Typed pre ws junk jc jp) w = Ok w' \<and> next_prog w' = Suc (next_prog w) \<and> map place (rts w') = map place (rts w) \<and>
    pgoes linv lst hinv hmap rinv rlist K D (J(next_prog w \<mapsto> (word_of_nat (next_prog w) # word_of_nat (length xs) # xs, P, tk, minit))) w w'"
proof -
  obtain c g f g' vs where w: "ws = (c, g) # (f, g') # vs" "c = ''run'' \<or> c = ''r''" "list_all num_word (map fst vs)"
      "xs = map (\<lambda>x. word_of_int (strtol10 x)) (map fst vs)" "F f = Some (P, tk)"
    using run by (cases "(F, map fst ws)" rule: run_words.cases) (auto split: if_splits)
  note D = pinvD [OF inv]
  let ?a = "next_prog w" and ?av = "word_of_nat (next_prog w) # word_of_nat (length xs) # xs"
  have "spaced_ok vs" using ws w(1) by simp
  note pa = run_args_ok [OF this w(3), folded w(4)]
  have id: "sint (id_cnt w) < 2 ^ 31 - 1"
    using n D(5) by (simp add: signed_of_nat signed_take_bit_int_eq_self)
  have t: "texts F f = Some (file_text P tk)" using w(5) by (simp add: texts_def)
  from run_starts [OF cd D(1,3,4) id pre ws [unfolded w(1)] w(2), where fs = "texts F", OF t pa, of V junk jc jp "[]"]
  obtain i l' k w' where w': "shell_round V L (texts F) junk jc jp (pre @ spaced ws @ [CHR 0x0A]) w = Ok (False, [], w')"
    "w' = w\<lparr>progs := (progs w)(next_prog w \<mapsto> program_init V (file_text P tk) (id_cnt w) xs junk jc jp),
        next_prog := Suc (next_prog w), id_cnt := id_cnt w + 1,
        rts := (rts w)[i := (rts w ! i)\<lparr>program_cnt := program_cnt (rts w ! i) + 1, program_list := l',
          rt_pc := woken (rt_pc (rts w ! i))\<rparr>],
        console := console w @ replicate (count_list pre (CHR 0x0A)) EmptyInput\<rparr>"
    unfolding w(1) by auto
  have a: "act V L (texts F) (Typed pre ws junk jc jp) w = Ok w'" using w'(1) by simp
  have "run_command V L (texts F) junk jc jp (one_blank ((f, g') # vs)) (w\<lparr>console := console w @ replicate (count_list pre (CHR 0x0A)) EmptyInput\<rparr>) = Ok w'"
    using a shell_round_typed [of pre c g "(f, g') # vs" V L "texts F" junk jc jp w] pre ws w(1,2) by (auto simp: Let_def)
  note i0 = cdlist.run_inv [OF cd _ _ _ _ this]
  have "winv linv lst w' \<and> length (rts w') = length (rts (w\<lparr>console := console w @ replicate (count_list pre (CHR 0x0A)) EmptyInput\<rparr>)) \<and> 0 < next_prog w'"
    by (rule i0) (use D(1,3,4) q in \<open>simp_all add: quiet_world_def winv_def\<close>)
  then have i': "winv linv lst w'" "length (rts w') = length (rts w)" "0 < next_prog w'" by simp_all
  have nd: "?a \<notin> dom (progs w)" using D(6) by blast
  let ?J = "J(?a \<mapsto> (?av, P, tk, minit))"
  have "wsim hinv hmap rinv rlist K ?J w'"
    by (rule voids_lib.wsim_new [OF lib D(2) nd ok]) (simp_all add: w'(2) D(5))
  moreover have "hd av = word_of_nat a" if "?J a = Some (av, P', tk', m)" for a av P' tk' m
  proof (cases "a = ?a")
    case False
    then have "J a = Some (av, P', tk', m)" using that by simp
    then show ?thesis using inv unfolding pinv_def by blast
  qed (use that in auto)
  moreover have "wdue ?J w' D" by (rule wdue_new [OF D(7) d]) (simp_all add: w'(2))
  moreover have "all_run w'"
  proof (cases "i < length (rts w)")
    case True
    then have "running (rts w ! i)" "woken (rt_pc (rts w ! i)) \<noteq> RtDone" using D(8) by (auto simp: all_run_def woken_def)
    then have "\<forall>rt \<in> set ((rts w)[i := (rts w ! i)\<lparr>program_cnt := program_cnt (rts w ! i) + 1, program_list := l',
          rt_pc := woken (rt_pc (rts w ! i))\<rparr>]). running rt \<and> rt_pc rt \<noteq> RtDone"
      by (intro running_set) (use D(8) in \<open>simp_all add: all_run_def\<close>)
    moreover have "rts w' = (rts w)[i := (rts w ! i)\<lparr>program_cnt := program_cnt (rts w ! i) + 1, program_list := l',
          rt_pc := woken (rt_pc (rts w ! i))\<rparr>]" by (simp add: w'(2))
    ultimately show ?thesis by (simp only: all_run_def)
  next
    case False
    then have "rts w' = rts w" by (simp add: w'(2) list_update_beyond)
    then show ?thesis using D(8) by (simp only: all_run_def)
  qed
  moreover have "rts w' \<noteq> []" using i'(2) D(3) by auto
  moreover have "id_cnt w' = word_of_nat (next_prog w')" by (simp add: w'(2) D(5))
  ultimately have "pinv linv lst hinv hmap rinv rlist K D ?J w'" unfolding pinv_def using i'(1,3) by metis
  then have "pgoes linv lst hinv hmap rinv rlist K D ?J w w'"
    unfolding pgoes_def using jobs_refl [of K "sh_max (shm w)" ?J] by (intro exI [of _ "[]"] exI [of _ ?J]) (simp add: w'(2) i'(2))
  moreover have "map place (rts w') = map place (rts w)"
  proof (rule nth_equalityI)
    show "map place (rts w') ! j = map place (rts w) ! j" if "j < length (map place (rts w'))" for j
      using that by (cases "j = i") (simp_all add: w'(2))
  qed (simp add: w'(2))
  ultimately show ?thesis using a w'(2) by auto
qed

lemma typed_quiet:
  assumes cd: "cdlist L linv lst" and inv: "pinv linv lst hinv hmap rinv rlist K D J w" and n: "next_prog w \<le> 2 ^ 31"
    and ok: "act_ok L F (Typed pre ws junk jc jp) w" and no: "new_job F (next_prog w) (Typed pre ws junk jc jp) = None"
    and K: "set (kill_words (map fst ws)) \<subseteq> K"
  shows "\<exists>w'. act V L (texts F) (Typed pre ws junk jc jp) w = Ok w' \<and> pinv linv lst hinv hmap rinv rlist K D J w' \<and> quiet_move w w'"
proof -
  obtain c g vs where ws: "ws = (c, g) # vs" using ok by (cases ws) auto
  let ?w = "w\<lparr>console := console w @ replicate (count_list pre (CHR 0x0A)) EmptyInput\<rparr>"
  have sp: "spaced_ok ((c, g) # vs)" "spaced_ok vs" "c \<notin> {''q'', ''exit'', ''quit''}" "list_all blank pre" "quiet_world L ?w"
    using ok ws by (auto simp: quiet_world_def)
  have i: "pinv linv lst hinv hmap rinv rlist K D J ?w" "next_prog ?w \<le> 2 ^ 31" using inv n by (simp_all add: pinv_console)
  have up: "\<exists>w'. X = Ok w' \<and> pinv linv lst hinv hmap rinv rlist K D J w' \<and> quiet_move w w'" if "\<exists>c. X = Ok (?w\<lparr>console := c\<rparr>)" for X
    using that inv quiet_console(1) by (auto simp: pinv_console)
  have r: "act V L (texts F) (Typed pre ws junk jc jp) w =
    (let saved = one_blank vs in
     if c = ''k'' \<or> c = ''kill'' then kill_command L saved ?w
     else if c = ''r'' \<or> c = ''run'' then run_command V L (texts F) junk jc jp saved ?w
     else if c = ''l'' \<or> c = ''list'' then list_loop L [0..<length (rts ?w)] ?w
     else if c = ''h'' \<or> c = ''help'' then Ok (say Help ?w) else Ok (say Unrecognized ?w))"
    unfolding ws act.simps Let_def by (rule shell_round_typed [OF sp(4,1,3), unfolded Let_def])
  consider (kill) "c = ''k'' \<or> c = ''kill''" | (run) "c = ''r'' \<or> c = ''run''" | (list) "c = ''l'' \<or> c = ''list''"
    | (other) "c \<notin> {''k'', ''kill'', ''r'', ''run'', ''l'', ''list''}" by blast
  then show ?thesis
  proof cases
    case kill
    have "set (kill_words (''k'' # map fst vs)) \<subseteq> K" using K kill ws by (cases vs) auto
    from kill_moves [OF cd i sp(2) this] obtain w' where w': "kill_command L (one_blank vs) ?w = Ok w'" "pinv linv lst hinv hmap rinv rlist K D J w'" "quiet_move ?w w'"
      by blast
    have "act V L (texts F) (Typed pre ws junk jc jp) w = Ok w'" unfolding r Let_def using kill w'(1) by (simp only: if_True)
    then show ?thesis using w'(2,3) by (auto simp: quiet_move_def)
  next
    case run
    have "run_words F (''r'' # map fst vs) = None" using no run ws by (cases vs) (auto split: if_splits)
    note c = run_nothing [OF sp(2) this, of V L junk jc jp ?w]
    have "act V L (texts F) (Typed pre ws junk jc jp) w = run_command V L (texts F) junk jc jp (one_blank vs) ?w"
      unfolding r Let_def using run by auto
    then show ?thesis using up [OF c] by simp
  next
    case list
    have "act V L (texts F) (Typed pre ws junk jc jp) w = list_loop L [0..<length (rts ?w)] ?w" unfolding r Let_def using list by auto
    then show ?thesis using up [OF list_moves [OF cd i(1) sp(5)]] by simp
  next
    case other
    have "\<exists>c. (if c' then Ok (say Help ?w) else Ok (say Unrecognized ?w)) = Ok (?w\<lparr>console := c\<rparr>)" for c' by (simp add: say_def) blast
    note c = this [of "c = ''h'' \<or> c = ''help''"]
    have "act V L (texts F) (Typed pre ws junk jc jp) w = (if c = ''h'' \<or> c = ''help'' then Ok (say Help ?w) else Ok (say Unrecognized ?w))"
      unfolding r Let_def using other by auto
    then show ?thesis using up [OF c] by simp
  qed
qed

lemma typed_moves:
  assumes lib: "voids_lib V hinv hmap rinv rlist" and cd: "cdlist L linv lst" and inv: "pinv linv lst hinv hmap rinv rlist K D J w"
    and n: "next_prog w < 2 ^ 31 - 1" and ok: "act_ok L F a w" and K: "set (kills [a]) \<subseteq> K"
    and d: "\<And>av P tk d. new_job F (next_prog w) a = Some (av, P, tk) \<Longrightarrow> D (next_prog w) = Some d \<Longrightarrow> lasts av (sh_max (shm w)) P d"
    and a: "a = Typed pre ws junk jc jp"
  shows "\<exists>w'. act V L (texts F) a w = Ok w' \<and> pgoes linv lst hinv hmap rinv rlist K D (job_at (next_prog w) (new_job F (next_prog w) a) J) w w' \<and>
    next_prog w' = (if new_job F (next_prog w) a = None then next_prog w else Suc (next_prog w)) \<and> map place (rts w') = map place (rts w)"
proof (cases "run_words F (map fst ws)")
  case None
  then have no: "new_job F (next_prog w) (Typed pre ws junk jc jp) = None" by simp
  obtain w' where w': "act V L (texts F) (Typed pre ws junk jc jp) w = Ok w'" "pinv linv lst hinv hmap rinv rlist K D J w'" "quiet_move w w'"
    using typed_quiet [OF cd inv _ ok [unfolded a] no, of V] n K a by auto
  from pgoes_quiet [OF w'(2,3)] w' no a show ?thesis by (auto simp: job_at_def quiet_move_def)
next
  case (Some x)
  then obtain xs P tk where x: "run_words F (map fst ws) = Some (xs, P, tk)" by (cases x) auto
  have o: "list_all blank pre" "spaced_ok ws" "quiet_world L w" "prog_ok P tk"
    "sound (word_of_nat (next_prog w) # word_of_nat (length xs) # xs) (sh_max (shm w)) P minit" using ok x a by simp_all
  have "lasts (word_of_nat (next_prog w) # word_of_nat (length xs) # xs) (sh_max (shm w)) P d" if "D (next_prog w) = Some d" for d
    by (rule d [OF _ that]) (use x a in simp)
  from run_moves [OF lib cd inv n o(1-3) x this o(4,5), of junk jc jp] show ?thesis using x a by (auto simp: job_at_def)
qed

lemma act_moves:
  assumes lib: "voids_lib V hinv hmap rinv rlist" and cd: "cdlist L linv lst" and inv: "pinv linv lst hinv hmap rinv rlist K D J w"
    and n: "next_prog w < 2 ^ 31 - 1" and ok: "act_ok L F a w" and K: "set (kills [a]) \<subseteq> K"
    and d: "\<And>av P tk d. new_job F (next_prog w) a = Some (av, P, tk) \<Longrightarrow> D (next_prog w) = Some d \<Longrightarrow> lasts av (sh_max (shm w)) P d"
  shows "\<exists>w'. act V L (texts F) a w = Ok w' \<and> pgoes linv lst hinv hmap rinv rlist K D (job_at (next_prog w) (new_job F (next_prog w) a) J) w w' \<and>
    next_prog w' = (if new_job F (next_prog w) a = None then next_prog w else Suc (next_prog w))"
proof (cases a)
  case (Thread i rnd clk fuel)
  then show ?thesis using thread_moves [OF lib cd inv, of i rnd clk fuel] ok by (auto simp: job_at_def)
next
  case (Typed pre ws junk jc jp)
  have "\<exists>w'. act V L (texts F) a w = Ok w' \<and> pgoes linv lst hinv hmap rinv rlist K D (job_at (next_prog w) (new_job F (next_prog w) a) J) w w' \<and>
    next_prog w' = (if new_job F (next_prog w) a = None then next_prog w else Suc (next_prog w)) \<and> map place (rts w') = map place (rts w)"
    by (rule typed_moves [OF lib cd inv n ok K d Typed])
  then show ?thesis by blast
qed

subsection \<open>Any actions\<close>

definition fresh_jobs :: "files \<Rightarrow> nat \<Rightarrow> action list \<Rightarrow> addr \<Rightarrow> job option" where
  "fresh_jobs F k as a = map_option (\<lambda>(av, P, tk). (av, P, tk, minit)) (jobs_of F k as a)"

lemma jobs_of_dom: "a \<in> dom (jobs_of F k as) \<Longrightarrow> k \<le> a"
proof (induction "as" arbitrary: k)
  case (Cons x as)
  show ?case
  proof (cases "new_job F k x")
    case None
    then show ?thesis using Cons by simp
  next
    case (Some j)
    then have "a = k \<or> a \<in> dom (jobs_of F (Suc k) as)" using Cons.prems by auto
    then show ?thesis using Cons.IH [of "Suc k"] by linarith
  qed
qed simp

lemma fresh_jobs_dom: "dom (fresh_jobs F k as) = dom (jobs_of F k as)"
  by (auto simp: fresh_jobs_def dom_def)

lemma fresh_jobs_cons:
  "J ++ fresh_jobs F k (a # as) = job_at k (new_job F k a) J ++ fresh_jobs F (if new_job F k a = None then k else Suc k) as"
proof (cases "new_job F k a")
  case None
  then have "fresh_jobs F k (a # as) = fresh_jobs F k as" by (simp add: fresh_jobs_def fun_eq_iff)
  then show ?thesis using None by (simp add: job_at_def)
next
  case (Some j)
  obtain av P tk where j: "j = (av, P, tk)" by (cases j) auto
  have "fresh_jobs F k (a # as) = (fresh_jobs F (Suc k) as)(k \<mapsto> (av, P, tk, minit))"
    using Some j by (simp add: fresh_jobs_def fun_eq_iff)
  moreover have "k \<notin> dom (fresh_jobs F (Suc k) as)" unfolding fresh_jobs_dom using jobs_of_dom [of k F "Suc k" "as"] by auto
  then have "fresh_jobs F (Suc k) as k = None" unfolding domIff by blast
  ultimately show ?thesis using Some j by (auto simp: job_at_def map_add_def fun_eq_iff split: option.splits)
qed

lemma jobs_extend:
  assumes go: "jobs_go K mm cs J J'" and d: "dom N \<inter> dom J = {}"
  shows "jobs_go K mm cs (J ++ N) (J' ++ N)"
proof -
  have "\<exists>k m'. mgo av mm P k m = Some m' \<and> m_out m' = m_out m @ said a cs \<and>
      ((J' ++ N) a = Some (av, P, tk, m') \<or> (J' ++ N) a = None \<and> (m_mode m' = Ended \<or> a \<in> K))"
    if j: "(J ++ N) a = Some (av, P, tk, m)" for a av P tk m
  proof (cases "a \<in> dom N")
    case True
    then have "a \<notin> fst ` set cs" using jobs_dom(2) [OF go] d by blast
    moreover have "(J ++ N) a = N a" "(J' ++ N) a = N a" using True by (auto simp: map_add_dom_app_simps)
    ultimately show ?thesis using j said_none by (intro exI [of _ 0] exI [of _ m]) simp
  next
    case False
    then have N: "N a = None" unfolding domIff by blast
    then have ja: "J a = Some (av, P, tk, m)" using j by (simp add: map_add_def)
    obtain k m' where "mgo av mm P k m = Some m'" "m_out m' = m_out m @ said a cs" "J' a = Some (av, P, tk, m') \<or> J' a = None \<and> (m_mode m' = Ended \<or> a \<in> K)"
      by (rule jobs_goD [OF go ja])
    then show ?thesis using N by (intro exI [of _ k] exI [of _ m']) (simp add: map_add_def)
  qed
  moreover have "dom (J' ++ N) \<subseteq> dom (J ++ N)" "fst ` set cs \<subseteq> dom (J ++ N)" using jobs_dom [OF go] by auto
  ultimately show ?thesis by (simp add: jobs_go_def)
qed

lemma acts_move:
  assumes lib: "voids_lib V hinv hmap rinv rlist" and cd: "cdlist L linv lst"
  shows "pinv linv lst hinv hmap rinv rlist K D J w \<Longrightarrow> next_prog w + length as < 2 ^ 31 \<Longrightarrow> acts_ok V L F as w \<Longrightarrow> set (kills as) \<subseteq> K \<Longrightarrow>
    (\<And>a av P tk d. jobs_of F (next_prog w) as a = Some (av, P, tk) \<Longrightarrow> D a = Some d \<Longrightarrow> lasts av (sh_max (shm w)) P d) \<Longrightarrow>
    \<exists>w'. acts V L (texts F) as w = Ok w' \<and> pgoes linv lst hinv hmap rinv rlist K D (J ++ fresh_jobs F (next_prog w) as) w w'"
proof (induction "as" arbitrary: w J)
  case Nil
  have "fresh_jobs F (next_prog w) [] = Map.empty" by (simp add: fresh_jobs_def fun_eq_iff)
  then show ?case using pgoes_quiet [OF Nil(1) quiet_console(3)] by simp
next
  case (Cons a "as")
  let ?k = "next_prog w" and ?j = "new_job F (next_prog w) a"
  have n: "?k < 2 ^ 31 - 1" and ok: "act_ok L F a w" and K: "set (kills [a]) \<subseteq> K" "set (kills as) \<subseteq> K"
    using Cons.prems by (simp, simp, (cases a; simp)+)
  obtain w1 where w1: "act V L (texts F) a w = Ok w1" "pgoes linv lst hinv hmap rinv rlist K D (job_at ?k ?j J) w w1"
    "next_prog w1 = (if ?j = None then ?k else Suc ?k)"
  proof -
    have "lasts av (sh_max (shm w)) P d" if "?j = Some (av, P, tk)" "D ?k = Some d" for av P tk d
      by (rule Cons.prems(5) [OF _ that(2)]) (use that(1) in simp)
    then show thesis using act_moves [OF lib cd Cons.prems(1) n ok K(1)] that by blast
  qed
  have due: "lasts av (sh_max (shm w)) P d" if "jobs_of F (next_prog w1) as b = Some (av, P, tk)" "D b = Some d" for b av P tk d
  proof (rule Cons.prems(5) [OF _ that(2)])
    have "next_prog w1 \<le> b" by (rule jobs_of_dom [OF domI, OF that(1)])
    then show "jobs_of F ?k (a # as) b = Some (av, P, tk)" using that(1) w1(3) by (cases ?j) auto
  qed
  obtain cs J1 where J1: "pinv linv lst hinv hmap rinv rlist K D J1 w1" "jobs_go K (sh_max (shm w)) cs (job_at ?k ?j J) J1"
    "sh_out (shm w1) = sh_out (shm w) @ concat (map snd cs)" "sh_max (shm w1) = sh_max (shm w)" "length (rts w1) = length (rts w)"
    using w1(2) unfolding pgoes_def by blast
  let ?N = "fresh_jobs F (next_prog w1) as"
  have "next_prog w1 + length as < 2 ^ 31" "acts_ok V L F as w1" using Cons.prems(2,3) w1(1,3) by simp_all
  then have "\<exists>w2. acts V L (texts F) as w1 = Ok w2 \<and> pgoes linv lst hinv hmap rinv rlist K D (J1 ++ ?N) w1 w2"
  proof (rule Cons.IH [OF J1(1) _ _ K(2)])
    show "lasts av (sh_max (shm w1)) P d" if "jobs_of F (next_prog w1) as b = Some (av, P, tk)" "D b = Some d" for b av P tk d
      using due [OF that] J1(4) by simp
  qed
  then obtain w2 ds J2 where w2: "acts V L (texts F) as w1 = Ok w2" "pinv linv lst hinv hmap rinv rlist K D J2 w2" "jobs_go K (sh_max (shm w1)) ds (J1 ++ ?N) J2"
    "sh_out (shm w2) = sh_out (shm w1) @ concat (map snd ds)" "sh_max (shm w2) = sh_max (shm w1)" "length (rts w2) = length (rts w1)"
    unfolding pgoes_def by blast
  have "dom J = dom (progs w)" using pinvD(2) [OF Cons.prems(1)] by (simp add: wsim_def)
  then have "dom J \<subseteq> {..<?k}" using pinvD(6) [OF Cons.prems(1)] by auto
  then have "dom (job_at ?k ?j J) \<subseteq> {..<next_prog w1}" by (auto simp: w1(3) job_at_def less_Suc_eq split: option.splits if_splits)
  moreover have "dom ?N \<subseteq> {next_prog w1..}" unfolding fresh_jobs_dom by (intro subsetI, drule jobs_of_dom) simp
  ultimately have "dom ?N \<inter> dom (job_at ?k ?j J) = {}" by fastforce
  from jobs_extend [OF J1(2) this] have "jobs_go K (sh_max (shm w)) cs (J ++ fresh_jobs F ?k (a # as)) (J1 ++ ?N)"
    by (simp only: fresh_jobs_cons w1(3))
  from jobs_trans [OF this] w2(3) have "jobs_go K (sh_max (shm w)) (cs @ ds) (J ++ fresh_jobs F ?k (a # as)) J2" by (simp add: J1(4))
  then have "pgoes linv lst hinv hmap rinv rlist K D (J ++ fresh_jobs F ?k (a # as)) w w2"
    unfolding pgoes_def using w2 J1(3-5) by (intro exI [of _ "cs @ ds"] exI [of _ J2]) simp
  then show ?case using w1(1) w2(1) by simp
qed

text \<open>The process from its start.\<close>

lemma start_pinv:
  assumes cd: "cdlist L linv lst" and m: "shm_ok hinv hmap mem" and n: "0 < n"
  shows "pinv linv lst hinv hmap rinv rlist K D Map.empty (start_world L n mem)"
  using cdlist.start_inv [OF cd, of n mem] wsim_start [OF m, of rinv rlist K L n] n
  by (simp add: pinv_def) (simp add: start_world_def wdue_def all_run_def runtime_init_def)

text \<open>\<open>exec_init\<close> fills the tables; the program \<open>p\<close> that it is given here is not touched.\<close>

definition process_start :: "('h, 'p, 'r) voids \<Rightarrow> 'l cdll \<Rightarrow> nat \<Rightarrow> nat \<Rightarrow> ('h, 'r) program_s \<Rightarrow> ('h, 'r, 'l) world res" where
  "process_start V L n mm p = bnd (exec_init V (boot V mm p)) (\<lambda>s. Ok (start_world L n (shared_of s)))"

lemma process_starts:
  assumes lib: "voids_lib V hinv hmap rinv rlist"
  obtains mem where "process_start V L n mm p = Ok (start_world L n mem)" "shm_ok hinv hmap mem" "sh_max mem = mm" "sh_out mem = []" "sh_heap mem = Map.empty"
proof -
  obtain h where h: "lexer_init V (boot V mm p) = Ok ((boot V mm p)\<lparr>itable := h\<rparr>)" "itab_ok hinv hmap h"
    using voids_lib.lexer_init_ok [OF lib] by blast
  let ?m = "shared_of ((boot V mm p)\<lparr>itable := h, gtab := qh_init V GLOBAL_TABLE_INIT_SIZE\<rparr>)"
  have "process_start V L n mm p = Ok (start_world L n ?m)"
    using h(1) by (simp add: process_start_def exec_init_def global_table_init_def)
  moreover have "shm_ok hinv hmap ?m" "sh_max ?m = mm" "sh_out ?m = []" "sh_heap ?m = Map.empty"
    using h(2) by (simp_all add: shm_ok_def shared_of_def boot_def program_s.defs)
  ultimately show thesis by (rule that)
qed

lemma process_runs:
  assumes lib: "voids_lib V hinv hmap rinv rlist" and cd: "cdlist L linv lst" and n: "0 < n" and w0: "process_start V L n mm p0 = Ok w0"
    and len: "length as < 2 ^ 31 - 1" and ok: "acts_ok V L F as w0" and K: "set (kills as) \<subseteq> K"
    and due: "\<And>a av P tk d. jobs_of F 1 as a = Some (av, P, tk) \<Longrightarrow> D a = Some d \<Longrightarrow> lasts av mm P d"
  obtains w cs J where "acts V L (texts F) as w0 = Ok w" "pinv linv lst hinv hmap rinv rlist K D J w" "jobs_go K mm cs (fresh_jobs F 1 as) J"
    "sh_out (shm w) = concat (map snd cs)" "sh_max (shm w) = mm" "length (rts w) = n"
proof -
  obtain mem where mem: "w0 = start_world L n mem" and m: "shm_ok hinv hmap mem" and f: "sh_max mem = mm" "sh_out mem = []"
    by (rule process_starts [OF lib, of L n mm p0]) (use w0 in simp)
  have s: "next_prog w0 = 1" "shm w0 = mem" "length (rts w0) = n" by (simp_all add: mem start_world_def)
  have i: "pinv linv lst hinv hmap rinv rlist K D Map.empty w0" unfolding mem by (rule start_pinv [OF cd m n])
  have "\<exists>w. acts V L (texts F) as w0 = Ok w \<and> pgoes linv lst hinv hmap rinv rlist K D (Map.empty ++ fresh_jobs F (next_prog w0) as) w0 w"
  proof (rule acts_move [OF lib cd i _ ok K])
    show "next_prog w0 + length as < 2 ^ 31" using len s(1) by simp
    show "lasts av (sh_max (shm w0)) P d" if "jobs_of F (next_prog w0) as a = Some (av, P, tk)" "D a = Some d" for a av P tk d
      using due [of a av P tk d] that unfolding s f by blast
  qed
  then obtain w where "acts V L (texts F) as w0 = Ok w" "pgoes linv lst hinv hmap rinv rlist K D (fresh_jobs F 1 as) w0 w"
    unfolding s empty_map_add by blast
  then show thesis unfolding pgoes_def s f append_Nil using that by blast
qed

text \<open>What a job has come to.\<close>

lemma job_state:
  assumes w: "wsim hinv hmap rinv rlist K J w" and go: "jobs_go K mm cs (fresh_jobs F 1 as) J" and j: "jobs_of F 1 as a = Some (av, P, tk)"
  shows "\<exists>k m. mgo av mm P k minit = Some m \<and> m_out m = said a cs \<and>
    (case progs w a of None \<Rightarrow> m_mode m = Ended \<or> a \<in> K | Some p \<Rightarrow> jsim hinv hmap rinv rlist (a \<in> K) (av, P, tk, m) (load_prog p (shm w)))"
proof -
  have "fresh_jobs F 1 as a = Some (av, P, tk, minit)" using j by (simp add: fresh_jobs_def)
  then obtain k m where km: "mgo av mm P k minit = Some m" "m_out m = m_out minit @ said a cs" "J a = Some (av, P, tk, m) \<or> J a = None \<and> (m_mode m = Ended \<or> a \<in> K)"
    by (rule jobs_goD [OF go])
  note W = w [unfolded wsim_def]
  have "case progs w a of None \<Rightarrow> m_mode m = Ended \<or> a \<in> K | Some p \<Rightarrow> jsim hinv hmap rinv rlist (a \<in> K) (av, P, tk, m) (load_prog p (shm w))"
  proof (cases "progs w a")
    case None
    then have "a \<notin> dom J" using W by blast
    then show ?thesis using None km(3) by auto
  next
    case (Some p)
    then have "a \<in> dom J" using W by blast
    then have "J a = Some (av, P, tk, m)" using km(3) by auto
    then have "jsim hinv hmap rinv rlist (a \<in> K) (av, P, tk, m) (load_prog p (shm w))" using W Some by blast
    then show ?thesis using Some by simp
  qed
  then show ?thesis using km(1,2) by (intro exI [of _ k] exI [of _ m]) (simp add: minit_def)
qed

lemma process_moves:
  assumes lib: "voids_lib V hinv hmap rinv rlist" and cd: "cdlist L linv lst" and n: "0 < n" and w0: "process_start V L n mm p0 = Ok w0"
    and len: "length as < 2 ^ 31 - 1" and ok: "acts_ok V L F as w0"
  shows "\<exists>w cs. acts V L (texts F) as w0 = Ok w \<and> winv linv lst w \<and> sh_out (shm w) = concat (map snd cs) \<and>
    fst ` set cs \<subseteq> dom (jobs_of F 1 as) \<and>
    (\<forall>a av P tk. jobs_of F 1 as a = Some (av, P, tk) \<longrightarrow> (\<exists>k m. mgo av mm P k minit = Some m \<and> m_out m = said a cs \<and>
       (case progs w a of None \<Rightarrow> m_mode m = Ended \<or> a \<in> set (kills as)
        | Some p \<Rightarrow> jsim hinv hmap rinv rlist (a \<in> set (kills as)) (av, P, tk, m) (load_prog p (shm w)))))"
proof -
  obtain w cs J where w: "acts V L (texts F) as w0 = Ok w" "pinv linv lst hinv hmap rinv rlist (set (kills as)) Map.empty J w"
      "jobs_go (set (kills as)) mm cs (fresh_jobs F 1 as) J" "sh_out (shm w) = concat (map snd cs)"
    by (rule process_runs [OF lib cd n w0 len ok subset_refl, where D = Map.empty]) simp
  have "fst ` set cs \<subseteq> dom (jobs_of F 1 as)" using jobs_dom(2) [OF w(3)] by (simp only: fresh_jobs_dom)
  then show ?thesis using w(1,4) pinvD(1) [OF w(2)] job_state [OF pinvD(2) [OF w(2)] w(3)] by blast
qed

subsection \<open>Commands before any thread has moved\<close>

fun typeds_ok :: "files \<Rightarrow> nat \<Rightarrow> nat \<Rightarrow> action list \<Rightarrow> bool" where
  "typeds_ok F mm k [] \<longleftrightarrow> True"
| "typeds_ok F mm k (a # as) \<longleftrightarrow> typed_ok F mm k a \<and> typeds_ok F mm (if new_job F k a = None then k else Suc k) as"

fun thread_ok :: "nat \<Rightarrow> action \<Rightarrow> bool" where
  "thread_ok n (Thread i rnd clk fuel) \<longleftrightarrow> i < n \<and> tick_ok rnd clk fuel"
| "thread_ok n (Typed pre ws junk jc jp) \<longleftrightarrow> False"

lemma threads_ok: "list_all (thread_ok (length (rts w))) bs \<Longrightarrow> acts_ok V L F bs w"
proof (induction bs arbitrary: w)
  case (Cons b bs)
  then show ?case using tick_same [of V L _ _ _ _ w] by (cases b) (auto split: res.splits)
qed simp

lemma threads_only: "list_all (thread_ok n) bs \<Longrightarrow> jobs_of F k bs = Map.empty \<and> kills bs = []"
proof (induction bs)
  case (Cons b bs)
  then show ?case by (cases b) auto
qed simp

lemma typeds_ok_acts:
  assumes lib: "voids_lib V hinv hmap rinv rlist" and cd: "cdlist L linv lst"
  shows "pinv linv lst hinv hmap rinv rlist UNIV Map.empty J w \<Longrightarrow> next_prog w + length as < 2 ^ 31 \<Longrightarrow> list_all (\<lambda>pc. pc = RtTop) (map place (rts w)) \<Longrightarrow>
    typeds_ok F (sh_max (shm w)) (next_prog w) as \<Longrightarrow> list_all (thread_ok (length (rts w))) bs \<Longrightarrow> acts_ok V L F (as @ bs) w"
proof (induction "as" arbitrary: w J)
  case Nil
  then show ?case using threads_ok by simp
next
  case (Cons a "as")
  have q: "quiet_world L w" using Cons.prems(3) by (auto simp: quiet_world_def list_all_iff)
  obtain pre ws junk jc jp where a: "a = Typed pre ws junk jc jp" using Cons.prems(4) by (cases a) auto
  have ok: "act_ok L F a w" using Cons.prems(4) q a by simp
  have n: "next_prog w < 2 ^ 31 - 1" using Cons.prems(2) by simp
  obtain w' where w': "act V L (texts F) a w = Ok w'" "pgoes linv lst hinv hmap rinv rlist UNIV Map.empty (job_at (next_prog w) (new_job F (next_prog w) a) J) w w'"
    "next_prog w' = (if new_job F (next_prog w) a = None then next_prog w else Suc (next_prog w))" "map place (rts w') = map place (rts w)"
  proof -
    have "lasts av (sh_max (shm w)) P d" if "Map.empty (next_prog w) = Some d" for av P and d :: nat using that by simp
    then show thesis using typed_moves [OF lib cd Cons.prems(1) n ok subset_UNIV _ a] that by blast
  qed
  obtain J' where J': "pinv linv lst hinv hmap rinv rlist UNIV Map.empty J' w'" "sh_max (shm w') = sh_max (shm w)" using w'(2) by (auto simp: pgoes_def)
  have l: "length (rts w') = length (rts w)" using w'(4) by (metis length_map)
  have "acts_ok V L F (as @ bs) w'"
    by (rule Cons.IH [OF J'(1)]) (use Cons.prems w'(3,4) J'(2) l in auto)
  then show ?case using ok w'(1) by simp
qed

lemma typeds_first:
  assumes lib: "voids_lib V hinv hmap rinv rlist" and cd: "cdlist L linv lst" and n: "0 < n" and w0: "process_start V L n mm p0 = Ok w0"
    and len: "length as < 2 ^ 31 - 1" and ok: "typeds_ok F mm 1 as" "list_all (thread_ok n) bs"
  shows "acts_ok V L F (as @ bs) w0"
proof -
  obtain mem where mem: "w0 = start_world L n mem" and m: "shm_ok hinv hmap mem" and f: "sh_max mem = mm"
    by (rule process_starts [OF lib, of L n mm p0]) (use w0 in simp)
  have s: "next_prog w0 = 1" "shm w0 = mem" "rts w0 = replicate n (runtime_init L)" by (simp_all add: mem start_world_def)
  have "pinv linv lst hinv hmap rinv rlist UNIV Map.empty Map.empty w0" unfolding mem by (rule start_pinv [OF cd m n])
  note t = typeds_ok_acts [OF lib cd this]
  show ?thesis
    by (rule t) (use s len ok f in \<open>simp_all add: runtime_init_def list_all_iff\<close>)
qed

end
