(* ===== verification/Progress.thy ===== *)
theory Progress imports Process begin

section \<open>The programs come to their ends\<close>

text \<open>
  Every step of a runtime whose list is not empty makes \<open>pot\<close> of the runtime smaller: six for each visit that its programs still need and for
  the removal of each, and a rank below six for the place where the thread is.  The steps of the other runtimes do not change it.
\<close>

definition at_end :: "('h, 'r, 'l) world \<Rightarrow> addr \<Rightarrow> bool" where
  "at_end w a \<longleftrightarrow> (case progs w a of None \<Rightarrow> True | Some p \<Rightarrow> pstate p = FINISHED)"

definition rank :: "('h, 'r, 'l) world \<Rightarrow> 'l runtime_s \<Rightarrow> nat" where
  "rank w rt = (case rt_pc rt of RtTop \<Rightarrow> 3 | RtWait \<Rightarrow> 2 | RtAsleep \<Rightarrow> 0 | RtLoop \<Rightarrow> if curr rt = NULL then 4 else 1
     | RtDecide a \<Rightarrow> if at_end w a then 0 else 5 | RtCheck \<Rightarrow> 5 | RtDone \<Rightarrow> 0)"

definition left_of :: "(addr \<Rightarrow> nat option) \<Rightarrow> addr list \<Rightarrow> nat" where
  "left_of D as = sum_list (map (\<lambda>a. the (D a) + 1) as)"

definition pot :: "('l \<Rightarrow> nodes) \<Rightarrow> (addr \<Rightarrow> nat option) \<Rightarrow> ('h, 'r, 'l) world \<Rightarrow> 'l runtime_s \<Rightarrow> nat" where
  "pot lst D w rt = (if rt_progs lst rt = [] then 0 else 6 * left_of D (rt_progs lst rt) + rank w rt)"

lemma rank_bound: "rank w rt \<le> 5"
  by (simp add: rank_def split: rt_pc.splits)

lemma left_of_simps [simp]: "left_of D [] = 0" "left_of D (a # as) = Suc (the (D a)) + left_of D as" "left_of D (as @ bs) = left_of D as + left_of D bs"
  by (simp_all add: left_of_def)

lemma left_of_cong: "(\<And>a. a \<in> set as \<Longrightarrow> D' a = D a) \<Longrightarrow> left_of D' as = left_of D as"
  by (simp add: left_of_def cong: map_cong)

lemma left_of_pos: "as \<noteq> [] \<Longrightarrow> 0 < left_of D as"
  by (cases "as") simp_all

lemma pot_zero: "pot lst D w rt = 0 \<longleftrightarrow> rt_progs lst rt = []"
  using left_of_pos [of "rt_progs lst rt" D] by (auto simp: pot_def)

lemma pot_cong:
  assumes "\<And>b. b \<in> set (rt_progs lst rt) \<Longrightarrow> D' b = D b \<and> progs w' b = progs w b" and "\<And>b. rt_pc rt = RtDecide b \<Longrightarrow> b \<in> set (rt_progs lst rt)"
  shows "pot lst D' w' rt = pot lst D w rt"
proof -
  have "left_of D' (rt_progs lst rt) = left_of D (rt_progs lst rt)" by (rule left_of_cong) (use assms(1) in blast)
  moreover have "rank w' rt = rank w rt" using assms by (cases "rt_pc rt") (simp_all add: rank_def at_end_def)
  ultimately show ?thesis by (simp add: pot_def)
qed

lemma concat_disjoint:
  "distinct (concat xss) \<Longrightarrow> i < length xss \<Longrightarrow> k < length xss \<Longrightarrow> i \<noteq> k \<Longrightarrow> set (xss ! i) \<inter> set (xss ! k) = {}"
proof (induction xss arbitrary: i k)
  case (Cons xs xss)
  have d: "set xs \<inter> set (xss ! j) = {}" if "j < length xss" for j
    using Cons.prems(1) nth_mem [OF that] by fastforce
  show ?case
  proof (cases "i = 0 \<or> k = 0")
    case True
    then show ?thesis using Cons.prems d [of "i - 1"] d [of "k - 1"] by (auto simp: nth_Cons' Int_commute)
  next
    case False
    then obtain a b where "i = Suc a" "k = Suc b" using not0_implies_Suc by metis
    then show ?thesis using Cons.IH [of a b] Cons.prems by simp
  qed
qed simp

lemma lists_disjoint:
  assumes "winv linv lst w" and "i < length (rts w)" and "k < length (rts w)" and "i \<noteq> k"
  shows "set (rt_progs lst (rts w ! i)) \<inter> set (rt_progs lst (rts w ! k)) = {}"
  using concat_disjoint [of "map (rt_progs lst) (rts w)" i k] assms by (simp add: winv_def)

text \<open>The invariant: no runtime has been stopped, and enough visits are known for every program.\<close>

definition lively :: "('l \<Rightarrow> bool) \<Rightarrow> ('l \<Rightarrow> nodes) \<Rightarrow> ('h \<Rightarrow> bool) \<Rightarrow> ('h \<Rightarrow> pairs) \<Rightarrow> ('r \<Rightarrow> bool) \<Rightarrow> ('r \<Rightarrow> addr list) \<Rightarrow> addr set \<Rightarrow>
    (addr \<Rightarrow> job option) \<Rightarrow> (addr \<Rightarrow> nat option) \<Rightarrow> ('h, 'r, 'l) world \<Rightarrow> bool" where
  "lively linv lst hinv hmap rinv rlist K J D w \<longleftrightarrow> winv linv lst w \<and> wsim hinv hmap rinv rlist K J w \<and> wdue J w D \<and> dom (progs w) \<subseteq> dom D \<and> all_run w"

lemma livelyD:
  assumes "lively linv lst hinv hmap rinv rlist K J D w"
  shows "winv linv lst w" "wsim hinv hmap rinv rlist K J w" "wdue J w D" "dom (progs w) \<subseteq> dom D" "\<forall>rt \<in> set (rts w). running rt \<and> rt_pc rt \<noteq> RtDone"
  using assms unfolding lively_def all_run_def by blast+

text \<open>What a step of the runtime \<open>i\<close> does.\<close>

definition lgoes :: "('l \<Rightarrow> bool) \<Rightarrow> ('l \<Rightarrow> nodes) \<Rightarrow> ('h \<Rightarrow> bool) \<Rightarrow> ('h \<Rightarrow> pairs) \<Rightarrow> ('r \<Rightarrow> bool) \<Rightarrow> ('r \<Rightarrow> addr list) \<Rightarrow> addr set \<Rightarrow>
    (addr \<Rightarrow> job option) \<Rightarrow> (addr \<Rightarrow> nat option) \<Rightarrow> (nat \<Rightarrow> nat) \<Rightarrow> ('h, 'r, 'l) world \<Rightarrow> ('h, 'r, 'l) world \<Rightarrow> bool" where
  "lgoes linv lst hinv hmap rinv rlist K J D n w w' \<longleftrightarrow> (\<exists>cs J' D'. lively linv lst hinv hmap rinv rlist K J' D' w' \<and> jobs_go K (sh_max (shm w)) cs J J' \<and>
     sh_out (shm w') = sh_out (shm w) @ concat (map snd cs) \<and> sh_max (shm w') = sh_max (shm w) \<and> length (rts w') = length (rts w) \<and>
     (\<forall>k < length (rts w). pot lst D' w' (rts w' ! k) \<le> pot lst D w (rts w ! k) - n k))"

text \<open>The runtime moves and nothing else.\<close>

lemma lgoes_rt:
  assumes l: "lively linv lst hinv hmap rinv rlist K J D w" and i: "i < length (rts w)" and inv: "winv linv lst (set_rt i rt' w)"
    and r: "program_list rt' = program_list (rts w ! i)" "running rt'" "rt_pc rt' \<noteq> RtDone"
    and lt: "rt_progs lst (rts w ! i) \<noteq> [] \<Longrightarrow> rank w rt' < rank w (rts w ! i)"
  shows "lgoes linv lst hinv hmap rinv rlist K J D (\<lambda>k. if k = i then 1 else 0) w (set_rt i rt' w)"
proof -
  let ?w = "set_rt i rt' w"
  note l = livelyD [OF l]
  have "wsim hinv hmap rinv rlist K J ?w" using l(2) wsim_cong [of ?w w] by simp
  moreover have "wdue J ?w D" by (rule wdue_less [OF l(3)]) simp_all
  moreover have "dom (progs ?w) \<subseteq> dom D" unfolding set_rt_simps by (rule l(4))
  moreover have "\<forall>rt \<in> set (rts ?w). running rt \<and> rt_pc rt \<noteq> RtDone" unfolding set_rt_simps by (rule running_set [OF l(5) r(2,3)])
  ultimately have "lively linv lst hinv hmap rinv rlist K J D ?w" unfolding lively_def all_run_def using inv by blast
  moreover have same: "pot lst D ?w rt = pot lst D w rt" for rt
    by (simp add: pot_def rank_def at_end_def cong: rt_pc.case_cong)
  have "pot lst D ?w (rts ?w ! k) \<le> pot lst D w (rts w ! k) - (if k = i then 1 else 0)" if "k < length (rts w)" for k
  proof (cases "k = i")
    case True
    then show ?thesis unfolding same using lt r(1) i by (auto simp: pot_def rt_progs_def)
  qed (simp add: same)
  ultimately show ?thesis
    unfolding lgoes_def using jobs_refl [of K "sh_max (shm w)" J] by (intro exI [of _ "[]"] exI [of _ J] exI [of _ D]) simp
qed

lemma progs_distinct: "winv linv lst w \<Longrightarrow> i < length (rts w) \<Longrightarrow> distinct (rt_progs lst (rts w ! i))"
  unfolding winv_def by (metis concat_map_singleton distinct_concat_iff in_set_conv_nth length_map nth_map)

lemma left_of_upd:
  "distinct as \<Longrightarrow> a \<in> set as \<Longrightarrow> D a = Some d \<Longrightarrow> 0 < d \<Longrightarrow> Suc (left_of (D(a \<mapsto> d - 1)) as) = left_of D as"
proof (induction "as")
  case (Cons b bs)
  show ?case
  proof (cases "b = a")
    case True
    then have "left_of (D(a \<mapsto> d - 1)) bs = left_of D bs" using Cons.prems(1) by (intro left_of_cong) auto
    then show ?thesis using True Cons.prems by (simp add: fun_upd_same del: fun_upd_apply)
  next
    case False
    then show ?thesis using Cons by simp
  qed
qed simp

lemma decide_listed:
  assumes "winv linv lst w" and "k < length (rts w)" and "rt_pc (rts w ! k) = RtDecide b"
  shows "b \<in> set (rt_progs lst (rts w ! k))"
proof -
  have "rt_inv linv lst (rts w ! k)" using assms by (simp add: winv_def)
  then have "(curr (rts w ! k), b) \<in> set (lst (program_list (rts w ! k)))" using assms(3) by (simp add: rt_inv_def)
  then show ?thesis by (force simp: rt_progs_def)
qed

text \<open>The potentials of the other runtimes.\<close>

lemma pot_others:
  assumes inv: "winv linv lst w" and i: "i < length (rts w)" "a \<in> set (rt_progs lst (rts w ! i))"
    and w': "rts w' = (rts w)[i := rt']" "\<And>b. b \<noteq> a \<Longrightarrow> D' b = D b \<and> progs w' b = progs w b" and k: "k < length (rts w)" "k \<noteq> i"
  shows "pot lst D' w' (rts w' ! k) = pot lst D w (rts w ! k)"
proof -
  have "a \<notin> set (rt_progs lst (rts w ! k))" using lists_disjoint [OF inv i(1) k(1)] i(2) k(2) by blast
  then have "pot lst D' w' (rts w ! k) = pot lst D w (rts w ! k)"
    by (intro pot_cong) (use w'(2) decide_listed [OF inv k(1)] in metis)+
  then show ?thesis using k(2) by (simp add: w'(1))
qed

lemma lgoes_visit:
  assumes lib: "voids_lib V hinv hmap rinv rlist" and cd: "cdlist L linv lst" and l: "lively linv lst hinv hmap rinv rlist K J D w"
    and i: "i < length (rts w)" and pc: "rt_pc (rts w ! i) = RtLoop" "curr (rts w ! i) \<noteq> NULL" and t: "tick_ok rnd clk fuel" "0 < sint rnd mod TIME_SLICE_MAX_NSEC"
  shows "\<exists>w'. rt_tick V L rnd clk fuel i w = Ok w' \<and> lgoes linv lst hinv hmap rinv rlist K J D (\<lambda>k. if k = i then 1 else 0) w w'"
proof -
  let ?rt = "rts w ! i"
  note l = livelyD [OF l]
  have run: "running ?rt" using l(5) i by simp
  obtain a p where a: "cd_data L (program_list ?rt) (curr ?rt) = Some a" "progs w a = Some p" "(curr ?rt, a) \<in> set (lst (program_list ?rt))"
    by (rule cdlist.visit_reads [OF cd l(1) i pc])
  have al: "a \<in> set (rt_progs lst ?rt)" using a(3) by (force simp: rt_progs_def)
  obtain j where "J a = Some j" using l(2) a(2) unfolding wsim_def by blast
  then obtain av P tk m where j: "J a = Some (av, P, tk, m)" by (cases j) auto
  obtain d where d: "D a = Some d" using l(4) a(2) by (metis domD domI subsetD)
  from voids_lib.rt_visit_moves [OF lib l(2) t(1) a(1,2) j]
  obtain p' sh m' es where v: "rt_visit V L rnd clk fuel i w = Ok (set_rt i (?rt\<lparr>rt_pc := RtDecide a\<rparr>) (w\<lparr>progs := (progs w)(a \<mapsto> p'), shm := sh\<rparr>))"
    "wsim hinv hmap rinv rlist K (J(a \<mapsto> (av, P, tk, m'))) (w\<lparr>progs := (progs w)(a \<mapsto> p'), shm := sh\<rparr>)"
    "jobs_go K (sh_max (shm w)) es J (J(a \<mapsto> (av, P, tk, m')))" "sh_out sh = sh_out (shm w) @ concat (map snd es)" "sh_max sh = sh_max (shm w)"
    "pstate p = FINISHED \<longrightarrow> p' = p" "pstate p \<noteq> FINISHED \<longrightarrow> (\<forall>d. enough av (sh_max (shm w)) P m p d \<longrightarrow> enough av (sh_max (shm w)) P m' p' (d - 1))"
    using t(2) by auto
  let ?J = "J(a \<mapsto> (av, P, tk, m'))" and ?rt' = "?rt\<lparr>rt_pc := RtDecide a\<rparr>" and ?D = "if pstate p = FINISHED then D else D(a \<mapsto> d - 1)"
  let ?w = "set_rt i ?rt' (w\<lparr>progs := (progs w)(a \<mapsto> p'), shm := sh\<rparr>)"
  have ok: "rt_tick V L rnd clk fuel i w = Ok ?w" using v(1) pc run by (simp add: rt_tick_def Let_def)
  have pos: "0 < d" if "pstate p \<noteq> FINISHED"
  proof -
    have "jsim hinv hmap rinv rlist (a \<in> K) (av, P, tk, m) (load_prog p (shm w))" using l(2) a(2) j unfolding wsim_def by blast
    then have "m_mode m \<noteq> Ended" using that psimD(8) [of hinv hmap rinv rlist _ _ P tk "clear m" "load_prog p (shm w)"] by (auto simp: dead_def)
    then show ?thesis using wdueD [OF l(3) a(2) j d] that enough_pos by blast
  qed
  have due: "wdue ?J ?w ?D"
  proof (rule wdue_upd [OF l(3) a(2) j])
    fix e assume e: "?D a = Some e"
    show "pstate p' = FINISHED \<or> (\<exists>d. D a = Some d \<and> pstate p \<noteq> FINISHED \<and> (enough av (sh_max (shm w)) P m p d \<longrightarrow> enough av (sh_max (shm w)) P m' p' e))"
      using e v(6,7) d by (cases "pstate p = FINISHED") auto
  qed (use v(5) in simp_all)
  have "lively linv lst hinv hmap rinv rlist K ?J ?D ?w"
    unfolding lively_def all_run_def
  proof (intro conjI)
    show "winv linv lst ?w" by (rule cdlist.tick_inv [OF cd l(1) i ok])
    show "wsim hinv hmap rinv rlist K ?J ?w" using v(2) wsim_cong [of ?w "w\<lparr>progs := (progs w)(a \<mapsto> p'), shm := sh\<rparr>"] by simp
    show "wdue ?J ?w ?D" by (rule due)
    have "dom D \<subseteq> dom ?D" "a \<in> dom ?D" using d by auto
    then show "dom (progs ?w) \<subseteq> dom ?D" using l(4) unfolding set_rt_simps by auto
    show "\<forall>rt \<in> set (rts ?w). running rt \<and> rt_pc rt \<noteq> RtDone" using running_set [OF l(5), of ?rt' i] run by simp
  qed
  moreover have "pot lst ?D ?w (rts ?w ! k) \<le> pot lst D w (rts w ! k) - (if k = i then 1 else 0)" if k: "k < length (rts w)" for k
  proof (cases "k = i")
    case False
    have "pot lst ?D ?w (rts ?w ! k) = pot lst D w (rts w ! k)"
      by (rule pot_others [OF l(1) i al _ _ k False]) (auto simp: set_rt_def)
    then show ?thesis using False by simp
  next
    case True
    have ps: "rt_progs lst ?rt' = rt_progs lst ?rt" "rt_progs lst ?rt \<noteq> []" using al by (auto simp: rt_progs_def)
    have r: "rank w ?rt = 1" using pc by (simp add: rank_def)
    have "pot lst ?D ?w ?rt' < pot lst D w ?rt"
    proof (cases "pstate p = FINISHED")
      case True
      then have "rank ?w ?rt' = 0" using v(6) by (simp add: rank_def at_end_def)
      then show ?thesis using True ps r by (simp add: pot_def)
    next
      case False
      have "Suc (left_of ?D (rt_progs lst ?rt)) = left_of D (rt_progs lst ?rt)"
        using left_of_upd [where D = D, OF progs_distinct [OF l(1) i] al d pos [OF False]] False by simp
      then show ?thesis using ps r rank_bound [of ?w ?rt'] by (simp add: pot_def)
    qed
    then show ?thesis using True i by simp
  qed
  ultimately have "lgoes linv lst hinv hmap rinv rlist K J D (\<lambda>k. if k = i then 1 else 0) w ?w"
    unfolding lgoes_def using v(3-5) by (intro exI [of _ es] exI [of _ ?J] exI [of _ ?D]) simp
  then show ?thesis using ok by blast
qed

lemma lgoes_decide:
  assumes lib: "voids_lib V hinv hmap rinv rlist" and cd: "cdlist L linv lst" and l: "lively linv lst hinv hmap rinv rlist K J D w"
    and i: "i < length (rts w)" and pc: "rt_pc (rts w ! i) = RtDecide a"
  shows "\<exists>w'. rt_tick V L rnd clk fuel i w = Ok w' \<and> lgoes linv lst hinv hmap rinv rlist K J D (\<lambda>k. if k = i then 1 else 0) w w'"
proof -
  let ?rt = "rts w ! i"
  note lv = livelyD [OF l]
  have run: "running ?rt" using lv(5) i by simp
  obtain p c where r: "progs w a = Some p" "cd_nxt L (program_list ?rt) (curr ?rt) = Some c"
    "cd_prv L (program_list ?rt) c = Some (curr ?rt)" "c \<in> fst ` set (lst (program_list ?rt))"
    by (rule cdlist.decide_reads [OF cd lv(1) i pc])
  have al: "a \<in> set (rt_progs lst ?rt)" by (rule decide_listed [OF lv(1) i pc])
  obtain j where "J a = Some j" using lv(2) r(1) unfolding wsim_def by blast
  then obtain av P tk m where j: "J a = Some (av, P, tk, m)" by (cases j) auto
  note mv = voids_lib.rt_decide_moves [OF lib lv(2) r(1) j r(2,3)]
  show ?thesis
  proof (cases "pstate p = FINISHED")
    case False
    let ?rt' = "?rt\<lparr>curr := c, rt_pc := RtLoop\<rparr>"
    have ok: "rt_tick V L rnd clk fuel i w = Ok (set_rt i ?rt' w)" using mv False pc by (simp add: rt_tick_def Let_def)
    have "c \<noteq> NULL" using cdlist.nodes [OF cd cdlist.rt_invD(2) [OF cd lv(1) i]] r(4) by metis
    then have "rank w ?rt' < rank w ?rt" using r(1) False pc by (simp add: rank_def at_end_def)
    from lgoes_rt [OF l i cdlist.tick_inv [OF cd lv(1) i ok] _ _ _ this] show ?thesis using ok run by auto
  next
    case True
    let ?rt' = "?rt\<lparr>curr := c, program_cnt := program_cnt ?rt - 1, program_list := cd_delete L (program_list ?rt) (curr ?rt), rt_pc := RtCheck\<rparr>"
    obtain sh e where v: "rt_decide V L i a w = Ok (set_rt i ?rt' (w\<lparr>progs := (progs w)(a := None), shm := sh, console := console w @ [e]\<rparr>))"
        "wsim hinv hmap rinv rlist K (J(a := None)) (w\<lparr>progs := (progs w)(a := None), shm := sh\<rparr>)"
        "jobs_go K (sh_max (shm w)) [] J (J(a := None))" "sh_out sh = sh_out (shm w)" "sh_max sh = sh_max (shm w)" using mv True by auto
    let ?w = "set_rt i ?rt' (w\<lparr>progs := (progs w)(a := None), shm := sh, console := console w @ [e]\<rparr>)" and ?J = "J(a := None)"
    have ok: "rt_tick V L rnd clk fuel i w = Ok ?w" using v(1) pc by (simp add: rt_tick_def Let_def)
    obtain xs ys where x: "lst (program_list ?rt) = xs @ (curr ?rt, a) # ys" "lst (program_list ?rt') = xs @ ys"
      by (rule cdlist.remove_inv [OF cd lv(1) i pc r(2) refl])
    have "lively linv lst hinv hmap rinv rlist K ?J D ?w"
      unfolding lively_def all_run_def
    proof (intro conjI)
      show "winv linv lst ?w" by (rule cdlist.tick_inv [OF cd lv(1) i ok])
      show "wsim hinv hmap rinv rlist K ?J ?w" using v(2) wsim_cong [of ?w "w\<lparr>progs := (progs w)(a := None), shm := sh\<rparr>"] by simp
      show "wdue ?J ?w D" by (rule wdue_less [OF lv(3)]) (use v(5) in \<open>simp_all add: map_le_def\<close>)
      show "dom (progs ?w) \<subseteq> dom D" using lv(4) unfolding set_rt_simps by auto
      show "\<forall>rt \<in> set (rts ?w). running rt \<and> rt_pc rt \<noteq> RtDone" using running_set [OF lv(5), of ?rt' i] run by simp
    qed
    moreover have "pot lst D ?w (rts ?w ! k) \<le> pot lst D w (rts w ! k) - (if k = i then 1 else 0)" if k: "k < length (rts w)" for k
    proof (cases "k = i")
      case False
      have "pot lst D ?w (rts ?w ! k) = pot lst D w (rts w ! k)"
        by (rule pot_others [OF lv(1) i al _ _ k False]) (auto simp: set_rt_def)
      then show ?thesis using False by simp
    next
      case True
      have "rank ?w ?rt' \<le> 5" by (rule rank_bound)
      then have "pot lst D ?w ?rt' < pot lst D w ?rt" using x by (simp add: pot_def rt_progs_def)
      then show ?thesis using True i by simp
    qed
    ultimately have "lgoes linv lst hinv hmap rinv rlist K J D (\<lambda>k. if k = i then 1 else 0) w ?w"
      unfolding lgoes_def using v(3-5) by (intro exI [of _ "[]"] exI [of _ ?J] exI [of _ D]) simp
    then show ?thesis using ok by blast
  qed
qed

lemma lgoes_tick:
  assumes lib: "voids_lib V hinv hmap rinv rlist" and cd: "cdlist L linv lst" and l: "lively linv lst hinv hmap rinv rlist K J D w"
    and i: "i < length (rts w)" and t: "tick_ok rnd clk fuel" "0 < sint rnd mod TIME_SLICE_MAX_NSEC"
  shows "\<exists>w'. rt_tick V L rnd clk fuel i w = Ok w' \<and> lgoes linv lst hinv hmap rinv rlist K J D (\<lambda>k. if k = i then 1 else 0) w w'"
proof -
  let ?rt = "rts w ! i" and ?l = "program_list (rts w ! i)"
  note lv = livelyD [OF l]
  have run: "running ?rt" "rt_pc ?rt \<noteq> RtDone" using lv(5) i by simp_all
  note rt = cdlist.rt_invD [OF cd lv(1) i]
  have step: ?thesis if "rt_tick V L rnd clk fuel i w = Ok (set_rt i rt' w)" "program_list rt' = ?l" "running rt'" "rt_pc rt' \<noteq> RtDone"
      "rt_progs lst ?rt \<noteq> [] \<Longrightarrow> rank w rt' < rank w ?rt" for rt'
    using lgoes_rt [OF l i cdlist.tick_inv [OF cd lv(1) i that(1)] that(2-5)] that(1) by blast
  have hd: "cd_head L ?l = NULL \<longleftrightarrow> rt_progs lst ?rt = []" using cdlist.head_NULL [OF cd rt(2)] by (simp add: rt_progs_def)
  show ?thesis
  proof (cases "rt_pc ?rt")
    case RtTop
    show ?thesis by (rule step [of "?rt\<lparr>rt_pc := RtWait\<rparr>"]) (use RtTop run in \<open>simp_all add: rt_tick_def rank_def Let_def\<close>)
  next
    case RtWait
    show ?thesis
    proof (cases "cd_head L ?l = NULL")
      case True
      show ?thesis by (rule step [of "?rt\<lparr>rt_pc := RtAsleep\<rparr>"]) (use True hd RtWait run in \<open>simp_all add: rt_tick_def Let_def\<close>)
    next
      case False
      show ?thesis by (rule step [of "?rt\<lparr>curr := cd_head L ?l, rt_pc := RtLoop\<rparr>"]) (use False RtWait run in \<open>simp_all add: rt_tick_def rank_def Let_def\<close>)
    qed
  next
    case RtAsleep
    have "rt_progs lst ?rt = []" using rt(1) RtAsleep by (simp add: rt_inv_def rt_progs_def)
    moreover have "set_rt i ?rt w = w" by (simp add: set_rt_def)
    ultimately show ?thesis by (intro step [of ?rt]) (use RtAsleep run in \<open>simp_all add: rt_tick_def Let_def\<close>)
  next
    case RtLoop
    show ?thesis
    proof (cases "curr ?rt = NULL")
      case True
      show ?thesis by (rule step [of "?rt\<lparr>rt_pc := RtTop\<rparr>"]) (use True RtLoop run in \<open>simp_all add: rt_tick_def rank_def Let_def\<close>)
    next
      case False
      show ?thesis by (rule lgoes_visit [OF lib cd l i RtLoop False t])
    qed
  next
    case (RtDecide a)
    show ?thesis by (rule lgoes_decide [OF lib cd l i RtDecide])
  next
    case RtCheck
    show ?thesis
      by (rule step [of "?rt\<lparr>curr := if cd_head L ?l = NULL then NULL else curr ?rt, rt_pc := RtLoop\<rparr>"])
        (use RtCheck run in \<open>simp_all add: rt_tick_def rank_def Let_def\<close>)
  qed (use run in simp)
qed


subsection \<open>Many steps\<close>

fun thread_live :: "nat \<Rightarrow> action \<Rightarrow> bool" where
  "thread_live n (Thread i rnd clk fuel) \<longleftrightarrow> i < n \<and> tick_ok rnd clk fuel \<and> 0 < sint rnd mod TIME_SLICE_MAX_NSEC"
| "thread_live n (Typed pre ws junk jc jp) \<longleftrightarrow> False"

fun steps :: "nat \<Rightarrow> action list \<Rightarrow> nat" where
  "steps k [] = 0"
| "steps k (Thread i rnd clk fuel # as) = (if k = i then 1 else 0) + steps k as"
| "steps k (Typed pre ws junk jc jp # as) = steps k as"

lemma steps_append: "steps k (as @ bs) = steps k as + steps k bs"
  by (induction k "as" rule: steps.induct) simp_all

lemma thread_live_ok: "list_all (thread_live n) bs \<Longrightarrow> list_all (thread_ok n) bs"
proof (induction bs)
  case (Cons b bs)
  then show ?case by (cases b) simp_all
qed simp

lemma acts_append: "acts V L fs (as @ bs) w = bnd (acts V L fs as w) (acts V L fs bs)"
proof (induction "as" arbitrary: w)
  case (Cons a "as")
  then show ?case by (cases "act V L fs a w") simp_all
qed simp

lemma lgoes_refl: "lively linv lst hinv hmap rinv rlist K J D w \<Longrightarrow> lgoes linv lst hinv hmap rinv rlist K J D (\<lambda>k. 0) w w"
  unfolding lgoes_def using jobs_refl [of K "sh_max (shm w)" J] by (intro exI [of _ "[]"] exI [of _ J] exI [of _ D]) simp

lemma lgoes_acts:
  assumes lib: "voids_lib V hinv hmap rinv rlist" and cd: "cdlist L linv lst"
  shows "lively linv lst hinv hmap rinv rlist K J D w \<Longrightarrow> list_all (thread_live (length (rts w))) bs \<Longrightarrow>
    \<exists>w'. acts V L fs bs w = Ok w' \<and> lgoes linv lst hinv hmap rinv rlist K J D (\<lambda>k. steps k bs) w w'"
proof (induction bs arbitrary: w J D)
  case Nil
  then show ?case using lgoes_refl by simp
next
  case (Cons b bs)
  obtain i rnd clk fuel where b: "b = Thread i rnd clk fuel" using Cons.prems(2) by (cases b) auto
  have t: "i < length (rts w)" "tick_ok rnd clk fuel" "0 < sint rnd mod TIME_SLICE_MAX_NSEC" using Cons.prems(2) b by simp_all
  obtain w1 where w1: "act V L fs b w = Ok w1" "lgoes linv lst hinv hmap rinv rlist K J D (\<lambda>k. if k = i then 1 else 0) w w1"
    using lgoes_tick [OF lib cd Cons.prems(1) t] b by auto
  obtain cs J1 D1 where J1: "lively linv lst hinv hmap rinv rlist K J1 D1 w1" "jobs_go K (sh_max (shm w)) cs J J1"
    "sh_out (shm w1) = sh_out (shm w) @ concat (map snd cs)" "sh_max (shm w1) = sh_max (shm w)" "length (rts w1) = length (rts w)"
    "\<forall>k < length (rts w). pot lst D1 w1 (rts w1 ! k) \<le> pot lst D w (rts w ! k) - (if k = i then 1 else 0)"
    using w1(2) unfolding lgoes_def by blast
  obtain w2 ds J2 D2 where w2: "acts V L fs bs w1 = Ok w2" "lively linv lst hinv hmap rinv rlist K J2 D2 w2" "jobs_go K (sh_max (shm w1)) ds J1 J2"
    "sh_out (shm w2) = sh_out (shm w1) @ concat (map snd ds)" "sh_max (shm w2) = sh_max (shm w1)" "length (rts w2) = length (rts w1)"
    "\<forall>k < length (rts w1). pot lst D2 w2 (rts w2 ! k) \<le> pot lst D1 w1 (rts w1 ! k) - steps k bs"
  proof -
    have "list_all (thread_live (length (rts w1))) bs" using Cons.prems(2) J1(5) by simp
    from Cons.IH [OF J1(1) this] show thesis unfolding lgoes_def by (elim exE conjE) (rule that)
  qed
  have "pot lst D2 w2 (rts w2 ! k) \<le> pot lst D w (rts w ! k) - steps k (b # bs)" if "k < length (rts w)" for k
  proof -
    have "pot lst D2 w2 (rts w2 ! k) \<le> pot lst D1 w1 (rts w1 ! k) - steps k bs" using w2(7) that J1(5) by simp
    moreover have "pot lst D1 w1 (rts w1 ! k) \<le> pot lst D w (rts w ! k) - (if k = i then 1 else 0)" using J1(6) that by blast
    ultimately show ?thesis by (simp add: b)
  qed
  moreover have "jobs_go K (sh_max (shm w)) (cs @ ds) J J2" by (rule jobs_trans [OF J1(2)]) (use w2(3) J1(4) in simp)
  ultimately have "lgoes linv lst hinv hmap rinv rlist K J D (\<lambda>k. steps k (b # bs)) w w2"
    unfolding lgoes_def using w2 J1 by (intro exI [of _ "cs @ ds"] exI [of _ J2] exI [of _ D2]) simp
  then show ?case using w1(1) w2(1) by simp
qed

text \<open>When no program is left.\<close>

lemma lists_empty:
  assumes "winv linv lst w" and "\<And>k. k < length (rts w) \<Longrightarrow> rt_progs lst (rts w ! k) = []"
  shows "progs w = Map.empty"
proof -
  have "concat (map (rt_progs lst) (rts w)) = []" using assms(2) by (auto simp: in_set_conv_nth)
  then have "dom (progs w) = {}" using assms(1) unfolding winv_def by simp
  then show ?thesis by simp
qed

lemma jobs_of_finite: "finite (dom (jobs_of F k as))"
proof (induction "as" arbitrary: k)
  case (Cons a "as")
  then show ?case by (cases "new_job F k a") (simp_all del: fun_upd_apply)
qed simp

lemma pot_bound:
  assumes inv: "winv linv lst w" and i: "i < length (rts w)" and d: "\<And>a. a \<in> dom (progs w) \<Longrightarrow> D a = Some B" and s: "finite S" "dom (progs w) \<subseteq> S"
  shows "pot lst D w (rts w ! i) \<le> 6 * (B + 1) * card S + 5"
proof -
  let ?as = "rt_progs lst (rts w ! i)"
  have "set ?as \<subseteq> set (concat (map (rt_progs lst) (rts w)))" using i by fastforce
  then have sub: "set ?as \<subseteq> dom (progs w)" using inv unfolding winv_def by blast
  then have "length ?as \<le> card S"
    unfolding distinct_card [OF progs_distinct [OF inv i], symmetric] by (intro card_mono s(1) subset_trans [OF sub s(2)])
  moreover have "left_of D ?as = (B + 1) * length ?as"
  proof -
    have "map (\<lambda>a. the (D a) + 1) ?as = map (\<lambda>a. B + 1) ?as" by (rule map_cong [OF refl]) (use d [OF subsetD [OF sub]] in simp)
    then show ?thesis by (simp add: left_of_def map_replicate_const sum_list_replicate)
  qed
  ultimately have "left_of D ?as \<le> (B + 1) * card S" by (metis mult_le_mono2)
  then have "6 * left_of D ?as \<le> 6 * ((B + 1) * card S)" by simp
  then show ?thesis using rank_bound [of w "rts w ! i"] unfolding pot_def by (simp only: mult.assoc split: if_splits)  linarith
qed


lemma process_runs_out:
  assumes lib: "voids_lib V hinv hmap rinv rlist" and cd: "cdlist L linv lst" and n: "0 < n" and w0: "process_start V L n mm p0 = Ok w0"
    and len: "length as < 2 ^ 31 - 1" and ok: "acts_ok V L F as w0" and live: "list_all (thread_live n) bs"
    and fin: "\<And>a av P tk. jobs_of F 1 as a = Some (av, P, tk) \<Longrightarrow> lasts av mm P B"
    and many: "\<And>i. i < n \<Longrightarrow> 6 * (B + 1) * card (dom (jobs_of F 1 as)) + 5 \<le> steps i bs"
  obtains w cs J where "acts V L (texts F) (as @ bs) w0 = Ok w" "winv linv lst w" "progs w = Map.empty" "wsim hinv hmap rinv rlist (set (kills as)) J w"
    "jobs_go (set (kills as)) mm cs (fresh_jobs F 1 as) J" "sh_out (shm w) = concat (map snd cs)"
proof -
  let ?S = "dom (jobs_of F 1 as)" and ?K = "set (kills as)"
  let ?D = "\<lambda>a. if a \<in> ?S then Some B else None"
  obtain w cs J where w: "acts V L (texts F) as w0 = Ok w" "pinv linv lst hinv hmap rinv rlist ?K ?D J w"
      "jobs_go ?K mm cs (fresh_jobs F 1 as) J" "sh_out (shm w) = concat (map snd cs)" "sh_max (shm w) = mm" "length (rts w) = n"
    by (rule process_runs [OF lib cd n w0 len ok subset_refl, where D = ?D]) (use fin in \<open>auto split: if_splits\<close>)
  note i = pinvD [OF w(2)]
  have "dom J = dom (progs w)" using i(2) unfolding wsim_def by blast
  then have sub: "dom (progs w) \<subseteq> ?S" using jobs_dom(1) [OF w(3)] by (simp only: fresh_jobs_dom)
  have l: "lively linv lst hinv hmap rinv rlist ?K J ?D w"
    unfolding lively_def using i(1,2,7,8) sub by (auto simp: dom_def)
  obtain w' ds J' D' where w': "acts V L (texts F) bs w = Ok w'" "lively linv lst hinv hmap rinv rlist ?K J' D' w'" "jobs_go ?K (sh_max (shm w)) ds J J'"
      "sh_out (shm w') = sh_out (shm w) @ concat (map snd ds)" "length (rts w') = length (rts w)"
      "\<forall>k < length (rts w). pot lst D' w' (rts w' ! k) \<le> pot lst ?D w (rts w ! k) - steps k bs"
  proof -
    have "list_all (thread_live (length (rts w))) bs" using live w(6) by simp
    from lgoes_acts [OF lib cd l this, of "texts F"] show thesis unfolding lgoes_def by (elim exE conjE) (rule that)
  qed
  have none: "rt_progs lst (rts w' ! k) = []" if k: "k < length (rts w')" for k
  proof -
    have "pot lst ?D w (rts w ! k) \<le> 6 * (B + 1) * card ?S + 5"
      by (rule pot_bound [OF i(1) _ _ jobs_of_finite sub]) (use k w'(5) sub in auto)
    moreover have "6 * (B + 1) * card ?S + 5 \<le> steps k bs" by (rule many) (use k w'(5) w(6) in simp)
    moreover have "pot lst D' w' (rts w' ! k) \<le> pot lst ?D w (rts w ! k) - steps k bs" using w'(5,6) k by simp
    ultimately have "pot lst D' w' (rts w' ! k) = 0" by linarith
    then show ?thesis by (simp only: pot_zero)
  qed
  show thesis
  proof (rule that)
    show "acts V L (texts F) (as @ bs) w0 = Ok w'" using w(1) w'(1) by (simp add: acts_append)
    show "winv linv lst w'" "wsim hinv hmap rinv rlist ?K J' w'" by (rule livelyD(1,2) [OF w'(2)])+
    show "progs w' = Map.empty" by (rule lists_empty [OF livelyD(1) [OF w'(2)] none])
    show "jobs_go ?K mm (cs @ ds) (fresh_jobs F 1 as) J'" by (rule jobs_trans [OF w(3)]) (use w'(3) w(5) in simp)
    show "sh_out (shm w') = concat (map snd (cs @ ds))" using w(4) w'(4) by simp
  qed
qed

end
