(* ===== verification/Typing.thy ===== *)
theory Typing imports Exec LineSafe begin

section \<open>Types of blocks\<close>

text \<open>
  C has no types at run time, so that a pointer to one kind of structure is read as another is found by nobody.  Here every address gets a
  sort when it is allocated, for ever; \<open>conf\<close> says that blocks, tables, the ring buffer and the semaphore point only to
  addresses of the right sorts.  A token's sort has its type, and that of an instruction its code; the names of variables and of labels have sorts of their own, as both live in
  one table.  \<open>tp m Q\<close> says that \<open>m\<close> does not read a block as another type, and that \<open>Q\<close> holds if it returns.
\<close>

datatype sort = NameS | LblS | StrS | IntsS | ArrS | TokS token_type_e | InsS instruction_id_e | LabelS | GVarS

type_synonym sorts = "addr \<Rightarrow> sort option"

text \<open>What a label begins with.\<close>

definition lname :: "string \<Rightarrow> bool" where
  "lname x \<longleftrightarrow> x \<noteq> [] \<and> hd x = CHR ''L''"

definition ptr :: "sorts \<Rightarrow> sort \<Rightarrow> addr \<Rightarrow> bool" where
  "ptr S k a \<longleftrightarrow> a = NULL \<or> S a = Some k"

text \<open>What the fields of tokens and array tokens hold, by the type; nothing stored is no error of types.\<close>

fun data_ok :: "sorts \<Rightarrow> token_type_e \<Rightarrow> varval_u \<Rightarrow> bool" where
  "data_ok S ty Uninit \<longleftrightarrow> True"
| "data_ok S ty (Value v) \<longleftrightarrow> ty = INT_VAL_TOK"
| "data_ok S ty (Ptr p) \<longleftrightarrow> (case ty of LABEL_TOK \<Rightarrow> ptr S LblS p | INT_VAR_TOK \<Rightarrow> ptr S NameS p | STRING_TOK \<Rightarrow> ptr S StrS p
     | INT_ARR_TOK \<Rightarrow> ptr S ArrS p | _ \<Rightarrow> False)"

fun idx_ok :: "sorts \<Rightarrow> token_type_e option \<Rightarrow> varval_u \<Rightarrow> bool" where
  "idx_ok S None d \<longleftrightarrow> d = Uninit"
| "idx_ok S (Some ty) d \<longleftrightarrow> ty \<in> {INT_VAL_TOK, INT_VAR_TOK, INT_ARR_TOK} \<and> data_ok S ty d"

fun tok_ok :: "sorts \<Rightarrow> sort \<Rightarrow> token_s \<Rightarrow> bool" where
  "tok_ok S (TokS ty) t \<longleftrightarrow> tok_type t = ty \<and> ty \<noteq> INSTRUCTION_TOK \<and> data_ok S ty (tok_data t)"
| "tok_ok S (InsS i) t \<longleftrightarrow> tok_type t = INSTRUCTION_TOK \<and> (tok_data t = Uninit \<or> tok_data t = Value (word_of_nat (ins_code i)))"
| "tok_ok S _ t \<longleftrightarrow> False"

fun is_tok :: "sort \<Rightarrow> bool" where
  "is_tok (TokS ty) \<longleftrightarrow> ty \<noteq> INSTRUCTION_TOK"
| "is_tok (InsS i) \<longleftrightarrow> True"
| "is_tok _ \<longleftrightarrow> False"

fun block_ok :: "sorts \<Rightarrow> sort \<Rightarrow> block \<Rightarrow> bool" where
  "block_ok S k (StrB x) \<longleftrightarrow> k = StrS \<or> k = NameS \<and> \<not> lname x \<or> k = LblS \<and> lname x"
| "block_ok S k (IntsB xs) \<longleftrightarrow> k = IntsS"
| "block_ok S k (ArrTokB t) \<longleftrightarrow> k = ArrS \<and> ptr S NameS (at_name t) \<and> idx_ok S (at_idx_type t) (at_idx t)"
| "block_ok S k (TokB t) \<longleftrightarrow> tok_ok S k t"
| "block_ok S k (LabelB l) \<longleftrightarrow> k = LabelS"
| "block_ok S k (GVarB g) \<longleftrightarrow> k = GVarS \<and> ptr S IntsS (gv_count g)"

definition mem_conf :: "sorts \<Rightarrow> (addr \<Rightarrow> block option) \<Rightarrow> addr \<Rightarrow> bool" where
  "mem_conf S h f \<longleftrightarrow> h NULL = None \<and> 0 < f \<and> S NULL = None \<and> (\<forall>a. f \<le> a \<longrightarrow> h a = None \<and> S a = None) \<and>
     (\<forall>a b. h a = Some b \<longrightarrow> (\<exists>k. S a = Some k \<and> block_ok S k b))"

text \<open>The tables: labels and variables by their names, and globals.\<close>

definition vars_conf :: "('h \<Rightarrow> bool) \<Rightarrow> ('h \<Rightarrow> pairs) \<Rightarrow> sorts \<Rightarrow> 'h \<Rightarrow> bool" where
  "vars_conf hinv hmap S h \<longleftrightarrow> hinv h \<and> (\<forall>k ka d. hmap h k = Some (ka, d) \<longrightarrow> ptr S (if lname k then LabelS else IntsS) d)"

definition globs_conf :: "('h \<Rightarrow> bool) \<Rightarrow> ('h \<Rightarrow> pairs) \<Rightarrow> sorts \<Rightarrow> 'h \<Rightarrow> bool" where
  "globs_conf hinv hmap S h \<longleftrightarrow> hinv h \<and> (\<forall>k ka d. hmap h k = Some (ka, d) \<longrightarrow> ptr S GVarS d)"

definition ring_conf :: "('r \<Rightarrow> bool) \<Rightarrow> ('r \<Rightarrow> addr list) \<Rightarrow> sorts \<Rightarrow> 'r \<Rightarrow> bool" where
  "ring_conf rinv rlist S r \<longleftrightarrow> rinv r \<and> (\<forall>a \<in> set (rlist r). \<exists>k. S a = Some k \<and> is_tok k)"

text \<open>What belongs to a program, and what all share.\<close>

definition prog_conf :: "('h \<Rightarrow> bool) \<Rightarrow> ('h \<Rightarrow> pairs) \<Rightarrow> ('r \<Rightarrow> bool) \<Rightarrow> ('r \<Rightarrow> addr list) \<Rightarrow> sorts \<Rightarrow> ('h, 'r, 'z) program_s_scheme \<Rightarrow> bool" where
  "prog_conf hinv hmap rinv rlist S p \<longleftrightarrow> vars_conf hinv hmap S (vartable p) \<and> ring_conf rinv rlist S (translated_line p)"

text \<open>The semaphore of a program that is blocked.\<close>

definition sem_conf :: "sorts \<Rightarrow> ('h, 'r, 'z) program_s_scheme \<Rightarrow> bool" where
  "sem_conf S p \<longleftrightarrow> (pstate p = BLOCKED \<longrightarrow> ptr S GVarS (sem p))"

definition conf :: "('h \<Rightarrow> bool) \<Rightarrow> ('h \<Rightarrow> pairs) \<Rightarrow> ('r \<Rightarrow> bool) \<Rightarrow> ('r \<Rightarrow> addr list) \<Rightarrow> sorts \<Rightarrow> ('h, 'r) st \<Rightarrow> bool" where
  "conf hinv hmap rinv rlist S s \<longleftrightarrow> mem_conf S (heap s) (fresh s) \<and> globs_conf hinv hmap S (gtab s) \<and> itab_ok hinv hmap (itable s) \<and>
     prog_conf hinv hmap rinv rlist S s"

subsection \<open>Larger typings\<close>

lemma ptr_NULL [simp]: "ptr S k NULL"
  by (simp add: ptr_def)

lemma ptr_mono: "S \<subseteq>\<^sub>m S' \<Longrightarrow> ptr S k a \<Longrightarrow> ptr S' k a"
  by (auto simp: ptr_def map_le_def dom_def)

lemma sort_mono: "S \<subseteq>\<^sub>m S' \<Longrightarrow> S a = Some k \<Longrightarrow> S' a = Some k"
  by (auto simp: map_le_def dom_def)

lemma data_mono: "S \<subseteq>\<^sub>m S' \<Longrightarrow> data_ok S ty d \<Longrightarrow> data_ok S' ty d"
  by (cases d) (auto split: token_type_e.splits intro: ptr_mono)

lemma tok_mono: "S \<subseteq>\<^sub>m S' \<Longrightarrow> tok_ok S k t \<Longrightarrow> tok_ok S' k t"
  by (cases k) (auto intro: data_mono)

lemma idx_mono: "S \<subseteq>\<^sub>m S' \<Longrightarrow> idx_ok S ty d \<Longrightarrow> idx_ok S' ty d"
  by (cases ty) (auto intro: data_mono)

lemma block_mono: "S \<subseteq>\<^sub>m S' \<Longrightarrow> block_ok S k b \<Longrightarrow> block_ok S' k b"
  by (cases b) (auto intro: ptr_mono tok_mono idx_mono)

lemma vars_mono: "S \<subseteq>\<^sub>m S' \<Longrightarrow> vars_conf hinv hmap S h \<Longrightarrow> vars_conf hinv hmap S' h"
  unfolding vars_conf_def by (blast intro: ptr_mono)

lemma ring_mono: "S \<subseteq>\<^sub>m S' \<Longrightarrow> ring_conf rinv rlist S r \<Longrightarrow> ring_conf rinv rlist S' r"
  unfolding ring_conf_def by (blast intro: sort_mono)

lemma prog_mono: "S \<subseteq>\<^sub>m S' \<Longrightarrow> prog_conf hinv hmap rinv rlist S p \<Longrightarrow> prog_conf hinv hmap rinv rlist S' p"
  unfolding prog_conf_def by (blast intro: vars_mono ring_mono)

lemma globs_mono: "S \<subseteq>\<^sub>m S' \<Longrightarrow> globs_conf hinv hmap S h \<Longrightarrow> globs_conf hinv hmap S' h"
  unfolding globs_conf_def by (blast intro: ptr_mono)

lemma vars_upd:
  assumes v: "vars_conf hinv hmap S h" and h': "hinv h'" "hmap h' = (hmap h)(k \<mapsto> (ka, d))" "ptr S (if lname k then LabelS else IntsS) d"
  shows "vars_conf hinv hmap S h'"
proof -
  have "ptr S (if lname x then LabelS else IntsS) e" if "hmap h' x = Some (kx, e)" for x kx e
    using that v h' by (cases "x = k") (auto simp: vars_conf_def simp del: split_paired_All)
  then show ?thesis using h'(1) unfolding vars_conf_def by blast
qed

text \<open>A new address, a new contents, and no contents.\<close>

lemma mem_alloc:
  assumes m: "mem_conf S h f" and b: "block_ok (S(f \<mapsto> k)) k b"
  shows "mem_conf (S(f \<mapsto> k)) (h(f \<mapsto> b)) (Suc f)" "S \<subseteq>\<^sub>m S(f \<mapsto> k)"
proof -
  have n: "S f = None" "f \<noteq> NULL" using m by (simp_all add: mem_conf_def)
  show le: "S \<subseteq>\<^sub>m S(f \<mapsto> k)" using n(1) by (auto simp: map_le_def)
  have "\<exists>k'. (S(f \<mapsto> k)) a = Some k' \<and> block_ok (S(f \<mapsto> k)) k' b'" if "(h(f \<mapsto> b)) a = Some b'" for a b'
  proof (cases "a = f")
    case True
    then show ?thesis using that b by simp
  next
    case False
    then have "h a = Some b'" using that by simp
    then obtain k' where "S a = Some k'" "block_ok S k' b'" using m unfolding mem_conf_def by blast
    then show ?thesis using False block_mono [OF le] by auto
  qed
  then show "mem_conf (S(f \<mapsto> k)) (h(f \<mapsto> b)) (Suc f)" using m n unfolding mem_conf_def by simp
qed

lemma mem_store:
  assumes m: "mem_conf S h f" and a: "S a = Some k" "block_ok S k b"
  shows "mem_conf S (h(a \<mapsto> b)) f"
proof -
  have "a \<noteq> NULL" "a < f" using m a(1) unfolding mem_conf_def by (metis option.distinct(1), metis not_le option.distinct(1))
  then show ?thesis using m a unfolding mem_conf_def by auto
qed

lemma mem_release: "mem_conf S h f \<Longrightarrow> mem_conf S (h(a := None)) f"
  unfolding mem_conf_def by simp

subsection \<open>Computations\<close>

primrec tp :: "'a res \<Rightarrow> ('a \<Rightarrow> bool) \<Rightarrow> bool" where
  "tp (Ok x) Q = Q x"
| "tp (Undef k) Q = (k \<noteq> TypeConfusion)"
| "tp Exit Q = True"
| "tp Diverge Q = True"

lemma tp_bnd [simp]: "tp (bnd m f) Q = tp m (\<lambda>x. tp (f x) Q)"
  by (cases m) simp_all

lemma tp_mono: "tp m P \<Longrightarrow> (\<And>x. P x \<Longrightarrow> Q x) \<Longrightarrow> tp m Q"
  by (cases m) simp_all

lemma tp_iff: "tp m Q \<longleftrightarrow> m \<noteq> Undef TypeConfusion \<and> (\<forall>x. m = Ok x \<longrightarrow> Q x)"
  by (cases m) auto

lemma tp_ifI: "(b \<Longrightarrow> tp m Q) \<Longrightarrow> (\<not> b \<Longrightarrow> tp n Q) \<Longrightarrow> tp (if b then m else n) Q"
  by simp

text \<open>Arithmetic and cells.\<close>

lemma tp_chk [simp]: "(\<And>v. Q v) \<Longrightarrow> tp (chk i) Q"
  by (simp add: chk_def)

lemma tp_arith: "(\<And>v. Q v) \<Longrightarrow> tp (c_add a b) Q" "(\<And>v. Q v) \<Longrightarrow> tp (c_sub a b) Q" "(\<And>v. Q v) \<Longrightarrow> tp (c_mul a b) Q"
  "(\<And>v. Q v) \<Longrightarrow> tp (c_div a b) Q" "(\<And>v. Q v) \<Longrightarrow> tp (c_mod a b) Q"
  by (simp_all add: c_add_def c_sub_def c_mul_def c_div_def c_mod_def)

lemma tp_cell: "(\<And>v. Q v) \<Longrightarrow> tp (cell i xs) Q"
  by (simp add: cell_def split: option.splits)

lemma tp_set_cell: "(\<And>ys. Q ys) \<Longrightarrow> tp (set_cell i v xs) Q"
  by (simp add: set_cell_def)

lemma tp_fill: "(\<And>ys. Q ys) \<Longrightarrow> tp (fill i hi v xs) Q"
proof -
  have "fill i hi v xs \<noteq> Undef TypeConfusion"
  proof (induction i hi v xs rule: fill.induct)
    case (1 i hi v xs)
    then show ?case by (subst fill.simps, cases "set_cell i v xs") (simp_all add: set_cell_def split: if_splits)
  qed
  then show "tp (fill i hi v xs) Q" if "\<And>ys. Q ys" using that by (simp add: tp_iff)
qed

lemma tp_argv: "(\<And>v. Q v) \<Longrightarrow> tp (argv_at i s) Q"
  by (simp add: argv_at_def)


subsection \<open>Reading\<close>

lemma tp_deref:
  assumes "mem_conf S (heap s) f" and "ptr S k a" and "\<And>b. heap s a = Some b \<Longrightarrow> S a = Some k \<Longrightarrow> block_ok S k b \<Longrightarrow> Q b"
  shows "tp (deref a s) Q"
proof (cases "heap s a")
  case (Some b)
  then have "S a = Some k" using assms(1,2) by (auto simp: ptr_def mem_conf_def)
  then have "block_ok S k b" using assms(1) Some by (fastforce simp: mem_conf_def)
  then show ?thesis using Some assms(3) \<open>S a = Some k\<close> by (simp add: deref_def)
qed (simp add: deref_def)

lemma tp_read_str:
  assumes "mem_conf S (heap s) f" and "ptr S k a" and "k \<in> {NameS, LblS, StrS}" and "\<And>x. block_ok S k (StrB x) \<Longrightarrow> Q x"
  shows "tp (read_str a s) Q"
proof -
  have "tp (as_str b) Q" if "block_ok S k b" for b
    using that assms(3,4) by (cases b) auto
  then show ?thesis unfolding read_str_def tp_bnd by (intro tp_deref [OF assms(1,2)])
qed

lemma tp_read_ints:
  assumes "mem_conf S (heap s) f" and "ptr S IntsS a" and "\<And>xs. S a = Some IntsS \<Longrightarrow> Q xs"
  shows "tp (read_ints a s) Q"
proof -
  have "tp (as_ints b) Q" if "block_ok S IntsS b" "S a = Some IntsS" for b
    using that assms(3) by (cases b) auto
  then show ?thesis unfolding read_ints_def tp_bnd by (intro tp_deref [OF assms(1,2)])
qed

lemma tp_read_arrtok:
  assumes "mem_conf S (heap s) f" and "ptr S ArrS a" and "\<And>t. heap s a = Some (ArrTokB t) \<Longrightarrow> S a = Some ArrS \<Longrightarrow> block_ok S ArrS (ArrTokB t) \<Longrightarrow> Q t"
  shows "tp (read_arrtok a s) Q"
proof -
  have "tp (as_arrtok b) Q" if "heap s a = Some b" "block_ok S ArrS b" "S a = Some ArrS" for b
    using that assms(3) by (cases b) auto
  then show ?thesis unfolding read_arrtok_def tp_bnd by (intro tp_deref [OF assms(1,2)])
qed

lemma tp_read_tok:
  assumes "mem_conf S (heap s) f" and "ptr S k a" and "is_tok k" and "\<And>t. heap s a = Some (TokB t) \<Longrightarrow> S a = Some k \<Longrightarrow> tok_ok S k t \<Longrightarrow> Q t"
  shows "tp (read_tok a s) Q"
proof -
  have "tp (as_tok b) Q" if "heap s a = Some b" "block_ok S k b" "S a = Some k" for b
    using that assms(3,4) by (cases b) auto
  then show ?thesis unfolding read_tok_def tp_bnd by (intro tp_deref [OF assms(1,2)])
qed

lemma tp_read_label:
  assumes "mem_conf S (heap s) f" and "ptr S LabelS a" and "\<And>l. Q l"
  shows "tp (read_label a s) Q"
proof -
  have "tp (as_label b) Q" if "block_ok S LabelS b" for b
    using that assms(3) by (cases b) auto
  then show ?thesis unfolding read_label_def tp_bnd by (intro tp_deref [OF assms(1,2)])
qed

lemma tp_read_gvar:
  assumes "mem_conf S (heap s) f" and "ptr S GVarS a" and "\<And>g. S a = Some GVarS \<Longrightarrow> ptr S IntsS (gv_count g) \<Longrightarrow> Q g"
  shows "tp (read_gvar a s) Q"
proof -
  have "tp (as_gvar b) Q" if "block_ok S GVarS b" "S a = Some GVarS" for b
    using that assms(3) by (cases b) auto
  then show ?thesis unfolding read_gvar_def tp_bnd by (intro tp_deref [OF assms(1,2)])
qed

lemma tp_read_head:
  assumes "mem_conf S (heap s) f" and "ptr S k a" and "k \<in> {IntsS, LabelS}" and "\<And>v. Q v"
  shows "tp (read_head a s) Q"
proof -
  have "tp (case b of IntsB xs \<Rightarrow> cell 0 xs | LabelB l \<Rightarrow> Ok (lbl_placeholder l) | _ \<Rightarrow> Undef TypeConfusion) Q" if "block_ok S k b" for b
    using that assms(3,4) by (cases b) (auto intro!: tp_cell)
  then show ?thesis unfolding read_head_def tp_bnd by (intro tp_deref [OF assms(1,2)])
qed

lemma tp_as_ptr: "data_ok S ty d \<Longrightarrow> ty \<noteq> INT_VAL_TOK \<Longrightarrow>
    (\<And>p. d = Ptr p \<Longrightarrow> data_ok S ty (Ptr p) \<Longrightarrow> Q p) \<Longrightarrow> tp (as_ptr d) Q"
  by (cases d) simp_all

lemma tp_as_value: "data_ok S ty d \<Longrightarrow> ty = INT_VAL_TOK \<Longrightarrow> (\<And>v. Q v) \<Longrightarrow> tp (as_value d) Q"
  by (cases d) (auto split: token_type_e.splits)


subsection \<open>Handles\<close>

text \<open>
  The code keeps a pointer to a pair of a table while it evaluates an index, which may insert other pairs.  That the pointer is still valid means that
  it leads to the pair that it was made for: a pair of the table, under the same key as before.
\<close>

locale voids_handles = voids_lib +
  assumes valid_find: "hinv h \<Longrightarrow> qh_valid V h p \<Longrightarrow> \<exists>k. qh_find V h k = (Some p, VDS_SUCCESS)"
    and one_key: "hinv h \<Longrightarrow> hinv h' \<Longrightarrow> qh_find V h k = (Some p, e) \<Longrightarrow> qh_find V h' k' = (Some p, e') \<Longrightarrow> k = k'"

interpretation lvh: voids_handles list_voids l_hinv map_of l_rinv snd
proof
  show "\<exists>k. qh_find list_voids h k = (Some p, VDS_SUCCESS)" if "qh_valid list_voids h p" for h p
    using that by (intro exI [of _ p]) (auto simp: list_voids_def)
  show "k = k'" if "qh_find list_voids h k = (Some p, e)" "qh_find list_voids h' k' = (Some p, e')" for h h' p k k' e e'
    using that by (auto simp: list_voids_def split: option.splits)
qed

subsection \<open>From one state to the next\<close>

definition keeps :: "('h, 'r) st \<Rightarrow> ('h, 'r) st \<Rightarrow> bool" where
  "keeps s s' \<longleftrightarrow> translated_line s' = translated_line s \<and> fbuf s' = fbuf s \<and> fpos s' = fpos s \<and> c_in s' = c_in s \<and>
     (pstate s' = pstate s \<or> pstate s' = FINISHED)"

text \<open>The state \<open>s\<close>, with the typing \<open>S\<close>, comes after \<open>s0\<close>, with the typing \<open>S0\<close>.\<close>

definition past :: "('h \<Rightarrow> bool) \<Rightarrow> ('h \<Rightarrow> pairs) \<Rightarrow> ('r \<Rightarrow> bool) \<Rightarrow> ('r \<Rightarrow> addr list) \<Rightarrow> sorts \<Rightarrow> ('h, 'r) st \<Rightarrow> sorts \<Rightarrow> ('h, 'r) st \<Rightarrow> bool" where
  "past hinv hmap rinv rlist S0 s0 S s \<longleftrightarrow> S0 \<subseteq>\<^sub>m S \<and> conf hinv hmap rinv rlist S s \<and> keeps s0 s"

lemma keeps_refl: "keeps s s"
  by (simp add: keeps_def)

lemma keeps_trans: "keeps s s1 \<Longrightarrow> keeps s1 s2 \<Longrightarrow> keeps s s2"
  by (auto simp: keeps_def)

lemma conf_mem: "conf hinv hmap rinv rlist S s \<Longrightarrow> mem_conf S (heap s) (fresh s)"
  by (simp add: conf_def)

lemma past_mem: "past hinv hmap rinv rlist S0 s0 S s \<Longrightarrow> mem_conf S (heap s) (fresh s)"
  by (simp add: past_def conf_def)

lemma past_refl: "conf hinv hmap rinv rlist S s \<Longrightarrow> past hinv hmap rinv rlist S s S s"
  by (simp add: past_def keeps_refl)

text \<open>Fields that are no pointers.\<close>

lemma conf_cong:
  assumes "conf hinv hmap rinv rlist S s" and "heap s' = heap s" "fresh s' = fresh s" "gtab s' = gtab s" "itable s' = itable s"
    "vartable s' = vartable s" "translated_line s' = translated_line s"
  shows "conf hinv hmap rinv rlist S s'"
  using assms by (simp add: conf_def prog_conf_def)

lemma past_die: "past hinv hmap rinv rlist S0 s0 S s \<Longrightarrow> past hinv hmap rinv rlist S0 s0 S (die m s)"
  unfolding past_def
  by (auto simp: keeps_def die_def err_msg_def program_stop_def split: prod.splits elim!: conf_cong)

lemma past_heap:
  assumes p: "past hinv hmap rinv rlist S0 s0 S s" and m: "mem_conf S' h f" "S \<subseteq>\<^sub>m S'"
  shows "past hinv hmap rinv rlist S0 s0 S' (s\<lparr>heap := h, fresh := f\<rparr>)"
proof -
  have "conf hinv hmap rinv rlist S s" "S0 \<subseteq>\<^sub>m S'" using p map_le_trans [OF _ m(2)] by (auto simp: past_def)
  moreover have "prog_conf hinv hmap rinv rlist S' (s\<lparr>heap := h, fresh := f\<rparr>)"
    using prog_mono [OF m(2), of hinv hmap rinv rlist s] calculation(1) by (simp add: conf_def prog_conf_def)
  ultimately show ?thesis using p m(1) globs_mono [OF m(2), of hinv hmap "gtab s"] by (simp add: past_def conf_def keeps_def)
qed

lemma past_old_heap: "past hinv hmap rinv rlist S0 s0 S s \<Longrightarrow> mem_conf S h (fresh s) \<Longrightarrow> past hinv hmap rinv rlist S0 s0 S (s\<lparr>heap := h\<rparr>)"
  using past_heap [of hinv hmap rinv rlist S0 s0 S s S h "fresh s"] by simp

lemma tp_dealloc:
  assumes "past hinv hmap rinv rlist S0 s0 S s" and "\<And>s'. past hinv hmap rinv rlist S0 s0 S s' \<Longrightarrow> Q s'"
  shows "tp (dealloc a s) Q"
  using assms past_old_heap [OF assms(1) mem_release [OF past_mem [OF assms(1)]], of a] by (simp add: dealloc_def split: option.splits)

lemma tp_store:
  assumes "past hinv hmap rinv rlist S0 s0 S s" and "S a = Some k" and "block_ok S k b" and "\<And>s'. past hinv hmap rinv rlist S0 s0 S s' \<Longrightarrow> Q s'"
  shows "tp (store a b s) Q"
  using assms(4) past_old_heap [OF assms(1) mem_store [OF past_mem [OF assms(1)] assms(2,3)]]
  by (simp add: store_def deref_def split: option.splits)

lemma past_alloc:
  assumes p: "past hinv hmap rinv rlist S0 s0 S s" and b: "block_ok (S(fresh s \<mapsto> k)) k b" and a: "alloc b s = (a, s')"
  obtains S' where "past hinv hmap rinv rlist S0 s0 S' s'" "S \<subseteq>\<^sub>m S'" "S' a = Some k"
  using past_heap [OF p mem_alloc [OF past_mem [OF p] b]] mem_alloc(2) [OF past_mem [OF p] b] a by (fastforce simp: alloc_def)

lemma tp_malloc:
  assumes p: "past hinv hmap rinv rlist S0 s0 S s" and q: "\<And>S' s' a. past hinv hmap rinv rlist S0 s0 S' s' \<Longrightarrow> S \<subseteq>\<^sub>m S' \<Longrightarrow> S' a = Some IntsS \<Longrightarrow> Q (a, s')"
  shows "tp (malloc_ints n s) Q"
proof -
  obtain a s' where a: "alloc (IntsB (replicate n None)) s = (a, s')" by fastforce
  obtain S' where "past hinv hmap rinv rlist S0 s0 S' s'" "S \<subseteq>\<^sub>m S'" "S' a = Some IntsS" by (rule past_alloc [OF p _ a, of IntsS]) simp
  then show ?thesis using q by (simp add: malloc_ints_def a)
qed

lemma tp_realloc:
  assumes p: "past hinv hmap rinv rlist S0 s0 S s" and a: "ptr S IntsS a"
    and q: "\<And>S' s' a. past hinv hmap rinv rlist S0 s0 S' s' \<Longrightarrow> S \<subseteq>\<^sub>m S' \<Longrightarrow> S' a = Some IntsS \<Longrightarrow> Q (a, s')"
  shows "tp (realloc_ints a n s) Q"
proof -
  have "tp (dealloc a s) (\<lambda>s. Q (alloc (IntsB (take n xs @ replicate (n - length xs) None)) s))" for xs
  proof (rule tp_dealloc [OF p])
    fix s1 assume s1: "past hinv hmap rinv rlist S0 s0 S s1"
    obtain b s' where b: "alloc (IntsB (take n xs @ replicate (n - length xs) None)) s1 = (b, s')" by fastforce
    obtain S' where "past hinv hmap rinv rlist S0 s0 S' s'" "S \<subseteq>\<^sub>m S'" "S' b = Some IntsS" by (rule past_alloc [OF s1 _ b, of IntsS]) simp
    then show "Q (alloc (IntsB (take n xs @ replicate (n - length xs) None)) s1)" unfolding b by (rule q)
  qed
  then show ?thesis unfolding realloc_ints_def tp_bnd by (intro tp_read_ints [OF past_mem [OF p] a]) simp
qed


subsection \<open>Globals\<close>

lemma tp_count_at:
  assumes "mem_conf S (heap s) f" and "ptr S GVarS var" and "\<And>v. Q v"
  shows "tp (count_at var idx s) Q"
  unfolding count_at_def tp_bnd
  by (rule tp_read_gvar [OF assms(1,2)], rule tp_read_ints [OF assms(1)], assumption, rule tp_cell, rule assms(3))

lemma tp_set_count:
  assumes p: "past hinv hmap rinv rlist S0 s0 S s" and v: "ptr S GVarS var" and q: "\<And>s'. past hinv hmap rinv rlist S0 s0 S s' \<Longrightarrow> Q s'"
  shows "tp (set_count var idx v s) Q"
  unfolding set_count_def tp_bnd
  by (rule tp_read_gvar [OF past_mem [OF p] v], rule tp_read_ints [OF past_mem [OF p]], assumption, rule tp_set_cell,
      rule tp_store [OF p], assumption, simp, rule q)

lemma tp_set_gv_len:
  assumes p: "past hinv hmap rinv rlist S0 s0 S s" and v: "ptr S GVarS var" and q: "\<And>s'. past hinv hmap rinv rlist S0 s0 S s' \<Longrightarrow> Q s'"
  shows "tp (set_gv_len var n s) Q"
  unfolding set_gv_len_def tp_bnd
  by (rule tp_read_gvar [OF past_mem [OF p] v], rule tp_store [OF p], assumption, simp, rule q)

lemma tp_global_init:
  assumes p: "past hinv hmap rinv rlist S0 s0 S s" and q: "\<And>S' s' var. past hinv hmap rinv rlist S0 s0 S' s' \<Longrightarrow> S \<subseteq>\<^sub>m S' \<Longrightarrow> ptr S' GVarS var \<Longrightarrow> Q (var, s')"
  shows "tp (global_var_init n s) Q"
proof (cases "n = 0 \<or> mem_max s < 4 * unat n")
  case True
  then show ?thesis using q [OF p] by (auto simp: global_var_init_def)
next
  case False
  obtain var s1 where a: "alloc (GVarB \<lparr>gv_count = NULL, gv_len = n\<rparr>) s = (var, s1)" by fastforce
  obtain cnt s2 where b: "alloc (IntsB (replicate (unat n) (Some SEM_INIT))) s1 = (cnt, s2)" by fastforce
  obtain S1 where s1: "past hinv hmap rinv rlist S0 s0 S1 s1" "S \<subseteq>\<^sub>m S1" "S1 var = Some GVarS" by (rule past_alloc [OF p _ a, of GVarS]) simp
  obtain S2 where s2: "past hinv hmap rinv rlist S0 s0 S2 s2" "S1 \<subseteq>\<^sub>m S2" "S2 cnt = Some IntsS" by (rule past_alloc [OF s1(1) _ b, of IntsS]) simp
  have v: "S2 var = Some GVarS" by (rule sort_mono [OF s2(2) s1(3)])
  have "tp (store var (GVarB \<lparr>gv_count = cnt, gv_len = n\<rparr>) s2) (\<lambda>s. Q (var, s))"
    by (rule tp_store [OF s2(1) v]) (use s2(3) v q map_le_trans [OF s1(2) s2(2)] in \<open>auto simp: ptr_def\<close>)
  then show ?thesis using False a b by (simp add: global_var_init_def)
qed

lemma tp_grow_count:
  assumes p: "past hinv hmap rinv rlist S0 s0 S s" and v: "ptr S GVarS var" and q: "\<And>S' s'. past hinv hmap rinv rlist S0 s0 S' s' \<Longrightarrow> S \<subseteq>\<^sub>m S' \<Longrightarrow> Q s'"
  shows "tp (grow_count var idx hi s) Q"
proof -
  let ?b = "unat (4 * (idx + 1)) div 4"
  have "tp (case alloc (IntsB (replicate ?b None)) s of (q, s) \<Rightarrow>
        bnd (read_gvar var s) (\<lambda>g. bnd (store var (GVarB (g\<lparr>gv_count := q\<rparr>)) s) (\<lambda>s.
        bnd (read_ints q s) (\<lambda>xs. bnd (fill (uint (gv_len g)) hi SEM_INIT xs) (\<lambda>xs. store q (IntsB xs) s))))) Q"
    if p: "past hinv hmap rinv rlist S0 s0 S s" for s
  proof -
    obtain c s1 where a: "alloc (IntsB (replicate ?b None)) s = (c, s1)" by fastforce
    obtain S1 where s1: "past hinv hmap rinv rlist S0 s0 S1 s1" "S \<subseteq>\<^sub>m S1" "S1 c = Some IntsS" by (rule past_alloc [OF p _ a, of IntsS]) simp
    have c: "ptr S1 IntsS c" using s1(3) by (simp add: ptr_def)
    show ?thesis
      unfolding a prod.case tp_bnd
      by (rule tp_read_gvar [OF past_mem [OF s1(1)] ptr_mono [OF s1(2) v]], rule tp_store [OF s1(1)], assumption, simp add: c,
        rule tp_read_ints [OF past_mem c], assumption, rule tp_fill, rule tp_store, assumption, assumption, simp, rule q [OF _ s1(2)])
  qed
  then show ?thesis using tp_dealloc [OF p] by (simp add: grow_count_def Let_def)
qed

context voids_handles
begin

lemma tp_find_global:
  assumes p: "past hinv hmap rinv rlist S0 s0 S s" and k: "ptr S NameS key" and q: "Q None" "\<And>var. ptr S GVarS var \<Longrightarrow> Q (Some var)"
  shows "tp (find_global V key s) Q"
  unfolding find_global_def tp_bnd
proof (rule tp_read_str [OF past_mem [OF p] k])
  fix x
  have g: "hinv (gtab s)" "\<And>k ka d. hmap (gtab s) k = Some (ka, d) \<Longrightarrow> ptr S GVarS d" using p by (simp_all add: past_def conf_def globs_conf_def)
  show "tp (case qh_find V (gtab s) x of (None, e) \<Rightarrow> Ok None
     | (Some p, e) \<Rightarrow> if qh_valid V (gtab s) p then Ok (Some (snd (qh_pair V (gtab s) p))) else Undef UseAfterFree) Q"
  proof (cases "hmap (gtab s) x")
    case None
    then show ?thesis using find_None [OF g(1) None] q(1) by simp
  next
    case (Some kd)
    then show ?thesis using find_Some [OF g(1) Some] g(2) [of x] q(2) by (cases kd) auto
  qed
qed simp

lemma tp_insert_global:
  assumes p: "past hinv hmap rinv rlist S0 s0 S s" and k: "ptr S NameS key" and v: "ptr S GVarS var"
    and q: "\<And>s'. past hinv hmap rinv rlist S0 s0 S s' \<Longrightarrow> Q s'"
  shows "tp (insert_global V key var s) Q"
  unfolding insert_global_def tp_bnd
proof (rule tp_read_str [OF past_mem [OF p] k])
  fix x
  have g: "hinv (gtab s)" "\<And>k ka d. hmap (gtab s) k = Some (ka, d) \<Longrightarrow> ptr S GVarS d" using p by (simp_all add: past_def conf_def globs_conf_def)
  show "tp (case qh_insert V (gtab s) x key var of (h, p, e) \<Rightarrow> if e \<noteq> VDS_SUCCESS then Exit else Ok (s\<lparr>gtab := h\<rparr>)) Q"
  proof (cases "hmap (gtab s) x")
    case None
    then obtain h r where h: "qh_insert V (gtab s) x key var = (h, Some r, VDS_SUCCESS)" "hinv h" "hmap h = (hmap (gtab s))(x \<mapsto> (key, var))"
      using insert_new [OF g(1) None] by blast
    have "globs_conf hinv hmap S h" using h(2,3) g(2) v by (simp add: globs_conf_def)
    then have "past hinv hmap rinv rlist S0 s0 S (s\<lparr>gtab := h\<rparr>)" using p by (auto simp: past_def conf_def prog_conf_def keeps_def)
    then show ?thesis using h(1) q by simp
  next
    case (Some kd)
    then show ?thesis using insert_old [OF g(1) Some, of key var] by auto
  qed
qed simp


lemma tp_global_up:
  assumes p: "past hinv hmap rinv rlist S0 s0 S s" and k: "ptr S NameS key" and q: "\<And>S' s'. past hinv hmap rinv rlist S0 s0 S' s' \<Longrightarrow> S \<subseteq>\<^sub>m S' \<Longrightarrow> Q s'"
  shows "tp (global_var_up V key idx s) Q"
  unfolding global_var_up_def tp_bnd
proof (rule tp_find_global [OF p k], goal_cases)
  case 1
  show ?case
    unfolding option.case tp_bnd
    by (rule tp_global_init [OF p], unfold prod.case tp_bnd, rule tp_set_count, assumption, assumption,
      rule tp_insert_global, assumption, erule ptr_mono [OF _ k], assumption, rule q)
next
  case (2 var)
  show ?case
    unfolding option.case tp_bnd
  proof (rule tp_dealloc [OF p], rule tp_read_gvar [OF past_mem 2], assumption, rule tp_ifI, goal_cases)
    case (1 s1 g)
    show ?case unfolding tp_bnd
      by (rule tp_count_at [OF past_mem [OF 1(1)] 2], rule tp_arith, rule tp_set_count [OF 1(1) 2], rule q [OF _ map_le_refl])
  next
    case (2 s1 g)
    note v = \<open>ptr S GVarS var\<close>
    show ?case unfolding tp_bnd
      by (rule tp_grow_count [OF 2(1) v], rule tp_set_count, assumption, erule ptr_mono [OF _ v], rule tp_set_gv_len, assumption, erule ptr_mono [OF _ v], rule q)
  qed
qed

lemma tp_global_store:
  assumes p: "past hinv hmap rinv rlist S0 s0 S s" and k: "ptr S NameS key" and q: "\<And>S' s'. past hinv hmap rinv rlist S0 s0 S' s' \<Longrightarrow> S \<subseteq>\<^sub>m S' \<Longrightarrow> Q s'"
  shows "tp (global_var_store V key idx x s) Q"
  unfolding global_var_store_def tp_bnd
proof (rule tp_find_global [OF p k], goal_cases)
  case 1
  show ?case
    unfolding option.case tp_bnd
    by (rule tp_global_init [OF p], unfold prod.case tp_bnd, rule tp_set_count, assumption, assumption,
      rule tp_insert_global, assumption, erule ptr_mono [OF _ k], assumption, rule q)
next
  case (2 var)
  note v = 2
  show ?case
    unfolding option.case tp_bnd
  proof (rule tp_dealloc [OF p], rule tp_read_gvar [OF past_mem v], assumption, rule tp_ifI, goal_cases)
    case (1 s1 g)
    show ?case by (rule tp_set_count [OF 1(1) v], rule q [OF _ map_le_refl])
  next
    case (2 s1 g)
    show ?case
      unfolding tp_bnd by (rule tp_grow_count [OF 2(1) v], rule tp_set_count, assumption, erule ptr_mono [OF _ v], rule tp_set_gv_len, assumption, erule ptr_mono [OF _ v], rule q)
  qed
qed


lemma tp_global_load:
  assumes p: "past hinv hmap rinv rlist S0 s0 S s" and k: "ptr S NameS key" and q: "\<And>S' s' v. past hinv hmap rinv rlist S0 s0 S' s' \<Longrightarrow> S \<subseteq>\<^sub>m S' \<Longrightarrow> Q (v, s')"
  shows "tp (global_var_load V key idx s) Q"
  unfolding global_var_load_def tp_bnd
proof (rule tp_find_global [OF p k], goal_cases)
  case 1
  show ?case
    unfolding option.case tp_bnd
    by (rule tp_global_init [OF p], unfold prod.case tp_bnd, rule tp_insert_global, assumption, erule ptr_mono [OF _ k], assumption, simp, rule q)
next
  case (2 var)
  note v = 2
  show ?case
    unfolding option.case tp_bnd
  proof (rule tp_dealloc [OF p], rule tp_read_gvar [OF past_mem v], assumption, rule tp_ifI, goal_cases)
    case (1 s1 g)
    show ?case unfolding tp_bnd by (rule tp_count_at [OF past_mem [OF 1(1)] v], simp, rule q [OF 1(1) map_le_refl])
  next
    case (2 s1 g)
    show ?case unfolding tp_bnd
      by (rule tp_grow_count [OF 2(1) v], rule tp_set_gv_len, assumption, erule ptr_mono [OF _ v], simp, rule q)
  qed
qed

text \<open>\<open>DOWN\<close> leaves the program blocked on a semaphore.\<close>

lemma tp_global_down:
  assumes p: "past hinv hmap rinv rlist S0 s0 S s" and k: "ptr S NameS key"
    and q: "\<And>S' s' var. past hinv hmap rinv rlist S0 s0 S' s' \<Longrightarrow> S \<subseteq>\<^sub>m S' \<Longrightarrow> ptr S' GVarS var \<Longrightarrow> Q (s'\<lparr>blocked_idx := idx, pstate := BLOCKED, sem := var\<rparr>)"
  shows "tp (global_var_down V key idx s) Q"
  unfolding global_var_down_def tp_bnd
proof (rule tp_find_global [OF p k], goal_cases)
  case 1
  show ?case
    unfolding option.case tp_bnd
    by (rule tp_global_init [OF p], unfold prod.case tp_bnd, rule tp_insert_global, assumption, erule ptr_mono [OF _ k], assumption,
        unfold tp.simps prod.case, rule q)
next
  case (2 var)
  note v = 2
  show ?case
    unfolding option.case tp_bnd
  proof (rule tp_dealloc [OF p], rule tp_read_gvar [OF past_mem v], assumption, rule tp_ifI, goal_cases)
    case (1 s1 g)
    show ?case unfolding tp_bnd
      by (rule tp_grow_count [OF 1(1) v], rule tp_set_gv_len, assumption, erule ptr_mono [OF _ v], unfold tp.simps prod.case, rule q, assumption, assumption, erule ptr_mono [OF _ v])
  next
    case (2 s1 g)
    show ?case by (simp, rule q [OF 2(1) map_le_refl v])
  qed
qed

subsection \<open>Variables and labels\<close>

lemma past_vars: "past hinv hmap rinv rlist S0 s0 S s \<Longrightarrow> vars_conf hinv hmap S (vartable s)"
  by (simp add: past_def conf_def prog_conf_def)

lemma past_table: "past hinv hmap rinv rlist S0 s0 S s \<Longrightarrow> vars_conf hinv hmap S h \<Longrightarrow> past hinv hmap rinv rlist S0 s0 S (s\<lparr>vartable := h\<rparr>)"
  by (auto simp: past_def conf_def prog_conf_def keeps_def)

text \<open>What \<open>find_var\<close> finds, and the data of the pair.\<close>

lemma tp_find_var:
  assumes p: "past hinv hmap rinv rlist S0 s0 S s"
    and q: "Q None" "\<And>r. qh_find V (vartable s) k = (Some r, VDS_SUCCESS) \<Longrightarrow> Q (Some r)"
  shows "tp (find_var V k s) Q"
proof (cases "hmap (vartable s) k")
  case None
  then show ?thesis using find_None [of "vartable s" k] past_vars [OF p] q(1) by (simp add: find_var_def vars_conf_def)
next
  case (Some kd)
  then show ?thesis using find_Some [of "vartable s" k kd] past_vars [OF p] q(2) by (auto simp: find_var_def vars_conf_def)
qed

lemma tp_pair_data:
  assumes p: "past hinv hmap rinv rlist S0 s0 S s" and f: "qh_find V (vartable s) k = (Some r, VDS_SUCCESS)"
    and q: "\<And>d. ptr S (if lname k then LabelS else IntsS) d \<Longrightarrow> Q d"
  shows "tp (pair_data V r s) Q"
proof -
  note v = past_vars [OF p, unfolded vars_conf_def]
  have h: "hinv (vartable s)" using v by blast
  obtain ka d where kd: "hmap (vartable s) k = Some (ka, d)" using find_None [OF h, of k] f by (cases "hmap (vartable s) k") auto
  then have "qh_pair V (vartable s) r = (ka, d)" using find_Some [OF h kd] f by simp
  then show ?thesis using q v kd by (simp add: pair_data_def)
qed

lemma tp_set_pair_data:
  assumes p: "past hinv hmap rinv rlist S0 s0 S s" and f: "hinv h" "qh_find V h k = (Some r, VDS_SUCCESS)" and k: "\<not> lname k" and d: "ptr S IntsS d"
    and q: "\<And>s'. past hinv hmap rinv rlist S0 s0 S s' \<Longrightarrow> Q s'"
  shows "tp (set_pair_data V r d s) Q"
proof (cases "qh_valid V (vartable s) r")
  case True
  note v = past_vars [OF p, unfolded vars_conf_def]
  obtain k' where k': "qh_find V (vartable s) k' = (Some r, VDS_SUCCESS)" using valid_find [OF _ True] v by blast
  then have "k' = k" using one_key [OF f(1) _ f(2) k'] v by blast
  then have "hinv (qh_set_data V (vartable s) r d) \<and> hmap (qh_set_data V (vartable s) r d) = (hmap (vartable s))(k \<mapsto> (fst (qh_pair V (vartable s) r), d))"
    using set_data [of "vartable s" k r VDS_SUCCESS d] k' v by blast
  then have "vars_conf hinv hmap S (qh_set_data V (vartable s) r d)"
    by (intro vars_upd [OF past_vars [OF p], of _ k "fst (qh_pair V (vartable s) r)" d]) (use k d in simp_all)
  then show ?thesis using True q past_table [OF p] by (simp add: set_pair_data_def)
qed (simp add: set_pair_data_def)

lemma tp_insert_var:
  assumes p: "past hinv hmap rinv rlist S0 s0 S s" and k: "ptr S NameS key" and d: "ptr S IntsS d"
    and q: "\<And>s'. past hinv hmap rinv rlist S0 s0 S s' \<Longrightarrow> Q s'"
  shows "tp (insert_var V key d s) Q"
  unfolding insert_var_def tp_bnd
proof (rule tp_read_str [OF past_mem [OF p] k])
  fix x assume "block_ok S NameS (StrB x)"
  then have x: "\<not> lname x" by simp
  note v = past_vars [OF p, unfolded vars_conf_def]
  have h: "hinv (vartable s)" using v by blast
  show "tp (case qh_insert V (vartable s) x key d of (h, p, e) \<Rightarrow> if e \<noteq> VDS_SUCCESS then Exit else Ok (s\<lparr>vartable := h\<rparr>)) Q"
  proof (cases "hmap (vartable s) x")
    case None
    then obtain h' r where h': "qh_insert V (vartable s) x key d = (h', Some r, VDS_SUCCESS)" "hinv h'" "hmap h' = (hmap (vartable s))(x \<mapsto> (key, d))"
      using insert_new [OF h None] by blast
    have "vars_conf hinv hmap S h'" by (rule vars_upd [OF past_vars [OF p] h'(2,3)]) (use x d in simp)
    then show ?thesis using h'(1) q past_table [OF p] by simp
  next
    case (Some kd)
    then show ?thesis using insert_old [OF h Some, of key d] by auto
  qed
qed simp

end

end
