(* ===== verification/ScanTyping.thy ===== *)
theory ScanTyping imports Typing begin

section \<open>Types: the scanner\<close>

text \<open>
  Whatever the file is, the scanner builds typed tokens, and a line that it does not reject has the tokens that the handler of its
  instruction reads, with one exception: it lets a constant through where \<open>LOAD\<close> needs the name of a global.  The names of variables do not begin with L
  if the file has no such name, so they differ from the labels.
\<close>

subsection \<open>Adding to a state\<close>

text \<open>\<open>us\<close> are the tokens that are added to the ring buffer; only the array token at \<open>dst\<close> is written.\<close>

definition adds :: "('h \<Rightarrow> bool) \<Rightarrow> ('h \<Rightarrow> pairs) \<Rightarrow> ('r \<Rightarrow> bool) \<Rightarrow> ('r \<Rightarrow> addr list) \<Rightarrow> addr option \<Rightarrow> sorts \<Rightarrow> ('h, 'r) st \<Rightarrow> sorts \<Rightarrow> ('h, 'r) st \<Rightarrow> addr list \<Rightarrow> bool" where
  "adds hinv hmap rinv rlist dst S s S' s' us \<longleftrightarrow> S \<subseteq>\<^sub>m S' \<and> conf hinv hmap rinv rlist S' s' \<and> input s' = input s \<and> fbuf s' = fbuf s \<and>
     fpos s' = fpos s \<and> c_in s' = c_in s \<and> rlist (translated_line s') = rlist (translated_line s) @ us \<and>
     (\<forall>a b. heap s a = Some b \<longrightarrow> dst \<noteq> Some a \<longrightarrow> heap s' a = Some b)"

lemma addsD:
  assumes "adds hinv hmap rinv rlist dst S s S' s' us"
  shows "S \<subseteq>\<^sub>m S'" "conf hinv hmap rinv rlist S' s'" "input s' = input s" "fbuf s' = fbuf s" "fpos s' = fpos s" "c_in s' = c_in s"
    "rlist (translated_line s') = rlist (translated_line s) @ us" "heap s a = Some b \<Longrightarrow> dst \<noteq> Some a \<Longrightarrow> heap s' a = Some b"
  using assms by (simp_all add: adds_def)

lemma adds_refl: "conf hinv hmap rinv rlist S s \<Longrightarrow> adds hinv hmap rinv rlist dst S s S s []"
  by (simp add: adds_def)

lemma adds_trans:
  "adds hinv hmap rinv rlist dst S s S1 s1 us \<Longrightarrow> adds hinv hmap rinv rlist dst S1 s1 S2 s2 vs \<Longrightarrow> adds hinv hmap rinv rlist dst S s S2 s2 (us @ vs)"
  unfolding adds_def by (auto intro: map_le_trans)

lemma adds_weaken: "adds hinv hmap rinv rlist None S s S1 s1 us \<Longrightarrow> adds hinv hmap rinv rlist dst S s S1 s1 us"
  unfolding adds_def by simp

text \<open>Filling an array token that is new.\<close>

lemma adds_inner:
  assumes "adds hinv hmap rinv rlist dst S s S1 s1 us" and "adds hinv hmap rinv rlist (Some a) S1 s1 S2 s2 vs" and "heap s a = None"
  shows "adds hinv hmap rinv rlist dst S s S2 s2 (us @ vs)"
  using assms map_le_trans [of S S1 S2] unfolding adds_def by fastforce

lemma adds_fields:
  assumes "conf hinv hmap rinv rlist S s" and "heap s' = heap s" "fresh s' = fresh s" "gtab s' = gtab s" "itable s' = itable s"
    "vartable s' = vartable s" "translated_line s' = translated_line s" "input s' = input s" "fbuf s' = fbuf s" "fpos s' = fpos s" "c_in s' = c_in s"
  shows "adds hinv hmap rinv rlist dst S s S s' []"
  using conf_cong [OF assms(1-7)] assms unfolding adds_def by simp

lemma adds_die: "conf hinv hmap rinv rlist S s \<Longrightarrow> adds hinv hmap rinv rlist dst S s S (die m s) []"
  by (erule adds_fields) (simp_all add: die_def err_msg_def program_stop_def split: prod.splits)

lemma adds_warn: "conf hinv hmap rinv rlist S s \<Longrightarrow> adds hinv hmap rinv rlist dst S s S (warn_msg m s) []"
  by (erule adds_fields) (simp_all add: warn_msg_def split: prod.splits)

text \<open>A change of the heap.\<close>

lemma adds_heap:
  assumes c: "conf hinv hmap rinv rlist S s" and m: "mem_conf S' h f" "S \<subseteq>\<^sub>m S'" and old: "\<And>a b. heap s a = Some b \<Longrightarrow> dst \<noteq> Some a \<Longrightarrow> h a = Some b"
  shows "adds hinv hmap rinv rlist dst S s S' (s\<lparr>heap := h, fresh := f\<rparr>) []"
proof -
  have "past hinv hmap rinv rlist S s S' (s\<lparr>heap := h, fresh := f\<rparr>)" by (rule past_heap [OF past_refl [OF c] m])
  then show ?thesis using old by (simp add: past_def adds_def)
qed

lemma adds_alloc:
  assumes c: "conf hinv hmap rinv rlist S s" and b: "block_ok (S(fresh s \<mapsto> k)) k b"
  shows "adds hinv hmap rinv rlist dst S s (S(fresh s \<mapsto> k)) (s\<lparr>heap := (heap s)(fresh s \<mapsto> b), fresh := Suc (fresh s)\<rparr>) []"
proof (rule adds_heap [OF c mem_alloc [OF conf_mem [OF c] b]])
  have "heap s (fresh s) = None" using conf_mem [OF c] by (simp add: mem_conf_def)
  then show "((heap s)(fresh s \<mapsto> b)) a = Some b'" if "heap s a = Some b'" for a b' using that by auto
qed

lemma adds_store:
  assumes c: "conf hinv hmap rinv rlist S s" and a: "S a = Some k" "block_ok S k b"
  shows "adds hinv hmap rinv rlist (Some a) S s S (s\<lparr>heap := (heap s)(a \<mapsto> b)\<rparr>) []"
  using adds_heap [OF c mem_store [OF conf_mem [OF c] a] map_le_refl, of "Some a"] by simp

text \<open>The array token whose index is to be filled, and the two stores into it.\<close>

definition dst_is :: "addr option \<Rightarrow> token_type_e option \<Rightarrow> ('h, 'r) st \<Rightarrow> bool" where
  "dst_is dst ty s \<longleftrightarrow> (\<forall>a. dst = Some a \<longrightarrow> (\<exists>t. heap s a = Some (ArrTokB t) \<and> at_idx_type t = ty \<and> at_idx t = Uninit))"

lemma dst_sort:
  assumes c: "conf hinv hmap rinv rlist S s" and h: "heap s a = Some (ArrTokB t)"
  shows "S a = Some ArrS" "block_ok S ArrS (ArrTokB t)" "a \<noteq> NULL"
proof -
  obtain k where "S a = Some k" "block_ok S k (ArrTokB t)" using conf_mem [OF c] h unfolding mem_conf_def by blast
  then show "S a = Some ArrS" "block_ok S ArrS (ArrTokB t)" by simp_all
  show "a \<noteq> NULL" using conf_mem [OF c] h unfolding mem_conf_def by (metis option.distinct(1))
qed

lemma put_type_typed:
  assumes c: "conf hinv hmap rinv rlist S s" and d: "dst_is dst ty s" and t: "ty' \<in> {INT_VAL_TOK, INT_VAR_TOK, INT_ARR_TOK}"
  shows "\<exists>s'. put_type dst ty' s = Ok s' \<and> adds hinv hmap rinv rlist dst S s S s' [] \<and> dst_is dst (Some ty') s' \<and> pstate s' = pstate s"
proof (cases dst)
  case None
  then show ?thesis using adds_refl [OF c] by (simp add: put_type_def dst_is_def)
next
  case (Some a)
  then obtain at where h: "heap s a = Some (ArrTokB at)" "at_idx at = Uninit" using d by (auto simp: dst_is_def)
  note a = dst_sort [OF c h(1)]
  have "adds hinv hmap rinv rlist (Some a) S s S (s\<lparr>heap := (heap s)(a \<mapsto> ArrTokB (at\<lparr>at_idx_type := Some ty'\<rparr>))\<rparr>) []"
    by (rule adds_store [OF c a(1)]) (use a(2) t h(2) in auto)
  then show ?thesis using Some h a(3) by (simp add: put_type_def mem_simps dst_is_def)
qed

lemma put_data_typed:
  assumes c: "conf hinv hmap rinv rlist S s" and d: "dst_is dst ty s" and t: "dst \<noteq> None \<Longrightarrow> idx_ok S ty p"
  shows "\<exists>s'. put_tok_data dst p s = Ok s' \<and> adds hinv hmap rinv rlist dst S s S s' [] \<and> pstate s' = pstate s"
proof (cases dst)
  case None
  then show ?thesis using adds_refl [OF c] by (simp add: put_tok_data_def)
next
  case (Some a)
  then obtain at where h: "heap s a = Some (ArrTokB at)" "at_idx_type at = ty" using d by (auto simp: dst_is_def)
  note a = dst_sort [OF c h(1)]
  have "adds hinv hmap rinv rlist (Some a) S s S (s\<lparr>heap := (heap s)(a \<mapsto> ArrTokB (at\<lparr>at_idx := p\<rparr>))\<rparr>) []"
    by (rule adds_store [OF c a(1)]) (use a(2) t Some h(2) in auto)
  then show ?thesis using Some h a(3) by (simp add: put_tok_data_def mem_simps)
qed

lemma dst_keep:
  assumes "adds hinv hmap rinv rlist None S s S' s' us" and "dst_is dst ty s"
  shows "dst_is dst ty s'"
  using assms unfolding dst_is_def adds_def by fastforce

lemma new_arr_typed:
  assumes c: "conf hinv hmap rinv rlist S s" and n: "\<not> lname (cstr (input_bytes (Suc i) j s))"
  shows "\<exists>S' s'. new_arr_tok i j s = Ok (fresh s, s') \<and> adds hinv hmap rinv rlist None S s S' s' [] \<and> S' (fresh s) = Some ArrS \<and>
    dst_is (Some (fresh s)) None s' \<and> pstate s' = pstate s"
proof -
  let ?a = "fresh s" and ?at = "\<lparr>at_idx = Uninit, at_idx_type = None, at_name = NULL\<rparr>" and ?x = "StrB (cstr (input_bytes (Suc i) j s))"
  let ?s1 = "s\<lparr>heap := (heap s)(?a \<mapsto> ArrTokB ?at), fresh := Suc ?a\<rparr>" and ?S1 = "S(?a \<mapsto> ArrS)"
  let ?s2 = "?s1\<lparr>heap := (heap ?s1)(fresh ?s1 \<mapsto> ?x), fresh := Suc (fresh ?s1)\<rparr>" and ?S2 = "?S1(Suc ?a \<mapsto> NameS)"
  let ?s3 = "?s2\<lparr>heap := (heap ?s2)(?a \<mapsto> ArrTokB (?at\<lparr>at_name := Suc ?a\<rparr>))\<rparr>"
  have f: "?a \<noteq> NULL" "heap s ?a = None" using conf_mem [OF c] by (simp_all add: mem_conf_def)
  have a1: "adds hinv hmap rinv rlist None S s ?S1 ?s1 []" by (rule adds_alloc [OF c]) simp
  have "adds hinv hmap rinv rlist None ?S1 ?s1 (?S1(fresh ?s1 \<mapsto> NameS)) ?s2 []" by (rule adds_alloc [OF addsD(2) [OF a1]]) (use n in simp)
  then have a2: "adds hinv hmap rinv rlist None ?S1 ?s1 ?S2 ?s2 []" by simp
  have "adds hinv hmap rinv rlist (Some ?a) ?S2 ?s2 ?S2 ?s3 []" by (rule adds_store [OF addsD(2) [OF a2], of _ ArrS]) (simp_all add: ptr_def)
  then have "adds hinv hmap rinv rlist None S s ?S2 ?s3 []" using adds_inner [OF adds_trans [OF a1 a2] _ f(2)] by simp
  moreover have "new_arr_tok i j s = Ok (?a, ?s3)"
    using f by (simp add: new_arr_tok_def alloc_def Let_def input_bytes_def mem_simps)
  ultimately show ?thesis by (intro exI [of _ ?S2] exI [of _ ?s3]) (simp add: dst_is_def)
qed


subsection \<open>What the parser of variables and values makes\<close>

definition val_ty :: "token_type_e \<Rightarrow> bool" where
  "val_ty ty \<longleftrightarrow> ty \<in> {INT_VAL_TOK, INT_VAR_TOK, INT_ARR_TOK}"

text \<open>No variable in the word of length \<open>n\<close> begins with L.\<close>

definition word_names :: "nat \<Rightarrow> ('h, 'r) st \<Rightarrow> bool" where
  "word_names n s \<longleftrightarrow> (\<forall>j < n. input s j = CHR ''$'' \<longrightarrow> input s (Suc j) \<noteq> CHR ''L'')"

text \<open>
  One token is added by the outer call, none by the call for an index; a parser that fails has stopped the program.
\<close>

fun parsed :: "('h \<Rightarrow> bool) \<Rightarrow> ('h \<Rightarrow> pairs) \<Rightarrow> ('r \<Rightarrow> bool) \<Rightarrow> ('r \<Rightarrow> addr list) \<Rightarrow> addr option \<Rightarrow> bool \<Rightarrow> sorts \<Rightarrow> ('h, 'r) st \<Rightarrow> bool \<times> c_uint option \<times> ('h, 'r) st \<Rightarrow> bool" where
  "parsed hinv hmap rinv rlist dst isnum S s (ok, d, s') \<longleftrightarrow> (\<exists>S' us. adds hinv hmap rinv rlist dst S s S' s' us \<and>
     (if ok then pstate s' = pstate s \<and> (if dst = None then \<exists>u ty. us = [u] \<and> S' u = Some (TokS ty) \<and> val_ty ty \<and> (ty = INT_VAL_TOK \<longrightarrow> isnum) else us = [])
      else pstate s' = FINISHED))"

lemma scan_name_stops:
  "scan_name l stop i s = Ok (j, s') \<Longrightarrow> s' = s \<and> (input s j = stop \<or> input s j = CHR ''['') \<or>
    (\<exists>m. s' = die m s \<and> input s j \<noteq> stop \<and> input s j \<noteq> CHR ''['')"
proof (induction l stop i s rule: scan_name.induct)
  case (1 l stop i s)
  then show ?case by (subst (asm) (2) scan_name.simps) (auto split: if_splits)
qed

lemma scan_digits_stops:
  "scan_digits l stop i s = Ok (j, s') \<Longrightarrow> s' = s \<and> input s j = stop \<or> (\<exists>m. s' = die m s \<and> input s j \<noteq> stop)"
proof (induction l stop i s rule: scan_digits.induct)
  case (1 l stop i s)
  then show ?case by (subst (asm) (2) scan_digits.simps) (auto split: if_splits)
qed

lemma stops_no_label:
  assumes "isalpha (of_char (input s i))" and "input s i \<noteq> CHR ''L''" and "i < j"
  shows "\<not> lname (cstr (input_bytes i j s))"
proof -
  have "input s i \<noteq> NUL" using assms(1) by auto
  then have "cstr (input_bytes i j s) = input s i # cstr (input_bytes (Suc i) j s)"
    using assms(3) by (simp add: input_bytes_def cstr_def upt_conv_Cons)
  then show ?thesis using assms(2) by (simp add: lname_def)
qed

lemma dst_is_die [simp]: "dst_is dst ty (die m s) = dst_is dst ty s" "dst_is dst ty (warn_msg m s) = dst_is dst ty s"
  by (simp_all add: dst_is_def die_def err_msg_def warn_msg_def program_stop_def split: prod.splits)

lemma finish_ok:
  assumes a: "adds hinv hmap rinv rlist dst S s S1 s1 us" and d: "dst_is dst ty s1" and t: "dst \<noteq> None \<Longrightarrow> idx_ok S1 ty p" and ps: "pstate s1 = pstate s"
    and us: "if dst = None then \<exists>u ty. us = [u] \<and> S1 u = Some (TokS ty) \<and> val_ty ty \<and> (ty = INT_VAL_TOK \<longrightarrow> isnum) else us = []"
  shows "tp (bnd (put_tok_data dst p s1) (\<lambda>s. Ok (True, depth, s))) (parsed hinv hmap rinv rlist dst isnum S s)"
proof -
  obtain s' where s': "put_tok_data dst p s1 = Ok s'" "adds hinv hmap rinv rlist dst S1 s1 S1 s' []" "pstate s' = pstate s1"
    using put_data_typed [OF addsD(2) [OF a] d t] by blast
  show ?thesis unfolding s'(1) bnd.simps tp.simps parsed.simps if_True
    using s'(3) adds_trans [OF a s'(2)] us ps by (intro exI [of _ S1] exI [of _ us]) simp
qed

lemma finish_bad:
  assumes a: "adds hinv hmap rinv rlist dst S s S1 s1 us" and d: "dst_is dst ty s1" and t: "dst \<noteq> None \<Longrightarrow> idx_ok S1 ty p" and ps: "pstate s1 = FINISHED"
  shows "tp (bnd (put_tok_data dst p s1) (\<lambda>s. Ok (False, depth, s))) (parsed hinv hmap rinv rlist dst isnum S s)"
proof -
  obtain s' where s': "put_tok_data dst p s1 = Ok s'" "adds hinv hmap rinv rlist dst S1 s1 S1 s' []" "pstate s' = pstate s1"
    using put_data_typed [OF addsD(2) [OF a] d t] by blast
  show ?thesis unfolding s'(1) bnd.simps tp.simps parsed.simps
    using s'(3) adds_trans [OF a s'(2)] ps by (intro exI [of _ S1] exI [of _ us]) simp
qed

lemma finish_fail:
  assumes a: "adds hinv hmap rinv rlist dst S s S1 s1 us" and d: "dst_is dst ty s1" and ps: "pstate s1 = FINISHED"
  shows "tp (bnd (put_tok_data dst Uninit s1) (\<lambda>s. Ok (False, depth, s))) (parsed hinv hmap rinv rlist dst isnum S s)"
proof (rule finish_bad [OF a d _ ps])
  assume "dst \<noteq> None"
  then obtain b where "dst = Some b" by blast
  then obtain at where h: "heap s1 b = Some (ArrTokB at)" "at_idx_type at = ty" "at_idx at = Uninit" using d by (auto simp: dst_is_def)
  then show "idx_ok S1 ty Uninit" using dst_sort(2) [OF addsD(2) [OF a] h(1)] by auto
qed

subsection \<open>Tokens\<close>

lemma input_bytes_heap [simp]: "input_bytes i j (s\<lparr>heap := h, fresh := f\<rparr>) = input_bytes i j s"
  by (simp add: input_bytes_def)

context voids_lib
begin

lemma token_core:
  assumes c: "conf hinv hmap rinv rlist S s" and k: "is_tok k" "\<And>t. tok_type t = ty \<Longrightarrow> tok_data t = Uninit \<Longrightarrow> tok_ok (S(fresh s \<mapsto> k)) k t"
    and d: "\<And>s1. input s1 = input s \<Longrightarrow> conf hinv hmap rinv rlist (S(fresh s \<mapsto> k)) s1 \<Longrightarrow> fresh s1 = Suc (fresh s) \<Longrightarrow>
      \<exists>dt m S2 s2. new_tok_data src v n ty code s1 = Ok (dt, m, s2) \<and> adds hinv hmap rinv rlist None (S(fresh s \<mapsto> k)) s1 S2 s2 [] \<and> pstate s2 = pstate s1 \<and>
        (\<forall>t. tok_type t = ty \<longrightarrow> tok_data t = dt \<longrightarrow> tok_ok S2 k t)"
  shows "\<exists>S' s'. add_new_token V src v n ty code s = Ok s' \<and> adds hinv hmap rinv rlist None S s S' s' [fresh s] \<and> S' (fresh s) = Some k \<and> pstate s' = pstate s"
proof -
  let ?a = "fresh s" and ?new = "\<lparr>tok_data = Uninit, tok_len = 0, tok_type = ty, tok_line = line s, tok_column = column s, tok_prev_col = prev_col s, tok_offset = 0\<rparr>"
  let ?s1 = "s\<lparr>heap := (heap s)(?a \<mapsto> TokB ?new), fresh := Suc ?a\<rparr>" and ?S1 = "S(?a \<mapsto> k)"
  have f: "?a \<noteq> NULL" "heap s ?a = None" using conf_mem [OF c] by (simp_all add: mem_conf_def)
  have a1: "adds hinv hmap rinv rlist None S s ?S1 ?s1 []" by (rule adds_alloc [OF c]) (use k(2) in simp)
  obtain dt m S2 s2 where d2: "new_tok_data src v n ty code ?s1 = Ok (dt, m, s2)" "adds hinv hmap rinv rlist None ?S1 ?s1 S2 s2 []" "pstate s2 = pstate ?s1"
      "\<forall>t. tok_type t = ty \<longrightarrow> tok_data t = dt \<longrightarrow> tok_ok S2 k t"
    using d [OF _ addsD(2) [OF a1]] by auto
  let ?t = "?new\<lparr>tok_data := dt, tok_len := m, tok_offset := (if ty = LABEL_TOK then fpos s2 else 0)\<rparr>"
  let ?s3 = "s2\<lparr>heap := (heap s2)(?a \<mapsto> TokB ?t)\<rparr>"
  have k2: "S2 ?a = Some k" by (rule sort_mono [OF addsD(1) [OF d2(2)]]) simp
  have h2: "heap s2 ?a = Some (TokB ?new)" by (rule addsD(8) [OF d2(2)]) simp_all
  have "adds hinv hmap rinv rlist (Some ?a) S2 s2 S2 ?s3 []" by (rule adds_store [OF addsD(2) [OF d2(2)] k2]) (use d2(4) in simp)
  then have a3: "adds hinv hmap rinv rlist None S s S2 ?s3 []" using adds_inner [OF adds_trans [OF a1 d2(2)] _ f(2)] by simp
  have cf: "conf hinv hmap rinv rlist S2 ?s3" by (rule addsD(2) [OF a3])
  have "rinv (translated_line ?s3)" using cf by (simp add: conf_def prog_conf_def ring_conf_def)
  then obtain r where r: "write_token V ?a ?s3 = Ok (?s3\<lparr>translated_line := r\<rparr>)" "rinv r" "rlist r = rlist (translated_line ?s3) @ [?a]"
    by (rule write_token_ok)
  have "add_new_token V src v n ty code s = Ok (?s3\<lparr>translated_line := r\<rparr>)"
    using d2(1) r(1) h2 f(1) by (cases "ty = LABEL_TOK") (simp_all add: add_new_token_def alloc_def Let_def mem_simps)
  moreover have "conf hinv hmap rinv rlist S2 (?s3\<lparr>translated_line := r\<rparr>)"
    using cf r(2,3) k2 k(1) by (auto simp: conf_def prog_conf_def ring_conf_def)
  then have "adds hinv hmap rinv rlist None S s S2 (?s3\<lparr>translated_line := r\<rparr>) [?a]" using a3 r(3) unfolding adds_def by simp
  ultimately show ?thesis using k2 d2(3) by (intro exI [of _ S2] exI [of _ "?s3\<lparr>translated_line := r\<rparr>"]) simp
qed

lemma value_token:
  assumes c: "conf hinv hmap rinv rlist S s"
  shows "\<exists>S' s'. add_new_token V NoPtr v 0 INT_VAL_TOK 0 s = Ok s' \<and> adds hinv hmap rinv rlist None S s S' s' [fresh s] \<and> S' (fresh s) = Some (TokS INT_VAL_TOK) \<and> pstate s' = pstate s"
  by (rule token_core [OF c]) (auto simp: new_tok_data_def intro: adds_refl)

lemma instr_token:
  assumes c: "conf hinv hmap rinv rlist S s"
  shows "\<exists>S' s'. add_new_token V NoPtr 0 0 INSTRUCTION_TOK (ins_code i) s = Ok s' \<and> adds hinv hmap rinv rlist None S s S' s' [fresh s] \<and> S' (fresh s) = Some (InsS i) \<and> pstate s' = pstate s"
  by (rule token_core [OF c]) (auto simp: new_tok_data_def intro: adds_refl)

lemma array_token:
  assumes c: "conf hinv hmap rinv rlist S s" and a: "S a = Some ArrS"
  shows "\<exists>S' s'. add_new_token V (ArrPtr a) 0 0 INT_ARR_TOK 0 s = Ok s' \<and> adds hinv hmap rinv rlist None S s S' s' [fresh s] \<and> S' (fresh s) = Some (TokS INT_ARR_TOK) \<and> pstate s' = pstate s"
proof (rule token_core [OF c])
  have "a \<noteq> fresh s" using conf_mem [OF c] a by (auto simp: mem_conf_def)
  then show "\<exists>dt m S2 s2. new_tok_data (ArrPtr a) 0 0 INT_ARR_TOK 0 s1 = Ok (dt, m, s2) \<and> adds hinv hmap rinv rlist None (S(fresh s \<mapsto> TokS INT_ARR_TOK)) s1 S2 s2 [] \<and> pstate s2 = pstate s1 \<and>
      (\<forall>t. tok_type t = INT_ARR_TOK \<longrightarrow> tok_data t = dt \<longrightarrow> tok_ok S2 (TokS INT_ARR_TOK) t)"
    if "conf hinv hmap rinv rlist (S(fresh s \<mapsto> TokS INT_ARR_TOK)) s1" for s1
    using adds_refl [OF that] a by (intro exI [of _ "Ptr a"] exI [of _ 0] exI [of _ "S(fresh s \<mapsto> TokS INT_ARR_TOK)"] exI [of _ s1]) (auto simp: new_tok_data_def ptr_def)
qed simp_all

text \<open>A string of the input buffer: a name, a label, or the text of a \<open>PRINT\<close>.\<close>

lemma string_token:
  assumes c: "conf hinv hmap rinv rlist S s" and p: "p + n \<le> Suc MAX_INPUT_STR_LEN"
    and x: "ty = INT_VAR_TOK \<and> \<not> lname (cstr (input_bytes p (p + n) s)) \<or> ty = LABEL_TOK \<and> lname (cstr (input_bytes p (p + n) s)) \<or> ty = STRING_TOK"
  shows "\<exists>S' s'. add_new_token V (FromInput p) 0 n ty 0 s = Ok s' \<and> adds hinv hmap rinv rlist None S s S' s' [fresh s] \<and> S' (fresh s) = Some (TokS ty) \<and> pstate s' = pstate s"
proof (rule token_core [OF c])
  let ?k = "case ty of INT_VAR_TOK \<Rightarrow> NameS | LABEL_TOK \<Rightarrow> LblS | _ \<Rightarrow> StrS"
  fix s1 :: "('h, 'r) st"
  let ?S1 = "S(fresh s \<mapsto> TokS ty)" and ?x = "StrB (cstr (input_bytes p (p + n) s1))"
  assume s1: "input s1 = input s" "conf hinv hmap rinv rlist ?S1 s1" "fresh s1 = Suc (fresh s)"
  have "input_bytes p (p + n) s1 = input_bytes p (p + n) s" using s1(1) by (simp add: input_bytes_def)
  then have "block_ok (?S1(fresh s1 \<mapsto> ?k)) ?k ?x" using x by auto
  from adds_alloc [OF s1(2) this] have "adds hinv hmap rinv rlist None ?S1 s1 (?S1(fresh s1 \<mapsto> ?k)) (s1\<lparr>heap := (heap s1)(fresh s1 \<mapsto> ?x), fresh := Suc (fresh s1)\<rparr>) []" .
  then show "\<exists>dt m S2 s2. new_tok_data (FromInput p) 0 n ty 0 s1 = Ok (dt, m, s2) \<and> adds hinv hmap rinv rlist None ?S1 s1 S2 s2 [] \<and> pstate s2 = pstate s1 \<and>
      (\<forall>t. tok_type t = ty \<longrightarrow> tok_data t = dt \<longrightarrow> tok_ok S2 (TokS ty) t)"
    using p x by (intro exI [of _ "Ptr (fresh s1)"] exI [of _ n] exI [of _ "?S1(fresh s1 \<mapsto> ?k)"]
      exI [of _ "s1\<lparr>heap := (heap s1)(fresh s1 \<mapsto> ?x), fresh := Suc (fresh s1)\<rparr>"]) (auto simp: new_tok_data_def alloc_def ptr_def)
qed (use x in auto)


text \<open>The end of a number and the end of a name.\<close>

lemma number_end_typed:
  assumes c: "conf hinv hmap rinv rlist S s" and d: "dst_is dst None s" and isnum
  shows "tp (bnd (atoi i s) (\<lambda>v. bnd (put_type dst INT_VAL_TOK s) (\<lambda>s. bnd (if dst = None then add_new_token V NoPtr v 0 INT_VAL_TOK 0 s else Ok s)
      (\<lambda>s. bnd (put_tok_data dst (Value v) s) (\<lambda>s. Ok (True, depth, s)))))) (parsed hinv hmap rinv rlist dst isnum S s)"
proof -
  obtain s1 where s1: "put_type dst INT_VAL_TOK s = Ok s1" "adds hinv hmap rinv rlist dst S s S s1 []" "dst_is dst (Some INT_VAL_TOK) s1" "pstate s1 = pstate s"
    using put_type_typed [OF c d, of INT_VAL_TOK] by blast
  have "tp (bnd (if dst = None then add_new_token V NoPtr v 0 INT_VAL_TOK 0 s1 else Ok s1)
      (\<lambda>s. bnd (put_tok_data dst (Value v) s) (\<lambda>s. Ok (True, depth, s)))) (parsed hinv hmap rinv rlist dst isnum S s)" for v
  proof (cases "dst = None")
    case True
    obtain S2 s2 where s2: "add_new_token V NoPtr v 0 INT_VAL_TOK 0 s1 = Ok s2" "adds hinv hmap rinv rlist None S s1 S2 s2 [fresh s1]" "S2 (fresh s1) = Some (TokS INT_VAL_TOK)" "pstate s2 = pstate s1"
      using value_token [OF addsD(2) [OF s1(2)]] by blast
    have "adds hinv hmap rinv rlist dst S s S2 s2 [fresh s1]" using adds_trans [OF s1(2) adds_weaken [OF s2(2)]] by simp
    from finish_ok [OF this dst_keep [OF s2(2) s1(3)], of "Value v" isnum depth] show ?thesis using True s2 s1(4) \<open>isnum\<close> by (simp add: val_ty_def)
  next
    case False
    show ?thesis unfolding if_not_P [OF False] bnd.simps by (rule finish_ok [OF s1(2,3)]) (use False s1(4) in simp_all)
  qed
  then have "tp (bnd (put_type dst INT_VAL_TOK s) (\<lambda>s. bnd (if dst = None then add_new_token V NoPtr v 0 INT_VAL_TOK 0 s else Ok s)
      (\<lambda>s. bnd (put_tok_data dst (Value v) s) (\<lambda>s. Ok (True, depth, s))))) (parsed hinv hmap rinv rlist dst isnum S s)" for v using s1(1) by simp
  moreover have "atoi i s \<noteq> Undef TypeConfusion"
  proof -
    have "atoi_digits j k s \<noteq> Undef TypeConfusion" for j k
      by (induction j k s rule: atoi_digits.induct) (subst atoi_digits.simps, simp)
    then have d: "tp (atoi_digits j k s) (\<lambda>x. True)" for j k by (simp add: tp_iff)
    have "tp (atoi i s) (\<lambda>x. True)"
      by (simp add: atoi_def input_at_def) (intro conjI impI tp_mono [OF d] tp_chk TrueI)
    then show ?thesis by (simp add: tp_iff)
  qed
  ultimately show ?thesis unfolding tp_bnd [of "atoi i s"] by (simp add: tp_iff [of "atoi i s"])
qed


lemma name_end_typed:
  assumes c: "conf hinv hmap rinv rlist S s" and d: "dst_is dst None s" and j: "i + 2 \<le> j" "j \<le> MAX_INPUT_STR_LEN"
    and x: "isalpha (of_char (input s (i + 1)))" "input s (i + 1) \<noteq> CHR ''L''"
  shows "tp (bnd (put_type dst INT_VAR_TOK s) (\<lambda>s. let offset = j - i in
    if dst = None then bnd (add_new_token V (FromInput (i + 1)) 0 offset INT_VAR_TOK 0 s)
      (\<lambda>s. bnd (put_tok_data dst Uninit s) (\<lambda>s. Ok (True, depth, s)))
    else case alloc (StrB (cstr (input_bytes (i + 1) (i + offset) s))) s of (name, s) \<Rightarrow>
      bnd (put_tok_data dst (Ptr name) s) (\<lambda>s. Ok (True, depth, s)))) (parsed hinv hmap rinv rlist dst isnum S s)"
proof -
  obtain s1 where s1: "put_type dst INT_VAR_TOK s = Ok s1" "adds hinv hmap rinv rlist dst S s S s1 []" "dst_is dst (Some INT_VAR_TOK) s1" "pstate s1 = pstate s"
    using put_type_typed [OF c d, of INT_VAR_TOK] by blast
  have inp: "input s1 = input s" by (rule addsD(3) [OF s1(2)])
  have nl: "\<not> lname (cstr (input_bytes (i + 1) k s1))" if "i + 1 < k" for k
    by (rule stops_no_label [OF _ _ that]) (unfold inp, rule x, rule x)
  have le: "i + 1 + (j - i) \<le> Suc MAX_INPUT_STR_LEN" using j by simp
  show ?thesis
  proof (cases "dst = None")
    case True
    obtain S2 s2 where s2: "add_new_token V (FromInput (i + 1)) 0 (j - i) INT_VAR_TOK 0 s1 = Ok s2" "adds hinv hmap rinv rlist None S s1 S2 s2 [fresh s1]"
        "S2 (fresh s1) = Some (TokS INT_VAR_TOK)" "pstate s2 = pstate s1"
      using string_token [OF addsD(2) [OF s1(2)], of "i + 1" "j - i" INT_VAR_TOK, OF le disjI1 [OF conjI [OF refl nl]]] j by auto
    have "adds hinv hmap rinv rlist dst S s S2 s2 [fresh s1]" using adds_trans [OF s1(2) adds_weaken [OF s2(2)]] by simp
    from finish_ok [OF this dst_keep [OF s2(2) s1(3)], of Uninit isnum depth] show ?thesis using True s1 s2 by (simp add: val_ty_def Let_def)
  next
    case False
    let ?x = "StrB (cstr (input_bytes (i + 1) (i + (j - i)) s1))" and ?S2 = "S(fresh s1 \<mapsto> NameS)"
    let ?s2 = "s1\<lparr>heap := (heap s1)(fresh s1 \<mapsto> ?x), fresh := Suc (fresh s1)\<rparr>"
    have s2: "adds hinv hmap rinv rlist None S s1 ?S2 ?s2 []" by (rule adds_alloc [OF addsD(2) [OF s1(2)]]) (use nl j in simp)
    have "adds hinv hmap rinv rlist dst S s ?S2 ?s2 []" using adds_trans [OF s1(2) adds_weaken [OF s2]] by simp
    then have "tp (bnd (put_tok_data dst (Ptr (fresh s1)) ?s2) (\<lambda>s. Ok (True, depth, s))) (parsed hinv hmap rinv rlist dst isnum S s)"
      by (rule finish_ok [OF _ dst_keep [OF s2 s1(3)]]) (use False s1(4) in \<open>auto simp: ptr_def\<close>)
    then show ?thesis unfolding s1(1) bnd.simps Let_def if_not_P [OF False] alloc_def prod.case .
  qed
qed

text \<open>An array token before its index is read.\<close>

lemma array_start_typed:
  assumes c: "conf hinv hmap rinv rlist S s" and d: "dst_is dst None s" and j: "i + 2 \<le> j"
    and x: "isalpha (of_char (input s (i + 1)))" "input s (i + 1) \<noteq> CHR ''L''"
  obtains s1 s2 s3 S3 us where "new_arr_tok i j s = Ok (fresh s, s1)" "put_type dst INT_ARR_TOK s1 = Ok s2"
    "(if dst = None then add_new_token V (ArrPtr (fresh s)) 0 0 INT_ARR_TOK 0 s2 else Ok s2) = Ok s3"
    "adds hinv hmap rinv rlist dst S s S3 s3 us" "dst_is (Some (fresh s)) None s3" "dst_is dst (Some INT_ARR_TOK) s3" "pstate s3 = pstate s"
    "S3 (fresh s) = Some ArrS" "if dst = None then \<exists>u. us = [u] \<and> S3 u = Some (TokS INT_ARR_TOK) else us = []"
proof -
  have f: "heap s (fresh s) = None" using conf_mem [OF c] by (simp add: mem_conf_def)
  have nl: "\<not> lname (cstr (input_bytes (Suc i) j s))" by (rule stops_no_label) (use x j in simp_all)
  obtain S1 s1 where s1: "new_arr_tok i j s = Ok (fresh s, s1)" "adds hinv hmap rinv rlist None S s S1 s1 []" "S1 (fresh s) = Some ArrS"
      "dst_is (Some (fresh s)) None s1" "pstate s1 = pstate s"
    using new_arr_typed [OF c nl] by blast
  obtain s2 where s2: "put_type dst INT_ARR_TOK s1 = Ok s2" "adds hinv hmap rinv rlist dst S1 s1 S1 s2 []" "dst_is dst (Some INT_ARR_TOK) s2" "pstate s2 = pstate s1"
    using put_type_typed [OF addsD(2) [OF s1(2)] dst_keep [OF s1(2) d], of INT_ARR_TOK] by blast
  have ne: "dst \<noteq> Some (fresh s)" using d f by (auto simp: dst_is_def)
  have arr2: "dst_is (Some (fresh s)) None s2" using s1(4) addsD(8) [OF s2(2) _ ne] by (auto simp: dst_is_def)
  have a2: "adds hinv hmap rinv rlist dst S s S1 s2 []" using adds_trans [OF adds_weaken [OF s1(2)] s2(2)] by simp
  show thesis
  proof (cases "dst = None")
    case True
    obtain S3 s3 where s3: "add_new_token V (ArrPtr (fresh s)) 0 0 INT_ARR_TOK 0 s2 = Ok s3" "adds hinv hmap rinv rlist None S1 s2 S3 s3 [fresh s2]"
        "S3 (fresh s2) = Some (TokS INT_ARR_TOK)" "pstate s3 = pstate s2"
      using array_token [OF addsD(2) [OF s2(2)] s1(3)] by blast
    have "adds hinv hmap rinv rlist dst S s S3 s3 [fresh s2]" using adds_trans [OF a2 adds_weaken [OF s3(2)]] by simp
    then show thesis
      by (intro that [of s1 s2 s3 S3 "[fresh s2]"] s1(1) s2(1) dst_keep [OF s3(2) arr2] dst_keep [OF s3(2) s2(3)] sort_mono [OF addsD(1) [OF s3(2)] s1(3)])
        (use True s3 s2(4) s1(5) in simp_all)
  next
    case False
    show thesis by (intro that [of s1 s2 s2 S1 "[]"] s1(1,3) s2(1,3) a2 arr2, unfold if_not_P [OF False]) (use s2(4) s1(5) in simp_all)
  qed
qed


lemma fails:
  assumes c: "conf hinv hmap rinv rlist S s" and d: "dst_is dst ty s"
  shows "tp (bnd (put_tok_data dst Uninit (die m s)) (\<lambda>s. Ok (False, depth, s))) (parsed hinv hmap rinv rlist dst isnum S s)"
    "tp (bnd (put_tok_data dst Uninit (die m' (die m s))) (\<lambda>s. Ok (False, depth, s))) (parsed hinv hmap rinv rlist dst isnum S s)"
    "tp (bnd (put_tok_data dst Uninit (warn_msg m' (die m s))) (\<lambda>s. Ok (False, depth, s))) (parsed hinv hmap rinv rlist dst isnum S s)"
proof -
  note a = adds_die [OF c, of dst m]
  note b = adds_trans [OF a adds_die [OF addsD(2) [OF a]], unfolded append_Nil] and w = adds_trans [OF a adds_warn [OF addsD(2) [OF a]], unfolded append_Nil]
  show "tp (bnd (put_tok_data dst Uninit (die m s)) (\<lambda>s. Ok (False, depth, s))) (parsed hinv hmap rinv rlist dst isnum S s)"
    by (rule finish_fail [OF a, of ty]) (use d in simp_all)
  show "tp (bnd (put_tok_data dst Uninit (die m' (die m s))) (\<lambda>s. Ok (False, depth, s))) (parsed hinv hmap rinv rlist dst isnum S s)"
    by (rule finish_fail [OF b, of ty]) (use d in simp_all)
  show "tp (bnd (put_tok_data dst Uninit (warn_msg m' (die m s))) (\<lambda>s. Ok (False, depth, s))) (parsed hinv hmap rinv rlist dst isnum S s)"
    by (rule finish_fail [OF w, of ty]) (use d in simp_all)
qed

lemma parse_number_typed:
  assumes num: "minus_or_digit (input s i)" "input s i \<noteq> CHR ''$''" and i: "i \<le> MAX_INPUT_STR_LEN"
    and c: "conf hinv hmap rinv rlist S s" and d: "dst_is dst None s"
  shows "tp (parse_varval_token V i dst (dst \<noteq> None) depth s) (parsed hinv hmap rinv rlist dst (minus_or_digit (input s i)) S s)"
proof -
  define stop where "stop = word_stop (dst \<noteq> None)"
  note f = fails [OF c d, where isnum = "minus_or_digit (input s i)"]
  have inp: "input_at i s = Ok (input s i)" using i by (simp add: input_at_def)
  have num': "input s i = CHR ''-'' \<or> isdigit (of_char (input s i))" using num(1) by (simp add: minus_or_digit_def)
  show ?thesis
  proof (cases "dst \<noteq> None \<and> input s i = CHR ''-''")
    case True
    then show ?thesis using num(2) num' inp f(1) by (subst parse_varval_token.simps) (simp add: Let_def del: parsed.simps not_None_eq)
  next
    case False
    have sc: "tp (scan_digits (MAX_INT_STR_LEN + i) stop (i + 1) s) R"
      if "\<And>j. input s j = stop \<Longrightarrow> R (j, s)" "\<And>j m. input s j \<noteq> stop \<Longrightarrow> R (j, die m s)" for R
    proof -
      have "scan_digits l st k s \<noteq> Undef TypeConfusion" for l st k
        by (induction l st k s rule: scan_digits.induct) (subst scan_digits.simps, simp)
      then show ?thesis using that scan_digits_stops [of "MAX_INT_STR_LEN + i" stop "i + 1" s] by (auto simp: tp_iff)
    qed
    have eq: "parse_varval_token V i dst (dst \<noteq> None) depth s = bnd (scan_digits (MAX_INT_STR_LEN + i) stop (i + 1) s) (\<lambda>(j, s).
         if input s j = stop then
           bnd (atoi i s) (\<lambda>v. bnd (put_type dst INT_VAL_TOK s) (\<lambda>s. bnd (if dst = None then add_new_token V NoPtr v 0 INT_VAL_TOK 0 s else Ok s)
             (\<lambda>s. bnd (put_tok_data dst (Value v) s) (\<lambda>s. Ok (True, depth, s)))))
         else if dst \<noteq> None then bnd (put_tok_data dst Uninit (warn_msg MClosingBrackets s)) (\<lambda>s. Ok (False, depth, s))
         else bnd (put_tok_data dst Uninit s) (\<lambda>s. Ok (False, depth, s)))"
      using num(2) num' inp False by (cases dst; subst parse_varval_token.simps; simp add: Let_def stop_def cong: if_cong)
    show ?thesis
      unfolding eq tp_bnd [of "scan_digits (MAX_INT_STR_LEN + i) stop (i + 1) s"]
    proof (rule sc, goal_cases)
      case (1 j)
      show ?case unfolding prod.case if_P [OF 1] by (rule number_end_typed [OF c d num(1)])
    next
      case (2 j m)
      then show ?case using f(1,3) by (cases dst) (simp_all del: parsed.simps not_None_eq tp_bnd)
    qed
  qed
qed

lemma parse_array_typed:
  assumes c: "conf hinv hmap rinv rlist S s" and d: "dst_is dst None s"
    and ok: "new_arr_tok i j s = Ok (fresh s, s1)" "put_type dst INT_ARR_TOK s1 = Ok s2" "(if dst = None then add_new_token V (ArrPtr (fresh s)) 0 0 INT_ARR_TOK 0 s2 else Ok s2) = Ok s3"
    and a: "adds hinv hmap rinv rlist dst S s S3 s3 us" "dst_is dst (Some INT_ARR_TOK) s3" "pstate s3 = pstate s" "S3 (fresh s) = Some ArrS"
      "if dst = None then \<exists>u. us = [u] \<and> S3 u = Some (TokS INT_ARR_TOK) else us = []"
    and rec: "\<And>dp. tp (parse_varval_token V (j + 1) (Some (fresh s)) True dp s3) (parsed hinv hmap rinv rlist (Some (fresh s)) isnum' S3 s3)"
    and scan: "scan_name (i + 2 + MAX_ALLOWED_SYMBOL_LEN) (word_stop (dst \<noteq> None)) (i + 2) s = Ok (j, s)" "input s j = CHR ''[''"
    and x: "input s i = CHR ''$''" "isalpha (of_char (input s (i + 1)))" and i: "i + 1 \<le> MAX_INPUT_STR_LEN"
  shows "tp (parse_varval_token V i dst (dst \<noteq> None) depth s) (parsed hinv hmap rinv rlist dst isnum S s)"
proof -
  let ?Q = "parsed hinv hmap rinv rlist dst isnum S s"
  define stop where "stop = word_stop (dst \<noteq> None)"
  have inp: "input_at i s = Ok (input s i)" "input_at (i + 1) s = Ok (input s (i + 1))" using i by (simp_all add: input_at_def)
  have f: "heap s (fresh s) = None" using conf_mem [OF c] by (simp add: mem_conf_def)
  have ns: "CHR ''['' \<noteq> stop" by (simp add: stop_def)
  have eq: "parse_varval_token V i dst (dst \<noteq> None) depth s = (case depth of
             None \<Rightarrow> bnd (parse_varval_token V (j + 1) (Some (fresh s)) True (Some 1) s3) (\<lambda>(ok, recur_depth, s).
               if \<not> ok then Ok (False, None, s)
               else bnd (count_closing (j + 1) 0 s) (\<lambda>closing_bracket_count.
                 if Some closing_bracket_count \<noteq> recur_depth
                 then bnd (put_tok_data dst Uninit (die MClosingBrackets s)) (\<lambda>s. Ok (False, None, s))
                 else bnd (put_tok_data dst Uninit s) (\<lambda>s. Ok (True, None, s))))
           | Some dd \<Rightarrow> bnd (parse_varval_token V (j + 1) (Some (fresh s)) True (Some (dd + 1)) s3)
               (\<lambda>(ok, d, s). bnd (put_tok_data dst (Ptr (fresh s')) s) (\<lambda>s. Ok (ok, d, s))))" if "s' = s" for s'
    using x inp scan ns ok unfolding that by (subst parse_varval_token.simps) (simp add: Let_def stop_def [symmetric])
  have cc: "tp (count_closing k n t) R" if "\<And>c. R c" for k n t R
  proof -
    have "count_closing k n t \<noteq> Undef TypeConfusion" by (induction k n t rule: count_closing.induct) (subst count_closing.simps, simp)
    then show ?thesis using that by (simp add: tp_iff)
  qed
  have step: "tp (parse_varval_token V (j + 1) (Some (fresh s)) True dp s3) R"
    if good: "\<And>rd S4 s4. adds hinv hmap rinv rlist dst S s S4 s4 us \<Longrightarrow> dst_is dst (Some INT_ARR_TOK) s4 \<Longrightarrow> S4 (fresh s) = Some ArrS \<Longrightarrow> pstate s4 = pstate s \<Longrightarrow>
        (if dst = None then \<exists>u ty. us = [u] \<and> S4 u = Some (TokS ty) \<and> val_ty ty \<and> (ty = INT_VAL_TOK \<longrightarrow> isnum) else us = []) \<Longrightarrow> R (True, rd, s4)"
      and bad: "\<And>rd S4 s4 vs. adds hinv hmap rinv rlist dst S s S4 s4 vs \<Longrightarrow> dst_is dst (Some INT_ARR_TOK) s4 \<Longrightarrow> S4 (fresh s) = Some ArrS \<Longrightarrow> pstate s4 = FINISHED \<Longrightarrow> R (False, rd, s4)"
    for dp R
  proof (rule tp_mono [OF rec [of dp]])
    fix r assume r: "parsed hinv hmap rinv rlist (Some (fresh s)) isnum' S3 s3 r"
    obtain k rd s4 where r1: "r = (k, rd, s4)" by (cases r)
    obtain S4 vs where r2: "adds hinv hmap rinv rlist (Some (fresh s)) S3 s3 S4 s4 vs" "if k then pstate s4 = pstate s3 \<and> vs = [] else pstate s4 = FINISHED"
      using r unfolding r1 parsed.simps by auto
    have g: "adds hinv hmap rinv rlist dst S s S4 s4 (us @ vs)" by (rule adds_inner [OF a(1) r2(1) f])
    have "dst \<noteq> Some (fresh s)" using d f by (auto simp: dst_is_def)
    then have "dst_is dst (Some INT_ARR_TOK) s4" using a(2) addsD(8) [OF r2(1)] by (fastforce simp: dst_is_def)
    moreover have "S4 (fresh s) = Some ArrS" by (rule sort_mono [OF addsD(1) [OF r2(1)] a(4)])
    moreover have "if dst = None then \<exists>u ty. us = [u] \<and> S4 u = Some (TokS ty) \<and> val_ty ty \<and> (ty = INT_VAL_TOK \<longrightarrow> isnum) else us = []"
      using a(5) sort_mono [OF addsD(1) [OF r2(1)]] by (fastforce simp: val_ty_def)
    ultimately show "R r" using r2(2) g a(3) good [of S4 s4 rd] bad [of S4 s4 "us @ vs" rd] unfolding r1 by (cases k) simp_all
  qed
  show ?thesis
  proof (cases depth)
    case None
    show ?thesis
      unfolding eq [OF refl] unfolding None option.case tp_bnd [of "parse_varval_token V (j + 1) (Some (fresh s)) True (Some 1) s3"]
    proof (rule step, goal_cases)
      case (1 rd S4 s4)
      have "tp (if Some n \<noteq> rd then bnd (put_tok_data dst Uninit (die MClosingBrackets s4)) (\<lambda>s. Ok (False, None, s))
          else bnd (put_tok_data dst Uninit s4) (\<lambda>s. Ok (True, None, s))) ?Q" for n
      proof (rule tp_ifI)
        show "tp (bnd (put_tok_data dst Uninit (die MClosingBrackets s4)) (\<lambda>s. Ok (False, None, s))) ?Q"
          by (rule finish_fail [OF adds_trans [OF 1(1) adds_die [OF addsD(2) [OF 1(1)]]], of "Some INT_ARR_TOK"]) (use 1(2) in simp_all)
        show "tp (bnd (put_tok_data dst Uninit s4) (\<lambda>s. Ok (True, None, s))) ?Q" by (rule finish_ok [OF 1(1,2) _ 1(4,5)]) simp
      qed
      then show ?case by (simp del: parsed.simps not_None_eq add: cc)
    next
      case (2 rd S4 s4 vs)
      then show ?case by (auto simp del: not_None_eq)
    qed
  next
    case (Some dp)
    show ?thesis
      unfolding eq [OF refl] unfolding Some option.case tp_bnd [of "parse_varval_token V (j + 1) (Some (fresh s)) True (Some (dp + 1)) s3"]
    proof (rule step, goal_cases)
      case (1 rd S4 s4)
      show ?case unfolding prod.case by (rule finish_ok [OF 1(1,2) _ 1(4,5)]) (use 1(3) in \<open>simp add: ptr_def\<close>)
    next
      case (2 rd S4 s4 vs)
      show ?case unfolding prod.case by (rule finish_bad [OF 2(1,2) _ 2(4)]) (use 2(3) in \<open>simp add: ptr_def\<close>)
    qed
  qed
qed

lemma parse_typed:
  assumes "input s n = NUL" and "i \<le> n" and "n \<le> MAX_INPUT_STR_LEN" and "conf hinv hmap rinv rlist S s" and "dst_is dst None s" and "word_names n s"
  shows "tp (parse_varval_token V i dst (dst \<noteq> None) depth s) (parsed hinv hmap rinv rlist dst (minus_or_digit (input s i)) S s)"
  using assms
proof (induction "n - i" arbitrary: i dst depth s S rule: less_induct)
  case less
  note nul = less.prems(1) and i = less.prems(2) and n = less.prems(3) and c = less.prems(4) and d = less.prems(5) and w = less.prems(6)
  note f = fails [OF c d, where isnum = "minus_or_digit (input s i)"]
  have inp: "input_at i s = Ok (input s i)" using i n by (simp add: input_at_def)
  consider (num) "minus_or_digit (input s i)" "input s i \<noteq> CHR ''$''" | (bad) "input s i \<noteq> CHR ''$''" "\<not> minus_or_digit (input s i)"
    | (noname) "input s i = CHR ''$''" "\<not> isalpha (of_char (input s (i + 1)))" | (var) "input s i = CHR ''$''" "isalpha (of_char (input s (i + 1)))" by blast
  then show ?case
  proof cases
    case num
    show ?thesis by (rule parse_number_typed [OF num _ c d]) (use i n in simp)
  next
    case bad
    then show ?thesis using inp f(1) by (subst parse_varval_token.simps) (simp add: Let_def minus_or_digit_def del: parsed.simps not_None_eq)
  next
    case noname
    then have "i < n" using nul i by (cases "i = n") auto
    then have "input_at (i + 1) s = Ok (input s (i + 1))" using n by (simp add: input_at_def)
    then show ?thesis using noname inp f(1) by (subst parse_varval_token.simps) (simp add: Let_def del: parsed.simps not_None_eq)
  next
    case var
    define stop where "stop = word_stop (dst \<noteq> None)"
    have "i < n" using nul i var by (cases "i = n") auto
    then have nl: "input s (i + 1) \<noteq> CHR ''L''" using w var(1) by (simp add: word_names_def)
    have i2: "i + 2 \<le> n" using \<open>i < n\<close> nul var by (cases "i + 1 = n") auto
    have inp1: "input_at (i + 1) s = Ok (input s (i + 1))" using \<open>i < n\<close> n by (simp add: input_at_def)
    obtain j m where j: "scan_name (i + 2 + MAX_ALLOWED_SYMBOL_LEN) stop (i + 2) s = Ok (j, s) \<and> i + 2 \<le> j \<and> j \<le> n \<or>
        scan_name (i + 2 + MAX_ALLOWED_SYMBOL_LEN) stop (i + 2) s = Ok (j, die m s) \<and> i + 2 \<le> j \<and> j \<le> n \<and> input s j \<noteq> stop \<and> input s j \<noteq> CHR ''[''"
      using scan_name_safe [OF nul i2 n, of "i + 2 + MAX_ALLOWED_SYMBOL_LEN" stop] by blast
    from j show ?thesis
    proof (elim disjE conjE)
      assume sc: "scan_name (i + 2 + MAX_ALLOWED_SYMBOL_LEN) stop (i + 2) s = Ok (j, die m s)" and nj: "input s j \<noteq> stop" "input s j \<noteq> CHR ''[''"
      then show ?thesis using var inp inp1 f(1,2)
        by (cases dst; subst parse_varval_token.simps; simp add: Let_def stop_def del: parsed.simps tp_bnd)
    next
      assume sc: "scan_name (i + 2 + MAX_ALLOWED_SYMBOL_LEN) stop (i + 2) s = Ok (j, s)" and ij: "i + 2 \<le> j" "j \<le> n"
      have "die m s \<noteq> s" for m
      proof
        assume "die m s = s"
        then have "out (die m s) = out s" by simp
        then show False by (simp add: die_def err_msg_def program_stop_def split: prod.splits)
      qed
      then have "input s j = stop \<or> input s j = CHR ''[''" using scan_name_stops [OF sc] by metis
      then show ?thesis
      proof
        assume e: "input s j = stop"
        have "parse_varval_token V i dst (dst \<noteq> None) depth s = bnd (put_type dst INT_VAR_TOK s) (\<lambda>s. let offset = j - i in
          if dst = None then bnd (add_new_token V (FromInput (i + 1)) 0 offset INT_VAR_TOK 0 s)
            (\<lambda>s. bnd (put_tok_data dst Uninit s) (\<lambda>s. Ok (True, depth, s)))
          else case alloc (StrB (cstr (input_bytes (i + 1) (i + offset) s))) s of (name, s) \<Rightarrow>
            bnd (put_tok_data dst (Ptr name) s) (\<lambda>s. Ok (True, depth, s)))"
          using var inp inp1 sc e by (cases dst; subst parse_varval_token.simps; simp add: Let_def stop_def cong: if_cong)
        then show ?thesis using name_end_typed [OF c d ij(1) _ var(2) nl] ij(2) n by (simp only:)
      next
        assume e: "input s j = CHR ''[''"
        have jn: "j < n" using e nul ij(2) by (cases "j = n") auto
        obtain s1 s2 s3 S3 us where a: "new_arr_tok i j s = Ok (fresh s, s1)" "put_type dst INT_ARR_TOK s1 = Ok s2"
          "(if dst = None then add_new_token V (ArrPtr (fresh s)) 0 0 INT_ARR_TOK 0 s2 else Ok s2) = Ok s3"
          "adds hinv hmap rinv rlist dst S s S3 s3 us" "dst_is (Some (fresh s)) None s3" "dst_is dst (Some INT_ARR_TOK) s3" "pstate s3 = pstate s"
          "S3 (fresh s) = Some ArrS" "if dst = None then \<exists>u. us = [u] \<and> S3 u = Some (TokS INT_ARR_TOK) else us = []"
          by (rule array_start_typed [OF c d ij(1) var(2) nl])
        have inp3: "input s3 = input s" by (rule addsD(3) [OF a(4)])
        have rec: "tp (parse_varval_token V (j + 1) (Some (fresh s)) True dp s3) (parsed hinv hmap rinv rlist (Some (fresh s)) (minus_or_digit (input s3 (j + 1))) S3 s3)" for dp
          using less.hyps [of "j + 1" s3 S3 "Some (fresh s)" dp] addsD(2) [OF a(4)] a(5) jn ij n nul w by (simp add: inp3 word_names_def del: parsed.simps)
        show ?thesis
          by (rule parse_array_typed [OF c d a(1-4,6-9) rec sc [unfolded stop_def] e var]) (use \<open>i < n\<close> n in simp)
      qed
    qed
  qed
qed

end


subsection \<open>Words\<close>

text \<open>No variable in the file begins with L.\<close>

definition no_lvar :: "string \<Rightarrow> bool" where
  "no_lvar t \<longleftrightarrow> (\<forall>i < length t - 1. t ! i = CHR ''$'' \<longrightarrow> t ! Suc i \<noteq> CHR ''L'')"

definition cursor_ok :: "('h, 'r, 'z) program_s_scheme \<Rightarrow> bool" where
  "cursor_ok s \<longleftrightarrow> no_lvar (fbuf s) \<and> (to_char (c_in s) = CHR ''$'' \<longrightarrow> fpos s < length (fbuf s) \<longrightarrow> fbuf s ! fpos s \<noteq> CHR ''L'')"

lemma cursor_cong: "cursor_ok s \<Longrightarrow> fbuf s' = fbuf s \<Longrightarrow> fpos s' = fpos s \<Longrightarrow> c_in s' = c_in s \<Longrightarrow> cursor_ok s'"
  by (simp add: cursor_ok_def)

lemma next_char_same: "fbuf (next_char s) = fbuf s" "input (next_char s) = input s" "pstate (next_char s) = pstate s"
  by (auto simp: next_char_def fgetc_def next_line_def Let_def)

lemma cursor_next:
  assumes "no_lvar (fbuf s)"
  shows "cursor_ok (next_char s)"
proof (cases "fpos s < length (fbuf s)")
  case True
  then have "c_in (next_char s) = of_char (fbuf s ! fpos s)" "fpos (next_char s) = Suc (fpos s)"
    by (simp_all add: next_char_def fgetc_def next_line_def Let_def)
  then show ?thesis using assms by (simp add: cursor_ok_def next_char_same no_lvar_def)
next
  case False
  then have "fpos (next_char s) = fpos s" by (simp add: next_char_def fgetc_def next_line_def Let_def)
  then show ?thesis using assms False by (simp add: cursor_ok_def next_char_same)
qed

lemma flush_char_cursor:
  "no_lvar (fbuf s) \<Longrightarrow> cursor_ok (snd (flush_up_to_char s)) \<and> pstate (snd (flush_up_to_char s)) = pstate s"
proof (induction s rule: flush_up_to_char.induct)
  case (1 s)
  then show ?case
    using cursor_next [of s] by (subst (1 2) flush_up_to_char.simps) (simp add: Let_def next_char_same)
qed

lemma flush_newline_cursor:
  "cursor_ok s \<Longrightarrow> cursor_ok (snd (flush_up_to_newline s)) \<and> pstate (snd (flush_up_to_newline s)) = pstate s"
proof (induction s rule: flush_up_to_newline.induct)
  case (1 s)
  then show ?case
    using cursor_next [of s] by (subst (1 2) flush_up_to_newline.simps) (simp add: Let_def next_char_same cursor_ok_def)
qed

lemma word_loop_names:
  assumes "word_loop m i s = Ok (n, s')" and "0 < i" and "no_lvar (fbuf s)"
    and "\<forall>j. Suc j < i \<longrightarrow> input s j = CHR ''$'' \<longrightarrow> input s (Suc j) \<noteq> CHR ''L''"
    and "input s (i - 1) = CHR ''$'' \<longrightarrow> fpos s < length (fbuf s) \<longrightarrow> fbuf s ! fpos s \<noteq> CHR ''L''"
  shows "cursor_ok s' \<and> word_names n s' \<and> pstate s' \<in> {pstate s, LAST_LINE, FINISHED}"
  using assms
proof (induction m i s rule: word_loop.induct)
  case (1 m i s)
  let ?s1 = "next_char s"
  have c1: "cursor_ok ?s1" by (rule cursor_next [OF 1(4)])
  have die1: "cursor_ok (die k ?s1)" for k by (rule cursor_cong [OF c1]) (simp_all add: die_def err_msg_def program_stop_def split: prod.splits)
  have upd: "cursor_ok (?s1\<lparr>input := f\<rparr>)" "cursor_ok (?s1\<lparr>pstate := p, input := f\<rparr>)" for f p using c1 by (simp_all add: cursor_ok_def)
  have nm: "word_names i t" if "input t = (input s)(i := NUL)" for t
  proof -
    have "input t j = CHR ''$'' \<longrightarrow> input t (Suc j) \<noteq> CHR ''L''" if "j < i" for j
      using 1(5) that \<open>input t = (input s)(i := NUL)\<close> by (cases "Suc j = i") auto
    then show ?thesis by (simp add: word_names_def)
  qed
  have z: "to_char 0 = NUL" by (simp add: to_char_def char_of_def)
  consider (big) "i = m" | (eof) "i \<noteq> m" "c_in ?s1 = EOF" | (end_) "i \<noteq> m" "c_in ?s1 \<noteq> EOF" "isspace (c_in ?s1)"
    | (char) "i \<noteq> m" "c_in ?s1 \<noteq> EOF" "\<not> isspace (c_in ?s1)" by blast
  then show ?case
  proof cases
    case big
    then have "n = 0 \<and> s' = die MSymbolTooBig ?s1" using 1(2) by (subst (asm) word_loop.simps) (simp add: Let_def bnd_eq_Ok)
    then show ?thesis using die1 by (simp add: word_names_def)
  next
    case eof
    then have "n = i \<and> s' = ?s1\<lparr>pstate := LAST_LINE, input := (input ?s1)(i := to_char 0)\<rparr>"
      using 1(2) by (subst (asm) word_loop.simps) (auto simp: Let_def put_input_def split: if_splits)
    moreover have "word_names i s'" by (rule nm) (use calculation in \<open>simp add: next_char_same z\<close>)
    ultimately show ?thesis using upd by (simp add: next_char_same z)
  next
    case end_
    then have "n = i \<and> s' = ?s1\<lparr>input := (input ?s1)(i := to_char 0)\<rparr>"
      using 1(2) by (subst (asm) word_loop.simps) (auto simp: Let_def put_input_def split: if_splits)
    moreover have "word_names i s'" by (rule nm) (use calculation in \<open>simp add: next_char_same z\<close>)
    ultimately show ?thesis using upd by (simp add: next_char_same z)
  next
    case char
    let ?s2 = "?s1\<lparr>input := (input ?s1)(i := to_char (c_in ?s1))\<rparr>"
    have w: "i \<le> MAX_INPUT_STR_LEN" "word_loop m (Suc i) ?s2 = Ok (n, s')"
      using 1(2) char by (subst (asm) word_loop.simps; auto simp: Let_def put_input_def split: if_splits)+
    have rd: "fpos s < length (fbuf s)" "c_in ?s1 = of_char (fbuf s ! fpos s)"
      using char(2) by (auto simp: next_char_def fgetc_def next_line_def Let_def split: if_splits)
    have "\<forall>j. Suc j < Suc i \<longrightarrow> input ?s2 j = CHR ''$'' \<longrightarrow> input ?s2 (Suc j) \<noteq> CHR ''L''"
    proof (intro allI impI)
      fix j assume j: "Suc j < Suc i" "input ?s2 j = CHR ''$''"
      show "input ?s2 (Suc j) \<noteq> CHR ''L''"
        using 1(3,5,6) j rd by (cases "Suc j = i") (auto simp: next_char_same)
    qed
    moreover have "input ?s2 (Suc i - 1) = CHR ''$'' \<longrightarrow> fpos ?s2 < length (fbuf ?s2) \<longrightarrow> fbuf ?s2 ! fpos ?s2 \<noteq> CHR ''L''"
      using c1 by (simp add: cursor_ok_def)
    moreover have "no_lvar (fbuf ?s2)" using 1(4) by (simp add: next_char_same)
    ultimately have "cursor_ok s' \<and> word_names n s' \<and> pstate s' \<in> {pstate ?s2, LAST_LINE, FINISHED}"
      using 1(1) [OF refl _ _ _ _ w(2)] char w(1) by (simp add: put_input_def)
    then show ?thesis by (simp add: next_char_same)
  qed
qed

lemma next_word_names:
  assumes w: "get_next_word m here s = Ok (n, s')" and c: "cursor_ok s"
  shows "cursor_ok s' \<and> word_names n s' \<and> pstate s' \<in> {pstate s, LAST_LINE, FINISHED}"
proof -
  have fl: "cursor_ok (snd (flush_up_to_char s))" "pstate (snd (flush_up_to_char s)) = pstate s" using flush_char_cursor [of s] c by (simp_all add: cursor_ok_def)
  have loop: "cursor_ok s' \<and> word_names n s' \<and> pstate s' \<in> {pstate s1, LAST_LINE, FINISHED}"
    if "cursor_ok s1" "word_loop m 1 (s1\<lparr>input := (input s1)(0 := to_char (c_in s1))\<rparr>) = Ok (n, s')" for s1
    using word_loop_names [OF that(2)] that(1) by (simp add: cursor_ok_def)
  show ?thesis
  proof (cases "here \<and> c_in s = 10")
    case True
    then show ?thesis using w c by (auto simp: get_next_word_def word_names_def)
  next
    case False
    define r where "r = (if isspace (c_in s) then flush_up_to_char s else (True, s))"
    have r: "cursor_ok (snd r)" "pstate (snd r) = pstate s" using fl c by (simp_all add: r_def)
    have "\<not> fst r \<and> n = 0 \<and> s' = snd r \<or> n = 0 \<and> s' = snd r \<or> bnd (put_input 0 (c_in (snd r)) (snd r)) (\<lambda>s2. word_loop m 1 s2) = Ok (n, s')"
      using w False unfolding get_next_word_def r_def [symmetric] by (auto simp: Let_def split: prod.splits if_splits)
    then show ?thesis using r loop [of "snd r"] by (auto simp: word_names_def put_input_def)
  qed
qed


end
