(* ===== verification/LineTyping.thy ===== *)
theory LineTyping imports ScanTyping begin

section \<open>Types: the lines\<close>

text \<open>
  What the scanner makes of a line: the tokens of the arguments of each instruction, as its handler lets them through.
\<close>

subsection \<open>Lines\<close>

text \<open>A program that is being read, or has been stopped.\<close>

abbreviation reads :: "('h, 'r) st \<Rightarrow> bool" where
  "reads s \<equiv> pstate s \<in> {INSTRUCTION_LINE, LAST_LINE, FINISHED}"

definition lexed :: "('h \<Rightarrow> bool) \<Rightarrow> ('h \<Rightarrow> pairs) \<Rightarrow> ('r \<Rightarrow> bool) \<Rightarrow> ('r \<Rightarrow> addr list) \<Rightarrow> sorts \<Rightarrow> ('h, 'r) st \<Rightarrow> sorts \<Rightarrow> ('h, 'r) st \<Rightarrow> addr list \<Rightarrow> bool" where
  "lexed hinv hmap rinv rlist S s S' s' us \<longleftrightarrow> S \<subseteq>\<^sub>m S' \<and> conf hinv hmap rinv rlist S' s' \<and> cursor_ok s' \<and> reads s' \<and>
     rlist (translated_line s') = rlist (translated_line s) @ us"

lemma lexedD:
  assumes "lexed hinv hmap rinv rlist S s S' s' us"
  shows "S \<subseteq>\<^sub>m S'" "conf hinv hmap rinv rlist S' s'" "cursor_ok s'" "reads s'" "rlist (translated_line s') = rlist (translated_line s) @ us"
  using assms by (simp_all add: lexed_def)

lemma lexed_refl: "conf hinv hmap rinv rlist S s \<Longrightarrow> cursor_ok s \<Longrightarrow> reads s \<Longrightarrow> lexed hinv hmap rinv rlist S s S s []"
  by (simp add: lexed_def)

lemma lexed_adds:
  assumes l: "lexed hinv hmap rinv rlist S s S1 s1 us" and a: "adds hinv hmap rinv rlist dst S1 s1 S2 s2 vs" and p: "reads s2"
  shows "lexed hinv hmap rinv rlist S s S2 s2 (us @ vs)"
  using lexedD [OF l] addsD(1-7) [OF a] p map_le_trans [of S S1 S2] cursor_cong [of s1 s2] by (simp add: lexed_def)

lemma lexed_quiet:
  assumes l: "lexed hinv hmap rinv rlist S s S1 s1 us" and q: "quiet s1 s2" and c: "cursor_ok s2" "reads s2"
  shows "lexed hinv hmap rinv rlist S s S1 s2 us"
proof -
  have "conf hinv hmap rinv rlist S1 s2" by (rule conf_cong [OF lexedD(2) [OF l]]) (use q in \<open>simp_all add: quiet_def sframe_def\<close>)
  then show ?thesis using lexedD [OF l] q c by (simp add: lexed_def quiet_def)
qed

lemma lexed_die:
  assumes "lexed hinv hmap rinv rlist S s S1 s1 us"
  shows "lexed hinv hmap rinv rlist S s S1 (die k s1) us"
proof (rule lexed_quiet [OF assms quiet_die(1)])
  show "cursor_ok (die k s1)" by (rule cursor_cong [OF lexedD(3) [OF assms]]) (simp_all add: die_def err_msg_def program_stop_def split: prod.splits)
qed simp

text \<open>The tokens of the arguments of an instruction, as the scanner lets them through, and as the handler needs them.\<close>

definition var_ty :: "token_type_e \<Rightarrow> bool" where
  "var_ty ty \<longleftrightarrow> ty \<in> {INT_VAR_TOK, INT_ARR_TOK}"

definition label_ty :: "token_type_e \<Rightarrow> bool" where
  "label_ty ty \<longleftrightarrow> ty = LABEL_TOK"

fun arg_types :: "instruction_id_e \<Rightarrow> (token_type_e \<Rightarrow> bool) list" where
  "arg_types LOAD_SYM = [var_ty, val_ty]" | "arg_types STORE_SYM = [var_ty, val_ty]" | "arg_types SET_SYM = [var_ty, val_ty]"
| "arg_types ADD_SYM = [var_ty, val_ty, val_ty]" | "arg_types SUB_SYM = [var_ty, val_ty, val_ty]" | "arg_types MUL_SYM = [var_ty, val_ty, val_ty]"
| "arg_types DIV_SYM = [var_ty, val_ty, val_ty]" | "arg_types MOD_SYM = [var_ty, val_ty, val_ty]"
| "arg_types BRGT_SYM = [val_ty, val_ty, label_ty]" | "arg_types BRGE_SYM = [val_ty, val_ty, label_ty]" | "arg_types BRLT_SYM = [val_ty, val_ty, label_ty]"
| "arg_types BRLE_SYM = [val_ty, val_ty, label_ty]" | "arg_types BREQ_SYM = [val_ty, val_ty, label_ty]" | "arg_types BRA_SYM = [label_ty]"
| "arg_types DOWN_SYM = [var_ty]" | "arg_types UP_SYM = [var_ty]" | "arg_types SLEEP_SYM = [val_ty]" | "arg_types PRINT_SYM = []" | "arg_types RETURN_SYM = []"

fun args_typed :: "instruction_id_e \<Rightarrow> token_type_e list \<Rightarrow> bool" where
  "args_typed PRINT_SYM tys \<longleftrightarrow> tys \<noteq> [] \<and> hd tys = STRING_TOK \<and> list_all val_ty (tl tys)"
| "args_typed i tys \<longleftrightarrow> list_all2 (\<lambda>P ty. P ty) (arg_types i) tys"

definition toks :: "sorts \<Rightarrow> addr list \<Rightarrow> token_type_e list \<Rightarrow> bool" where
  "toks S us tys \<longleftrightarrow> list_all2 (\<lambda>u ty. S u = Some (TokS ty)) us tys"

text \<open>A line: perhaps nothing; or a label or none, an instruction and its arguments.\<close>

definition line_typed :: "sorts \<Rightarrow> addr list \<Rightarrow> bool" where
  "line_typed S us \<longleftrightarrow> us = [] \<or> (\<exists>ls u i vs tys. us = ls @ u # vs \<and> (ls = [] \<or> (\<exists>l. ls = [l] \<and> S l = Some (TokS LABEL_TOK))) \<and> S u = Some (InsS i) \<and>
     toks S vs tys \<and> args_typed i tys)"

lemma toks_mono: "S \<subseteq>\<^sub>m S' \<Longrightarrow> toks S us tys \<Longrightarrow> toks S' us tys"
  unfolding toks_def by (erule list_all2_mono) (rule sort_mono)

text \<open>What a handler of the scanner leaves: a program that has been stopped, or the arguments.\<close>

definition handled :: "('h \<Rightarrow> bool) \<Rightarrow> ('h \<Rightarrow> pairs) \<Rightarrow> ('r \<Rightarrow> bool) \<Rightarrow> ('r \<Rightarrow> addr list) \<Rightarrow> sorts \<Rightarrow> ('h, 'r) st \<Rightarrow> (token_type_e list \<Rightarrow> bool) \<Rightarrow> ('h, 'r) st \<Rightarrow> bool" where
  "handled hinv hmap rinv rlist S s P s' \<longleftrightarrow> (\<exists>S' us. lexed hinv hmap rinv rlist S s S' s' us \<and> (pstate s' = FINISHED \<or> (\<exists>tys. toks S' us tys \<and> P tys)))"

lemma handled_die: "lexed hinv hmap rinv rlist S s S1 s1 us \<Longrightarrow> handled hinv hmap rinv rlist S s P (die m s1)"
  using lexed_die unfolding handled_def by fastforce

lemma handled_finished: "lexed hinv hmap rinv rlist S s S1 s1 us \<Longrightarrow> pstate s1 = FINISHED \<Longrightarrow> handled hinv hmap rinv rlist S s P s1"
  unfolding handled_def by blast

lemma handled_ok: "lexed hinv hmap rinv rlist S s S1 s1 us \<Longrightarrow> toks S1 us tys \<Longrightarrow> P tys \<Longrightarrow> handled hinv hmap rinv rlist S s P s1"
  unfolding handled_def by blast

lemma toks_Nil: "toks S [] []"
  by (simp add: toks_def)

lemma toks_snoc: "toks S us tys \<Longrightarrow> S \<subseteq>\<^sub>m S' \<Longrightarrow> S' u = Some (TokS ty) \<Longrightarrow> toks S' (us @ [u]) (tys @ [ty])"
  using toks_mono [of S S'] by (auto simp: toks_def intro: list_all2_appendI)

context voids_lib
begin

lemma tp_word:
  assumes l: "lexed hinv hmap rinv rlist S s S1 s1 us"
    and q: "\<And>n s2. lexed hinv hmap rinv rlist S s S1 s2 us \<Longrightarrow> word_at MAX_ALLOWED_SYMBOL_LEN n s2 \<Longrightarrow> word_names n s2 \<Longrightarrow>
      pstate s2 \<in> {pstate s1, LAST_LINE, FINISHED} \<Longrightarrow> Q (n, s2)"
  shows "tp (get_next_word MAX_ALLOWED_SYMBOL_LEN here s1) Q"
proof (cases "get_next_word MAX_ALLOWED_SYMBOL_LEN here s1")
  case (Ok x)
  obtain n s2 where x: "x = (n, s2)" by (cases x)
  note g = Ok [unfolded x]
  have w: "quiet s1 s2" "word_at MAX_ALLOWED_SYMBOL_LEN n s2" using get_next_word_Ok [OF _ _ g] by (simp_all add: limit_defs)
  note c = next_word_names [OF g lexedD(3) [OF l]]
  have "reads s2" using c lexedD(4) [OF l] by auto
  then have "lexed hinv hmap rinv rlist S s S1 s2 us" using lexed_quiet [OF l w(1)] c by blast
  then show ?thesis using q w g c by simp
qed (use get_next_word_over [of MAX_ALLOWED_SYMBOL_LEN s1 here] in \<open>simp_all add: limit_defs\<close>)

text \<open>A variable or a value in the buffer.\<close>

lemma tp_parse_word:
  assumes l: "lexed hinv hmap rinv rlist S s S1 s1 us" and w: "word_at MAX_ALLOWED_SYMBOL_LEN n s1" "word_names n s1" "0 < n"
    and q: "\<And>S2 s2 u ty d. lexed hinv hmap rinv rlist S s S2 s2 (us @ [u]) \<Longrightarrow> S1 \<subseteq>\<^sub>m S2 \<Longrightarrow> S2 u = Some (TokS ty) \<Longrightarrow> val_ty ty \<Longrightarrow>
        (ty = INT_VAL_TOK \<Longrightarrow> minus_or_digit (input s1 0)) \<Longrightarrow> Q (True, d, s2)"
      "\<And>S2 s2 vs d. lexed hinv hmap rinv rlist S s S2 s2 vs \<Longrightarrow> pstate s2 = FINISHED \<Longrightarrow> Q (False, d, s2)"
  shows "tp (parse_varval_token V 0 None False None s1) Q"
proof -
  have b: "input s1 n = NUL" "n \<le> MAX_INPUT_STR_LEN" using w by (auto simp: word_at_def limit_defs)
  have "tp (parse_varval_token V 0 None False None s1) (parsed hinv hmap rinv rlist None (minus_or_digit (input s1 0)) S1 s1)"
    using parse_typed [where dst = None, OF b(1) _ b(2) lexedD(2) [OF l] _ w(2)] by (simp add: dst_is_def del: parsed.simps)
  then show ?thesis
  proof (rule tp_mono)
    fix r assume r: "parsed hinv hmap rinv rlist None (minus_or_digit (input s1 0)) S1 s1 r"
    obtain k d s2 where r1: "r = (k, d, s2)" by (cases r)
    obtain S2 vs where r2: "adds hinv hmap rinv rlist None S1 s1 S2 s2 vs" "if k then pstate s2 = pstate s1 \<and>
        (\<exists>u ty. vs = [u] \<and> S2 u = Some (TokS ty) \<and> val_ty ty \<and> (ty = INT_VAL_TOK \<longrightarrow> minus_or_digit (input s1 0))) else pstate s2 = FINISHED"
      using r unfolding r1 parsed.simps if_P [OF refl] by blast
    have np: "reads s2" using r2(2) lexedD(4) [OF l] by (auto split: if_splits)
    note l2 = lexed_adds [OF l r2(1) np]
    show "Q r"
    proof (cases k)
      case True
      then obtain u ty where u: "vs = [u]" "S2 u = Some (TokS ty)" "val_ty ty" "ty = INT_VAL_TOK \<longrightarrow> minus_or_digit (input s1 0)" using r2(2) by auto
      then show ?thesis using q(1) [OF l2 [unfolded u(1)] addsD(1) [OF r2(1)] u(2,3)] True unfolding r1 by simp
    next
      case False
      then show ?thesis using q(2) [OF l2] r2(2) unfolding r1 by simp
    qed
  qed
qed

text \<open>An argument, and what the handler does after it.\<close>

lemma scan_arg_then:
  assumes l: "lexed hinv hmap rinv rlist S s S1 s1 us" and t: "toks S1 us tys"
    and k: "\<And>S2 s2 vs ty. lexed hinv hmap rinv rlist S s S2 s2 vs \<Longrightarrow> toks S2 vs (tys @ [ty]) \<Longrightarrow> val_ty ty \<Longrightarrow> (first \<Longrightarrow> var_ty ty) \<Longrightarrow>
      tp (k s2) (handled hinv hmap rinv rlist S s P)"
  shows "tp (bnd (scan_arg V ins first s1) (\<lambda>(ok, s). if \<not> ok then Ok s else k s)) (handled hinv hmap rinv rlist S s P)"
  unfolding scan_arg_def tp_bnd
proof (rule tp_word [OF l], unfold prod.case, goal_cases)
  case (1 n s2)
  note dead = handled_die [OF 1(1), of P]
  have "tp (bnd (parse_varval_token V 0 None False None s2) (\<lambda>(ok, d, s). if \<not> ok then Ok s else k s)) (handled hinv hmap rinv rlist S s P)"
    if n: "0 < n" and f: "\<not> (first \<and> minus_or_digit (input s2 0))"
    unfolding tp_bnd
  proof (rule tp_parse_word [OF 1(1-3) n], unfold prod.case, goal_cases)
    case a: (1 S3 s3 u ty d)
    have "var_ty ty" if first using a(4,5) f that by (auto simp: val_ty_def var_ty_def)
    then show ?case using k [OF a(1) toks_snoc [OF t a(2,3)] a(4)] by simp
  next
    case a: (2 S3 s3 vs d)
    then show ?case using handled_finished [OF a(1,2)] by simp
  qed
  then have main: "tp (parse_varval_token V 0 None False None s2) (\<lambda>x. tp (case x of (ok, d, s) \<Rightarrow> Ok (ok, s)) (\<lambda>x. tp (case x of (ok, s) \<Rightarrow> if \<not> ok then Ok s else k s) (handled hinv hmap rinv rlist S s P)))"
    if "0 < n" and "\<not> (first \<and> minus_or_digit (input s2 0))" unfolding tp_bnd by (rule tp_mono [OF _]) (use that in \<open>auto split: prod.splits if_splits\<close>)
  show ?case
    by (rule tp_ifI, simp add: dead, rule tp_ifI, simp add: dead, subst tp_bnd, rule main) simp_all
qed

lemma handled_eol:
  assumes l: "lexed hinv hmap rinv rlist S s S1 s1 us" and t: "toks S1 us tys" "P tys"
  shows "handled hinv hmap rinv rlist S s P (end_of_line ins s1)"
proof -
  obtain r s2 where f: "flush_up_to_newline s1 = (r, s2)" by (cases "flush_up_to_newline s1")
  have "quiet s1 s2" "cursor_ok s2" "pstate s2 = pstate s1"
    using quiet_flush_newline [of s1] flush_newline_cursor [OF lexedD(3) [OF l]] f by simp_all
  then have l2: "lexed hinv hmap rinv rlist S s S1 s2 us" using lexed_quiet [OF l] lexedD(4) [OF l] by simp
  show ?thesis using handled_die [OF l2] handled_ok [where P = P, OF l2 t] by (simp add: end_of_line_def f)
qed

lemmas scan_ends = tp.simps(1) handled_eol

lemma scan_args_typed:
  fixes s :: "('h, 'r) st"
  assumes c: "conf hinv hmap rinv rlist S s" "cursor_ok s" "reads s"
  shows "tp (scan_loadstore V ins s) (handled hinv hmap rinv rlist S s (list_all2 (\<lambda>P ty. P ty) [var_ty, val_ty]))"
    and "tp (scan_set V ins s) (handled hinv hmap rinv rlist S s (list_all2 (\<lambda>P ty. P ty) [var_ty, val_ty]))"
    and "tp (scan_primitive_op V ins s) (handled hinv hmap rinv rlist S s (list_all2 (\<lambda>P ty. P ty) [var_ty, val_ty, val_ty]))"
    and "tp (scan_semaphore V ins s) (handled hinv hmap rinv rlist S s (list_all2 (\<lambda>P ty. P ty) [var_ty]))"
    and "tp (scan_sleep V ins s) (handled hinv hmap rinv rlist S s (list_all2 (\<lambda>P ty. P ty) [val_ty]))"
proof -
  note l = lexed_refl [OF c] and t = toks_Nil [of S]
  show "tp (scan_loadstore V ins s) (handled hinv hmap rinv rlist S s (list_all2 (\<lambda>P ty. P ty) [var_ty, val_ty]))"
    unfolding scan_loadstore_def
    by (rule scan_arg_then [OF l t], rule scan_arg_then, assumption, assumption, subst tp.simps, rule handled_eol, assumption, assumption) simp
  show "tp (scan_set V ins s) (handled hinv hmap rinv rlist S s (list_all2 (\<lambda>P ty. P ty) [var_ty, val_ty]))"
    unfolding scan_set_def
    by (rule scan_arg_then [OF l t], rule scan_arg_then, assumption, assumption, subst tp.simps, rule handled_eol, assumption, assumption) simp
  show "tp (scan_primitive_op V ins s) (handled hinv hmap rinv rlist S s (list_all2 (\<lambda>P ty. P ty) [var_ty, val_ty, val_ty]))"
    unfolding scan_primitive_op_def
    by (rule scan_arg_then [OF l t], rule scan_arg_then, assumption, assumption, rule scan_arg_then, assumption, assumption, subst tp.simps, rule handled_eol, assumption, assumption) simp
  show "tp (scan_semaphore V ins s) (handled hinv hmap rinv rlist S s (list_all2 (\<lambda>P ty. P ty) [var_ty]))"
    unfolding scan_semaphore_def
    by (rule scan_arg_then [OF l t], subst tp.simps, rule handled_eol, assumption, assumption) simp
  show "tp (scan_sleep V ins s) (handled hinv hmap rinv rlist S s (list_all2 (\<lambda>P ty. P ty) [val_ty]))"
    unfolding scan_sleep_def
    by (rule scan_arg_then [OF l t], subst tp.simps, rule handled_eol, assumption, assumption) simp
qed

text \<open>The label at the end of a branch.\<close>

lemma valid_label:
  assumes "is_valid_label n s = (v, s')" and "lexed hinv hmap rinv rlist S s0 S1 s us"
  shows "lexed hinv hmap rinv rlist S s0 S1 s' us \<and> input s' = input s \<and> (v \<longrightarrow> s' = s \<and> n \<noteq> 0 \<and> input s 0 = CHR ''L'')"
  using assms lexed_die [OF assms(2)] by (auto simp: is_valid_label_def split: if_splits)

lemma label_tok:
  assumes l: "lexed hinv hmap rinv rlist S s S1 s1 us" and n: "n \<le> MAX_INPUT_STR_LEN" and x: "input s1 0 = CHR ''L''"
    and q: "\<And>S2 s2 u. lexed hinv hmap rinv rlist S s S2 s2 (us @ [u]) \<Longrightarrow> S1 \<subseteq>\<^sub>m S2 \<Longrightarrow> S2 u = Some (TokS LABEL_TOK) \<Longrightarrow> pstate s2 = pstate s1 \<Longrightarrow> Q s2"
  shows "tp (add_new_token V (FromInput 0) 0 (n + 1) LABEL_TOK 0 s1) Q"
proof -
  have ln: "lname (cstr (input_bytes 0 (0 + (n + 1)) s1))" using x by (simp add: lname_def input_bytes_def cstr_def upt_conv_Cons del: upt_Suc)
  have len: "0 + (n + 1) \<le> Suc MAX_INPUT_STR_LEN" using n by simp
  obtain S2 s2 where s2: "add_new_token V (FromInput 0) 0 (n + 1) LABEL_TOK 0 s1 = Ok s2" "adds hinv hmap rinv rlist None S1 s1 S2 s2 [fresh s1]"
      "S2 (fresh s1) = Some (TokS LABEL_TOK)" "pstate s2 = pstate s1"
    using string_token [OF lexedD(2) [OF l] len disjI2 [OF disjI1 [OF conjI [OF refl ln]]]] by blast
  have "reads s2" using s2(4) lexedD(4) [OF l] by simp
  from q [OF lexed_adds [OF l s2(2) this] addsD(1) [OF s2(2)] s2(3,4)] show ?thesis unfolding s2(1) by simp
qed

lemma branch_label_typed:
  assumes l: "lexed hinv hmap rinv rlist S s S1 s1 us" and t: "toks S1 us tys" and P: "P (tys @ [LABEL_TOK])"
  shows "tp (scan_branch_label V ins s1) (handled hinv hmap rinv rlist S s P)"
  unfolding scan_branch_label_def tp_bnd
proof (rule tp_word [OF l], unfold prod.case, goal_cases)
  case (1 n s2)
  obtain v s3 where v: "is_valid_label n s2 = (v, s3)" by (cases "is_valid_label n s2")
  note v3 = valid_label [OF v 1(1)]
  have bad: "handled hinv hmap rinv rlist S s P (die (MLabelArgument ins) s3)" by (rule handled_die) (use v3 in blast)
  have n: "n \<le> MAX_INPUT_STR_LEN" using 1(2) by (simp add: word_at_def limit_defs)
  have "tp (bnd (add_new_token V (FromInput 0) 0 (n + 1) LABEL_TOK 0 s3) (\<lambda>s. let s = end_of_line ins s in
       if c_in s = EOF \<or> pstate s = LAST_LINE then Ok (s\<lparr>pstate := INSTRUCTION_LINE\<rparr>) else Ok s)) (handled hinv hmap rinv rlist S s P)" if v
    unfolding tp_bnd
  proof (rule label_tok [OF conjunct1 [OF v3] n])
    show "input s3 0 = CHR ''L''" using v3 that by simp
    fix S4 s4 u assume a: "lexed hinv hmap rinv rlist S s S4 s4 (us @ [u])" "S1 \<subseteq>\<^sub>m S4" "S4 u = Some (TokS LABEL_TOK)"
    have h: "handled hinv hmap rinv rlist S s P (end_of_line ins s4)" by (rule handled_eol [where P = P, OF a(1) toks_snoc [OF t a(2,3)] P])
    obtain r s5 where f: "flush_up_to_newline s4 = (r, s5)" by (cases "flush_up_to_newline s4")
    have f5: "quiet s4 s5" "cursor_ok s5" using quiet_flush_newline [of s4] flush_newline_cursor [OF lexedD(3) [OF a(1)]] f by simp_all
    have q: "quiet s4 ((end_of_line ins s4)\<lparr>pstate := INSTRUCTION_LINE\<rparr>)"
      using quiet_trans [OF f5(1) quiet_upd(1)] quiet_trans [OF f5(1) quiet_trans [OF quiet_die(1) quiet_upd(1)]] by (simp add: end_of_line_def f)
    have c: "cursor_ok ((end_of_line ins s4)\<lparr>pstate := INSTRUCTION_LINE\<rparr>)"
      by (rule cursor_cong [OF f5(2)]) (simp_all add: end_of_line_def f die_def err_msg_def program_stop_def split: prod.splits)
    have "lexed hinv hmap rinv rlist S s S4 ((end_of_line ins s4)\<lparr>pstate := INSTRUCTION_LINE\<rparr>) (us @ [u])"
      by (rule lexed_quiet [OF a(1) q c]) simp
    from handled_ok [where P = P, OF this toks_snoc [OF t a(2,3)] P] h
    show "tp (let s = end_of_line ins s4 in if c_in s = EOF \<or> pstate s = LAST_LINE then Ok (s\<lparr>pstate := INSTRUCTION_LINE\<rparr>) else Ok s) (handled hinv hmap rinv rlist S s P)"
      by (simp add: Let_def)
  qed
  then show ?case unfolding v prod.case using bad by simp
qed

lemma scan_branch_typed:
  assumes c: "conf hinv hmap rinv rlist S s" "cursor_ok s" "reads s"
  shows "tp (scan_branch V ins s) (handled hinv hmap rinv rlist S s (list_all2 (\<lambda>P ty. P ty) ((if ins \<noteq> BRA_SYM then [val_ty, val_ty] else []) @ [label_ty])))"
proof (cases "ins = BRA_SYM")
  case True
  show ?thesis unfolding scan_branch_def True
    using branch_label_typed [OF lexed_refl [OF c] toks_Nil, of "list_all2 (\<lambda>P ty. P ty) [label_ty]"] by (simp add: label_ty_def)
next
  case False
  then show ?thesis unfolding scan_branch_def
    by (simp only: False not_False_eq_True if_True) (rule scan_arg_then [OF lexed_refl [OF c] toks_Nil], rule scan_arg_then, assumption, assumption,
      rule branch_label_typed, assumption, assumption, simp add: label_ty_def)
qed

subsubsection \<open>\<open>PRINT\<close>\<close>

lemma lexed_next: "lexed hinv hmap rinv rlist S s S1 s1 us \<Longrightarrow> lexed hinv hmap rinv rlist S s S1 (next_char s1) us"
  by (rule lexed_quiet [OF _ quiet_next cursor_next]) (auto simp: lexed_def cursor_ok_def next_char_same)

lemma lexed_input: "lexed hinv hmap rinv rlist S s S1 s1 us \<Longrightarrow> lexed hinv hmap rinv rlist S s S1 (s1\<lparr>input := f\<rparr>) us"
  by (rule lexed_quiet [OF _ quiet_upd(2)]) (simp_all add: lexed_def cursor_ok_def)

lemma lexed_err:
  assumes l: "lexed hinv hmap rinv rlist S s S1 s1 us"
  shows "lexed hinv hmap rinv rlist S s S1 (err_msg m ((program_stop True s1)\<lparr>input := f\<rparr>)) us"
proof (rule lexed_quiet [OF l])
  show "quiet s1 (err_msg m ((program_stop True s1)\<lparr>input := f\<rparr>))" by (intro quiet_trans [OF quiet_trans [OF quiet_upd(4) quiet_upd(2)] quiet_die(2)])
  show "cursor_ok (err_msg m ((program_stop True s1)\<lparr>input := f\<rparr>))"
    by (rule cursor_cong [OF lexedD(3) [OF l]]) (simp_all add: err_msg_def program_stop_def split: prod.splits)
qed (simp add: err_msg_def program_stop_def split: prod.splits)

lemma err_fields [simp]: "pstate (err_msg m ((program_stop True s1)\<lparr>input := f\<rparr>)) = FINISHED"
  by (simp add: err_msg_def program_stop_def split: prod.splits)

lemma print_string_typed:
  assumes "lexed hinv hmap rinv rlist S s S1 s1 us"
  shows "tp (print_string i s1) (\<lambda>(r, s2). lexed hinv hmap rinv rlist S s S1 s2 us \<and> (case r of None \<Rightarrow> pstate s2 = FINISHED | Some k \<Rightarrow> k \<le> MAX_INPUT_STR_LEN))"
  using assms
proof (induction i s1 rule: print_string.induct)
  case (1 i s1)
  let ?s1 = "next_char s1"
  note n = lexed_next [OF 1(2)]
  note e = lexed_err [OF n] lexed_die [OF lexed_next [OF lexed_input [OF n]]] lexed_next [OF lexed_input [OF n]]
  show ?case
  proof (cases "c_in ?s1 = EOF \<or> MAX_INPUT_STR_LEN \<le> i \<or> \<not> isprint (c_in ?s1) \<or> c_in ?s1 = 34")
    case True
    then show ?thesis
      by (subst print_string.simps) (auto simp: Let_def put_input_def program_stop_def [of True ?s1, symmetric] e intro!: e)
  next
    case False
    then show ?thesis
      using 1(1) [OF refl, of "?s1\<lparr>input := (input ?s1)(i := to_char (c_in ?s1))\<rparr>"] lexed_input [OF n]
      by (subst print_string.simps) (simp add: Let_def)
  qed
qed

lemma print_args_typed:
  assumes "lexed hinv hmap rinv rlist S s S1 s1 us" and "toks S1 us tys" and "args_typed PRINT_SYM tys"
  shows "tp (print_args V n s1) (handled hinv hmap rinv rlist S s (args_typed PRINT_SYM))"
  using assms
proof (induction n arbitrary: S1 s1 us tys)
  case (Suc n)
  show ?case unfolding print_args.simps tp_bnd
  proof (rule tp_word [OF Suc.prems(1)], unfold prod.case, rule tp_ifI, goal_cases)
    case (1 k s2)
    then show ?case using handled_ok [where P = "args_typed PRINT_SYM", OF 1(1) Suc.prems(2,3)] by simp
  next
    case w: (2 k s2)
    show ?case unfolding tp_bnd
    proof (rule tp_parse_word [OF w(1-3)], use w in simp, unfold prod.case, goal_cases)
      case a: (1 S3 s3 u ty d)
      have "args_typed PRINT_SYM (tys @ [ty])" using Suc.prems(3) a(4) by (cases tys) auto
      then show ?case using Suc.IH [OF a(1) toks_snoc [OF Suc.prems(2) a(2,3)]] by (simp del: args_typed.simps)
    next
      case a: (2 S3 s3 vs d)
      then show ?case using handled_finished [OF a(1,2)] by simp
    qed
  qed
qed simp

lemma lexed_flush:
  assumes "lexed hinv hmap rinv rlist S s S1 s1 us" and "flush_up_to_char s1 = (f, s2)"
  shows "lexed hinv hmap rinv rlist S s S1 s2 us"
  using lexed_quiet [OF assms(1), of s2] quiet_flush_char [of s1] flush_char_cursor [of s1] lexedD(3,4) [OF assms(1)] assms(2) by (simp add: cursor_ok_def)

lemma lexed_pstate: "lexed hinv hmap rinv rlist S s S1 s1 us \<Longrightarrow> p \<in> {INSTRUCTION_LINE, LAST_LINE, FINISHED} \<Longrightarrow> lexed hinv hmap rinv rlist S s S1 (s1\<lparr>pstate := p\<rparr>) us"
  by (rule lexed_quiet [OF _ quiet_upd(1)]) (simp_all add: lexed_def cursor_ok_def)

lemma string_tok:
  assumes l: "lexed hinv hmap rinv rlist S s S1 s1 us" and n: "n \<le> MAX_INPUT_STR_LEN"
    and q: "\<And>S2 s2 u. lexed hinv hmap rinv rlist S s S2 s2 (us @ [u]) \<Longrightarrow> S1 \<subseteq>\<^sub>m S2 \<Longrightarrow> S2 u = Some (TokS STRING_TOK) \<Longrightarrow> Q s2"
  shows "tp (add_new_token V (FromInput 0) 0 (n + 1) STRING_TOK 0 s1) Q"
proof -
  have len: "0 + (n + 1) \<le> Suc MAX_INPUT_STR_LEN" using n by simp
  obtain S2 s2 where s2: "add_new_token V (FromInput 0) 0 (n + 1) STRING_TOK 0 s1 = Ok s2" "adds hinv hmap rinv rlist None S1 s1 S2 s2 [fresh s1]"
      "S2 (fresh s1) = Some (TokS STRING_TOK)" "pstate s2 = pstate s1"
    using string_token [OF lexedD(2) [OF l] len disjI2 [OF disjI2 [OF refl]]] by blast
  have "reads s2" using s2(4) lexedD(4) [OF l] by simp
  from q [OF lexed_adds [OF l s2(2) this] addsD(1) [OF s2(2)] s2(3)] show ?thesis unfolding s2(1) by simp
qed

lemma scan_print_typed:
  assumes c: "conf hinv hmap rinv rlist S s" "cursor_ok s" "reads s"
  shows "tp (scan_print V ins s) (handled hinv hmap rinv rlist S s (args_typed PRINT_SYM))"
proof -
  let ?H = "handled hinv hmap rinv rlist S s (args_typed PRINT_SYM)"
  obtain f s1 where f: "flush_up_to_char s = (f, s1)" by (cases "flush_up_to_char s")
  note l1 = lexed_flush [OF lexed_refl [OF c] f]
  have "tp (bnd (print_string 0 s1) (\<lambda>(n, s). case n of None \<Rightarrow> Ok s
        | Some i \<Rightarrow> bnd (add_new_token V (FromInput 0) 0 (i + 1) STRING_TOK 0 s) (\<lambda>s.
            case flush_up_to_char s of (found, s) \<Rightarrow> if \<not> found \<or> l \<noteq> line s then (if c_in s = EOF then Ok (s\<lparr>pstate := LAST_LINE\<rparr>) else Ok s)
            else print_args V (left s + 3) s))) ?H" for l
    unfolding tp_bnd
  proof (rule tp_mono [OF print_string_typed [OF l1]])
    fix r assume r: "case r of (r, s2) \<Rightarrow> lexed hinv hmap rinv rlist S s S s2 [] \<and> (case r of None \<Rightarrow> pstate s2 = FINISHED | Some k \<Rightarrow> k \<le> MAX_INPUT_STR_LEN)"
    obtain m s2 where r1: "r = (m, s2)" by (cases r)
    have l2: "lexed hinv hmap rinv rlist S s S s2 []" using r r1 by simp
    show "tp (case r of (n, s) \<Rightarrow> case n of None \<Rightarrow> Ok s
        | Some i \<Rightarrow> bnd (add_new_token V (FromInput 0) 0 (i + 1) STRING_TOK 0 s) (\<lambda>s.
            case flush_up_to_char s of (found, s) \<Rightarrow> if \<not> found \<or> l \<noteq> line s then (if c_in s = EOF then Ok (s\<lparr>pstate := LAST_LINE\<rparr>) else Ok s)
            else print_args V (left s + 3) s)) ?H"
    proof (cases m)
      case None
      then show ?thesis using r r1 handled_finished [OF l2] by simp
    next
      case (Some k)
      have k: "k \<le> MAX_INPUT_STR_LEN" using r r1 Some by simp
      show ?thesis unfolding r1 prod.case Some option.case tp_bnd
      proof (rule string_tok [OF l2 k])
        fix S3 s3 u assume a: "lexed hinv hmap rinv rlist S s S3 s3 ([] @ [u])" "S \<subseteq>\<^sub>m S3" "S3 u = Some (TokS STRING_TOK)"
        obtain g s4 where g: "flush_up_to_char s3 = (g, s4)" by (cases "flush_up_to_char s3")
        note l4 = lexed_flush [OF a(1) g]
        have t: "toks S3 ([] @ [u]) [STRING_TOK]" using a(3) by (simp add: toks_def)
        have ok: "args_typed PRINT_SYM [STRING_TOK]" by simp
        have l5: "lexed hinv hmap rinv rlist S s S3 (s4\<lparr>pstate := LAST_LINE\<rparr>) ([] @ [u])" by (rule lexed_pstate [OF l4]) simp
        show "tp (case flush_up_to_char s3 of (found, s) \<Rightarrow> if \<not> found \<or> l \<noteq> line s then (if c_in s = EOF then Ok (s\<lparr>pstate := LAST_LINE\<rparr>) else Ok s)
            else print_args V (left s + 3) s) ?H"
          unfolding g prod.case using handled_ok [where P = "args_typed PRINT_SYM", OF l5 t ok] handled_ok [where P = "args_typed PRINT_SYM", OF l4 t ok] print_args_typed [OF l4 t ok] by (simp del: args_typed.simps)
      qed
    qed
  qed
  then show ?thesis unfolding scan_print_def f prod.case using handled_die [OF l1] by (simp add: Let_def)
qed

subsubsection \<open>A line\<close>

lemma scan_handler_typed:
  assumes c: "conf hinv hmap rinv rlist S s" "cursor_ok s" "reads s"
  shows "tp (scan_handler V i s) (handled hinv hmap rinv rlist S s (args_typed i))"
proof -
  have e: "args_typed i = list_all2 (\<lambda>P ty. P ty) (arg_types i)" if "i \<noteq> PRINT_SYM" using that by (cases i) (auto intro!: ext)
  have r: "tp (scan_return i s) (handled hinv hmap rinv rlist S s (list_all2 (\<lambda>P ty. P ty) []))"
    using handled_ok [OF lexed_refl [OF c] toks_Nil] by (simp add: scan_return_def)
  show ?thesis
    using scan_args_typed [OF c, of i] scan_branch_typed [OF c, of i] scan_print_typed [OF c, of i] r e by (cases i) (simp_all del: args_typed.simps)
qed

lemma lexed_trans:
  "lexed hinv hmap rinv rlist S s S1 s1 us \<Longrightarrow> lexed hinv hmap rinv rlist S1 s1 S2 s2 vs \<Longrightarrow> lexed hinv hmap rinv rlist S s S2 s2 (us @ vs)"
  unfolding lexed_def using map_le_trans by fastforce

text \<open>The instruction and its arguments.\<close>

definition ins_typed :: "sorts \<Rightarrow> addr list \<Rightarrow> bool" where
  "ins_typed S us \<longleftrightarrow> (\<exists>u i vs tys. us = u # vs \<and> S u = Some (InsS i) \<and> toks S vs tys \<and> args_typed i tys)"

lemma call_handler_typed:
  assumes c: "conf hinv hmap rinv rlist S s" "cursor_ok s" "reads s" and n: "n \<noteq> 0"
  shows "tp (call_instruction_handler V n s) (\<lambda>s'. \<exists>S' us. lexed hinv hmap rinv rlist S s S' s' us \<and> (pstate s' = FINISHED \<or> ins_typed S' us))"
proof -
  let ?k = "input_bytes 0 n s" and ?Q = "\<lambda>s'. \<exists>S' us. lexed hinv hmap rinv rlist S s S' s' us \<and> (pstate s' = FINISHED \<or> ins_typed S' us)"
  have it: "itab_ok hinv hmap (itable s)" using c(1) by (simp add: conf_def)
  show ?thesis
  proof (cases "hmap (itable s) ?k")
    case None
    have "?Q (die MUnknownInstruction s)" using lexed_die [OF lexed_refl [OF c]] by (intro exI conjI) auto
    then show ?thesis using find_None [of "itable s" ?k] it None n by (simp add: call_instruction_handler_def itab_ok_def)
  next
    case (Some kd)
    then obtain i where i: "kd = (ins_code i, ins_code i)" using it by (auto simp: itab_ok_def dest!: map_of_SomeD)
    obtain p where p: "qh_find V (itable s) ?k = (Some p, VDS_SUCCESS)" "qh_valid V (itable s) p" "qh_pair V (itable s) p = kd"
      using find_Some [of "itable s" ?k kd] it Some by (auto simp: itab_ok_def)
    obtain S1 s1 where s1: "add_new_token V NoPtr 0 0 INSTRUCTION_TOK (ins_code i) s = Ok s1" "adds hinv hmap rinv rlist None S s S1 s1 [fresh s]"
        "S1 (fresh s) = Some (InsS i)" "pstate s1 = pstate s" using instr_token [OF c(1)] by blast
    have "reads s1" using s1(4) c(3) by simp
    note l1 = lexed_adds [OF lexed_refl [OF c] s1(2) this]
    have "tp (scan_handler V i s1) ?Q"
    proof (rule tp_mono [OF scan_handler_typed [OF lexedD(2-4) [OF l1]]])
      fix s2 assume "handled hinv hmap rinv rlist S1 s1 (args_typed i) s2"
      then obtain S2 us where s2: "lexed hinv hmap rinv rlist S1 s1 S2 s2 us" "pstate s2 = FINISHED \<or> (\<exists>tys. toks S2 us tys \<and> args_typed i tys)"
        unfolding handled_def by blast
      have "S2 (fresh s) = Some (InsS i)" using s1(3) sort_mono [OF lexedD(1) [OF s2(1)]] by blast
      then have "pstate s2 = FINISHED \<or> ins_typed S2 (([] @ [fresh s]) @ us)" using s2(2) unfolding ins_typed_def by auto
      then show "?Q s2" using lexed_trans [OF l1 s2(1)] by blast
    qed
    then show ?thesis using p i n ins_code_lt [of i] s1(1) by (simp add: call_instruction_handler_def)
  qed
qed

lemma tokenize_typed:
  assumes c: "conf hinv hmap rinv rlist S s" "cursor_ok s" "reads s"
  shows "tp (tokenize_next_line V s) (\<lambda>s'. \<exists>S' us. lexed hinv hmap rinv rlist S s S' s' us \<and> (pstate s' = FINISHED \<or> line_typed S' us))"
    (is "tp _ ?Q")
proof -
  have none: "?Q s'" if "lexed hinv hmap rinv rlist S s S1 s' []" for S1 s' using that by (intro exI conjI) (auto simp: line_typed_def)
  have dead: "?Q s'" if "lexed hinv hmap rinv rlist S s S1 s' us" "pstate s' = FINISHED" for S1 s' us using that by blast
  have call: "tp (call_instruction_handler V n s1) ?Q" if l: "lexed hinv hmap rinv rlist S s S1 s1 ls" and ls: "ls = [] \<or> (\<exists>l. ls = [l] \<and> S1 l = Some (TokS LABEL_TOK))" and n: "n \<noteq> 0"
    for n S1 s1 ls
  proof (rule tp_mono [OF call_handler_typed [OF lexedD(2-4) [OF l] n]])
    fix s2 assume "\<exists>S' us. lexed hinv hmap rinv rlist S1 s1 S' s2 us \<and> (pstate s2 = FINISHED \<or> ins_typed S' us)"
    then obtain S2 us where s2: "lexed hinv hmap rinv rlist S1 s1 S2 s2 us" "pstate s2 = FINISHED \<or> ins_typed S2 us" by blast
    have "ls = [] \<or> (\<exists>l. ls = [l] \<and> S2 l = Some (TokS LABEL_TOK))" using ls sort_mono [OF lexedD(1) [OF s2(1)]] by blast
    then have "pstate s2 = FINISHED \<or> line_typed S2 (ls @ us)" using s2(2) unfolding ins_typed_def line_typed_def by blast
    then show "?Q s2" using lexed_trans [OF l s2(1)] by blast
  qed
  show ?thesis unfolding tokenize_next_line_def tp_bnd
  proof (rule tp_word [OF lexed_refl [OF c]], unfold prod.case, goal_cases)
    case (1 n s1)
    obtain v s2 where v: "is_valid_label n s1 = (v, s2)" by (cases "is_valid_label n s1")
    note v2 = valid_label [OF v 1(1)]
    have n: "n \<le> MAX_INPUT_STR_LEN" using 1(2) by (simp add: word_at_def limit_defs)
    show ?case
    proof (cases v)
      case False
      have "tp (call_instruction_handler V n s2) ?Q"
      proof (cases "n = 0")
        case True
        then show ?thesis using none [OF conjunct1 [OF v2]] by (simp add: call_instruction_handler_def)
      next
        case False
        show ?thesis by (rule call [OF conjunct1 [OF v2] _ False]) simp
      qed
      then show ?thesis using v False dead [OF conjunct1 [OF v2]] by simp
    next
      case True
      have x: "input s2 0 = CHR ''L''" using v2 True by simp
      have "tp (add_new_token V (FromInput 0) 0 (n + 1) LABEL_TOK 0 s2) (\<lambda>s. tp (get_next_word MAX_ALLOWED_SYMBOL_LEN True s) (\<lambda>x. tp (case x of (i, s) \<Rightarrow>
          Ok (i, if i = 0 then die MLabelNeedsInstruction s else s)) (\<lambda>x. tp (case x of (i, s) \<Rightarrow> if pstate s \<noteq> FINISHED then call_instruction_handler V i s else Ok s) ?Q)))"
      proof (rule label_tok [OF conjunct1 [OF v2] n x])
        fix S3 s3 u assume a: "lexed hinv hmap rinv rlist S s S3 s3 ([] @ [u])" "S \<subseteq>\<^sub>m S3" "S3 u = Some (TokS LABEL_TOK)"
        show "tp (get_next_word MAX_ALLOWED_SYMBOL_LEN True s3) (\<lambda>x. tp (case x of (i, s) \<Rightarrow>
          Ok (i, if i = 0 then die MLabelNeedsInstruction s else s)) (\<lambda>x. tp (case x of (i, s) \<Rightarrow> if pstate s \<noteq> FINISHED then call_instruction_handler V i s else Ok s) ?Q))"
        proof (rule tp_word [OF a(1)], unfold prod.case tp.simps, goal_cases)
          case (1 m s4)
          have "tp (call_instruction_handler V m s4) ?Q" if "m \<noteq> 0" by (rule call [OF 1(1) _ that]) (use a(3) in simp)
          then show ?case using dead [OF 1(1)] dead [OF lexed_die [OF 1(1)]] by simp
        qed
      qed
      then show ?thesis using v True by simp
    qed
  qed
qed

end

end
