(* ===== verification/ExecTyping.thy ===== *)
theory ExecTyping imports Typing begin

section \<open>Types: the execution of lines\<close>

text \<open>
  Every operation of \<open>Variables\<close> and \<open>Exec\<close>, from typed states to typed states and without a confusion of types.
\<close>

context voids_handles
begin

lemma tp_new_scalar:
  assumes p: "past hinv hmap rinv rlist S0 s0 S s" and q: "\<And>S' s' a. past hinv hmap rinv rlist S0 s0 S' s' \<Longrightarrow> S \<subseteq>\<^sub>m S' \<Longrightarrow> S' a = Some IntsS \<Longrightarrow> Q (a, s')"
  shows "tp (new_scalar v s) Q"
  unfolding new_scalar_def tp_bnd
  by (rule tp_malloc [OF p], unfold prod.case tp_bnd, rule tp_store, assumption, assumption, simp, simp, rule q)

lemma tp_new_array:
  assumes p: "past hinv hmap rinv rlist S0 s0 S s" and q: "\<And>S' s' a. past hinv hmap rinv rlist S0 s0 S' s' \<Longrightarrow> S \<subseteq>\<^sub>m S' \<Longrightarrow> S' a = Some IntsS \<Longrightarrow> Q (a, s')"
  shows "tp (new_array n s) Q"
  unfolding new_array_def tp_bnd
  by (rule tp_arith, rule tp_malloc [OF p], unfold prod.case tp_bnd, rule tp_read_ints, erule past_mem, simp add: ptr_def,
    rule tp_set_cell, rule tp_fill, rule tp_store, assumption, assumption, simp, simp, rule q)

lemma tp_grow_array:
  assumes p: "past hinv hmap rinv rlist S0 s0 S s" and a: "ptr S IntsS arr"
    and f: "hinv h" "qh_find V h k = (Some r, VDS_SUCCESS)" "\<not> lname k"
    and q: "\<And>S' s' a. past hinv hmap rinv rlist S0 s0 S' s' \<Longrightarrow> S \<subseteq>\<^sub>m S' \<Longrightarrow> S' a = Some IntsS \<Longrightarrow> Q (a, s')"
  shows "tp (grow_array V r arr n s) Q"
  unfolding grow_array_def tp_bnd
  by (rule tp_arith, rule tp_realloc [OF p a], unfold prod.case tp_bnd, rule tp_read_ints, erule past_mem, simp add: ptr_def,
    rule tp_cell, rule tp_fill, rule tp_set_cell, rule tp_store, assumption, assumption, simp,
    rule tp_set_pair_data [OF _ f], assumption, simp add: ptr_def, unfold tp.simps, rule q)

text \<open>The value of a token; if there is noval, the program has been stopped.\<close>

lemma tp_varval_get:
  assumes "past hinv hmap rinv rlist S0 s0 S s" and "data_ok S ty d" and "ty \<in> {INT_VAL_TOK, INT_VAR_TOK, INT_ARR_TOK}"
  shows "tp (varval_get n V ty d s) (\<lambda>(r, s'). \<exists>S'. past hinv hmap rinv rlist S0 s0 S' s' \<and> S \<subseteq>\<^sub>m S' \<and> (r = None \<longrightarrow> pstate s' = FINISHED))"
  using assms
proof (induction n arbitrary: S s ty d)
  case (Suc n)
  let ?Q = "\<lambda>(r :: c_int option, s'). \<exists>S'. past hinv hmap rinv rlist S0 s0 S' s' \<and> S \<subseteq>\<^sub>m S' \<and> (r = None \<longrightarrow> pstate s' = FINISHED)"
  note p = Suc.prems(1)
  have gotv: "?Q (Some v, s')" if "past hinv hmap rinv rlist S0 s0 S' s'" "S \<subseteq>\<^sub>m S'" for v S' s' using that by auto
  have noval: "?Q (None, die m s')" if "past hinv hmap rinv rlist S0 s0 S' s'" "S \<subseteq>\<^sub>m S'" for m S' s' using past_die [OF that(1)] that(2) by auto
  show ?case
  proof (cases ty)
    case INT_VAL_TOK
    show ?thesis
      unfolding varval_get.simps INT_VAL_TOK token_type_e.case tp_bnd
      by (rule tp_as_value [OF Suc.prems(2)], simp add: INT_VAL_TOK, unfold tp.simps, rule gotv [OF p map_le_refl])
  next
    case INT_VAR_TOK
    show ?thesis
      unfolding varval_get.simps INT_VAR_TOK token_type_e.case tp_bnd
    proof (rule tp_as_ptr [OF Suc.prems(2)], simp_all only: INT_VAR_TOK data_ok.simps token_type_e.case token_type_e.distinct simp_thms)
      fix a assume a: "ptr S NameS a"
      show "tp (read_str a s) (\<lambda>k. tp (if k = ''argc'' then bnd (dealloc a s) (\<lambda>s. bnd (argv_at 1 s) (\<lambda>v. Ok (Some v, s)))
         else bnd (find_var V k s) (\<lambda>table_data. case table_data of
           Some p \<Rightarrow> bnd (pair_data V p s) (\<lambda>arr. bnd (read_head arr s) (\<lambda>h.
             if h = -1 then Ok (None, die MLabelExists s)
             else bnd (read_ints arr s) (\<lambda>xs. if 1 < sint h then Ok (None, die MArrayByName s)
               else bnd (cell 1 xs) (\<lambda>v. bnd (dealloc a s) (\<lambda>s. Ok (Some v, s))))))
         | None \<Rightarrow> bnd (new_scalar 0 s) (\<lambda>(arr, s). bnd (insert_var V a arr s) (\<lambda>s. Ok (Some 0, s))))) ?Q)"
      proof (rule tp_read_str [OF past_mem [OF p] a], simp, rule tp_ifI, goal_cases)
        case (1 k)
        show ?case unfolding tp_bnd by (rule tp_dealloc [OF p], rule tp_argv, unfold tp.simps, erule gotv [OF _ map_le_refl])
      next
        case (2 k)
        then have k: "\<not> lname k" by simp
        show ?case
          unfolding tp_bnd
        proof (rule tp_find_var [OF p], goal_cases)
          case 1
          show ?case
            unfolding option.case tp_bnd
            by (rule tp_new_scalar [OF p], unfold prod.case tp_bnd, rule tp_insert_var, assumption, erule ptr_mono [OF _ a], simp add: ptr_def,
              unfold tp.simps, rule gotv)
        next
          case (2 r)
          show ?case
            unfolding option.case tp_bnd
          proof (rule tp_pair_data [OF p 2], unfold if_not_P [OF k], rule tp_read_head [OF past_mem [OF p]], assumption, simp, rule tp_ifI, goal_cases)
            case (1 d h)
            show ?case unfolding tp.simps by (rule noval [OF p map_le_refl])
          next
            case (2 d h)
            show ?case
              unfolding tp_bnd
              by (rule tp_read_ints [OF past_mem [OF p] 2(1)], rule tp_ifI, unfold tp.simps tp_bnd, rule noval [OF p map_le_refl], rule tp_cell,
                rule tp_dealloc [OF p], erule gotv [OF _ map_le_refl])
          qed
        qed
      qed
    qed
  next
    case INT_ARR_TOK
    show ?thesis
    proof (cases d)
      case (Ptr a)
      then have a: "ptr S ArrS a" using Suc.prems(2) INT_ARR_TOK by simp
      define index where "index s = bnd (read_arrtok a s) (\<lambda>at. case at_idx_type at of None \<Rightarrow> Undef UninitRead | Some ity \<Rightarrow> varval_get n V ity (at_idx at) s)" for s
      have idx: "tp (index s) R" if s: "past hinv hmap rinv rlist S0 s0 S s" and R: "\<And>S' s' v. past hinv hmap rinv rlist S0 s0 S' s' \<Longrightarrow> S \<subseteq>\<^sub>m S' \<Longrightarrow> R (Some v, s')"
          "\<And>S' s'. past hinv hmap rinv rlist S0 s0 S' s' \<Longrightarrow> S \<subseteq>\<^sub>m S' \<Longrightarrow> pstate s' = FINISHED \<Longrightarrow> R (None, s')" for s R
        unfolding index_def tp_bnd
      proof (rule tp_read_arrtok [OF past_mem [OF s] a])
        fix t assume "block_ok S ArrS (ArrTokB t)"
        then have t: "idx_ok S (at_idx_type t) (at_idx t)" by simp
        show "tp (case at_idx_type t of None \<Rightarrow> Undef UninitRead | Some ity \<Rightarrow> varval_get n V ity (at_idx t) s) R"
        proof (cases "at_idx_type t")
          case (Some ity)
          have "tp (varval_get n V ity (at_idx t) s) (\<lambda>(r, s'). \<exists>S'. past hinv hmap rinv rlist S0 s0 S' s' \<and> S \<subseteq>\<^sub>m S' \<and> (r = None \<longrightarrow> pstate s' = FINISHED))"
            by (rule Suc.IH [OF s]) (use t Some in simp_all)
          then show ?thesis unfolding Some option.case by (rule tp_mono) (auto intro: R, metis R not_None_eq)
        qed simp
      qed
      have idxQ: "tp (index s) (\<lambda>x. tp (case x of (r, s) \<Rightarrow> case r of None \<Rightarrow> Ok (None, s) | Some v \<Rightarrow> f v s) ?Q)"
        if "\<And>S' s' v. past hinv hmap rinv rlist S0 s0 S' s' \<Longrightarrow> S \<subseteq>\<^sub>m S' \<Longrightarrow> tp (f v s') ?Q" for f
        by (rule idx [OF p]) (auto intro: that)
      show ?thesis
        unfolding varval_get.simps INT_ARR_TOK token_type_e.case Ptr as_ptr.simps bnd.simps Let_def index_def [symmetric] tp_bnd
      proof (rule tp_read_arrtok [OF past_mem [OF p] a], goal_cases)
        case (1 t)
        then have nm: "ptr S NameS (at_name t)" by simp
        show ?case
        proof (rule tp_read_str [OF past_mem [OF p] nm], simp, rule tp_ifI, goal_cases)
          case (1 k)
          show ?case
            unfolding tp_bnd
            by (rule idxQ, unfold tp_bnd, rule tp_argv, rule tp_ifI, unfold tp.simps tp_bnd, rule noval, assumption, assumption,
              rule tp_dealloc, assumption, rule tp_dealloc, assumption, rule tp_argv, rule gotv)
        next
          case (2 k)
          then have k: "\<not> lname k" by simp
          show ?case
            unfolding tp_bnd
          proof (rule tp_find_var [OF p], goal_cases)
            case 1
            show ?case
              unfolding option.case tp_bnd
              by (rule idxQ, rule tp_ifI, unfold tp.simps tp_bnd, rule noval, assumption, assumption, rule tp_arith, rule tp_new_array, assumption,
                unfold prod.case tp_bnd, rule tp_dealloc, assumption, rule tp_insert_var, assumption, rule ptr_mono [OF _ nm], erule (1) map_le_trans, simp add: ptr_def,
                unfold tp.simps, rule gotv, assumption, erule (1) map_le_trans)
          next
            case (2 r)
            have hv: "hinv (vartable s)" using past_vars [OF p] by (simp add: vars_conf_def)
            show ?case
              unfolding option.case tp_bnd
            proof (rule tp_pair_data [OF p 2], unfold if_not_P [OF k], rule tp_read_head [OF past_mem [OF p]], assumption, simp, rule tp_ifI, goal_cases)
              case (1 d h)
              show ?case unfolding tp.simps by (rule noval [OF p map_le_refl])
            next
              case arr: (2 d h)
              show ?case
                unfolding tp_bnd
              proof (rule idxQ, rule tp_ifI, goal_cases)
                case (1 S' s' v)
                show ?case unfolding tp.simps by (rule noval [OF 1(1,2)])
              next
                case i: (2 S' s' v)
                have d: "ptr S' IntsS d" by (rule ptr_mono [OF i(2) arr(1)])
                show ?case
                  unfolding tp_bnd
                proof (rule tp_arith, rule tp_read_ints [OF past_mem [OF i(1)] d], rule tp_cell, rule tp_arith, rule tp_ifI, goal_cases)
                  case (1 tmp xs size size1)
                  show ?case unfolding tp_bnd
                    by (rule tp_grow_array [OF i(1) d hv 2 k], unfold prod.case tp.simps tp_bnd, rule tp_dealloc, assumption, rule tp_dealloc, assumption, rule gotv [unfolded prod.case], assumption, rule map_le_trans [OF i(2)])
                next
                  case (2 tmp xs size size1)
                  show ?case unfolding tp_bnd
                    by (rule tp_cell, unfold prod.case tp.simps tp_bnd, rule tp_dealloc [OF i(1)], rule tp_dealloc, assumption, rule gotv [unfolded prod.case], assumption, rule i(2))
                qed
              qed
            qed
          qed
        qed
      qed
    qed (use INT_ARR_TOK Suc.prems(2) in \<open>simp_all add: varval_get.simps\<close>)
  qed (use Suc.prems(3) in simp_all)
qed (simp add: varval_get.simps)

lemma tp_varval_getI:
  assumes p: "past hinv hmap rinv rlist S0 s0 S s" and d: "data_ok S ty d" and ty: "ty \<in> {INT_VAL_TOK, INT_VAR_TOK, INT_ARR_TOK}"
    and q: "\<And>S' s' v. past hinv hmap rinv rlist S0 s0 S' s' \<Longrightarrow> S \<subseteq>\<^sub>m S' \<Longrightarrow> Q (Some v, s')"
      "\<And>S' s'. past hinv hmap rinv rlist S0 s0 S' s' \<Longrightarrow> S \<subseteq>\<^sub>m S' \<Longrightarrow> pstate s' = FINISHED \<Longrightarrow> Q (None, s')"
  shows "tp (varval_get n V ty d s) Q"
proof (rule tp_mono [OF tp_varval_get [OF p d ty, of n]])
  fix x :: "c_int option \<times> ('a, 'c) st" assume "case x of (r, s') \<Rightarrow> \<exists>S'. past hinv hmap rinv rlist S0 s0 S' s' \<and> S \<subseteq>\<^sub>m S' \<and> (r = None \<longrightarrow> pstate s' = FINISHED)"
  then show "Q x" using q by (cases x; cases "fst x") auto
qed

lemma tp_index_value:
  assumes p: "past hinv hmap rinv rlist S0 s0 S s" and a: "ptr S ArrS a"
    and q: "\<And>S' s' v. past hinv hmap rinv rlist S0 s0 S' s' \<Longrightarrow> S \<subseteq>\<^sub>m S' \<Longrightarrow> Q (Some v, s')"
      "\<And>S' s'. past hinv hmap rinv rlist S0 s0 S' s' \<Longrightarrow> S \<subseteq>\<^sub>m S' \<Longrightarrow> pstate s' = FINISHED \<Longrightarrow> Q (None, s')"
  shows "tp (index_value V a s) Q"
  unfolding index_value_def tp_bnd
proof (rule tp_read_arrtok [OF past_mem [OF p] a])
  fix t assume "block_ok S ArrS (ArrTokB t)"
  then have t: "idx_ok S (at_idx_type t) (at_idx t)" by simp
  show "tp (case at_idx_type t of None \<Rightarrow> Undef UninitRead | Some ity \<Rightarrow> varval_get (Suc (fresh s)) V ity (at_idx t) s) Q"
    using t by (cases "at_idx_type t") (auto intro!: tp_varval_getI [OF p] q)
qed

lemma tp_varval_set:
  assumes p: "past hinv hmap rinv rlist S0 s0 S s" and d: "data_ok S ty d" and ty: "ty \<in> {INT_VAR_TOK, INT_ARR_TOK}"
    and q: "\<And>S' s'. past hinv hmap rinv rlist S0 s0 S' s' \<Longrightarrow> S \<subseteq>\<^sub>m S' \<Longrightarrow> Q (True, s')"
      "\<And>S' s'. past hinv hmap rinv rlist S0 s0 S' s' \<Longrightarrow> S \<subseteq>\<^sub>m S' \<Longrightarrow> pstate s' = FINISHED \<Longrightarrow> Q (False, s')"
  shows "tp (varval_set V ty d x s) Q"
proof -
  have dead: "Q (False, die m s')" if "past hinv hmap rinv rlist S0 s0 S' s'" "S \<subseteq>\<^sub>m S'" for m S' s' using q(2) [OF past_die [OF that(1)] that(2)] by simp
  show ?thesis
  proof (cases ty)
    case INT_VAR_TOK
    show ?thesis
      unfolding varval_set_def INT_VAR_TOK token_type_e.case tp_bnd
    proof (rule tp_as_ptr [OF d], simp_all only: INT_VAR_TOK data_ok.simps token_type_e.case token_type_e.distinct simp_thms, goal_cases)
      case (1 a)
      then have a: "ptr S NameS a" by simp
      show ?case
      proof (rule tp_read_str [OF past_mem [OF p] a], simp, rule tp_ifI, goal_cases)
        case (1 k)
        show ?case unfolding tp.simps by (rule dead [OF p map_le_refl])
      next
        case (2 k)
        then have k: "\<not> lname k" by simp
        show ?case
          unfolding tp_bnd
        proof (rule tp_find_var [OF p], goal_cases)
          case 1
          show ?case
            unfolding option.case tp_bnd
            by (rule tp_new_scalar [OF p], unfold prod.case tp_bnd, rule tp_insert_var, assumption, erule ptr_mono [OF _ a], simp add: ptr_def,
              unfold tp.simps, rule q(1))
        next
          case (2 r)
          show ?case
            unfolding option.case tp_bnd
          proof (rule tp_pair_data [OF p 2], unfold if_not_P [OF k], rule tp_read_head [OF past_mem [OF p]], assumption, simp, rule tp_ifI, goal_cases)
            case (1 d h)
            show ?case unfolding tp.simps by (rule dead [OF p map_le_refl])
          next
            case (2 d h)
            show ?case
              unfolding tp_bnd
              by (rule tp_read_ints [OF past_mem [OF p] 2(1)], rule tp_ifI, unfold tp.simps tp_bnd, rule dead [OF p map_le_refl], rule tp_set_cell,
                rule tp_store [OF p], assumption, simp, rule tp_dealloc, assumption, erule q(1) [OF _ map_le_refl])
          qed
        qed
      qed
    qed
  next
    case INT_ARR_TOK
    show ?thesis
      unfolding varval_set_def INT_ARR_TOK token_type_e.case tp_bnd
    proof (rule tp_as_ptr [OF d], simp_all only: INT_ARR_TOK data_ok.simps token_type_e.case token_type_e.distinct simp_thms, goal_cases)
      case (1 a)
      then have a: "ptr S ArrS a" by simp
      have idxQ: "tp (index_value V a s) (\<lambda>x. tp (case x of (r, s) \<Rightarrow> case r of None \<Rightarrow> Ok (False, s) | Some v \<Rightarrow> f v s) Q)"
        if "\<And>S' s' v. past hinv hmap rinv rlist S0 s0 S' s' \<Longrightarrow> S \<subseteq>\<^sub>m S' \<Longrightarrow> tp (f v s') Q" for f
        by (rule tp_index_value [OF p a]) (auto intro: that q)
      show ?case
      proof (rule tp_read_arrtok [OF past_mem [OF p] a], goal_cases)
        case (1 t)
        then have nm: "ptr S NameS (at_name t)" by simp
        show ?case
        proof (rule tp_read_str [OF past_mem [OF p] nm], simp, rule tp_ifI, goal_cases)
          case (1 k)
          show ?case unfolding tp.simps by (rule dead [OF p map_le_refl])
        next
          case (2 k)
          then have k: "\<not> lname k" by simp
          show ?case
            unfolding tp_bnd
          proof (rule tp_find_var [OF p], goal_cases)
            case 1
            show ?case
              unfolding option.case tp_bnd
              by (rule idxQ, rule tp_ifI, unfold tp.simps tp_bnd, rule dead, assumption, assumption, rule tp_arith, rule tp_new_array, assumption,
                unfold prod.case tp_bnd, rule tp_read_ints, erule past_mem, simp add: ptr_def, rule tp_set_cell, rule tp_store, assumption, assumption, simp,
                rule tp_dealloc, assumption, rule tp_insert_var, assumption, rule ptr_mono [OF _ nm], erule (1) map_le_trans, simp add: ptr_def,
                unfold tp.simps, rule q(1), assumption, erule (1) map_le_trans)
          next
            case (2 r)
            have hv: "hinv (vartable s)" using past_vars [OF p] by (simp add: vars_conf_def)
            show ?case
              unfolding option.case tp_bnd
            proof (rule tp_pair_data [OF p 2], unfold if_not_P [OF k], rule tp_read_head [OF past_mem [OF p]], assumption, simp, rule tp_ifI, goal_cases)
              case (1 d h)
              show ?case unfolding tp.simps by (rule dead [OF p map_le_refl])
            next
              case arr: (2 d h)
              show ?case
                unfolding tp_bnd
              proof (rule idxQ, rule tp_ifI, goal_cases)
                case (1 S' s' v)
                show ?case unfolding tp.simps by (rule dead [OF 1(1,2)])
              next
                case i: (2 S' s' v)
                have d: "ptr S' IntsS d" by (rule ptr_mono [OF i(2) arr(1)])
                have fin: "tp (read_ints b s1) (\<lambda>xs. tp (set_cell n x xs) (\<lambda>xs. tp (store b (IntsB xs) s1) (\<lambda>s.
                    tp (dealloc (at_name t) s) (\<lambda>s. tp (dealloc a s) (\<lambda>s. Q (True, s))))))"
                  if s1: "past hinv hmap rinv rlist S0 s0 S1 s1" "S' \<subseteq>\<^sub>m S1" "ptr S1 IntsS b" for S1 s1 b n
                  by (rule tp_read_ints [OF past_mem [OF s1(1)] s1(3)], rule tp_set_cell, rule tp_store [OF s1(1)], assumption, simp,
                    rule tp_dealloc, assumption, rule tp_dealloc, assumption, rule q(1), assumption, rule map_le_trans [OF i(2) s1(2)])
                show ?case
                  unfolding tp_bnd
                proof (rule tp_arith, rule tp_read_ints [OF past_mem [OF i(1)] d], rule tp_cell, rule tp_arith, rule tp_ifI, goal_cases)
                  case (1 tmp xs size size1)
                  show ?case
                    by (rule tp_grow_array [OF i(1) d hv 2 k], unfold prod.case tp.simps tp_bnd, rule fin, assumption, assumption, simp add: ptr_def)
                next
                  case (2 tmp xs size size1)
                  show ?case unfolding prod.case tp.simps tp_bnd by (rule fin [OF i(1) map_le_refl d])
                qed
              qed
            qed
          qed
        qed
      qed
    qed
  qed (use ty in simp_all)
qed

end

end
