(* ===== verification/RunTyping.thy ===== *)
theory RunTyping imports ExecTyping LineTyping begin

section \<open>Types: the handlers\<close>

text \<open>
  The tokens of a line, read back by the handler of its instruction, and the look-ahead for labels.
\<close>

subsection \<open>Freeing and reading tokens\<close>

lemma tp_free_chain:
  assumes "past hinv hmap rinv rlist S0 s0 S s" and "ptr S ArrS a" and "\<And>s'. past hinv hmap rinv rlist S0 s0 S s' \<Longrightarrow> Q s'"
  shows "tp (free_chain n a s) Q"
  using assms(1,2)
proof (induction n arbitrary: a s)
  case (Suc n)
  show ?case unfolding free_chain.simps tp_bnd
  proof (rule tp_read_arrtok [OF past_mem [OF Suc.prems(1)] Suc.prems(2)])
    fix t assume "block_ok S ArrS (ArrTokB t)"
    then have t: "idx_ok S (at_idx_type t) (at_idx t)" by simp
    show "tp (case at_idx_type t of None \<Rightarrow> Undef UninitRead | Some ty \<Rightarrow>
         if ty = INT_ARR_TOK then bnd (as_ptr (at_idx t)) (\<lambda>nxt. bnd (dealloc (at_name t) s) (\<lambda>s. bnd (dealloc a s) (free_chain n nxt)))
         else bnd (if ty \<noteq> INT_VAL_TOK then bnd (as_ptr (at_idx t)) (\<lambda>p. dealloc p s) else Ok s) (\<lambda>s. bnd (dealloc (at_name t) s) (dealloc a))) Q"
    proof (cases "at_idx_type t")
      case (Some ty)
      have d: "data_ok S ty (at_idx t)" using t Some by simp
      have fin: "tp (dealloc (at_name t) s1) (\<lambda>s. tp (dealloc a s) Q)" if "past hinv hmap rinv rlist S0 s0 S s1" for s1
        by (rule tp_dealloc [OF that], rule tp_dealloc, assumption, rule assms(3))
      show ?thesis unfolding Some option.case
      proof (rule tp_ifI, goal_cases)
        case 1
        show ?case unfolding tp_bnd
          by (rule tp_as_ptr [OF d], simp add: 1, rule tp_dealloc [OF Suc.prems(1)], rule tp_dealloc, assumption, rule Suc.IH, assumption, simp add: 1)
      next
        case 2
        show ?case unfolding tp_bnd
          by (rule tp_ifI, unfold tp_bnd, rule tp_as_ptr [OF d], assumption, rule tp_dealloc [OF Suc.prems(1)], erule fin, simp add: fin [OF Suc.prems(1)])
      qed
    qed simp
  qed
qed simp

lemma tp_free_token:
  assumes p: "past hinv hmap rinv rlist S0 s0 S s" and k: "ptr S k a" "is_tok k" and q: "\<And>s'. past hinv hmap rinv rlist S0 s0 S s' \<Longrightarrow> Q s'"
  shows "tp (free_token a s) Q"
proof (cases "a = NULL")
  case True
  then show ?thesis using q [OF p] by (simp add: free_token_def)
next
  case False
  have main: "tp (if tok_type t = LABEL_TOK \<or> tok_type t = INT_VAR_TOK \<or> tok_type t = STRING_TOK then bnd (as_ptr (tok_data t)) (\<lambda>d. dealloc d s)
      else if tok_type t = INT_ARR_TOK then bnd (as_ptr (tok_data t)) (\<lambda>d. free_int_arr_tok d s) else Ok s) (\<lambda>s. tp (dealloc a s) Q)" if t: "tok_ok S k t" for t
  proof -
    have d: "tok_type t \<noteq> INSTRUCTION_TOK \<Longrightarrow> data_ok S (tok_type t) (tok_data t)" using t by (cases k) auto
    have fin: "tp (dealloc a s1) Q" if "past hinv hmap rinv rlist S0 s0 S s1" for s1 by (rule tp_dealloc [OF that q])
    show ?thesis
    proof (rule tp_ifI, goal_cases)
      case 1
      then show ?case unfolding tp_bnd by (intro tp_as_ptr [OF d]) (auto intro: tp_dealloc [OF p] fin)
    next
      case 2
      show ?case
      proof (rule tp_ifI, goal_cases)
        case 1
        have arr: "tp (free_int_arr_tok b s) (\<lambda>s. tp (dealloc a s) Q)" if "ptr S ArrS b" for b
          unfolding free_int_arr_tok_def by (rule tp_ifI, simp add: fin [OF p], rule tp_free_chain [OF p that fin])
        show ?case unfolding tp_bnd by (rule tp_as_ptr [OF d]) (use 1 arr in auto)
      qed (simp add: fin [OF p])
    qed
  qed
  show ?thesis unfolding free_token_def if_not_P [OF False] tp_bnd by (rule tp_read_tok [OF past_mem [OF p] k], erule main)
qed

lemma past_fields:
  assumes "past hinv hmap rinv rlist S0 s0 S s" and "heap s' = heap s" "fresh s' = fresh s" "gtab s' = gtab s" "itable s' = itable s"
    "vartable s' = vartable s" "translated_line s' = translated_line s" "fbuf s' = fbuf s" "fpos s' = fpos s" "c_in s' = c_in s" "pstate s' = pstate s \<or> pstate s' = FINISHED"
  shows "past hinv hmap rinv rlist S0 s0 S s'"
  using assms conf_cong [of hinv hmap rinv rlist S s s'] by (auto simp: past_def keeps_def)

lemma past_idx: "past hinv hmap rinv rlist S0 s0 S s \<Longrightarrow> past hinv hmap rinv rlist S0 s0 S (set_parser_idx t s)"
  "past hinv hmap rinv rlist S0 s0 S s \<Longrightarrow> past hinv hmap rinv rlist S0 s0 S (reset_parser_idx s1 s)"
  by (erule past_fields; simp add: set_parser_idx_def reset_parser_idx_def)+

lemma past_conf: "past hinv hmap rinv rlist S0 s0 S s \<Longrightarrow> conf hinv hmap rinv rlist S s"
  by (simp add: past_def)

lemma past_trans: "past hinv hmap rinv rlist S0 s0 S1 s1 \<Longrightarrow> past hinv hmap rinv rlist S1 s1 S2 s2 \<Longrightarrow> past hinv hmap rinv rlist S0 s0 S2 s2"
  unfolding past_def using map_le_trans keeps_trans by blast

lemma past_stopped: "past hinv hmap rinv rlist S0 s0 S s \<Longrightarrow> pstate s0 = FINISHED \<Longrightarrow> pstate s = FINISHED"
  by (auto simp: past_def keeps_def)

lemma past_report: "past hinv hmap rinv rlist S0 s0 S s \<Longrightarrow> past hinv hmap rinv rlist S0 s0 S (reset_parser_idx (program_stop True s) (err_msg m (set_parser_idx t (program_stop True s))))"
  by (erule past_fields; simp add: set_parser_idx_def reset_parser_idx_def err_msg_def program_stop_def split: prod.splits)

lemma report_fields: "pstate (reset_parser_idx (program_stop True s) (err_msg m (set_parser_idx t (program_stop True s)))) = FINISHED"
  by (simp add: set_parser_idx_def reset_parser_idx_def err_msg_def program_stop_def split: prod.splits)

context voids_handles
begin

lemma tp_get_value:
  assumes p: "past hinv hmap rinv rlist S0 s0 S s" and t: "S u = Some (TokS ty)" "val_ty ty"
    and q: "\<And>S' s' v. past hinv hmap rinv rlist S0 s0 S' s' \<Longrightarrow> S \<subseteq>\<^sub>m S' \<Longrightarrow> Q (Some v, s')"
      "\<And>S' s'. past hinv hmap rinv rlist S0 s0 S' s' \<Longrightarrow> S \<subseteq>\<^sub>m S' \<Longrightarrow> pstate s' = FINISHED \<Longrightarrow> Q (None, s')"
  shows "tp (varval_get_value V u s) Q"
proof -
  have it: "is_tok (TokS ty)" and ty: "ty \<in> {INT_VAL_TOK, INT_VAR_TOK, INT_ARR_TOK}" using t(2) by (auto simp: val_ty_def)
  show ?thesis unfolding varval_get_value_def tp_bnd
  proof (rule tp_read_tok [OF past_mem [OF p] _ it], goal_cases)
    case 1
    show ?case using t(1) by (simp add: ptr_def)
  next
    case (2 t')
    then have d: "data_ok S (tok_type t') (tok_data t')" and ty': "tok_type t' \<in> {INT_VAL_TOK, INT_VAR_TOK, INT_ARR_TOK}" using ty by auto
    show ?case
    proof (rule tp_varval_getI [OF past_idx(1) [OF p] d ty'], goal_cases)
      case (1 S' s' v)
      show ?case unfolding prod.case Let_def tp_bnd
        by (simp, rule tp_dealloc [OF past_idx(2) [OF 1(1)]], erule q(1) [OF _ 1(2)])
    next
      case (2 S' s')
      have u: "ptr S' (TokS ty) u" using sort_mono [OF 2(2) t(1)] by (simp add: ptr_def)
      note p2 = past_idx(2) [OF 2(1)]
      show ?case unfolding prod.case Let_def tp_bnd
      proof (simp, rule tp_free_token [OF past_refl [OF past_conf [OF p2]] u it])
        fix s2 assume s2: "past hinv hmap rinv rlist S' (reset_parser_idx s s') S' s2"
        show "Q (None, s2)" by (rule q(2) [OF past_trans [OF p2 s2] 2(2)]) (use past_stopped [OF s2] 2(3) in \<open>simp add: reset_parser_idx_def\<close>)
      qed
    qed
  qed
qed

lemma tp_set_value:
  assumes p: "past hinv hmap rinv rlist S0 s0 S s" and t: "S u = Some (TokS ty)" "var_ty ty"
    and q: "\<And>S' s' ok. past hinv hmap rinv rlist S0 s0 S' s' \<Longrightarrow> S \<subseteq>\<^sub>m S' \<Longrightarrow> Q (ok, s')"
  shows "tp (varval_set_value V u v s) Q"
proof -
  have it: "is_tok (TokS ty)" and ty: "ty \<in> {INT_VAR_TOK, INT_ARR_TOK}" using t(2) by (auto simp: var_ty_def)
  show ?thesis unfolding varval_set_value_def tp_bnd
  proof (rule tp_read_tok [OF past_mem [OF p] _ it], goal_cases)
    case 1
    show ?case using t(1) by (simp add: ptr_def)
  next
    case (2 t')
    then have d: "data_ok S (tok_type t') (tok_data t')" and ty': "tok_type t' \<in> {INT_VAR_TOK, INT_ARR_TOK}" using ty by auto
    show ?case
    proof (rule tp_varval_set [OF past_idx(1) [OF p] d ty'], goal_cases)
      case (1 S' s')
      show ?case unfolding prod.case Let_def tp_bnd
        by (simp, rule tp_dealloc [OF past_idx(2) [OF 1(1)]], erule q [OF _ 1(2)])
    next
      case (2 S' s')
      have u: "ptr S' (TokS ty) u" using sort_mono [OF 2(2) t(1)] by (simp add: ptr_def)
      show ?case unfolding prod.case Let_def tp_bnd
        by (simp, rule tp_free_token [OF past_idx(2) [OF 2(1)] u it], erule q [OF _ 2(2)])
    qed
  qed
qed

text \<open>The name and the index of a global.\<close>

lemma tp_global_key:
  assumes p: "past hinv hmap rinv rlist S0 s0 S s" and t: "S u = Some (TokS ty)" "val_ty ty" "\<And>t. heap s u = Some (TokB t) \<Longrightarrow> tok_type t \<noteq> INT_VAL_TOK"
    and q: "\<And>S' s' key idx. past hinv hmap rinv rlist S0 s0 S' s' \<Longrightarrow> S \<subseteq>\<^sub>m S' \<Longrightarrow> ptr S' NameS key \<Longrightarrow> Q (Some (key, idx), s')"
      "\<And>S' s'. past hinv hmap rinv rlist S0 s0 S' s' \<Longrightarrow> S \<subseteq>\<^sub>m S' \<Longrightarrow> Q (None, s')"
  shows "tp (global_key V u s) Q"
proof -
  have it: "is_tok (TokS ty)" using t(2) by (auto simp: val_ty_def)
  show ?thesis unfolding global_key_def tp_bnd
  proof (rule tp_read_tok [OF past_mem [OF p] _ it], goal_cases)
    case 1
    show ?case using t(1) by (simp add: ptr_def)
  next
    case (2 t')
    then have d: "data_ok S (tok_type t') (tok_data t')" and nv: "tok_type t' \<noteq> INT_VAL_TOK" and ty': "tok_type t' \<in> {INT_VAR_TOK, INT_ARR_TOK}"
      using t(2) t(3) [OF 2(1)] by (auto simp: val_ty_def)
    show ?case
    proof (rule tp_ifI, goal_cases)
      case 1
      show ?case unfolding tp_bnd
      proof (rule tp_as_ptr [OF d nv])
        fix a assume "data_ok S (tok_type t') (Ptr a)"
        then have a: "ptr S ArrS a" using 1 by simp
        show "tp (index_value V a s) (\<lambda>x. tp (case x of (r, s) \<Rightarrow> case r of None \<Rightarrow> bnd (free_token u s) (\<lambda>s. Ok (None, s))
            | Some tmp \<Rightarrow> bnd (read_arrtok a s) (\<lambda>at. Ok (Some (at_name at, size_of_int tmp), s))) Q)"
        proof (rule tp_index_value [OF p a], goal_cases)
          case (1 S' s' v)
          show ?case unfolding prod.case option.case tp_bnd
            by (rule tp_read_arrtok [OF past_mem [OF 1(1)] ptr_mono [OF 1(2) a]], unfold tp.simps, rule q(1) [OF 1], simp)
        next
          case (2 S' s')
          have u: "ptr S' (TokS ty) u" using sort_mono [OF 2(2) t(1)] by (simp add: ptr_def)
          show ?case unfolding prod.case option.case tp_bnd
            by (rule tp_free_token [OF 2(1) u it], unfold tp.simps, erule q(2) [OF _ 2(2)])
        qed
      qed
    next
      case 2
      then have v: "tok_type t' = INT_VAR_TOK" using ty' by simp
      show ?case unfolding tp_bnd
        by (rule tp_as_ptr [OF d nv]) (use v q(1) [OF p map_le_refl] in simp)
    qed
  qed
qed

end

end
