(* ===== verification/LineRunTyping.thy ===== *)
theory LineRunTyping imports RunTyping begin

section \<open>Types: the instructions\<close>

text \<open>
  Every handler of an instruction, from the tokens that the scanner lets through to a typed state with an empty ring buffer.
\<close>

text \<open>A line that is being read, with what is left of it, and the states between lines.\<close>

definition holding :: "('h \<Rightarrow> bool) \<Rightarrow> ('h \<Rightarrow> pairs) \<Rightarrow> ('r \<Rightarrow> bool) \<Rightarrow> ('r \<Rightarrow> addr list) \<Rightarrow> sorts \<Rightarrow> addr list \<Rightarrow> ('h, 'r) st \<Rightarrow> bool" where
  "holding hinv hmap rinv rlist S us s \<longleftrightarrow> conf hinv hmap rinv rlist S s \<and> cursor_ok s \<and> reads s \<and> rlist (translated_line s) = us"

definition settled :: "('h \<Rightarrow> bool) \<Rightarrow> ('h \<Rightarrow> pairs) \<Rightarrow> ('r \<Rightarrow> bool) \<Rightarrow> ('r \<Rightarrow> addr list) \<Rightarrow> sorts \<Rightarrow> ('h, 'r) st \<Rightarrow> bool" where
  "settled hinv hmap rinv rlist S s \<longleftrightarrow> (\<exists>S'. S \<subseteq>\<^sub>m S' \<and> conf hinv hmap rinv rlist S' s \<and> cursor_ok s \<and> sem_conf S' s \<and>
     (pstate s \<noteq> FINISHED \<longrightarrow> rlist (translated_line s) = []))"

lemma holdingD:
  assumes "holding hinv hmap rinv rlist S us s"
  shows "conf hinv hmap rinv rlist S s" "cursor_ok s" "reads s" "rlist (translated_line s) = us" "past hinv hmap rinv rlist S s S s"
  using assms past_refl [of hinv hmap rinv rlist S s] by (simp_all add: holding_def)

lemma settledI:
  "S \<subseteq>\<^sub>m S' \<Longrightarrow> conf hinv hmap rinv rlist S' s \<Longrightarrow> cursor_ok s \<Longrightarrow> sem_conf S' s \<Longrightarrow> (pstate s \<noteq> FINISHED \<Longrightarrow> rlist (translated_line s) = []) \<Longrightarrow>
    settled hinv hmap rinv rlist S s"
  unfolding settled_def by blast

lemmas sort_later = sort_mono [rotated]

lemma settled_mono: "S \<subseteq>\<^sub>m S1 \<Longrightarrow> settled hinv hmap rinv rlist S1 s \<Longrightarrow> settled hinv hmap rinv rlist S s"
  unfolding settled_def using map_le_trans by blast

lemma holding_past:
  assumes h: "holding hinv hmap rinv rlist S us s" and p: "past hinv hmap rinv rlist S s S1 s1"
  shows "holding hinv hmap rinv rlist S1 us s1"
  using p cursor_cong [of s s1] holdingD [OF h] by (auto simp: holding_def past_def keeps_def)

lemma holding_settled: "holding hinv hmap rinv rlist S [] s \<Longrightarrow> settled hinv hmap rinv rlist S s"
  by (rule settledI [OF map_le_refl]) (auto simp: holding_def sem_conf_def)

lemma past_settled: "holding hinv hmap rinv rlist S [] s \<Longrightarrow> past hinv hmap rinv rlist S s S1 s1 \<Longrightarrow> settled hinv hmap rinv rlist S s1"
  by (rule settled_mono [OF _ holding_settled [OF holding_past]]) (simp_all add: past_def)

lemma stopped_settled: "holding hinv hmap rinv rlist S us s \<Longrightarrow> past hinv hmap rinv rlist S s S1 s1 \<Longrightarrow> pstate s1 = FINISHED \<Longrightarrow> settled hinv hmap rinv rlist S s1"
  using holding_past [of hinv hmap rinv rlist S us s S1 s1] by (intro settledI [of S S1]) (simp_all add: holding_def past_def sem_conf_def)

lemma settled_dealloc:
  assumes "settled hinv hmap rinv rlist S s"
  shows "tp (dealloc a s) (settled hinv hmap rinv rlist S)"
proof -
  obtain S' where S': "S \<subseteq>\<^sub>m S'" "conf hinv hmap rinv rlist S' s" "cursor_ok s" "sem_conf S' s" "pstate s \<noteq> FINISHED \<longrightarrow> rlist (translated_line s) = []"
    using assms unfolding settled_def by blast
  have "conf hinv hmap rinv rlist S' (s\<lparr>heap := (heap s)(a := None)\<rparr>)"
    using past_conf [OF past_old_heap [OF past_refl [OF S'(2)] mem_release [OF conf_mem [OF S'(2)]]]] by simp
  then have "settled hinv hmap rinv rlist S (s\<lparr>heap := (heap s)(a := None)\<rparr>)"
    using S' by (intro settledI [OF S'(1)]) (simp_all add: cursor_ok_def sem_conf_def)
  then show ?thesis using assms by (simp add: dealloc_def split: option.splits)
qed

lemma settled_fields:
  assumes h: "holding hinv hmap rinv rlist S1 [] s" and le: "S \<subseteq>\<^sub>m S1" and f: "heap s' = heap s" "fresh s' = fresh s" "gtab s' = gtab s" "itable s' = itable s" "vartable s' = vartable s"
    "translated_line s' = translated_line s" "fbuf s' = fbuf s" "fpos s' = fpos s" "c_in s' = c_in s" and p: "pstate s' \<noteq> BLOCKED"
  shows "settled hinv hmap rinv rlist S s'"
  by (rule settledI [OF le conf_cong [OF holdingD(1) [OF h] f(1-6)] cursor_cong [OF holdingD(2) [OF h] f(7-9)]]) (use p f(6) holdingD(4) [OF h] in \<open>auto simp: sem_conf_def\<close>)

lemma typed_tok: "conf hinv hmap rinv rlist S s \<Longrightarrow> S u = Some (TokS ty) \<Longrightarrow> heap s u = Some (TokB t) \<Longrightarrow> tok_type t = ty"
  unfolding conf_def mem_conf_def by fastforce

lemma var_tok: "conf hinv hmap rinv rlist S s \<Longrightarrow> S u = Some (TokS ty) \<Longrightarrow> var_ty ty \<Longrightarrow> heap s u = Some (TokB t) \<Longrightarrow> tok_type t \<noteq> INT_VAL_TOK"
  using typed_tok [of hinv hmap rinv rlist S s u ty t] by (auto simp: var_ty_def)

lemma var_val: "var_ty ty \<Longrightarrow> val_ty ty"
  by (auto simp: var_ty_def val_ty_def)

context voids_handles
begin

lemma ring_read_Cons:
  assumes "holding hinv hmap rinv rlist S (u # us) s"
  obtains s1 where "ring_read V s = (u, VDS_SUCCESS, s1)" "holding hinv hmap rinv rlist S us s1" "heap s1 = heap s" "fresh s1 = fresh s" "pstate s1 = pstate s"
proof -
  note h = holdingD [OF assms]
  have r: "rinv (translated_line s)" using h(1) by (simp add: conf_def prog_conf_def ring_conf_def)
  obtain r' where r': "rb_read V (translated_line s) = (r', u, VDS_SUCCESS)" "rinv r'" "rlist r' = us" using read_Cons [OF r h(4)] by blast
  have "conf hinv hmap rinv rlist S (s\<lparr>translated_line := r'\<rparr>)" using h(1,4) r'(2,3) by (simp add: conf_def prog_conf_def ring_conf_def)
  then show ?thesis using that [of "s\<lparr>translated_line := r'\<rparr>"] r' h by (simp add: ring_read_def holding_def cursor_ok_def)
qed

lemma ring_read_Nil:
  assumes "holding hinv hmap rinv rlist S [] s"
  shows "ring_read V s = (NULL, VDS_BUFFER_EMPTY, s)"
proof -
  have "rinv (translated_line s)" using holdingD(1) [OF assms] by (simp add: conf_def prog_conf_def ring_conf_def)
  from read_Nil [OF this holdingD(4) [OF assms]] show ?thesis by (simp add: ring_read_def)
qed

lemma tp_next_token:
  assumes h: "holding hinv hmap rinv rlist S (u # us) s" and q: "\<And>s1. holding hinv hmap rinv rlist S us s1 \<Longrightarrow> heap s1 = heap s \<Longrightarrow> Q (u, s1)"
  shows "tp (next_token V s) Q"
  by (rule ring_read_Cons [OF h]) (simp add: next_token_def q)

lemma load_typed:
  assumes h: "holding hinv hmap rinv rlist S [u, w] s" and u: "S u = Some (TokS a)" "var_ty a" and w: "S w = Some (TokS b)" "val_ty b"
    and c: "\<And>t. heap s w = Some (TokB t) \<Longrightarrow> tok_type t \<noteq> INT_VAL_TOK"
  shows "tp (load_handler V s) (settled hinv hmap rinv rlist S)"
  unfolding load_handler_def tp_bnd
proof (rule tp_next_token [OF h], unfold prod.case tp_bnd, rule tp_next_token, assumption, unfold prod.case tp_bnd, goal_cases)
  case (1 s1 s2)
  note p = holdingD(5) [OF 1(3)]
  have c2: "\<And>t. heap s2 w = Some (TokB t) \<Longrightarrow> tok_type t \<noteq> INT_VAL_TOK" using c 1(2,4) by simp
  show ?case
  proof (rule tp_global_key [OF p w c2], assumption, unfold prod.case option.case tp_bnd, goal_cases)
    case k: (1 S3 s3 key idx)
    show ?case
      by (rule tp_global_load [OF k(1,3)], unfold prod.case tp_bnd, rule tp_set_value, assumption, rule sort_later [of _ _ "TokS a"], rule u(1), erule map_le_trans [OF k(2)], rule u(2),
        unfold prod.case, rule tp_ifI, unfold tp.simps, erule past_settled [OF 1(3)], rule settled_dealloc, erule past_settled [OF 1(3)])
  next
    case (2 S3 s3)
    show ?case unfolding tp.simps by (rule past_settled [OF 1(3) 2(1)])
  qed
qed

lemma store_typed:
  assumes h: "holding hinv hmap rinv rlist S [u, w] s" and u: "S u = Some (TokS a)" "var_ty a" and w: "S w = Some (TokS b)" "val_ty b"
  shows "tp (store_handler V s) (settled hinv hmap rinv rlist S)"
  unfolding store_handler_def tp_bnd
proof (rule tp_next_token [OF h], unfold prod.case tp_bnd, rule tp_next_token, assumption, unfold prod.case tp_bnd, goal_cases)
  case (1 s1 s2)
  note p = holdingD(5) [OF 1(3)]
  show ?case
  proof (rule tp_global_key [OF p u(1) var_val [OF u(2)] var_tok [OF holdingD(1) [OF 1(3)] u]], assumption, unfold prod.case option.case tp_bnd, goal_cases)
    case k: (1 S3 s3 key idx)
    show ?case
    proof (rule tp_get_value [OF k(1) sort_mono [OF k(2) w(1)] w(2)], unfold prod.case option.case tp_bnd, goal_cases)
      case v: (1 S4 s4 v)
      show ?case by (rule tp_global_store [OF v(1) ptr_mono [OF v(2) k(3)]], rule settled_dealloc, erule past_settled [OF 1(3)])
    next
      case (2 S4 s4)
      show ?case unfolding tp.simps by (rule past_settled [OF 1(3) 2(1)])
    qed
  next
    case (2 S3 s3)
    show ?case unfolding tp.simps by (rule past_settled [OF 1(3) 2(1)])
  qed
qed

lemma set_typed:
  assumes h: "holding hinv hmap rinv rlist S [u, w] s" and u: "S u = Some (TokS a)" "var_ty a" and w: "S w = Some (TokS b)" "val_ty b"
  shows "tp (set_handler V s) (settled hinv hmap rinv rlist S)"
  unfolding set_handler_def tp_bnd
proof (rule tp_next_token [OF h], unfold prod.case tp_bnd, rule tp_next_token, assumption, unfold prod.case tp_bnd, goal_cases)
  case (1 s1 s2)
  show ?case
    by (rule tp_get_value [OF holdingD(5) [OF 1(3)] w], unfold prod.case option.case tp_bnd, rule tp_set_value, assumption, rule sort_later [of _ _ "TokS a"], rule u(1), assumption, rule u(2),
      unfold prod.case tp.simps, erule past_settled [OF 1(3)], erule past_settled [OF 1(3)])
qed

lemma tp_primitive: "(\<And>r. Q r) \<Longrightarrow> tp (primitive_op ins a b) Q"
  by (cases ins) (simp_all add: primitive_op_def tp_arith)

lemma primitive_typed:
  assumes h: "holding hinv hmap rinv rlist S [u, w, x] s" and u: "S u = Some (TokS a)" "var_ty a" and w: "S w = Some (TokS b)" "val_ty b"
    and x: "S x = Some (TokS c)" "val_ty c"
  shows "tp (primitive_op_handler V ins s) (settled hinv hmap rinv rlist S)"
  unfolding primitive_op_handler_def tp_bnd
proof (rule tp_next_token [OF h], unfold prod.case tp_bnd, rule tp_next_token, assumption, unfold prod.case tp_bnd, rule tp_next_token, assumption, unfold prod.case tp_bnd, goal_cases)
  case (1 s1 s2 s3)
  note e = past_settled [OF 1(5)]
  show ?case
  proof (rule tp_get_value [OF holdingD(5) [OF 1(5)] w], unfold prod.case option.case tp_bnd, goal_cases)
    case v: (1 S4 s4 v)
    show ?case
    proof (rule tp_get_value [OF v(1) sort_mono [OF v(2) x(1)] x(2)], unfold prod.case option.case tp_bnd, goal_cases)
      case y: (1 S5 s5 v')
      show ?case
      proof (rule tp_primitive)
        fix r
        show "tp (case r of None \<Rightarrow> Ok s5 | Some v \<Rightarrow> bnd (varval_set_value V u v s5) (\<lambda>(ok, s). Ok s)) (settled hinv hmap rinv rlist S)"
        proof (cases r)
          case (Some z)
          show ?thesis unfolding Some option.case tp_bnd
            by (rule tp_set_value [OF y(1) sort_mono [OF map_le_trans [OF v(2) y(2)] u(1)] u(2)], unfold prod.case tp.simps, erule e)
        qed (simp add: e [OF y(1)])
      qed
    qed (simp add: e)
  qed (simp add: e)
qed

lemma semaphore_typed:
  assumes h: "holding hinv hmap rinv rlist S [u] s" and u: "S u = Some (TokS a)" "var_ty a"
  shows "tp (semaphore_handler V ins s) (settled hinv hmap rinv rlist S)"
  unfolding semaphore_handler_def tp_bnd
proof (rule tp_next_token [OF h], unfold prod.case tp_bnd, goal_cases)
  case (1 s1)
  show ?case
  proof (rule tp_global_key [OF holdingD(5) [OF 1(1)] u(1) var_val [OF u(2)] var_tok [OF holdingD(1) [OF 1(1)] u]], assumption, unfold prod.case option.case tp_bnd, goal_cases)
    case k: (1 S2 s2 key idx)
    have down: "settled hinv hmap rinv rlist S (s3\<lparr>blocked_idx := idx, pstate := BLOCKED, sem := var\<rparr>)"
      if p: "past hinv hmap rinv rlist S s1 S3 s3" and v: "ptr S3 GVarS var" for S3 s3 var
    proof -
      note h3 = holding_past [OF 1(1) p]
      have le: "S \<subseteq>\<^sub>m S3" using p by (simp add: past_def)
      show ?thesis
        by (rule settledI [OF le conf_cong [OF holdingD(1) [OF h3]] cursor_cong [OF holdingD(2) [OF h3]]]) (use v holdingD(4) [OF h3] in \<open>simp_all add: sem_conf_def\<close>)
    qed
    have "tp (global_var_down V key idx s2) (settled hinv hmap rinv rlist S)" by (rule tp_global_down [OF k(1,3)], erule down, assumption)
    moreover have "tp (global_var_up V key idx s2) (settled hinv hmap rinv rlist S)" by (rule tp_global_up [OF k(1,3)], erule past_settled [OF 1(1)])
    ultimately have "tp (case ins of DOWN_SYM \<Rightarrow> global_var_down V key idx s2 | UP_SYM \<Rightarrow> global_var_up V key idx s2 | _ \<Rightarrow> Ok s2) (settled hinv hmap rinv rlist S)"
      using past_settled [OF 1(1) k(1)] by (cases ins) simp_all
    then show ?case by (rule tp_mono) (rule settled_dealloc)
  next
    case (2 S2 s2)
    show ?case unfolding tp.simps by (rule past_settled [OF 1(1) 2(1)])
  qed
qed

lemma sleep_typed:
  assumes h: "holding hinv hmap rinv rlist S [u] s" and u: "S u = Some (TokS ty)" "val_ty ty"
  shows "tp (sleep_handler V s) (settled hinv hmap rinv rlist S)"
proof (rule ring_read_Cons [OF h])
  fix s0 assume r: "ring_read V s = (u, VDS_SUCCESS, s0)" and h0: "holding hinv hmap rinv rlist S [] s0"
  note p = holdingD(5) [OF h0]
  have it: "is_tok (TokS ty)" and k: "ptr S (TokS ty) u" using u by (auto simp: val_ty_def ptr_def)
  show ?thesis unfolding sleep_handler_def r prod.case tp_bnd
  proof (rule tp_read_tok [OF past_mem [OF p] k it])
    fix t assume t: "tok_ok S (TokS ty) t"
    then have d: "data_ok S (tok_type t) (tok_data t)" and ty: "tok_type t \<in> {INT_VAL_TOK, INT_VAR_TOK, INT_ARR_TOK}" using u(2) by (auto simp: val_ty_def)
    show "tp (varval_get (Suc (fresh s0)) V (tok_type t) (tok_data t) (set_parser_idx t s0)) (\<lambda>x. tp (case x of (r, s) \<Rightarrow> case r of None \<Rightarrow> free_token u s
       | Some sleep_duration \<Rightarrow> let s1 = (if 0 < sint sleep_duration then s\<lparr>pstate := SLEEPING, sleep_sec := sint sleep_duration, sleep_nsec := 0\<rparr> else warn_msg MNegativeSleep s) in
         dealloc u (reset_parser_idx s0 s1)) (settled hinv hmap rinv rlist S))"
    proof (rule tp_varval_getI [OF past_idx(1) [OF p] d ty], goal_cases)
      case (1 S' s' v)
      note h' = holding_past [OF h0 1(1)]
      have "settled hinv hmap rinv rlist S (reset_parser_idx s0 (if 0 < sint v then s'\<lparr>pstate := SLEEPING, sleep_sec := sint v, sleep_nsec := 0\<rparr> else warn_msg MNegativeSleep s'))"
        by (rule settled_fields [OF h' 1(2)]) (use holdingD(3) [OF h'] in \<open>auto simp: reset_parser_idx_def warn_msg_def split: prod.splits\<close>)
      then show ?case unfolding prod.case option.case Let_def by (rule settled_dealloc)
    next
      case (2 S' s')
      have "ptr S' (TokS ty) u" using sort_mono [OF 2(2) u(1)] by (simp add: ptr_def)
      then show ?case unfolding prod.case option.case by (rule tp_free_token [OF 2(1) _ it]) (erule past_settled [OF h0])
    qed
  qed
qed

lemma print_values_typed:
  assumes "holding hinv hmap rinv rlist S us s" and "toks S us tys" and "list_all val_ty tys"
  shows "tp (print_values V n s) (\<lambda>s'. settled hinv hmap rinv rlist S s' \<and> reads s')"
  using assms
proof (induction n arbitrary: S s us tys)
  case (Suc n)
  show ?case
  proof (cases us)
    case Nil
    then show ?thesis using ring_read_Nil [of S s] Suc.prems(1) holding_settled holdingD(3) [OF Suc.prems(1)] by simp
  next
    case (Cons u vs)
    then obtain ty tys' where ty: "tys = ty # tys'" "S u = Some (TokS ty)" "toks S vs tys'" "val_ty ty" "list_all val_ty tys'"
      using Suc.prems(2,3) by (cases tys) (auto simp: toks_def)
    obtain s1 where s1: "ring_read V s = (u, VDS_SUCCESS, s1)" "holding hinv hmap rinv rlist S vs s1"
      using ring_read_Cons [OF Suc.prems(1) [unfolded Cons]] by blast
    have "tp (varval_get_value V u s1) (\<lambda>x. tp (case x of (r, s) \<Rightarrow> case r of None \<Rightarrow> Ok s | Some tmp \<Rightarrow> print_values V n (s\<lparr>out := out s @ [SaysInt tmp]\<rparr>))
        (\<lambda>s'. settled hinv hmap rinv rlist S s' \<and> reads s'))"
    proof (rule tp_get_value [OF holdingD(5) [OF s1(2)] ty(2,4)], unfold prod.case option.case, goal_cases)
      case (1 S2 s2 v)
      have "past hinv hmap rinv rlist S s1 S2 (s2\<lparr>out := out s2 @ [SaysInt v]\<rparr>)" by (rule past_fields [OF 1(1)]) simp_all
      note h2 = holding_past [OF s1(2) this]
      show ?case by (rule tp_mono [OF Suc.IH [OF h2 toks_mono [OF 1(2) ty(3)] ty(5)]]) (use settled_mono [OF 1(2)] in blast)
    next
      case (2 S2 s2)
      show ?case using stopped_settled [OF s1(2) 2(1,3)] 2(3) by simp
    qed
    then show ?thesis using s1(1) by simp
  qed
qed simp

lemma print_typed:
  assumes h: "holding hinv hmap rinv rlist S us s" and t: "toks S us tys" "args_typed PRINT_SYM tys"
  shows "tp (print_handler V s) (settled hinv hmap rinv rlist S)"
  unfolding print_handler_def tp_bnd
proof (rule tp_argv)
  fix i
  obtain u vs tys' where u: "us = u # vs" "tys = STRING_TOK # tys'" "S u = Some (TokS STRING_TOK)" "toks S vs tys'" "list_all val_ty tys'"
    using t by (cases tys; cases us) (auto simp: toks_def)
  have h1: "holding hinv hmap rinv rlist S (u # vs) (s\<lparr>out := out s @ [Says i]\<rparr>)"
    using holding_past [OF h past_fields [OF holdingD(5) [OF h]], of "s\<lparr>out := out s @ [Says i]\<rparr>"] u(1) by simp
  obtain s1 where s1: "ring_read V (s\<lparr>out := out s @ [Says i]\<rparr>) = (u, VDS_SUCCESS, s1)" "holding hinv hmap rinv rlist S vs s1" using ring_read_Cons [OF h1] by blast
  note p = holdingD(5) [OF s1(2)]
  have k: "ptr S (TokS STRING_TOK) u" "is_tok (TokS STRING_TOK)" using u(3) by (simp_all add: ptr_def)
  show "tp (case ring_read V (s\<lparr>out := out s @ [Says i]\<rparr>) of (tok, e, s) \<Rightarrow> bnd (read_tok tok s) (\<lambda>t. bnd (as_ptr (tok_data t)) (\<lambda>d. bnd (read_str d s) (\<lambda>x.
     bnd (free_token tok (s\<lparr>out := out s @ [SaysStr x]\<rparr>)) (\<lambda>s. bnd (print_values V (ring_fuel V s) s) (\<lambda>s. Ok (s\<lparr>out := out s @ [SaysNl]\<rparr>))))))) (settled hinv hmap rinv rlist S)"
    unfolding s1(1) prod.case tp_bnd
  proof (rule tp_read_tok [OF past_mem [OF p] k], goal_cases)
    case (1 t)
    then have d: "data_ok S (tok_type t) (tok_data t)" "tok_type t = STRING_TOK" by simp_all
    show ?case
    proof (rule tp_as_ptr [OF d(1)], simp add: d(2), rule tp_read_str [OF past_mem [OF p], where k = StrS], simp add: d(2), simp, goal_cases)
      case (1 a x)
      have p1: "past hinv hmap rinv rlist S s1 S (s1\<lparr>out := out s1 @ [SaysStr x]\<rparr>)" by (rule past_fields [OF p]) simp_all
      show ?case
      proof (rule tp_free_token [OF p1 k])
        fix s2 assume s2: "past hinv hmap rinv rlist S s1 S s2"
        have "tp (print_values V n s2) (\<lambda>s'. settled hinv hmap rinv rlist S (s'\<lparr>out := out s' @ [SaysNl]\<rparr>))" for n
        proof (rule tp_mono [OF print_values_typed [OF holding_past [OF s1(2) s2] u(4,5)]])
          fix s' :: "('a, 'c) st" assume "settled hinv hmap rinv rlist S s' \<and> reads s'"
          then obtain S' where S': "S \<subseteq>\<^sub>m S'" "conf hinv hmap rinv rlist S' s'" "cursor_ok s'" "reads s'" "pstate s' \<noteq> FINISHED \<longrightarrow> rlist (translated_line s') = []"
            unfolding settled_def by blast
          show "settled hinv hmap rinv rlist S (s'\<lparr>out := out s' @ [SaysNl]\<rparr>)"
            by (rule settledI [OF S'(1) conf_cong [OF S'(2)] cursor_cong [OF S'(3)]]) (use S'(4,5) in \<open>auto simp: sem_conf_def\<close>)
        qed
        then show "tp (print_values V (ring_fuel V s2) s2) (\<lambda>x. tp (Ok (x\<lparr>out := out x @ [SaysNl]\<rparr>)) (settled hinv hmap rinv rlist S))" by simp
      qed
    qed
  qed
qed

lemma return_typed:
  assumes h: "holding hinv hmap rinv rlist S us s"
  shows "tp (return_handler s) (settled hinv hmap rinv rlist S)"
  using stopped_settled [OF h past_fields [OF holdingD(5) [OF h]], of "s\<lparr>pstate := FINISHED\<rparr>"] by (simp add: return_handler_def)

end

end
