(* ===== verification/BranchTyping.thy ===== *)
theory BranchTyping imports LineRunTyping begin

section \<open>Types: labels and branches\<close>

text \<open>
  The label of a line, the jump, and the look-ahead for a label that is not known yet; then every handler at once.
\<close>

text \<open>The label table and a label token.\<close>

definition onto :: "('h \<Rightarrow> bool) \<Rightarrow> ('h \<Rightarrow> pairs) \<Rightarrow> ('r \<Rightarrow> bool) \<Rightarrow> ('r \<Rightarrow> addr list) \<Rightarrow> sorts \<Rightarrow> ('h, 'r) st \<Rightarrow> bool" where
  "onto hinv hmap rinv rlist S s \<longleftrightarrow> (\<exists>S'. S \<subseteq>\<^sub>m S' \<and> holding hinv hmap rinv rlist S' [] s)"

lemma ontoI: "S \<subseteq>\<^sub>m S' \<Longrightarrow> holding hinv hmap rinv rlist S' [] s \<Longrightarrow> onto hinv hmap rinv rlist S s"
  unfolding onto_def by blast

lemma onto_mono: "S \<subseteq>\<^sub>m S1 \<Longrightarrow> onto hinv hmap rinv rlist S1 s \<Longrightarrow> onto hinv hmap rinv rlist S s"
  unfolding onto_def using map_le_trans by blast

lemma past_onto: "holding hinv hmap rinv rlist S [] s \<Longrightarrow> past hinv hmap rinv rlist S s S1 s1 \<Longrightarrow> onto hinv hmap rinv rlist S s1"
  by (rule ontoI [OF _ holding_past]) (simp_all add: past_def)

lemma label_sort:
  assumes "is_tok k" and "tok_ok S k t" and "tok_type t = LABEL_TOK"
  shows "k = TokS LABEL_TOK" "data_ok S LABEL_TOK (tok_data t)"
  using assms by (cases k; simp)+

lemma tp_label_ptr: "data_ok S LABEL_TOK d \<Longrightarrow> (\<And>a. ptr S LblS a \<Longrightarrow> Q a) \<Longrightarrow> tp (as_ptr d) Q"
  by (cases d) simp_all

lemma tp_jump:
  assumes h: "holding hinv hmap rinv rlist S us s" and l: "ptr S LabelS l" and q: "\<And>s'. holding hinv hmap rinv rlist S us s' \<Longrightarrow> Q s'"
  shows "tp (jump_to l s) Q"
  unfolding jump_to_def tp_bnd
proof (rule tp_read_label [OF conf_mem [OF holdingD(1) [OF h]] l], unfold tp.simps, rule q)
  fix l
  let ?s = "s\<lparr>line := lbl_line l, column := lbl_column l, prev_col := lbl_prev_col l, c_in := 32, fpos := lbl_offset l\<rparr>"
  have "to_char 32 \<noteq> CHR ''$''" by (simp add: to_char_def char_of_def bit_numeral_rec)
  then have "cursor_ok ?s" using holdingD(2) [OF h] by (simp add: cursor_ok_def)
  moreover have "conf hinv hmap rinv rlist S ?s" by (rule conf_cong [OF holdingD(1) [OF h]]) simp_all
  ultimately show "holding hinv hmap rinv rlist S us ?s" using holdingD(3,4) [OF h] by (simp add: holding_def)
qed

context voids_handles
begin

lemma tp_insert_label:
  assumes p: "past hinv hmap rinv rlist S0 s0 S s" and u: "S u = Some (TokS LABEL_TOK)"
    and q: "\<And>S' s' l. past hinv hmap rinv rlist S0 s0 S' s' \<Longrightarrow> S \<subseteq>\<^sub>m S' \<Longrightarrow> ptr S' LabelS l \<Longrightarrow> (l = NULL \<Longrightarrow> pstate s' = FINISHED) \<Longrightarrow> Q (l, s')"
  shows "tp (insert_label_to_vartable V u s) Q"
  unfolding insert_label_to_vartable_def tp_bnd
proof (rule tp_read_tok [OF past_mem [OF p], where k = "TokS LABEL_TOK"], goal_cases)
  case (3 t)
  then have d: "data_ok S LABEL_TOK (tok_data t)" by simp
  obtain l s1 where a: "alloc (LabelB \<lparr>lbl_placeholder = -1, lbl_line = tok_line t, lbl_column = tok_column t, lbl_prev_col = tok_prev_col t,
      lbl_offset = tok_offset t\<rparr>) s = (l, s1)" by fastforce
  obtain S1 where s1: "past hinv hmap rinv rlist S0 s0 S1 s1" "S \<subseteq>\<^sub>m S1" "S1 l = Some LabelS" by (rule past_alloc [OF p _ a, of LabelS]) simp
  have null: "S1 NULL = None" using past_mem [OF s1(1)] by (simp add: mem_conf_def)
  have l: "ptr S1 LabelS l" "l \<noteq> NULL" using s1(3) null by (simp add: ptr_def) (cases "l = NULL"; use s1(3) null in simp)
  show ?case unfolding a prod.case tp_bnd
  proof (rule tp_label_ptr [OF d], rule tp_read_str [OF past_mem [OF s1(1)] ptr_mono [OF s1(2)]], assumption, simp, goal_cases)
    case (1 key k)
    then have k: "lname k" by simp
    note v = past_vars [OF s1(1), unfolded vars_conf_def]
    have hv: "hinv (vartable s1)" using v by blast
    show ?case
    proof (cases "hmap (vartable s1) k")
      case None
      obtain h r where h: "qh_insert V (vartable s1) k key l = (h, Some r, VDS_SUCCESS)" "hinv h" "hmap h = (hmap (vartable s1))(k \<mapsto> (key, l))"
        using insert_new [OF hv None] by blast
      have "vars_conf hinv hmap S1 h" by (rule vars_upd [OF past_vars [OF s1(1)] h(2,3)]) (use k l in simp)
      from past_table [OF s1(1) this] show ?thesis unfolding h(1) prod.case Let_def using q [OF _ s1(2) l(1)] l(2) by simp
    next
      case (Some kd)
      obtain r where r: "qh_insert V (vartable s1) k key l = (vartable s1, Some r, VDS_KEY_EXISTS)" "qh_valid V (vartable s1) r" "qh_pair V (vartable s1) r = kd"
        using insert_old [OF hv Some, of key l] by blast
      obtain ka d where kd: "kd = (ka, d)" by (cases kd)
      have "ptr S1 (if lname k then LabelS else IntsS) d" using v Some kd by blast
      then have old: "ptr S1 LabelS (snd kd)" using k kd by simp
      have same: "s1\<lparr>vartable := vartable s1\<rparr> = s1" by simp
      have pd: "pair_data V r s1 = Ok (snd kd)" using r by (simp add: pair_data_def)
      show ?thesis unfolding r(1) prod.case Let_def if_P [OF refl] option.case same pd bnd.simps tp_bnd
      proof (rule tp_read_label [OF past_mem [OF s1(1)] old], rule tp_ifI, goal_cases)
        case (1 lb)
        note rep = past_report [OF s1(1), of MLabelRedefined t]
        show ?case unfolding tp_bnd
        proof (rule tp_dealloc [OF past_refl [OF past_conf [OF rep]]], unfold tp.simps, rule q [OF past_trans [OF rep] s1(2)], assumption, simp)
          fix s' assume "past hinv hmap rinv rlist S1 (reset_parser_idx (program_stop True s1) (err_msg MLabelRedefined (set_parser_idx t (program_stop True s1)))) S1 s'"
          from past_stopped [OF this report_fields] show "pstate s' = FINISHED" .
        qed
      next
        case (2 lb)
        show ?case using q [OF s1(1,2) l(1)] l(2) by simp
      qed
    qed
  qed
qed (use u in \<open>simp_all add: ptr_def\<close>)

lemma tok_of_ring:
  assumes "holding hinv hmap rinv rlist S (u # us) s"
  obtains k where "S u = Some k" "is_tok k" "ptr S k u"
  using assms that unfolding holding_def conf_def prog_conf_def ring_conf_def ptr_def by (metis list.set_intros(1))

lemma tp_drain:
  assumes "holding hinv hmap rinv rlist S us s" and "\<And>s'. holding hinv hmap rinv rlist S [] s' \<Longrightarrow> Q s'"
  shows "tp (drain V n s) Q"
  using assms(1)
proof (induction n arbitrary: us s)
  case (Suc n)
  show ?case
  proof (cases us)
    case Nil
    then show ?thesis using ring_read_Nil [of S s] Suc.prems assms(2) by (simp add: free_token_def)
  next
    case (Cons u vs)
    obtain s1 where s1: "ring_read V s = (u, VDS_SUCCESS, s1)" "holding hinv hmap rinv rlist S vs s1" using ring_read_Cons [OF Suc.prems [unfolded Cons]] by blast
    obtain k where k: "S u = Some k" "is_tok k" "ptr S k u" by (rule tok_of_ring [OF Suc.prems [unfolded Cons]])
    have "tp (free_token u s1) (\<lambda>s. tp (drain V n s) Q)"
      by (rule tp_free_token [OF holdingD(5) [OF s1(2)] k(3,2)]) (rule Suc.IH [OF holding_past [OF s1(2)]])
    then show ?thesis using s1(1) by simp
  qed
qed simp

lemma tp_find_label:
  assumes "holding hinv hmap rinv rlist S [] s" and "S label = Some (TokS LABEL_TOK)"
  shows "tp (find_label V n label s) (onto hinv hmap rinv rlist S)"
  using assms
proof (induction n arbitrary: S s)
  case (Suc n)
  note h = holdingD [OF Suc.prems(1)]
  let ?loop = "\<lambda>new_lbl s. bnd (read_tok new_lbl s) (\<lambda>nt.
     bnd (if tok_type nt = LABEL_TOK then bnd (as_ptr (tok_data nt)) (\<lambda>a. bnd (read_str a s) (\<lambda>x.
               bnd (read_tok label s) (\<lambda>lt. bnd (as_ptr (tok_data lt)) (\<lambda>b. bnd (read_str b s) (\<lambda>y. Ok (x = y)))))) else Ok False) (\<lambda>found.
     if found then bnd (insert_label_to_vartable V new_lbl s) (\<lambda>(lbl, s). if lbl = NULL then free_token new_lbl s else bnd (jump_to lbl s) (dealloc new_lbl))
     else bnd (free_token new_lbl s) (\<lambda>s. if pstate s = FINISHED then
         bnd (read_tok label s) (\<lambda>lt. let s1 = program_stop True s in Ok (reset_parser_idx s1 (err_msg MUndefinedLabel (set_parser_idx lt s1))))
       else find_label V n label s)))"
  show ?case unfolding find_label.simps tp_bnd
  proof (rule tp_mono [OF tokenize_typed [OF h(1-3)]])
    fix s1 assume "\<exists>S' us. lexed hinv hmap rinv rlist S s S' s1 us \<and> (pstate s1 = FINISHED \<or> line_typed S' us)"
    then obtain S1 us where l: "lexed hinv hmap rinv rlist S s S1 s1 us" by blast
    have le: "S \<subseteq>\<^sub>m S1" and h1: "holding hinv hmap rinv rlist S1 us s1" using lexedD [OF l] h(4) by (simp_all add: holding_def)
    have lab: "S1 label = Some (TokS LABEL_TOK)" by (rule sort_mono [OF le Suc.prems(2)])
    have labt: "ptr S1 (TokS LABEL_TOK) label" "is_tok (TokS LABEL_TOK)" using lab by (simp_all add: ptr_def)
    show "tp (case ring_read V s1 of (new_lbl, e, s) \<Rightarrow> bnd (if e \<noteq> VDS_BUFFER_EMPTY then drain V (ring_fuel V s) s else Ok s) (?loop new_lbl)) (onto hinv hmap rinv rlist S)"
    proof (cases us)
      case Nil
      have "ring_read V s1 = (NULL, VDS_BUFFER_EMPTY, s1)" by (rule ring_read_Nil [OF h1 [unfolded Nil]])
      moreover have "heap s1 NULL = None" using conf_mem [OF holdingD(1) [OF h1]] by (simp add: mem_conf_def)
      ultimately show ?thesis by (simp add: read_tok_def deref_def)
    next
      case (Cons u vs)
      obtain s2 where s2: "ring_read V s1 = (u, VDS_SUCCESS, s2)" "holding hinv hmap rinv rlist S1 vs s2" using ring_read_Cons [OF h1 [unfolded Cons]] by blast
      obtain k where k: "S1 u = Some k" "is_tok k" "ptr S1 k u" by (rule tok_of_ring [OF h1 [unfolded Cons]])
      have "tp (?loop u s3) (onto hinv hmap rinv rlist S)" if h3: "holding hinv hmap rinv rlist S1 [] s3" for s3
        unfolding tp_bnd
      proof (rule tp_read_tok [OF past_mem [OF holdingD(5) [OF h3]] k(3,2)])
        fix nt assume nt: "tok_ok S1 k nt"
        note p = holdingD(5) [OF h3] and m = past_mem [OF holdingD(5) [OF h3]]
        have notf: "tp (free_token u s3) (\<lambda>s. tp (if pstate s = FINISHED then
              bnd (read_tok label s) (\<lambda>lt. let s1 = program_stop True s in Ok (reset_parser_idx s1 (err_msg MUndefinedLabel (set_parser_idx lt s1))))
              else find_label V n label s) (onto hinv hmap rinv rlist S))"
        proof (rule tp_free_token [OF p k(3,2)], rule tp_ifI, goal_cases)
          case (1 s4)
          show ?case unfolding tp_bnd
            by (rule tp_read_tok [OF past_mem [OF 1(1)] labt], unfold Let_def tp.simps, rule onto_mono [OF le], rule past_onto [OF h3], rule past_report [OF 1(1)])
        next
          case (2 s4)
          show ?case by (rule tp_mono [OF Suc.IH [OF holding_past [OF h3 2(1)] lab]]) (rule onto_mono [OF le])
        qed
        have found: "tp (insert_label_to_vartable V u s3) (\<lambda>x. tp (case x of (lbl, s) \<Rightarrow> if lbl = NULL then free_token u s else bnd (jump_to lbl s) (dealloc u)) (onto hinv hmap rinv rlist S))"
          if "tok_type nt = LABEL_TOK"
        proof (rule tp_insert_label [OF p k(1) [unfolded label_sort(1) [OF k(2) nt that]]], unfold prod.case, rule tp_ifI, goal_cases)
          case (1 S4 s4 l)
          show ?case by (rule tp_free_token [OF 1(1) ptr_mono [OF 1(2) k(3)] k(2)], rule onto_mono [OF le], erule past_onto [OF h3])
        next
          case (2 S4 s4 l)
          show ?case unfolding tp_bnd
            by (rule tp_jump [OF holding_past [OF h3 2(1)] 2(3)], rule tp_dealloc, erule holdingD(5), rule onto_mono [OF map_le_trans [OF le 2(2)]], rule past_onto)
        qed
        have go: "tp (if f then bnd (insert_label_to_vartable V u s3) (\<lambda>(lbl, s). if lbl = NULL then free_token u s else bnd (jump_to lbl s) (dealloc u))
            else bnd (free_token u s3) (\<lambda>s. if pstate s = FINISHED then
              bnd (read_tok label s) (\<lambda>lt. let s1 = program_stop True s in Ok (reset_parser_idx s1 (err_msg MUndefinedLabel (set_parser_idx lt s1))))
              else find_label V n label s)) (onto hinv hmap rinv rlist S)" if "f \<Longrightarrow> tok_type nt = LABEL_TOK" for f
          by (rule tp_ifI) (unfold tp_bnd, erule found [OF that], rule notf)
        show "tp (if tok_type nt = LABEL_TOK then bnd (as_ptr (tok_data nt)) (\<lambda>a. bnd (read_str a s3) (\<lambda>x.
               bnd (read_tok label s3) (\<lambda>lt. bnd (as_ptr (tok_data lt)) (\<lambda>b. bnd (read_str b s3) (\<lambda>y. Ok (x = y)))))) else Ok False)
            (\<lambda>f. tp (if f then bnd (insert_label_to_vartable V u s3) (\<lambda>(lbl, s). if lbl = NULL then free_token u s else bnd (jump_to lbl s) (dealloc u))
            else bnd (free_token u s3) (\<lambda>s. if pstate s = FINISHED then
              bnd (read_tok label s) (\<lambda>lt. let s1 = program_stop True s in Ok (reset_parser_idx s1 (err_msg MUndefinedLabel (set_parser_idx lt s1))))
              else find_label V n label s)) (onto hinv hmap rinv rlist S))"
        proof (rule tp_ifI, goal_cases)
          case 1
          show ?case unfolding tp_bnd
            by (rule tp_label_ptr [OF label_sort(2) [OF k(2) nt 1]], rule tp_read_str [OF m], assumption, simp, rule tp_read_tok [OF m labt],
              rule tp_label_ptr [of S1], simp, rule tp_read_str [OF m], assumption, simp, unfold tp.simps, rule go, rule 1)
        next
          case 2
          show ?case unfolding tp.simps by (rule go) simp
        qed
      qed
      then show ?thesis using tp_drain [OF s2(2)] s2(1) by simp
    qed
  qed
qed simp

lemma tp_take_branch:
  assumes h: "holding hinv hmap rinv rlist S [] s" and l: "S label = Some (TokS LABEL_TOK)"
  shows "tp (take_branch V label s) (onto hinv hmap rinv rlist S)"
proof -
  note p = holdingD(5) [OF h]
  have labt: "ptr S (TokS LABEL_TOK) label" "is_tok (TokS LABEL_TOK)" using l by (simp_all add: ptr_def)
  show ?thesis unfolding take_branch_def tp_bnd
  proof (rule tp_read_tok [OF past_mem [OF p] labt], rule tp_label_ptr [of S], simp, rule tp_read_str [OF past_mem [OF p]], assumption, simp, goal_cases)
    case (1 t key k)
    then have k: "lname k" by simp
    show ?case
    proof (rule tp_find_var [OF p], goal_cases)
      case 1
      show ?case unfolding option.case by (rule tp_find_label [OF h l])
    next
      case (2 r)
      show ?case unfolding option.case tp_bnd
      proof (rule tp_pair_data [OF p 2], unfold if_P [OF k], rule tp_read_head [OF past_mem [OF p]], assumption, simp, rule tp_ifI, goal_cases)
        case (1 d h')
        show ?case by (rule tp_jump [OF h 1(1)], erule ontoI [OF map_le_refl])
      next
        case (2 d h')
        show ?case unfolding Let_def tp.simps by (rule past_onto [OF h past_report [OF p]])
      qed
    qed
  qed
qed

text \<open>The end of the branch handler, once the two values are known.\<close>

lemma branch_rest_typed:
  assumes h: "holding hinv hmap rinv rlist S [w] s" and w: "S w = Some (TokS LABEL_TOK)"
  shows "tp (bnd (next_token V s) (\<lambda>(label, s). case branch_jumps ins val1 val2 of None \<Rightarrow> Ok s | Some jump \<Rightarrow>
     bnd (if jump then take_branch V label s else Ok s) (\<lambda>s. bnd (read_tok label s) (\<lambda>t. bnd (as_ptr (tok_data t)) (\<lambda>d. bnd (dealloc d s) (dealloc label))))))
     (settled hinv hmap rinv rlist S)"
  unfolding tp_bnd
proof (rule tp_next_token [OF h], unfold prod.case, goal_cases)
  case (1 s1)
  have fin: "tp (read_tok w s2) (\<lambda>t. tp (as_ptr (tok_data t)) (\<lambda>d. tp (dealloc d s2) (\<lambda>s. tp (dealloc w s) (settled hinv hmap rinv rlist S))))"
    if "onto hinv hmap rinv rlist S s2" for s2
  proof -
    obtain S2 where S2: "S \<subseteq>\<^sub>m S2" "holding hinv hmap rinv rlist S2 [] s2" using \<open>onto hinv hmap rinv rlist S s2\<close> unfolding onto_def by blast
    note p = holdingD(5) [OF S2(2)]
    have k: "ptr S2 (TokS LABEL_TOK) w" "is_tok (TokS LABEL_TOK)" using sort_mono [OF S2(1) w] by (simp_all add: ptr_def)
    show ?thesis
      by (rule tp_read_tok [OF past_mem [OF p] k], rule tp_label_ptr [of S2], simp, rule tp_dealloc [OF p], rule tp_dealloc, assumption, rule settled_mono [OF S2(1)],
        rule past_settled [OF S2(2)])
  qed
  show ?case
  proof (cases "branch_jumps ins val1 val2")
    case None
    then show ?thesis using holding_settled [OF 1(1)] by simp
  next
    case (Some jump)
    have "tp (if jump then take_branch V w s1 else Ok s1) (onto hinv hmap rinv rlist S)"
      using tp_take_branch [OF 1(1) w] ontoI [OF map_le_refl 1(1)] by simp
    then show ?thesis unfolding Some option.case tp_bnd by (rule tp_mono) (rule fin)
  qed
qed

lemma branch_typed:
  assumes h: "holding hinv hmap rinv rlist S us s" and t: "toks S us ((if ins \<noteq> BRA_SYM then [a, b] else []) @ [LABEL_TOK])" "val_ty a" "val_ty b"
  shows "tp (branch_handler V ins s) (settled hinv hmap rinv rlist S)"
proof (cases "ins = BRA_SYM")
  case True
  then obtain w where w: "us = [w]" "S w = Some (TokS LABEL_TOK)" using t(1) by (auto simp: toks_def list_all2_Cons2)
  show ?thesis using branch_rest_typed [OF h [unfolded w(1)] w(2), of ins 0 0] True by (simp add: branch_handler_def)
next
  case False
  then obtain u v w where w: "us = [u, v, w]" "S u = Some (TokS a)" "S v = Some (TokS b)" "S w = Some (TokS LABEL_TOK)"
    using t(1) by (auto simp: toks_def list_all2_Cons2)
  let ?rest = "\<lambda>x. tp (case x of (vals, s) \<Rightarrow> case vals of None \<Rightarrow> Ok s | Some (val1, val2) \<Rightarrow> bnd (next_token V s) (\<lambda>(label, s). case branch_jumps ins val1 val2 of None \<Rightarrow> Ok s | Some jump \<Rightarrow>
     bnd (if jump then take_branch V label s else Ok s) (\<lambda>s. bnd (read_tok label s) (\<lambda>t. bnd (as_ptr (tok_data t)) (\<lambda>d. bnd (dealloc d s) (dealloc label)))))) (settled hinv hmap rinv rlist S)"
  have "tp (bnd (next_token V s) (\<lambda>(varval1, s). bnd (next_token V s) (\<lambda>(varval2, s).
            bnd (varval_get_value V varval1 s) (\<lambda>(r1, s). case r1 of None \<Rightarrow> Ok (None, s) | Some val1 \<Rightarrow>
            bnd (varval_get_value V varval2 s) (\<lambda>(r2, s). case r2 of None \<Rightarrow> Ok (None, s) | Some val2 \<Rightarrow> Ok (Some (val1, val2), s)))))) ?rest"
    unfolding tp_bnd
  proof (rule tp_next_token [OF h [unfolded w(1)]], unfold prod.case tp_bnd, rule tp_next_token, assumption, unfold prod.case tp_bnd, goal_cases)
    case (1 s1 s2)
    show ?case
    proof (rule tp_get_value [OF holdingD(5) [OF 1(3)] w(2) t(2)], unfold prod.case option.case tp_bnd, goal_cases)
      case v1: (1 S3 s3 v1)
      show ?case
      proof (rule tp_get_value [OF v1(1) sort_mono [OF v1(2) w(3)] t(3)], unfold prod.case option.case tp.simps, goal_cases)
        case v2: (1 S4 s4 v2)
        show ?case
          by (rule tp_mono [OF branch_rest_typed [OF holding_past [OF 1(3) v2(1)] sort_mono [OF map_le_trans [OF v1(2) v2(2)] w(4)]]])
            (rule settled_mono [OF map_le_trans [OF v1(2) v2(2)]])
      next
        case (2 S4 s4)
        show ?case by (rule stopped_settled [OF 1(3) 2(1,3)])
      qed
    next
      case (2 S3 s3)
      show ?case unfolding tp.simps prod.case option.case by (rule stopped_settled [OF 1(3) 2(1,3)])
    qed
  qed
  then show ?thesis unfolding branch_handler_def tp_bnd if_P [OF False] .
qed

lemma exec_handler_typed:
  assumes h: "holding hinv hmap rinv rlist S us s" and t: "toks S us tys" "args_typed i tys"
    and c: "\<And>u w t. i = LOAD_SYM \<Longrightarrow> us = [u, w] \<Longrightarrow> heap s w = Some (TokB t) \<Longrightarrow> tok_type t \<noteq> INT_VAL_TOK"
  shows "tp (exec_handler V i s) (settled hinv hmap rinv rlist S)"
proof -
  note a = toks_def list_all2_Cons1 list_all2_Cons2
  have two: "\<exists>u w x y. us = [u, w] \<and> S u = Some (TokS x) \<and> var_ty x \<and> S w = Some (TokS y) \<and> val_ty y" if "list_all2 (\<lambda>P ty. P ty) [var_ty, val_ty] tys"
    using that t(1) by (auto simp: a)
  have three: "\<exists>u w v x y z. us = [u, w, v] \<and> S u = Some (TokS x) \<and> var_ty x \<and> S w = Some (TokS y) \<and> val_ty y \<and> S v = Some (TokS z) \<and> val_ty z"
    if "list_all2 (\<lambda>P ty. P ty) [var_ty, val_ty, val_ty] tys" using that t(1) by (auto simp: a)
  have br: "\<exists>x y. tys = [x, y, LABEL_TOK] \<and> val_ty x \<and> val_ty y" if "list_all2 (\<lambda>P ty. P ty) [val_ty, val_ty, label_ty] tys"
    using that by (auto simp: list_all2_Cons1 label_ty_def)
  show ?thesis
  proof (cases i)
    case LOAD_SYM
    then show ?thesis using two t(2) c load_typed [of S _ _ s] h by auto
  next
    case STORE_SYM
    then show ?thesis using two t(2) store_typed [of S _ _ s] h by auto
  next
    case SET_SYM
    then show ?thesis using two t(2) set_typed [of S _ _ s] h by auto
  next
    case ADD_SYM
    then show ?thesis using three t(2) primitive_typed [of S _ _ _ s] h by auto
  next
    case SUB_SYM
    then show ?thesis using three t(2) primitive_typed [of S _ _ _ s] h by auto
  next
    case MUL_SYM
    then show ?thesis using three t(2) primitive_typed [of S _ _ _ s] h by auto
  next
    case DIV_SYM
    then show ?thesis using three t(2) primitive_typed [of S _ _ _ s] h by auto
  next
    case MOD_SYM
    then show ?thesis using three t(2) primitive_typed [of S _ _ _ s] h by auto
  next
    case BRGT_SYM
    then show ?thesis using br t branch_typed [OF h, of i] by fastforce
  next
    case BRGE_SYM
    then show ?thesis using br t branch_typed [OF h, of i] by fastforce
  next
    case BRLT_SYM
    then show ?thesis using br t branch_typed [OF h, of i] by fastforce
  next
    case BRLE_SYM
    then show ?thesis using br t branch_typed [OF h, of i] by fastforce
  next
    case BREQ_SYM
    then show ?thesis using br t branch_typed [OF h, of i] by fastforce
  next
    case BRA_SYM
    then have "tys = [LABEL_TOK]" using t(2) by (auto simp: list_all2_Cons1 label_ty_def)
    then show ?thesis using t(1) branch_typed [OF h, of BRA_SYM INT_VAL_TOK INT_VAL_TOK] BRA_SYM by (simp add: val_ty_def)
  next
    case DOWN_SYM
    then show ?thesis using t semaphore_typed [of S _ s] h by (auto simp: a)
  next
    case UP_SYM
    then show ?thesis using t semaphore_typed [of S _ s] h by (auto simp: a)
  next
    case SLEEP_SYM
    then show ?thesis using t sleep_typed [of S _ s] h by (auto simp: a)
  next
    case PRINT_SYM
    then show ?thesis using print_typed [OF h t(1)] t(2) by (simp del: args_typed.simps)
  next
    case RETURN_SYM
    then show ?thesis using return_typed [OF h] by simp
  qed
qed

end

end
