(* ===== verification/TypeSound.thy ===== *)
theory TypeSound imports BranchTyping begin

section \<open>Types: a line of a program\<close>

text \<open>
  \<open>interpret_next_line\<close> leads from typed states to typed states, and the only confusion of types that it can run into is the one that the scanner lets through,
  \<open>LOAD\<close> with a constant in the place of the global.
\<close>

subsection \<open>Computations that may confuse types\<close>

text \<open>\<open>C\<close> is what must be the case if they do.\<close>

definition tpc :: "bool \<Rightarrow> 'a res \<Rightarrow> ('a \<Rightarrow> bool) \<Rightarrow> bool" where
  "tpc C m Q \<longleftrightarrow> (m = Undef TypeConfusion \<longrightarrow> C) \<and> (\<forall>x. m = Ok x \<longrightarrow> Q x)"

lemma tp_tpc: "tp m Q \<Longrightarrow> tpc C m Q"
  by (simp add: tp_iff tpc_def)

lemma tpc_bnd: "tp m P \<Longrightarrow> (\<And>x. m = Ok x \<Longrightarrow> P x \<Longrightarrow> tpc C (f x) Q) \<Longrightarrow> tpc C (bnd m f) Q"
  by (cases m) (simp_all add: tpc_def)

lemma tpc_then: "tpc C m P \<Longrightarrow> (\<And>x. P x \<Longrightarrow> tp (f x) Q) \<Longrightarrow> tpc C (bnd m f) Q"
  by (cases m) (auto simp: tpc_def tp_iff)

lemma tpc_Ok: "Q x \<Longrightarrow> tpc C (Ok x) Q"
  by (simp add: tpc_def)

text \<open>The line that has been scanned is a \<open>LOAD\<close> whose second argument is a constant.\<close>

definition loads_constant :: "('r \<Rightarrow> addr list) \<Rightarrow> ('h, 'r) st \<Rightarrow> bool" where
  "loads_constant rlist s \<longleftrightarrow> (\<exists>ls u v w t t'. rlist (translated_line s) = ls @ [u, v, w] \<and>
     heap s u = Some (TokB t) \<and> tok_type t = INSTRUCTION_TOK \<and> tok_data t = Value (word_of_nat (ins_code LOAD_SYM)) \<and>
     heap s w = Some (TokB t') \<and> tok_type t' = INT_VAL_TOK)"

lemma loads_constantI:
  "rlist (translated_line s) = ls @ [u, v, w] \<Longrightarrow> heap s u = Some (TokB t) \<Longrightarrow> tok_type t = INSTRUCTION_TOK \<Longrightarrow>
    tok_data t = Value (word_of_nat (ins_code LOAD_SYM)) \<Longrightarrow> heap s w = Some (TokB t') \<Longrightarrow> tok_type t' = INT_VAL_TOK \<Longrightarrow> loads_constant rlist s"
  unfolding loads_constant_def by blast

subsection \<open>A scanned line\<close>

text \<open>A block that is live after the label has been entered was there before.\<close>

lemma insert_label_older:
  assumes "insert_label_to_vartable V u s = Ok (l, s')" and "a < fresh s" and "heap s' a = Some b"
  shows "heap s a = Some b"
proof -
  obtain t key k where t: "read_tok u s = Ok t" "as_ptr (tok_data t) = Ok key"
      "read_str key (s\<lparr>heap := (heap s)(fresh s \<mapsto> LabelB \<lparr>lbl_placeholder = -1, lbl_line = tok_line t, lbl_column = tok_column t,
         lbl_prev_col = tok_prev_col t, lbl_offset = tok_offset t\<rparr>), fresh := Suc (fresh s)\<rparr>) = Ok k"
    using assms(1) by (auto simp: insert_label_to_vartable_def bnd_eq_Ok alloc_def)
  obtain h tmp e where q: "qh_insert V (vartable s) k key (fresh s) = (h, tmp, e)" by (cases "qh_insert V (vartable s) k key (fresh s)")
  show ?thesis
    using assms by (auto simp: insert_label_to_vartable_def alloc_def t q Let_def bnd_eq_Ok dealloc_def err_msg_def program_stop_def set_parser_idx_def
        reset_parser_idx_def split: prod.splits option.splits if_splits)
qed

lemma dealloc_older: "dealloc x s = Ok s' \<Longrightarrow> heap s' a = Some b \<Longrightarrow> heap s a = Some b"
  by (auto simp: dealloc_def split: option.splits if_splits)

context voids_handles
begin

lemma load_const:
  assumes h: "holding hinv hmap rinv rlist S [u, w] s" and w: "S w = Some (TokS INT_VAL_TOK)"
    and c: "\<And>t. heap s w = Some (TokB t) \<Longrightarrow> tok_type t = INT_VAL_TOK \<Longrightarrow> C"
  shows "tpc C (load_handler V s) Q"
proof -
  obtain s1 where s1: "ring_read V s = (u, VDS_SUCCESS, s1)" "holding hinv hmap rinv rlist S [w] s1" "heap s1 = heap s" using ring_read_Cons [OF h] by blast
  obtain s2 where s2: "ring_read V s1 = (w, VDS_SUCCESS, s2)" "holding hinv hmap rinv rlist S [] s2" "heap s2 = heap s1" using ring_read_Cons [OF s1(2)] by blast
  have "\<not> (\<exists>x. global_key V w s2 = Ok x) \<and> (global_key V w s2 = Undef TypeConfusion \<longrightarrow> C)"
  proof (cases "heap s2 w")
    case (Some b)
    then obtain k where "S w = Some k" "block_ok S k b" using conf_mem [OF holdingD(1) [OF s2(2)]] unfolding mem_conf_def by blast
    then obtain t where t: "b = TokB t" "tok_type t = INT_VAL_TOK" "data_ok S INT_VAL_TOK (tok_data t)" using w by (cases b) auto
    have C using c s1(3) s2(3) Some t(1,2) by simp
    moreover have "\<not> (\<exists>x. as_ptr (tok_data t) = Ok x)" using t(3) by (cases "tok_data t") simp_all
    ultimately show ?thesis using Some t by (auto simp: global_key_def read_tok_def deref_def bnd_eq_Ok split: if_splits)
  qed (simp add: global_key_def read_tok_def deref_def)
  then show ?thesis using s1(1) s2(1) by (cases "global_key V w s2") (auto simp: load_handler_def next_token_def tpc_def)
qed

text \<open>The instruction, behind the label if there is one.\<close>

lemma instr_typed:
  assumes h: "holding hinv hmap rinv rlist S vs s" and u: "S u = Some (InsS i)" and t: "toks S vs tys" "args_typed i tys"
    and c: "\<And>v w t t'. vs = [v, w] \<Longrightarrow> heap s u = Some (TokB t) \<Longrightarrow> tok_type t = INSTRUCTION_TOK \<Longrightarrow> tok_data t = Value (word_of_nat (ins_code LOAD_SYM)) \<Longrightarrow>
      heap s w = Some (TokB t') \<Longrightarrow> tok_type t' = INT_VAL_TOK \<Longrightarrow> C"
  shows "tpc C (bnd (read_tok u s) (\<lambda>t. bnd (as_value (tok_data t)) (\<lambda>code. bnd (free_token u s) (\<lambda>s.
      if unat code < length instructions then exec_handler V (instructions ! unat code) s else Exit)))) (settled hinv hmap rinv rlist S)"
proof (rule tpc_bnd)
  have k: "ptr S (InsS i) u" "is_tok (InsS i)" using u by (simp_all add: ptr_def)
  show "tp (read_tok u s) (\<lambda>t. heap s u = Some (TokB t) \<and> tok_ok S (InsS i) t)"
    by (rule tp_read_tok [OF conf_mem [OF holdingD(1) [OF h]] k]) blast
  fix t0 assume "heap s u = Some (TokB t0) \<and> tok_ok S (InsS i) t0"
  then have t0: "heap s u = Some (TokB t0)" "tok_type t0 = INSTRUCTION_TOK" "tok_data t0 = Uninit \<or> tok_data t0 = Value (word_of_nat (ins_code i))" by simp_all
  let ?s = "s\<lparr>heap := (heap s)(u := None)\<rparr>"
  have un: "u \<noteq> NULL" using conf_mem [OF holdingD(1) [OF h]] u by (cases "u = NULL") (simp_all add: mem_conf_def)
  have fr: "free_token u s = Ok ?s" using t0(1,2) un by (simp add: free_token_def read_tok_def deref_def dealloc_def)
  have h1: "holding hinv hmap rinv rlist S vs ?s" by (rule holding_past [OF h past_old_heap [OF holdingD(5) [OF h] mem_release [OF conf_mem [OF holdingD(1) [OF h]]]]])
  have code: "unat (word_of_nat (ins_code i) :: 32 word) = ins_code i" using ins_code_lt(1) [of i] by (cases i) simp_all
  show "tpc C (bnd (as_value (tok_data t0)) (\<lambda>code. bnd (free_token u s) (\<lambda>s. if unat code < length instructions then exec_handler V (instructions ! unat code) s else Exit)))
      (settled hinv hmap rinv rlist S)"
  proof (cases "tok_data t0 = Uninit")
    case False
    then have d: "tok_data t0 = Value (word_of_nat (ins_code i))" using t0(3) by blast
    have "tpc C (exec_handler V i ?s) (settled hinv hmap rinv rlist S)"
    proof (cases "i = LOAD_SYM \<and> tys ! 1 = INT_VAL_TOK")
      case True
      then obtain v w x where w: "vs = [v, w]" "S w = Some (TokS INT_VAL_TOK)" using t by (auto simp: toks_def list_all2_Cons1 list_all2_Cons2)
      have "tpc C (load_handler V ?s) (settled hinv hmap rinv rlist S)"
        by (rule load_const [OF h1 [unfolded w(1)] w(2)]) (use c [OF w(1) t0(1,2)] d True in \<open>auto split: if_splits\<close>)
      then show ?thesis using True by simp
    next
      case False
      have nc: "tok_type t' \<noteq> INT_VAL_TOK" if a: "i = LOAD_SYM" "vs = [v, w]" "heap ?s w = Some (TokB t')" for v w t'
      proof -
        obtain x y where "tys = [x, y]" "S w = Some (TokS y)" using t a(1,2) by (auto simp: toks_def list_all2_Cons1)
        then show ?thesis using False a(1) typed_tok [OF holdingD(1) [OF h1] _ a(3)] by simp
      qed
      show ?thesis by (rule tp_tpc, rule exec_handler_typed [OF h1 t], erule nc)
    qed
    then show ?thesis using d fr code ins_code_lt [of i] by simp
  qed (simp add: tpc_def)
qed

lemma exec_line_typed:
  assumes h: "holding hinv hmap rinv rlist S us s" and l: "line_typed S us"
  shows "tpc (loads_constant rlist s) (exec_instruction_line V s) (settled hinv hmap rinv rlist S)"
proof (cases "us = []")
  case True
  have "past hinv hmap rinv rlist S s S (s\<lparr>pstate := FINISHED\<rparr>)" by (rule past_fields [OF holdingD(5) [OF h]]) simp_all
  from stopped_settled [OF h this] show ?thesis
    using ring_read_Nil [OF h [unfolded True]] by (simp add: exec_instruction_line_def tpc_def)
next
  case False
  then obtain ls u i vs tys where us: "us = ls @ u # vs" "ls = [] \<or> (\<exists>l. ls = [l] \<and> S l = Some (TokS LABEL_TOK))" and u: "S u = Some (InsS i)"
    and t: "toks S vs tys" "args_typed i tys" using l unfolding line_typed_def by blast
  have ring: "rlist (translated_line s) = ls @ u # vs" using holdingD(4) [OF h] us(1) by simp
  have nn: "x \<noteq> NULL" if "S x = Some k" for x k
    using conf_mem [OF holdingD(1) [OF h]] that by (cases "x = NULL") (simp_all add: mem_conf_def)
  note const = loads_constantI [where s = s and rlist = rlist and ls = ls and u = u]
  show ?thesis
  proof (cases ls)
    case Nil
    obtain s1 where s1: "ring_read V s = (u, VDS_SUCCESS, s1)" "holding hinv hmap rinv rlist S vs s1" "heap s1 = heap s"
      using ring_read_Cons [of S u vs s] h us(1) Nil by auto
    have "tp (read_tok u s1) (\<lambda>t. tok_type t = INSTRUCTION_TOK)"
      by (rule tp_read_tok [OF conf_mem [OF holdingD(1) [OF s1(2)]], where k = "InsS i"]) (use u in \<open>simp_all add: ptr_def\<close>)
    then have "tpc (loads_constant rlist s) (bnd (read_tok u s1) (\<lambda>t. bnd (if tok_type t = LABEL_TOK then bnd (insert_label_to_vartable V u s1) (\<lambda>(lbl, s). if lbl = NULL then Ok (None, s)
        else bnd (dealloc u s) (\<lambda>s. case ring_read V s of (tok, e, s) \<Rightarrow> Ok (Some tok, s))) else Ok (Some u, s1)) (\<lambda>(instruction_tok, s). case instruction_tok of None \<Rightarrow> Ok s
       | Some tok \<Rightarrow> bnd (read_tok tok s) (\<lambda>t. bnd (as_value (tok_data t)) (\<lambda>code. bnd (free_token tok s) (\<lambda>s.
           if unat code < length instructions then exec_handler V (instructions ! unat code) s else Exit)))))) (settled hinv hmap rinv rlist S)"
    proof (rule tpc_bnd)
      fix t0 assume "tok_type t0 = INSTRUCTION_TOK"
      moreover have "tpc (loads_constant rlist s) (bnd (read_tok u s1) (\<lambda>t. bnd (as_value (tok_data t)) (\<lambda>code. bnd (free_token u s1) (\<lambda>s.
           if unat code < length instructions then exec_handler V (instructions ! unat code) s else Exit)))) (settled hinv hmap rinv rlist S)"
        by (rule instr_typed [OF s1(2) u t], rule const) (use ring s1(3) in auto)
      ultimately show "tpc (loads_constant rlist s) (bnd (if tok_type t0 = LABEL_TOK then bnd (insert_label_to_vartable V u s1) (\<lambda>(lbl, s). if lbl = NULL then Ok (None, s)
        else bnd (dealloc u s) (\<lambda>s. case ring_read V s of (tok, e, s) \<Rightarrow> Ok (Some tok, s))) else Ok (Some u, s1)) (\<lambda>(instruction_tok, s). case instruction_tok of None \<Rightarrow> Ok s
       | Some tok \<Rightarrow> bnd (read_tok tok s) (\<lambda>t. bnd (as_value (tok_data t)) (\<lambda>code. bnd (free_token tok s) (\<lambda>s.
           if unat code < length instructions then exec_handler V (instructions ! unat code) s else Exit))))) (settled hinv hmap rinv rlist S)" by simp
    qed
    then show ?thesis using s1(1) nn [OF u] by (simp add: exec_instruction_line_def)
  next
    case (Cons l0 ls')
    then have l: "ls = [l0]" "S l0 = Some (TokS LABEL_TOK)" using us(2) by auto
    obtain s1 where s1: "ring_read V s = (l0, VDS_SUCCESS, s1)" "holding hinv hmap rinv rlist S (u # vs) s1" "heap s1 = heap s" "fresh s1 = fresh s"
      using ring_read_Cons [of S l0 "u # vs" s] h us(1) l(1) by auto
    have lt: "x < fresh s1" if "S x = Some k" for x k
      using conf_mem [OF holdingD(1) [OF s1(2)]] that unfolding mem_conf_def by (metis not_le option.distinct(1))
    let ?ins = "\<lambda>(instruction_tok, s). case instruction_tok of None \<Rightarrow> Ok s | Some tok \<Rightarrow> bnd (read_tok tok s) (\<lambda>t. bnd (as_value (tok_data t)) (\<lambda>code. bnd (free_token tok s) (\<lambda>s.
           if unat code < length instructions then exec_handler V (instructions ! unat code) s else Exit)))"
    have "tpc (loads_constant rlist s) (bnd (bnd (insert_label_to_vartable V l0 s1) (\<lambda>(lbl, s). if lbl = NULL then Ok (None, s)
        else bnd (dealloc l0 s) (\<lambda>s. case ring_read V s of (tok, e, s) \<Rightarrow> Ok (Some tok, s)))) ?ins) (settled hinv hmap rinv rlist S)"
      unfolding bnd_assoc
    proof (rule tpc_bnd)
      show "tp (insert_label_to_vartable V l0 s1) (\<lambda>(l, s2). \<exists>S2. past hinv hmap rinv rlist S s1 S2 s2 \<and> S \<subseteq>\<^sub>m S2 \<and> (l = NULL \<longrightarrow> pstate s2 = FINISHED))"
        by (rule tp_insert_label [OF holdingD(5) [OF s1(2)] l(2)]) auto
      fix x assume x: "insert_label_to_vartable V l0 s1 = Ok x" "case x of (l, s2) \<Rightarrow> \<exists>S2. past hinv hmap rinv rlist S s1 S2 s2 \<and> S \<subseteq>\<^sub>m S2 \<and> (l = NULL \<longrightarrow> pstate s2 = FINISHED)"
      obtain l1 s2 where x1: "x = (l1, s2)" by (cases x)
      obtain S2 where s2: "past hinv hmap rinv rlist S s1 S2 s2" "S \<subseteq>\<^sub>m S2" "l1 = NULL \<longrightarrow> pstate s2 = FINISHED" using x(2) x1 by auto
      show "tpc (loads_constant rlist s) (bnd (case x of (lbl, s) \<Rightarrow> if lbl = NULL then Ok (None, s)
        else bnd (dealloc l0 s) (\<lambda>s. case ring_read V s of (tok, e, s) \<Rightarrow> Ok (Some tok, s))) ?ins) (settled hinv hmap rinv rlist S)"
      proof (cases "l1 = NULL")
        case True
        then show ?thesis using stopped_settled [OF s1(2) s2(1)] s2(3) x1 by (simp add: tpc_def)
      next
        case False
        have "tpc (loads_constant rlist s) (bnd (dealloc l0 s2) (\<lambda>s. bnd (case ring_read V s of (tok, e, s) \<Rightarrow> Ok (Some tok, s)) ?ins)) (settled hinv hmap rinv rlist S)"
        proof (rule tpc_bnd)
          show "tp (dealloc l0 s2) (\<lambda>s3. past hinv hmap rinv rlist S s1 S2 s3)" by (rule tp_dealloc [OF s2(1)])
          fix s3 assume s3: "dealloc l0 s2 = Ok s3" "past hinv hmap rinv rlist S s1 S2 s3"
          obtain s4 where s4: "ring_read V s3 = (u, VDS_SUCCESS, s4)" "holding hinv hmap rinv rlist S2 vs s4" "heap s4 = heap s3"
            using ring_read_Cons [OF holding_past [OF s1(2) s3(2)]] by blast
          have old: "heap s x = Some b" if "heap s4 x = Some b" "x < fresh s1" for x b
            using insert_label_older [OF x(1) [unfolded x1] that(2)] dealloc_older [OF s3(1)] that(1) s4(3) s1(3) by simp
          have "tpc (loads_constant rlist s) (bnd (read_tok u s4) (\<lambda>t. bnd (as_value (tok_data t)) (\<lambda>code. bnd (free_token u s4) (\<lambda>s.
              if unat code < length instructions then exec_handler V (instructions ! unat code) s else Exit)))) (settled hinv hmap rinv rlist S2)"
          proof (rule instr_typed [OF s4(2) sort_mono [OF s2(2) u] toks_mono [OF s2(2) t(1)] t(2)])
            fix v w t0 t' assume a: "vs = [v, w]" "heap s4 u = Some (TokB t0)" "tok_type t0 = INSTRUCTION_TOK" "tok_data t0 = Value (word_of_nat (ins_code LOAD_SYM))"
              "heap s4 w = Some (TokB t')" "tok_type t' = INT_VAL_TOK"
            obtain k where "S w = Some k" using t(1) a(1) by (auto simp: toks_def list_all2_Cons1)
            then show "loads_constant rlist s" using const [OF _ old [OF a(2) lt [OF u]] a(3,4) old [OF a(5) lt] a(6)] ring a(1) by simp
          qed
          then show "tpc (loads_constant rlist s) (bnd (case ring_read V s3 of (tok, e, s) \<Rightarrow> Ok (Some tok, s)) ?ins) (settled hinv hmap rinv rlist S)"
            using s4(1) settled_mono [OF s2(2)] by (auto simp: tpc_def)
        qed
        then show ?thesis using False x1 by simp
      qed
    qed
    then have ins: "tpc (loads_constant rlist s) (bnd (if tok_type t0 = LABEL_TOK then bnd (insert_label_to_vartable V l0 s1) (\<lambda>(lbl, s). if lbl = NULL then Ok (None, s)
        else bnd (dealloc l0 s) (\<lambda>s. case ring_read V s of (tok, e, s) \<Rightarrow> Ok (Some tok, s))) else Ok (Some l0, s1)) ?ins) (settled hinv hmap rinv rlist S)"
      if "tok_type t0 = LABEL_TOK" for t0 unfolding if_P [OF that] .
    have "tp (read_tok l0 s1) (\<lambda>t. tok_type t = LABEL_TOK)"
      by (rule tp_read_tok [OF conf_mem [OF holdingD(1) [OF s1(2)]], where k = "TokS LABEL_TOK"]) (use l(2) in \<open>simp_all add: ptr_def\<close>)
    then have "tpc (loads_constant rlist s) (bnd (read_tok l0 s1) (\<lambda>t. bnd (if tok_type t = LABEL_TOK then bnd (insert_label_to_vartable V l0 s1) (\<lambda>(lbl, s). if lbl = NULL then Ok (None, s)
        else bnd (dealloc l0 s) (\<lambda>s. case ring_read V s of (tok, e, s) \<Rightarrow> Ok (Some tok, s))) else Ok (Some l0, s1)) ?ins)) (settled hinv hmap rinv rlist S)"
      by (rule tpc_bnd) (rule ins)
    then show ?thesis using s1(1) nn [OF l(2)] by (simp add: exec_instruction_line_def)
  qed
qed

end

subsection \<open>The magic line\<close>

lemma magic_loop_typed:
  assumes "no_lvar (fbuf s)" and "0 < n \<or> cursor_ok s"
  shows "tp (magic_loop i n s) (\<lambda>(f, s'). quiet s s' \<and> cursor_ok s' \<and> (f \<or> pstate s' = FINISHED))"
  using assms
proof (induction i n s rule: magic_loop.induct)
  case (1 i s)
  then show ?case by (simp add: quiet_refl)
next
  case (2 i n s)
  let ?s1 = "next_char s"
  have c1: "cursor_ok ?s1" by (rule cursor_next [OF 2(2)])
  have stop: "cursor_ok (program_stop b ?s1)" for b by (rule cursor_cong [OF c1]) (simp_all add: program_stop_def)
  show ?case
  proof (cases "c_in ?s1 = EOF")
    case True
    have "quiet s (program_stop False ?s1)" by (rule quiet_trans [OF quiet_next quiet_upd(4)])
    then show ?thesis using True stop [of False] by (simp add: Let_def program_stop_def)
  next
    case False
    have q: "quiet s (?s1\<lparr>input := f\<rparr>)" for f by (rule quiet_trans [OF quiet_next quiet_upd(2)])
    have "tp (magic_loop (Suc i) n (?s1\<lparr>input := f\<rparr>)) (\<lambda>(f, s'). quiet s s' \<and> cursor_ok s' \<and> (f \<or> pstate s' = FINISHED))" if pf: "put_input i (c_in ?s1) ?s1 = Ok (?s1\<lparr>input := f\<rparr>)" for f
    proof (rule tp_mono [OF 2(1) [OF refl False pf]])
      show "no_lvar (fbuf (?s1\<lparr>input := f\<rparr>))" "0 < n \<or> cursor_ok (?s1\<lparr>input := f\<rparr>)"
        using 2(2) c1 by (simp_all add: next_char_same cursor_ok_def)
    qed (use pf quiet_trans [OF q] in \<open>auto split: prod.splits\<close>)
    then show ?thesis using False by (auto simp: Let_def put_input_def)
  qed
qed

lemma magic_typed:
  assumes "no_lvar (fbuf s)"
  shows "tp (parse_magic s) (\<lambda>s'. quiet s s' \<and> cursor_ok s' \<and> reads s')"
  unfolding parse_magic_def tp_bnd
proof (rule tp_mono [OF magic_loop_typed [OF assms]], simp, clarify, goal_cases)
  case (1 f s1)
  have q: "quiet s (t\<lparr>pstate := p\<rparr>) \<and> cursor_ok (t\<lparr>pstate := p\<rparr>)" "quiet s (die m t) \<and> cursor_ok (die m t)" if t: "quiet s t" "cursor_ok t" for t p m
    using quiet_trans [OF t(1) quiet_upd(1)] quiet_trans [OF t(1) quiet_die(1)] t(2) cursor_cong [OF t(2), of "die m t"]
    by (auto simp: cursor_ok_def die_def err_msg_def program_stop_def split: prod.splits)
  let ?s2 = "s1\<lparr>input := (input s1)(length magic_bytes := to_char 0)\<rparr>"
  let ?s3 = "if input_eq (input ?s2) 0 magic_bytes then ?s2 else die MNotSimbly ?s2"
  have s2: "quiet s ?s2" "cursor_ok ?s2" using quiet_trans [OF 1(1) quiet_upd(2)] 1(2) by (simp_all add: cursor_ok_def)
  have s3: "quiet s ?s3" "cursor_ok ?s3" using s2 q(2) [OF s2] by simp_all
  obtain r s4 where f: "flush_up_to_char ?s3 = (r, s4)" by (cases "flush_up_to_char ?s3")
  have s4: "quiet s s4" "cursor_ok s4"
    using quiet_trans [OF s3(1) quiet_flush_char] flush_char_cursor [of ?s3] s3(2) unfolding f by (simp_all add: cursor_ok_def)
  have put: "put_input (length magic_bytes) 0 s1 = Ok ?s2" by (simp add: put_input_def magic_bytes_def limit_defs)
  show ?case
    unfolding put tp_bnd using 1 q [OF s3] q [OF s4] f by (auto simp: Let_def)
qed

subsection \<open>The step of the interpreter\<close>

text \<open>Whatever the state, a well typed one between two lines: the ring buffer is empty unless the program is over.\<close>

definition well_typed :: "('h \<Rightarrow> bool) \<Rightarrow> ('h \<Rightarrow> pairs) \<Rightarrow> ('r \<Rightarrow> bool) \<Rightarrow> ('r \<Rightarrow> addr list) \<Rightarrow> sorts \<Rightarrow> ('h, 'r) st \<Rightarrow> bool" where
  "well_typed hinv hmap rinv rlist S s \<longleftrightarrow> conf hinv hmap rinv rlist S s \<and> no_lvar (fbuf s) \<and> (pstate s \<noteq> MAGIC_LINE \<longrightarrow> pstate s \<noteq> FINISHED \<longrightarrow> cursor_ok s) \<and> sem_conf S s \<and>
     (pstate s \<noteq> FINISHED \<longrightarrow> rlist (translated_line s) = [])"

text \<open>What \<open>interpret_next_line\<close> does before it executes.\<close>

definition scan_phase :: "('h, 'p, 'r) voids \<Rightarrow> ('h, 'r) st \<Rightarrow> ('h, 'r) st res" where
  "scan_phase V s = (case pstate s of
     MAGIC_LINE \<Rightarrow> bnd (parse_magic s) (\<lambda>s. if pstate s = FINISHED then Ok s else tokenize_next_line V s)
   | INSTRUCTION_LINE \<Rightarrow> tokenize_next_line V s
   | _ \<Rightarrow> Ok s)"

lemma settled_typed: "settled hinv hmap rinv rlist S s \<Longrightarrow> \<exists>S'. S \<subseteq>\<^sub>m S' \<and> well_typed hinv hmap rinv rlist S' s"
  unfolding settled_def well_typed_def cursor_ok_def by blast

lemma settled_end: "settled hinv hmap rinv rlist S s \<Longrightarrow> settled hinv hmap rinv rlist S (if pstate s = LAST_LINE then s\<lparr>pstate := FINISHED\<rparr> else s)"
proof -
  assume "settled hinv hmap rinv rlist S s"
  then obtain S' where S': "S \<subseteq>\<^sub>m S'" "conf hinv hmap rinv rlist S' s" "cursor_ok s" "settled hinv hmap rinv rlist S s" unfolding settled_def by blast
  have "settled hinv hmap rinv rlist S (s\<lparr>pstate := FINISHED\<rparr>)"
    by (rule settledI [OF S'(1) conf_cong [OF S'(2)] cursor_cong [OF S'(3)]]) (simp_all add: sem_conf_def)
  then show ?thesis using S'(4) by simp
qed

context voids_handles
begin

text \<open>What the scanner leaves: a state that is not to be executed, or a line.\<close>

lemma scan_phase_typed:
  assumes w: "well_typed hinv hmap rinv rlist S s"
  shows "tp (scan_phase V s) (\<lambda>s1. if pstate s1 = INSTRUCTION_LINE \<or> pstate s1 = LAST_LINE
    then \<exists>S1 us. S \<subseteq>\<^sub>m S1 \<and> holding hinv hmap rinv rlist S1 us s1 \<and> line_typed S1 us else \<exists>S1. S \<subseteq>\<^sub>m S1 \<and> well_typed hinv hmap rinv rlist S1 s1)"
    (is "tp _ ?Q")
proof -
  note t = w [unfolded well_typed_def]
  have tok: "tp (tokenize_next_line V t) ?Q"
    if a: "conf hinv hmap rinv rlist S t" "cursor_ok t" "reads t" "rlist (translated_line t) = []" for t
  proof (rule tp_mono [OF tokenize_typed [OF a(1-3)]])
    fix s1 assume "\<exists>S' us. lexed hinv hmap rinv rlist S t S' s1 us \<and> (pstate s1 = FINISHED \<or> line_typed S' us)"
    then obtain S1 us where l: "lexed hinv hmap rinv rlist S t S1 s1 us" "pstate s1 = FINISHED \<or> line_typed S1 us" by blast
    have h: "holding hinv hmap rinv rlist S1 us s1" using lexedD [OF l(1)] a(4) by (simp add: holding_def)
    show "?Q s1"
    proof (cases "pstate s1 = INSTRUCTION_LINE \<or> pstate s1 = LAST_LINE")
      case True
      then show ?thesis using l h lexedD(1) [OF l(1)] by auto
    next
      case False
      have "pstate s1 = FINISHED" using False holdingD(3) [OF h] by auto
      then show ?thesis using lexedD [OF l(1)] by (auto simp: well_typed_def sem_conf_def cursor_ok_def)
    qed
  qed
  show ?thesis
  proof (cases "pstate s = MAGIC_LINE")
    case True
    have "tp (bnd (parse_magic s) (\<lambda>s. if pstate s = FINISHED then Ok s else tokenize_next_line V s)) ?Q"
      unfolding tp_bnd
    proof (rule tp_mono [OF magic_typed])
      show "no_lvar (fbuf s)" using t by blast
      fix s1 assume s1: "quiet s s1 \<and> cursor_ok s1 \<and> reads s1"
      have c: "conf hinv hmap rinv rlist S s1" by (rule conf_cong) (use t s1 in \<open>auto simp: quiet_def sframe_def\<close>)
      have "rlist (translated_line s1) = []" using t s1 True by (auto simp: quiet_def)
      then have "tp (tokenize_next_line V s1) ?Q" using tok [OF c] s1 by blast
      moreover have "well_typed hinv hmap rinv rlist S s1" if "pstate s1 = FINISHED" using c s1 that by (auto simp: well_typed_def sem_conf_def cursor_ok_def)
      then have "?Q s1" if "pstate s1 = FINISHED" using that by (intro iffD2 [OF if_not_P] exI [of _ S]) auto
      ultimately show "tp (if pstate s1 = FINISHED then Ok s1 else tokenize_next_line V s1) ?Q" by auto
    qed
    then show ?thesis using True by (simp add: scan_phase_def)
  next
    case False
    then have c: "pstate s \<noteq> FINISHED \<Longrightarrow> cursor_ok s" using t by blast
    show ?thesis
    proof (cases "pstate s = INSTRUCTION_LINE")
      case True
      then show ?thesis using tok [of s] t c by (simp add: scan_phase_def)
    next
      case no: False
      have "?Q s"
      proof (cases "pstate s = LAST_LINE")
        case True
        then have "holding hinv hmap rinv rlist S [] s" using t c by (simp add: holding_def)
        moreover have "line_typed S []" by (simp add: line_typed_def)
        ultimately have "\<exists>S1 us. S \<subseteq>\<^sub>m S1 \<and> holding hinv hmap rinv rlist S1 us s \<and> line_typed S1 us" by (intro exI [of _ S] exI [of _ "[]"]) simp
        then show ?thesis using True by auto
      next
        case False
        then show ?thesis using no w map_le_refl [of S] by (intro iffD2 [OF if_not_P] exI [of _ S]) simp_all
      qed
      moreover have "scan_phase V s = Ok s" using no False by (cases "pstate s") (simp_all add: scan_phase_def)
      ultimately show ?thesis by simp
    qed
  qed
qed

lemma interpret_typed:
  assumes w: "well_typed hinv hmap rinv rlist S s"
  shows "tpc (\<exists>s1. scan_phase V s = Ok s1 \<and> loads_constant rlist s1) (interpret_next_line V s) (\<lambda>s'. \<exists>S'. S \<subseteq>\<^sub>m S' \<and> well_typed hinv hmap rinv rlist S' s')"
    (is "tpc ?C _ ?Q")
proof -
  have eq: "interpret_next_line V s = bnd (scan_phase V s) (\<lambda>s. if pstate s = INSTRUCTION_LINE \<or> pstate s = LAST_LINE
      then bnd (exec_instruction_line V s) (\<lambda>s. Ok (if pstate s = LAST_LINE then s\<lparr>pstate := FINISHED\<rparr> else s)) else Ok s)"
    unfolding interpret_next_line_def scan_phase_def ..
  show ?thesis unfolding eq
  proof (rule tpc_bnd [OF scan_phase_typed [OF w]])
    fix s1 assume s1: "scan_phase V s = Ok s1" "if pstate s1 = INSTRUCTION_LINE \<or> pstate s1 = LAST_LINE
      then \<exists>S1 us. S \<subseteq>\<^sub>m S1 \<and> holding hinv hmap rinv rlist S1 us s1 \<and> line_typed S1 us else \<exists>S1. S \<subseteq>\<^sub>m S1 \<and> well_typed hinv hmap rinv rlist S1 s1"
    show "tpc ?C (if pstate s1 = INSTRUCTION_LINE \<or> pstate s1 = LAST_LINE
      then bnd (exec_instruction_line V s1) (\<lambda>s. Ok (if pstate s = LAST_LINE then s\<lparr>pstate := FINISHED\<rparr> else s)) else Ok s1) ?Q"
    proof (cases "pstate s1 = INSTRUCTION_LINE \<or> pstate s1 = LAST_LINE")
      case True
      then obtain S1 us where l: "S \<subseteq>\<^sub>m S1" "holding hinv hmap rinv rlist S1 us s1" "line_typed S1 us" using s1(2) by auto
      have fin: "tp (Ok (if pstate t = LAST_LINE then t\<lparr>pstate := FINISHED\<rparr> else t)) ?Q" if "settled hinv hmap rinv rlist S1 t" for t
        using settled_typed [OF settled_mono [OF l(1) settled_end [OF that]]] by simp
      have "tpc (loads_constant rlist s1) (bnd (exec_instruction_line V s1) (\<lambda>s. Ok (if pstate s = LAST_LINE then s\<lparr>pstate := FINISHED\<rparr> else s))) ?Q"
        by (rule tpc_then [OF exec_line_typed [OF l(2,3)]]) (rule fin)
      then have "tpc ?C (bnd (exec_instruction_line V s1) (\<lambda>s. Ok (if pstate s = LAST_LINE then s\<lparr>pstate := FINISHED\<rparr> else s))) ?Q"
        using s1(1) by (auto simp: tpc_def)
      then show ?thesis using True by simp
    next
      case False
      then show ?thesis using s1(2) by (simp add: tpc_Ok)
    qed
  qed
qed

end

end
