(* ===== verification/WorldTyping.thy ===== *)
theory WorldTyping imports TypeSound Process begin

section \<open>Types: the whole process\<close>

text \<open>
  The programs of the runtimes share the heap and the table of the globals, so one typing serves them all.  Every step of a thread and every
  command keeps the world typed, and a confusion of types comes only from a line that loads a constant.
\<close>

subsection \<open>A program and what is shared\<close>

definition shared_typed :: "('h \<Rightarrow> bool) \<Rightarrow> ('h \<Rightarrow> pairs) \<Rightarrow> sorts \<Rightarrow> ('h, 'r) shared \<Rightarrow> bool" where
  "shared_typed hinv hmap S m \<longleftrightarrow> mem_conf S (sh_heap m) (sh_fresh m) \<and> globs_conf hinv hmap S (sh_gtab m) \<and> itab_ok hinv hmap (sh_itable m)"

definition prog_typed :: "('h \<Rightarrow> bool) \<Rightarrow> ('h \<Rightarrow> pairs) \<Rightarrow> ('r \<Rightarrow> bool) \<Rightarrow> ('r \<Rightarrow> addr list) \<Rightarrow> sorts \<Rightarrow> ('h, 'r) program_s \<Rightarrow> bool" where
  "prog_typed hinv hmap rinv rlist S p \<longleftrightarrow> prog_conf hinv hmap rinv rlist S p \<and> no_lvar (fbuf p) \<and> (pstate p \<noteq> MAGIC_LINE \<longrightarrow> pstate p \<noteq> FINISHED \<longrightarrow> cursor_ok p) \<and> sem_conf S p \<and>
     (pstate p \<noteq> FINISHED \<longrightarrow> rlist (translated_line p) = [])"

definition world_typed :: "('h \<Rightarrow> bool) \<Rightarrow> ('h \<Rightarrow> pairs) \<Rightarrow> ('r \<Rightarrow> bool) \<Rightarrow> ('r \<Rightarrow> addr list) \<Rightarrow> ('h, 'r, 'l) world \<Rightarrow> bool" where
  "world_typed hinv hmap rinv rlist w \<longleftrightarrow> (\<exists>S. shared_typed hinv hmap S (shm w) \<and> (\<forall>a p. progs w a = Some p \<longrightarrow> prog_typed hinv hmap rinv rlist S p))"

lemma typed_load: "well_typed hinv hmap rinv rlist S (load_prog p m) \<longleftrightarrow> prog_typed hinv hmap rinv rlist S p \<and> shared_typed hinv hmap S m"
  by (auto simp: well_typed_def prog_typed_def shared_typed_def conf_def prog_conf_def sem_conf_def cursor_ok_def load_prog_def program_s.defs)

lemma typed_unload: "well_typed hinv hmap rinv rlist S s \<longleftrightarrow> prog_typed hinv hmap rinv rlist S (prog_of s) \<and> shared_typed hinv hmap S (shared_of s)"
  using typed_load [of hinv hmap rinv rlist S "prog_of s" "shared_of s"] by simp

lemma prog_typed_mono: "S \<subseteq>\<^sub>m S' \<Longrightarrow> prog_typed hinv hmap rinv rlist S p \<Longrightarrow> prog_typed hinv hmap rinv rlist S' p"
  unfolding prog_typed_def sem_conf_def using prog_mono ptr_mono by blast

lemma world_typedI:
  "shared_typed hinv hmap S (shm w) \<Longrightarrow> (\<And>a p. progs w a = Some p \<Longrightarrow> prog_typed hinv hmap rinv rlist S p) \<Longrightarrow> world_typed hinv hmap rinv rlist w"
  unfolding world_typed_def by blast

lemma world_typedE:
  assumes "world_typed hinv hmap rinv rlist w"
  obtains S where "shared_typed hinv hmap S (shm w)" "\<And>a p. progs w a = Some p \<Longrightarrow> prog_typed hinv hmap rinv rlist S p"
  using assms unfolding world_typed_def by blast

lemma world_same: "world_typed hinv hmap rinv rlist w \<Longrightarrow> progs w' = progs w \<Longrightarrow> shm w' = shm w \<Longrightarrow> world_typed hinv hmap rinv rlist w'"
  by (simp add: world_typed_def)

lemma world_put:
  assumes s: "S \<subseteq>\<^sub>m S'" "well_typed hinv hmap rinv rlist S' s" and p: "\<And>a p. progs w a = Some p \<Longrightarrow> prog_typed hinv hmap rinv rlist S p"
    and w': "progs w' = (progs w)(a \<mapsto> prog_of s)" "shm w' = shared_of s"
  shows "world_typed hinv hmap rinv rlist w'"
proof (rule world_typedI [of hinv hmap S'])
  show "shared_typed hinv hmap S' (shm w')" using s(2) w'(2) by (simp add: typed_unload)
  show "prog_typed hinv hmap rinv rlist S' q" if "progs w' b = Some q" for b q
    using that prog_typed_mono [OF s(1) p] s(2) w'(1) by (cases "b = a") (auto simp: typed_unload)
qed

lemma world_drop:
  assumes s: "S \<subseteq>\<^sub>m S'" "conf hinv hmap rinv rlist S' s" and p: "\<And>a p. progs w a = Some p \<Longrightarrow> prog_typed hinv hmap rinv rlist S p"
    and w': "progs w' = (progs w)(a := None)" "shm w' = shared_of s"
  shows "world_typed hinv hmap rinv rlist w'"
proof (rule world_typedI [of hinv hmap S'])
  show "shared_typed hinv hmap S' (shm w')" using s(2) w'(2) by (simp add: conf_def shared_typed_def shared_of_def)
  show "prog_typed hinv hmap rinv rlist S' q" if "progs w' b = Some q" for b q
    using that prog_typed_mono [OF s(1) p] w'(1) by (cases "b = a") auto
qed

subsection \<open>A visit\<close>

text \<open>The state after some lines.\<close>

fun after_lines :: "('h, 'p, 'r) voids \<Rightarrow> nat \<Rightarrow> ('h, 'r) st \<Rightarrow> ('h, 'r) st res" where
  "after_lines V 0 s = Ok s"
| "after_lines V (Suc n) s = bnd (interpret_next_line V s) (after_lines V n)"

text \<open>Some lines from \<open>s\<close> on there is one that loads a constant.\<close>

definition comes_to_load :: "('h, 'p, 'r) voids \<Rightarrow> ('r \<Rightarrow> addr list) \<Rightarrow> ('h, 'r) st \<Rightarrow> bool" where
  "comes_to_load V rlist s \<longleftrightarrow> (\<exists>k t s1. after_lines V k s = Ok t \<and> scan_phase V t = Ok s1 \<and> loads_constant rlist s1)"

text \<open>Some program of the world comes to such a line.\<close>

definition some_load :: "('h, 'p, 'r) voids \<Rightarrow> ('r \<Rightarrow> addr list) \<Rightarrow> ('h, 'r, 'l) world \<Rightarrow> bool" where
  "some_load V rlist w \<longleftrightarrow> (\<exists>a p. progs w a = Some p \<and> comes_to_load V rlist (load_prog p (shm w)))"

lemma comes_now: "scan_phase V s = Ok s1 \<Longrightarrow> loads_constant rlist s1 \<Longrightarrow> comes_to_load V rlist s"
  unfolding comes_to_load_def by (intro exI [of _ 0]) simp

lemma comes_later: "interpret_next_line V s = Ok s' \<Longrightarrow> comes_to_load V rlist s' \<Longrightarrow> comes_to_load V rlist s"
  unfolding comes_to_load_def by (elim exE, rule_tac x = "Suc k" in exI) simp

lemma typed_fields:
  assumes "well_typed hinv hmap rinv rlist S s" and "heap s' = heap s" "fresh s' = fresh s" "gtab s' = gtab s" "itable s' = itable s" "vartable s' = vartable s"
    "translated_line s' = translated_line s" "fbuf s' = fbuf s" "fpos s' = fpos s" "c_in s' = c_in s"
    and "pstate s' \<noteq> BLOCKED" "pstate s \<noteq> MAGIC_LINE \<or> pstate s' = MAGIC_LINE" "pstate s \<noteq> FINISHED \<or> pstate s' = FINISHED"
  shows "well_typed hinv hmap rinv rlist S s'"
  using assms by (auto simp: well_typed_def conf_def prog_conf_def sem_conf_def cursor_ok_def)

context voids_handles
begin

lemma slice_typed:
  assumes "well_typed hinv hmap rinv rlist S s"
  shows "tpc (comes_to_load V rlist s) (slice_loop V clk n i ts s) (\<lambda>s'. \<exists>S'. S \<subseteq>\<^sub>m S' \<and> well_typed hinv hmap rinv rlist S' s')"
  using assms
proof (induction n arbitrary: i ts s S)
  case (Suc n)
  note t = interpret_typed [OF Suc.prems, unfolded tpc_def]
  show ?case
  proof (cases "interpret_next_line V s")
    case (Ok s1)
    then obtain S1 where s1: "S \<subseteq>\<^sub>m S1" "well_typed hinv hmap rinv rlist S1 s1" using t by blast
    have stop: "tpc C (Ok s1) (\<lambda>s'. \<exists>S'. S \<subseteq>\<^sub>m S' \<and> well_typed hinv hmap rinv rlist S' s')" for C by (rule tpc_Ok) (use s1 in blast)
    have "tpc (comes_to_load V rlist s) (slice_loop V clk n (Suc i) r s1) (\<lambda>s'. \<exists>S'. S \<subseteq>\<^sub>m S' \<and> well_typed hinv hmap rinv rlist S' s')" for r
      using Suc.IH [OF s1(2), of "Suc i" r] comes_later [OF Ok] map_le_trans [OF s1(1)] unfolding tpc_def by blast
    then show ?thesis using Ok stop by (simp split: option.splits)
  next
    case (Undef k)
    then show ?thesis using t comes_now by (simp add: tpc_def) blast
  qed (simp_all add: tpc_def)
qed (simp add: tpc_def)

lemma blocked_typed:
  assumes w: "well_typed hinv hmap rinv rlist S s" and b: "pstate s = BLOCKED"
  shows "tp (program_state_blocked (\<lambda>s. s) s) (well_typed hinv hmap rinv rlist S)"
proof -
  have c: "conf hinv hmap rinv rlist S s" "ptr S GVarS (sem s)" using w b by (simp_all add: well_typed_def sem_conf_def)
  have take: "tp (take_unit s v) (well_typed hinv hmap rinv rlist S)" for v
    unfolding take_unit_def tp_bnd
  proof (rule tp_arith, rule tp_set_count [OF past_refl [OF c(1)] c(2)])
    fix s' assume p: "past hinv hmap rinv rlist S s S s'"
    have k: "keeps s s'" using p by (simp add: past_def)
    show "tp (Ok (if pstate s' = BLOCKED then s'\<lparr>pstate := INSTRUCTION_LINE\<rparr> else s')) (well_typed hinv hmap rinv rlist S)"
      using k past_conf [OF p] w b conf_cong [OF past_conf [OF p], of "s'\<lparr>pstate := INSTRUCTION_LINE\<rparr>"]
      by (auto simp: well_typed_def keeps_def sem_conf_def cursor_ok_def)
  qed
  show ?thesis unfolding program_state_blocked_def Let_def tp_bnd
    by (rule tp_count_at [OF conf_mem [OF c(1)] c(2)], rule tp_ifI, unfold tp_bnd, rule tp_count_at [OF conf_mem [OF c(1)] c(2)]) (simp_all add: take w)
qed

lemma visit_typed:
  assumes w: "well_typed hinv hmap rinv rlist S s"
  shows "tpc (comes_to_load V rlist s) (visit V clk fuel ts s) (\<lambda>s'. \<exists>S'. S \<subseteq>\<^sub>m S' \<and> well_typed hinv hmap rinv rlist S' s')"
proof -
  have here: "tpc C m (\<lambda>s'. \<exists>S'. S \<subseteq>\<^sub>m S' \<and> well_typed hinv hmap rinv rlist S' s')" if "tp m (well_typed hinv hmap rinv rlist S)" for C m
    using tp_tpc [OF that, of C] map_le_refl [of S] unfolding tpc_def by blast
  have "well_typed hinv hmap rinv rlist S (visit_sleeping ts s)" if "pstate s = SLEEPING"
    by (rule typed_fields [OF w]) (use that in \<open>simp_all add: visit_sleeping_def Let_def\<close>)
  then show ?thesis using slice_typed [OF w] here [of "Ok s"] here [of "Ok (visit_sleeping ts s)"] here [OF blocked_typed [OF w]] w by (simp add: visit_def)
qed

subsection \<open>The end of a program\<close>

lemma tp_free_keyvals:
  "past hinv hmap rinv rlist S0 s0 S s \<Longrightarrow> (\<And>s'. past hinv hmap rinv rlist S0 s0 S s' \<Longrightarrow> Q s') \<Longrightarrow> tp (free_keyvals kvs s) Q"
proof (induction kvs arbitrary: s)
  case (Cons x kvs)
  obtain k d where x: "x = (k, d)" by (cases x)
  show ?case unfolding x free_keyvals.simps tp_bnd
    by (rule tp_dealloc [OF Cons.prems(1)], rule tp_dealloc, assumption, rule Cons.IH, assumption, rule Cons.prems(2))
qed simp

lemma tp_free_tokens:
  "past hinv hmap rinv rlist S0 s0 S s \<Longrightarrow> \<forall>a \<in> set ts. \<exists>k. S a = Some k \<and> is_tok k \<Longrightarrow> (\<And>s'. past hinv hmap rinv rlist S0 s0 S s' \<Longrightarrow> Q s') \<Longrightarrow> tp (free_tokens ts s) Q"
proof (induction ts arbitrary: s)
  case (Cons t ts)
  then obtain k where k: "ptr S k t" "is_tok k" by (auto simp: ptr_def)
  show ?case unfolding free_tokens.simps tp_bnd
    by (rule tp_free_token [OF Cons.prems(1) k], rule Cons.IH, assumption, use Cons.prems(2) in simp, rule Cons.prems(3))
qed simp

lemma program_free_typed:
  assumes c: "conf hinv hmap rinv rlist S s"
  shows "tp (program_free V s) (conf hinv hmap rinv rlist S)"
  unfolding program_free_def tp_bnd
proof (rule tp_free_keyvals [OF past_refl [OF c]])
  fix s1 assume p: "past hinv hmap rinv rlist S s S s1"
  have r: "ring_conf rinv rlist S (translated_line s1)" using past_conf [OF p] by (simp add: conf_def prog_conf_def)
  then have e: "rb_items V (translated_line s1) = rlist (translated_line s1)" using rb_items by (simp add: ring_conf_def)
  show "tp (free_tokens (rb_items V (translated_line s1)) s1) (conf hinv hmap rinv rlist S)"
    unfolding e by (rule tp_free_tokens [OF p]) (use r in \<open>auto simp: ring_conf_def past_def\<close>)
qed

subsection \<open>A thread\<close>


lemma tick_typed:
  assumes w: "world_typed hinv hmap rinv rlist w"
  shows "tpc (some_load V rlist w) (rt_tick V L rnd clk fuel i w) (world_typed hinv hmap rinv rlist)"
proof -
  obtain S where S: "shared_typed hinv hmap S (shm w)" "\<And>a p. progs w a = Some p \<Longrightarrow> prog_typed hinv hmap rinv rlist S p"
    using world_typedE [OF w] by blast
  have stay: "tpc C (Ok (set_rt i rt w)) (world_typed hinv hmap rinv rlist)" for C rt
    by (rule tpc_Ok, rule world_same [OF w]) (simp_all add: set_rt_def)
  have vis: "tpc (some_load V rlist w) (rt_visit V L rnd clk fuel i w) (world_typed hinv hmap rinv rlist)"
  proof (cases "cd_data L (program_list (rts w ! i)) (curr (rts w ! i))")
    case (Some a)
    show ?thesis
    proof (cases "progs w a")
      case p: (Some p)
      have wt: "well_typed hinv hmap rinv rlist S (load_prog p (shm w))" using S(1) S(2) [OF p] by (simp add: typed_load)
      have "tpc (some_load V rlist w) (bnd (calc_time_slice rnd) (\<lambda>ts. bnd (visit V clk fuel ts (load_prog p (shm w))) (\<lambda>s.
          Ok (set_rt i ((rts w ! i)\<lparr>rt_pc := RtDecide a\<rparr>) (w\<lparr>progs := (progs w)(a \<mapsto> prog_of s), shm := shared_of s\<rparr>))))) (world_typed hinv hmap rinv rlist)"
      proof (rule tpc_bnd [where P = "\<lambda>_. True"])
        show "tp (calc_time_slice rnd) (\<lambda>_. True)" by (simp add: calc_time_slice_def)
        fix ts
        have load: "comes_to_load V rlist (load_prog p (shm w)) \<longrightarrow> some_load V rlist w" using p unfolding some_load_def by blast
        have v: "tpc (some_load V rlist w) (visit V clk fuel ts (load_prog p (shm w))) (\<lambda>s'. \<exists>S'. S \<subseteq>\<^sub>m S' \<and> well_typed hinv hmap rinv rlist S' s')"
          using visit_typed [OF wt, of clk fuel ts] load unfolding tpc_def by blast
        show "tpc (some_load V rlist w) (bnd (visit V clk fuel ts (load_prog p (shm w))) (\<lambda>s.
            Ok (set_rt i ((rts w ! i)\<lparr>rt_pc := RtDecide a\<rparr>) (w\<lparr>progs := (progs w)(a \<mapsto> prog_of s), shm := shared_of s\<rparr>)))) (world_typed hinv hmap rinv rlist)"
        proof (rule tpc_then [OF v])
          fix s assume "\<exists>S'. S \<subseteq>\<^sub>m S' \<and> well_typed hinv hmap rinv rlist S' s"
          then obtain S' where S': "S \<subseteq>\<^sub>m S'" "well_typed hinv hmap rinv rlist S' s" by blast
          show "tp (Ok (set_rt i ((rts w ! i)\<lparr>rt_pc := RtDecide a\<rparr>) (w\<lparr>progs := (progs w)(a \<mapsto> prog_of s), shm := shared_of s\<rparr>))) (world_typed hinv hmap rinv rlist)"
            unfolding tp.simps by (rule world_put [OF S' S(2)]) (simp_all add: set_rt_def)
        qed
      qed
      then show ?thesis using Some p by (simp add: rt_visit_def Let_def)
    qed (use Some in \<open>simp add: rt_visit_def Let_def tpc_def\<close>)
  qed (simp add: rt_visit_def Let_def tpc_def)
  have dec: "tpc (some_load V rlist w) (rt_decide V L i a w) (world_typed hinv hmap rinv rlist)" for a
  proof (rule tp_tpc, cases "progs w a")
    case (Some p)
    have c: "conf hinv hmap rinv rlist S (load_prog p (shm w))" using S(1) S(2) [OF Some] typed_load [of hinv hmap rinv rlist S p "shm w"] by (simp add: well_typed_def)
    have "tp (program_free V (load_prog p (shm w))) (\<lambda>s. world_typed hinv hmap rinv rlist (set_rt i rt (w\<lparr>progs := (progs w)(a := None), shm := shared_of s, console := e\<rparr>)))" for rt e
      by (rule tp_mono [OF program_free_typed [OF c]], rule world_drop [OF map_le_refl _ S(2)]) (simp_all add: set_rt_def)
    then show "tp (rt_decide V L i a w) (world_typed hinv hmap rinv rlist)"
      using Some world_same [OF w, of "set_rt i _ w"] by (auto simp: rt_decide_def Let_def set_rt_def intro!: tp_argv split: option.splits)
  qed (simp add: rt_decide_def Let_def)
  show ?thesis
    using vis dec stay tpc_Ok [of "world_typed hinv hmap rinv rlist" w] w by (cases "rt_pc (rts w ! i)") (simp_all add: rt_tick_def Let_def)
qed

subsection \<open>The shell\<close>

lemma stop_prog_typed:
  assumes w: "world_typed hinv hmap rinv rlist w"
  shows "tp (stop_prog a w) (world_typed hinv hmap rinv rlist)"
proof (cases "progs w a")
  case (Some p)
  obtain S where S: "shared_typed hinv hmap S (shm w)" "\<And>a p. progs w a = Some p \<Longrightarrow> prog_typed hinv hmap rinv rlist S p"
    using world_typedE [OF w] by blast
  let ?s = "load_prog p (shm w)"
  have wt: "well_typed hinv hmap rinv rlist S ?s" using S(1) S(2) [OF Some] by (simp add: typed_load)
  then have c: "conf hinv hmap rinv rlist S ?s" by (simp add: well_typed_def)
  have fin: "world_typed hinv hmap rinv rlist (w\<lparr>progs := (progs w)(a \<mapsto> prog_of (program_stop True s)), shm := shared_of (program_stop True s)\<rparr>)"
    if p: "past hinv hmap rinv rlist S ?s S s" for s
  proof (rule world_put [OF map_le_refl _ S(2)])
    have "conf hinv hmap rinv rlist S (program_stop True s)" by (rule conf_cong [OF past_conf [OF p]]) (simp_all add: program_stop_def)
    then show "well_typed hinv hmap rinv rlist S (program_stop True s)"
      using p wt by (simp add: well_typed_def sem_conf_def program_stop_def past_def keeps_def)
  qed simp_all
  have "tp (bnd (if pstate ?s = BLOCKED then set_count (sem ?s) (blocked_idx ?s) 1 ?s else Ok ?s) (\<lambda>s. let s = program_stop True s in
      Ok (w\<lparr>progs := (progs w)(a \<mapsto> prog_of s), shm := shared_of s\<rparr>))) (world_typed hinv hmap rinv rlist)"
    unfolding tp_bnd Let_def tp.simps
  proof (rule tp_ifI, goal_cases)
    case 1
    then have "ptr S GVarS (sem ?s)" using wt by (simp add: well_typed_def sem_conf_def)
    then show ?case by (rule tp_set_count [OF past_refl [OF c]]) (rule fin)
  qed (simp add: fin [OF past_refl [OF c]])
  then show ?thesis unfolding stop_prog_def Some option.case Let_def .
qed (simp add: stop_prog_def)

lemma find_prog_typed: "tp (find_prog L w l i start k n) (\<lambda>_. True)"
  by (induction k arbitrary: n) (auto split: option.splits intro!: tp_argv)

lemma mark_loop_typed:
  "world_typed hinv hmap rinv rlist w \<Longrightarrow> tp (mark_loop L rs i w) (\<lambda>(i, w). world_typed hinv hmap rinv rlist w)"
proof (induction rs arbitrary: i w)
  case (Cons rt rs)
  let ?m = "\<lambda>hit. case hit of None \<Rightarrow> mark_loop L rs i w | Some a \<Rightarrow> bnd (stop_prog a w) (mark_loop L rs (-1))"
  have m: "tp (?m hit) (\<lambda>(i, w). world_typed hinv hmap rinv rlist w)" for hit
    by (cases hit) (simp_all add: Cons tp_mono [OF stop_prog_typed [OF Cons.prems] Cons.IH])
  have "tp (if cd_head L (program_list rt) = NULL then Ok None
      else find_prog L w (program_list rt) i (cd_head L (program_list rt)) (length (cd_items L (program_list rt))) (cd_head L (program_list rt)))
      (\<lambda>hit. tp (?m hit) (\<lambda>(i, w). world_typed hinv hmap rinv rlist w))"
    by (rule tp_ifI, simp only: tp.simps m, rule tp_mono [OF find_prog_typed], rule m)
  then show ?case by (simp add: Let_def)
qed simp

lemma list_typed: "world_typed hinv hmap rinv rlist w \<Longrightarrow> tp (list_loop L is w) (world_typed hinv hmap rinv rlist)"
proof (induction "is" arbitrary: w)
  case (Cons i "is")
  have "tp (list_loop L is (say e w)) (world_typed hinv hmap rinv rlist)" for e
    by (rule Cons.IH, rule world_same [OF Cons.prems]) (simp_all add: say_def)
  then show ?case by (auto simp: list_one_def Let_def intro!: tp_argv split: option.splits)
qed simp

lemma parse_args_typed: "tp (parse_args saved args len) (\<lambda>_. True)"
proof (induction saved args len rule: parse_args.induct)
  case (1 saved args len)
  then show ?case by (subst parse_args.simps) (auto simp: Let_def split: prod.splits option.splits)
qed

lemma attach_typed: "world_typed hinv hmap rinv rlist w \<Longrightarrow> tp (runtime_attach_program L i a w) (world_typed hinv hmap rinv rlist)"
  by (simp add: runtime_attach_program_def Let_def set_rt_def world_typed_def split: prod.splits option.splits)

lemma run_typed:
  assumes w: "world_typed hinv hmap rinv rlist w" and fs: "\<forall>f t. fs f = Some t \<longrightarrow> no_lvar t"
  shows "tp (run_command V L fs junk jc jp saved w) (world_typed hinv hmap rinv rlist)"
proof -
  have "tp (bnd (new_program V ft args junk jc jp (w\<lparr>console := e\<rparr>)) (\<lambda>(a, w). runtime_attach_program L i a w)) (world_typed hinv hmap rinv rlist)"
    if t: "no_lvar ft" for ft args e i
  proof -
    obtain S where S: "shared_typed hinv hmap S (shm w)" "\<And>a p. progs w a = Some p \<Longrightarrow> prog_typed hinv hmap rinv rlist S p"
      using world_typedE [OF w] by blast
    have v: "hinv (qh_init V DEFAULT_VARTABLE_LEN)" "hmap (qh_init V DEFAULT_VARTABLE_LEN) = Map.empty"
        "rinv (rb_init V DEFAULT_TRANSLATED_LINE_LEN)" "rlist (rb_init V DEFAULT_TRANSLATED_LINE_LEN) = []"
      using init [of DEFAULT_VARTABLE_LEN] rb_init [of DEFAULT_TRANSLATED_LINE_LEN] by (simp_all add: limit_defs)
    have p: "prog_typed hinv hmap rinv rlist S (program_init V ft k args junk jc jp)" for k
      using v t by (simp add: prog_typed_def program_init_def prog_conf_def vars_conf_def ring_conf_def sem_conf_def)
    let ?w = "\<lambda>k. w\<lparr>console := e, progs := (progs w)(next_prog w \<mapsto> program_init V ft (id_cnt w) args junk jc jp), next_prog := Suc (next_prog w), id_cnt := k\<rparr>"
    have nw: "world_typed hinv hmap rinv rlist (?w k)" for k
      by (rule world_typedI [of hinv hmap S]) (use S p in \<open>auto split: if_splits\<close>)
    have "tp (runtime_attach_program L i (next_prog w) (?w k)) (world_typed hinv hmap rinv rlist)" for k
      by (rule attach_typed [OF nw])
    then show ?thesis by (simp add: new_program_def tp_arith)
  qed
  moreover have "world_typed hinv hmap rinv rlist (w\<lparr>console := e\<rparr>)" for e by (rule world_same [OF w]) simp_all
  ultimately show ?thesis
    using fs tp_mono [OF parse_args_typed] by (auto simp: run_command_def say_def Let_def split: prod.splits option.splits)
qed

lemma command_typed:
  assumes w: "world_typed hinv hmap rinv rlist w" and fs: "\<forall>f t. fs f = Some t \<longrightarrow> no_lvar t"
  shows "tp (command V L fs junk jc jp buf w) (\<lambda>(q, w). world_typed hinv hmap rinv rlist w)"
proof -
  have say: "world_typed hinv hmap rinv rlist (say e w)" for e by (rule world_same [OF w]) (simp_all add: say_def)
  have "tp (mark_program_as_finished L i w) (world_typed hinv hmap rinv rlist)" for i
    unfolding mark_program_as_finished_def tp_bnd
    by (rule tp_mono [OF mark_loop_typed [OF w]]) (auto simp: world_typed_def)
  then have "tp (kill_command L saved w) (world_typed hinv hmap rinv rlist)" for saved
    using say by (auto simp: kill_command_def split: prod.splits option.splits)
  then show ?thesis
    using say w run_typed [OF w fs] list_typed [OF w] by (auto simp: command_def split: option.splits prod.splits)
qed

lemma read_loop_typed: "tp (read_loop c b inp) (\<lambda>_. True)"
proof (induction c b inp rule: read_loop.induct)
  case (1 c b inp)
  obtain c' inp' where p: "(if isblank c then skip_blanks inp else (c, inp)) = (c', inp')" by (cases "if isblank c then skip_blanks inp else (c, inp)")
  let ?M = "if isblank c then bnd (put_buff 32 (grow_buff b)) (\<lambda>b. Ok (grow_buff b)) else Ok (grow_buff b)"
  have M: "?M \<noteq> Undef TypeConfusion" by (simp add: put_buff_def)
  show ?case
  proof (cases ?M)
    case b1: (Ok b1)
    note s = read_loop.simps [of c b inp, unfolded p prod.case b1 bnd.simps]
    show ?thesis
    proof (cases "isblank c \<and> (c' = EOF \<or> c' = 10)")
      case False
      show ?thesis
      proof (cases "put_buff c' b1")
        case b2: (Ok b2)
        have "tp (read_loop (of_char x) b2 r) (\<lambda>_. True)" if "inp' = x # r" "x \<noteq> CHR 0x0A" for x r
          by (rule 1 [OF p [symmetric] b1 False b2 that])
        then show ?thesis unfolding s if_not_P [OF False] b2 bnd.simps by (cases inp') simp_all
      qed (simp_all add: s if_not_P [OF False] put_buff_def split: if_splits)
    qed (simp add: s)
  next
    case (Undef k)
    then show ?thesis using M unfolding read_loop.simps [of c b inp, unfolded p prod.case] by simp
  qed (simp_all add: read_loop.simps [of c b inp] p put_buff_def split: if_splits)
qed

lemma round_typed:
  assumes w: "world_typed hinv hmap rinv rlist w" and fs: "\<forall>f t. fs f = Some t \<longrightarrow> no_lvar t"
  shows "tp (shell_round V L fs junk jc jp inp w) (\<lambda>(q, inp, w). world_typed hinv hmap rinv rlist w)"
proof -
  have "tp (read_line inp) (\<lambda>_. True)" using tp_mono [OF read_loop_typed] by (auto simp: read_line_def Let_def split: prod.splits)
  moreover have "tp (case x of (buff, ms, inp) \<Rightarrow> bnd (command V L fs junk jc jp buff (w\<lparr>console := console w @ ms\<rparr>)) (\<lambda>(quit, w). Ok (quit, inp, w)))
      (\<lambda>(q, inp, w). world_typed hinv hmap rinv rlist w)" for x
  proof -
    obtain buff ms r where x: "x = (buff, ms, r)" by (cases x)
    have "world_typed hinv hmap rinv rlist (w\<lparr>console := console w @ ms\<rparr>)" by (rule world_same [OF w]) simp_all
    from command_typed [OF this fs] show ?thesis unfolding x prod.case tp_bnd by (rule tp_mono) auto
  qed
  ultimately show ?thesis unfolding shell_round_def tp_bnd by (rule tp_mono)
qed

subsection \<open>All actions\<close>

lemma act_typed:
  assumes w: "world_typed hinv hmap rinv rlist w" and fs: "\<forall>f t. fs f = Some t \<longrightarrow> no_lvar t"
  shows "tpc (some_load V rlist w) (act V L fs a w) (world_typed hinv hmap rinv rlist)"
proof (cases a)
  case (Thread i rnd clk fuel)
  then show ?thesis using tick_typed [OF w] by simp
next
  case (Typed pre ws junk jc jp)
  have "tp (act V L fs a w) (world_typed hinv hmap rinv rlist)"
    unfolding Typed act.simps tp_bnd by (rule tp_mono [OF round_typed [OF w fs]]) auto
  then show ?thesis by (rule tp_tpc)
qed

lemma acts_typed:
  assumes "world_typed hinv hmap rinv rlist w" and fs: "\<forall>f t. fs f = Some t \<longrightarrow> no_lvar t"
  shows "tpc (\<exists>bs a cs w'. as = bs @ a # cs \<and> acts V L fs bs w = Ok w' \<and> act V L fs a w' = Undef TypeConfusion \<and> some_load V rlist w')
    (acts V L fs as w) (world_typed hinv hmap rinv rlist)"
  using assms(1)
proof (induction "as" arbitrary: w)
  case (Cons a "as")
  let ?C = "\<lambda>as w. \<exists>bs a cs w'. as = bs @ a # cs \<and> acts V L fs bs w = Ok w' \<and> act V L fs a w' = Undef TypeConfusion \<and> some_load V rlist w'"
  note t = act_typed [where L = L and a = a, OF Cons.prems fs, unfolded tpc_def]
  show ?case
  proof (cases "act V L fs a w")
    case (Ok w1)
    then have w1: "world_typed hinv hmap rinv rlist w1" using t by blast
    have "?C (a # as) w" if c: "?C as w1"
    proof -
      obtain bs b cs w' where "as = bs @ b # cs" "acts V L fs bs w1 = Ok w'" "act V L fs b w' = Undef TypeConfusion" "some_load V rlist w'" using c by blast
      then show ?thesis using Ok by (intro exI [of _ "a # bs"] exI [of _ b] exI [of _ cs] exI [of _ w']) simp
    qed
    then show ?thesis using Cons.IH [OF w1] Ok unfolding tpc_def by simp
  next
    case (Undef k)
    have "?C (a # as) w" if "some_load V rlist w" "k = TypeConfusion"
      using that Undef by (intro exI [of _ "[]"] exI [of _ a] exI [of _ "as"] exI [of _ w]) simp
    then show ?thesis using Undef t by (simp add: tpc_def)
  qed (simp_all add: tpc_def)
qed (simp add: tpc_def)

lemma start_typed:
  assumes "process_start V L n mm p = Ok w"
  shows "world_typed hinv hmap rinv rlist w"
proof -
  obtain h where h: "lexer_init V (boot V mm p) = Ok ((boot V mm p)\<lparr>itable := h\<rparr>)" "itab_ok hinv hmap h"
    using lexer_init_ok by blast
  let ?m = "shared_of ((boot V mm p)\<lparr>itable := h, gtab := qh_init V GLOBAL_TABLE_INIT_SIZE\<rparr>)"
  have w: "w = start_world L n ?m" using assms h(1) by (simp add: process_start_def exec_init_def global_table_init_def)
  have "hinv (qh_init V GLOBAL_TABLE_INIT_SIZE)" "hmap (qh_init V GLOBAL_TABLE_INIT_SIZE) = Map.empty"
    using init [of GLOBAL_TABLE_INIT_SIZE] by (simp_all add: GLOBAL_TABLE_INIT_SIZE_def)
  then have "shared_typed hinv hmap Map.empty ?m"
    using h(2) by (simp add: shared_typed_def shared_of_def boot_def program_s.defs mem_conf_def globs_conf_def)
  then show ?thesis unfolding w by (intro world_typedI [of hinv hmap Map.empty]) (simp_all add: start_world_def)
qed

end

end
