(* ===== verification/TypeProps.thy ===== *)
theory TypeProps imports WorldTyping LineProps begin

section \<open>Properties: types\<close>

text \<open>
  A line of a program and the whole process keep to the types of blocks; and the one exception.
\<close>

subsection \<open>A line\<close>

text \<open>
  C5: type soundness of a line.  From a state whose blocks, tables and tokens are typed and in whose file no variable begins with L (both are \<open>well_typed\<close>), a run of
  \<open>interpret_next_line\<close> that returns ends in such a state, under a typing that extends the old one.  A run that does not return never reads a block as one of another type, except on a
  line that loads a constant: the scanner accepts it, and the constant is then read as the name of a global.  (Of undefined behaviour of other kinds, and of failing calls, it says nothing; without the
  condition on names, \<open>insert_label_to_vartable\<close> can read the array of a variable as a label.)
\<close>

theorem type_sound:
  assumes "voids_handles V hinv hmap rinv rlist" and "well_typed hinv hmap rinv rlist S s"
  shows "case interpret_next_line V s of
      Ok s' \<Rightarrow> \<exists>S'. S \<subseteq>\<^sub>m S' \<and> well_typed hinv hmap rinv rlist S' s'
    | Undef TypeConfusion \<Rightarrow> \<exists>s1. scan_phase V s = Ok s1 \<and> loads_constant rlist s1
    | _ \<Rightarrow> True"
  using voids_handles.interpret_typed [OF assms] unfolding tpc_def by (auto split: res.splits fault.splits)

definition demo_sorts :: sorts where
  "demo_sorts = [1 \<mapsto> NameS, 2 \<mapsto> IntsS, 3 \<mapsto> NameS, 4 \<mapsto> ArrS, 5 \<mapsto> TokS INT_ARR_TOK, 6 \<mapsto> NameS, 7 \<mapsto> ArrS, 8 \<mapsto> TokS INT_ARR_TOK, 9 \<mapsto> TokS INT_VAL_TOK]"

lemma demo_line_typed:
  assumes "no_lvar t"
  shows "well_typed l_hinv map_of l_rinv snd demo_sorts (demo_line t)"
proof -
  have mem: "mem_conf demo_sorts demo_heap 10"
    by (auto simp: mem_conf_def demo_sorts_def demo_heap_def demo_tok_def demo_arr_def ptr_def lname_def split: if_splits)
  have it: "itab_ok l_hinv map_of (itable (demo_line t))"
    by (simp add: itab_ok_def demo_line_def comp_def distinct_map inj_on_def) (simp add: instructions_def)
  have "vars_conf l_hinv map_of demo_sorts [(''a'', 1, 2)]" by (simp add: vars_conf_def lname_def ptr_def demo_sorts_def)
  moreover have "to_char 10 \<noteq> CHR ''$''" by (simp add: to_char_def char_of_def bit_numeral_rec)
  ultimately show ?thesis
    using assms mem it by (simp add: well_typed_def conf_def prog_conf_def globs_conf_def ring_conf_def sem_conf_def cursor_ok_def demo_line_def)
      (simp add: demo_st_def boot_def program_init_def program_s.defs list_voids_def limit_defs)
qed

lemma demo_no_lvar: "no_lvar (line_text demo_src @ [])"
  by code_simp

theorem type_sound_witness:
  "\<exists>s' S'. interpret_next_line list_voids (demo_line (line_text demo_src @ [])) = Ok s' \<and> demo_sorts \<subseteq>\<^sub>m S' \<and> well_typed l_hinv map_of l_rinv snd S' s'"
proof -
  obtain s' where "interpret_next_line list_voids (demo_line (line_text demo_src @ [])) = Ok s'"
    using voids_lib.interpret_line [OF lv.voids_lib_axioms demo_ready demo_src_ok demo_src_step] by blast
  then show ?thesis using type_sound [OF lvh.voids_handles_axioms demo_line_typed [OF demo_no_lvar]] by simp
qed

subsection \<open>A constant in the place of a global\<close>

context voids_lib
begin

lemma scan_loadstore_text:
  assumes "pend s (args_str [(g1, e1), (g2, e2)] bs @ r)" and "args_ok [(g1, e1), (g2, e2)] bs"
    and "is_var e1" and "heap_ok s" and "rinv (translated_line s)"
  shows "\<exists>s' t1 F1 t2 F2. scan_loadstore V ins s = Ok s' \<and>
    scans rinv rlist [(t1, IExpr e1, F1), (t2, IExpr e2, F2)] s s' \<and> pend s' (CHR 0x0A # r) \<and> pstate s' = pstate s"
proof -
  have "scan_loadstore V ins s = scan_set V ins s" by (simp add: scan_loadstore_def scan_set_def)
  then show ?thesis using scan_set_text [OF assms, of ins] by simp
qed

lemma interpret_load_constant:
  assumes rd: "ready hinv hmap rinv rlist A (pre @ name_str LOAD_SYM @ args_str [(g1, e1), (g2, EVal v)] bs @ r) s"
    and pre: "pre \<noteq> []" "list_all blank pre" and a: "args_ok [(g1, e1), (g2, EVal v)] bs" and e: "is_var e1"
  shows "interpret_next_line V s = Undef TypeConfusion"
proof -
  obtain s2 ti L s3 r1 where l: "items L = map (IExpr \<circ> snd) [(g1, e1), (g2, EVal v)]" "scans rinv rlist ((ti, IIns LOAD_SYM, []) # L) s s2"
    "pend s2 (CHR 0x0A # r)" "pstate s2 = INSTRUCTION_LINE" "rinv r1" "rlist r1 = map fst L"
    "evolves hinv hmap {ti} (s2\<lparr>translated_line := r1\<rparr>) A s3" "toks_rep (heap s3) L"
    "set (blocks L) \<inter> owned (hmap (vartable s3)) = {}" "translated_line s3 = r1" "argv s3 = argv s" "mem_max s3 = mem_max s"
    "interpret_next_line V s = bnd (exec_handler V LOAD_SYM s3) (\<lambda>s. Ok (if pstate s = LAST_LINE then s\<lparr>pstate := FINISHED\<rparr> else s))"
  proof (rule line_start [OF rd pre a])
    show "\<exists>s2 L. scan_handler V LOAD_SYM s1 = Ok s2 \<and> items L = map (IExpr \<circ> snd) [(g1, e1), (g2, EVal v)] \<and> scans rinv rlist L s1 s2 \<and>
        pend s2 (CHR 0x0A # r) \<and> pstate s2 = pstate s1"
      if h: "pend s1 (args_str [(g1, e1), (g2, EVal v)] bs @ r)" "heap_ok s1" "rinv (translated_line s1)" for s1
    proof -
      obtain s2 t1 F1 t2 F2 where "scan_loadstore V LOAD_SYM s1 = Ok s2"
          "scans rinv rlist [(t1, IExpr e1, F1), (t2, IExpr (EVal v), F2)] s1 s2" "pend s2 (CHR 0x0A # r)" "pstate s2 = pstate s1"
        using scan_loadstore_text [of s1 g1 e1 g2 "EVal v" bs r LOAD_SYM, OF h(1) a e h(2,3)] by blast
      then show ?thesis
        by (intro exI [of _ s2] exI [of _ "[(t1, IExpr e1, F1), (t2, IExpr (EVal v), F2)]"]) (simp add: items_def)
    qed
  qed blast
  obtain t1 F1 t2 F2 where L: "L = [(t1, IExpr e1, F1), (t2, IExpr (EVal v), F2)]"
    using l(1) by (auto dest!: items_Cons simp: items_Nil)
  obtain t where t: "heap s3 t2 = Some (TokB t)" "tok_type t = INT_VAL_TOK" "tok_data t = Value v"
    using l(8) unfolding L toks_rep_def by auto
  have "heap s3 NULL = None" using goodD(1) [OF evolves_good [OF l(7)]] by (simp add: heap_ok_def)
  then have n: "t2 \<noteq> NULL" using t(1) by (cases "t2 = NULL") simp_all
  obtain r2 r3 where r: "rb_read V r1 = (r2, t1, VDS_SUCCESS)" "rb_read V r2 = (r3, t2, VDS_SUCCESS)"
    using read_Cons [OF l(5), of t1 "[t2]"] read_Cons [of _ t2 "[]"] l(6) unfolding L by fastforce
  have "load_handler V s3 = Undef TypeConfusion"
    using r t n l(10) by (simp add: load_handler_def next_token_def ring_read_def global_key_def read_tok_def deref_def)
  then show ?thesis using l(13) by simp
qed

end

text \<open>
  C40: a line \<open>LOAD\<close> with a variable and a constant, with any blanks before and between its words, passes the scanner; \<open>load_handler\<close> then takes the constant for a pointer to the name of a global.
\<close>

theorem load_constant_confuses:
  assumes "voids_lib V hinv hmap rinv rlist"
    and "ready hinv hmap rinv rlist A (pre @ name_str LOAD_SYM @ args_str [(g1, e), (g2, EVal v)] bs @ r) s"
    and "pre \<noteq> []" and "list_all blank pre" and "args_ok [(g1, e), (g2, EVal v)] bs" and "is_var e"
  shows "interpret_next_line V s = Undef TypeConfusion"
  by (rule voids_lib.interpret_load_constant [OF assms])

theorem load_constant_witness:
  "interpret_next_line list_voids (demo_line (''LOAD $x 5'' @ [CHR 0x0A])) = Undef TypeConfusion"
proof -
  let ?t = "''LOAD $x 5'' @ [CHR 0x0A]"
  have "CHR 0x0A # ?t = [CHR 0x0A] @ name_str LOAD_SYM @ args_str [('' '', EVar ''x''), ('' '', EVal 5)] [] @ []" by code_simp
  from demo_ready [of ?t, unfolded this] show ?thesis
    by (rule load_constant_confuses [OF lv.voids_lib_axioms]) code_simp+
qed

subsection \<open>A fault inside a runtime\<close>

text \<open>A process that runs the file with a magic line and the line \<open>LOAD $x 5\<close>.\<close>

definition bad_prog :: "(lhash, lring) program_s" where
  "bad_prog = program_init list_voids (magic_bytes @ CHR 0x0A # ''LOAD $x 5'' @ [CHR 0x0A]) 1 [7] (\<lambda>_. NUL) (0, 0, 0) (0, 0)"

definition bad_world :: "(lhash, lring) shared \<Rightarrow> rt_pc \<Rightarrow> addr \<Rightarrow> (lhash, lring, llist) world" where
  "bad_world m pc c = (start_world list_cdll 2 m)\<lparr>progs := [1 \<mapsto> bad_prog], next_prog := 2, id_cnt := 2,
     rts := [demo_rt\<lparr>rt_pc := pc, curr := c\<rparr>, runtime_init list_cdll]\<rparr>"

lemma bad_command: "command list_voids list_cdll [''a'' \<mapsto> magic_bytes @ CHR 0x0A # ''LOAD $x 5'' @ [CHR 0x0A]] (\<lambda>_. NUL) (0, 0, 0) (0, 0)
    (Some ''run a 7'') (start_world list_cdll 2 m) = Ok (False, bad_world m RtTop NULL)"
proof -
  have a: "parse_args ''7'' [] 12 = Ok (Some [7], [])"
    by (simp add: parse_args.simps strtok_r_def all_digits_def isdigit_def limit_defs strtol10_def)
  show ?thesis
    by (simp add: command_def strtok_r_def run_command_def a start_world_def min_runtime_def numeral_2_eq_2
      runtime_init_def new_program_def c_add_def in_int_def runtime_attach_program_def list_cdll_def l_at_def l_pos_def cond_signal_def
      bad_world_def bad_prog_def demo_rt_def set_rt_def)
qed

lemma bad_reachable: "reachable list_voids list_cdll 2 m (bad_world m RtLoop 1)"
proof -
  have len: "0 < length (rts (bad_world m pc c))" for pc c by (simp add: bad_world_def)
  have r: "reachable list_voids list_cdll 2 m (bad_world m RtTop NULL)"
    by (rule reachable.step [OF reachable.start wstep.shell [OF _ bad_command]]) (simp add: quiet_world_def start_world_def runtime_init_def)
  have "rt_tick list_voids list_cdll 0 (\<lambda>_. undefined) 0 0 (bad_world m RtTop NULL) = Ok (bad_world m RtWait NULL)"
    by (simp add: rt_tick_def bad_world_def demo_rt_def set_rt_def)
  note r = reachable.step [OF r wstep.thread [OF len this]]
  have "rt_tick list_voids list_cdll 0 (\<lambda>_. undefined) 0 0 (bad_world m RtWait NULL) = Ok (bad_world m RtLoop 1)"
    by (simp add: rt_tick_def bad_world_def demo_rt_def set_rt_def list_cdll_def)
  from reachable.step [OF r wstep.thread [OF len this]] show ?thesis .
qed

lemma bad_fault:
  obtains m where "interpret_next_line list_voids (load_prog bad_prog m) = Undef TypeConfusion"
proof -
  let ?b = "boot list_voids 1000 bad_prog" and ?t = "CHR 0x0A # ''LOAD $x 5'' @ [CHR 0x0A]"
  obtain h where h: "lexer_init list_voids ?b = Ok (?b\<lparr>itable := h\<rparr>)"
    using voids_lib.lexer_init_ok [OF lv.voids_lib_axioms] by blast
  let ?s = "?b\<lparr>itable := h, gtab := qh_init list_voids GLOBAL_TABLE_INIT_SIZE\<rparr>"
  obtain s0 s1 where s: "exec_init list_voids ?b = Ok s0" "interpret_next_line list_voids s0 = interpret_next_line list_voids s1"
      "ready l_hinv map_of l_rinv snd Map.empty ?t s1"
    unfolding bad_prog_def by (rule voids_lib.boot_ready [OF lv.voids_lib_axioms refl])
  have "s0 = ?s" using h s(1) by (simp add: exec_init_def global_table_init_def)
  moreover have "load_prog bad_prog (shared_of ?s) = ?s"
    by (simp add: load_prog_def shared_of_def boot_def program_s.defs)
  moreover have "interpret_next_line list_voids s1 = Undef TypeConfusion"
  proof -
    have t: "?t = [CHR 0x0A] @ name_str LOAD_SYM @ args_str [('' '', EVar ''x''), ('' '', EVal 5)] [] @ []" by code_simp
    show ?thesis by (rule voids_lib.interpret_load_constant [OF lv.voids_lib_axioms s(3) [unfolded t]]) code_simp+
  qed
  ultimately show thesis using that s(2) by metis
qed

theorem runtime_pointers_witness:
  "\<exists>m w a p ts. reachable list_voids list_cdll 2 m w \<and> rt_tick list_voids list_cdll 0 (\<lambda>_. undefined) 1 0 w = Undef TypeConfusion \<and>
    a \<in> snd ` set (snd (program_list (rts w ! 0))) \<and> progs w a = Some p \<and>
    visit list_voids (\<lambda>_. undefined) 1 ts (load_prog p (shm w)) = Undef TypeConfusion"
proof -
  obtain m where m: "interpret_next_line list_voids (load_prog bad_prog m) = Undef TypeConfusion" by (rule bad_fault)
  let ?w = "bad_world m RtLoop 1"
  have st: "pstate (load_prog bad_prog m) = MAGIC_LINE" by (simp add: bad_prog_def load_prog_def program_init_def program_s.defs)
  have t: "rt_tick list_voids list_cdll 0 (\<lambda>_. undefined) 1 0 ?w = Undef TypeConfusion"
    using m st by (simp add: rt_tick_def rt_visit_def bad_world_def demo_rt_def start_world_def list_cdll_def calc_time_slice_def visit_def)
  have i: "0 < length (rts ?w)" "rt_pc (rts ?w ! 0) = RtLoop" by (simp_all add: bad_world_def)
  obtain a p ts where "a \<in> snd ` set (snd (program_list (rts ?w ! 0)))" "progs ?w a = Some p"
      "visit list_voids (\<lambda>_. undefined) 1 ts (load_prog p (shm ?w)) = Undef TypeConfusion"
    using runtime_pointers_safe [OF ll.cdlist_axioms bad_reachable _ i(1) t] i(2) by auto
  then show ?thesis using t bad_reachable by blast
qed

end
