(* ===== verification/Quit.thy ===== *)
theory Quit imports StopProps Progress GlobProps begin

section \<open>The end of the process\<close>

text \<open>
  What \<open>main\<close> does after its loop and what runs at \<open>exit\<close>: the runtimes are stopped one after the other, with the programs they still have, and the table of globals is destroyed.
  As for \<open>program_free\<close>, \<open>QuadHash_destroy\<close> hands the pairs of a table to its callback.
\<close>

subsection \<open>Stopping all runtimes\<close>

text \<open>
  \<open>runtime_stop\<close> as a whole: \<open>bs\<close> is what the threads do during the join, which returns only when the thread has come to its end.
\<close>

definition runtime_stop :: "('h, 'p, 'r) voids \<Rightarrow> 'l cdll \<Rightarrow> action list \<Rightarrow> nat \<Rightarrow> ('h, 'r, 'l) world \<Rightarrow> ('h, 'r, 'l) world res" where
  "runtime_stop V L bs i w = bnd (acts V L (\<lambda>_. None) bs (runtime_stop_begin L i w)) (\<lambda>w.
     if rt_pc (rts w ! i) = RtDone then runtime_stop_end V L i w else Diverge)"

text \<open>The loop over the runtimes; before each call the threads do \<open>ps\<close>.\<close>

fun stop_loop :: "('h, 'p, 'r) voids \<Rightarrow> 'l cdll \<Rightarrow> (action list \<times> action list) list \<Rightarrow> nat \<Rightarrow> ('h, 'r, 'l) world \<Rightarrow> ('h, 'r, 'l) world res" where
  "stop_loop V L [] i w = Ok w"
| "stop_loop V L ((ps, bs) # pbs) i w = bnd (acts V L (\<lambda>_. None) ps w) (\<lambda>w. bnd (runtime_stop V L bs i w) (stop_loop V L pbs (Suc i)))"

subsection \<open>The globals\<close>

text \<open>The mutex and the condition of a global are not state.\<close>

definition global_var_destroy :: "addr \<Rightarrow> ('h, 'r) st \<Rightarrow> ('h, 'r) st res" where
  "global_var_destroy p s = (if p = NULL then Ok s
     else bnd (read_gvar p s) (\<lambda>g. bnd (dealloc (gv_count g) s) (dealloc p)))"

definition global_vartable_free_cb :: "addr \<times> addr \<Rightarrow> ('h, 'r) st \<Rightarrow> ('h, 'r) st res" where
  "global_vartable_free_cb = (\<lambda>(pKey, pData) s. bnd (dealloc pKey s) (global_var_destroy pData))"

fun free_globals :: "(addr \<times> addr) list \<Rightarrow> ('h, 'r) st \<Rightarrow> ('h, 'r) st res" where
  "free_globals [] s = Ok s"
| "free_globals (x # xs) s = bnd (global_vartable_free_cb x s) (free_globals xs)"

definition global_table_destroy :: "('h, 'p, 'r) voids \<Rightarrow> ('h, 'r) st \<Rightarrow> ('h, 'r) st res" where
  "global_table_destroy V s = free_globals (qh_items V (gtab s)) s"

lemma free_global_ok:
  assumes m: "m k = Some (ka, va)" and inv: "ginv (heap s) m G"
  obtains ca where "gcount (heap s) va = Some ca" "global_vartable_free_cb (ka, va) s = Ok (s\<lparr>heap := (heap s)(ka := None, ca := None, va := None)\<rparr>)"
proof -
  obtain xs ca where r: "ka \<noteq> NULL" "heap s ka = Some (StrB k)" "gvar_rep (heap s) va ca xs" by (rule ginv_pair [OF inv m])
  then have d: "va \<noteq> NULL" "ca \<noteq> NULL" "heap s va = Some (GVarB \<lparr>gv_count = ca, gv_len = word_of_nat (length xs)\<rparr>)" "heap s ca = Some (IntsB (map Some xs))"
    by (simp_all add: gvar_rep_def)
  then have "ka \<noteq> va" "ka \<noteq> ca" "va \<noteq> ca" using r(2) by auto
  then have "global_vartable_free_cb (ka, va) s = Ok (s\<lparr>heap := (heap s)(ka := None, ca := None, va := None)\<rparr>)"
    using r(1,2) d by (simp add: global_vartable_free_cb_def global_var_destroy_def mem_simps)
  then show thesis using that gcount_rep [OF r(3)] by blast
qed

lemma others_free:
  assumes inv: "ginv h m G" and k: "m k = Some (ka, va)" "gcount h va = Some ca" and h': "h' = h(ka := None, ca := None, va := None)"
    and k': "m k' = Some (ka', va')" "k' \<noteq> k"
  shows "h' ka' = h ka'" "h' va' = h va'" "gcount h va' = Some ca' \<Longrightarrow> h' ca' = h ca'" "gcount h' va' = gcount h va'"
proof -
  obtain xs c where r: "h ka = Some (StrB k)" "gvar_rep h va c xs" by (rule ginv_pair [OF inv k(1)])
  obtain xs' c' where r': "h ka' = Some (StrB k')" "gvar_rep h va' c' xs'" by (rule ginv_pair [OF inv k'(1)])
  have c: "c = ca" "gcount h va' = Some c'" using gcount_rep [OF r(2)] gcount_rep [OF r'(2)] k(2) by simp_all
  have ne: "ca \<noteq> c'" using ginjD [of h m k ka va k' ka' va'] inv k k' c by (auto simp: ginv_def)
  have b: "h va = Some (GVarB \<lparr>gv_count = ca, gv_len = word_of_nat (length xs)\<rparr>)" "h ca = Some (IntsB (map Some xs))"
    "h va' = Some (GVarB \<lparr>gv_count = c', gv_len = word_of_nat (length xs')\<rparr>)" "h c' = Some (IntsB (map Some xs'))"
    using r(2) r'(2) c by (simp_all add: gvar_rep_def)
  then have "va' \<noteq> va" using ne by auto
  then show v: "h' va' = h va'" using b r(1) by (auto simp: h')
  show "h' ka' = h ka'" using r r' b k'(2) by (auto simp: h')
  show "h' ca' = h ca'" if "gcount h va' = Some ca'"
    using that c(2) b r(1) ne by (auto simp: h')
  show "gcount h' va' = gcount h va'" using v by (simp add: gcount_def)
qed

lemma ginv_less:
  assumes inv: "ginv h m G" and m': "m' \<subseteq>\<^sub>m m"
    and h': "\<And>k ka va. m' k = Some (ka, va) \<Longrightarrow> h' ka = h ka \<and> h' va = h va \<and> (\<forall>ca. gcount h va = Some ca \<longrightarrow> h' ca = h ca)"
  shows "ginv h' m' (G |` dom m')"
proof -
  have sub: "m k = Some x" if "m' k = Some x" for k x using m' that unfolding map_le_def by (metis domI)
  have gc: "gcount h' va = gcount h va" if "m' k = Some (ka, va)" for k ka va using h' [OF that] by (simp add: gcount_def)
  have "ginj h m" using inv by (simp add: ginv_def)
  then have "ginj h m'" unfolding ginj_def using sub by blast
  then have "ginj h' m'" by (rule ginj_cong) (rule gc)
  moreover have "dom (G |` dom m') = dom m'"
    using inv map_le_implies_dom_le [OF m'] by (auto simp: ginv_def)
  moreover have "ka \<noteq> NULL \<and> h' ka = Some (StrB k) \<and> (\<exists>ca. gvar_rep h' va ca xs)"
    if k: "m' k = Some (ka, va)" and xs: "(G |` dom m') k = Some xs" for k ka va xs
  proof -
    have "G k = Some xs" using k xs by (auto simp: restrict_map_def split: if_splits)
    then obtain ys ca where r: "G k = Some ys" "ka \<noteq> NULL" "h ka = Some (StrB k)" "gvar_rep h va ca ys" "ys = xs"
      using ginv_pair [OF inv sub [OF k]] by (metis option.inject)
    then show ?thesis using h' [OF k] gcount_rep [OF r(4)] by (auto simp: gvar_rep_def)
  qed
  ultimately show ?thesis unfolding ginv_def by blast
qed

lemma free_globals_ok:
  assumes "distinct ks" and "set ks = dom m" and "ginv (heap s) m G"
  shows "free_globals (map (\<lambda>k. the (m k)) ks) s = Ok (s\<lparr>heap := \<lambda>a. if a \<in> gowned (heap s) m then None else heap s a\<rparr>)"
  using assms
proof (induction ks arbitrary: s m G)
  case Nil
  then have "gowned (heap s) m = {}" by (auto simp: gowned_def)
  then show ?case by simp
next
  case (Cons k ks)
  have "k \<in> dom m" using Cons.prems(2) by auto
  then obtain ka va where k: "m k = Some (ka, va)" by auto
  obtain ca where f: "gcount (heap s) va = Some ca" "global_vartable_free_cb (ka, va) s = Ok (s\<lparr>heap := (heap s)(ka := None, ca := None, va := None)\<rparr>)"
    by (rule free_global_ok [OF k Cons.prems(3)])
  let ?h = "(heap s)(ka := None, ca := None, va := None)" and ?m = "m(k := None)"
  note o = others_free [OF Cons.prems(3) k f(1) refl]
  have inv: "ginv ?h ?m (G |` dom ?m)"
  proof (rule ginv_less [OF Cons.prems(3)])
    show "?m \<subseteq>\<^sub>m m" by (simp add: map_le_def)
    show "?h ka' = heap s ka' \<and> ?h va' = heap s va' \<and> (\<forall>c. gcount (heap s) va' = Some c \<longrightarrow> ?h c = heap s c)" if "?m k' = Some (ka', va')" for k' ka' va'
      using o(1-3) [of k' ka' va'] that by (metis fun_upd_apply option.distinct(1))
  qed
  have own: "gowned (heap s) m = {ka, va, ca} \<union> gowned ?h ?m"
  proof (intro set_eqI iffI)
    fix a assume "a \<in> gowned (heap s) m"
    then obtain k' ka' va' where k': "m k' = Some (ka', va')" "a = ka' \<or> a = va' \<or> gcount (heap s) va' = Some a" by (auto simp: gowned_def)
    show "a \<in> {ka, va, ca} \<union> gowned ?h ?m"
    proof (cases "k' = k")
      case True
      then show ?thesis using k k' f(1) by auto
    next
      case False
      then have "?m k' = Some (ka', va')" using k'(1) by simp
      moreover have "gcount ?h va' = gcount (heap s) va'" by (rule o(4) [OF k'(1) False])
      ultimately have "a \<in> gowned ?h ?m" using k'(2) gownedI [of ?m k' ka' va' ?h] by metis
      then show ?thesis by blast
    qed
  next
    fix a assume a: "a \<in> {ka, va, ca} \<union> gowned ?h ?m"
    show "a \<in> gowned (heap s) m"
    proof (cases "a \<in> {ka, va, ca}")
      case True
      then show ?thesis using gownedI [of m k ka va "heap s"] k f(1) by auto
    next
      case False
      then obtain k' ka' va' where k': "?m k' = Some (ka', va')" "a = ka' \<or> a = va' \<or> gcount ?h va' = Some a" using a unfolding gowned_def by blast
      then have n: "m k' = Some (ka', va')" "k' \<noteq> k" by (auto split: if_splits)
      have "gcount ?h va' = gcount (heap s) va'" by (rule o(4) [OF n])
      then show ?thesis using k'(2) gownedI [of m k' ka' va' "heap s"] n(1) by metis
    qed
  qed
  have d: "distinct ks" "set ks = dom ?m" using Cons.prems(1,2) by auto
  have same: "map (\<lambda>k. the (m k)) ks = map (\<lambda>k. the (?m k)) ks" using Cons.prems(1) by auto
  have "free_globals (map (\<lambda>k. the (m k)) ks) (s\<lparr>heap := ?h\<rparr>) = Ok (s\<lparr>heap := \<lambda>a. if a \<in> gowned ?h ?m then None else ?h a\<rparr>)"
    unfolding same using Cons.IH [OF d, of "s\<lparr>heap := ?h\<rparr>" "G |` dom ?m"] inv by (simp del: fun_upd_apply dom_fun_upd cong: if_cong)
  moreover have "(\<lambda>a. if a \<in> gowned ?h ?m then None else ?h a) = (\<lambda>a. if a \<in> gowned (heap s) m then None else heap s a)"
    unfolding own by auto
  ultimately show ?case using k f(2) by simp
qed

subsection \<open>Steps of the threads while runtimes are stopped\<close>

lemma tick_other: "rt_tick V L rnd clk fuel i w = Ok w' \<Longrightarrow> k \<noteq> i \<Longrightarrow> rts w' ! k = rts w ! k"
  by (auto simp: rt_tick_def rt_visit_def rt_decide_def Let_def bnd_eq_Ok split: rt_pc.splits option.splits if_splits)

lemma tick_stops:
  assumes "i < length (rts w)" and "\<not> running (rts w ! i)" and "rt_tick V L rnd clk fuel i w = Ok w'" and "steps_left (rt_pc (rts w ! i)) \<le> 4"
  shows "\<not> running (rts w' ! i)" "steps_left (rt_pc (rts w' ! i)) \<le> steps_left (rt_pc (rts w ! i)) - 1"
proof -
  have "\<not> running (rts w' ! i) \<and> steps_left (rt_pc (rts w' ! i)) \<le> steps_left (rt_pc (rts w ! i)) - 1"
  proof (cases "rt_pc (rts w ! i)")
    case (RtDecide a)
    then show ?thesis using assms decide_rt [of V L i a w w'] by (auto simp: rt_tick_def Let_def)
  qed (use assms in \<open>auto simp: rt_tick_def Let_def split: if_splits\<close>)
  then show "\<not> running (rts w' ! i)" "steps_left (rt_pc (rts w' ! i)) \<le> steps_left (rt_pc (rts w ! i)) - 1" by simp_all
qed

text \<open>A runtime that is being stopped comes to its end within four steps; one whose thread has ended stays as it is.\<close>

lemma acts_stop:
  "acts V L fs bs w = Ok w' \<Longrightarrow> list_all (thread_ok (length (rts w))) bs \<Longrightarrow> k < length (rts w) \<Longrightarrow> \<not> running (rts w ! k) \<Longrightarrow>
    steps_left (rt_pc (rts w ! k)) \<le> 4 \<Longrightarrow> \<not> running (rts w' ! k) \<and> steps_left (rt_pc (rts w' ! k)) \<le> steps_left (rt_pc (rts w ! k)) - steps k bs"
proof (induction bs arbitrary: w)
  case (Cons b bs)
  obtain i rnd clk fuel where b: "b = Thread i rnd clk fuel" "i < length (rts w)" using Cons.prems(2) by (cases b) auto
  obtain w1 where w1: "rt_tick V L rnd clk fuel i w = Ok w1" "acts V L fs bs w1 = Ok w'" using Cons.prems(1) b by (auto simp: bnd_eq_Ok)
  have len: "length (rts w1) = length (rts w)" using tick_same [OF w1(1)] by simp
  have "\<not> running (rts w1 ! k) \<and> steps_left (rt_pc (rts w1 ! k)) \<le> steps_left (rt_pc (rts w ! k)) - (if k = i then 1 else 0)"
    using tick_stops [OF b(2) _ w1(1)] tick_other [OF w1(1), of k] Cons.prems(4,5) by (cases "k = i") auto
  moreover have "\<not> running (rts w' ! k) \<and> steps_left (rt_pc (rts w' ! k)) \<le> steps_left (rt_pc (rts w1 ! k)) - steps k bs"
    by (rule Cons.IH [OF w1(2)]) (use Cons.prems len calculation in auto)
  ultimately show ?case by (auto simp: b)
qed simp

lemma acts_done:
  "acts V L fs bs w = Ok w' \<Longrightarrow> list_all (thread_ok n) bs \<Longrightarrow> rt_pc (rts w ! k) = RtDone \<Longrightarrow> rts w' ! k = rts w ! k"
proof (induction bs arbitrary: w)
  case (Cons b bs)
  obtain i rnd clk fuel where b: "b = Thread i rnd clk fuel" using Cons.prems(2) by (cases b) auto
  obtain w1 where w1: "rt_tick V L rnd clk fuel i w = Ok w1" "acts V L fs bs w1 = Ok w'" using Cons.prems(1) b by (auto simp: bnd_eq_Ok)
  have "rts w1 ! k = rts w ! k"
    using tick_other [OF w1(1), of k] w1(1) Cons.prems(3) by (cases "k = i") (auto simp: rt_tick_def Let_def)
  then show ?case using Cons.IH [OF w1(2)] Cons.prems(2,3) by simp
qed simp

text \<open>What all of it keeps: the lists, and that every program that is left stands for its job; programs may be freed at any time.\<close>

definition ends :: "('l \<Rightarrow> bool) \<Rightarrow> ('l \<Rightarrow> nodes) \<Rightarrow> ('h \<Rightarrow> bool) \<Rightarrow> ('h \<Rightarrow> pairs) \<Rightarrow> ('r \<Rightarrow> bool) \<Rightarrow> ('r \<Rightarrow> addr list) \<Rightarrow> (addr \<Rightarrow> job option) \<Rightarrow>
    ('h, 'r, 'l) world \<Rightarrow> ('h, 'r, 'l) world \<Rightarrow> bool" where
  "ends linv lst hinv hmap rinv rlist J w w' \<longleftrightarrow> (\<exists>cs J'. winv linv lst w' \<and> wsim hinv hmap rinv rlist UNIV J' w' \<and> jobs_go UNIV (sh_max (shm w)) cs J J' \<and>
     sh_out (shm w') = sh_out (shm w) @ concat (map snd cs) \<and> sh_max (shm w') = sh_max (shm w) \<and> length (rts w') = length (rts w))"

lemma ends_refl:
  assumes "winv linv lst w" and "wsim hinv hmap rinv rlist UNIV J w" and "progs w' = progs w" "shm w' = shm w" "winv linv lst w'" "length (rts w') = length (rts w)"
  shows "ends linv lst hinv hmap rinv rlist J w w'"
  unfolding ends_def using assms jobs_refl [of UNIV "sh_max (shm w)" J] wsim_cong [of w' w] by (intro exI [of _ "[]"] exI [of _ J]) simp

lemma ends_trans:
  assumes "ends linv lst hinv hmap rinv rlist J w w1" and "\<And>J1. winv linv lst w1 \<Longrightarrow> wsim hinv hmap rinv rlist UNIV J1 w1 \<Longrightarrow> ends linv lst hinv hmap rinv rlist J1 w1 w2"
  shows "ends linv lst hinv hmap rinv rlist J w w2"
proof -
  obtain cs J1 where a: "winv linv lst w1" "wsim hinv hmap rinv rlist UNIV J1 w1" "jobs_go UNIV (sh_max (shm w)) cs J J1"
     "sh_out (shm w1) = sh_out (shm w) @ concat (map snd cs)" "sh_max (shm w1) = sh_max (shm w)" "length (rts w1) = length (rts w)"
    using assms(1) unfolding ends_def by blast
  obtain ds J2 where b: "winv linv lst w2" "wsim hinv hmap rinv rlist UNIV J2 w2" "jobs_go UNIV (sh_max (shm w1)) ds J1 J2"
     "sh_out (shm w2) = sh_out (shm w1) @ concat (map snd ds)" "sh_max (shm w2) = sh_max (shm w1)" "length (rts w2) = length (rts w1)"
    using assms(2) [OF a(1,2)] unfolding ends_def by blast
  have "jobs_go UNIV (sh_max (shm w)) (cs @ ds) J J2" by (rule jobs_trans [OF a(3)]) (use b(3) a(5) in simp)
  then show ?thesis unfolding ends_def using a b by (intro exI [of _ "cs @ ds"] exI [of _ J2]) simp
qed

lemma ends_acts:
  assumes lib: "voids_lib V hinv hmap rinv rlist" and cd: "cdlist L linv lst"
  shows "winv linv lst w \<Longrightarrow> wsim hinv hmap rinv rlist UNIV J w \<Longrightarrow> list_all (thread_ok (length (rts w))) bs \<Longrightarrow>
    \<exists>w'. acts V L fs bs w = Ok w' \<and> ends linv lst hinv hmap rinv rlist J w w'"
proof (induction bs arbitrary: w J)
  case Nil
  then show ?case using ends_refl [OF Nil(1,2) refl refl Nil(1) refl] by simp
next
  case (Cons b bs)
  obtain i rnd clk fuel where b: "b = Thread i rnd clk fuel" "i < length (rts w)" "tick_ok rnd clk fuel" using Cons.prems(3) by (cases b) auto
  obtain w1 where w1: "rt_tick V L rnd clk fuel i w = Ok w1" "winv linv lst w1" "length (rts w1) = length (rts w)" "wgoes hinv hmap rinv rlist UNIV J w w1"
    using tick_moves [OF lib cd Cons.prems(1,2) b(2,3)] by blast
  have e1: "ends linv lst hinv hmap rinv rlist J w w1" using w1(2-4) unfolding wgoes_def ends_def by blast
  have l: "list_all (thread_ok (length (rts w1))) bs" using Cons.prems(3) w1(3) by simp
  obtain J1 where "wsim hinv hmap rinv rlist UNIV J1 w1" using e1 unfolding ends_def by blast
  then obtain w2 where w2: "acts V L fs bs w1 = Ok w2" using Cons.IH [OF w1(2) _ l] by blast
  have "ends linv lst hinv hmap rinv rlist J w w2"
    by (rule ends_trans [OF e1]) (use Cons.IH [OF w1(2) _ l] w2 in fastforce)
  then show ?case using b w1(1) w2 by simp
qed

subsection \<open>The programs of a runtime are freed\<close>

lemma free_programs_ok:
  assumes lib: "voids_lib V hinv hmap rinv rlist"
  shows "wsim hinv hmap rinv rlist UNIV J w \<Longrightarrow> distinct as \<Longrightarrow> set as \<subseteq> dom (progs w) \<Longrightarrow>
    \<exists>w' J'. free_programs V as w = Ok w' \<and> wsim hinv hmap rinv rlist UNIV J' w' \<and> jobs_go UNIV (sh_max (shm w)) [] J J' \<and> sh_out (shm w') = sh_out (shm w) \<and>
      sh_max (shm w') = sh_max (shm w) \<and> progs w' = progs w |` (- set as) \<and> rts w' = rts w \<and> next_prog w' = next_prog w"
proof (induction "as" arbitrary: w J)
  case Nil
  then show ?case using jobs_refl by (intro exI [of _ w] exI [of _ J]) simp
next
  case (Cons a "as")
  obtain p where p: "progs w a = Some p" using Cons.prems(3) by auto
  obtain j where j0: "J a = Some j" using Cons.prems(1) p unfolding wsim_def by blast
  then obtain av P tk m where j: "J a = Some (av, P, tk, m)" by (cases j) auto
  have "jsim hinv hmap rinv rlist True j (load_prog p (shm w))" using Cons.prems(1) p j0 unfolding wsim_def by (metis UNIV_I)
  note idle = jsim_idle [OF this]
  obtain s' where s': "program_free V (load_prog p (shm w)) = Ok s'" "rest_of hmap (load_prog p (shm w)) \<subseteq>\<^sub>m heap s'"
      "s' = (load_prog p (shm w))\<lparr>heap := heap s'\<rparr>" "heap_ok s'"
    by (rule voids_lib.idle_freed [OF lib idle])
  let ?w = "w\<lparr>progs := (progs w)(a := None), shm := shared_of s'\<rparr>"
  have "m_mode m = Ended \<or> a \<in> UNIV" by simp
  from wsim_removed [OF Cons.prems(1) p j this s'(2-4), of ?w]
  have r: "wsim hinv hmap rinv rlist UNIV (J(a := None)) ?w" "jobs_go UNIV (sh_max (shm w)) [] J (J(a := None))"
    "sh_out (shm ?w) = sh_out (shm w)" "sh_max (shm ?w) = sh_max (shm w)" by simp_all
  have "distinct as" "set as \<subseteq> dom (progs ?w)" using Cons.prems(2,3) by auto
  from Cons.IH [OF r(1) this] obtain w' J' where w': "free_programs V as ?w = Ok w'" "wsim hinv hmap rinv rlist UNIV J' w'"
      "jobs_go UNIV (sh_max (shm ?w)) [] (J(a := None)) J'" "sh_out (shm w') = sh_out (shm ?w)" "sh_max (shm w') = sh_max (shm ?w)"
      "progs w' = progs ?w |` (- set as)" "rts w' = rts ?w" "next_prog w' = next_prog ?w"
    by blast
  have "jobs_go UNIV (sh_max (shm w)) [] (J(a := None)) J'" using w'(3) r(4) by simp
  from jobs_trans [OF r(2) this] have "jobs_go UNIV (sh_max (shm w)) [] J J'" by simp
  moreover have "progs w' = progs w |` (- set (a # as))" unfolding w'(6) by (auto simp: restrict_map_def fun_eq_iff)
  ultimately show ?case using p s'(1) w' r(3,4) by (intro exI [of _ w'] exI [of _ J']) simp
qed

lemma winv_emptied:
  assumes inv: "winv linv lst w" and i: "i < length (rts w)" and rt: "rt_inv linv lst rt" "rt_progs lst rt = []"
    and w': "rts w' = (rts w)[i := rt]" "progs w' = progs w |` (- set (rt_progs lst (rts w ! i)))" "next_prog w' = next_prog w"
  shows "winv linv lst w'"
proof -
  define pre post where "pre = concat (map (rt_progs lst) (take i (rts w)))" and "post = concat (map (rt_progs lst) (drop (Suc i) (rts w)))"
  let ?l = "rt_progs lst (rts w ! i)"
  have old: "concat (map (rt_progs lst) (rts w)) = pre @ ?l @ post" by (subst id_take_nth_drop [OF i]) (simp add: pre_def post_def)
  have new: "concat (map (rt_progs lst) (rts w')) = pre @ post"
    using i rt(2) by (simp add: w'(1) upd_conv_take_nth_drop pre_def post_def)
  have d: "distinct (pre @ ?l @ post)" "set (pre @ ?l @ post) = dom (progs w)" using inv unfolding winv_def old by simp_all
  have "set (pre @ post) = set (pre @ ?l @ post) - set ?l" using d(1) by auto
  then have "set (pre @ post) = dom (progs w')" unfolding d(2) w'(2) by auto
  moreover have "\<forall>rt \<in> set (rts w'). rt_inv linv lst rt"
    using inv rt(1) set_update_subset_insert [of "rts w" i rt] unfolding winv_def w'(1) by auto
  moreover have "\<forall>a \<in> dom (progs w'). a \<noteq> NULL \<and> a < next_prog w'" using inv unfolding winv_def w'(2,3) by auto
  ultimately show ?thesis using d(1) unfolding winv_def new by auto
qed


subsection \<open>The loop\<close>

definition ended :: "'l cdll \<Rightarrow> 'l runtime_s" where
  "ended L = (runtime_init L)\<lparr>running := False, rt_pc := RtDone\<rparr>"

lemma stop_begins:
  assumes cd: "cdlist L linv lst" and inv: "winv linv lst w" and w: "wsim hinv hmap rinv rlist UNIV J w" and i: "i < length (rts w)"
  shows "ends linv lst hinv hmap rinv rlist J w (runtime_stop_begin L i w)"
  by (rule ends_refl [OF inv w]) (simp_all add: cdlist.stop_begin_inv [OF cd inv i])

lemma stop_finishes:
  assumes lib: "voids_lib V hinv hmap rinv rlist" and cd: "cdlist L linv lst"
    and inv: "winv linv lst w" and w: "wsim hinv hmap rinv rlist UNIV J w" and i: "i < length (rts w)"
  shows "\<exists>w'. runtime_stop_end V L i w = Ok w' \<and> ends linv lst hinv hmap rinv rlist J w w' \<and> rts w' = (rts w)[i := ended L]"
proof -
  let ?as = "rt_progs lst (rts w ! i)"
  have items: "cd_items L (program_list (rts w ! i)) = ?as"
    using cdlist.items [OF cd cdlist.rt_invD(2) [OF cd inv i]] by (simp add: rt_progs_def)
  have d: "distinct ?as" by (rule progs_distinct [OF inv i])
  have "set ?as \<subseteq> set (concat (map (rt_progs lst) (rts w)))" using i by fastforce
  then have s: "set ?as \<subseteq> dom (progs w)" using inv unfolding winv_def by blast
  obtain w1 J1 where w1: "free_programs V ?as w = Ok w1" "wsim hinv hmap rinv rlist UNIV J1 w1" "jobs_go UNIV (sh_max (shm w)) [] J J1" "sh_out (shm w1) = sh_out (shm w)"
      "sh_max (shm w1) = sh_max (shm w)" "progs w1 = progs w |` (- set ?as)" "rts w1 = rts w" "next_prog w1 = next_prog w"
    using free_programs_ok [OF lib w d s] by blast
  let ?w = "set_rt i (ended L) w1"
  have e: "rt_inv linv lst (ended L)" "rt_progs lst (ended L) = []"
    using cdlist.nil [OF cd] by (simp_all add: ended_def runtime_init_def rt_inv_def rt_progs_def)
  have "winv linv lst ?w" by (rule winv_emptied [OF inv i e]) (simp_all add: w1)
  moreover have "wsim hinv hmap rinv rlist UNIV J1 ?w" using w1(2) by (simp add: wsim_def)
  ultimately have "ends linv lst hinv hmap rinv rlist J w ?w"
    unfolding ends_def using w1 by (intro exI [of _ "[]"] exI [of _ J1]) simp
  moreover have "runtime_stop_end V L i w = Ok ?w" by (simp add: runtime_stop_end_def items w1(1) ended_def)
  ultimately show ?thesis by (simp add: w1(7))
qed

lemma stop_one:
  assumes lib: "voids_lib V hinv hmap rinv rlist" and cd: "cdlist L linv lst"
    and inv: "winv linv lst w" and w: "wsim hinv hmap rinv rlist UNIV J w" and i: "i < length (rts w)"
    and bs: "list_all (thread_ok (length (rts w))) bs" "4 \<le> steps i bs"
  shows "\<exists>w'. runtime_stop V L bs i w = Ok w' \<and> ends linv lst hinv hmap rinv rlist J w w' \<and> rts w' ! i = ended L \<and>
    (\<forall>k. k \<noteq> i \<longrightarrow> rt_pc (rts w ! k) = RtDone \<longrightarrow> rts w' ! k = rts w ! k)"
proof -
  let ?w = "runtime_stop_begin L i w"
  have b: "length (rts ?w) = length (rts w)" "\<not> running (rts ?w ! i)" "\<And>k. k \<noteq> i \<Longrightarrow> rts ?w ! k = rts w ! k" "rt_pc (rts ?w ! i) \<noteq> RtAsleep"
    using cdlist.stop_begin_inv [OF cd inv i] i by (simp_all add: stop_begin_rts)
  have left: "steps_left (rt_pc (rts ?w ! i)) \<le> 4" using b(4) by (cases "rt_pc (rts ?w ! i)") simp_all
  note e0 = stop_begins [OF cd inv w i]
  then obtain J0 where J0: "winv linv lst ?w" "wsim hinv hmap rinv rlist UNIV J0 ?w" unfolding ends_def by blast
  have ok: "list_all (thread_ok (length (rts ?w))) bs" using bs(1) b(1) by simp
  obtain w1 where w1: "acts V L (\<lambda>_. None) bs ?w = Ok w1" using ends_acts [OF lib cd J0 ok] by blast
  have e1: "ends linv lst hinv hmap rinv rlist J w w1"
    by (rule ends_trans [OF e0]) (use ends_acts [OF lib cd _ _ ok, of _ "\<lambda>_. None"] w1 in fastforce)
  then obtain J1 where J1: "winv linv lst w1" "wsim hinv hmap rinv rlist UNIV J1 w1" "length (rts w1) = length (rts w)" unfolding ends_def by blast
  have "steps_left (rt_pc (rts w1 ! i)) \<le> steps_left (rt_pc (rts ?w ! i)) - steps i bs"
    using acts_stop [OF w1 ok, of i] i b left by simp
  with left have "steps_left (rt_pc (rts w1 ! i)) = 0" using bs(2) by linarith
  then have fin: "rt_pc (rts w1 ! i) = RtDone" by (cases "rt_pc (rts w1 ! i)") simp_all
  have i1: "i < length (rts w1)" using i J1(3) by simp
  obtain w2 where w2: "runtime_stop_end V L i w1 = Ok w2" "rts w2 = (rts w1)[i := ended L]" using stop_finishes [OF lib cd J1(1,2) i1] by blast
  have "ends linv lst hinv hmap rinv rlist J w w2"
    by (rule ends_trans [OF e1]) (use stop_finishes [OF lib cd _ _ i1] w2(1) in fastforce)
  moreover have "runtime_stop V L bs i w = Ok w2" by (simp add: runtime_stop_def w1 fin w2(1))
  moreover have "rts w2 ! k = rts w ! k" if "k \<noteq> i" "rt_pc (rts w ! k) = RtDone" for k
    using acts_done [OF w1 ok, of k] that b(3) w2(2) by simp
  moreover have "rts w2 ! i = ended L" using w2(2) i1 by simp
  ultimately show ?thesis by blast
qed

fun stop_ok :: "nat \<Rightarrow> nat \<Rightarrow> (action list \<times> action list) list \<Rightarrow> bool" where
  "stop_ok n i [] \<longleftrightarrow> i = n"
| "stop_ok n i ((ps, bs) # pbs) \<longleftrightarrow> i < n \<and> list_all (thread_ok n) ps \<and> list_all (thread_ok n) bs \<and> 4 \<le> steps i bs \<and> stop_ok n (Suc i) pbs"

lemma stop_all:
  assumes lib: "voids_lib V hinv hmap rinv rlist" and cd: "cdlist L linv lst"
  shows "winv linv lst w \<Longrightarrow> wsim hinv hmap rinv rlist UNIV J w \<Longrightarrow> stop_ok (length (rts w)) i pbs \<Longrightarrow> (\<And>k. k < i \<Longrightarrow> rts w ! k = ended L) \<Longrightarrow>
    \<exists>w'. stop_loop V L pbs i w = Ok w' \<and> ends linv lst hinv hmap rinv rlist J w w' \<and> (\<forall>k < length (rts w). rts w' ! k = ended L)"
proof (induction pbs arbitrary: i w J)
  case Nil
  then show ?case using ends_refl [OF Nil(1,2) refl refl Nil(1) refl] by simp
next
  case (Cons x pbs)
  obtain ps bs where x: "x = (ps, bs)" by (cases x)
  have ok: "i < length (rts w)" "list_all (thread_ok (length (rts w))) ps" "list_all (thread_ok (length (rts w))) bs" "4 \<le> steps i bs" "stop_ok (length (rts w)) (Suc i) pbs"
    using Cons.prems(3) x by simp_all
  obtain w1 where w1: "acts V L (\<lambda>_. None) ps w = Ok w1" "ends linv lst hinv hmap rinv rlist J w w1" using ends_acts [OF lib cd Cons.prems(1,2) ok(2)] by blast
  then obtain J1 where J1: "winv linv lst w1" "wsim hinv hmap rinv rlist UNIV J1 w1" "length (rts w1) = length (rts w)" unfolding ends_def by blast
  have i1: "i < length (rts w1)" and bs1: "list_all (thread_ok (length (rts w1))) bs" using ok(1,3) J1(3) by simp_all
  note s1 = stop_one [OF lib cd _ _ i1 bs1 ok(4)]
  obtain w2 where w2: "runtime_stop V L bs i w1 = Ok w2" "rts w2 ! i = ended L" "\<forall>k. k \<noteq> i \<longrightarrow> rt_pc (rts w1 ! k) = RtDone \<longrightarrow> rts w2 ! k = rts w1 ! k"
    using s1 [OF J1(1,2)] by blast
  have e2: "ends linv lst hinv hmap rinv rlist J w w2" by (rule ends_trans [OF w1(2)]) (use s1 w2(1) in fastforce)
  then obtain J2 where J2: "winv linv lst w2" "wsim hinv hmap rinv rlist UNIV J2 w2" "length (rts w2) = length (rts w)" unfolding ends_def by blast
  have old: "rts w2 ! k = ended L" if k: "k < Suc i" for k
  proof (cases "k = i")
    case False
    then have e: "rts w ! k = ended L" using Cons.prems(4) k by simp
    then have "rts w1 ! k = ended L" using acts_done [OF w1(1) ok(2), of k] by (simp add: ended_def)
    then show ?thesis using w2(3) False by (simp add: ended_def)
  qed (use w2(2) in simp)
  have ok2: "stop_ok (length (rts w2)) (Suc i) pbs" using ok(5) J2(3) by simp
  obtain w3 where w3: "stop_loop V L pbs (Suc i) w2 = Ok w3" "\<forall>k < length (rts w2). rts w3 ! k = ended L"
    using Cons.IH [OF J2(1,2) ok2 old] by blast
  have "ends linv lst hinv hmap rinv rlist J w w3" by (rule ends_trans [OF e2]) (use Cons.IH [OF _ _ ok2 old] w3(1) in fastforce)
  then show ?case using w1(1) w2(1) w3 J2(3) by (simp add: x)
qed

text \<open>
  C39: the release of the globals.  If the table stands for an environment of globals, \<open>global_table_destroy\<close> frees the key, the cells and the structure of each of them, each
  block once, and no other block.
\<close>

theorem globals_freed:
  assumes "voids_lib V hinv hmap rinv rlist" and "ggood hinv hmap G s"
  shows "global_table_destroy V s = Ok (s\<lparr>heap := \<lambda>a. if a \<in> gblocks hmap s then None else heap s a\<rparr>)"
proof -
  have g: "hinv (gtab s)" "ginv (heap s) (hmap (gtab s)) G" using assms(2) by (simp_all add: ggood_def)
  have lib: "hashtable V hinv hmap" using assms(1) by (simp add: voids_lib_def)
  obtain ks where ks: "distinct ks" "set ks = dom (hmap (gtab s))" "qh_items V (gtab s) = map (\<lambda>k. the (hmap (gtab s) k)) ks"
    using hashtable.items [OF lib g(1)] by blast
  show ?thesis unfolding global_table_destroy_def ks(3) by (rule free_globals_ok [OF ks(1,2) g(2)])
qed

theorem globals_freed_witness:
  "global_table_destroy list_voids gdemo = Ok (gdemo\<lparr>heap := \<lambda>a. if a \<in> {1, 2, 3} then None else gdemo_heap a\<rparr>)"
  using globals_freed [OF lv.voids_lib_axioms gdemo_good] by (simp add: gdemo_owned cong: if_cong)

subsection \<open>From the prompt to the end\<close>

lemma shell_round_quit:
  assumes "list_all blank pre" and "spaced_ok ((c, g) # ws)" and "c \<in> {''q'', ''exit'', ''quit''}"
  shows "shell_round V L fs junk jc jp (pre @ spaced ((c, g) # ws) @ [CHR 0x0A]) w =
    Ok (True, [], w\<lparr>console := console w @ replicate (count_list pre (CHR 0x0A)) EmptyInput\<rparr>)"
proof -
  obtain t where t: "read_line (pre @ spaced ((c, g) # ws) @ CHR 0x0A # []) = Ok (Some t, replicate (count_list pre (CHR 0x0A)) EmptyInput, [])"
    "t = one_blank ((c, g) # ws)" using line_words_read [of pre "(c, g) # ws" "[]"] assms by blast
  then show ?thesis using strtok_spaced [OF assms(2)] assms(3) by (auto simp: shell_round_def command_def)
qed

lemma process_stops:
  assumes lib: "voids_lib V hinv hmap rinv rlist" and cd: "cdlist L linv lst" and n: "0 < n" and w0: "process_start V L n mm p0 = Ok w0"
    and len: "length as < 2 ^ 31 - 1" and ok: "acts_ok V L F as w0"
    and q: "list_all blank pre" "spaced_ok ((c, g) # ws)" "c \<in> {''q'', ''exit'', ''quit''}" and st: "stop_ok n 0 pbs"
  shows "\<exists>w w1 w2 cs. acts V L (texts F) as w0 = Ok w \<and>
    shell_round V L (texts F) junk jc jp (pre @ spaced ((c, g) # ws) @ [CHR 0x0A]) w = Ok (True, [], w1) \<and> stop_loop V L pbs 0 w1 = Ok w2 \<and>
    progs w2 = Map.empty \<and> (\<forall>rt \<in> set (rts w2). rt_pc rt = RtDone \<and> lst (program_list rt) = []) \<and> sh_out (shm w2) = concat (map snd cs) \<and>
    fst ` set cs \<subseteq> dom (jobs_of F 1 as) \<and>
    (\<forall>a av P tk. jobs_of F 1 as a = Some (av, P, tk) \<longrightarrow> (\<exists>k m. mgo av mm P k minit = Some m \<and> m_out m = said a cs))"
proof -
  obtain w cs J where w: "acts V L (texts F) as w0 = Ok w" "pinv linv lst hinv hmap rinv rlist UNIV Map.empty J w"
      "jobs_go UNIV mm cs (fresh_jobs F 1 as) J" "sh_out (shm w) = concat (map snd cs)" "sh_max (shm w) = mm" "length (rts w) = n"
    by (rule process_runs [OF lib cd n w0 len ok subset_UNIV, where D = Map.empty]) simp
  let ?w = "w\<lparr>console := console w @ replicate (count_list pre (CHR 0x0A)) EmptyInput\<rparr>"
  have "pinv linv lst hinv hmap rinv rlist UNIV Map.empty J ?w" using w(2) by (simp add: pinv_console)
  note i = pinvD(1,2) [OF this]
  have st': "stop_ok (length (rts ?w)) 0 pbs" using st w(6) by simp
  obtain w2 where w2: "stop_loop V L pbs 0 ?w = Ok w2" "ends linv lst hinv hmap rinv rlist J ?w w2" "\<forall>k < length (rts ?w). rts w2 ! k = ended L"
    using stop_all [OF lib cd i st'] by blast
  obtain ds J2 where J2: "winv linv lst w2" "jobs_go UNIV (sh_max (shm ?w)) ds J J2" "sh_out (shm w2) = sh_out (shm ?w) @ concat (map snd ds)" "length (rts w2) = length (rts ?w)"
    using w2(2) unfolding ends_def by blast
  have e: "rt = ended L" if rt: "rt \<in> set (rts w2)" for rt
    using rt w2(3) J2(4) unfolding in_set_conv_nth by auto
  have none: "lst (program_list (ended L)) = []" "rt_pc (ended L) = RtDone" using cdlist.nil [OF cd] by (simp_all add: ended_def runtime_init_def)
  have "progs w2 = Map.empty"
    by (rule lists_empty [OF J2(1)]) (use none(1) e [OF nth_mem] in \<open>simp add: rt_progs_def\<close>)
  moreover have "jobs_go UNIV mm (cs @ ds) (fresh_jobs F 1 as) J2" by (rule jobs_trans [OF w(3)]) (use J2(2) w(5) in simp)
  note go = this
  moreover have "fst ` set (cs @ ds) \<subseteq> dom (jobs_of F 1 as)" using jobs_dom(2) [OF go] by (simp only: fresh_jobs_dom)
  moreover have "\<exists>k m. mgo av mm P k minit = Some m \<and> m_out m = said a (cs @ ds)" if j: "jobs_of F 1 as a = Some (av, P, tk)" for a av P tk
  proof -
    have "fresh_jobs F 1 as a = Some (av, P, tk, minit)" using j by (simp add: fresh_jobs_def)
    then obtain k m where "mgo av mm P k minit = Some m" "m_out m = m_out minit @ said a (cs @ ds)" by (rule jobs_goD [OF go])
    then show ?thesis by (intro exI [of _ k] exI [of _ m]) (simp add: minit_def)
  qed
  moreover have "sh_out (shm w2) = concat (map snd (cs @ ds))" using J2(3) w(4) by simp
  ultimately show ?thesis
    using w(1) shell_round_quit [OF q, of V L "texts F" junk jc jp w] w2(1) e none by blast
qed

end
