(* ===== verification/Spec2Isabelle.thy ===== *)
theory Spec2Isabelle
  imports Prelude Libvoids Program ScanWord ScanText ScanValue Scanner Globals Variables
    VarSpec VarRefine VarGet VarSet VarProps ExprText ParseValue Lines Exec ExecRefine Runtime Straight
    Programs LineProps ScanSafe LineSafe ScanProps GlobSpec GlobProps
    Cdll World WorldInv Shell ShellInv RtProps ShellProps RunProps StopProps ExecProps
    Source StmtScan LineMem Machine StmtRun LineRun Simulate MachineRun WorldSim Process Progress
    Typing ScanTyping LineTyping ExecTyping RunTyping LineRunTyping BranchTyping TypeSound WorldTyping TypeProps Quit
begin

text \<open>
  A verification development for simbly, an interpreter for a small assembly-like language with a shell
  that runs several programs at once (C, directory \<open>src/src\<close>).

  The program.  \<open>main.c\<close> is the shell: it reads a line, splits it into words, and runs, kills and lists
  programs.  A program (\<open>program.c\<close>) is put into the list of one of several runtimes (\<open>runtime.c\<close>), each a
  thread that goes round its list and gives every program a time slice.  In a slice
  \<open>interpret_next_line\<close> (\<open>exec.c\<close>) has the scanner (\<open>scanner.c\<close>) make tokens of the next line, in a ring
  buffer, and calls the handler of the instruction, which works on the program's hash table of variables
  and labels, or on the globals and semaphores that all programs share (\<open>global.c\<close>).  The hash table, the
  ring buffer and the circular list are from libvoids, a git submodule that is not part of the repository.

  How it is modelled.  A C function is a function of the same name from the state to an outcome
  \<open>'a res\<close> (\<open>Prelude\<close>): \<open>Ok\<close>, \<open>Exit\<close> for the failing macros of \<open>error.h\<close>, \<open>Undef k\<close> for undefined
  behaviour of kind \<open>k\<close>, \<open>Diverge\<close> when the fuel of a loop is used up.  Memory is explicit: a heap of typed blocks
  with \<open>malloc\<close>, \<open>realloc\<close>, \<open>free\<close> and checked accesses, so a use after free, a double free, an access out
  of bounds or of uninitialised memory is an outcome.  \<open>int\<close> is a 32-bit word whose overflow is undefined,
  \<open>size_t\<close> a 64-bit word that wraps.  libvoids is a pair of parameters, the records \<open>V\<close> (\<open>Libvoids\<close>) and \<open>L\<close>
  (\<open>Cdll\<close>); what the code relies on are the locales \<open>hashtable\<close>, \<open>ringbuffer\<close>, \<open>voids_lib\<close> and \<open>cdlist\<close>,
  each interpreted on a list implementation, on which the witnesses run.

  The theories, by the code they model:
  \<^item> \<open>Prelude\<close>, \<open>Program\<close>: outcomes, integers, characters; the structures of the headers, memory, \<open>program_init\<close>,
    \<open>program_stop\<close>, the messages of \<open>error.c\<close> as events with their position.
  \<^item> \<open>ScanWord\<close>, \<open>ScanValue\<close>, \<open>Scanner\<close> (\<open>scanner.c\<close>, and the end of \<open>program.c\<close>): characters, words, labels, the magic
    line; variables, numbers and tokens; the scanner of each instruction.
  \<^item> \<open>Globals\<close> (\<open>global.c\<close>), \<open>Variables\<close> and \<open>Exec\<close> (\<open>exec.c\<close>): every operation on globals, variables, labels,
    the handlers and \<open>interpret_next_line\<close>.
  \<^item> \<open>Runtime\<close>, \<open>World\<close> (\<open>runtime.c\<close>): the slice of one program; the process as a record \<open>world\<close> with all programs
    and runtimes, a thread of which moves by \<open>rt_tick\<close> between the places where it takes or gives back its lock.  A thread that waits on the
    condition of its empty list is \<open>RtAsleep\<close>, and only \<open>cond_signal\<close> in \<open>runtime_attach_program\<close> and \<open>runtime_stop_begin\<close> wakes it.
  \<^item> \<open>Shell\<close> (\<open>main.c\<close>): \<open>read_line\<close>, \<open>strtok_r\<close>, the commands, one round of the loop of \<open>main\<close>.

  The theories of lemmas, and what they show:
  \<^item> \<open>VarSpec\<close>, \<open>VarRefine\<close>, \<open>VarGet\<close>, \<open>VarSet\<close>, \<open>VarProps\<close>: variables are an environment of arrays; reading and
    writing through tables, pointers and tokens refine \<open>aget\<close> and \<open>aset\<close>, and free what they own.
  \<^item> \<open>ScanText\<close>, \<open>ExprText\<close>, \<open>ParseValue\<close>, \<open>Lines\<close>, \<open>ExecRefine\<close>, \<open>LineProps\<close>, \<open>Straight\<close>, \<open>Programs\<close>: the
    text of expressions and lines, the tokens made of it, the effect of a line, of a program of
    \<open>SET\<close> and arithmetic lines from its file to \<open>program_free\<close>.
  \<^item> \<open>Source\<close>, \<open>StmtScan\<close>: the text of lines with labels and of every instruction but those on globals, and what the scanner makes of it.
    \<open>Machine\<close>: the abstract machine for such programs, with a counter of lines, an environment and an output.
    \<open>LineMem\<close>: an exact account of a program's memory while a line is executed.  \<open>StmtRun\<close>, \<open>LineRun\<close>: each handler performs the
    action of its statement; labels are defined; \<open>find_label\<close> finds the line.  \<open>Simulate\<close>: \<open>interpret_next_line\<close> simulates a step of the
    machine.  \<open>MachineRun\<close> and this theory: a whole program, in one slice and under any time slices.
  \<^item> \<open>WorldSim\<close>, \<open>Process\<close>: all programs of the process at once, each with a machine of its own and its own part of the shared heap;
    the steps of the threads and the commands in any order.  \<open>Progress\<close>: a number for each runtime that every step of its thread
    makes smaller, so that all programs come to their ends.
  \<^item> \<open>Typing\<close>: types for the blocks of the heap, one sort for each address that has been given out, and what it is for tables, tokens, globals
    and a program to keep to them.  \<open>ScanTyping\<close>, \<open>LineTyping\<close>: the scanner, and the sorts of the tokens it puts into the ring buffer for each instruction.
    \<open>ExecTyping\<close>, \<open>RunTyping\<close>, \<open>LineRunTyping\<close>, \<open>BranchTyping\<close>: variables, globals and the handlers.  \<open>TypeSound\<close>, \<open>WorldTyping\<close>, \<open>TypeProps\<close>: a line, a visit, a step
    of a thread, a command and the whole process.  The one exception is \<open>LOAD\<close> with a constant (\<open>load_constant_confuses\<close>).  Labels and variables share one
    table, so the files are those in which no variable begins with L.
  \<^item> \<open>ScanSafe\<close>, \<open>LineSafe\<close>, \<open>ScanProps\<close>: the scanner is safe on every file, the functional behaviour of its parts.  The one read that can leave the input buffer is
    in the message about a word that is too long (\<open>read_input\<close>), and \<open>room\<close> says when it cannot.
  \<^item> \<open>GlobSpec\<close>, \<open>GlobProps\<close>: globals and semaphores refine an environment of arrays; the faults past the end.
  \<^item> \<open>ExecProps\<close>: set and get, growth, negative indices, branches.
  \<^item> \<open>WorldInv\<close>, \<open>ShellInv\<close>, \<open>RtProps\<close>, \<open>StopProps\<close>: the invariant of the lists over all interleavings of threads and
    commands (\<open>reachable\<close>), that no wake-up is lost, the round robin, slices, sleeping and stopping, the race between removal and attaching.
  \<^item> \<open>Quit\<close>: what \<open>main\<close> does when it is left: the runtimes are stopped one after the other and free the programs that are still there; the release of the globals at exit.
  \<^item> \<open>ShellProps\<close>, \<open>RunProps\<close>: reading and splitting lines, \<open>run\<close> from the typed line to the list of a runtime, \<open>kill\<close>.

  Bounds and fuel.  \<open>varval_get\<close> gets \<open>Suc (fresh s)\<close>, more than the depth of any token in memory;
  \<open>free_chain\<close> the same; \<open>print_args\<close> and \<open>find_label\<close> one unit for each character that is left and a few more, as
  each round reads one; \<open>drain\<close> and \<open>print_values\<close> one more than the length of the ring buffer; \<open>slice_loop\<close> one per
  nanosecond of the slice, which is enough when the clock advances (\<open>slice_correct\<close>);
  \<open>find_prog\<close> the length of the list (\<open>find_prog_finds\<close>).  The other loops are recursive on what they consume.

  Not modelled.  The wording of messages, \<open>dbg_msg\<close> (off unless a flag is set) and the text of \<open>fatal_handler\<close>, which
  ends the process; \<open>print_program_state\<close>, which has no caller; \<open>print_banner\<close>; the release of locks, of the
  table of instructions and of the array of runtimes at exit, and the second call of \<open>global_table_destroy\<close> there, for which \<open>QuadHash_destroy\<close> has to accept the
  table it has already destroyed.  Locks are not state: the code under a lock is one step, and so is the visit of a runtime to a program,
  so the lines of two threads are not interleaved more finely than that.  In particular an operation on a global is one step, although
  \<open>global.c\<close> reads \<open>pair->pData\<close> after it has released the lock of the table, and between two locks
  another thread may change the table or, after a rehash, move the pair.  The condition of a runtime is modelled, with waits
  that end on their own among the steps of \<open>reachable\<close> but not among the actions of \<open>Process\<close>; the condition of a global
  only ends a wait of \<open>program_state_blocked\<close> early, which returns at once in any case, and is not.  Characters of the input buffer that
  were never stored are read as what \<open>malloc\<close> found there (\<open>junk\<close>), not as undefined.  The reachable states leave out the commands in
  the window of \<open>attach_race\<close>, which is stated on its own.  The
  instructions on globals have theorems for their handlers, but are not part of the abstract machine for
  whole programs.  The machine has no step
  where a line is an error or undefined, and none for a file that ends in the middle of a line.
\<close>

section \<open>Properties of whole programs\<close>

text \<open>
  C1: whole programs.  A file of the magic line and lines with labels, \<open>SET\<close>, arithmetic, branches, \<open>PRINT\<close>, \<open>SLEEP\<close> and
  \<open>RETURN\<close>, laid out with any blanks and empty lines, is loaded by \<open>program_init\<close> and \<open>exec_init\<close> and run line by line.  If the
  abstract machine, which knows nothing of text, tokens, files and memory, ends after \<open>n + 1\<close> lines at most, the program
  finishes without an error, has written what the machine says, and its table stands for the environment of the
  machine, in which labels are line numbers.  \<open>program_free\<close> then leaves exactly the blocks that the machine has counted as lost:
  two for each time a line with a label that was known has been passed, and none if this never happened.
\<close>

theorem program_correct:
  assumes "voids_lib V hinv hmap rinv rlist" and "prog_ok P tk"
    and "mrun (pid # word_of_nat (length args) # args) mm P (Suc n) minit = Some m" and "m_mode m = Ended"
  shows "\<exists>s s' A. bnd (exec_init V (boot V mm (program_init V (file_text P tk) pid args junk jc jp))) (run_slice V n) = Ok s \<and>
    pstate s = FINISHED \<and> \<not> error_flag s \<and> out s = m_out m \<and> good hinv hmap A s \<and> erel (at_place P tk) A (m_env m) \<and>
    program_free V s = Ok s' \<and> finite (dom (heap s')) \<and> card (dom (heap s')) = m_lost m"
  by (rule voids_lib.machine_program [OF assms])

text \<open>
  The program \<open>SET $i 2\<close>, \<open>Lone PRINT "i =" $i\<close>, \<open>Ltwo SUB $i $i 1\<close>, \<open>BRGT $i 0 Lone\<close>, \<open>BRA Lend\<close>, \<open>SET $x 1\<close>, \<open>Lend RETURN\<close>:
  a loop, a jump ahead, and one line with a known label that is passed again.
\<close>

definition demo_source :: "sline list" where
  "demo_source =
    [([], None, Do (ISet (EVar ''i'') (EVal 2)), ['' '', '' ''], []),
     ([CHR 0x0A], Some (''Lone'', '' ''), Print ''i ='' [EVar ''i''], ['' '', '' ''], []),
     ([], Some (''Ltwo'', ''  ''), Do (IOp SUB_SYM (EVar ''i'') (EVar ''i'') (EVal 1)), ['' '', '' '', '' ''], '' ''),
     ('' '', None, Br BRGT_SYM (EVar ''i'') (EVal 0) ''Lone'', ['' '', '' '', '' ''], []),
     ([], None, Bra ''Lend'', ['' ''], []),
     ([], None, Do (ISet (EVar ''x'') (EVal 1)), ['' '', '' ''], []),
     ([], Some (''Lend'', '' ''), Return, [], [])]"

lemma prog_okI: "list_all sline_ok P \<Longrightarrow> tails_ok P tk \<Longrightarrow> length (src P tk) = n \<Longrightarrow> n < 2 ^ 32 - 2 \<Longrightarrow> prog_ok P tk"
  by (simp add: prog_ok_def)

lemma demo_source_ok: "prog_ok demo_source [CHR 0x0A]"
  by (rule prog_okI [where n = 96]) (code_simp, code_simp, code_simp, simp)

definition demo_said :: "event list" where
  "demo_said = [Says 1, SaysStr ''i ='', SaysInt 2, SaysNl, Says 1, SaysStr ''i ='', SaysInt 1, SaysNl]"

lemma demo_source_runs:
  "case mrun [1, 3, 4, 9, 8] 1000 demo_source (Suc 8) minit of None \<Rightarrow> False
   | Some m \<Rightarrow> m_mode m = Ended \<and> m_lost m = 2 \<and> m_out m = demo_said \<and> m_env m ''i'' = Some (VArr [0])"
  by code_simp

theorem program_witness:
  "\<exists>s s' A. bnd (exec_init list_voids (boot list_voids 1000 (program_init list_voids
      (file_text demo_source [CHR 0x0A]) 1 [4, 9, 8] (\<lambda>_. NUL) (0, 0, 0) (0, 0)))) (run_slice list_voids 8) = Ok s \<and>
    pstate s = FINISHED \<and> \<not> error_flag s \<and> out s = demo_said \<and> good l_hinv map_of A s \<and> A ''i'' = Some (VArr [0]) \<and>
    program_free list_voids s = Ok s' \<and> card (dom (heap s')) = 2"
proof -
  obtain m where m: "mrun (1 # word_of_nat (length [4 :: c_int, 9, 8]) # [4, 9, 8]) 1000 demo_source (Suc 8) minit = Some m" "m_mode m = Ended"
    "m_lost m = 2" "m_out m = demo_said" "m_env m ''i'' = Some (VArr [0])"
    using demo_source_runs by (auto split: option.splits)
  show ?thesis
    using program_correct [OF lv.voids_lib_axioms demo_source_ok m(1,2), of "\<lambda>_. NUL" "(0, 0, 0)" "(0, 0)"] erel_arr [of _ _ "m_env m" "''i''" "[0]"] m(3-5)
    by auto
qed


text \<open>The same program with a sleep of three seconds in its loop, in slices of seven nanoseconds by a clock that stands still.\<close>

definition demo_naps :: "sline list" where
  "demo_naps = take 3 demo_source @ ([], None, Sleep (EVar ''argc''), ['' ''], []) # drop 3 demo_source"

lemma demo_naps_ok: "prog_ok demo_naps [CHR 0x0A]"
  by (rule prog_okI [where n = 108]) (code_simp, code_simp, code_simp, simp)




text \<open>
  C3: the whole process.  From the start of the shell, commands are typed and the threads of the runtimes make steps, in any order:
  \<open>run\<close> with any arguments, \<open>list\<close>, \<open>kill\<close>, anything but the words that leave the shell.  What is asked of them is \<open>acts_ok\<close>: every file that \<open>run\<close>
  starts has lines as in C1, and its machine never comes to a line on which it has no step (\<open>prog_ok\<close>, \<open>sound\<close>); a line is typed
  only when no runtime is between the removal of its last program and the test behind it (\<open>quiet_world\<close>; C33 is what happens otherwise); the clock
  gives every line of a slice some time, and no random number is the least \<open>long\<close> (\<open>tick_ok\<close>).  Then no step is undefined, and the program
  with the id \<open>a\<close> behaves as its machine started with its arguments, whatever the other programs do: what it has
  written among the output of all is the output \<open>m\<close> of the machine after some number of lines; if it is no longer there, its machine has ended or
  its id has been killed; and if it is still there, its variables, its place in the file and its sleep are those of the machine, or it has been killed.
\<close>

theorem process_correct:
  assumes "voids_lib V hinv hmap rinv rlist" and "cdlist L linv lst" and "0 < n" and "process_start V L n mm p0 = Ok w0"
    and "length as < 2 ^ 31 - 1" and "acts_ok V L F as w0"
  shows "\<exists>w cs. acts V L (texts F) as w0 = Ok w \<and> winv linv lst w \<and> sh_out (shm w) = concat (map snd cs) \<and>
    fst ` set cs \<subseteq> dom (jobs_of F 1 as) \<and>
    (\<forall>a av P tk. jobs_of F 1 as a = Some (av, P, tk) \<longrightarrow> (\<exists>k m. mgo av mm P k minit = Some m \<and> m_out m = said a cs \<and>
       (case progs w a of None \<Rightarrow> m_mode m = Ended \<or> a \<in> set (kills as)
        | Some p \<Rightarrow> jsim hinv hmap rinv rlist (a \<in> set (kills as)) (av, P, tk, m) (load_prog p (shm w)))))"
  by (rule process_moves [OF assms])

text \<open>
  Two runtimes; the files of both programs above; \<open>run a 4 9\<close>, \<open>run b 7\<close>, \<open>list\<close> and \<open>kill 2\<close> are typed, then the threads make forty steps
  each by a clock that gives every line a nanosecond.
\<close>

definition demo_files :: files where
  "demo_files = [''a'' \<mapsto> (demo_source, [CHR 0x0A]), ''b'' \<mapsto> (demo_naps, [CHR 0x0A])]"

definition demo_typed :: "action list" where
  "demo_typed = map (\<lambda>ws. Typed [] ws (\<lambda>_. NUL) (0, 0, 0) (0, 0))
    [[(''run'', '' ''), (''a'', '' ''), (''4'', ''  ''), (''9'', [])], [(''r'', '' ''), (''b'', '' ''), (''7'', [])], [(''list'', [])], [(''kill'', '' ''), (''2'', '' '')]]"

definition demo_threads :: "action list" where
  "demo_threads = concat (replicate 40 (map (\<lambda>i. Thread i 5 (\<lambda>_. (\<lparr>tv_sec = 0, tv_nsec = 0\<rparr>, \<lparr>tv_sec = 0, tv_nsec = 1\<rparr>)) 10000000) [0, 1]))"

lemma demo_sound: "sound [1, 2, 4, 9] 1000 demo_source minit" "sound [2, 1, 7] 1000 demo_naps minit"
proof -
  have "case mgo [1, 2, 4, 9] 1000 demo_source 9 minit of None \<Rightarrow> False | Some m \<Rightarrow> m_mode m = Ended" by code_simp
  then show "sound [1, 2, 4, 9] 1000 demo_source minit" by (auto intro: soundI split: option.splits)
  have "case mgo [2, 1, 7] 1000 demo_naps 13 minit of None \<Rightarrow> False | Some m \<Rightarrow> m_mode m = Ended" by code_simp
  then show "sound [2, 1, 7] 1000 demo_naps minit" by (auto intro: soundI split: option.splits)
qed

lemma demo_words: "num_word ''4''" "num_word ''9''" "num_word ''7''" "num_word ''2''"
  "strtol10 ''4'' = 4" "strtol10 ''9'' = 9" "strtol10 ''7'' = 7" "strtol10 ''2'' = 2"
  by code_simp+

lemma demo_typed_ok: "typeds_ok demo_files 1000 1 demo_typed"
  using demo_sound demo_source_ok demo_naps_ok
  by (simp add: demo_typed_def demo_files_def demo_words word_ok_def isspace_def isblank_def)

lemma demo_threads_ok: "list_all (thread_ok 2) demo_threads"
  by (simp add: demo_threads_def list_all_iff tick_ok_def ticking_def line_cost_def TIME_SLICE_MAX_NSEC_def)

lemma demo_jobs: "jobs_of demo_files 1 (demo_typed @ demo_threads) =
    [2 \<mapsto> ([2, 1, 7], demo_naps, [CHR 0x0A]), 1 \<mapsto> ([1, 2, 4, 9], demo_source, [CHR 0x0A])]"
  "kills (demo_typed @ demo_threads) = [2]"
  using threads_only [OF demo_threads_ok]
  by (simp_all add: demo_typed_def demo_files_def demo_words numeral_2_eq_2)

lemma demo_acts_len: "length (demo_typed @ demo_threads) < 2 ^ 31 - 1"
  by (simp add: demo_typed_def demo_threads_def length_concat sum_list_replicate)

lemma demo_acts_ok:
  assumes "process_start list_voids list_cdll 2 1000 p = Ok w0"
  shows "acts_ok list_voids list_cdll demo_files (demo_typed @ demo_threads) w0"
  by (rule typeds_first [OF lv.voids_lib_axioms ll.cdlist_axioms _ assms _ demo_typed_ok demo_threads_ok]) (simp_all add: demo_typed_def)

theorem process_witness:
  "\<exists>w0 w cs. process_start list_voids list_cdll 2 1000 (program_init list_voids [] 0 [] (\<lambda>_. NUL) (0, 0, 0) (0, 0)) = Ok w0 \<and>
    acts list_voids list_cdll (texts demo_files) (demo_typed @ demo_threads) w0 = Ok w \<and> sh_out (shm w) = concat (map snd cs) \<and> fst ` set cs \<subseteq> {1, 2} \<and>
    (\<exists>k m. mgo [1, 2, 4, 9] 1000 demo_source k minit = Some m \<and> m_out m = said 1 cs \<and> (progs w 1 \<noteq> None \<or> m_mode m = Ended)) \<and>
    (\<exists>k m. mgo [2, 1, 7] 1000 demo_naps k minit = Some m \<and> m_out m = said 2 cs)"
proof -
  let ?p = "program_init list_voids [] 0 [] (\<lambda>_. NUL) (0, 0, 0) (0, 0)" and ?as = "demo_typed @ demo_threads"
  obtain w0 where w0: "process_start list_voids list_cdll 2 1000 ?p = Ok w0" by (rule process_starts [OF lv.voids_lib_axioms])
  have n: "0 < (2 :: nat)" by simp
  from process_correct [OF lv.voids_lib_axioms ll.cdlist_axioms n w0 demo_acts_len demo_acts_ok [OF w0]]
  obtain w cs where w: "acts list_voids list_cdll (texts demo_files) ?as w0 = Ok w" "sh_out (shm w) = concat (map snd cs)" "fst ` set cs \<subseteq> dom (jobs_of demo_files 1 ?as)"
    and j: "\<forall>a av P tk. jobs_of demo_files 1 ?as a = Some (av, P, tk) \<longrightarrow> (\<exists>k m. mgo av 1000 P k minit = Some m \<and> m_out m = said a cs \<and>
       (case progs w a of None \<Rightarrow> m_mode m = Ended \<or> a \<in> set (kills ?as)
        | Some p \<Rightarrow> jsim l_hinv map_of l_rinv snd (a \<in> set (kills ?as)) (av, P, tk, m) (load_prog p (shm w))))"
    by blast
  have "fst ` set cs \<subseteq> {1, 2}" using w(3) unfolding demo_jobs by auto
  moreover have "\<exists>k m. mgo [1, 2, 4, 9] 1000 demo_source k minit = Some m \<and> m_out m = said 1 cs \<and> (progs w 1 \<noteq> None \<or> m_mode m = Ended)"
    using j [THEN spec [of _ 1]] unfolding demo_jobs by (cases "progs w 1") auto
  moreover have "\<exists>k m. mgo [2, 1, 7] 1000 demo_naps k minit = Some m \<and> m_out m = said 2 cs"
    using j [THEN spec [of _ 2]] unfolding demo_jobs by auto
  ultimately show ?thesis using w0 w(1,2) by blast
qed

text \<open>
  C4: every program comes to its end.  Lines are typed and threads move as in C3, under the same conditions (\<open>acts_ok\<close>), and then only the threads move, in any order, with clocks
  that give every line some time and time slices of at least a nanosecond (\<open>thread_live\<close>; with slices of zero a sleep would not end).
  If the machine of every program that was started ends within \<open>B\<close> visits, and each
  of the \<open>n\<close> threads makes six steps for every visit and every removal of as many programs as were started, and five more, then no program is left, every list is empty,
  and the program with the id \<open>a\<close> has written all that its machine writes until its end, unless its id has been killed.  A thread that is asleep on the condition of its
  runtime has nothing to do: it has been woken when a program came into its list.
\<close>

theorem process_ends:
  assumes "voids_lib V hinv hmap rinv rlist" and "cdlist L linv lst" and "0 < n" and "process_start V L n mm p0 = Ok w0"
    and "length as < 2 ^ 31 - 1" and "acts_ok V L F as w0" and "list_all (thread_live n) bs"
    and "\<forall>a av P tk. jobs_of F 1 as a = Some (av, P, tk) \<longrightarrow> lasts av mm P B"
    and "\<forall>i < n. 6 * (B + 1) * card (dom (jobs_of F 1 as)) + 5 \<le> steps i bs"
  shows "\<exists>w cs. acts V L (texts F) (as @ bs) w0 = Ok w \<and> winv linv lst w \<and> progs w = Map.empty \<and> sh_out (shm w) = concat (map snd cs) \<and>
    (\<forall>a av P tk. jobs_of F 1 as a = Some (av, P, tk) \<longrightarrow>
       (\<exists>k m. mgo av mm P k minit = Some m \<and> m_out m = said a cs \<and> (m_mode m = Ended \<or> a \<in> set (kills as))))"
proof -
  obtain w cs J where w: "acts V L (texts F) (as @ bs) w0 = Ok w" "winv linv lst w" "progs w = Map.empty" "wsim hinv hmap rinv rlist (set (kills as)) J w"
    "jobs_go (set (kills as)) mm cs (fresh_jobs F 1 as) J" "sh_out (shm w) = concat (map snd cs)"
    by (rule process_runs_out [OF assms(1-7)]) (use assms(8,9) in blast)+
  have "\<exists>k m. mgo av mm P k minit = Some m \<and> m_out m = said a cs \<and> (m_mode m = Ended \<or> a \<in> set (kills as))"
    if "jobs_of F 1 as a = Some (av, P, tk)" for a av P tk
    using job_state [OF w(4,5) that] by (simp add: w(3))
  then show ?thesis using w(1,2,3,6) by blast
qed

text \<open>
  \<open>run a 4 9\<close> and \<open>run a 7\<close> are typed, then each of the two threads makes three hundred steps.
\<close>

definition demo_runs :: "action list" where
  "demo_runs = map (\<lambda>ws. Typed [] ws (\<lambda>_. NUL) (0, 0, 0) (0, 0))
    [[(''run'', '' ''), (''a'', '' ''), (''4'', ''  ''), (''9'', [])], [(''r'', '' ''), (''a'', '' ''), (''7'', [])]]"

definition demo_long :: "action list" where
  "demo_long = concat (replicate 300 (map (\<lambda>i. Thread i 5 (\<lambda>_. (\<lparr>tv_sec = 0, tv_nsec = 0\<rparr>, \<lparr>tv_sec = 0, tv_nsec = 1\<rparr>)) 10000000) [0, 1]))"

lemma steps_round: "steps i (concat (replicate r bs)) = r * steps i bs"
  by (induction r) (simp_all add: steps_append)

lemma demo_lasts: "lasts [1, 2, 4, 9] 1000 demo_source 20" "lasts [2, 1, 7] 1000 demo_source 20"
proof -
  have "case mgo [1, 2, 4, 9] 1000 demo_source 9 minit of None \<Rightarrow> False | Some m \<Rightarrow> m_mode m = Ended \<and> mvisits [1, 2, 4, 9] 1000 demo_source 9 minit \<le> 20" by code_simp
  then show "lasts [1, 2, 4, 9] 1000 demo_source 20" unfolding lasts_def by (intro exI [of _ 9]) (auto split: option.splits)
  have "case mgo [2, 1, 7] 1000 demo_source 9 minit of None \<Rightarrow> False | Some m \<Rightarrow> m_mode m = Ended \<and> mvisits [2, 1, 7] 1000 demo_source 9 minit \<le> 20" by code_simp
  then show "lasts [2, 1, 7] 1000 demo_source 20" unfolding lasts_def by (intro exI [of _ 9]) (auto split: option.splits)
qed

lemma demo_runs_ok: "typeds_ok demo_files 1000 1 demo_runs" "list_all (thread_live 2) demo_long"
proof -
  have "case mgo [2, 1, 7] 1000 demo_source 9 minit of None \<Rightarrow> False | Some m \<Rightarrow> m_mode m = Ended" by code_simp
  then have "sound [2, 1, 7] 1000 demo_source minit" by (auto intro: soundI split: option.splits)
  then show "typeds_ok demo_files 1000 1 demo_runs"
    using demo_sound(1) demo_source_ok by (simp add: demo_runs_def demo_files_def demo_words word_ok_def isspace_def isblank_def)
  show "list_all (thread_live 2) demo_long"
    by (simp add: demo_long_def list_all_iff tick_ok_def ticking_def line_cost_def TIME_SLICE_MAX_NSEC_def)
qed

lemma demo_runs_jobs: "jobs_of demo_files 1 demo_runs =
    [2 \<mapsto> ([2, 1, 7], demo_source, [CHR 0x0A]), 1 \<mapsto> ([1, 2, 4, 9], demo_source, [CHR 0x0A])]" "kills demo_runs = []"
  by (simp_all add: demo_runs_def demo_files_def demo_words numeral_2_eq_2)

theorem process_ends_witness:
  "\<exists>w0 w cs. process_start list_voids list_cdll 2 1000 (program_init list_voids [] 0 [] (\<lambda>_. NUL) (0, 0, 0) (0, 0)) = Ok w0 \<and>
    acts list_voids list_cdll (texts demo_files) (demo_runs @ demo_long) w0 = Ok w \<and> progs w = Map.empty \<and> sh_out (shm w) = concat (map snd cs) \<and>
    (\<exists>k m. mgo [1, 2, 4, 9] 1000 demo_source k minit = Some m \<and> m_out m = said 1 cs \<and> m_mode m = Ended) \<and>
    (\<exists>k m. mgo [2, 1, 7] 1000 demo_source k minit = Some m \<and> m_out m = said 2 cs \<and> m_mode m = Ended)"
proof -
  let ?p = "program_init list_voids [] 0 [] (\<lambda>_. NUL) (0, 0, 0) (0, 0)"
  obtain w0 where w0: "process_start list_voids list_cdll 2 1000 ?p = Ok w0" by (rule process_starts [OF lv.voids_lib_axioms])
  have len: "length demo_runs < 2 ^ 31 - 1" and n: "0 < (2 :: nat)" by (simp_all add: demo_runs_def)
  have ok: "acts_ok list_voids list_cdll demo_files demo_runs w0"
    using typeds_first [OF lv.voids_lib_axioms ll.cdlist_axioms n w0 len demo_runs_ok(1), of "[]"] by simp
  have due: "\<forall>a av P tk. jobs_of demo_files 1 demo_runs a = Some (av, P, tk) \<longrightarrow> lasts av 1000 P 20"
    using demo_lasts unfolding demo_runs_jobs by (auto split: if_splits)
  have many: "\<forall>i < 2. 6 * (20 + 1) * card (dom (jobs_of demo_files 1 demo_runs)) + 5 \<le> steps i demo_long"
    unfolding demo_runs_jobs demo_long_def steps_round by (auto simp: less_2_cases_iff)
  obtain w cs where w: "acts list_voids list_cdll (texts demo_files) (demo_runs @ demo_long) w0 = Ok w" "progs w = Map.empty" "sh_out (shm w) = concat (map snd cs)"
    and j: "\<forall>a av P tk. jobs_of demo_files 1 demo_runs a = Some (av, P, tk) \<longrightarrow>
       (\<exists>k m. mgo av 1000 P k minit = Some m \<and> m_out m = said a cs \<and> (m_mode m = Ended \<or> a \<in> set (kills demo_runs)))"
    using process_ends [OF lv.voids_lib_axioms ll.cdlist_axioms n w0 len ok demo_runs_ok(2) due many] by blast
  have "\<exists>k m. mgo [1, 2, 4, 9] 1000 demo_source k minit = Some m \<and> m_out m = said 1 cs \<and> m_mode m = Ended"
    using j [THEN spec [of _ 1]] unfolding demo_runs_jobs by simp
  moreover have "\<exists>k m. mgo [2, 1, 7] 1000 demo_source k minit = Some m \<and> m_out m = said 2 cs \<and> m_mode m = Ended"
    using j [THEN spec [of _ 2]] unfolding demo_runs_jobs by simp
  ultimately show ?thesis using w0 w by blast
qed

text \<open>
  C6: type soundness of the process.  Whatever is typed at the shell and whatever steps the threads make, in any order, with any clocks and files in which no variable begins with L, every
  program, the globals and the heap they share keep to one typing; a step reads a block as one of another type only when some program has come to a line that loads a constant.
\<close>

theorem process_typed:
  assumes "voids_handles V hinv hmap rinv rlist" and "\<forall>f t. fs f = Some t \<longrightarrow> no_lvar t" and "process_start V L n mm p = Ok w0"
  shows "case acts V L fs as w0 of
      Ok w \<Rightarrow> world_typed hinv hmap rinv rlist w
    | Undef TypeConfusion \<Rightarrow> \<exists>bs a cs w. as = bs @ a # cs \<and> acts V L fs bs w0 = Ok w \<and> act V L fs a w = Undef TypeConfusion \<and> some_load V rlist w
    | _ \<Rightarrow> True"
  using voids_handles.acts_typed [OF assms(1) voids_handles.start_typed [OF assms(1,3)] assms(2), where L = L and as = "as"] unfolding tpc_def by (auto split: res.splits fault.splits)

lemma demo_texts: "\<forall>f t. texts demo_files f = Some t \<longrightarrow> no_lvar t"
proof -
  have "no_lvar (file_text demo_source [CHR 0x0A])" "no_lvar (file_text demo_naps [CHR 0x0A])" by code_simp+
  then show ?thesis by (auto simp: texts_def demo_files_def split: if_splits)
qed

theorem process_typed_witness:
  "\<exists>w0 w. process_start list_voids list_cdll 2 1000 (program_init list_voids [] 0 [] (\<lambda>_. NUL) (0, 0, 0) (0, 0)) = Ok w0 \<and>
    acts list_voids list_cdll (texts demo_files) (demo_typed @ demo_threads) w0 = Ok w \<and> world_typed l_hinv map_of l_rinv snd w"
proof -
  let ?p = "program_init list_voids [] 0 [] (\<lambda>_. NUL) (0, 0, 0) (0, 0)" and ?as = "demo_typed @ demo_threads"
  obtain w0 where w0: "process_start list_voids list_cdll 2 1000 ?p = Ok w0" by (rule process_starts [OF lv.voids_lib_axioms])
  obtain w where w: "acts list_voids list_cdll (texts demo_files) ?as w0 = Ok w"
    using process_moves [OF lv.voids_lib_axioms ll.cdlist_axioms _ w0 demo_acts_len demo_acts_ok [OF w0]] by auto
  then have "world_typed l_hinv map_of l_rinv snd w" using process_typed [OF lvh.voids_handles_axioms demo_texts w0, of ?as] by simp
  then show ?thesis using w0 w by blast
qed

text \<open>
  C7: the end of the process.  After lines that were typed and steps of the threads under the conditions of C3 (\<open>acts_ok\<close>: sound files, no line typed in the window of C33, clocks that
  tick), a line that begins with \<open>q\<close>, \<open>quit\<close> or \<open>exit\<close> leaves the loop of the shell, and \<open>main\<close> stops the runtimes
  one after the other, while the threads go on in any order, with clocks that tick.  Threads that are asleep on the condition of an empty list are signalled.  If each thread makes four steps while the shell waits for it, every
  join returns, no step is undefined, every program that was still there is freed, whatever it was doing, all lists are empty and all threads have ended; and what each program has written is
  the output of its machine up to some line.
\<close>

theorem process_quits:
  assumes "voids_lib V hinv hmap rinv rlist" and "cdlist L linv lst" and "0 < n" and "process_start V L n mm p0 = Ok w0"
    and "length as < 2 ^ 31 - 1" and "acts_ok V L F as w0"
    and "list_all blank pre" and "spaced_ok ((c, g) # ws)" and "c \<in> {''q'', ''exit'', ''quit''}" and "stop_ok n 0 pbs"
  shows "\<exists>w w1 w2 cs. acts V L (texts F) as w0 = Ok w \<and>
    shell_round V L (texts F) junk jc jp (pre @ spaced ((c, g) # ws) @ [CHR 0x0A]) w = Ok (True, [], w1) \<and> stop_loop V L pbs 0 w1 = Ok w2 \<and>
    progs w2 = Map.empty \<and> (\<forall>rt \<in> set (rts w2). rt_pc rt = RtDone \<and> lst (program_list rt) = []) \<and> sh_out (shm w2) = concat (map snd cs) \<and>
    fst ` set cs \<subseteq> dom (jobs_of F 1 as) \<and>
    (\<forall>a av P tk. jobs_of F 1 as a = Some (av, P, tk) \<longrightarrow> (\<exists>k m. mgo av mm P k minit = Some m \<and> m_out m = said a cs))"
  by (rule process_stops [OF assms])

definition demo_stops :: "(action list \<times> action list) list" where
  "demo_stops = map (\<lambda>i. (take 6 demo_threads, replicate 4 (Thread i 5 (\<lambda>_. (\<lparr>tv_sec = 0, tv_nsec = 0\<rparr>, \<lparr>tv_sec = 0, tv_nsec = 1\<rparr>)) 10000000))) [0, 1]"

lemma steps_same: "steps i (replicate k (Thread i rnd clk fuel)) = k"
  by (induction k) simp_all

theorem process_quits_witness:
  "\<exists>w0 w w1 w2 cs. process_start list_voids list_cdll 2 1000 (program_init list_voids [] 0 [] (\<lambda>_. NUL) (0, 0, 0) (0, 0)) = Ok w0 \<and>
    acts list_voids list_cdll (texts demo_files) (demo_typed @ demo_threads) w0 = Ok w \<and>
    shell_round list_voids list_cdll (texts demo_files) (\<lambda>_. NUL) (0, 0, 0) (0, 0) (''quit'' @ [CHR 0x0A]) w = Ok (True, [], w1) \<and> stop_loop list_voids list_cdll demo_stops 0 w1 = Ok w2 \<and>
    progs w2 = Map.empty \<and> sh_out (shm w2) = concat (map snd cs) \<and> fst ` set cs \<subseteq> {1, 2} \<and>
    (\<exists>k m. mgo [1, 2, 4, 9] 1000 demo_source k minit = Some m \<and> m_out m = said 1 cs)"
proof -
  let ?p = "program_init list_voids [] 0 [] (\<lambda>_. NUL) (0, 0, 0) (0, 0)" and ?as = "demo_typed @ demo_threads"
  obtain w0 where w0: "process_start list_voids list_cdll 2 1000 ?p = Ok w0" by (rule process_starts [OF lv.voids_lib_axioms])
  have n: "0 < (2 :: nat)" by simp
  have t: "list_all (thread_ok 2) (take 6 demo_threads)"
    using demo_threads_ok by (metis append_take_drop_id list_all_append)
  have st: "stop_ok 2 0 demo_stops"
    using t by (simp add: demo_stops_def steps_same list_all_iff tick_ok_def ticking_def line_cost_def TIME_SLICE_MAX_NSEC_def)
  have ws: "list_all blank []" "spaced_ok [(''quit'', [])]" "''quit'' \<in> {''q'', ''exit'', ''quit''}" by (simp_all add: word_ok_def isspace_def isblank_def)
  have sp: "[] @ spaced [(''quit'', [])] @ [CHR 0x0A] = ''quit'' @ [CHR 0x0A]" by (simp add: spaced_def)
  from process_quits [OF lv.voids_lib_axioms ll.cdlist_axioms n w0 demo_acts_len demo_acts_ok [OF w0] ws st, of "\<lambda>_. NUL" "(0, 0, 0)" "(0, 0)", unfolded sp]
  obtain w w1 w2 cs where w: "acts list_voids list_cdll (texts demo_files) ?as w0 = Ok w"
    "shell_round list_voids list_cdll (texts demo_files) (\<lambda>_. NUL) (0, 0, 0) (0, 0) (''quit'' @ [CHR 0x0A]) w = Ok (True, [], w1)" "stop_loop list_voids list_cdll demo_stops 0 w1 = Ok w2"
    "progs w2 = Map.empty" "sh_out (shm w2) = concat (map snd cs)" "fst ` set cs \<subseteq> dom (jobs_of demo_files 1 ?as)"
    and j: "\<forall>a av P tk. jobs_of demo_files 1 ?as a = Some (av, P, tk) \<longrightarrow> (\<exists>k m. mgo av 1000 P k minit = Some m \<and> m_out m = said a cs)"
    by (elim exE conjE) (rule that)
  have "fst ` set cs \<subseteq> {1, 2}" using w(6) unfolding demo_jobs by auto
  moreover have "\<exists>k m. mgo [1, 2, 4, 9] 1000 demo_source k minit = Some m \<and> m_out m = said 1 cs"
    using j [THEN spec [of _ 1]] unfolding demo_jobs by auto
  ultimately show ?thesis using w0 w(1-5) by blast
qed

end
